(* ===== verification/Prelude.thy ===== *)
theory Prelude
  imports Main "HOL-Library.Word"
begin

text \<open>
  Shared vocabulary of the development: the machine integer types, byte-order
  conversions, slices, checked and saturating arithmetic, and the generic lemmas on
  lists and words that the component theories use.  Release and test builds of the
  workspace set \<open>overflow-checks = false\<close>, so \<open>+\<close> and \<open>-\<close> on Rust integers
  are the wrapping operations of \<open>'n word\<close>.  A \<open>usize\<close> that indexes a slice is
  a \<open>nat\<close>: slice lengths never reach the machine bound.
\<close>

unbundle bit_operations_syntax

type_synonym u8 = "8 word"
type_synonym u16 = "16 word"
type_synonym u32 = "32 word"
type_synonym u64 = "64 word"
type_synonym bytes = "u8 list"

named_theorems wordnat \<open>transfer of word arithmetic to nat under no-overflow facts\<close>

section \<open>Slices\<close>

text \<open>\<open>xs[a..b]\<close>.\<close>

definition slice :: "nat \<Rightarrow> nat \<Rightarrow> 'a list \<Rightarrow> 'a list" where
  "slice a b xs = take (b - a) (drop a xs)"

lemma length_slice [simp]: "b \<le> length xs \<Longrightarrow> length (slice a b xs) = b - a"
  by (simp add: slice_def)

lemma slice_append_skip [simp]:
  "length pre \<le> a \<Longrightarrow> slice a b (pre @ xs) = slice (a - length pre) (b - length pre) xs"
  by (simp add: slice_def)

lemma slice_0_take: "slice 0 n xs = take n xs"
  by (simp add: slice_def)

lemma slice_append_at:
  "length pre = a \<Longrightarrow> length mid = n \<Longrightarrow> slice a (a + n) (pre @ mid @ post) = mid"
  by (simp add: slice_def)

lemma slice_all: "a = 0 \<Longrightarrow> length xs \<le> b \<Longrightarrow> slice a b xs = xs"
  by (simp add: slice_def)

lemma nth_slice: "a + i < b \<Longrightarrow> b \<le> length xs \<Longrightarrow> slice a b xs ! i = xs ! (a + i)"
  by (simp add: slice_def)

lemma slice_slice: "c + b \<le> d \<Longrightarrow> slice a b (slice c d xs) = slice (c + a) (c + b) xs"
  by (simp add: slice_def drop_take min_def add.commute)

lemma drop_two_nth: "2 \<le> length xs \<Longrightarrow> xs = xs ! 0 # xs ! 1 # drop 2 xs"
  by (cases xs; cases "tl xs") auto

lemma take_drop_join: "take n (drop a xs) @ drop (a + n) xs = drop a xs"
  by (metis add.commute append_take_drop_id drop_drop)

section \<open>Byte order\<close>

text \<open>The value of a big-endian digit string; \<open>from_be_bytes\<close> of Rust is
  \<open>of_nat\<close> of it at the width of the result.\<close>

primrec be_val :: "bytes \<Rightarrow> nat" where
  "be_val [] = 0"
| "be_val (b # bs) = unat b * 256 ^ length bs + be_val bs"

primrec be_digits :: "nat \<Rightarrow> nat \<Rightarrow> bytes" where
  "be_digits 0 x = []"
| "be_digits (Suc n) x = of_nat (x div 256 ^ n) # be_digits n x"

definition u16_from_be_bytes :: "bytes \<Rightarrow> u16" where
  "u16_from_be_bytes bs = of_nat (be_val bs)"

definition u32_from_be_bytes :: "bytes \<Rightarrow> u32" where
  "u32_from_be_bytes bs = of_nat (be_val bs)"

definition u64_from_be_bytes :: "bytes \<Rightarrow> u64" where
  "u64_from_be_bytes bs = of_nat (be_val bs)"

definition u64_from_le_bytes :: "bytes \<Rightarrow> u64" where
  "u64_from_le_bytes bs = of_nat (be_val (rev bs))"

definition u16_to_be_bytes :: "u16 \<Rightarrow> bytes" where
  "u16_to_be_bytes x = be_digits 2 (unat x)"

definition u32_to_be_bytes :: "u32 \<Rightarrow> bytes" where
  "u32_to_be_bytes x = be_digits 4 (unat x)"

definition u64_to_be_bytes :: "u64 \<Rightarrow> bytes" where
  "u64_to_be_bytes x = be_digits 8 (unat x)"

lemma length_be_digits [simp]: "length (be_digits n x) = n"
  by (induction n) simp_all

lemma unat_u8_less: "unat (b :: u8) < 256"
proof -
  have "unat b < 2 ^ LENGTH(8)" by (rule unsigned_less)
  then show ?thesis by simp
qed

lemma unat_u16_less: "unat (x :: u16) < 65536"
proof -
  have "unat x < 2 ^ LENGTH(16)" by (rule unsigned_less)
  then show ?thesis by simp
qed

lemma unat_u32_less: "unat (x :: u32) < 4294967296"
proof -
  have "unat x < 2 ^ LENGTH(32)" by (rule unsigned_less)
  then show ?thesis by simp
qed

lemma unat_u64_less: "unat (x :: u64) < 18446744073709551616"
proof -
  have "unat x < 2 ^ LENGTH(64)" by (rule unsigned_less)
  then show ?thesis by simp
qed

lemma be_val_bound: "be_val bs < 256 ^ length bs"
proof (induction bs)
  case Nil
  then show ?case by simp
next
  case (Cons b bs)
  have "(unat b + 1) * 256 ^ length bs \<le> 256 * 256 ^ length bs"
    using unat_u8_less [of b] by (intro mult_right_mono) auto
  then have "unat b * 256 ^ length bs + 256 ^ length bs \<le> 256 * 256 ^ length bs"
    by (simp only: distrib_right mult_1)
  with Cons have "unat b * 256 ^ length bs + be_val bs < 256 * 256 ^ length bs" by linarith
  then show ?case by simp
qed

lemma be_val_append: "be_val (xs @ ys) = be_val xs * 256 ^ length ys + be_val ys"
  by (induction xs) (simp_all add: algebra_simps power_add)

lemma unat_of_nat_u8 [simp]: "unat (of_nat x :: u8) = x mod 256"
  by (simp add: unat_of_nat)

lemma be_val_digits: "be_val (be_digits n x) = x mod 256 ^ n"
proof (induction n)
  case 0
  then show ?case by simp
next
  case (Suc n)
  have "x mod 256 ^ Suc n = 256 ^ n * (x div 256 ^ n mod 256) + x mod 256 ^ n"
    using mod_mult2_eq [of x "256 ^ n" 256] by (simp add: mult.commute)
  with Suc show ?case by (simp add: mult.commute)
qed

lemma nat_mod_mult_div: "0 < a \<Longrightarrow> x mod (a * b) div a = x div a mod (b :: nat)"
  by (simp add: mod_mult2_eq)

lemma be_digits_mod: "be_digits n (x mod 256 ^ k) = be_digits n x" if "n \<le> k"
  using that
proof (induction n)
  case 0
  then show ?case by simp
next
  case (Suc n)
  have eq: "x mod 256 ^ k div 256 ^ n mod 256 = x div 256 ^ n mod 256"
  proof -
    have "(256::nat) ^ k = 256 ^ n * (256 * 256 ^ (k - Suc n))"
      using Suc.prems by (simp flip: power_add power_Suc)
    then have "x mod 256 ^ k div 256 ^ n = x div 256 ^ n mod (256 * 256 ^ (k - Suc n))"
      by (simp add: nat_mod_mult_div)
    then show ?thesis by (simp add: mod_mult_right_eq mod_mod_cancel)
  qed
  have "(of_nat (x mod 256 ^ k div 256 ^ n) :: u8) = of_nat (x div 256 ^ n)"
    by (rule word_unat_eq_iff [THEN iffD2]) (simp add: eq)
  with Suc show ?case by simp
qed

lemma be_digits_val: "length bs = n \<Longrightarrow> be_digits n (be_val bs) = bs"
proof (induction bs arbitrary: n)
  case Nil
  then show ?case by simp
next
  case (Cons b bs)
  then obtain m where n: "n = Suc m" and m: "length bs = m" by auto
  have v: "be_val (b # bs) = unat b * 256 ^ m + be_val bs" using m by simp
  have lt: "be_val bs < 256 ^ m" using be_val_bound [of bs] m by simp
  have hd: "be_val (b # bs) div 256 ^ m = unat b" unfolding v using lt by simp
  have "be_digits m (be_val (b # bs)) = be_digits m (be_val (b # bs) mod 256 ^ m)"
    by (simp add: be_digits_mod)
  also have "be_val (b # bs) mod 256 ^ m = be_val bs" unfolding v using lt by simp
  also have "be_digits m (be_val bs) = bs" using Cons.IH m by blast
  finally show ?case using n hd by simp
qed

lemma u16_be_roundtrip [simp]: "u16_from_be_bytes (u16_to_be_bytes x) = x"
  using unat_u16_less [of x]
  by (simp add: u16_from_be_bytes_def u16_to_be_bytes_def be_val_digits)

lemma u32_be_roundtrip [simp]: "u32_from_be_bytes (u32_to_be_bytes x) = x"
  using unat_u32_less [of x]
  by (simp add: u32_from_be_bytes_def u32_to_be_bytes_def be_val_digits)

lemma u64_be_roundtrip [simp]: "u64_from_be_bytes (u64_to_be_bytes x) = x"
  using unat_u64_less [of x]
  by (simp add: u64_from_be_bytes_def u64_to_be_bytes_def be_val_digits)

lemma u16_to_from_be: "length bs = 2 \<Longrightarrow> u16_to_be_bytes (u16_from_be_bytes bs) = bs"
  using be_val_bound [of bs]
  by (simp add: u16_from_be_bytes_def u16_to_be_bytes_def unat_of_nat be_digits_val)

lemma u32_to_from_be: "length bs = 4 \<Longrightarrow> u32_to_be_bytes (u32_from_be_bytes bs) = bs"
  using be_val_bound [of bs]
  by (simp add: u32_from_be_bytes_def u32_to_be_bytes_def unat_of_nat be_digits_val)

lemma u64_to_from_be: "length bs = 8 \<Longrightarrow> u64_to_be_bytes (u64_from_be_bytes bs) = bs"
  using be_val_bound [of bs]
  by (simp add: u64_from_be_bytes_def u64_to_be_bytes_def unat_of_nat be_digits_val)

lemma length_to_be_bytes [simp]:
  "length (u16_to_be_bytes a) = 2" "length (u32_to_be_bytes b) = 4"
  "length (u64_to_be_bytes c) = 8"
  by (simp_all add: u16_to_be_bytes_def u32_to_be_bytes_def u64_to_be_bytes_def)

lemma unat_u16_from_be: "length bs = 2 \<Longrightarrow> unat (u16_from_be_bytes bs) = be_val bs"
  using be_val_bound [of bs] by (simp add: u16_from_be_bytes_def unat_of_nat)

lemma u64_le_inj:
  "length xs = 8 \<Longrightarrow> length ys = 8 \<Longrightarrow> u64_from_le_bytes xs = u64_from_le_bytes ys \<longleftrightarrow> xs = ys"
proof
  assume l: "length xs = 8" "length ys = 8" and e: "u64_from_le_bytes xs = u64_from_le_bytes ys"
  have "u64_from_be_bytes (rev xs) = u64_from_be_bytes (rev ys)"
    using e by (simp add: u64_from_le_bytes_def u64_from_be_bytes_def)
  then have "u64_to_be_bytes (u64_from_be_bytes (rev xs)) = u64_to_be_bytes (u64_from_be_bytes (rev ys))"
    by simp
  then show "xs = ys" using l by (simp add: u64_to_from_be)
qed simp

section \<open>Checked and saturating arithmetic\<close>

definition checked_add64 :: "u64 \<Rightarrow> u64 \<Rightarrow> u64 option" where
  "checked_add64 a b = (if unat a + unat b < 2 ^ 64 then Some (a + b) else None)"

definition saturating_sub64 :: "u64 \<Rightarrow> u64 \<Rightarrow> u64" where
  "saturating_sub64 a b = (if a < b then 0 else a - b)"

definition saturating_add64 :: "u64 \<Rightarrow> u64 \<Rightarrow> u64" where
  "saturating_add64 a b = (if unat a + unat b < 2 ^ 64 then a + b else - 1)"

lemma unat_plus_u64 [wordnat]:
  "unat a + unat b < 2 ^ 64 \<Longrightarrow> unat (a + b :: u64) = unat a + unat b"
  by (simp add: unat_word_ariths)

lemma unat_minus_u64 [wordnat]:
  "unat b \<le> unat a \<Longrightarrow> unat (a - b :: u64) = unat a - unat b"
  by (simp add: unat_sub word_le_nat_alt)

lemma unat_of_nat_u64 [wordnat]: "x < 2 ^ 64 \<Longrightarrow> unat (of_nat x :: u64) = x"
  by (simp add: unat_of_nat)

lemma unat_of_nat_u32 [wordnat]: "x < 2 ^ 32 \<Longrightarrow> unat (of_nat x :: u32) = x"
  by (simp add: unat_of_nat)

lemma of_nat_eq_u64: "x < 2 ^ 64 \<Longrightarrow> unat w = x \<Longrightarrow> w = (of_nat x :: u64)"
  by auto

lemma unat_ucast_u16_u64 [simp]: "unat (ucast (x :: u16) :: u64) = unat x"
  using unat_u16_less [of x] by (simp add: unsigned_ucast_eq take_bit_nat_eq_self_iff)

lemma unat_ucast_u32_u64 [simp]: "unat (ucast (x :: u32) :: u64) = unat x"
  using unat_u32_less [of x] by (simp add: unsigned_ucast_eq take_bit_nat_eq_self_iff)

section \<open>Lists\<close>

lemma concat_map_singleton_eq: "concat (map (\<lambda>x. [f x]) xs) = map f xs"
  by (induction xs) simp_all

lemma foldl_append_calls: "foldl (\<lambda>acc x. acc @ f x) acc xs = acc @ concat (map f xs)"
  by (induction xs arbitrary: acc) simp_all

end
