(* ===== verification/MoldUdp64.thy ===== *)
theory MoldUdp64
  imports Prelude
begin

text \<open>
  The MoldUDP64 framing codec, \<open>crates/nf-protocol/src/moldudp64.rs\<close> up to
  \<open>encode_request\<close>: the header, its classification and span, the eager parser and the
  block iterator.  A read the Rust code guards by a length test is a list access behind
  the same test; the iterator indexes its buffer without a test, so an out-of-range read
  or slice there is the value \<open>None\<close>, the panic.  The specification side is
  \<open>mold_frame\<close>, the wire form of a packet: \<open>parse\<close> accepts exactly those frames
  (minus the zero-length rule the catalogue lists), reports the first error in its
  documented order, and hands the iterator a buffer on which it never panics.
\<close>

section \<open>Header\<close>

abbreviation HEADER_LEN :: nat where "HEADER_LEN \<equiv> 20"
abbreviation (input) REQUEST_LEN :: nat where "REQUEST_LEN \<equiv> 20"
abbreviation HEARTBEAT_COUNT :: u16 where "HEARTBEAT_COUNT \<equiv> 0"
abbreviation EOS_COUNT :: u16 where "EOS_COUNT \<equiv> 0xFFFF"

type_synonym SessionId = bytes

record Header =
  hdr_session :: SessionId
  hdr_seq :: u64
  hdr_count :: u16

datatype Kind = KData | KHeartbeat | KEndOfSession

definition kind :: "Header \<Rightarrow> Kind" where
  "kind h =
     (if hdr_count h = HEARTBEAT_COUNT then KHeartbeat
      else if hdr_count h = EOS_COUNT then KEndOfSession
      else KData)"

definition span :: "Header \<Rightarrow> (u64 \<times> u64) option" where
  "span h =
     (if hdr_count h = HEARTBEAT_COUNT \<or> hdr_count h = EOS_COUNT then None
      else case checked_add64 (hdr_seq h) (ucast (hdr_count h) - 1) of
             None \<Rightarrow> None
           | Some end \<Rightarrow> Some (hdr_seq h, end))"

datatype FrameError =
    Truncated nat nat
  | TrailingBytes nat
  | BlockOverrun
  | ZeroLengthMessage
  | SeqOverflow

section \<open>Block iterator\<close>

record MessageBlock =
  mb_seq :: u64
  mb_data :: bytes

record MessageBlocks =
  mbs_buf :: bytes
  mbs_pos :: nat
  mbs_next_seq :: u64
  mbs_remaining :: u16

definition MessageBlocks_new :: "bytes \<Rightarrow> u64 \<Rightarrow> u16 \<Rightarrow> MessageBlocks" where
  "MessageBlocks_new buf start_seq count =
     \<lparr>mbs_buf = buf, mbs_pos = 0, mbs_next_seq = start_seq, mbs_remaining = count\<rparr>"

text \<open>
  \<open>next\<close>: the outer option is the panic of an out-of-range index or slice, the inner
  one the iterator's end.
\<close>

definition MessageBlocks_next ::
    "MessageBlocks \<Rightarrow> (MessageBlocks \<times> MessageBlock option) option" where
  "MessageBlocks_next it =
     (if mbs_remaining it = 0 then Some (it, None)
      else if length (mbs_buf it) < mbs_pos it + 2 then None
      else let len = unat (u16_from_be_bytes [mbs_buf it ! mbs_pos it, mbs_buf it ! (mbs_pos it + 1)]);
               start = mbs_pos it + 2;
               end = start + len
           in if length (mbs_buf it) < end then None
              else Some (it\<lparr>mbs_pos := end, mbs_next_seq := mbs_next_seq it + 1,
                            mbs_remaining := mbs_remaining it - 1\<rparr>,
                         Some \<lparr>mb_seq = mbs_next_seq it, mb_data = slice start end (mbs_buf it)\<rparr>))"

definition MessageBlocks_len :: "MessageBlocks \<Rightarrow> nat" where
  "MessageBlocks_len it = unat (mbs_remaining it)"

text \<open>The \<open>for\<close> loop over an iterator: one \<open>next\<close> per remaining block and the
  final one that ends it.\<close>

fun blocks_collect :: "nat \<Rightarrow> MessageBlocks \<Rightarrow> MessageBlock list option" where
  "blocks_collect 0 it = None"
| "blocks_collect (Suc fuel) it =
     (case MessageBlocks_next it of
        None \<Rightarrow> None
      | Some (it', None) \<Rightarrow> Some []
      | Some (it', Some b) \<Rightarrow> map_option ((#) b) (blocks_collect fuel it'))"

definition collect_blocks :: "MessageBlocks \<Rightarrow> MessageBlock list option" where
  "collect_blocks it = blocks_collect (Suc (MessageBlocks_len it)) it"

section \<open>Parser\<close>

datatype Parsed =
    Data Header MessageBlocks
  | Heartbeat Header
  | EndOfSession Header

definition parse_header :: "bytes \<Rightarrow> FrameError + Header" where
  "parse_header buf =
     (if length buf < HEADER_LEN then Inl (Truncated HEADER_LEN (length buf))
      else Inr \<lparr>hdr_session = slice 0 10 buf,
                hdr_seq = u64_from_be_bytes (slice 10 18 buf),
                hdr_count = u16_from_be_bytes (slice 18 20 buf)\<rparr>)"

fun parse_blocks :: "nat \<Rightarrow> bytes \<Rightarrow> FrameError + bytes" where
  "parse_blocks 0 rest = Inr rest"
| "parse_blocks (Suc n) rest =
     (if length rest < 2 then Inl BlockOverrun
      else let len = unat (u16_from_be_bytes [rest ! 0, rest ! 1])
           in if length rest < 2 + len then Inl BlockOverrun
              else parse_blocks n (drop (2 + len) rest))"

definition parse :: "bytes \<Rightarrow> FrameError + Parsed" where
  "parse buf =
     (if length buf < HEADER_LEN then Inl (Truncated HEADER_LEN (length buf))
      else case parse_header buf of
        Inl e \<Rightarrow> Inl e
      | Inr hdr \<Rightarrow>
         if hdr_count hdr \<noteq> HEARTBEAT_COUNT \<and> hdr_count hdr \<noteq> EOS_COUNT
            \<and> checked_add64 (hdr_seq hdr) (ucast (hdr_count hdr) - 1) = None
         then Inl SeqOverflow
         else if hdr_count hdr = HEARTBEAT_COUNT then
           (if length buf \<noteq> HEADER_LEN then Inl (TrailingBytes (length buf - HEADER_LEN))
            else Inr (Heartbeat hdr))
         else if hdr_count hdr = EOS_COUNT then
           (if length buf \<noteq> HEADER_LEN then Inl (TrailingBytes (length buf - HEADER_LEN))
            else Inr (EndOfSession hdr))
         else
           (case parse_blocks (unat (hdr_count hdr)) (drop HEADER_LEN buf) of
              Inl e \<Rightarrow> Inl e
            | Inr rest \<Rightarrow>
               if rest \<noteq> [] then Inl (TrailingBytes (length rest))
               else Inr (Data hdr (MessageBlocks_new (drop HEADER_LEN buf) (hdr_seq hdr) (hdr_count hdr)))))"

text \<open>\<open>encode_request\<close> fills a caller's 20-byte buffer completely; the model returns it.\<close>

definition encode_request :: "SessionId \<Rightarrow> u64 \<Rightarrow> u16 \<Rightarrow> bytes" where
  "encode_request session from_seq count =
     session @ u64_to_be_bytes from_seq @ u16_to_be_bytes count"

section \<open>Wire form\<close>

definition mold_block :: "bytes \<Rightarrow> bytes" where
  "mold_block m = u16_to_be_bytes (of_nat (length m)) @ m"

definition mold_body :: "bytes list \<Rightarrow> bytes" where
  "mold_body ms = concat (map mold_block ms)"

definition mold_frame :: "SessionId \<Rightarrow> u64 \<Rightarrow> u16 \<Rightarrow> bytes list \<Rightarrow> bytes" where
  "mold_frame session sq count ms =
     session @ u64_to_be_bytes sq @ u16_to_be_bytes count @ mold_body ms"

lemma mold_body_simps [simp]:
  "mold_body [] = []" "mold_body (m # ms) = mold_block m @ mold_body ms"
  by (simp_all add: mold_body_def)

lemma length_mold_block [simp]: "length (mold_block m) = 2 + length m"
  by (simp add: mold_block_def)

lemma mold_block_prefix:
  assumes "length m < 65536"
  shows "unat (u16_from_be_bytes [(mold_block m @ rest) ! 0, (mold_block m @ rest) ! 1]) = length m"
proof -
  have l: "2 \<le> length (mold_block m @ rest)" by simp
  have "take 2 (mold_block m @ rest) = [(mold_block m @ rest) ! 0, (mold_block m @ rest) ! 1]"
    using arg_cong [OF drop_two_nth [OF l], of "take 2"] by (simp add: numeral_2_eq_2)
  moreover have "take 2 (mold_block m @ rest) = u16_to_be_bytes (of_nat (length m))"
    by (simp add: mold_block_def)
  ultimately have "[(mold_block m @ rest) ! 0, (mold_block m @ rest) ! 1] = u16_to_be_bytes (of_nat (length m))"
    by (rule trans [OF sym])
  then show ?thesis using assms by (simp add: unat_of_nat)
qed

lemma mold_block_read:
  assumes "2 \<le> length rest"
  defines "n \<equiv> unat (u16_from_be_bytes [rest ! 0, rest ! 1])"
  assumes "2 + n \<le> length rest"
  shows "rest = mold_block (slice 2 (2 + n) rest) @ drop (2 + n) rest"
proof -
  have two: "rest = [rest ! 0, rest ! 1] @ drop 2 rest"
    using drop_two_nth [OF assms(1)] by simp
  have len: "length (slice 2 (2 + n) rest) = n" using assms(3) by simp
  have "u16_to_be_bytes (of_nat n) = [rest ! 0, rest ! 1]"
    unfolding n_def by (simp add: u16_to_from_be)
  moreover have "drop 2 rest = slice 2 (2 + n) rest @ drop (2 + n) rest"
    using take_drop_join [of n 2 rest] by (simp add: slice_def)
  ultimately show ?thesis using two len by (simp add: mold_block_def)
qed

lemma parse_header_frame:
  assumes "length s = 10"
  shows "parse_header (mold_frame s q c ms) = Inr \<lparr>hdr_session = s, hdr_seq = q, hdr_count = c\<rparr>"
proof -
  have "slice 10 18 (mold_frame s q c ms) = u64_to_be_bytes q"
    using slice_append_at [of s 10 "u64_to_be_bytes q" 8] assms by (simp add: mold_frame_def)
  moreover have "slice 18 20 (mold_frame s q c ms) = u16_to_be_bytes c"
    using slice_append_at [of "s @ u64_to_be_bytes q" 18 "u16_to_be_bytes c" 2] assms
    by (simp add: mold_frame_def)
  moreover have "slice 0 10 (mold_frame s q c ms) = s"
    using assms by (simp add: mold_frame_def slice_def)
  ultimately show ?thesis using assms by (simp add: parse_header_def mold_frame_def)
qed

lemma drop_header_frame: "length s = 10 \<Longrightarrow> drop 20 (mold_frame s q c ms) = mold_body ms"
  by (simp add: mold_frame_def)

lemma length_frame: "length s = 10 \<Longrightarrow> length (mold_frame s q c ms) = 20 + length (mold_body ms)"
  by (simp add: mold_frame_def)

text \<open>Every buffer with a whole header is the wire form of its header fields and body.\<close>

lemma frame_of_header:
  assumes "parse_header buf = Inr h"
  shows "20 \<le> length buf" "length (hdr_session h) = 10"
    "buf = hdr_session h @ u64_to_be_bytes (hdr_seq h) @ u16_to_be_bytes (hdr_count h) @ drop 20 buf"
proof -
  from assms have l: "20 \<le> length buf"
    and h: "h = \<lparr>hdr_session = slice 0 10 buf, hdr_seq = u64_from_be_bytes (slice 10 18 buf),
                hdr_count = u16_from_be_bytes (slice 18 20 buf)\<rparr>"
    by (auto simp: parse_header_def split: if_splits)
  show "20 \<le> length buf" by (rule l)
  show "length (hdr_session h) = 10" using l by (simp add: h)
  have "buf = take 10 buf @ take 8 (drop 10 buf) @ take 2 (drop 18 buf) @ drop 20 buf"
    using take_drop_join [of 8 10 buf] take_drop_join [of 2 18 buf] by simp
  then show "buf = hdr_session h @ u64_to_be_bytes (hdr_seq h) @ u16_to_be_bytes (hdr_count h) @ drop 20 buf"
    using l by (simp add: h slice_def u64_to_from_be u16_to_from_be)
qed

section \<open>The parser accepts the wire form and nothing else\<close>

lemma parse_blocks_frame:
  "\<forall>m \<in> set ms. length m < 65536 \<Longrightarrow> parse_blocks (length ms) (mold_body ms @ tail) = Inr tail"
proof (induction ms)
  case Nil
  then show ?case by simp
next
  case (Cons m ms)
  then show ?case
    using mold_block_prefix [of m "mold_body ms @ tail"] by (simp add: Let_def)
qed

lemma parse_blocks_ok:
  "parse_blocks n rest = Inr tail \<Longrightarrow>
     \<exists>ms. length ms = n \<and> (\<forall>m \<in> set ms. length m < 65536) \<and> rest = mold_body ms @ tail"
proof (induction n rest rule: parse_blocks.induct)
  case (1 rest)
  then show ?case by simp
next
  case (2 n rest)
  let ?l = "unat (u16_from_be_bytes [rest ! 0, rest ! 1])"
  from "2.prems" have l: "2 \<le> length rest" "2 + ?l \<le> length rest"
    and r: "parse_blocks n (drop (2 + ?l) rest) = Inr tail"
    by (auto simp: Let_def split: if_splits)
  from "2.IH" [OF _ refl _ r] l obtain ms where
    ms: "length ms = n" "\<forall>m \<in> set ms. length m < 65536" "drop (2 + ?l) rest = mold_body ms @ tail"
    by auto
  let ?m = "slice 2 (2 + ?l) rest"
  have "rest = mold_body (?m # ms) @ tail"
    using mold_block_read [of rest] l ms(3) by simp
  moreover have "length ?m < 65536"
    using l unat_u16_less [of "u16_from_be_bytes [rest ! 0, rest ! 1]"] by simp
  ultimately show ?case using ms by (intro exI [of _ "?m # ms"]) simp
qed

lemma parse_blocks_error: "parse_blocks n rest = Inl e \<Longrightarrow> e = BlockOverrun"
  by (induction n rest rule: parse_blocks.induct) (auto simp: Let_def split: if_splits)

lemma parse_frame_data:
  assumes "length s = 10" "length ms = unat c" "c \<noteq> HEARTBEAT_COUNT" "c \<noteq> EOS_COUNT"
    and "\<forall>m \<in> set ms. length m < 65536" "unat q + length ms \<le> 2 ^ 64"
  shows "parse (mold_frame s q c ms) =
    Inr (Data \<lparr>hdr_session = s, hdr_seq = q, hdr_count = c\<rparr> (MessageBlocks_new (mold_body ms) q c))"
proof -
  have c0: "unat c \<noteq> 0" using assms(3) by (simp add: unat_eq_zero)
  have le: "(1 :: u64) \<le> ucast c" using c0 by (simp add: word_le_nat_alt)
  have "unat (ucast c - 1 :: u64) = unat c - 1"
    using unat_sub [OF le] by simp
  then have "checked_add64 q (ucast c - 1) \<noteq> None"
    using assms(2,6) c0 by (auto simp: checked_add64_def)
  moreover have "parse_blocks (unat c) (mold_body ms) = Inr []"
    using parse_blocks_frame [of ms "[]"] assms(2,5) by simp
  ultimately show ?thesis
    using assms(1,3,4) by (auto simp: parse_def length_frame parse_header_frame drop_header_frame)
qed

lemma parse_data_frame:
  assumes "parse buf = Inr (Data h bl)"
  shows "\<exists>ms. buf = mold_frame (hdr_session h) (hdr_seq h) (hdr_count h) ms \<and>
    length (hdr_session h) = 10 \<and> length ms = unat (hdr_count h) \<and>
    hdr_count h \<noteq> HEARTBEAT_COUNT \<and> hdr_count h \<noteq> EOS_COUNT \<and>
    (\<forall>m \<in> set ms. length m < 65536) \<and>
    bl = MessageBlocks_new (mold_body ms) (hdr_seq h) (hdr_count h)"
proof -
  from assms have ph: "parse_header buf = Inr h" "hdr_count h \<noteq> 0" "hdr_count h \<noteq> 0xFFFF"
    and pb: "parse_blocks (unat (hdr_count h)) (drop 20 buf) = Inr []"
    and bl: "bl = MessageBlocks_new (drop 20 buf) (hdr_seq h) (hdr_count h)"
    by (auto simp: parse_def split: sum.splits if_splits)
  from parse_blocks_ok [OF pb] obtain ms where
    ms: "length ms = unat (hdr_count h)" "\<forall>m \<in> set ms. length m < 65536" "drop 20 buf = mold_body ms"
    by auto
  show ?thesis
    using frame_of_header [OF ph(1)] ph ms bl by (intro exI [of _ ms]) (simp add: mold_frame_def)
qed

section \<open>The iterator\<close>

fun number_blocks :: "u64 \<Rightarrow> bytes list \<Rightarrow> MessageBlock list" where
  "number_blocks q [] = []"
| "number_blocks q (m # ms) = \<lparr>mb_seq = q, mb_data = m\<rparr> # number_blocks (q + 1) ms"

lemma length_number_blocks [simp]: "length (number_blocks q ms) = length ms"
  by (induction ms arbitrary: q) simp_all

lemma number_blocks_nth:
  "i < length ms \<Longrightarrow> number_blocks q ms ! i = \<lparr>mb_seq = q + of_nat i, mb_data = ms ! i\<rparr>"
  by (induction ms arbitrary: q i) (auto simp: nth_Cons' gr0_conv_Suc ac_simps)

lemma MessageBlocks_next_frame:
  assumes "length m < 65536" "mbs_buf it = pre @ mold_block m @ rest" "mbs_pos it = length pre"
    "mbs_remaining it \<noteq> 0"
  shows "MessageBlocks_next it =
    Some (it\<lparr>mbs_pos := length (pre @ mold_block m), mbs_next_seq := mbs_next_seq it + 1,
             mbs_remaining := mbs_remaining it - 1\<rparr>, Some \<lparr>mb_seq = mbs_next_seq it, mb_data = m\<rparr>)"
proof -
  have "slice (length pre + 2) (length pre + 2 + length m) (pre @ mold_block m @ rest) = m"
    using slice_append_at [of "pre @ u16_to_be_bytes (of_nat (length m))" "length pre + 2" m "length m" rest]
    by (simp add: mold_block_def)
  then show ?thesis
    using assms mold_block_prefix [OF assms(1), of rest]
    by (simp add: MessageBlocks_next_def nth_append Let_def)
qed

lemma blocks_collect_frame:
  "\<forall>m \<in> set ms. length m < 65536 \<Longrightarrow> length ms < 65536 \<Longrightarrow> mbs_buf it = pre @ mold_body ms \<Longrightarrow>
   mbs_pos it = length pre \<Longrightarrow> mbs_remaining it = of_nat (length ms) \<Longrightarrow>
   blocks_collect (Suc (length ms)) it = Some (number_blocks (mbs_next_seq it) ms)"
proof (induction ms arbitrary: it pre)
  case Nil
  then show ?case by (simp add: MessageBlocks_next_def)
next
  case (Cons m ms)
  let ?it = "it\<lparr>mbs_pos := length (pre @ mold_block m), mbs_next_seq := mbs_next_seq it + 1,
             mbs_remaining := mbs_remaining it - 1\<rparr>"
  have "unat (mbs_remaining it) = length (m # ms) mod 65536"
    by (simp only: Cons.prems) (simp add: unat_of_nat del: of_nat_Suc)
  then have "unat (mbs_remaining it) = Suc (length ms)"
    using Cons.prems(2) by simp
  then have "mbs_remaining it \<noteq> 0" by auto
  then have "MessageBlocks_next it = Some (?it, Some \<lparr>mb_seq = mbs_next_seq it, mb_data = m\<rparr>)"
    using Cons.prems by (intro MessageBlocks_next_frame [where rest = "mold_body ms"]) simp_all
  moreover have "blocks_collect (Suc (length ms)) ?it = Some (number_blocks (mbs_next_seq ?it) ms)"
    using Cons.prems by (intro Cons.IH [where pre = "pre @ mold_block m"]) simp_all
  ultimately show ?case by (simp del: blocks_collect.simps(2) add: blocks_collect.simps(2) [of "Suc (length ms)" it])
qed

lemma collect_new_blocks:
  assumes "\<forall>m \<in> set ms. length m < 65536" "length ms = unat c"
  shows "collect_blocks (MessageBlocks_new (mold_body ms) q c) = Some (number_blocks q ms)"
proof -
  have "length ms < 65536" using assms(2) unat_u16_less [of c] by simp
  then show ?thesis
    using blocks_collect_frame [OF assms(1), of "MessageBlocks_new (mold_body ms) q c" "[]"] assms(2)
    by (simp add: collect_blocks_def MessageBlocks_len_def MessageBlocks_new_def del: blocks_collect.simps)
qed

section \<open>Properties\<close>

text \<open>C24: the parser accepts a data packet exactly when it is the wire form of a header and
  as many blocks as the count announces, with a sequence span inside u64, and the block
  buffer it returns is the packet's body.\<close>

theorem parse_data_iff:
  "parse buf = Inr (Data h bl) \<longleftrightarrow>
    (\<exists>ms. buf = mold_frame (hdr_session h) (hdr_seq h) (hdr_count h) ms \<and>
      length (hdr_session h) = 10 \<and> length ms = unat (hdr_count h) \<and>
      hdr_count h \<noteq> HEARTBEAT_COUNT \<and> hdr_count h \<noteq> EOS_COUNT \<and>
      list_all (\<lambda>m. length m < 65536) ms \<and>
      unat (hdr_seq h) + length ms \<le> 2 ^ 64 \<and>
      bl = MessageBlocks_new (mold_body ms) (hdr_seq h) (hdr_count h))"
proof
  assume p: "parse buf = Inr (Data h bl)"
  from parse_data_frame [OF this] obtain ms where
    ms: "buf = mold_frame (hdr_session h) (hdr_seq h) (hdr_count h) ms"
      "length (hdr_session h) = 10" "length ms = unat (hdr_count h)"
      "hdr_count h \<noteq> HEARTBEAT_COUNT" "hdr_count h \<noteq> EOS_COUNT"
      "\<forall>m \<in> set ms. length m < 65536"
      "bl = MessageBlocks_new (mold_body ms) (hdr_seq h) (hdr_count h)"
    by auto
  have "checked_add64 (hdr_seq h) (ucast (hdr_count h) - 1) \<noteq> None"
    using p ms(4,5) by (auto simp: parse_def parse_header_def split: sum.splits if_splits)
  then have "unat (hdr_seq h) + unat (ucast (hdr_count h) - 1 :: u64) < 2 ^ 64"
    by (auto simp: checked_add64_def split: if_splits)
  moreover have "unat (ucast (hdr_count h) - 1 :: u64) = unat (hdr_count h) - 1"
    using ms(4) by (simp add: unat_minus_u64 unat_eq_zero [symmetric] Suc_le_eq)
  ultimately have "unat (hdr_seq h) + length ms \<le> 2 ^ 64" using ms(3) by arith
  with ms show "\<exists>ms. buf = mold_frame (hdr_session h) (hdr_seq h) (hdr_count h) ms \<and>
      length (hdr_session h) = 10 \<and> length ms = unat (hdr_count h) \<and>
      hdr_count h \<noteq> HEARTBEAT_COUNT \<and> hdr_count h \<noteq> EOS_COUNT \<and>
      list_all (\<lambda>m. length m < 65536) ms \<and> unat (hdr_seq h) + length ms \<le> 2 ^ 64 \<and>
      bl = MessageBlocks_new (mold_body ms) (hdr_seq h) (hdr_count h)"
    by (auto simp: list_all_iff)
qed (auto simp: list_all_iff parse_frame_data)

text \<open>Iterating the blocks of an accepted packet never reads out of range, ends after
  exactly \<open>count\<close> blocks, and yields the blocks on the wire, numbered from the header's
  sequence number.\<close>

theorem parse_iterates:
  assumes "parse buf = Inr (Data h bl)"
  shows "\<exists>ms. collect_blocks bl = Some (number_blocks (hdr_seq h) ms) \<and>
    length ms = unat (hdr_count h) \<and>
    buf = mold_frame (hdr_session h) (hdr_seq h) (hdr_count h) ms"
  using parse_data_frame [OF assms] by (auto intro: collect_new_blocks)

lemma parse_iterates_witness:
  "\<exists>ms. collect_blocks (MessageBlocks_new (mold_body [[1, 2], [3]]) 7 2) = Some (number_blocks 7 ms) \<and>
    length ms = 2 \<and> mold_frame (replicate 10 65) 7 2 [[1, 2], [3]] = mold_frame (replicate 10 65) 7 2 ms"
  using parse_iterates [OF parse_frame_data [of "replicate 10 65" "[[1, 2], [3]]" 2 7]]
  by simp

text \<open>The parser never reports a zero-length message: a packet with one empty block is
  accepted like any other.\<close>

theorem parse_no_zero_length:
  "parse buf \<noteq> Inl ZeroLengthMessage \<and>
   parse (mold_frame (replicate 10 65) 1 1 [[]])
     = Inr (Data \<lparr>hdr_session = replicate 10 65, hdr_seq = 1, hdr_count = 1\<rparr>
             (MessageBlocks_new (mold_body [[]]) 1 1))"
proof
  show "parse buf \<noteq> Inl ZeroLengthMessage"
    by (auto simp: parse_def parse_header_def dest: parse_blocks_error split: sum.splits if_splits)
  show "parse (mold_frame (replicate 10 65) 1 1 [[]])
     = Inr (Data \<lparr>hdr_session = replicate 10 65, hdr_seq = 1, hdr_count = 1\<rparr>
             (MessageBlocks_new (mold_body [[]]) 1 1))"
    by (rule parse_frame_data) simp_all
qed

text \<open>A retransmission request is a 20-byte header that decodes to the session, the
  first sequence number and the count it was built from.\<close>

theorem encode_request_roundtrip:
  assumes "length session = 10"
  shows "length (encode_request session from_seq count) = REQUEST_LEN \<and>
    parse_header (encode_request session from_seq count)
      = Inr \<lparr>hdr_session = session, hdr_seq = from_seq, hdr_count = count\<rparr>"
proof -
  have "encode_request session from_seq count = mold_frame session from_seq count []"
    by (simp add: encode_request_def mold_frame_def)
  then show ?thesis using assms by (simp add: parse_header_frame length_frame)
qed

lemma encode_request_roundtrip_witness:
  "length (encode_request (replicate 10 66) 9 512) = REQUEST_LEN \<and>
    parse_header (encode_request (replicate 10 66) 9 512)
      = Inr \<lparr>hdr_session = replicate 10 66, hdr_seq = 9, hdr_count = 512\<rparr>"
  by (rule encode_request_roundtrip) simp

end
