(* ===== verification/Itch5.thy ===== *)
theory Itch5
  imports Prelude
begin

text \<open>
  The ITCH 5.0 payload layer, \<open>crates/nf-protocol/src/itch5.rs\<close>: the per-type
  length table, \<open>msg_len\<close>, the hot-path check \<open>validate\<close>, the common
  header and the borrowed overlays.  An overlay is a datatype around the message bytes,
  as the Rust struct is around the slice; its field functions read the offsets the Rust
  accessors read.  The lemmas show that the overlay of a type accepts exactly the
  validated messages of that type, and that its fields cover the message: the bytes are
  the concatenation of the encoded fields, so two messages with equal fields are equal.
\<close>

section \<open>Length table and validation\<close>

text \<open>The non-zero entries of the table; every other type byte has length 0.\<close>

definition length_table :: "(u8 \<times> u8) list" where
  "length_table =
     [(0x53, 12), (0x52, 39), (0x48, 25), (0x59, 20), (0x4C, 26), (0x56, 35), (0x57, 12),
      (0x4B, 28), (0x4A, 35), (0x68, 21), (0x41, 36), (0x46, 40), (0x45, 31), (0x43, 36),
      (0x58, 23), (0x44, 19), (0x55, 35), (0x50, 44), (0x51, 40), (0x42, 19), (0x49, 50),
      (0x4E, 20)]"

definition ITCH_LENGTH :: "u8 \<Rightarrow> u8" where
  "ITCH_LENGTH t = (case map_of length_table t of None \<Rightarrow> 0 | Some l \<Rightarrow> l)"

definition msg_len :: "u8 \<Rightarrow> u8 option" where
  "msg_len type_byte = (let l = ITCH_LENGTH type_byte in if l = 0 then None else Some l)"

datatype ItchError =
    Empty
  | UnknownType u8
  | LengthMismatch u8 nat

fun validate :: "bytes \<Rightarrow> ItchError + unit" where
  "validate [] = Inl Empty"
| "validate (t # body) =
     (let expected = ITCH_LENGTH t in
      if expected = 0 then Inl (UnknownType t)
      else if Suc (length body) \<noteq> unat expected
      then Inl (LengthMismatch expected (Suc (length body)))
      else Inr ())"

lemma length_table_bounds: "\<forall>(t, l) \<in> set length_table. 12 \<le> unat l \<and> unat l \<le> 50"
  by (simp add: length_table_def)

lemma ITCH_LENGTH_cases: "ITCH_LENGTH t = 0 \<or> 12 \<le> unat (ITCH_LENGTH t) \<and> unat (ITCH_LENGTH t) \<le> 50"
proof (cases "map_of length_table t")
  case None
  then show ?thesis by (simp add: ITCH_LENGTH_def)
next
  case (Some l)
  then have "(t, l) \<in> set length_table" by (rule map_of_SomeD)
  with length_table_bounds Some show ?thesis by (auto simp: ITCH_LENGTH_def)
qed

lemma validate_ok_iff:
  "validate m = Inr () \<longleftrightarrow>
     m \<noteq> [] \<and> ITCH_LENGTH (m ! 0) \<noteq> 0 \<and> length m = unat (ITCH_LENGTH (m ! 0))"
  by (cases m) (auto simp: Let_def)

lemma validate_bounds: "validate m = Inr () \<Longrightarrow> 12 \<le> length m \<and> length m \<le> 50"
  using ITCH_LENGTH_cases [of "m ! 0"] by (auto simp: validate_ok_iff)

text \<open>The three error values name exactly the three ways a message can be malformed.\<close>

lemma validate_errors:
  "validate m = Inl e \<longleftrightarrow>
     (m = [] \<and> e = Empty) \<or>
     (m \<noteq> [] \<and> ITCH_LENGTH (m ! 0) = 0 \<and> e = UnknownType (m ! 0)) \<or>
     (m \<noteq> [] \<and> ITCH_LENGTH (m ! 0) \<noteq> 0 \<and> length m \<noteq> unat (ITCH_LENGTH (m ! 0)) \<and>
      e = LengthMismatch (ITCH_LENGTH (m ! 0)) (length m))"
  by (cases m) (auto simp: Let_def)

section \<open>The common header\<close>

record CommonHeader =
  locate :: u16
  tracking :: u16
  timestamp_ns :: u64

definition header :: "bytes \<Rightarrow> CommonHeader" where
  "header msg =
     \<lparr>locate = u16_from_be_bytes [msg ! 1, msg ! 2],
      tracking = u16_from_be_bytes [msg ! 3, msg ! 4],
      timestamp_ns =
        push_bit 40 (ucast (msg ! 5)) OR push_bit 32 (ucast (msg ! 6))
        OR push_bit 24 (ucast (msg ! 7)) OR push_bit 16 (ucast (msg ! 8))
        OR push_bit 8 (ucast (msg ! 9)) OR ucast (msg ! 10)\<rparr>"

text \<open>The ten wire bytes of a header: the timestamp is its 48 low bits.\<close>

definition u48_to_be_bytes :: "u64 \<Rightarrow> bytes" where
  "u48_to_be_bytes x =
     [ucast (drop_bit 40 x), ucast (drop_bit 32 x), ucast (drop_bit 24 x),
      ucast (drop_bit 16 x), ucast (drop_bit 8 x), ucast x]"

definition header_bytes :: "CommonHeader \<Rightarrow> bytes" where
  "header_bytes h =
     u16_to_be_bytes (locate h) @ u16_to_be_bytes (tracking h) @ u48_to_be_bytes (timestamp_ns h)"

lemma bit_u8_high: "8 \<le> n \<Longrightarrow> \<not> bit (x :: u8) n"
  by (auto dest: bit_imp_le_length)

lemma u48_or_bytes:
  "u48_to_be_bytes (push_bit 40 (ucast a) OR push_bit 32 (ucast b) OR push_bit 24 (ucast c)
     OR push_bit 16 (ucast d) OR push_bit 8 (ucast e) OR ucast f) = [a, b, c, d, e, f :: u8]"
  unfolding u48_to_be_bytes_def list.inject
  by (intro conjI TrueI bit_word_eqI) (simp_all add: bit_simps bit_u8_high)

lemma timestamp_48_bits:
  "unat (timestamp_ns (header m)) < 2 ^ 48"
proof -
  have high: "\<not> bit (timestamp_ns (header m)) n" if "48 \<le> n" for n
    using that by (simp add: header_def bit_simps bit_u8_high)
  have "take_bit 48 (timestamp_ns (header m)) = timestamp_ns (header m)"
    by (rule bit_word_eqI) (use high in \<open>auto simp: bit_take_bit_iff not_less [symmetric]\<close>)
  then have "unat (timestamp_ns (header m)) = take_bit 48 (unat (timestamp_ns (header m)))"
    by (simp flip: unsigned_take_bit_eq)
  also have "\<dots> < 2 ^ 48" by (rule take_bit_nat_less_exp)
  finally show ?thesis .
qed

lemma slice_join: "a \<le> b \<Longrightarrow> b \<le> c \<Longrightarrow> slice a b m @ slice b c m = slice a c m"
proof -
  assume le: "a \<le> b" "b \<le> c"
  have "take (b - a + (c - b)) (drop a m) = take (b - a) (drop a m) @ take (c - b) (drop (b - a) (drop a m))"
    by (rule take_add)
  then show ?thesis using le by (simp add: slice_def)
qed

lemma slice_one: "i < length m \<Longrightarrow> slice i (Suc i) m = [m ! i]"
  by (simp add: slice_def take_Suc hd_drop_conv_nth)

lemma header_bytes_header:
  assumes "11 \<le> length m"
  shows "header_bytes (header m) = slice 1 11 m"
proof -
  have "slice 1 11 m = map ((!) m) [1..<11]"
    using assms by (intro nth_equalityI) (simp_all add: slice_def)
  also have "\<dots> = [m ! 1, m ! 2, m ! 3, m ! 4, m ! 5, m ! 6, m ! 7, m ! 8, m ! 9, m ! 10]"
    by (simp add: upt_conv_Cons eval_nat_numeral)
  finally show ?thesis
    by (simp add: header_bytes_def header_def u16_to_from_be u48_or_bytes)
qed

definition first_byte :: "bytes \<Rightarrow> u8 option" where
  "first_byte m = (case m of [] \<Rightarrow> None | b # _ \<Rightarrow> Some b)"

text \<open>What the field-cover proofs rewrite with: reading a field and encoding it again
  gives the slice it was read from.\<close>

lemmas overlay_bytes = slice_one u32_to_from_be u64_to_from_be numeral_eq_Suc

section \<open>Overlays\<close>

subsection \<open>SystemEvent\<close>

datatype SystemEvent = SystemEvent (msg_SystemEvent: bytes)

definition SystemEvent_parse :: "bytes \<Rightarrow> ItchError + SystemEvent" where
  "SystemEvent_parse msg =
     (if length msg \<noteq> 12 \<or> first_byte msg \<noteq> Some 0x53
      then (case validate msg of Inl e \<Rightarrow> Inl e
            | Inr _ \<Rightarrow> Inl (LengthMismatch 12 (length msg)))
      else Inr (SystemEvent msg))"

definition SystemEvent_header :: "SystemEvent \<Rightarrow> CommonHeader" where
  "SystemEvent_header a = header (msg_SystemEvent a)"

definition SystemEvent_event_code :: "SystemEvent \<Rightarrow> u8" where
  "SystemEvent_event_code a = msg_SystemEvent a ! 11"

lemma SystemEvent_parse_iff:
  "SystemEvent_parse m = Inr a \<longleftrightarrow> a = SystemEvent m \<and> length m = 12 \<and> m ! 0 = 0x53"
  by (auto simp: SystemEvent_parse_def first_byte_def split: sum.splits list.splits if_splits)

lemma SystemEvent_parse_validate:
  "(\<exists>a. SystemEvent_parse m = Inr a) \<longleftrightarrow> validate m = Inr () \<and> m ! 0 = 0x53"
  by (auto simp: SystemEvent_parse_iff validate_ok_iff ITCH_LENGTH_def length_table_def)

lemma SystemEvent_fields_cover:
  assumes "SystemEvent_parse m = Inr a"
  shows "m = [0x53] @ header_bytes (SystemEvent_header a) @ [SystemEvent_event_code a]"
proof -
  from assms have a: "a = SystemEvent m" and l: "length m = 12" and t: "m ! 0 = 0x53"
    by (simp_all add: SystemEvent_parse_iff)
  have "m = slice 0 1 m @ slice 1 11 m @ slice 11 12 m"
    using l by (simp add: slice_join slice_all)
  then show ?thesis
    using l t
    by (simp add: a SystemEvent_header_def header_bytes_header SystemEvent_event_code_def overlay_bytes)
qed

subsection \<open>StockDirectory\<close>

datatype StockDirectory = StockDirectory (msg_StockDirectory: bytes)

definition StockDirectory_parse :: "bytes \<Rightarrow> ItchError + StockDirectory" where
  "StockDirectory_parse msg =
     (if length msg \<noteq> 39 \<or> first_byte msg \<noteq> Some 0x52
      then (case validate msg of Inl e \<Rightarrow> Inl e
            | Inr _ \<Rightarrow> Inl (LengthMismatch 39 (length msg)))
      else Inr (StockDirectory msg))"

definition StockDirectory_header :: "StockDirectory \<Rightarrow> CommonHeader" where
  "StockDirectory_header a = header (msg_StockDirectory a)"

definition StockDirectory_stock :: "StockDirectory \<Rightarrow> bytes" where
  "StockDirectory_stock a = slice 11 19 (msg_StockDirectory a)"

definition StockDirectory_market_category :: "StockDirectory \<Rightarrow> u8" where
  "StockDirectory_market_category a = msg_StockDirectory a ! 19"

definition StockDirectory_financial_status :: "StockDirectory \<Rightarrow> u8" where
  "StockDirectory_financial_status a = msg_StockDirectory a ! 20"

definition StockDirectory_round_lot_size :: "StockDirectory \<Rightarrow> u32" where
  "StockDirectory_round_lot_size a = u32_from_be_bytes (slice 21 25 (msg_StockDirectory a))"

definition StockDirectory_round_lots_only :: "StockDirectory \<Rightarrow> u8" where
  "StockDirectory_round_lots_only a = msg_StockDirectory a ! 25"

definition StockDirectory_issue_classification :: "StockDirectory \<Rightarrow> u8" where
  "StockDirectory_issue_classification a = msg_StockDirectory a ! 26"

definition StockDirectory_issue_sub_type :: "StockDirectory \<Rightarrow> bytes" where
  "StockDirectory_issue_sub_type a = slice 27 29 (msg_StockDirectory a)"

definition StockDirectory_authenticity :: "StockDirectory \<Rightarrow> u8" where
  "StockDirectory_authenticity a = msg_StockDirectory a ! 29"

definition StockDirectory_short_sale_threshold :: "StockDirectory \<Rightarrow> u8" where
  "StockDirectory_short_sale_threshold a = msg_StockDirectory a ! 30"

definition StockDirectory_ipo_flag :: "StockDirectory \<Rightarrow> u8" where
  "StockDirectory_ipo_flag a = msg_StockDirectory a ! 31"

definition StockDirectory_luld_tier :: "StockDirectory \<Rightarrow> u8" where
  "StockDirectory_luld_tier a = msg_StockDirectory a ! 32"

definition StockDirectory_etp_flag :: "StockDirectory \<Rightarrow> u8" where
  "StockDirectory_etp_flag a = msg_StockDirectory a ! 33"

definition StockDirectory_etp_leverage :: "StockDirectory \<Rightarrow> u32" where
  "StockDirectory_etp_leverage a = u32_from_be_bytes (slice 34 38 (msg_StockDirectory a))"

definition StockDirectory_inverse_indicator :: "StockDirectory \<Rightarrow> u8" where
  "StockDirectory_inverse_indicator a = msg_StockDirectory a ! 38"

lemma StockDirectory_parse_iff:
  "StockDirectory_parse m = Inr a \<longleftrightarrow> a = StockDirectory m \<and> length m = 39 \<and> m ! 0 = 0x52"
  by (auto simp: StockDirectory_parse_def first_byte_def split: sum.splits list.splits if_splits)

lemma StockDirectory_parse_validate:
  "(\<exists>a. StockDirectory_parse m = Inr a) \<longleftrightarrow> validate m = Inr () \<and> m ! 0 = 0x52"
  by (auto simp: StockDirectory_parse_iff validate_ok_iff ITCH_LENGTH_def length_table_def)

lemma StockDirectory_fields_cover:
  assumes "StockDirectory_parse m = Inr a"
  shows "m = [0x52] @ header_bytes (StockDirectory_header a) @ StockDirectory_stock a @ [StockDirectory_market_category a] @ [StockDirectory_financial_status a] @ u32_to_be_bytes (StockDirectory_round_lot_size a) @ [StockDirectory_round_lots_only a] @ [StockDirectory_issue_classification a] @ StockDirectory_issue_sub_type a @ [StockDirectory_authenticity a] @ [StockDirectory_short_sale_threshold a] @ [StockDirectory_ipo_flag a] @ [StockDirectory_luld_tier a] @ [StockDirectory_etp_flag a] @ u32_to_be_bytes (StockDirectory_etp_leverage a) @ [StockDirectory_inverse_indicator a]"
proof -
  from assms have a: "a = StockDirectory m" and l: "length m = 39" and t: "m ! 0 = 0x52"
    by (simp_all add: StockDirectory_parse_iff)
  have "m = slice 0 1 m @ slice 1 11 m @ slice 11 19 m @ slice 19 20 m @ slice 20 21 m @ slice 21 25 m @ slice 25 26 m @ slice 26 27 m @ slice 27 29 m @ slice 29 30 m @ slice 30 31 m @ slice 31 32 m @ slice 32 33 m @ slice 33 34 m @ slice 34 38 m @ slice 38 39 m"
    using l by (simp add: slice_join slice_all)
  then show ?thesis
    using l t
    by (simp add: a StockDirectory_header_def header_bytes_header StockDirectory_stock_def StockDirectory_market_category_def StockDirectory_financial_status_def StockDirectory_round_lot_size_def StockDirectory_round_lots_only_def StockDirectory_issue_classification_def StockDirectory_issue_sub_type_def StockDirectory_authenticity_def StockDirectory_short_sale_threshold_def StockDirectory_ipo_flag_def StockDirectory_luld_tier_def StockDirectory_etp_flag_def StockDirectory_etp_leverage_def StockDirectory_inverse_indicator_def overlay_bytes)
qed

subsection \<open>Add\<close>

datatype Add = Add (msg_Add: bytes)

definition Add_parse :: "bytes \<Rightarrow> ItchError + Add" where
  "Add_parse msg =
     (if length msg \<noteq> 36 \<or> first_byte msg \<noteq> Some 0x41
      then (case validate msg of Inl e \<Rightarrow> Inl e
            | Inr _ \<Rightarrow> Inl (LengthMismatch 36 (length msg)))
      else Inr (Add msg))"

definition Add_header :: "Add \<Rightarrow> CommonHeader" where
  "Add_header a = header (msg_Add a)"

definition Add_order_ref :: "Add \<Rightarrow> u64" where
  "Add_order_ref a = u64_from_be_bytes (slice 11 19 (msg_Add a))"

definition Add_side :: "Add \<Rightarrow> u8" where
  "Add_side a = msg_Add a ! 19"

definition Add_shares :: "Add \<Rightarrow> u32" where
  "Add_shares a = u32_from_be_bytes (slice 20 24 (msg_Add a))"

definition Add_stock :: "Add \<Rightarrow> bytes" where
  "Add_stock a = slice 24 32 (msg_Add a)"

definition Add_price_raw :: "Add \<Rightarrow> u32" where
  "Add_price_raw a = u32_from_be_bytes (slice 32 36 (msg_Add a))"

lemma Add_parse_iff:
  "Add_parse m = Inr a \<longleftrightarrow> a = Add m \<and> length m = 36 \<and> m ! 0 = 0x41"
  by (auto simp: Add_parse_def first_byte_def split: sum.splits list.splits if_splits)

lemma Add_parse_validate:
  "(\<exists>a. Add_parse m = Inr a) \<longleftrightarrow> validate m = Inr () \<and> m ! 0 = 0x41"
  by (auto simp: Add_parse_iff validate_ok_iff ITCH_LENGTH_def length_table_def)

lemma Add_fields_cover:
  assumes "Add_parse m = Inr a"
  shows "m = [0x41] @ header_bytes (Add_header a) @ u64_to_be_bytes (Add_order_ref a) @ [Add_side a] @ u32_to_be_bytes (Add_shares a) @ Add_stock a @ u32_to_be_bytes (Add_price_raw a)"
proof -
  from assms have a: "a = Add m" and l: "length m = 36" and t: "m ! 0 = 0x41"
    by (simp_all add: Add_parse_iff)
  have "m = slice 0 1 m @ slice 1 11 m @ slice 11 19 m @ slice 19 20 m @ slice 20 24 m @ slice 24 32 m @ slice 32 36 m"
    using l by (simp add: slice_join slice_all)
  then show ?thesis
    using l t
    by (simp add: a Add_header_def header_bytes_header Add_order_ref_def Add_side_def Add_shares_def Add_stock_def Add_price_raw_def overlay_bytes)
qed

subsection \<open>AddAttributed\<close>

datatype AddAttributed = AddAttributed (msg_AddAttributed: bytes)

definition AddAttributed_parse :: "bytes \<Rightarrow> ItchError + AddAttributed" where
  "AddAttributed_parse msg =
     (if length msg \<noteq> 40 \<or> first_byte msg \<noteq> Some 0x46
      then (case validate msg of Inl e \<Rightarrow> Inl e
            | Inr _ \<Rightarrow> Inl (LengthMismatch 40 (length msg)))
      else Inr (AddAttributed msg))"

definition AddAttributed_header :: "AddAttributed \<Rightarrow> CommonHeader" where
  "AddAttributed_header a = header (msg_AddAttributed a)"

definition AddAttributed_order_ref :: "AddAttributed \<Rightarrow> u64" where
  "AddAttributed_order_ref a = u64_from_be_bytes (slice 11 19 (msg_AddAttributed a))"

definition AddAttributed_side :: "AddAttributed \<Rightarrow> u8" where
  "AddAttributed_side a = msg_AddAttributed a ! 19"

definition AddAttributed_shares :: "AddAttributed \<Rightarrow> u32" where
  "AddAttributed_shares a = u32_from_be_bytes (slice 20 24 (msg_AddAttributed a))"

definition AddAttributed_stock :: "AddAttributed \<Rightarrow> bytes" where
  "AddAttributed_stock a = slice 24 32 (msg_AddAttributed a)"

definition AddAttributed_price_raw :: "AddAttributed \<Rightarrow> u32" where
  "AddAttributed_price_raw a = u32_from_be_bytes (slice 32 36 (msg_AddAttributed a))"

definition AddAttributed_mpid :: "AddAttributed \<Rightarrow> bytes" where
  "AddAttributed_mpid a = slice 36 40 (msg_AddAttributed a)"

lemma AddAttributed_parse_iff:
  "AddAttributed_parse m = Inr a \<longleftrightarrow> a = AddAttributed m \<and> length m = 40 \<and> m ! 0 = 0x46"
  by (auto simp: AddAttributed_parse_def first_byte_def split: sum.splits list.splits if_splits)

lemma AddAttributed_parse_validate:
  "(\<exists>a. AddAttributed_parse m = Inr a) \<longleftrightarrow> validate m = Inr () \<and> m ! 0 = 0x46"
  by (auto simp: AddAttributed_parse_iff validate_ok_iff ITCH_LENGTH_def length_table_def)

lemma AddAttributed_fields_cover:
  assumes "AddAttributed_parse m = Inr a"
  shows "m = [0x46] @ header_bytes (AddAttributed_header a) @ u64_to_be_bytes (AddAttributed_order_ref a) @ [AddAttributed_side a] @ u32_to_be_bytes (AddAttributed_shares a) @ AddAttributed_stock a @ u32_to_be_bytes (AddAttributed_price_raw a) @ AddAttributed_mpid a"
proof -
  from assms have a: "a = AddAttributed m" and l: "length m = 40" and t: "m ! 0 = 0x46"
    by (simp_all add: AddAttributed_parse_iff)
  have "m = slice 0 1 m @ slice 1 11 m @ slice 11 19 m @ slice 19 20 m @ slice 20 24 m @ slice 24 32 m @ slice 32 36 m @ slice 36 40 m"
    using l by (simp add: slice_join slice_all)
  then show ?thesis
    using l t
    by (simp add: a AddAttributed_header_def header_bytes_header AddAttributed_order_ref_def AddAttributed_side_def AddAttributed_shares_def AddAttributed_stock_def AddAttributed_price_raw_def AddAttributed_mpid_def overlay_bytes)
qed

subsection \<open>Executed\<close>

datatype Executed = Executed (msg_Executed: bytes)

definition Executed_parse :: "bytes \<Rightarrow> ItchError + Executed" where
  "Executed_parse msg =
     (if length msg \<noteq> 31 \<or> first_byte msg \<noteq> Some 0x45
      then (case validate msg of Inl e \<Rightarrow> Inl e
            | Inr _ \<Rightarrow> Inl (LengthMismatch 31 (length msg)))
      else Inr (Executed msg))"

definition Executed_header :: "Executed \<Rightarrow> CommonHeader" where
  "Executed_header a = header (msg_Executed a)"

definition Executed_order_ref :: "Executed \<Rightarrow> u64" where
  "Executed_order_ref a = u64_from_be_bytes (slice 11 19 (msg_Executed a))"

definition Executed_executed_shares :: "Executed \<Rightarrow> u32" where
  "Executed_executed_shares a = u32_from_be_bytes (slice 19 23 (msg_Executed a))"

definition Executed_match_number :: "Executed \<Rightarrow> u64" where
  "Executed_match_number a = u64_from_be_bytes (slice 23 31 (msg_Executed a))"

lemma Executed_parse_iff:
  "Executed_parse m = Inr a \<longleftrightarrow> a = Executed m \<and> length m = 31 \<and> m ! 0 = 0x45"
  by (auto simp: Executed_parse_def first_byte_def split: sum.splits list.splits if_splits)

lemma Executed_parse_validate:
  "(\<exists>a. Executed_parse m = Inr a) \<longleftrightarrow> validate m = Inr () \<and> m ! 0 = 0x45"
  by (auto simp: Executed_parse_iff validate_ok_iff ITCH_LENGTH_def length_table_def)

lemma Executed_fields_cover:
  assumes "Executed_parse m = Inr a"
  shows "m = [0x45] @ header_bytes (Executed_header a) @ u64_to_be_bytes (Executed_order_ref a) @ u32_to_be_bytes (Executed_executed_shares a) @ u64_to_be_bytes (Executed_match_number a)"
proof -
  from assms have a: "a = Executed m" and l: "length m = 31" and t: "m ! 0 = 0x45"
    by (simp_all add: Executed_parse_iff)
  have "m = slice 0 1 m @ slice 1 11 m @ slice 11 19 m @ slice 19 23 m @ slice 23 31 m"
    using l by (simp add: slice_join slice_all)
  then show ?thesis
    using l t
    by (simp add: a Executed_header_def header_bytes_header Executed_order_ref_def Executed_executed_shares_def Executed_match_number_def overlay_bytes)
qed

subsection \<open>ExecutedWithPrice\<close>

datatype ExecutedWithPrice = ExecutedWithPrice (msg_ExecutedWithPrice: bytes)

definition ExecutedWithPrice_parse :: "bytes \<Rightarrow> ItchError + ExecutedWithPrice" where
  "ExecutedWithPrice_parse msg =
     (if length msg \<noteq> 36 \<or> first_byte msg \<noteq> Some 0x43
      then (case validate msg of Inl e \<Rightarrow> Inl e
            | Inr _ \<Rightarrow> Inl (LengthMismatch 36 (length msg)))
      else Inr (ExecutedWithPrice msg))"

definition ExecutedWithPrice_header :: "ExecutedWithPrice \<Rightarrow> CommonHeader" where
  "ExecutedWithPrice_header a = header (msg_ExecutedWithPrice a)"

definition ExecutedWithPrice_order_ref :: "ExecutedWithPrice \<Rightarrow> u64" where
  "ExecutedWithPrice_order_ref a = u64_from_be_bytes (slice 11 19 (msg_ExecutedWithPrice a))"

definition ExecutedWithPrice_executed_shares :: "ExecutedWithPrice \<Rightarrow> u32" where
  "ExecutedWithPrice_executed_shares a = u32_from_be_bytes (slice 19 23 (msg_ExecutedWithPrice a))"

definition ExecutedWithPrice_match_number :: "ExecutedWithPrice \<Rightarrow> u64" where
  "ExecutedWithPrice_match_number a = u64_from_be_bytes (slice 23 31 (msg_ExecutedWithPrice a))"

definition ExecutedWithPrice_printable :: "ExecutedWithPrice \<Rightarrow> u8" where
  "ExecutedWithPrice_printable a = msg_ExecutedWithPrice a ! 31"

definition ExecutedWithPrice_price_raw :: "ExecutedWithPrice \<Rightarrow> u32" where
  "ExecutedWithPrice_price_raw a = u32_from_be_bytes (slice 32 36 (msg_ExecutedWithPrice a))"

lemma ExecutedWithPrice_parse_iff:
  "ExecutedWithPrice_parse m = Inr a \<longleftrightarrow> a = ExecutedWithPrice m \<and> length m = 36 \<and> m ! 0 = 0x43"
  by (auto simp: ExecutedWithPrice_parse_def first_byte_def split: sum.splits list.splits if_splits)

lemma ExecutedWithPrice_parse_validate:
  "(\<exists>a. ExecutedWithPrice_parse m = Inr a) \<longleftrightarrow> validate m = Inr () \<and> m ! 0 = 0x43"
  by (auto simp: ExecutedWithPrice_parse_iff validate_ok_iff ITCH_LENGTH_def length_table_def)

lemma ExecutedWithPrice_fields_cover:
  assumes "ExecutedWithPrice_parse m = Inr a"
  shows "m = [0x43] @ header_bytes (ExecutedWithPrice_header a) @ u64_to_be_bytes (ExecutedWithPrice_order_ref a) @ u32_to_be_bytes (ExecutedWithPrice_executed_shares a) @ u64_to_be_bytes (ExecutedWithPrice_match_number a) @ [ExecutedWithPrice_printable a] @ u32_to_be_bytes (ExecutedWithPrice_price_raw a)"
proof -
  from assms have a: "a = ExecutedWithPrice m" and l: "length m = 36" and t: "m ! 0 = 0x43"
    by (simp_all add: ExecutedWithPrice_parse_iff)
  have "m = slice 0 1 m @ slice 1 11 m @ slice 11 19 m @ slice 19 23 m @ slice 23 31 m @ slice 31 32 m @ slice 32 36 m"
    using l by (simp add: slice_join slice_all)
  then show ?thesis
    using l t
    by (simp add: a ExecutedWithPrice_header_def header_bytes_header ExecutedWithPrice_order_ref_def ExecutedWithPrice_executed_shares_def ExecutedWithPrice_match_number_def ExecutedWithPrice_printable_def ExecutedWithPrice_price_raw_def overlay_bytes)
qed

subsection \<open>Cancel\<close>

datatype Cancel = Cancel (msg_Cancel: bytes)

definition Cancel_parse :: "bytes \<Rightarrow> ItchError + Cancel" where
  "Cancel_parse msg =
     (if length msg \<noteq> 23 \<or> first_byte msg \<noteq> Some 0x58
      then (case validate msg of Inl e \<Rightarrow> Inl e
            | Inr _ \<Rightarrow> Inl (LengthMismatch 23 (length msg)))
      else Inr (Cancel msg))"

definition Cancel_header :: "Cancel \<Rightarrow> CommonHeader" where
  "Cancel_header a = header (msg_Cancel a)"

definition Cancel_order_ref :: "Cancel \<Rightarrow> u64" where
  "Cancel_order_ref a = u64_from_be_bytes (slice 11 19 (msg_Cancel a))"

definition Cancel_canceled_shares :: "Cancel \<Rightarrow> u32" where
  "Cancel_canceled_shares a = u32_from_be_bytes (slice 19 23 (msg_Cancel a))"

lemma Cancel_parse_iff:
  "Cancel_parse m = Inr a \<longleftrightarrow> a = Cancel m \<and> length m = 23 \<and> m ! 0 = 0x58"
  by (auto simp: Cancel_parse_def first_byte_def split: sum.splits list.splits if_splits)

lemma Cancel_parse_validate:
  "(\<exists>a. Cancel_parse m = Inr a) \<longleftrightarrow> validate m = Inr () \<and> m ! 0 = 0x58"
  by (auto simp: Cancel_parse_iff validate_ok_iff ITCH_LENGTH_def length_table_def)

lemma Cancel_fields_cover:
  assumes "Cancel_parse m = Inr a"
  shows "m = [0x58] @ header_bytes (Cancel_header a) @ u64_to_be_bytes (Cancel_order_ref a) @ u32_to_be_bytes (Cancel_canceled_shares a)"
proof -
  from assms have a: "a = Cancel m" and l: "length m = 23" and t: "m ! 0 = 0x58"
    by (simp_all add: Cancel_parse_iff)
  have "m = slice 0 1 m @ slice 1 11 m @ slice 11 19 m @ slice 19 23 m"
    using l by (simp add: slice_join slice_all)
  then show ?thesis
    using l t
    by (simp add: a Cancel_header_def header_bytes_header Cancel_order_ref_def Cancel_canceled_shares_def overlay_bytes)
qed

subsection \<open>Delete\<close>

datatype Delete = Delete (msg_Delete: bytes)

definition Delete_parse :: "bytes \<Rightarrow> ItchError + Delete" where
  "Delete_parse msg =
     (if length msg \<noteq> 19 \<or> first_byte msg \<noteq> Some 0x44
      then (case validate msg of Inl e \<Rightarrow> Inl e
            | Inr _ \<Rightarrow> Inl (LengthMismatch 19 (length msg)))
      else Inr (Delete msg))"

definition Delete_header :: "Delete \<Rightarrow> CommonHeader" where
  "Delete_header a = header (msg_Delete a)"

definition Delete_order_ref :: "Delete \<Rightarrow> u64" where
  "Delete_order_ref a = u64_from_be_bytes (slice 11 19 (msg_Delete a))"

lemma Delete_parse_iff:
  "Delete_parse m = Inr a \<longleftrightarrow> a = Delete m \<and> length m = 19 \<and> m ! 0 = 0x44"
  by (auto simp: Delete_parse_def first_byte_def split: sum.splits list.splits if_splits)

lemma Delete_parse_validate:
  "(\<exists>a. Delete_parse m = Inr a) \<longleftrightarrow> validate m = Inr () \<and> m ! 0 = 0x44"
  by (auto simp: Delete_parse_iff validate_ok_iff ITCH_LENGTH_def length_table_def)

lemma Delete_fields_cover:
  assumes "Delete_parse m = Inr a"
  shows "m = [0x44] @ header_bytes (Delete_header a) @ u64_to_be_bytes (Delete_order_ref a)"
proof -
  from assms have a: "a = Delete m" and l: "length m = 19" and t: "m ! 0 = 0x44"
    by (simp_all add: Delete_parse_iff)
  have "m = slice 0 1 m @ slice 1 11 m @ slice 11 19 m"
    using l by (simp add: slice_join slice_all)
  then show ?thesis
    using l t
    by (simp add: a Delete_header_def header_bytes_header Delete_order_ref_def overlay_bytes)
qed

subsection \<open>Replace\<close>

datatype Replace = Replace (msg_Replace: bytes)

definition Replace_parse :: "bytes \<Rightarrow> ItchError + Replace" where
  "Replace_parse msg =
     (if length msg \<noteq> 35 \<or> first_byte msg \<noteq> Some 0x55
      then (case validate msg of Inl e \<Rightarrow> Inl e
            | Inr _ \<Rightarrow> Inl (LengthMismatch 35 (length msg)))
      else Inr (Replace msg))"

definition Replace_header :: "Replace \<Rightarrow> CommonHeader" where
  "Replace_header a = header (msg_Replace a)"

definition Replace_orig_order_ref :: "Replace \<Rightarrow> u64" where
  "Replace_orig_order_ref a = u64_from_be_bytes (slice 11 19 (msg_Replace a))"

definition Replace_new_order_ref :: "Replace \<Rightarrow> u64" where
  "Replace_new_order_ref a = u64_from_be_bytes (slice 19 27 (msg_Replace a))"

definition Replace_shares :: "Replace \<Rightarrow> u32" where
  "Replace_shares a = u32_from_be_bytes (slice 27 31 (msg_Replace a))"

definition Replace_price_raw :: "Replace \<Rightarrow> u32" where
  "Replace_price_raw a = u32_from_be_bytes (slice 31 35 (msg_Replace a))"

lemma Replace_parse_iff:
  "Replace_parse m = Inr a \<longleftrightarrow> a = Replace m \<and> length m = 35 \<and> m ! 0 = 0x55"
  by (auto simp: Replace_parse_def first_byte_def split: sum.splits list.splits if_splits)

lemma Replace_parse_validate:
  "(\<exists>a. Replace_parse m = Inr a) \<longleftrightarrow> validate m = Inr () \<and> m ! 0 = 0x55"
  by (auto simp: Replace_parse_iff validate_ok_iff ITCH_LENGTH_def length_table_def)

lemma Replace_fields_cover:
  assumes "Replace_parse m = Inr a"
  shows "m = [0x55] @ header_bytes (Replace_header a) @ u64_to_be_bytes (Replace_orig_order_ref a) @ u64_to_be_bytes (Replace_new_order_ref a) @ u32_to_be_bytes (Replace_shares a) @ u32_to_be_bytes (Replace_price_raw a)"
proof -
  from assms have a: "a = Replace m" and l: "length m = 35" and t: "m ! 0 = 0x55"
    by (simp_all add: Replace_parse_iff)
  have "m = slice 0 1 m @ slice 1 11 m @ slice 11 19 m @ slice 19 27 m @ slice 27 31 m @ slice 31 35 m"
    using l by (simp add: slice_join slice_all)
  then show ?thesis
    using l t
    by (simp add: a Replace_header_def header_bytes_header Replace_orig_order_ref_def Replace_new_order_ref_def Replace_shares_def Replace_price_raw_def overlay_bytes)
qed

end
