(* ===== verification/Packet.thy ===== *)
theory Packet
  imports MoldUdp64 Itch5
begin

text \<open>
  \<open>crates/nf-protocol/src/packet.rs\<close>: the combined framing and payload layer.  The walker
  of the ingest path runs a callback on every block past a prefix; the callback's captured
  state is an explicit argument, threaded through the calls, so the walk keeps the effects
  of the blocks it passed when it stops at an error.  The lemmas show which calls a walk
  makes on a wire-form packet and that walking with a validating callback succeeds exactly
  on the packets the two-phase \<open>validate_frame\<close> accepts.
\<close>

section \<open>Types\<close>

datatype PacketError = Framing FrameError | Payload ItchError

record FrameMemo =
  fm_valid_count :: u16

type_synonym BlockTriple = "u64 \<times> u32 \<times> u32"

text \<open>A frame is a borrowed slice: its bytes and, for the packed span words, the address
  \<open>as_ptr()\<close> of the first of them.\<close>

record FrameEntry =
  fe_ptr :: u64
  fe_bytes :: bytes
  fe_feed :: u8
  fe_blocks :: "BlockTriple list"
  fe_memo :: "FrameMemo option"
  fe_first_seq :: u64
  fe_sess_lo :: u64
  fe_sess_hi :: u64
  fe_elig :: u8

abbreviation (input) FRAME_ELIG_OK :: u8 where "FRAME_ELIG_OK \<equiv> 0x80"

definition elig_feed :: "u8 \<Rightarrow> u8" where
  "elig_feed elig = elig AND 3"

text \<open>The kernel type \<open>SoaLadder8\<close>: two gathered eight-entry arrays and the watermark.\<close>

type_synonym SoaLadder8 = "u64 list \<Rightarrow> u64 list \<Rightarrow> u64 \<Rightarrow> bool"

section \<open>The fused walk\<close>

type_synonym 's block_callback = "'s \<Rightarrow> u64 \<Rightarrow> bytes \<Rightarrow> 's \<times> (ItchError + unit)"

fun ingest_walk_loop ::
    "bytes \<Rightarrow> 's block_callback \<Rightarrow> nat \<Rightarrow> nat \<Rightarrow> u64 \<Rightarrow> nat \<Rightarrow> 's \<Rightarrow> 's \<times> (PacketError + unit)" where
  "ingest_walk_loop frame f 0 pos sq to_skip s =
     (s, if pos \<noteq> length frame then Inl (Framing (TrailingBytes (length frame - pos))) else Inr ())"
| "ingest_walk_loop frame f (Suc n) pos sq to_skip s =
     (if length frame < pos + 2 then (s, Inl (Framing BlockOverrun))
      else let len = unat (u16_from_be_bytes [frame ! pos, frame ! (pos + 1)]);
               start = pos + 2;
               end = start + len
           in if length frame < end then (s, Inl (Framing BlockOverrun))
              else if 0 < to_skip then ingest_walk_loop frame f n end (sq + 1) (to_skip - 1) s
              else (case f s sq (slice start end frame) of
                      (s', Inl e) \<Rightarrow> (s', Inl (Payload e))
                    | (s', Inr _) \<Rightarrow> ingest_walk_loop frame f n end (sq + 1) to_skip s'))"

definition ingest_walk ::
    "bytes \<Rightarrow> u64 \<Rightarrow> u16 \<Rightarrow> nat \<Rightarrow> 's block_callback \<Rightarrow> 's \<Rightarrow> 's \<times> (PacketError + unit)" where
  "ingest_walk frame first_seq count skip f s =
     ingest_walk_loop frame f (unat count) HEADER_LEN first_seq skip s"

text \<open>\<open>validate_frame\<close>: framing first, then every payload in order; \<open>None\<close> is a panic of the
  block iterator.\<close>

fun validate_blocks :: "MessageBlock list \<Rightarrow> PacketError + unit" where
  "validate_blocks [] = Inr ()"
| "validate_blocks (b # bs) =
     (case validate (mb_data b) of Inl e \<Rightarrow> Inl (Payload e) | Inr _ \<Rightarrow> validate_blocks bs)"

definition validate_frame :: "bytes \<Rightarrow> (PacketError + Parsed) option" where
  "validate_frame buf =
     (case parse buf of
        Inl e \<Rightarrow> Some (Inl (Framing e))
      | Inr (Data h blocks) \<Rightarrow>
          (case collect_blocks blocks of
             None \<Rightarrow> None
           | Some bs \<Rightarrow>
              (case validate_blocks bs of
                 Inl e \<Rightarrow> Some (Inl e)
               | Inr _ \<Rightarrow> Some (Inr (Data h blocks))))
      | Inr p \<Rightarrow> Some (Inr p))"

section \<open>The calls of a walk\<close>

fun walk_msgs :: "'s block_callback \<Rightarrow> MessageBlock list \<Rightarrow> 's \<Rightarrow> 's \<times> (PacketError + unit)" where
  "walk_msgs f [] s = (s, Inr ())"
| "walk_msgs f (b # bs) s =
     (case f s (mb_seq b) (mb_data b) of
        (s', Inl e) \<Rightarrow> (s', Inl (Payload e))
      | (s', Inr _) \<Rightarrow> walk_msgs f bs s')"

lemma nth_eq_drop: "Suc p < length xs \<Longrightarrow> xs ! p = drop p xs ! 0 \<and> xs ! Suc p = drop p xs ! 1"
  by simp

lemma ingest_walk_loop_blocks:
  assumes "\<forall>m \<in> set ms. length m < 65536" "drop pos frame = mold_body ms @ tail" "pos \<le> length frame"
  shows "ingest_walk_loop frame f (length ms + n) pos q skip s =
    (case walk_msgs f (drop skip (number_blocks q ms)) s of
       (s', Inl e) \<Rightarrow> (s', Inl e)
     | (s', Inr _) \<Rightarrow> ingest_walk_loop frame f n (pos + length (mold_body ms))
         (q + of_nat (length ms)) (skip - length ms) s')"
  using assms
proof (induction ms arbitrary: pos q skip s)
  case Nil
  then show ?case by simp
next
  case (Cons m ms)
  let ?rest = "mold_body ms @ tail"
  have d: "drop pos frame = mold_block m @ ?rest" using Cons.prems(2) by simp
  have "length (drop pos frame) = 2 + length m + length ?rest" by (simp only: d) simp
  then have len: "length frame = pos + 2 + length m + length ?rest" using Cons.prems(3) by simp
  have two: "frame ! pos = (mold_block m @ ?rest) ! 0 \<and> frame ! Suc pos = (mold_block m @ ?rest) ! 1"
    using nth_eq_drop [of pos frame] len d by simp
  have l: "unat (u16_from_be_bytes [frame ! pos, frame ! (pos + 1)]) = length m"
    using mold_block_prefix [of m ?rest] two Cons.prems(1) by simp
  have "drop 2 (drop pos frame) = m @ ?rest" by (simp only: d) (simp add: mold_block_def)
  then have data: "slice (pos + 2) (pos + 2 + length m) frame = m"
    by (simp add: slice_def add.commute)
  have "drop (pos + 2 + length m) frame = drop (2 + length m) (drop pos frame)"
    by (simp add: ac_simps)
  also have "\<dots> = ?rest" by (simp only: d) simp
  finally have dr: "drop (pos + 2 + length m) frame = ?rest" .
  note IH = Cons.IH [OF _ dr]
  have step: "ingest_walk_loop frame f (length (m # ms) + n) pos q skip s =
     (if 0 < skip then ingest_walk_loop frame f (length ms + n) (pos + 2 + length m) (q + 1) (skip - 1) s
      else (case f s q m of (s', Inl e) \<Rightarrow> (s', Inl (Payload e))
             | (s', Inr _) \<Rightarrow> ingest_walk_loop frame f (length ms + n) (pos + 2 + length m) (q + 1) skip s'))"
    using l data len by (auto split: prod.split sum.split)
  show ?case
  proof (cases skip)
    case 0
    then show ?thesis unfolding step using IH Cons.prems(1) len
      by (auto simp: ac_simps split: prod.split sum.split)
  next
    case (Suc k)
    then show ?thesis unfolding step using IH Cons.prems(1) len
      by (simp add: ac_simps split: prod.split sum.split)
  qed
qed

lemma ingest_walk_frame:
  assumes "\<forall>m \<in> set ms. length m < 65536" "length s = 10" "length ms = unat c"
  shows "ingest_walk (mold_frame s q c ms) q c skip f st = walk_msgs f (drop skip (number_blocks q ms)) st"
  using ingest_walk_loop_blocks [of ms 20 "mold_frame s q c ms" "[]" f 0 q skip st] assms
  by (simp add: ingest_walk_def drop_header_frame length_frame split: prod.split sum.split)

lemma ingest_walk_loop_ok:
  "ingest_walk_loop frame f n pos q skip s = (s', Inr ()) \<Longrightarrow> pos \<le> length frame \<Longrightarrow>
     parse_blocks n (drop pos frame) = Inr []"
proof (induction n arbitrary: pos q skip s)
  case 0
  then show ?case by (auto split: if_splits)
next
  case (Suc n)
  let ?l = "unat (u16_from_be_bytes [frame ! pos, frame ! (pos + 1)])"
  from Suc.prems have fit: "pos + 2 \<le> length frame" "pos + 2 + ?l \<le> length frame"
    by (auto simp: Let_def split: if_splits)
  obtain q2 skip2 s2 where
    "ingest_walk_loop frame f n (pos + 2 + ?l) q2 skip2 s2 = (s', Inr ())"
    using Suc.prems fit by (auto simp: Let_def split: if_splits prod.splits sum.splits)
  then have "parse_blocks n (drop (pos + 2 + ?l) frame) = Inr []" using fit by (intro Suc.IH)
  moreover have "drop pos frame ! 0 = frame ! pos" "drop pos frame ! 1 = frame ! (pos + 1)"
    using fit by simp_all
  ultimately show ?case using fit by (simp add: Let_def ac_simps)
qed

text \<open>What every callback call keeps, the walk keeps, on any bytes.\<close>

lemma ingest_walk_loop_inv:
  assumes "\<And>s q d. P s \<Longrightarrow> P (fst (f s q d))" "P s"
  shows "P (fst (ingest_walk_loop frame f n pos q skip s))"
  using assms(2)
proof (induction n arbitrary: pos q skip s)
  case 0
  then show ?case by simp
next
  case (Suc n)
  then have "P s'" if "f s q d = (s', r)" for d s' r using assms(1) [OF Suc.prems, of q d] that by simp
  with Suc show ?case by (auto simp: Let_def split: prod.split sum.split)
qed

lemma ingest_walk_inv:
  "(\<And>s q d. P s \<Longrightarrow> P (fst (f s q d))) \<Longrightarrow> P s \<Longrightarrow> P (fst (ingest_walk frame q c skip f s))"
  unfolding ingest_walk_def by (rule ingest_walk_loop_inv)

text \<open>The callback that only validates.\<close>

definition validate_callback :: "unit block_callback" where
  "validate_callback s sq data = ((), validate data)"

lemma walk_validate:
  "snd (walk_msgs validate_callback bs s) = validate_blocks bs"
  by (induction bs arbitrary: s) (auto simp: validate_callback_def split: sum.split)

text \<open>C25: the fused single-pass walk accepts a data packet with a valid sequence span exactly
  when the strict two-phase parse and validation accepts it.\<close>

theorem ingest_walk_ok_iff:
  assumes "parse_header frame = Inr h" "kind h = KData" "span h \<noteq> None"
  shows "snd (ingest_walk frame (hdr_seq h) (hdr_count h) 0 validate_callback ()) = Inr ()
    \<longleftrightarrow> (\<exists>p. validate_frame frame = Some (Inr p))"
proof
  assume ok: "snd (ingest_walk frame (hdr_seq h) (hdr_count h) 0 validate_callback ()) = Inr ()"
  then have w: "ingest_walk_loop frame validate_callback (unat (hdr_count h)) 20 (hdr_seq h) 0 () = ((), Inr ())"
    by (simp add: ingest_walk_def prod_eq_iff)
  have "parse_blocks (unat (hdr_count h)) (drop 20 frame) = Inr []"
    using ingest_walk_loop_ok [OF w] frame_of_header(1) [OF assms(1)] by simp
  then have p: "parse frame = Inr (Data h (MessageBlocks_new (drop 20 frame) (hdr_seq h) (hdr_count h)))"
    using assms frame_of_header(1) [OF assms(1)]
    by (auto simp: parse_def kind_def span_def split: if_splits option.splits)
  from parse_data_frame [OF p] obtain ms where
    f: "frame = mold_frame (hdr_session h) (hdr_seq h) (hdr_count h) ms" "length (hdr_session h) = 10"
      "length ms = unat (hdr_count h)" "\<forall>m \<in> set ms. length m < 65536"
      "MessageBlocks_new (drop 20 frame) (hdr_seq h) (hdr_count h)
        = MessageBlocks_new (mold_body ms) (hdr_seq h) (hdr_count h)" by auto
  have "validate_blocks (number_blocks (hdr_seq h) ms) = Inr ()"
    using ok ingest_walk_frame [OF f(4,2,3), of "hdr_seq h" 0 validate_callback "()"]
    by (simp add: f(1) [symmetric] walk_validate)
  then show "\<exists>p. validate_frame frame = Some (Inr p)"
    using p f(5) collect_new_blocks [OF f(4,3), of "hdr_seq h"] by (simp add: validate_frame_def)
next
  assume "\<exists>p. validate_frame frame = Some (Inr p)"
  then obtain p0 where v: "validate_frame frame = Some (Inr p0)" by blast
  have "\<exists>bl. parse frame = Inr (Data h bl)"
    using v assms by (auto simp: validate_frame_def parse_def kind_def split: sum.splits if_splits)
  then obtain bl where p: "parse frame = Inr (Data h bl)" ..
  from parse_data_frame [OF p] obtain ms where
    f: "frame = mold_frame (hdr_session h) (hdr_seq h) (hdr_count h) ms" "length (hdr_session h) = 10"
      "length ms = unat (hdr_count h)" "\<forall>m \<in> set ms. length m < 65536"
      "bl = MessageBlocks_new (mold_body ms) (hdr_seq h) (hdr_count h)" by auto
  have "validate_blocks (number_blocks (hdr_seq h) ms) = Inr ()"
    using v p f(5) collect_new_blocks [OF f(4,3), of "hdr_seq h"]
    by (auto simp: validate_frame_def split: sum.splits)
  then show "snd (ingest_walk frame (hdr_seq h) (hdr_count h) 0 validate_callback ()) = Inr ()"
    using ingest_walk_frame [OF f(4,2,3), of "hdr_seq h" 0 validate_callback "()"]
    by (simp add: f(1) [symmetric] walk_validate)
qed

lemma ingest_walk_ok_iff_witness:
  "snd (ingest_walk (mold_frame (replicate 10 65) 7 2 [[1], [2, 3]]) 7 2 0 validate_callback ()) = Inr ()
    \<longleftrightarrow> (\<exists>p. validate_frame (mold_frame (replicate 10 65) 7 2 [[1], [2, 3]]) = Some (Inr p))"
proof -
  have "parse_header (mold_frame (replicate 10 65) 7 2 [[1], [2, 3]])
      = Inr \<lparr>hdr_session = replicate 10 65, hdr_seq = 7, hdr_count = 2\<rparr>"
    by (rule parse_header_frame) simp
  from ingest_walk_ok_iff [OF this] show ?thesis
    by (simp add: kind_def span_def checked_add64_def)
qed

end
