(* ===== verification/Counters.thy ===== *)
theory Counters
  imports Packet
begin

text \<open>
  The sequencer's vocabulary: \<open>crates/nf-arbitrator/src/state.rs\<close>, \<open>types.rs\<close> and
  \<open>counters.rs\<close>.  A sink is observed, never inspected: the model records the calls it
  receives, in order, as a list of \<open>SinkCall\<close>.  Its two opt-in answers are parameters of
  the operations that read them.  Counters are the u64 fields of the source and wrap.
\<close>

section \<open>States, events, sink calls\<close>

datatype State = Init | Contig | Gap | EosPersist | Ended | Dead

datatype DeadReason = RetryExhausted | TcpUnreachable | Sealed

type_synonym FeedId = u8

datatype Event =
    GapOpened (ev_from: u64) (ev_ahead: "u64 option") (ev_gen: u64)
  | ReAnchored (ra_gen: u64) (ra_at: u64)
  | SessionBoundary (sb_prev: SessionId) (sb_next: SessionId) (sb_gen: u64)
  | EndOfSessionEv (eos_session: SessionId) (eos_final_wm: u64) (eos_announced_next: u64)
  | SessionDead (sd_reason: DeadReason) (sd_last_wm: u64)

datatype SequencerMutation = NoMutation | DisableClearOnAdvance | OffByOneClamp | DropStagedAtEos

record RecoveryIntent =
  ri_from :: u64
  ri_to_excl :: u64

record SpanRec =
  sr_first_seq :: u64
  sr_count :: u16
  sr_body :: bytes
  sr_blocks :: "BlockTriple list"

text \<open>
  The calls of the trait \<open>Sink\<close>; the first argument of an emission is the generation
  inside its \<open>LiveFeedProof\<close>.  A packed batch carries the first sequence number, the total
  count, the base address and the raw words.
\<close>

datatype SinkCall =
    OnMsg (call_gen: u64) (call_seq: u64) (call_data: bytes)
  | OnEvent (call_event: Event)
  | OnSpan (call_gen: u64) SpanRec
  | OnSpanBatch (call_gen: u64) "SpanRec list"
  | OnSpanBatchPacked (call_gen: u64) (packed_first: u64) (packed_total: u64)
      (packed_base: u64) (packed_words: "u64 list")

section \<open>Counters\<close>

record FeedCounters =
  fc_packets :: u64
  fc_dups :: u64
  fc_bytes :: u64

record ViolationCounters =
  vc_truncated :: u64
  vc_trailing_bytes :: u64
  vc_block_overrun :: u64
  vc_zero_length_message :: u64
  vc_seq_overflow :: u64
  vc_payload_invalid :: u64
  vc_other :: u64

fun record_frame_error :: "FrameError \<Rightarrow> ViolationCounters \<Rightarrow> ViolationCounters" where
  "record_frame_error (Truncated _ _) v = v\<lparr>vc_truncated := vc_truncated v + 1\<rparr>"
| "record_frame_error (TrailingBytes _) v = v\<lparr>vc_trailing_bytes := vc_trailing_bytes v + 1\<rparr>"
| "record_frame_error BlockOverrun v = v\<lparr>vc_block_overrun := vc_block_overrun v + 1\<rparr>"
| "record_frame_error ZeroLengthMessage v = v\<lparr>vc_zero_length_message := vc_zero_length_message v + 1\<rparr>"
| "record_frame_error SeqOverflow v = v\<lparr>vc_seq_overflow := vc_seq_overflow v + 1\<rparr>"

fun record_packet_error :: "PacketError \<Rightarrow> ViolationCounters \<Rightarrow> ViolationCounters" where
  "record_packet_error (Framing fe) v = record_frame_error fe v"
| "record_packet_error (Payload _) v = v\<lparr>vc_payload_invalid := vc_payload_invalid v + 1\<rparr>"

record Counters =
  c_feed_a :: FeedCounters
  c_feed_b :: FeedCounters
  c_violations :: ViolationCounters
  c_total_violations :: u64
  c_staged_msgs :: u64
  c_dup_msgs :: u64
  c_beyond_window_dropped :: u64
  c_window_flushed :: u64
  c_gap_opens :: u64
  c_reanchors :: u64
  c_heartbeats :: u64
  c_eos_seen :: u64
  c_eos_dup :: u64
  c_sessions :: u64
  c_data_after_eos :: u64
  c_ignored_after_dead :: u64
  c_intents_issued :: u64
  c_msgs_emitted :: u64

definition FeedCounters_default :: FeedCounters where
  "FeedCounters_default = \<lparr>fc_packets = 0, fc_dups = 0, fc_bytes = 0\<rparr>"

definition ViolationCounters_default :: ViolationCounters where
  "ViolationCounters_default =
     \<lparr>vc_truncated = 0, vc_trailing_bytes = 0, vc_block_overrun = 0, vc_zero_length_message = 0,
      vc_seq_overflow = 0, vc_payload_invalid = 0, vc_other = 0\<rparr>"

definition Counters_default :: Counters where
  "Counters_default =
     \<lparr>c_feed_a = FeedCounters_default, c_feed_b = FeedCounters_default,
      c_violations = ViolationCounters_default, c_total_violations = 0, c_staged_msgs = 0,
      c_dup_msgs = 0, c_beyond_window_dropped = 0, c_window_flushed = 0, c_gap_opens = 0,
      c_reanchors = 0, c_heartbeats = 0, c_eos_seen = 0, c_eos_dup = 0, c_sessions = 0,
      c_data_after_eos = 0, c_ignored_after_dead = 0, c_intents_issued = 0, c_msgs_emitted = 0\<rparr>"

text \<open>\<open>feed_mut\<close> returns a reference to one of the two feed records; the model applies the
  update made through it.\<close>

definition feed_mut :: "FeedId \<Rightarrow> (FeedCounters \<Rightarrow> FeedCounters) \<Rightarrow> Counters \<Rightarrow> Counters" where
  "feed_mut fd upd c =
     (if fd AND 1 = 0 then c\<lparr>c_feed_a := upd (c_feed_a c)\<rparr> else c\<lparr>c_feed_b := upd (c_feed_b c)\<rparr>)"

definition feed :: "FeedId \<Rightarrow> Counters \<Rightarrow> FeedCounters" where
  "feed fd c = (if fd AND 1 = 0 then c_feed_a c else c_feed_b c)"

lemma feed_feed_mut [simp]:
  "feed fd (feed_mut fd upd c) = upd (feed fd c)"
  by (simp add: feed_def feed_mut_def)

end
