(* ===== verification/SeqState.thy ===== *)
theory SeqState
  imports Counters
begin

text \<open>
  The state of the sequencer, \<open>pub struct Sequencer\<close> of \<open>crates/nf-arbitrator/src/lib.rs\<close>.
  A helper of the crate receives the fields it works on as separate \<open>&mut\<close> references;
  here it is a function on the whole record that reads and writes those fields.  \<open>lens\<close>
  and \<open>arena\<close> are the two fixed arrays as functions from the index; every index is masked
  or bounded (theory WindowLaw).  An operation that talks to the
  sink returns the new state and the calls it made.
\<close>

record Sequencer =
  sq_w :: u64
  sq_gen :: u64
  sq_session :: SessionId
  sq_session_lo :: u64
  sq_session_hi :: u64
  sq_session_live :: bool
  sq_state :: State
  sq_gap_active :: bool
  sq_evidence_hwm :: u64
  sq_max_staged :: u64
  sq_staged_count :: u32
  sq_progress_vt :: u64
  sq_hb_seq :: u64
  sq_hb_vt :: u64
  sq_pending_to :: "u64 option"
  sq_last_intent_vt :: u64
  sq_counters :: Counters
  sq_mutation :: SequencerMutation
  sq_lens :: "nat \<Rightarrow> u8"
  sq_arena :: "nat \<Rightarrow> u8"

abbreviation count :: "(Counters \<Rightarrow> Counters) \<Rightarrow> Sequencer \<Rightarrow> Sequencer" where
  "count upd sq \<equiv> sq\<lparr>sq_counters := upd (sq_counters sq)\<rparr>"

type_synonym step = "Sequencer \<times> SinkCall list"

text \<open>Sequential composition: the calls of the two parts in order.\<close>

definition andThen :: "step \<Rightarrow> (Sequencer \<Rightarrow> step) \<Rightarrow> step" where
  "andThen st f = (let (sq1, cs1) = st; (sq2, cs2) = f sq1 in (sq2, cs1 @ cs2))"

lemma andThen_simps [simp]:
  "andThen (sq, cs) f = (fst (f sq), cs @ snd (f sq))"
  by (simp add: andThen_def split: prod.split)

lemma fst_andThen: "fst (andThen st f) = fst (f (fst st))"
  and snd_andThen: "snd (andThen st f) = snd st @ snd (f (fst st))"
  by (simp_all add: andThen_def split: prod.split)

definition zero_session :: SessionId where
  "zero_session = replicate 10 0"

definition Sequencer_new_unboxed :: Sequencer where
  "Sequencer_new_unboxed =
     \<lparr>sq_w = 0, sq_gen = 0, sq_session = zero_session, sq_session_lo = 0, sq_session_hi = 0,
      sq_session_live = False, sq_state = Init, sq_gap_active = False, sq_evidence_hwm = 0,
      sq_max_staged = 0, sq_staged_count = 0, sq_progress_vt = 0, sq_hb_seq = 0, sq_hb_vt = 0,
      sq_pending_to = None, sq_last_intent_vt = 0, sq_counters = Counters_default,
      sq_mutation = NoMutation, sq_lens = (\<lambda>_. 0), sq_arena = (\<lambda>_. 0)\<rparr>"

definition Sequencer_with_mutation :: "SequencerMutation \<Rightarrow> Sequencer" where
  "Sequencer_with_mutation mutation = Sequencer_new_unboxed\<lparr>sq_mutation := mutation\<rparr>"

text \<open>\<open>reanchor\<close>: every field but \<open>arena\<close> and \<open>mutation\<close>.\<close>

definition reanchor :: "Sequencer \<Rightarrow> Sequencer" where
  "reanchor sq = sq\<lparr>sq_w := 0, sq_gen := 0, sq_session := zero_session, sq_session_lo := 0,
     sq_session_hi := 0, sq_session_live := False, sq_state := Init, sq_gap_active := False,
     sq_evidence_hwm := 0, sq_max_staged := 0, sq_staged_count := 0, sq_progress_vt := 0,
     sq_hb_seq := 0, sq_hb_vt := 0, sq_pending_to := None, sq_last_intent_vt := 0,
     sq_counters := Counters_default, sq_lens := (\<lambda>_. 0)\<rparr>"

definition refresh_session_tmpl :: "Sequencer \<Rightarrow> Sequencer" where
  "refresh_session_tmpl sq =
     sq\<lparr>sq_session_lo := u64_from_le_bytes (slice 0 8 (sq_session sq)),
        sq_session_hi := u64_from_le_bytes (slice 2 10 (sq_session sq)),
        sq_session_live := (sq_session sq \<noteq> zero_session)\<rparr>"

definition replay_apply :: "u64 \<Rightarrow> Counters \<Rightarrow> u64 \<Rightarrow> Sequencer \<Rightarrow> Sequencer" where
  "replay_apply w counters progress_vt sq =
     sq\<lparr>sq_w := w, sq_counters := counters, sq_progress_vt := progress_vt\<rparr>"

end
