(* ===== verification/Window.thy ===== *)
theory Window
  imports SeqState
begin

text \<open>
  The staging window, \<open>crates/nf-arbitrator/src/window.rs\<close>: 1024 slots of 64 bytes, a
  length byte per slot holding length + 1 and 0 for an empty slot.
\<close>

abbreviation (input) WINDOW_SLOTS :: nat where "WINDOW_SLOTS \<equiv> 1024"
abbreviation (input) SLOT_SIZE :: nat where "SLOT_SIZE \<equiv> 64"
abbreviation (input) WINDOW_MASK_U64 :: u64 where "WINDOW_MASK_U64 \<equiv> 1023"

definition slot_of :: "u64 \<Rightarrow> nat" where
  "slot_of sq_no = unat (sq_no AND WINDOW_MASK_U64)"

definition stage_msg :: "u64 \<Rightarrow> bytes \<Rightarrow> Sequencer \<Rightarrow> Sequencer \<times> bool" where
  "stage_msg sq_no data sq =
     (let off = sq_no - sq_w sq in
      if off - 1 < of_nat WINDOW_SLOTS then
        let slot = slot_of sq_no;
            len = min (length data) SLOT_SIZE;
            start = slot * 64
        in (sq\<lparr>sq_staged_count := (if sq_lens sq slot = 0 then sq_staged_count sq + 1 else sq_staged_count sq),
               sq_lens := (sq_lens sq)(slot := of_nat len + 1),
               sq_arena := (\<lambda>i. if start \<le> i \<and> i < start + len then data ! (i - start)
                                 else sq_arena sq i)\<rparr>, True)
      else (sq, False))"

text \<open>One linear chunk of \<open>clear_slots\<close>; the flag tells that the loop returned because the
  window became empty.\<close>

fun clear_run :: "nat list \<Rightarrow> Sequencer \<Rightarrow> Sequencer \<times> bool" where
  "clear_run [] sq = (sq, False)"
| "clear_run (i # is) sq =
     (if sq_lens sq i \<noteq> 0 then
        let sq1 = sq\<lparr>sq_lens := (sq_lens sq)(i := 0), sq_staged_count := sq_staged_count sq - 1\<rparr>
        in if sq_staged_count sq1 = 0 then (sq1\<lparr>sq_max_staged := 0\<rparr>, True) else clear_run is sq1
      else clear_run is sq)"

definition clear_slots :: "u64 \<Rightarrow> u64 \<Rightarrow> Sequencer \<Rightarrow> Sequencer" where
  "clear_slots old_w new_w sq =
     (if sq_staged_count sq = 0 then sq
      else let limit = min new_w (saturating_add64 old_w (of_nat WINDOW_SLOTS)) in
      if limit \<le> old_w then sq
      else let n = unat (limit - old_w);
               start = slot_of old_w;
               first_n = min (WINDOW_SLOTS - start) n;
               (sq1, returned) = clear_run [start ..< start + first_n] sq
           in if returned then sq1 else fst (clear_run [0 ..< n - first_n] sq1))"

definition slot_msg :: "u64 \<Rightarrow> Sequencer \<Rightarrow> bytes" where
  "slot_msg wv sq =
     (let slot = slot_of wv; len = unat (sq_lens sq slot - 1); start = slot * 64
      in if 0 < len then map (sq_arena sq) [start ..< start + len] else [])"

text \<open>
  The drain loop.  Every round lowers \<open>staged_count\<close> by one and the loop stops at 0, so the
  count on entry bounds the rounds: the first argument starts at \<open>unat staged_count\<close> and
  its case 0 is never reached from a non-empty window.
\<close>

fun drain_loop :: "nat \<Rightarrow> u64 \<Rightarrow> Sequencer \<Rightarrow> step" where
  "drain_loop 0 gen sq = (sq, [])"
| "drain_loop (Suc n) gen sq =
     (let slot = slot_of (sq_w sq) in
      if sq_lens sq slot = 0 then (sq, [])
      else let call = OnMsg gen (sq_w sq) (slot_msg (sq_w sq) sq);
               sq1 = sq\<lparr>sq_lens := (sq_lens sq)(slot := 0),
                        sq_staged_count := sq_staged_count sq - 1, sq_w := sq_w sq + 1\<rparr>
           in if sq_staged_count sq1 = 0 then (sq1, [call])
              else let (sq2, cs) = drain_loop n gen sq1 in (sq2, call # cs))"

definition drain :: "u64 \<Rightarrow> Sequencer \<Rightarrow> step" where
  "drain gen sq =
     (if sq_staged_count sq = 0 then (sq, [])
      else let (sq1, cs) = drain_loop (unat (sq_staged_count sq)) gen sq
           in (if sq_staged_count sq1 = 0 then sq1\<lparr>sq_max_staged := 0\<rparr> else sq1, cs))"

end
