(* ===== verification/Control.thy ===== *)
theory Control
  imports Window
begin

text \<open>
  Control-plane handlers of the sequencer: gap lifecycle (\<open>gap.rs\<close>), session lifecycle and
  end of session (\<open>session.rs\<close>) and the recovery intents (\<open>intent.rs\<close>), all under
  \<open>crates/nf-arbitrator/src/\<close>.
\<close>

section \<open>Gaps\<close>

definition gap_evidence :: "u64 \<Rightarrow> Sequencer \<Rightarrow> step" where
  "gap_evidence x sq =
     (if \<not> sq_gap_active sq \<and> sq_w sq < x then
        let gen = sq_gen sq + 1 in
        (count (\<lambda>c. c\<lparr>c_gap_opens := c_gap_opens c + 1\<rparr>)
           (sq\<lparr>sq_gap_active := True, sq_gen := gen, sq_state := Gap, sq_evidence_hwm := x\<rparr>),
         [OnEvent (GapOpened (sq_w sq) (Some x) gen)])
      else if sq_gap_active sq then (sq\<lparr>sq_evidence_hwm := max (sq_evidence_hwm sq) x\<rparr>, [])
      else (sq, []))"

definition check_gap_close :: "u64 \<Rightarrow> Sequencer \<Rightarrow> step" where
  "check_gap_close gen sq =
     (if sq_gap_active sq \<and> sq_evidence_hwm sq \<le> sq_w sq then
        (count (\<lambda>c. c\<lparr>c_reanchors := c_reanchors c + 1\<rparr>)
           (sq\<lparr>sq_gap_active := False, sq_state := Contig, sq_evidence_hwm := 0\<rparr>),
         [OnEvent (ReAnchored gen (sq_w sq))])
      else (sq, []))"

section \<open>Sessions\<close>

definition session_dispatch :: "SessionId \<Rightarrow> Sequencer \<Rightarrow> step" where
  "session_dispatch new_session sq =
     (if sq_session sq = zero_session then
        (count (\<lambda>c. c\<lparr>c_sessions := c_sessions c + 1\<rparr>) (sq\<lparr>sq_session := new_session\<rparr>), [])
      else if sq_session sq \<noteq> new_session then
        let sq1 = count (\<lambda>c. c\<lparr>c_sessions := c_sessions c + 1\<rparr>) (sq\<lparr>sq_session := new_session\<rparr>);
            sq2 = (if sq_staged_count sq1 \<noteq> 0 then
                     count (\<lambda>c. c\<lparr>c_window_flushed := c_window_flushed c + 1\<rparr>)
                       (sq1\<lparr>sq_lens := (\<lambda>_. 0), sq_staged_count := 0\<rparr>)
                   else sq1);
            gen = sq_gen sq2 + 1
        in (sq2\<lparr>sq_max_staged := 0, sq_gap_active := False, sq_evidence_hwm := 0, sq_hb_seq := 0,
                sq_hb_vt := 0, sq_pending_to := None, sq_gen := gen, sq_state := Init\<rparr>,
            [OnEvent (SessionBoundary (sq_session sq) new_session gen)])
      else (sq, []))"

definition handle_heartbeat :: "u64 \<Rightarrow> u64 \<Rightarrow> Sequencer \<Rightarrow> step" where
  "handle_heartbeat sq_no now_ns sq0 =
     (let sq = count (\<lambda>c. c\<lparr>c_heartbeats := c_heartbeats c + 1\<rparr>) sq0 in
      if sq_state sq = Dead then (sq, [])
      else if sq_state sq = Init then (sq\<lparr>sq_hb_seq := sq_no, sq_hb_vt := now_ns\<rparr>, [])
      else if sq_state sq = Ended then (sq, [])
      else if sq_w sq < sq_no then
        gap_evidence sq_no (sq\<lparr>sq_hb_seq := sq_no, sq_hb_vt := now_ns\<rparr>)
      else (sq, []))"

definition end_session :: "u64 \<Rightarrow> Sequencer \<Rightarrow> step" where
  "end_session announced sq =
     (sq\<lparr>sq_state := Ended\<rparr>, [OnEvent (EndOfSessionEv (sq_session sq) (sq_w sq) announced)])"

definition handle_eos :: "Header \<Rightarrow> Sequencer \<Rightarrow> step" where
  "handle_eos hdr sq =
     (case sq_state sq of
        Dead \<Rightarrow> (sq, [])
      | Ended \<Rightarrow> (count (\<lambda>c. c\<lparr>c_eos_dup := c_eos_dup c + 1\<rparr>) sq, [])
      | Init \<Rightarrow> end_session (hdr_seq hdr) (count (\<lambda>c. c\<lparr>c_eos_seen := c_eos_seen c + 1\<rparr>) sq)
      | EosPersist \<Rightarrow>
          (let sq1 = count (\<lambda>c. c\<lparr>c_eos_dup := c_eos_dup c + 1\<rparr>) sq in
           if hdr_seq hdr \<le> sq_w sq1 then end_session (hdr_seq hdr) sq1 else (sq1, []))
      | _ \<Rightarrow>
          (let sq1 = count (\<lambda>c. c\<lparr>c_eos_seen := c_eos_seen c + 1\<rparr>) sq in
           if sq_w sq1 < hdr_seq hdr then (sq1\<lparr>sq_state := EosPersist\<rparr>, [])
           else end_session (hdr_seq hdr) sq1))"

definition seal :: "DeadReason \<Rightarrow> Sequencer \<Rightarrow> step" where
  "seal reason sq =
     (if sq_state sq \<noteq> Dead then (sq\<lparr>sq_state := Dead\<rparr>, [OnEvent (SessionDead reason (sq_w sq))])
      else (sq, []))"

section \<open>Recovery intents\<close>

abbreviation (input) TIME_TRIGGER_NS :: u64 where "TIME_TRIGGER_NS \<equiv> 250000"
abbreviation (input) HB_TRIGGER_NS :: u64 where "HB_TRIGGER_NS \<equiv> 250000"
abbreviation (input) RESUGGEST_WINDOW_NS :: u64 where "RESUGGEST_WINDOW_NS \<equiv> 250000"
abbreviation (input) HWM_STAGED_THRESHOLD :: u64 where "HWM_STAGED_THRESHOLD \<equiv> 512"
abbreviation (input) MAX_WIRE_REQUEST :: u64 where "MAX_WIRE_REQUEST \<equiv> 65535"

text \<open>Issue an intent: remember its end and time, and count it.\<close>

definition issue_intent :: "u64 \<Rightarrow> u64 \<Rightarrow> Sequencer \<Rightarrow> Sequencer \<times> RecoveryIntent option" where
  "issue_intent now_ns to_excl sq =
     (count (\<lambda>c. c\<lparr>c_intents_issued := c_intents_issued c + 1\<rparr>) (sq\<lparr>sq_last_intent_vt := now_ns\<rparr>),
      Some \<lparr>ri_from = sq_w sq, ri_to_excl = to_excl\<rparr>)"

definition intent_target :: "u64 \<Rightarrow> Sequencer \<Rightarrow> u64 option" where
  "intent_target now_ns sq =
     (if (sq_w sq < sq_max_staged sq \<and> HWM_STAGED_THRESHOLD \<le> sq_max_staged sq - sq_w sq)
         \<or> (0 < sq_staged_count sq \<and> TIME_TRIGGER_NS \<le> saturating_sub64 now_ns (sq_progress_vt sq))
      then Some (sq_max_staged sq)
      else if sq_w sq < sq_hb_seq sq \<and> HB_TRIGGER_NS \<le> saturating_sub64 now_ns (sq_hb_vt sq)
      then Some (sq_hb_seq sq)
      else None)"

definition check_recovery_intent :: "u64 \<Rightarrow> Sequencer \<Rightarrow> Sequencer \<times> RecoveryIntent option" where
  "check_recovery_intent now_ns sq =
     (case intent_target now_ns sq of
        None \<Rightarrow>
          (case sq_pending_to sq of
             Some p \<Rightarrow>
               if RESUGGEST_WINDOW_NS \<le> saturating_sub64 now_ns (sq_last_intent_vt sq)
               then issue_intent now_ns p sq else (sq, None)
           | None \<Rightarrow> (sq, None))
      | Some target \<Rightarrow>
          (let t = min target (sq_w sq + MAX_WIRE_REQUEST) in
           case sq_pending_to sq of
             None \<Rightarrow> issue_intent now_ns t (sq\<lparr>sq_pending_to := Some t\<rparr>)
           | Some prev_p \<Rightarrow>
               if prev_p < t then issue_intent now_ns t (sq\<lparr>sq_pending_to := Some t\<rparr>)
               else if RESUGGEST_WINDOW_NS \<le> saturating_sub64 now_ns (sq_last_intent_vt sq)
               then issue_intent now_ns prev_p sq else (sq, None)))"

text \<open>\<open>Sequencer::recovery_intent\<close> hands its fields to \<open>check_recovery_intent\<close>.\<close>

definition recovery_intent :: "u64 \<Rightarrow> Sequencer \<Rightarrow> Sequencer \<times> RecoveryIntent option" where
  "recovery_intent now_ns sq = check_recovery_intent now_ns sq"

end
