(* ===== verification/Sequencer.thy ===== *)
theory Sequencer
  imports Control
begin

text \<open>
  The per-packet ingest ladder of \<open>crates/nf-arbitrator/src/lib.rs\<close>: \<open>ingest\<close>, its indexed
  twin \<open>ingest_indexed\<close>, the router \<open>ingest_auto\<close> and the accessors.  Each stage of the
  ladder (S0 header, S1 session, S2 kind, S3 span, S5 apply) is a definition; the closures
  of the source are callbacks over their captured state.  The triples of an indexed frame
  point into the frame (\<open>frame_triples\<close> in theory Indexed); \<open>slice\<close> is Rust's slicing on
  every such range.
\<close>

section \<open>Shared pieces\<close>

definition count_packet :: "FeedId \<Rightarrow> nat \<Rightarrow> Sequencer \<Rightarrow> Sequencer" where
  "count_packet fd len sq =
     count (feed_mut fd (\<lambda>f. f\<lparr>fc_packets := fc_packets f + 1, fc_bytes := fc_bytes f + of_nat len\<rparr>)) sq"

definition violate :: "(ViolationCounters \<Rightarrow> ViolationCounters) \<Rightarrow> Sequencer \<Rightarrow> Sequencer" where
  "violate upd sq =
     count (\<lambda>c. c\<lparr>c_violations := upd (c_violations c), c_total_violations := c_total_violations c + 1\<rparr>) sq"

definition count_emitted :: "u64 \<Rightarrow> Sequencer \<Rightarrow> Sequencer" where
  "count_emitted n sq = count (\<lambda>c. c\<lparr>c_msgs_emitted := c_msgs_emitted c + n\<rparr>) sq"

definition count_dup_msgs :: "u64 \<Rightarrow> Sequencer \<Rightarrow> Sequencer" where
  "count_dup_msgs n sq = count (\<lambda>c. c\<lparr>c_dup_msgs := c_dup_msgs c + n\<rparr>) sq"

definition dispatch_session :: "SessionId \<Rightarrow> Sequencer \<Rightarrow> step" where
  "dispatch_session new_session sq =
     (let (sq1, cs) = session_dispatch new_session sq
      in (if \<not> sq_session_live sq1 \<or> sq_session sq1 \<noteq> sq_session sq
          then refresh_session_tmpl sq1 else sq1, cs))"

definition eos_packet :: "Header \<Rightarrow> Sequencer \<Rightarrow> step" where
  "eos_packet hdr sq =
     handle_eos hdr
       (if sq_mutation sq = DropStagedAtEos then sq\<lparr>sq_lens := (\<lambda>_. 0), sq_staged_count := 0\<rparr> else sq)"

definition refuse_after_eos :: "Sequencer \<Rightarrow> Sequencer" where
  "refuse_after_eos sq =
     count (\<lambda>c. c\<lparr>c_data_after_eos := c_data_after_eos c + 1,
                  c_total_violations := c_total_violations c + 1\<rparr>) sq"

definition anchor :: "u64 \<Rightarrow> u64 \<Rightarrow> Sequencer \<Rightarrow> Sequencer" where
  "anchor first now_ns sq = sq\<lparr>sq_w := first, sq_progress_vt := now_ns, sq_state := Contig\<rparr>"

definition count_duplicate :: "FeedId \<Rightarrow> u64 \<Rightarrow> Sequencer \<Rightarrow> Sequencer" where
  "count_duplicate fd n sq =
     count_dup_msgs n (count (feed_mut fd (\<lambda>f. f\<lparr>fc_dups := fc_dups f + 1\<rparr>)) sq)"

text \<open>Drain, add to \<open>msgs_emitted\<close>, and take the progress time when something came out.\<close>

definition drain_counted :: "u64 \<Rightarrow> u64 \<Rightarrow> Sequencer \<Rightarrow> step" where
  "drain_counted gen now_ns sq =
     (let (sq1, cs) = drain gen sq; sq2 = count_emitted (of_nat (length cs)) sq1
      in (if cs \<noteq> [] then sq2\<lparr>sq_progress_vt := now_ns\<rparr> else sq2, cs))"

text \<open>The contiguous path after its emissions: advance, clear on advance, drain, close.\<close>

definition contig_tail :: "u64 \<Rightarrow> u64 \<Rightarrow> u64 \<Rightarrow> u64 \<Rightarrow> Sequencer \<Rightarrow> step" where
  "contig_tail old_w last_sq gen now_ns sq =
     (let sq1 = sq\<lparr>sq_w := last_sq + 1\<rparr>;
          sq2 = (if sq_staged_count sq1 \<noteq> 0 \<and> sq_mutation sq1 \<noteq> DisableClearOnAdvance
                 then clear_slots old_w (sq_w sq1) sq1 else sq1);
          sq3 = sq2\<lparr>sq_progress_vt := now_ns\<rparr>
      in andThen (if sq_staged_count sq3 \<noteq> 0 then drain_counted gen now_ns sq3 else (sq3, []))
           (\<lambda>sq4. if sq_gap_active sq4 then check_gap_close gen sq4 else (sq4, [])))"

definition max_clamp :: "Sequencer \<Rightarrow> u64" where
  "max_clamp sq =
     (if sq_mutation sq = OffByOneClamp then sq_w sq + of_nat (WINDOW_SLOTS div 2)
      else sq_w sq + of_nat WINDOW_SLOTS)"

definition stage_or_drop :: "u64 \<Rightarrow> u64 \<Rightarrow> bytes \<Rightarrow> Sequencer \<Rightarrow> Sequencer" where
  "stage_or_drop clamp sq_no data sq =
     (if sq_no < clamp then
        (case stage_msg sq_no data sq of
           (sq1, True) \<Rightarrow> count (\<lambda>c. c\<lparr>c_staged_msgs := c_staged_msgs c + 1\<rparr>) sq1
         | (sq1, False) \<Rightarrow> count (\<lambda>c. c\<lparr>c_beyond_window_dropped := c_beyond_window_dropped c + 1\<rparr>) sq1)
      else count (\<lambda>c. c\<lparr>c_beyond_window_dropped := c_beyond_window_dropped c + 1\<rparr>) sq)"

text \<open>The gap path after its staging walk.\<close>

definition gap_tail :: "u64 \<Rightarrow> u64 \<Rightarrow> Sequencer \<Rightarrow> step" where
  "gap_tail last_sq now_ns sq =
     (let sq1 = (if sq_w sq + of_nat WINDOW_SLOTS \<le> last_sq
                 then sq\<lparr>sq_evidence_hwm := max (sq_evidence_hwm sq) (last_sq + 1)\<rparr> else sq);
          sq2 = sq1\<lparr>sq_max_staged := max (sq_max_staged sq1) last_sq\<rparr>
      in andThen (drain_counted (sq_gen sq2) now_ns sq2) (\<lambda>sq3. check_gap_close (sq_gen sq3) sq3))"

definition retire_pending :: "Sequencer \<Rightarrow> Sequencer" where
  "retire_pending sq =
     (case sq_pending_to sq of
        Some p \<Rightarrow> if p \<le> sq_w sq then sq\<lparr>sq_pending_to := None\<rparr> else sq
      | None \<Rightarrow> sq)"

section \<open>Classic ingest\<close>

definition emit_callback :: "u64 \<Rightarrow> (u64 \<times> SinkCall list) block_callback" where
  "emit_callback gen st sq_no data =
     (case validate data of
        Inl e \<Rightarrow> (st, Inl e)
      | Inr _ \<Rightarrow> ((fst st + 1, snd st @ [OnMsg gen sq_no data]), Inr ()))"

definition stage_callback :: "u64 \<Rightarrow> Sequencer block_callback" where
  "stage_callback clamp sq sq_no data =
     (case validate data of
        Inl e \<Rightarrow> (sq, Inl e)
      | Inr _ \<Rightarrow> (stage_or_drop clamp sq_no data sq, Inr ()))"

definition apply_contig :: "bytes \<Rightarrow> u64 \<Rightarrow> u64 \<Rightarrow> u16 \<Rightarrow> u64 \<Rightarrow> Sequencer \<Rightarrow> step" where
  "apply_contig frame first last_sq cnt now_ns sq =
     (let old_w = sq_w sq; gen = sq_gen sq;
          skip = min (unat (old_w - first)) (unat cnt);
          sq1 = (if skip \<noteq> 0 then count_dup_msgs (of_nat skip) sq else sq)
      in case ingest_walk frame first cnt skip (emit_callback gen) (0, []) of
           ((n_emit, cs), Inl e) \<Rightarrow> (violate (record_packet_error e) (count_emitted n_emit sq1), cs)
         | ((n_emit, cs), Inr _) \<Rightarrow>
             andThen (count_emitted n_emit sq1, cs)
               (\<lambda>sq2. andThen (contig_tail old_w last_sq gen now_ns sq2) (\<lambda>sq3. (retire_pending sq3, []))))"

definition apply_gap :: "bytes \<Rightarrow> u64 \<Rightarrow> u64 \<Rightarrow> u16 \<Rightarrow> u64 \<Rightarrow> Sequencer \<Rightarrow> step" where
  "apply_gap frame first last_sq cnt now_ns sq =
     andThen (gap_evidence first sq)
       (\<lambda>sq1. case ingest_walk frame first cnt 0 (stage_callback (max_clamp sq1)) sq1 of
           (sq2, Inl e) \<Rightarrow> (violate (record_packet_error e) sq2, [])
         | (sq2, Inr _) \<Rightarrow> andThen (gap_tail last_sq now_ns sq2) (\<lambda>sq3. (retire_pending sq3, [])))"

definition ingest_span :: "bytes \<Rightarrow> Header \<Rightarrow> FeedId \<Rightarrow> u64 \<Rightarrow> Sequencer \<Rightarrow> step" where
  "ingest_span frame hdr fd now_ns sq =
     (case span hdr of
        None \<Rightarrow> (violate (\<lambda>v. v\<lparr>vc_seq_overflow := vc_seq_overflow v + 1\<rparr>) sq, [])
      | Some (first, last_sq) \<Rightarrow>
          if sq_state sq \<noteq> Init \<and> last_sq < sq_w sq then
            (count_duplicate fd (ucast (hdr_count hdr)) sq, [])
          else
            let sq1 = (if sq_state sq = Init then anchor first now_ns sq else sq)
            in if first \<le> sq_w sq1 then apply_contig frame first last_sq (hdr_count hdr) now_ns sq1
               else apply_gap frame first last_sq (hdr_count hdr) now_ns sq1)"

definition ingest_kind :: "bytes \<Rightarrow> Header \<Rightarrow> FeedId \<Rightarrow> u64 \<Rightarrow> Sequencer \<Rightarrow> step" where
  "ingest_kind frame hdr fd now_ns sq =
     (if hdr_count hdr = HEARTBEAT_COUNT then handle_heartbeat (hdr_seq hdr) now_ns sq
      else if hdr_count hdr = EOS_COUNT then eos_packet hdr sq
      else if sq_state sq = Ended then (refuse_after_eos sq, [])
      else ingest_span frame hdr fd now_ns sq)"

definition ingest :: "bytes \<Rightarrow> FeedId \<Rightarrow> u64 \<Rightarrow> Sequencer \<Rightarrow> step" where
  "ingest frame fd now_ns sq0 =
     (let sq = count_packet fd (length frame) sq0 in
      if length frame < HEADER_LEN then
        (violate (\<lambda>v. v\<lparr>vc_truncated := vc_truncated v + 1\<rparr>) sq, [])
      else case parse_header frame of
        Inl e \<Rightarrow> (violate (record_frame_error e) sq, [])
      | Inr hdr \<Rightarrow>
          if sq_state sq = Dead then
            (count (\<lambda>c. c\<lparr>c_ignored_after_dead := c_ignored_after_dead c + 1\<rparr>) sq, [])
          else andThen (dispatch_session (hdr_session hdr) sq) (ingest_kind frame hdr fd now_ns))"

section \<open>Indexed ingest\<close>

definition block_data :: "bytes \<Rightarrow> BlockTriple \<Rightarrow> bytes" where
  "block_data frame b = (case b of (sq_no, start, end) \<Rightarrow> slice (unat start) (unat end) frame)"

text \<open>The per-message loop of the contiguous path: the messages it emitted, their number,
  and the payload error it stopped at.\<close>

fun emit_blocks ::
    "bytes \<Rightarrow> bool \<Rightarrow> u64 \<Rightarrow> BlockTriple list \<Rightarrow> u64 \<times> SinkCall list \<times> ItchError option" where
  "emit_blocks frame all_valid gen [] = (0, [], None)"
| "emit_blocks frame all_valid gen (b # bs) =
     (case (if all_valid then Inr () else validate (block_data frame b)) of
        Inl e \<Rightarrow> (0, [], Some e)
      | Inr _ \<Rightarrow> (let (n, cs, r) = emit_blocks frame all_valid gen bs
                  in (n + 1, OnMsg gen (fst b) (block_data frame b) # cs, r)))"

fun stage_blocks :: "bytes \<Rightarrow> u64 \<Rightarrow> BlockTriple list \<Rightarrow> Sequencer \<Rightarrow> Sequencer \<times> ItchError option" where
  "stage_blocks frame clamp [] sq = (sq, None)"
| "stage_blocks frame clamp (b # bs) sq =
     (case validate (block_data frame b) of
        Inl e \<Rightarrow> (sq, Some e)
      | Inr _ \<Rightarrow> stage_blocks frame clamp bs (stage_or_drop clamp (fst b) (block_data frame b) sq))"

definition all_valid :: "FrameMemo option \<Rightarrow> nat \<Rightarrow> bool" where
  "all_valid memo n = (case memo of None \<Rightarrow> False | Some m \<Rightarrow> unat (fm_valid_count m) = n)"

definition indexed_contig ::
    "bool \<Rightarrow> bytes \<Rightarrow> u64 \<Rightarrow> u64 \<Rightarrow> BlockTriple list \<Rightarrow> FrameMemo option \<Rightarrow> u64 \<Rightarrow> Sequencer \<Rightarrow> step" where
  "indexed_contig wants_spans frame first last_sq blocks memo now_ns sq =
     (let old_w = sq_w sq; gen = sq_gen sq; n = length blocks;
          skip = min (unat (old_w - first)) n;
          sq1 = (if skip \<noteq> 0 then count_dup_msgs (of_nat skip) sq else sq);
          tail = (\<lambda>sq2. andThen (contig_tail old_w last_sq gen now_ns sq2) (\<lambda>sq3. (retire_pending sq3, [])))
      in if all_valid memo n \<and> wants_spans \<and> skip < n then
           let body = slice (unat (fst (snd (blocks ! skip)))) (unat (snd (snd (blocks ! (n - 1))))) frame;
               rec = \<lparr>sr_first_seq = first + of_nat skip, sr_count = of_nat (n - skip),
                      sr_body = body, sr_blocks = drop skip blocks\<rparr>
           in andThen (count_emitted (of_nat (n - skip)) sq1, [OnSpan gen rec]) tail
         else case emit_blocks frame (all_valid memo n) gen (drop skip blocks) of
           (n_emit, cs, Some e) \<Rightarrow>
             (violate (record_packet_error (Payload e)) (count_emitted n_emit sq1), cs)
         | (n_emit, cs, None) \<Rightarrow> andThen (count_emitted n_emit sq1, cs) tail)"

definition indexed_gap ::
    "bytes \<Rightarrow> u64 \<Rightarrow> u64 \<Rightarrow> BlockTriple list \<Rightarrow> u64 \<Rightarrow> Sequencer \<Rightarrow> step" where
  "indexed_gap frame first last_sq blocks now_ns sq =
     andThen (gap_evidence first sq)
       (\<lambda>sq1. case stage_blocks frame (max_clamp sq1) blocks sq1 of
           (sq2, Some e) \<Rightarrow> (violate (record_packet_error (Payload e)) sq2, [])
         | (sq2, None) \<Rightarrow> andThen (gap_tail last_sq now_ns sq2) (\<lambda>sq3. (retire_pending sq3, [])))"

definition indexed_span ::
    "bool \<Rightarrow> bytes \<Rightarrow> u16 \<Rightarrow> FeedId \<Rightarrow> u64 \<Rightarrow> BlockTriple list \<Rightarrow> FrameMemo option \<Rightarrow> Sequencer \<Rightarrow> step" where
  "indexed_span wants_spans frame hdr_cnt fd now_ns blocks memo sq =
     (if blocks = [] then (sq, [])
      else let first = fst (hd blocks); last_sq = fst (List.last blocks) in
      if sq_state sq \<noteq> Init \<and> last_sq < sq_w sq then (count_duplicate fd (ucast hdr_cnt) sq, [])
      else let sq1 = (if sq_state sq = Init then anchor first now_ns sq else sq)
           in if first \<le> sq_w sq1 then indexed_contig wants_spans frame first last_sq blocks memo now_ns sq1
              else indexed_gap frame first last_sq blocks now_ns sq1)"

definition indexed_kind ::
    "bool \<Rightarrow> bytes \<Rightarrow> FeedId \<Rightarrow> u64 \<Rightarrow> BlockTriple list \<Rightarrow> FrameMemo option \<Rightarrow> Sequencer \<Rightarrow> step" where
  "indexed_kind wants_spans frame fd now_ns blocks memo sq =
     (let hdr_cnt = u16_from_be_bytes [frame ! 18, frame ! 19];
          hdr_sq = u64_from_be_bytes (slice 10 18 frame)
      in if hdr_cnt = HEARTBEAT_COUNT then handle_heartbeat hdr_sq now_ns sq
         else if hdr_cnt = EOS_COUNT then
           eos_packet \<lparr>hdr_session = slice 0 10 frame, hdr_seq = hdr_sq, hdr_count = hdr_cnt\<rparr> sq
         else if sq_state sq = Ended then (refuse_after_eos sq, [])
         else indexed_span wants_spans frame hdr_cnt fd now_ns blocks memo sq)"

definition ingest_indexed ::
    "bool \<Rightarrow> bytes \<Rightarrow> FeedId \<Rightarrow> u64 \<Rightarrow> BlockTriple list \<Rightarrow> FrameMemo option \<Rightarrow> Sequencer \<Rightarrow> step" where
  "ingest_indexed wants_spans frame fd now_ns blocks memo sq0 =
     (let sq = count_packet fd (length frame) sq0 in
      if length frame < HEADER_LEN then
        (violate (\<lambda>v. v\<lparr>vc_truncated := vc_truncated v + 1\<rparr>) sq, [])
      else if sq_state sq = Dead then
        (count (\<lambda>c. c\<lparr>c_ignored_after_dead := c_ignored_after_dead c + 1\<rparr>) sq, [])
      else
        let sess_match = (sq_session_live sq
              \<and> u64_from_le_bytes (slice 0 8 frame) = sq_session_lo sq
              \<and> u64_from_le_bytes (slice 2 10 frame) = sq_session_hi sq)
        in andThen (if sess_match then (sq, []) else dispatch_session (slice 0 10 frame) sq)
             (indexed_kind wants_spans frame fd now_ns blocks memo))"

definition ingest_auto ::
    "bool \<Rightarrow> bytes \<Rightarrow> FeedId \<Rightarrow> u64 \<Rightarrow> BlockTriple list \<Rightarrow> FrameMemo option \<Rightarrow> Sequencer \<Rightarrow> step" where
  "ingest_auto wants_spans frame fd now_ns blocks memo sq =
     (if blocks = [] then ingest frame fd now_ns sq
      else ingest_indexed wants_spans frame fd now_ns blocks memo sq)"

end
