(* ===== verification/WindowLaw.thy ===== *)
theory WindowLaw
  imports Window
begin

text \<open>
  What the staging window holds.  \<open>window_at msg b held sq\<close> says that the two arrays of
  \<open>sq\<close> store exactly the messages \<open>msg n\<close> of the sequence numbers \<open>n\<close> in \<open>held\<close>, all of
  them in the 1023 numbers after \<open>b\<close>, and that \<open>staged_count\<close> is their number.  Each
  window operation is an operation on \<open>held\<close>: staging inserts, clearing removes the numbers
  below the new watermark, draining removes and emits the run that starts at the watermark.
\<close>

section \<open>Slots\<close>

lemma slot_of_mod: "slot_of x = unat x mod 1024"
proof -
  have "x AND 1023 = take_bit 10 x" by (simp add: take_bit_eq_mask mask_eq_exp_minus_1)
  then have "unat (x AND 1023) = take_bit 10 (unat x)" by (simp only: unsigned_take_bit_eq)
  then show ?thesis by (simp add: slot_of_def take_bit_eq_mod)
qed

lemma mod_window_inj:
  fixes m n b :: nat
  assumes "m mod 1024 = n mod 1024" "b < m" "m < b + 1024" "b < n" "n < b + 1024"
  shows "m = n"
proof -
  have le: "m = n" if "m \<le> n" "m mod 1024 = n mod 1024" "n - m < 1024" for m n :: nat
  proof -
    have "1024 dvd n - m" using that(1,2) mod_eq_dvd_iff_nat [of m n 1024] by simp
    with that(3) have "n - m = 0" by (meson dvd_imp_le not_less not_gr_zero)
    with that(1) show ?thesis by simp
  qed
  have "n - m < 1024" "m - n < 1024" using assms(2-5) by linarith+
  with le [of m n] le [of n m] assms(1) show ?thesis by (metis nle_le)
qed

section \<open>The rest of the state\<close>

text \<open>Everything a window operation leaves alone.\<close>

definition outside :: "Sequencer \<Rightarrow> Sequencer" where
  "outside sq = sq\<lparr>sq_staged_count := 0, sq_max_staged := 0, sq_lens := (\<lambda>_. 0), sq_arena := (\<lambda>_. 0)\<rparr>"

lemma outside_eqD:
  assumes "outside sq = outside sq'"
  shows "sq_w sq = sq_w sq'" "sq_gen sq = sq_gen sq'" "sq_session sq = sq_session sq'"
    "sq_session_lo sq = sq_session_lo sq'" "sq_session_hi sq = sq_session_hi sq'"
    "sq_session_live sq = sq_session_live sq'" "sq_state sq = sq_state sq'"
    "sq_gap_active sq = sq_gap_active sq'" "sq_evidence_hwm sq = sq_evidence_hwm sq'"
    "sq_progress_vt sq = sq_progress_vt sq'" "sq_hb_seq sq = sq_hb_seq sq'"
    "sq_hb_vt sq = sq_hb_vt sq'" "sq_pending_to sq = sq_pending_to sq'"
    "sq_last_intent_vt sq = sq_last_intent_vt sq'" "sq_counters sq = sq_counters sq'"
    "sq_mutation sq = sq_mutation sq'"
  using assms unfolding outside_def by (cases sq; cases sq'; simp)+

lemma outside_upd [simp]:
  "outside (sq\<lparr>sq_staged_count := a\<rparr>) = outside sq" "outside (sq\<lparr>sq_max_staged := b\<rparr>) = outside sq"
  "outside (sq\<lparr>sq_lens := c\<rparr>) = outside sq" "outside (sq\<lparr>sq_arena := d\<rparr>) = outside sq"
  "outside (sq\<lparr>sq_w := w\<rparr>) = (outside sq)\<lparr>sq_w := w\<rparr>"
  "outside (count upd sq) = count upd (outside sq)"
  by (simp_all add: outside_def)

lemma outside_simps [simp]:
  "sq_w (outside sq) = sq_w sq" "sq_counters (outside sq) = sq_counters sq"
  by (simp_all add: outside_def)

section \<open>Contents\<close>

definition window_at :: "(nat \<Rightarrow> bytes) \<Rightarrow> nat \<Rightarrow> nat set \<Rightarrow> Sequencer \<Rightarrow> bool" where
  "window_at msg b held sq \<longleftrightarrow>
     held \<subseteq> {b <..< b + 1024} \<and>
     unat (sq_staged_count sq) = card held \<and>
     (\<forall>n \<in> held. length (msg n) \<le> 64 \<and> unat (sq_lens sq (n mod 1024)) = length (msg n) + 1 \<and>
        (\<forall>k < length (msg n). sq_arena sq (n mod 1024 * 64 + k) = msg n ! k)) \<and>
     (\<forall>i. sq_lens sq i \<noteq> 0 \<longrightarrow> (\<exists>n \<in> held. i = n mod 1024))"

lemma window_at_bounds: "window_at msg b held sq \<Longrightarrow> n \<in> held \<Longrightarrow> b < n \<and> n < b + 1024"
  unfolding window_at_def by auto

lemma window_at_inj:
  "window_at msg b held sq \<Longrightarrow> m \<in> held \<Longrightarrow> b < n \<Longrightarrow> n < b + 1024 \<Longrightarrow>
     m mod 1024 = n mod 1024 \<longleftrightarrow> m = n"
  using mod_window_inj [of m n b] window_at_bounds [of msg b held sq m] by blast

lemma window_at_finite: "window_at msg b held sq \<Longrightarrow> finite held"
  unfolding window_at_def by (meson finite_greaterThanLessThan finite_subset)

lemma window_at_card: "window_at msg b held sq \<Longrightarrow> card held < 1024"
proof -
  assume "window_at msg b held sq"
  then have "card held \<le> card {b <..< b + 1024}"
    unfolding window_at_def by (meson card_mono finite_greaterThanLessThan)
  then show ?thesis by simp
qed

lemma window_at_empty_iff: "window_at msg b held sq \<Longrightarrow> sq_staged_count sq = 0 \<longleftrightarrow> held = {}"
  using window_at_finite [of msg b held sq]
  by (auto simp: window_at_def unat_eq_zero [symmetric])

lemma window_at_slot:
  assumes "window_at msg b held sq" "b \<le> n" "n < b + 1024"
  shows "sq_lens sq (n mod 1024) \<noteq> 0 \<longleftrightarrow> n \<in> held"
proof
  assume "sq_lens sq (n mod 1024) \<noteq> 0"
  then obtain m where m: "m \<in> held" "n mod 1024 = m mod 1024"
    using assms(1) unfolding window_at_def by blast
  then have "b < m" "m < b + 1024" using assms(1) unfolding window_at_def by auto
  have "n = m"
  proof (cases "n = b")
    case True
    have "m = b + 1024 * ((m - b) div 1024) + (m - b) mod 1024" using \<open>b < m\<close> by simp
    moreover have "(m - b) mod 1024 = 0"
      using m(2) True \<open>b < m\<close> by (metis less_imp_le mod_eq_dvd_iff_nat mod_0_imp_dvd dvd_imp_mod_0)
    ultimately show ?thesis using \<open>b < m\<close> \<open>m < b + 1024\<close> by auto
  next
    case False
    then show ?thesis using mod_window_inj [of n m b] assms(2,3) m \<open>b < m\<close> \<open>m < b + 1024\<close> by simp
  qed
  then show "n \<in> held" using m by simp
next
  assume "n \<in> held"
  then have "unat (sq_lens sq (n mod 1024)) = length (msg n) + 1"
    using assms(1) unfolding window_at_def by blast
  then show "sq_lens sq (n mod 1024) \<noteq> 0" by auto
qed

lemma window_at_cong:
  "window_at msg b held sq \<Longrightarrow> sq_staged_count sq' = sq_staged_count sq \<Longrightarrow>
   sq_lens sq' = sq_lens sq \<Longrightarrow> sq_arena sq' = sq_arena sq \<Longrightarrow> window_at msg b held sq'"
  by (simp add: window_at_def)

lemma window_at_rebase:
  "window_at msg b held sq \<Longrightarrow> \<forall>n \<in> held. b' < n \<and> n < b' + 1024 \<Longrightarrow> window_at msg b' held sq"
  unfolding window_at_def by auto

lemma window_at_none:
  "sq_staged_count sq = 0 \<Longrightarrow> sq_lens sq = (\<lambda>_. 0) \<Longrightarrow> window_at msg b {} sq"
  by (simp add: window_at_def)

lemma window_at_emptyD: "window_at msg b {} sq \<Longrightarrow> sq_lens sq = (\<lambda>_. 0)"
  by (auto simp: window_at_def)

text \<open>Emptying one slot.\<close>

lemma window_at_remove:
  assumes "window_at msg b held sq" "n \<in> held"
  shows "window_at msg b (held - {n})
    (sq\<lparr>sq_lens := (sq_lens sq)(n mod 1024 := 0), sq_staged_count := sq_staged_count sq - 1\<rparr>)"
proof -
  have "card held > 0" using assms window_at_finite by (auto simp: card_gt_0_iff)
  then have "1 \<le> sq_staged_count sq"
    using assms(1) by (simp add: window_at_def word_le_nat_alt)
  then have "unat (sq_staged_count sq - 1) = card held - 1"
    using assms(1) by (simp add: window_at_def unat_sub)
  moreover have "card (held - {n}) = card held - 1"
    using assms window_at_finite by (simp add: card_Diff_singleton)
  moreover have inj: "m mod 1024 = n mod 1024 \<longleftrightarrow> m = n" if "m \<in> held" for m
    using window_at_inj [OF assms(1) that] window_at_bounds [OF assms] by blast
  ultimately show ?thesis using assms unfolding window_at_def by auto
qed

section \<open>Staging\<close>

lemma stage_msg_window:
  assumes win: "window_at msg b held sq" and b: "b = unat (sq_w sq)"
    and sn: "unat sq_no = n" "b < n" "n < b + 1024" and len: "length (msg n) \<le> 64"
  shows "\<exists>sq'. stage_msg sq_no (msg n) sq = (sq', True) \<and> window_at msg b (insert n held) sq' \<and>
    outside sq' = outside sq \<and> sq_max_staged sq' = sq_max_staged sq"
proof -
  let ?i = "n mod 1024" and ?l = "length (msg n)"
  have off: "unat (sq_no - sq_w sq) = n - b"
    using sn b by (simp add: unat_minus_u64)
  then have "unat (sq_no - sq_w sq - 1) = n - b - 1"
    using sn by (simp add: unat_minus_u64)
  then have inw: "sq_no - sq_w sq - 1 < of_nat WINDOW_SLOTS"
    using sn by (simp add: word_less_nat_alt)
  have slot: "slot_of sq_no = ?i" by (simp add: slot_of_mod sn)
  let ?sq = "sq\<lparr>sq_staged_count := (if sq_lens sq ?i = 0 then sq_staged_count sq + 1 else sq_staged_count sq),
               sq_lens := (sq_lens sq)(?i := of_nat ?l + 1),
               sq_arena := (\<lambda>i. if ?i * 64 \<le> i \<and> i < ?i * 64 + ?l then msg n ! (i - ?i * 64)
                                 else sq_arena sq i)\<rparr>"
  have st: "stage_msg sq_no (msg n) sq = (?sq, True)"
    using inw len by (simp add: stage_msg_def slot Let_def)
  have pres: "sq_lens sq ?i \<noteq> 0 \<longleftrightarrow> n \<in> held"
    using window_at_slot [OF win, of n] sn by simp
  have fin: "finite held" "card held < 1024" using win window_at_finite window_at_card by auto
  have cnt: "unat (sq_staged_count ?sq) = card (insert n held)"
    using pres fin win by (auto simp: window_at_def unat_word_ariths card_insert_if)
  have lenw: "unat (of_nat ?l + 1 :: u8) = ?l + 1" using len by (simp add: unat_word_ariths)
  have ar: "sq_arena ?sq = (\<lambda>i. if ?i * 64 \<le> i \<and> i < ?i * 64 + ?l then msg n ! (i - ?i * 64)
                                 else sq_arena sq i)" by simp
  have arena: "sq_arena ?sq (m mod 1024 * 64 + k) = msg m ! k"
    if "m \<in> insert n held" "k < length (msg m)" for m k
  proof (cases "m = n")
    case True
    then show ?thesis using that by simp
  next
    case False
    then have m: "m \<in> held" using that by simp
    have "m mod 1024 \<noteq> ?i"
      using window_at_inj [OF win m] sn False by blast
    moreover have "k < 64" using win m that unfolding window_at_def by fastforce
    ultimately have "\<not> (?i * 64 \<le> m mod 1024 * 64 + k \<and> m mod 1024 * 64 + k < ?i * 64 + ?l)"
      using len by (cases "m mod 1024 < ?i") linarith+
    then have "sq_arena ?sq (m mod 1024 * 64 + k) = sq_arena sq (m mod 1024 * 64 + k)"
      by (subst ar) (rule if_not_P)
    then show ?thesis using win m that unfolding window_at_def by metis
  qed
  have lens: "length (msg m) \<le> 64 \<and> unat (sq_lens ?sq (m mod 1024)) = length (msg m) + 1"
    if "m \<in> insert n held" for m
  proof (cases "m = n")
    case True
    then show ?thesis using lenw len by simp
  next
    case False
    then have "m \<in> held" using that by simp
    moreover have "m mod 1024 \<noteq> ?i"
      using window_at_inj [OF win \<open>m \<in> held\<close>] sn False by blast
    ultimately show ?thesis using win unfolding window_at_def by simp
  qed
  have "window_at msg b (insert n held) ?sq"
    unfolding window_at_def using cnt lens arena win sn
    by (auto simp: window_at_def split: if_splits)
  then show ?thesis using st by (intro exI [of _ ?sq]) (simp add: outside_def)
qed

section \<open>Clearing\<close>

lemma clear_run_window:
  "window_at msg b held sq \<Longrightarrow> clear_run is sq = (sq', r) \<Longrightarrow>
     window_at msg b {n \<in> held. n mod 1024 \<notin> set is} sq' \<and> outside sq' = outside sq \<and>
     (r \<longrightarrow> {n \<in> held. n mod 1024 \<notin> set is} = {})"
proof (induction "is" arbitrary: held sq)
  case Nil
  then show ?case by simp
next
  case (Cons i "is")
  show ?case
  proof (cases "sq_lens sq i = 0")
    case True
    then have "n mod 1024 \<noteq> i" if "n \<in> held" for n
      using that window_at_slot [OF Cons.prems(1), of n] window_at_bounds [OF Cons.prems(1) that] by auto
    then have "{n \<in> held. n mod 1024 \<notin> set (i # is)} = {n \<in> held. n mod 1024 \<notin> set is}" by auto
    then show ?thesis using Cons.IH [OF Cons.prems(1)] Cons.prems(2) True by simp
  next
    case False
    then obtain n where n: "n \<in> held" "i = n mod 1024"
      using Cons.prems(1) unfolding window_at_def by blast
    let ?sq1 = "sq\<lparr>sq_lens := (sq_lens sq)(i := 0), sq_staged_count := sq_staged_count sq - 1\<rparr>"
    have w1: "window_at msg b (held - {n}) ?sq1"
      using window_at_remove [OF Cons.prems(1) n(1)] n(2) by simp
    have sets: "{m \<in> held. m mod 1024 \<notin> set (i # is)} = {m \<in> held - {n}. m mod 1024 \<notin> set is}"
      using window_at_inj [OF Cons.prems(1)] window_at_bounds [OF Cons.prems(1) n(1)] n by auto
    show ?thesis
    proof (cases "sq_staged_count ?sq1 = 0")
      case True
      then have "held - {n} = {}" using window_at_empty_iff [OF w1] by blast
      moreover have "sq' = ?sq1\<lparr>sq_max_staged := 0\<rparr>" using Cons.prems(2) False True by auto
      moreover have "window_at msg b (held - {n}) (?sq1\<lparr>sq_max_staged := 0\<rparr>)"
        using w1 by (rule window_at_cong) simp_all
      moreover have "{m \<in> held - {n}. m mod 1024 \<notin> set is} = held - {n}"
        using \<open>held - {n} = {}\<close> by blast
      ultimately show ?thesis unfolding sets by (simp add: outside_def)
    next
      case cnt: False
      then have "clear_run is ?sq1 = (sq', r)" using Cons.prems(2) False by simp
      then show ?thesis unfolding sets using Cons.IH [OF w1] by simp
    qed
  qed
qed

lemma ring_cover:
  fixes b m N :: nat
  assumes "b < m" "m < b + 1024" "N \<le> 1024"
  shows "m mod 1024 \<in> {b mod 1024 ..< b mod 1024 + min (1024 - b mod 1024) N}
      \<union> {0 ..< N - min (1024 - b mod 1024) N} \<longleftrightarrow> m < b + N"
proof -
  define s where "s = b mod 1024"
  define d where "d = m - b"
  have m: "m = b + d" and d: "0 < d" "d < 1024" using assms by (simp_all add: d_def)
  have s: "s < 1024" by (simp add: s_def)
  have "m mod 1024 = (s + d) mod 1024" by (simp add: m s_def mod_add_left_eq)
  also have "\<dots> = (if s + d < 1024 then s + d else s + d - 1024)"
    using s d by (simp add: mod_if)
  finally have mm: "m mod 1024 = (if s + d < 1024 then s + d else s + d - 1024)" .
  show ?thesis
    unfolding mm s_def [symmetric] unfolding m using s d assms(3) by (auto simp: min_def)
qed

lemma clear_slots_window:
  assumes win: "window_at msg b held sq" and b: "b = unat old_w"
    and le: "unat old_w \<le> unat new_w" and lim: "b + 1024 < 2 ^ 64"
  shows "window_at msg b {n \<in> held. unat new_w \<le> n} (clear_slots old_w new_w sq) \<and>
    outside (clear_slots old_w new_w sq) = outside sq"
proof -
  let ?limit = "min new_w (saturating_add64 old_w (of_nat WINDOW_SLOTS))"
  have sat: "unat (saturating_add64 old_w (of_nat WINDOW_SLOTS)) = b + 1024"
    using lim b by (simp add: saturating_add64_def unat_plus_u64)
  have l: "unat ?limit = min (unat new_w) (b + 1024)"
    using sat by (simp add: min_def word_le_nat_alt)
  show ?thesis
  proof (cases "sq_staged_count sq = 0")
    case True
    then have "held = {}" using window_at_empty_iff [OF win] by simp
    then show ?thesis using win True by (simp add: clear_slots_def)
  next
    case ne: False
    show ?thesis
    proof (cases "?limit \<le> old_w")
      case True
      then have "unat new_w = b" using l le b by (simp add: word_le_nat_alt)
      then have "{n \<in> held. unat new_w \<le> n} = held"
        using window_at_bounds [OF win] by (auto simp: less_imp_le)
      then show ?thesis using win ne True by (simp add: clear_slots_def Let_def)
    next
      case False
      define N where "N = unat (?limit - old_w)"
      define start where "start = slot_of old_w"
      define first_n where "first_n = min (1024 - start) N"
      have N: "N = min (unat new_w) (b + 1024) - b"
        using l le b by (simp add: N_def unat_minus_u64)
      obtain sq1 r where r1: "clear_run [start ..< start + first_n] sq = (sq1, r)" by fastforce
      obtain sq2 r2 where r2: "clear_run [0 ..< N - first_n] sq1 = (sq2, r2)" by fastforce
      have cs: "clear_slots old_w new_w sq = (if r then sq1 else sq2)"
        using ne False r1 r2 by (simp add: clear_slots_def Let_def N_def start_def first_n_def)
      note w1 = clear_run_window [OF win r1]
      note w2 = clear_run_window [OF conjunct1 [OF w1] r2]
      have sets: "{n \<in> {n \<in> held. n mod 1024 \<notin> set [start ..< start + first_n]}.
          n mod 1024 \<notin> set [0 ..< N - first_n]} = {n \<in> held. unat new_w \<le> n}"
      proof -
        have cover: "n mod 1024 \<in> {start ..< start + first_n} \<union> {0 ..< N - first_n} \<longleftrightarrow> n < unat new_w"
          if "n \<in> held" for n
        proof -
          have "n < b + N \<longleftrightarrow> n < unat new_w" using window_at_bounds [OF win that] le b N by auto
          then show ?thesis using ring_cover [of b n N] window_at_bounds [OF win that] b N
            by (simp add: start_def first_n_def slot_of_mod)
        qed
        show ?thesis
        proof (rule set_eqI)
          fix n
          show "n \<in> {n \<in> {n \<in> held. n mod 1024 \<notin> set [start ..< start + first_n]}.
              n mod 1024 \<notin> set [0 ..< N - first_n]} \<longleftrightarrow> n \<in> {n \<in> held. unat new_w \<le> n}"
            using cover [of n] by (cases "n \<in> held") (auto simp: not_less)
        qed
      qed
      show ?thesis
      proof (cases r)
        case True
        then have "{n \<in> held. unat new_w \<le> n} = {n \<in> held. n mod 1024 \<notin> set [start ..< start + first_n]}"
          using w1 sets by auto
        then show ?thesis using cs w1 True by simp
      next
        case False
        then show ?thesis using cs w1 w2 sets by simp
      qed
    qed
  qed
qed

section \<open>Draining\<close>

lemma slot_msg_held:
  assumes "window_at msg b held sq" "n \<in> held" "unat wv = n"
  shows "slot_msg wv sq = msg n"
proof -
  have l: "unat (sq_lens sq (n mod 1024)) = length (msg n) + 1"
    and a: "\<And>k. k < length (msg n) \<Longrightarrow> sq_arena sq (n mod 1024 * 64 + k) = msg n ! k"
    using assms unfolding window_at_def by auto
  have "unat (sq_lens sq (n mod 1024) - 1) = length (msg n)"
    using l by (subst unat_sub) (simp_all add: word_le_nat_alt)
  then show ?thesis
    using a assms(3) by (auto simp: slot_msg_def slot_of_mod Let_def intro!: nth_equalityI)
qed

definition messages :: "u64 \<Rightarrow> (nat \<Rightarrow> bytes) \<Rightarrow> nat \<Rightarrow> nat \<Rightarrow> SinkCall list" where
  "messages gen msg a b = map (\<lambda>n. OnMsg gen (of_nat n) (msg n)) [a ..< b]"

lemma messages_simps [simp]:
  "messages gen msg a a = []"
  "length (messages gen msg a b) = b - a"
  by (simp_all add: messages_def)

lemma messages_Cons: "a < b \<Longrightarrow> messages gen msg a b = OnMsg gen (of_nat a) (msg a) # messages gen msg (Suc a) b"
  by (simp add: messages_def upt_rec)

lemma messages_append: "a \<le> b \<Longrightarrow> b \<le> c \<Longrightarrow> messages gen msg a b @ messages gen msg b c = messages gen msg a c"
  using upt_add_eq_append [of a b "c - b"] by (simp add: messages_def flip: map_append)

lemma drain_loop_window:
  assumes "window_at msg b held sq" "card held = k" "unat (sq_w sq) = w" "b \<le> w"
    "\<forall>n \<in> held. w \<le> n" "b + 1024 < 2 ^ 64" "held \<noteq> {}"
  shows "\<exists>w' sq'. drain_loop k gen sq = (sq', messages gen msg w w') \<and>
    w \<le> w' \<and> {w ..< w'} \<subseteq> held \<and> w' \<notin> held \<and> unat (sq_w sq') = w' \<and>
    window_at msg b {n \<in> held. w' \<le> n} sq' \<and> outside sq' = (outside sq)\<lparr>sq_w := sq_w sq'\<rparr>"
  using assms
proof (induction k arbitrary: held sq w)
  case 0
  then show ?case using window_at_finite by fastforce
next
  case (Suc k)
  from Suc.prems(7) obtain n0 where "n0 \<in> held" by blast
  then have wb: "w < b + 1024"
    using Suc.prems(5) window_at_bounds [OF Suc.prems(1)] by (meson le_less_trans)
  have slot: "slot_of (sq_w sq) = w mod 1024" by (simp add: slot_of_mod Suc.prems(3))
  have pres: "sq_lens sq (w mod 1024) \<noteq> 0 \<longleftrightarrow> w \<in> held"
    using window_at_slot [OF Suc.prems(1,4) wb] .
  show ?case
  proof (cases "w \<in> held")
    case False
    then have "drain_loop (Suc k) gen sq = (sq, messages gen msg w w)"
      using pres slot by (simp add: Let_def)
    moreover have "{n \<in> held. w \<le> n} = held" using Suc.prems(5) by auto
    moreover have "outside sq = (outside sq)\<lparr>sq_w := sq_w sq\<rparr>" by (simp add: outside_def)
    ultimately show ?thesis using False Suc.prems(1,3) by (intro exI [of _ w] exI [of _ sq]) simp
  next
    case True
    let ?sq1 = "sq\<lparr>sq_lens := (sq_lens sq)(w mod 1024 := 0),
      sq_staged_count := sq_staged_count sq - 1, sq_w := sq_w sq + 1\<rparr>"
    let ?held = "held - {w}"
    have win1: "window_at msg b ?held ?sq1"
      using window_at_remove [OF Suc.prems(1) True] by (rule window_at_cong) simp_all
    have w1: "unat (sq_w ?sq1) = Suc w" using Suc.prems(3,6) wb by (simp add: unat_plus_u64)
    have call: "OnMsg gen (sq_w sq) (slot_msg (sq_w sq) sq) = OnMsg gen (of_nat w) (msg w)"
      using slot_msg_held [OF Suc.prems(1) True Suc.prems(3)] Suc.prems(3) by auto
    have step: "drain_loop (Suc k) gen sq =
      (if sq_staged_count ?sq1 = 0 then (?sq1, [OnMsg gen (of_nat w) (msg w)])
       else let (sq2, cs) = drain_loop k gen ?sq1 in (sq2, OnMsg gen (of_nat w) (msg w) # cs))"
    proof -
      have "(sq_lens sq (w mod 1024) = 0) = False" using True pres by simp
      then show ?thesis by (simp only: drain_loop.simps Let_def slot call if_False)
    qed
    have rest: "\<forall>n \<in> ?held. Suc w \<le> n" using Suc.prems(5) by (auto simp: Suc_le_eq less_le)
    have out1: "outside ?sq1 = (outside sq)\<lparr>sq_w := sq_w ?sq1\<rparr>" by (simp add: outside_def)
    show ?thesis
    proof (cases "?held = {}")
      case emp: True
      then have z: "sq_staged_count ?sq1 = 0" using window_at_empty_iff [OF win1] by blast
      have eq: "{n \<in> held. Suc w \<le> n} = held - {w}" and nin: "Suc w \<notin> held"
        using emp by (auto simp: Suc_le_eq)
      have "drain_loop (Suc k) gen sq = (?sq1, messages gen msg w (Suc w))"
        using step z by (simp add: messages_Cons)
      then show ?thesis using win1 w1 out1 True nin eq
        by (intro exI [of _ "Suc w"] exI [of _ ?sq1]) simp
    next
      case ne: False
      then have nz: "sq_staged_count ?sq1 \<noteq> 0" using window_at_empty_iff [OF win1] by blast
      have "card ?held = k" using Suc.prems(2) True window_at_finite [OF Suc.prems(1)] by simp
      from Suc.IH [OF win1 this w1 _ rest Suc.prems(6) ne] Suc.prems(4) obtain w' sq' where
        d: "drain_loop k gen ?sq1 = (sq', messages gen msg (Suc w) w')"
        and r: "Suc w \<le> w'" "{Suc w ..< w'} \<subseteq> ?held" "w' \<notin> ?held" "unat (sq_w sq') = w'"
          "window_at msg b {n \<in> ?held. w' \<le> n} sq'" "outside sq' = (outside ?sq1)\<lparr>sq_w := sq_w sq'\<rparr>"
        by auto
      have "{n \<in> ?held. w' \<le> n} = {n \<in> held. w' \<le> n}" using r(1) by auto
      moreover have "{w ..< w'} \<subseteq> held" using r(2) True by (auto simp: subset_iff) (metis Suc_leI le_neq_implies_less)
      moreover have "outside sq' = (outside sq)\<lparr>sq_w := sq_w sq'\<rparr>" using r(6) by simp
      ultimately show ?thesis unfolding step using nz d r
        by (intro exI [of _ w'] exI [of _ sq']) (simp add: messages_Cons)
    qed
  qed
qed

lemma drain_window:
  assumes "window_at msg b held sq" "unat (sq_w sq) = w" "b \<le> w" "\<forall>n \<in> held. w \<le> n" "b + 1024 < 2 ^ 64"
  shows "\<exists>w' sq'. drain gen sq = (sq', messages gen msg w w') \<and>
    w \<le> w' \<and> {w ..< w'} \<subseteq> held \<and> w' \<notin> held \<and> unat (sq_w sq') = w' \<and>
    window_at msg b {n \<in> held. w' \<le> n} sq' \<and> outside sq' = (outside sq)\<lparr>sq_w := sq_w sq'\<rparr>"
proof (cases "held = {}")
  case True
  then have "sq_staged_count sq = 0" using window_at_empty_iff [OF assms(1)] by simp
  then show ?thesis using True assms
    by (intro exI [of _ w] exI [of _ sq]) (simp add: drain_def outside_def)
next
  case False
  have cnt: "unat (sq_staged_count sq) = card held" using assms(1) by (simp add: window_at_def)
  from False have nz: "sq_staged_count sq \<noteq> 0" using window_at_empty_iff [OF assms(1)] by simp
  from drain_loop_window [OF assms(1) refl assms(2-5) False, of gen] obtain w' sq' where
    d: "drain_loop (card held) gen sq = (sq', messages gen msg w w')"
    and r: "w \<le> w'" "{w ..< w'} \<subseteq> held" "w' \<notin> held" "unat (sq_w sq') = w'"
      "window_at msg b {n \<in> held. w' \<le> n} sq'" "outside sq' = (outside sq)\<lparr>sq_w := sq_w sq'\<rparr>"
    by auto
  let ?sq = "if sq_staged_count sq' = 0 then sq'\<lparr>sq_max_staged := 0\<rparr> else sq'"
  have "window_at msg b {n \<in> held. w' \<le> n} ?sq" using r(5) by (auto intro: window_at_cong)
  then show ?thesis using nz cnt d r
    by (intro exI [of _ w'] exI [of _ ?sq]) (simp add: drain_def)
qed

end
