(* ===== verification/Delivery.thy ===== *)
theory Delivery
  imports WindowLaw
begin

text \<open>
  What the sequencer promises its consumer, without its counters, events, words and arrays.
  The abstract machine receives headers and keeps the session, a phase, the watermark as a
  number and the set of sequence numbers it holds back; it outputs deliveries and session
  boundaries.  A message source gives the bytes of every message of every session.  The
  machine delivers, per session era, consecutive numbers without repetition.
\<close>

section \<open>Outputs\<close>

type_synonym Source = "SessionId \<Rightarrow> nat \<Rightarrow> bytes"

datatype Output = Deliver u64 bytes | Boundary SessionId SessionId

fun output_of :: "SinkCall \<Rightarrow> Output list" where
  "output_of (OnMsg g q m) = [Deliver q m]"
| "output_of (OnEvent (SessionBoundary p n g)) = [Boundary p n]"
| "output_of c = []"

definition outputs :: "SinkCall list \<Rightarrow> Output list" where
  "outputs cs = concat (map output_of cs)"

lemma outputs_simps [simp]:
  "outputs [] = []" "outputs (c # cs) = output_of c @ outputs cs"
  "outputs (cs @ ds) = outputs cs @ outputs ds"
  by (simp_all add: outputs_def)

definition deliver :: "Source \<Rightarrow> SessionId \<Rightarrow> nat \<Rightarrow> nat \<Rightarrow> Output list" where
  "deliver M s a b = map (\<lambda>n. Deliver (of_nat n) (M s n)) [a ..< b]"

lemma outputs_messages [simp]: "outputs (messages gen (M s) a b) = deliver M s a b"
  by (simp add: messages_def deliver_def outputs_def comp_def concat_map_singleton_eq)

lemma deliver_append:
  "a \<le> b \<Longrightarrow> b \<le> c \<Longrightarrow> deliver M s a b @ deliver M s b c = deliver M s a c"
  using upt_add_eq_append [of a b "c - b"] by (simp add: deliver_def flip: map_append)

lemma deliver_refl [simp]: "deliver M s a a = []"
  by (simp add: deliver_def)

text \<open>In order, exactly once, with the source's bytes: the next delivery of an era is the
  successor of the last one, and a new era starts only at a boundary.\<close>

fun in_order :: "Source \<Rightarrow> SessionId \<Rightarrow> u64 option \<Rightarrow> Output list \<Rightarrow> bool" where
  "in_order M s e [] = True"
| "in_order M s e (Deliver q m # r) =
     ((case e of None \<Rightarrow> True | Some w \<Rightarrow> q = w) \<and> m = M s (unat q) \<and> in_order M s (Some (q + 1)) r)"
| "in_order M s e (Boundary p n # r) = (p = s \<and> n \<noteq> s \<and> in_order M n None r)"

fun era_after :: "SessionId \<Rightarrow> u64 option \<Rightarrow> Output list \<Rightarrow> SessionId \<times> u64 option" where
  "era_after s e [] = (s, e)"
| "era_after s e (Deliver q m # r) = era_after s (Some (q + 1)) r"
| "era_after s e (Boundary p n # r) = era_after n None r"

lemma in_order_append:
  "in_order M s e (xs @ ys) \<longleftrightarrow>
     in_order M s e xs \<and> in_order M (fst (era_after s e xs)) (snd (era_after s e xs)) ys"
  by (induction M s e xs rule: in_order.induct) auto

lemma era_after_append:
  "era_after s e (xs @ ys) = era_after (fst (era_after s e xs)) (snd (era_after s e xs)) ys"
  by (induction s e xs rule: era_after.induct) auto

lemma deliver_in_order:
  assumes "a \<le> b" "b < 2 ^ 64" "e = None \<or> e = Some (of_nat a)"
  shows "in_order M s e (deliver M s a b) \<and>
    era_after s e (deliver M s a b) = (s, if a < b then Some (of_nat b) else e)"
  using assms
proof (induction "b - a" arbitrary: a e)
  case 0
  then show ?case by (simp add: deliver_def)
next
  case (Suc d)
  then have ab: "a < b" by simp
  then have d: "deliver M s a b = Deliver (of_nat a) (M s a) # deliver M s (Suc a) b"
    by (simp add: deliver_def upt_rec)
  have ua: "unat (of_nat a :: u64) = a" using ab Suc.prems(2) by (intro unat_of_nat_u64) simp
  have "in_order M s (Some (of_nat (Suc a))) (deliver M s (Suc a) b) \<and>
    era_after s (Some (of_nat (Suc a))) (deliver M s (Suc a) b)
      = (s, if Suc a < b then Some (of_nat b) else Some (of_nat (Suc a)))"
    using Suc by (intro Suc.hyps(1)) auto
  moreover have "(if Suc a < b then Some (of_nat b) else Some (of_nat (Suc a))) = Some (of_nat b :: u64)"
    using Suc_lessI [OF ab] by (metis (full_types))
  ultimately show ?case using d ua Suc.prems(3) ab by (auto simp: add.commute)
qed

section \<open>The abstract machine\<close>

datatype Phase = Unanchored | Anchored | Finished | Sealed_off

record Delivery =
  d_session :: SessionId
  d_phase :: Phase
  d_w :: nat
  d_held :: "nat set"

primrec advance :: "nat \<Rightarrow> nat set \<Rightarrow> nat \<Rightarrow> nat" where
  "advance 0 held w = w"
| "advance (Suc k) held w = (if w \<in> held then advance k held (Suc w) else w)"

lemma advance_empty [simp]: "advance k {} w = w"
  by (cases k) simp_all

definition spec_session :: "SessionId \<Rightarrow> Delivery \<Rightarrow> Delivery \<times> Output list" where
  "spec_session s st =
     (if d_session st = zero_session then (st\<lparr>d_session := s\<rparr>, [])
      else if d_session st \<noteq> s then
        (st\<lparr>d_session := s, d_phase := Unanchored, d_held := {}\<rparr>, [Boundary (d_session st) s])
      else (st, []))"

definition spec_eos :: "nat \<Rightarrow> Delivery \<Rightarrow> Delivery" where
  "spec_eos announced st =
     (case d_phase st of
        Unanchored \<Rightarrow> st\<lparr>d_phase := Finished\<rparr>
      | Anchored \<Rightarrow> if announced \<le> d_w st then st\<lparr>d_phase := Finished\<rparr> else st
      | _ \<Rightarrow> st)"

definition spec_data :: "Source \<Rightarrow> nat \<Rightarrow> nat \<Rightarrow> Delivery \<Rightarrow> Delivery \<times> Output list" where
  "spec_data M q c st0 =
     (let st = (if d_phase st0 = Unanchored then st0\<lparr>d_phase := Anchored, d_w := q\<rparr> else st0) in
      if q + c \<le> d_w st then (st, [])
      else if q \<le> d_w st then
        let w' = advance WINDOW_SLOTS (d_held st) (q + c)
        in (st\<lparr>d_w := w', d_held := {n \<in> d_held st. w' \<le> n}\<rparr>, deliver M (d_session st) (d_w st) w')
      else (st\<lparr>d_held := d_held st \<union> {q ..< min (q + c) (d_w st + WINDOW_SLOTS)}\<rparr>, []))"

definition spec_header :: "Source \<Rightarrow> Header \<Rightarrow> Delivery \<Rightarrow> Delivery \<times> Output list" where
  "spec_header M h st =
     (if d_phase st = Sealed_off then (st, [])
      else case spec_session (hdr_session h) st of (st1, o1) \<Rightarrow>
        if hdr_count h = HEARTBEAT_COUNT then (st1, o1)
        else if hdr_count h = EOS_COUNT then (spec_eos (unat (hdr_seq h)) st1, o1)
        else if d_phase st1 = Finished \<or> span h = None then (st1, o1)
        else case spec_data M (unat (hdr_seq h)) (unat (hdr_count h)) st1 of (st2, o2) \<Rightarrow> (st2, o1 @ o2))"

definition spec_frame :: "Source \<Rightarrow> bytes \<Rightarrow> Delivery \<Rightarrow> Delivery \<times> Output list" where
  "spec_frame M frame st =
     (case parse_header frame of Inl _ \<Rightarrow> (st, []) | Inr h \<Rightarrow> spec_header M h st)"

fun spec_run :: "Source \<Rightarrow> bytes list \<Rightarrow> Delivery \<Rightarrow> Delivery \<times> Output list" where
  "spec_run M [] st = (st, [])"
| "spec_run M (f # fs) st =
     (case spec_frame M f st of (st1, o1) \<Rightarrow>
        (case spec_run M fs st1 of (st2, o2) \<Rightarrow> (st2, o1 @ o2)))"

definition spec_init :: Delivery where
  "spec_init = \<lparr>d_session = zero_session, d_phase = Unanchored, d_w = 0, d_held = {}\<rparr>"

section \<open>Well-formed traffic\<close>

text \<open>Sequence numbers stay below this bound, so that a watermark and the window after it
  fit in u64.\<close>

definition SEQ_LIMIT :: nat where
  "SEQ_LIMIT = 2 ^ 64 - 2048"

text \<open>
  A frame that carries data of the source: any short frame, heartbeat or end of session,
  any header with an overflowing span, and a data packet that is the wire form of the
  source's messages.  The all-zero session is excluded: the sequencer treats it as no
  session at all.
\<close>

definition frame_ok :: "Source \<Rightarrow> bytes \<Rightarrow> bool" where
  "frame_ok M frame =
     (case parse_header frame of
        Inl _ \<Rightarrow> True
      | Inr h \<Rightarrow>
          hdr_session h \<noteq> zero_session \<and>
          (kind h \<noteq> KData \<or> span h = None \<or>
             (unat (hdr_seq h) + unat (hdr_count h) \<le> SEQ_LIMIT \<and>
              frame = mold_frame (hdr_session h) (hdr_seq h) (hdr_count h)
                (map (M (hdr_session h)) [unat (hdr_seq h) ..< unat (hdr_seq h) + unat (hdr_count h)]))))"

definition source_ok :: "Source \<Rightarrow> bool" where
  "source_ok M \<longleftrightarrow> (\<forall>s n. validate (M s n) = Inr ())"

definition spec_ok :: "Delivery \<Rightarrow> bool" where
  "spec_ok st \<longleftrightarrow> d_w st \<le> SEQ_LIMIT \<and> d_held st \<subseteq> {d_w st <..< d_w st + 1024} \<inter> {..< SEQ_LIMIT} \<and>
     (d_phase st = Unanchored \<longrightarrow> d_held st = {})"

lemma advance_run:
  "advance k held w = w' \<Longrightarrow>
     w \<le> w' \<and> w' \<le> w + k \<and> {w ..< w'} \<subseteq> held \<and> (w' \<notin> held \<or> w' = w + k)"
proof (induction k arbitrary: w)
  case 0
  then show ?case by simp
next
  case (Suc k)
  show ?case
  proof (cases "w \<in> held")
    case True
    then have "advance k held (Suc w) = w'" using Suc.prems by simp
    moreover have "{w ..< w'} \<subseteq> insert w {Suc w ..< w'}" by auto
    ultimately show ?thesis using Suc.IH [of "Suc w"] True by auto
  qed (use Suc.prems in auto)
qed

lemma advance_window:
  assumes "held \<subseteq> {b <..< b + 1024}" "b \<le> w"
  shows "w \<le> advance 1024 held w" "{w ..< advance 1024 held w} \<subseteq> held"
    "advance 1024 held w \<notin> held"
proof -
  note r = advance_run [of 1024 held w, OF refl]
  show "w \<le> advance 1024 held w" "{w ..< advance 1024 held w} \<subseteq> held" using r by blast+
  have "w + 1024 \<notin> held" using assms by auto
  then show "advance 1024 held w \<notin> held" using r by metis
qed

lemma advance_unique:
  assumes "held \<subseteq> {b <..< b + 1024}" "b \<le> w" "w \<le> w'" "{w ..< w'} \<subseteq> held" "w' \<notin> held"
  shows "advance 1024 held w = w'"
proof (rule linorder_cases [of "advance 1024 held w" w'])
  assume "advance 1024 held w < w'"
  then have "advance 1024 held w \<in> held" using assms(4) advance_window(1) [OF assms(1,2)] by auto
  then show ?thesis using advance_window(3) [OF assms(1,2)] by blast
next
  assume "w' < advance 1024 held w"
  then have "w' \<in> held" using assms(3) advance_window(2) [OF assms(1,2)] by auto
  then show ?thesis using assms(5) by blast
qed

lemma advance_limit:
  assumes "held \<subseteq> {b <..< b + 1024} \<inter> {..< L}" "b \<le> w" "w \<le> L"
  shows "advance 1024 held w \<le> L"
proof (rule ccontr)
  let ?v = "advance 1024 held w"
  assume "\<not> ?v \<le> L"
  then have "L \<in> {w ..< ?v}" using assms(3) by auto
  then have "L \<in> held" using advance_window(2) [of held b w] assms by auto
  then show False using assms(1) by auto
qed

lemma advance_held:
  assumes "held \<subseteq> {b <..< b + 1024} \<inter> {..< L}" "b \<le> w"
  shows "{n \<in> held. advance 1024 held w \<le> n}
    \<subseteq> {advance 1024 held w <..< advance 1024 held w + 1024} \<inter> {..< L}"
proof
  fix n
  let ?v = "advance 1024 held w"
  assume "n \<in> {n \<in> held. ?v \<le> n}"
  then have n: "n \<in> held" "?v \<le> n" by auto
  have "?v \<notin> held" "w \<le> ?v" using assms advance_window(1,3) [of held b w] by auto
  then have "n \<noteq> ?v" using n by metis
  then show "n \<in> {?v <..< ?v + 1024} \<inter> {..< L}"
    using n assms \<open>w \<le> ?v\<close> by auto
qed

lemma spec_data_ok:
  assumes "spec_ok st" "q + c \<le> SEQ_LIMIT" "0 < c" "spec_data M q c st = (st', o')"
  shows "spec_ok st'"
proof -
  let ?st = "if d_phase st = Unanchored then st\<lparr>d_phase := Anchored, d_w := q\<rparr> else st"
  have ok1: "spec_ok ?st" and ph: "d_phase ?st \<noteq> Unanchored"
    using assms(1,2) by (auto simp: spec_ok_def)
  have held: "d_held ?st \<subseteq> {d_w ?st <..< d_w ?st + 1024} \<inter> {..< SEQ_LIMIT}"
    and w: "d_w ?st \<le> SEQ_LIMIT" using ok1 unfolding spec_ok_def by blast+
  consider (dup) "q + c \<le> d_w ?st" | (cont) "\<not> q + c \<le> d_w ?st" "q \<le> d_w ?st"
    | (gap) "\<not> q + c \<le> d_w ?st" "\<not> q \<le> d_w ?st" by blast
  then show ?thesis
  proof cases
    case dup
    then have "st' = ?st" using assms(4) by (simp add: spec_data_def Let_def)
    then show ?thesis using ok1 by simp
  next
    case cont
    let ?w = "advance 1024 (d_held ?st) (q + c)"
    have st': "st' = ?st\<lparr>d_w := ?w, d_held := {n \<in> d_held ?st. ?w \<le> n}\<rparr>"
      using cont assms(4) by (simp add: spec_data_def Let_def)
    have lim: "?w \<le> SEQ_LIMIT" using held assms(2) cont by (intro advance_limit) auto
    have "{n \<in> d_held ?st. ?w \<le> n} \<subseteq> {?w <..< ?w + 1024} \<inter> {..< SEQ_LIMIT}"
      using held cont(1) by (intro advance_held) auto
    then show ?thesis using lim ph unfolding st' spec_ok_def by simp
  next
    case gap
    then have st': "st' = ?st\<lparr>d_held := d_held ?st \<union> {q ..< min (q + c) (d_w ?st + 1024)}\<rparr>"
      using assms(4) by (simp add: spec_data_def Let_def)
    have "{q ..< min (q + c) (d_w ?st + 1024)} \<subseteq> {d_w ?st <..< d_w ?st + 1024} \<inter> {..< SEQ_LIMIT}"
      using gap assms(2) by auto
    then show ?thesis using held w ph unfolding st' spec_ok_def by simp
  qed
qed

lemma spec_session_ok: "spec_ok st \<Longrightarrow> spec_ok (fst (spec_session s st))"
  by (auto simp: spec_session_def spec_ok_def)

lemma spec_eos_ok: "spec_ok st \<Longrightarrow> spec_ok (spec_eos a st)"
  by (auto simp: spec_eos_def spec_ok_def split: Phase.split)

lemma frame_ok_data:
  assumes "frame_ok M frame" "parse_header frame = Inr h"
    "hdr_count h \<noteq> HEARTBEAT_COUNT" "hdr_count h \<noteq> EOS_COUNT" "span h \<noteq> None"
  shows "unat (hdr_seq h) + unat (hdr_count h) \<le> SEQ_LIMIT" "0 < unat (hdr_count h)"
    "frame = mold_frame (hdr_session h) (hdr_seq h) (hdr_count h)
       (map (M (hdr_session h)) [unat (hdr_seq h) ..< unat (hdr_seq h) + unat (hdr_count h)])"
  using assms by (auto simp: frame_ok_def kind_def unat_gt_0)

lemma spec_frame_ok: "spec_ok st \<Longrightarrow> frame_ok M f \<Longrightarrow> spec_ok (fst (spec_frame M f st))"
  using frame_ok_data [of M f]
  by (auto simp: spec_frame_def spec_header_def split: sum.split prod.split
      dest: spec_session_ok [of st] spec_eos_ok spec_data_ok)
    (metis fst_conv spec_data_ok spec_eos_ok spec_session_ok)+

section \<open>Runs deliver in order\<close>

text \<open>The next delivery an era expects in a state.\<close>

definition expects :: "Delivery \<Rightarrow> u64 option \<Rightarrow> bool" where
  "expects st e \<longleftrightarrow> (d_phase st = Anchored \<longrightarrow> e = Some (of_nat (d_w st))) \<and>
     (d_phase st = Unanchored \<longrightarrow> e = None)"

definition below :: "nat \<Rightarrow> Output list \<Rightarrow> bool" where
  "below n os \<longleftrightarrow> (\<forall>q m. Deliver q m \<in> set os \<longrightarrow> unat q < n)"

lemma below_simps [simp]:
  "below n []" "below n (Deliver q m # os) \<longleftrightarrow> unat q < n \<and> below n os" "below n (Boundary s p # os) \<longleftrightarrow> below n os"
  "below n (xs @ ys) \<longleftrightarrow> below n xs \<and> below n ys"
  by (auto simp: below_def)

lemma below_deliver: "b \<le> n \<Longrightarrow> n < 2 ^ 64 \<Longrightarrow> below n (deliver M s a b)"
  by (auto simp: below_def deliver_def unat_of_nat_u64)

definition ordered_step :: "Source \<Rightarrow> Delivery \<Rightarrow> u64 option \<Rightarrow> Delivery \<Rightarrow> Output list \<Rightarrow> bool" where
  "ordered_step M st e st' os \<longleftrightarrow> in_order M (d_session st) e os \<and> below SEQ_LIMIT os \<and>
     fst (era_after (d_session st) e os) = d_session st' \<and>
     expects st' (snd (era_after (d_session st) e os))"

lemma ordered_step_refl: "expects st e \<Longrightarrow> ordered_step M st e st []"
  by (simp add: ordered_step_def)

lemma ordered_step_trans:
  "ordered_step M st e st1 o1 \<Longrightarrow> ordered_step M st1 (snd (era_after (d_session st) e o1)) st2 o2 \<Longrightarrow>
     ordered_step M st e st2 (o1 @ o2)"
  by (simp add: ordered_step_def in_order_append era_after_append)

lemma spec_session_ordered:
  "expects st e \<Longrightarrow> d_session st \<noteq> zero_session \<Longrightarrow> spec_session s st = (st', os) \<Longrightarrow>
     ordered_step M st e st' os"
  by (auto simp: spec_session_def ordered_step_def expects_def split: if_splits)

lemma spec_data_ordered:
  assumes "spec_ok st" "expects st e" "d_phase st = Unanchored \<or> d_phase st = Anchored"
    and "q + c \<le> SEQ_LIMIT" "0 < c" "spec_data M q c st = (st', os)"
  shows "ordered_step M st e st' os"
proof -
  let ?st = "if d_phase st = Unanchored then st\<lparr>d_phase := Anchored, d_w := q\<rparr> else st"
  have ph: "d_phase ?st = Anchored" "d_session ?st = d_session st" using assms(3) by auto
  have held: "d_held ?st \<subseteq> {d_w ?st <..< d_w ?st + 1024} \<inter> {..< SEQ_LIMIT}"
    using assms(1,3) by (auto simp: spec_ok_def)
  consider (dup) "q + c \<le> d_w ?st" | (cont) "\<not> q + c \<le> d_w ?st" "q \<le> d_w ?st"
    | (gap) "\<not> q + c \<le> d_w ?st" "\<not> q \<le> d_w ?st" by blast
  then show ?thesis
  proof cases
    case cont
    let ?w = "advance 1024 (d_held ?st) (q + c)"
    have r: "st' = ?st\<lparr>d_w := ?w, d_held := {n \<in> d_held ?st. ?w \<le> n}\<rparr>"
      "os = deliver M (d_session st) (d_w ?st) ?w"
      using cont assms(6) ph by (simp_all add: spec_data_def Let_def)
    have "q + c \<le> ?w" using advance_window(1) [of "d_held ?st" "d_w ?st" "q + c"] held cont by auto
    then have lt: "d_w ?st < ?w" using cont(1) by simp
    have "?w \<le> SEQ_LIMIT" using held assms(4) cont by (intro advance_limit) auto
    then have lim: "?w < 2 ^ 64" "below SEQ_LIMIT (deliver M (d_session st) (d_w ?st) ?w)"
      by (simp add: SEQ_LIMIT_def, intro below_deliver) (simp_all add: SEQ_LIMIT_def)
    have e: "e = None \<or> e = Some (of_nat (d_w ?st))" using assms(2,3) by (auto simp: expects_def)
    from deliver_in_order [OF less_imp_le [OF lt] lim(1) e, of M "d_session st"] lt ph lim(2) show ?thesis
      by (simp add: ordered_step_def expects_def r)
  qed (use assms ph in \<open>auto simp: spec_data_def Let_def ordered_step_def expects_def split: if_splits\<close>)
qed

lemma spec_header_session:
  "d_phase st \<noteq> Sealed_off \<Longrightarrow> d_session (fst (spec_header M h st)) = hdr_session h"
  by (auto simp: spec_header_def spec_session_def spec_eos_def spec_data_def Let_def
      split: prod.split Phase.split)

lemma spec_header_ordered:
  assumes "spec_ok st" "expects st e" "d_session st \<noteq> zero_session"
    and "frame_ok M f" "parse_header f = Inr h" "spec_header M h st = (st', os)"
  shows "ordered_step M st e st' os \<and> d_session st' \<noteq> zero_session"
proof (cases "d_phase st = Sealed_off")
  case True
  then show ?thesis using assms by (simp add: spec_header_def ordered_step_refl)
next
  case False
  obtain st1 o1 where s: "spec_session (hdr_session h) st = (st1, o1)" by fastforce
  have nz: "d_session st' \<noteq> zero_session"
    using spec_header_session [OF False, of M h] assms(4-6) by (auto simp: frame_ok_def)
  have step1: "ordered_step M st e st1 o1" by (rule spec_session_ordered [OF assms(2,3) s])
  have ok1: "spec_ok st1" using spec_session_ok [OF assms(1), of "hdr_session h"] s by simp
  let ?e1 = "snd (era_after (d_session st) e o1)"
  have e1: "expects st1 ?e1" using step1 by (simp add: ordered_step_def)
  have eos: "ordered_step M st1 ?e1 (spec_eos a st1) []" for a
    using e1 by (auto simp: ordered_step_def expects_def spec_eos_def split: Phase.split)
  have "\<exists>o2. os = o1 @ o2 \<and> ordered_step M st1 ?e1 st' o2"
  proof (cases "hdr_count h = HEARTBEAT_COUNT \<or> hdr_count h = EOS_COUNT \<or> d_phase st1 = Finished \<or> span h = None")
    case True
    then show ?thesis using assms(6) s False e1 eos
      by (auto simp: spec_header_def ordered_step_refl split: if_splits)
  next
    case data: False
    obtain st2 o2 where d: "spec_data M (unat (hdr_seq h)) (unat (hdr_count h)) st1 = (st2, o2)" by fastforce
    then have r: "st' = st2" "os = o1 @ o2" using assms(6) s False data by (auto simp: spec_header_def)
    have "d_phase st1 \<noteq> Sealed_off" using s False by (auto simp: spec_session_def split: if_splits)
    then have "d_phase st1 = Unanchored \<or> d_phase st1 = Anchored"
      using data by (cases "d_phase st1") auto
    moreover have "unat (hdr_seq h) + unat (hdr_count h) \<le> SEQ_LIMIT" "0 < unat (hdr_count h)"
      using frame_ok_data(1,2) [OF assms(4,5)] data by blast+
    ultimately have "ordered_step M st1 ?e1 st2 o2" using d by (intro spec_data_ordered [OF ok1 e1])
    then show ?thesis using r by blast
  qed
  with step1 nz show ?thesis using ordered_step_trans by blast
qed

lemma spec_run_ordered:
  assumes "spec_ok st" "expects st e" "d_session st \<noteq> zero_session" "\<forall>f \<in> set fs. frame_ok M f"
    and "spec_run M fs st = (st', os)"
  shows "ordered_step M st e st' os"
  using assms
proof (induction fs arbitrary: st e st' os)
  case Nil
  then show ?case by (simp add: ordered_step_refl)
next
  case (Cons f fs)
  obtain st1 o1 where f: "spec_frame M f st = (st1, o1)" by fastforce
  obtain o2 where r: "spec_run M fs st1 = (st', o2)" "os = o1 @ o2"
    using Cons.prems(5) f by (auto split: prod.splits)
  have ok1: "spec_ok st1" using spec_frame_ok [OF Cons.prems(1), of M f] Cons.prems(4) f by simp
  have "ordered_step M st e st1 o1 \<and> d_session st1 \<noteq> zero_session"
  proof (cases "parse_header f")
    case (Inl a)
    then show ?thesis using f Cons.prems by (simp add: spec_frame_def ordered_step_refl)
  next
    case (Inr h)
    then show ?thesis using f Cons.prems
      by (intro spec_header_ordered [OF Cons.prems(1-3) _ Inr]) (simp_all add: spec_frame_def)
  qed
  then show ?case using Cons.IH [OF ok1 _ _ _ r(1)] Cons.prems(4) r(2) ordered_step_trans
    by (auto simp: ordered_step_def in_order_append era_after_append)
qed

text \<open>Before the first frame the machine has no session; it takes the first one it sees.\<close>

lemma spec_header_adopt:
  assumes "d_session st = zero_session" "d_phase st \<noteq> Sealed_off" "hdr_session h \<noteq> zero_session"
  shows "spec_header M h st = spec_header M h (st\<lparr>d_session := hdr_session h\<rparr>)"
  using assms by (simp add: spec_header_def spec_session_def)

lemma spec_run_in_order:
  assumes "\<forall>f \<in> set fs. frame_ok M f"
  shows "\<exists>s. ordered_step M (spec_init\<lparr>d_session := s\<rparr>) None (fst (spec_run M fs spec_init))
      (snd (spec_run M fs spec_init))"
  using assms
proof (induction fs)
  case Nil
  then show ?case by (intro exI [of _ zero_session]) (simp add: ordered_step_def expects_def spec_init_def)
next
  case (Cons f fs)
  show ?case
  proof (cases "parse_header f")
    case (Inl a)
    then have "spec_run M (f # fs) spec_init = spec_run M fs spec_init"
      by (simp add: spec_frame_def split: prod.split)
    then show ?thesis using Cons by simp
  next
    case (Inr h)
    let ?st = "spec_init\<lparr>d_session := hdr_session h\<rparr>"
    have nz: "hdr_session h \<noteq> zero_session" using Cons.prems Inr by (simp add: frame_ok_def)
    have "spec_frame M f spec_init = spec_frame M f ?st"
      using nz Inr by (simp add: spec_frame_def spec_header_adopt spec_init_def)
    then have run: "spec_run M (f # fs) spec_init = spec_run M (f # fs) ?st"
      by (simp only: spec_run.simps)
    have "spec_ok ?st" "expects ?st None" by (simp_all add: spec_ok_def expects_def spec_init_def)
    from spec_run_ordered [OF this _ Cons.prems, of "fst (spec_run M (f # fs) ?st)" "snd (spec_run M (f # fs) ?st)"] nz
    show ?thesis unfolding run by (intro exI [of _ "hdr_session h"]) simp
  qed
qed

section \<open>Eras\<close>

text \<open>The deliveries of a run, era by era, and the session of each era.\<close>

fun eras :: "Output list \<Rightarrow> (u64 \<times> bytes) list list" where
  "eras [] = [[]]"
| "eras (Deliver q m # os) = (case eras os of e # es \<Rightarrow> ((q, m) # e) # es | [] \<Rightarrow> [[(q, m)]])"
| "eras (Boundary p n # os) = [] # eras os"

lemma eras_nonempty: "eras os \<noteq> []"
  by (induction os rule: eras.induct) (auto split: list.split)

fun era_sessions :: "SessionId \<Rightarrow> Output list \<Rightarrow> SessionId list" where
  "era_sessions s [] = [s]"
| "era_sessions s (Deliver q m # os) = era_sessions s os"
| "era_sessions s (Boundary p n # os) = s # era_sessions n os"

text \<open>Every delivery by the session of its era and its number.\<close>

fun delivered :: "SessionId \<Rightarrow> Output list \<Rightarrow> (SessionId \<times> u64) list" where
  "delivered s [] = []"
| "delivered s (Deliver q m # os) = (s, q) # delivered s os"
| "delivered s (Boundary p n # os) = delivered n os"

definition numbered :: "Source \<Rightarrow> SessionId \<Rightarrow> nat \<Rightarrow> nat \<Rightarrow> (u64 \<times> bytes) list" where
  "numbered M s a b = map (\<lambda>n. (of_nat n, M s n)) [a ..< b]"

lemma numbered_none [simp]: "b \<le> a \<Longrightarrow> numbered M s a b = []"
  by (simp add: numbered_def)

lemma numbered_cons: "a < b \<Longrightarrow> numbered M s a b = (of_nat a, M s a) # numbered M s (Suc a) b"
  by (simp add: numbered_def upt_rec)

lemma numbered_distinct: "b \<le> SEQ_LIMIT \<Longrightarrow> distinct (map fst (numbered M s a b))"
proof -
  assume b: "b \<le> SEQ_LIMIT"
  have "inj_on (of_nat :: nat \<Rightarrow> u64) {a ..< b}"
  proof (rule inj_onI)
    fix x y
    assume "x \<in> {a ..< b}" "y \<in> {a ..< b}" and e: "(of_nat x :: u64) = of_nat y"
    then have "x < 2 ^ 64" "y < 2 ^ 64" using b by (simp_all add: SEQ_LIMIT_def)
    then show "x = y" using arg_cong [OF e, of unat] by (simp only: unat_of_nat_u64)
  qed
  moreover have "map fst (numbered M s a b) = map of_nat [a ..< b]" by (simp add: numbered_def comp_def)
  ultimately show ?thesis by (simp only: distinct_map) simp
qed

text \<open>A run in order is one numbered run of messages per era.\<close>

definition era_run :: "Source \<Rightarrow> SessionId \<Rightarrow> (u64 \<times> bytes) list \<Rightarrow> bool" where
  "era_run M s era \<longleftrightarrow> (\<exists>a b. b \<le> SEQ_LIMIT \<and> era = numbered M s a b)"

lemma in_order_eras:
  assumes "in_order M s e os" "below SEQ_LIMIT os"
  shows "\<exists>a b es ss. eras os = numbered M s a b # es \<and> era_sessions s os = s # ss \<and> b \<le> SEQ_LIMIT \<and>
    (a < b \<longrightarrow> (\<forall>w. e = Some w \<longrightarrow> a = unat w)) \<and> list_all2 (era_run M) ss es"
  using assms
proof (induction M s e os rule: in_order.induct)
  case (1 M s e)
  then show ?case by (intro exI [of _ 0]) simp
next
  case (2 M s e q m r)
  obtain a b es ss where r: "eras r = numbered M s a b # es" "era_sessions s r = s # ss" "b \<le> SEQ_LIMIT"
      "a < b \<longrightarrow> a = unat (q + 1)" "list_all2 (era_run M) ss es"
    using 2 by auto
  have q: "m = M s (unat q)" "unat q < SEQ_LIMIT" "\<forall>w. e = Some w \<longrightarrow> q = w" using "2.prems" by auto
  have q1: "unat (q + 1) = Suc (unat q)" using q(2) by (subst unat_plus_u64) (simp_all add: SEQ_LIMIT_def)
  let ?b = "if a < b then b else Suc (unat q)"
  have "(q, m) # numbered M s a b = numbered M s (unat q) ?b"
    using r(4) q1 q(1) by (auto simp: numbered_cons [of "unat q"])
  then show ?case using r q by (intro exI [of _ "unat q"] exI [of _ ?b]) auto
next
  case (3 M s e p n r)
  obtain a b es ss where r: "eras r = numbered M n a b # es" "era_sessions n r = n # ss" "b \<le> SEQ_LIMIT"
      "list_all2 (era_run M) ss es"
    using 3 by auto
  have "era_run M n (numbered M n a b)" using r(3) unfolding era_run_def by blast
  then show ?case using r by (intro exI [of _ 0]) auto
qed

lemma in_order_era_runs:
  assumes "in_order M s e os" "below SEQ_LIMIT os"
  shows "list_all2 (era_run M) (era_sessions s os) (eras os)"
proof -
  obtain a b es ss where r: "eras os = numbered M s a b # es" "era_sessions s os = s # ss" "b \<le> SEQ_LIMIT"
      "list_all2 (era_run M) ss es"
    using in_order_eras [OF assms] by auto
  have "era_run M s (numbered M s a b)" using r(3) unfolding era_run_def by blast
  then show ?thesis using r by simp
qed

lemma delivered_eras:
  "delivered s os = concat (map2 (\<lambda>s era. map (\<lambda>x. (s, fst x)) era) (era_sessions s os) (eras os))"
proof (induction os arbitrary: s rule: eras.induct)
  case (2 q m os)
  have "\<exists>ss. era_sessions s os = s # ss" for s by (induction os rule: eras.induct) auto
  then obtain ss where "era_sessions s os = s # ss" by blast
  moreover obtain e es where "eras os = e # es" using eras_nonempty by (cases "eras os") auto
  ultimately show ?case using 2 [of s] by simp
qed simp_all

lemma era_run_distinct: "era_run M s era \<Longrightarrow> distinct (map fst era)"
  using numbered_distinct by (auto simp: era_run_def)

lemma delivered_distinct:
  assumes "list_all2 (era_run M) ss es" "distinct ss"
  shows "distinct (concat (map2 (\<lambda>s era. map (\<lambda>x. (s, fst x)) era) ss es))"
  using assms
proof (induction rule: list_all2_induct)
  case (Cons s ss era es)
  have "distinct (map (\<lambda>x. (s, fst x)) era)"
    using era_run_distinct [OF Cons.hyps(1)] by (auto simp: distinct_map inj_on_def)
  moreover have "fst x \<in> set ss" if "x \<in> set (concat (map2 (\<lambda>s era. map (\<lambda>x. (s, fst x)) era) ss es))" for x
    using that by (auto dest: set_zip_leftD)
  then have "set (map (\<lambda>x. (s, fst x)) era) \<inter> set (concat (map2 (\<lambda>s era. map (\<lambda>x. (s, fst x)) era) ss es)) = {}"
    using Cons.prems by fastforce
  ultimately show ?case using Cons by (simp only: zip_Cons_Cons list.map prod.case concat.simps distinct_append) simp
qed simp

end
