(* ===== verification/Arbitration.thy ===== *)
theory Arbitration
  imports Sequencer Delivery
begin

text \<open>
  The ingest ladder implements the abstract delivery machine: a simulation between the
  sequencer's words, arrays and states and the machine's numbers, held set and phases, kept
  by every handler, with equal outputs.  Exactly-once in-order delivery over any packet
  sequence follows.
\<close>

section \<open>The simulation\<close>

fun phase_of :: "State \<Rightarrow> Phase" where
  "phase_of Init = Unanchored"
| "phase_of Contig = Anchored"
| "phase_of Gap = Anchored"
| "phase_of EosPersist = Anchored"
| "phase_of Ended = Finished"
| "phase_of Dead = Sealed_off"

definition simulates :: "Source \<Rightarrow> Delivery \<Rightarrow> Sequencer \<Rightarrow> bool" where
  "simulates M st sq \<longleftrightarrow> spec_ok st \<and>
     sq_session sq = d_session st \<and> phase_of (sq_state sq) = d_phase st \<and>
     unat (sq_w sq) = d_w st \<and> sq_mutation sq = NoMutation \<and>
     (d_session st = zero_session \<longrightarrow> d_held st = {}) \<and>
     window_at (M (d_session st)) (d_w st) (d_held st) sq"

text \<open>The simulation reads only this much of the state.\<close>

definition core :: "Sequencer \<Rightarrow> Sequencer" where
  "core sq = sq\<lparr>sq_gen := 0, sq_session_lo := 0, sq_session_hi := 0, sq_session_live := False,
     sq_state := Init, sq_gap_active := False, sq_evidence_hwm := 0, sq_max_staged := 0,
     sq_progress_vt := 0, sq_hb_seq := 0, sq_hb_vt := 0, sq_pending_to := None,
     sq_last_intent_vt := 0, sq_counters := Counters_default\<rparr>"

lemma core_eqD:
  assumes "core sq = core sq'"
  shows "sq_w sq = sq_w sq'" "sq_session sq = sq_session sq'" "sq_staged_count sq = sq_staged_count sq'"
    "sq_mutation sq = sq_mutation sq'" "sq_lens sq = sq_lens sq'" "sq_arena sq = sq_arena sq'"
  using assms unfolding core_def by (cases sq; cases sq'; simp)+

lemma simulates_core:
  assumes "simulates M st sq" "core sq' = core sq" "phase_of (sq_state sq') = phase_of (sq_state sq)"
  shows "simulates M st sq'"
  using assms core_eqD [OF assms(2)] by (simp add: simulates_def window_at_def)

lemma core_upd [simp]:
  "core (sq\<lparr>sq_gen := a1\<rparr>) = core sq" "core (sq\<lparr>sq_session_lo := a2\<rparr>) = core sq"
  "core (sq\<lparr>sq_session_hi := a3\<rparr>) = core sq" "core (sq\<lparr>sq_session_live := a4\<rparr>) = core sq"
  "core (sq\<lparr>sq_state := a5\<rparr>) = core sq" "core (sq\<lparr>sq_gap_active := a6\<rparr>) = core sq"
  "core (sq\<lparr>sq_evidence_hwm := a7\<rparr>) = core sq" "core (sq\<lparr>sq_max_staged := a8\<rparr>) = core sq"
  "core (sq\<lparr>sq_progress_vt := a9\<rparr>) = core sq" "core (sq\<lparr>sq_hb_seq := b1\<rparr>) = core sq"
  "core (sq\<lparr>sq_hb_vt := b2\<rparr>) = core sq" "core (sq\<lparr>sq_pending_to := b3\<rparr>) = core sq"
  "core (sq\<lparr>sq_last_intent_vt := b4\<rparr>) = core sq" "core (sq\<lparr>sq_counters := b5\<rparr>) = core sq"
  by (simp_all add: core_def)

lemmas counting_defs = count_packet_def violate_def count_emitted_def count_dup_msgs_def
  refuse_after_eos_def count_duplicate_def

lemma core_counting [simp]:
  "core (count_packet fd l sq) = core sq" "core (violate u sq) = core sq"
  "core (count_emitted n sq) = core sq" "core (count_dup_msgs n sq) = core sq"
  "core (refuse_after_eos sq) = core sq" "core (count_duplicate fd n sq) = core sq"
  by (simp_all add: counting_defs)

lemma state_counting [simp]:
  "sq_state (count_packet fd l sq) = sq_state sq" "sq_state (violate u sq) = sq_state sq"
  "sq_state (count_emitted n sq) = sq_state sq" "sq_state (count_dup_msgs n sq) = sq_state sq"
  "sq_state (refuse_after_eos sq) = sq_state sq" "sq_state (count_duplicate fd n sq) = sq_state sq"
  by (simp_all add: counting_defs)

section \<open>Control handlers\<close>

lemma gap_evidence_core:
  "core (fst (gap_evidence x sq)) = core sq" "outputs (snd (gap_evidence x sq)) = []"
  "phase_of (sq_state sq) = Anchored \<Longrightarrow> phase_of (sq_state (fst (gap_evidence x sq))) = Anchored"
  by (simp_all add: gap_evidence_def Let_def)

lemma check_gap_close_core:
  "core (fst (check_gap_close g sq)) = core sq" "outputs (snd (check_gap_close g sq)) = []"
  "phase_of (sq_state sq) = Anchored \<Longrightarrow> phase_of (sq_state (fst (check_gap_close g sq))) = Anchored"
  by (simp_all add: check_gap_close_def)

lemma retire_pending_core:
  "core (retire_pending sq) = core sq" "sq_state (retire_pending sq) = sq_state sq"
  by (simp_all add: retire_pending_def split: option.split)

lemma handle_heartbeat_core:
  "core (fst (handle_heartbeat q now sq)) = core sq" "outputs (snd (handle_heartbeat q now sq)) = []"
  "phase_of (sq_state (fst (handle_heartbeat q now sq))) = phase_of (sq_state sq)"
proof -
  let ?sq = "(count (\<lambda>c. c\<lparr>c_heartbeats := c_heartbeats c + 1\<rparr>) sq)\<lparr>sq_hb_seq := q, sq_hb_vt := now\<rparr>"
  show "core (fst (handle_heartbeat q now sq)) = core sq" "outputs (snd (handle_heartbeat q now sq)) = []"
    using gap_evidence_core(1,2) [of q ?sq] by (simp_all add: handle_heartbeat_def Let_def)
  show "phase_of (sq_state (fst (handle_heartbeat q now sq))) = phase_of (sq_state sq)"
    using gap_evidence_core(3) [of ?sq q] by (cases "sq_state sq") (simp_all add: handle_heartbeat_def Let_def)
qed

lemma session_dispatch_simulates:
  assumes "simulates M st sq" "s \<noteq> zero_session"
  shows "simulates M (fst (spec_session s st)) (fst (session_dispatch s sq))"
    and "outputs (snd (session_dispatch s sq)) = snd (spec_session s st)"
    and "d_session (fst (spec_session s st)) = s"
proof -
  have sq: "sq_session sq = d_session st" "sq_mutation sq = NoMutation" "unat (sq_w sq) = d_w st"
      "phase_of (sq_state sq) = d_phase st"
    and win: "window_at (M (d_session st)) (d_w st) (d_held st) sq"
    and ok: "spec_ok st" "d_session st = zero_session \<longrightarrow> d_held st = {}"
    using assms(1) unfolding simulates_def by blast+
  show out: "outputs (snd (session_dispatch s sq)) = snd (spec_session s st)"
    "d_session (fst (spec_session s st)) = s"
    using sq by (auto simp: session_dispatch_def spec_session_def Let_def)
  have ok1: "spec_ok (fst (spec_session s st))" using ok(1) by (rule spec_session_ok)
  consider (zero) "d_session st = zero_session" | (change) "d_session st \<noteq> zero_session" "d_session st \<noteq> s"
    | (same) "d_session st \<noteq> zero_session" "d_session st = s" by blast
  then show "simulates M (fst (spec_session s st)) (fst (session_dispatch s sq))"
  proof cases
    case zero
    then have "d_held st = {}" using ok(2) by simp
    then have "window_at (M s) (d_w st) {} sq" using win by (simp add: window_at_def)
    then show ?thesis using zero sq ok1 assms(2) \<open>d_held st = {}\<close>
      by (auto simp: session_dispatch_def spec_session_def simulates_def intro: window_at_cong)
  next
    case change
    have "sq_lens sq = (\<lambda>_. 0)" if "sq_staged_count sq = 0"
      using that win window_at_empty_iff [OF win] window_at_emptyD by metis
    then have "window_at (M s) (d_w st) {} (fst (session_dispatch s sq))"
      using change sq by (intro window_at_none) (auto simp: session_dispatch_def Let_def)
    then show ?thesis using change sq ok1 assms(2)
      by (auto simp: session_dispatch_def spec_session_def simulates_def Let_def)
  next
    case same
    then show ?thesis using assms sq by (auto simp: session_dispatch_def spec_session_def)
  qed
qed

lemma dispatch_session_core:
  "core (fst (dispatch_session s sq)) = core (fst (session_dispatch s sq))"
  "sq_state (fst (dispatch_session s sq)) = sq_state (fst (session_dispatch s sq))"
  "snd (dispatch_session s sq) = snd (session_dispatch s sq)"
  by (simp_all add: dispatch_session_def refresh_session_tmpl_def split: prod.split)

lemma dispatch_session_simulates:
  assumes "simulates M st sq" "s \<noteq> zero_session"
  shows "simulates M (fst (spec_session s st)) (fst (dispatch_session s sq))"
    and "outputs (snd (dispatch_session s sq)) = snd (spec_session s st)"
  using session_dispatch_simulates [OF assms] dispatch_session_core [of s sq]
  by (auto intro: simulates_core)

lemma eos_packet_simulates:
  assumes "simulates M st sq"
  shows "simulates M (spec_eos (unat (hdr_seq h)) st) (fst (eos_packet h sq))"
    and "outputs (snd (eos_packet h sq)) = []"
proof -
  have sq: "sq_mutation sq = NoMutation" "unat (sq_w sq) = d_w st" "phase_of (sq_state sq) = d_phase st"
    using assms by (simp_all add: simulates_def)
  have e: "eos_packet h sq = handle_eos h sq" using sq by (simp add: eos_packet_def)
  show "outputs (snd (eos_packet h sq)) = []"
    unfolding e by (simp add: handle_eos_def end_session_def Let_def split: State.split)
  have c: "core (fst (handle_eos h sq)) = core sq"
    by (simp add: handle_eos_def end_session_def Let_def split: State.split)
  have p: "phase_of (sq_state (fst (handle_eos h sq))) = d_phase (spec_eos (unat (hdr_seq h)) st)"
    using sq by (cases "sq_state sq")
      (auto simp: handle_eos_def end_session_def spec_eos_def Let_def word_le_nat_alt word_less_nat_alt
        dest!: sym [of "phase_of _"] sym [of _ "d_phase st"])
  have same: "spec_eos a st = st\<lparr>d_phase := d_phase (spec_eos a st)\<rparr>" for a
    by (simp add: spec_eos_def split: Phase.split)
  have ok: "spec_ok (spec_eos (unat (hdr_seq h)) st)"
    using assms spec_eos_ok by (simp add: simulates_def)
  have "spec_ok (st\<lparr>d_phase := d_phase (spec_eos (unat (hdr_seq h)) st)\<rparr>)"
    by (subst same [symmetric]) (rule ok)
  then have "simulates M (st\<lparr>d_phase := d_phase (spec_eos (unat (hdr_seq h)) st)\<rparr>) (fst (handle_eos h sq))"
    using assms core_eqD [OF c] p
    by (simp add: simulates_def window_at_def)
  then show "simulates M (spec_eos (unat (hdr_seq h)) st) (fst (eos_packet h sq))"
    unfolding e by (subst same)
qed

section \<open>Session, state and mutation\<close>

definition ctl :: "Sequencer \<Rightarrow> SessionId \<times> State \<times> SequencerMutation" where
  "ctl sq = (sq_session sq, sq_state sq, sq_mutation sq)"

lemma ctl_upd [simp]:
  "ctl (sq\<lparr>sq_w := a\<rparr>) = ctl sq" "ctl (sq\<lparr>sq_progress_vt := b\<rparr>) = ctl sq"
  "ctl (sq\<lparr>sq_counters := c\<rparr>) = ctl sq" "ctl (outside sq) = ctl sq"
  by (simp_all add: ctl_def outside_def)

lemma ctl_outside: "outside sq' = outside sq \<Longrightarrow> ctl sq' = ctl sq"
  and ctl_outside_w: "outside sq' = (outside sq)\<lparr>sq_w := w\<rparr> \<Longrightarrow> ctl sq' = ctl sq"
  by (metis ctl_upd(4)) (metis ctl_upd(1,4))

lemma simulatesI:
  assumes "simulates M st sq" "ctl sq' = ctl sq" "spec_ok (st\<lparr>d_w := w, d_held := held\<rparr>)"
    "unat (sq_w sq') = w" "window_at (M (d_session st)) w held sq'"
    "d_session st = zero_session \<longrightarrow> held = {}"
  shows "simulates M (st\<lparr>d_w := w, d_held := held\<rparr>) sq'"
  using assms by (simp add: simulates_def ctl_def)

section \<open>The walks\<close>

lemma number_blocks_source:
  "number_blocks (of_nat q) (map msg [q ..< q + c]) = map (\<lambda>n. \<lparr>mb_seq = of_nat n, mb_data = msg n\<rparr>) [q ..< q + c]"
proof (induction c arbitrary: q)
  case 0
  then show ?case by simp
next
  case (Suc c)
  have "[q ..< q + Suc c] = q # [Suc q ..< Suc q + c]" by (simp add: upt_rec)
  then show ?case using Suc [of "Suc q"] by (simp add: add.commute)
qed

lemma drop_map_upt: "drop k (map f [q ..< r]) = map f [q + k ..< r]"
  by (simp add: drop_map)

lemma walk_emit:
  assumes "\<forall>n. validate (msg n) = Inr ()"
  shows "walk_msgs (emit_callback gen) (map (\<lambda>n. \<lparr>mb_seq = of_nat n, mb_data = msg n\<rparr>) ns) st
    = ((fst st + of_nat (length ns), snd st @ map (\<lambda>n. OnMsg gen (of_nat n) (msg n)) ns), Inr ())"
  by (induction ns arbitrary: st) (simp_all add: emit_callback_def assms add.assoc)

lemma walk_emit_frame:
  assumes "\<forall>n. validate (msg n) = Inr ()" "\<forall>n. length (msg n) < 65536" "length s = 10"
  shows "ingest_walk (mold_frame s q c (map msg [unat q ..< unat q + unat c])) q c skip (emit_callback gen) (0, [])
    = ((of_nat (unat c - skip), messages gen msg (unat q + skip) (unat q + unat c)), Inr ())"
proof -
  let ?ms = "map msg [unat q ..< unat q + unat c]"
  have "ingest_walk (mold_frame s q c ?ms) q c skip (emit_callback gen) (0, [])
      = walk_msgs (emit_callback gen) (drop skip (number_blocks q ?ms)) (0, [])"
    using assms by (intro ingest_walk_frame) auto
  also have "number_blocks q ?ms = map (\<lambda>n. \<lparr>mb_seq = of_nat n, mb_data = msg n\<rparr>) [unat q ..< unat q + unat c]"
    using number_blocks_source [of "unat q" msg "unat c"] by simp
  finally show ?thesis using assms(1) by (simp add: drop_map_upt walk_emit messages_def)
qed

text \<open>Staging a run of source messages.\<close>

lemma stage_or_drop_window:
  assumes win: "window_at msg b held sq" and b: "b = unat (sq_w sq)" "b + 1024 < 2 ^ 64"
    and n: "b < n" "n < 2 ^ 64" and len: "length (msg n) \<le> 64"
  shows "window_at msg b (held \<union> ({n} \<inter> {..< b + 1024})) (stage_or_drop (sq_w sq + 1024) (of_nat n) (msg n) sq) \<and>
    ctl (stage_or_drop (sq_w sq + 1024) (of_nat n) (msg n) sq) = ctl sq \<and>
    sq_w (stage_or_drop (sq_w sq + 1024) (of_nat n) (msg n) sq) = sq_w sq"
proof -
  have un: "unat (of_nat n :: u64) = n" using n(2) by (rule unat_of_nat_u64)
  have "unat (sq_w sq + 1024) = b + 1024" using b by (simp add: unat_plus_u64)
  then have lt: "(of_nat n :: u64) < sq_w sq + 1024 \<longleftrightarrow> n < b + 1024"
    using un by (simp add: word_less_nat_alt)
  show ?thesis
  proof (cases "n < b + 1024")
    case True
    from stage_msg_window [OF win b(1) un n(1) True len] obtain sq' where
      "stage_msg (of_nat n) (msg n) sq = (sq', True)" "window_at msg b (insert n held) sq'"
      "outside sq' = outside sq" by blast
    moreover from this have "ctl sq' = ctl sq" "sq_w sq' = sq_w sq"
      using ctl_outside outside_eqD(1) by blast+
    moreover have "held \<union> ({n} \<inter> {..< b + 1024}) = insert n held" using True by auto
    ultimately show ?thesis using True lt by (simp add: stage_or_drop_def) (rule window_at_cong; simp)
  next
    case False
    then have "held \<union> ({n} \<inter> {..< b + 1024}) = held" by auto
    then show ?thesis using win lt False by (simp add: stage_or_drop_def) (rule window_at_cong; simp)
  qed
qed

lemma walk_stage:
  assumes "\<forall>n. validate (msg n) = Inr ()" "\<forall>n. length (msg n) \<le> 64"
    and "window_at msg b held sq" "b = unat (sq_w sq)" "b + 1024 < 2 ^ 64" "b < x" "x \<le> y" "y < 2 ^ 64"
  shows "\<exists>sq'. walk_msgs (stage_callback (sq_w sq + 1024)) (map (\<lambda>n. \<lparr>mb_seq = of_nat n, mb_data = msg n\<rparr>) [x ..< y]) sq
      = (sq', Inr ()) \<and> window_at msg b (held \<union> {x ..< min y (b + 1024)}) sq' \<and>
      ctl sq' = ctl sq \<and> sq_w sq' = sq_w sq"
  using assms(3-8)
proof (induction "y - x" arbitrary: x held sq)
  case 0
  then show ?case by simp
next
  case (Suc d)
  then have xy: "x < y" by simp
  let ?sq = "stage_or_drop (sq_w sq + 1024) (of_nat x) (msg x) sq"
  have s: "window_at msg b (held \<union> ({x} \<inter> {..< b + 1024})) ?sq"
    "ctl ?sq = ctl sq" "sq_w ?sq = sq_w sq"
    using stage_or_drop_window [of msg b held sq x] Suc.prems xy assms(2) by auto
  have "d = y - Suc x" using Suc.hyps(2) by simp
  from Suc.hyps(1) [OF this s(1)] Suc.prems xy s obtain sq' where
    r: "walk_msgs (stage_callback (sq_w sq + 1024)) (map (\<lambda>n. \<lparr>mb_seq = of_nat n, mb_data = msg n\<rparr>) [Suc x ..< y]) ?sq
      = (sq', Inr ())"
      "window_at msg b ((held \<union> ({x} \<inter> {..< b + 1024})) \<union> {Suc x ..< min y (b + 1024)}) sq'"
      "ctl sq' = ctl ?sq" "sq_w sq' = sq_w ?sq" by auto
  have "(held \<union> ({x} \<inter> {..< b + 1024})) \<union> {Suc x ..< min y (b + 1024)} = held \<union> {x ..< min y (b + 1024)}"
    using xy by auto
  then show ?case using r s xy
    by (intro exI [of _ sq']) (simp add: upt_rec [of x y] stage_callback_def assms(1))
qed

section \<open>The tails\<close>

lemma drain_counted_core:
  "drain gen sq = (sq', cs) \<Longrightarrow> snd (drain_counted gen now sq) = cs \<and>
     core (fst (drain_counted gen now sq)) = core sq' \<and>
     ctl (fst (drain_counted gen now sq)) = ctl sq'"
  by (simp add: drain_counted_def Let_def count_emitted_def)

lemma window_at_core: "core sq' = core sq \<Longrightarrow> window_at msg b held sq \<Longrightarrow> window_at msg b held sq'"
  using core_eqD [of sq' sq] by (auto intro: window_at_cong)

lemma simulates_window:
  "simulates M st sq \<Longrightarrow> window_at (M (d_session st)) (d_w st) (d_held st) sq"
  "simulates M st sq \<Longrightarrow> d_w st + 1024 < 2 ^ 64"
  "simulates M st sq \<Longrightarrow> d_held st \<subseteq> {d_w st <..< d_w st + 1024}"
  by (auto simp: simulates_def spec_ok_def SEQ_LIMIT_def)

lemma contig_tail_simulates:
  assumes sim: "simulates M st sq" and ph: "d_phase st = Anchored"
    and lim: "d_w st < r" "r \<le> SEQ_LIMIT" and last: "unat last_sq = r - 1"
  defines "w' \<equiv> advance 1024 (d_held st) r"
  shows "simulates M (st\<lparr>d_w := w', d_held := {n \<in> d_held st. w' \<le> n}\<rparr>)
      (fst (contig_tail (sq_w sq) last_sq gen now sq))"
    and "outputs (snd (contig_tail (sq_w sq) last_sq gen now sq)) = deliver M (d_session st) r w'"
proof -
  let ?msg = "M (d_session st)" and ?b = "d_w st" and ?held = "d_held st"
  have sq: "sq_session sq = d_session st" "phase_of (sq_state sq) = Anchored" "unat (sq_w sq) = ?b"
      "sq_mutation sq = NoMutation" "d_session st = zero_session \<longrightarrow> ?held = {}"
    using sim ph unfolding simulates_def by simp_all
  note win = simulates_window(1) [OF sim] and b64 = simulates_window(2) [OF sim]
    and heldb = simulates_window(3) [OF sim]
  have ur: "unat (last_sq + 1) = r" using last lim by (simp add: unat_plus_u64 SEQ_LIMIT_def)
  define sq1 where "sq1 = sq\<lparr>sq_w := last_sq + 1\<rparr>"
  define sq3 where "sq3 = (if sq_staged_count sq1 \<noteq> 0 \<and> sq_mutation sq1 \<noteq> DisableClearOnAdvance
                 then clear_slots (sq_w sq) (sq_w sq1) sq1 else sq1)\<lparr>sq_progress_vt := now\<rparr>"
  have win1: "window_at ?msg ?b ?held sq1" using win by (rule window_at_cong) (simp_all add: sq1_def)
  have w1: "sq_w sq1 = last_sq + 1" by (simp add: sq1_def)
  have cl: "window_at ?msg ?b {n \<in> ?held. r \<le> n} (clear_slots (sq_w sq) (sq_w sq1) sq1) \<and>
    outside (clear_slots (sq_w sq) (sq_w sq1) sq1) = outside sq1"
    using clear_slots_window [OF win1, of "sq_w sq" "sq_w sq1"] sq(3) ur w1 lim b64 by simp
  have win3: "window_at ?msg ?b {n \<in> ?held. r \<le> n} sq3"
  proof (cases "sq_staged_count sq1 = 0")
    case True
    then have "?held = {}" using window_at_empty_iff [OF win1] by simp
    then show ?thesis using win1 True by (simp add: sq3_def window_at_cong)
  next
    case False
    then have "sq3 = (clear_slots (sq_w sq) (sq_w sq1) sq1)\<lparr>sq_progress_vt := now\<rparr>"
      using sq(4) by (simp add: sq3_def sq1_def)
    then show ?thesis using cl by (auto intro: window_at_cong)
  qed
  have o3: "ctl sq3 = ctl sq" "sq_w sq3 = last_sq + 1"
    using cl ctl_outside [of "clear_slots (sq_w sq) (sq_w sq1) sq1" sq1]
      outside_eqD(1) [of "clear_slots (sq_w sq) (sq_w sq1) sq1" sq1]
    by (auto simp: sq3_def sq1_def)
  have w3: "unat (sq_w sq3) = r" using o3 ur by simp
  define st4 where "st4 = (if sq_staged_count sq3 \<noteq> 0 then drain_counted gen now sq3 else (sq3, []))"
  have "\<exists>v. snd st4 = messages gen ?msg r v \<and> r \<le> v \<and> {r ..< v} \<subseteq> ?held \<and> v \<notin> ?held \<and>
    unat (sq_w (fst st4)) = v \<and> window_at ?msg ?b {n \<in> ?held. v \<le> n} (fst st4) \<and> ctl (fst st4) = ctl sq"
  proof (cases "sq_staged_count sq3 = 0")
    case True
    then have none: "{n \<in> ?held. r \<le> n} = {}" using window_at_empty_iff [OF win3] by simp
    then show ?thesis using True win3 w3 o3 by (intro exI [of _ r]) (auto simp: st4_def)
  next
    case False
    have "\<forall>n \<in> {n \<in> ?held. r \<le> n}. r \<le> n" by simp
    from drain_window [OF win3 w3 _ this b64, of gen] lim(1) obtain v sq' where
      d: "drain gen sq3 = (sq', messages gen ?msg r v)" "r \<le> v" "{r ..< v} \<subseteq> {n \<in> ?held. r \<le> n}"
        "v \<notin> {n \<in> ?held. r \<le> n}" "unat (sq_w sq') = v"
        "window_at ?msg ?b {n \<in> {n \<in> ?held. r \<le> n}. v \<le> n} sq'" "outside sq' = (outside sq3)\<lparr>sq_w := sq_w sq'\<rparr>"
      by auto
    have sets: "{n \<in> {n \<in> ?held. r \<le> n}. v \<le> n} = {n \<in> ?held. v \<le> n}" using d(2) by auto
    have dc: "snd st4 = messages gen ?msg r v" "core (fst st4) = core sq'" "ctl (fst st4) = ctl sq'"
      using drain_counted_core [OF d(1), of now] False by (simp_all add: st4_def)
    have "ctl (fst st4) = ctl sq" using dc(3) ctl_outside_w [OF d(7)] o3(1) by simp
    moreover have "window_at ?msg ?b {n \<in> ?held. v \<le> n} (fst st4)"
      using window_at_core [OF dc(2)] d(6) by (simp only: sets)
    moreover have "unat (sq_w (fst st4)) = v" using core_eqD(1) [OF dc(2)] d(5) by simp
    moreover have "{r ..< v} \<subseteq> ?held" using d(3) by auto
    moreover have "v \<notin> ?held" using d(2,4) by blast
    ultimately show ?thesis using dc(1) d(2) by blast
  qed
  then obtain v where v: "snd st4 = messages gen ?msg r v" "r \<le> v" "{r ..< v} \<subseteq> ?held" "v \<notin> ?held"
    "unat (sq_w (fst st4)) = v" "window_at ?msg ?b {n \<in> ?held. v \<le> n} (fst st4)" "ctl (fst st4) = ctl sq"
    by blast
  have vw: "v = w'" unfolding w'_def
    using advance_unique [OF heldb _ v(2,3,4)] lim(1) by simp
  define st5 where "st5 = (if sq_gap_active (fst st4) then check_gap_close gen (fst st4) else (fst st4, []))"
  have st5: "core (fst st5) = core (fst st4)" "outputs (snd st5) = []" "phase_of (sq_state (fst st5)) = Anchored"
    using check_gap_close_core [where g = gen and sq = "fst st4"] v(7) sq(2) by (auto simp: st5_def ctl_def)
  have res: "fst (contig_tail (sq_w sq) last_sq gen now sq) = fst st5"
    "snd (contig_tail (sq_w sq) last_sq gen now sq) = snd st4 @ snd st5"
    unfolding contig_tail_def Let_def sq1_def [symmetric] sq3_def [symmetric] st4_def [symmetric] st5_def
    by (simp_all add: fst_andThen snd_andThen)
  show "outputs (snd (contig_tail (sq_w sq) last_sq gen now sq)) = deliver M (d_session st) r w'"
    unfolding res using v(1) st5(2) vw by simp
  have held: "?held \<subseteq> {?b <..< ?b + 1024} \<inter> {..< SEQ_LIMIT}" using sim by (simp add: simulates_def spec_ok_def)
  have "w' \<le> SEQ_LIMIT" unfolding w'_def using advance_limit [OF held] lim by simp
  moreover have h': "{n \<in> ?held. w' \<le> n} \<subseteq> {w' <..< w' + 1024} \<inter> {..< SEQ_LIMIT}"
    unfolding w'_def using advance_held [OF held] lim(1) by simp
  ultimately have "spec_ok (st\<lparr>d_w := w', d_held := {n \<in> ?held. w' \<le> n}\<rparr>)"
    using ph by (simp add: spec_ok_def)
  moreover have "window_at ?msg w' {n \<in> ?held. w' \<le> n} (fst st4)"
  proof (rule window_at_rebase)
    show "window_at ?msg ?b {n \<in> ?held. w' \<le> n} (fst st4)" using v(6) vw by simp
    show "\<forall>n \<in> {n \<in> ?held. w' \<le> n}. w' < n \<and> n < w' + 1024"
      using h' by (metis (no_types, lifting) IntD1 greaterThanLessThan_iff subsetD)
  qed
  ultimately have "simulates M (st\<lparr>d_w := w', d_held := {n \<in> ?held. w' \<le> n}\<rparr>) (fst st4)"
  proof (intro simulatesI [OF sim])
    show "ctl (fst st4) = ctl sq" by (rule v(7))
    show "unat (sq_w (fst st4)) = w'" using v(5) vw by simp
    show "d_session st = zero_session \<longrightarrow> {n \<in> ?held. w' \<le> n} = {}" using sq(5) by blast
  qed
  then show "simulates M (st\<lparr>d_w := w', d_held := {n \<in> d_held st. w' \<le> n}\<rparr>)
      (fst (contig_tail (sq_w sq) last_sq gen now sq))"
    unfolding res
  proof (rule simulates_core)
    show "core (fst st5) = core (fst st4)" by (rule st5(1))
    show "phase_of (sq_state (fst st5)) = phase_of (sq_state (fst st4))"
      using st5(3) v(7) sq(2) by (simp add: ctl_def)
  qed
qed

section \<open>A data packet\<close>

lemma validate_length: "validate m = Inr () \<Longrightarrow> length m \<le> 64"
  using validate_bounds [of m] by simp

lemma source_okD:
  assumes "source_ok M"
  shows "\<forall>n. validate (M s n) = Inr ()" "\<forall>n. length (M s n) \<le> 64" "\<forall>n. length (M s n) < 65536"
proof -
  show v: "\<forall>n. validate (M s n) = Inr ()" using assms by (simp add: source_ok_def)
  show "\<forall>n. length (M s n) \<le> 64" using v validate_length by blast
  then show "\<forall>n. length (M s n) < 65536" by (meson le_less_trans numeral_less_iff semiring_norm(76,78,81))
qed

text \<open>The packets the theorems speak about.\<close>

definition data_frame :: "Source \<Rightarrow> SessionId \<Rightarrow> u64 \<Rightarrow> u16 \<Rightarrow> bytes" where
  "data_frame M s q c = mold_frame s q c (map (M s) [unat q ..< unat q + unat c])"

lemma apply_contig_simulates:
  assumes sim: "simulates M st sq" and src: "source_ok M" and ph: "d_phase st = Anchored"
    and s: "length (d_session st) = 10"
    and q: "unat q \<le> d_w st" "d_w st < unat q + unat c" "unat q + unat c \<le> SEQ_LIMIT"
    and last: "unat last_sq = unat q + unat c - 1"
  defines "w' \<equiv> advance 1024 (d_held st) (unat q + unat c)"
  shows "simulates M (st\<lparr>d_w := w', d_held := {n \<in> d_held st. w' \<le> n}\<rparr>)
      (fst (apply_contig (data_frame M (d_session st) q c) q last_sq c now sq))"
    and "outputs (snd (apply_contig (data_frame M (d_session st) q c) q last_sq c now sq))
      = deliver M (d_session st) (d_w st) w'"
proof -
  let ?s = "d_session st"
  have w: "unat (sq_w sq) = d_w st" using sim by (simp add: simulates_def)
  have skip: "min (unat (sq_w sq - q)) (unat c) = d_w st - unat q"
    using w q by (simp add: unat_minus_u64)
  note walk = walk_emit_frame [OF source_okD(1,3) [OF src], OF s,
      where gen = "sq_gen sq" and q = q and c = c and skip = "d_w st - unat q"]
  let ?sq1 = "if d_w st - unat q \<noteq> 0 then count_dup_msgs (of_nat (d_w st - unat q)) sq else sq"
  let ?sq2 = "count_emitted (of_nat (unat c - (d_w st - unat q))) ?sq1"
  have c2: "core ?sq2 = core sq" "sq_state ?sq2 = sq_state sq" by simp_all
  have sim2: "simulates M st ?sq2" using sim c2 by (intro simulates_core [OF sim]) simp_all
  have w2: "sq_w ?sq2 = sq_w sq" using core_eqD(1) [OF c2(1)] .
  note tail = contig_tail_simulates [OF sim2 ph q(2,3) last, where gen = "sq_gen sq" and now = now,
      folded w'_def, unfolded w2]
  have a: "apply_contig (data_frame M ?s q c) q last_sq c now sq =
    andThen (?sq2, messages (sq_gen sq) (M ?s) (d_w st) (unat q + unat c))
      (\<lambda>sq2. andThen (contig_tail (sq_w sq) last_sq (sq_gen sq) now sq2) (\<lambda>sq3. (retire_pending sq3, [])))"
    using q(1) by (simp only: apply_contig_def Let_def skip data_frame_def walk) simp
  have w': "unat q + unat c \<le> w'" unfolding w'_def
    using advance_window(1) [OF simulates_window(3) [OF sim]] q(2) by simp
  show "outputs (snd (apply_contig (data_frame M ?s q c) q last_sq c now sq)) = deliver M ?s (d_w st) w'"
    using tail(2) q(2) w' by (simp add: a snd_andThen deliver_append)
  show "simulates M (st\<lparr>d_w := w', d_held := {n \<in> d_held st. w' \<le> n}\<rparr>)
      (fst (apply_contig (data_frame M ?s q c) q last_sq c now sq))"
  proof -
    have "fst (apply_contig (data_frame M ?s q c) q last_sq c now sq)
        = retire_pending (fst (contig_tail (sq_w sq) last_sq (sq_gen sq) now ?sq2))"
      by (simp only: a fst_andThen fst_conv)
    then show ?thesis
      using simulates_core [OF tail(1) retire_pending_core(1)] by (simp only: retire_pending_core)
  qed
qed

lemma apply_gap_simulates:
  assumes sim: "simulates M st sq" and src: "source_ok M" and ph: "d_phase st = Anchored"
    and s: "length (d_session st) = 10" "d_session st \<noteq> zero_session"
    and q: "d_w st < unat q" "0 < unat c" "unat q + unat c \<le> SEQ_LIMIT"
  shows "simulates M (st\<lparr>d_held := d_held st \<union> {unat q ..< min (unat q + unat c) (d_w st + 1024)}\<rparr>)
      (fst (apply_gap (data_frame M (d_session st) q c) q last_sq c now sq))"
    and "outputs (snd (apply_gap (data_frame M (d_session st) q c) q last_sq c now sq)) = []"
proof -
  let ?s = "d_session st" and ?h = "d_held st \<union> {unat q ..< min (unat q + unat c) (d_w st + 1024)}"
  define sq1 where "sq1 = fst (gap_evidence q sq)"
  have g: "core sq1 = core sq" "outputs (snd (gap_evidence q sq)) = []" "phase_of (sq_state sq1) = Anchored"
    using gap_evidence_core [where x = q and sq = sq] sim ph by (simp_all add: sq1_def simulates_def)
  have sim1: "simulates M st sq1" using sim ph g by (intro simulates_core [OF sim]) (simp_all add: simulates_def)
  have w1: "unat (sq_w sq1) = d_w st" and mut: "sq_mutation sq1 = NoMutation"
    using sim1 by (simp_all add: simulates_def)
  have b64: "d_w st + 1024 < 2 ^ 64" using simulates_window(2) [OF sim] .
  have clamp: "max_clamp sq1 = sq_w sq1 + 1024" using mut by (simp add: max_clamp_def)
  have q64: "unat q + unat c < 2 ^ 64" using q(3) by (simp add: SEQ_LIMIT_def)
  have "\<exists>sq2. walk_msgs (stage_callback (sq_w sq1 + 1024))
      (map (\<lambda>n. \<lparr>mb_seq = of_nat n, mb_data = M ?s n\<rparr>) [unat q ..< unat q + unat c]) sq1
      = (sq2, Inr ()) \<and> window_at (M ?s) (d_w st) ?h sq2 \<and> ctl sq2 = ctl sq1 \<and> sq_w sq2 = sq_w sq1"
    using walk_stage [OF source_okD(1,2) [OF src] simulates_window(1) [OF sim1] _ b64 q(1) _ q64] w1 by simp
  then obtain sq2 where walk: "walk_msgs (stage_callback (sq_w sq1 + 1024))
      (map (\<lambda>n. \<lparr>mb_seq = of_nat n, mb_data = M ?s n\<rparr>) [unat q ..< unat q + unat c]) sq1 = (sq2, Inr ())"
    and sq2: "window_at (M ?s) (d_w st) ?h sq2" "ctl sq2 = ctl sq1" "sq_w sq2 = sq_w sq1" by blast
  have iw: "ingest_walk (data_frame M ?s q c) q c 0 (stage_callback (max_clamp sq1)) sq1 = (sq2, Inr ())"
  proof -
    have "number_blocks q (map (M ?s) [unat q ..< unat q + unat c])
        = map (\<lambda>n. \<lparr>mb_seq = of_nat n, mb_data = M ?s n\<rparr>) [unat q ..< unat q + unat c]"
      using number_blocks_source [of "unat q" "M ?s" "unat c"] by simp
    then show ?thesis unfolding data_frame_def clamp
      by (simp add: ingest_walk_frame s(1) source_okD(3) [OF src] walk)
  qed
  have okh: "spec_ok (st\<lparr>d_held := ?h\<rparr>)"
    using sim q ph by (auto simp: simulates_def spec_ok_def)
  have "simulates M (st\<lparr>d_w := d_w st, d_held := ?h\<rparr>) sq2"
    using okh sq2 w1 s(2) by (intro simulatesI [OF sim1]) simp_all
  then have sim2: "simulates M (st\<lparr>d_held := ?h\<rparr>) sq2" by simp
  define sq3 where "sq3 = (let sq1 = (if sq_w sq2 + of_nat WINDOW_SLOTS \<le> last_sq
                 then sq2\<lparr>sq_evidence_hwm := max (sq_evidence_hwm sq2) (last_sq + 1)\<rparr> else sq2)
          in sq1\<lparr>sq_max_staged := max (sq_max_staged sq1) last_sq\<rparr>)"
  have c3: "core sq3 = core sq2" "sq_state sq3 = sq_state sq2" by (simp_all add: sq3_def Let_def)
  have win3: "window_at (M ?s) (d_w st) ?h sq3" using window_at_core [OF c3(1) sq2(1)] .
  have w3: "unat (sq_w sq3) = d_w st" using core_eqD(1) [OF c3(1)] sq2(3) w1 by simp
  have above: "\<forall>n \<in> ?h. d_w st \<le> n" using window_at_bounds [OF win3] by (auto simp: less_imp_le)
  from drain_window [OF win3 w3 le_refl above b64, of "sq_gen sq3"] obtain v sq4 where
    d: "drain (sq_gen sq3) sq3 = (sq4, messages (sq_gen sq3) (M ?s) (d_w st) v)" "d_w st \<le> v"
      "{d_w st ..< v} \<subseteq> ?h" "unat (sq_w sq4) = v" "window_at (M ?s) (d_w st) {n \<in> ?h. v \<le> n} sq4"
      "outside sq4 = (outside sq3)\<lparr>sq_w := sq_w sq4\<rparr>" by auto
  have "v = d_w st"
  proof (rule ccontr)
    assume "v \<noteq> d_w st"
    then have "d_w st \<in> {d_w st ..< v}" using d(2) by simp
    then have "d_w st \<in> ?h" using d(3) by blast
    then show False using window_at_bounds [OF win3] by blast
  qed
  then have d': "drain (sq_gen sq3) sq3 = (sq4, [])" "unat (sq_w sq4) = d_w st" "{n \<in> ?h. v \<le> n} = ?h"
    using d above by auto
  note dc = drain_counted_core [OF d'(1), of now]
  let ?sq4 = "fst (drain_counted (sq_gen sq3) now sq3)"
  have "ctl sq4 = ctl sq3" using ctl_outside_w [OF d(6)] .
  then have "ctl ?sq4 = ctl sq1" using dc c3(2) sq2(2) core_eqD(2,4) [OF c3(1)] by (simp add: ctl_def)
  then have "simulates M (st\<lparr>d_w := d_w st, d_held := ?h\<rparr>) ?sq4"
    using okh w1 s(2) window_at_core [of ?sq4 sq4] dc d(5) d'(2,3) core_eqD(1) [of ?sq4 sq4]
    by (intro simulatesI [OF sim1]) simp_all
  then have sim4: "simulates M (st\<lparr>d_held := ?h\<rparr>) ?sq4" by simp
  let ?t = "andThen (drain_counted (sq_gen sq3) now sq3) (\<lambda>sq3. check_gap_close (sq_gen sq3) sq3)"
  have gt: "gap_tail last_sq now sq2 = ?t" by (simp only: gap_tail_def Let_def sq3_def)
  have sim5: "simulates M (st\<lparr>d_held := ?h\<rparr>) (fst ?t)"
    using simulates_core [OF sim4 check_gap_close_core(1)] check_gap_close_core(3) sim4 ph
    by (simp add: fst_andThen simulates_def)
  have out5: "outputs (snd ?t) = []" using dc check_gap_close_core(2) by (simp add: snd_andThen)
  have a: "apply_gap (data_frame M ?s q c) q last_sq c now sq =
    andThen (gap_evidence q sq) (\<lambda>_. andThen ?t (\<lambda>sq3. (retire_pending sq3, [])))"
    unfolding apply_gap_def gt [symmetric]
    using iw by (cases "gap_evidence q sq") (simp add: sq1_def)
  show "outputs (snd (apply_gap (data_frame M ?s q c) q last_sq c now sq)) = []"
    using g(2) out5 by (simp add: a snd_andThen)
  show "simulates M (st\<lparr>d_held := ?h\<rparr>) (fst (apply_gap (data_frame M ?s q c) q last_sq c now sq))"
    using simulates_core [OF sim5 retire_pending_core(1)] by (simp add: a fst_andThen retire_pending_core)
qed

section \<open>Every packet\<close>

lemma span_data:
  assumes "hdr_count h \<noteq> HEARTBEAT_COUNT" "hdr_count h \<noteq> EOS_COUNT" "span h = Some (first, last_sq)"
  shows "first = hdr_seq h" "unat last_sq = unat (hdr_seq h) + unat (hdr_count h) - 1"
proof -
  have c: "0 < unat (hdr_count h)" using assms(1) by (simp add: unat_gt_0)
  then have "unat (ucast (hdr_count h) - 1 :: u64) = unat (hdr_count h) - 1"
    by (simp add: unat_minus_u64)
  then show "first = hdr_seq h" "unat last_sq = unat (hdr_seq h) + unat (hdr_count h) - 1"
    using assms c by (auto simp: span_def checked_add64_def unat_plus_u64 split: if_splits option.splits)
qed

lemma anchor_simulates:
  assumes "simulates M st sq" "d_phase st = Unanchored" "unat q \<le> SEQ_LIMIT"
  shows "simulates M (st\<lparr>d_phase := Anchored, d_w := unat q\<rparr>) (anchor q now sq)"
  using assms by (auto simp: simulates_def spec_ok_def anchor_def window_at_def)

lemma ingest_span_simulates:
  assumes sim: "simulates M st sq" and src: "source_ok M"
    and ph: "d_phase st = Unanchored \<or> d_phase st = Anchored"
    and s: "d_session st = hdr_session h" "length (hdr_session h) = 10" "hdr_session h \<noteq> zero_session"
    and h: "hdr_count h \<noteq> HEARTBEAT_COUNT" "hdr_count h \<noteq> EOS_COUNT" "span h \<noteq> None"
      "unat (hdr_seq h) + unat (hdr_count h) \<le> SEQ_LIMIT" "0 < unat (hdr_count h)"
    and f: "frame = data_frame M (hdr_session h) (hdr_seq h) (hdr_count h)"
  shows "simulates M (fst (spec_data M (unat (hdr_seq h)) (unat (hdr_count h)) st)) (fst (ingest_span frame h fd now sq))"
    and "outputs (snd (ingest_span frame h fd now sq)) = snd (spec_data M (unat (hdr_seq h)) (unat (hdr_count h)) st)"
proof -
  let ?q = "hdr_seq h" and ?c = "hdr_count h"
  obtain last_sq where sp: "span h = Some (?q, last_sq)" and last: "unat last_sq = unat ?q + unat ?c - 1"
    using h(3) span_data [OF h(1,2)] by (metis not_Some_eq prod.exhaust)
  define st1 where "st1 = (if d_phase st = Unanchored then st\<lparr>d_phase := Anchored, d_w := unat ?q\<rparr> else st)"
  define sq1 where "sq1 = (if sq_state sq = Init then anchor ?q now sq else sq)"
  have init: "sq_state sq = Init \<longleftrightarrow> d_phase st = Unanchored"
    using sim by (cases "sq_state sq") (auto simp: simulates_def)
  have sim1: "simulates M st1 sq1"
    using sim anchor_simulates [OF sim, of ?q now] init h(4) by (simp add: st1_def sq1_def)
  have st1: "d_phase st1 = Anchored" "d_session st1 = hdr_session h" using ph s by (auto simp: st1_def)
  have w1: "unat (sq_w sq1) = d_w st1" using sim1 by (simp add: simulates_def)
  have dup: "sq_state sq \<noteq> Init \<and> last_sq < sq_w sq \<longleftrightarrow> unat ?q + unat ?c \<le> d_w st1"
    using init last h(5) sim by (auto simp: st1_def word_less_nat_alt simulates_def)
  have spec: "spec_data M (unat ?q) (unat ?c) st =
     (if unat ?q + unat ?c \<le> d_w st1 then (st1, [])
      else if unat ?q \<le> d_w st1 then
        let w' = advance WINDOW_SLOTS (d_held st1) (unat ?q + unat ?c)
        in (st1\<lparr>d_w := w', d_held := {n \<in> d_held st1. w' \<le> n}\<rparr>, deliver M (d_session st1) (d_w st1) w')
      else (st1\<lparr>d_held := d_held st1 \<union> {unat ?q ..< min (unat ?q + unat ?c) (d_w st1 + WINDOW_SLOTS)}\<rparr>, []))"
    by (simp only: spec_data_def Let_def st1_def)
  have code: "ingest_span frame h fd now sq =
     (if unat ?q + unat ?c \<le> d_w st1 then (count_duplicate fd (ucast ?c) sq, [])
      else if unat ?q \<le> d_w st1 then apply_contig frame ?q last_sq ?c now sq1
      else apply_gap frame ?q last_sq ?c now sq1)"
    using dup w1 by (simp add: ingest_span_def sp sq1_def [symmetric] word_le_nat_alt)
  consider (dup) "unat ?q + unat ?c \<le> d_w st1"
    | (cont) "\<not> unat ?q + unat ?c \<le> d_w st1" "unat ?q \<le> d_w st1"
    | (gap) "\<not> unat ?q + unat ?c \<le> d_w st1" "\<not> unat ?q \<le> d_w st1" by blast
  then have "simulates M (fst (spec_data M (unat ?q) (unat ?c) st)) (fst (ingest_span frame h fd now sq)) \<and>
    outputs (snd (ingest_span frame h fd now sq)) = snd (spec_data M (unat ?q) (unat ?c) st)"
  proof cases
    case dup
    then have "sq_state sq \<noteq> Init" using \<open>_ \<longleftrightarrow> unat ?q + unat ?c \<le> d_w st1\<close> by blast
    then have "st1 = st" using init by (simp add: st1_def)
    then show ?thesis using dup simulates_core [OF sim, of "count_duplicate fd (ucast ?c) sq"]
      by (simp add: spec code)
  next
    case cont
    then show ?thesis unfolding spec code
      using apply_contig_simulates [OF sim1 src st1(1), of ?q ?c last_sq now] st1(2) s(2) last h(4) 
      by (simp add: f Let_def)
  next
    case gap
    then show ?thesis unfolding spec code
      using apply_gap_simulates [OF sim1 src st1(1), of ?q ?c last_sq now] st1(2) s(2,3) h(4,5) 
      by (simp add: f)
  qed
  then show "simulates M (fst (spec_data M (unat ?q) (unat ?c) st)) (fst (ingest_span frame h fd now sq))"
    and "outputs (snd (ingest_span frame h fd now sq)) = snd (spec_data M (unat ?q) (unat ?c) st)" by blast+
qed

lemma parse_header_Inl: "parse_header frame = Inl e \<longleftrightarrow> length frame < 20 \<and> e = Truncated 20 (length frame)"
  by (auto simp: parse_header_def)

lemma ingest_simulates:
  assumes sim: "simulates M st sq" and src: "source_ok M" and ok: "frame_ok M frame"
  shows "simulates M (fst (spec_frame M frame st)) (fst (ingest frame fd now sq))"
    and "outputs (snd (ingest frame fd now sq)) = snd (spec_frame M frame st)"
proof -
  let ?sq = "count_packet fd (length frame) sq"
  have sim0: "simulates M st ?sq" by (rule simulates_core [OF sim]) simp_all
  have "simulates M (fst (spec_frame M frame st)) (fst (ingest frame fd now sq)) \<and>
    outputs (snd (ingest frame fd now sq)) = snd (spec_frame M frame st)"
  proof (cases "parse_header frame")
    case (Inl e)
    then have "length frame < 20" by (simp add: parse_header_Inl)
    then have i: "ingest frame fd now sq = (violate (\<lambda>v. v\<lparr>vc_truncated := vc_truncated v + 1\<rparr>) ?sq, [])"
      by (simp add: ingest_def Let_def)
    show ?thesis unfolding i
      using simulates_core [OF sim, of "violate (\<lambda>v. v\<lparr>vc_truncated := vc_truncated v + 1\<rparr>) ?sq"] Inl
      by (simp add: spec_frame_def)
  next
    case (Inr h)
    note hd = frame_of_header [OF Inr]
    have dead: "sq_state ?sq = Dead \<longleftrightarrow> d_phase st = Sealed_off"
      using sim0 by (cases "sq_state ?sq") (auto simp: simulates_def)
    show ?thesis
    proof (cases "d_phase st = Sealed_off")
      case True
      then show ?thesis using simulates_core [OF sim0, of "count (\<lambda>c. c\<lparr>c_ignored_after_dead := c_ignored_after_dead c + 1\<rparr>) ?sq"]
          Inr dead hd(1) by (simp add: spec_frame_def spec_header_def ingest_def Let_def)
    next
      case alive: False
      let ?s = "hdr_session h"
      have nz: "?s \<noteq> zero_session" using ok Inr by (simp add: frame_ok_def)
      obtain st1 o1 where s1: "spec_session ?s st = (st1, o1)" by fastforce
      obtain sq1 cs1 where d1: "dispatch_session ?s ?sq = (sq1, cs1)" by fastforce
      have sim1: "simulates M st1 sq1" and out1: "outputs cs1 = o1" and ses: "d_session st1 = ?s"
        using dispatch_session_simulates [OF sim0 nz] session_dispatch_simulates(3) [OF sim0 nz] s1 d1 by simp_all
      have i: "ingest frame fd now sq = andThen (sq1, cs1) (ingest_kind frame h fd now)"
        using alive dead Inr hd(1) d1 by (simp add: ingest_def Let_def)
      have ph1: "d_phase st1 \<noteq> Sealed_off" using s1 alive by (auto simp: spec_session_def split: if_splits)
      have ended: "sq_state sq1 = Ended \<longleftrightarrow> d_phase st1 = Finished"
        using sim1 by (cases "sq_state sq1") (auto simp: simulates_def)
      let ?k = "ingest_kind frame h fd now sq1"
      have "\<exists>st2 o2. spec_frame M frame st = (st2, o1 @ o2) \<and> simulates M st2 (fst ?k) \<and> outputs (snd ?k) = o2"
      proof -
        consider (hb) "hdr_count h = HEARTBEAT_COUNT" | (eos) "hdr_count h = EOS_COUNT"
          | (fin) "hdr_count h \<noteq> HEARTBEAT_COUNT" "hdr_count h \<noteq> EOS_COUNT" "d_phase st1 = Finished"
          | (wrap) "hdr_count h \<noteq> HEARTBEAT_COUNT" "hdr_count h \<noteq> EOS_COUNT" "d_phase st1 \<noteq> Finished" "span h = None"
          | (data) "hdr_count h \<noteq> HEARTBEAT_COUNT" "hdr_count h \<noteq> EOS_COUNT" "d_phase st1 \<noteq> Finished" "span h \<noteq> None"
          by blast
        then show ?thesis
        proof cases
          case hb
          then show ?thesis using handle_heartbeat_core [of "hdr_seq h" now sq1] simulates_core [OF sim1]
            by (simp add: spec_frame_def spec_header_def Inr s1 alive ingest_kind_def)
        next
          case eos
          then show ?thesis using eos_packet_simulates [OF sim1, of h]
            by (simp add: spec_frame_def spec_header_def Inr s1 alive ingest_kind_def)
        next
          case fin
          then show ?thesis using simulates_core [OF sim1, of "refuse_after_eos sq1"] ended
            by (simp add: spec_frame_def spec_header_def Inr s1 alive ingest_kind_def)
        next
          case wrap
          then show ?thesis using simulates_core [OF sim1, of "violate (\<lambda>v. v\<lparr>vc_seq_overflow := vc_seq_overflow v + 1\<rparr>) sq1"] ended
            by (simp add: spec_frame_def spec_header_def Inr s1 alive ingest_kind_def ingest_span_def)
        next
          case data
          note fo = frame_ok_data [OF ok Inr data(1,2,4)]
          have "d_phase st1 = Unanchored \<or> d_phase st1 = Anchored"
            using data(3) ph1 by (cases "d_phase st1") auto
          moreover have "frame = data_frame M ?s (hdr_seq h) (hdr_count h)" using fo(3) by (simp add: data_frame_def)
          ultimately have r:
            "simulates M (fst (spec_data M (unat (hdr_seq h)) (unat (hdr_count h)) st1)) (fst (ingest_span frame h fd now sq1))"
            "outputs (snd (ingest_span frame h fd now sq1)) = snd (spec_data M (unat (hdr_seq h)) (unat (hdr_count h)) st1)"
            using ingest_span_simulates [OF sim1 src _ ses hd(2) nz data(1,2,4) fo(1,2)] by blast+
          have "?k = ingest_span frame h fd now sq1" using data ended by (simp add: ingest_kind_def)
          moreover have "spec_frame M frame st = (fst (spec_data M (unat (hdr_seq h)) (unat (hdr_count h)) st1),
              o1 @ snd (spec_data M (unat (hdr_seq h)) (unat (hdr_count h)) st1))"
            using data by (auto simp: spec_frame_def spec_header_def Inr s1 alive split: prod.split)
          ultimately show ?thesis using r by metis
        qed
      qed
      then show ?thesis using out1 i by auto
    qed
  qed
  then show "simulates M (fst (spec_frame M frame st)) (fst (ingest frame fd now sq))"
    and "outputs (snd (ingest frame fd now sq)) = snd (spec_frame M frame st)" by blast+
qed

section \<open>Runs\<close>

fun ingest_run :: "(bytes \<times> FeedId \<times> u64) list \<Rightarrow> Sequencer \<Rightarrow> step" where
  "ingest_run [] sq = (sq, [])"
| "ingest_run ((frame, fd, now_ns) # ps) sq = andThen (ingest frame fd now_ns sq) (ingest_run ps)"

lemma ingest_run_simulates:
  assumes "simulates M st sq" "source_ok M" "\<forall>f \<in> set (map fst ps). frame_ok M f"
  shows "simulates M (fst (spec_run M (map fst ps) st)) (fst (ingest_run ps sq)) \<and>
    outputs (snd (ingest_run ps sq)) = snd (spec_run M (map fst ps) st)"
  using assms
proof (induction ps sq arbitrary: st rule: ingest_run.induct)
  case (1 sq)
  then show ?case by simp
next
  case (2 frame fd now_ns ps sq)
  have ok: "frame_ok M frame" using "2.prems"(3) by simp
  note step = ingest_simulates [OF "2.prems"(1,2) ok, of fd now_ns]
  have "simulates M (fst (spec_run M (map fst ps) (fst (spec_frame M frame st))))
        (fst (ingest_run ps (fst (ingest frame fd now_ns sq)))) \<and>
      outputs (snd (ingest_run ps (fst (ingest frame fd now_ns sq))))
        = snd (spec_run M (map fst ps) (fst (spec_frame M frame st)))"
    using "2.prems" step by (intro "2.IH") simp_all
  then show ?case using step
    by (cases "spec_frame M frame st"; cases "spec_run M (map fst ps) (fst (spec_frame M frame st))")
      (simp add: fst_andThen snd_andThen)
qed

lemma new_simulates: "simulates M spec_init Sequencer_new_unboxed"
  by (simp add: simulates_def spec_init_def spec_ok_def Sequencer_new_unboxed_def window_at_none)

section \<open>Sample traffic\<close>

definition sample_msg :: bytes where "sample_msg = 83 # replicate 11 0"
definition sample_session :: SessionId where "sample_session = replicate 10 65"
definition sample_source :: Source where "sample_source s n = sample_msg"

lemma sample_source_ok: "source_ok sample_source"
  by (simp add: source_ok_def sample_source_def sample_msg_def ITCH_LENGTH_def length_table_def)

lemma sample_facts: "length sample_session = 10" "sample_session \<noteq> zero_session"
  by (simp_all add: sample_session_def zero_session_def)

lemma sample_frame_ok:
  assumes "unat q + unat c \<le> SEQ_LIMIT"
  shows "frame_ok sample_source (data_frame sample_source sample_session q c)"
  using assms sample_facts by (simp add: frame_ok_def data_frame_def parse_header_frame)

text \<open>A sequencer in the middle of a session, with an empty window.\<close>

definition anchored_st :: "SessionId \<Rightarrow> nat \<Rightarrow> Delivery" where
  "anchored_st s w = \<lparr>d_session = s, d_phase = Anchored, d_w = w, d_held = {}\<rparr>"

definition anchored_sq :: "SessionId \<Rightarrow> u64 \<Rightarrow> Sequencer" where
  "anchored_sq s w = Sequencer_new_unboxed\<lparr>sq_session := s, sq_state := Contig, sq_w := w\<rparr>"

lemma anchored_st_simps [simp]:
  "d_session (anchored_st s w) = s" "d_phase (anchored_st s w) = Anchored"
  "d_w (anchored_st s w) = w" "d_held (anchored_st s w) = {}"
  by (simp_all add: anchored_st_def)

lemma anchored_simulates: "unat w \<le> SEQ_LIMIT \<Longrightarrow> simulates M (anchored_st s (unat w)) (anchored_sq s w)"
  by (simp add: simulates_def spec_ok_def anchored_st_def anchored_sq_def Sequencer_new_unboxed_def
      window_at_none)

section \<open>Properties\<close>

text \<open>C4: one call of \<open>ingest\<close> on a well-formed frame implements one step of the abstract
  delivery machine: related states stay related, and the messages and session boundaries
  handed to the sink are the machine's outputs.\<close>

theorem ingest_refines_delivery:
  assumes "simulates M st sq" "source_ok M" "frame_ok M frame"
  shows "simulates M (fst (spec_frame M frame st)) (fst (ingest frame fd now_ns sq)) \<and>
    outputs (snd (ingest frame fd now_ns sq)) = snd (spec_frame M frame st)"
  using ingest_simulates [OF assms] by blast

lemma ingest_refines_delivery_witness:
  "simulates sample_source
      (fst (spec_frame sample_source (data_frame sample_source sample_session 5 2) spec_init))
      (fst (ingest (data_frame sample_source sample_session 5 2) 0 7 Sequencer_new_unboxed)) \<and>
    outputs (snd (ingest (data_frame sample_source sample_session 5 2) 0 7 Sequencer_new_unboxed))
      = snd (spec_frame sample_source (data_frame sample_source sample_session 5 2) spec_init)"
  by (rule ingest_refines_delivery [OF new_simulates sample_source_ok sample_frame_ok])
    (simp add: SEQ_LIMIT_def)

text \<open>C3: exactly once within a session era.  Take any sequence of well-formed frames, in any
  order, with any duplication, loss and change of session, and call an era what is delivered
  from one change of session to the next.  Every era is a run of consecutive messages of its
  session, each once and with the source's bytes; so a run in which no session comes back
  after a change delivers every message of every session at most once (a session that does
  come back starts a new era and may deliver its messages again).  The watermark of an
  anchored session is the number after its last delivery.\<close>

theorem ingest_run_exactly_once:
  assumes "source_ok M" "\<forall>p \<in> set ps. frame_ok M (fst p)"
  shows "\<exists>s. let (sq, calls) = ingest_run ps Sequencer_new_unboxed;
                (s', e) = era_after s None (outputs calls)
            in in_order M s None (outputs calls) \<and> s' = sq_session sq \<and>
               (phase_of (sq_state sq) = Anchored \<longrightarrow> e = Some (sq_w sq)) \<and>
               list_all2 (\<lambda>session era. (\<exists>a b. b \<le> SEQ_LIMIT \<and> era = numbered M session a b) \<and> distinct (map fst era))
                 (era_sessions s (outputs calls)) (eras (outputs calls)) \<and>
               (distinct (era_sessions s (outputs calls)) \<longrightarrow> distinct (delivered s (outputs calls)))"
proof -
  have ok: "\<forall>f \<in> set (map fst ps). frame_ok M f" using assms(2) by auto
  obtain st os where r: "spec_run M (map fst ps) spec_init = (st, os)" by fastforce
  obtain sq calls where c: "ingest_run ps Sequencer_new_unboxed = (sq, calls)" by fastforce
  have sim: "simulates M st sq" and out: "outputs calls = os"
    using ingest_run_simulates [OF new_simulates assms(1) ok] r c by simp_all
  obtain s where "ordered_step M (spec_init\<lparr>d_session := s\<rparr>) None st os"
    using spec_run_in_order [OF ok] r by auto
  then have o: "in_order M s None os" "fst (era_after s None os) = d_session st" "below SEQ_LIMIT os"
      "expects st (snd (era_after s None os))"
    by (simp_all add: ordered_step_def spec_init_def)
  have q: "sq_session sq = d_session st" "phase_of (sq_state sq) = d_phase st" "unat (sq_w sq) = d_w st"
    using sim by (simp_all add: simulates_def)
  note runs = in_order_era_runs [OF o(1,3)]
  have "list_all2 (\<lambda>session era. (\<exists>a b. b \<le> SEQ_LIMIT \<and> era = numbered M session a b) \<and> distinct (map fst era))
      (era_sessions s os) (eras os)"
    by (rule list_all2_mono [OF runs]) (simp add: era_run_distinct flip: era_run_def)
  moreover have "distinct (era_sessions s os) \<longrightarrow> distinct (delivered s os)"
    using delivered_distinct [OF runs] by (simp add: delivered_eras)
  moreover have "of_nat (d_w st) = sq_w sq" by (simp flip: q(3))
  ultimately show ?thesis using o q unfolding c by (intro exI [of _ s]) (auto simp: out expects_def)
qed

text \<open>A duplicated, reordered run of one session.\<close>

lemma ingest_run_exactly_once_witness:
  "\<exists>s. let ps = [(data_frame sample_source sample_session 5 2, 0, 1), (data_frame sample_source sample_session 9 1, 0, 2),
                 (data_frame sample_source sample_session 6 3, 1, 3)];
           (sq, calls) = ingest_run ps Sequencer_new_unboxed;
           (s', e) = era_after s None (outputs calls)
       in in_order sample_source s None (outputs calls) \<and> s' = sq_session sq \<and>
          (phase_of (sq_state sq) = Anchored \<longrightarrow> e = Some (sq_w sq)) \<and>
          list_all2 (\<lambda>session era. (\<exists>a b. b \<le> SEQ_LIMIT \<and> era = numbered sample_source session a b) \<and> distinct (map fst era))
            (era_sessions s (outputs calls)) (eras (outputs calls)) \<and>
          (distinct (era_sessions s (outputs calls)) \<longrightarrow> distinct (delivered s (outputs calls)))"
  using ingest_run_exactly_once [OF sample_source_ok, of
      "[(data_frame sample_source sample_session 5 2, 0, 1), (data_frame sample_source sample_session 9 1, 0, 2),
        (data_frame sample_source sample_session 6 3, 1, 3)]"]
  by (simp only: Let_def) (simp add: sample_frame_ok SEQ_LIMIT_def)

end
