(* ===== verification/Malformed.thy ===== *)
theory Malformed
  imports Arbitration
begin

text \<open>
  What the fused walk does with a packet whose framing is sound and whose payload is not:
  the blocks before the first invalid one have already reached the sink when the error
  returns, and the watermark has not moved.
\<close>

lemma walk_emit_invalid:
  assumes "\<forall>b \<in> set good. validate (mb_data b) = Inr ()" "validate (mb_data bad) = Inl e"
  shows "walk_msgs (emit_callback gen) (good @ bad # rest) st
    = ((fst st + of_nat (length good), snd st @ map (\<lambda>b. OnMsg gen (mb_seq b) (mb_data b)) good),
       Inl (Payload e))"
  using assms by (induction good arbitrary: st) (simp_all add: emit_callback_def add.assoc)

lemma number_blocks_append:
  "number_blocks q (xs @ ys) = number_blocks q xs @ number_blocks (q + of_nat (length xs)) ys"
  by (induction xs arbitrary: q) (simp_all add: ac_simps)

text \<open>A packet at the watermark with \<open>k\<close> source messages before an invalid block.\<close>

definition bad_frame :: "Source \<Rightarrow> SessionId \<Rightarrow> u64 \<Rightarrow> u16 \<Rightarrow> nat \<Rightarrow> bytes \<Rightarrow> bytes list \<Rightarrow> bytes" where
  "bad_frame M s q c k x rest = mold_frame s q c (map (M s) [unat q ..< unat q + k] @ x # rest)"

lemma ingest_live_session:
  assumes "sq_session sq = s" "s \<noteq> zero_session" "length s = 10" "sq_state sq \<noteq> Dead"
    and "frame = mold_frame s q c ms"
  shows "\<exists>sq'. core sq' = core sq \<and> sq_state sq' = sq_state sq \<and> sq_gen sq' = sq_gen sq \<and>
    ingest frame fd now_ns sq
      = ingest_kind frame \<lparr>hdr_session = s, hdr_seq = q, hdr_count = c\<rparr> fd now_ns sq'"
proof -
  let ?sq = "count_packet fd (length frame) sq"
  let ?sq' = "fst (dispatch_session s ?sq)"
  have sd: "session_dispatch s ?sq = (?sq, [])"
    using assms(1,2) by (simp add: session_dispatch_def count_packet_def)
  then have d: "dispatch_session s ?sq = (?sq', [])"
    by (simp add: dispatch_session_def)
  have "core ?sq' = core ?sq" "sq_state ?sq' = sq_state ?sq"
    using dispatch_session_core [of s ?sq] by (simp_all add: sd)
  moreover have "sq_gen ?sq' = sq_gen ?sq"
    by (simp add: dispatch_session_def sd refresh_session_tmpl_def)
  moreover have "ingest frame fd now_ns sq
      = ingest_kind frame \<lparr>hdr_session = s, hdr_seq = q, hdr_count = c\<rparr> fd now_ns ?sq'"
  proof -
    obtain sq1 where "dispatch_session s ?sq = (sq1, [])" using d by blast
    then show ?thesis using assms
      by (simp add: ingest_def Let_def parse_header_frame length_frame)
  qed
  ultimately show ?thesis by (intro exI [of _ ?sq']) (simp add: count_packet_def)
qed

lemma ingest_bad_frame:
  assumes sim: "simulates M st sq" and src: "source_ok M" and ph: "d_phase st = Anchored"
    and s: "length (d_session st) = 10" "d_session st \<noteq> zero_session"
    and q: "unat q = d_w st" and c: "unat c = k + 1 + length rest" "c \<noteq> EOS_COUNT"
    and lim: "unat q + unat c \<le> SEQ_LIMIT"
    and bad: "validate x = Inl e" "length x < 65536" "\<forall>y \<in> set rest. length y < 65536"
  shows "simulates M st (fst (ingest (bad_frame M (d_session st) q c k x rest) fd now_ns sq)) \<and>
    outputs (snd (ingest (bad_frame M (d_session st) q c k x rest) fd now_ns sq))
      = deliver M (d_session st) (d_w st) (d_w st + k)"
proof -
  let ?s = "d_session st" and ?ms = "map (M (d_session st)) [unat q ..< unat q + k] @ x # rest"
  let ?f = "bad_frame M ?s q c k x rest"
  let ?h = "\<lparr>hdr_session = ?s, hdr_seq = q, hdr_count = c\<rparr>"
  have sq: "sq_session sq = ?s" "phase_of (sq_state sq) = Anchored" "unat (sq_w sq) = d_w st"
    using sim ph by (simp_all add: simulates_def)
  have st: "sq_state sq \<noteq> Dead" "sq_state sq \<noteq> Ended" "sq_state sq \<noteq> Init" using sq(2) by auto
  obtain sq' where c': "core sq' = core sq" "sq_state sq' = sq_state sq"
    and i: "ingest ?f fd now_ns sq = ingest_kind ?f ?h fd now_ns sq'"
    using ingest_live_session [OF sq(1) s(2,1) st(1), of ?f q c ?ms fd now_ns]
    by (auto simp: bad_frame_def)
  have c0: "c \<noteq> 0" using c(1) by auto
  have sum: "unat q + unat c < 2 ^ 64" using lim by (simp add: SEQ_LIMIT_def)
  have "unat (ucast c - 1 :: u64) = unat c - 1" using c(1) by (simp add: unat_minus_u64)
  then obtain last_sq where sp: "span ?h = Some (q, last_sq)" and last: "unat last_sq = unat q + unat c - 1"
    using c0 c(1,2) sum by (auto simp: span_def checked_add64_def unat_plus_u64)
  have w: "sq_w sq' = q" using core_eqD(1) [OF c'(1)] sq(3) q by (simp add: word_unat_eq_iff)
  have dup: "\<not> last_sq < sq_w sq'" using last c(1) by (simp add: w word_less_nat_alt)
  have nb: "number_blocks q ?ms
      = map (\<lambda>n. \<lparr>mb_seq = of_nat n, mb_data = M ?s n\<rparr>) [unat q ..< unat q + k]
        @ \<lparr>mb_seq = q + of_nat k, mb_data = x\<rparr> # number_blocks (q + of_nat k + 1) rest"
    using number_blocks_source [of "unat q" "M ?s" k] by (simp add: number_blocks_append)
  have walk: "ingest_walk ?f q c 0 (emit_callback (sq_gen sq')) (0, [])
      = ((of_nat k, messages (sq_gen sq') (M ?s) (unat q) (unat q + k)), Inl (Payload e))"
  proof -
    have "ingest_walk ?f q c 0 (emit_callback (sq_gen sq')) (0, [])
        = walk_msgs (emit_callback (sq_gen sq')) (number_blocks q ?ms) (0, [])"
      unfolding bad_frame_def using c(1) bad(2,3) s(1) source_okD(3) [OF src]
      by (subst ingest_walk_frame) auto
    also have "\<dots> = ((of_nat k, messages (sq_gen sq') (M ?s) (unat q) (unat q + k)), Inl (Payload e))"
      unfolding nb using source_okD(1) [OF src] bad(1)
      by (subst walk_emit_invalid) (simp_all add: messages_def comp_def)
    finally show ?thesis .
  qed
  have res: "ingest ?f fd now_ns sq
      = (violate (record_packet_error (Payload e)) (count_emitted (of_nat k) sq'),
         messages (sq_gen sq') (M ?s) (unat q) (unat q + k))"
    unfolding i using st c'(2) c0 c(2) dup walk w
    by (simp add: ingest_kind_def ingest_span_def sp apply_contig_def Let_def)
  show ?thesis
    unfolding res using q simulates_core [OF sim, of "violate (record_packet_error (Payload e)) (count_emitted (of_nat k) sq')"] c'
    by simp
qed

text \<open>C23: a packet at the watermark whose first \<open>k\<close> messages are valid and whose next one is
  not delivers those \<open>k\<close> messages and leaves the watermark where it was, so the valid copy
  of the packet that follows delivers them a second time.\<close>

theorem malformed_packet_redelivers:
  assumes "simulates M st sq" "source_ok M" "d_phase st = Anchored"
    and "length (d_session st) = 10" "d_session st \<noteq> zero_session" "unat q = d_w st"
    and "unat c = k + 1 + length rest" "c \<noteq> EOS_COUNT" "unat q + unat c \<le> SEQ_LIMIT"
    and "validate x = Inl e" "length x < 65536" "\<forall>y \<in> set rest. length y < 65536"
  shows "outputs (snd (ingest_run
      [(bad_frame M (d_session st) q c k x rest, fa, t1), (data_frame M (d_session st) q c, fb, t2)] sq))
    = deliver M (d_session st) (unat q) (unat q + k) @
      deliver M (d_session st) (unat q) (advance 1024 (d_held st) (unat q + unat c))"
proof -
  let ?sq1 = "fst (ingest (bad_frame M (d_session st) q c k x rest) fa t1 sq)"
  note bad = ingest_bad_frame [OF assms, of fa t1]
  have c0: "c \<noteq> 0" using assms(7) by auto
  have ok: "frame_ok M (data_frame M (d_session st) q c)"
    using assms(4,5,9) by (simp add: frame_ok_def data_frame_def parse_header_frame)
  have sum: "unat q + unat c < 2 ^ 64" using assms(9) by (simp add: SEQ_LIMIT_def)
  have "unat (ucast c - 1 :: u64) = unat c - 1" using assms(7) by (simp add: unat_minus_u64)
  then have "\<exists>r. span \<lparr>hdr_session = d_session st, hdr_seq = q, hdr_count = c\<rparr> = Some r"
    using c0 assms(7,8) sum by (simp add: span_def checked_add64_def)
  then obtain r where "span \<lparr>hdr_session = d_session st, hdr_seq = q, hdr_count = c\<rparr> = Some r" ..
  then have "snd (spec_frame M (data_frame M (d_session st) q c) st)
      = deliver M (d_session st) (unat q) (advance 1024 (d_held st) (unat q + unat c))"
    using assms c0 by (simp add: spec_frame_def data_frame_def parse_header_frame spec_header_def
        spec_session_def spec_data_def Let_def)
  then show ?thesis
    using bad ingest_simulates(2) [OF conjunct1 [OF bad] assms(2) ok, of fb t2] assms(6)
    by (simp add: snd_andThen)
qed

lemma malformed_packet_redelivers_witness:
  "outputs (snd (ingest_run
      [(bad_frame sample_source sample_session 5 3 1 [1] [[]], 0, 1),
       (data_frame sample_source sample_session 5 3, 1, 2)] (anchored_sq sample_session 5)))
    = deliver sample_source sample_session 5 6 @ deliver sample_source sample_session 5 8"
proof -
  have "outputs (snd (ingest_run
      [(bad_frame sample_source (d_session (anchored_st sample_session (unat (5 :: u64)))) 5 3 1 [1] [[]], 0, 1),
       (data_frame sample_source (d_session (anchored_st sample_session (unat (5 :: u64)))) 5 3, 1, 2)]
      (anchored_sq sample_session 5)))
    = deliver sample_source (d_session (anchored_st sample_session (unat (5 :: u64)))) (unat (5 :: u64)) (unat (5 :: u64) + 1) @
      deliver sample_source (d_session (anchored_st sample_session (unat (5 :: u64)))) (unat (5 :: u64))
        (advance 1024 (d_held (anchored_st sample_session (unat (5 :: u64)))) (unat (5 :: u64) + unat (3 :: u16)))"
  proof (rule malformed_packet_redelivers)
    show "simulates sample_source (anchored_st sample_session (unat (5 :: u64))) (anchored_sq sample_session 5)"
      by (rule anchored_simulates) (simp add: SEQ_LIMIT_def)
    show "source_ok sample_source" by (rule sample_source_ok)
    show "validate [1] = Inl (UnknownType 1)" by (simp add: ITCH_LENGTH_def length_table_def)
  qed (simp_all add: sample_facts SEQ_LIMIT_def)
  then show ?thesis by simp
qed

end
