(* ===== verification/Events.thy ===== *)
theory Events
  imports Malformed
begin

text \<open>
  Laws of the ingest ladder that hold on every byte string and in every mutation mode: the
  generation law and the event grammar, the agreement of the macro state with the gap
  tracker, and the finality of the sealed state; then the range of recovery intents.
\<close>

section \<open>Tracking generation and gap\<close>

text \<open>One sink call against the generation and gap flag: the new pair, or \<open>None\<close> when the
  call breaks the grammar.\<close>

fun track :: "u64 \<times> bool \<Rightarrow> SinkCall \<Rightarrow> (u64 \<times> bool) option" where
  "track (g, gap) (OnMsg g' q m) = (if g' = g then Some (g, gap) else None)"
| "track (g, gap) (OnSpan g' r) = (if g' = g then Some (g, gap) else None)"
| "track (g, gap) (OnSpanBatch g' rs) = (if g' = g then Some (g, gap) else None)"
| "track (g, gap) (OnSpanBatchPacked g' a b c ws) = (if g' = g then Some (g, gap) else None)"
| "track (g, gap) (OnEvent (GapOpened w x g')) = (if \<not> gap \<and> g' = g + 1 then Some (g', True) else None)"
| "track (g, gap) (OnEvent (ReAnchored g' w)) = (if gap \<and> g' = g then Some (g, False) else None)"
| "track (g, gap) (OnEvent (SessionBoundary p n g')) = (if g' = g + 1 then Some (g', False) else None)"
| "track (g, gap) (OnEvent (EndOfSessionEv s w a)) = Some (g, gap)"
| "track (g, gap) (OnEvent (SessionDead r w)) = Some (g, gap)"

fun track_all :: "u64 \<times> bool \<Rightarrow> SinkCall list \<Rightarrow> (u64 \<times> bool) option" where
  "track_all v [] = Some v"
| "track_all v (c # cs) = (case track v c of None \<Rightarrow> None | Some v' \<Rightarrow> track_all v' cs)"

definition view :: "Sequencer \<Rightarrow> u64 \<times> bool" where
  "view sq = (sq_gen sq, sq_gap_active sq)"

text \<open>A step tracks when its calls lead from the old view to the new one.\<close>

definition tracks :: "Sequencer \<Rightarrow> step \<Rightarrow> bool" where
  "tracks sq st \<longleftrightarrow> track_all (view sq) (snd st) = Some (view (fst st))"

lemma track_all_append:
  "track_all v (xs @ ys) = (case track_all v xs of None \<Rightarrow> None | Some v' \<Rightarrow> track_all v' ys)"
  by (induction v xs rule: track_all.induct) (auto split: option.split)

lemma tracks_andThen:
  "tracks sq st \<Longrightarrow> (tracks (fst st) (f (fst st))) \<Longrightarrow> tracks sq (andThen st f)"
  by (simp add: tracks_def fst_andThen snd_andThen track_all_append)

lemma tracks_none: "view sq' = view sq \<Longrightarrow> tracks sq (sq', [])"
  by (simp add: tracks_def)

lemma tracks_from: "tracks sq st \<Longrightarrow> view sq' = view sq \<Longrightarrow> tracks sq' st"
  by (simp add: tracks_def)

lemma tracks_msgs:
  "\<forall>c \<in> set cs. \<exists>q m. c = OnMsg (sq_gen sq) q m \<Longrightarrow> view sq' = view sq \<Longrightarrow> tracks sq (sq', cs)"
proof -
  have "\<forall>c \<in> set cs. \<exists>q m. c = OnMsg g q m \<Longrightarrow> track_all (g, gap) cs = Some (g, gap)" for g gap
    by (induction cs) auto
  then show "\<forall>c \<in> set cs. \<exists>q m. c = OnMsg (sq_gen sq) q m \<Longrightarrow> view sq' = view sq \<Longrightarrow> tracks sq (sq', cs)"
    by (simp add: tracks_def view_def)
qed

lemma view_upd [simp]:
  "view (sq\<lparr>sq_w := a1\<rparr>) = view sq" "view (sq\<lparr>sq_session := a2\<rparr>) = view sq"
  "view (sq\<lparr>sq_state := a3\<rparr>) = view sq" "view (sq\<lparr>sq_evidence_hwm := a4\<rparr>) = view sq"
  "view (sq\<lparr>sq_max_staged := a5\<rparr>) = view sq" "view (sq\<lparr>sq_staged_count := a6\<rparr>) = view sq"
  "view (sq\<lparr>sq_progress_vt := a7\<rparr>) = view sq" "view (sq\<lparr>sq_hb_seq := a8\<rparr>) = view sq"
  "view (sq\<lparr>sq_hb_vt := a9\<rparr>) = view sq" "view (sq\<lparr>sq_pending_to := b1\<rparr>) = view sq"
  "view (sq\<lparr>sq_counters := b2\<rparr>) = view sq" "view (sq\<lparr>sq_lens := b3\<rparr>) = view sq"
  "view (sq\<lparr>sq_arena := b4\<rparr>) = view sq" "view (sq\<lparr>sq_session_lo := b5\<rparr>) = view sq"
  "view (sq\<lparr>sq_session_hi := b6\<rparr>) = view sq" "view (sq\<lparr>sq_session_live := b7\<rparr>) = view sq"
  "view (sq\<lparr>sq_last_intent_vt := b8\<rparr>) = view sq"
  by (simp_all add: view_def)

lemma view_counting [simp]:
  "view (count_packet fd l sq) = view sq" "view (violate u sq) = view sq"
  "view (count_emitted n sq) = view sq" "view (count_dup_msgs n sq) = view sq"
  "view (refuse_after_eos sq) = view sq" "view (count_duplicate fd n sq) = view sq"
  "view (anchor q t sq) = view sq" "view (retire_pending sq) = view sq"
  by (simp_all add: counting_defs anchor_def retire_pending_def split: option.split)

section \<open>Window operations do not touch control state\<close>

text \<open>The control fields: everything but the window, the watermark, the counters and the
  progress time.\<close>

definition ctrl :: "Sequencer \<Rightarrow> Sequencer" where
  "ctrl sq = (outside sq)\<lparr>sq_w := 0, sq_counters := Counters_default, sq_progress_vt := 0\<rparr>"

lemma ctrl_upd [simp]:
  "ctrl (sq\<lparr>sq_w := a\<rparr>) = ctrl sq" "ctrl (sq\<lparr>sq_counters := b\<rparr>) = ctrl sq"
  "ctrl (sq\<lparr>sq_progress_vt := c\<rparr>) = ctrl sq" "ctrl (sq\<lparr>sq_lens := d\<rparr>) = ctrl sq"
  "ctrl (sq\<lparr>sq_arena := e\<rparr>) = ctrl sq" "ctrl (sq\<lparr>sq_staged_count := f\<rparr>) = ctrl sq"
  "ctrl (sq\<lparr>sq_max_staged := g\<rparr>) = ctrl sq"
  by (simp_all add: ctrl_def outside_def)

lemma ctrl_eqD:
  assumes "ctrl sq = ctrl sq'"
  shows "sq_gen sq = sq_gen sq'" "sq_session sq = sq_session sq'" "sq_state sq = sq_state sq'"
    "sq_gap_active sq = sq_gap_active sq'" "sq_evidence_hwm sq = sq_evidence_hwm sq'"
    "sq_pending_to sq = sq_pending_to sq'" "sq_mutation sq = sq_mutation sq'"
  using assms unfolding ctrl_def outside_def by (cases sq; cases sq'; simp)+

lemma ctrl_counting [simp]:
  "ctrl (count_packet fd l sq) = ctrl sq" "ctrl (violate u sq) = ctrl sq"
  "ctrl (count_emitted n sq) = ctrl sq" "ctrl (count_dup_msgs n sq) = ctrl sq"
  "ctrl (refuse_after_eos sq) = ctrl sq" "ctrl (count_duplicate fd n sq) = ctrl sq"
  by (simp_all add: counting_defs)

lemma clear_run_ctrl: "ctrl (fst (clear_run is sq)) = ctrl sq"
  by (induction "is" sq rule: clear_run.induct) (auto simp: Let_def)

lemma clear_slots_ctrl: "ctrl (clear_slots a b sq) = ctrl sq"
  using clear_run_ctrl by (auto simp: clear_slots_def Let_def split: prod.split) (metis clear_run_ctrl fst_conv)+

lemma drain_loop_ctrl:
  "ctrl (fst (drain_loop n g sq)) = ctrl sq \<and> (\<forall>c \<in> set (snd (drain_loop n g sq)). \<exists>q m. c = OnMsg g q m)"
  by (induction n g sq rule: drain_loop.induct) (auto simp: Let_def split: prod.split)

lemma drain_counted_ctrl:
  "ctrl (fst (drain_counted g t sq)) = ctrl sq \<and> (\<forall>c \<in> set (snd (drain_counted g t sq)). \<exists>q m. c = OnMsg g q m)"
  using drain_loop_ctrl [of "unat (sq_staged_count sq)" g sq]
  by (auto simp: drain_counted_def drain_def Let_def split: prod.split)

lemma ctrl_view: "ctrl sq' = ctrl sq \<Longrightarrow> view sq' = view sq"
  using ctrl_eqD [of sq' sq] by (simp add: view_def)

lemma stage_or_drop_ctrl:
  "ctrl (stage_or_drop cl q m sq) = ctrl sq \<and> sq_w (stage_or_drop cl q m sq) = sq_w sq"
  by (simp add: stage_or_drop_def stage_msg_def Let_def split: prod.split bool.split)

lemma emit_walk_msgs:
  assumes "ingest_walk frame q c skip (emit_callback gen) (0, []) = ((n, cs), r)"
  shows "\<forall>x \<in> set cs. \<exists>q m. x = OnMsg gen q m"
proof -
  have "\<forall>x \<in> set (snd (fst (ingest_walk frame q c skip (emit_callback gen) (0, [])))). \<exists>q m. x = OnMsg gen q m"
    by (rule ingest_walk_inv [where P = "\<lambda>s. \<forall>x \<in> set (snd s). \<exists>q m. x = OnMsg gen q m"])
      (auto simp: emit_callback_def split: sum.split)
  then show ?thesis by (simp add: assms)
qed

lemma stage_walk_ctrl:
  assumes "ingest_walk frame q c skip (stage_callback cl) sq = (sq', r)"
  shows "ctrl sq' = ctrl sq \<and> sq_w sq' = sq_w sq"
proof -
  have "ctrl (fst (ingest_walk frame q c skip (stage_callback cl) sq)) = ctrl sq \<and>
      sq_w (fst (ingest_walk frame q c skip (stage_callback cl) sq)) = sq_w sq"
    by (rule ingest_walk_inv [where P = "\<lambda>s. ctrl s = ctrl sq \<and> sq_w s = sq_w sq"])
      (auto simp: stage_callback_def stage_or_drop_ctrl split: sum.split)
  then show ?thesis by (simp add: assms)
qed

section \<open>The ladder is lawful\<close>

text \<open>The macro state agrees with the gap flag; an open gap lies above the watermark.\<close>

definition agree :: "Sequencer \<Rightarrow> bool" where
  "agree sq \<longleftrightarrow> (sq_state sq = Init \<or> sq_state sq = Contig \<longrightarrow> \<not> sq_gap_active sq) \<and>
     (sq_state sq = Gap \<longrightarrow> sq_gap_active sq)"

definition control_ok :: "Sequencer \<Rightarrow> bool" where
  "control_ok sq \<longleftrightarrow> agree sq \<and> (sq_gap_active sq \<longrightarrow> sq_w sq < sq_evidence_hwm sq)"

definition lawful :: "Sequencer \<Rightarrow> step \<Rightarrow> bool" where
  "lawful sq st \<longleftrightarrow> tracks sq st \<and> (control_ok sq \<longrightarrow> control_ok (fst st))"

lemma lawful_andThen:
  "lawful sq st \<Longrightarrow> lawful (fst st) (f (fst st)) \<Longrightarrow> lawful sq (andThen st f)"
  by (simp add: lawful_def tracks_andThen fst_andThen)

lemma ctrl_agree: "ctrl sq' = ctrl sq \<Longrightarrow> agree sq' = agree sq"
  using ctrl_eqD [of sq' sq] by (simp add: agree_def)

lemma ctrl_control_ok: "ctrl sq' = ctrl sq \<Longrightarrow> sq_w sq' = sq_w sq \<Longrightarrow> control_ok sq' = control_ok sq"
  using ctrl_eqD [of sq' sq] by (simp add: control_ok_def agree_def)

lemma lawful_ctrl:
  "ctrl sq' = ctrl sq \<Longrightarrow> sq_w sq' = sq_w sq \<Longrightarrow> \<forall>c \<in> set cs. \<exists>q m. c = OnMsg (sq_gen sq) q m \<Longrightarrow>
     lawful sq (sq', cs)"
  using tracks_msgs [of cs sq sq'] ctrl_view [of sq' sq] ctrl_control_ok [of sq' sq]
  unfolding lawful_def fst_conv by blast

lemma lawful_from: "lawful sq st \<Longrightarrow> ctrl sq' = ctrl sq \<Longrightarrow> sq_w sq' = sq_w sq \<Longrightarrow> lawful sq' st"
  using tracks_from [of sq st sq'] ctrl_view [of sq' sq] ctrl_control_ok [of sq' sq]
  by (simp add: lawful_def)

lemma check_gap_close_lawful:
  "g = sq_gen sq \<Longrightarrow> tracks sq (check_gap_close g sq) \<and> (agree sq \<longrightarrow> control_ok (fst (check_gap_close g sq)))"
  by (auto simp: check_gap_close_def tracks_def view_def control_ok_def agree_def)

lemma gap_evidence_lawful: "lawful sq (gap_evidence x sq)"
  by (auto simp: gap_evidence_def Let_def lawful_def tracks_def view_def control_ok_def agree_def max_def
      intro: less_le_trans)

text \<open>The drains after which the gap is re-examined.\<close>

lemma close_after_drain:
  assumes "ctrl (fst st) = ctrl sq" "\<forall>c \<in> set (snd st). \<exists>q m. c = OnMsg (sq_gen sq) q m"
  shows "tracks sq (andThen st (\<lambda>s. check_gap_close (sq_gen sq) s)) \<and>
    (agree sq \<longrightarrow> control_ok (fst (andThen st (\<lambda>s. check_gap_close (sq_gen sq) s))))"
proof -
  have "sq_gen (fst st) = sq_gen sq" using ctrl_eqD(1) [OF assms(1)] .
  moreover have "tracks sq st" using tracks_msgs [OF assms(2) ctrl_view [OF assms(1)]] by simp
  ultimately show ?thesis
    using tracks_andThen [of sq st "\<lambda>s. check_gap_close (sq_gen sq) s"]
      check_gap_close_lawful [of "sq_gen sq" "fst st"] ctrl_agree [OF assms(1)]
    by (simp add: fst_andThen)
qed

lemma contig_tail_lawful:
  "tracks sq (contig_tail old l (sq_gen sq) t sq) \<and>
   (agree sq \<longrightarrow> control_ok (fst (contig_tail old l (sq_gen sq) t sq)))"
proof -
  define sq3 where "sq3 = (let sq1 = sq\<lparr>sq_w := l + 1\<rparr> in
    (if sq_staged_count sq1 \<noteq> 0 \<and> sq_mutation sq1 \<noteq> DisableClearOnAdvance
     then clear_slots old (sq_w sq1) sq1 else sq1)\<lparr>sq_progress_vt := t\<rparr>)"
  have c3: "ctrl sq3 = ctrl sq" by (simp add: sq3_def Let_def clear_slots_ctrl)
  let ?st = "if sq_staged_count sq3 \<noteq> 0 then drain_counted (sq_gen sq) t sq3 else (sq3, [])"
  have st: "ctrl (fst ?st) = ctrl sq" "\<forall>c \<in> set (snd ?st). \<exists>q m. c = OnMsg (sq_gen sq) q m"
    using drain_counted_ctrl c3 by auto
  have "contig_tail old l (sq_gen sq) t sq
      = andThen ?st (\<lambda>s. if sq_gap_active s then check_gap_close (sq_gen sq) s else (s, []))"
    by (simp only: contig_tail_def Let_def sq3_def)
  also have "(\<lambda>s. if sq_gap_active s then check_gap_close (sq_gen sq) s else (s, [])) = check_gap_close (sq_gen sq)"
    by (intro ext) (simp add: check_gap_close_def)
  finally show ?thesis using close_after_drain [OF st] by simp
qed

lemma gap_tail_lawful: "lawful sq (gap_tail l t sq)"
proof -
  define sq2 where "sq2 = (let sq1 = (if sq_w sq + of_nat WINDOW_SLOTS \<le> l
      then sq\<lparr>sq_evidence_hwm := max (sq_evidence_hwm sq) (l + 1)\<rparr> else sq)
    in sq1\<lparr>sq_max_staged := max (sq_max_staged sq1) l\<rparr>)"
  have v: "view sq2 = view sq" and a: "agree sq2 = agree sq" by (auto simp: sq2_def Let_def agree_def)
  let ?st = "drain_counted (sq_gen sq2) t sq2"
  have "gap_tail l t sq = andThen ?st (\<lambda>s. check_gap_close (sq_gen s) s)"
    by (simp only: gap_tail_def Let_def sq2_def)
  also have "\<dots> = andThen ?st (\<lambda>s. check_gap_close (sq_gen sq2) s)"
    using ctrl_eqD(1) [OF conjunct1 [OF drain_counted_ctrl, of "sq_gen sq2" t sq2]]
    by (cases ?st) simp
  finally show ?thesis using close_after_drain [of ?st sq2] drain_counted_ctrl v a
    by (auto simp: lawful_def control_ok_def intro: tracks_from)
qed

lemma retire_pending_lawful: "lawful sq (retire_pending sq, [])"
  by (simp add: lawful_def tracks_none control_ok_def agree_def retire_pending_def split: option.split)

lemma apply_contig_lawful: "lawful sq (apply_contig frame q l c t sq)"
proof -
  let ?skip = "min (unat (sq_w sq - q)) (unat c)"
  let ?sq1 = "if ?skip \<noteq> 0 then count_dup_msgs (of_nat ?skip) sq else sq"
  obtain n cs r where w: "ingest_walk frame q c ?skip (emit_callback (sq_gen sq)) (0, []) = ((n, cs), r)"
    by (metis prod.exhaust)
  have cs: "\<forall>x \<in> set cs. \<exists>q m. x = OnMsg (sq_gen sq) q m" using emit_walk_msgs [OF w] .
  let ?sq2 = "count_emitted n ?sq1"
  have sq2: "ctrl ?sq2 = ctrl sq" "sq_w ?sq2 = sq_w sq" "sq_gen ?sq2 = sq_gen sq"
    by (simp_all add: count_emitted_def count_dup_msgs_def)
  have head: "lawful sq (?sq2, cs)" using lawful_ctrl [OF sq2(1,2) cs] .
  show ?thesis
  proof (cases r)
    case (Inl e)
    then have "apply_contig frame q l c t sq = (violate (record_packet_error e) ?sq2, cs)"
      using w by (simp add: apply_contig_def Let_def)
    then show ?thesis using lawful_ctrl [of "violate (record_packet_error e) ?sq2" sq cs] cs
      by (simp add: count_emitted_def count_dup_msgs_def violate_def)
  next
    case (Inr u)
    have "tracks ?sq2 (contig_tail (sq_w sq) l (sq_gen sq) t ?sq2) \<and>
        (agree ?sq2 \<longrightarrow> control_ok (fst (contig_tail (sq_w sq) l (sq_gen sq) t ?sq2)))"
      using contig_tail_lawful [of ?sq2 "sq_w sq" l t] unfolding sq2(3) .
    then have "lawful ?sq2 (contig_tail (sq_w sq) l (sq_gen sq) t ?sq2)"
      by (simp add: lawful_def control_ok_def)
    then have "lawful ?sq2 (andThen (contig_tail (sq_w sq) l (sq_gen sq) t ?sq2) (\<lambda>s. (retire_pending s, [])))"
      by (rule lawful_andThen) (rule retire_pending_lawful)
    moreover have "apply_contig frame q l c t sq = andThen (?sq2, cs)
        (\<lambda>s. andThen (contig_tail (sq_w sq) l (sq_gen sq) t s) (\<lambda>s. (retire_pending s, [])))"
      using w Inr by (simp only: apply_contig_def Let_def) simp
    ultimately show ?thesis using lawful_andThen [OF head] by (simp only: fst_conv)
  qed
qed

lemma apply_gap_lawful: "lawful sq (apply_gap frame q l c t sq)"
  unfolding apply_gap_def
proof (rule lawful_andThen [OF gap_evidence_lawful])
  let ?sq1 = "fst (gap_evidence q sq)"
  obtain sq2 r where w: "ingest_walk frame q c 0 (stage_callback (max_clamp ?sq1)) ?sq1 = (sq2, r)" by fastforce
  note sq2 = stage_walk_ctrl [OF w]
  show "lawful ?sq1 (case ingest_walk frame q c 0 (stage_callback (max_clamp ?sq1)) ?sq1 of
      (sq2, Inl e) \<Rightarrow> (violate (record_packet_error e) sq2, [])
    | (sq2, Inr _) \<Rightarrow> andThen (gap_tail l t sq2) (\<lambda>sq3. (retire_pending sq3, [])))"
  proof (cases r)
    case (Inl e)
    have "lawful ?sq1 (violate (record_packet_error e) sq2, [])"
      using sq2 by (intro lawful_ctrl) (simp_all add: violate_def)
    then show ?thesis using w Inl by simp
  next
    case (Inr u)
    have "lawful sq2 (andThen (gap_tail l t sq2) (\<lambda>sq3. (retire_pending sq3, [])))"
      using gap_tail_lawful by (rule lawful_andThen) (rule retire_pending_lawful)
    then have "lawful ?sq1 (andThen (gap_tail l t sq2) (\<lambda>sq3. (retire_pending sq3, [])))"
      using sq2 by (auto intro: lawful_from)
    then show ?thesis using w Inr by simp
  qed
qed

lemma anchor_lawful: "sq_state sq = Init \<Longrightarrow> lawful sq (anchor q t sq, [])"
  by (auto simp: lawful_def tracks_def anchor_def control_ok_def agree_def view_def)

lemma ingest_span_lawful: "lawful sq (ingest_span frame h fd t sq)"
proof (cases "span h")
  case None
  then show ?thesis
    using lawful_ctrl [of "violate (\<lambda>v. v\<lparr>vc_seq_overflow := vc_seq_overflow v + 1\<rparr>) sq" sq "[]"]
    by (simp add: ingest_span_def violate_def)
next
  case (Some fl)
  obtain q l where fl: "fl = (q, l)" by fastforce
  let ?sq1 = "if sq_state sq = Init then anchor q t sq else sq"
  have a: "lawful sq (?sq1, [])" using anchor_lawful by (simp add: lawful_def tracks_none)
  have dup: "lawful sq (count_duplicate fd (ucast (hdr_count h)) sq, [])"
    by (intro lawful_ctrl) (simp_all add: count_duplicate_def count_dup_msgs_def)
  have "lawful sq (andThen (?sq1, []) (\<lambda>s. if q \<le> sq_w s then apply_contig frame q l (hdr_count h) t s
      else apply_gap frame q l (hdr_count h) t s))"
    using a by (rule lawful_andThen) (simp add: apply_contig_lawful apply_gap_lawful)
  then show ?thesis using Some fl dup by (simp add: ingest_span_def Let_def)
qed

lemma handle_heartbeat_lawful: "lawful sq (handle_heartbeat q t sq)"
proof -
  let ?c = "count (\<lambda>c. c\<lparr>c_heartbeats := c_heartbeats c + 1\<rparr>) sq"
  have c: "lawful sq (?c, [])" by (intro lawful_ctrl) simp_all
  have h: "lawful sq (?c\<lparr>sq_hb_seq := q, sq_hb_vt := t\<rparr>, [])"
    by (simp add: lawful_def tracks_none control_ok_def agree_def)
  have "lawful sq (andThen (?c\<lparr>sq_hb_seq := q, sq_hb_vt := t\<rparr>, []) (gap_evidence q))"
    using h by (rule lawful_andThen) (rule gap_evidence_lawful)
  then show ?thesis using c h by (simp add: handle_heartbeat_def Let_def)
qed

lemma eos_packet_lawful: "lawful sq (eos_packet h sq)"
proof -
  let ?sq = "if sq_mutation sq = DropStagedAtEos then sq\<lparr>sq_lens := (\<lambda>_. 0), sq_staged_count := 0\<rparr> else sq"
  have "lawful ?sq (handle_eos h ?sq)" for sq :: Sequencer and h
    by (simp add: lawful_def tracks_def handle_eos_def end_session_def control_ok_def agree_def view_def Let_def
        split: State.split)
  then have "lawful ?sq (handle_eos h ?sq)" by blast
  then show ?thesis unfolding eos_packet_def by (rule lawful_from) simp_all
qed

lemma dispatch_session_lawful: "lawful sq (dispatch_session s sq)"
  by (auto simp: lawful_def tracks_def dispatch_session_def session_dispatch_def refresh_session_tmpl_def
      control_ok_def agree_def view_def Let_def)

lemma ingest_kind_lawful: "lawful sq (ingest_kind frame h fd t sq)"
  using lawful_ctrl [of "refuse_after_eos sq" sq "[]"]
  by (simp add: ingest_kind_def handle_heartbeat_lawful eos_packet_lawful ingest_span_lawful refuse_after_eos_def)

lemma ingest_lawful: "lawful sq (ingest frame fd t sq)"
proof -
  let ?c = "count_packet fd (length frame) sq"
  have c: "lawful sq (?c, [])" "lawful sq (violate u ?c, [])" "lawful sq (count v ?c, [])" for u v
    by (intro lawful_ctrl; simp add: count_packet_def violate_def)+
  have "lawful sq (andThen (?c, []) (\<lambda>s. andThen (dispatch_session x s) (ingest_kind frame h fd t)))" for x h
    using c(1) by (rule lawful_andThen)
      (intro lawful_andThen [OF dispatch_session_lawful], rule ingest_kind_lawful)
  then show ?thesis using c(2,3) by (simp add: ingest_def Let_def split: sum.split)
qed

lemma ingest_run_lawful: "lawful sq (ingest_run ps sq)"
proof (induction ps arbitrary: sq)
  case Nil
  then show ?case by (simp add: lawful_def tracks_none)
next
  case (Cons p ps)
  then show ?case by (cases p) (simp add: lawful_andThen ingest_lawful)
qed

section \<open>The sealed state\<close>

lemma ingest_dead:
  "sq_state sq = Dead \<Longrightarrow> \<exists>c. ingest frame fd t sq = (sq\<lparr>sq_counters := c\<rparr>, [])"
  by (auto simp: ingest_def Let_def count_packet_def violate_def split: sum.split)

lemma ingest_run_dead:
  "sq_state sq = Dead \<Longrightarrow> \<exists>c. ingest_run ps sq = (sq\<lparr>sq_counters := c\<rparr>, [])"
proof (induction ps arbitrary: sq)
  case Nil
  then show ?case by (intro exI [of _ "sq_counters sq"]) simp
next
  case (Cons p ps)
  obtain frame fd t where p: "p = (frame, fd, t)" by (metis prod_cases3)
  from ingest_dead [OF Cons.prems, of frame fd t] obtain c where
    c: "ingest frame fd t sq = (sq\<lparr>sq_counters := c\<rparr>, [])" ..
  from Cons.IH [of "sq\<lparr>sq_counters := c\<rparr>"] Cons.prems obtain c' where
    "ingest_run ps (sq\<lparr>sq_counters := c\<rparr>) = (sq\<lparr>sq_counters := c\<rparr>\<lparr>sq_counters := c'\<rparr>, [])" by auto
  then show ?case using c p by (intro exI [of _ c']) simp
qed

section \<open>Properties\<close>

text \<open>C19: on any byte strings, from any state and in every mutation mode, every message
  carries the generation current at its emission, the generation moves by one exactly at a
  gap opening or a session boundary, a gap is opened only when none is open and re-anchored
  only when one is, and the state after the run agrees with the calls.\<close>

theorem ingest_event_grammar:
  "track_all (sq_gen sq, sq_gap_active sq) (snd (ingest_run ps sq))
    = Some (sq_gen (fst (ingest_run ps sq)), sq_gap_active (fst (ingest_run ps sq)))"
  using ingest_run_lawful [of sq ps] by (simp add: lawful_def tracks_def view_def)

text \<open>C20: after any packets in any mutation mode, an unanchored or contiguous state has no
  open gap, the gap state has one, and an open gap's evidence lies above the watermark.\<close>

theorem control_state_invariant:
  "control_ok (fst (ingest_run ps (Sequencer_with_mutation m)))"
proof -
  have "control_ok (Sequencer_with_mutation m)"
    by (simp add: control_ok_def agree_def Sequencer_with_mutation_def Sequencer_new_unboxed_def)
  then show ?thesis using ingest_run_lawful by (simp add: lawful_def)
qed

text \<open>A sealed sequencer is dead for good: whatever packets follow, it calls the sink no
  more and nothing but its counters changes.\<close>

theorem seal_is_final:
  "(\<exists>c. ingest_run ps (fst (seal reason sq)) = ((fst (seal reason sq))\<lparr>sq_counters := c\<rparr>, [])) \<and>
   seal reason' (fst (seal reason sq)) = (fst (seal reason sq), [])"
proof -
  have "sq_state (fst (seal reason sq)) = Dead" by (simp add: seal_def)
  then show ?thesis using ingest_run_dead by (simp add: seal_def)
qed

end
