(* ===== verification/Indexed.thy ===== *)
theory Indexed
  imports Events
begin

text \<open>
  The indexed path is the classic path.  For every wire-form data packet, with valid
  payloads or not, and its block triples, \<open>ingest_indexed\<close> without span emission leaves
  the same state, counters included, and makes the same sink calls as \<open>ingest\<close>, with
  and without an exact validation memo; with span emission the span it emits stands for
  the same messages.
\<close>

section \<open>Contracts\<close>

text \<open>The triples of a message list whose first length prefix is at \<open>pos\<close>.\<close>

fun frame_triples :: "u64 \<Rightarrow> nat \<Rightarrow> bytes list \<Rightarrow> BlockTriple list" where
  "frame_triples q pos [] = []"
| "frame_triples q pos (m # ms) =
     (q, of_nat (pos + 2), of_nat (pos + 2 + length m)) # frame_triples (q + 1) (pos + 2 + length m) ms"

definition memo_ok :: "FrameMemo option \<Rightarrow> bytes list \<Rightarrow> bool" where
  "memo_ok memo ms =
     (case memo of None \<Rightarrow> True
      | Some m \<Rightarrow> unat (fm_valid_count m) = length (takeWhile (\<lambda>x. validate x = Inr ()) ms))"

text \<open>The template words encode the live session.\<close>

definition tmpl_ok :: "Sequencer \<Rightarrow> bool" where
  "tmpl_ok sq \<longleftrightarrow> length (sq_session sq) = 10 \<and>
     (sq_session_live sq \<longrightarrow> sq_session sq \<noteq> zero_session \<and>
        sq_session_lo sq = u64_from_le_bytes (slice 0 8 (sq_session sq)) \<and>
        sq_session_hi sq = u64_from_le_bytes (slice 2 10 (sq_session sq)))"

lemma session_words_inj:
  assumes "length s = 10" "length t = 10"
    and "u64_from_le_bytes (slice 0 8 s) = u64_from_le_bytes (slice 0 8 t)"
    and "u64_from_le_bytes (slice 2 10 s) = u64_from_le_bytes (slice 2 10 t)"
  shows "s = t"
proof -
  have "slice 0 8 s = slice 0 8 t" "slice 2 10 s = slice 2 10 t"
    using assms by (simp_all add: u64_le_inj)
  then have 1: "take 8 s = take 8 t" and 2: "drop 2 s = drop 2 t"
    using assms(1,2) by (simp_all add: slice_def)
  from arg_cong [OF 2, of "drop 6"] have "drop 8 s = drop 8 t" by simp
  with 1 show ?thesis by (metis append_take_drop_id)
qed

section \<open>Blocks of a frame\<close>

lemma block_data_triple [simp]: "block_data frame (q, a, b) = slice (unat a) (unat b) frame"
  by (simp add: block_data_def)

lemma length_frame_triples [simp]: "length (frame_triples q pos ms) = length ms"
  by (induction ms arbitrary: q pos) simp_all

lemma frame_triples_data:
  assumes "drop pos frame = mold_body ms" "pos \<le> length frame" "length frame < 2 ^ 32"
    "\<forall>m \<in> set ms. length m < 65536"
  shows "map (block_data frame) (frame_triples q pos ms) = ms"
  using assms
proof (induction ms arbitrary: q pos)
  case Nil
  then show ?case by simp
next
  case (Cons m ms)
  have d: "drop pos frame = mold_block m @ mold_body ms" using Cons.prems(1) by simp
  have "length (drop pos frame) = 2 + length m + length (mold_body ms)" by (simp only: d) simp
  then have len: "length frame = pos + 2 + length m + length (mold_body ms)" using Cons.prems(2) by simp
  have "drop 2 (drop pos frame) = m @ mold_body ms" by (simp only: d) (simp add: mold_block_def)
  then have data: "slice (pos + 2) (pos + 2 + length m) frame = m" by (simp add: slice_def add.commute)
  have u: "unat (of_nat (pos + 2) :: u32) = pos + 2" "unat (of_nat (pos + 2 + length m) :: u32) = pos + 2 + length m"
    using len Cons.prems(3) by (intro unat_of_nat_u32; simp)+
  have "drop (pos + 2 + length m) frame = drop (2 + length m) (drop pos frame)" by (simp add: ac_simps)
  also have "\<dots> = mold_body ms" by (simp only: d) simp
  finally have "map (block_data frame) (frame_triples (q + 1) (pos + 2 + length m) ms) = ms"
    using Cons.prems len by (intro Cons.IH) simp_all
  then show ?case using data u by (simp del: of_nat_add)
qed

lemma frame_triples_seq: "map fst (frame_triples q pos ms) = map mb_seq (number_blocks q ms)"
  by (induction ms arbitrary: q pos) simp_all

lemma number_blocks_data: "map mb_data (number_blocks q ms) = ms"
  by (induction ms arbitrary: q) simp_all

lemma frame_triples_blocks:
  assumes "drop pos frame = mold_body ms" "pos \<le> length frame" "length frame < 2 ^ 32"
    "\<forall>m \<in> set ms. length m < 65536"
  shows "map (\<lambda>b. (fst b, block_data frame b)) (frame_triples q pos ms)
    = map (\<lambda>b. (mb_seq b, mb_data b)) (number_blocks q ms)"
proof (rule nth_equalityI)
  fix i
  assume "i < length (map (\<lambda>b. (fst b, block_data frame b)) (frame_triples q pos ms))"
  then have i: "i < length ms" by simp
  have "map (block_data frame) (frame_triples q pos ms) ! i = ms ! i"
    using frame_triples_data [OF assms] by simp
  moreover have "map fst (frame_triples q pos ms) ! i = map mb_seq (number_blocks q ms) ! i"
    by (simp only: frame_triples_seq)
  moreover have "map mb_data (number_blocks q ms) ! i = ms ! i" by (simp only: number_blocks_data)
  ultimately show "map (\<lambda>b. (fst b, block_data frame b)) (frame_triples q pos ms) ! i
      = map (\<lambda>b. (mb_seq b, mb_data b)) (number_blocks q ms) ! i"
    using i by simp
qed simp

text \<open>The loops of the two paths over one list of blocks.\<close>

lemma emit_blocks_walk:
  assumes "map (\<lambda>b. (fst b, block_data frame b)) ts = map (\<lambda>b. (mb_seq b, mb_data b)) bs"
    and "av \<longrightarrow> (\<forall>b \<in> set bs. validate (mb_data b) = Inr ())"
    and "emit_blocks frame av gen ts = (n, cs, r)"
  shows "walk_msgs (emit_callback gen) bs st
    = ((fst st + n, snd st @ cs), case r of None \<Rightarrow> Inr () | Some e \<Rightarrow> Inl (Payload e))"
  using assms
proof (induction ts arbitrary: bs st n cs r)
  case Nil
  then show ?case by simp
next
  case (Cons t ts)
  from Cons.prems(1) obtain b bs' where bs: "bs = b # bs'" by (cases bs) auto
  have t: "fst t = mb_seq b" "block_data frame t = mb_data b"
    and rest: "map (\<lambda>b. (fst b, block_data frame b)) ts = map (\<lambda>b. (mb_seq b, mb_data b)) bs'"
    using Cons.prems(1) bs by simp_all
  obtain n' cs' r' where e: "emit_blocks frame av gen ts = (n', cs', r')" by (metis prod_cases3)
  have av: "av \<longrightarrow> validate (mb_data b) = Inr ()" "av \<longrightarrow> (\<forall>b \<in> set bs'. validate (mb_data b) = Inr ())"
    using Cons.prems(2) bs by auto
  show ?case
  proof (cases "validate (mb_data b)")
    case (Inl er)
    then show ?thesis using Cons.prems(3) av t bs by (auto simp: emit_callback_def)
  next
    case (Inr u)
    then have "n = n' + 1" "cs = OnMsg gen (fst t) (block_data frame t) # cs'" "r = r'"
    proof -
      have "(if av then Inr () else validate (block_data frame t)) = Inr ()" using Inr t by simp
      then show "n = n' + 1" "cs = OnMsg gen (fst t) (block_data frame t) # cs'" "r = r'"
        using Cons.prems(3) e by simp_all
    qed
    then show ?thesis
      using Cons.IH [OF rest av(2) e, of "(fst st + 1, snd st @ [OnMsg gen (mb_seq b) (mb_data b)])"] Inr t bs
      by (simp add: emit_callback_def ac_simps)
  qed
qed

lemma stage_blocks_walk:
  assumes "map (\<lambda>b. (fst b, block_data frame b)) ts = map (\<lambda>b. (mb_seq b, mb_data b)) bs"
  shows "walk_msgs (stage_callback cl) bs sq
    = (fst (stage_blocks frame cl ts sq),
       case snd (stage_blocks frame cl ts sq) of None \<Rightarrow> Inr () | Some e \<Rightarrow> Inl (Payload e))"
  using assms
proof (induction ts arbitrary: bs sq)
  case Nil
  then show ?case by simp
next
  case (Cons t ts)
  from Cons.prems obtain b bs' where bs: "bs = b # bs'" by (cases bs) auto
  have t: "fst t = mb_seq b" "block_data frame t = mb_data b"
    and rest: "map (\<lambda>b. (fst b, block_data frame b)) ts = map (\<lambda>b. (mb_seq b, mb_data b)) bs'"
    using Cons.prems bs by simp_all
  show ?case
    using Cons.IH [OF rest] t bs by (cases "validate (mb_data b)") (simp_all add: stage_callback_def)
qed

section \<open>Equality of the paths\<close>

lemma memo_all_valid:
  assumes "memo_ok memo ms" "all_valid memo (length ms)"
  shows "\<forall>m \<in> set ms. validate m = Inr ()"
proof -
  have "length (takeWhile (\<lambda>x. validate x = Inr ()) ms) = length ms"
    using assms by (auto simp: memo_ok_def all_valid_def split: option.splits)
  then have "takeWhile (\<lambda>x. validate x = Inr ()) ms = ms" by (metis takeWhile_eq_take take_all le_refl)
  then show ?thesis by (simp add: takeWhile_eq_all_conv)
qed

lemma map_pair_drop:
  "map f xs = map g ys \<Longrightarrow> map f (drop k xs) = map g (drop k ys)"
  by (simp flip: drop_map)

lemma indexed_contig_classic:
  assumes f: "frame = mold_frame s q c ms" "length s = 10" "length ms = unat c" "length frame < 2 ^ 32"
    "\<forall>m \<in> set ms. length m < 65536" and memo: "memo_ok memo ms"
  shows "indexed_contig False frame q l (frame_triples q 20 ms) memo t sq = apply_contig frame q l c t sq"
proof -
  let ?ts = "frame_triples q 20 ms" and ?bs = "number_blocks q ms"
  let ?skip = "min (unat (sq_w sq - q)) (unat c)" and ?av = "all_valid memo (unat c)"
  obtain n cs r where e: "emit_blocks frame ?av (sq_gen sq) (drop ?skip ?ts) = (n, cs, r)"
    by (metis prod_cases3)
  have eq: "map (\<lambda>b. (fst b, block_data frame b)) ?ts = map (\<lambda>b. (mb_seq b, mb_data b)) ?bs"
    using f by (intro frame_triples_blocks) (simp_all add: drop_header_frame length_frame)
  have "\<forall>b \<in> set (drop ?skip ?bs). validate (mb_data b) = Inr ()" if ?av
  proof
    fix b
    assume "b \<in> set (drop ?skip ?bs)"
    then have "mb_data b \<in> set (map mb_data ?bs)" using set_drop_subset by fastforce
    then show "validate (mb_data b) = Inr ()"
      using memo_all_valid [OF memo] that f(3) by (simp only: number_blocks_data)
  qed
  then have w: "ingest_walk frame q c ?skip (emit_callback (sq_gen sq)) (0, [])
      = ((n, cs), case r of None \<Rightarrow> Inr () | Some e \<Rightarrow> Inl (Payload e))"
    using emit_blocks_walk [OF map_pair_drop [OF eq] _ e, of "(0, [])"]
    unfolding f(1) by (subst ingest_walk_frame) (use f in simp_all)
  show ?thesis using e w f(3)
    by (cases r) (simp_all add: indexed_contig_def apply_contig_def Let_def)
qed

lemma indexed_gap_classic:
  assumes f: "frame = mold_frame s q c ms" "length s = 10" "length ms = unat c" "length frame < 2 ^ 32"
    "\<forall>m \<in> set ms. length m < 65536"
  shows "indexed_gap frame q l (frame_triples q 20 ms) t sq = apply_gap frame q l c t sq"
proof -
  let ?ts = "frame_triples q 20 ms" and ?bs = "number_blocks q ms"
  have eq: "map (\<lambda>b. (fst b, block_data frame b)) ?ts = map (\<lambda>b. (mb_seq b, mb_data b)) ?bs"
    using f by (intro frame_triples_blocks) (simp_all add: drop_header_frame length_frame)
  have w: "ingest_walk frame q c 0 (stage_callback cl) sq1
      = (fst (stage_blocks frame cl ?ts sq1),
         case snd (stage_blocks frame cl ?ts sq1) of None \<Rightarrow> Inr () | Some e \<Rightarrow> Inl (Payload e))" for cl sq1
    using stage_blocks_walk [OF eq, of cl sq1]
    unfolding f(1) by (subst ingest_walk_frame) (use f in simp_all)
  show ?thesis unfolding indexed_gap_def apply_gap_def w
    by (rule arg_cong [where f = "andThen (gap_evidence q sq)"]) (auto split: prod.split option.split)
qed

lemma frame_header_bytes:
  assumes "parse_header frame = Inr h"
  shows "u16_from_be_bytes [frame ! 18, frame ! 19] = hdr_count h" "slice 0 10 frame = hdr_session h"
    "u64_from_be_bytes (slice 10 18 frame) = hdr_seq h"
proof -
  have l: "20 \<le> length frame" using frame_of_header(1) [OF assms] .
  then have "slice 18 20 frame = [frame ! 18, frame ! 19]"
    by (intro nth_equalityI) (auto simp: nth_slice less_Suc_eq numeral_2_eq_2)
  then show "u16_from_be_bytes [frame ! 18, frame ! 19] = hdr_count h" "slice 0 10 frame = hdr_session h"
    "u64_from_be_bytes (slice 10 18 frame) = hdr_seq h"
    using assms l by (auto simp: parse_header_def)
qed

lemma frame_triples_last:
  "ms \<noteq> [] \<Longrightarrow> fst (last (frame_triples q pos ms)) = q + of_nat (length ms - 1)"
proof -
  assume ne: "ms \<noteq> []"
  have ts: "frame_triples q pos ms \<noteq> []" "number_blocks q ms \<noteq> []" using ne by (cases ms; simp)+
  have "fst (last (frame_triples q pos ms)) = last (map fst (frame_triples q pos ms))"
    using ts(1) by (simp add: last_map)
  also have "\<dots> = last (map mb_seq (number_blocks q ms))" by (simp only: frame_triples_seq)
  also have "\<dots> = mb_seq (number_blocks q ms ! (length ms - 1))"
    using last_map [OF ts(2), of mb_seq] last_conv_nth [OF ts(2)] by simp
  also have "\<dots> = q + of_nat (length ms - 1)" using ne by (subst number_blocks_nth) simp_all
  finally show "fst (last (frame_triples q pos ms)) = q + of_nat (length ms - 1)" .
qed

lemma frame_triples_hd: "ms \<noteq> [] \<Longrightarrow> fst (hd (frame_triples q pos ms)) = q"
  by (cases ms) simp_all

lemma indexed_span_classic:
  assumes f: "frame = mold_frame s q c ms" "length s = 10" "length ms = unat c" "length frame < 2 ^ 32"
      "\<forall>m \<in> set ms. length m < 65536"
    and h: "c \<noteq> HEARTBEAT_COUNT" "c \<noteq> EOS_COUNT" "unat q + length ms \<le> 2 ^ 64" and memo: "memo_ok memo ms"
  shows "indexed_span False frame c fd t (frame_triples q 20 ms) memo sq
    = ingest_span frame \<lparr>hdr_session = s, hdr_seq = q, hdr_count = c\<rparr> fd t sq"
proof -
  let ?l = "q + of_nat (length ms - 1)"
  have c0: "0 < unat c" using h(1) by (simp add: unat_gt_0)
  then have ne: "ms \<noteq> []" using f(3) by auto
  have len: "length ms < 65536" using f(3) unat_u16_less [of c] by simp
  have u: "unat (ucast c - 1 :: u64) = unat c - 1" using c0 by (simp add: unat_minus_u64)
  have "(ucast c - 1 :: u64) = of_nat (length ms - 1)" using u f(3) by (metis of_nat_unat ucast_id unat_of_nat_u64 word_unat_eq_iff)
  then have sp: "span \<lparr>hdr_session = s, hdr_seq = q, hdr_count = c\<rparr> = Some (q, ?l)"
    using h c0 f(3) u by (simp add: span_def checked_add64_def)
  have "frame_triples q 20 ms \<noteq> []" using ne by (cases ms) simp_all
  then show ?thesis
    using indexed_contig_classic [OF f memo] indexed_gap_classic [OF f] ne
    by (simp add: indexed_span_def ingest_span_def sp frame_triples_hd frame_triples_last Let_def)
qed

lemma dispatch_same:
  assumes "sq_session sq = s" "s \<noteq> zero_session" "sq_session_live sq"
  shows "dispatch_session s sq = (sq, [])"
  using assms by (simp add: dispatch_session_def session_dispatch_def)

lemma ingest_indexed_eq:
  assumes f: "frame = mold_frame s q c ms" "length s = 10" "length ms = unat c" "length frame < 2 ^ 32"
      "\<forall>m \<in> set ms. length m < 65536"
    and h: "c \<noteq> HEARTBEAT_COUNT" "c \<noteq> EOS_COUNT" "unat q + length ms \<le> 2 ^ 64" and memo: "memo_ok memo ms"
    and tm: "tmpl_ok sq"
  shows "ingest_indexed False frame fd t (frame_triples q 20 ms) memo sq = ingest frame fd t sq"
proof -
  let ?h = "\<lparr>hdr_session = s, hdr_seq = q, hdr_count = c\<rparr>" and ?sq = "count_packet fd (length frame) sq"
  have ph: "parse_header frame = Inr ?h" using f by (simp add: parse_header_frame)
  note hb = frame_header_bytes [OF ph, simplified]
  have kind: "indexed_kind False frame fd t (frame_triples q 20 ms) memo = ingest_kind frame ?h fd t"
    using indexed_span_classic [OF f h memo] h
    by (intro ext) (simp add: indexed_kind_def ingest_kind_def hb Let_def)
  let ?m = "sq_session_live ?sq \<and> u64_from_le_bytes (slice 0 8 frame) = sq_session_lo ?sq
      \<and> u64_from_le_bytes (slice 2 10 frame) = sq_session_hi ?sq"
  have "dispatch_session s ?sq = (?sq, [])" if ?m
  proof -
    have cp: "sq_session ?sq = sq_session sq" "sq_session_live ?sq = sq_session_live sq"
      "sq_session_lo ?sq = sq_session_lo sq" "sq_session_hi ?sq = sq_session_hi sq"
      by (simp_all add: count_packet_def)
    have "slice 0 8 frame = slice 0 8 s" "slice 2 10 frame = slice 2 10 s"
      using f(2) by (simp_all add: f(1) mold_frame_def slice_def)
    then have "s = sq_session sq" using that tm f(2) cp by (intro session_words_inj) (simp_all add: tmpl_ok_def)
    then show ?thesis using tm that cp by (intro dispatch_same) (simp_all add: tmpl_ok_def)
  qed
  then have disp: "(if ?m then (?sq, []) else dispatch_session (slice 0 10 frame) ?sq) = dispatch_session s ?sq"
    using hb(2) by simp
  have l: "\<not> length frame < 20" using frame_of_header(1) [OF ph] by simp
  show ?thesis
    using l ph kind disp by (simp add: ingest_indexed_def ingest_def Let_def)
qed

section \<open>Spans\<close>

text \<open>The messages a span stands for, by the contract of \<open>Sink::on_span\<close>: block \<open>i\<close> of the
  span is the part of the body at its offset from the first block.\<close>

definition expand_span :: "u64 \<Rightarrow> SpanRec \<Rightarrow> SinkCall list" where
  "expand_span g r =
     map (\<lambda>(q, start, end).
            OnMsg g q (slice (unat start - unat (fst (snd (hd (sr_blocks r)))))
                             (unat end - unat (fst (snd (hd (sr_blocks r))))) (sr_body r)))
       (sr_blocks r)"

fun expand :: "SinkCall \<Rightarrow> SinkCall list" where
  "expand (OnSpan g r) = expand_span g r"
| "expand (OnSpanBatch g rs) = concat (map (expand_span g) rs)"
| "expand c = [c]"

definition expand_all :: "SinkCall list \<Rightarrow> SinkCall list" where
  "expand_all cs = concat (map expand cs)"

lemma expand_all_simps [simp]:
  "expand_all [] = []" "expand_all (c # cs) = expand c @ expand_all cs"
  "expand_all (cs @ ds) = expand_all cs @ expand_all ds"
  by (simp_all add: expand_all_def)

fun plain :: "SinkCall \<Rightarrow> bool" where
  "plain (OnMsg g q m) = True" | "plain (OnEvent e) = True" | "plain c = False"

lemma expand_plain: "\<forall>c \<in> set cs. plain c \<Longrightarrow> expand_all cs = cs"
proof (induction cs)
  case Nil
  then show ?case by simp
next
  case (Cons c cs)
  then show ?case by (cases c) simp_all
qed

lemma contig_tail_plain: "\<forall>c \<in> set (snd (contig_tail old l g t sq)). plain c"
  using drain_counted_ctrl [of g t]
  by (auto simp: contig_tail_def Let_def snd_andThen check_gap_close_def) (metis plain.simps(1))+

lemma frame_triples_nth:
  "i < length ms \<Longrightarrow> frame_triples q pos ms ! i =
     (q + of_nat i, of_nat (pos + length (mold_body (take i ms)) + 2),
      of_nat (pos + length (mold_body (take i ms)) + 2 + length (ms ! i)))"
proof (induction ms arbitrary: q pos i)
  case Nil
  then show ?case by simp
next
  case (Cons m ms)
  then show ?case by (cases i) (simp_all add: ac_simps)
qed

lemma mold_body_take_mono:
  "i \<le> j \<Longrightarrow> length (mold_body (take i ms)) \<le> length (mold_body (take j ms))"
proof -
  assume "i \<le> j"
  then have "take j ms = take i ms @ take (j - i) (drop i ms)" by (metis le_add_diff_inverse take_add)
  then show ?thesis by (simp add: mold_body_def)
qed

lemma mold_body_take_Suc:
  "i < length ms \<Longrightarrow> length (mold_body (take (Suc i) ms)) = length (mold_body (take i ms)) + 2 + length (ms ! i)"
  by (simp add: take_Suc_conv_app_nth mold_body_def)

lemma frame_bound:
  assumes "length frame = 20 + length (mold_body ms)" "length frame < 2 ^ 32" "i < length ms"
  shows "unat (fst (snd (frame_triples q 20 ms ! i))) = 20 + length (mold_body (take i ms)) + 2"
    "unat (snd (snd (frame_triples q 20 ms ! i))) = 20 + length (mold_body (take i ms)) + 2 + length (ms ! i)"
    "20 + length (mold_body (take i ms)) + 2 + length (ms ! i) \<le> length frame"
proof -
  have "length (mold_body (take (Suc i) ms)) \<le> length (mold_body (take (length ms) ms))"
    using assms(3) by (intro mold_body_take_mono) simp
  then show b: "20 + length (mold_body (take i ms)) + 2 + length (ms ! i) \<le> length frame"
    using assms(1,3) by (simp add: mold_body_take_Suc)
  show "unat (fst (snd (frame_triples q 20 ms ! i))) = 20 + length (mold_body (take i ms)) + 2"
    "unat (snd (snd (frame_triples q 20 ms ! i))) = 20 + length (mold_body (take i ms)) + 2 + length (ms ! i)"
    unfolding frame_triples_nth [OF assms(3)] fst_conv snd_conv
    by (rule unat_of_nat_u32; use b assms(2) in simp)+
qed

text \<open>The span of the blocks from \<open>k\<close> on expands to their messages.\<close>

lemma expand_span_frame:
  fixes q :: u64
  assumes "length frame = 20 + length (mold_body ms)" "length frame < 2 ^ 32" "k < length ms"
  defines "ts \<equiv> frame_triples q 20 ms"
  shows "expand_span g \<lparr>sr_first_seq = x, sr_count = y,
      sr_body = slice (unat (fst (snd (ts ! k)))) (unat (snd (snd (ts ! (length ms - 1))))) frame,
      sr_blocks = drop k ts\<rparr>
    = map (\<lambda>b. OnMsg g (fst b) (block_data frame b)) (drop k ts)"
proof -
  let ?base = "unat (fst (snd (ts ! k)))" and ?top = "unat (snd (snd (ts ! (length ms - 1))))"
  have len: "length ts = length ms" by (simp add: ts_def)
  have hd: "hd (drop k ts) = ts ! k" using assms(3) len by (simp add: hd_drop_conv_nth)
  have "OnMsg g (fst (ts ! i)) (slice (unat (fst (snd (ts ! i))) - ?base) (unat (snd (snd (ts ! i))) - ?base)
      (slice ?base ?top frame)) = OnMsg g (fst (ts ! i)) (block_data frame (ts ! i))"
    if i: "k \<le> i" "i < length ms" for i
  proof -
    note bi = frame_bound(1,2) [OF assms(1,2) i(2), where q = q, folded ts_def]
    note bk = frame_bound(1,2) [OF assms(1,2,3), where q = q, folded ts_def]
    have last: "length ms - 1 < length ms" using i by simp
    note bl = frame_bound(1,2) [OF assms(1,2) last, where q = q, folded ts_def]
    have 1: "length (mold_body (take k ms)) \<le> length (mold_body (take i ms))"
      using i(1) by (rule mold_body_take_mono)
    have "length (mold_body (take (Suc i) ms)) \<le> length (mold_body (take (Suc (length ms - 1)) ms))"
      using i by (intro mold_body_take_mono) simp
    then have 2: "length (mold_body (take i ms)) + length (ms ! i)
        \<le> length (mold_body (take (length ms - 1) ms)) + length (ms ! (length ms - 1))"
      unfolding mold_body_take_Suc [OF i(2)] mold_body_take_Suc [OF last] by simp
    have "?base \<le> unat (fst (snd (ts ! i)))" "unat (fst (snd (ts ! i))) \<le> unat (snd (snd (ts ! i)))"
      "unat (snd (snd (ts ! i))) \<le> ?top"
      using bi bk bl 1 2 by linarith+
    then show ?thesis by (simp add: slice_slice block_data_def split: prod.split)
  qed
  then show ?thesis
    unfolding expand_span_def SpanRec.simps hd using len assms(3)
    by (intro nth_equalityI) (auto simp: split_beta)
qed

lemma emit_blocks_valid:
  "emit_blocks frame True g ts = (of_nat (length ts), map (\<lambda>b. OnMsg g (fst b) (block_data frame b)) ts, None)"
  by (induction ts) (simp_all add: add.commute)

lemma emit_blocks_plain: "\<forall>c \<in> set (fst (snd (emit_blocks frame av g ts))). plain c"
  by (induction ts) (auto split: sum.split prod.split if_split)

lemma indexed_contig_plain: "\<forall>c \<in> set (snd (indexed_contig False frame q l ts memo t sq)). plain c"
  using emit_blocks_plain [of frame "all_valid memo (length ts)" "sq_gen sq" "drop (min (unat (sq_w sq - q)) (length ts)) ts"]
    contig_tail_plain
  by (auto simp: indexed_contig_def Let_def snd_andThen split: prod.split option.split)

lemma indexed_contig_span:
  fixes q :: u64
  assumes "length frame = 20 + length (mold_body ms)" "length frame < 2 ^ 32"
  defines "ts \<equiv> frame_triples q 20 ms"
  shows "fst (indexed_contig ws frame q l ts memo t sq) = fst (indexed_contig False frame q l ts memo t sq) \<and>
    expand_all (snd (indexed_contig ws frame q l ts memo t sq)) = snd (indexed_contig False frame q l ts memo t sq)"
proof -
  define k where "k = min (unat (sq_w sq - q)) (length ms)"
  have len: "length ts = length ms" by (simp add: ts_def)
  show ?thesis
  proof (cases "all_valid memo (length ms) \<and> ws \<and> k < length ms")
    case False
    have "indexed_contig ws frame q l ts memo t sq = indexed_contig False frame q l ts memo t sq"
      unfolding indexed_contig_def Let_def len k_def [symmetric] by (simp only: False if_False simp_thms)
    then show ?thesis using expand_plain [OF indexed_contig_plain] by simp
  next
    case True
    then have k: "k < length ms" by blast
    define sq2 where "sq2 = count_emitted (of_nat (length ms - k))
      (if k \<noteq> 0 then count_dup_msgs (of_nat k) sq else sq)"
    let ?r = "\<lparr>sr_first_seq = q + of_nat k, sr_count = of_nat (length ms - k),
      sr_body = slice (unat (fst (snd (ts ! k)))) (unat (snd (snd (ts ! (length ms - 1))))) frame,
      sr_blocks = drop k ts\<rparr>"
    let ?tail = "\<lambda>s. andThen (contig_tail (sq_w sq) l (sq_gen sq) t s) (\<lambda>s. (retire_pending s, []))"
    have span: "indexed_contig ws frame q l ts memo t sq = andThen (sq2, [OnSpan (sq_gen sq) ?r]) ?tail"
      unfolding indexed_contig_def Let_def len k_def [symmetric] sq2_def if_P [OF True] ..
    have msgs: "indexed_contig False frame q l ts memo t sq
        = andThen (sq2, map (\<lambda>b. OnMsg (sq_gen sq) (fst b) (block_data frame b)) (drop k ts)) ?tail"
      unfolding indexed_contig_def Let_def len k_def [symmetric] sq2_def
      using True by (simp add: emit_blocks_valid len del: andThen_simps)
    note ex = expand_span_frame [OF assms(1,2) k, where q = q and g = "sq_gen sq" and x = "q + of_nat k"
        and y = "of_nat (length ms - k)", folded ts_def]
    have "\<forall>c \<in> set (snd (?tail sq2)). plain c" using contig_tail_plain by (simp add: snd_andThen)
    then have tail: "expand_all (snd (?tail sq2)) = snd (?tail sq2)" by (rule expand_plain)
    show ?thesis unfolding span msgs using ex tail by simp
  qed
qed

text \<open>Two steps with the same state and the same messages.\<close>

definition same_out :: "step \<Rightarrow> step \<Rightarrow> bool" where
  "same_out a b \<longleftrightarrow> fst a = fst b \<and> expand_all (snd a) = snd b"

lemma same_out_refl: "\<forall>c \<in> set (snd a). plain c \<Longrightarrow> same_out a a"
  by (simp add: same_out_def expand_plain)

lemma same_out_andThen:
  "same_out a b \<Longrightarrow> (\<And>s. same_out (f s) (g s)) \<Longrightarrow> same_out (andThen a f) (andThen b g)"
  by (simp add: same_out_def fst_andThen snd_andThen)

lemma plain_andThen:
  "\<forall>c \<in> set (snd a). plain c \<Longrightarrow> (\<And>s. \<forall>c \<in> set (snd (f s)). plain c) \<Longrightarrow> \<forall>c \<in> set (snd (andThen a f)). plain c"
  by (auto simp: snd_andThen)

lemma gap_evidence_plain: "\<forall>c \<in> set (snd (gap_evidence x sq)). plain c"
  by (simp add: gap_evidence_def Let_def)

lemma drain_counted_plain: "\<forall>c \<in> set (snd (drain_counted g t sq)). plain c"
  using drain_counted_ctrl [of g t sq] plain.simps(1) by metis

lemma gap_tail_plain: "\<forall>c \<in> set (snd (gap_tail l t sq)). plain c"
  unfolding gap_tail_def Let_def
  by (intro plain_andThen drain_counted_plain) (simp add: check_gap_close_def)

lemma indexed_gap_plain: "\<forall>c \<in> set (snd (indexed_gap frame q l ts t sq)). plain c"
  unfolding indexed_gap_def
  by (intro plain_andThen gap_evidence_plain)
    (auto simp: snd_andThen gap_tail_plain [THEN bspec] split: prod.split option.split)

lemma control_plain:
  "\<forall>c \<in> set (snd (handle_heartbeat q t sq)). plain c" "\<forall>c \<in> set (snd (eos_packet h sq)). plain c"
  "\<forall>c \<in> set (snd (dispatch_session s sq)). plain c"
  using gap_evidence_plain
  by (simp_all add: handle_heartbeat_def eos_packet_def handle_eos_def end_session_def
      dispatch_session_def session_dispatch_def Let_def split: State.split)

lemma ingest_indexed_same_out:
  assumes f: "frame = mold_frame s q c ms" "length s = 10" "length frame < 2 ^ 32"
  shows "same_out (ingest_indexed ws frame fd t (frame_triples q 20 ms) memo sq)
    (ingest_indexed False frame fd t (frame_triples q 20 ms) memo sq)"
proof -
  let ?ts = "frame_triples q 20 ms"
  have len: "length frame = 20 + length (mold_body ms)" using f by (simp add: length_frame)
  have contig: "same_out (indexed_contig ws frame q l ?ts memo t sq) (indexed_contig False frame q l ?ts memo t sq)"
    for l sq
    using indexed_contig_span [OF len f(3)] by (simp add: same_out_def)
  have span: "same_out (indexed_span ws frame h fd t ?ts memo sq) (indexed_span False frame h fd t ?ts memo sq)"
    for h sq
  proof (cases "ms = []")
    case True
    then show ?thesis by (simp add: indexed_span_def same_out_def)
  next
    case False
    then show ?thesis
      using contig same_out_refl [OF indexed_gap_plain]
      by (simp add: indexed_span_def frame_triples_hd Let_def same_out_refl)
  qed
  have kind: "same_out (indexed_kind ws frame fd t ?ts memo sq) (indexed_kind False frame fd t ?ts memo sq)" for sq
    using span same_out_refl [OF control_plain(1)] same_out_refl [OF control_plain(2)]
    by (simp add: indexed_kind_def Let_def same_out_refl)
  show ?thesis
    unfolding ingest_indexed_def Let_def
    using kind same_out_refl [OF control_plain(3)]
    by (auto simp: same_out_refl intro!: same_out_andThen)
qed

text \<open>The classic path only makes \<open>on_msg\<close> and \<open>on_event\<close> calls.\<close>

lemma apply_contig_plain: "\<forall>c \<in> set (snd (apply_contig frame q l n t sq)). plain c"
proof -
  obtain k cs r where w: "ingest_walk frame q n (min (unat (sq_w sq - q)) (unat n)) (emit_callback (sq_gen sq)) (0, [])
      = ((k, cs), r)" by (metis surj_pair)
  then have "\<forall>c \<in> set cs. plain c" using emit_walk_msgs [OF w] plain.simps(1) by metis
  then show ?thesis using w contig_tail_plain
    by (auto simp: apply_contig_def Let_def snd_andThen split: sum.split)
qed

lemma apply_gap_plain: "\<forall>c \<in> set (snd (apply_gap frame q l n t sq)). plain c"
  unfolding apply_gap_def
  by (intro plain_andThen gap_evidence_plain)
    (auto simp: snd_andThen gap_tail_plain [THEN bspec] split: prod.split sum.split)

lemma ingest_plain: "\<forall>c \<in> set (snd (ingest frame fd t sq)). plain c"
proof -
  have "\<forall>c \<in> set (snd (ingest_span frame h fd t s)). plain c" for h s
    by (simp add: ingest_span_def Let_def apply_contig_plain apply_gap_plain split: option.split)
  then have "\<forall>c \<in> set (snd (ingest_kind frame h fd t s)). plain c" for h s
    using control_plain(1,2) by (simp add: ingest_kind_def)
  then show ?thesis
    unfolding ingest_def Let_def using control_plain(3)
    by (auto split: sum.split intro!: plain_andThen simp del: andThen_simps) (auto simp: snd_andThen)
qed

section \<open>The session template\<close>

definition tmpl :: "Sequencer \<Rightarrow> SessionId \<times> u64 \<times> u64 \<times> bool" where
  "tmpl sq = (sq_session sq, sq_session_lo sq, sq_session_hi sq, sq_session_live sq)"

lemma tmpl_ok_cong: "tmpl sq' = tmpl sq \<Longrightarrow> tmpl_ok sq' = tmpl_ok sq"
  by (simp add: tmpl_def tmpl_ok_def)

lemma ctrl_tmpl: "ctrl sq' = ctrl sq \<Longrightarrow> tmpl sq' = tmpl sq"
  unfolding ctrl_def outside_def tmpl_def by (cases sq; cases sq'; simp)

lemma tmpl_upd [simp]:
  "tmpl (sq\<lparr>sq_w := a1\<rparr>) = tmpl sq" "tmpl (sq\<lparr>sq_gen := a2\<rparr>) = tmpl sq"
  "tmpl (sq\<lparr>sq_state := a3\<rparr>) = tmpl sq" "tmpl (sq\<lparr>sq_evidence_hwm := a4\<rparr>) = tmpl sq"
  "tmpl (sq\<lparr>sq_max_staged := a5\<rparr>) = tmpl sq" "tmpl (sq\<lparr>sq_staged_count := a6\<rparr>) = tmpl sq"
  "tmpl (sq\<lparr>sq_progress_vt := a7\<rparr>) = tmpl sq" "tmpl (sq\<lparr>sq_hb_seq := a8\<rparr>) = tmpl sq"
  "tmpl (sq\<lparr>sq_hb_vt := a9\<rparr>) = tmpl sq" "tmpl (sq\<lparr>sq_pending_to := b1\<rparr>) = tmpl sq"
  "tmpl (sq\<lparr>sq_counters := b2\<rparr>) = tmpl sq" "tmpl (sq\<lparr>sq_lens := b3\<rparr>) = tmpl sq"
  "tmpl (sq\<lparr>sq_gap_active := b4\<rparr>) = tmpl sq"
  by (simp_all add: tmpl_def)

lemma tmpl_control:
  "tmpl (fst (gap_evidence x sq)) = tmpl sq" "tmpl (fst (check_gap_close g sq)) = tmpl sq"
  "tmpl (fst (handle_heartbeat q t sq)) = tmpl sq" "tmpl (fst (eos_packet h sq)) = tmpl sq"
  "tmpl (retire_pending sq) = tmpl sq" "tmpl (anchor q t sq) = tmpl sq"
  by (simp_all add: gap_evidence_def check_gap_close_def handle_heartbeat_def eos_packet_def handle_eos_def
      end_session_def retire_pending_def anchor_def Let_def split: State.split option.split)

lemma tmpl_counting:
  "tmpl (count_packet fd l sq) = tmpl sq" "tmpl (violate u sq) = tmpl sq"
  "tmpl (count_emitted n sq) = tmpl sq" "tmpl (count_dup_msgs n sq) = tmpl sq"
  "tmpl (refuse_after_eos sq) = tmpl sq" "tmpl (count_duplicate fd n sq) = tmpl sq"
  by (rule ctrl_tmpl, simp)+

lemma tmpl_window: "tmpl (fst (drain_counted g t sq)) = tmpl sq" "tmpl (clear_slots a b sq) = tmpl sq"
  by (rule ctrl_tmpl, simp add: drain_counted_ctrl clear_slots_ctrl)+

lemma tmpl_andThen:
  "tmpl (fst a) = tmpl sq \<Longrightarrow> (\<And>s. tmpl (fst (f s)) = tmpl s) \<Longrightarrow> tmpl (fst (andThen a f)) = tmpl sq"
  by (simp add: fst_andThen)

lemma tmpl_tails:
  "tmpl (fst (contig_tail old l g t sq)) = tmpl sq" "tmpl (fst (gap_tail l t sq)) = tmpl sq"
proof -
  define sq3 where "sq3 = (let sq1 = sq\<lparr>sq_w := l + 1\<rparr> in
    (if sq_staged_count sq1 \<noteq> 0 \<and> sq_mutation sq1 \<noteq> DisableClearOnAdvance
     then clear_slots old (sq_w sq1) sq1 else sq1)\<lparr>sq_progress_vt := t\<rparr>)"
  have sq3: "tmpl sq3 = tmpl sq" by (simp add: sq3_def Let_def tmpl_window)
  have "contig_tail old l g t sq = andThen (if sq_staged_count sq3 \<noteq> 0 then drain_counted g t sq3 else (sq3, []))
      (\<lambda>sq4. if sq_gap_active sq4 then check_gap_close g sq4 else (sq4, []))"
    unfolding contig_tail_def sq3_def Let_def ..
  then show "tmpl (fst (contig_tail old l g t sq)) = tmpl sq"
    using sq3 by (simp only:, intro tmpl_andThen) (simp_all add: tmpl_window tmpl_control)
  show "tmpl (fst (gap_tail l t sq)) = tmpl sq"
    unfolding gap_tail_def Let_def by (intro tmpl_andThen) (simp_all add: tmpl_window tmpl_control)
qed

lemma tmpl_apply:
  "tmpl (fst (apply_contig frame q l c t sq)) = tmpl sq" "tmpl (fst (apply_gap frame q l c t sq)) = tmpl sq"
proof -
  show "tmpl (fst (apply_contig frame q l c t sq)) = tmpl sq"
    by (auto simp: apply_contig_def Let_def fst_andThen tmpl_tails tmpl_counting tmpl_control
        split: prod.split sum.split)
  have "tmpl sq2 = tmpl sq1" if "ingest_walk frame q c 0 (stage_callback cl) sq1 = (sq2, r)" for cl sq1 sq2 r
    using stage_walk_ctrl [OF that] ctrl_tmpl by blast
  then show "tmpl (fst (apply_gap frame q l c t sq)) = tmpl sq"
    by (auto simp: apply_gap_def fst_andThen tmpl_tails tmpl_counting tmpl_control
        split: prod.split sum.split)
qed

lemma dispatch_tmpl_ok: "length s = 10 \<Longrightarrow> tmpl_ok sq \<Longrightarrow> tmpl_ok (fst (dispatch_session s sq))"
  by (auto simp: dispatch_session_def session_dispatch_def refresh_session_tmpl_def tmpl_ok_def Let_def)

lemma ingest_tmpl_ok: "tmpl_ok sq \<Longrightarrow> tmpl_ok (fst (ingest frame fd t sq))"
proof -
  assume ok: "tmpl_ok sq"
  have span: "tmpl (fst (ingest_span frame h fd t s)) = tmpl s" for h s
    by (simp add: ingest_span_def Let_def tmpl_apply tmpl_counting tmpl_control split: option.split)
  have kind: "tmpl (fst (ingest_kind frame h fd t s)) = tmpl s" for h s
    by (simp add: ingest_kind_def span tmpl_counting tmpl_control)
  have "length (hdr_session h) = 10" if "parse_header frame = Inr h" for h
    using that by (auto simp: parse_header_def split: if_splits)
  moreover have c: "tmpl_ok (count_packet fd (length frame) sq)"
    using ok tmpl_ok_cong [OF tmpl_counting(1)] by simp
  moreover have "tmpl_ok (violate u (count_packet fd (length frame) sq))" for u
    using c tmpl_ok_cong [OF tmpl_counting(2)] by simp
  moreover have "tmpl_ok (count u (count_packet fd (length frame) sq))" for u
    using c by (simp add: tmpl_ok_def)
  moreover have "tmpl_ok s \<Longrightarrow> tmpl_ok (fst (ingest_kind frame h fd t s))" for h s
    using tmpl_ok_cong [OF kind] by simp
  ultimately show ?thesis
    by (simp add: ingest_def Let_def fst_andThen dispatch_tmpl_ok split: sum.split)
qed

lemma new_tmpl_ok: "tmpl_ok Sequencer_new_unboxed"
  by (simp add: tmpl_ok_def Sequencer_new_unboxed_def zero_session_def)

section \<open>Properties\<close>

text \<open>A data packet as a publisher renders it.\<close>

definition packet_ok :: "SessionId \<Rightarrow> u64 \<Rightarrow> u16 \<Rightarrow> bytes list \<Rightarrow> bool" where
  "packet_ok s q c ms \<longleftrightarrow> length s = 10 \<and> length ms = unat c \<and> c \<noteq> HEARTBEAT_COUNT \<and> c \<noteq> EOS_COUNT \<and>
     unat q + length ms \<le> 2 ^ 64 \<and> list_all (\<lambda>m. length m < 65536) ms \<and>
     length (mold_frame s q c ms) < 2 ^ 32"

lemma packet_okD:
  assumes "packet_ok s q c ms"
  shows "length s = 10" "length ms = unat c" "c \<noteq> 0" "c \<noteq> 65535" "unat q + length ms \<le> 2 ^ 64"
    "\<forall>m \<in> set ms. length m < 65536" "length (mold_frame s q c ms) < 2 ^ 32" "ms \<noteq> []"
    "0 < length ms" "length ms < 65535"
proof -
  show c: "c \<noteq> 0" "c \<noteq> 65535" and l: "length ms = unat c"
    using assms by (simp_all add: packet_ok_def)
  from c(1) l show "0 < length ms" by (simp add: unat_gt_0)
  then show "ms \<noteq> []" by simp
  have "unat c \<noteq> 65535" using c(2) by (auto simp: word_unat_eq_iff)
  then show "length ms < 65535" using l unat_u16_less [of c] by simp
qed (use assms in \<open>simp_all add: packet_ok_def list_all_iff\<close>)

lemma ingest_auto_packet:
  assumes "packet_ok s q c ms" "memo_ok memo ms" "tmpl_ok sq"
  shows "same_out (ingest_auto ws (mold_frame s q c ms) fd t (frame_triples q 20 ms) memo sq)
    (ingest (mold_frame s q c ms) fd t sq)"
proof -
  note ok = packet_okD [OF assms(1)]
  have "frame_triples q 20 ms \<noteq> []" using ok(8) by (cases ms) simp_all
  moreover have "ingest_indexed False (mold_frame s q c ms) fd t (frame_triples q 20 ms) memo sq
      = ingest (mold_frame s q c ms) fd t sq"
    using ok assms(2,3) by (intro ingest_indexed_eq) simp_all
  ultimately show ?thesis
    using ingest_indexed_same_out [OF refl ok(1,7), of ws fd t memo sq] by (simp add: ingest_auto_def)
qed

text \<open>C10: the indexed path is the classic path.  For every data packet, with valid payloads
  or not, an absent or exact validation memo, and any sequencer state whose template words
  belong to its session, \<open>ingest_auto\<close> on the packet's block triples leaves exactly the state
  \<open>ingest\<close> leaves, counters, window and all, and makes the same sink calls, where a span it
  emits counts as the messages it stands for.\<close>

theorem indexed_ingest_classic:
  assumes "packet_ok s q c ms" and "memo_ok memo ms" and "tmpl_ok sq"
  shows "fst (ingest_auto wants_spans (mold_frame s q c ms) fd now_ns (frame_triples q 20 ms) memo sq)
      = fst (ingest (mold_frame s q c ms) fd now_ns sq) \<and>
    expand_all (snd (ingest_auto wants_spans (mold_frame s q c ms) fd now_ns (frame_triples q 20 ms) memo sq))
      = snd (ingest (mold_frame s q c ms) fd now_ns sq)"
  using ingest_auto_packet [OF assms] by (simp add: same_out_def)

lemma sample_packet_ok: "packet_ok sample_session 5 2 [sample_msg, [83]]"
  by (simp add: packet_ok_def sample_session_def sample_msg_def mold_frame_def mold_body_def mold_block_def)

lemma indexed_ingest_classic_witness:
  "fst (ingest_auto True (mold_frame sample_session 5 2 [sample_msg, [83]]) 1 7
        (frame_triples 5 20 [sample_msg, [83]]) (Some \<lparr>fm_valid_count = 1\<rparr>) Sequencer_new_unboxed)
      = fst (ingest (mold_frame sample_session 5 2 [sample_msg, [83]]) 1 7 Sequencer_new_unboxed)"
proof -
  have "memo_ok (Some \<lparr>fm_valid_count = 1\<rparr>) [sample_msg, [83]]"
    by (simp add: memo_ok_def sample_msg_def ITCH_LENGTH_def length_table_def)
  from indexed_ingest_classic [OF sample_packet_ok this new_tmpl_ok] show ?thesis by blast
qed

end
