(* ===== verification/Soa.thy ===== *)
theory Soa
  imports Packet
begin

text \<open>
  The eight-entry watermark ladder.  \<open>crates/nf-protocol/src/packet.rs\<close> states the contract
  of a \<open>SoaLadder8\<close> kernel; \<open>crates/nf-testkit/src/soa.rs\<close> holds the scalar kernel and the
  AVX-512 one, modelled lane by lane.  The two pointers of a kernel are the lists of the
  eight lanes they point to.  Locale \<open>soa_ladder\<close> is the contract; both kernels are
  interpreted in it, and inside it the relations are turned into the fact the scan needs:
  the running watermark at every lane.
\<close>

section \<open>The kernels\<close>

fun ladder8_pairs :: "u64 list \<Rightarrow> u64 list \<Rightarrow> nat \<Rightarrow> nat \<Rightarrow> bool" where
  "ladder8_pairs firsts ns i 0 = True"
| "ladder8_pairs firsts ns i (Suc fuel) =
     (if firsts ! (2 * i + 1) \<noteq> firsts ! (2 * i) then False
      else if ns ! (2 * i) < ns ! (2 * i + 1) then False
      else if i < 3 \<and> firsts ! (2 * i + 2) \<noteq> firsts ! (2 * i) + ns ! (2 * i) then False
      else ladder8_pairs firsts ns (i + 1) fuel)"

definition ladder8_scalar :: SoaLadder8 where
  "ladder8_scalar firsts ns w =
     (if firsts ! 0 \<noteq> w then False
      else let total = ns ! 0 + ns ! 2 + ns ! 4 + ns ! 6 in
      if - 1 - total < firsts ! 0 then False
      else ladder8_pairs firsts ns 0 4)"

definition ladder8_scalar_ptr :: SoaLadder8 where
  "ladder8_scalar_ptr firsts ns w = ladder8_scalar (take 8 firsts) (take 8 ns) w"

text \<open>Eight 64-bit lanes of a vector register, lane 0 first; a compare yields a mask with
  bit \<open>i\<close> for lane \<open>i\<close>.\<close>

definition mm512_permutexvar_epi64 :: "nat list \<Rightarrow> u64 list \<Rightarrow> u64 list" where
  "mm512_permutexvar_epi64 idx a = map (\<lambda>i. a ! (i mod 8)) idx"

fun lane_mask :: "bool list \<Rightarrow> u8" where
  "lane_mask [] = 0"
| "lane_mask (b # bs) = (if b then 1 else 0) + 2 * lane_mask bs"

definition mm512_cmpeq_epu64_mask :: "u64 list \<Rightarrow> u64 list \<Rightarrow> u8" where
  "mm512_cmpeq_epu64_mask a b = lane_mask (map2 (=) a b)"

definition mm512_cmple_epu64_mask :: "u64 list \<Rightarrow> u64 list \<Rightarrow> u8" where
  "mm512_cmple_epu64_mask a b = lane_mask (map2 (\<le>) a b)"

definition mm512_add_epi64 :: "u64 list \<Rightarrow> u64 list \<Rightarrow> u64 list" where
  "mm512_add_epi64 a b = map2 (+) a b"

definition mm512_mask_add_epi64 :: "u64 list \<Rightarrow> u8 \<Rightarrow> u64 list \<Rightarrow> u64 list \<Rightarrow> u64 list" where
  "mm512_mask_add_epi64 src k a b = map (\<lambda>i. if bit k i then a ! i + b ! i else src ! i) [0 ..< 8]"

definition mm512_reduce_add_epi64 :: "u64 list \<Rightarrow> u64" where
  "mm512_reduce_add_epi64 a = sum_list a"

definition ladder8_avx512 :: SoaLadder8 where
  "ladder8_avx512 firsts ns w =
     (let vf = take 8 firsts; vn = take 8 ns; f0 = vf ! 0 in
      if f0 \<noteq> w then False
      else let zero = replicate 8 0;
               even_only = mm512_mask_add_epi64 zero 0x55 vn zero;
               sum_even = mm512_reduce_add_epi64 even_only
      in if sum_even \<noteq> 0 \<and> - 1 - sum_even < f0 then False
      else let swidx = [1, 0, 3, 2, 5, 4, 7, 6];
               vf_sw = mm512_permutexvar_epi64 swidx vf;
               pair_eq = mm512_cmpeq_epu64_mask vf vf_sw;
               nxidx = [2, 3, 4, 5, 6, 7, 0, 1];
               vf_nx = mm512_permutexvar_epi64 nxidx vf;
               vf_sum = mm512_add_epi64 vf vn;
               chain = mm512_cmpeq_epu64_mask vf_nx vf_sum;
               vn_sw = mm512_permutexvar_epi64 swidx vn;
               dup_le = mm512_cmple_epu64_mask vn vn_sw
      in pair_eq = 0xFF \<and> chain AND 0x15 = 0x15 \<and> dup_le AND 0xAA = 0xAA)"

text \<open>The kernels a caller can install: none, the scalar reference, the vector kernel;
  \<open>ladder8_best\<close> picks from them by an environment variable and the processor.\<close>

definition ladder_kernels :: "SoaLadder8 option list" where
  "ladder_kernels = [None, Some ladder8_scalar_ptr, Some ladder8_avx512]"

section \<open>The contract\<close>

text \<open>The relations of the contract: anchor, pair equality, pure duplicates, chain, and no
  overflow of the watermark.\<close>

definition ladder_relations :: "u64 list \<Rightarrow> u64 list \<Rightarrow> u64 \<Rightarrow> bool" where
  "ladder_relations firsts ns w \<longleftrightarrow>
     firsts ! 0 = w \<and>
     firsts ! 0 \<le> - 1 - (ns ! 0 + ns ! 2 + ns ! 4 + ns ! 6) \<and>
     list_all (\<lambda>i. firsts ! (2 * i + 1) = firsts ! (2 * i) \<and> ns ! (2 * i + 1) \<le> ns ! (2 * i)) [0, 1, 2, 3] \<and>
     list_all (\<lambda>i. firsts ! (2 * i + 2) = firsts ! (2 * i) + ns ! (2 * i)) [0, 1, 2]"

locale soa_ladder =
  fixes ladder8 :: SoaLadder8
  assumes exact: "length firsts = 8 \<Longrightarrow> length ns = 8 \<Longrightarrow> ladder8 firsts ns w = ladder_relations firsts ns w"
begin

text \<open>Group acceptance decides the eight lanes: an even lane starts at the running watermark,
  the odd lane after it ends below the watermark the even lane leaves.\<close>

lemma even_lanes:
  assumes "length firsts = 8" "length ns = 8" "ladder8 firsts ns w"
  shows "firsts ! 0 = w" "firsts ! 2 = w + ns ! 0" "firsts ! 4 = w + ns ! 0 + ns ! 2"
    "firsts ! 6 = w + ns ! 0 + ns ! 2 + ns ! 4"
  using assms(3) unfolding exact [OF assms(1,2)] ladder_relations_def by (simp_all add: numeral_eq_Suc)

lemma odd_lanes:
  assumes "length firsts = 8" "length ns = 8" "ladder8 firsts ns w"
  shows "firsts ! 1 = firsts ! 0 \<and> ns ! 1 \<le> ns ! 0" "firsts ! 3 = firsts ! 2 \<and> ns ! 3 \<le> ns ! 2"
    "firsts ! 5 = firsts ! 4 \<and> ns ! 5 \<le> ns ! 4" "firsts ! 7 = firsts ! 6 \<and> ns ! 7 \<le> ns ! 6"
  using assms(3) unfolding exact [OF assms(1,2)] ladder_relations_def by (simp_all add: numeral_eq_Suc)

end

section \<open>Both kernels meet it\<close>

lemma lane_mask_all: "lane_mask [a, b, c, d, e, f, g, h] = 0xFF \<longleftrightarrow> a \<and> b \<and> c \<and> d \<and> e \<and> f \<and> g \<and> h"
  by (cases a; cases b; cases c; cases d; cases e; cases f; cases g; cases h; simp)

lemma lane_mask_chain: "lane_mask [a, b, c, d, e, f, g, h] AND 0x15 = 0x15 \<longleftrightarrow> a \<and> c \<and> e"
  by (cases a; cases b; cases c; cases d; cases e; cases f; cases g; cases h; simp)

lemma lane_mask_odd: "lane_mask [a, b, c, d, e, f, g, h] AND 0xAA = 0xAA \<longleftrightarrow> b \<and> d \<and> f \<and> h"
  by (cases a; cases b; cases c; cases d; cases e; cases f; cases g; cases h; simp)

lemma length_8E:
  assumes "length xs = 8"
  obtains a b c d e f g h where "xs = [a, b, c, d, e, f, g, h]"
  using assms by (auto simp: numeral_eq_Suc length_Suc_conv)

lemma ladder8_scalar_relations:
  assumes "length firsts = 8" "length ns = 8"
  shows "ladder8_scalar firsts ns w = ladder_relations firsts ns w"
  using assms
  by (auto simp: ladder8_scalar_def ladder_relations_def Let_def numeral_eq_Suc not_less)

lemma ladder8_avx512_relations:
  assumes "length firsts = 8" "length ns = 8"
  shows "ladder8_avx512 firsts ns w = ladder_relations firsts ns w"
proof -
  obtain f0 f1 f2 f3 f4 f5 f6 f7 where f: "firsts = [f0, f1, f2, f3, f4, f5, f6, f7]"
    using assms(1) by (rule length_8E)
  obtain n0 n1 n2 n3 n4 n5 n6 n7 where n: "ns = [n0, n1, n2, n3, n4, n5, n6, n7]"
    using assms(2) by (rule length_8E)
  have b: "bit (0x55 :: u8) 0" "\<not> bit (0x55 :: u8) 1" "bit (0x55 :: u8) 2" "\<not> bit (0x55 :: u8) 3"
    "bit (0x55 :: u8) 4" "\<not> bit (0x55 :: u8) 5" "bit (0x55 :: u8) 6" "\<not> bit (0x55 :: u8) 7"
    by simp_all
  have up: "[0 ..< 8] = [0, 1, 2, 3, 4, 5, 6, 7 :: nat]" by (simp add: upt_rec)
  have s: "mm512_reduce_add_epi64 (mm512_mask_add_epi64 (replicate 8 0) 0x55 ns (replicate 8 0))
      = n0 + n2 + n4 + n6"
    unfolding mm512_reduce_add_epi64_def mm512_mask_add_epi64_def up n list.map
    by (simp only: b if_True if_False) (simp add: numeral_eq_Suc)
  have t: "take 8 firsts = firsts" "take 8 ns = ns" using assms by simp_all
  have guard: "(t \<noteq> 0 \<and> - 1 - t < x) = (- 1 - t < x)" for t x :: u64
    by (auto simp: not_less)
  show ?thesis
    unfolding ladder8_avx512_def t Let_def s guard
    by (simp add: f n mm512_permutexvar_epi64_def mm512_cmpeq_epu64_mask_def mm512_cmple_epu64_mask_def
        mm512_add_epi64_def ladder_relations_def lane_mask_all lane_mask_chain lane_mask_odd
        not_less del: lane_mask.simps) (auto)
qed

interpretation scalar8: soa_ladder ladder8_scalar
  by unfold_locales (rule ladder8_scalar_relations)

interpretation scalar_ptr8: soa_ladder ladder8_scalar_ptr
  by unfold_locales (simp add: ladder8_scalar_ptr_def ladder8_scalar_relations)

interpretation vector8: soa_ladder ladder8_avx512
  by unfold_locales (rule ladder8_avx512_relations)

text \<open>the AVX-512 ladder kernel, lane permutes, masked sums and mask compares included,
  decides every group exactly as the scalar reference ladder, and both decide it as the
  \<open>SoaLadder8\<close> contract says, for all values of the sixteen lanes and the watermark.\<close>

theorem ladder_kernels_agree:
  assumes "length firsts = 8" and "length ns = 8"
  shows "ladder8_avx512 firsts ns w = ladder8_scalar firsts ns w \<and>
    ladder8_avx512 firsts ns w = ladder_relations firsts ns w"
  using vector8.exact [OF assms] scalar8.exact [OF assms] by simp

lemma ladder_kernels_agree_witness:
  "ladder8_avx512 [100, 100, 110, 110, 130, 130, 160, 160] [10, 10, 20, 20, 30, 30, 40, 40] 100
    = ladder8_scalar [100, 100, 110, 110, 130, 130, 160, 160] [10, 10, 20, 20, 30, 30, 40, 40] 100"
  by (rule conjunct1 [OF ladder_kernels_agree]) simp_all

end
