(* ===== verification/Batch.thy ===== *)
theory Batch
  imports Sequencer Soa
begin

text \<open>
  The batched apply path of \<open>crates/nf-arbitrator/src/lib.rs\<close>: the per-entry steady ladder
  \<open>steady_step\<close>, the three scan drivers, the two group fast paths, and the drivers
  \<open>ingest_batch\<close>, \<open>ingest_entries\<close> and \<open>ingest_entries_ladder\<close>.  The trait \<open>SpanEmit\<close> is a
  record of its operations, with the two emitters of the source as its values.  What a scan
  keeps in local variables (watermark, deferred counters, emitter) is the record \<open>Scan\<close>,
  together with the sink calls made so far.  A position in the entry slice is the suffix of
  the list from that position on.
\<close>

section \<open>Span emitters\<close>

abbreviation (input) STEADY_RECS :: nat where "STEADY_RECS \<equiv> 32"

record 'e SpanEmit =
  se_new :: 'e
  se_push :: "u64 \<Rightarrow> u16 \<Rightarrow> u64 \<Rightarrow> bytes \<Rightarrow> BlockTriple list \<Rightarrow> 'e \<Rightarrow> 'e"
  se_is_full :: "'e \<Rightarrow> bool"
  se_flush :: "u64 \<Rightarrow> 'e \<Rightarrow> 'e \<times> SinkCall list"

text \<open>\<open>push\<close> takes the body slice as its address and its bytes.  The buffer of \<open>RecEmitter\<close> is
  \<open>recs[..n]\<close>; the scan flushes when it is full, so \<open>n\<close> stays in bounds (theory BatchLaw).\<close>

type_synonym RecEmitter = "SpanRec list"

definition rec_emitter :: "RecEmitter SpanEmit" where
  "rec_emitter =
     \<lparr>se_new = [],
      se_push = (\<lambda>first_seq cnt ptr body blocks recs.
        recs @ [\<lparr>sr_first_seq = first_seq, sr_count = cnt, sr_body = body, sr_blocks = blocks\<rparr>]),
      se_is_full = (\<lambda>recs. length recs = STEADY_RECS),
      se_flush = (\<lambda>gen recs. if recs \<noteq> [] then ([], [OnSpanBatch gen recs]) else (recs, []))\<rparr>"

record PackedEmitter =
  pe_words :: "u64 list"
  pe_base :: u64
  pe_first0 :: u64
  pe_total :: u64

definition packed_push ::
    "u64 \<Rightarrow> u16 \<Rightarrow> u64 \<Rightarrow> bytes \<Rightarrow> BlockTriple list \<Rightarrow> PackedEmitter \<Rightarrow> PackedEmitter" where
  "packed_push first_seq cnt ptr body blocks em =
     (let em1 = (if pe_words em = [] then em\<lparr>pe_base := ptr, pe_first0 := first_seq\<rparr> else em);
          off = ptr - pe_base em1;
          word = off OR push_bit 32 (of_nat (length body)) OR push_bit 48 (ucast cnt)
      in em1\<lparr>pe_words := pe_words em1 @ [word], pe_total := pe_total em1 + ucast cnt\<rparr>)"

definition packed_flush :: "u64 \<Rightarrow> PackedEmitter \<Rightarrow> PackedEmitter \<times> SinkCall list" where
  "packed_flush gen em =
     (if pe_words em \<noteq> [] then
        (em\<lparr>pe_words := [], pe_total := 0\<rparr>,
         [OnSpanBatchPacked gen (pe_first0 em) (pe_total em) (pe_base em) (pe_words em)])
      else (em, []))"

definition packed_emitter :: "PackedEmitter SpanEmit" where
  "packed_emitter =
     \<lparr>se_new = \<lparr>pe_words = [], pe_base = 0, pe_first0 = 0, pe_total = 0\<rparr>,
      se_push = packed_push,
      se_is_full = (\<lambda>em. length (pe_words em) = STEADY_RECS),
      se_flush = packed_flush\<rparr>"

section \<open>The steady ladder\<close>

record 'e Scan =
  sc_w :: u64
  sc_pk :: "u64 \<times> u64"
  sc_byt :: "u64 \<times> u64"
  sc_dup :: "u64 \<times> u64"
  sc_dup_msgs :: u64
  sc_emitted :: u64
  sc_em :: 'e
  sc_calls :: "SinkCall list"

text \<open>\<open>arr[fi] += d\<close> on a two-element array, \<open>fi = feed & 1\<close>.\<close>

definition bump2 :: "u8 \<Rightarrow> u64 \<Rightarrow> u64 \<times> u64 \<Rightarrow> u64 \<times> u64" where
  "bump2 fd d arr = (if fd AND 1 = 0 then (fst arr + d, snd arr) else (fst arr, snd arr + d))"

datatype StepOutcome = Advanced | DupSkipped | Cold FrameEntry

text \<open>The body is sliced only on the path of an entry with blocks, whose frame is longer than the
  header and one length prefix (\<open>frame_body_in_range\<close> in theory BatchLaw), so the slice is in range
  there; on a shorter frame the code would panic.\<close>

definition frame_body :: "FrameEntry \<Rightarrow> bytes" where
  "frame_body e = slice (HEADER_LEN + 2) (length (fe_bytes e)) (fe_bytes e)"

definition push_entry :: "'e SpanEmit \<Rightarrow> u64 \<Rightarrow> u64 \<Rightarrow> u16 \<Rightarrow> FrameEntry \<Rightarrow> 'e Scan \<Rightarrow> 'e Scan" where
  "push_entry E gen first n e sc =
     (let em = se_push E first n (fe_ptr e + of_nat (HEADER_LEN + 2)) (frame_body e) (fe_blocks e) (sc_em sc)
      in if se_is_full E em then
           let (em1, cs) = se_flush E gen em in sc\<lparr>sc_em := em1, sc_calls := sc_calls sc @ cs\<rparr>
         else sc\<lparr>sc_em := em\<rparr>)"

definition emit_entry :: "u64 \<Rightarrow> FrameEntry \<Rightarrow> 'e Scan \<Rightarrow> 'e Scan" where
  "emit_entry gen e sc =
     sc\<lparr>sc_calls := sc_calls sc @
          map (\<lambda>(sq_no, start, end). OnMsg gen sq_no (slice (unat start) (unat end) (fe_bytes e))) (fe_blocks e)\<rparr>"

definition steady_step ::
    "'e SpanEmit \<Rightarrow> bool \<Rightarrow> u64 \<Rightarrow> u64 \<Rightarrow> u64 \<Rightarrow> FrameEntry \<Rightarrow> 'e Scan \<Rightarrow> 'e Scan \<times> StepOutcome" where
  "steady_step E wants_spans gen lo hi e sc =
     (let n = length (fe_blocks e); len = of_nat (length (fe_bytes e)); fi = fe_feed e in
      if n = 0 then (sc, Cold e)
      else if fe_sess_lo e \<noteq> lo \<or> fe_sess_hi e \<noteq> hi then (sc, Cold e)
      else let first = fe_first_seq e; last_sq = first + of_nat n - 1 in
      if last_sq < sc_w sc then
        (sc\<lparr>sc_pk := bump2 fi 1 (sc_pk sc), sc_byt := bump2 fi len (sc_byt sc),
            sc_dup := bump2 fi 1 (sc_dup sc), sc_dup_msgs := sc_dup_msgs sc + of_nat n\<rparr>, DupSkipped)
      else if first \<noteq> sc_w sc then (sc, Cold e)
      else if \<not> all_valid (fe_memo e) n then (sc, Cold e)
      else
        let sc1 = sc\<lparr>sc_pk := bump2 fi 1 (sc_pk sc), sc_byt := bump2 fi len (sc_byt sc)\<rparr>;
            sc2 = (if wants_spans then push_entry E gen first (of_nat n) e sc1 else emit_entry gen e sc1)
        in (sc2\<lparr>sc_emitted := sc_emitted sc2 + of_nat n, sc_w := last_sq + 1\<rparr>, Advanced))"

definition scan_start :: "'e SpanEmit \<Rightarrow> u64 \<Rightarrow> 'e Scan" where
  "scan_start E w =
     \<lparr>sc_w = w, sc_pk = (0, 0), sc_byt = (0, 0), sc_dup = (0, 0), sc_dup_msgs = 0, sc_emitted = 0,
      sc_em = se_new E, sc_calls = []\<rparr>"

text \<open>The end of a scan: flush the emitter and add the deferred counters.\<close>

definition commit_counters :: "'e Scan \<Rightarrow> Counters \<Rightarrow> Counters" where
  "commit_counters sc c =
     c\<lparr>c_feed_a := \<lparr>fc_packets = fc_packets (c_feed_a c) + fst (sc_pk sc), fc_dups = fc_dups (c_feed_a c) + fst (sc_dup sc),
                    fc_bytes = fc_bytes (c_feed_a c) + fst (sc_byt sc)\<rparr>,
       c_feed_b := \<lparr>fc_packets = fc_packets (c_feed_b c) + snd (sc_pk sc), fc_dups = fc_dups (c_feed_b c) + snd (sc_dup sc),
                    fc_bytes = fc_bytes (c_feed_b c) + snd (sc_byt sc)\<rparr>,
       c_dup_msgs := c_dup_msgs c + sc_dup_msgs sc,
       c_msgs_emitted := c_msgs_emitted c + sc_emitted sc\<rparr>"

definition scan_finish :: "'e SpanEmit \<Rightarrow> u64 \<Rightarrow> 'e Scan \<Rightarrow> 'e Scan" where
  "scan_finish E gen sc =
     (let (em, cs) = se_flush E gen (sc_em sc) in sc\<lparr>sc_em := em, sc_calls := sc_calls sc @ cs\<rparr>)"

section \<open>The scan drivers\<close>

text \<open>A scan returns its locals, whether the watermark advanced, and the cold entry it stopped
  at with the entries after it.\<close>

type_synonym 'e scan_result = "'e Scan \<times> bool \<times> (FrameEntry \<times> FrameEntry list) option"

fun scan_loop ::
    "'e SpanEmit \<Rightarrow> bool \<Rightarrow> u64 \<Rightarrow> u64 \<Rightarrow> u64 \<Rightarrow> FrameEntry list \<Rightarrow> 'e Scan \<Rightarrow> bool \<Rightarrow> 'e scan_result" where
  "scan_loop E ws gen lo hi [] sc progressed = (sc, progressed, None)"
| "scan_loop E ws gen lo hi (e # es) sc progressed =
     (case steady_step E ws gen lo hi e sc of
        (sc1, Cold c) \<Rightarrow> (sc1, progressed, Some (c, es))
      | (sc1, Advanced) \<Rightarrow> scan_loop E ws gen lo hi es sc1 True
      | (sc1, DupSkipped) \<Rightarrow> scan_loop E ws gen lo hi es sc1 progressed)"

definition steady_scan ::
    "bool \<Rightarrow> u64 \<Rightarrow> u64 \<Rightarrow> u64 \<Rightarrow> FrameEntry list \<Rightarrow> u64 \<Rightarrow> RecEmitter scan_result" where
  "steady_scan ws gen lo hi entries w =
     (let (sc, progressed, cold) = scan_loop rec_emitter ws gen lo hi entries (scan_start rec_emitter w) False
      in (scan_finish rec_emitter gen sc, progressed, cold))"

text \<open>\<open>steady_scan_ref\<close> is the same loop over a slice iterator.\<close>

definition steady_scan_ref ::
    "bool \<Rightarrow> u64 \<Rightarrow> u64 \<Rightarrow> u64 \<Rightarrow> FrameEntry list \<Rightarrow> u64 \<Rightarrow> RecEmitter scan_result" where
  "steady_scan_ref ws gen lo hi entries w =
     (let (sc, progressed, cold) = scan_loop rec_emitter ws gen lo hi entries (scan_start rec_emitter w) False
      in (scan_finish rec_emitter gen sc, progressed, cold))"

section \<open>Group fast paths\<close>

definition gather_firsts :: "nat \<Rightarrow> FrameEntry list \<Rightarrow> u64 list" where
  "gather_firsts k es = map (\<lambda>i. fe_first_seq (es ! i)) [0 ..< k]"

definition gather_ns :: "nat \<Rightarrow> FrameEntry list \<Rightarrow> u64 list" where
  "gather_ns k es = map (\<lambda>i. of_nat (length (fe_blocks (es ! i)))) [0 ..< k]"

text \<open>The session gate on the first entry and the eligibility bytes of all of them.\<close>

definition group_gate :: "nat \<Rightarrow> u64 \<Rightarrow> u64 \<Rightarrow> FrameEntry list \<Rightarrow> bool" where
  "group_gate k lo hi es =
     (let e0 = es ! 0 in
      if fe_sess_lo e0 \<noteq> lo \<or> fe_sess_hi e0 \<noteq> hi \<or> fe_elig e0 AND FRAME_ELIG_OK = 0 then False
      else let f0 = elig_feed (fe_elig e0); f1 = elig_feed (fe_elig (es ! 1))
      in list_all (\<lambda>i. \<not> (fe_elig (es ! i) AND FRAME_ELIG_OK = 0
            \<or> elig_feed (fe_elig (es ! i)) \<noteq> (if even i then f0 else f1))) [0 ..< k])"

definition sum_at :: "nat list \<Rightarrow> (nat \<Rightarrow> u64) \<Rightarrow> u64" where
  "sum_at ks f = sum_list (map f ks)"

text \<open>The batched counters and emissions of a verified group: \<open>evens\<close> emit, \<open>odds\<close> are
  duplicates.\<close>

definition group_commit ::
    "'e SpanEmit \<Rightarrow> bool \<Rightarrow> u64 \<Rightarrow> nat list \<Rightarrow> nat list \<Rightarrow> u64 list \<Rightarrow> u64 list \<Rightarrow> FrameEntry list \<Rightarrow> 'e Scan \<Rightarrow> 'e Scan" where
  "group_commit E ws gen evens odds firsts ns es sc =
     (let f0 = elig_feed (fe_elig (es ! 0)); f1 = elig_feed (fe_elig (es ! 1));
          half = of_nat (length evens); sum_e = sum_at evens ((!) ns);
          len = (\<lambda>i. of_nat (length (fe_bytes (es ! i))));
          sc1 = sc\<lparr>sc_pk := bump2 f1 half (bump2 f0 half (sc_pk sc)),
                   sc_byt := bump2 f1 (sum_at odds len) (bump2 f0 (sum_at evens len) (sc_byt sc)),
                   sc_dup := bump2 f1 half (sc_dup sc),
                   sc_dup_msgs := sc_dup_msgs sc + sum_at odds ((!) ns),
                   sc_emitted := sc_emitted sc + sum_e\<rparr>;
          sc2 = (if ws then fold (\<lambda>i. push_entry E gen (firsts ! i) (ucast (ns ! i)) (es ! i)) evens sc1
                 else fold (\<lambda>i. emit_entry gen (es ! i)) evens sc1)
      in sc2\<lparr>sc_w := sc_w sc2 + sum_e\<rparr>)"

text \<open>\<open>None\<close> is \<open>false\<close>: nothing applied.\<close>

definition ladder_group_apply ::
    "'e SpanEmit \<Rightarrow> bool \<Rightarrow> u64 \<Rightarrow> u64 \<Rightarrow> u64 \<Rightarrow> SoaLadder8 \<Rightarrow> FrameEntry list \<Rightarrow> 'e Scan \<Rightarrow> 'e Scan option" where
  "ladder_group_apply E ws gen lo hi ladder8 es sc =
     (let firsts = gather_firsts 8 es; ns = gather_ns 8 es in
      if \<not> ladder8 firsts ns (sc_w sc) then None
      else if \<not> group_gate 8 lo hi es then None
      else Some (group_commit E ws gen [0, 2, 4, 6] [1, 3, 5, 7] firsts ns es sc))"

definition ladder_group16_apply ::
    "'e SpanEmit \<Rightarrow> bool \<Rightarrow> u64 \<Rightarrow> u64 \<Rightarrow> u64 \<Rightarrow> SoaLadder8 \<Rightarrow> FrameEntry list \<Rightarrow> 'e Scan \<Rightarrow> 'e Scan option" where
  "ladder_group16_apply E ws gen lo hi ladder8 es sc =
     (let firsts = gather_firsts 16 es; ns = gather_ns 16 es in
      if \<not> ladder8 (take 8 firsts) (take 8 ns) (sc_w sc) then None
      else if \<not> ladder8 (drop 8 firsts) (drop 8 ns) (sc_w sc + sum_at [0, 2, 4, 6] ((!) ns)) then None
      else if \<not> group_gate 16 lo hi es then None
      else Some (group_commit E ws gen [0, 2, 4, 6, 8, 10, 12, 14] [1, 3, 5, 7, 9, 11, 13, 15] firsts ns es sc))"

text \<open>The group step of the ladder scan: sixteen entries, then eight, then none.\<close>

definition group_step ::
    "'e SpanEmit \<Rightarrow> bool \<Rightarrow> u64 \<Rightarrow> u64 \<Rightarrow> u64 \<Rightarrow> SoaLadder8 option \<Rightarrow> FrameEntry list \<Rightarrow> 'e Scan \<Rightarrow> (nat \<times> 'e Scan) option" where
  "group_step E ws gen lo hi ladder es sc =
     (case ladder of
        None \<Rightarrow> None
      | Some ladder8 \<Rightarrow>
          (case (if 16 \<le> length es then ladder_group16_apply E ws gen lo hi ladder8 es sc else None) of
             Some sc1 \<Rightarrow> Some (16, sc1)
           | None \<Rightarrow>
              (case (if 8 \<le> length es then ladder_group_apply E ws gen lo hi ladder8 es sc else None) of
                 Some sc1 \<Rightarrow> Some (8, sc1)
               | None \<Rightarrow> None)))"

lemma group_step_advances: "group_step E ws gen lo hi ladder es sc = Some (k, sc1) \<Longrightarrow> 0 < k \<and> k \<le> length es"
  by (auto simp: group_step_def split: option.splits if_splits)

function (sequential) ladder_loop ::
    "'e SpanEmit \<Rightarrow> bool \<Rightarrow> u64 \<Rightarrow> u64 \<Rightarrow> u64 \<Rightarrow> SoaLadder8 option \<Rightarrow> FrameEntry list \<Rightarrow> 'e Scan \<Rightarrow> bool \<Rightarrow> 'e scan_result" where
  "ladder_loop E ws gen lo hi ladder [] sc progressed = (sc, progressed, None)"
| "ladder_loop E ws gen lo hi ladder (e # es) sc progressed =
     (case group_step E ws gen lo hi ladder (e # es) sc of
        Some (k, sc1) \<Rightarrow> ladder_loop E ws gen lo hi ladder (drop k (e # es)) sc1 True
      | None \<Rightarrow>
          (case steady_step E ws gen lo hi e sc of
             (sc1, Cold c) \<Rightarrow> (sc1, progressed, Some (c, es))
           | (sc1, Advanced) \<Rightarrow> ladder_loop E ws gen lo hi ladder es sc1 True
           | (sc1, DupSkipped) \<Rightarrow> ladder_loop E ws gen lo hi ladder es sc1 progressed))"
  by pat_completeness auto
termination
  by (relation "measure (\<lambda>(E, ws, gen, lo, hi, ladder, es, sc, progressed). length es)")
    (auto dest: group_step_advances)

definition steady_scan_ladder ::
    "'e SpanEmit \<Rightarrow> bool \<Rightarrow> u64 \<Rightarrow> u64 \<Rightarrow> u64 \<Rightarrow> SoaLadder8 option \<Rightarrow> FrameEntry list \<Rightarrow> u64 \<Rightarrow> 'e scan_result" where
  "steady_scan_ladder E ws gen lo hi ladder entries w =
     (let (sc, progressed, cold) = ladder_loop E ws gen lo hi ladder entries (scan_start E w) False
      in (scan_finish E gen sc, progressed, cold))"

section \<open>The batch drivers\<close>

definition steady_ready :: "Sequencer \<Rightarrow> bool" where
  "steady_ready sq \<longleftrightarrow> sq_session_live sq \<and> sq_state sq = Contig \<and> sq_staged_count sq = 0 \<and>
     \<not> sq_gap_active sq \<and> sq_pending_to sq = None"

definition cold_apply :: "bool \<Rightarrow> u64 \<Rightarrow> FrameEntry \<Rightarrow> Sequencer \<Rightarrow> step" where
  "cold_apply ws now_ns e sq = ingest_auto ws (fe_bytes e) (fe_feed e) now_ns (fe_blocks e) (fe_memo e) sq"

text \<open>What a driver does with the result of a scan, up to the cold entry.\<close>

definition apply_scan :: "u64 \<Rightarrow> 'e scan_result \<Rightarrow> Sequencer \<Rightarrow> step" where
  "apply_scan now_ns r sq =
     (case r of (sc, progressed, cold) \<Rightarrow>
        (sq\<lparr>sq_counters := commit_counters sc (sq_counters sq), sq_w := sc_w sc,
            sq_progress_vt := (if progressed then now_ns else sq_progress_vt sq)\<rparr>, sc_calls sc))"

text \<open>The loop the three drivers share, with the scan as its argument.\<close>

type_synonym 'e scanner = "Sequencer \<Rightarrow> FrameEntry list \<Rightarrow> 'e scan_result"

text \<open>Fuel bounds the iterations: every one but the last consumes an entry, so one more than
  the length of the slice is enough (\<open>drive_fuel\<close> in theory BatchLaw).\<close>

primrec drive :: "'e scanner \<Rightarrow> bool \<Rightarrow> u64 \<Rightarrow> nat \<Rightarrow> FrameEntry list \<Rightarrow> Sequencer \<Rightarrow> step" where
  "drive scan ws now_ns 0 es sq = (sq, [])"
| "drive scan ws now_ns (Suc fuel) es sq =
     (if steady_ready sq then
        let r = scan sq es in
        andThen (apply_scan now_ns r sq)
          (\<lambda>sq1. case snd (snd r) of
              Some (c, rest) \<Rightarrow> andThen (cold_apply ws now_ns c sq1) (drive scan ws now_ns fuel rest)
            | None \<Rightarrow> (sq1, []))
      else case es of
          e # rest \<Rightarrow> andThen (cold_apply ws now_ns e sq) (drive scan ws now_ns fuel rest)
        | [] \<Rightarrow> (sq, []))"

definition ingest_batch :: "bool \<Rightarrow> FrameEntry list \<Rightarrow> u64 \<Rightarrow> Sequencer \<Rightarrow> step" where
  "ingest_batch wants_spans entries now_ns =
     drive (\<lambda>sq es. steady_scan wants_spans (sq_gen sq) (sq_session_lo sq) (sq_session_hi sq) es (sq_w sq))
       wants_spans now_ns (Suc (length entries)) entries"

definition ingest_entries :: "bool \<Rightarrow> FrameEntry list \<Rightarrow> u64 \<Rightarrow> Sequencer \<Rightarrow> step" where
  "ingest_entries wants_spans entries now_ns =
     drive (\<lambda>sq es. steady_scan_ref wants_spans (sq_gen sq) (sq_session_lo sq) (sq_session_hi sq) es (sq_w sq))
       wants_spans now_ns (Suc (length entries)) entries"

definition ingest_entries_ladder ::
    "bool \<Rightarrow> bool \<Rightarrow> SoaLadder8 option \<Rightarrow> FrameEntry list \<Rightarrow> u64 \<Rightarrow> Sequencer \<Rightarrow> step" where
  "ingest_entries_ladder wants_spans wants_packed ladder entries now_ns =
     (if wants_spans \<and> wants_packed then
        drive (\<lambda>sq es. steady_scan_ladder packed_emitter wants_spans (sq_gen sq) (sq_session_lo sq)
                 (sq_session_hi sq) ladder es (sq_w sq)) wants_spans now_ns (Suc (length entries)) entries
      else
        drive (\<lambda>sq es. steady_scan_ladder rec_emitter wants_spans (sq_gen sq) (sq_session_lo sq)
                 (sq_session_hi sq) ladder es (sq_w sq)) wants_spans now_ns (Suc (length entries)) entries)"

end
