(* ===== verification/BatchLaw.thy ===== *)
theory BatchLaw
  imports Indexed Batch
begin

text \<open>
  The batched apply path delivers what the per-frame path delivers.  An entry describes its
  frame (\<open>entry_ok\<close>), its eligibility byte states what the publisher computed (\<open>elig_ok\<close>).
  A scan of the steady ladder is then the same frames through \<open>ingest_auto\<close>, whatever the
  emitter (locale \<open>span_emitter\<close>), and the group fast paths are exactly the eight or sixteen
  scalar steps they stand for (in the context of locale \<open>soa_ladder\<close>).
\<close>

section \<open>Contracts of an entry\<close>

definition entry_ok :: "FrameEntry \<Rightarrow> bool" where
  "entry_ok e \<longleftrightarrow> fe_blocks e = [] \<or>
     (\<exists>s c ms. packet_ok s (fe_first_seq e) c ms \<and> unat (fe_first_seq e) + length ms < 2 ^ 64 \<and>
        fe_bytes e = mold_frame s (fe_first_seq e) c ms \<and>
        fe_blocks e = frame_triples (fe_first_seq e) 20 ms \<and> memo_ok (fe_memo e) ms \<and>
        fe_sess_lo e = u64_from_le_bytes (slice 0 8 (fe_bytes e)) \<and>
        fe_sess_hi e = u64_from_le_bytes (slice 2 10 (fe_bytes e)))"

lemma frame_body_in_range: "entry_ok e \<Longrightarrow> fe_blocks e \<noteq> [] \<Longrightarrow> HEADER_LEN + 2 \<le> length (fe_bytes e)"
proof -
  assume "entry_ok e" "fe_blocks e \<noteq> []"
  then obtain s c ms where e: "packet_ok s (fe_first_seq e) c ms" "fe_bytes e = mold_frame s (fe_first_seq e) c ms"
      "fe_blocks e = frame_triples (fe_first_seq e) 20 ms"
    by (auto simp: entry_ok_def)
  then have "ms \<noteq> []" using \<open>fe_blocks e \<noteq> []\<close> by auto
  then show ?thesis using e by (cases ms) (auto simp: packet_ok_def length_frame)
qed

definition elig_ok :: "u64 \<Rightarrow> u64 \<Rightarrow> FrameEntry \<Rightarrow> bool" where
  "elig_ok lo hi e \<longleftrightarrow> elig_feed (fe_elig e) = fe_feed e AND 3 \<and>
     (fe_elig e AND FRAME_ELIG_OK \<noteq> 0 \<longrightarrow>
        fe_blocks e \<noteq> [] \<and> all_valid (fe_memo e) (length (fe_blocks e)) \<and>
        fe_sess_lo e = lo \<and> fe_sess_hi e = hi)"

definition entry_span :: "FrameEntry \<Rightarrow> SpanRec" where
  "entry_span e = \<lparr>sr_first_seq = fe_first_seq e, sr_count = of_nat (length (fe_blocks e)),
     sr_body = frame_body e, sr_blocks = fe_blocks e\<rparr>"

definition entry_msgs :: "u64 \<Rightarrow> FrameEntry \<Rightarrow> SinkCall list" where
  "entry_msgs gen e =
     map (\<lambda>(sq_no, start, end). OnMsg gen sq_no (slice (unat start) (unat end) (fe_bytes e))) (fe_blocks e)"

section \<open>A steady frame on the indexed path\<close>

lemma entry_data:
  assumes "entry_ok e" "fe_blocks e \<noteq> []"
  obtains s c ms where "packet_ok s (fe_first_seq e) c ms" "unat (fe_first_seq e) + length ms < 2 ^ 64"
    "fe_bytes e = mold_frame s (fe_first_seq e) c ms" "fe_blocks e = frame_triples (fe_first_seq e) 20 ms"
    "memo_ok (fe_memo e) ms" "fe_sess_lo e = u64_from_le_bytes (slice 0 8 (fe_bytes e))"
    "fe_sess_hi e = u64_from_le_bytes (slice 2 10 (fe_bytes e))"
  using assms by (auto simp: entry_ok_def)

lemma contig_tail_steady:
  assumes "sq_staged_count sq = 0" "\<not> sq_gap_active sq"
  shows "contig_tail old l g t sq = (sq\<lparr>sq_w := l + 1, sq_progress_vt := t\<rparr>, [])"
  using assms by (simp add: contig_tail_def Let_def)

text \<open>The steady frame ends at the end of its last block.\<close>

lemma entry_body:
  assumes "packet_ok s q c ms"
  shows "slice (unat (fst (snd (frame_triples q 20 ms ! 0))))
      (unat (snd (snd (frame_triples q 20 ms ! (length ms - 1))))) (mold_frame s q c ms)
    = slice 22 (length (mold_frame s q c ms)) (mold_frame s q c ms)"
proof -
  note ok = packet_okD [OF assms]
  have len: "length (mold_frame s q c ms) = 20 + length (mold_body ms)" using ok(1) by (simp add: length_frame)
  have l: "length ms - 1 < length ms" using ok(9) by simp
  have "length (mold_body ms) = length (mold_body (take (Suc (length ms - 1)) ms))" using ok(9) by simp
  then have "length (mold_body ms) = length (mold_body (take (length ms - 1) ms)) + 2 + length (ms ! (length ms - 1))"
    by (simp only: mold_body_take_Suc [OF l])
  then show ?thesis
    using frame_bound(1) [OF len ok(7,9), of q] frame_bound(2) [OF len ok(7) l, of q] len
    by (simp add: mold_body_def add.assoc)
qed

lemma cold_apply_steady:
  assumes e: "entry_ok e" "fe_blocks e \<noteq> []" and st: "steady_ready sq"
    and sess: "fe_sess_lo e = sq_session_lo sq" "fe_sess_hi e = sq_session_hi sq"
  defines "n \<equiv> length (fe_blocks e)" and "l \<equiv> fe_first_seq e + of_nat (length (fe_blocks e)) - 1"
    and "sq1 \<equiv> count_packet (fe_feed e) (length (fe_bytes e)) sq"
  shows "l < sq_w sq \<Longrightarrow> cold_apply ws t e sq = (count_duplicate (fe_feed e) (of_nat n) sq1, [])"
    and "fe_first_seq e = sq_w sq \<Longrightarrow> all_valid (fe_memo e) n \<Longrightarrow>
      cold_apply ws t e sq = ((count_emitted (of_nat n) sq1)\<lparr>sq_w := l + 1, sq_progress_vt := t\<rparr>,
        if ws then [OnSpan (sq_gen sq) (entry_span e)] else entry_msgs (sq_gen sq) e) \<and>
      \<not> l < sq_w sq"
proof -
  obtain s c ms where d: "packet_ok s (fe_first_seq e) c ms" "unat (fe_first_seq e) + length ms < 2 ^ 64"
    "fe_bytes e = mold_frame s (fe_first_seq e) c ms" "fe_blocks e = frame_triples (fe_first_seq e) 20 ms"
    "fe_sess_lo e = u64_from_le_bytes (slice 0 8 (fe_bytes e))"
    "fe_sess_hi e = u64_from_le_bytes (slice 2 10 (fe_bytes e))"
    using entry_data [OF e] by metis
  note ok = packet_okD [OF d(1)]
  let ?h = "\<lparr>hdr_session = s, hdr_seq = fe_first_seq e, hdr_count = c\<rparr>"
  have ph: "parse_header (fe_bytes e) = Inr ?h" using ok by (simp add: d(3) parse_header_frame)
  note hb = frame_header_bytes [OF ph, simplified]
  have l20: "\<not> length (fe_bytes e) < 20" using frame_of_header(1) [OF ph] by simp
  have n: "n = length ms" "unat c = n" using d(4) ok(2) by (simp_all add: n_def)
  have l: "l = fe_first_seq e + of_nat (length ms - 1)"
    using ok(9) by (simp add: l_def d(4) of_nat_diff Suc_le_eq)
  have s1: "sq_session_live sq1" "sq_state sq1 = Contig" "sq_staged_count sq1 = 0" "\<not> sq_gap_active sq1"
    "sq_pending_to sq1 = None" "sq_w sq1 = sq_w sq" "sq_session_lo sq1 = sq_session_lo sq"
    "sq_session_hi sq1 = sq_session_hi sq" "sq_gen sq1 = sq_gen sq"
    using st by (simp_all add: sq1_def steady_ready_def count_packet_def)
  have ap: "cold_apply ws t e sq = indexed_span ws (fe_bytes e) c (fe_feed e) t (fe_blocks e) (fe_memo e) sq1"
    using e(2) l20 s1 sess d(5,6) hb ok(3,4)
    by (simp add: cold_apply_def ingest_auto_def ingest_indexed_def indexed_kind_def Let_def sq1_def [symmetric])
  have fl: "fst (hd (fe_blocks e)) = fe_first_seq e" "fst (List.last (fe_blocks e)) = l"
    using ok(8) l by (simp_all add: d(4) frame_triples_hd frame_triples_last)
  show "cold_apply ws t e sq = (count_duplicate (fe_feed e) (of_nat n) sq1, [])" if "l < sq_w sq"
  proof -
    have "(ucast c :: u64) = of_nat n" unfolding n(2) [symmetric] by simp
    then show ?thesis using that e(2) s1 fl by (simp add: ap indexed_span_def Let_def)
  qed
  assume w: "fe_first_seq e = sq_w sq" and av: "all_valid (fe_memo e) n"
  have nl: "\<not> l < sq_w sq"
    using d(2) ok(9) unfolding l w [symmetric] by (simp add: word_less_nat_alt unat_plus_u64 unat_of_nat_u64)
  have body: "slice (unat (fst (snd (fe_blocks e ! 0)))) (unat (snd (snd (fe_blocks e ! (n - 1))))) (fe_bytes e)
      = frame_body e"
    using entry_body [OF d(1)] by (simp add: frame_body_def d(3,4) n(1))
  have msgs: "map (\<lambda>b. OnMsg (sq_gen sq) (fst b) (block_data (fe_bytes e) b)) (fe_blocks e) = entry_msgs (sq_gen sq) e"
    by (simp add: entry_msgs_def block_data_def split_beta)
  have n0: "0 < n" using n ok(9) by simp
  have tail: "contig_tail (sq_w sq) l g t (count_emitted (of_nat n) sq1)
      = ((count_emitted (of_nat n) sq1)\<lparr>sq_w := l + 1, sq_progress_vt := t\<rparr>, [])" for g
    using s1 by (intro contig_tail_steady) (simp_all add: count_emitted_def)
  have rp: "retire_pending ((count_emitted (of_nat n) sq1)\<lparr>sq_w := l + 1, sq_progress_vt := t\<rparr>)
      = (count_emitted (of_nat n) sq1)\<lparr>sq_w := l + 1, sq_progress_vt := t\<rparr>"
    using s1 by (simp add: retire_pending_def count_emitted_def)
  have "indexed_contig ws (fe_bytes e) (fe_first_seq e) l (fe_blocks e) (fe_memo e) t sq1
      = ((count_emitted (of_nat n) sq1)\<lparr>sq_w := l + 1, sq_progress_vt := t\<rparr>,
        if ws then [OnSpan (sq_gen sq) (entry_span e)] else entry_msgs (sq_gen sq) e)"
  proof (cases ws)
    case True
    then show ?thesis
      using av n0 s1 w body tail rp
      by (simp add: indexed_contig_def n_def [symmetric] Let_def entry_span_def)
  next
    case False
    then show ?thesis
      using av n0 s1 w tail rp msgs
      by (simp add: indexed_contig_def n_def [symmetric] Let_def emit_blocks_valid)
  qed
  then show "cold_apply ws t e sq = ((count_emitted (of_nat n) sq1)\<lparr>sq_w := l + 1, sq_progress_vt := t\<rparr>,
        if ws then [OnSpan (sq_gen sq) (entry_span e)] else entry_msgs (sq_gen sq) e) \<and>
      \<not> l < sq_w sq"
    using nl e(2) s1 fl w by (simp add: ap indexed_span_def Let_def)
qed

section \<open>One step of the ladder\<close>

text \<open>The sequencer a scan stands for: the deferred locals applied to the state it started in.\<close>

definition scan_state :: "u64 \<Rightarrow> Sequencer \<Rightarrow> 'e Scan \<Rightarrow> bool \<Rightarrow> Sequencer" where
  "scan_state t sq sc progressed =
     sq\<lparr>sq_counters := commit_counters sc (sq_counters sq), sq_w := sc_w sc,
        sq_progress_vt := (if progressed then t else sq_progress_vt sq)\<rparr>"

lemma scan_state_simps [simp]:
  "sq_w (scan_state t sq sc p) = sc_w sc" "sq_gen (scan_state t sq sc p) = sq_gen sq"
  "sq_session_lo (scan_state t sq sc p) = sq_session_lo sq"
  "sq_session_hi (scan_state t sq sc p) = sq_session_hi sq"
  "steady_ready (scan_state t sq sc p) = steady_ready sq"
  by (simp_all add: scan_state_def steady_ready_def)

lemma push_entry_locals [simp]:
  "sc_w (push_entry E g f n e sc) = sc_w sc" "sc_pk (push_entry E g f n e sc) = sc_pk sc"
  "sc_byt (push_entry E g f n e sc) = sc_byt sc" "sc_dup (push_entry E g f n e sc) = sc_dup sc"
  "sc_dup_msgs (push_entry E g f n e sc) = sc_dup_msgs sc"
  "sc_emitted (push_entry E g f n e sc) = sc_emitted sc"
  by (simp_all add: push_entry_def Let_def split: prod.split)

lemma emit_entry_locals [simp]:
  "sc_w (emit_entry g e sc) = sc_w sc" "sc_pk (emit_entry g e sc) = sc_pk sc"
  "sc_byt (emit_entry g e sc) = sc_byt sc" "sc_dup (emit_entry g e sc) = sc_dup sc"
  "sc_dup_msgs (emit_entry g e sc) = sc_dup_msgs sc" "sc_emitted (emit_entry g e sc) = sc_emitted sc"
  "sc_em (emit_entry g e sc) = sc_em sc" "sc_calls (emit_entry g e sc) = sc_calls sc @ entry_msgs g e"
  by (simp_all add: emit_entry_def entry_msgs_def)

lemma commit_counters_cong:
  "sc_pk sc' = sc_pk sc \<Longrightarrow> sc_byt sc' = sc_byt sc \<Longrightarrow> sc_dup sc' = sc_dup sc \<Longrightarrow>
   sc_dup_msgs sc' = sc_dup_msgs sc \<Longrightarrow> sc_emitted sc' = sc_emitted sc \<Longrightarrow> commit_counters sc' c = commit_counters sc c"
  by (simp add: commit_counters_def)

lemma scan_state_dup:
  "count_duplicate fd n (count_packet fd len (scan_state t sq sc p))
    = scan_state t sq (sc\<lparr>sc_pk := bump2 fd 1 (sc_pk sc), sc_byt := bump2 fd (of_nat len) (sc_byt sc),
        sc_dup := bump2 fd 1 (sc_dup sc), sc_dup_msgs := sc_dup_msgs sc + n\<rparr>) p"
  by (simp add: scan_state_def count_duplicate_def count_packet_def count_dup_msgs_def feed_mut_def bump2_def
      commit_counters_def ac_simps)

lemma scan_state_adv:
  assumes "sc_pk sc1 = bump2 fd 1 (sc_pk sc)" "sc_byt sc1 = bump2 fd (of_nat len) (sc_byt sc)"
    "sc_dup sc1 = sc_dup sc" "sc_dup_msgs sc1 = sc_dup_msgs sc" "sc_emitted sc1 = sc_emitted sc + n"
    "sc_w sc1 = w"
  shows "(count_emitted n (count_packet fd len (scan_state t sq sc p)))\<lparr>sq_w := w, sq_progress_vt := t\<rparr>
    = scan_state t sq sc1 True"
  using assms
  by (simp add: scan_state_def count_packet_def count_emitted_def feed_mut_def bump2_def
      commit_counters_def ac_simps)

text \<open>The outcome of a step and the sequencer's own step on the same frame.\<close>

lemma steady_step_cold:
  "steady_step E ws g lo hi e sc = (sc1, Cold c) \<Longrightarrow> sc1 = sc \<and> c = e"
  by (auto simp: steady_step_def Let_def split: if_splits)

lemma steady_step_dup:
  assumes "steady_step E ws g lo hi e sc = (sc1, DupSkipped)" "entry_ok e" "steady_ready sq"
    "lo = sq_session_lo sq" "hi = sq_session_hi sq"
  shows "cold_apply ws t e (scan_state t sq sc p) = (scan_state t sq sc1 p, [])"
    "sc_w sc1 = sc_w sc" "sc_em sc1 = sc_em sc" "sc_calls sc1 = sc_calls sc"
proof -
  have c: "fe_blocks e \<noteq> []" "fe_sess_lo e = lo" "fe_sess_hi e = hi"
    "fe_first_seq e + of_nat (length (fe_blocks e)) - 1 < sc_w sc"
    and sc1: "sc1 = sc\<lparr>sc_pk := bump2 (fe_feed e) 1 (sc_pk sc),
      sc_byt := bump2 (fe_feed e) (of_nat (length (fe_bytes e))) (sc_byt sc),
      sc_dup := bump2 (fe_feed e) 1 (sc_dup sc), sc_dup_msgs := sc_dup_msgs sc + of_nat (length (fe_blocks e))\<rparr>"
    using assms(1) by (auto simp: steady_step_def Let_def split: if_splits)
  show "cold_apply ws t e (scan_state t sq sc p) = (scan_state t sq sc1 p, [])"
    using cold_apply_steady(1) [OF assms(2) c(1), of "scan_state t sq sc p" ws t] assms c
    by (simp add: scan_state_dup sc1)
  show "sc_w sc1 = sc_w sc" "sc_em sc1 = sc_em sc" "sc_calls sc1 = sc_calls sc" by (simp_all add: sc1)
qed

lemma steady_step_advanced:
  assumes "steady_step E ws g lo hi e sc = (sc1, Advanced)" "entry_ok e" "steady_ready sq"
    "lo = sq_session_lo sq" "hi = sq_session_hi sq" "g = sq_gen sq"
  shows "cold_apply ws t e (scan_state t sq sc p)
      = (scan_state t sq sc1 True, if ws then [OnSpan g (entry_span e)] else entry_msgs g e)"
    and "fe_first_seq e = sc_w sc" "sc_w sc1 = sc_w sc + of_nat (length (fe_blocks e))" "fe_blocks e \<noteq> []"
    and "\<exists>sc0. sc_em sc0 = sc_em sc \<and> sc_calls sc0 = sc_calls sc \<and>
      (let sc2 = if ws then push_entry E g (fe_first_seq e) (of_nat (length (fe_blocks e))) e sc0 else emit_entry g e sc0
       in sc_em sc1 = sc_em sc2 \<and> sc_calls sc1 = sc_calls sc2)"
proof -
  let ?n = "length (fe_blocks e)" and ?l = "fe_first_seq e + of_nat (length (fe_blocks e)) - 1"
  define sc0 where "sc0 = sc\<lparr>sc_pk := bump2 (fe_feed e) 1 (sc_pk sc),
    sc_byt := bump2 (fe_feed e) (of_nat (length (fe_bytes e))) (sc_byt sc)\<rparr>"
  define sc2 where "sc2 = (if ws then push_entry E g (fe_first_seq e) (of_nat ?n) e sc0 else emit_entry g e sc0)"
  have c: "fe_blocks e \<noteq> []" "fe_sess_lo e = lo" "fe_sess_hi e = hi" "\<not> ?l < sc_w sc" "fe_first_seq e = sc_w sc"
      "all_valid (fe_memo e) ?n"
    and sc1: "sc1 = sc2\<lparr>sc_emitted := sc_emitted sc2 + of_nat ?n, sc_w := ?l + 1\<rparr>"
    using assms(1) unfolding steady_step_def sc2_def sc0_def by (auto simp: Let_def split: if_splits)
  have "(count_emitted (of_nat ?n) (count_packet (fe_feed e) (length (fe_bytes e)) (scan_state t sq sc p)))
      \<lparr>sq_w := ?l + 1, sq_progress_vt := t\<rparr> = scan_state t sq sc1 True"
    by (rule scan_state_adv) (simp_all add: sc1 sc2_def sc0_def)
  then show "cold_apply ws t e (scan_state t sq sc p)
      = (scan_state t sq sc1 True, if ws then [OnSpan g (entry_span e)] else entry_msgs g e)"
    using cold_apply_steady(2) [OF assms(2) c(1), of "scan_state t sq sc p" ws t] assms c by simp
  show "fe_first_seq e = sc_w sc" "fe_blocks e \<noteq> []" using c by simp_all
  show "sc_w sc1 = sc_w sc + of_nat ?n" using c(5) by (simp add: sc1)
  have "sc_em sc0 = sc_em sc" "sc_calls sc0 = sc_calls sc" by (simp_all add: sc0_def)
  then show "\<exists>sc0. sc_em sc0 = sc_em sc \<and> sc_calls sc0 = sc_calls sc \<and>
      (let sc2 = if ws then push_entry E g (fe_first_seq e) (of_nat ?n) e sc0 else emit_entry g e sc0
       in sc_em sc1 = sc_em sc2 \<and> sc_calls sc1 = sc_calls sc2)"
    by (intro exI [of _ sc0]) (simp add: Let_def sc1 sc2_def)
qed

section \<open>Emitters\<close>

fun ingest_each :: "bool \<Rightarrow> u64 \<Rightarrow> FrameEntry list \<Rightarrow> Sequencer \<Rightarrow> step" where
  "ingest_each ws now_ns [] sq = (sq, [])"
| "ingest_each ws now_ns (e # es) sq = andThen (cold_apply ws now_ns e sq) (ingest_each ws now_ns es)"

lemma ingest_each_append:
  "ingest_each ws t (es @ fs) sq = andThen (ingest_each ws t es sq) (ingest_each ws t fs)"
  by (induction es arbitrary: sq) (simp_all add: andThen_def split: prod.split)

lemma entry_step:
  assumes "entry_ok e" "fe_blocks e \<noteq> []"
  shows "fe_first_seq e < fe_first_seq e + of_nat (length (fe_blocks e))" "length (fe_blocks e) < 65536"
proof -
  obtain s c ms where d: "packet_ok s (fe_first_seq e) c ms" "unat (fe_first_seq e) + length ms < 2 ^ 64"
    "fe_blocks e = frame_triples (fe_first_seq e) 20 ms"
    using entry_data [OF assms] by metis
  note ok = packet_okD [OF d(1)]
  show "length (fe_blocks e) < 65536" using ok(10) d(3) by simp
  show "fe_first_seq e < fe_first_seq e + of_nat (length (fe_blocks e))"
    using d(2,3) ok(9) by (simp add: word_less_nat_alt unat_plus_u64 unat_of_nat_u64)
qed

text \<open>The contract of an emitter: \<open>holds em es\<close> says that \<open>em\<close> buffers the spans of the entries
  \<open>es\<close>; \<open>sem\<close> is what a sink call delivers, \<open>good\<close> and \<open>near\<close> are what the emitter needs of the
  entries.  A flush delivers the buffered spans one by one.\<close>

locale span_emitter =
  fixes E :: "'e SpanEmit"
    and holds :: "'e \<Rightarrow> FrameEntry list \<Rightarrow> bool"
    and sem :: "SinkCall \<Rightarrow> 'd list"
    and good :: "FrameEntry \<Rightarrow> bool"
    and near :: "FrameEntry \<Rightarrow> FrameEntry \<Rightarrow> bool"
  assumes new: "holds (se_new E) []"
    and push: "holds em es \<Longrightarrow> good e \<Longrightarrow> length (fe_blocks e) < 65536 \<Longrightarrow> \<forall>p \<in> set es. near p e \<Longrightarrow>
      (es \<noteq> [] \<Longrightarrow> fe_first_seq e = fe_first_seq (List.last es) + of_nat (length (fe_blocks (List.last es)))) \<Longrightarrow>
      holds (se_push E (fe_first_seq e) (of_nat (length (fe_blocks e))) (fe_ptr e + 22) (frame_body e) (fe_blocks e) em)
        (es @ [e])"
    and full: "holds em es \<Longrightarrow> se_is_full E em \<longleftrightarrow> length es = 32"
    and flush: "holds em es \<Longrightarrow> holds (fst (se_flush E g em)) [] \<and>
      concat (map sem (snd (se_flush E g em))) = concat (map (\<lambda>e. sem (OnSpan g (entry_span e))) es)"
begin

text \<open>The buffer between two entries of a scan at watermark \<open>w\<close>, the entries \<open>rest\<close> still to come.\<close>

abbreviation buffered :: "bool \<Rightarrow> 'e Scan \<Rightarrow> FrameEntry list \<Rightarrow> FrameEntry list \<Rightarrow> bool" where
  "buffered ws sc ps rest \<equiv> holds (sc_em sc) ps \<and> length ps < 32 \<and> (\<not> ws \<longrightarrow> ps = []) \<and>
     (ps \<noteq> [] \<longrightarrow> sc_w sc = fe_first_seq (List.last ps) + of_nat (length (fe_blocks (List.last ps)))) \<and>
     (\<forall>p \<in> set ps. fe_first_seq p < sc_w sc \<and>
        (\<forall>x \<in> set rest. fe_first_seq p < fe_first_seq x \<longrightarrow> near p x))"

abbreviation delivered :: "u64 \<Rightarrow> SinkCall list \<Rightarrow> FrameEntry list \<Rightarrow> 'd list" where
  "delivered g cs ps \<equiv> concat (map sem cs) @ concat (map (\<lambda>e. sem (OnSpan g (entry_span e))) ps)"

text \<open>The buffer never overflows, and a push delivers the span or keeps it.\<close>

lemma push_entry_buffer:
  fixes g :: u64
  assumes b: "buffered ws sc ps (e # rest)" and e: "entry_ok e" "fe_blocks e \<noteq> []" "good e" "fe_first_seq e = sc_w sc"
    and later: "\<forall>x \<in> set rest. fe_first_seq e < fe_first_seq x \<longrightarrow> near e x"
    and sc0: "sc_em sc0 = sc_em sc"
  defines "sc2 \<equiv> push_entry E g (fe_first_seq e) (of_nat (length (fe_blocks e))) e sc0"
  obtains ps' where "holds (sc_em sc2) ps'" "length ps' < 32"
    "ps' \<noteq> [] \<longrightarrow> List.last ps' = e"
    "\<forall>p \<in> set ps'. fe_first_seq p \<le> fe_first_seq e \<and> (\<forall>x \<in> set rest. fe_first_seq p < fe_first_seq x \<longrightarrow> near p x)"
    "delivered g (sc_calls sc2) ps' = delivered g (sc_calls sc0) (ps @ [e])"
proof -
  let ?em = "se_push E (fe_first_seq e) (of_nat (length (fe_blocks e))) (fe_ptr e + 22) (frame_body e) (fe_blocks e) (sc_em sc)"
  have h: "holds ?em (ps @ [e])"
    using b e entry_step(2) [OF e(1,2)] by (intro push) auto
  have all: "\<forall>p \<in> set (ps @ [e]). fe_first_seq p \<le> fe_first_seq e \<and>
      (\<forall>x \<in> set rest. fe_first_seq p < fe_first_seq x \<longrightarrow> near p x)"
    using b e(4) later by auto
  show thesis
  proof (cases "se_is_full E ?em")
    case True
    obtain em1 cs where f: "se_flush E g ?em = (em1, cs)" by fastforce
    show ?thesis
      using flush [OF h, of g] True f sc0 by (intro that [of "[]"]) (simp_all add: sc2_def push_entry_def Let_def)
  next
    case False
    then have "length ps < 31" using full [OF h] b by simp
    then show ?thesis
      using False h all sc0 by (intro that [of "ps @ [e]"]) (simp_all add: sc2_def push_entry_def Let_def)
  qed
qed

lemma scan_loop_sound:
  assumes "\<forall>e \<in> set es. entry_ok e \<and> good e"
    and "sorted_wrt (\<lambda>a b. fe_first_seq a < fe_first_seq b \<longrightarrow> near a b) es"
    and "buffered ws sc ps es" and st: "steady_ready sq"
    and "scan_loop E ws (sq_gen sq) (sq_session_lo sq) (sq_session_hi sq) es sc p = (sc', p', cold)"
  shows "\<exists>hot ps'. es = hot @ (case cold of None \<Rightarrow> [] | Some (c, rest) \<Rightarrow> c # rest) \<and>
    fst (ingest_each ws t hot (scan_state t sq sc p)) = scan_state t sq sc' p' \<and> holds (sc_em sc') ps' \<and>
    delivered (sq_gen sq) (sc_calls sc') ps'
      = delivered (sq_gen sq) (sc_calls sc) ps @ concat (map sem (snd (ingest_each ws t hot (scan_state t sq sc p))))"
  using assms(1-3,5)
proof (induction es arbitrary: sc ps p)
  case Nil
  then show ?case by (intro exI [of _ "[]"] exI [of _ ps]) simp
next
  case (Cons e es)
  let ?g = "sq_gen sq"
  let ?step = "steady_step E ws ?g (sq_session_lo sq) (sq_session_hi sq) e sc"
  have ok: "entry_ok e" "good e" "\<forall>e \<in> set es. entry_ok e \<and> good e"
      "sorted_wrt (\<lambda>a b. fe_first_seq a < fe_first_seq b \<longrightarrow> near a b) es"
      "\<forall>x \<in> set es. fe_first_seq e < fe_first_seq x \<longrightarrow> near e x"
    using Cons.prems by auto
  obtain sc1 out where step: "?step = (sc1, out)" by fastforce
  show ?case
  proof (cases out)
    case (Cold c)
    then have "sc1 = sc" "c = e" using steady_step_cold step by metis+
    then show ?thesis using Cons.prems(3,4) step Cold
      by (intro exI [of _ "[]"] exI [of _ ps]) auto
  next
    case DupSkipped
    note d = steady_step_dup(1) [OF step [unfolded DupSkipped] ok(1) st refl refl, where t = t and p = p]
      steady_step_dup(2-4) [OF step [unfolded DupSkipped] ok(1) st refl refl]
    have "buffered ws sc1 ps es" using Cons.prems(3) d by simp
    moreover have "scan_loop E ws ?g (sq_session_lo sq) (sq_session_hi sq) es sc1 p = (sc', p', cold)"
      using Cons.prems(4) step DupSkipped by simp
    ultimately obtain hot ps' where ih: "es = hot @ (case cold of None \<Rightarrow> [] | Some (c, rest) \<Rightarrow> c # rest)"
      "fst (ingest_each ws t hot (scan_state t sq sc1 p)) = scan_state t sq sc' p'" "holds (sc_em sc') ps'"
      "delivered ?g (sc_calls sc') ps'
        = delivered ?g (sc_calls sc1) ps @ concat (map sem (snd (ingest_each ws t hot (scan_state t sq sc1 p))))"
      using Cons.IH [OF ok(3,4)] by blast
    then show ?thesis using d by (intro exI [of _ "e # hot"] exI [of _ ps']) simp
  next
    case Advanced
    note a = steady_step_advanced(1) [OF step [unfolded Advanced] ok(1) st refl refl refl, where t = t and p = p]
      steady_step_advanced(2-5) [OF step [unfolded Advanced] ok(1) st refl refl refl]
    obtain sc0 where sc0: "sc_em sc0 = sc_em sc" "sc_calls sc0 = sc_calls sc"
      "let sc2 = if ws then push_entry E ?g (fe_first_seq e) (of_nat (length (fe_blocks e))) e sc0 else emit_entry ?g e sc0
       in sc_em sc1 = sc_em sc2 \<and> sc_calls sc1 = sc_calls sc2"
      using a(5) by blast
    note lt = entry_step(1) [OF ok(1) a(4)]
    let ?out = "if ws then [OnSpan ?g (entry_span e)] else entry_msgs ?g e"
    have "\<exists>ps1. buffered ws sc1 ps1 es \<and>
        delivered ?g (sc_calls sc1) ps1 = delivered ?g (sc_calls sc) ps @ concat (map sem ?out)"
    proof (cases ws)
      case True
      obtain ps1 where "holds (sc_em sc1) ps1" "length ps1 < 32" "ps1 \<noteq> [] \<longrightarrow> List.last ps1 = e"
        "\<forall>p \<in> set ps1. fe_first_seq p \<le> fe_first_seq e \<and> (\<forall>x \<in> set es. fe_first_seq p < fe_first_seq x \<longrightarrow> near p x)"
        "delivered ?g (sc_calls sc1) ps1 = delivered ?g (sc_calls sc0) (ps @ [e])"
        using push_entry_buffer [OF Cons.prems(3) ok(1) a(4) ok(2) a(2) ok(5) sc0(1), where g = ?g] sc0(3) True
        by (auto simp: Let_def)
      then show ?thesis using True sc0(2) lt a(2,3) by (intro exI [of _ ps1]) auto
    next
      case False
      then have "ps = []" using Cons.prems(3) by blast
      then show ?thesis using False Cons.prems(3) sc0 by (intro exI [of _ "[]"]) (auto simp: Let_def)
    qed
    then obtain ps1 where b1: "buffered ws sc1 ps1 es"
      and d1: "delivered ?g (sc_calls sc1) ps1 = delivered ?g (sc_calls sc) ps @ concat (map sem ?out)" by blast
    have "scan_loop E ws ?g (sq_session_lo sq) (sq_session_hi sq) es sc1 True = (sc', p', cold)"
      using Cons.prems(4) step Advanced by simp
    then obtain hot ps' where ih: "es = hot @ (case cold of None \<Rightarrow> [] | Some (c, rest) \<Rightarrow> c # rest)"
      "fst (ingest_each ws t hot (scan_state t sq sc1 True)) = scan_state t sq sc' p'" "holds (sc_em sc') ps'"
      "delivered ?g (sc_calls sc') ps'
        = delivered ?g (sc_calls sc1) ps1 @ concat (map sem (snd (ingest_each ws t hot (scan_state t sq sc1 True))))"
      using Cons.IH [OF ok(3,4) b1] by blast
    then show ?thesis using a(1) d1 by (intro exI [of _ "e # hot"] exI [of _ ps']) simp
  qed
qed

lemma scan_finished:
  assumes "\<forall>e \<in> set es. entry_ok e \<and> good e"
    and "sorted_wrt (\<lambda>a b. fe_first_seq a < fe_first_seq b \<longrightarrow> near a b) es" and st: "steady_ready sq"
    and l: "scan_loop E ws (sq_gen sq) (sq_session_lo sq) (sq_session_hi sq) es (scan_start E (sq_w sq)) False
      = (sc, p, cold)"
  shows "\<exists>hot. es = hot @ (case cold of None \<Rightarrow> [] | Some (c, rest) \<Rightarrow> c # rest) \<and>
    fst (apply_scan t (scan_finish E (sq_gen sq) sc, p, cold) sq) = fst (ingest_each ws t hot sq) \<and>
    concat (map sem (snd (apply_scan t (scan_finish E (sq_gen sq) sc, p, cold) sq)))
      = concat (map sem (snd (ingest_each ws t hot sq)))"
proof -
  have start: "scan_state t sq (scan_start E (sq_w sq)) False = sq"
    by (simp add: scan_state_def scan_start_def commit_counters_def)
  have "buffered ws (scan_start E (sq_w sq)) [] es" using new by (simp add: scan_start_def)
  from scan_loop_sound [OF assms(1,2) this st l, of t] obtain hot ps where
    h: "es = hot @ (case cold of None \<Rightarrow> [] | Some (c, rest) \<Rightarrow> c # rest)"
      "fst (ingest_each ws t hot sq) = scan_state t sq sc p" "holds (sc_em sc) ps"
      "delivered (sq_gen sq) (sc_calls sc) ps = concat (map sem (snd (ingest_each ws t hot sq)))"
    by (auto simp: start) (simp add: scan_start_def)
  obtain em cs where f: "se_flush E (sq_gen sq) (sc_em sc) = (em, cs)" by fastforce
  have "fst (apply_scan t (scan_finish E (sq_gen sq) sc, p, cold) sq) = scan_state t sq sc p"
    by (simp add: apply_scan_def scan_finish_def f scan_state_def commit_counters_def)
  then show ?thesis
    using h flush [OF h(3), of "sq_gen sq"] by (intro exI [of _ hot]) (simp add: apply_scan_def scan_finish_def f)
qed

lemma drive_each:
  assumes scan: "\<And>sq es. scan sq es =
      (let (sc, p, cold) = scan_loop E ws (sq_gen sq) (sq_session_lo sq) (sq_session_hi sq) es (scan_start E (sq_w sq)) False
       in (scan_finish E (sq_gen sq) sc, p, cold))"
    and "\<forall>e \<in> set es. entry_ok e \<and> good e"
    and "sorted_wrt (\<lambda>a b. fe_first_seq a < fe_first_seq b \<longrightarrow> near a b) es" and "length es < fuel"
  shows "fst (drive scan ws t fuel es sq) = fst (ingest_each ws t es sq) \<and>
    concat (map sem (snd (drive scan ws t fuel es sq))) = concat (map sem (snd (ingest_each ws t es sq)))"
  using assms(2-4)
proof (induction fuel arbitrary: es sq)
  case 0
  then show ?case by simp
next
  case (Suc fuel)
  show ?case
  proof (cases "steady_ready sq")
    case False
    then show ?thesis
    proof (cases es)
      case (Cons e rest)
      then show ?thesis using False Suc.IH [of rest] Suc.prems by (simp add: fst_andThen snd_andThen)
    qed simp
  next
    case True
    obtain sc p cold where l: "scan_loop E ws (sq_gen sq) (sq_session_lo sq) (sq_session_hi sq) es
        (scan_start E (sq_w sq)) False = (sc, p, cold)" by (metis prod_cases3)
    then have r: "scan sq es = (scan_finish E (sq_gen sq) sc, p, cold)" by (simp add: scan)
    from scan_finished [OF Suc.prems(1,2) True l, of t] obtain hot where
      h: "es = hot @ (case cold of None \<Rightarrow> [] | Some (c, rest) \<Rightarrow> c # rest)"
        "fst (apply_scan t (scan sq es) sq) = fst (ingest_each ws t hot sq)"
        "concat (map sem (snd (apply_scan t (scan sq es) sq))) = concat (map sem (snd (ingest_each ws t hot sq)))"
      unfolding r by blast
    have dr: "drive scan ws t (Suc fuel) es sq = andThen (apply_scan t (scan sq es) sq)
        (\<lambda>sq1. case cold of Some (c, rest) \<Rightarrow> andThen (cold_apply ws t c sq1) (drive scan ws t fuel rest)
          | None \<Rightarrow> (sq1, []))"
      using True by (simp add: r)
    show ?thesis
    proof (cases cold)
      case None
      then have es: "es = hot" using h(1) by simp
      show ?thesis unfolding dr using None h(2,3) es by (simp add: fst_andThen snd_andThen)
    next
      case (Some cr)
      then obtain c rest where cr: "cold = Some (c, rest)" by (cases cr) simp
      then have es: "es = hot @ c # rest" using h(1) by simp
      then have "fst (drive scan ws t fuel rest s) = fst (ingest_each ws t rest s) \<and>
          concat (map sem (snd (drive scan ws t fuel rest s))) = concat (map sem (snd (ingest_each ws t rest s)))" for s
        using Suc.prems by (intro Suc.IH) (auto simp: sorted_wrt_append)
      then show ?thesis
        unfolding dr using h(2,3) cr by (simp add: es [symmetric] fst_andThen snd_andThen)
          (simp add: es fst_andThen snd_andThen ingest_each_append)
    qed
  qed
qed

end

section \<open>The record emitter\<close>

interpretation records: span_emitter rec_emitter "\<lambda>em es. em = map entry_span es" expand "\<lambda>_. True" "\<lambda>_ _. True"
  by unfold_locales (auto simp: rec_emitter_def entry_span_def comp_def)

section \<open>The packed emitter\<close>

text \<open>What a sink in packed mode learns from a call: the spans by their position, their first
  sequence number, count and body; \<open>mem\<close> is the memory the addresses point into.\<close>

datatype Delivered = Span u64 u64 u16 bytes | Other SinkCall

definition read_mem :: "(u64 \<Rightarrow> u8) \<Rightarrow> u64 \<Rightarrow> nat \<Rightarrow> bytes" where
  "read_mem mem ptr n = map (\<lambda>i. mem (ptr + of_nat i)) [0 ..< n]"

fun unpack_words :: "(u64 \<Rightarrow> u8) \<Rightarrow> u64 \<Rightarrow> u64 \<Rightarrow> u64 \<Rightarrow> u64 list \<Rightarrow> Delivered list" where
  "unpack_words mem gen first base [] = []"
| "unpack_words mem gen first base (word # ws) =
     (let cnt = drop_bit 48 word
      in Span gen first (ucast cnt)
           (read_mem mem (base + (word AND 0xFFFFFFFF)) (unat (drop_bit 32 word AND 0xFFFF)))
         # unpack_words mem gen (first + cnt) base ws)"

fun spans_of :: "(u64 \<Rightarrow> u8) \<Rightarrow> SinkCall \<Rightarrow> Delivered list" where
  "spans_of mem (OnSpan g r) = [Span g (sr_first_seq r) (sr_count r) (sr_body r)]"
| "spans_of mem (OnSpanBatch g rs) = map (\<lambda>r. Span g (sr_first_seq r) (sr_count r) (sr_body r)) rs"
| "spans_of mem (OnSpanBatchPacked g first n base words) = unpack_words mem g first base words"
| "spans_of mem c = [Other c]"

definition body_ptr :: "FrameEntry \<Rightarrow> u64" where
  "body_ptr e = fe_ptr e + 22"

definition in_memory :: "(u64 \<Rightarrow> u8) \<Rightarrow> FrameEntry \<Rightarrow> bool" where
  "in_memory mem e \<longleftrightarrow> length (frame_body e) < 65536 \<and> read_mem mem (body_ptr e) (length (frame_body e)) = frame_body e"

definition in_reach :: "FrameEntry \<Rightarrow> FrameEntry \<Rightarrow> bool" where
  "in_reach a b \<longleftrightarrow> unat (body_ptr b - body_ptr a) < 2 ^ 32"

definition packed_word :: "u64 \<Rightarrow> FrameEntry \<Rightarrow> u64" where
  "packed_word base e =
     (body_ptr e - base) OR push_bit 32 (of_nat (length (frame_body e)))
       OR push_bit 48 (ucast (of_nat (length (fe_blocks e)) :: u16))"

text \<open>A word packs and unpacks its three fields.\<close>

lemma bit_below:
  fixes x :: u64
  assumes "unat x < 2 ^ k" "bit x n"
  shows "n < k"
proof (rule ccontr)
  assume "\<not> n < k"
  then have "(2 :: nat) ^ k \<le> 2 ^ n" by simp
  then have "unat x < 2 ^ n" using assms(1) by linarith
  then have "\<not> bit (unat x) n" by (simp add: bit_iff_odd)
  then show False using assms(2) by (simp add: bit_unsigned_iff)
qed

lemma packed_fields:
  fixes off len cnt :: u64
  assumes "unat off < 2 ^ 32" "unat len < 2 ^ 16" "unat cnt < 2 ^ 16"
  shows "(off OR push_bit 32 len OR push_bit 48 cnt) AND 0xFFFFFFFF = off"
    "drop_bit 32 (off OR push_bit 32 len OR push_bit 48 cnt) AND 0xFFFF = len"
    "drop_bit 48 (off OR push_bit 32 len OR push_bit 48 cnt) = cnt"
proof -
  note b = bit_below [OF assms(1)] bit_below [OF assms(2)] bit_below [OF assms(3)]
  have m: "0xFFFFFFFF = (mask 32 :: u64)" "0xFFFF = (mask 16 :: u64)" by (simp_all add: mask_eq_exp_minus_1)
  show "(off OR push_bit 32 len OR push_bit 48 cnt) AND 0xFFFFFFFF = off"
    unfolding m by (rule bit_word_eqI) (auto simp: bit_simps dest: b)
  show "drop_bit 32 (off OR push_bit 32 len OR push_bit 48 cnt) AND 0xFFFF = len"
    unfolding m by (rule bit_word_eqI) (auto simp: bit_simps dest: b)
  show "drop_bit 48 (off OR push_bit 32 len OR push_bit 48 cnt) = cnt"
    by (rule bit_word_eqI) (auto simp: bit_simps dest: b)
qed

text \<open>Consecutive entries from \<open>q\<close> on.\<close>

fun run_from :: "u64 \<Rightarrow> FrameEntry list \<Rightarrow> bool" where
  "run_from q [] = True"
| "run_from q (e # es) = (fe_first_seq e = q \<and> run_from (q + of_nat (length (fe_blocks e))) es)"

lemma run_from_snoc:
  "run_from q es \<Longrightarrow> es \<noteq> [] \<Longrightarrow>
    run_from q (es @ [e]) \<longleftrightarrow> fe_first_seq e = fe_first_seq (List.last es) + of_nat (length (fe_blocks (List.last es)))"
  by (induction es arbitrary: q) auto

definition packed_holds :: "(u64 \<Rightarrow> u8) \<Rightarrow> PackedEmitter \<Rightarrow> FrameEntry list \<Rightarrow> bool" where
  "packed_holds mem em es \<longleftrightarrow> pe_words em = map (packed_word (pe_base em)) es \<and>
     (es \<noteq> [] \<longrightarrow> pe_base em = body_ptr (hd es) \<and> pe_first0 em = fe_first_seq (hd es) \<and> run_from (fe_first_seq (hd es)) es) \<and>
     (\<forall>e \<in> set es. in_memory mem e \<and> length (fe_blocks e) < 65536 \<and> in_reach (hd es) e)"

lemma unpack_packed:
  assumes "\<forall>e \<in> set es. in_memory mem e \<and> length (fe_blocks e) < 65536 \<and> unat (body_ptr e - base) < 2 ^ 32"
    and "run_from q es"
  shows "unpack_words mem g q base (map (packed_word base) es)
    = map (\<lambda>e. Span g (fe_first_seq e) (of_nat (length (fe_blocks e))) (frame_body e)) es"
  using assms
proof (induction es arbitrary: q)
  case Nil
  then show ?case by simp
next
  case (Cons e es)
  let ?n = "length (fe_blocks e)" and ?b = "length (frame_body e)"
  have e: "in_memory mem e" "?n < 65536" "unat (body_ptr e - base) < 2 ^ 32" using Cons.prems(1) by simp_all
  have c: "(ucast (of_nat ?n :: u16) :: u64) = of_nat ?n"
    using e(2) by (intro word_unat_eq_iff [THEN iffD2]) (simp add: unat_of_nat_u64 unat_of_nat)
  have b: "unat (of_nat ?b :: u64) = ?b" "unat (of_nat ?b :: u64) < 2 ^ 16" "unat (of_nat ?n :: u64) < 2 ^ 16"
    using e(1,2) by (simp_all add: in_memory_def unat_of_nat_u64)
  have u: "(ucast (of_nat ?n :: u64) :: u16) = of_nat ?n"
    using e(2) by (intro word_unat_eq_iff [THEN iffD2]) (simp add: unsigned_ucast_eq take_bit_eq_mod unat_of_nat)
  have w: "(body_ptr e - base) OR push_bit 32 (of_nat ?b) OR push_bit 48 (of_nat ?n) = packed_word base e"
    by (simp only: packed_word_def c)
  note f = packed_fields [OF e(3) b(2,3), unfolded w]
  have "unpack_words mem g (q + of_nat ?n) base (map (packed_word base) es)
      = map (\<lambda>e. Span g (fe_first_seq e) (of_nat (length (fe_blocks e))) (frame_body e)) es"
    using Cons.prems by (intro Cons.IH) simp_all
  then show ?case using Cons.prems(2) e(1) b(1) f u by (simp add: Let_def in_memory_def)
qed

interpretation packed: span_emitter packed_emitter "packed_holds mem" "spans_of mem" "in_memory mem" in_reach
  for mem
proof unfold_locales
  show "packed_holds mem (se_new packed_emitter) []"
    by (simp add: packed_holds_def packed_emitter_def)
next
  fix em es e
  assume h: "packed_holds mem em es" "in_memory mem e" "length (fe_blocks e) < 65536" "\<forall>p \<in> set es. in_reach p e"
    and link: "es \<noteq> [] \<Longrightarrow> fe_first_seq e = fe_first_seq (List.last es) + of_nat (length (fe_blocks (List.last es)))"
  let ?em = "se_push packed_emitter (fe_first_seq e) (of_nat (length (fe_blocks e))) (fe_ptr e + 22) (frame_body e)
    (fe_blocks e) em"
  show "packed_holds mem ?em (es @ [e])"
  proof (cases "es = []")
    case True
    then show ?thesis using h
      by (simp add: packed_holds_def packed_emitter_def packed_push_def packed_word_def Let_def body_ptr_def in_reach_def)
  next
    case False
    then show ?thesis using h link run_from_snoc [of "fe_first_seq (hd es)" es e]
      by (auto simp: packed_holds_def packed_emitter_def packed_push_def packed_word_def Let_def body_ptr_def)
  qed
next
  fix em es
  assume "packed_holds mem em es"
  then show "se_is_full packed_emitter em \<longleftrightarrow> length es = 32" by (simp add: packed_holds_def packed_emitter_def)
next
  fix em es g
  assume h: "packed_holds mem em es"
  show "packed_holds mem (fst (se_flush packed_emitter g em)) [] \<and>
    concat (map (spans_of mem) (snd (se_flush packed_emitter g em)))
      = concat (map (\<lambda>e. spans_of mem (OnSpan g (entry_span e))) es)"
  proof (cases "es = []")
    case True
    then show ?thesis using h by (simp add: packed_holds_def packed_emitter_def packed_flush_def)
  next
    case False
    have "unpack_words mem g (fe_first_seq (hd es)) (body_ptr (hd es)) (map (packed_word (body_ptr (hd es))) es)
        = map (\<lambda>e. Span g (fe_first_seq e) (of_nat (length (fe_blocks e))) (frame_body e)) es"
      using h False by (intro unpack_packed) (auto simp: packed_holds_def in_reach_def)
    then show ?thesis using h False
      by (simp add: packed_holds_def packed_emitter_def packed_flush_def entry_span_def concat_map_singleton_eq)
  qed
qed

end
