(* ===== verification/GroupLaw.thy ===== *)
theory GroupLaw
  imports BatchLaw
begin

text \<open>
  The group fast paths are the scalar ladder.  Whenever a kernel that meets the
  \<open>SoaLadder8\<close> contract accepts a group and the eligibility bytes pass the gate, applying
  the group leaves exactly the locals, emitter and sink calls of the eight or sixteen
  \<open>steady_step\<close>s, so the ladder scan and the plain scan are the same function.
\<close>

section \<open>The deferred locals\<close>

definition set_locals ::
    "u64 \<Rightarrow> u64 \<times> u64 \<Rightarrow> u64 \<times> u64 \<Rightarrow> u64 \<times> u64 \<Rightarrow> u64 \<Rightarrow> u64 \<Rightarrow> 'e Scan \<Rightarrow> 'e Scan" where
  "set_locals w pk byt dup dm em sc =
     sc\<lparr>sc_w := w, sc_pk := pk, sc_byt := byt, sc_dup := dup, sc_dup_msgs := dm, sc_emitted := em\<rparr>"

lemma set_locals_simps [simp]:
  "sc_w (set_locals w pk byt dup dm em sc) = w" "sc_pk (set_locals w pk byt dup dm em sc) = pk"
  "sc_byt (set_locals w pk byt dup dm em sc) = byt" "sc_dup (set_locals w pk byt dup dm em sc) = dup"
  "sc_dup_msgs (set_locals w pk byt dup dm em sc) = dm" "sc_emitted (set_locals w pk byt dup dm em sc) = em"
  "set_locals w pk byt dup dm em (set_locals w' pk' byt' dup' dm' em' sc) = set_locals w pk byt dup dm em sc"
  by (simp_all add: set_locals_def)

definition emit_at ::
    "'e SpanEmit \<Rightarrow> bool \<Rightarrow> u64 \<Rightarrow> u64 list \<Rightarrow> u64 list \<Rightarrow> FrameEntry list \<Rightarrow> nat \<Rightarrow> 'e Scan \<Rightarrow> 'e Scan" where
  "emit_at E ws g firsts ns es i sc =
     (if ws then push_entry E g (firsts ! i) (ucast (ns ! i)) (es ! i) sc else emit_entry g (es ! i) sc)"

lemma emit_at_set_locals:
  "emit_at E ws g firsts ns es i (set_locals w pk byt dup dm em sc)
    = set_locals w pk byt dup dm em (emit_at E ws g firsts ns es i sc)"
  by (simp add: emit_at_def push_entry_def emit_entry_def set_locals_def Let_def split: prod.split)

lemma fold_emit_set_locals:
  "fold (emit_at E ws g firsts ns es) ks (set_locals w pk byt dup dm em sc)
    = set_locals w pk byt dup dm em (fold (emit_at E ws g firsts ns es) ks sc)"
  by (induction ks arbitrary: sc) (simp_all add: emit_at_set_locals)

lemma emit_at_locals [simp]:
  "sc_w (emit_at E ws g firsts ns es i sc) = sc_w sc" "sc_pk (emit_at E ws g firsts ns es i sc) = sc_pk sc"
  "sc_byt (emit_at E ws g firsts ns es i sc) = sc_byt sc" "sc_dup (emit_at E ws g firsts ns es i sc) = sc_dup sc"
  "sc_dup_msgs (emit_at E ws g firsts ns es i sc) = sc_dup_msgs sc"
  "sc_emitted (emit_at E ws g firsts ns es i sc) = sc_emitted sc"
  by (simp_all add: emit_at_def)

lemma fold_emit_locals [simp]: "sc_w (fold (emit_at E ws g firsts ns es) ks sc) = sc_w sc"
  by (induction ks arbitrary: sc) simp_all

section \<open>A group is its pairs\<close>

text \<open>An emitting entry \<open>2 * i\<close> and the pure duplicate after it.\<close>

definition pair_step ::
    "'e SpanEmit \<Rightarrow> bool \<Rightarrow> u64 \<Rightarrow> u8 \<Rightarrow> u8 \<Rightarrow> u64 list \<Rightarrow> u64 list \<Rightarrow> FrameEntry list \<Rightarrow> nat \<Rightarrow> 'e Scan \<Rightarrow> 'e Scan" where
  "pair_step E ws g f0 f1 firsts ns es i sc =
     set_locals (sc_w sc + ns ! (2 * i)) (bump2 f1 1 (bump2 f0 1 (sc_pk sc)))
       (bump2 f1 (of_nat (length (fe_bytes (es ! (2 * i + 1))))) (bump2 f0 (of_nat (length (fe_bytes (es ! (2 * i))))) (sc_byt sc)))
       (bump2 f1 1 (sc_dup sc)) (sc_dup_msgs sc + ns ! (2 * i + 1)) (sc_emitted sc + ns ! (2 * i))
       (emit_at E ws g firsts ns es (2 * i) sc)"

definition pairs_commit ::
    "'e SpanEmit \<Rightarrow> bool \<Rightarrow> u64 \<Rightarrow> u8 \<Rightarrow> u8 \<Rightarrow> u64 list \<Rightarrow> u64 list \<Rightarrow> FrameEntry list \<Rightarrow> nat list \<Rightarrow> 'e Scan \<Rightarrow> 'e Scan" where
  "pairs_commit E ws g f0 f1 firsts ns es ks sc =
     (let evens = map (\<lambda>i. 2 * i) ks; odds = map (\<lambda>i. 2 * i + 1) ks; m = of_nat (length ks);
          len = (\<lambda>i. of_nat (length (fe_bytes (es ! i))))
      in set_locals (sc_w sc + sum_at evens ((!) ns)) (bump2 f1 m (bump2 f0 m (sc_pk sc)))
           (bump2 f1 (sum_at odds len) (bump2 f0 (sum_at evens len) (sc_byt sc))) (bump2 f1 m (sc_dup sc))
           (sc_dup_msgs sc + sum_at odds ((!) ns)) (sc_emitted sc + sum_at evens ((!) ns))
           (fold (emit_at E ws g firsts ns es) evens sc))"

lemma bump2_join:
  "bump2 f1 a (bump2 f0 b (bump2 f1 c (bump2 f0 d x))) = bump2 f1 (c + a) (bump2 f0 (d + b) x)"
  "bump2 f a (bump2 f c x) = bump2 f (c + a) x"
  by (simp_all add: bump2_def ac_simps)

lemma pairs_commit_fold: "pairs_commit E ws g f0 f1 firsts ns es ks sc = fold (pair_step E ws g f0 f1 firsts ns es) ks sc"
proof (induction ks arbitrary: sc)
  case Nil
  then show ?case by (simp add: pairs_commit_def sum_at_def set_locals_def bump2_def)
next
  case (Cons k ks)
  have "pairs_commit E ws g f0 f1 firsts ns es (k # ks) sc
      = pairs_commit E ws g f0 f1 firsts ns es ks (pair_step E ws g f0 f1 firsts ns es k sc)"
    by (simp add: pairs_commit_def pair_step_def sum_at_def Let_def fold_emit_set_locals bump2_join ac_simps)
  then show ?case using Cons.IH by simp
qed

lemma group_commit_pairs:
  assumes "evens = map (\<lambda>i. 2 * i) ks" "odds = map (\<lambda>i. 2 * i + 1) ks"
  shows "group_commit E ws g evens odds firsts ns es sc
    = fold (pair_step E ws g (elig_feed (fe_elig (es ! 0))) (elig_feed (fe_elig (es ! 1))) firsts ns es) ks sc"
proof -
  define sc1 where "sc1 = set_locals (sc_w sc) (bump2 (elig_feed (fe_elig (es ! 1))) (of_nat (length evens))
      (bump2 (elig_feed (fe_elig (es ! 0))) (of_nat (length evens)) (sc_pk sc)))
    (bump2 (elig_feed (fe_elig (es ! 1))) (sum_at odds (\<lambda>i. of_nat (length (fe_bytes (es ! i)))))
      (bump2 (elig_feed (fe_elig (es ! 0))) (sum_at evens (\<lambda>i. of_nat (length (fe_bytes (es ! i))))) (sc_byt sc)))
    (bump2 (elig_feed (fe_elig (es ! 1))) (of_nat (length evens)) (sc_dup sc))
    (sc_dup_msgs sc + sum_at odds ((!) ns)) (sc_emitted sc + sum_at evens ((!) ns)) sc"
  have pe: "(\<lambda>i. push_entry E g (firsts ! i) (ucast (ns ! i)) (es ! i)) = emit_at E True g firsts ns es"
    "(\<lambda>i. emit_entry g (es ! i)) = emit_at E False g firsts ns es"
    by (simp_all add: fun_eq_iff emit_at_def)
  have if_ws: "(if ws then fold (emit_at E True g firsts ns es) evens x else fold (emit_at E False g firsts ns es) evens x)
      = fold (emit_at E ws g firsts ns es) evens x" for x
    by simp
  have w: "sc_w sc1 = sc_w sc" by (simp add: sc1_def)
  have sc1': "group_commit E ws g evens odds firsts ns es sc
      = (fold (emit_at E ws g firsts ns es) evens sc1)\<lparr>sc_w := sc_w (fold (emit_at E ws g firsts ns es) evens sc1)
          + sum_at evens ((!) ns)\<rparr>"
    unfolding group_commit_def Let_def pe if_ws sc1_def set_locals_def by simp
  then have "group_commit E ws g evens odds firsts ns es sc
      = (fold (emit_at E ws g firsts ns es) evens sc1)\<lparr>sc_w := sc_w sc + sum_at evens ((!) ns)\<rparr>"
    by (simp only: fold_emit_locals w)
  also have "\<dots> = pairs_commit E ws g (elig_feed (fe_elig (es ! 0))) (elig_feed (fe_elig (es ! 1))) firsts ns es ks sc"
    unfolding pairs_commit_def Let_def assms sc1_def fold_emit_set_locals by (simp add: set_locals_def)
  finally show ?thesis unfolding pairs_commit_fold .
qed

section \<open>A pair is two steps of the ladder\<close>

definition hot :: "u64 \<Rightarrow> u64 \<Rightarrow> FrameEntry \<Rightarrow> bool" where
  "hot lo hi e \<longleftrightarrow> fe_blocks e \<noteq> [] \<and> all_valid (fe_memo e) (length (fe_blocks e)) \<and>
     fe_sess_lo e = lo \<and> fe_sess_hi e = hi"

lemma bump2_feed [simp]: "bump2 (fd AND 3) = bump2 fd"
  by (intro ext) (simp add: bump2_def and.assoc)

lemma ucast_blocks: "k < 65536 \<Longrightarrow> (ucast (of_nat k :: u64) :: u16) = of_nat k"
  by (intro word_unat_eq_iff [THEN iffD2]) (simp add: unsigned_ucast_eq take_bit_eq_mod unat_of_nat)

lemma unat_last: "0 < n \<Longrightarrow> unat w + n < 2 ^ 64 \<Longrightarrow> unat (w + of_nat n - 1 :: u64) = unat w + n - 1"
proof -
  assume n: "0 < n" "unat w + n < 2 ^ 64"
  then have eq: "w + of_nat n - 1 = w + of_nat (n - 1)" by (simp add: of_nat_diff Suc_le_eq)
  have u: "unat (of_nat (n - 1) :: u64) = n - 1" by (rule unat_of_nat_u64) (use n in linarith)
  have "unat w + (n - 1) < 2 ^ 64" using n by linarith
  then have "unat (w + of_nat (n - 1)) = unat w + (n - 1)" using unat_plus_u64 [of w "of_nat (n - 1)"] by (simp only: u)
  moreover have "unat w + (n - 1) = unat w + n - 1" using n(1) by linarith
  ultimately show ?thesis by (simp only: eq)
qed

lemma pair_two_steps:
  fixes i :: nat and es :: "FrameEntry list"
  defines "a \<equiv> es ! (2 * i)" and "b \<equiv> es ! (2 * i + 1)"
  assumes ok: "entry_ok a" "entry_ok b" "hot lo hi a" "hot lo hi b"
    and rel: "fe_first_seq a = sc_w sc" "fe_first_seq b = fe_first_seq a" "length (fe_blocks b) \<le> length (fe_blocks a)"
    and arr: "firsts ! (2 * i) = fe_first_seq a" "ns ! (2 * i) = of_nat (length (fe_blocks a))"
      "ns ! (2 * i + 1) = of_nat (length (fe_blocks b))"
    and feeds: "f0 = fe_feed a AND 3" "f1 = fe_feed b AND 3"
  shows "scan_loop E ws g lo hi (a # b # rest) sc p
    = scan_loop E ws g lo hi rest (pair_step E ws g f0 f1 firsts ns es i sc) True"
proof -
  let ?na = "length (fe_blocks a)" and ?nb = "length (fe_blocks b)"
  have h: "fe_blocks a \<noteq> []" "fe_blocks b \<noteq> []" "fe_sess_lo a = lo" "fe_sess_hi a = hi" "fe_sess_lo b = lo"
    "fe_sess_hi b = hi" "all_valid (fe_memo a) ?na"
    using ok(3,4) by (simp_all add: hot_def)
  note ea = entry_step [OF ok(1) h(1)] and eb = entry_step [OF ok(2) h(2)]
  obtain s c ms where "unat (fe_first_seq a) + length ms < 2 ^ 64" "fe_blocks a = frame_triples (fe_first_seq a) 20 ms"
    using entry_data [OF ok(1) h(1)] by metis
  then have no: "unat (sc_w sc) + ?na < 2 ^ 64" using rel(1) by simp
  have na: "0 < ?na" "0 < ?nb" using h by simp_all
  have lasts: "unat (sc_w sc + of_nat ?na - 1) = unat (sc_w sc) + ?na - 1"
    "unat (sc_w sc + of_nat ?nb - 1) = unat (sc_w sc) + ?nb - 1"
    using no na rel(3) by (simp_all add: unat_last)
  have wa: "unat (sc_w sc + of_nat ?na) = unat (sc_w sc) + ?na"
    using no by (simp add: unat_plus_u64 unat_of_nat_u64)
  have below: "\<not> sc_w sc + of_nat ?na - 1 < sc_w sc" "sc_w sc + of_nat ?nb - 1 < sc_w sc + of_nat ?na"
    unfolding word_less_nat_alt lasts wa using na rel(3) by linarith+
  define sc1 where "sc1 = sc\<lparr>sc_pk := bump2 f0 1 (sc_pk sc), sc_byt := bump2 f0 (of_nat (length (fe_bytes a))) (sc_byt sc)\<rparr>"
  define sc2 where "sc2 = emit_at E ws g firsts ns es (2 * i) sc1"
  define sc3 where "sc3 = sc2\<lparr>sc_emitted := sc_emitted sc2 + of_nat ?na, sc_w := sc_w sc + of_nat ?na\<rparr>"
  have "steady_step E ws g lo hi a sc = (sc3, Advanced)"
    using h rel(1) below(1) arr ea(2)
    by (simp add: steady_step_def Let_def sc3_def sc2_def sc1_def emit_at_def a_def [symmetric] feeds
        ucast_blocks)
  moreover have "steady_step E ws g lo hi b sc3 = (sc3\<lparr>sc_pk := bump2 f1 1 (sc_pk sc3),
      sc_byt := bump2 f1 (of_nat (length (fe_bytes b))) (sc_byt sc3), sc_dup := bump2 f1 1 (sc_dup sc3),
      sc_dup_msgs := sc_dup_msgs sc3 + of_nat ?nb\<rparr>, DupSkipped)"
    using h rel below(2) by (simp add: steady_step_def Let_def sc3_def feeds)
  moreover have "sc3\<lparr>sc_pk := bump2 f1 1 (sc_pk sc3),
      sc_byt := bump2 f1 (of_nat (length (fe_bytes b))) (sc_byt sc3), sc_dup := bump2 f1 1 (sc_dup sc3),
      sc_dup_msgs := sc_dup_msgs sc3 + of_nat ?nb\<rparr> = pair_step E ws g f0 f1 firsts ns es i sc"
  proof -
    have "sc1 = set_locals (sc_w sc) (bump2 f0 1 (sc_pk sc)) (bump2 f0 (of_nat (length (fe_bytes a))) (sc_byt sc))
        (sc_dup sc) (sc_dup_msgs sc) (sc_emitted sc) sc" by (simp add: sc1_def set_locals_def)
    moreover have "es ! Suc (2 * i) = b" by (simp add: b_def)
    ultimately show ?thesis
      using arr by (simp add: sc3_def sc2_def emit_at_set_locals pair_step_def a_def [symmetric])
        (simp add: set_locals_def)
  qed
  ultimately show ?thesis by simp
qed

text \<open>The relations of the pairs of a group, from the watermark \<open>w\<close>.\<close>

definition pair_rel :: "u64 \<Rightarrow> u64 \<Rightarrow> u64 \<Rightarrow> FrameEntry list \<Rightarrow> nat \<Rightarrow> bool" where
  "pair_rel lo hi w es i \<longleftrightarrow>
     (let a = es ! (2 * i); b = es ! (2 * i + 1) in
      hot lo hi a \<and> hot lo hi b \<and> fe_first_seq a = w \<and> fe_first_seq b = fe_first_seq a \<and>
      length (fe_blocks b) \<le> length (fe_blocks a) \<and>
      fe_feed a AND 3 = fe_feed (es ! 0) AND 3 \<and> fe_feed b AND 3 = fe_feed (es ! 1) AND 3)"

lemma drop_pair: "2 * m + 1 < length es \<Longrightarrow> drop (2 * m) es = es ! (2 * m) # es ! (2 * m + 1) # drop (2 * Suc m) es"
  by (simp add: Cons_nth_drop_Suc)

lemma pair_step_w: "sc_w (pair_step E ws g f0 f1 firsts ns es i sc) = sc_w sc + ns ! (2 * i)"
  by (simp add: pair_step_def)

lemma scan_pairs:
  assumes "2 * m \<le> length es" "\<forall>e \<in> set es. entry_ok e"
    and "\<And>i. i < m \<Longrightarrow> pair_rel lo hi (sc_w (fold (pair_step E ws g f0 f1 firsts ns es) [0 ..< i] sc)) es i"
    and "\<And>i. i < 2 * m \<Longrightarrow> firsts ! i = fe_first_seq (es ! i) \<and> ns ! i = of_nat (length (fe_blocks (es ! i)))"
    and feeds: "f0 = fe_feed (es ! 0) AND 3" "f1 = fe_feed (es ! 1) AND 3"
  shows "scan_loop E ws g lo hi es sc p = scan_loop E ws g lo hi (drop (2 * m) es)
      (fold (pair_step E ws g f0 f1 firsts ns es) [0 ..< m] sc) (p \<or> 0 < m)"
  using assms(1,3,4)
proof (induction m)
  case 0
  then show ?case by simp
next
  case (Suc m)
  let ?sc = "fold (pair_step E ws g f0 f1 firsts ns es) [0 ..< m] sc"
  have ih: "scan_loop E ws g lo hi es sc p = scan_loop E ws g lo hi (drop (2 * m) es) ?sc (p \<or> 0 < m)"
    using Suc.prems by (intro Suc.IH) simp_all
  have l: "2 * m + 1 < length es" using Suc.prems(1) by simp
  have ok: "entry_ok (es ! (2 * m))" "entry_ok (es ! (2 * m + 1))" using assms(2) l by simp_all
  have r: "pair_rel lo hi (sc_w ?sc) es m" using Suc.prems(2) [of m] by simp
  have a: "firsts ! (2 * m) = fe_first_seq (es ! (2 * m))" "ns ! (2 * m) = of_nat (length (fe_blocks (es ! (2 * m))))"
    "ns ! (2 * m + 1) = of_nat (length (fe_blocks (es ! (2 * m + 1))))"
    using Suc.prems(3) [of "2 * m"] Suc.prems(3) [of "2 * m + 1"] by simp_all
  have "scan_loop E ws g lo hi (es ! (2 * m) # es ! (2 * m + 1) # drop (2 * Suc m) es) ?sc (p \<or> 0 < m)
      = scan_loop E ws g lo hi (drop (2 * Suc m) es) (pair_step E ws g f0 f1 firsts ns es m ?sc) True"
    using r unfolding pair_rel_def Let_def feeds
    by (intro pair_two_steps ok a) simp_all
  then show ?case using ih drop_pair [OF l] by simp
qed

section \<open>The group fast paths\<close>

lemma gather_nth [simp]:
  "i < k \<Longrightarrow> gather_firsts k es ! i = fe_first_seq (es ! i)"
  "i < k \<Longrightarrow> gather_ns k es ! i = of_nat (length (fe_blocks (es ! i)))"
  "length (gather_firsts k es) = k" "length (gather_ns k es) = k"
  by (simp_all add: gather_firsts_def gather_ns_def)

lemma if_False_conj: "(if c then False else x) \<longleftrightarrow> \<not> c \<and> x"
  by simp

lemma group_gate_hot:
  assumes "group_gate k lo hi es" "\<forall>i < k. elig_ok blo bhi (es ! i)" "2 \<le> k" "i < k"
  shows "hot lo hi (es ! i)"
    and "fe_feed (es ! i) AND 3 = fe_feed (es ! (if even i then 0 else 1)) AND 3"
proof -
  let ?el = "\<lambda>j. fe_elig (es ! j)"
  note gate = assms(1) [unfolded group_gate_def Let_def if_False_conj]
  note c = conjunct1 [OF gate] and all = conjunct2 [OF gate, unfolded list_all_iff]
  have "i \<in> set [0 ..< k]" using assms(4) by simp
  note at = bspec [OF all this]
  have i: "?el i AND 0x80 \<noteq> 0" "elig_feed (?el i) = (if even i then elig_feed (?el 0) else elig_feed (?el 1))"
    using at by (simp_all only: de_Morgan_disj not_not simp_thms)
  have e: "elig_ok blo bhi (es ! 0)" "elig_ok blo bhi (es ! 1)" "elig_ok blo bhi (es ! i)"
    using assms(2,3,4) by auto
  have "blo = lo" "bhi = hi" using e(1) c by (simp_all add: elig_ok_def)
  then show "hot lo hi (es ! i)" using e(3) i(1) by (simp add: elig_ok_def hot_def)
  show "fe_feed (es ! i) AND 3 = fe_feed (es ! (if even i then 0 else 1)) AND 3"
    using e i(2) unfolding elig_ok_def by (cases "even i") simp_all
qed

text \<open>Block counts compare as the words of the kernel do.\<close>

lemma blocks_le:
  assumes "entry_ok a" "fe_blocks a \<noteq> []" "entry_ok b" "fe_blocks b \<noteq> []"
    "(of_nat (length (fe_blocks b)) :: u64) \<le> of_nat (length (fe_blocks a))"
  shows "length (fe_blocks b) \<le> length (fe_blocks a)"
  using assms(5) entry_step(2) [OF assms(1,2)] entry_step(2) [OF assms(3,4)]
  by (simp add: word_le_nat_alt unat_of_nat_u64)

lemma fold_pair_w:
  "sc_w (fold (pair_step E ws g f0 f1 firsts ns es) [0 ..< i] sc)
    = sc_w sc + sum_at (map (\<lambda>j. 2 * j) [0 ..< i]) ((!) ns)"
  by (induction i) (simp_all add: pair_step_w sum_at_def)

text \<open>A verified group of \<open>m\<close> pairs, whose relations hold from the watermark on, is \<open>2 * m\<close> steps.\<close>

lemma group_scan:
  assumes len: "2 * m \<le> length es" "1 \<le> m" and ok: "\<forall>e \<in> set es. entry_ok e"
    and gate: "group_gate (2 * m) lo hi es" "\<forall>i < 2 * m. elig_ok blo bhi (es ! i)"
    and rel: "\<And>i. i < m \<Longrightarrow> fe_first_seq (es ! (2 * i)) = sc_w sc + sum_at (map (\<lambda>j. 2 * j) [0 ..< i]) ((!) (gather_ns (2 * m) es))"
      "\<And>i. i < m \<Longrightarrow> fe_first_seq (es ! (2 * i + 1)) = fe_first_seq (es ! (2 * i))"
      "\<And>i. i < m \<Longrightarrow> (of_nat (length (fe_blocks (es ! (2 * i + 1)))) :: u64) \<le> of_nat (length (fe_blocks (es ! (2 * i))))"
  shows "scan_loop E ws g lo hi es sc p = scan_loop E ws g lo hi (drop (2 * m) es)
      (group_commit E ws g (map (\<lambda>i. 2 * i) [0 ..< m]) (map (\<lambda>i. 2 * i + 1) [0 ..< m])
        (gather_firsts (2 * m) es) (gather_ns (2 * m) es) es sc) True"
proof -
  have h: "hot lo hi (es ! i)" "fe_feed (es ! i) AND 3 = fe_feed (es ! (if even i then 0 else 1)) AND 3"
    if "i < 2 * m" for i
    using group_gate_hot [OF gate _ that] len(2) by simp_all
  have e: "elig_ok blo bhi (es ! 0)" "elig_ok blo bhi (es ! 1)" using gate(2) len(2) by auto
  have feeds: "elig_feed (fe_elig (es ! 0)) = fe_feed (es ! 0) AND 3" "elig_feed (fe_elig (es ! 1)) = fe_feed (es ! 1) AND 3"
    using e by (simp_all add: elig_ok_def)
  have pr: "pair_rel lo hi (sc_w (fold (pair_step E ws g (fe_feed (es ! 0) AND 3) (fe_feed (es ! 1) AND 3)
      (gather_firsts (2 * m) es) (gather_ns (2 * m) es) es) [0 ..< i] sc)) es i" if i: "i < m" for i
  proof -
    have l: "2 * i < 2 * m" "2 * i + 1 < 2 * m" using i by simp_all
    have o: "entry_ok (es ! (2 * i))" "entry_ok (es ! (2 * i + 1))" using ok l len(1) by simp_all
    have "length (fe_blocks (es ! (2 * i + 1))) \<le> length (fe_blocks (es ! (2 * i)))"
      using h(1) [OF l(1)] h(1) [OF l(2)] rel(3) [OF i] o by (intro blocks_le) (simp_all add: hot_def)
    then show ?thesis
      using h [OF l(1)] h [OF l(2)] rel(1,2) [OF i]
      unfolding pair_rel_def Let_def fold_pair_w by simp
  qed
  have "scan_loop E ws g lo hi es sc p = scan_loop E ws g lo hi (drop (2 * m) es)
      (fold (pair_step E ws g (fe_feed (es ! 0) AND 3) (fe_feed (es ! 1) AND 3)
        (gather_firsts (2 * m) es) (gather_ns (2 * m) es) es) [0 ..< m] sc) (p \<or> 0 < m)"
    by (rule scan_pairs [OF len(1) ok pr]) simp_all
  then show ?thesis using len(2) unfolding group_commit_pairs [OF refl refl] feeds by simp
qed

lemma sum_at_drop:
  "sum_at (map (\<lambda>j. 2 * j) [0 ..< 4 + k]) ((!) ns) = sum_at [0, 2, 4, 6] ((!) ns) + sum_at (map (\<lambda>j. 2 * j) [0 ..< k]) ((!) (drop 8 ns))"
  if "8 \<le> length ns"
proof (induction k)
  case 0
  have "[0 ..< 4] = [0, 1, 2, 3 :: nat]" by (simp add: upt_rec)
  then show ?case by (simp add: sum_at_def)
next
  case (Suc k)
  have "[0 ..< 4 + Suc k] = [0 ..< 4 + k] @ [4 + k]" unfolding add_Suc_right by (rule upt_Suc_append) simp
  then have "sum_at (map (\<lambda>j. 2 * j) [0 ..< 4 + Suc k]) ((!) ns)
      = sum_at (map (\<lambda>j. 2 * j) [0 ..< 4 + k]) ((!) ns) + drop 8 ns ! (2 * k)"
    using that by (simp only: sum_at_def) (simp add: sum_at_def)
  then show ?case unfolding Suc.IH by (simp add: sum_at_def add.assoc)
qed

lemma pair_indices:
  "[0, 2, 4, 6] = map (\<lambda>i. 2 * i) [0 ..< 4 :: nat]" "[1, 3, 5, 7] = map (\<lambda>i. 2 * i + 1) [0 ..< 4 :: nat]"
  "[0, 2, 4, 6, 8, 10, 12, 14] = map (\<lambda>i. 2 * i) [0 ..< 8 :: nat]"
  "[1, 3, 5, 7, 9, 11, 13, 15] = map (\<lambda>i. 2 * i + 1) [0 ..< 8 :: nat]"
  by (simp_all add: upt_rec)

context soa_ladder
begin

lemma pair_rels:
  assumes "ladder8 firsts ns w" "length firsts = 8" "length ns = 8" "i < 4"
  shows "firsts ! (2 * i) = w + sum_at (map (\<lambda>j. 2 * j) [0 ..< i]) ((!) ns)"
    "firsts ! (2 * i + 1) = firsts ! (2 * i)" "ns ! (2 * i + 1) \<le> ns ! (2 * i)"
proof -
  note l = even_lanes [OF assms(2,3,1)] odd_lanes [OF assms(2,3,1)]
  have u: "[0 ..< 1] = [0 :: nat]" "[0 ..< 2] = [0, 1 :: nat]" "[0 ..< 3] = [0, 1, 2 :: nat]"
    by (simp_all add: upt_rec)
  consider "i = 0" | "i = 1" | "i = 2" | "i = 3" using assms(4) by linarith
  then have "firsts ! (2 * i) = w + sum_at (map (\<lambda>j. 2 * j) [0 ..< i]) ((!) ns) \<and>
      firsts ! (2 * i + 1) = firsts ! (2 * i) \<and> ns ! (2 * i + 1) \<le> ns ! (2 * i)"
  proof cases
    case 1
    then show ?thesis using l(1,5) by (simp add: sum_at_def)
  next
    case 2
    then show ?thesis using l(2,6) by (simp add: sum_at_def)
  next
    case 3
    then show ?thesis using l(3,7) u(2) by (simp add: sum_at_def add.assoc)
  next
    case 4
    then show ?thesis using l(4,8) u(3) by (simp add: sum_at_def add.assoc)
  qed
  then show "firsts ! (2 * i) = w + sum_at (map (\<lambda>j. 2 * j) [0 ..< i]) ((!) ns)"
    "firsts ! (2 * i + 1) = firsts ! (2 * i)" "ns ! (2 * i + 1) \<le> ns ! (2 * i)" by blast+
qed

text \<open>The eight-entry group.\<close>

lemma group8_scan:
  assumes "ladder_group_apply E ws g lo hi ladder8 es sc = Some sc1" "8 \<le> length es"
    "\<forall>e \<in> set es. entry_ok e" "\<forall>i < 8. elig_ok blo bhi (es ! i)"
  shows "scan_loop E ws g lo hi es sc p = scan_loop E ws g lo hi (drop 8 es) sc1 True"
proof -
  let ?f = "gather_firsts 8 es" and ?n = "gather_ns 8 es"
  have l: "ladder8 ?f ?n (sc_w sc)" "group_gate 8 lo hi es"
    and sc1: "sc1 = group_commit E ws g (map (\<lambda>i. 2 * i) [0 ..< 4]) (map (\<lambda>i. 2 * i + 1) [0 ..< 4]) ?f ?n es sc"
    using assms(1) unfolding ladder_group_apply_def Let_def pair_indices by (auto split: if_split_asm)
  have r: "?f ! (2 * i) = sc_w sc + sum_at (map (\<lambda>j. 2 * j) [0 ..< i]) ((!) ?n)" "?f ! (2 * i + 1) = ?f ! (2 * i)"
    "?n ! (2 * i + 1) \<le> ?n ! (2 * i)" if "i < 4" for i
    using pair_rels [OF l(1) _ _ that] by simp_all
  have "scan_loop E ws g lo hi es sc p = scan_loop E ws g lo hi (drop (2 * 4) es)
      (group_commit E ws g (map (\<lambda>i. 2 * i) [0 ..< 4]) (map (\<lambda>i. 2 * i + 1) [0 ..< 4])
        (gather_firsts (2 * 4) es) (gather_ns (2 * 4) es) es sc) True"
  proof (rule group_scan [where blo = blo and bhi = bhi])
    fix i :: nat
    assume i: "i < 4"
    then have "2 * i < 8" "2 * i + 1 < 8" by simp_all
    note g = gather_nth(1,2) [OF this(1), of es] gather_nth(1,2) [OF this(2), of es]
    show "fe_first_seq (es ! (2 * i)) = sc_w sc + sum_at (map (\<lambda>j. 2 * j) [0 ..< i]) ((!) (gather_ns (2 * 4) es))"
      "fe_first_seq (es ! (2 * i + 1)) = fe_first_seq (es ! (2 * i))"
      "(of_nat (length (fe_blocks (es ! (2 * i + 1)))) :: u64) \<le> of_nat (length (fe_blocks (es ! (2 * i))))"
      using r [OF i] unfolding g by simp_all
  qed (use assms(2-4) l(2) in simp_all)
  then show ?thesis by (simp add: sc1)
qed

text \<open>The sixteen-entry group: the second kernel call is anchored at the watermark the first
  eight entries leave.\<close>

lemma group16_scan:
  assumes "ladder_group16_apply E ws g lo hi ladder8 es sc = Some sc1" "16 \<le> length es"
    "\<forall>e \<in> set es. entry_ok e" "\<forall>i < 16. elig_ok blo bhi (es ! i)"
  shows "scan_loop E ws g lo hi es sc p = scan_loop E ws g lo hi (drop 16 es) sc1 True"
proof -
  let ?f = "gather_firsts 16 es" and ?n = "gather_ns 16 es"
  have l: "ladder8 (take 8 ?f) (take 8 ?n) (sc_w sc)"
      "ladder8 (drop 8 ?f) (drop 8 ?n) (sc_w sc + sum_at [0, 2, 4, 6] ((!) ?n))" "group_gate 16 lo hi es"
    and sc1: "sc1 = group_commit E ws g (map (\<lambda>i. 2 * i) [0 ..< 8]) (map (\<lambda>i. 2 * i + 1) [0 ..< 8]) ?f ?n es sc"
    using assms(1) unfolding ladder_group16_apply_def Let_def pair_indices(3,4) by (auto split: if_split_asm)
  have r: "?f ! (2 * i) = sc_w sc + sum_at (map (\<lambda>j. 2 * j) [0 ..< i]) ((!) ?n)" "?f ! (2 * i + 1) = ?f ! (2 * i)"
    "?n ! (2 * i + 1) \<le> ?n ! (2 * i)" if "i < 8" for i
  proof -
    have "?f ! (2 * i) = sc_w sc + sum_at (map (\<lambda>j. 2 * j) [0 ..< i]) ((!) ?n) \<and>
      ?f ! (2 * i + 1) = ?f ! (2 * i) \<and> ?n ! (2 * i + 1) \<le> ?n ! (2 * i)"
    proof (cases "i < 4")
      case True
      have "sum_at (map (\<lambda>j. 2 * j) [0 ..< i]) ((!) (take 8 ?n)) = sum_at (map (\<lambda>j. 2 * j) [0 ..< i]) ((!) ?n)"
        unfolding sum_at_def using True by (intro arg_cong [where f = sum_list] map_cong) auto
      then show ?thesis using pair_rels [OF l(1) _ _ True] True by simp
    next
      case False
      then obtain k where i: "i = 4 + k" using le_Suc_ex [of 4 i] by auto
      then have k: "i = 4 + k" "k < 4" using that by simp_all
      show ?thesis using pair_rels [OF l(2) _ _ k(2)] k sum_at_drop [of ?n k] by (simp add: add.assoc)
    qed
    then show "?f ! (2 * i) = sc_w sc + sum_at (map (\<lambda>j. 2 * j) [0 ..< i]) ((!) ?n)" "?f ! (2 * i + 1) = ?f ! (2 * i)"
      "?n ! (2 * i + 1) \<le> ?n ! (2 * i)" by blast+
  qed
  have "scan_loop E ws g lo hi es sc p = scan_loop E ws g lo hi (drop (2 * 8) es)
      (group_commit E ws g (map (\<lambda>i. 2 * i) [0 ..< 8]) (map (\<lambda>i. 2 * i + 1) [0 ..< 8])
        (gather_firsts (2 * 8) es) (gather_ns (2 * 8) es) es sc) True"
  proof (rule group_scan [where blo = blo and bhi = bhi])
    fix i :: nat
    assume i: "i < 8"
    then have "2 * i < 16" "2 * i + 1 < 16" by simp_all
    note g = gather_nth(1,2) [OF this(1), of es] gather_nth(1,2) [OF this(2), of es]
    show "fe_first_seq (es ! (2 * i)) = sc_w sc + sum_at (map (\<lambda>j. 2 * j) [0 ..< i]) ((!) (gather_ns (2 * 8) es))"
      "fe_first_seq (es ! (2 * i + 1)) = fe_first_seq (es ! (2 * i))"
      "(of_nat (length (fe_blocks (es ! (2 * i + 1)))) :: u64) \<le> of_nat (length (fe_blocks (es ! (2 * i))))"
      using r [OF i] unfolding g by simp_all
  qed (use assms(2-4) l(3) in simp_all)
  then show ?thesis by (simp add: sc1)
qed

text \<open>The ladder scan is the plain scan.\<close>

lemma ladder_loop_scan:
  assumes "\<forall>e \<in> set es. entry_ok e \<and> elig_ok blo bhi e"
  shows "ladder_loop E ws g lo hi (Some ladder8) es sc p = scan_loop E ws g lo hi es sc p"
  using assms
proof (induction "length es" arbitrary: es sc p rule: less_induct)
  case less
  show ?case
  proof (cases es)
    case (Cons e rest)
    show ?thesis
    proof (cases "group_step E ws g lo hi (Some ladder8) es sc")
      case None
      have "ladder_loop E ws g lo hi (Some ladder8) rest sc1 q = scan_loop E ws g lo hi rest sc1 q" for sc1 q
        using less Cons by simp
      then show ?thesis using None Cons by (simp split: prod.split StepOutcome.split)
    next
      case (Some r)
      then obtain k sc1 where r: "group_step E ws g lo hi (Some ladder8) es sc = Some (k, sc1)" by (cases r) simp
      then have k: "0 < k" "k \<le> length es" using group_step_advances by blast+
      have "(k = 16 \<and> 16 \<le> length es \<and> ladder_group16_apply E ws g lo hi ladder8 es sc = Some sc1) \<or>
        (k = 8 \<and> 8 \<le> length es \<and> ladder_group_apply E ws g lo hi ladder8 es sc = Some sc1)"
        using r by (auto simp: group_step_def split: option.splits if_split_asm)
      moreover have "\<forall>e \<in> set es. entry_ok e" "n \<le> length es \<Longrightarrow> \<forall>i < n. elig_ok blo bhi (es ! i)" for n
        using less.prems by simp_all
      ultimately have "scan_loop E ws g lo hi es sc p = scan_loop E ws g lo hi (drop k es) sc1 True"
        using group16_scan [of E ws g lo hi es sc sc1 blo bhi p] group8_scan [of E ws g lo hi es sc sc1 blo bhi p]
        by (elim disjE conjE) simp_all
      moreover have "ladder_loop E ws g lo hi (Some ladder8) (drop k es) sc1 True = scan_loop E ws g lo hi (drop k es) sc1 True"
        using less.prems k by (intro less.hyps) (auto dest: in_set_dropD)
      ultimately show ?thesis using r Cons by simp
    qed
  qed simp
qed

end

lemma ladder_loop_none: "ladder_loop E ws g lo hi None es sc p = scan_loop E ws g lo hi es sc p"
  by (induction es arbitrary: sc p) (simp_all add: group_step_def split: prod.split StepOutcome.split)

section \<open>Drivers on equal scans\<close>

lemma scan_loop_rest:
  "scan_loop E ws g lo hi es sc p = (sc', p', Some (c, rest)) \<Longrightarrow> set rest \<subseteq> set es"
  by (induction E ws g lo hi es sc p rule: scan_loop.induct) (auto split: prod.splits StepOutcome.splits)

lemma drive_cong:
  assumes "\<And>sq fs. set fs \<subseteq> set es \<Longrightarrow> scan sq fs = scan' sq fs"
    and "\<And>sq fs c rest. set fs \<subseteq> set es \<Longrightarrow> snd (snd (scan' sq fs)) = Some (c, rest) \<Longrightarrow> set rest \<subseteq> set fs"
    and "set fs \<subseteq> set es"
  shows "drive scan ws t fuel fs sq = drive scan' ws t fuel fs sq"
  using assms(3)
proof (induction fuel arbitrary: fs sq)
  case 0
  then show ?case by simp
next
  case (Suc fuel)
  show ?case
  proof (cases "steady_ready sq")
    case True
    have "drive scan ws t fuel rest s = drive scan' ws t fuel rest s"
      if "snd (snd (scan' sq fs)) = Some (c, rest)" for c rest s
      using Suc.IH assms(2) [OF Suc.prems that] Suc.prems by blast
    then show ?thesis using True assms(1) [OF Suc.prems]
      by (simp add: Let_def andThen_def split: option.split prod.split)
  next
    case False
    then show ?thesis using Suc by (cases fs) (simp_all add: andThen_def split: prod.split)
  qed
qed

definition plain_scanner :: "'e SpanEmit \<Rightarrow> bool \<Rightarrow> 'e scanner" where
  "plain_scanner E ws sq es =
     (let (sc, p, cold) = scan_loop E ws (sq_gen sq) (sq_session_lo sq) (sq_session_hi sq) es (scan_start E (sq_w sq)) False
      in (scan_finish E (sq_gen sq) sc, p, cold))"

lemma plain_scanner_rest: "snd (snd (plain_scanner E ws sq fs)) = Some (c, rest) \<Longrightarrow> set rest \<subseteq> set fs"
  by (auto simp: plain_scanner_def dest: scan_loop_rest [THEN subsetD] split: prod.splits)

lemma ladder_drive:
  assumes "ladder \<in> set ladder_kernels" "\<forall>e \<in> set es. entry_ok e \<and> elig_ok blo bhi e"
  shows "drive (\<lambda>sq es. steady_scan_ladder E ws (sq_gen sq) (sq_session_lo sq) (sq_session_hi sq) ladder es (sq_w sq))
      ws t fuel es sq = drive (plain_scanner E ws) ws t fuel es sq"
proof (rule drive_cong [OF _ plain_scanner_rest subset_refl])
  fix sq :: Sequencer and fs
  assume "set fs \<subseteq> set es"
  then have ok: "\<forall>e \<in> set fs. entry_ok e \<and> elig_ok blo bhi e" using assms(2) by blast
  have "ladder_loop E ws g lo hi ladder fs sc p = scan_loop E ws g lo hi fs sc p" for g lo hi sc p
    using assms(1) ladder_loop_none scalar_ptr8.ladder_loop_scan [OF ok] vector8.ladder_loop_scan [OF ok]
    by (auto simp: ladder_kernels_def)
  then show "steady_scan_ladder E ws (sq_gen sq) (sq_session_lo sq) (sq_session_hi sq) ladder fs (sq_w sq)
      = plain_scanner E ws sq fs"
    by (simp add: steady_scan_ladder_def plain_scanner_def)
qed

lemma batch_drives:
  "ingest_batch ws es t sq = drive (plain_scanner rec_emitter ws) ws t (Suc (length es)) es sq"
  "ingest_entries ws es t sq = drive (plain_scanner rec_emitter ws) ws t (Suc (length es)) es sq"
  by (simp_all add: ingest_batch_def ingest_entries_def steady_scan_def steady_scan_ref_def plain_scanner_def [abs_def])

section \<open>Batches against single frames\<close>

lemma cold_apply_classic:
  assumes "entry_ok e" "tmpl_ok sq"
  shows "same_out (cold_apply ws t e sq) (ingest (fe_bytes e) (fe_feed e) t sq)"
proof (cases "fe_blocks e = []")
  case True
  then show ?thesis using same_out_refl [OF ingest_plain] by (simp add: cold_apply_def ingest_auto_def)
next
  case False
  then obtain s c ms where "packet_ok s (fe_first_seq e) c ms" "fe_bytes e = mold_frame s (fe_first_seq e) c ms"
    "fe_blocks e = frame_triples (fe_first_seq e) 20 ms" "memo_ok (fe_memo e) ms"
    using entry_data [OF assms(1)] by metis
  then show ?thesis using ingest_auto_packet [OF _ _ assms(2)] by (simp add: cold_apply_def)
qed

definition entry_packet :: "u64 \<Rightarrow> FrameEntry \<Rightarrow> bytes \<times> FeedId \<times> u64" where
  "entry_packet now_ns e = (fe_bytes e, fe_feed e, now_ns)"

lemma ingest_run_entry:
  "ingest_run (entry_packet t e # ps) sq = andThen (ingest (fe_bytes e) (fe_feed e) t sq) (ingest_run ps)"
  by (simp add: entry_packet_def)

lemma ingest_each_classic:
  assumes "\<forall>e \<in> set es. entry_ok e" "tmpl_ok sq"
  shows "same_out (ingest_each ws t es sq) (ingest_run (map (entry_packet t) es) sq)"
  using assms
proof (induction es arbitrary: sq)
  case Nil
  then show ?case by (simp add: same_out_def)
next
  case (Cons e es)
  have 1: "same_out (cold_apply ws t e sq) (ingest (fe_bytes e) (fe_feed e) t sq)"
    using Cons.prems by (intro cold_apply_classic) simp_all
  have "same_out (ingest_each ws t es (fst (ingest (fe_bytes e) (fe_feed e) t sq)))
      (ingest_run (map (entry_packet t) es) (fst (ingest (fe_bytes e) (fe_feed e) t sq)))"
    using Cons.prems ingest_tmpl_ok by (intro Cons.IH) simp_all
  then show ?case using 1 by (simp add: same_out_def ingest_run_entry fst_andThen snd_andThen)
qed

lemma batch_classic:
  assumes "list_all entry_ok es" "tmpl_ok sq"
  shows "same_out (drive (plain_scanner rec_emitter ws) ws t (Suc (length es)) es sq)
    (ingest_run (map (entry_packet t) es) sq)"
proof -
  have "\<forall>e \<in> set es. entry_ok e" using assms(1) by (simp add: list_all_iff)
  then show ?thesis
    using records.drive_each [of "plain_scanner rec_emitter ws" ws es "Suc (length es)" t sq]
      ingest_each_classic [of es sq ws t] assms(2)
    by (simp add: plain_scanner_def same_out_def expand_all_def)
qed

section \<open>Properties\<close>

text \<open>C7: batching changes nothing observable.  For every slice of entries that describe
  their frames, whatever the frames are (duplicates, gaps, heartbeats, malformed payloads,
  session changes) and whatever state the sequencer is in, \<open>ingest_batch\<close> and
  \<open>ingest_entries\<close> leave exactly the state, counters included, that feeding the frames to
  \<open>ingest\<close> one by one leaves, and their sink calls deliver the same messages and events in
  the same order.\<close>

theorem batch_ingest_classic:
  assumes "list_all entry_ok entries" and "tmpl_ok sq"
  shows "fst (ingest_batch wants_spans entries now_ns sq) = fst (ingest_run (map (entry_packet now_ns) entries) sq) \<and>
    expand_all (snd (ingest_batch wants_spans entries now_ns sq))
      = snd (ingest_run (map (entry_packet now_ns) entries) sq) \<and>
    ingest_entries wants_spans entries now_ns sq = ingest_batch wants_spans entries now_ns sq"
  using batch_classic [OF assms] unfolding batch_drives same_out_def by blast

text \<open>A sample slice: two copies of a packet, eligible for the group path, and a heartbeat.\<close>

definition sample_entry :: "FeedId \<Rightarrow> FrameEntry" where
  "sample_entry fd =
     (let frame = mold_frame sample_session 5 2 [sample_msg, sample_msg] in
      \<lparr>fe_ptr = 4096, fe_bytes = frame, fe_feed = fd, fe_blocks = frame_triples 5 20 [sample_msg, sample_msg],
       fe_memo = Some \<lparr>fm_valid_count = 2\<rparr>, fe_first_seq = 5,
       fe_sess_lo = u64_from_le_bytes (slice 0 8 frame), fe_sess_hi = u64_from_le_bytes (slice 2 10 frame),
       fe_elig = (fd AND 3) OR 0x80\<rparr>)"

definition sample_heartbeat :: FrameEntry where
  "sample_heartbeat =
     \<lparr>fe_ptr = 8192, fe_bytes = mold_frame sample_session 7 0 [], fe_feed = 0, fe_blocks = [], fe_memo = None,
      fe_first_seq = 0, fe_sess_lo = 0, fe_sess_hi = 0, fe_elig = 0\<rparr>"

lemma sample_two_ok: "packet_ok sample_session 5 2 [sample_msg, sample_msg]"
  by (simp add: packet_ok_def sample_session_def sample_msg_def mold_frame_def mold_body_def mold_block_def)

lemma sample_entry_ok: "entry_ok (sample_entry fd)"
proof -
  have "memo_ok (Some \<lparr>fm_valid_count = 2\<rparr>) [sample_msg, sample_msg]"
    by (simp add: memo_ok_def sample_msg_def ITCH_LENGTH_def length_table_def)
  then show ?thesis using sample_two_ok
    unfolding entry_ok_def sample_entry_def Let_def
    by (intro disjI2 exI [of _ sample_session] exI [of _ 2] exI [of _ "[sample_msg, sample_msg]"]) simp
qed

lemma sample_entries_ok: "list_all entry_ok [sample_entry 0, sample_entry 1, sample_heartbeat]"
  using sample_entry_ok by (simp add: sample_heartbeat_def) (simp add: entry_ok_def)

lemma batch_ingest_classic_witness:
  "fst (ingest_batch True [sample_entry 0, sample_entry 1, sample_heartbeat] 9 Sequencer_new_unboxed)
    = fst (ingest_run (map (entry_packet 9) [sample_entry 0, sample_entry 1, sample_heartbeat]) Sequencer_new_unboxed)"
  using batch_ingest_classic [OF sample_entries_ok new_tmpl_ok] by blast

text \<open>C11: the vectorized ladder scan is the scalar scan.  With any kernel that can be
  installed, on entries whose eligibility bytes are what a publisher computes,
  \<open>ingest_entries_ladder\<close> makes exactly the sink calls \<open>ingest_entries\<close> makes, batch
  boundaries included, and leaves exactly the same state: the eight- and sixteen-entry group
  paths never apply what the per-entry ladder would not.\<close>

theorem ladder_ingest_scalar:
  assumes "ladder \<in> set ladder_kernels" and "list_all entry_ok entries" and "list_all (elig_ok lo hi) entries"
  shows "ingest_entries_ladder wants_spans False ladder entries now_ns sq = ingest_entries wants_spans entries now_ns sq"
proof -
  have "\<forall>e \<in> set entries. entry_ok e \<and> elig_ok lo hi e" using assms(2,3) by (simp add: list_all_iff)
  then show ?thesis
    using ladder_drive [OF assms(1), of entries lo hi rec_emitter wants_spans]
    by (simp add: ingest_entries_ladder_def batch_drives del: drive.simps)
qed

lemma sample_elig_ok:
  "elig_ok (fe_sess_lo (sample_entry 0)) (fe_sess_hi (sample_entry 0)) (sample_entry 0)"
  "elig_ok (fe_sess_lo (sample_entry 0)) (fe_sess_hi (sample_entry 0)) (sample_entry 1)"
  "elig_ok lo hi sample_heartbeat"
  by (simp_all add: elig_ok_def sample_entry_def sample_heartbeat_def elig_feed_def all_valid_def Let_def)

lemma ladder_ingest_scalar_witness:
  "ingest_entries_ladder True False (Some ladder8_avx512)
      (concat (replicate 8 [sample_entry 0, sample_entry 1]) @ [sample_heartbeat]) 9 Sequencer_new_unboxed
    = ingest_entries True (concat (replicate 8 [sample_entry 0, sample_entry 1]) @ [sample_heartbeat]) 9 Sequencer_new_unboxed"
proof (rule ladder_ingest_scalar)
  show "Some ladder8_avx512 \<in> set ladder_kernels" by (simp add: ladder_kernels_def)
  show "list_all entry_ok (concat (replicate 8 [sample_entry 0, sample_entry 1]) @ [sample_heartbeat])"
    using sample_entries_ok by (auto simp: list_all_iff)
  show "list_all (elig_ok (fe_sess_lo (sample_entry 0)) (fe_sess_hi (sample_entry 0)))
      (concat (replicate 8 [sample_entry 0, sample_entry 1]) @ [sample_heartbeat])"
    using sample_elig_ok by (auto simp: list_all_iff)
qed

text \<open>C18: packed span words carry the spans.  When the entries' bodies lie in memory at the
  addresses their words encode, the packed ladder leaves the state of the frames taken one by
  one, and decoding its words, with the base address and the running sequence number as
  \<open>on_span_batch_packed\<close> documents, gives exactly the spans, counts and body bytes, in order
  with the other sink calls.\<close>

theorem packed_spans_decode:
  assumes "ladder \<in> set ladder_kernels" and "list_all entry_ok entries" and "list_all (elig_ok lo hi) entries"
    and "list_all (in_memory mem) entries"
    and "sorted_wrt (\<lambda>a b. fe_first_seq a < fe_first_seq b \<longrightarrow> in_reach a b) entries"
  shows "fst (ingest_entries_ladder True True ladder entries now_ns sq) = fst (ingest_each True now_ns entries sq) \<and>
    concat (map (spans_of mem) (snd (ingest_entries_ladder True True ladder entries now_ns sq)))
      = concat (map (spans_of mem) (snd (ingest_each True now_ns entries sq)))"
proof -
  have ok: "\<forall>e \<in> set entries. entry_ok e \<and> elig_ok lo hi e" "\<forall>e \<in> set entries. entry_ok e \<and> in_memory mem e"
    using assms(2-4) by (simp_all add: list_all_iff)
  have "ingest_entries_ladder True True ladder entries now_ns sq
      = drive (plain_scanner packed_emitter True) True now_ns (Suc (length entries)) entries sq"
    using ladder_drive [OF assms(1) ok(1), of packed_emitter True] by (simp add: ingest_entries_ladder_def del: drive.simps)
  then show ?thesis
    using packed.drive_each [OF _ ok(2) assms(5), of "plain_scanner packed_emitter True" True "Suc (length entries)" now_ns sq]
    by (simp add: plain_scanner_def del: drive.simps)
qed

definition sample_memory :: "u64 \<Rightarrow> u8" where
  "sample_memory a = (if unat (a - 4096) < length (fe_bytes (sample_entry 0)) then fe_bytes (sample_entry 0) ! unat (a - 4096) else 0)"

lemma sample_in_memory: "in_memory sample_memory (sample_entry fd)"
proof -
  let ?f = "mold_frame sample_session 5 2 [sample_msg, sample_msg]"
  have l: "length ?f = 48"
    by (simp add: sample_session_def sample_msg_def mold_frame_def mold_body_def mold_block_def)
  have u: "unat ((4118 :: u64) + of_nat i - 4096) = 22 + i" if "i < 26" for i
  proof -
    have "(4118 :: u64) + of_nat i - 4096 = of_nat (22 + i)" by simp
    moreover have "unat (of_nat (22 + i) :: u64) = 22 + i" by (rule unat_of_nat_u64) (use that in simp)
    ultimately show ?thesis by (simp only:)
  qed
  have "frame_body (sample_entry fd) = slice 22 48 ?f" using l by (simp add: frame_body_def sample_entry_def Let_def)
  moreover have "read_mem sample_memory 4118 26 = slice 22 48 ?f"
    using l u by (intro nth_equalityI) (simp_all add: read_mem_def sample_memory_def sample_entry_def Let_def nth_slice)
  ultimately show ?thesis using l by (simp add: in_memory_def body_ptr_def) (simp add: sample_entry_def Let_def)
qed

lemma packed_spans_decode_witness:
  "concat (map (spans_of sample_memory) (snd (ingest_entries_ladder True True (Some ladder8_scalar_ptr)
        [sample_entry 0, sample_entry 1] 9 Sequencer_new_unboxed)))
    = concat (map (spans_of sample_memory) (snd (ingest_each True 9 [sample_entry 0, sample_entry 1] Sequencer_new_unboxed)))"
proof (rule conjunct2 [OF packed_spans_decode])
  show "Some ladder8_scalar_ptr \<in> set ladder_kernels" by (simp add: ladder_kernels_def)
  show "list_all entry_ok [sample_entry 0, sample_entry 1]" using sample_entry_ok by simp
  show "list_all (elig_ok (fe_sess_lo (sample_entry 0)) (fe_sess_hi (sample_entry 0))) [sample_entry 0, sample_entry 1]"
    using sample_elig_ok by simp
  show "list_all (in_memory sample_memory) [sample_entry 0, sample_entry 1]" using sample_in_memory by simp
  show "sorted_wrt (\<lambda>a b. fe_first_seq a < fe_first_seq b \<longrightarrow> in_reach a b) [sample_entry 0, sample_entry 1]"
    by (simp add: sample_entry_def Let_def)
qed

end
