(* ===== verification/Tape.thy ===== *)
theory Tape
  imports Packet
begin

text \<open>
  The ground-truth tape: a byte stream of length-prefixed messages (\<open>[u16 BE len][msg]\<close>), the
  input of the replay transport and of every oracle.  \<open>tape_messages\<close> is what the stream
  means: its complete messages up to the first incomplete one.  The walkers of the program
  over the tape are modelled as written and shown to see exactly these messages: the golden
  hash and its cross check (\<open>crates/nf-testkit/src/golden.rs\<close>), the audit of the engine
  (\<open>crates/nf-engine/src/lib.rs\<close>), and the cursor of the renderer
  (\<open>crates/nf-transport/src/render.rs\<close>).
\<close>

section \<open>The messages of a tape\<close>

abbreviation be_len :: "bytes \<Rightarrow> nat \<Rightarrow> nat" where
  "be_len xs p \<equiv> unat (u16_from_be_bytes [xs ! p, xs ! (p + 1)])"

definition block_complete :: "bytes \<Rightarrow> bool" where
  "block_complete gt \<longleftrightarrow> 2 \<le> length gt \<and> 2 + be_len gt 0 \<le> length gt"

function tape_messages :: "bytes \<Rightarrow> bytes list" where
  "tape_messages gt =
     (if block_complete gt
      then slice 2 (2 + be_len gt 0) gt # tape_messages (drop (2 + be_len gt 0) gt) else [])"
  by pat_completeness auto
termination tape_messages
  by (relation "measure length") (auto simp: block_complete_def)

declare tape_messages.simps [simp del]

function tape_rest :: "bytes \<Rightarrow> bytes" where
  "tape_rest gt = (if block_complete gt then tape_rest (drop (2 + be_len gt 0) gt) else gt)"
  by pat_completeness auto
termination tape_rest
  by (relation "measure length") (auto simp: block_complete_def)

declare tape_rest.simps [simp del]

lemma tape_split: "gt = mold_body (tape_messages gt) @ tape_rest gt"
proof (induction gt rule: tape_messages.induct)
  case (1 gt)
  show ?case
  proof (cases "block_complete gt")
    case True
    then have l: "2 \<le> length gt" "2 + be_len gt 0 \<le> length gt" by (simp_all add: block_complete_def)
    have "mold_block (slice 2 (2 + be_len gt 0) gt) @ drop (2 + be_len gt 0) gt = gt"
      using mold_block_read [of gt] l by (simp add: slice_def)
    then show ?thesis using True 1 by (simp add: tape_messages.simps [of gt] tape_rest.simps [of gt])
  next
    case False
    then show ?thesis by (simp add: tape_messages.simps [of gt] tape_rest.simps [of gt])
  qed
qed

lemma tape_messages_body:
  "list_all (\<lambda>m. length m < 65536) ms \<Longrightarrow> tape_messages (mold_body ms @ r) = ms @ tape_messages r"
proof (induction ms)
  case Nil
  then show ?case by simp
next
  case (Cons m ms)
  have n: "be_len (mold_block m @ mold_body ms @ r) 0 = length m"
    using mold_block_prefix [of m "mold_body ms @ r"] Cons.prems by simp
  have c: "block_complete (mold_block m @ mold_body ms @ r)" unfolding block_complete_def n by simp
  have d: "drop (2 + length m) (mold_block m @ mold_body ms @ r) = mold_body ms @ r" by simp
  have "slice 2 (2 + length m) (mold_block m @ mold_body ms @ r) = m"
    by (simp add: slice_def mold_block_def)
  with n d Cons show ?case by (simp only: mold_body_simps append_assoc tape_messages.simps [of "mold_block m @ mold_body ms @ r"] c)
      simp
qed

lemma tape_rest_incomplete: "\<not> block_complete (tape_rest gt)"
proof (induction gt rule: tape_rest.induct)
  case (1 gt)
  then show ?case by (cases "block_complete gt") (simp_all add: tape_rest.simps [of gt])
qed

lemma tape_messages_short: "m \<in> set (tape_messages gt) \<Longrightarrow> length m < 65536"
proof (induction gt rule: tape_messages.induct)
  case (1 gt)
  have "length (slice 2 (2 + be_len gt 0) gt) < 65536"
    using unat_u16_less [of "u16_from_be_bytes [gt ! 0, gt ! (0 + 1)]"] by (simp add: slice_def min_def)
  with 1 show ?case
    by (cases "block_complete gt") (auto simp: tape_messages.simps [of gt])
qed

text \<open>The step every walker makes at a position of the tape.\<close>

lemma tape_at:
  assumes "p \<le> length gt"
  shows "block_complete (drop p gt) \<longleftrightarrow> p + 2 \<le> length gt \<and> p + 2 + be_len gt p \<le> length gt"
    and "p + 2 \<le> length gt \<Longrightarrow> p + 2 + be_len gt p \<le> length gt \<Longrightarrow>
      tape_messages (drop p gt)
        = slice (p + 2) (p + 2 + be_len gt p) gt # tape_messages (drop (p + 2 + be_len gt p) gt)"
    and "\<not> (p + 2 \<le> length gt \<and> p + 2 + be_len gt p \<le> length gt) \<Longrightarrow> tape_messages (drop p gt) = []"
proof -
  have l: "be_len (drop p gt) 0 = be_len gt p" if "p + 2 \<le> length gt"
    using that by simp
  show 1: "block_complete (drop p gt) \<longleftrightarrow> p + 2 \<le> length gt \<and> p + 2 + be_len gt p \<le> length gt"
  proof (cases "p + 2 \<le> length gt")
    case True
    then show ?thesis using l assms unfolding block_complete_def by (auto simp del: One_nat_def)
  next
    case False
    then show ?thesis using assms unfolding block_complete_def by auto
  qed
  show "tape_messages (drop p gt)
      = slice (p + 2) (p + 2 + be_len gt p) gt # tape_messages (drop (p + 2 + be_len gt p) gt)"
    if "p + 2 \<le> length gt" "p + 2 + be_len gt p \<le> length gt"
  proof -
    have "drop (2 + be_len gt p) (drop p gt) = drop (p + 2 + be_len gt p) gt"
      by (simp add: ac_simps)
    moreover have "slice 2 (2 + be_len gt p) (drop p gt) = slice (p + 2) (p + 2 + be_len gt p) gt"
      by (simp add: slice_def add.commute)
    ultimately show ?thesis
      using 1 that l by (subst tape_messages.simps) (simp del: drop_drop One_nat_def)
  qed
  show "tape_messages (drop p gt) = []" if "\<not> (p + 2 \<le> length gt \<and> p + 2 + be_len gt p \<le> length gt)"
    using 1 that by (subst tape_messages.simps) simp
qed

section \<open>The golden hash\<close>

abbreviation FNV_OFFSET :: u64 where "FNV_OFFSET \<equiv> 0xcbf29ce484222325"
abbreviation FNV_PRIME :: u64 where "FNV_PRIME \<equiv> 0x100000001b3"

definition u16_to_le_bytes :: "u16 \<Rightarrow> bytes" where
  "u16_to_le_bytes x = rev (u16_to_be_bytes x)"

definition fnv_update :: "u64 \<Rightarrow> u8 \<Rightarrow> u64" where
  "fnv_update h b = (h XOR ucast b) * FNV_PRIME"

definition fnv_bytes :: "u64 \<Rightarrow> bytes \<Rightarrow> u64" where
  "fnv_bytes h bs = foldl fnv_update h bs"

function golden_loop :: "bytes \<Rightarrow> nat \<Rightarrow> u64 \<Rightarrow> u64 \<Rightarrow> u64 \<times> u64" where
  "golden_loop gt pos h n =
     (if pos + 2 \<le> length gt
      then let msg_len = be_len gt pos; start = pos + 2
           in if length gt < start + msg_len then (h, n)
              else let msg = slice start (start + msg_len) gt
                   in golden_loop gt (start + msg_len)
                        (fnv_bytes (fnv_bytes h (u16_to_le_bytes (of_nat msg_len))) msg) (n + 1)
      else (h, n))"
  by pat_completeness auto
termination golden_loop
  by (relation "measure (\<lambda>(gt, pos, h, n). length gt - pos)") auto

declare golden_loop.simps [simp del]

definition golden :: "bytes \<Rightarrow> u64 \<times> u64" where
  "golden gt = golden_loop gt 0 FNV_OFFSET 0"

text \<open>The second implementation: its own length decoding, its own byte loop, and a bound on
  the number of messages.\<close>

function golden_cross_loop :: "bytes \<Rightarrow> nat \<Rightarrow> nat \<Rightarrow> u64 \<Rightarrow> nat \<Rightarrow> u64 \<times> u64" where
  "golden_cross_loop gt limit pos h n =
     (if pos + 2 \<le> length gt \<and> n < limit
      then let l0 = unat (gt ! pos); l1 = unat (gt ! (pos + 1));
               msg_len = push_bit 8 l0 OR l1; start = pos + 2
           in if length gt < start + msg_len then (h, of_nat n)
              else let msg = slice start (start + msg_len) gt;
                       h1 = foldl (\<lambda>h b. (h XOR ucast b) * FNV_PRIME) h (u16_to_le_bytes (of_nat msg_len));
                       h2 = foldl (\<lambda>h b. (h XOR ucast b) * FNV_PRIME) h1 msg
                   in golden_cross_loop gt limit (start + msg_len) h2 (n + 1)
      else (h, of_nat n))"
  by pat_completeness auto
termination golden_cross_loop
  by (relation "measure (\<lambda>(gt, limit, pos, h, n). length gt - pos)") auto

declare golden_cross_loop.simps [simp del]

definition golden_cross_check :: "bytes \<Rightarrow> nat \<Rightarrow> u64 \<times> u64" where
  "golden_cross_check gt limit = golden_cross_loop gt limit 0 FNV_OFFSET 0"

text \<open>What both compute: the fold of length and bytes over the messages.\<close>

definition fnv_msg :: "u64 \<Rightarrow> bytes \<Rightarrow> u64" where
  "fnv_msg h m = fnv_bytes (fnv_bytes h (u16_to_le_bytes (of_nat (length m)))) m"

definition fnv_tape :: "u64 \<Rightarrow> bytes list \<Rightarrow> u64" where
  "fnv_tape h ms = foldl fnv_msg h ms"

lemma fnv_tape_simps [simp]:
  "fnv_tape h [] = h" "fnv_tape h (m # ms) = fnv_tape (fnv_msg h m) ms"
  "fnv_tape h (xs @ ys) = fnv_tape (fnv_tape h xs) ys"
  by (simp_all add: fnv_tape_def)

lemma golden_loop_tape:
  "pos \<le> length gt \<Longrightarrow> golden_loop gt pos h n
     = (fnv_tape h (tape_messages (drop pos gt)), n + of_nat (length (tape_messages (drop pos gt))))"
proof (induction gt pos h n rule: golden_loop.induct)
  case (1 gt pos h n)
  let ?L = "be_len gt pos"
  show ?case
  proof (cases "pos + 2 \<le> length gt \<and> pos + 2 + ?L \<le> length gt")
    case True
    then have t: "tape_messages (drop pos gt)
        = slice (pos + 2) (pos + 2 + ?L) gt # tape_messages (drop (pos + 2 + ?L) gt)"
      by (intro tape_at(2)) (use 1 in auto)
    have l: "length (slice (pos + 2) (pos + 2 + ?L) gt) = ?L" using True by simp
    have "golden_loop gt pos h n
        = golden_loop gt (pos + 2 + ?L) (fnv_msg h (slice (pos + 2) (pos + 2 + ?L) gt)) (n + 1)"
      using True by (subst golden_loop.simps) (simp add: Let_def fnv_msg_def l)
    also have "\<dots> = (fnv_tape (fnv_msg h (slice (pos + 2) (pos + 2 + ?L) gt)) (tape_messages (drop (pos + 2 + ?L) gt)),
        n + 1 + of_nat (length (tape_messages (drop (pos + 2 + ?L) gt))))"
      unfolding fnv_msg_def l using True by (intro "1.IH") (simp_all add: not_less)
    finally show ?thesis by (simp add: t ac_simps)
  next
    case False
    then have "tape_messages (drop pos gt) = []" using "1.prems" by (intro tape_at(3))
    then show ?thesis using False by (subst golden_loop.simps) (auto simp: Let_def)
  qed
qed

lemma be_len_digits: "be_len gt p = push_bit 8 (unat (gt ! p)) OR unat (gt ! (p + 1))"
proof -
  have "unat (u16_from_be_bytes [gt ! p, gt ! (p + 1)]) = unat (gt ! p) * 256 + unat (gt ! (p + 1))"
    by (simp add: unat_u16_from_be)
  moreover have "push_bit 8 (unat (gt ! p)) + unat (gt ! (p + 1)) = push_bit 8 (unat (gt ! p)) OR unat (gt ! (p + 1))"
  proof (rule disjunctive_add)
    fix n
    have "take_bit 8 (unat (gt ! (p + 1))) = unat (gt ! (p + 1))"
      using unat_u8_less [of "gt ! (p + 1)"] by (simp add: take_bit_nat_eq_self_iff)
    then have "bit (unat (gt ! (p + 1))) n \<Longrightarrow> n < 8" by (metis bit_take_bit_iff)
    then show "\<not> bit (push_bit 8 (unat (gt ! p))) n \<or> \<not> bit (unat (gt ! (p + 1))) n"
      by (auto simp: bit_push_bit_iff)
  qed
  ultimately show ?thesis by (simp add: push_bit_eq_mult)
qed

lemma golden_cross_unfold:
  "golden_cross_loop gt limit pos h n =
     (if pos + 2 \<le> length gt \<and> n < limit
      then if length gt < pos + 2 + be_len gt pos then (h, of_nat n)
           else golden_cross_loop gt limit (pos + 2 + be_len gt pos)
             (fnv_bytes (fnv_bytes h (u16_to_le_bytes (of_nat (be_len gt pos))))
               (slice (pos + 2) (pos + 2 + be_len gt pos) gt)) (n + 1)
      else (h, of_nat n))"
proof -
  have fold: "foldl (\<lambda>h b. (h XOR ucast b) * FNV_PRIME) h bs = fnv_bytes h bs" for h bs
    unfolding fnv_bytes_def by (rule arg_cong [where f = "\<lambda>g. foldl g h bs"]) (simp add: fnv_update_def fun_eq_iff)
  show ?thesis by (subst golden_cross_loop.simps) (simp only: Let_def be_len_digits fold)
qed

lemma golden_cross_tape:
  "pos \<le> length gt \<Longrightarrow> golden_cross_loop gt limit pos h n
     = (fnv_tape h (take (limit - n) (tape_messages (drop pos gt))),
        of_nat (n + length (take (limit - n) (tape_messages (drop pos gt)))))"
proof (induction "length gt - pos" arbitrary: pos h n rule: less_induct)
  case less
  let ?L = "be_len gt pos"
  show ?case
  proof (cases "pos + 2 \<le> length gt \<and> n < limit \<and> pos + 2 + ?L \<le> length gt")
    case True
    then have t: "tape_messages (drop pos gt)
        = slice (pos + 2) (pos + 2 + ?L) gt # tape_messages (drop (pos + 2 + ?L) gt)"
      by (intro tape_at(2)) (use less in auto)
    have l: "length (slice (pos + 2) (pos + 2 + ?L) gt) = ?L" using True by simp
    have tk: "take (limit - n) (m # ms) = m # take (limit - (n + 1)) ms" for m :: bytes and ms
    proof -
      have "limit - n = Suc (limit - (n + 1))" using True by linarith
      then show ?thesis by simp
    qed
    have "golden_cross_loop gt limit pos h n
        = golden_cross_loop gt limit (pos + 2 + ?L) (fnv_msg h (slice (pos + 2) (pos + 2 + ?L) gt)) (n + 1)"
      using True by (subst golden_cross_unfold) (simp add: fnv_msg_def l)
    also have "\<dots> = (fnv_tape (fnv_msg h (slice (pos + 2) (pos + 2 + ?L) gt))
          (take (limit - (n + 1)) (tape_messages (drop (pos + 2 + ?L) gt))),
        of_nat (n + 1 + length (take (limit - (n + 1)) (tape_messages (drop (pos + 2 + ?L) gt)))))"
      using True by (intro less.hyps) auto
    finally show ?thesis unfolding t tk fnv_tape_simps list.size(4) by (simp add: ac_simps)
  next
    case False
    show ?thesis
    proof (cases "n < limit")
      case True
      then have "tape_messages (drop pos gt) = []" using less.prems False by (intro tape_at(3)) auto
      then show ?thesis using False True by (subst golden_cross_unfold) auto
    next
      case False
      then show ?thesis by (subst golden_cross_unfold) simp
    qed
  qed
qed

text \<open>The golden walker and its independent cross check compute one function of the
  tape: the FNV fold of little-endian length and bytes over the complete messages, with their
  number; the cross check stops after \<open>limit\<close> of them.  What follows the last complete message
  does not count.\<close>

theorem golden_walks_tape:
  "golden gt = (fnv_tape FNV_OFFSET (tape_messages gt), of_nat (length (tape_messages gt))) \<and>
   golden_cross_check gt limit
     = (fnv_tape FNV_OFFSET (take limit (tape_messages gt)), of_nat (min limit (length (tape_messages gt)))) \<and>
   golden_cross_check gt (length gt) = golden gt"
proof -
  have len: "length (tape_messages gt) \<le> length gt"
  proof (induction gt rule: tape_messages.induct)
    case (1 gt)
    then show ?case
      by (cases "block_complete gt") (auto simp: tape_messages.simps [of gt] block_complete_def)
  qed
  show ?thesis
    using golden_loop_tape [of 0 gt FNV_OFFSET 0] golden_cross_tape [of 0 gt limit FNV_OFFSET 0]
      golden_cross_tape [of 0 gt "length gt" FNV_OFFSET 0] len
    by (simp add: golden_def golden_cross_check_def min.commute)
qed

section \<open>The audit of the engine\<close>

record AuditReport =
  ar_bytes_read :: u64
  ar_blocks :: u64
  ar_violations :: u64
  ar_truncated_tail :: bool
  ar_hist :: "u64 list"

definition AuditReport_new :: AuditReport where
  "AuditReport_new = \<lparr>ar_bytes_read = 0, ar_blocks = 0, ar_violations = 0,
     ar_truncated_tail = False, ar_hist = replicate 256 0\<rparr>"

text \<open>The reader is an in-memory stream: \<open>read_exact\<close> fails at its end only, with
  \<open>UnexpectedEof\<close>.\<close>

function audit_loop :: "bytes \<Rightarrow> AuditReport \<Rightarrow> AuditReport" where
  "audit_loop reader report =
     (if length reader < 2 then report
      else let report1 = report\<lparr>ar_bytes_read := ar_bytes_read report + 2\<rparr>;
               msg_len = be_len reader 0; rest = drop 2 reader
           in if msg_len = 0
              then audit_loop rest (report1\<lparr>ar_violations := ar_violations report1 + 1\<rparr>)
              else if length rest < msg_len then report1\<lparr>ar_truncated_tail := True\<rparr>
              else let report2 = report1\<lparr>ar_bytes_read := ar_bytes_read report1 + of_nat msg_len\<rparr>;
                       msg = take msg_len rest;
                       report3 = (if validate msg = Inr ()
                         then report2\<lparr>ar_hist := (ar_hist report2)[unat (msg ! 0) := ar_hist report2 ! unat (msg ! 0) + 1]\<rparr>
                         else report2\<lparr>ar_violations := ar_violations report2 + 1\<rparr>)
                   in audit_loop (drop msg_len rest) (report3\<lparr>ar_blocks := ar_blocks report3 + 1\<rparr>))"
  by pat_completeness auto
termination audit_loop
  by (relation "measure (\<lambda>(reader, report). length reader)") auto

declare audit_loop.simps [simp del]

definition audit_stream :: "bytes \<Rightarrow> AuditReport" where
  "audit_stream reader = audit_loop reader AuditReport_new"

text \<open>The report after one message.\<close>

definition audit_msg :: "AuditReport \<Rightarrow> bytes \<Rightarrow> AuditReport" where
  "audit_msg r m =
     r\<lparr>ar_bytes_read := ar_bytes_read r + (2 + of_nat (length m)),
       ar_blocks := ar_blocks r + (if m = [] then 0 else 1),
       ar_violations := ar_violations r + (if validate m = Inr () then 0 else 1),
       ar_hist := (if validate m = Inr () then (ar_hist r)[unat (m ! 0) := ar_hist r ! unat (m ! 0) + 1] else ar_hist r)\<rparr>"

definition audit_tail :: "bytes \<Rightarrow> AuditReport \<Rightarrow> AuditReport" where
  "audit_tail rest r =
     (if length rest < 2 then r else r\<lparr>ar_bytes_read := ar_bytes_read r + 2, ar_truncated_tail := True\<rparr>)"

lemma validate_empty: "validate [] \<noteq> Inr ()"
  by simp

lemma audit_step:
  assumes "block_complete gt"
  shows "audit_loop gt r
    = audit_loop (drop (2 + be_len gt 0) gt) (audit_msg r (slice 2 (2 + be_len gt 0) gt))"
proof -
  define n where "n = be_len gt 0"
  have l: "2 \<le> length gt" "2 + n \<le> length gt" using assms by (simp_all add: block_complete_def n_def)
  have m: "take n (drop 2 gt) = slice 2 (2 + n) gt" "length (slice 2 (2 + n) gt) = n"
    using l by (simp_all add: slice_def)
  then have e: "slice 2 (2 + n) gt = [] \<longleftrightarrow> n = 0" by (metis length_0_conv)
  have d: "drop n (drop 2 gt) = drop (2 + n) gt" by (simp add: add.commute)
  show ?thesis
  proof (cases "n = 0")
    case True
    then show ?thesis
      unfolding n_def [symmetric] audit_loop.simps [of gt r] Let_def
      using l by (cases r) (simp add: slice_def audit_msg_def)
  next
    case False
    then show ?thesis
      unfolding n_def [symmetric] audit_loop.simps [of gt r] Let_def
      using l e by (cases r) (simp del: drop_drop add: m d audit_msg_def add.assoc)
  qed
qed

lemma audit_loop_tape: "audit_loop gt r = audit_tail (tape_rest gt) (foldl audit_msg r (tape_messages gt))"
proof (induction gt arbitrary: r rule: tape_messages.induct)
  case (1 gt)
  show ?case
  proof (cases "block_complete gt")
    case True
    then show ?thesis using 1 audit_step [OF True]
      by (simp add: tape_messages.simps [of gt] tape_rest.simps [of gt])
  next
    case False
    then have "length gt < 2 \<or> length (drop 2 gt) < be_len gt 0" by (auto simp: block_complete_def)
    then show ?thesis using False
      by (subst audit_loop.simps)
        (auto simp: tape_messages.simps [of gt] tape_rest.simps [of gt] audit_tail_def Let_def)
  qed
qed

lemma audit_fold:
  assumes "length (ar_hist r) = 256"
  shows "foldl audit_msg r ms =
    r\<lparr>ar_bytes_read := ar_bytes_read r + of_nat (length (mold_body ms)),
      ar_blocks := ar_blocks r + of_nat (length (filter (\<lambda>m. m \<noteq> []) ms)),
      ar_violations := ar_violations r + of_nat (length (filter (\<lambda>m. validate m \<noteq> Inr ()) ms)),
      ar_hist := map (\<lambda>b. ar_hist r ! b + of_nat (length (filter (\<lambda>m. validate m = Inr () \<and> unat (m ! 0) = b) ms)))
        [0 ..< 256]\<rparr>"
  using assms
proof (induction ms arbitrary: r)
  case Nil
  then show ?case by (simp add: map_nth [of "ar_hist r", unfolded Nil])
next
  case (Cons m ms)
  have l: "length (ar_hist (audit_msg r m)) = 256" using Cons.prems by (simp add: audit_msg_def)
  have h: "ar_hist (audit_msg r m) ! b
      = ar_hist r ! b + (if validate m = Inr () \<and> unat (m ! 0) = b then 1 else 0)" if "b < 256" for b
    using that Cons.prems by (simp add: audit_msg_def nth_list_update)
  have "map (\<lambda>b. ar_hist (audit_msg r m) ! b
      + of_nat (length (filter (\<lambda>m. validate m = Inr () \<and> unat (m ! 0) = b) ms))) [0 ..< 256]
    = map (\<lambda>b. ar_hist r ! b
      + of_nat (length (filter (\<lambda>m. validate m = Inr () \<and> unat (m ! 0) = b) (m # ms)))) [0 ..< 256]"
    by (rule map_cong) (auto simp: h)
  then show ?case
    unfolding foldl_Cons Cons.IH [OF l] by (simp only: audit_msg_def) (simp add: ac_simps)
qed

lemma sum_indicator: "k < n \<Longrightarrow> sum_list (map (\<lambda>b. if k = b then 1 else 0 :: u64) [0 ..< n]) = 1"
proof (induction n)
  case (Suc n)
  have "map (\<lambda>b. if n = b then 1 else 0 :: u64) [0 ..< n] = map (\<lambda>b. 0) [0 ..< n]"
    by (rule map_cong) auto
  then have "sum_list (map (\<lambda>b. if n = b then 1 else 0 :: u64) [0 ..< n]) = sum_list (map (\<lambda>b. 0) [0 ..< n])"
    by (rule arg_cong)
  then have "sum_list (map (\<lambda>b. if n = b then 1 else 0 :: u64) [0 ..< n]) = 0" by simp
  with Suc show ?case by (cases "k = n") simp_all
qed simp

lemma sum_by_key:
  assumes "\<forall>m \<in> set ms. k m < n"
  shows "sum_list (map (\<lambda>b. of_nat (length (filter (\<lambda>m. P m \<and> k m = b) ms)) :: u64) [0 ..< n])
    = of_nat (length (filter P ms))"
  using assms
proof (induction ms)
  case Nil
  then show ?case by simp
next
  case (Cons m ms)
  let ?c = "\<lambda>xs b. of_nat (length (filter (\<lambda>m. P m \<and> k m = b) xs)) :: u64"
  have "map (?c (m # ms)) [0 ..< n] = map (\<lambda>b. (if P m \<and> k m = b then 1 else 0) + ?c ms b) [0 ..< n]"
    by (rule map_cong) auto
  then have "sum_list (map (?c (m # ms)) [0 ..< n])
      = sum_list (map (\<lambda>b. if P m \<and> k m = b then 1 else 0) [0 ..< n]) + sum_list (map (?c ms) [0 ..< n])"
    by (simp only: sum_list_addf)
  moreover have "sum_list (map (\<lambda>b. if P m \<and> k m = b then 1 else 0 :: u64) [0 ..< n]) = (if P m then 1 else 0)"
    using sum_indicator [of "k m" n] Cons.prems by simp
  ultimately show ?case using Cons by simp
qed

text \<open>The audit report is the tape: bytes read, non-empty blocks, violations and the
  histogram of the valid message types are those of the complete messages, every message is
  either a violation or one count of the histogram, and the truncation flag is raised exactly
  when at least two bytes follow the last complete message.\<close>

theorem audit_reports_tape:
  "ar_blocks (audit_stream gt) = of_nat (length (filter (\<lambda>m. m \<noteq> []) (tape_messages gt))) \<and>
   ar_violations (audit_stream gt) = of_nat (length (filter (\<lambda>m. validate m \<noteq> Inr ()) (tape_messages gt))) \<and>
   ar_hist (audit_stream gt)
     = map (\<lambda>b. of_nat (length (filter (\<lambda>m. validate m = Inr () \<and> unat (m ! 0) = b) (tape_messages gt)))) [0 ..< 256] \<and>
   ar_violations (audit_stream gt) + sum_list (ar_hist (audit_stream gt)) = of_nat (length (tape_messages gt)) \<and>
   ar_truncated_tail (audit_stream gt) = (2 \<le> length (tape_rest gt)) \<and>
   ar_bytes_read (audit_stream gt)
     = of_nat (length gt - (if length (tape_rest gt) < 2 then length (tape_rest gt) else length (tape_rest gt) - 2))"
proof -
  have r: "audit_stream gt = audit_tail (tape_rest gt) (foldl audit_msg AuditReport_new (tape_messages gt))"
    by (simp add: audit_stream_def audit_loop_tape)
  have n: "length (ar_hist AuditReport_new) = 256" by (simp add: AuditReport_new_def)
  have z: "map (\<lambda>b. ar_hist AuditReport_new ! b + f b) [0 ..< 256] = map f [0 ..< 256]" for f
    by (rule map_cong) (simp_all add: AuditReport_new_def)
  have len: "length gt = length (mold_body (tape_messages gt)) + length (tape_rest gt)"
    by (subst tape_split) simp
  have sum: "sum_list (map (\<lambda>b. of_nat (length (filter (\<lambda>m. validate m = Inr () \<and> unat (m ! 0) = b) (tape_messages gt))))
      [0 ..< 256]) = (of_nat (length (filter (\<lambda>m. validate m = Inr ()) (tape_messages gt))) :: u64)"
    by (rule sum_by_key) (simp add: unat_u8_less)
  have split: "of_nat (length (filter (\<lambda>m. validate m \<noteq> Inr ()) ms)) + of_nat (length (filter (\<lambda>m. validate m = Inr ()) ms))
      = (of_nat (length ms) :: u64)" for ms
    by (induction ms) simp_all
  show ?thesis
    unfolding r audit_fold [OF n] z using sum split [of "tape_messages gt"] len
    by (simp add: audit_tail_def AuditReport_new_def)
qed

section \<open>The cursor of the renderer\<close>

record Cursor =
  cur_byte_offset :: nat
  cur_msg_index :: u64

definition Cursor_default :: Cursor where
  "Cursor_default = \<lparr>cur_byte_offset = 0, cur_msg_index = 0\<rparr>"

text \<open>The \<open>while\<close> loop of \<open>seek_msg\<close>; the flag is false when the loop returns \<open>None\<close>.\<close>

function seek_loop :: "bytes \<Rightarrow> u64 \<Rightarrow> Cursor \<Rightarrow> Cursor \<times> bool" where
  "seek_loop gt target c =
     (if cur_msg_index c < target
      then if length gt < cur_byte_offset c + 2 then (c, False)
           else let len = be_len gt (cur_byte_offset c)
                in seek_loop gt target
                     \<lparr>cur_byte_offset = cur_byte_offset c + (2 + len), cur_msg_index = cur_msg_index c + 1\<rparr>
      else (c, True))"
  by pat_completeness auto
termination seek_loop
proof (relation "measure (\<lambda>(gt, target, c). unat target - unat (cur_msg_index c))")
  fix gt :: bytes and target :: u64 and c :: Cursor and len :: nat
  assume l: "cur_msg_index c < target"
  then have "unat (cur_msg_index c + 1) = Suc (unat (cur_msg_index c))"
    using unat_u64_less [of target] by (simp add: word_less_nat_alt unat_plus_u64)
  with l show "((gt, target, \<lparr>cur_byte_offset = cur_byte_offset c + (2 + len), cur_msg_index = cur_msg_index c + 1\<rparr>),
      gt, target, c) \<in> measure (\<lambda>(gt, target, c). unat target - unat (cur_msg_index c))"
    by (simp add: word_less_nat_alt)
qed simp

declare seek_loop.simps [simp del]

definition seek_msg :: "bytes \<Rightarrow> u64 \<Rightarrow> Cursor \<Rightarrow> Cursor \<times> nat option" where
  "seek_msg gt target c =
     (let c0 = (if target < cur_msg_index c then Cursor_default else c);
          (c1, found) = seek_loop gt target c0
      in (c1, if found \<and> cur_byte_offset c1 \<le> length gt then Some (cur_byte_offset c1) else None))"

definition tape_offset :: "bytes \<Rightarrow> nat \<Rightarrow> nat" where
  "tape_offset gt i = length (mold_body (take i (tape_messages gt)))"

text \<open>A cursor stands at a message boundary, or past an incomplete last block.\<close>

definition cursor_ok :: "bytes \<Rightarrow> Cursor \<Rightarrow> bool" where
  "cursor_ok gt c \<longleftrightarrow>
     unat (cur_msg_index c) \<le> length (tape_messages gt) \<and> cur_byte_offset c = tape_offset gt (unat (cur_msg_index c)) \<or>
     unat (cur_msg_index c) = Suc (length (tape_messages gt)) \<and> length gt < cur_byte_offset c"

lemma mold_body_append [simp]: "mold_body (xs @ ys) = mold_body xs @ mold_body ys"
  by (simp add: mold_body_def)

lemma tape_offset_le: "tape_offset gt i \<le> length gt"
proof -
  have "length gt = length (mold_body (take i (tape_messages gt) @ drop i (tape_messages gt))) + length (tape_rest gt)"
    by (subst tape_split) simp
  then show ?thesis by (simp only: tape_offset_def mold_body_append) simp
qed

lemma tape_offset_Suc:
  "i < length (tape_messages gt) \<Longrightarrow> tape_offset gt (Suc i) = tape_offset gt i + 2 + length (tape_messages gt ! i)"
  by (simp add: tape_offset_def take_Suc_conv_app_nth)

lemma tape_drop: "i \<le> length (tape_messages gt) \<Longrightarrow>
  tape_messages (drop (tape_offset gt i) gt) = drop i (tape_messages gt)"
proof (induction i)
  case 0
  then show ?case by (simp add: tape_offset_def)
next
  case (Suc i)
  let ?p = "tape_offset gt i"
  have ne: "tape_messages (drop ?p gt) \<noteq> []" using Suc by simp
  then have c: "?p + 2 \<le> length gt \<and> ?p + 2 + be_len gt ?p \<le> length gt"
    using tape_at(3) [OF tape_offset_le] by blast
  then have t: "tape_messages (drop ?p gt)
      = slice (?p + 2) (?p + 2 + be_len gt ?p) gt # tape_messages (drop (?p + 2 + be_len gt ?p) gt)"
    by (intro tape_at(2) tape_offset_le) simp_all
  moreover have "tape_messages (drop ?p gt) = tape_messages gt ! i # drop (Suc i) (tape_messages gt)"
    using Suc by (simp add: Cons_nth_drop_Suc)
  ultimately have "tape_messages gt ! i = slice (?p + 2) (?p + 2 + be_len gt ?p) gt"
    and d: "tape_messages (drop (?p + 2 + be_len gt ?p) gt) = drop (Suc i) (tape_messages gt)" by simp_all
  then have "length (tape_messages gt ! i) = be_len gt ?p" using c by simp
  then have "tape_offset gt (Suc i) = ?p + 2 + be_len gt ?p"
    using Suc.prems by (simp add: tape_offset_Suc)
  then show ?case using d by simp
qed

lemma tape_step:
  assumes "i \<le> length (tape_messages gt)"
  defines "p \<equiv> tape_offset gt i"
  shows "i < length (tape_messages gt) \<Longrightarrow> p + 2 \<le> length gt \<and> p + 2 + be_len gt p \<le> length gt \<and>
      p + 2 + be_len gt p = tape_offset gt (Suc i) \<and>
      slice (p + 2) (p + 2 + be_len gt p) gt = tape_messages gt ! i"
    and "i = length (tape_messages gt) \<Longrightarrow> \<not> (p + 2 \<le> length gt \<and> p + 2 + be_len gt p \<le> length gt)"
proof -
  have p: "p \<le> length gt" by (simp add: p_def tape_offset_le)
  have d: "tape_messages (drop p gt) = drop i (tape_messages gt)" using assms by (simp add: tape_drop)
  { assume i: "i < length (tape_messages gt)"
    then have c: "p + 2 \<le> length gt" "p + 2 + be_len gt p \<le> length gt"
      using tape_at(3) [OF p] d by (metis Cons_nth_drop_Suc list.distinct(1))+
    have "slice (p + 2) (p + 2 + be_len gt p) gt = tape_messages gt ! i"
      using tape_at(2) [OF p c] i unfolding d by (simp add: Cons_nth_drop_Suc [symmetric])
    moreover from this have "length (tape_messages gt ! i) = be_len gt p"
      using c by (metis add_diff_cancel_left' length_slice)
    ultimately show "p + 2 \<le> length gt \<and> p + 2 + be_len gt p \<le> length gt \<and>
      p + 2 + be_len gt p = tape_offset gt (Suc i) \<and>
      slice (p + 2) (p + 2 + be_len gt p) gt = tape_messages gt ! i"
      using c i by (simp add: tape_offset_Suc p_def) }
  assume "i = length (tape_messages gt)"
  then have "tape_messages (drop p gt) = []" by (simp add: d)
  then show "\<not> (p + 2 \<le> length gt \<and> p + 2 + be_len gt p \<le> length gt)"
    using tape_at(2) [OF p] by auto
qed

lemma seek_loop_ok:
  assumes "cursor_ok gt c" "cur_msg_index c \<le> target"
  shows "cursor_ok gt (fst (seek_loop gt target c)) \<and>
    (if snd (seek_loop gt target c) then cur_msg_index (fst (seek_loop gt target c)) = target
     else length (tape_messages gt) < unat target)"
  using assms
proof (induction gt target c rule: seek_loop.induct)
  case (1 gt target c)
  let ?i = "unat (cur_msg_index c)" and ?n = "length (tape_messages gt)" and ?p = "cur_byte_offset c"
  show ?case
  proof (cases "cur_msg_index c < target")
    case False
    then show ?thesis using 1 by (subst seek_loop.simps, subst (2 3) seek_loop.simps) auto
  next
    case lt: True
    have u: "unat (cur_msg_index c + 1) = Suc ?i"
      using lt unat_u64_less [of target] by (simp add: word_less_nat_alt unat_plus_u64)
    show ?thesis
    proof (cases "length gt < ?p + 2")
      case True
      have "?n \<le> ?i"
      proof (rule ccontr)
        assume "\<not> ?n \<le> ?i"
        then show False
          using "1.prems"(1) tape_step(1) [of ?i gt] True by (auto simp: cursor_ok_def)
      qed
      then have "?n < unat target" using lt by (simp add: word_less_nat_alt)
      then show ?thesis using True lt "1.prems" by (subst (1 2 3) seek_loop.simps) simp
    next
      case False
      let ?c' = "\<lparr>cur_byte_offset = ?p + (2 + be_len gt ?p), cur_msg_index = cur_msg_index c + 1\<rparr>"
      have b: "?i \<le> ?n" "?p = tape_offset gt ?i"
        using "1.prems"(1) False by (auto simp: cursor_ok_def)
      have "cursor_ok gt ?c'"
        using tape_step [OF b(1)] b False u by (cases "?i < ?n") (auto simp: cursor_ok_def add.assoc)
      moreover have "cur_msg_index ?c' \<le> target" using lt u by (simp add: word_less_nat_alt word_le_nat_alt)
      ultimately have ih: "cursor_ok gt (fst (seek_loop gt target ?c')) \<and>
          (if snd (seek_loop gt target ?c') then cur_msg_index (fst (seek_loop gt target ?c')) = target
           else ?n < unat target)"
        by (rule "1.IH" [OF lt False refl])
      have eq: "seek_loop gt target c = seek_loop gt target ?c'"
        using lt False by (subst seek_loop.simps) (simp add: Let_def)
      show ?thesis unfolding eq by (rule ih)
    qed
  qed
qed

text \<open>The renderer finds a message wherever its cursor was left, and an index past the tape
  from no position.\<close>

lemma seek_msg_ok:
  assumes "cursor_ok gt c"
  shows "cursor_ok gt (fst (seek_msg gt target c))"
    and "snd (seek_msg gt target c)
      = (if unat target \<le> length (tape_messages gt) then Some (tape_offset gt (unat target)) else None)"
    and "unat target \<le> length (tape_messages gt) \<Longrightarrow> cur_msg_index (fst (seek_msg gt target c)) = target"
proof -
  define c0 where "c0 = (if target < cur_msg_index c then Cursor_default else c)"
  have c0: "cursor_ok gt c0" "cur_msg_index c0 \<le> target"
    using assms by (auto simp: c0_def cursor_ok_def Cursor_default_def tape_offset_def not_less)
  obtain c1 found where l: "seek_loop gt target c0 = (c1, found)" by fastforce
  have r: "seek_msg gt target c = (c1, if found \<and> cur_byte_offset c1 \<le> length gt then Some (cur_byte_offset c1) else None)"
    by (simp add: seek_msg_def c0_def [symmetric] l)
  note ok = seek_loop_ok [OF c0, unfolded l fst_conv snd_conv]
  show "cursor_ok gt (fst (seek_msg gt target c))" using ok by (simp add: r)
  show "snd (seek_msg gt target c)
      = (if unat target \<le> length (tape_messages gt) then Some (tape_offset gt (unat target)) else None)"
    using ok tape_offset_le [of gt "unat target"] by (auto simp: r cursor_ok_def split: if_splits)
  show "cur_msg_index (fst (seek_msg gt target c)) = target" if "unat target \<le> length (tape_messages gt)"
    using ok that by (simp add: r split: if_splits)
qed

end
