(* ===== verification/Schedule.thy ===== *)
theory Schedule
  imports Tape "HOL-Library.Sorting_Algorithms"
begin

text \<open>
  \<open>crates/nf-transport/src/sched_types.rs\<close> and the frame renderer of \<open>render.rs\<close>: schedule events,
  their order, and \<open>render_event_standalone\<close>, which writes one frame into a slot.  The order is a
  lawful comparator (interpretation of the library's locale), though not one that separates
  all events.  The renderer produces \<open>event_frame\<close>: the wire form of the event over the
  messages of the tape, from any state of its cursor.
\<close>

section \<open>Events\<close>

datatype SchedKind =
    PacketEv u64 u64 u16
  | HeartbeatEv u64
  | EndOfSessionEv u64

record SchedEvent =
  se_release_vt :: u64
  se_feed :: u8
  se_kind :: SchedKind

record ReplaySchedule =
  rs_events :: "SchedEvent list"
  rs_session_split :: "(u64 \<times> SessionId) option"

definition kind_rank :: "SchedEvent \<Rightarrow> u8" where
  "kind_rank ev =
     (case se_kind ev of PacketEv _ _ _ \<Rightarrow> 0 | HeartbeatEv _ \<Rightarrow> 1 | EndOfSessionEv _ \<Rightarrow> 2)"

definition tiebreak :: "SchedEvent \<Rightarrow> u64" where
  "tiebreak ev =
     (case se_kind ev of
        PacketEv first_seq _ _ \<Rightarrow> first_seq
      | HeartbeatEv next_seq \<Rightarrow> next_seq
      | EndOfSessionEv next_seq \<Rightarrow> next_seq)"

definition cmp_word :: "'a :: len word \<Rightarrow> 'a word \<Rightarrow> comp" where
  "cmp_word a b = (if a < b then Less else if a = b then Equiv else Greater)"

definition then_with :: "comp \<Rightarrow> comp \<Rightarrow> comp" where
  "then_with c d = (case c of Equiv \<Rightarrow> d | _ \<Rightarrow> c)"

definition SchedEvent_cmp :: "SchedEvent \<Rightarrow> SchedEvent \<Rightarrow> comp" where
  "SchedEvent_cmp self other =
     then_with (then_with (then_with
       (cmp_word (se_release_vt self) (se_release_vt other))
       (cmp_word (se_feed self) (se_feed other)))
       (cmp_word (kind_rank self) (kind_rank other)))
       (cmp_word (tiebreak self) (tiebreak other))"

lemma then_with_simps [simp]:
  "then_with Equiv d = d" "then_with Less d = Less" "then_with Greater d = Greater"
  by (simp_all add: then_with_def)

lemma then_with_Equiv [simp]: "then_with c d = Equiv \<longleftrightarrow> c = Equiv \<and> d = Equiv"
  by (cases c) simp_all

lemma then_with_Less: "then_with c d = Less \<longleftrightarrow> c = Less \<or> c = Equiv \<and> d = Less"
  by (cases c) simp_all

lemma then_with_Greater: "then_with c d = Greater \<longleftrightarrow> c = Greater \<or> c = Equiv \<and> d = Greater"
  by (cases c) simp_all

lemma cmp_word_simps [simp]:
  "cmp_word a b = Equiv \<longleftrightarrow> a = b" "cmp_word a b = Less \<longleftrightarrow> a < b" "cmp_word a b = Greater \<longleftrightarrow> b < a"
  by (auto simp: cmp_word_def)

text \<open>The chain of \<open>then_with\<close> keeps the comparator laws.\<close>

lemma comparator_key: "comparator (\<lambda>a b. cmp_word (f a) (f b))"
  by unfold_locales simp_all

lemma comparator_then_with:
  assumes "comparator c" "comparator d"
  shows "comparator (\<lambda>a b. then_with (c a b) (d a b))"
proof (rule comparator.intro)
  show "then_with (c a a) (d a a) = Equiv" for a
    using assms by (simp add: comparator.refl)
  show "then_with (c a b) (d a b) = Equiv \<Longrightarrow> then_with (c b e) (d b e) = Equiv \<Longrightarrow> then_with (c a e) (d a e) = Equiv" for a b e
    using comparator.trans_equiv [OF assms(1)] comparator.trans_equiv [OF assms(2)] by simp blast
  show "then_with (c a b) (d a b) = Less \<Longrightarrow> then_with (c b e) (d b e) = Less \<Longrightarrow> then_with (c a e) (d a e) = Less" for a b e
    unfolding then_with_Less
    using comparator.trans_less [OF assms(1), of a b e] comparator.trans_less [OF assms(2), of a b e]
      comparator.trans_equiv [OF assms(1), of a b e] comparator.trans_less_equiv [OF assms(1), of a b e]
      comparator.trans_equiv_less [OF assms(1), of a b e] by blast
  show "(then_with (c b a) (d b a) = Greater) = (then_with (c a b) (d a b) = Less)" for b a
    unfolding then_with_Less then_with_Greater
    using comparator.greater_iff_sym_less [OF assms(1)] comparator.greater_iff_sym_less [OF assms(2)]
      comparator.sym [OF assms(1)] by blast
qed

interpretation sched_order: comparator SchedEvent_cmp
  unfolding SchedEvent_cmp_def [abs_def]
  by (intro comparator_then_with comparator_key)

section \<open>Rendering a frame\<close>

text \<open>\<open>slot[off..off + xs.len()].copy_from_slice(xs)\<close>.\<close>

definition put :: "nat \<Rightarrow> 'a list \<Rightarrow> 'a list \<Rightarrow> 'a list" where
  "put off xs slot = take off slot @ xs @ drop (off + length xs) slot"

definition effective_session :: "ReplaySchedule \<Rightarrow> SessionId \<Rightarrow> SchedEvent \<Rightarrow> SessionId" where
  "effective_session sched session ev =
     (case rs_session_split sched of
        Some (split_m, next_sess) \<Rightarrow>
          (case se_kind ev of
             PacketEv _ first_msg _ \<Rightarrow> if split_m \<le> first_msg then next_sess else session
           | HeartbeatEv _ \<Rightarrow> next_sess
           | EndOfSessionEv _ \<Rightarrow> next_sess)
      | None \<Rightarrow> session)"

fun blocks_end :: "bytes \<Rightarrow> nat \<Rightarrow> nat \<Rightarrow> nat option" where
  "blocks_end gt 0 cur_pos = Some cur_pos"
| "blocks_end gt (Suc n) cur_pos =
     (if length gt < cur_pos + 2 then None
      else blocks_end gt n (cur_pos + (2 + be_len gt cur_pos)))"

text \<open>The renderer returns the slot it wrote to, the cursor, and the frame length.\<close>

definition render_event_standalone ::
    "bytes \<Rightarrow> SchedEvent \<Rightarrow> ReplaySchedule \<Rightarrow> SessionId \<Rightarrow> bytes \<Rightarrow> Cursor \<Rightarrow> bytes \<times> Cursor \<times> nat option" where
  "render_event_standalone gt ev sched session slot cursor =
     (if length slot < HEADER_LEN then (slot, cursor, None)
      else let slot0 = put 0 (effective_session sched session ev) slot
           in case se_kind ev of
                HeartbeatEv next_seq \<Rightarrow>
                  (put 18 (u16_to_be_bytes HEARTBEAT_COUNT) (put 10 (u64_to_be_bytes next_seq) slot0),
                   cursor, Some HEADER_LEN)
              | EndOfSessionEv next_seq \<Rightarrow>
                  (put 18 (u16_to_be_bytes EOS_COUNT) (put 10 (u64_to_be_bytes next_seq) slot0),
                   cursor, Some HEADER_LEN)
              | PacketEv first_seq first_msg cnt \<Rightarrow>
                  let slot1 = put 18 (u16_to_be_bytes cnt) (put 10 (u64_to_be_bytes first_seq) slot0);
                      (cursor1, found) = seek_msg gt first_msg cursor
                  in case found of
                       None \<Rightarrow> (slot1, cursor1, None)
                     | Some start_pos \<Rightarrow>
                         (case blocks_end gt (unat cnt) start_pos of
                            None \<Rightarrow> (slot1, cursor1, None)
                          | Some cur_pos \<Rightarrow>
                              let total_len = HEADER_LEN + (cur_pos - start_pos)
                              in if length slot1 < total_len \<or> length gt < cur_pos then (slot1, cursor1, None)
                                 else (put HEADER_LEN (slice start_pos cur_pos gt) slot1,
                                       \<lparr>cur_byte_offset = cur_pos, cur_msg_index = first_msg + ucast cnt\<rparr>,
                                       Some total_len)))"

section \<open>What is rendered\<close>

definition ARENA_SLOT_SIZE :: nat where "ARENA_SLOT_SIZE = 1500"

definition event_msgs :: "bytes \<Rightarrow> SchedKind \<Rightarrow> bytes list" where
  "event_msgs gt k =
     (case k of
        PacketEv _ first_msg cnt \<Rightarrow> take (unat cnt) (drop (unat first_msg) (tape_messages gt))
      | _ \<Rightarrow> [])"

definition event_header :: "SchedKind \<Rightarrow> u64 \<times> u16" where
  "event_header k =
     (case k of
        PacketEv first_seq _ cnt \<Rightarrow> (first_seq, cnt)
      | HeartbeatEv next_seq \<Rightarrow> (next_seq, HEARTBEAT_COUNT)
      | EndOfSessionEv next_seq \<Rightarrow> (next_seq, EOS_COUNT))"

definition event_fits :: "bytes \<Rightarrow> SchedKind \<Rightarrow> bool" where
  "event_fits gt k =
     (case k of
        PacketEv _ first_msg cnt \<Rightarrow>
          unat first_msg + unat cnt \<le> length (tape_messages gt) \<and>
          HEADER_LEN + length (mold_body (event_msgs gt k)) \<le> ARENA_SLOT_SIZE
      | _ \<Rightarrow> True)"

definition event_frame :: "bytes \<Rightarrow> ReplaySchedule \<Rightarrow> SessionId \<Rightarrow> SchedEvent \<Rightarrow> bytes option" where
  "event_frame gt sched session ev =
     (if event_fits gt (se_kind ev)
      then Some (mold_frame (effective_session sched session ev)
        (fst (event_header (se_kind ev))) (snd (event_header (se_kind ev))) (event_msgs gt (se_kind ev)))
      else None)"

text \<open>Sessions are ten bytes wide.\<close>

definition sessions_ok :: "ReplaySchedule \<Rightarrow> SessionId \<Rightarrow> bool" where
  "sessions_ok sched session \<longleftrightarrow> length session = 10 \<and>
     (\<forall>p \<in> set_option (rs_session_split sched). length (snd p) = 10)"

lemma length_effective_session: "sessions_ok sched session \<Longrightarrow> length (effective_session sched session ev) = 10"
  by (auto simp: sessions_ok_def effective_session_def split: option.split SchedKind.split)

lemma length_put [simp]: "off + length xs \<le> length slot \<Longrightarrow> length (put off xs slot) = length slot"
  by (simp add: put_def)

lemma put_append: "length pre = off \<Longrightarrow> off + length xs = n \<Longrightarrow> n \<le> length slot \<Longrightarrow>
  take off slot = pre \<Longrightarrow> take n (put off xs slot) = pre @ xs"
  by (auto simp: put_def)

lemma blocks_end_tape:
  "i + k \<le> length (tape_messages gt) \<Longrightarrow> blocks_end gt k (tape_offset gt i) = Some (tape_offset gt (i + k))"
proof (induction k arbitrary: i)
  case 0
  then show ?case by simp
next
  case (Suc k)
  have "tape_offset gt i + (2 + be_len gt (tape_offset gt i)) = tape_offset gt (Suc i) \<and>
      tape_offset gt i + 2 \<le> length gt"
    using tape_step(1) [of i gt] Suc.prems by simp
  then show ?case using Suc.IH [of "Suc i"] Suc.prems by (simp del: One_nat_def)
qed

lemma blocks_end_past:
  "i \<le> length (tape_messages gt) \<Longrightarrow> length (tape_messages gt) < i + k \<Longrightarrow>
     blocks_end gt k (tape_offset gt i) = Some e \<Longrightarrow> length gt < e"
proof (induction k arbitrary: i)
  case 0
  then show ?case by simp
next
  case (Suc k)
  let ?p = "tape_offset gt i"
  from Suc.prems(3) have b: "\<not> length gt < ?p + 2" "blocks_end gt k (?p + (2 + be_len gt ?p)) = Some e"
    by (simp_all del: One_nat_def split: if_splits)
  show ?case
  proof (cases "i < length (tape_messages gt)")
    case True
    then have "?p + (2 + be_len gt ?p) = tape_offset gt (Suc i)" using tape_step(1) [of i gt] by simp
    with b have "blocks_end gt k (tape_offset gt (Suc i)) = Some e" by (simp only:)
    then show ?thesis using Suc.IH [of "Suc i"] Suc.prems True by simp
  next
    case False
    then have "length gt < ?p + (2 + be_len gt ?p)" using tape_step(2) [of i gt] b(1) Suc.prems by simp
    then show ?thesis using b(2) by (cases k) (simp_all split: if_splits)
  qed
qed

lemma tape_offset_diff:
  "tape_offset gt (i + k) = tape_offset gt i + length (mold_body (take k (drop i (tape_messages gt))))"
  by (simp add: tape_offset_def take_add)

lemma slice_tape:
  "slice (tape_offset gt i) (tape_offset gt (i + k)) gt = mold_body (take k (drop i (tape_messages gt)))"
proof -
  let ?ms = "tape_messages gt"
  have "gt = mold_body (take i ?ms) @ mold_body (take k (drop i ?ms)) @ mold_body (drop k (drop i ?ms)) @ tape_rest gt"
    by (metis append.assoc append_take_drop_id mold_body_append tape_split)
  then have "drop (tape_offset gt i) gt
      = mold_body (take k (drop i ?ms)) @ mold_body (drop k (drop i ?ms)) @ tape_rest gt"
    by (metis append_eq_conv_conj tape_offset_def)
  then show ?thesis by (simp add: slice_def tape_offset_diff)
qed

lemma put_frame:
  assumes "length s = 10" "20 + length b \<le> length slot"
  shows "take (20 + length b) (put 20 b (put 18 (u16_to_be_bytes c) (put 10 (u64_to_be_bytes q) (put 0 s slot))))
    = s @ u64_to_be_bytes q @ u16_to_be_bytes c @ b"
proof -
  have 1: "take 10 (put 0 s slot) = s" using assms by (simp add: put_def)
  have 2: "take 18 (put 10 (u64_to_be_bytes q) (put 0 s slot)) = s @ u64_to_be_bytes q"
    by (rule put_append) (use assms 1 in simp_all)
  have 3: "take 20 (put 18 (u16_to_be_bytes c) (put 10 (u64_to_be_bytes q) (put 0 s slot)))
      = (s @ u64_to_be_bytes q) @ u16_to_be_bytes c"
    by (rule put_append) (use assms 2 in simp_all)
  show ?thesis
    using put_append [of "(s @ u64_to_be_bytes q) @ u16_to_be_bytes c" 20 b "20 + length b", OF _ _ _ 3] assms
    by simp
qed

lemma put_header:
  assumes "length s = 10" "20 \<le> length slot"
  shows "take 20 (put 18 (u16_to_be_bytes c) (put 10 (u64_to_be_bytes q) (put 0 s slot)))
    = s @ u64_to_be_bytes q @ u16_to_be_bytes c"
  using put_frame [of s "[]" slot c q] assms by (simp add: put_def)

text \<open>One call of the renderer.\<close>

lemma render_ok:
  assumes "cursor_ok gt c" "length slot = ARENA_SLOT_SIZE" "sessions_ok sched session" "length gt < 2 ^ 64"
    and r: "render_event_standalone gt ev sched session slot c = (slot', c', r)"
  shows "length slot' = ARENA_SLOT_SIZE" "cursor_ok gt c'"
    "r = map_option length (event_frame gt sched session ev)"
    "event_frame gt sched session ev = Some f \<Longrightarrow> take (length f) slot' = f"
proof -
  let ?s = "effective_session sched session ev"
  have s: "length ?s = 10" using assms(3) by (rule length_effective_session)
  have slot: "length slot = 1500" using assms(2) by (simp add: ARENA_SLOT_SIZE_def)
  have "length slot' = ARENA_SLOT_SIZE \<and> cursor_ok gt c' \<and> r = map_option length (event_frame gt sched session ev) \<and>
    (\<forall>f. event_frame gt sched session ev = Some f \<longrightarrow> take (length f) slot' = f)"
  proof (cases "se_kind ev")
    case (HeartbeatEv q)
    then show ?thesis using r assms(1) slot s
      by (auto simp: render_event_standalone_def event_frame_def event_fits_def event_header_def event_msgs_def
          ARENA_SLOT_SIZE_def mold_frame_def put_header)
  next
    case (EndOfSessionEv q)
    then show ?thesis using r assms(1) slot s
      by (auto simp: render_event_standalone_def event_frame_def event_fits_def event_header_def event_msgs_def
          ARENA_SLOT_SIZE_def mold_frame_def put_header)
  next
    case (PacketEv q m n)
    let ?ms = "tape_messages gt"
    define slot1 where
      "slot1 = put 18 (u16_to_be_bytes n) (put 10 (u64_to_be_bytes q) (put 0 ?s slot))"
    have l1: "length slot1 = 1500" using slot s by (simp add: slot1_def)
    obtain c1 found where sk: "seek_msg gt m c = (c1, found)" by fastforce
    note seek = seek_msg_ok [OF assms(1), of m, unfolded sk fst_conv snd_conv]
    have rr: "(slot', c', r) = (case found of
        None \<Rightarrow> (slot1, c1, None)
      | Some start_pos \<Rightarrow>
          (case blocks_end gt (unat n) start_pos of
             None \<Rightarrow> (slot1, c1, None)
           | Some cur_pos \<Rightarrow>
               if length slot1 < 20 + (cur_pos - start_pos) \<or> length gt < cur_pos then (slot1, c1, None)
               else (put 20 (slice start_pos cur_pos gt) slot1,
                     \<lparr>cur_byte_offset = cur_pos, cur_msg_index = m + ucast n\<rparr>, Some (20 + (cur_pos - start_pos)))))"
      unfolding r [symmetric] render_event_standalone_def PacketEv SchedKind.case sk Let_def slot1_def
      using slot by simp
    have ef: "event_frame gt sched session ev
        = (if unat m + unat n \<le> length ?ms \<and> 20 + length (mold_body (take (unat n) (drop (unat m) ?ms))) \<le> 1500
           then Some (mold_frame ?s q n (take (unat n) (drop (unat m) ?ms))) else None)"
      by (simp add: event_frame_def event_fits_def event_header_def event_msgs_def ARENA_SLOT_SIZE_def PacketEv)
    show ?thesis
    proof (cases "unat m + unat n \<le> length ?ms")
      case False
      have "found = None \<or> (\<forall>p e. found = Some p \<longrightarrow> blocks_end gt (unat n) p = Some e \<longrightarrow> length gt < e)"
        using seek(2) False blocks_end_past [of "unat m" gt "unat n"] by (auto split: if_splits)
      then have "(slot', c', r) = (slot1, c1, None)"
        unfolding rr by (auto split: option.split)
      then show ?thesis using ef False seek(1) l1 by (simp add: ARENA_SLOT_SIZE_def)
    next
      case True
      let ?b = "mold_body (take (unat n) (drop (unat m) ?ms))"
      have len: "length ?ms < 2 ^ 64"
      proof -
        have "length (tape_messages gt) \<le> length gt"
        proof (induction gt rule: tape_messages.induct)
          case (1 gt)
          then show ?case
            by (cases "block_complete gt") (auto simp: tape_messages.simps [of gt] block_complete_def)
        qed
        then show ?thesis using assms(4) by simp
      qed
      have f: "found = Some (tape_offset gt (unat m))" using seek(2) True by simp
      have e: "blocks_end gt (unat n) (tape_offset gt (unat m)) = Some (tape_offset gt (unat m + unat n))"
        using True by (rule blocks_end_tape)
      have d: "tape_offset gt (unat m + unat n) - tape_offset gt (unat m) = length ?b"
        by (simp add: tape_offset_diff)
      have rr2: "(slot', c', r) = (if 1500 < 20 + length ?b then (slot1, c1, None)
          else (put 20 ?b slot1, \<lparr>cur_byte_offset = tape_offset gt (unat m + unat n), cur_msg_index = m + ucast n\<rparr>,
            Some (20 + length ?b)))"
        using tape_offset_le [of gt "unat m + unat n"] l1 unfolding rr f
        by (simp only: option.case e d slice_tape) simp
      show ?thesis
      proof (cases "1500 < 20 + length ?b")
        case True
        then show ?thesis using rr2 ef seek(1) l1 by (simp add: ARENA_SLOT_SIZE_def)
      next
        case False
        have "unat (m + ucast n) = unat m + unat n" using True len by (simp add: unat_plus_u64)
        then have "cursor_ok gt \<lparr>cur_byte_offset = tape_offset gt (unat m + unat n), cur_msg_index = m + ucast n\<rparr>"
          using True by (simp add: cursor_ok_def)
        moreover have "take (20 + length ?b) (put 20 ?b slot1) = mold_frame ?s q n (take (unat n) (drop (unat m) ?ms))"
          unfolding slot1_def mold_frame_def using s slot False by (intro put_frame) simp_all
        ultimately show ?thesis using rr2 ef False l1 True s
          by (auto simp: ARENA_SLOT_SIZE_def length_frame)
      qed
    qed
  qed
  then show "length slot' = ARENA_SLOT_SIZE" "cursor_ok gt c'"
    "r = map_option length (event_frame gt sched session ev)"
    "event_frame gt sched session ev = Some f \<Longrightarrow> take (length f) slot' = f" by blast+
qed

end
