(* ===== verification/Generator.thy ===== *)
theory Generator
  imports Schedule
begin

text \<open>
  The schedule builder (\<open>crates/nf-testkit/src/sched.rs\<close>): the pseudo-random generator, the
  packetization of a tape, the loss and delay models of the two feeds, the coverage guarantee,
  heartbeats and the end-of-session train.  A run that panics (a zero modulus) or does not
  return is \<open>None\<close>.  An \<open>f64\<close> that occurs here is finite and normal, so it is a pair of an integer
  mantissa and a binary exponent, and each operation rounds to 53 bits, ties to even.
\<close>

section \<open>Floating point\<close>

type_synonym f64 = "int \<times> int"

fun bit_len :: "nat \<Rightarrow> nat" where
  "bit_len n = (if n = 0 then 0 else Suc (bit_len (n div 2)))"

declare bit_len.simps [simp del]

definition shift_even :: "int \<Rightarrow> nat \<Rightarrow> int" where
  "shift_even m k =
     (let q = m div 2 ^ k; r = 2 * (m mod 2 ^ k)
      in if r < 2 ^ k \<or> r = 2 ^ k \<and> even q then q else q + 1)"

definition f64_nearest :: "f64 \<Rightarrow> f64" where
  "f64_nearest x =
     (let k = bit_len (nat \<bar>fst x\<bar>) - 53 in if k = 0 then x else (shift_even (fst x) k, snd x + int k))"

definition f64_of_int :: "int \<Rightarrow> f64" where
  "f64_of_int i = f64_nearest (i, 0)"

definition f64_add :: "f64 \<Rightarrow> f64 \<Rightarrow> f64" where
  "f64_add x y =
     (let e = min (snd x) (snd y)
      in f64_nearest (fst x * 2 ^ nat (snd x - e) + fst y * 2 ^ nat (snd y - e), e))"

definition f64_mul :: "f64 \<Rightarrow> f64 \<Rightarrow> f64" where
  "f64_mul x y = f64_nearest (fst x * fst y, snd x + snd y)"

text \<open>\<open>round()\<close>, half away from zero, and the saturating cast to \<open>i64\<close>.\<close>

definition f64_round :: "f64 \<Rightarrow> int" where
  "f64_round x =
     (if 0 \<le> snd x then fst x * 2 ^ nat (snd x)
      else let k = nat (- snd x) in sgn (fst x) * ((2 * \<bar>fst x\<bar> + 2 ^ k) div 2 ^ Suc k))"

definition i64_of_int :: "int \<Rightarrow> u64" where
  "i64_of_int i = word_of_int (max (- (2 ^ 63)) (min i (2 ^ 63 - 1)))"

section \<open>The generator\<close>

record SplitMix64 =
  sm_state :: u64

definition SplitMix64_new :: "u64 \<Rightarrow> SplitMix64" where
  "SplitMix64_new seed = \<lparr>sm_state = seed\<rparr>"

definition next_u64 :: "SplitMix64 \<Rightarrow> SplitMix64 \<times> u64" where
  "next_u64 r =
     (let state = sm_state r + 0x9E3779B97F4A7C15;
          z1 = (state XOR drop_bit 30 state) * 0xBF58476D1CE4E5B9;
          z2 = (z1 XOR drop_bit 27 z1) * 0x94D049BB133111EB
      in (r\<lparr>sm_state := state\<rparr>, z2 XOR drop_bit 31 z2))"

definition next_f64 :: "SplitMix64 \<Rightarrow> SplitMix64 \<times> f64" where
  "next_f64 r = (let (r1, x) = next_u64 r in (r1, f64_mul (f64_of_int (uint (drop_bit 11 x))) (1, - 53)))"

fun gaussian_sum :: "nat \<Rightarrow> f64 \<Rightarrow> SplitMix64 \<Rightarrow> SplitMix64 \<times> f64" where
  "gaussian_sum 0 s r = (r, s)"
| "gaussian_sum (Suc n) s r = (let (r1, x) = next_f64 r in gaussian_sum n (f64_add s x) r1)"

definition next_gaussian_approx :: "SplitMix64 \<Rightarrow> SplitMix64 \<times> f64" where
  "next_gaussian_approx r = (let (r1, s) = gaussian_sum 12 (0, 0) r in (r1, f64_add s (- 6, 0)))"

section \<open>Configuration\<close>

datatype Packetize =
    Fixed u16
  | MtuBound u16
  | SeededRange u16 u16

datatype LossModel =
    LossNone
  | Bernoulli u32
  | GilbertElliott u32 u32 u32 u32

datatype DelayModel =
    DelayNone
  | GaussianApprox u64 u64

record DropRange =
  dr_seq_from :: u64
  dr_seq_to_incl :: u64
  dr_feed_mask :: u8

text \<open>An array indexed by the feed is a pair; the feeds are 0 and 1.\<close>

type_synonym 'a feeds = "'a \<times> 'a"

definition of_feed :: "nat \<Rightarrow> 'a feeds \<Rightarrow> 'a" where
  "of_feed feed p = (if feed = 0 then fst p else snd p)"

definition set_feed :: "nat \<Rightarrow> 'a \<Rightarrow> 'a feeds \<Rightarrow> 'a feeds" where
  "set_feed feed x p = (if feed = 0 then (x, snd p) else (fst p, x))"

record ReplayConfig =
  rc_seed_a :: u64
  rc_seed_b :: u64
  rc_msgs_per_packet :: Packetize
  rc_loss :: "LossModel feeds"
  rc_delay :: "DelayModel feeds"
  rc_base_rate_msg_per_sec :: u64
  rc_heartbeat_interval_ns :: u64
  rc_guarantee_coverage :: bool
  rc_scripted_drops :: "DropRange list"
  rc_session_change_at_msg :: "u64 option"
  rc_feeds_enabled :: u8

definition ReplayConfig_default :: ReplayConfig where
  "ReplayConfig_default =
     \<lparr>rc_seed_a = 0x123456789ABCDEF0, rc_seed_b = 0x0FEDCBA987654321, rc_msgs_per_packet = Fixed 10,
      rc_loss = (LossNone, LossNone), rc_delay = (DelayNone, DelayNone), rc_base_rate_msg_per_sec = 1000000,
      rc_heartbeat_interval_ns = 1000000000, rc_guarantee_coverage = True, rc_scripted_drops = [],
      rc_session_change_at_msg = None, rc_feeds_enabled = 3\<rparr>"

section \<open>Packetization\<close>

record RawMsgInfo =
  mi_index :: u64
  mi_len :: u16

function msg_infos_loop :: "bytes \<Rightarrow> nat \<Rightarrow> u64 \<Rightarrow> RawMsgInfo list \<Rightarrow> RawMsgInfo list" where
  "msg_infos_loop gt pos msg_idx infos =
     (if pos + 2 \<le> length gt
      then let len = u16_from_be_bytes [gt ! pos, gt ! (pos + 1)]; pos1 = pos + 2
           in if length gt < pos1 + unat len then infos
              else msg_infos_loop gt (pos1 + unat len) (msg_idx + 1) (infos @ [\<lparr>mi_index = msg_idx, mi_len = len\<rparr>])
      else infos)"
  by pat_completeness auto
termination msg_infos_loop
  by (relation "measure (\<lambda>(gt, pos, msg_idx, infos). length gt - pos)") auto

declare msg_infos_loop.simps [simp del]

record RawPacket =
  rp_first_msg :: u64
  rp_count :: u16

text \<open>The count \<open>c\<close> and the byte total are \<open>u16\<close>, which wrap.\<close>

partial_function (option) mtu_count :: "RawMsgInfo list \<Rightarrow> nat \<Rightarrow> u16 \<Rightarrow> u16 \<Rightarrow> u16 \<Rightarrow> u16 option" where
  "mtu_count infos cur_msg max_payload accumulated c =
     (if cur_msg + unat c < length infos
      then let block_len = 2 + mi_len (infos ! (cur_msg + unat c))
           in if 0 < c \<and> max_payload < accumulated + block_len then Some c
              else mtu_count infos cur_msg max_payload (accumulated + block_len) (c + 1)
      else Some c)"

definition packet_size ::
    "ReplayConfig \<Rightarrow> RawMsgInfo list \<Rightarrow> nat \<Rightarrow> SplitMix64 \<Rightarrow> (SplitMix64 \<times> u16) option" where
  "packet_size config infos cur_msg prng_a =
     (case rc_msgs_per_packet config of
        Fixed k \<Rightarrow> Some (prng_a, min k (of_nat (length infos - cur_msg)))
      | MtuBound mtu \<Rightarrow>
          map_option (Pair prng_a) (mtu_count infos cur_msg (if 20 \<le> mtu then mtu - 20 else 50) 0 0)
      | SeededRange mn mx \<Rightarrow>
          let range = ucast (mx - mn + 1) :: u64
          in if range = 0 then None
             else let (prng1, x) = next_u64 prng_a;
                      draw = mn + ucast (x mod range)
                  in Some (prng1, min draw (of_nat (length infos - cur_msg))))"

function packetize ::
    "ReplayConfig \<Rightarrow> RawMsgInfo list \<Rightarrow> nat \<Rightarrow> SplitMix64 \<Rightarrow> RawPacket list \<Rightarrow> (SplitMix64 \<times> RawPacket list) option" where
  "packetize config infos cur_msg prng_a packets =
     (if cur_msg < length infos
      then case packet_size config infos cur_msg prng_a of
             None \<Rightarrow> None
           | Some (prng1, c) \<Rightarrow>
               let cnt = max 1 c
               in packetize config infos (cur_msg + unat cnt) prng1
                    (packets @ [\<lparr>rp_first_msg = of_nat cur_msg, rp_count = cnt\<rparr>])
      else Some (prng_a, packets))"
  by pat_completeness auto

lemma max_one_pos: "0 < unat (max 1 (c :: u16))"
proof -
  have "0 < max 1 c" by (rule less_le_trans [of _ 1]) simp_all
  then show ?thesis by (simp add: word_less_nat_alt)
qed

termination packetize
  by (relation "measure (\<lambda>(config, infos, cur_msg, prng_a, packets). length infos - cur_msg)")
    (use max_one_pos in \<open>simp_all add: diff_less_mono2\<close>)

declare packetize.simps [simp del]

section \<open>Packets to events\<close>

text \<open>What the packet loop keeps: the two generators, the Gilbert-Elliott states (true is bad),
  the running message count and the events.\<close>

record Build =
  bd_prng :: "SplitMix64 feeds"
  bd_ge_state :: "bool feeds"
  bd_cumulative_msgs :: u64
  bd_events :: "SchedEvent list"

definition feed_enabled :: "ReplayConfig \<Rightarrow> nat \<Rightarrow> bool" where
  "feed_enabled config feed \<longleftrightarrow> rc_feeds_enabled config AND push_bit feed 1 \<noteq> 0"

definition ns_per_msg :: "ReplayConfig \<Rightarrow> u64" where
  "ns_per_msg config =
     (if 0 < rc_base_rate_msg_per_sec config then 1000000000 div rc_base_rate_msg_per_sec config else 1000)"

definition packet_seq :: "ReplayConfig \<Rightarrow> RawPacket \<Rightarrow> u64" where
  "packet_seq config pkt =
     (case rc_session_change_at_msg config of
        Some split_m \<Rightarrow>
          if split_m \<le> rp_first_msg pkt then (rp_first_msg pkt - split_m) + 1 else rp_first_msg pkt + 1
      | None \<Rightarrow> rp_first_msg pkt + 1)"

definition scripted :: "ReplayConfig \<Rightarrow> nat \<Rightarrow> u64 \<Rightarrow> RawPacket \<Rightarrow> bool" where
  "scripted config feed first_seq pkt \<longleftrightarrow>
     (let pkt_end_seq = first_seq + ucast (rp_count pkt) - 1
      in list_ex (\<lambda>d. dr_feed_mask d AND push_bit feed 1 \<noteq> 0 \<and>
            \<not> (pkt_end_seq < dr_seq_from d \<or> dr_seq_to_incl d < first_seq)) (rc_scripted_drops config))"

definition draw_pm :: "SplitMix64 \<Rightarrow> SplitMix64 \<times> u32" where
  "draw_pm r = (let (r1, x) = next_u64 r in (r1, ucast (x mod 1000)))"

text \<open>The stochastic loss of one feed: generator, Gilbert-Elliott state, dropped.\<close>

definition draw_loss :: "LossModel \<Rightarrow> SplitMix64 \<Rightarrow> bool \<Rightarrow> SplitMix64 \<times> bool \<times> bool" where
  "draw_loss model r is_bad =
     (case model of
        LossNone \<Rightarrow> (r, is_bad, False)
      | Bernoulli p_pm \<Rightarrow> let (r1, draw) = draw_pm r in (r1, is_bad, draw < p_pm)
      | GilbertElliott p_g2b_pm p_b2g_pm p_drop_good_pm p_drop_bad_pm \<Rightarrow>
          let drop_p = (if is_bad then p_drop_bad_pm else p_drop_good_pm);
              (r1, draw) = draw_pm r;
              (r2, trans_draw) = draw_pm r1;
              bad1 = (if is_bad then \<not> trans_draw < p_b2g_pm else trans_draw < p_g2b_pm)
          in (r2, bad1, draw < drop_p))"

definition feed_loss :: "ReplayConfig \<Rightarrow> u64 \<Rightarrow> RawPacket \<Rightarrow> nat \<Rightarrow> Build \<Rightarrow> Build \<times> bool" where
  "feed_loss config first_seq pkt feed b =
     (if \<not> feed_enabled config feed then (b, True)
      else if scripted config feed first_seq pkt then (b, True)
      else let (r, bad, dropped) = draw_loss (of_feed feed (rc_loss config)) (of_feed feed (bd_prng b))
                 (of_feed feed (bd_ge_state b))
           in (b\<lparr>bd_prng := set_feed feed r (bd_prng b), bd_ge_state := set_feed feed bad (bd_ge_state b)\<rparr>, dropped))"

text \<open>When both enabled feeds dropped the packet, one of them gets it back.\<close>

definition cover_packet :: "ReplayConfig \<Rightarrow> Build \<Rightarrow> bool feeds \<Rightarrow> Build \<times> bool feeds" where
  "cover_packet config b dropped =
     (if rc_guarantee_coverage config \<and> fst dropped \<and> snd dropped \<and> feed_enabled config 0 \<and> feed_enabled config 1
      then let (r, x) = next_u64 (fst (bd_prng b))
           in (b\<lparr>bd_prng := (r, snd (bd_prng b))\<rparr>, set_feed (unat (x AND 1)) False dropped)
      else (b, dropped))"

definition draw_delay :: "DelayModel \<Rightarrow> SplitMix64 \<Rightarrow> SplitMix64 \<times> u64" where
  "draw_delay model r =
     (case model of
        DelayNone \<Rightarrow> (r, 0)
      | GaussianApprox mean_ns sigma_ns \<Rightarrow>
          let (r1, z) = next_gaussian_approx r
          in (r1, i64_of_int (f64_round (f64_add (f64_of_int (sint mean_ns)) (f64_mul z (f64_of_int (uint sigma_ns)))))))"

definition release_time :: "u64 \<Rightarrow> u64 \<Rightarrow> u64" where
  "release_time base_vt delay_ns =
     (if 0 \<le> sint delay_ns then saturating_add64 base_vt delay_ns else saturating_sub64 base_vt (- delay_ns))"

definition add_packet :: "ReplayConfig \<Rightarrow> u64 \<Rightarrow> u64 \<Rightarrow> RawPacket \<Rightarrow> bool feeds \<Rightarrow> nat \<Rightarrow> Build \<Rightarrow> Build" where
  "add_packet config base_vt first_seq pkt dropped feed b =
     (if of_feed feed dropped then b
      else let (r, delay_ns) = draw_delay (of_feed feed (rc_delay config)) (of_feed feed (bd_prng b))
           in b\<lparr>bd_prng := set_feed feed r (bd_prng b),
                bd_events := bd_events b @
                  [\<lparr>se_release_vt = release_time base_vt delay_ns, se_feed = of_nat feed,
                    se_kind = PacketEv first_seq (rp_first_msg pkt) (rp_count pkt)\<rparr>]\<rparr>)"

definition build_packet :: "ReplayConfig \<Rightarrow> RawPacket \<Rightarrow> Build \<Rightarrow> Build" where
  "build_packet config pkt b =
     (let first_seq = packet_seq config pkt;
          base_vt = bd_cumulative_msgs b * ns_per_msg config;
          b0 = b\<lparr>bd_cumulative_msgs := bd_cumulative_msgs b + ucast (rp_count pkt)\<rparr>;
          (b1, drop_a) = feed_loss config first_seq pkt 0 b0;
          (b2, drop_b) = feed_loss config first_seq pkt 1 b1;
          (b3, dropped) = cover_packet config b2 (drop_a, drop_b)
      in add_packet config base_vt first_seq pkt dropped 1 (add_packet config base_vt first_seq pkt dropped 0 b3))"

section \<open>Termination of the stream\<close>

partial_function (option) rolling_heartbeats ::
    "u64 \<Rightarrow> u64 \<Rightarrow> nat \<Rightarrow> u64 \<Rightarrow> u64 \<Rightarrow> SchedEvent list \<Rightarrow> SchedEvent list option" where
  "rolling_heartbeats interval final_vt feed next_seq hb_vt events =
     (if hb_vt < final_vt
      then rolling_heartbeats interval final_vt feed next_seq (hb_vt + interval)
             (events @ [\<lparr>se_release_vt = hb_vt, se_feed = of_nat feed, se_kind = HeartbeatEv next_seq\<rparr>])
      else Some events)"

definition terminal_events :: "u64 \<Rightarrow> nat \<Rightarrow> u64 \<Rightarrow> SchedEvent list" where
  "terminal_events final_vt feed next_seq =
     (let thb_vt = final_vt + 1000; eos_lead_ns = 50000000
      in \<lparr>se_release_vt = thb_vt, se_feed = of_nat feed, se_kind = HeartbeatEv next_seq\<rparr> #
         map (\<lambda>i. \<lparr>se_release_vt = thb_vt + eos_lead_ns + of_nat i * 10000000, se_feed = of_nat feed,
                se_kind = SchedKind.EndOfSessionEv next_seq\<rparr>) [0 ..< 5])"

definition finish_feed :: "ReplayConfig \<Rightarrow> u64 \<Rightarrow> u64 \<Rightarrow> nat \<Rightarrow> SchedEvent list \<Rightarrow> SchedEvent list option" where
  "finish_feed config final_vt next_seq feed events =
     (if feed_enabled config feed
      then map_option (\<lambda>evs. evs @ terminal_events final_vt feed next_seq)
             (if 0 < rc_heartbeat_interval_ns config
              then rolling_heartbeats (rc_heartbeat_interval_ns config) final_vt feed next_seq
                     (rc_heartbeat_interval_ns config) events
              else Some events)
      else Some events)"

definition latest_vt :: "SchedEvent list \<Rightarrow> u64" where
  "latest_vt events = foldl max 0 (map se_release_vt events)"

definition final_next_seq :: "ReplayConfig \<Rightarrow> u64 \<Rightarrow> u64" where
  "final_next_seq config total_msgs =
     (case rc_session_change_at_msg config of
        Some split_m \<Rightarrow> if split_m \<le> total_msgs then (total_msgs - split_m) + 1 else total_msgs + 1
      | None \<Rightarrow> total_msgs + 1)"

text \<open>\<open>events.sort()\<close>, a stable sort by the order of the events.\<close>

lift_definition sched_comparator :: "SchedEvent comparator" is SchedEvent_cmp
  by (rule sched_order.comparator_axioms)

definition SPLITSESS2 :: SessionId where
  "SPLITSESS2 = [83, 80, 76, 73, 84, 83, 69, 83, 83, 50]"

definition build_schedule :: "bytes \<Rightarrow> ReplayConfig \<Rightarrow> ReplaySchedule option" where
  "build_schedule gt config =
     (let infos = msg_infos_loop gt 0 0 []; total_msgs = of_nat (length infos) :: u64
      in if total_msgs = 0 then Some \<lparr>rs_events = [], rs_session_split = None\<rparr>
         else case packetize config infos 0 (SplitMix64_new (rc_seed_a config)) [] of
           None \<Rightarrow> None
         | Some (prng_a, packets) \<Rightarrow>
             let b = fold (build_packet config) packets
                   \<lparr>bd_prng = (prng_a, SplitMix64_new (rc_seed_b config)), bd_ge_state = (False, False),
                    bd_cumulative_msgs = 0, bd_events = []\<rparr>;
                 final_vt = latest_vt (bd_events b);
                 next_seq = final_next_seq config total_msgs
             in case finish_feed config final_vt next_seq 0 (bd_events b) of
                  None \<Rightarrow> None
                | Some evs0 \<Rightarrow>
                    map_option (\<lambda>evs.
                      \<lparr>rs_events = Sorting_Algorithms.sort sched_comparator evs,
                       rs_session_split = map_option (\<lambda>m. (m, SPLITSESS2)) (rc_session_change_at_msg config)\<rparr>)
                      (finish_feed config final_vt next_seq 1 evs0))"

end
