(* ===== verification/Replay.thy ===== *)
theory Replay
  imports Schedule "HOL-Library.AList" "HOL-Library.Product_Lexorder"
begin

text \<open>
  \<open>crates/nf-transport/src/render.rs\<close> and \<open>lib.rs\<close>: the replay transport.  The constructor renders
  every event of the schedule once into one blob, shares the bytes of duplicate deliveries,
  indexes the blocks of each frame and collects the places where a session id is written;
  \<open>reset\<close> and the paced prepatching rewrite those places; \<open>poll\<close> releases frames by virtual time
  in three modes that share one walk.  An address into the blob is its offset; the position of
  the mapping in memory (\<open>rt_base\<close>) is chosen by the operating system and is an argument of
  the constructor.
\<close>

section \<open>Directory\<close>

record FrameMeta =
  fm_offset :: u32
  fm_len :: u16
  fm_feed :: u8
  fm_blk_base :: u32
  fm_blk_count :: u16
  fm_valid :: u16
  fm_first_seq :: u64

definition tombstone :: "u8 \<Rightarrow> FrameMeta" where
  "tombstone feed = \<lparr>fm_offset = 0, fm_len = 0, fm_feed = feed, fm_blk_base = 0, fm_blk_count = 0,
     fm_valid = 0, fm_first_seq = 0\<rparr>"

type_synonym AliasKey = "u64 \<times> u64 \<times> u16"
type_synonym AliasVal = "u32 \<times> u32 \<times> u16 \<times> u16 \<times> u32"

datatype AliasOutcome = Aliased | Primary | Rejected

text \<open>The locals of the construction sweep.\<close>

record Sweep =
  sw_blob :: bytes
  sw_meta :: "FrameMeta list"
  sw_vts :: "u64 list"
  sw_triples :: "BlockTriple list"
  sw_patch_evts :: "(u32 \<times> u32) list"
  sw_cursors :: "Cursor list"
  sw_scratch :: bytes
  sw_alias_map :: "(AliasKey \<times> AliasVal) list"
  sw_aliased_frames :: u32

definition Sweep_start :: Sweep where
  "Sweep_start = \<lparr>sw_blob = [], sw_meta = [], sw_vts = [], sw_triples = [], sw_patch_evts = [],
     sw_cursors = [Cursor_default, Cursor_default], sw_scratch = replicate ARENA_SLOT_SIZE 0,
     sw_alias_map = [], sw_aliased_frames = 0\<rparr>"

definition session_patchable :: "ReplaySchedule \<Rightarrow> SchedKind \<Rightarrow> bool" where
  "session_patchable sched k =
     (case rs_session_split sched of
        Some (split_m, _) \<Rightarrow> (case k of PacketEv _ first_msg _ \<Rightarrow> first_msg < split_m | _ \<Rightarrow> False)
      | None \<Rightarrow> True)"

definition alias_lookup ::
    "nat \<Rightarrow> SchedKind \<Rightarrow> nat \<Rightarrow> Sweep \<Rightarrow> Sweep \<times> (u32 \<times> u32 \<times> u16 \<times> u16) option \<times> AliasOutcome" where
  "alias_lookup ev_i k len b =
     (case k of
        PacketEv first_seq first_msg cnt \<Rightarrow>
          if 0 < cnt
          then case map_of (sw_alias_map b) (first_seq, first_msg, cnt) of
                 Some (off, blk_base, blk_count, valid, last_evt) \<Rightarrow>
                   let a = unat off
                   in if a + len \<le> length (sw_blob b) \<and>
                        slice (a + HEADER_LEN) (a + len) (sw_blob b) = slice HEADER_LEN len (sw_scratch b)
                      then (b\<lparr>sw_aliased_frames := sw_aliased_frames b + 1,
                              sw_alias_map := AList.update (first_seq, first_msg, cnt)
                                (off, blk_base, blk_count, valid, max last_evt (of_nat ev_i)) (sw_alias_map b)\<rparr>,
                            Some (off, blk_base, blk_count, valid), Aliased)
                      else (b, None, Rejected)
               | None \<Rightarrow> (b, None, Primary)
          else (b, None, Primary)
      | _ \<Rightarrow> (b, None, Primary))"

text \<open>The walk that indexes the blocks of the rendered frame: triples, end position, number of
  blocks, length of the valid prefix, and whether every block was in bounds.\<close>

fun index_walk ::
    "bytes \<Rightarrow> nat \<Rightarrow> nat \<Rightarrow> nat \<Rightarrow> u64 \<Rightarrow> u16 \<Rightarrow> u16 \<Rightarrow> BlockTriple list \<Rightarrow>
      BlockTriple list \<times> nat \<times> u16 \<times> u16 \<times> bool" where
  "index_walk scratch len 0 pos sq n valid triples = (triples, pos, n, valid, True)"
| "index_walk scratch len (Suc k) pos sq n valid triples =
     (if length scratch < pos + 2 then (triples, pos, n, valid, False)
      else let start = pos + 2; end = start + be_len scratch pos
           in if len < end then (triples, pos, n, valid, False)
              else index_walk scratch len k end (sq + 1) (n + 1)
                     (if valid = n \<and> validate (slice start end scratch) = Inr () then valid + 1 else valid)
                     (triples @ [(sq, of_nat start, of_nat end)]))"

definition index_frame ::
    "SchedKind \<Rightarrow> nat \<Rightarrow> bytes \<Rightarrow> BlockTriple list \<Rightarrow> BlockTriple list \<times> u32 \<times> u16 \<times> u16" where
  "index_frame k len scratch triples =
     (case k of
        PacketEv first_seq _ cnt \<Rightarrow>
          let base = of_nat (length triples);
              (triples1, pos, n, valid, ok) = index_walk scratch len (unat cnt) HEADER_LEN first_seq 0 0 triples
          in if \<not> ok \<or> pos \<noteq> len then (take (unat base) triples1, 0, 0, 0) else (triples1, base, n, valid)
      | _ \<Rightarrow> (triples, 0, 0, 0))"

text \<open>A frame that shares no region: append its bytes, zero the session of a patchable one,
  index it, and register a full packet for later duplicates.\<close>

definition append_frame ::
    "nat \<Rightarrow> SchedKind \<Rightarrow> nat \<Rightarrow> bool \<Rightarrow> Sweep \<Rightarrow> Sweep \<times> u32 \<times> u32 \<times> u16 \<times> u16" where
  "append_frame ev_i k len patch b =
     (let off = of_nat (length (sw_blob b));
          blob = sw_blob b @ take len (sw_scratch b);
          blob1 = (if patch then put (unat off) (replicate 10 0) blob else blob);
          (triples, blk_base, blk_count, valid) = index_frame k len (sw_scratch b) (sw_triples b);
          aliases = (case k of
            PacketEv first_seq first_msg cnt \<Rightarrow>
              if 0 < cnt \<and> blk_count = cnt \<and> map_of (sw_alias_map b) (first_seq, first_msg, cnt) = None
              then sw_alias_map b @ [((first_seq, first_msg, cnt), (off, blk_base, blk_count, valid, of_nat ev_i))]
              else sw_alias_map b
          | _ \<Rightarrow> sw_alias_map b)
      in (b\<lparr>sw_blob := blob1, sw_triples := triples, sw_alias_map := aliases\<rparr>, off, blk_base, blk_count, valid))"

definition packet_count :: "SchedKind \<Rightarrow> u16" where
  "packet_count k = (case k of PacketEv _ _ cnt \<Rightarrow> cnt | _ \<Rightarrow> 0)"

definition packet_first_seq :: "SchedKind \<Rightarrow> u64" where
  "packet_first_seq k = (case k of PacketEv first_seq _ _ \<Rightarrow> first_seq | _ \<Rightarrow> 0)"

definition sweep_event :: "bytes \<Rightarrow> ReplaySchedule \<Rightarrow> SessionId \<Rightarrow> nat \<Rightarrow> SchedEvent \<Rightarrow> Sweep \<Rightarrow> Sweep" where
  "sweep_event gt sched session ev_i ev b =
     (let feed_idx = unat (se_feed ev AND 1);
          (scratch, cursor, rendered) =
            render_event_standalone gt ev sched session (sw_scratch b) (sw_cursors b ! feed_idx);
          b1 = b\<lparr>sw_scratch := scratch, sw_cursors := (sw_cursors b)[feed_idx := cursor]\<rparr>
      in case rendered of
           None \<Rightarrow> b1\<lparr>sw_meta := sw_meta b1 @ [tombstone (se_feed ev)], sw_vts := sw_vts b1 @ [se_release_vt ev]\<rparr>
         | Some len \<Rightarrow>
             let k = se_kind ev;
                 patch = session_patchable sched k;
                 (b2, alias, outcome) = alias_lookup ev_i k len b1;
                 (b3, off, blk_base, blk_count, valid) =
                   (case alias of
                      Some (a_off, a_blk_base, a_blk_count, a_valid) \<Rightarrow> (b2, a_off, a_blk_base, a_blk_count, a_valid)
                    | None \<Rightarrow> append_frame ev_i k len patch b2);
                 non_map_frame = (packet_count k = 0);
                 b4 = (if 0 < packet_count k \<and> blk_count = 0
                   then b3\<lparr>sw_meta := sw_meta b3 @ [tombstone (se_feed ev)]\<rparr>
                   else b3\<lparr>sw_patch_evts := sw_patch_evts b3 @
                            (if patch \<and> (non_map_frame \<or> outcome = Rejected) then [(of_nat ev_i, off)] else []),
                          sw_meta := sw_meta b3 @
                            [\<lparr>fm_offset = off, fm_len = of_nat len, fm_feed = se_feed ev, fm_blk_base = blk_base,
                              fm_blk_count = blk_count, fm_valid = valid, fm_first_seq = packet_first_seq k\<rparr>]\<rparr>)
             in b4\<lparr>sw_vts := sw_vts b4 @ [se_release_vt ev]\<rparr>)"

fun sweep_events :: "bytes \<Rightarrow> ReplaySchedule \<Rightarrow> SessionId \<Rightarrow> nat \<Rightarrow> SchedEvent list \<Rightarrow> Sweep \<Rightarrow> Sweep" where
  "sweep_events gt sched session ev_i [] b = b"
| "sweep_events gt sched session ev_i (ev # evs) b =
     sweep_events gt sched session (Suc ev_i) evs (sweep_event gt sched session ev_i ev b)"

text \<open>The post-sweep: one site per shared region, at the last event that reads it.  The
  iteration order of the hash map does not matter, the list is sorted.\<close>

definition alias_sites :: "ReplaySchedule \<Rightarrow> (AliasKey \<times> AliasVal) list \<Rightarrow> (u32 \<times> u32) list" where
  "alias_sites sched aliases =
     map (\<lambda>(_, off, _, _, _, last_evt). (last_evt, off))
       (filter (\<lambda>((_, first_msg, _), _).
          case rs_session_split sched of Some (split_m, _) \<Rightarrow> first_msg < split_m | None \<Rightarrow> True) aliases)"

definition final_patch_evts :: "ReplaySchedule \<Rightarrow> Sweep \<Rightarrow> (u32 \<times> u32) list" where
  "final_patch_evts sched b = sort_key (\<lambda>p. p) (sw_patch_evts b @ alias_sites sched (sw_alias_map b))"

function run_end :: "u64 list \<Rightarrow> u64 \<Rightarrow> nat \<Rightarrow> nat" where
  "run_end vts v j = (if j < length vts \<and> vts ! j \<le> v then run_end vts v (j + 1) else j)"
  by pat_completeness auto
termination run_end
  by (relation "measure (\<lambda>(vts, v, j). length vts - j)") auto

declare run_end.simps [simp del]

lemma run_end_ge: "j \<le> run_end vts v j"
  by (induction vts v j rule: run_end.induct) (subst run_end.simps, auto)

function group_sweep :: "u64 list \<Rightarrow> nat \<Rightarrow> u32 list \<Rightarrow> u32 list" where
  "group_sweep vts i group_end =
     (if i < length vts
      then let j = run_end vts (vts ! i) (i + 1)
           in group_sweep vts j (put i (replicate (j - i) (of_nat j)) group_end)
      else group_end)"
  by pat_completeness auto
termination group_sweep
proof (relation "measure (\<lambda>(vts, i, ge). length vts - i)")
  show "((vts, j, put i (replicate (j - i) (of_nat j)) ge), vts, i, ge) \<in> measure (\<lambda>(vts, i, ge). length vts - i)"
    if "i < length vts" "j = run_end vts (vts ! i) (i + 1)" for vts i ge j
    using that run_end_ge [of "i + 1" vts "vts ! i"] by auto
qed simp

declare group_sweep.simps [simp del]

section \<open>Transport\<close>

record ReplayTransport =
  rt_schedule :: ReplaySchedule
  rt_event_idx :: nat
  rt_virtual_clock :: u64
  rt_base :: u64
  rt_frames :: bytes
  rt_meta :: "FrameMeta list"
  rt_vts :: "u64 list"
  rt_group_end :: "u32 list"
  rt_triples :: "BlockTriple list"
  rt_patch_evts :: "(u32 \<times> u32) list"
  rt_coalesce :: nat
  rt_body_prefetch :: bool
  rt_session :: SessionId
  rt_clock_clamp :: "u64 option"
  rt_batch_event :: "u32 list"
  rt_batch_event_len :: nat
  rt_aliased_frames :: u32

definition first_vt :: "ReplaySchedule \<Rightarrow> u64" where
  "first_vt sched = (case rs_events sched of [] \<Rightarrow> 0 | e # _ \<Rightarrow> se_release_vt e)"

text \<open>Writing a session over a list of sites.\<close>

definition patch_site :: "SessionId \<Rightarrow> u32 \<times> u32 \<Rightarrow> bytes \<Rightarrow> bytes" where
  "patch_site session site frames = put (unat (snd site)) session frames"

definition patch_all :: "SessionId \<Rightarrow> (u32 \<times> u32) list \<Rightarrow> bytes \<Rightarrow> bytes" where
  "patch_all session sites frames = fold (patch_site session) sites frames"

definition patch_sessions :: "ReplayTransport \<Rightarrow> ReplayTransport" where
  "patch_sessions t = t\<lparr>rt_frames := patch_all (rt_session t) (rt_patch_evts t) (rt_frames t)\<rparr>"

definition ReplayTransport_new :: "u64 \<Rightarrow> bytes \<Rightarrow> ReplaySchedule \<Rightarrow> SessionId \<Rightarrow> ReplayTransport" where
  "ReplayTransport_new base gt sched session =
     (let b = sweep_events gt sched session 0 (rs_events sched) Sweep_start
      in patch_sessions
           \<lparr>rt_schedule = sched, rt_event_idx = 0, rt_virtual_clock = first_vt sched, rt_base = base,
            rt_frames = sw_blob b, rt_meta = sw_meta b, rt_vts = sw_vts b,
            rt_group_end = group_sweep (sw_vts b) 0 (replicate (length (sw_vts b)) 0),
            rt_triples = sw_triples b, rt_patch_evts = final_patch_evts sched b, rt_coalesce = 1,
            rt_body_prefetch = True, rt_session = session, rt_clock_clamp = None,
            rt_batch_event = replicate 256 0, rt_batch_event_len = 0,
            rt_aliased_frames = sw_aliased_frames b\<rparr>)"

definition set_body_prefetch :: "bool \<Rightarrow> ReplayTransport \<Rightarrow> ReplayTransport" where
  "set_body_prefetch on t = t\<lparr>rt_body_prefetch := on\<rparr>"

definition set_poll_coalesce :: "nat \<Rightarrow> ReplayTransport \<Rightarrow> ReplayTransport" where
  "set_poll_coalesce k t = t\<lparr>rt_coalesce := max k 1\<rparr>"

definition set_clock_clamp :: "u64 option \<Rightarrow> ReplayTransport \<Rightarrow> ReplayTransport" where
  "set_clock_clamp clamp t = t\<lparr>rt_clock_clamp := clamp\<rparr>"

definition reset_cursors :: "SessionId \<Rightarrow> ReplayTransport \<Rightarrow> ReplayTransport" where
  "reset_cursors session t =
     t\<lparr>rt_event_idx := 0, rt_virtual_clock := first_vt (rt_schedule t), rt_session := session, rt_clock_clamp := None\<rparr>"

definition reset :: "SessionId \<Rightarrow> ReplayTransport \<Rightarrow> ReplayTransport" where
  "reset session t =
     patch_sessions (t\<lparr>rt_event_idx := 0, rt_virtual_clock := first_vt (rt_schedule t),
       rt_session := session, rt_clock_clamp := None\<rparr>)"

text \<open>The paced prepatch: at most \<open>budget\<close> sites, and only sites whose gate lies below the
  consumed-event frontier.\<close>

fun patch_range_loop :: "SessionId \<Rightarrow> nat \<Rightarrow> (u32 \<times> u32) list \<Rightarrow> nat \<Rightarrow> nat \<Rightarrow> bytes \<Rightarrow> bytes \<times> nat" where
  "patch_range_loop session upto_evt sites idx 0 frames = (frames, idx)"
| "patch_range_loop session upto_evt sites idx (Suc n) frames =
     (if upto_evt \<le> unat (fst (sites ! idx)) then (frames, idx)
      else patch_range_loop session upto_evt sites (idx + 1) n (patch_site session (sites ! idx) frames))"

definition patch_range ::
    "SessionId \<Rightarrow> nat \<Rightarrow> nat \<Rightarrow> nat \<Rightarrow> ReplayTransport \<Rightarrow> ReplayTransport \<times> nat" where
  "patch_range session from_idx upto_evt budget t =
     (let end = from_idx + min budget (length (rt_patch_evts t) - from_idx);
          (frames, idx) = patch_range_loop session upto_evt (rt_patch_evts t) from_idx (end - from_idx) (rt_frames t)
      in (t\<lparr>rt_frames := frames\<rparr>, idx))"

definition reset_prepatched :: "SessionId \<Rightarrow> nat \<Rightarrow> ReplayTransport \<Rightarrow> ReplayTransport" where
  "reset_prepatched session from_idx t =
     (let t1 = t\<lparr>rt_event_idx := 0, rt_virtual_clock := first_vt (rt_schedule t),
                 rt_session := session, rt_clock_clamp := None\<rparr>
      in t1\<lparr>rt_frames := patch_all session (drop from_idx (rt_patch_evts t1)) (rt_frames t1)\<rparr>)"

definition rendered_frame_count :: "ReplayTransport \<Rightarrow> nat" where
  "rendered_frame_count t = length (filter (\<lambda>m. fm_len m \<noteq> 0) (rt_meta t))"

definition frame_regions :: "ReplayTransport \<Rightarrow> (u32 \<times> u32) list" where
  "frame_regions t = map (\<lambda>m. (fm_offset m, ucast (fm_len m))) (filter (\<lambda>m. fm_len m \<noteq> 0) (rt_meta t))"

end
