(* ===== verification/ReplayLaw.thy ===== *)
theory ReplayLaw
  imports Replay Indexed
begin

text \<open>
  What the constructor of the replay transport builds.  \<open>meta_ok\<close>: the directory entry of every
  event locates the bytes, block triples and valid prefix of the frame the event renders to;
  \<open>layout_ok\<close>: two frames share a region only when they have the same contents, and are
  disjoint otherwise; \<open>sites_ok\<close>: the patch list names the session prefix of every patchable
  frame, of no other, and never before the last event that reads it.
\<close>

section \<open>Invariants of the directory\<close>

definition region_ok :: "bytes \<Rightarrow> SchedEvent \<Rightarrow> bytes \<Rightarrow> bytes \<Rightarrow> BlockTriple list \<Rightarrow> FrameMeta \<Rightarrow> bool" where
  "region_ok gt ev f blob triples m \<longleftrightarrow>
     unat (fm_offset m) + length f \<le> length blob \<and>
     slice (unat (fm_offset m)) (unat (fm_offset m) + length f) blob = f \<and>
     unat (fm_len m) = length f \<and> fm_feed m = se_feed ev \<and> fm_first_seq m = packet_first_seq (se_kind ev) \<and>
     fm_blk_count m = packet_count (se_kind ev) \<and>
     (packet_count (se_kind ev) \<noteq> 0 \<longrightarrow>
        unat (fm_blk_base m) + unat (fm_blk_count m) \<le> length triples \<and>
        slice (unat (fm_blk_base m)) (unat (fm_blk_base m) + unat (fm_blk_count m)) triples
          = frame_triples (packet_first_seq (se_kind ev)) 20 (event_msgs gt (se_kind ev)) \<and>
        unat (fm_valid m) = length (takeWhile (\<lambda>x. validate x = Inr ()) (event_msgs gt (se_kind ev))))"

definition meta_ok ::
    "bytes \<Rightarrow> ReplaySchedule \<Rightarrow> SessionId \<Rightarrow> SchedEvent list \<Rightarrow> bytes \<Rightarrow> BlockTriple list \<Rightarrow> FrameMeta list \<Rightarrow> bool" where
  "meta_ok gt sched s evs blob triples meta \<longleftrightarrow> length meta = length evs \<and>
     (\<forall>i < length evs. case event_frame gt sched s (evs ! i) of
        None \<Rightarrow> meta ! i = tombstone (se_feed (evs ! i))
      | Some f \<Rightarrow> region_ok gt (evs ! i) f blob triples (meta ! i))"

text \<open>Whether an event renders does not depend on the session.\<close>

abbreviation rendered :: "bytes \<Rightarrow> SchedEvent \<Rightarrow> bool" where
  "rendered gt ev \<equiv> event_fits gt (se_kind ev)"

definition layout_ok :: "bytes \<Rightarrow> SchedEvent list \<Rightarrow> FrameMeta list \<Rightarrow> bool" where
  "layout_ok gt evs meta \<longleftrightarrow>
     (\<forall>i < length evs. \<forall>j < length evs. rendered gt (evs ! i) \<longrightarrow> rendered gt (evs ! j) \<longrightarrow>
        unat (fm_offset (meta ! i)) + unat (fm_len (meta ! i)) \<le> unat (fm_offset (meta ! j)) \<or>
        unat (fm_offset (meta ! j)) + unat (fm_len (meta ! j)) \<le> unat (fm_offset (meta ! i)) \<or>
        fm_offset (meta ! i) = fm_offset (meta ! j) \<and> se_kind (evs ! i) = se_kind (evs ! j))"

text \<open>The events that read the region at an offset.\<close>

definition readers :: "bytes \<Rightarrow> SchedEvent list \<Rightarrow> FrameMeta list \<Rightarrow> u32 \<Rightarrow> nat set" where
  "readers gt evs meta off = {i. i < length evs \<and> rendered gt (evs ! i) \<and> fm_offset (meta ! i) = off}"

definition sites_ok :: "bytes \<Rightarrow> ReplaySchedule \<Rightarrow> SchedEvent list \<Rightarrow> FrameMeta list \<Rightarrow> (u32 \<times> u32) set \<Rightarrow> bool" where
  "sites_ok gt sched evs meta sites \<longleftrightarrow>
     (\<forall>i < length evs. rendered gt (evs ! i) \<longrightarrow> session_patchable sched (se_kind (evs ! i)) \<longrightarrow>
        fm_offset (meta ! i) \<in> snd ` sites) \<and>
     (\<forall>(gate, off) \<in> sites. unat gate < length evs \<and>
        (\<exists>i \<in> readers gt evs meta off. session_patchable sched (se_kind (evs ! i))) \<and>
        (\<forall>i \<in> readers gt evs meta off. i \<le> unat gate))"

text \<open>What the sweep keeps so that the sites come out right: an entry of the alias map describes
  the region of its packets and its last reader, the sites collected in the loop belong to
  frames without messages, and no rendered event is missing.\<close>

definition alias_entry_ok ::
    "bytes \<Rightarrow> SchedEvent list \<Rightarrow> FrameMeta list \<Rightarrow> AliasKey \<times> AliasVal \<Rightarrow> bool" where
  "alias_entry_ok gt evs meta = (\<lambda>((q, m, n), (off, base, cnt, valid, last_evt)).
     n \<noteq> 0 \<and> unat last_evt < length evs \<and>
     (\<exists>i \<in> readers gt evs meta off. se_kind (evs ! i) = PacketEv q m n \<and>
        fm_blk_base (meta ! i) = base \<and> fm_blk_count (meta ! i) = cnt \<and> fm_valid (meta ! i) = valid) \<and>
     (\<forall>i \<in> readers gt evs meta off. i \<le> unat last_evt))"

definition plain_site_ok :: "bytes \<Rightarrow> ReplaySchedule \<Rightarrow> SchedEvent list \<Rightarrow> FrameMeta list \<Rightarrow> u32 \<times> u32 \<Rightarrow> bool" where
  "plain_site_ok gt sched evs meta = (\<lambda>(gate, off). unat gate < length evs \<and>
     (\<exists>i \<in> readers gt evs meta off. packet_count (se_kind (evs ! i)) = 0 \<and>
        session_patchable sched (se_kind (evs ! i))) \<and>
     (\<forall>i \<in> readers gt evs meta off. i \<le> unat gate))"

definition sites_inv ::
    "bytes \<Rightarrow> ReplaySchedule \<Rightarrow> SchedEvent list \<Rightarrow> FrameMeta list \<Rightarrow> (AliasKey \<times> AliasVal) list \<Rightarrow> (u32 \<times> u32) list \<Rightarrow> bool" where
  "sites_inv gt sched evs meta am pe \<longleftrightarrow> distinct (map fst am) \<and>
     (\<forall>e \<in> set am. alias_entry_ok gt evs meta e) \<and> (\<forall>p \<in> set pe. plain_site_ok gt sched evs meta p) \<and>
     (\<forall>i < length evs. rendered gt (evs ! i) \<longrightarrow>
        (case se_kind (evs ! i) of
           PacketEv q m n \<Rightarrow> n \<noteq> 0 \<longrightarrow> (\<exists>v. map_of am (q, m, n) = Some v \<and> fst v = fm_offset (meta ! i))
         | _ \<Rightarrow> True) \<and>
        (packet_count (se_kind (evs ! i)) = 0 \<longrightarrow> session_patchable sched (se_kind (evs ! i)) \<longrightarrow>
           fm_offset (meta ! i) \<in> snd ` set pe))"

section \<open>Frames and sessions\<close>

abbreviation zero10 :: SessionId where "zero10 \<equiv> replicate 10 0"

text \<open>The frame of an event under a session.\<close>

definition wire :: "bytes \<Rightarrow> ReplaySchedule \<Rightarrow> SessionId \<Rightarrow> SchedEvent \<Rightarrow> bytes" where
  "wire gt sched s ev = mold_frame (effective_session sched s ev)
     (fst (event_header (se_kind ev))) (snd (event_header (se_kind ev))) (event_msgs gt (se_kind ev))"

definition wire_rest :: "bytes \<Rightarrow> SchedEvent \<Rightarrow> bytes" where
  "wire_rest gt ev = u64_to_be_bytes (fst (event_header (se_kind ev))) @
     u16_to_be_bytes (snd (event_header (se_kind ev))) @ mold_body (event_msgs gt (se_kind ev))"

lemma wire_split: "wire gt sched s ev = effective_session sched s ev @ wire_rest gt ev"
  by (simp add: wire_def wire_rest_def mold_frame_def)

lemma event_frame_wire:
  "event_frame gt sched s ev = (if rendered gt ev then Some (wire gt sched s ev) else None)"
  by (simp add: event_frame_def wire_def)

lemma effective_session_patchable:
  "effective_session sched s ev
     = (if session_patchable sched (se_kind ev) then s else effective_session sched zero10 ev)"
  by (auto simp: effective_session_def session_patchable_def split: option.split SchedKind.split)

lemma wire_static: "\<not> session_patchable sched (se_kind ev) \<Longrightarrow> wire gt sched s ev = wire gt sched zero10 ev"
  by (simp add: wire_split effective_session_patchable [of sched s])

lemma wire_patch: "session_patchable sched (se_kind ev) \<Longrightarrow> wire gt sched s ev = s @ wire_rest gt ev"
  by (simp add: wire_split effective_session_patchable [of sched s])

lemma length_wire:
  "sessions_ok sched s \<Longrightarrow> length (wire gt sched s ev) = 20 + length (mold_body (event_msgs gt (se_kind ev)))"
  by (simp add: wire_def length_frame length_effective_session)

lemma rendered_short: "rendered gt ev \<Longrightarrow> 20 + length (mold_body (event_msgs gt (se_kind ev))) \<le> 1500"
  by (cases "se_kind ev") (auto simp: event_fits_def event_msgs_def ARENA_SLOT_SIZE_def)

lemma rendered_msgs: "rendered gt ev \<Longrightarrow> length (event_msgs gt (se_kind ev)) = unat (packet_count (se_kind ev))"
  by (cases "se_kind ev") (auto simp: event_fits_def event_msgs_def packet_count_def)

lemma event_msgs_short: "m \<in> set (event_msgs gt k) \<Longrightarrow> length m < 65536"
  by (cases k) (auto simp: event_msgs_def dest!: in_set_takeD in_set_dropD tape_messages_short)

lemma mold_body_length: "2 * length ms \<le> length (mold_body ms)"
  by (induction ms) simp_all

lemma rendered_count: "rendered gt ev \<Longrightarrow> unat (packet_count (se_kind ev)) \<le> 740"
  using rendered_short [of gt ev] rendered_msgs [of gt ev] mold_body_length [of "event_msgs gt (se_kind ev)"]
  by linarith

section \<open>The block index\<close>

lemma index_walk_frame:
  assumes "\<forall>m \<in> set ms. length m < 65536" "drop pos f = mold_body ms" "pos \<le> length f"
    "unat valid \<le> unat n" "unat n + length ms < 65536"
  shows "index_walk (f @ junk) (length f) (length ms) pos sq n valid ts =
    (ts @ frame_triples sq pos ms, length f, n + of_nat (length ms),
     if valid = n then valid + of_nat (length (takeWhile (\<lambda>x. validate x = Inr ()) ms)) else valid, True)"
  using assms
proof (induction ms arbitrary: pos sq n valid ts)
  case Nil
  then show ?case by simp
next
  case (Cons m ms)
  let ?e = "pos + 2 + length m"
  have d: "drop pos f = mold_block m @ mold_body ms" using Cons.prems(2) by simp
  have "length (drop pos f) = 2 + length m + length (mold_body ms)" by (simp only: d) simp
  then have len: "length f = ?e + length (mold_body ms)" using Cons.prems(3) by simp
  have f: "f = take pos f @ mold_block m @ mold_body ms" by (metis append_take_drop_id d)
  have "f ! pos = drop pos f ! 0" "f ! (pos + 1) = drop pos f ! 1" using len by simp_all
  then have l: "be_len (f @ junk) pos = length m"
    using mold_block_prefix [of m "mold_body ms"] Cons.prems(1) d len by (simp add: nth_append)
  have "drop 2 (drop pos f) = m @ mold_body ms" by (simp only: d) (simp add: mold_block_def)
  then have data: "slice (pos + 2) ?e (f @ junk) = m" using len by (simp add: slice_def add.commute)
  have dr: "drop ?e f = mold_body ms"
    by (subst f) (use len in \<open>simp add: min_def\<close>)
  have n1: "unat (n + 1) = Suc (unat n)" using Cons.prems(5) by (simp add: unat_word_ariths)
  define valid1 where "valid1 = (if valid = n \<and> validate m = Inr () then valid + 1 else valid)"
  have v1: "unat valid1 \<le> unat (n + 1)" using n1 Cons.prems(4) by (auto simp: valid1_def)
  have v2: "valid1 = n + 1 \<longleftrightarrow> valid = n \<and> validate m = Inr ()"
    using n1 Cons.prems(4) by (auto simp: valid1_def)
  have "index_walk (f @ junk) (length f) (length (m # ms)) pos sq n valid ts
      = index_walk (f @ junk) (length f) (length ms) ?e (sq + 1) (n + 1) valid1
          (ts @ [(sq, of_nat (pos + 2), of_nat ?e)])"
    using len l data by (simp del: of_nat_add One_nat_def add: Let_def valid1_def)
  also have "\<dots> = (ts @ [(sq, of_nat (pos + 2), of_nat ?e)] @ frame_triples (sq + 1) ?e ms, length f,
      n + 1 + of_nat (length ms),
      if valid1 = n + 1 then valid1 + of_nat (length (takeWhile (\<lambda>x. validate x = Inr ()) ms)) else valid1, True)"
    using Cons.prems(1,5) dr len v1 n1 by (subst Cons.IH) simp_all
  also have "(if valid1 = n + 1 then valid1 + of_nat (length (takeWhile (\<lambda>x. validate x = Inr ()) ms)) else valid1)
      = (if valid = n then valid + of_nat (length (takeWhile (\<lambda>x. validate x = Inr ()) (m # ms))) else valid)"
  proof (cases "valid = n \<and> validate m = Inr ()")
    case True
    then show ?thesis by (simp add: valid1_def)
  next
    case False
    then have "valid1 = valid" "valid1 \<noteq> n + 1" using v2 by (auto simp: valid1_def)
    then show ?thesis using False by auto
  qed
  also have "ts @ [(sq, of_nat (pos + 2), of_nat ?e)] @ frame_triples (sq + 1) ?e ms = ts @ frame_triples sq pos (m # ms)"
    by simp
  also have "n + 1 + of_nat (length ms) = n + of_nat (length (m # ms))" by simp
  finally show ?case .
qed

lemma index_frame_wire:
  assumes "rendered gt ev" "length s = 10" "f = s @ wire_rest gt ev" "length ts < 2 ^ 32"
  shows "\<exists>base valid. index_frame (se_kind ev) (length f) (f @ junk) ts
      = (ts @ (if packet_count (se_kind ev) = 0 then []
               else frame_triples (packet_first_seq (se_kind ev)) 20 (event_msgs gt (se_kind ev))),
         base, packet_count (se_kind ev), valid) \<and>
    (packet_count (se_kind ev) \<noteq> 0 \<longrightarrow> unat base = length ts \<and>
      unat valid = length (takeWhile (\<lambda>x. validate x = Inr ()) (event_msgs gt (se_kind ev))))"
proof (cases "se_kind ev")
  case (PacketEv q m n)
  let ?ms = "event_msgs gt (se_kind ev)"
  have l: "length ?ms = unat n" "unat n \<le> 740"
    using rendered_msgs [OF assms(1)] rendered_count [OF assms(1)] by (simp_all add: PacketEv packet_count_def)
  have d: "drop 20 f = mold_body ?ms" "20 \<le> length f"
    using assms(2) by (simp_all add: assms(3) wire_rest_def)
  have "length (takeWhile (\<lambda>x. validate x = Inr ()) ?ms) \<le> length ?ms" by (rule length_takeWhile_le)
  then have tw: "unat (of_nat (length (takeWhile (\<lambda>x. validate x = Inr ()) ?ms)) :: u16)
      = length (takeWhile (\<lambda>x. validate x = Inr ()) ?ms)"
    using l by (simp add: unat_of_nat)
  have "index_walk (f @ junk) (length f) (unat n) 20 q 0 0 ts
      = (ts @ frame_triples q 20 ?ms, length f, n, of_nat (length (takeWhile (\<lambda>x. validate x = Inr ()) ?ms)), True)"
    using index_walk_frame [of ?ms 20 f 0 0 junk q ts, unfolded l(1)] event_msgs_short d l(2) by simp
  then show ?thesis using tw assms(4) l
    by (auto simp: index_frame_def PacketEv packet_count_def packet_first_seq_def unat_of_nat)
qed (simp_all add: index_frame_def packet_count_def)

section \<open>Appending one event\<close>

lemma put_0_append: "length xs \<le> length ys \<Longrightarrow> put (length pre) xs (pre @ ys) = pre @ put 0 xs ys"
  by (simp add: put_def)

lemma append_frame_wire:
  assumes "rendered gt ev" "sessions_ok sched session" "length (sw_blob b) < 2 ^ 32" "length (sw_triples b) < 2 ^ 32"
    "take (length (wire gt sched session ev)) (sw_scratch b) = wire gt sched session ev"
  shows "\<exists>base valid ext. append_frame ev_i (se_kind ev) (length (wire gt sched session ev))
        (session_patchable sched (se_kind ev)) b
      = (b\<lparr>sw_blob := sw_blob b @ wire gt sched zero10 ev, sw_triples := sw_triples b @ ext,
           sw_alias_map := (case se_kind ev of
              PacketEv q m n \<Rightarrow>
                if 0 < n \<and> map_of (sw_alias_map b) (q, m, n) = None
                then sw_alias_map b @ [((q, m, n), (of_nat (length (sw_blob b)), base, n, valid, of_nat ev_i))]
                else sw_alias_map b
            | _ \<Rightarrow> sw_alias_map b)\<rparr>,
         of_nat (length (sw_blob b)), base, packet_count (se_kind ev), valid) \<and>
    length ext = unat (packet_count (se_kind ev)) \<and>
    (packet_count (se_kind ev) \<noteq> 0 \<longrightarrow> unat base = length (sw_triples b) \<and>
      ext = frame_triples (packet_first_seq (se_kind ev)) 20 (event_msgs gt (se_kind ev)) \<and>
      unat valid = length (takeWhile (\<lambda>x. validate x = Inr ()) (event_msgs gt (se_kind ev))))"
proof -
  let ?w = "wire gt sched session ev"
  have s: "length (effective_session sched session ev) = 10" using assms(2) by (rule length_effective_session)
  have scr: "sw_scratch b = ?w @ drop (length ?w) (sw_scratch b)" by (metis append_take_drop_id assms(5))
  obtain base valid where ix: "index_frame (se_kind ev) (length ?w) (sw_scratch b) (sw_triples b)
      = (sw_triples b @ (if packet_count (se_kind ev) = 0 then []
           else frame_triples (packet_first_seq (se_kind ev)) 20 (event_msgs gt (se_kind ev))),
         base, packet_count (se_kind ev), valid)"
    and v: "packet_count (se_kind ev) \<noteq> 0 \<longrightarrow> unat base = length (sw_triples b) \<and>
      unat valid = length (takeWhile (\<lambda>x. validate x = Inr ()) (event_msgs gt (se_kind ev)))"
    using index_frame_wire [OF assms(1) s wire_split assms(4)] scr by metis
  have u: "unat (of_nat (length (sw_blob b)) :: u32) = length (sw_blob b)"
    using assms(3) by (rule unat_of_nat_u32)
  have blob: "(if session_patchable sched (se_kind ev)
      then put (length (sw_blob b)) zero10 (sw_blob b @ take (length ?w) (sw_scratch b))
      else sw_blob b @ take (length ?w) (sw_scratch b)) = sw_blob b @ wire gt sched zero10 ev"
  proof (cases "session_patchable sched (se_kind ev)")
    case True
    then have "length session = 10" using assms(2) by (simp add: sessions_ok_def)
    then have "put 0 zero10 (session @ wire_rest gt ev) = zero10 @ wire_rest gt ev" by (simp add: put_def)
    then show ?thesis using True \<open>length session = 10\<close>
      by (simp only: if_True assms(5)) (simp add: wire_patch put_0_append)
  next
    case False
    then show ?thesis using assms(5) wire_static [of sched ev gt session] by simp
  qed
  have al: "(case se_kind ev of
            PacketEv first_seq first_msg cnt \<Rightarrow>
              if 0 < cnt \<and> packet_count (se_kind ev) = cnt \<and> map_of (sw_alias_map b) (first_seq, first_msg, cnt) = None
              then sw_alias_map b @ [((first_seq, first_msg, cnt), (of_nat (length (sw_blob b)), base, packet_count (se_kind ev), valid, of_nat ev_i))]
              else sw_alias_map b
          | _ \<Rightarrow> sw_alias_map b)
      = (case se_kind ev of
              PacketEv q m n \<Rightarrow>
                if 0 < n \<and> map_of (sw_alias_map b) (q, m, n) = None
                then sw_alias_map b @ [((q, m, n), (of_nat (length (sw_blob b)), base, n, valid, of_nat ev_i))]
                else sw_alias_map b
            | _ \<Rightarrow> sw_alias_map b)"
    by (simp add: packet_count_def split: SchedKind.split)
  have "append_frame ev_i (se_kind ev) (length ?w) (session_patchable sched (se_kind ev)) b
      = (b\<lparr>sw_blob := sw_blob b @ wire gt sched zero10 ev,
           sw_triples := sw_triples b @ (if packet_count (se_kind ev) = 0 then []
             else frame_triples (packet_first_seq (se_kind ev)) 20 (event_msgs gt (se_kind ev))),
           sw_alias_map := (case se_kind ev of
              PacketEv q m n \<Rightarrow>
                if 0 < n \<and> map_of (sw_alias_map b) (q, m, n) = None
                then sw_alias_map b @ [((q, m, n), (of_nat (length (sw_blob b)), base, n, valid, of_nat ev_i))]
                else sw_alias_map b
            | _ \<Rightarrow> sw_alias_map b)\<rparr>,
         of_nat (length (sw_blob b)), base, packet_count (se_kind ev), valid)"
    unfolding append_frame_def Let_def ix u prod.case blob al ..
  then show ?thesis using v rendered_msgs [OF assms(1)] by (intro exI conjI) (assumption, auto)
qed

lemma slice_append_left: "b \<le> length xs \<Longrightarrow> slice a b (xs @ ys) = slice a b xs"
  by (simp add: slice_def)

lemma region_ok_append:
  "region_ok gt ev f blob triples m \<Longrightarrow> region_ok gt ev f (blob @ x) (triples @ y) m"
  by (auto simp: region_ok_def slice_append_left)

lemma meta_ok_snoc:
  assumes "meta_ok gt sched s evs blob triples meta"
    and "case event_frame gt sched s ev of None \<Rightarrow> m = tombstone (se_feed ev)
      | Some f \<Rightarrow> region_ok gt ev f (blob @ x) (triples @ y) m"
  shows "meta_ok gt sched s (evs @ [ev]) (blob @ x) (triples @ y) (meta @ [m])"
proof -
  have "case event_frame gt sched s ((evs @ [ev]) ! i) of
        None \<Rightarrow> (meta @ [m]) ! i = tombstone (se_feed ((evs @ [ev]) ! i))
      | Some f \<Rightarrow> region_ok gt ((evs @ [ev]) ! i) f (blob @ x) (triples @ y) ((meta @ [m]) ! i)"
    if "i < length (evs @ [ev])" for i
  proof (cases "i < length evs")
    case True
    then show ?thesis using assms(1)
      by (auto simp: meta_ok_def nth_append intro: region_ok_append split: option.splits)
  next
    case False
    then show ?thesis using that assms by (auto simp: meta_ok_def nth_append less_Suc_eq split: option.splits)
  qed
  then show ?thesis using assms(1) by (simp add: meta_ok_def)
qed

lemma layout_ok_snoc:
  assumes "layout_ok gt evs meta" "length meta = length evs"
    and "\<And>i. rendered gt ev \<Longrightarrow> i < length evs \<Longrightarrow> rendered gt (evs ! i) \<Longrightarrow>
        unat (fm_offset (meta ! i)) + unat (fm_len (meta ! i)) \<le> unat (fm_offset m) \<or>
        unat (fm_offset m) + unat (fm_len m) \<le> unat (fm_offset (meta ! i)) \<or>
        fm_offset (meta ! i) = fm_offset m \<and> se_kind (evs ! i) = se_kind ev"
  shows "layout_ok gt (evs @ [ev]) (meta @ [m])"
  unfolding layout_ok_def
proof (intro allI impI)
  fix i j
  assume a: "i < length (evs @ [ev])" "j < length (evs @ [ev])"
    "rendered gt ((evs @ [ev]) ! i)" "rendered gt ((evs @ [ev]) ! j)"
  note b = assms(1) [unfolded layout_ok_def, rule_format, of i j]
  consider "i < length evs" "j < length evs" | "i < length evs" "j = length evs"
    | "i = length evs" "j < length evs" | "i = length evs" "j = length evs"
    using a(1,2) by force
  then show "unat (fm_offset ((meta @ [m]) ! i)) + unat (fm_len ((meta @ [m]) ! i)) \<le> unat (fm_offset ((meta @ [m]) ! j)) \<or>
        unat (fm_offset ((meta @ [m]) ! j)) + unat (fm_len ((meta @ [m]) ! j)) \<le> unat (fm_offset ((meta @ [m]) ! i)) \<or>
        fm_offset ((meta @ [m]) ! i) = fm_offset ((meta @ [m]) ! j) \<and> se_kind ((evs @ [ev]) ! i) = se_kind ((evs @ [ev]) ! j)"
  proof cases
    case 1
    then show ?thesis using b a assms(2) by (simp add: nth_append)
  next
    case 2
    then show ?thesis using assms(3) [of i] a assms(2) by (auto simp: nth_append)
  next
    case 3
    then show ?thesis using assms(3) [of j] a assms(2) by (auto simp: nth_append)
  next
    case 4
    then show ?thesis by simp
  qed
qed

lemma readers_snoc:
  "length meta = length evs \<Longrightarrow> readers gt (evs @ [ev]) (meta @ [m]) off
     = readers gt evs meta off \<union> (if rendered gt ev \<and> fm_offset m = off then {length evs} else {})"
  by (auto simp: readers_def nth_append less_Suc_eq)

lemma readersD: "i \<in> readers gt evs meta off \<Longrightarrow> i < length evs \<and> rendered gt (evs ! i) \<and> fm_offset (meta ! i) = off"
  by (simp add: readers_def)

lemma meta_ok_region:
  assumes "meta_ok gt sched s evs blob triples meta" "i < length evs" "rendered gt (evs ! i)"
  shows "region_ok gt (evs ! i) (wire gt sched s (evs ! i)) blob triples (meta ! i)"
proof -
  have "case event_frame gt sched s (evs ! i) of
        None \<Rightarrow> meta ! i = tombstone (se_feed (evs ! i))
      | Some f \<Rightarrow> region_ok gt (evs ! i) f blob triples (meta ! i)"
    using assms(1,2) unfolding meta_ok_def by blast
  then show ?thesis using assms(3) by (simp add: event_frame_wire)
qed

lemma meta_ok_len:
  assumes "meta_ok gt sched s evs blob triples meta" "sessions_ok sched s" "i < length evs" "rendered gt (evs ! i)"
  shows "20 \<le> unat (fm_len (meta ! i))" "unat (fm_offset (meta ! i)) + unat (fm_len (meta ! i)) \<le> length blob"
    "unat (fm_len (meta ! i)) = length (wire gt sched s (evs ! i))"
  using meta_ok_region [OF assms(1,3,4)] length_wire [OF assms(2), of gt "evs ! i"]
  by (simp_all add: region_ok_def)

text \<open>One offset, one kind of frame.\<close>

lemma readers_kind:
  assumes "meta_ok gt sched s evs blob triples meta" "sessions_ok sched s" "layout_ok gt evs meta"
    "i \<in> readers gt evs meta off" "j \<in> readers gt evs meta off"
  shows "se_kind (evs ! i) = se_kind (evs ! j)"
proof -
  note i = readersD [OF assms(4)] and j = readersD [OF assms(5)]
  have "20 \<le> unat (fm_len (meta ! i))" "20 \<le> unat (fm_len (meta ! j))"
    using meta_ok_len(1) [OF assms(1,2)] i j by blast+
  then show ?thesis using assms(3) i j unfolding layout_ok_def by fastforce
qed

lemma readers_bound:
  assumes "meta_ok gt sched s evs blob triples meta" "sessions_ok sched s" "i \<in> readers gt evs meta off"
  shows "unat off + 20 \<le> length blob"
  using meta_ok_len(1,2) [OF assms(1,2), of i] readersD [OF assms(3)] by force

lemma sites_inv_final:
  assumes "sites_inv gt sched evs meta am pe"
    and "meta_ok gt sched s evs blob triples meta" "sessions_ok sched s" "layout_ok gt evs meta"
  shows "sites_ok gt sched evs meta (set (pe @ alias_sites sched am))"
proof -
  have split_rule: "session_patchable sched (PacketEv q m n)
      = (case rs_session_split sched of Some (split_m, _) \<Rightarrow> m < split_m | None \<Rightarrow> True)" for q m n
    by (simp add: session_patchable_def split: option.split prod.split)
  have mem: "(g, off) \<in> set (alias_sites sched am) \<longleftrightarrow>
      (\<exists>q m n base cnt valid. ((q, m, n), (off, base, cnt, valid, g)) \<in> set am \<and> session_patchable sched (PacketEv q m n))" for g off
    unfolding alias_sites_def split_rule by force
  have 1: "fm_offset (meta ! i) \<in> snd ` set (pe @ alias_sites sched am)"
    if i: "i < length evs" "rendered gt (evs ! i)" "session_patchable sched (se_kind (evs ! i))" for i
  proof (cases "packet_count (se_kind (evs ! i)) = 0")
    case True
    then show ?thesis using assms(1) i by (auto simp: sites_inv_def)
  next
    case False
    then obtain q m n where k: "se_kind (evs ! i) = PacketEv q m n" "n \<noteq> 0"
      by (cases "se_kind (evs ! i)") (auto simp: packet_count_def)
    have "case se_kind (evs ! i) of
           PacketEv q m n \<Rightarrow> n \<noteq> 0 \<longrightarrow> (\<exists>v. map_of am (q, m, n) = Some v \<and> fst v = fm_offset (meta ! i)) | _ \<Rightarrow> True"
      using assms(1) i unfolding sites_inv_def by blast
    then obtain v where v: "map_of am (q, m, n) = Some v" "fst v = fm_offset (meta ! i)"
      using k by auto
    obtain off base cnt valid g where vv: "v = (off, base, cnt, valid, g)" by (cases v)
    have "((q, m, n), (off, base, cnt, valid, g)) \<in> set am" using map_of_SomeD [OF v(1)] by (simp add: vv)
    moreover have "off = fm_offset (meta ! i)" "session_patchable sched (PacketEv q m n)"
      using v(2) vv i(3) k by simp_all
    ultimately have "(g, fm_offset (meta ! i)) \<in> set (alias_sites sched am)" unfolding mem by blast
    then show ?thesis by force
  qed
  have 2: "unat g < length evs \<and> (\<exists>i \<in> readers gt evs meta off. session_patchable sched (se_kind (evs ! i))) \<and>
      (\<forall>i \<in> readers gt evs meta off. i \<le> unat g)" if "(g, off) \<in> set (pe @ alias_sites sched am)" for g off
  proof (cases "(g, off) \<in> set pe")
    case True
    then show ?thesis using assms(1) by (auto simp: sites_inv_def plain_site_ok_def)
  next
    case False
    then have "(g, off) \<in> set (alias_sites sched am)" using that by simp
    then obtain q m n base cnt valid where e: "((q, m, n), (off, base, cnt, valid, g)) \<in> set am"
      "session_patchable sched (PacketEv q m n)" unfolding mem by blast
    then have "alias_entry_ok gt evs meta ((q, m, n), (off, base, cnt, valid, g))"
      using assms(1) unfolding sites_inv_def by blast
    then show ?thesis using e(2) unfolding alias_entry_ok_def by auto metis
  qed
  show ?thesis unfolding sites_ok_def using 1 2 by auto
qed

text \<open>The three ways an event enters the directory.\<close>

lemma sites_inv_skip:
  assumes "sites_inv gt sched evs meta am pe" "length meta = length evs" "\<not> rendered gt ev"
  shows "sites_inv gt sched (evs @ [ev]) (meta @ [m]) am pe"
proof -
  have r: "readers gt (evs @ [ev]) (meta @ [m]) off = readers gt evs meta off" for off
    using assms(2,3) by (simp add: readers_snoc)
  have n: "i \<in> readers gt evs meta off \<Longrightarrow> (evs @ [ev]) ! i = evs ! i \<and> (meta @ [m]) ! i = meta ! i" for i off
    using assms(2) by (auto simp: readers_def nth_append)
  have "alias_entry_ok gt (evs @ [ev]) (meta @ [m]) e" if "alias_entry_ok gt evs meta e" for e
    using that n by (auto simp: alias_entry_ok_def r)
  moreover have "plain_site_ok gt sched (evs @ [ev]) (meta @ [m]) p" if "plain_site_ok gt sched evs meta p" for p
    using that n by (auto simp: plain_site_ok_def r)
  ultimately show ?thesis using assms
    by (auto simp: sites_inv_def less_Suc_eq nth_append split: SchedKind.split)
qed

text \<open>Entries and sites of other regions are not touched by a new event.\<close>

lemma entries_snoc:
  assumes "length meta = length evs"
  shows "alias_entry_ok gt evs meta (k, v) \<Longrightarrow> (rendered gt ev \<Longrightarrow> fst v \<noteq> fm_offset m) \<Longrightarrow>
      alias_entry_ok gt (evs @ [ev]) (meta @ [m]) (k, v)"
    and "plain_site_ok gt sched evs meta p \<Longrightarrow> (rendered gt ev \<Longrightarrow> snd p \<noteq> fm_offset m) \<Longrightarrow>
      plain_site_ok gt sched (evs @ [ev]) (meta @ [m]) p"
proof -
  have n: "i \<in> readers gt evs meta off \<Longrightarrow> (evs @ [ev]) ! i = evs ! i \<and> (meta @ [m]) ! i = meta ! i" for i off
    using assms by (auto simp: readers_def nth_append)
  show "alias_entry_ok gt evs meta (k, v) \<Longrightarrow> (rendered gt ev \<Longrightarrow> fst v \<noteq> fm_offset m) \<Longrightarrow>
      alias_entry_ok gt (evs @ [ev]) (meta @ [m]) (k, v)"
    using n by (cases k; cases v) (auto simp: alias_entry_ok_def readers_snoc [OF assms])
  show "plain_site_ok gt sched evs meta p \<Longrightarrow> (rendered gt ev \<Longrightarrow> snd p \<noteq> fm_offset m) \<Longrightarrow>
      plain_site_ok gt sched (evs @ [ev]) (meta @ [m]) p"
    using n by (cases p) (auto simp: plain_site_ok_def readers_snoc [OF assms])
qed

lemma sites_inv_entries:
  assumes "sites_inv gt sched evs meta am pe" "length meta = length evs" "readers gt evs meta (fm_offset m) = {}"
  shows "e \<in> set am \<Longrightarrow> alias_entry_ok gt (evs @ [ev]) (meta @ [m]) e"
    and "p \<in> set pe \<Longrightarrow> plain_site_ok gt sched (evs @ [ev]) (meta @ [m]) p"
proof -
  show "alias_entry_ok gt (evs @ [ev]) (meta @ [m]) e" if "e \<in> set am" for e
  proof -
    obtain q mm n off base cnt valid g where e: "e = ((q, mm, n), (off, base, cnt, valid, g))" by (metis prod_cases3 prod.exhaust)
    have ok: "alias_entry_ok gt evs meta e" using assms(1) that unfolding sites_inv_def by blast
    then have "readers gt evs meta off \<noteq> {}" unfolding e alias_entry_ok_def by auto
    then have "off \<noteq> fm_offset m" using assms(3) by auto
    then show ?thesis using ok unfolding e by (intro entries_snoc(1) assms(2)) simp_all
  qed
  show "plain_site_ok gt sched (evs @ [ev]) (meta @ [m]) p" if "p \<in> set pe" for p
  proof -
    obtain g off where p: "p = (g, off)" by (cases p)
    have ok: "plain_site_ok gt sched evs meta p" using assms(1) that unfolding sites_inv_def by blast
    then have "readers gt evs meta off \<noteq> {}" unfolding p plain_site_ok_def by auto
    then have "off \<noteq> fm_offset m" using assms(3) by auto
    then show ?thesis using ok unfolding p by (intro entries_snoc(2) assms(2)) simp_all
  qed
qed

lemma sites_inv_fresh_packet:
  assumes "sites_inv gt sched evs meta am pe" "length meta = length evs" "readers gt evs meta (fm_offset m) = {}"
    and "rendered gt ev" "se_kind ev = PacketEv q mm n" "n \<noteq> 0" "map_of am (q, mm, n) = None" "length evs < 2 ^ 32"
  shows "sites_inv gt sched (evs @ [ev]) (meta @ [m])
    (am @ [((q, mm, n), (fm_offset m, fm_blk_base m, fm_blk_count m, fm_valid m, of_nat (length evs)))]) pe"
proof -
  have u: "unat (of_nat (length evs) :: u32) = length evs" using assms(8) by (rule unat_of_nat_u32)
  have r: "readers gt (evs @ [ev]) (meta @ [m]) (fm_offset m) = {length evs}"
    using assms(2,3,4) by (simp add: readers_snoc)
  have new: "alias_entry_ok gt (evs @ [ev]) (meta @ [m])
      ((q, mm, n), (fm_offset m, fm_blk_base m, fm_blk_count m, fm_valid m, of_nat (length evs)))"
    using assms(2,5,6) u by (simp add: alias_entry_ok_def r nth_append)
  have d: "(q, mm, n) \<notin> fst ` set am" using assms(7) by (simp add: map_of_eq_None_iff)
  have full: "(case se_kind ((evs @ [ev]) ! i) of
           PacketEv q' m' n' \<Rightarrow> n' \<noteq> 0 \<longrightarrow> (\<exists>v. map_of (am @ [((q, mm, n), (fm_offset m, fm_blk_base m, fm_blk_count m, fm_valid m, of_nat (length evs)))]) (q', m', n') = Some v \<and> fst v = fm_offset ((meta @ [m]) ! i))
         | _ \<Rightarrow> True) \<and>
        (packet_count (se_kind ((evs @ [ev]) ! i)) = 0 \<longrightarrow> session_patchable sched (se_kind ((evs @ [ev]) ! i)) \<longrightarrow>
           fm_offset ((meta @ [m]) ! i) \<in> snd ` set pe)"
    if i: "i < length (evs @ [ev])" "rendered gt ((evs @ [ev]) ! i)" for i
  proof (cases "i < length evs")
    case True
    then have "(case se_kind (evs ! i) of
           PacketEv q' m' n' \<Rightarrow> n' \<noteq> 0 \<longrightarrow> (\<exists>v. map_of am (q', m', n') = Some v \<and> fst v = fm_offset (meta ! i))
         | _ \<Rightarrow> True) \<and>
        (packet_count (se_kind (evs ! i)) = 0 \<longrightarrow> session_patchable sched (se_kind (evs ! i)) \<longrightarrow>
           fm_offset (meta ! i) \<in> snd ` set pe)"
      using assms(1) i unfolding sites_inv_def by (simp add: nth_append)
    then show ?thesis using True assms(2)
      by (auto simp: nth_append map_add_Some_iff split: SchedKind.split)
  next
    case False
    then have "i = length evs" using i by simp
    then show ?thesis using assms(2,5,6,7) by (simp add: nth_append packet_count_def map_add_def)
  qed
  show ?thesis unfolding sites_inv_def
  proof (intro conjI ballI allI impI)
    show "distinct (map fst (am @ [((q, mm, n), (fm_offset m, fm_blk_base m, fm_blk_count m, fm_valid m, of_nat (length evs)))]))"
      using assms(1) d by (simp add: sites_inv_def)
  qed (use sites_inv_entries [OF assms(1-3)] new full in auto)
qed

lemma sites_inv_fresh_plain:
  assumes "sites_inv gt sched evs meta am pe" "length meta = length evs" "readers gt evs meta (fm_offset m) = {}"
    and "rendered gt ev" "packet_count (se_kind ev) = 0" "length evs < 2 ^ 32"
  shows "sites_inv gt sched (evs @ [ev]) (meta @ [m]) am
    (pe @ (if session_patchable sched (se_kind ev) then [(of_nat (length evs), fm_offset m)] else []))"
proof -
  have u: "unat (of_nat (length evs) :: u32) = length evs" using assms(6) by (rule unat_of_nat_u32)
  have r: "readers gt (evs @ [ev]) (meta @ [m]) (fm_offset m) = {length evs}"
    using assms(2-4) by (simp add: readers_snoc)
  have new: "session_patchable sched (se_kind ev) \<Longrightarrow> plain_site_ok gt sched (evs @ [ev]) (meta @ [m]) (of_nat (length evs), fm_offset m)"
    using assms(2,5) u by (simp add: plain_site_ok_def r nth_append)
  have full: "(case se_kind ((evs @ [ev]) ! i) of
           PacketEv q' m' n' \<Rightarrow> n' \<noteq> 0 \<longrightarrow> (\<exists>v. map_of am (q', m', n') = Some v \<and> fst v = fm_offset ((meta @ [m]) ! i))
         | _ \<Rightarrow> True) \<and>
        (packet_count (se_kind ((evs @ [ev]) ! i)) = 0 \<longrightarrow> session_patchable sched (se_kind ((evs @ [ev]) ! i)) \<longrightarrow>
           fm_offset ((meta @ [m]) ! i) \<in> snd ` set (pe @ (if session_patchable sched (se_kind ev) then [(of_nat (length evs), fm_offset m)] else [])))"
    if i: "i < length (evs @ [ev])" "rendered gt ((evs @ [ev]) ! i)" for i
  proof (cases "i < length evs")
    case True
    then have "(case se_kind (evs ! i) of
           PacketEv q' m' n' \<Rightarrow> n' \<noteq> 0 \<longrightarrow> (\<exists>v. map_of am (q', m', n') = Some v \<and> fst v = fm_offset (meta ! i))
         | _ \<Rightarrow> True) \<and>
        (packet_count (se_kind (evs ! i)) = 0 \<longrightarrow> session_patchable sched (se_kind (evs ! i)) \<longrightarrow>
           fm_offset (meta ! i) \<in> snd ` set pe)"
      using assms(1) i unfolding sites_inv_def by (simp add: nth_append)
    then show ?thesis using True assms(2) by (auto simp: nth_append split: SchedKind.splits)
  next
    case False
    then have "i = length evs" using i by simp
    then show ?thesis using assms(2,5) by (auto simp: nth_append packet_count_def split: SchedKind.splits)
  qed
  show ?thesis unfolding sites_inv_def
  proof (intro conjI ballI allI impI)
    show "distinct (map fst am)" using assms(1) by (simp add: sites_inv_def)
  qed (use sites_inv_entries [OF assms(1-3)] new full in \<open>auto split: if_splits\<close>)
qed

lemma sites_inv_alias:
  assumes inv: "sites_inv gt sched evs meta am pe" "length meta = length evs"
    and ok: "meta_ok gt sched s evs blob triples meta" "sessions_ok sched s" "layout_ok gt evs meta"
    and ev: "rendered gt ev" "se_kind ev = PacketEv q mm n" "n \<noteq> 0" "map_of am (q, mm, n) = Some (off, base, cnt, valid, g)"
      "length evs < 2 ^ 32"
    and m: "fm_offset m = off"
  shows "sites_inv gt sched (evs @ [ev]) (meta @ [m])
    (AList.update (q, mm, n) (off, base, cnt, valid, max g (of_nat (length evs))) am) pe"
proof -
  let ?v = "(off, base, cnt, valid, max g (of_nat (length evs)))"
  have u: "unat (of_nat (length evs) :: u32) = length evs" using ev(5) by (rule unat_of_nat_u32)
  have mem: "((q, mm, n), (off, base, cnt, valid, g)) \<in> set am" using ev(4) by (rule map_of_SomeD)
  have e0: "alias_entry_ok gt evs meta ((q, mm, n), (off, base, cnt, valid, g))"
    using inv(1) mem unfolding sites_inv_def by blast
  then obtain j where j: "j \<in> readers gt evs meta off" "se_kind (evs ! j) = PacketEv q mm n" 
      "fm_blk_base (meta ! j) = base" "fm_blk_count (meta ! j) = cnt" "fm_valid (meta ! j) = valid"
    and g: "unat g < length evs" "\<And>i. i \<in> readers gt evs meta off \<Longrightarrow> i \<le> unat g"
    unfolding alias_entry_ok_def by auto
  have r: "readers gt (evs @ [ev]) (meta @ [m]) off = insert (length evs) (readers gt evs meta off)"
    using inv(2) ev(1) m by (auto simp: readers_snoc)
  have mx: "unat (max g (of_nat (length evs))) = length evs"
    using g(1) u by (simp add: max_def word_le_nat_alt)
  have nj: "(evs @ [ev]) ! j = evs ! j" "(meta @ [m]) ! j = meta ! j"
    using readersD [OF j(1)] inv(2) by (simp_all add: nth_append)
  have new: "alias_entry_ok gt (evs @ [ev]) (meta @ [m]) ((q, mm, n), ?v)"
  proof -
    have "\<forall>i \<in> readers gt (evs @ [ev]) (meta @ [m]) off. i \<le> length evs"
      unfolding r using readersD by fastforce
    moreover have "j \<in> readers gt (evs @ [ev]) (meta @ [m]) off" using j(1) by (simp add: r)
    ultimately show ?thesis using ev(3) mx j(2-5) nj
      by (simp add: alias_entry_ok_def) (metis nj)
  qed
  have other: "alias_entry_ok gt (evs @ [ev]) (meta @ [m]) e" if e: "e \<in> set am" "fst e \<noteq> (q, mm, n)" for e
  proof -
    obtain q' m' n' off' base' cnt' valid' g' where ee: "e = ((q', m', n'), (off', base', cnt', valid', g'))"
      by (metis prod_cases3 prod.exhaust)
    have eo: "alias_entry_ok gt evs meta e" using inv(1) e unfolding sites_inv_def by blast
    then obtain i where i: "i \<in> readers gt evs meta off'" "se_kind (evs ! i) = PacketEv q' m' n'"
      unfolding ee alias_entry_ok_def by auto
    have "off' \<noteq> off"
    proof
      assume "off' = off"
      then have "se_kind (evs ! i) = se_kind (evs ! j)" using readers_kind [OF ok] i(1) j(1) by blast
      then show False using i(2) j(2) e(2) by (simp add: ee)
    qed
    then show ?thesis using eo m unfolding ee by (intro entries_snoc(1) inv(2)) simp_all
  qed
  have plain: "plain_site_ok gt sched (evs @ [ev]) (meta @ [m]) p" if p: "p \<in> set pe" for p
  proof -
    have po: "plain_site_ok gt sched evs meta p" using inv(1) p unfolding sites_inv_def by blast
    then obtain i where i: "i \<in> readers gt evs meta (snd p)" "packet_count (se_kind (evs ! i)) = 0"
      by (auto simp: plain_site_ok_def split: prod.splits)
    have "snd p \<noteq> off"
    proof
      assume "snd p = off"
      then have "se_kind (evs ! i) = se_kind (evs ! j)" using readers_kind [OF ok] i(1) j(1) by blast
      then show False using i(2) j(2) ev(3) by (simp add: packet_count_def)
    qed
    then show ?thesis using po m by (intro entries_snoc(2) inv(2)) simp_all
  qed
  have full: "(case se_kind ((evs @ [ev]) ! i) of
           PacketEv q' m' n' \<Rightarrow> n' \<noteq> 0 \<longrightarrow> (\<exists>v. map_of (AList.update (q, mm, n) ?v am) (q', m', n') = Some v \<and> fst v = fm_offset ((meta @ [m]) ! i))
         | _ \<Rightarrow> True) \<and>
        (packet_count (se_kind ((evs @ [ev]) ! i)) = 0 \<longrightarrow> session_patchable sched (se_kind ((evs @ [ev]) ! i)) \<longrightarrow>
           fm_offset ((meta @ [m]) ! i) \<in> snd ` set pe)"
    if i: "i < length (evs @ [ev])" "rendered gt ((evs @ [ev]) ! i)" for i
  proof (cases "i < length evs")
    case True
    then have "(case se_kind (evs ! i) of
           PacketEv q' m' n' \<Rightarrow> n' \<noteq> 0 \<longrightarrow> (\<exists>v. map_of am (q', m', n') = Some v \<and> fst v = fm_offset (meta ! i))
         | _ \<Rightarrow> True) \<and>
        (packet_count (se_kind (evs ! i)) = 0 \<longrightarrow> session_patchable sched (se_kind (evs ! i)) \<longrightarrow>
           fm_offset (meta ! i) \<in> snd ` set pe)"
      using inv(1) i unfolding sites_inv_def by (simp add: nth_append)
    then show ?thesis using True inv(2) ev(4)
      by (auto simp: nth_append AList.update_conv' split: SchedKind.splits)
  next
    case False
    then have "i = length evs" using i by simp
    then show ?thesis using inv(2) ev(2,3) m by (simp add: nth_append packet_count_def AList.update_conv')
  qed
  have d: "distinct (map fst am)" using inv(1) by (simp add: sites_inv_def)
  have set: "e = ((q, mm, n), ?v) \<or> e \<in> set am \<and> fst e \<noteq> (q, mm, n)"
    if "e \<in> set (AList.update (q, mm, n) ?v am)" for e
  proof -
    have "map_of (AList.update (q, mm, n) ?v am) (fst e) = Some (snd e)"
      using that d by (simp add: distinct_update)
    then show ?thesis by (cases e) (auto simp: AList.update_conv' dest: map_of_SomeD split: if_splits)
  qed
  show ?thesis unfolding sites_inv_def
  proof (intro conjI allI impI ballI)
    show "distinct (map fst (AList.update (q, mm, n) ?v am))" using d by (rule distinct_update)
    show "alias_entry_ok gt (evs @ [ev]) (meta @ [m]) e" if "e \<in> set (AList.update (q, mm, n) ?v am)" for e
      using set [OF that] new other [of e] by blast
  qed (use plain full in blast)+
qed

section \<open>The construction sweep\<close>

definition sweep_inv :: "bytes \<Rightarrow> ReplaySchedule \<Rightarrow> SchedEvent list \<Rightarrow> Sweep \<Rightarrow> bool" where
  "sweep_inv gt sched evs b \<longleftrightarrow>
     meta_ok gt sched zero10 evs (sw_blob b) (sw_triples b) (sw_meta b) \<and> layout_ok gt evs (sw_meta b) \<and>
     sites_inv gt sched evs (sw_meta b) (sw_alias_map b) (sw_patch_evts b) \<and>
     sw_vts b = map se_release_vt evs \<and> length (sw_scratch b) = ARENA_SLOT_SIZE \<and>
     length (sw_cursors b) = 2 \<and> (\<forall>c \<in> set (sw_cursors b). cursor_ok gt c) \<and>
     length (sw_blob b) \<le> 1500 * length evs \<and> length (sw_triples b) \<le> 1500 * length evs"

lemma wire_kind: "se_kind a = se_kind b \<Longrightarrow> wire gt sched s a = wire gt sched s b \<and> wire_rest gt a = wire_rest gt b"
  unfolding wire_def wire_rest_def effective_session_def by (simp only: simp_thms)

lemma drop_slice: "a + n \<le> b \<Longrightarrow> drop n (slice a b xs) = slice (a + n) b xs"
  by (simp add: slice_def drop_take add.commute)

lemma sessions_ok_zero: "sessions_ok sched s \<Longrightarrow> sessions_ok sched zero10"
  by (simp add: sessions_ok_def)

lemma drop_wire: "sessions_ok sched s \<Longrightarrow> drop 20 (wire gt sched s ev) = mold_body (event_msgs gt (se_kind ev))"
  by (simp add: wire_def drop_header_frame length_effective_session)

text \<open>A duplicate finds the region of the first delivery.\<close>

lemma alias_found:
  assumes meta: "meta_ok gt sched zero10 evs (sw_blob b) (sw_triples b) (sw_meta b)" and s: "sessions_ok sched s"
    and inv: "sites_inv gt sched evs (sw_meta b) (sw_alias_map b) pe"
    and ev: "rendered gt ev" "se_kind ev = PacketEv q m n" "n \<noteq> 0"
      "map_of (sw_alias_map b) (q, m, n) = Some (off, base, cnt, valid, g)"
    and scr: "take (length (wire gt sched s ev)) (sw_scratch b) = wire gt sched s ev"
  shows "\<exists>j. j \<in> readers gt evs (sw_meta b) off \<and> se_kind (evs ! j) = se_kind ev \<and>
      fm_blk_base (sw_meta b ! j) = base \<and> fm_blk_count (sw_meta b ! j) = cnt \<and> fm_valid (sw_meta b ! j) = valid"
    and "alias_lookup i (se_kind ev) (length (wire gt sched s ev)) b
      = (b\<lparr>sw_aliased_frames := sw_aliased_frames b + 1,
           sw_alias_map := AList.update (q, m, n) (off, base, cnt, valid, max g (of_nat i)) (sw_alias_map b)\<rparr>,
         Some (off, base, cnt, valid), Aliased)"
proof -
  have "alias_entry_ok gt evs (sw_meta b) ((q, m, n), (off, base, cnt, valid, g))"
    using inv map_of_SomeD [OF ev(4)] unfolding sites_inv_def by blast
  then obtain j where j: "j \<in> readers gt evs (sw_meta b) off" "se_kind (evs ! j) = se_kind ev"
      "fm_blk_base (sw_meta b ! j) = base" "fm_blk_count (sw_meta b ! j) = cnt" "fm_valid (sw_meta b ! j) = valid"
    using ev(2) unfolding alias_entry_ok_def by auto
  then show "\<exists>j. j \<in> readers gt evs (sw_meta b) off \<and> se_kind (evs ! j) = se_kind ev \<and>
      fm_blk_base (sw_meta b ! j) = base \<and> fm_blk_count (sw_meta b ! j) = cnt \<and> fm_valid (sw_meta b ! j) = valid"
    by blast
  note jd = readersD [OF j(1)]
  have reg: "region_ok gt (evs ! j) (wire gt sched zero10 (evs ! j)) (sw_blob b) (sw_triples b) (sw_meta b ! j)"
    using meta jd by (intro meta_ok_region) simp_all
  have len: "length (wire gt sched zero10 (evs ! j)) = length (wire gt sched s ev)"
    using s sessions_ok_zero [OF s] j(2) by (simp add: length_wire)
  have l20: "20 \<le> length (wire gt sched s ev)" using s by (simp add: length_wire)
  have in_range: "unat off + length (wire gt sched s ev) \<le> length (sw_blob b)"
    and sl: "slice (unat off) (unat off + length (wire gt sched s ev)) (sw_blob b) = wire gt sched zero10 (evs ! j)"
    using reg len jd by (simp_all add: region_ok_def)
  have "slice (unat off + 20) (unat off + length (wire gt sched s ev)) (sw_blob b)
      = drop 20 (wire gt sched zero10 (evs ! j))"
    unfolding sl [symmetric] using l20 by (simp add: drop_slice)
  also have "\<dots> = drop 20 (wire gt sched s ev)"
    using s sessions_ok_zero [OF s] j(2) by (simp only: drop_wire)
  also have "\<dots> = slice 20 (length (wire gt sched s ev)) (sw_scratch b)"
    by (subst scr [symmetric]) (simp add: slice_def drop_take)
  finally show "alias_lookup i (se_kind ev) (length (wire gt sched s ev)) b
      = (b\<lparr>sw_aliased_frames := sw_aliased_frames b + 1,
           sw_alias_map := AList.update (q, m, n) (off, base, cnt, valid, max g (of_nat i)) (sw_alias_map b)\<rparr>,
         Some (off, base, cnt, valid), Aliased)"
    using ev in_range by (simp add: alias_lookup_def word_gt_0)
qed

lemma alias_missing:
  assumes "\<And>q m n. se_kind ev = PacketEv q m n \<Longrightarrow> n = 0 \<or> map_of (sw_alias_map b) (q, m, n) = None"
  shows "alias_lookup i (se_kind ev) len b = (b, None, Primary)"
  using assms by (auto simp: alias_lookup_def word_gt_0 split: SchedKind.split)

lemma sweep_event_ok:
  assumes inv: "sweep_inv gt sched evs b" and s: "sessions_ok sched session" and gt: "length gt < 2 ^ 64"
    and bound: "1500 * Suc (length evs) < 2 ^ 32"
  shows "sweep_inv gt sched (evs @ [ev]) (sweep_event gt sched session (length evs) ev b)"
proof -
  note i = inv [unfolded sweep_inv_def]
  note z = sessions_ok_zero [OF s]
  define fi where "fi = unat (se_feed ev AND 1)"
  have fi: "fi < 2"
    by (cases "even (se_feed ev)") (simp_all add: fi_def and_one_eq mod_2_eq_odd)
  obtain scr cur r where re: "render_event_standalone gt ev sched session (sw_scratch b) (sw_cursors b ! fi) = (scr, cur, r)"
    by (metis prod_cases3)
  have "cursor_ok gt (sw_cursors b ! fi)" using i fi by (simp add: nth_mem)
  note ok = render_ok [OF this _ s gt re]
  have scr: "length scr = ARENA_SLOT_SIZE" "cursor_ok gt cur"
    and r: "r = (if rendered gt ev then Some (length (wire gt sched session ev)) else None)"
    and take: "rendered gt ev \<Longrightarrow> take (length (wire gt sched session ev)) scr = wire gt sched session ev"
    using ok i by (simp_all add: event_frame_wire)
  define b1 where "b1 = b\<lparr>sw_scratch := scr, sw_cursors := (sw_cursors b)[fi := cur]\<rparr>"
  have cur: "length (sw_cursors b1) = 2" "\<forall>c \<in> set (sw_cursors b1). cursor_ok gt c"
    using i scr(2) by (auto simp: b1_def dest!: set_update_subset_insert [THEN subsetD])
  have ml: "length (sw_meta b) = length evs" using i by (simp add: meta_ok_def)
  have n32: "length evs < 2 ^ 32" "length (sw_blob b) < 2 ^ 32" "length (sw_triples b) < 2 ^ 32"
    using i bound by simp_all
  show ?thesis
  proof (cases "rendered gt ev")
    case False
    have e: "sweep_event gt sched session (length evs) ev b
        = b1\<lparr>sw_meta := sw_meta b @ [tombstone (se_feed ev)], sw_vts := sw_vts b @ [se_release_vt ev]\<rparr>"
      using False by (simp add: sweep_event_def Let_def fi_def [symmetric] re r b1_def)
    have "meta_ok gt sched zero10 (evs @ [ev]) (sw_blob b @ []) (sw_triples b @ []) (sw_meta b @ [tombstone (se_feed ev)])"
      using i False by (intro meta_ok_snoc) (simp_all add: event_frame_wire)
    moreover have "layout_ok gt (evs @ [ev]) (sw_meta b @ [tombstone (se_feed ev)])"
      using i ml False by (intro layout_ok_snoc) simp_all
    moreover have "sites_inv gt sched (evs @ [ev]) (sw_meta b @ [tombstone (se_feed ev)]) (sw_alias_map b) (sw_patch_evts b)"
      using i ml False by (intro sites_inv_skip) simp_all
    ultimately show ?thesis unfolding e using i cur scr(1)
      by (simp add: sweep_inv_def b1_def)
  next
    case rend: True
    define w where "w = wire gt sched session ev"
    have wl: "length w = 20 + length (mold_body (event_msgs gt (se_kind ev)))" "length w \<le> 1500"
      using length_wire [OF s, of gt ev] rendered_short [OF rend] by (simp_all add: w_def)
    have lz: "length (wire gt sched zero10 ev) = length w" using wl length_wire [OF z, of gt ev] by simp
    have lu: "unat (of_nat (length w) :: u16) = length w" using wl(2) by (simp add: unat_of_nat)
    have tk: "take (length w) (sw_scratch b1) = w" using take [OF rend] by (simp add: w_def b1_def)
    have same: "sw_blob b1 = sw_blob b" "sw_triples b1 = sw_triples b" "sw_meta b1 = sw_meta b" "sw_vts b1 = sw_vts b"
      "sw_alias_map b1 = sw_alias_map b" "sw_patch_evts b1 = sw_patch_evts b" "sw_scratch b1 = scr"
      by (simp_all add: b1_def)
    have step: "sweep_event gt sched session (length evs) ev b =
       (let (b2, alias, outcome) = alias_lookup (length evs) (se_kind ev) (length w) b1;
            (b3, off, blk_base, blk_count, valid) =
              (case alias of
                 Some (a_off, a_blk_base, a_blk_count, a_valid) \<Rightarrow> (b2, a_off, a_blk_base, a_blk_count, a_valid)
               | None \<Rightarrow> append_frame (length evs) (se_kind ev) (length w) (session_patchable sched (se_kind ev)) b2);
            b4 = (if 0 < packet_count (se_kind ev) \<and> blk_count = 0
              then b3\<lparr>sw_meta := sw_meta b3 @ [tombstone (se_feed ev)]\<rparr>
              else b3\<lparr>sw_patch_evts := sw_patch_evts b3 @
                       (if session_patchable sched (se_kind ev) \<and> (packet_count (se_kind ev) = 0 \<or> outcome = Rejected)
                        then [(of_nat (length evs), off)] else []),
                     sw_meta := sw_meta b3 @
                       [\<lparr>fm_offset = off, fm_len = of_nat (length w), fm_feed = se_feed ev, fm_blk_base = blk_base,
                         fm_blk_count = blk_count, fm_valid = valid, fm_first_seq = packet_first_seq (se_kind ev)\<rparr>]\<rparr>)
        in b4\<lparr>sw_vts := sw_vts b4 @ [se_release_vt ev]\<rparr>)"
      unfolding sweep_event_def Let_def fi_def [symmetric] re prod.case r w_def b1_def using rend by simp
    show ?thesis
    proof (cases "\<exists>q m n v. se_kind ev = PacketEv q m n \<and> n \<noteq> 0 \<and> map_of (sw_alias_map b) (q, m, n) = Some v")
      case True
      then obtain q m n off base cnt valid g where k: "se_kind ev = PacketEv q m n" "n \<noteq> 0"
        and am: "map_of (sw_alias_map b) (q, m, n) = Some (off, base, cnt, valid, g)"
        by (metis prod_cases5)
      let ?m = "\<lparr>fm_offset = off, fm_len = of_nat (length w), fm_feed = se_feed ev, fm_blk_base = base,
        fm_blk_count = cnt, fm_valid = valid, fm_first_seq = packet_first_seq (se_kind ev)\<rparr>"
      have M: "meta_ok gt sched zero10 evs (sw_blob b1) (sw_triples b1) (sw_meta b1)"
        "sites_inv gt sched evs (sw_meta b1) (sw_alias_map b1) (sw_patch_evts b1)"
        "map_of (sw_alias_map b1) (q, m, n) = Some (off, base, cnt, valid, g)"
        using i am by (simp_all add: same)
      note found = alias_found(1) [OF M(1) s M(2) rend k M(3) tk [unfolded w_def]]
        alias_found(2) [OF M(1) s M(2) rend k M(3) tk [unfolded w_def], of "length evs", folded w_def]
      obtain j where j: "j \<in> readers gt evs (sw_meta b) off" "se_kind (evs ! j) = se_kind ev"
        "fm_blk_base (sw_meta b ! j) = base" "fm_blk_count (sw_meta b ! j) = cnt" "fm_valid (sw_meta b ! j) = valid"
        using found(1) same by auto
      note jd = readersD [OF j(1)]
      have reg: "region_ok gt (evs ! j) (wire gt sched zero10 (evs ! j)) (sw_blob b) (sw_triples b) (sw_meta b ! j)"
        using i jd by (intro meta_ok_region) simp_all
      have wk: "wire gt sched zero10 (evs ! j) = wire gt sched zero10 ev" using wire_kind [OF j(2)] by blast
      have cnt: "cnt = n" using reg j k by (simp add: region_ok_def packet_count_def)
      have e: "sweep_event gt sched session (length evs) ev b
          = b1\<lparr>sw_aliased_frames := sw_aliased_frames b1 + 1,
               sw_alias_map := AList.update (q, m, n) (off, base, cnt, valid, max g (of_nat (length evs))) (sw_alias_map b1),
               sw_meta := sw_meta b @ [?m], sw_vts := sw_vts b @ [se_release_vt ev]\<rparr>"
        unfolding step found(2) Let_def using k cnt by (simp add: packet_count_def same)
      have lj: "unat (fm_len (sw_meta b ! j)) = length w"
        using reg lz by (simp add: region_ok_def wk)
      have "region_ok gt ev (wire gt sched zero10 ev) (sw_blob b @ []) (sw_triples b @ []) ?m"
        using reg j jd lz lu by (auto simp: region_ok_def wk)
      then have 1: "meta_ok gt sched zero10 (evs @ [ev]) (sw_blob b @ []) (sw_triples b @ []) (sw_meta b @ [?m])"
        using i rend by (intro meta_ok_snoc) (simp_all add: event_frame_wire)
      have 2: "layout_ok gt (evs @ [ev]) (sw_meta b @ [?m])"
      proof (rule layout_ok_snoc [OF _ ml])
        show "layout_ok gt evs (sw_meta b)" using i by blast
        fix i'
        assume "i' < length evs" "rendered gt (evs ! i')"
        then show "unat (fm_offset (sw_meta b ! i')) + unat (fm_len (sw_meta b ! i')) \<le> unat (fm_offset ?m) \<or>
            unat (fm_offset ?m) + unat (fm_len ?m) \<le> unat (fm_offset (sw_meta b ! i')) \<or>
            fm_offset (sw_meta b ! i') = fm_offset ?m \<and> se_kind (evs ! i') = se_kind ev"
          using i jd j(2) lj lu unfolding layout_ok_def by (metis FrameMeta.select_convs(1,2))
      qed
      have 3: "sites_inv gt sched (evs @ [ev]) (sw_meta b @ [?m])
          (AList.update (q, m, n) (off, base, cnt, valid, max g (of_nat (length evs))) (sw_alias_map b)) (sw_patch_evts b)"
        by (rule sites_inv_alias [where s = zero10 and blob = "sw_blob b" and triples = "sw_triples b"])
          (use i ml rend k am n32 z in simp_all)
      show ?thesis unfolding e using i 1 2 3 cur scr(1)
        by (simp add: sweep_inv_def same)
    next
      case False
      then have miss: "\<And>q m n. se_kind ev = PacketEv q m n \<Longrightarrow> n = 0 \<or> map_of (sw_alias_map b) (q, m, n) = None" by auto
      have al: "alias_lookup (length evs) (se_kind ev) (length w) b1 = (b1, None, Primary)"
        using miss by (intro alias_missing) (simp add: same)
      obtain base valid ext where ap: "append_frame (length evs) (se_kind ev) (length w) (session_patchable sched (se_kind ev)) b1
          = (b1\<lparr>sw_blob := sw_blob b1 @ wire gt sched zero10 ev, sw_triples := sw_triples b1 @ ext,
               sw_alias_map := (case se_kind ev of
                  PacketEv q m n \<Rightarrow>
                    if 0 < n \<and> map_of (sw_alias_map b1) (q, m, n) = None
                    then sw_alias_map b1 @ [((q, m, n), (of_nat (length (sw_blob b1)), base, n, valid, of_nat (length evs)))]
                    else sw_alias_map b1
                | _ \<Rightarrow> sw_alias_map b1)\<rparr>,
             of_nat (length (sw_blob b1)), base, packet_count (se_kind ev), valid)"
        and ext: "length ext = unat (packet_count (se_kind ev))"
          "packet_count (se_kind ev) \<noteq> 0 \<longrightarrow> unat base = length (sw_triples b1) \<and>
            ext = frame_triples (packet_first_seq (se_kind ev)) 20 (event_msgs gt (se_kind ev)) \<and>
            unat valid = length (takeWhile (\<lambda>x. validate x = Inr ()) (event_msgs gt (se_kind ev)))"
        using append_frame_wire [OF rend s _ _ tk [unfolded w_def], of "length evs"] n32 unfolding w_def same by blast
      define off :: u32 where "off = of_nat (length (sw_blob b))"
      have off: "unat off = length (sw_blob b)" unfolding off_def using n32(2) by (rule unat_of_nat_u32)
      define am where "am = (case se_kind ev of
                  PacketEv q m n \<Rightarrow>
                    if 0 < n \<and> map_of (sw_alias_map b) (q, m, n) = None
                    then sw_alias_map b @ [((q, m, n), (off, base, n, valid, of_nat (length evs)))]
                    else sw_alias_map b
                | _ \<Rightarrow> sw_alias_map b)"
      define pe where "pe = sw_patch_evts b @ (if session_patchable sched (se_kind ev) \<and> packet_count (se_kind ev) = 0
        then [(of_nat (length evs), off)] else [])"
      let ?m = "\<lparr>fm_offset = off, fm_len = of_nat (length w), fm_feed = se_feed ev, fm_blk_base = base,
        fm_blk_count = packet_count (se_kind ev), fm_valid = valid, fm_first_seq = packet_first_seq (se_kind ev)\<rparr>"
      have e: "sweep_event gt sched session (length evs) ev b
          = b1\<lparr>sw_blob := sw_blob b @ wire gt sched zero10 ev, sw_triples := sw_triples b @ ext, sw_alias_map := am,
               sw_patch_evts := pe, sw_meta := sw_meta b @ [?m], sw_vts := sw_vts b @ [se_release_vt ev]\<rparr>"
        unfolding step al Let_def prod.case option.case ap [unfolded same, folded off_def, folded am_def]
        by (simp add: word_gt_0 pe_def same)
      have none: "readers gt evs (sw_meta b) off = {}"
        using readers_bound [of gt sched zero10 evs "sw_blob b" "sw_triples b" "sw_meta b" _ off] i z off by fastforce
      have "region_ok gt ev (wire gt sched zero10 ev) (sw_blob b @ wire gt sched zero10 ev) (sw_triples b @ ext) ?m"
        using ext off lu lz by (auto simp: region_ok_def same slice_def)
      then have 1: "meta_ok gt sched zero10 (evs @ [ev]) (sw_blob b @ wire gt sched zero10 ev) (sw_triples b @ ext) (sw_meta b @ [?m])"
        using i rend by (intro meta_ok_snoc) (simp_all add: event_frame_wire)
      have 2: "layout_ok gt (evs @ [ev]) (sw_meta b @ [?m])"
      proof (rule layout_ok_snoc [OF _ ml])
        show "layout_ok gt evs (sw_meta b)" using i by blast
        fix i'
        assume "i' < length evs" "rendered gt (evs ! i')"
        then show "unat (fm_offset (sw_meta b ! i')) + unat (fm_len (sw_meta b ! i')) \<le> unat (fm_offset ?m) \<or>
            unat (fm_offset ?m) + unat (fm_len ?m) \<le> unat (fm_offset (sw_meta b ! i')) \<or>
            fm_offset (sw_meta b ! i') = fm_offset ?m \<and> se_kind (evs ! i') = se_kind ev"
          using meta_ok_len(2) [of gt sched zero10 evs "sw_blob b" "sw_triples b" "sw_meta b" i'] i z off by simp
      qed
      have 3: "sites_inv gt sched (evs @ [ev]) (sw_meta b @ [?m]) am pe"
      proof (cases "packet_count (se_kind ev) = 0")
        case True
        then have "am = sw_alias_map b" by (auto simp: am_def packet_count_def split: SchedKind.splits)
        moreover have "pe = sw_patch_evts b @ (if session_patchable sched (se_kind ev)
            then [(of_nat (length evs), fm_offset ?m)] else [])" using True by (simp add: pe_def)
        ultimately show ?thesis using sites_inv_fresh_plain [of gt sched evs "sw_meta b" "sw_alias_map b" "sw_patch_evts b" ?m ev]
          i ml none rend True n32 by simp
      next
        case False
        then obtain q m n where k: "se_kind ev = PacketEv q m n" "n \<noteq> 0"
          by (cases "se_kind ev") (auto simp: packet_count_def)
        then have am: "map_of (sw_alias_map b) (q, m, n) = None" using miss by blast
        have "am = sw_alias_map b @ [((q, m, n), (fm_offset ?m, fm_blk_base ?m, fm_blk_count ?m, fm_valid ?m, of_nat (length evs)))]"
          using k am by (simp add: am_def word_gt_0 packet_count_def)
        moreover have "pe = sw_patch_evts b" using False by (simp add: pe_def)
        ultimately show ?thesis
          using sites_inv_fresh_packet [of gt sched evs "sw_meta b" "sw_alias_map b" "sw_patch_evts b" ?m ev q m n]
            i ml none rend k am n32 by simp
      qed
      have "length ext \<le> 1500" using ext(1) rendered_count [OF rend] by simp
      then show ?thesis unfolding e using i 1 2 3 cur scr(1) lz wl(2)
        by (simp add: sweep_inv_def same)
    qed
  qed
qed

end
