(* ===== verification/Poll.thy ===== *)
theory Poll
  imports Replay
begin

text \<open>
  The consumer side of the replay transport (\<open>crates/nf-transport/src/lib.rs\<close>, \<open>render.rs\<close>):
  frame slots and batches, the walk shared by the three poll modes, the block index of a
  slot, and the construction-time master array of frame entries.
\<close>

section \<open>Slots and batches\<close>

text \<open>A slot points into the blob of the transport that filled it; \<open>None\<close> is the null pointer.\<close>

record FrameView =
  fv_ptr :: "nat option"
  fv_len :: u16
  fv_feed :: u8
  fv_blk_base :: u32
  fv_blk_count :: u16
  fv_valid :: u16
  fv_first_seq :: u64
  fv_sess_lo :: u64
  fv_sess_hi :: u64

definition FrameView_null :: FrameView where
  "FrameView_null = \<lparr>fv_ptr = None, fv_len = 0, fv_feed = 0, fv_blk_base = 0, fv_blk_count = 0,
     fv_valid = 0, fv_first_seq = 0, fv_sess_lo = 0, fv_sess_hi = 0\<rparr>"

definition FrameView_bytes :: "bytes \<Rightarrow> FrameView \<Rightarrow> bytes" where
  "FrameView_bytes frames f =
     (case fv_ptr f of
        None \<Rightarrow> []
      | Some p \<Rightarrow> if fv_len f = 0 then [] else slice p (p + unat (fv_len f)) frames)"

record FrameBatch =
  fb_slots :: "FrameView list"
  fb_len :: nat

definition FrameBatch_new :: FrameBatch where
  "FrameBatch_new = \<lparr>fb_slots = replicate 256 FrameView_null, fb_len = 0\<rparr>"

definition FrameBatch_clear :: "FrameBatch \<Rightarrow> FrameBatch" where
  "FrameBatch_clear b = b\<lparr>fb_len := 0\<rparr>"

definition FrameBatch_capacity :: nat where "FrameBatch_capacity = 256"

definition FrameBatch_frames :: "FrameBatch \<Rightarrow> FrameView list" where
  "FrameBatch_frames b = take (fb_len b) (fb_slots b)"

definition FrameBatch_push :: "FrameView \<Rightarrow> FrameBatch \<Rightarrow> FrameBatch \<times> bool" where
  "FrameBatch_push f b =
     (if fb_len b < 256 then (b\<lparr>fb_slots := (fb_slots b)[fb_len b := f], fb_len := fb_len b + 1\<rparr>, True)
      else (b, False))"

definition FrameBatch_push_indexed :: "FrameView \<Rightarrow> FrameBatch \<Rightarrow> FrameBatch" where
  "FrameBatch_push_indexed f b = b\<lparr>fb_slots := (fb_slots b)[fb_len b := f], fb_len := fb_len b + 1\<rparr>"

definition FrameBatch_push_raw :: "nat option \<Rightarrow> nat \<Rightarrow> u8 \<Rightarrow> FrameBatch \<Rightarrow> FrameBatch \<times> bool" where
  "FrameBatch_push_raw ptr len feed b =
     FrameBatch_push (FrameView_null\<lparr>fv_ptr := ptr, fv_len := of_nat len, fv_feed := feed\<rparr>) b"

section \<open>Release by virtual time\<close>

text \<open>The chain of vt-groups a poll releases: the exclusive end of the last group and the
  largest group start.\<close>

function group_chain :: "ReplayTransport \<Rightarrow> u64 \<Rightarrow> nat \<Rightarrow> u64 \<Rightarrow> nat \<Rightarrow> nat \<times> u64" where
  "group_chain t limit_full e mx groups =
     (if groups < rt_coalesce t \<and> e < length (rt_meta t)
      then let v = rt_vts t ! e
           in if limit_full < v then (e, mx)
              else group_chain t limit_full (unat (rt_group_end t ! e)) (if mx < v then v else mx) (groups + 1)
      else (e, mx))"
  by pat_completeness auto
termination group_chain
  by (relation "measure (\<lambda>(t, limit_full, e, mx, groups). rt_coalesce t - groups)") auto

declare group_chain.simps [simp del]

text \<open>The event walk of \<open>poll_impl\<close>.  The mode is the function that emits one frame; the
  prefetches it interleaves have no effect on the values.\<close>

function poll_walk ::
    "(nat \<Rightarrow> nat \<Rightarrow> FrameMeta \<Rightarrow> 'a \<Rightarrow> 'a) \<Rightarrow> ReplayTransport \<Rightarrow> u64 \<Rightarrow> nat \<Rightarrow> nat \<Rightarrow> nat \<Rightarrow> nat \<Rightarrow> 'a \<Rightarrow> nat \<times> nat \<times> 'a" where
  "poll_walk emit t vclock limit_evt cap evt emitted a =
     (if evt < limit_evt \<and> emitted < cap
      then if rt_coalesce t = 1 \<and> vclock < rt_vts t ! evt then (evt, emitted, a)
           else if fm_len (rt_meta t ! evt) = 0 then poll_walk emit t vclock limit_evt cap (evt + 1) emitted a
           else poll_walk emit t vclock limit_evt cap (evt + 1) (emitted + 1) (emit evt emitted (rt_meta t ! evt) a)
      else (evt, emitted, a))"
  by pat_completeness auto
termination poll_walk
  by (relation "measure (\<lambda>(emit, t, vclock, limit_evt, cap, evt, emitted, a). limit_evt - evt)") auto

declare poll_walk.simps [simp del]

text \<open>The pacing preamble and the walk; \<open>cap\<close> is the number of frames the mode can take.\<close>

definition poll_impl ::
    "(nat \<Rightarrow> nat \<Rightarrow> FrameMeta \<Rightarrow> 'a \<Rightarrow> 'a) \<Rightarrow> nat \<Rightarrow> u64 option \<Rightarrow> ReplayTransport \<Rightarrow> 'a \<Rightarrow> ReplayTransport \<times> nat \<times> 'a" where
  "poll_impl emit cap max_vt t a =
     (if length (rt_meta t) \<le> rt_event_idx t then (t, 0, a)
      else let first = rt_vts t ! rt_event_idx t;
               clamp = (case max_vt of None \<Rightarrow> rt_clock_clamp t | Some v \<Rightarrow> Some v);
               limit = (case clamp of Some c \<Rightarrow> min first c | None \<Rightarrow> first);
               vclock0 = (if rt_virtual_clock t < limit then limit else rt_virtual_clock t);
               limit_full = (case clamp of Some c \<Rightarrow> c | None \<Rightarrow> - 1);
               (e, mx) = group_chain t limit_full (rt_event_idx t) 0 0;
               vclock = (if vclock0 < mx then mx else vclock0);
               limit_evt = (if rt_coalesce t = 1 then length (rt_meta t) else e);
               (evt, emitted, a1) = poll_walk emit t vclock limit_evt cap (rt_event_idx t) 0 a
           in (t\<lparr>rt_virtual_clock := vclock, rt_event_idx := evt\<rparr>, emitted, a1))"

section \<open>The three modes\<close>

definition frame_at :: "ReplayTransport \<Rightarrow> FrameMeta \<Rightarrow> bytes" where
  "frame_at t m = slice (unat (fm_offset m)) (unat (fm_offset m) + unat (fm_len m)) (rt_frames t)"

definition frame_sess_lo :: "ReplayTransport \<Rightarrow> FrameMeta \<Rightarrow> u64" where
  "frame_sess_lo t m = u64_from_le_bytes (slice (unat (fm_offset m)) (unat (fm_offset m) + 8) (rt_frames t))"

definition frame_sess_hi :: "ReplayTransport \<Rightarrow> FrameMeta \<Rightarrow> u64" where
  "frame_sess_hi t m = u64_from_le_bytes (slice (unat (fm_offset m) + 2) (unat (fm_offset m) + 10) (rt_frames t))"

text \<open>Mode 0: push a slot, and remember the event of the position when pacing is exact.\<close>

definition emit_slot :: "ReplayTransport \<Rightarrow> nat \<Rightarrow> nat \<Rightarrow> FrameMeta \<Rightarrow> FrameBatch \<times> u32 list \<Rightarrow> FrameBatch \<times> u32 list" where
  "emit_slot t evt emitted m = (\<lambda>(batch, batch_event).
     (FrameBatch_push_indexed
        \<lparr>fv_ptr = Some (unat (fm_offset m)), fv_len = fm_len m, fv_feed = fm_feed m, fv_blk_base = fm_blk_base m,
         fv_blk_count = fm_blk_count m, fv_valid = fm_valid m, fv_first_seq = fm_first_seq m,
         fv_sess_lo = frame_sess_lo t m, fv_sess_hi = frame_sess_hi t m\<rparr> batch,
      if rt_coalesce t = 1 then batch_event[fb_len batch := of_nat evt] else batch_event))"

definition poll_clamped :: "u64 option \<Rightarrow> ReplayTransport \<Rightarrow> FrameBatch \<Rightarrow> ReplayTransport \<times> FrameBatch \<times> nat" where
  "poll_clamped max_vt t batch =
     (let (t1, n, (batch1, batch_event)) =
            poll_impl (emit_slot t) FrameBatch_capacity max_vt t (FrameBatch_clear batch, rt_batch_event t)
      in if length (rt_meta t) \<le> rt_event_idx t then (t1, batch1, 0)
         else (t1\<lparr>rt_batch_event := batch_event, rt_batch_event_len := fb_len batch1\<rparr>, batch1, fb_len batch1))"

definition poll :: "ReplayTransport \<Rightarrow> FrameBatch \<Rightarrow> ReplayTransport \<times> FrameBatch \<times> nat" where
  "poll t batch = poll_clamped None t batch"

text \<open>Mode 1: an entry carries, beside its values, the position of its block slice in the triple
  store (\<open>None\<close> for the empty slice), which the comparison of the code looks at.\<close>

type_synonym EntryAt = "nat option \<times> FrameEntry"

record WarmEmitCtx =
  wc_out :: "EntryAt list"
  wc_warm :: "EntryAt list"
  wc_idx :: nat
  wc_fixes :: u64
  wc_uncovered :: u64
  wc_sess_lo_tmpl :: u64
  wc_sess_hi_tmpl :: u64
  wc_compute_elig :: bool

definition warm_entry_neq :: "EntryAt \<Rightarrow> EntryAt \<Rightarrow> bool" where
  "warm_entry_neq a b \<longleftrightarrow>
     fe_ptr (snd a) \<noteq> fe_ptr (snd b) \<or> length (fe_bytes (snd a)) \<noteq> length (fe_bytes (snd b)) \<or>
     fst a \<noteq> fst b \<or> length (fe_blocks (snd a)) \<noteq> length (fe_blocks (snd b)) \<or>
     fe_feed (snd a) \<noteq> fe_feed (snd b) \<or> fe_memo (snd a) \<noteq> fe_memo (snd b) \<or>
     fe_first_seq (snd a) \<noteq> fe_first_seq (snd b) \<or> fe_sess_lo (snd a) \<noteq> fe_sess_lo (snd b) \<or>
     fe_sess_hi (snd a) \<noteq> fe_sess_hi (snd b) \<or> fe_elig (snd a) \<noteq> fe_elig (snd b)"

definition blocks_at :: "ReplayTransport \<Rightarrow> u32 \<Rightarrow> u16 \<Rightarrow> BlockTriple list" where
  "blocks_at t blk_base blk_count =
     (if blk_count = 0 then [] else slice (unat blk_base) (unat blk_base + unat blk_count) (rt_triples t))"

definition memo_at :: "u16 \<Rightarrow> u16 \<Rightarrow> FrameMemo option" where
  "memo_at blk_count valid = (if blk_count \<noteq> 0 then Some \<lparr>fm_valid_count = valid\<rparr> else None)"

definition elig_byte :: "bool \<Rightarrow> u64 \<Rightarrow> u64 \<Rightarrow> ReplayTransport \<Rightarrow> FrameMeta \<Rightarrow> u8" where
  "elig_byte compute_elig lo hi t m =
     (fm_feed m AND 3) OR
     (if compute_elig \<and> fm_blk_count m \<noteq> 0 \<and> fm_valid m = fm_blk_count m \<and>
         frame_sess_lo t m = lo \<and> frame_sess_hi t m = hi then 0x80 else 0)"

definition meta_entry :: "bool \<Rightarrow> u64 \<Rightarrow> u64 \<Rightarrow> ReplayTransport \<Rightarrow> FrameMeta \<Rightarrow> EntryAt" where
  "meta_entry compute_elig lo hi t m =
     (if fm_blk_count m = 0 then None else Some (unat (fm_blk_base m)),
      \<lparr>fe_ptr = rt_base t + ucast (fm_offset m), fe_bytes = frame_at t m, fe_feed = fm_feed m,
       fe_blocks = blocks_at t (fm_blk_base m) (fm_blk_count m), fe_memo = memo_at (fm_blk_count m) (fm_valid m),
       fe_first_seq = fm_first_seq m, fe_sess_lo = frame_sess_lo t m, fe_sess_hi = frame_sess_hi t m,
       fe_elig = elig_byte compute_elig lo hi t m\<rparr>)"

definition emit_warm :: "ReplayTransport \<Rightarrow> nat \<Rightarrow> nat \<Rightarrow> FrameMeta \<Rightarrow> WarmEmitCtx \<Rightarrow> WarmEmitCtx" where
  "emit_warm t evt emitted m w =
     (let e = meta_entry (wc_compute_elig w) (wc_sess_lo_tmpl w) (wc_sess_hi_tmpl w) t m; j = wc_idx w;
          w1 = (if j < length (wc_warm w)
            then let w0 = (if warm_entry_neq (wc_warm w ! j) e
                           then w\<lparr>wc_warm := (wc_warm w)[j := e], wc_fixes := wc_fixes w + 1\<rparr> else w)
                 in w0\<lparr>wc_out := (wc_out w0)[emitted := wc_warm w0 ! j]\<rparr>
            else w\<lparr>wc_out := (wc_out w)[emitted := e], wc_uncovered := wc_uncovered w + 1\<rparr>)
      in w1\<lparr>wc_idx := wc_idx w1 + 1\<rparr>)"

definition poll_warm :: "ReplayTransport \<Rightarrow> WarmEmitCtx \<Rightarrow> ReplayTransport \<times> WarmEmitCtx \<times> nat" where
  "poll_warm t w =
     (let (t1, n, w1) = poll_impl (emit_warm t) (min (length (wc_out w)) FrameBatch_capacity) None t w
      in if length (rt_meta t) \<le> rt_event_idx t then (t1, w1, 0) else (t1\<lparr>rt_batch_event_len := 0\<rparr>, w1, n))"

text \<open>Mode 2 only counts.\<close>

definition emit_count :: "nat \<Rightarrow> nat \<Rightarrow> FrameMeta \<Rightarrow> WarmEmitCtx \<Rightarrow> WarmEmitCtx" where
  "emit_count evt emitted m w = w\<lparr>wc_idx := wc_idx w + 1\<rparr>"

definition poll_rxbuild :: "ReplayTransport \<Rightarrow> WarmEmitCtx \<Rightarrow> ReplayTransport \<times> WarmEmitCtx \<times> nat" where
  "poll_rxbuild t w =
     (let (t1, n, w1) = poll_impl emit_count FrameBatch_capacity None t w
      in if length (rt_meta t) \<le> rt_event_idx t then (t1, w1, 0) else (t1\<lparr>rt_batch_event_len := 0\<rparr>, w1, n))"

text \<open>The pass boundary rewrites the session words and the derived bit of the warm entries.\<close>

definition warm_rewrite_session :: "u64 \<Rightarrow> u64 \<Rightarrow> bool \<Rightarrow> EntryAt list \<Rightarrow> EntryAt list" where
  "warm_rewrite_session lo hi compute_elig warm =
     map (\<lambda>(p, e). (p, e\<lparr>fe_sess_lo := lo, fe_sess_hi := hi,
       fe_elig := (fe_elig e AND 3) OR
         (if compute_elig \<and> fe_blocks e \<noteq> [] \<and> fe_memo e = Some \<lparr>fm_valid_count = of_nat (length (fe_blocks e))\<rparr>
          then 0x80 else 0)\<rparr>)) warm"

section \<open>The index of a slot\<close>

definition frame_blocks_memo :: "ReplayTransport \<Rightarrow> FrameView \<Rightarrow> BlockTriple list \<times> FrameMemo option" where
  "frame_blocks_memo t f =
     (if fv_blk_count f = 0 then ([], None)
      else (slice (unat (fv_blk_base f)) (unat (fv_blk_base f) + unat (fv_blk_count f)) (rt_triples t),
            Some \<lparr>fm_valid_count = fv_valid f\<rparr>))"

definition batch_entries :: "ReplayTransport \<Rightarrow> FrameBatch \<Rightarrow> FrameEntry list" where
  "batch_entries t batch =
     map (\<lambda>f. let (blocks, memo) = frame_blocks_memo t f
              in \<lparr>fe_ptr = (case fv_ptr f of None \<Rightarrow> 0 | Some p \<Rightarrow> rt_base t + of_nat p),
                  fe_bytes = FrameView_bytes (rt_frames t) f, fe_feed = fv_feed f, fe_blocks = blocks,
                  fe_memo = memo, fe_first_seq = fv_first_seq f, fe_sess_lo = fv_sess_lo f,
                  fe_sess_hi = fv_sess_hi f, fe_elig = fv_feed f AND 3\<rparr>)
       (FrameBatch_frames batch)"

text \<open>The side tables addressed by batch position.\<close>

definition batch_blocks :: "ReplayTransport \<Rightarrow> nat \<Rightarrow> BlockTriple list" where
  "batch_blocks t pos =
     (if rt_batch_event_len t \<le> pos then []
      else let ev = unat (rt_batch_event t ! pos)
           in if length (rt_meta t) \<le> ev then []
              else let m = rt_meta t ! ev; base = unat (fm_blk_base m); end = base + unat (fm_blk_count m)
                   in if length (rt_triples t) < end then [] else slice base end (rt_triples t))"

definition batch_memo :: "ReplayTransport \<Rightarrow> nat \<Rightarrow> FrameMemo option" where
  "batch_memo t pos =
     (if rt_batch_event_len t \<le> pos then None
      else let ev = unat (rt_batch_event t ! pos)
           in if length (rt_meta t) \<le> ev then None
              else let m = rt_meta t ! ev
                   in if fm_blk_count m = 0 then None
                      else if length (rt_triples t) < unat (fm_blk_base m) + unat (fm_blk_count m) then None
                      else Some \<lparr>fm_valid_count = fm_valid m\<rparr>)"

section \<open>The master array\<close>

definition session_words :: "SessionId \<Rightarrow> u64 \<times> u64" where
  "session_words s = (u64_from_le_bytes (slice 0 8 s), u64_from_le_bytes (slice 2 10 s))"

text \<open>Entry, event index and patchable flag of every frame that is emitted.\<close>

definition build_frame_master :: "bool \<Rightarrow> ReplayTransport \<Rightarrow> (EntryAt \<times> u32 \<times> bool) list" where
  "build_frame_master compute_elig t =
     (let (tmpl_lo, tmpl_hi) = session_words (rt_session t)
      in map (\<lambda>(evt, m). (meta_entry compute_elig tmpl_lo tmpl_hi t m, of_nat evt,
            session_patchable (rt_schedule t) (se_kind (rs_events (rt_schedule t) ! evt))))
          (filter (\<lambda>(evt, m). fm_len m \<noteq> 0) (enumerate 0 (rt_meta t))))"

end
