(* ===== verification/ReplayPatch.thy ===== *)
theory ReplayPatch
  imports ReplayLaw Poll
begin

text \<open>
  Sessions in the blob.  A rendered blob serves every frame under some assignment of sessions to
  regions (\<open>served_ok\<close>); writing a session at a site changes the assignment at that region and
  nothing else.  So a constructed or reset transport serves every event's frame under the
  live session, and prepatching below the consumed-event frontier never changes a frame that
  is still to be read.
\<close>

section \<open>Writing at a site\<close>

lemma slice_put_same:
  assumes "slice off (off + n) xs = a @ r" "length a = length s" "off + n \<le> length xs"
  shows "slice off (off + n) (put off s xs) = s @ r"
proof -
  have d: "take n (drop off xs) = a @ r" using assms(1) by (simp add: slice_def)
  then have l: "length a + length r = n" using assms(3) by (metis add_le_imp_le_diff length_append length_drop length_take min_absorb2 add.commute)
  have "drop (length a) (take n (drop off xs)) = r" by (simp only: d) simp
  then have "take (n - length a) (drop (length a + off) xs) = r" by (simp add: drop_take)
  moreover have "drop off (put off s xs) = s @ drop (off + length s) xs"
    using assms(3) by (simp add: put_def)
  ultimately show ?thesis using assms(2) l by (simp add: slice_def add.commute)
qed

lemma slice_put_other:
  assumes "off + length s \<le> a \<or> b \<le> off" "off + length s \<le> length xs"
  shows "slice a b (put off s xs) = slice a b xs"
  using assms
proof (elim disjE)
  assume "off + length s \<le> a" "off + length s \<le> length xs"
  then show ?thesis by (simp add: slice_def put_def min_def)
next
  assume "b \<le> off" "off + length s \<le> length xs"
  then have "take b (put off s xs) = take b xs" by (simp add: put_def min_def)
  then have "drop a (take b (put off s xs)) = drop a (take b xs)" by simp
  then show ?thesis by (simp add: slice_def drop_take)
qed

definition served_ok ::
    "bytes \<Rightarrow> ReplaySchedule \<Rightarrow> (u32 \<Rightarrow> SessionId) \<Rightarrow> SchedEvent list \<Rightarrow> bytes \<Rightarrow> BlockTriple list \<Rightarrow> FrameMeta list \<Rightarrow> bool" where
  "served_ok gt sched ss evs blob triples meta \<longleftrightarrow> length meta = length evs \<and>
     (\<forall>i < length evs. if rendered gt (evs ! i)
        then region_ok gt (evs ! i) (wire gt sched (ss (fm_offset (meta ! i))) (evs ! i)) blob triples (meta ! i)
        else meta ! i = tombstone (se_feed (evs ! i)))"

lemma meta_ok_served: "meta_ok gt sched s = served_ok gt sched (\<lambda>_. s)"
  by (intro ext) (auto simp: meta_ok_def served_ok_def event_frame_wire split: if_splits)

lemma served_region:
  "served_ok gt sched ss evs blob triples meta \<Longrightarrow> i < length evs \<Longrightarrow> rendered gt (evs ! i) \<Longrightarrow>
     region_ok gt (evs ! i) (wire gt sched (ss (fm_offset (meta ! i))) (evs ! i)) blob triples (meta ! i)"
  by (auto simp: served_ok_def split: if_splits)

lemma served_cong:
  assumes "served_ok gt sched ss evs blob triples meta"
    and "\<And>i. i < length evs \<Longrightarrow> rendered gt (evs ! i) \<Longrightarrow> session_patchable sched (se_kind (evs ! i)) \<Longrightarrow>
      ss' (fm_offset (meta ! i)) = ss (fm_offset (meta ! i))"
  shows "served_ok gt sched ss' evs blob triples meta"
proof -
  have "wire gt sched (ss' (fm_offset (meta ! i))) (evs ! i) = wire gt sched (ss (fm_offset (meta ! i))) (evs ! i)"
    if "i < length evs" "rendered gt (evs ! i)" for i
    using assms(2) [OF that] wire_static [of sched "evs ! i" gt]
    by (cases "session_patchable sched (se_kind (evs ! i))") metis+
  then show ?thesis using assms(1) by (simp add: served_ok_def)
qed

lemma region_ok_rewrite:
  assumes "region_ok gt ev f blob triples m" "length f' = length f" "length blob' = length blob"
    "slice (unat (fm_offset m)) (unat (fm_offset m) + length f) blob' = f'"
  shows "region_ok gt ev f' blob' triples m"
  using assms unfolding region_ok_def by metis

definition split_ok :: "ReplaySchedule \<Rightarrow> bool" where
  "split_ok sched \<longleftrightarrow> (\<forall>p \<in> set_option (rs_session_split sched). length (snd p) = 10)"

lemma sessions_ok_split: "sessions_ok sched s \<longleftrightarrow> length s = 10 \<and> split_ok sched"
  by (simp add: sessions_ok_def split_ok_def)

definition patchable_offset :: "bytes \<Rightarrow> ReplaySchedule \<Rightarrow> SchedEvent list \<Rightarrow> FrameMeta list \<Rightarrow> u32 \<Rightarrow> bool" where
  "patchable_offset gt sched evs meta off \<longleftrightarrow>
     (\<exists>i \<in> readers gt evs meta off. session_patchable sched (se_kind (evs ! i)))"

lemma patch_site_served:
  assumes "served_ok gt sched ss evs blob triples meta" "layout_ok gt evs meta" "split_ok sched"
    and "\<And>off. length (ss off) = 10" "length s = 10" "patchable_offset gt sched evs meta off"
  shows "served_ok gt sched (ss(off := s)) evs (patch_site s (gate, off) blob) triples meta"
    and "length (patch_site s (gate, off) blob) = length blob"
proof -
  obtain j where j: "j < length evs" "rendered gt (evs ! j)" "fm_offset (meta ! j) = off"
    "session_patchable sched (se_kind (evs ! j))"
    using assms(6) by (auto simp: patchable_offset_def readers_def)
  have sk: "sessions_ok sched (ss o')" for o' using assms(3,4) by (simp add: sessions_ok_split)
  note rj = served_region [OF assms(1) j(1,2)]
  have lj: "20 \<le> unat (fm_len (meta ! j))" "unat off + unat (fm_len (meta ! j)) \<le> length blob"
    using rj length_wire [OF sk] j(3) by (simp_all add: region_ok_def)
  then have fit: "unat off + length s \<le> length blob" using assms(5) by simp
  then show len: "length (patch_site s (gate, off) blob) = length blob" by (simp add: patch_site_def)
  have "region_ok gt (evs ! i) (wire gt sched ((ss(off := s)) (fm_offset (meta ! i))) (evs ! i))
      (patch_site s (gate, off) blob) triples (meta ! i)" if i: "i < length evs" "rendered gt (evs ! i)" for i
  proof -
    let ?o = "fm_offset (meta ! i)"
    note ri = served_region [OF assms(1) i]
    have li: "unat (fm_len (meta ! i)) = length (wire gt sched (ss ?o) (evs ! i))" "20 \<le> unat (fm_len (meta ! i))"
      using ri length_wire [OF sk] by (simp_all add: region_ok_def)
    show ?thesis
    proof (cases "?o = off")
      case True
      then have k: "se_kind (evs ! i) = se_kind (evs ! j)"
        using assms(2) i j li(2) lj(1) unfolding layout_ok_def by fastforce
      have p: "session_patchable sched (se_kind (evs ! i))" using j(4) k by simp
      have "slice (unat off) (unat off + length (wire gt sched (ss off) (evs ! i))) (put (unat off) s blob)
          = s @ wire_rest gt (evs ! i)"
        using ri True assms(4) [of off] assms(5) wire_patch [OF p]
        by (intro slice_put_same [where a = "ss off"]) (simp_all add: region_ok_def)
      moreover have "length (wire gt sched s (evs ! i)) = length (wire gt sched (ss off) (evs ! i))"
        using wire_patch [OF p] assms(4,5) by simp
      ultimately show ?thesis using True wire_patch [OF p]
        by (intro region_ok_rewrite [OF ri _ len]) (simp_all add: patch_site_def)
    next
      case False
      then have "unat ?o + unat (fm_len (meta ! i)) \<le> unat off \<or> unat off + unat (fm_len (meta ! j)) \<le> unat ?o"
        using assms(2) i j unfolding layout_ok_def by metis
      then have "unat off + length s \<le> unat ?o \<or> unat ?o + length (wire gt sched (ss ?o) (evs ! i)) \<le> unat off"
        using li(1) lj(1) assms(5) by auto
      then have "slice (unat ?o) (unat ?o + length (wire gt sched (ss ?o) (evs ! i))) (put (unat off) s blob)
          = slice (unat ?o) (unat ?o + length (wire gt sched (ss ?o) (evs ! i))) blob"
        using fit by (rule slice_put_other)
      then show ?thesis using ri False
        by (intro region_ok_rewrite [OF ri _ len]) (simp_all add: patch_site_def region_ok_def)
    qed
  qed
  then show "served_ok gt sched (ss(off := s)) evs (patch_site s (gate, off) blob) triples meta"
    using assms(1) by (simp add: served_ok_def)
qed

lemma patch_all_served:
  assumes "served_ok gt sched ss evs blob triples meta" "layout_ok gt evs meta" "split_ok sched"
    and "\<And>off. length (ss off) = 10" "length s = 10"
    and "\<And>p. p \<in> set sites \<Longrightarrow> patchable_offset gt sched evs meta (snd p)"
  shows "served_ok gt sched (\<lambda>off. if off \<in> snd ` set sites then s else ss off) evs (patch_all s sites blob) triples meta"
  using assms
proof (induction sites arbitrary: blob ss)
  case Nil
  then show ?case by (simp add: patch_all_def)
next
  case (Cons p sites)
  obtain gate off where p: "p = (gate, off)" by (cases p)
  have 1: "served_ok gt sched (ss(off := s)) evs (patch_site s p blob) triples meta"
    unfolding p using Cons.prems Cons.prems(6) [of p] by (intro patch_site_served(1)) (simp_all add: p)
  have "served_ok gt sched (\<lambda>off'. if off' \<in> snd ` set sites then s else (ss(off := s)) off') evs
      (patch_all s sites (patch_site s p blob)) triples meta"
    by (rule Cons.IH [OF 1]) (use Cons.prems in auto)
  moreover have "(\<lambda>off'. if off' \<in> snd ` set sites then s else (ss(off := s)) off')
      = (\<lambda>off'. if off' \<in> snd ` set (p # sites) then s else ss off')"
    by (auto simp: p fun_eq_iff)
  ultimately show ?case by (simp add: patch_all_def)
qed

section \<open>Group boundaries\<close>

definition groups_ok :: "u64 list \<Rightarrow> u32 list \<Rightarrow> bool" where
  "groups_ok vts group_end \<longleftrightarrow> length group_end = length vts \<and>
     (\<forall>k < length vts. k < unat (group_end ! k) \<and> unat (group_end ! k) \<le> length vts)"

lemma run_end_le: "j \<le> length vts \<Longrightarrow> run_end vts v j \<le> length vts"
  by (induction vts v j rule: run_end.induct) (subst run_end.simps, auto)

lemma nth_put:
  "off + length xs \<le> length ys \<Longrightarrow> k < length ys \<Longrightarrow>
     put off xs ys ! k = (if off \<le> k \<and> k < off + length xs then xs ! (k - off) else ys ! k)"
  by (auto simp: put_def nth_append min_def)

lemma group_sweep_ok:
  assumes "length vts < 2 ^ 32" "length ge = length vts" "i \<le> length vts"
    "\<forall>k < i. k < unat (ge ! k) \<and> unat (ge ! k) \<le> length vts"
  shows "groups_ok vts (group_sweep vts i ge)"
  using assms
proof (induction vts i ge rule: group_sweep.induct)
  case (1 vts i ge)
  show ?case
  proof (cases "i < length vts")
    case True
    define j where "j = run_end vts (vts ! i) (i + 1)"
    have j: "i < j" "j \<le> length vts"
      using run_end_ge [of "i + 1" vts "vts ! i"] run_end_le [of "i + 1" vts "vts ! i"] True by (simp_all add: j_def)
    have u: "unat (of_nat j :: u32) = j" using j(2) "1.prems"(1) by (intro unat_of_nat_u32) simp
    have fit: "i + length (replicate (j - i) (of_nat j :: u32)) \<le> length ge" using j "1.prems"(2) by simp
    have "k < unat (put i (replicate (j - i) (of_nat j)) ge ! k) \<and> unat (put i (replicate (j - i) (of_nat j)) ge ! k) \<le> length vts"
      if "k < j" for k
      using that j u "1.prems"(2,4) nth_put [OF fit, of k] by (cases "i \<le> k") auto
    then have "groups_ok vts (group_sweep vts j (put i (replicate (j - i) (of_nat j)) ge))"
      using "1.IH" [OF True j_def] "1.prems"(1,2) j fit by simp
    then show ?thesis using True by (subst group_sweep.simps) (simp add: j_def Let_def)
  next
    case False
    then show ?thesis using "1.prems" by (subst group_sweep.simps) (auto simp: groups_ok_def)
  qed
qed

section \<open>Transports that run\<close>

definition directory_ok :: "bytes \<Rightarrow> (u32 \<Rightarrow> SessionId) \<Rightarrow> ReplayTransport \<Rightarrow> bool" where
  "directory_ok gt ss t \<longleftrightarrow> split_ok (rt_schedule t) \<and> (\<forall>off. length (ss off) = 10) \<and>
     served_ok gt (rt_schedule t) ss (rs_events (rt_schedule t)) (rt_frames t) (rt_triples t) (rt_meta t) \<and>
     layout_ok gt (rs_events (rt_schedule t)) (rt_meta t) \<and>
     sites_ok gt (rt_schedule t) (rs_events (rt_schedule t)) (rt_meta t) (set (rt_patch_evts t)) \<and>
     rt_vts t = map se_release_vt (rs_events (rt_schedule t)) \<and>
     groups_ok (map se_release_vt (rs_events (rt_schedule t))) (rt_group_end t) \<and>
     1 \<le> rt_coalesce t"

text \<open>The bounds of the directory's 32-bit fields.\<close>

definition replay_bounds :: "bytes \<Rightarrow> ReplaySchedule \<Rightarrow> bool" where
  "replay_bounds gt sched \<longleftrightarrow> length gt < 2 ^ 64 \<and> ARENA_SLOT_SIZE * length (rs_events sched) < 2 ^ 32 \<and> split_ok sched"

lemma sweep_events_ok:
  assumes "sweep_inv gt sched evs b" "sessions_ok sched s" "length gt < 2 ^ 64" "1500 * length (evs @ rest) < 2 ^ 32"
  shows "sweep_inv gt sched (evs @ rest) (sweep_events gt sched s (length evs) rest b)"
  using assms
proof (induction rest arbitrary: evs b)
  case Nil
  then show ?case by simp
next
  case (Cons ev rest)
  have "sweep_inv gt sched (evs @ [ev]) (sweep_event gt sched s (length evs) ev b)"
    using Cons.prems by (intro sweep_event_ok) simp_all
  from Cons.IH [OF this] Cons.prems show ?case by simp
qed

lemma sweep_start_ok: "sweep_inv gt sched [] Sweep_start"
  by (auto simp: sweep_inv_def meta_ok_def layout_ok_def sites_inv_def Sweep_start_def cursor_ok_def
      Cursor_default_def tape_offset_def)

lemma sites_ok_offset:
  "sites_ok gt sched evs meta sites \<Longrightarrow> p \<in> sites \<Longrightarrow> patchable_offset gt sched evs meta (snd p)"
  by (cases p) (auto simp: sites_ok_def patchable_offset_def)

lemma patch_sessions_ok:
  assumes "directory_ok gt ss t" "length (rt_session t) = 10"
  shows "directory_ok gt (\<lambda>_. rt_session t) (patch_sessions t)"
proof -
  let ?e = "rs_events (rt_schedule t)"
  note d = assms(1) [unfolded directory_ok_def]
  have "served_ok gt (rt_schedule t) (\<lambda>off. if off \<in> snd ` set (rt_patch_evts t) then rt_session t else ss off) ?e
      (patch_all (rt_session t) (rt_patch_evts t) (rt_frames t)) (rt_triples t) (rt_meta t)"
    using d assms(2) sites_ok_offset by (intro patch_all_served) blast+
  then have "served_ok gt (rt_schedule t) (\<lambda>_. rt_session t) ?e
      (patch_all (rt_session t) (rt_patch_evts t) (rt_frames t)) (rt_triples t) (rt_meta t)"
  proof (rule served_cong)
    fix i
    assume "i < length ?e" "rendered gt (?e ! i)" "session_patchable (rt_schedule t) (se_kind (?e ! i))"
    then have "fm_offset (rt_meta t ! i) \<in> snd ` set (rt_patch_evts t)"
      using d by (auto simp: sites_ok_def)
    then show "rt_session t = (if fm_offset (rt_meta t ! i) \<in> snd ` set (rt_patch_evts t)
        then rt_session t else ss (fm_offset (rt_meta t ! i)))" by simp
  qed
  then show ?thesis using d assms(2) by (simp add: directory_ok_def patch_sessions_def)
qed

lemma new_directory_ok:
  assumes "replay_bounds gt sched" "length s = 10"
  shows "directory_ok gt (\<lambda>_. s) (ReplayTransport_new base gt sched s)"
proof -
  define b where "b = sweep_events gt sched s 0 (rs_events sched) Sweep_start"
  define t where "t = \<lparr>rt_schedule = sched, rt_event_idx = 0, rt_virtual_clock = first_vt sched, rt_base = base,
            rt_frames = sw_blob b, rt_meta = sw_meta b, rt_vts = sw_vts b,
            rt_group_end = group_sweep (sw_vts b) 0 (replicate (length (sw_vts b)) 0),
            rt_triples = sw_triples b, rt_patch_evts = final_patch_evts sched b, rt_coalesce = 1,
            rt_body_prefetch = True, rt_session = s, rt_clock_clamp = None,
            rt_batch_event = replicate 256 0, rt_batch_event_len = 0,
            rt_aliased_frames = sw_aliased_frames b\<rparr>"
  have new: "ReplayTransport_new base gt sched s = patch_sessions t"
    by (simp add: ReplayTransport_new_def Let_def b_def t_def)
  have bd: "length gt < 2 ^ 64" "1500 * length (rs_events sched) < 2 ^ 32" "split_ok sched"
    using assms(1) by (simp_all add: replay_bounds_def ARENA_SLOT_SIZE_def)
  have so: "sessions_ok sched s" "sessions_ok sched zero10"
    using assms(2) bd(3) by (simp_all add: sessions_ok_split)
  have inv: "sweep_inv gt sched (rs_events sched) b"
    using sweep_events_ok [OF sweep_start_ok so(1) bd(1), of "rs_events sched"] bd(2) by (simp add: b_def)
  note i = inv [unfolded sweep_inv_def]
  have "sites_ok gt sched (rs_events sched) (sw_meta b) (set (sw_patch_evts b @ alias_sites sched (sw_alias_map b)))"
    using i so(2) by (intro sites_inv_final) blast+
  moreover have "groups_ok (sw_vts b) (group_sweep (sw_vts b) 0 (replicate (length (sw_vts b)) 0))"
    using i bd(2) by (intro group_sweep_ok) simp_all
  ultimately have "directory_ok gt (\<lambda>_. zero10) t"
    using i bd by (simp add: directory_ok_def t_def final_patch_evts_def meta_ok_served)
  from patch_sessions_ok [OF this] show ?thesis
    unfolding new using assms(2) by (simp add: t_def)
qed

lemma directory_upd [simp]:
  "directory_ok gt ss (t\<lparr>rt_event_idx := a\<rparr>) = directory_ok gt ss t"
  "directory_ok gt ss (t\<lparr>rt_virtual_clock := b\<rparr>) = directory_ok gt ss t"
  "directory_ok gt ss (t\<lparr>rt_session := c\<rparr>) = directory_ok gt ss t"
  "directory_ok gt ss (t\<lparr>rt_clock_clamp := d\<rparr>) = directory_ok gt ss t"
  "directory_ok gt ss (t\<lparr>rt_batch_event := e\<rparr>) = directory_ok gt ss t"
  "directory_ok gt ss (t\<lparr>rt_batch_event_len := f\<rparr>) = directory_ok gt ss t"
  "directory_ok gt ss (t\<lparr>rt_body_prefetch := g\<rparr>) = directory_ok gt ss t"
  by (simp_all add: directory_ok_def)

subsection \<open>Paced prepatching\<close>

lemma patch_all_append: "patch_all s (xs @ ys) frames = patch_all s ys (patch_all s xs frames)"
  by (simp add: patch_all_def)

lemma slice_Cons_nth: "i < j \<Longrightarrow> j \<le> length xs \<Longrightarrow> slice i j xs = xs ! i # slice (Suc i) j xs"
  using Cons_nth_drop_Suc [of i xs] Suc_diff_Suc [of i j] by (simp add: slice_def flip: take_Suc_Cons)

lemma patch_range_loop_slice:
  assumes "idx + n \<le> length sites" "patch_range_loop s upto_evt sites idx n frames = (frames', idx')"
  shows "idx \<le> idx' \<and> idx' \<le> idx + n \<and> frames' = patch_all s (slice idx idx' sites) frames \<and>
    (\<forall>p \<in> set (slice idx idx' sites). unat (fst p) < upto_evt)"
  using assms
proof (induction n arbitrary: idx frames)
  case 0
  then show ?case by (simp add: patch_all_def slice_def)
next
  case (Suc n)
  show ?case
  proof (cases "upto_evt \<le> unat (fst (sites ! idx))")
    case True
    then show ?thesis using Suc.prems by (simp add: patch_all_def slice_def)
  next
    case False
    then have "patch_range_loop s upto_evt sites (Suc idx) n (patch_site s (sites ! idx) frames) = (frames', idx')"
      using Suc.prems(2) by simp
    from Suc.IH [OF _ this] Suc.prems(1)
    have ih: "Suc idx \<le> idx'" "idx' \<le> Suc idx + n"
      "frames' = patch_all s (slice (Suc idx) idx' sites) (patch_site s (sites ! idx) frames)"
      "\<forall>p \<in> set (slice (Suc idx) idx' sites). unat (fst p) < upto_evt" by simp_all
    have "slice idx idx' sites = sites ! idx # slice (Suc idx) idx' sites"
      using ih(1,2) Suc.prems(1) by (intro slice_Cons_nth) simp_all
    then show ?thesis using ih False by (simp add: patch_all_def)
  qed
qed

lemma patch_range_slice:
  assumes "patch_range s from_idx upto_evt budget t = (t', idx')"
  shows "from_idx \<le> idx' \<and> (from_idx \<le> length (rt_patch_evts t) \<longrightarrow> idx' \<le> length (rt_patch_evts t)) \<and>
    t' = t\<lparr>rt_frames := patch_all s (slice from_idx idx' (rt_patch_evts t)) (rt_frames t)\<rparr> \<and>
    (\<forall>p \<in> set (slice from_idx idx' (rt_patch_evts t)). unat (fst p) < upto_evt)"
proof -
  let ?n = "min budget (length (rt_patch_evts t) - from_idx)"
  obtain frames idx where l: "patch_range_loop s upto_evt (rt_patch_evts t) from_idx ?n (rt_frames t) = (frames, idx)"
    by fastforce
  have r: "t' = t\<lparr>rt_frames := frames\<rparr>" "idx' = idx"
    using assms l by (simp_all add: patch_range_def Let_def)
  show ?thesis
  proof (cases "from_idx \<le> length (rt_patch_evts t)")
    case True
    then have "from_idx + ?n \<le> length (rt_patch_evts t)" by simp
    from patch_range_loop_slice [OF this l] show ?thesis using r by auto
  next
    case False
    then have "?n = 0" by simp
    then show ?thesis using l r False by (simp add: patch_all_def slice_def)
  qed
qed

text \<open>The RX thread's prepatch: calls with a growing frontier, each from the cursor the last
  one returned.\<close>

fun prepatch :: "SessionId \<Rightarrow> (nat \<times> nat) list \<Rightarrow> ReplayTransport \<times> nat \<Rightarrow> ReplayTransport \<times> nat" where
  "prepatch s [] p = p"
| "prepatch s ((upto_evt, budget) # calls) (t, idx) = prepatch s calls (patch_range s idx upto_evt budget t)"

lemma slice_slice_append: "a \<le> b \<Longrightarrow> b \<le> c \<Longrightarrow> slice a b xs @ slice b c xs = slice a c xs"
  using take_add [of "b - a" "c - b" "drop a xs"] by (simp add: slice_def)

lemma prepatch_slice:
  "prepatch s calls (t, idx) = (t', idx') \<Longrightarrow> idx \<le> idx' \<and>
     t' = t\<lparr>rt_frames := patch_all s (slice idx idx' (rt_patch_evts t)) (rt_frames t)\<rparr>"
proof (induction calls arbitrary: t idx)
  case Nil
  then show ?case by (simp add: patch_all_def slice_def)
next
  case (Cons c calls)
  obtain upto_evt budget where c: "c = (upto_evt, budget)" by (cases c)
  obtain t1 idx1 where p: "patch_range s idx upto_evt budget t = (t1, idx1)" by fastforce
  note r = patch_range_slice [OF p]
  have "prepatch s calls (t1, idx1) = (t', idx')" using Cons.prems by (simp add: c p)
  from Cons.IH [OF this] have ih: "idx1 \<le> idx'"
    "t' = t1\<lparr>rt_frames := patch_all s (slice idx1 idx' (rt_patch_evts t1)) (rt_frames t1)\<rparr>" by simp_all
  have "slice idx idx' (rt_patch_evts t) = slice idx idx1 (rt_patch_evts t) @ slice idx1 idx' (rt_patch_evts t)"
    using r ih(1) by (simp add: slice_slice_append)
  then show ?case using r ih by (simp add: patch_all_append)
qed

lemma patch_range_ok:
  assumes "directory_ok gt ss t" "length s = 10" "patch_range s from_idx upto_evt budget t = (t', idx')"
  shows "\<exists>ss'. directory_ok gt ss' t' \<and>
    (\<forall>i < length (rs_events (rt_schedule t)). upto_evt \<le> i \<longrightarrow> rendered gt (rs_events (rt_schedule t) ! i) \<longrightarrow>
       ss' (fm_offset (rt_meta t ! i)) = ss (fm_offset (rt_meta t ! i)))"
proof -
  let ?e = "rs_events (rt_schedule t)" and ?sl = "slice from_idx idx' (rt_patch_evts t)"
  define ss' where "ss' = (\<lambda>off. if off \<in> snd ` set ?sl then s else ss off)"
  note d = assms(1) [unfolded directory_ok_def] and r = patch_range_slice [OF assms(3)]
  have sub: "set ?sl \<subseteq> set (rt_patch_evts t)"
    by (auto simp: slice_def dest!: in_set_takeD in_set_dropD)
  have "served_ok gt (rt_schedule t) ss' ?e (patch_all s ?sl (rt_frames t)) (rt_triples t) (rt_meta t)"
    unfolding ss'_def using d assms(2) sites_ok_offset sub by (intro patch_all_served) blast+
  then have "directory_ok gt ss' t'" using d r assms(2) by (simp add: directory_ok_def ss'_def)
  moreover have "ss' (fm_offset (rt_meta t ! i)) = ss (fm_offset (rt_meta t ! i))"
    if i: "i < length ?e" "upto_evt \<le> i" "rendered gt (?e ! i)" for i
  proof -
    have "fm_offset (rt_meta t ! i) \<notin> snd ` set ?sl"
    proof
      assume "fm_offset (rt_meta t ! i) \<in> snd ` set ?sl"
      then obtain g where g: "(g, fm_offset (rt_meta t ! i)) \<in> set ?sl" by auto
      then have "(g, fm_offset (rt_meta t ! i)) \<in> set (rt_patch_evts t)" using sub by blast
      moreover have "i \<in> readers gt ?e (rt_meta t) (fm_offset (rt_meta t ! i))" using i by (simp add: readers_def)
      ultimately have "i \<le> unat g" using d unfolding sites_ok_def by blast
      moreover have "unat g < upto_evt" using r g by fastforce
      ultimately show False using i(2) by simp
    qed
    then show ?thesis by (simp add: ss'_def)
  qed
  ultimately show ?thesis by blast
qed

section \<open>Every transport of a run\<close>

lemma poll_impl_static:
  "fst (poll_impl emit cap max_vt t a)
     = t\<lparr>rt_virtual_clock := rt_virtual_clock (fst (poll_impl emit cap max_vt t a)),
         rt_event_idx := rt_event_idx (fst (poll_impl emit cap max_vt t a))\<rparr>"
  by (simp add: poll_impl_def Let_def split: prod.split)

lemma poll_directory:
  "directory_ok gt ss (fst (poll_clamped max_vt t batch)) = directory_ok gt ss t"
  "directory_ok gt ss (fst (poll_warm t w)) = directory_ok gt ss t"
  "directory_ok gt ss (fst (poll_rxbuild t w)) = directory_ok gt ss t"
  "rt_schedule (fst (poll_clamped max_vt t batch)) = rt_schedule t"
  "rt_schedule (fst (poll_warm t w)) = rt_schedule t"
  "rt_schedule (fst (poll_rxbuild t w)) = rt_schedule t"
proof -
  have s: "directory_ok gt ss (fst p) = directory_ok gt ss t \<and> rt_schedule (fst p) = rt_schedule t"
    if "p = poll_impl emit cap mx t a" for emit :: "nat \<Rightarrow> nat \<Rightarrow> FrameMeta \<Rightarrow> 'x \<Rightarrow> 'x" and cap mx a p
    using that by (simp, subst (1 2) poll_impl_static, simp)
  have c: "directory_ok gt ss (fst (poll_clamped max_vt t batch)) = directory_ok gt ss t \<and>
      rt_schedule (fst (poll_clamped max_vt t batch)) = rt_schedule t"
    using s [OF refl, of "emit_slot t" FrameBatch_capacity max_vt "(FrameBatch_clear batch, rt_batch_event t)"]
    by (auto simp: poll_clamped_def Let_def split: prod.split)
  have w: "directory_ok gt ss (fst (poll_warm t w)) = directory_ok gt ss t \<and> rt_schedule (fst (poll_warm t w)) = rt_schedule t"
    using s [OF refl, of "emit_warm t" "min (length (wc_out w)) FrameBatch_capacity" None w]
    by (auto simp: poll_warm_def Let_def split: prod.split)
  have r: "directory_ok gt ss (fst (poll_rxbuild t w)) = directory_ok gt ss t \<and> rt_schedule (fst (poll_rxbuild t w)) = rt_schedule t"
    using s [OF refl, of emit_count FrameBatch_capacity None w]
    by (auto simp: poll_rxbuild_def Let_def split: prod.split)
  show "directory_ok gt ss (fst (poll_clamped max_vt t batch)) = directory_ok gt ss t"
    "directory_ok gt ss (fst (poll_warm t w)) = directory_ok gt ss t"
    "directory_ok gt ss (fst (poll_rxbuild t w)) = directory_ok gt ss t"
    "rt_schedule (fst (poll_clamped max_vt t batch)) = rt_schedule t"
    "rt_schedule (fst (poll_warm t w)) = rt_schedule t"
    "rt_schedule (fst (poll_rxbuild t w)) = rt_schedule t"
    using c w r by blast+
qed

lemma poll_impl_session: "rt_session (fst (poll_impl emit cap max_vt t a)) = rt_session t"
  by (subst poll_impl_static) simp

inductive replay_reach :: "bytes \<Rightarrow> ReplaySchedule \<Rightarrow> ReplayTransport \<Rightarrow> bool" for gt sched where
  reach_new: "length s = 10 \<Longrightarrow> replay_reach gt sched (ReplayTransport_new base gt sched s)"
| reach_reset: "replay_reach gt sched t \<Longrightarrow> length s = 10 \<Longrightarrow> replay_reach gt sched (reset s t)"
| reach_cursors: "replay_reach gt sched t \<Longrightarrow> length s = 10 \<Longrightarrow> replay_reach gt sched (reset_cursors s t)"
| reach_patch: "replay_reach gt sched t \<Longrightarrow> length s = 10 \<Longrightarrow>
    replay_reach gt sched (fst (patch_range s from_idx upto_evt budget t))"
| reach_prepatched: "replay_reach gt sched t \<Longrightarrow> length s = 10 \<Longrightarrow> replay_reach gt sched (reset_prepatched s from_idx t)"
| reach_poll: "replay_reach gt sched t \<Longrightarrow> replay_reach gt sched (fst (poll_clamped max_vt t batch))"
| reach_warm: "replay_reach gt sched t \<Longrightarrow> replay_reach gt sched (fst (poll_warm t w))"
| reach_rxbuild: "replay_reach gt sched t \<Longrightarrow> replay_reach gt sched (fst (poll_rxbuild t w))"
| reach_coalesce: "replay_reach gt sched t \<Longrightarrow> replay_reach gt sched (set_poll_coalesce k t)"
| reach_clamp: "replay_reach gt sched t \<Longrightarrow> replay_reach gt sched (set_clock_clamp clamp t)"
| reach_prefetch: "replay_reach gt sched t \<Longrightarrow> replay_reach gt sched (set_body_prefetch on t)"

lemma reach_directory:
  assumes "replay_reach gt sched t" "replay_bounds gt sched"
  shows "rt_schedule t = sched \<and> length (rt_session t) = 10 \<and> (\<exists>ss. directory_ok gt ss t)"
  using assms(1)
proof (induction rule: replay_reach.induct)
  case (reach_new s base)
  have "rt_schedule (ReplayTransport_new base gt sched s) = sched" "rt_session (ReplayTransport_new base gt sched s) = s"
    by (simp_all add: ReplayTransport_new_def Let_def patch_sessions_def)
  then show ?case using new_directory_ok [OF assms(2) reach_new, of base] reach_new by auto
next
  case (reach_reset t s)
  then obtain ss where "directory_ok gt ss t" by blast
  then have "directory_ok gt (\<lambda>_. s) (reset s t)"
    using patch_sessions_ok [of gt ss "t\<lparr>rt_event_idx := 0, rt_virtual_clock := first_vt (rt_schedule t),
       rt_session := s, rt_clock_clamp := None\<rparr>"] reach_reset by (simp add: reset_def)
  then show ?case using reach_reset by (auto simp: reset_def patch_sessions_def)
next
  case (reach_cursors t s)
  then show ?case by (auto simp: reset_cursors_def)
next
  case (reach_patch t s from_idx upto_evt budget)
  obtain t' idx' where p: "patch_range s from_idx upto_evt budget t = (t', idx')" by fastforce
  from reach_patch obtain ss where "directory_ok gt ss t" by blast
  from patch_range_ok [OF this reach_patch(2) p] patch_range_slice [OF p] reach_patch.IH show ?case by (auto simp: p)
next
  case (reach_prepatched t s from_idx)
  then obtain ss where d: "directory_ok gt ss t" by blast
  let ?sl = "drop from_idx (rt_patch_evts t)"
  have "served_ok gt (rt_schedule t) (\<lambda>off. if off \<in> snd ` set ?sl then s else ss off) (rs_events (rt_schedule t))
      (patch_all s ?sl (rt_frames t)) (rt_triples t) (rt_meta t)"
    using d [unfolded directory_ok_def] reach_prepatched(2) sites_ok_offset set_drop_subset [of from_idx "rt_patch_evts t"]
    by (intro patch_all_served) blast+
  then have "directory_ok gt (\<lambda>off. if off \<in> snd ` set ?sl then s else ss off) (reset_prepatched s from_idx t)"
    using d reach_prepatched(2) by (simp add: directory_ok_def reset_prepatched_def Let_def)
  then show ?case using reach_prepatched by (auto simp: reset_prepatched_def Let_def)
next
  case (reach_poll t max_vt batch)
  have "rt_session (fst (poll_clamped max_vt t batch)) = rt_session t"
    using poll_impl_session [of "emit_slot t" FrameBatch_capacity max_vt t "(FrameBatch_clear batch, rt_batch_event t)"]
    by (auto simp: poll_clamped_def Let_def split: prod.split)
  then show ?case using reach_poll by (simp add: poll_directory)
next
  case (reach_warm t w)
  have "rt_session (fst (poll_warm t w)) = rt_session t"
    using poll_impl_session [of "emit_warm t" "min (length (wc_out w)) FrameBatch_capacity" None t w]
    by (auto simp: poll_warm_def Let_def split: prod.split)
  then show ?case using reach_warm by (simp add: poll_directory)
next
  case (reach_rxbuild t w)
  have "rt_session (fst (poll_rxbuild t w)) = rt_session t"
    using poll_impl_session [of emit_count FrameBatch_capacity None t w]
    by (auto simp: poll_rxbuild_def Let_def split: prod.split)
  then show ?case using reach_rxbuild by (simp add: poll_directory)
next
  case (reach_coalesce t k)
  then show ?case by (auto simp: set_poll_coalesce_def directory_ok_def)
next
  case (reach_clamp t clamp)
  then show ?case by (auto simp: set_clock_clamp_def)
next
  case (reach_prefetch t on)
  then show ?case by (auto simp: set_body_prefetch_def)
qed

lemma directory_frame:
  assumes "directory_ok gt ss t" "i < length (rs_events (rt_schedule t))" "rendered gt (rs_events (rt_schedule t) ! i)"
  shows "frame_at t (rt_meta t ! i)
    = wire gt (rt_schedule t) (ss (fm_offset (rt_meta t ! i))) (rs_events (rt_schedule t) ! i)"
  using served_region [of gt "rt_schedule t" ss "rs_events (rt_schedule t)" "rt_frames t" "rt_triples t" "rt_meta t" i] assms
  by (simp add: directory_ok_def region_ok_def frame_at_def)

lemma directory_tombstone:
  assumes "directory_ok gt ss t" "i < length (rs_events (rt_schedule t))" "\<not> rendered gt (rs_events (rt_schedule t) ! i)"
  shows "rt_meta t ! i = tombstone (se_feed (rs_events (rt_schedule t) ! i))"
  using assms by (simp add: directory_ok_def served_ok_def)

lemma directory_live:
  assumes "directory_ok gt ss t" "i < length (rs_events (rt_schedule t))"
  shows "fm_len (rt_meta t ! i) = 0 \<longleftrightarrow> \<not> rendered gt (rs_events (rt_schedule t) ! i)"
proof (cases "rendered gt (rs_events (rt_schedule t) ! i)")
  case True
  have "sessions_ok (rt_schedule t) (ss o')" for o'
    using assms(1) by (simp add: directory_ok_def sessions_ok_split)
  then have "20 \<le> unat (fm_len (rt_meta t ! i))"
    using served_region [of gt "rt_schedule t" ss "rs_events (rt_schedule t)" "rt_frames t" "rt_triples t" "rt_meta t" i]
      assms True length_wire by (fastforce simp: directory_ok_def region_ok_def)
  then show ?thesis using True by auto
next
  case False
  then show ?thesis using directory_tombstone [OF assms False] by (simp add: tombstone_def)
qed

lemma reset_directory:
  assumes "directory_ok gt ss t" "length s = 10"
  shows "directory_ok gt (\<lambda>_. s) (reset s t)"
  using patch_sessions_ok [of gt ss "t\<lparr>rt_event_idx := 0, rt_virtual_clock := first_vt (rt_schedule t),
       rt_session := s, rt_clock_clamp := None\<rparr>"] assms by (simp add: reset_def)

lemma reset_simps [simp]:
  "rt_schedule (reset s t) = rt_schedule t" "rt_meta (reset s t) = rt_meta t" "rt_triples (reset s t) = rt_triples t"
  "rt_vts (reset s t) = rt_vts t" "rt_event_idx (reset s t) = 0" "rt_clock_clamp (reset s t) = None"
  "rt_coalesce (reset s t) = rt_coalesce t" "rt_session (reset s t) = s"
  "rt_virtual_clock (reset s t) = first_vt (rt_schedule t)" "rt_base (reset s t) = rt_base t"
  by (simp_all add: reset_def patch_sessions_def)

section \<open>Properties\<close>

text \<open>C17: a reset transport serves the schedule.  From every transport a run can reach, whatever
  was polled, prepatched or reset before, \<open>reset\<close> leaves a blob in which the directory entry of
  each event locates exactly the wire form of its frame under the new session (under the
  second session past a split), shared regions included, with the block triples of the frame
  and its exact valid prefix; an event that does not fit a slot or the tape is a tombstone.\<close>

theorem reset_serves_frames:
  assumes "replay_reach gt sched t" and "replay_bounds gt sched" and "length s = 10"
  shows "\<forall>i < length (rs_events sched).
    (case event_frame gt sched s (rs_events sched ! i) of
       None \<Rightarrow> fm_len (rt_meta (reset s t) ! i) = 0
     | Some f \<Rightarrow> frame_at (reset s t) (rt_meta (reset s t) ! i) = f \<and>
         fm_feed (rt_meta (reset s t) ! i) = se_feed (rs_events sched ! i) \<and>
         (packet_count (se_kind (rs_events sched ! i)) \<noteq> 0 \<longrightarrow>
            blocks_at (reset s t) (fm_blk_base (rt_meta (reset s t) ! i)) (fm_blk_count (rt_meta (reset s t) ! i))
              = frame_triples (packet_first_seq (se_kind (rs_events sched ! i))) 20 (event_msgs gt (se_kind (rs_events sched ! i))) \<and>
            memo_ok (memo_at (fm_blk_count (rt_meta (reset s t) ! i)) (fm_valid (rt_meta (reset s t) ! i)))
              (event_msgs gt (se_kind (rs_events sched ! i)))))"
proof (intro allI impI)
  fix i
  assume i: "i < length (rs_events sched)"
  obtain ss where r: "rt_schedule t = sched" "directory_ok gt ss t"
    using reach_directory [OF assms(1,2)] by blast
  have d: "directory_ok gt (\<lambda>_. s) (reset s t)" using r(2) assms(3) by (rule reset_directory)
  have j: "i < length (rs_events (rt_schedule (reset s t)))" using i r(1) by simp
  let ?ev = "rs_events sched ! i" and ?m = "rt_meta (reset s t) ! i"
  show "case event_frame gt sched s ?ev of
       None \<Rightarrow> fm_len ?m = 0
     | Some f \<Rightarrow> frame_at (reset s t) ?m = f \<and> fm_feed ?m = se_feed ?ev \<and>
         (packet_count (se_kind ?ev) \<noteq> 0 \<longrightarrow>
            blocks_at (reset s t) (fm_blk_base ?m) (fm_blk_count ?m)
              = frame_triples (packet_first_seq (se_kind ?ev)) 20 (event_msgs gt (se_kind ?ev)) \<and>
            memo_ok (memo_at (fm_blk_count ?m) (fm_valid ?m)) (event_msgs gt (se_kind ?ev)))"
  proof (cases "rendered gt ?ev")
    case True
    then show ?thesis
      using served_region [of gt sched "\<lambda>_. s" "rs_events sched" "rt_frames (reset s t)" "rt_triples (reset s t)" "rt_meta (reset s t)" i]
        directory_frame [OF d j] d r(1) i
      by (auto simp: event_frame_wire directory_ok_def region_ok_def blocks_at_def memo_at_def memo_ok_def)
  next
    case False
    then show ?thesis using directory_live [OF d j] r(1) by (simp add: event_frame_wire)
  qed
qed

text \<open>A sample schedule over a tape of two messages: a packet on both feeds, one that is not on
  the tape, and a heartbeat.\<close>

definition sample_tape :: bytes where "sample_tape = mold_body [sample_msg, sample_msg]"

definition sample_schedule :: ReplaySchedule where
  "sample_schedule =
     \<lparr>rs_events =
        [\<lparr>se_release_vt = 10, se_feed = 0, se_kind = PacketEv 5 0 2\<rparr>, \<lparr>se_release_vt = 10, se_feed = 1, se_kind = PacketEv 5 0 2\<rparr>,
         \<lparr>se_release_vt = 20, se_feed = 0, se_kind = PacketEv 7 1 2\<rparr>, \<lparr>se_release_vt = 30, se_feed = 0, se_kind = HeartbeatEv 7\<rparr>],
      rs_session_split = None\<rparr>"

definition sample_transport :: ReplayTransport where
  "sample_transport = ReplayTransport_new 4096 sample_tape sample_schedule sample_session"

lemma sample_transport_reach: "replay_reach sample_tape sample_schedule sample_transport"
  unfolding sample_transport_def by (rule reach_new) (simp add: sample_session_def)

lemma sample_tape_messages: "tape_messages sample_tape = [sample_msg, sample_msg]"
  using tape_messages_body [of "[sample_msg, sample_msg]" "[]"]
  by (simp add: sample_tape_def sample_msg_def tape_messages.simps [of "[]"] block_complete_def)

lemma sample_replay_bounds: "replay_bounds sample_tape sample_schedule"
  by (simp add: replay_bounds_def split_ok_def sample_tape_def sample_schedule_def sample_msg_def ARENA_SLOT_SIZE_def)

lemma sample_sessions: "length sample_session = 10" "length (replicate 10 66 :: SessionId) = 10"
  by (simp_all add: sample_session_def)

lemma reset_serves_frames_witness:
  "frame_at (reset (replicate 10 66) sample_transport) (rt_meta (reset (replicate 10 66) sample_transport) ! 1)
    = mold_frame (replicate 10 66) 5 2 [sample_msg, sample_msg] \<and>
   fm_len (rt_meta (reset (replicate 10 66) sample_transport) ! 2) = 0"
proof -
  note r = reset_serves_frames [OF sample_transport_reach sample_replay_bounds sample_sessions(2)]
  have "1 < length (rs_events sample_schedule)" "2 < length (rs_events sample_schedule)" by (simp_all add: sample_schedule_def)
  from r [rule_format, OF this(1)] r [rule_format, OF this(2)] show ?thesis
    by (simp_all add: sample_schedule_def event_frame_def event_fits_def event_msgs_def event_header_def sample_tape_messages
        effective_session_def sample_msg_def ARENA_SLOT_SIZE_def)
qed

text \<open>C21: paced prepatching never reaches a frame that is still to be read.  Whatever the cursor,
  the budget and the transport, writing the next session up to a consumed-event frontier
  leaves every frame of the events at or past the frontier as it was, also those whose region
  an already consumed delivery shares.\<close>

theorem prepatch_keeps_pending:
  assumes "replay_reach gt sched t" and "replay_bounds gt sched" and "length s = 10"
  shows "\<forall>i < length (rs_events sched). upto_evt \<le> i \<longrightarrow>
    frame_at (fst (patch_range s from_idx upto_evt budget t)) (rt_meta t ! i) = frame_at t (rt_meta t ! i)"
proof (intro allI impI)
  fix i
  assume i: "i < length (rs_events sched)" "upto_evt \<le> i"
  obtain ss where r: "rt_schedule t = sched" "directory_ok gt ss t"
    using reach_directory [OF assms(1,2)] by blast
  obtain t' idx' where p: "patch_range s from_idx upto_evt budget t = (t', idx')" by fastforce
  obtain ss' where d': "directory_ok gt ss' t'"
    and same: "\<And>i. i < length (rs_events sched) \<Longrightarrow> upto_evt \<le> i \<Longrightarrow> rendered gt (rs_events sched ! i) \<Longrightarrow>
      ss' (fm_offset (rt_meta t ! i)) = ss (fm_offset (rt_meta t ! i))"
    using patch_range_ok [OF r(2) assms(3) p] r(1) by blast
  have t': "rt_schedule t' = sched" "rt_meta t' = rt_meta t" using patch_range_slice [OF p] r(1) by simp_all
  show "frame_at (fst (patch_range s from_idx upto_evt budget t)) (rt_meta t ! i) = frame_at t (rt_meta t ! i)"
  proof (cases "rendered gt (rs_events sched ! i)")
    case True
    then show ?thesis
      using directory_frame [OF r(2), of i] directory_frame [OF d', of i] same [OF i] i r(1) t' by (simp add: p)
  next
    case False
    then show ?thesis
      using directory_tombstone [OF r(2), of i] i r(1) by (simp add: frame_at_def tombstone_def slice_def)
  qed
qed

lemma prepatch_keeps_pending_witness:
  "frame_at (fst (patch_range (replicate 10 66) 0 1 8 sample_transport)) (rt_meta sample_transport ! 1)
    = frame_at sample_transport (rt_meta sample_transport ! 1)"
  using prepatch_keeps_pending [OF sample_transport_reach sample_replay_bounds sample_sessions(2), of 1 0 8]
  by (simp add: sample_schedule_def)

text \<open>Prepatching and resetting the tail is resetting.  Any sequence of paced prepatch calls for
  a session followed by \<open>reset_prepatched\<close> from the cursor they left gives the transport that a
  plain \<open>reset\<close> gives, blob and all.\<close>

theorem prepatched_reset_eq:
  assumes "prepatch s calls (t, 0) = (t', idx)"
  shows "reset_prepatched s idx t' = reset s t"
proof -
  note p = prepatch_slice [OF assms]
  have "patch_all s (drop idx (rt_patch_evts t)) (patch_all s (slice 0 idx (rt_patch_evts t)) (rt_frames t))
      = patch_all s (rt_patch_evts t) (rt_frames t)"
    by (simp add: slice_0_take flip: patch_all_append)
  then show ?thesis using p by (simp add: reset_prepatched_def reset_def patch_sessions_def Let_def)
qed

lemma prepatched_reset_eq_witness:
  "reset_prepatched sample_session (snd (prepatch sample_session [(1, 4), (2, 4)] (sample_transport, 0)))
      (fst (prepatch sample_session [(1, 4), (2, 4)] (sample_transport, 0)))
    = reset sample_session sample_transport"
  by (rule prepatched_reset_eq [of _ "[(1, 4), (2, 4)]"]) simp

end
