(* ===== verification/GeneratorLaw.thy ===== *)
theory GeneratorLaw
  imports Generator ReplayPatch
begin

text \<open>
  What the schedule builder promises: its packets tile the tape, its events are sorted and well
  formed, the coverage guarantee leaves every message on one feed, and the builder returns.
\<close>

section \<open>Message table and packets\<close>

lemma msg_infos_tape:
  "pos \<le> length gt \<Longrightarrow> map mi_len (msg_infos_loop gt pos i infos)
     = map mi_len infos @ map (\<lambda>m. of_nat (length m)) (tape_messages (drop pos gt))"
proof (induction gt pos i infos rule: msg_infos_loop.induct)
  case (1 gt pos i infos)
  let ?L = "be_len gt pos"
  show ?case
  proof (cases "pos + 2 \<le> length gt \<and> pos + 2 + ?L \<le> length gt")
    case True
    then have t: "tape_messages (drop pos gt)
        = slice (pos + 2) (pos + 2 + ?L) gt # tape_messages (drop (pos + 2 + ?L) gt)"
      by (intro tape_at(2)) (use 1 in auto)
    have "length (slice (pos + 2) (pos + 2 + ?L) gt) = ?L" using True by simp
    moreover have "msg_infos_loop gt pos i infos = msg_infos_loop gt (pos + 2 + ?L) (i + 1)
        (infos @ [\<lparr>mi_index = i, mi_len = u16_from_be_bytes [gt ! pos, gt ! (pos + 1)]\<rparr>])"
      using True by (subst msg_infos_loop.simps) (simp add: Let_def)
    moreover have "map mi_len (msg_infos_loop gt (pos + 2 + ?L) (i + 1)
          (infos @ [\<lparr>mi_index = i, mi_len = u16_from_be_bytes [gt ! pos, gt ! (pos + 1)]\<rparr>]))
        = map mi_len (infos @ [\<lparr>mi_index = i, mi_len = u16_from_be_bytes [gt ! pos, gt ! (pos + 1)]\<rparr>])
          @ map (\<lambda>m. of_nat (length m)) (tape_messages (drop (pos + 2 + ?L) gt))"
      using True by (intro "1.IH") (simp_all add: not_less)
    ultimately show ?thesis by (simp add: t)
  next
    case False
    then have "tape_messages (drop pos gt) = []" using "1.prems" by (intro tape_at(3))
    then show ?thesis using False by (subst msg_infos_loop.simps) (auto simp: Let_def)
  qed
qed

abbreviation infos_of :: "bytes \<Rightarrow> RawMsgInfo list" where
  "infos_of gt \<equiv> msg_infos_loop gt 0 0 []"

lemma infos_of_tape:
  "length (infos_of gt) = length (tape_messages gt)"
  "i < length (tape_messages gt) \<Longrightarrow> mi_len (infos_of gt ! i) = of_nat (length (tape_messages gt ! i))"
proof -
  have m: "map mi_len (infos_of gt) = map (\<lambda>m. of_nat (length m)) (tape_messages gt)"
    using msg_infos_tape [of 0 gt 0 "[]"] by simp
  show l: "length (infos_of gt) = length (tape_messages gt)" using arg_cong [OF m, of length] by simp
  show "mi_len (infos_of gt ! i) = of_nat (length (tape_messages gt ! i))" if "i < length (tape_messages gt)"
    using arg_cong [OF m, of "\<lambda>xs. xs ! i"] that l by simp
qed

text \<open>Packets that tile the messages from \<open>a\<close> to \<open>n\<close>.\<close>

fun tiles :: "nat \<Rightarrow> RawPacket list \<Rightarrow> nat \<Rightarrow> bool" where
  "tiles a [] n = (a = n)"
| "tiles a (p # ps) n = (unat (rp_first_msg p) = a \<and> 0 < unat (rp_count p) \<and> tiles (a + unat (rp_count p)) ps n)"

lemma tiles_snoc: "tiles a (ps @ [p]) n \<longleftrightarrow>
    (\<exists>m. tiles a ps m \<and> unat (rp_first_msg p) = m \<and> 0 < unat (rp_count p) \<and> m + unat (rp_count p) = n)"
  by (induction ps arbitrary: a) auto

lemma tiles_le: "tiles a ps n \<Longrightarrow> a \<le> n"
  by (induction ps arbitrary: a) fastforce+

lemma tiles_inside: "tiles a ps n \<Longrightarrow> p \<in> set ps \<Longrightarrow>
    a \<le> unat (rp_first_msg p) \<and> 0 < unat (rp_count p) \<and> unat (rp_first_msg p) + unat (rp_count p) \<le> n"
  by (induction ps arbitrary: a) (auto dest: tiles_le, fastforce)

lemma tiles_cover: "tiles a ps n \<Longrightarrow> a \<le> i \<Longrightarrow> i < n \<Longrightarrow>
    \<exists>p \<in> set ps. unat (rp_first_msg p) \<le> i \<and> i < unat (rp_first_msg p) + unat (rp_count p)"
proof (induction ps arbitrary: a)
  case Nil
  then show ?case by simp
next
  case (Cons p ps)
  show ?case
  proof (cases "i < a + unat (rp_count p)")
    case True
    then show ?thesis using Cons.prems by auto
  next
    case False
    then show ?thesis using Cons.IH [of "a + unat (rp_count p)"] Cons.prems by auto
  qed
qed

lemma unat_of_nat_u16_le: "unat (of_nat x :: u16) \<le> x"
  by (simp add: unat_of_nat)

lemma unat_min_u16: "unat (min k (of_nat n :: u16)) \<le> unat k" "unat (min k (of_nat n :: u16)) \<le> n"
proof -
  show "unat (min k (of_nat n :: u16)) \<le> unat k" using word_le_nat_alt min.cobounded1 by blast
  have "unat (min k (of_nat n :: u16)) \<le> unat (of_nat n :: u16)" using word_le_nat_alt min.cobounded2 by blast
  then show "unat (min k (of_nat n :: u16)) \<le> n" using unat_of_nat_u16_le [of n] by linarith
qed

lemma max_one_le: "unat c \<le> k \<Longrightarrow> 0 < k \<Longrightarrow> unat (max 1 (c :: u16)) \<le> k"
  by (simp add: max_def)

lemma mtu_count_le:
  assumes "mtu_count infos cur mx acc c = Some c'"
  shows "unat c \<le> length infos - cur \<longrightarrow> unat c' \<le> length infos - cur"
proof (rule mtu_count.raw_induct [where P = "\<lambda>infos cur mx acc c c'. unat c \<le> length infos - cur \<longrightarrow> unat c' \<le> length infos - cur", OF _ assms])
  fix f :: "RawMsgInfo list \<Rightarrow> nat \<Rightarrow> u16 \<Rightarrow> u16 \<Rightarrow> u16 \<Rightarrow> u16 option" and infos cur mx acc c c'
  assume ih: "\<And>infos cur mx acc c c'. f infos cur mx acc c = Some c' \<Longrightarrow> unat c \<le> length infos - cur \<longrightarrow> unat c' \<le> length infos - cur"
    and f: "(if cur + unat c < length infos
      then let block_len = 2 + mi_len (infos ! (cur + unat c))
           in if 0 < c \<and> mx < acc + block_len then Some c else f infos cur mx (acc + block_len) (c + 1)
      else Some c) = Some c'"
  have "unat (c + 1) \<le> unat c + 1" by (simp add: unat_word_ariths(1))
  then have "cur + unat c < length infos \<Longrightarrow> unat (c + 1) \<le> length infos - cur" by linarith
  then show "unat c \<le> length infos - cur \<longrightarrow> unat c' \<le> length infos - cur"
    using f ih [of infos cur mx _ "c + 1" c'] by (auto simp: Let_def split: if_splits)
qed

lemma packet_size_le:
  assumes "packet_size config infos cur r = Some (r', c)" "cur < length infos"
  shows "unat (max 1 c) \<le> length infos - cur"
proof (rule max_one_le)
  show "unat c \<le> length infos - cur"
    using assms unat_min_u16(2) mtu_count_le [of infos cur _ 0 0]
    by (auto simp: packet_size_def Let_def simp del: of_nat_diff split: Packetize.splits if_splits prod.splits)
qed (use assms in simp)

lemma packetize_tiles:
  assumes "packetize config infos cur r packets = Some (r', ps)" "tiles a packets cur" "cur \<le> length infos" "length infos < 2 ^ 64"
    and "\<And>cur r r' c. cur < length infos \<Longrightarrow> packet_size config infos cur r = Some (r', c) \<Longrightarrow> Q cur (max 1 c)"
    and "\<forall>p \<in> set packets. Q (unat (rp_first_msg p)) (rp_count p)"
  shows "tiles a ps (length infos) \<and> (\<forall>p \<in> set ps. Q (unat (rp_first_msg p)) (rp_count p))"
  using assms
proof (induction config infos cur r packets rule: packetize.induct)
  case (1 config infos cur r packets)
  show ?case
  proof (cases "cur < length infos")
    case True
    then obtain r1 c where c: "packet_size config infos cur r = Some (r1, c)"
      and step: "packetize config infos (cur + unat (max 1 c)) r1
        (packets @ [\<lparr>rp_first_msg = of_nat cur, rp_count = max 1 c\<rparr>]) = Some (r', ps)"
      using "1.prems"(1) by (subst (asm) packetize.simps) (auto simp: Let_def split: option.splits)
    have u: "unat (of_nat cur :: u64) = cur" using True "1.prems"(4) by (intro unat_of_nat_u64) linarith
    show ?thesis
      using "1.IH" [OF True c refl refl step] "1.prems" packet_size_le [OF c True] max_one_pos [of c] True c
      by (simp add: tiles_snoc u)
  next
    case False
    then show ?thesis using "1.prems" by (subst (asm) packetize.simps) auto
  qed
qed

section \<open>Events of the packets\<close>

definition packet_kind :: "ReplayConfig \<Rightarrow> RawPacket \<Rightarrow> SchedKind" where
  "packet_kind config p = PacketEv (packet_seq config p) (rp_first_msg p) (rp_count p)"

definition no_delay :: "ReplayConfig \<Rightarrow> bool" where
  "no_delay config \<longleftrightarrow> rc_delay config = (DelayNone, DelayNone)"

definition covered :: "ReplayConfig \<Rightarrow> bool" where
  "covered config \<longleftrightarrow> rc_guarantee_coverage config \<and> feed_enabled config 0 \<and> feed_enabled config 1"

text \<open>Events that carry the packet, released at its base time where nothing is delayed.\<close>

definition carries_packet_at :: "ReplayConfig \<Rightarrow> RawPacket \<Rightarrow> u64 \<Rightarrow> SchedEvent \<Rightarrow> bool" where
  "carries_packet_at config p base e \<longleftrightarrow> se_kind e = packet_kind config p \<and> (no_delay config \<longrightarrow> se_release_vt e = base)"

lemma of_feed_pair [simp]: "of_feed 0 p = fst p" "of_feed (Suc n) p = snd p"
  by (simp_all add: of_feed_def)

lemma feed_loss_keeps: "feed_loss config q pkt fd b = (b', d) \<Longrightarrow>
    bd_events b' = bd_events b \<and> bd_cumulative_msgs b' = bd_cumulative_msgs b"
  by (auto simp: feed_loss_def split: if_splits prod.splits)

lemma cover_packet_keeps: "cover_packet config b d = (b', d') \<Longrightarrow>
    bd_events b' = bd_events b \<and> bd_cumulative_msgs b' = bd_cumulative_msgs b"
  by (auto simp: cover_packet_def split: if_splits prod.splits)

lemma cover_packet_covers: "cover_packet config b d = (b', d') \<Longrightarrow> covered config \<Longrightarrow> \<not> (fst d' \<and> snd d')"
  by (auto simp: cover_packet_def covered_def set_feed_def split: if_splits prod.splits)

lemma release_time_0 [simp]: "release_time base 0 = base"
  using unat_u64_less [of base] by (simp add: release_time_def saturating_add64_def)

lemma add_packet_events:
  "\<exists>new. bd_events (add_packet config base (packet_seq config pkt) pkt d fd b) = bd_events b @ new \<and>
     (\<forall>e \<in> set new. carries_packet_at config pkt base e) \<and> (new \<noteq> [] \<longleftrightarrow> \<not> of_feed fd d) \<and>
     bd_cumulative_msgs (add_packet config base (packet_seq config pkt) pkt d fd b) = bd_cumulative_msgs b"
proof (cases "of_feed fd d")
  case True
  then show ?thesis by (simp add: add_packet_def)
next
  case False
  obtain r delay where r: "draw_delay (of_feed fd (rc_delay config)) (of_feed fd (bd_prng b)) = (r, delay)" by fastforce
  have "delay = 0" if "no_delay config"
    using that r by (simp add: no_delay_def of_feed_def draw_delay_def split: if_splits)
  then show ?thesis using False by (simp add: add_packet_def r carries_packet_at_def packet_kind_def)
qed

lemma build_packet_events:
  "\<exists>new. bd_events (build_packet config pkt b) = bd_events b @ new \<and>
     (\<forall>e \<in> set new. carries_packet_at config pkt (bd_cumulative_msgs b * ns_per_msg config) e) \<and>
     (covered config \<longrightarrow> new \<noteq> []) \<and>
     bd_cumulative_msgs (build_packet config pkt b) = bd_cumulative_msgs b + ucast (rp_count pkt)"
proof -
  let ?q = "packet_seq config pkt" and ?base = "bd_cumulative_msgs b * ns_per_msg config"
  define b0 where "b0 = b\<lparr>bd_cumulative_msgs := bd_cumulative_msgs b + ucast (rp_count pkt)\<rparr>"
  obtain b1 da where 1: "feed_loss config ?q pkt 0 b0 = (b1, da)" by fastforce
  obtain b2 db where 2: "feed_loss config ?q pkt 1 b1 = (b2, db)" by fastforce
  obtain b3 d where 3: "cover_packet config b2 (da, db) = (b3, d)" by (cases "cover_packet config b2 (da, db)")
  let ?b4 = "add_packet config ?base ?q pkt d 0 b3"
  have b: "build_packet config pkt b = add_packet config ?base ?q pkt d 1 ?b4"
    using 1 2 3 by (simp add: build_packet_def Let_def flip: b0_def)
  have k: "bd_events b3 = bd_events b" "bd_cumulative_msgs b3 = bd_cumulative_msgs b + ucast (rp_count pkt)"
    using feed_loss_keeps [OF 1] feed_loss_keeps [OF 2] cover_packet_keeps [OF 3] by (simp_all add: b0_def)
  obtain n0 where n0: "bd_events ?b4 = bd_events b3 @ n0" "\<forall>e \<in> set n0. carries_packet_at config pkt ?base e"
    "n0 \<noteq> [] \<longleftrightarrow> \<not> fst d" "bd_cumulative_msgs ?b4 = bd_cumulative_msgs b3"
    using add_packet_events [of config ?base pkt d 0 b3] by auto
  obtain n1 where n1: "bd_events (build_packet config pkt b) = bd_events ?b4 @ n1" "\<forall>e \<in> set n1. carries_packet_at config pkt ?base e"
    "n1 \<noteq> [] \<longleftrightarrow> \<not> snd d" "bd_cumulative_msgs (build_packet config pkt b) = bd_cumulative_msgs ?b4"
    using add_packet_events [of config ?base pkt d 1 ?b4] unfolding b by auto
  have "covered config \<longrightarrow> n0 @ n1 \<noteq> []" using cover_packet_covers [OF 3] n0(3) n1(3) by auto
  then show ?thesis using n0 n1 k by (intro exI [of _ "n0 @ n1"]) auto
qed

lemma build_packets_events:
  assumes "tiles (unat (bd_cumulative_msgs b)) ps n" "n < 2 ^ 64"
  shows "\<exists>new. bd_events (fold (build_packet config) ps b) = bd_events b @ new \<and>
     (\<forall>e \<in> set new. \<exists>p \<in> set ps. carries_packet_at config p (rp_first_msg p * ns_per_msg config) e) \<and>
     (covered config \<longrightarrow> (\<forall>p \<in> set ps. \<exists>e \<in> set new. carries_packet_at config p (rp_first_msg p * ns_per_msg config) e))"
  using assms
proof (induction ps arbitrary: b)
  case Nil
  then show ?case by simp
next
  case (Cons p ps)
  let ?b = "build_packet config p b"
  obtain n0 where n0: "bd_events ?b = bd_events b @ n0"
    "\<forall>e \<in> set n0. carries_packet_at config p (bd_cumulative_msgs b * ns_per_msg config) e"
    "covered config \<longrightarrow> n0 \<noteq> []" "bd_cumulative_msgs ?b = bd_cumulative_msgs b + ucast (rp_count p)"
    using build_packet_events [of config p b] by blast
  have t: "unat (rp_first_msg p) = unat (bd_cumulative_msgs b)" "tiles (unat (bd_cumulative_msgs b) + unat (rp_count p)) ps n"
    using Cons.prems(1) by simp_all
  have "unat (bd_cumulative_msgs ?b) = unat (bd_cumulative_msgs b) + unat (rp_count p)"
    unfolding n0(4) using tiles_le [OF t(2)] Cons.prems(2) by (subst unat_plus_u64) simp_all
  then obtain n1 where n1: "bd_events (fold (build_packet config) ps ?b) = bd_events ?b @ n1"
    "\<forall>e \<in> set n1. \<exists>p \<in> set ps. carries_packet_at config p (rp_first_msg p * ns_per_msg config) e"
    "covered config \<longrightarrow> (\<forall>p \<in> set ps. \<exists>e \<in> set n1. carries_packet_at config p (rp_first_msg p * ns_per_msg config) e)"
    using Cons.IH [of ?b] t(2) Cons.prems(2) by auto
  have f: "bd_cumulative_msgs b = rp_first_msg p" using t(1) by (simp add: word_unat_eq_iff)
  have "covered config \<longrightarrow> (\<exists>e \<in> set n0. carries_packet_at config p (rp_first_msg p * ns_per_msg config) e)"
    using n0(2,3) unfolding f by (cases n0) auto
  then show ?case using n0(1,2) n1 unfolding f by (intro exI [of _ "n0 @ n1"]) auto
qed

section \<open>The end of the stream\<close>

text \<open>Heartbeats and ends of session.  Where the clock does not wrap they are released after
  time zero, and the ends of session after every packet.\<close>

definition no_wrap :: "u64 \<Rightarrow> u64 \<Rightarrow> bool" where
  "no_wrap interval final_vt \<longleftrightarrow> unat final_vt + unat interval + 10 ^ 9 < 2 ^ 64"

definition closing :: "u64 \<Rightarrow> u64 \<Rightarrow> SchedEvent \<Rightarrow> bool" where
  "closing interval final_vt e \<longleftrightarrow> (no_wrap interval final_vt \<longrightarrow> 0 < se_release_vt e) \<and>
     (case se_kind e of
        PacketEv _ _ _ \<Rightarrow> False
      | HeartbeatEv _ \<Rightarrow> True
      | SchedKind.EndOfSessionEv _ \<Rightarrow> no_wrap interval final_vt \<longrightarrow> final_vt < se_release_vt e)"

definition adds_closing :: "u64 \<Rightarrow> u64 \<Rightarrow> SchedEvent list \<Rightarrow> SchedEvent list \<Rightarrow> bool" where
  "adds_closing interval final_vt events evs \<longleftrightarrow> (\<exists>new. evs = events @ new \<and> (\<forall>e \<in> set new. closing interval final_vt e))"

lemma adds_closing_refl: "adds_closing interval final_vt events events"
  by (simp add: adds_closing_def)

lemma adds_closing_append:
  "adds_closing interval final_vt events evs \<Longrightarrow> \<forall>e \<in> set new. closing interval final_vt e \<Longrightarrow>
     adds_closing interval final_vt events (evs @ new)"
  by (auto simp: adds_closing_def)

lemma adds_closing_trans:
  "adds_closing interval final_vt a b \<Longrightarrow> adds_closing interval final_vt b c \<Longrightarrow> adds_closing interval final_vt a c"
  by (auto simp: adds_closing_def)

lemma rolling_heartbeats_events:
  assumes "rolling_heartbeats interval final_vt fd q hb_vt events = Some evs" "0 < hb_vt"
  shows "adds_closing interval final_vt events evs"
proof -
  have "(no_wrap interval final_vt \<longrightarrow> 0 < hb_vt) \<longrightarrow> adds_closing interval final_vt events evs"
  proof (rule rolling_heartbeats.raw_induct [where P = "\<lambda>interval final_vt fd q hb_vt events evs.
        (no_wrap interval final_vt \<longrightarrow> 0 < hb_vt) \<longrightarrow> adds_closing interval final_vt events evs", OF _ assms(1)])
    fix f :: "u64 \<Rightarrow> u64 \<Rightarrow> nat \<Rightarrow> u64 \<Rightarrow> u64 \<Rightarrow> SchedEvent list \<Rightarrow> SchedEvent list option"
      and interval final_vt fd q hb_vt events evs
    assume ih: "\<And>interval final_vt fd q hb_vt events evs. f interval final_vt fd q hb_vt events = Some evs \<Longrightarrow>
        (no_wrap interval final_vt \<longrightarrow> 0 < hb_vt) \<longrightarrow> adds_closing interval final_vt events evs"
      and f: "(if hb_vt < final_vt
        then f interval final_vt fd q (hb_vt + interval)
          (events @ [\<lparr>se_release_vt = hb_vt, se_feed = of_nat fd, se_kind = HeartbeatEv q\<rparr>])
        else Some events) = Some evs"
    show "(no_wrap interval final_vt \<longrightarrow> 0 < hb_vt) \<longrightarrow> adds_closing interval final_vt events evs"
    proof
      assume a: "no_wrap interval final_vt \<longrightarrow> 0 < hb_vt"
      show "adds_closing interval final_vt events evs"
      proof (cases "hb_vt < final_vt")
        case True
        let ?h = "\<lparr>se_release_vt = hb_vt, se_feed = of_nat fd, se_kind = HeartbeatEv q\<rparr>"
        have "0 < hb_vt + interval" if w: "no_wrap interval final_vt"
        proof -
          have "unat (hb_vt + interval) = unat hb_vt + unat interval"
            using w True by (intro unat_plus_u64) (simp add: no_wrap_def word_less_nat_alt)
          then show ?thesis using a w by (simp add: word_less_nat_alt)
        qed
        then have "adds_closing interval final_vt (events @ [?h]) evs"
          using ih [OF f [unfolded if_P [OF True]]] by blast
        moreover have "adds_closing interval final_vt events (events @ [?h])"
          using a by (intro adds_closing_append adds_closing_refl) (simp add: closing_def)
        ultimately show ?thesis by (rule adds_closing_trans [rotated])
      next
        case False
        then show ?thesis using f by (simp add: adds_closing_refl)
      qed
    qed
  qed
  then show ?thesis using assms(2) by blast
qed

lemma terminal_events_closing: "\<forall>e \<in> set (terminal_events final_vt fd q). closing interval final_vt e"
proof -
  have "no_wrap interval final_vt \<longrightarrow> final_vt < final_vt + k \<and> 0 < final_vt + k" if "0 < k" "unat k \<le> 10 ^ 9" for k :: u64
  proof
    assume "no_wrap interval final_vt"
    then have "unat final_vt + unat k < 2 ^ 64" using that(2) unfolding no_wrap_def by linarith
    then have "unat (final_vt + k) = unat final_vt + unat k" by (rule unat_plus_u64)
    then show "final_vt < final_vt + k \<and> 0 < final_vt + k" using that(1) by (simp add: word_less_nat_alt)
  qed
  from this [of 1000] this [of 50001000] this [of 60001000] this [of 70001000] this [of 80001000] this [of 90001000]
  show ?thesis by (simp add: terminal_events_def closing_def Let_def upt_rec add.assoc)
qed

lemma finish_feed_events:
  assumes "finish_feed config final_vt q fd events = Some evs"
  shows "adds_closing (rc_heartbeat_interval_ns config) final_vt events evs"
proof (cases "feed_enabled config fd")
  case True
  let ?int = "rc_heartbeat_interval_ns config"
  obtain evs0 where e: "evs = evs0 @ terminal_events final_vt fd q"
    and h: "0 < ?int \<Longrightarrow> rolling_heartbeats ?int final_vt fd q ?int events = Some evs0" "\<not> 0 < ?int \<Longrightarrow> evs0 = events"
    using assms(1) True by (auto simp: finish_feed_def split: if_splits)
  have "adds_closing ?int final_vt events evs0"
    using rolling_heartbeats_events [OF h(1)] h(2) adds_closing_refl by (cases "0 < ?int") simp_all
  then show ?thesis unfolding e by (rule adds_closing_append) (rule terminal_events_closing)
next
  case False
  then show ?thesis using assms by (simp add: finish_feed_def adds_closing_refl)
qed

lemma foldl_max_upper: "(a :: u64) \<le> foldl max a xs \<and> (\<forall>x \<in> set xs. x \<le> foldl max a xs)"
proof (induction xs arbitrary: a)
  case Nil
  then show ?case by simp
next
  case (Cons x xs)
  from Cons.IH [of "max a x"] show ?case by (simp del: max.bounded_iff) (simp add: max.bounded_iff)
qed

lemma latest_vt_upper: "e \<in> set events \<Longrightarrow> se_release_vt e \<le> latest_vt events"
  using foldl_max_upper [of 0 "map se_release_vt events"] by (simp add: latest_vt_def)

lemma latest_vt_bound: "\<forall>e \<in> set events. unat (se_release_vt e) \<le> k \<Longrightarrow> unat (latest_vt events) \<le> k"
proof -
  have "\<forall>x \<in> set xs. unat x \<le> k \<Longrightarrow> unat a \<le> k \<Longrightarrow> unat (foldl max a xs) \<le> k" for xs and a :: u64
    by (induction xs arbitrary: a) (simp_all add: max_def)
  then show "\<forall>e \<in> set events. unat (se_release_vt e) \<le> k \<Longrightarrow> unat (latest_vt events) \<le> k"
    by (simp add: latest_vt_def)
qed

section \<open>The schedule\<close>

lemma sched_comparator_compare: "compare sched_comparator = SchedEvent_cmp"
  by (simp add: sched_comparator.rep_eq)

lemma sorted_by_vt:
  "sorted_wrt (\<lambda>a b. se_release_vt a \<le> se_release_vt b) (Sorting_Algorithms.sort sched_comparator evs)"
proof -
  have vt: "compare sched_comparator a b \<noteq> Greater \<Longrightarrow> se_release_vt a \<le> se_release_vt b" for a b
    by (auto simp: sched_comparator_compare SchedEvent_cmp_def then_with_Greater not_less)
  have "Sorting_Algorithms.sorted sched_comparator xs \<Longrightarrow> sorted_wrt (\<lambda>a b. se_release_vt a \<le> se_release_vt b) xs" for xs
    by (induction rule: Sorting_Algorithms.sorted_induct) (auto intro: vt)
  then show ?thesis by simp
qed

text \<open>The times of a schedule without delays stay below this bound.\<close>

definition time_ok :: "ReplayConfig \<Rightarrow> nat \<Rightarrow> bool" where
  "time_ok config n \<longleftrightarrow> n * unat (ns_per_msg config) + unat (rc_heartbeat_interval_ns config) + 10 ^ 9 < 2 ^ 64"

lemma base_time:
  assumes "time_ok config n" "unat m \<le> n"
  shows "unat (m * ns_per_msg config) = unat m * unat (ns_per_msg config)"
proof -
  have "unat m * unat (ns_per_msg config) \<le> n * unat (ns_per_msg config)" using assms(2) by (rule mult_le_mono1)
  then have "unat m * unat (ns_per_msg config) < 2 ^ 64" using assms(1) unfolding time_ok_def by linarith
  then show ?thesis by (simp add: unat_word_ariths(2))
qed

lemma packets_no_wrap:
  assumes "tiles 0 ps n" "n < 2 ^ 64" "no_delay config" "time_ok config n"
  shows "no_wrap (rc_heartbeat_interval_ns config) (latest_vt (bd_events (fold (build_packet config) ps
    \<lparr>bd_prng = prng, bd_ge_state = ge, bd_cumulative_msgs = 0, bd_events = []\<rparr>)))"
    (is "no_wrap _ (latest_vt ?evs)")
proof -
  have ev: "\<forall>e \<in> set ?evs. \<exists>p \<in> set ps. carries_packet_at config p (rp_first_msg p * ns_per_msg config) e"
    using build_packets_events [of "\<lparr>bd_prng = prng, bd_ge_state = ge, bd_cumulative_msgs = 0, bd_events = []\<rparr>" ps n config]
      assms(1,2) by auto
  have "unat (se_release_vt e) \<le> n * unat (ns_per_msg config)" if e: "e \<in> set ?evs" for e
  proof -
    obtain p where p: "p \<in> set ps" "se_release_vt e = rp_first_msg p * ns_per_msg config"
      using ev e assms(3) by (auto simp: carries_packet_at_def)
    have "unat (rp_first_msg p) \<le> n" using tiles_inside [OF assms(1) p(1)] by simp
    then show ?thesis using base_time [OF assms(4), of "rp_first_msg p"] p(2) by simp
  qed
  then have "unat (latest_vt ?evs) \<le> n * unat (ns_per_msg config)" by (intro latest_vt_bound) simp
  then show ?thesis using assms(4) unfolding time_ok_def no_wrap_def by linarith
qed

lemma schedule_shape:
  assumes "build_schedule gt config = Some sched" "tape_messages gt \<noteq> []" "length (tape_messages gt) < 2 ^ 64"
    and "\<forall>cur r r' c. cur < length (infos_of gt) \<and> packet_size config (infos_of gt) cur r = Some (r', c) \<longrightarrow> Q cur (max 1 c)"
  shows "\<exists>ps evs tail final_vt. tiles 0 ps (length (tape_messages gt)) \<and> (\<forall>p \<in> set ps. Q (unat (rp_first_msg p)) (rp_count p)) \<and>
    set (rs_events sched) = set evs \<union> set tail \<and>
    (\<forall>e \<in> set evs. se_release_vt e \<le> final_vt \<and>
      (\<exists>p \<in> set ps. carries_packet_at config p (rp_first_msg p * ns_per_msg config) e)) \<and>
    (covered config \<longrightarrow> (\<forall>p \<in> set ps. \<exists>e \<in> set evs. carries_packet_at config p (rp_first_msg p * ns_per_msg config) e)) \<and>
    (\<forall>e \<in> set tail. closing (rc_heartbeat_interval_ns config) final_vt e) \<and>
    (no_delay config \<and> time_ok config (length (tape_messages gt)) \<longrightarrow> no_wrap (rc_heartbeat_interval_ns config) final_vt)"
proof -
  let ?infos = "infos_of gt" and ?n = "length (tape_messages gt)"
  have n: "length ?infos = ?n" by (rule infos_of_tape)
  have t0: "(of_nat (length ?infos) :: u64) \<noteq> 0"
    using assms(2,3) unat_of_nat_u64 [of ?n] by (auto simp: n)
  obtain r ps where p: "packetize config ?infos 0 (SplitMix64_new (rc_seed_a config)) [] = Some (r, ps)"
    using assms(1) t0 by (auto simp: build_schedule_def Let_def split: option.splits)
  define b where "b = fold (build_packet config) ps
    \<lparr>bd_prng = (r, SplitMix64_new (rc_seed_b config)), bd_ge_state = (False, False), bd_cumulative_msgs = 0, bd_events = []\<rparr>"
  let ?v = "latest_vt (bd_events b)" and ?q = "final_next_seq config (of_nat (length ?infos))"
  obtain evs0 evs1 where f: "finish_feed config ?v ?q 0 (bd_events b) = Some evs0" "finish_feed config ?v ?q 1 evs0 = Some evs1"
    "rs_events sched = Sorting_Algorithms.sort sched_comparator evs1"
    using assms(1) t0 by (auto simp: build_schedule_def Let_def p split: option.splits simp flip: b_def)
  obtain tail where tail: "evs1 = bd_events b @ tail" "\<forall>e \<in> set tail. closing (rc_heartbeat_interval_ns config) ?v e"
    using adds_closing_trans [OF finish_feed_events [OF f(1)] finish_feed_events [OF f(2)]] by (auto simp: adds_closing_def)
  have tiles: "tiles 0 ps ?n \<and> (\<forall>p \<in> set ps. Q (unat (rp_first_msg p)) (rp_count p))"
    using packetize_tiles [OF p, where Q = Q] assms(3,4) by (simp add: n)
  have ev: "(\<forall>e \<in> set (bd_events b). \<exists>p \<in> set ps. carries_packet_at config p (rp_first_msg p * ns_per_msg config) e) \<and>
     (covered config \<longrightarrow> (\<forall>p \<in> set ps. \<exists>e \<in> set (bd_events b). carries_packet_at config p (rp_first_msg p * ns_per_msg config) e))"
    using build_packets_events [of "\<lparr>bd_prng = (r, SplitMix64_new (rc_seed_b config)), bd_ge_state = (False, False),
        bd_cumulative_msgs = 0, bd_events = []\<rparr>" ps ?n config] tiles assms(3) by (auto simp flip: b_def)
  have "no_delay config \<and> time_ok config ?n \<longrightarrow> no_wrap (rc_heartbeat_interval_ns config) ?v"
    using packets_no_wrap [of ps ?n config] tiles assms(3) by (simp add: b_def)
  then show ?thesis using tiles ev tail f(3) latest_vt_upper
    by (intro exI [of _ ps] exI [of _ "bd_events b"] exI [of _ tail] exI [of _ ?v]) simp
qed

section \<open>Packet sizes\<close>

text \<open>The bytes of \<open>c\<close> blocks from message \<open>a\<close>.\<close>

definition block_bytes :: "RawMsgInfo list \<Rightarrow> nat \<Rightarrow> nat \<Rightarrow> nat" where
  "block_bytes infos a c = sum_list (map (\<lambda>i. 2 + unat (mi_len (infos ! i))) [a ..< a + c])"

definition short_msgs :: "RawMsgInfo list \<Rightarrow> bool" where
  "short_msgs infos \<longleftrightarrow> (\<forall>i < length infos. unat (mi_len (infos ! i)) \<le> 64)"

lemma block_bytes_simps [simp]:
  "block_bytes infos a 0 = 0" "block_bytes infos a (Suc c) = block_bytes infos a c + (2 + unat (mi_len (infos ! (a + c))))"
  by (simp_all add: block_bytes_def)

lemma block_bytes_bounds:
  "2 * c \<le> block_bytes infos a c"
  "short_msgs infos \<Longrightarrow> a + c \<le> length infos \<Longrightarrow> block_bytes infos a c \<le> 66 * c"
proof (induction c)
  case (Suc c)
  { case 1
    show ?case using Suc by simp
  next
    case 2
    then have "unat (mi_len (infos ! (a + c))) \<le> 64" by (simp add: short_msgs_def)
    then show ?case using Suc 2 by simp }
qed simp_all

lemma mtu_count_returns:
  assumes "short_msgs infos" "unat mx \<le> 1480" "unat acc = block_bytes infos cur (unat c)" "block_bytes infos cur (unat c) \<le> 1480"
    "cur + unat c \<le> length infos"
  shows "\<exists>c'. mtu_count infos cur mx acc c = Some c' \<and> block_bytes infos cur (unat c') \<le> 1480 \<and> cur + unat c' \<le> length infos"
  using assms(3-5)
proof (induction "length infos - (cur + unat c)" arbitrary: acc c rule: less_induct)
  case less
  let ?bl = "2 + mi_len (infos ! (cur + unat c))"
  show ?case
  proof (cases "cur + unat c < length infos")
    case True
    then have "unat (mi_len (infos ! (cur + unat c))) \<le> 64" using assms(1) by (simp add: short_msgs_def)
    then have bl: "unat ?bl = 2 + unat (mi_len (infos ! (cur + unat c)))" "unat ?bl \<le> 66"
      by (simp_all add: unat_word_ariths(1))
    have c1: "unat (c + 1) = Suc (unat c)"
      using block_bytes_bounds(1) [of "unat c" infos cur] less.prems(2) by (simp add: unat_word_ariths(1))
    have acc: "unat (acc + ?bl) = block_bytes infos cur (Suc (unat c))"
      using less.prems(1,2) bl by (simp add: unat_word_ariths(1))
    show ?thesis
    proof (cases "0 < c \<and> mx < acc + ?bl")
      case stop: True
      then show ?thesis using less.prems True by (subst mtu_count.simps) (simp add: Let_def)
    next
      case False
      have "block_bytes infos cur (Suc (unat c)) \<le> 1480"
      proof (cases "c = 0")
        case True
        then show ?thesis using bl by simp
      next
        case c: False
        then have "acc + ?bl \<le> mx" using False by (simp add: word_gt_0 not_less)
        then show ?thesis using acc assms(2) by (simp add: word_le_nat_alt)
      qed
      then have "\<exists>c'. mtu_count infos cur mx (acc + ?bl) (c + 1) = Some c' \<and> block_bytes infos cur (unat c') \<le> 1480 \<and>
          cur + unat c' \<le> length infos"
        using acc c1 True by (intro less.hyps) simp_all
      moreover have "mtu_count infos cur mx acc c = mtu_count infos cur mx (acc + ?bl) (c + 1)"
        using True False by (subst mtu_count.simps) (auto simp: Let_def)
      ultimately show ?thesis by simp
    qed
  next
    case False
    then show ?thesis using less.prems by (subst mtu_count.simps) simp
  qed
qed

text \<open>Configurations whose packets fit a slot of the renderer.\<close>

definition packets_fit :: "ReplayConfig \<Rightarrow> bool" where
  "packets_fit config \<longleftrightarrow>
     (case rc_msgs_per_packet config of
        Fixed k \<Rightarrow> k \<le> 22
      | MtuBound mtu \<Rightarrow> mtu \<le> 1500
      | SeededRange mn mx \<Rightarrow> mn \<le> mx \<and> mx \<le> 22)"

lemma mtu_payload: "mtu \<le> 1500 \<Longrightarrow> unat (if 20 \<le> mtu then mtu - 20 else 50 :: u16) \<le> 1480"
  by (auto simp: word_le_nat_alt unat_sub)

lemma seeded_draw:
  assumes "mn \<le> mx" "mx \<le> 22"
  shows "ucast (mx - mn + 1 :: u16) \<noteq> (0 :: u64)" "unat (mn + ucast (x mod (ucast (mx - mn + 1)) :: u64)) \<le> 22"
proof -
  have r: "unat (mx - mn + 1) = unat mx - unat mn + 1" "unat mx \<le> 22" "unat mn \<le> unat mx"
    using assms by (simp_all add: unat_word_ariths(1) unat_sub word_le_nat_alt)
  then show "ucast (mx - mn + 1 :: u16) \<noteq> (0 :: u64)" by (simp add: word_unat_eq_iff)
  have "unat (x mod ucast (mx - mn + 1)) \<le> unat mx - unat mn"
    using r by (simp add: unat_mod less_Suc_eq_le [symmetric])
  then show "unat (mn + ucast (x mod (ucast (mx - mn + 1)) :: u64)) \<le> 22"
    using r by (simp add: unat_word_ariths(1) unsigned_ucast_eq take_bit_eq_mod)
qed

lemma packet_size_fits:
  assumes "packets_fit config" "short_msgs infos" "cur < length infos"
  shows "\<exists>r' c. packet_size config infos cur r = Some (r', c) \<and> block_bytes infos cur (unat (max 1 c)) \<le> 1480"
proof -
  have one: "block_bytes infos cur 1 \<le> 1480"
    using block_bytes_bounds(2) [OF assms(2), of cur 1] assms(3) by simp
  have few: "block_bytes infos cur (unat (max 1 (min k (of_nat (length infos - cur))))) \<le> 1480" if "unat k \<le> 22" for k :: u16
  proof -
    define c where "c = max 1 (min k (of_nat (length infos - cur)))"
    have "unat c \<le> length infos - cur" "unat c \<le> 22"
      unfolding c_def using unat_min_u16(1) [of k "length infos - cur"] unat_min_u16(2) [of k "length infos - cur"] that assms(3)
      by (simp_all only: max_one_le)
    then have "block_bytes infos cur (unat c) \<le> 1480"
      using block_bytes_bounds(2) [OF assms(2), of cur "unat c"] assms(3) by linarith
    then show ?thesis by (simp only: c_def)
  qed
  show ?thesis
  proof (cases "rc_msgs_per_packet config")
    case (Fixed k)
    then show ?thesis using few [of k] assms(1) by (simp add: packet_size_def packets_fit_def word_le_nat_alt del: of_nat_diff)
  next
    case (MtuBound mtu)
    let ?mx = "if 20 \<le> mtu then mtu - 20 else 50"
    obtain c where "mtu_count infos cur ?mx 0 0 = Some c" "block_bytes infos cur (unat c) \<le> 1480"
      using mtu_count_returns [OF assms(2) mtu_payload, of mtu 0 cur 0] assms(1,3) by (auto simp: packets_fit_def MtuBound)
    then show ?thesis using one by (cases "c = 0") (auto simp: packet_size_def MtuBound max_def)
  next
    case (SeededRange mn mx)
    obtain r1 x where x: "next_u64 r = (r1, x)" by fastforce
    have "mn \<le> mx" "mx \<le> 22" using assms(1) by (simp_all add: packets_fit_def SeededRange)
    from seeded_draw(1) [OF this] few [OF seeded_draw(2) [OF this, of x]] show ?thesis
      by (simp add: packet_size_def SeededRange x Let_def del: of_nat_diff)
  qed
qed

lemma block_bytes_tape:
  "a + c \<le> length (tape_messages gt) \<Longrightarrow>
     block_bytes (infos_of gt) a c = length (mold_body (take c (drop a (tape_messages gt))))"
proof (induction c)
  case 0
  then show ?case by simp
next
  case (Suc c)
  let ?ms = "tape_messages gt"
  have "length (?ms ! (a + c)) < 65536" using Suc.prems by (intro tape_messages_short [of _ gt] nth_mem) simp
  then have "unat (mi_len (infos_of gt ! (a + c))) = length (?ms ! (a + c))"
    using Suc.prems by (simp add: infos_of_tape unat_of_nat)
  moreover have "take (Suc c) (drop a ?ms) = take c (drop a ?ms) @ [?ms ! (a + c)]"
    using Suc.prems by (simp add: take_Suc_conv_app_nth)
  ultimately show ?case using Suc by simp
qed

lemma short_tape:
  assumes "\<forall>m \<in> set (tape_messages gt). validate m = Inr ()"
  shows "short_msgs (infos_of gt)"
  unfolding short_msgs_def infos_of_tape(1)
proof (intro allI impI)
  fix i
  assume i: "i < length (tape_messages gt)"
  then have "length (tape_messages gt ! i) \<le> 64" using assms by (intro validate_length) simp
  then show "unat (mi_len (infos_of gt ! i)) \<le> 64"
    unfolding infos_of_tape(2) [OF i] using unat_of_nat_u16_le le_trans by blast
qed

lemma packet_kind_fits:
  assumes "unat (rp_first_msg p) + unat (rp_count p) \<le> length (tape_messages gt)"
    "block_bytes (infos_of gt) (unat (rp_first_msg p)) (unat (rp_count p)) \<le> 1480"
  shows "event_fits gt (packet_kind config p)"
  using assms block_bytes_tape [OF assms(1)]
  by (simp add: event_fits_def packet_kind_def event_msgs_def ARENA_SLOT_SIZE_def)

section \<open>Return\<close>

lemma packetize_returns:
  assumes "\<And>cur r. cur < length infos \<Longrightarrow> packet_size config infos cur r \<noteq> None"
  shows "packetize config infos cur r packets \<noteq> None"
  using assms
proof (induction config infos cur r packets rule: packetize.induct)
  case (1 config infos cur r packets)
  show ?case
  proof (cases "cur < length infos")
    case True
    then obtain r1 c where c: "packet_size config infos cur r = Some (r1, c)" using "1.prems" by fastforce
    then show ?thesis using "1.IH" [OF True c refl refl] "1.prems" True
      by (subst packetize.simps) (simp add: Let_def)
  next
    case False
    then show ?thesis by (subst packetize.simps) simp
  qed
qed

lemma rolling_heartbeats_returns:
  assumes "unat final_vt + unat interval < 2 ^ 64" "0 < interval"
  shows "rolling_heartbeats interval final_vt fd q hb_vt events \<noteq> None"
proof (induction "unat final_vt - unat hb_vt" arbitrary: hb_vt events rule: less_induct)
  case less
  show ?case
  proof (cases "hb_vt < final_vt")
    case True
    then have "unat (hb_vt + interval) = unat hb_vt + unat interval"
      using assms(1) by (intro unat_plus_u64) (simp add: word_less_nat_alt)
    then have "unat final_vt - unat (hb_vt + interval) < unat final_vt - unat hb_vt"
      using assms(2) True by (simp add: word_less_nat_alt)
    from less.hyps [OF this] show ?thesis using True by (subst rolling_heartbeats.simps) simp
  next
    case False
    then show ?thesis by (subst rolling_heartbeats.simps) simp
  qed
qed

lemma finish_feed_returns:
  "no_wrap (rc_heartbeat_interval_ns config) final_vt \<or> rc_heartbeat_interval_ns config = 0 \<Longrightarrow>
     finish_feed config final_vt q fd events \<noteq> None"
  using rolling_heartbeats_returns [of final_vt "rc_heartbeat_interval_ns config" fd q "rc_heartbeat_interval_ns config" events]
  by (auto simp: finish_feed_def no_wrap_def)

text \<open>Where the tape is short and the sizes are not degenerate, packetization returns; where
  moreover the last release and one heartbeat interval do not reach the end of the clock, so
  does the builder.\<close>

lemma build_schedule_some:
  assumes "packets_fit config" "\<forall>m \<in> set (tape_messages gt). validate m = Inr ()" "length (tape_messages gt) < 2 ^ 64"
    and "rc_heartbeat_interval_ns config = 0 \<or> no_delay config \<and> time_ok config (length (tape_messages gt))"
  shows "\<exists>sched. build_schedule gt config = Some sched"
proof -
  let ?infos = "infos_of gt" and ?n = "length (tape_messages gt)"
  have sz: "packet_size config ?infos cur r \<noteq> None" if "cur < length ?infos" for cur r
    using packet_size_fits [OF assms(1) short_tape [OF assms(2)] that, of r] by auto
  obtain r ps where p: "packetize config ?infos 0 (SplitMix64_new (rc_seed_a config)) [] = Some (r, ps)"
    using packetize_returns [of ?infos config, OF sz] by fastforce
  define b where "b = fold (build_packet config) ps
    \<lparr>bd_prng = (r, SplitMix64_new (rc_seed_b config)), bd_ge_state = (False, False), bd_cumulative_msgs = 0, bd_events = []\<rparr>"
  let ?v = "latest_vt (bd_events b)"
  have tiles: "tiles 0 ps ?n"
    using packetize_tiles [OF p, where Q = "\<lambda>_ _. True"] assms(3) by (simp add: infos_of_tape)
  have "no_wrap (rc_heartbeat_interval_ns config) ?v \<or> rc_heartbeat_interval_ns config = 0"
    using assms(4) packets_no_wrap [OF tiles assms(3)] by (auto simp: b_def)
  then have f: "finish_feed config ?v q fd events \<noteq> None" for q fd events by (rule finish_feed_returns)
  obtain evs0 where e: "finish_feed config ?v (final_next_seq config (of_nat (length ?infos))) 0 (bd_events b) = Some evs0"
    using f by blast
  obtain evs where "finish_feed config ?v (final_next_seq config (of_nat (length ?infos))) 1 evs0 = Some evs"
    using f by blast
  then show ?thesis using e by (simp add: build_schedule_def Let_def p flip: b_def)
qed

lemma build_schedule_empty: "build_schedule gt config = Some sched \<Longrightarrow> tape_messages gt = [] \<Longrightarrow> rs_events sched = []"
  using infos_of_tape(1) [of gt] by (auto simp: build_schedule_def Let_def)

lemma build_schedule_sorted:
  "build_schedule gt config = Some sched \<Longrightarrow> sorted_wrt (\<lambda>a b. se_release_vt a \<le> se_release_vt b) (rs_events sched)"
  using sorted_by_vt by (auto simp: build_schedule_def Let_def split: if_splits option.splits)

lemma build_schedule_split:
  "build_schedule gt config = Some sched \<Longrightarrow> rc_session_change_at_msg config = None \<Longrightarrow> rs_session_split sched = None"
  by (auto simp: build_schedule_def Let_def split: if_splits option.splits)

section \<open>Properties\<close>

text \<open>C29: every generated schedule is well typed for the transport.  For any configuration,
  seeds, losses and delays, the events are in order of release, and each packet event names a
  non-empty run of messages that exists on the tape, with the sequence number of its first
  message in its session.\<close>

theorem generated_schedule_wf:
  assumes "build_schedule gt config = Some sched" and "length (tape_messages gt) < 2 ^ 64"
  shows "sorted_wrt (\<lambda>a b. se_release_vt a \<le> se_release_vt b) (rs_events sched) \<and>
    (\<forall>ev \<in> set (rs_events sched). case se_kind ev of
       PacketEv q m c \<Rightarrow> c \<noteq> 0 \<and> unat m + unat c \<le> length (tape_messages gt) \<and>
         q = (case rc_session_change_at_msg config of
                Some split_m \<Rightarrow> if split_m \<le> m then m - split_m + 1 else m + 1
              | None \<Rightarrow> m + 1)
     | _ \<Rightarrow> True)"
proof (cases "tape_messages gt = []")
  case True
  then show ?thesis using build_schedule_empty [OF assms(1)] by simp
next
  case False
  obtain ps evs tail final_vt where s: "tiles 0 ps (length (tape_messages gt))" "set (rs_events sched) = set evs \<union> set tail"
    "\<forall>e \<in> set evs. \<exists>p \<in> set ps. carries_packet_at config p (rp_first_msg p * ns_per_msg config) e"
    "\<forall>e \<in> set tail. closing (rc_heartbeat_interval_ns config) final_vt e"
    using schedule_shape [OF assms(1) False assms(2), where Q = "\<lambda>_ _. True"] by blast
  have "case se_kind ev of PacketEv q m c \<Rightarrow> c \<noteq> 0 \<and> unat m + unat c \<le> length (tape_messages gt) \<and>
      q = (case rc_session_change_at_msg config of Some split_m \<Rightarrow> if split_m \<le> m then m - split_m + 1 else m + 1 | None \<Rightarrow> m + 1)
    | _ \<Rightarrow> True" if ev: "ev \<in> set (rs_events sched)" for ev
  proof (cases "ev \<in> set evs")
    case True
    then obtain p where p: "p \<in> set ps" "se_kind ev = packet_kind config p" using s(3) by (auto simp: carries_packet_at_def)
    then show ?thesis using tiles_inside [OF s(1) p(1)] by (auto simp: packet_kind_def packet_seq_def split: option.split)
  next
    case False
    then have "closing (rc_heartbeat_interval_ns config) final_vt ev" using s(2,4) ev by blast
    then show ?thesis by (auto simp: closing_def split: SchedKind.splits)
  qed
  then show ?thesis using build_schedule_sorted [OF assms(1)] by blast
qed

text \<open>Both feeds lose everything they can.\<close>

definition sample_config :: ReplayConfig where
  "sample_config = ReplayConfig_default\<lparr>rc_loss := (Bernoulli 1000, GilbertElliott 10 10 1000 1000)\<rparr>"

lemma sample_config_ok: "\<exists>sched. build_schedule sample_tape sample_config = Some sched"
proof (rule build_schedule_some)
  show "packets_fit sample_config" by (simp add: packets_fit_def sample_config_def ReplayConfig_default_def)
  show "\<forall>m \<in> set (tape_messages sample_tape). validate m = Inr ()"
    using source_okD(1) [OF sample_source_ok] by (simp add: sample_tape_messages sample_source_def)
  show "length (tape_messages sample_tape) < 2 ^ 64" by (simp add: sample_tape_messages)
  show "rc_heartbeat_interval_ns sample_config = 0 \<or> no_delay sample_config \<and> time_ok sample_config (length (tape_messages sample_tape))"
    by (simp add: sample_config_def ReplayConfig_default_def no_delay_def time_ok_def ns_per_msg_def sample_tape_messages)
qed

lemma generated_schedule_wf_witness:
  "\<exists>sched. build_schedule sample_tape sample_config = Some sched \<and>
     (\<forall>ev \<in> set (rs_events sched). case se_kind ev of PacketEv q m c \<Rightarrow> unat m + unat c \<le> 2 \<and> q = m + 1 | _ \<Rightarrow> True)"
proof -
  obtain sched where b: "build_schedule sample_tape sample_config = Some sched" using sample_config_ok by blast
  have "\<forall>ev \<in> set (rs_events sched). case se_kind ev of PacketEv q m c \<Rightarrow> unat m + unat c \<le> 2 \<and> q = m + 1 | _ \<Rightarrow> True"
    using generated_schedule_wf [OF b]
    by (auto simp: sample_tape_messages sample_config_def ReplayConfig_default_def split: SchedKind.splits)
  then show ?thesis using b by blast
qed

text \<open>C13: the coverage guarantee.  With both feeds enabled and the guarantee on, every message of the
  tape is in a packet that at least one feed releases, whatever the loss models, scripted
  drops, delays and seeds do.\<close>

theorem generated_schedule_covers:
  assumes "build_schedule gt config = Some sched" and "length (tape_messages gt) < 2 ^ 64"
    and "rc_guarantee_coverage config" and "rc_feeds_enabled config AND 1 \<noteq> 0" and "rc_feeds_enabled config AND 2 \<noteq> 0"
    and "i < length (tape_messages gt)"
  shows "\<exists>ev \<in> set (rs_events sched). case se_kind ev of
    PacketEv q m c \<Rightarrow> unat m \<le> i \<and> i < unat m + unat c | _ \<Rightarrow> False"
proof -
  have ne: "tape_messages gt \<noteq> []" using assms(6) by auto
  have cov: "covered config" using assms(3-5) by (simp add: covered_def feed_enabled_def push_bit_eq_mult)
  obtain ps evs tail where s: "tiles 0 ps (length (tape_messages gt))" "set (rs_events sched) = set evs \<union> set tail"
    "\<forall>p \<in> set ps. \<exists>e \<in> set evs. carries_packet_at config p (rp_first_msg p * ns_per_msg config) e"
    using schedule_shape [OF assms(1) ne assms(2), where Q = "\<lambda>_ _. True"] cov by blast
  obtain p where p: "p \<in> set ps" "unat (rp_first_msg p) \<le> i" "i < unat (rp_first_msg p) + unat (rp_count p)"
    using tiles_cover [OF s(1), of i] assms(6) by blast
  then obtain e where e: "e \<in> set (rs_events sched)" "se_kind e = packet_kind config p"
    using s(2,3) by (auto simp: carries_packet_at_def)
  show ?thesis by (rule bexI [OF _ e(1)]) (use e(2) p in \<open>simp add: packet_kind_def\<close>)
qed

lemma generated_schedule_covers_witness:
  "\<exists>sched. build_schedule sample_tape sample_config = Some sched \<and>
     (\<exists>ev \<in> set (rs_events sched). case se_kind ev of PacketEv q m c \<Rightarrow> unat m \<le> 1 \<and> 1 < unat m + unat c | _ \<Rightarrow> False)"
proof -
  obtain sched where b: "build_schedule sample_tape sample_config = Some sched" using sample_config_ok by blast
  have "rc_guarantee_coverage sample_config" "rc_feeds_enabled sample_config = 3" "length (tape_messages sample_tape) = 2"
    by (simp_all add: sample_config_def ReplayConfig_default_def sample_tape_messages)
  then show ?thesis using generated_schedule_covers [OF b, of 1] b by auto
qed

text \<open>The schedule builder returns.  With packet sizes of at most 1500 bytes and valid messages, and
  no heartbeats, or heartbeats and no delay with a clock that does not wrap, neither the
  byte-counting loop nor the heartbeat loop runs for ever and no modulus is zero.\<close>

theorem build_schedule_returns:
  assumes "packets_fit config" and "\<forall>m \<in> set (tape_messages gt). validate m = Inr ()" and "length (tape_messages gt) < 2 ^ 64"
    and "rc_heartbeat_interval_ns config = 0 \<or> no_delay config \<and> time_ok config (length (tape_messages gt))"
  shows "\<exists>sched. build_schedule gt config = Some sched"
  using assms by (rule build_schedule_some)

lemma build_schedule_returns_witness:
  "\<exists>sched. build_schedule sample_tape (ReplayConfig_default\<lparr>rc_msgs_per_packet := MtuBound 1500\<rparr>) = Some sched"
proof -
  have "\<forall>m \<in> set (tape_messages sample_tape). validate m = Inr ()"
    using source_okD(1) [OF sample_source_ok] by (simp add: sample_tape_messages sample_source_def)
  then show ?thesis
    by (intro build_schedule_returns)
      (simp_all add: ReplayConfig_default_def packets_fit_def no_delay_def time_ok_def ns_per_msg_def sample_tape_messages)
qed

end
