(* ===== verification/PollLaw.thy ===== *)
theory PollLaw
  imports ReplayPatch
begin

text \<open>
  What the polls of the replay transport release.  The shared walk visits a run of events in
  schedule order and emits the frames among them; the three modes differ in what they store
  per frame only.  Without a clamp every poll advances, so a consumer that polls until
  nothing is released sees every frame once, in order.
\<close>

section \<open>The walk\<close>

definition live :: "ReplayTransport \<Rightarrow> nat \<Rightarrow> nat \<Rightarrow> nat list" where
  "live t a b = filter (\<lambda>i. fm_len (rt_meta t ! i) \<noteq> 0) [a ..< b]"

lemma live_simps [simp]: "live t a a = []"
  by (simp add: live_def)

lemma live_Cons: "a < b \<Longrightarrow> live t a b = (if fm_len (rt_meta t ! a) = 0 then live t (Suc a) b else a # live t (Suc a) b)"
  by (simp add: live_def upt_conv_Cons)

lemma live_append: "a \<le> b \<Longrightarrow> b \<le> c \<Longrightarrow> live t a b @ live t b c = live t a c"
  using upt_add_eq_append [of a b "c - b"] by (simp add: live_def flip: filter_append)

lemma poll_walk_spec:
  "poll_walk emit t vclock limit_evt cap evt n a = (evt', n', a') \<Longrightarrow>
     evt \<le> evt' \<and> evt' \<le> max evt limit_evt \<and> n' = n + length (live t evt evt') \<and>
     a' = fold (\<lambda>(k, i). emit i k (rt_meta t ! i)) (enumerate n (live t evt evt')) a \<and>
     (n \<le> cap \<longrightarrow> n' \<le> cap) \<and>
     (evt' < limit_evt \<longrightarrow> n' < cap \<longrightarrow> rt_coalesce t = 1 \<and> vclock < rt_vts t ! evt') \<and>
     (rt_coalesce t = 1 \<longrightarrow> (\<forall>i. evt \<le> i \<longrightarrow> i < evt' \<longrightarrow> rt_vts t ! i \<le> vclock))"
proof (induction emit t vclock limit_evt cap evt n a arbitrary: evt' n' a' rule: poll_walk.induct)
  case (1 emit t vclock limit_evt cap evt n a)
  note step = poll_walk.simps [of emit t vclock limit_evt cap evt n a]
  consider (stop) "\<not> (evt < limit_evt \<and> n < cap)"
    | (late) "evt < limit_evt" "n < cap" "rt_coalesce t = 1 \<and> vclock < rt_vts t ! evt"
    | (dead) "evt < limit_evt" "n < cap" "\<not> (rt_coalesce t = 1 \<and> vclock < rt_vts t ! evt)" "fm_len (rt_meta t ! evt) = 0"
    | (emit) "evt < limit_evt" "n < cap" "\<not> (rt_coalesce t = 1 \<and> vclock < rt_vts t ! evt)" "fm_len (rt_meta t ! evt) \<noteq> 0"
    by blast
  then show ?case
  proof cases
    case stop
    then have "poll_walk emit t vclock limit_evt cap evt n a = (evt, n, a)" by (subst step) auto
    then show ?thesis using stop "1.prems" by auto
  next
    case late
    then have "poll_walk emit t vclock limit_evt cap evt n a = (evt, n, a)" by (subst step) simp
    then show ?thesis using late "1.prems" by auto
  next
    case dead
    then have "poll_walk emit t vclock limit_evt cap (evt + 1) n a = (evt', n', a')"
      using "1.prems" by (subst (asm) step) auto
    from "1.IH"(1) [OF _ _ _ this] dead
    have ih: "evt + 1 \<le> evt' \<and> evt' \<le> max (evt + 1) limit_evt \<and> n' = n + length (live t (evt + 1) evt') \<and>
       a' = fold (\<lambda>(k, i). emit i k (rt_meta t ! i)) (enumerate n (live t (evt + 1) evt')) a \<and>
       (n \<le> cap \<longrightarrow> n' \<le> cap) \<and>
       (evt' < limit_evt \<longrightarrow> n' < cap \<longrightarrow> rt_coalesce t = 1 \<and> vclock < rt_vts t ! evt') \<and>
       (rt_coalesce t = 1 \<longrightarrow> (\<forall>i. evt + 1 \<le> i \<longrightarrow> i < evt' \<longrightarrow> rt_vts t ! i \<le> vclock))" by simp
    then have "live t evt evt' = live t (evt + 1) evt'" using dead by (simp add: live_Cons [of evt])
    moreover have "rt_coalesce t = 1 \<longrightarrow> (\<forall>i. evt \<le> i \<longrightarrow> i < evt' \<longrightarrow> rt_vts t ! i \<le> vclock)"
      using ih dead(3) by (metis Suc_eq_plus1 Suc_leI le_neq_implies_less not_le)
    ultimately show ?thesis using ih dead by auto
  next
    case emit
    then have "poll_walk emit t vclock limit_evt cap (evt + 1) (n + 1) (emit evt n (rt_meta t ! evt) a) = (evt', n', a')"
      using "1.prems" by (subst (asm) step) auto
    from "1.IH"(2) [OF _ _ _ this] emit
    have ih: "evt + 1 \<le> evt' \<and> evt' \<le> max (evt + 1) limit_evt \<and> n' = n + 1 + length (live t (evt + 1) evt') \<and>
       a' = fold (\<lambda>(k, i). emit i k (rt_meta t ! i)) (enumerate (n + 1) (live t (evt + 1) evt')) (emit evt n (rt_meta t ! evt) a) \<and>
       (n + 1 \<le> cap \<longrightarrow> n' \<le> cap) \<and>
       (evt' < limit_evt \<longrightarrow> n' < cap \<longrightarrow> rt_coalesce t = 1 \<and> vclock < rt_vts t ! evt') \<and>
       (rt_coalesce t = 1 \<longrightarrow> (\<forall>i. evt + 1 \<le> i \<longrightarrow> i < evt' \<longrightarrow> rt_vts t ! i \<le> vclock))" by simp
    then have "live t evt evt' = evt # live t (evt + 1) evt'" using emit by (simp add: live_Cons [of evt])
    moreover have "rt_coalesce t = 1 \<longrightarrow> (\<forall>i. evt \<le> i \<longrightarrow> i < evt' \<longrightarrow> rt_vts t ! i \<le> vclock)"
      using ih emit(3) by (metis Suc_eq_plus1 Suc_leI le_neq_implies_less not_le)
    ultimately show ?thesis using ih emit by auto
  qed
qed

section \<open>Progress\<close>

lemma group_chain_ge:
  assumes "groups_ok vts (rt_group_end t)" "length (rt_meta t) = length vts"
  shows "e \<le> fst (group_chain t lim e mx k) \<and> (e \<le> length vts \<longrightarrow> fst (group_chain t lim e mx k) \<le> length vts)"
  using assms
proof (induction t lim e mx k rule: group_chain.induct)
  case (1 t lim e mx k)
  show ?case
  proof (cases "k < rt_coalesce t \<and> e < length (rt_meta t) \<and> \<not> lim < rt_vts t ! e")
    case True
    then have u: "e < unat (rt_group_end t ! e)" "unat (rt_group_end t ! e) \<le> length vts"
      using "1.prems" by (simp_all add: groups_ok_def)
    have "group_chain t lim e mx k
        = group_chain t lim (unat (rt_group_end t ! e)) (if mx < rt_vts t ! e then rt_vts t ! e else mx) (k + 1)"
      using True by (subst group_chain.simps) simp
    then show ?thesis using "1.IH" [OF _ refl] True "1.prems" u by simp
  next
    case False
    then show ?thesis by (subst (1 2) group_chain.simps) auto
  qed
qed

lemma group_chain_advances:
  assumes "groups_ok vts (rt_group_end t)" "length (rt_meta t) = length vts" "e < length vts"
    "1 \<le> rt_coalesce t" "rt_vts t ! e \<le> lim"
  shows "e < fst (group_chain t lim e mx 0)"
proof -
  have "group_chain t lim e mx 0
      = group_chain t lim (unat (rt_group_end t ! e)) (if mx < rt_vts t ! e then rt_vts t ! e else mx) 1"
    using assms by (subst group_chain.simps) (auto simp: Let_def dest: leD)
  moreover have "e < unat (rt_group_end t ! e)" using assms(1,3) by (simp add: groups_ok_def)
  ultimately show ?thesis
    using group_chain_ge [OF assms(1,2), of "unat (rt_group_end t ! e)" lim "if mx < rt_vts t ! e then rt_vts t ! e else mx" 1]
    by simp
qed

text \<open>With coalescing off the chain is one group, which starts at the current event.\<close>

lemma group_chain_one:
  assumes "rt_coalesce t = 1" "e < length (rt_meta t)"
  shows "snd (group_chain t lim e 0 0) = (if lim < rt_vts t ! e then 0 else rt_vts t ! e)"
proof -
  have "snd (group_chain t lim e' m 1) = m" for e' m
    using assms(1) by (subst group_chain.simps) simp
  then show ?thesis using assms
    by (subst group_chain.simps) (auto simp: Let_def word_gt_0 not_less)
qed

text \<open>One poll without a clamp.\<close>

lemma poll_impl_spec:
  assumes d: "directory_ok gt ss t" and c: "rt_clock_clamp t = None" and i: "rt_event_idx t < length (rt_meta t)"
    and cap: "0 < cap" and p: "poll_impl emit cap None t a = (t', n, a')"
  shows "rt_event_idx t < rt_event_idx t' \<and> rt_event_idx t' \<le> length (rt_meta t) \<and>
    n = length (live t (rt_event_idx t) (rt_event_idx t')) \<and> n \<le> cap \<and>
    a' = fold (\<lambda>(k, i). emit i k (rt_meta t ! i)) (enumerate 0 (live t (rt_event_idx t) (rt_event_idx t'))) a \<and>
    t' = t\<lparr>rt_virtual_clock := rt_virtual_clock t', rt_event_idx := rt_event_idx t'\<rparr> \<and>
    (rt_coalesce t = 1 \<longrightarrow> rt_virtual_clock t' = max (rt_virtual_clock t) (rt_vts t ! rt_event_idx t) \<and>
       (\<forall>j. rt_event_idx t \<le> j \<longrightarrow> j < rt_event_idx t' \<longrightarrow> rt_vts t ! j \<le> rt_virtual_clock t'))"
proof -
  let ?i = "rt_event_idx t" and ?n = "length (rt_meta t)"
  let ?evs = "rs_events (rt_schedule t)"
  note dd = d [unfolded directory_ok_def]
  have len: "?n = length ?evs" using dd by (simp add: served_ok_def)
  have vts: "rt_vts t = map se_release_vt ?evs" "groups_ok (rt_vts t) (rt_group_end t)" "1 \<le> rt_coalesce t"
    using dd by simp_all
  have lv: "length (rt_vts t) = ?n" using vts(1) len by simp
  obtain e mx where g: "group_chain t (- 1) ?i 0 0 = (e, mx)" by fastforce
  define v0 where "v0 = (if rt_virtual_clock t < rt_vts t ! ?i then rt_vts t ! ?i else rt_virtual_clock t)"
  define vc where "vc = (if v0 < mx then mx else v0)"
  define lim where "lim = (if rt_coalesce t = 1 then ?n else e)"
  obtain evt m b where w: "poll_walk emit t vc lim cap ?i 0 a = (evt, m, b)" by (metis prod_cases3)
  have pi: "poll_impl emit cap None t a = (t\<lparr>rt_virtual_clock := vc, rt_event_idx := evt\<rparr>, m, b)"
    unfolding poll_impl_def c Let_def option.case g prod.case v0_def [symmetric] vc_def [symmetric] lim_def [symmetric] w
    using i by simp
  then have r: "t' = t\<lparr>rt_virtual_clock := vc, rt_event_idx := evt\<rparr>" "n = m" "a' = b" using p by simp_all
  have ge: "?i < e" "e \<le> ?n"
  proof -
    have "rt_vts t ! ?i \<le> - 1" by (rule word_order.extremum)
    then show "?i < e" using group_chain_advances [OF vts(2) lv [symmetric], of ?i "-1" 0] i vts(3) lv g by simp
    show "e \<le> ?n" using group_chain_ge [OF vts(2) lv [symmetric], of ?i "-1" 0 0] i lv g by simp
  qed
  note spec = poll_walk_spec [OF w]
  have vcge: "rt_vts t ! ?i \<le> vc" by (auto simp: vc_def v0_def)
  have one: "vc = max (rt_virtual_clock t) (rt_vts t ! ?i)" if "rt_coalesce t = 1"
    using group_chain_one [OF that i, of "-1"] g by (auto simp: vc_def v0_def max_def)
  have adv: "?i < evt"
  proof (rule ccontr)
    assume "\<not> ?i < evt"
    then have "evt = ?i" using spec by simp
    moreover have "?i < lim" using i ge(1) by (simp add: lim_def)
    ultimately have "rt_coalesce t = 1 \<and> vc < rt_vts t ! ?i" using spec cap by simp
    then show False using vcge leD by blast
  qed
  have "evt \<le> max ?i lim" using spec by blast
  then have "evt \<le> ?n" using i ge by (auto simp: lim_def max_def split: if_splits)
  moreover have "m = length (live t ?i evt)" "m \<le> cap"
    "b = fold (\<lambda>(k, i). emit i k (rt_meta t ! i)) (enumerate 0 (live t ?i evt)) a"
    "rt_coalesce t = 1 \<longrightarrow> (\<forall>j. ?i \<le> j \<longrightarrow> j < evt \<longrightarrow> rt_vts t ! j \<le> vc)"
    using spec by simp_all
  ultimately show ?thesis unfolding r using adv one by simp
qed

section \<open>What a poll hands out\<close>

definition plain_entry :: "ReplayTransport \<Rightarrow> FrameMeta \<Rightarrow> FrameEntry" where
  "plain_entry t m = snd (meta_entry False 0 0 t m)"

definition frame_slot :: "ReplayTransport \<Rightarrow> FrameMeta \<Rightarrow> FrameView" where
  "frame_slot t m =
     \<lparr>fv_ptr = Some (unat (fm_offset m)), fv_len = fm_len m, fv_feed = fm_feed m, fv_blk_base = fm_blk_base m,
      fv_blk_count = fm_blk_count m, fv_valid = fm_valid m, fv_first_seq = fm_first_seq m,
      fv_sess_lo = frame_sess_lo t m, fv_sess_hi = frame_sess_hi t m\<rparr>"

lemma fold_emit_slot:
  assumes "fb_len b + length evs \<le> length (fb_slots b)"
  shows "length (fb_slots (fst (fold (\<lambda>(k, i). emit_slot t i k (rt_meta t ! i)) (enumerate n evs) (b, be)))) = length (fb_slots b) \<and>
    fb_len (fst (fold (\<lambda>(k, i). emit_slot t i k (rt_meta t ! i)) (enumerate n evs) (b, be))) = fb_len b + length evs \<and>
    FrameBatch_frames (fst (fold (\<lambda>(k, i). emit_slot t i k (rt_meta t ! i)) (enumerate n evs) (b, be)))
      = FrameBatch_frames b @ map (\<lambda>i. frame_slot t (rt_meta t ! i)) evs"
  using assms
proof (induction evs arbitrary: b be n)
  case Nil
  then show ?case by simp
next
  case (Cons i evs)
  let ?b = "FrameBatch_push_indexed (frame_slot t (rt_meta t ! i)) b"
  have s: "emit_slot t i n (rt_meta t ! i) (b, be)
      = (?b, if rt_coalesce t = 1 then be[fb_len b := of_nat i] else be)"
    by (simp add: emit_slot_def frame_slot_def)
  have b: "length (fb_slots ?b) = length (fb_slots b)" "fb_len ?b = fb_len b + 1"
    "FrameBatch_frames ?b = FrameBatch_frames b @ [frame_slot t (rt_meta t ! i)]"
    using Cons.prems by (simp_all add: FrameBatch_push_indexed_def FrameBatch_frames_def take_Suc_conv_app_nth)
  show ?case using Cons.IH [of ?b "Suc n"] Cons.prems b by (simp add: s)
qed

lemma entry_of_slot:
  assumes "fm_len m \<noteq> 0" "rt_frames t' = rt_frames t" "rt_triples t' = rt_triples t" "rt_base t' = rt_base t"
  shows "(let (blocks, memo) = frame_blocks_memo t' (frame_slot t m)
      in \<lparr>fe_ptr = (case fv_ptr (frame_slot t m) of None \<Rightarrow> 0 | Some p \<Rightarrow> rt_base t' + of_nat p),
          fe_bytes = FrameView_bytes (rt_frames t') (frame_slot t m), fe_feed = fv_feed (frame_slot t m), fe_blocks = blocks,
          fe_memo = memo, fe_first_seq = fv_first_seq (frame_slot t m), fe_sess_lo = fv_sess_lo (frame_slot t m),
          fe_sess_hi = fv_sess_hi (frame_slot t m), fe_elig = fv_feed (frame_slot t m) AND 3\<rparr>) = plain_entry t m"
  using assms
  by (simp add: frame_slot_def frame_blocks_memo_def plain_entry_def meta_entry_def FrameView_bytes_def frame_at_def
      blocks_at_def memo_at_def elig_byte_def)

definition batch_ok :: "FrameBatch \<Rightarrow> bool" where
  "batch_ok b \<longleftrightarrow> length (fb_slots b) = 256"

lemma poll_spec:
  assumes d: "directory_ok gt ss t" and c: "rt_clock_clamp t = None" and b: "batch_ok batch"
    and i: "rt_event_idx t < length (rt_meta t)" and p: "poll t batch = (t', batch', n)"
  shows "rt_event_idx t < rt_event_idx t' \<and> rt_event_idx t' \<le> length (rt_meta t) \<and>
    n = length (live t (rt_event_idx t) (rt_event_idx t')) \<and> batch_ok batch' \<and>
    batch_entries t' batch' = map (\<lambda>i. plain_entry t (rt_meta t ! i)) (live t (rt_event_idx t) (rt_event_idx t')) \<and>
    t' = t\<lparr>rt_virtual_clock := rt_virtual_clock t', rt_event_idx := rt_event_idx t', rt_batch_event := rt_batch_event t',
      rt_batch_event_len := rt_batch_event_len t'\<rparr> \<and>
    (rt_coalesce t = 1 \<longrightarrow> rt_virtual_clock t' = max (rt_virtual_clock t) (rt_vts t ! rt_event_idx t) \<and>
       (\<forall>j. rt_event_idx t \<le> j \<longrightarrow> j < rt_event_idx t' \<longrightarrow> rt_vts t ! j \<le> rt_virtual_clock t'))"
proof -
  let ?a = "(FrameBatch_clear batch, rt_batch_event t)"
  obtain t1 m a1 where pi: "poll_impl (emit_slot t) FrameBatch_capacity None t ?a = (t1, m, a1)" by (metis prod_cases3)
  obtain batch1 be where a1: "a1 = (batch1, be)" by (cases a1)
  have r: "t' = t1\<lparr>rt_batch_event := be, rt_batch_event_len := fb_len batch1\<rparr>" "batch' = batch1" "n = fb_len batch1"
    using p i by (auto simp: poll_def poll_clamped_def pi a1)
  have "0 < FrameBatch_capacity" by (simp add: FrameBatch_capacity_def)
  note spec = poll_impl_spec [OF d c i this pi]
  let ?evs = "live t (rt_event_idx t) (rt_event_idx t1)"
  have "fb_len (FrameBatch_clear batch) + length ?evs \<le> length (fb_slots (FrameBatch_clear batch))"
    using spec b by (simp add: FrameBatch_clear_def FrameBatch_capacity_def batch_ok_def)
  note f = fold_emit_slot [OF this, of t 0 "rt_batch_event t"]
  have b1: "batch1 = fst (fold (\<lambda>(k, i). emit_slot t i k (rt_meta t ! i)) (enumerate 0 ?evs) ?a)"
    using spec a1 by (metis fst_conv)
  have fr: "FrameBatch_frames batch1 = map (\<lambda>i. frame_slot t (rt_meta t ! i)) ?evs" "length (fb_slots batch1) = 256"
    "fb_len batch1 = length ?evs"
    using f [folded b1] b
    by (simp_all add: FrameBatch_clear_def batch_ok_def) (simp add: FrameBatch_frames_def [of "batch\<lparr>fb_len := 0\<rparr>"])
  have t1: "t1 = t\<lparr>rt_virtual_clock := rt_virtual_clock t1, rt_event_idx := rt_event_idx t1\<rparr>" using spec by blast
  have same: "rt_frames t' = rt_frames t" "rt_triples t' = rt_triples t" "rt_base t' = rt_base t" "rt_event_idx t' = rt_event_idx t1"
    "rt_virtual_clock t' = rt_virtual_clock t1"
    using arg_cong [OF t1, of rt_frames] arg_cong [OF t1, of rt_triples] arg_cong [OF t1, of rt_base]
    by (simp_all add: r(1))
  have "batch_entries t' batch' = map (\<lambda>i. plain_entry t (rt_meta t ! i)) ?evs"
    unfolding batch_entries_def r(2) fr(1) map_map comp_def
    by (rule map_cong [OF refl], rule entry_of_slot) (auto simp: live_def same)
  moreover have "t' = t\<lparr>rt_virtual_clock := rt_virtual_clock t', rt_event_idx := rt_event_idx t', rt_batch_event := rt_batch_event t',
      rt_batch_event_len := rt_batch_event_len t'\<rparr>"
    by (subst r(1), subst t1) (simp add: r(1))
  moreover have "rt_coalesce t = 1 \<longrightarrow> rt_virtual_clock t' = max (rt_virtual_clock t) (rt_vts t ! rt_event_idx t) \<and>
       (\<forall>j. rt_event_idx t \<le> j \<longrightarrow> j < rt_event_idx t' \<longrightarrow> rt_vts t ! j \<le> rt_virtual_clock t')"
    using spec unfolding same(4,5) by blast
  moreover have "rt_event_idx t < rt_event_idx t' \<and> rt_event_idx t' \<le> length (rt_meta t)"
    using spec unfolding same(4) by blast
  ultimately show ?thesis using fr(2,3) unfolding batch_ok_def r(2,3) same(4) by blast
qed

lemma fold_emit_slot_len:
  "fb_len (fst (fold (\<lambda>(k, i). emit_slot t i k (rt_meta t ! i)) (enumerate n evs) (b, be))) = fb_len b + length evs"
  by (induction evs arbitrary: b be n) (simp_all add: emit_slot_def FrameBatch_push_indexed_def)

section \<open>The modes agree\<close>

lemma poll_walk_parametric:
  "fst (poll_walk emit t vc lim cap evt n a) = fst (poll_walk emit' t vc lim cap evt n a') \<and>
   fst (snd (poll_walk emit t vc lim cap evt n a)) = fst (snd (poll_walk emit' t vc lim cap evt n a'))"
proof (induction emit t vc lim cap evt n a arbitrary: a' rule: poll_walk.induct)
  case (1 emit t vc lim cap evt n a)
  note s = poll_walk.simps [of emit t vc lim cap evt n a] poll_walk.simps [of emit' t vc lim cap evt n a']
  consider (stop) "\<not> (evt < lim \<and> n < cap) \<or> rt_coalesce t = 1 \<and> vc < rt_vts t ! evt"
    | (dead) "evt < lim" "n < cap" "\<not> (rt_coalesce t = 1 \<and> vc < rt_vts t ! evt)" "fm_len (rt_meta t ! evt) = 0"
    | (emit) "evt < lim" "n < cap" "\<not> (rt_coalesce t = 1 \<and> vc < rt_vts t ! evt)" "fm_len (rt_meta t ! evt) \<noteq> 0"
    by blast
  then show ?case
  proof cases
    case stop
    then show ?thesis unfolding s by auto
  next
    case dead
    then show ?thesis using "1.IH"(1) [of a'] unfolding s by auto
  next
    case emit
    then show ?thesis using "1.IH"(2) [of "emit' evt n (rt_meta t ! evt) a'"] unfolding s by auto
  qed
qed

text \<open>What the pacing of a poll decides, whatever the mode does with the frames.\<close>

definition poll_pace :: "ReplayTransport \<Rightarrow> u64 \<times> nat" where
  "poll_pace t =
     (let first = rt_vts t ! rt_event_idx t;
          limit = (case rt_clock_clamp t of Some c \<Rightarrow> min first c | None \<Rightarrow> first);
          vclock0 = (if rt_virtual_clock t < limit then limit else rt_virtual_clock t);
          g = group_chain t (case rt_clock_clamp t of Some c \<Rightarrow> c | None \<Rightarrow> - 1) (rt_event_idx t) 0 0
      in (if vclock0 < snd g then snd g else vclock0, if rt_coalesce t = 1 then length (rt_meta t) else fst g))"

lemma poll_impl_pace:
  "poll_impl emit cap None t a =
     (if length (rt_meta t) \<le> rt_event_idx t then (t, 0, a)
      else let r = poll_walk emit t (fst (poll_pace t)) (snd (poll_pace t)) cap (rt_event_idx t) 0 a
           in (t\<lparr>rt_virtual_clock := fst (poll_pace t), rt_event_idx := fst r\<rparr>, fst (snd r), snd (snd r)))"
  by (simp add: poll_impl_def poll_pace_def Let_def case_prod_beta)

definition poll_core :: "nat \<Rightarrow> ReplayTransport \<Rightarrow> ReplayTransport \<times> nat" where
  "poll_core cap t = (let r = poll_impl (\<lambda>_ _ _ u. u) cap None t (0 :: nat) in (fst r, fst (snd r)))"

lemma poll_impl_core:
  "fst (poll_impl emit cap None t a) = fst (poll_core cap t)" (is ?fst)
  "fst (snd (poll_impl emit cap None t a)) = snd (poll_core cap t)" (is ?n)
  "snd (snd (poll_impl emit cap None t a)) = fold (\<lambda>(k, i). emit i k (rt_meta t ! i))
     (enumerate 0 (live t (rt_event_idx t) (rt_event_idx (fst (poll_core cap t))))) a" (is ?out)
  "snd (poll_core cap t) = length (live t (rt_event_idx t) (rt_event_idx (fst (poll_core cap t))))" (is ?len)
  "snd (poll_core cap t) \<le> cap" (is ?cap)
proof -
  obtain evt n b where p: "poll_walk emit t (fst (poll_pace t)) (snd (poll_pace t)) cap (rt_event_idx t) 0 a = (evt, n, b)"
    by (metis prod_cases3)
  have "fst (poll_walk (\<lambda>_ _ _ u. u) t (fst (poll_pace t)) (snd (poll_pace t)) cap (rt_event_idx t) 0 (0 :: nat)) = evt \<and>
      fst (snd (poll_walk (\<lambda>_ _ _ u. u) t (fst (poll_pace t)) (snd (poll_pace t)) cap (rt_event_idx t) 0 (0 :: nat))) = n"
    using poll_walk_parametric [of emit t "fst (poll_pace t)" "snd (poll_pace t)" cap "rt_event_idx t" 0 a "\<lambda>_ _ _ u. u" "0 :: nat"] p
    by simp
  then have "?fst \<and> ?n \<and> ?out \<and> ?len \<and> ?cap"
    using poll_walk_spec [OF p] by (cases "length (rt_meta t) \<le> rt_event_idx t") (simp_all add: poll_core_def poll_impl_pace p Let_def)
  then show ?fst ?n ?out ?len ?cap by blast+
qed

text \<open>What a consumer can see of an entry without reading through its pointers.\<close>

definition entry_view :: "EntryAt \<Rightarrow> u64 \<times> nat \<times> nat option \<times> nat \<times> u8 \<times> FrameMemo option \<times> u64 \<times> u64 \<times> u64 \<times> u8" where
  "entry_view a = (fe_ptr (snd a), length (fe_bytes (snd a)), fst a, length (fe_blocks (snd a)), fe_feed (snd a),
     fe_memo (snd a), fe_first_seq (snd a), fe_sess_lo (snd a), fe_sess_hi (snd a), fe_elig (snd a))"

lemma warm_entry_neq_view: "warm_entry_neq a b \<longleftrightarrow> entry_view a \<noteq> entry_view b"
  by (auto simp: warm_entry_neq_def entry_view_def)

lemma emit_warm_step:
  assumes "n < length (wc_out w)"
  shows "wc_idx (emit_warm t i n m w) = wc_idx w + 1" "length (wc_out (emit_warm t i n m w)) = length (wc_out w)"
    "map entry_view (take (Suc n) (wc_out (emit_warm t i n m w)))
      = map entry_view (take n (wc_out w)) @ [entry_view (meta_entry (wc_compute_elig w) (wc_sess_lo_tmpl w) (wc_sess_hi_tmpl w) t m)]"
    "wc_compute_elig (emit_warm t i n m w) = wc_compute_elig w" "wc_sess_lo_tmpl (emit_warm t i n m w) = wc_sess_lo_tmpl w"
    "wc_sess_hi_tmpl (emit_warm t i n m w) = wc_sess_hi_tmpl w"
  using assms by (auto simp: emit_warm_def Let_def warm_entry_neq_view take_Suc_conv_app_nth)

lemma fold_emit_warm:
  assumes "n + length evs \<le> length (wc_out w)" "w' = fold (\<lambda>(k, i). emit_warm t i k (rt_meta t ! i)) (enumerate n evs) w"
  shows "wc_idx w' = wc_idx w + length evs \<and>
    map entry_view (take (n + length evs) (wc_out w')) = map entry_view (take n (wc_out w)) @
      map (\<lambda>i. entry_view (meta_entry (wc_compute_elig w) (wc_sess_lo_tmpl w) (wc_sess_hi_tmpl w) t (rt_meta t ! i))) evs"
  using assms
proof (induction evs arbitrary: w w' n)
  case Nil
  then show ?case by simp
next
  case (Cons i evs)
  have n: "n < length (wc_out w)" using Cons.prems(1) by simp
  note s = emit_warm_step [OF n, of t i "rt_meta t ! i"]
  have "Suc n + length evs \<le> length (wc_out (emit_warm t i n (rt_meta t ! i) w))" using Cons.prems(1) s(2) by simp
  from Cons.IH [OF this refl] show ?case by (simp add: Cons.prems(2) s)
qed

lemma fold_emit_count: "wc_idx (fold (\<lambda>(k, i). emit_count i k (rt_meta t ! i)) ks w) = wc_idx w + length ks"
  by (induction ks arbitrary: w) (auto simp: emit_count_def)

text \<open>What the entries of two modes have in common: every field but the derived session bit, which
  only the warm mode computes.\<close>

definition entry_fields :: "FrameEntry \<Rightarrow> u64 \<times> nat \<times> nat \<times> u8 \<times> FrameMemo option \<times> u64 \<times> u64 \<times> u64 \<times> u8" where
  "entry_fields e = (fe_ptr e, length (fe_bytes e), length (fe_blocks e), fe_feed e, fe_memo e, fe_first_seq e,
     fe_sess_lo e, fe_sess_hi e, fe_elig e AND 3)"

lemma entry_view_fields: "entry_view a = entry_view b \<Longrightarrow> entry_fields (snd a) = entry_fields (snd b)"
  by (simp add: entry_view_def entry_fields_def)

lemma elig_byte_low: "elig_byte c lo hi t m AND 3 = fm_feed m AND 3"
  by (simp add: elig_byte_def bit.conj_disj_distrib2 and.assoc)

lemma meta_entry_fields: "entry_fields (snd (meta_entry c lo hi t m)) = entry_fields (plain_entry t m)"
  by (simp add: entry_fields_def plain_entry_def meta_entry_def elig_byte_low)

lemma views_fields:
  assumes "map entry_view xs = map entry_view ys"
  shows "map (\<lambda>a. entry_fields (snd a)) xs = map (\<lambda>a. entry_fields (snd a)) ys"
  using assms
proof (induction xs arbitrary: ys)
  case (Cons x xs)
  then obtain y ys' where "ys = y # ys'" "entry_view x = entry_view y" "map entry_view xs = map entry_view ys'" by auto
  then show ?case using Cons.IH [of ys'] entry_view_fields [of x y] by simp
qed simp

text \<open>The batch of the slot mode.\<close>

lemma poll_batch:
  assumes "batch_ok batch"
  shows "FrameBatch_frames (fst (snd (poll t batch)))
      = map (\<lambda>i. frame_slot t (rt_meta t ! i)) (live t (rt_event_idx t) (rt_event_idx (fst (poll t batch)))) \<and>
    batch_entries (fst (poll t batch)) (fst (snd (poll t batch)))
      = map (\<lambda>i. plain_entry t (rt_meta t ! i)) (live t (rt_event_idx t) (rt_event_idx (fst (poll t batch))))"
proof -
  let ?a = "(FrameBatch_clear batch, rt_batch_event t)" and ?t1 = "fst (poll_core FrameBatch_capacity t)"
  let ?evs = "live t (rt_event_idx t) (rt_event_idx ?t1)"
  note core = poll_impl_core(1-3) [where emit = "emit_slot t" and cap = FrameBatch_capacity and t = t and a = ?a]
    poll_impl_core(4,5) [where cap = FrameBatch_capacity and t = t]
  have b: "fst (snd (poll t batch)) = fst (fold (\<lambda>(k, i). emit_slot t i k (rt_meta t ! i)) (enumerate 0 ?evs) ?a)"
    using core(3) by (simp add: poll_def poll_clamped_def Let_def case_prod_beta)
  have "length ?evs \<le> 256" using core(4,5) by (simp add: FrameBatch_capacity_def)
  then have "fb_len (FrameBatch_clear batch) + length ?evs \<le> length (fb_slots (FrameBatch_clear batch))"
    using assms by (simp add: FrameBatch_clear_def batch_ok_def)
  from fold_emit_slot [OF this, of t 0 "rt_batch_event t"]
  have f: "FrameBatch_frames (fst (snd (poll t batch))) = map (\<lambda>i. frame_slot t (rt_meta t ! i)) ?evs"
    unfolding b by (simp add: FrameBatch_clear_def FrameBatch_frames_def [of "batch\<lparr>fb_len := 0\<rparr>"])
  have "rt_event_idx (fst (poll t batch)) = rt_event_idx ?t1"
    using core(1) by (simp add: poll_def poll_clamped_def Let_def case_prod_beta)
  moreover have "rt_frames (fst (poll t batch)) = rt_frames t" "rt_triples (fst (poll t batch)) = rt_triples t"
    "rt_base (fst (poll t batch)) = rt_base t"
    by (simp_all add: poll_def poll_clamped_def Let_def case_prod_beta poll_impl_pace)
  ultimately have t: "rt_frames (fst (poll t batch)) = rt_frames t" "rt_triples (fst (poll t batch)) = rt_triples t"
    "rt_base (fst (poll t batch)) = rt_base t" "rt_event_idx (fst (poll t batch)) = rt_event_idx ?t1"
    by blast+
  have "batch_entries (fst (poll t batch)) (fst (snd (poll t batch))) = map (\<lambda>i. plain_entry t (rt_meta t ! i)) ?evs"
    unfolding batch_entries_def f map_map comp_def
    by (rule map_cong [OF refl], rule entry_of_slot) (auto simp: live_def t)
  then show ?thesis using f by (simp only: t(4))
qed

text \<open>C16: the three poll modes release the same frames.  From any transport state, the slot
  mode, the warm mode with any warm array and counters, and the counting mode consume the same
  events, move the clock to the same value and report the same number of frames, and the counters
  of the last two advance by it.  The slot mode fills the batch with the slots of the directory
  rows of the frames it passed, in order, feed, block range, validity, number and session words
  included; read back as entries these are the rows' own entries.  The warm mode's check-and-fix
  hands out, entry by entry, exactly the fields a fresh derivation from the directory gives,
  however stale the warm array was; so its entries and those of the slot mode agree in every
  field but the derived session bit, which only the warm mode has.  (A batch has its 256 slots and
  the warm output has room for a batch.)\<close>

theorem poll_modes_agree:
  assumes "FrameBatch_capacity \<le> length (wc_out w)" and "length (fb_slots batch) = 256"
  shows "snd (snd (poll_warm t w)) = snd (snd (poll t batch)) \<and> snd (snd (poll_rxbuild t w)) = snd (snd (poll t batch)) \<and>
    rt_event_idx (fst (poll_warm t w)) = rt_event_idx (fst (poll t batch)) \<and>
    rt_event_idx (fst (poll_rxbuild t w)) = rt_event_idx (fst (poll t batch)) \<and>
    rt_virtual_clock (fst (poll_warm t w)) = rt_virtual_clock (fst (poll t batch)) \<and>
    rt_virtual_clock (fst (poll_rxbuild t w)) = rt_virtual_clock (fst (poll t batch)) \<and>
    wc_idx (fst (snd (poll_warm t w))) = wc_idx w + snd (snd (poll t batch)) \<and>
    wc_idx (fst (snd (poll_rxbuild t w))) = wc_idx w + snd (snd (poll t batch)) \<and>
    FrameBatch_frames (fst (snd (poll t batch)))
      = map (\<lambda>i. frame_slot t (rt_meta t ! i)) (live t (rt_event_idx t) (rt_event_idx (fst (poll t batch)))) \<and>
    batch_entries (fst (poll t batch)) (fst (snd (poll t batch)))
      = map (\<lambda>i. plain_entry t (rt_meta t ! i)) (live t (rt_event_idx t) (rt_event_idx (fst (poll t batch)))) \<and>
    map entry_view (take (snd (snd (poll t batch))) (wc_out (fst (snd (poll_warm t w)))))
      = map (\<lambda>i. entry_view (meta_entry (wc_compute_elig w) (wc_sess_lo_tmpl w) (wc_sess_hi_tmpl w) t (rt_meta t ! i)))
          (live t (rt_event_idx t) (rt_event_idx (fst (poll t batch)))) \<and>
    map (\<lambda>a. entry_fields (snd a)) (take (snd (snd (poll t batch))) (wc_out (fst (snd (poll_warm t w)))))
      = map entry_fields (batch_entries (fst (poll t batch)) (fst (snd (poll t batch))))"
proof -
  define t1 n where "t1 = fst (poll_core FrameBatch_capacity t)" and "n = snd (poll_core FrameBatch_capacity t)"
  let ?evs = "live t (rt_event_idx t) (rt_event_idx t1)"
  have n: "n = length ?evs" "n \<le> FrameBatch_capacity"
    using poll_impl_core(4,5) [where t = t and cap = FrameBatch_capacity] by (simp_all add: t1_def n_def)
  have ok: "batch_ok batch" using assms(2) by (simp add: batch_ok_def)
  note b = poll_batch [OF ok, of t]
  have z: "n = 0" if "length (rt_meta t) \<le> rt_event_idx t"
    using that by (simp add: n_def poll_core_def poll_impl_def)
  have cap: "min (length (wc_out w)) FrameBatch_capacity = FrameBatch_capacity" using assms by simp
  have p: "snd (snd (poll t batch)) = n \<and> rt_event_idx (fst (poll t batch)) = rt_event_idx t1 \<and>
      rt_virtual_clock (fst (poll t batch)) = rt_virtual_clock t1"
    using poll_impl_core(1-3) [where emit = "emit_slot t" and cap = FrameBatch_capacity and t = t and a = "(FrameBatch_clear batch, rt_batch_event t)"] z n(1)
      fold_emit_slot_len [of t 0 ?evs "FrameBatch_clear batch" "rt_batch_event t"] 
    by (simp add: poll_def poll_clamped_def Let_def FrameBatch_clear_def case_prod_beta flip: t1_def n_def)
  have w: "fst (snd (poll_warm t w)) = fold (\<lambda>(k, i). emit_warm t i k (rt_meta t ! i)) (enumerate 0 ?evs) w \<and>
      snd (snd (poll_warm t w)) = n \<and> rt_event_idx (fst (poll_warm t w)) = rt_event_idx t1 \<and>
      rt_virtual_clock (fst (poll_warm t w)) = rt_virtual_clock t1"
    using poll_impl_core(1-3) [where emit = "emit_warm t" and cap = FrameBatch_capacity and t = t and a = w] z
    by (auto simp: poll_warm_def Let_def cap split: prod.split simp flip: t1_def n_def)
  have c: "fst (snd (poll_rxbuild t w)) = fold (\<lambda>(k, i). emit_count i k (rt_meta t ! i)) (enumerate 0 ?evs) w \<and>
      snd (snd (poll_rxbuild t w)) = n \<and> rt_event_idx (fst (poll_rxbuild t w)) = rt_event_idx t1 \<and>
      rt_virtual_clock (fst (poll_rxbuild t w)) = rt_virtual_clock t1"
    using poll_impl_core(1-3) [where emit = emit_count and cap = FrameBatch_capacity and t = t and a = w] z
    by (auto simp: poll_rxbuild_def Let_def split: prod.split simp flip: t1_def n_def)
  have "0 + length ?evs \<le> length (wc_out w)" using n assms by simp
  then have f: "wc_idx (fold (\<lambda>(k, i). emit_warm t i k (rt_meta t ! i)) (enumerate 0 ?evs) w) = wc_idx w + length ?evs \<and>
      map entry_view (take (0 + length ?evs) (wc_out (fold (\<lambda>(k, i). emit_warm t i k (rt_meta t ! i)) (enumerate 0 ?evs) w)))
        = map entry_view (take 0 (wc_out w)) @
          map (\<lambda>i. entry_view (meta_entry (wc_compute_elig w) (wc_sess_lo_tmpl w) (wc_sess_hi_tmpl w) t (rt_meta t ! i))) ?evs"
    by (rule fold_emit_warm [OF _ refl])
  then have v: "map entry_view (take (snd (snd (poll t batch))) (wc_out (fst (snd (poll_warm t w)))))
      = map (\<lambda>i. entry_view (meta_entry (wc_compute_elig w) (wc_sess_lo_tmpl w) (wc_sess_hi_tmpl w) t (rt_meta t ! i)))
          (live t (rt_event_idx t) (rt_event_idx (fst (poll t batch))))"
    using p w n(1) by simp
  then have "map entry_view (take (snd (snd (poll t batch))) (wc_out (fst (snd (poll_warm t w)))))
      = map entry_view (map (\<lambda>i. meta_entry (wc_compute_elig w) (wc_sess_lo_tmpl w) (wc_sess_hi_tmpl w) t (rt_meta t ! i))
          (live t (rt_event_idx t) (rt_event_idx (fst (poll t batch)))))"
    by (simp add: comp_def)
  then have "map (\<lambda>a. entry_fields (snd a)) (take (snd (snd (poll t batch))) (wc_out (fst (snd (poll_warm t w)))))
      = map entry_fields (batch_entries (fst (poll t batch)) (fst (snd (poll t batch))))"
    unfolding conjunct2 [OF b] by (drule_tac views_fields) (simp add: comp_def meta_entry_fields)
  then show ?thesis using p w c f v b fold_emit_count [of t "enumerate 0 ?evs" w] n(1) by simp
qed

definition sample_warm :: WarmEmitCtx where
  "sample_warm = \<lparr>wc_out = replicate 256 (None, plain_entry sample_transport (tombstone 0)), wc_warm = [], wc_idx = 0,
     wc_fixes = 0, wc_uncovered = 0, wc_sess_lo_tmpl = 0, wc_sess_hi_tmpl = 0, wc_compute_elig = True\<rparr>"

lemma poll_modes_agree_witness:
  "snd (snd (poll_warm sample_transport sample_warm)) = snd (snd (poll sample_transport FrameBatch_new)) \<and>
    map (\<lambda>a. entry_fields (snd a)) (take (snd (snd (poll sample_transport FrameBatch_new))) (wc_out (fst (snd (poll_warm sample_transport sample_warm)))))
      = map entry_fields (batch_entries (fst (poll sample_transport FrameBatch_new)) (fst (snd (poll sample_transport FrameBatch_new))))"
  using poll_modes_agree [of sample_warm FrameBatch_new sample_transport]
  by (simp add: sample_warm_def FrameBatch_capacity_def FrameBatch_new_def)

end
