(* ===== verification/ReplayIngest.thy ===== *)
theory ReplayIngest
  imports PollLaw GroupLaw
begin

text \<open>
  The transport driving the sequencer: the passes of \<open>crates/nf-testkit/src/batch_parity.rs\<close>.
  A pass polls until nothing is released and hands every batch to the sequencer, either as
  one slice of entries or frame by frame with the block index of the position.  Both come
  down to feeding every frame of the schedule, in schedule order and at its own release time,
  to the reference step \<open>ingest\<close>.
\<close>

section \<open>Passes\<close>

text \<open>The loop of a pass; the body consumes one batch.  Whether it ever ends is a theorem.\<close>

partial_function (option) poll_loop ::
    "(ReplayTransport \<Rightarrow> FrameBatch \<Rightarrow> Sequencer \<Rightarrow> step) \<Rightarrow> ReplayTransport \<Rightarrow> FrameBatch \<Rightarrow> Sequencer \<Rightarrow>
       SinkCall list \<Rightarrow> (ReplayTransport \<times> Sequencer \<times> SinkCall list) option" where
  "poll_loop body t b sq calls =
     (let (t1, b1, n) = poll t b
      in if n = 0 then Some (t1, sq, calls)
         else let (sq1, cs) = body t1 b1 sq in poll_loop body t1 b1 sq1 (calls @ cs))"

definition now_ns :: "ReplayTransport \<Rightarrow> u64" where
  "now_ns t = rt_virtual_clock t"

definition batch_body :: "bool \<Rightarrow> ReplayTransport \<Rightarrow> FrameBatch \<Rightarrow> Sequencer \<Rightarrow> step" where
  "batch_body wants_spans t b = ingest_batch wants_spans (batch_entries t b) (now_ns t)"

fun classic_frames :: "bool \<Rightarrow> ReplayTransport \<Rightarrow> u64 \<Rightarrow> nat \<Rightarrow> FrameView list \<Rightarrow> Sequencer \<Rightarrow> step" where
  "classic_frames wants_spans t now pos [] sq = (sq, [])"
| "classic_frames wants_spans t now pos (f # fs) sq =
     andThen (ingest_auto wants_spans (FrameView_bytes (rt_frames t) f) (fv_feed f) now (batch_blocks t pos) (batch_memo t pos) sq)
       (classic_frames wants_spans t now (pos + 1) fs)"

definition classic_body :: "bool \<Rightarrow> ReplayTransport \<Rightarrow> FrameBatch \<Rightarrow> Sequencer \<Rightarrow> step" where
  "classic_body wants_spans t b = classic_frames wants_spans t (now_ns t) 0 (FrameBatch_frames b)"

definition batch_pass :: "bool \<Rightarrow> SessionId \<Rightarrow> ReplayTransport \<Rightarrow> (ReplayTransport \<times> Sequencer \<times> SinkCall list) option" where
  "batch_pass wants_spans sess t =
     poll_loop (batch_body wants_spans) (reset sess t) FrameBatch_new Sequencer_new_unboxed []"

definition classic_pass :: "bool \<Rightarrow> SessionId \<Rightarrow> ReplayTransport \<Rightarrow> (ReplayTransport \<times> Sequencer \<times> SinkCall list) option" where
  "classic_pass wants_spans sess t =
     poll_loop (classic_body wants_spans) (reset sess t) FrameBatch_new Sequencer_new_unboxed []"

section \<open>Every pass ends\<close>

lemma poll_progress:
  assumes d: "directory_ok gt ss t" and p: "poll t b = (t', b', n)" and n: "n \<noteq> 0"
  shows "rt_event_idx t < rt_event_idx t' \<and> rt_event_idx t' \<le> length (rt_meta t) \<and> rt_meta t' = rt_meta t \<and> directory_ok gt ss t'"
proof -
  let ?i = "rt_event_idx t" and ?n = "length (rt_meta t)"
  note dd = d [unfolded directory_ok_def]
  have vts: "groups_ok (rt_vts t) (rt_group_end t)" "?n = length (rt_vts t)" using dd by (simp_all add: served_ok_def)
  have i: "?i < ?n"
  proof (rule ccontr)
    assume "\<not> ?i < ?n"
    then show False using p n by (simp add: poll_def poll_clamped_def poll_impl_def)
  qed
  let ?a = "(FrameBatch_clear b, rt_batch_event t)"
  obtain t1 m b1 be where pi: "poll_impl (emit_slot t) FrameBatch_capacity None t ?a = (t1, m, b1, be)" by (metis prod_cases4)
  have r: "rt_event_idx t' = rt_event_idx t1" "n = fb_len b1" "rt_meta t' = rt_meta t1"
    using p i by (auto simp: poll_def poll_clamped_def pi)
  define v where "v = (case rt_clock_clamp t of Some c \<Rightarrow> c | None \<Rightarrow> (- 1 :: u64))"
  obtain e mx where g: "group_chain t v ?i 0 0 = (e, mx)" by fastforce
  have "e \<le> ?n" using group_chain_ge [OF vts, of ?i v 0 0] g i vts(2) by simp
  obtain vc evt k a' where w: "poll_walk (emit_slot t) t vc (if rt_coalesce t = 1 then ?n else e) FrameBatch_capacity ?i 0 ?a = (evt, k, a')"
    and t1: "t1 = t\<lparr>rt_virtual_clock := vc, rt_event_idx := evt\<rparr>" "a' = (b1, be)"
    using pi i g unfolding poll_impl_def Let_def option.case v_def by (auto split: prod.splits)
  note spec = poll_walk_spec [OF w]
  have "n = length (live t ?i evt)"
    using spec fold_emit_slot_len [of t 0 "live t ?i evt" "FrameBatch_clear b" "rt_batch_event t"] t1(2) r(2)
    by (metis FrameBatch_clear_def add_0 FrameBatch.select_convs(2) FrameBatch.surjective FrameBatch.update_convs(2) fst_conv)
  then have "?i < evt" using n by (cases "?i < evt") (simp_all add: live_def)
  moreover have "evt \<le> ?n" using spec \<open>e \<le> ?n\<close> i by (auto split: if_splits)
  moreover have "directory_ok gt ss t'" using poll_directory(1) [of gt ss None t b] d p by (simp add: poll_def)
  ultimately show ?thesis using r t1(1) by simp
qed

lemma poll_loop_ends:
  assumes "directory_ok gt ss t"
  shows "\<exists>r. poll_loop body t b sq calls = Some r"
  using assms
proof (induction "length (rt_meta t) - rt_event_idx t" arbitrary: t b sq calls rule: less_induct)
  case less
  obtain t1 b1 n where p: "poll t b = (t1, b1, n)" by (metis prod_cases3)
  show ?case
  proof (cases "n = 0")
    case True
    then show ?thesis by (subst poll_loop.simps) (simp add: p)
  next
    case False
    from poll_progress [OF less.prems p this]
    have "length (rt_meta t1) - rt_event_idx t1 < length (rt_meta t) - rt_event_idx t" "directory_ok gt ss t1" by auto
    from less.hyps [OF this] show ?thesis by (subst poll_loop.simps) (simp add: p False split: prod.split)
  qed
qed

section \<open>The entry of an event\<close>

definition event_seq_ok :: "SchedEvent \<Rightarrow> bool" where
  "event_seq_ok ev \<longleftrightarrow> unat (packet_first_seq (se_kind ev)) + unat (packet_count (se_kind ev)) < 2 ^ 64"

lemma packet_event_ok:
  assumes "rendered gt ev" "packet_count (se_kind ev) \<noteq> 0" "event_seq_ok ev" "sessions_ok sched s"
  shows "packet_ok (effective_session sched s ev) (packet_first_seq (se_kind ev)) (packet_count (se_kind ev)) (event_msgs gt (se_kind ev))"
    and "length (event_msgs gt (se_kind ev)) = unat (packet_count (se_kind ev))"
    and "event_header (se_kind ev) = (packet_first_seq (se_kind ev), packet_count (se_kind ev))"
proof -
  obtain q m n where k: "se_kind ev = PacketEv q m n" "n \<noteq> 0"
    using assms(2) by (cases "se_kind ev") (auto simp: packet_count_def)
  have l: "length (event_msgs gt (se_kind ev)) = unat n"
    using assms(1) k by (auto simp: event_msgs_def event_fits_def min_def)
  have short: "20 + length (mold_body (event_msgs gt (se_kind ev))) \<le> 1500" using assms(1) by (rule rendered_short)
  have "2 * length ms \<le> length (mold_body ms)" for ms by (induction ms) (simp_all add: mold_body_def)
  from this [of "event_msgs gt (se_kind ev)"] have "unat n < 65535" using l short by linarith
  then have "n \<noteq> 65535" by auto
  moreover have "length (effective_session sched s ev) = 10" using assms(4) by (rule length_effective_session)
  ultimately show "packet_ok (effective_session sched s ev) (packet_first_seq (se_kind ev)) (packet_count (se_kind ev)) (event_msgs gt (se_kind ev))"
    using l k assms(3) short
    by (auto simp: packet_ok_def packet_count_def packet_first_seq_def event_seq_ok_def length_frame list_all_iff intro: event_msgs_short)
  show "length (event_msgs gt (se_kind ev)) = unat (packet_count (se_kind ev))"
    "event_header (se_kind ev) = (packet_first_seq (se_kind ev), packet_count (se_kind ev))"
    using l k by (simp_all add: packet_count_def packet_first_seq_def event_header_def)
qed

lemma plain_entry_ok:
  assumes d: "directory_ok gt (\<lambda>_. s) t" and i: "i < length (rs_events (rt_schedule t))"
    and r: "rendered gt (rs_events (rt_schedule t) ! i)" and q: "event_seq_ok (rs_events (rt_schedule t) ! i)"
  shows "entry_ok (plain_entry t (rt_meta t ! i)) \<and>
    entry_packet now (plain_entry t (rt_meta t ! i))
      = (wire gt (rt_schedule t) s (rs_events (rt_schedule t) ! i), se_feed (rs_events (rt_schedule t) ! i), now)"
proof -
  let ?ev = "rs_events (rt_schedule t) ! i" and ?m = "rt_meta t ! i"
  let ?k = "se_kind ?ev"
  have so: "sessions_ok (rt_schedule t) s" using d by (auto simp: directory_ok_def sessions_ok_split)
  note reg = served_region [of gt "rt_schedule t" "\<lambda>_. s" "rs_events (rt_schedule t)" "rt_frames t" "rt_triples t" "rt_meta t" i]
  have rg: "region_ok gt ?ev (wire gt (rt_schedule t) s ?ev) (rt_frames t) (rt_triples t) ?m"
    using reg d i r by (simp add: directory_ok_def)
  have f: "frame_at t ?m = wire gt (rt_schedule t) s ?ev" using directory_frame [OF d i r] .
  have "entry_ok (plain_entry t ?m)"
  proof (cases "packet_count ?k = 0")
    case True
    then show ?thesis using rg by (simp add: entry_ok_def plain_entry_def meta_entry_def blocks_at_def region_ok_def)
  next
    case False
    note pk = packet_event_ok [OF r False q so]
    have "unat (packet_first_seq ?k) + length (event_msgs gt ?k) < 2 ^ 64" using q pk(2) by (simp add: event_seq_ok_def)
    moreover have "wire gt (rt_schedule t) s ?ev
        = mold_frame (effective_session (rt_schedule t) s ?ev) (packet_first_seq ?k) (packet_count ?k) (event_msgs gt ?k)"
      using pk(3) by (simp add: wire_def)
    moreover have "slice 0 8 (frame_at t ?m) = slice (unat (fm_offset ?m)) (unat (fm_offset ?m) + 8) (rt_frames t)"
      "slice 2 10 (frame_at t ?m) = slice (unat (fm_offset ?m) + 2) (unat (fm_offset ?m) + 10) (rt_frames t)"
      using rg length_wire [OF so, of gt ?ev] slice_slice [of "unat (fm_offset ?m)" 8 "unat (fm_offset ?m) + unat (fm_len ?m)" 0 "rt_frames t"]
      slice_slice [of "unat (fm_offset ?m)" 10 "unat (fm_offset ?m) + unat (fm_len ?m)" 2 "rt_frames t"]
    by (simp_all add: frame_at_def region_ok_def)
    ultimately show ?thesis using pk(1) rg False f
      unfolding entry_ok_def plain_entry_def meta_entry_def
      by (intro disjI2 exI [of _ "effective_session (rt_schedule t) s ?ev"] exI [of _ "packet_count ?k"] exI [of _ "event_msgs gt ?k"])
        (auto simp: region_ok_def blocks_at_def memo_at_def memo_ok_def frame_sess_lo_def frame_sess_hi_def)
  qed
  then show ?thesis using rg f by (simp add: entry_packet_def plain_entry_def meta_entry_def region_ok_def)
qed

section \<open>The side tables of a batch\<close>

definition slots_match :: "ReplayTransport \<Rightarrow> FrameBatch \<Rightarrow> bool" where
  "slots_match t b \<longleftrightarrow> (\<forall>pos < length (FrameBatch_frames b).
     (batch_blocks t pos, batch_memo t pos) = frame_blocks_memo t (FrameBatch_frames b ! pos))"

lemma fold_emit_slot_event:
  assumes "rt_coalesce t = 1" "fb_len b + length evs \<le> length be"
  shows "slice (fb_len b) (fb_len b + length evs) (snd (fold (\<lambda>(k, i). emit_slot t i k (rt_meta t ! i)) (enumerate n evs) (b, be)))
      = map of_nat evs \<and>
    take (fb_len b) (snd (fold (\<lambda>(k, i). emit_slot t i k (rt_meta t ! i)) (enumerate n evs) (b, be))) = take (fb_len b) be \<and>
    length (snd (fold (\<lambda>(k, i). emit_slot t i k (rt_meta t ! i)) (enumerate n evs) (b, be))) = length be"
  using assms(2)
proof (induction evs arbitrary: b be n)
  case Nil
  then show ?case by (simp add: slice_def)
next
  case (Cons i evs)
  define b1 where "b1 = fst (emit_slot t i n (rt_meta t ! i) (b, be))"
  have s: "emit_slot t i n (rt_meta t ! i) (b, be) = (b1, be[fb_len b := of_nat i])"
    by (simp add: emit_slot_def b1_def assms(1))
  have l: "fb_len b1 = Suc (fb_len b)" by (simp add: b1_def emit_slot_def FrameBatch_push_indexed_def)
  define z where "z = snd (fold (\<lambda>(k, i). emit_slot t i k (rt_meta t ! i)) (enumerate (Suc n) evs) (b1, be[fb_len b := of_nat i]))"
  have ih: "slice (Suc (fb_len b)) (Suc (fb_len b) + length evs) z = map of_nat evs"
    "take (Suc (fb_len b)) z = take (Suc (fb_len b)) (be[fb_len b := of_nat i])" "length z = length be"
    using Cons.IH [of b1 "be[fb_len b := of_nat i]" "Suc n"] Cons.prems l by (simp_all add: z_def)
  have k: "fb_len b < length be" using Cons.prems by simp
  have t1: "take (Suc (fb_len b)) z = take (fb_len b) be @ [of_nat i]"
    using ih(2) k by (simp add: take_Suc_conv_app_nth)
  have "take (fb_len b) (take (Suc (fb_len b)) z) = take (fb_len b) be" unfolding t1 using k by simp
  then have t2: "take (fb_len b) z = take (fb_len b) be" by (simp add: min_def)
  have "z ! fb_len b = take (Suc (fb_len b)) z ! fb_len b" by simp
  also have "\<dots> = of_nat i" unfolding t1 using k by (simp add: nth_append)
  finally have "slice (fb_len b) (fb_len b + length (i # evs)) z = map of_nat (i # evs)"
    using ih slice_Cons_nth [of "fb_len b" "fb_len b + length (i # evs)" z] Cons.prems by simp
  then show ?case using t2 ih(3) by (simp add: s flip: z_def)
qed

lemma poll_slots:
  assumes d: "directory_ok gt ss t" and c: "rt_clock_clamp t = None" and b: "batch_ok batch"
    and i: "rt_event_idx t < length (rt_meta t)" and p: "poll t batch = (t', batch', n)"
    and co: "rt_coalesce t = 1" and be: "length (rt_batch_event t) = 256" and sz: "length (rt_meta t) < 2 ^ 32"
    and pk: "\<And>j. j < length (rt_meta t) \<Longrightarrow> fm_len (rt_meta t ! j) \<noteq> 0 \<Longrightarrow> fm_blk_count (rt_meta t ! j) \<noteq> 0 \<Longrightarrow>
        unat (fm_blk_base (rt_meta t ! j)) + unat (fm_blk_count (rt_meta t ! j)) \<le> length (rt_triples t)"
  shows "slots_match t' batch' \<and> length (rt_batch_event t') = 256"
proof -
  let ?a = "(FrameBatch_clear batch, rt_batch_event t)"
  obtain t1 m batch1 be1 where pi: "poll_impl (emit_slot t) FrameBatch_capacity None t ?a = (t1, m, batch1, be1)" by (metis prod_cases4)
  have r: "t' = t1\<lparr>rt_batch_event := be1, rt_batch_event_len := fb_len batch1\<rparr>" "batch' = batch1"
    using p i by (auto simp: poll_def poll_clamped_def pi)
  have "0 < FrameBatch_capacity" by (simp add: FrameBatch_capacity_def)
  note spec = poll_impl_spec [OF d c i this pi]
  let ?evs = "live t (rt_event_idx t) (rt_event_idx t1)"
  have small: "length ?evs \<le> 256" using spec by (simp add: FrameBatch_capacity_def)
  have z: "(batch1, be1) = fold (\<lambda>(k, i). emit_slot t i k (rt_meta t ! i)) (enumerate 0 ?evs) ?a" using spec by blast
  have cl: "fb_len (FrameBatch_clear batch) = 0" "length (fb_slots (FrameBatch_clear batch)) = 256"
    using b by (simp_all add: FrameBatch_clear_def batch_ok_def)
  have e: "take (length ?evs) be1 = map of_nat ?evs" "length be1 = 256"
    using fold_emit_slot_event [OF co, of "FrameBatch_clear batch" ?evs "rt_batch_event t" 0, folded z] small be
    by (simp_all add: cl slice_def)
  have fr: "FrameBatch_frames batch1 = map (\<lambda>i. frame_slot t (rt_meta t ! i)) ?evs" "fb_len batch1 = length ?evs"
    using fold_emit_slot [of "FrameBatch_clear batch" ?evs t 0 "rt_batch_event t", folded z] small
    by (simp_all add: cl) (simp add: FrameBatch_frames_def cl)
  have t1: "t1 = t\<lparr>rt_virtual_clock := rt_virtual_clock t1, rt_event_idx := rt_event_idx t1\<rparr>" using spec by blast
  have same: "rt_triples t' = rt_triples t" "rt_meta t' = rt_meta t" "rt_batch_event t' = be1" "rt_batch_event_len t' = length ?evs"
    using arg_cong [OF t1, of rt_triples] arg_cong [OF t1, of rt_meta] fr(2) by (simp_all add: r(1))
  have "(batch_blocks t' pos, batch_memo t' pos) = frame_blocks_memo t' (FrameBatch_frames batch' ! pos)"
    if pos: "pos < length ?evs" for pos
  proof -
    let ?j = "?evs ! pos"
    have "?j \<in> set ?evs" using pos by simp
    then have j: "?j < length (rt_meta t)" "fm_len (rt_meta t ! ?j) \<noteq> 0"
      using spec by (auto simp: live_def)
    have "be1 ! pos = take (length ?evs) be1 ! pos" using pos by simp
    then have ev: "unat (be1 ! pos) = ?j" using pos j(1) sz by (simp add: e(1) unat_of_nat_u32)
    have ft: "FrameBatch_frames batch' ! pos = frame_slot t (rt_meta t ! ?j)" using fr(1) pos by (simp add: r(2))
    show ?thesis
    proof (cases "fm_blk_count (rt_meta t ! ?j) = 0")
      case True
      then show ?thesis using pos j ev
        by (simp add: ft batch_blocks_def batch_memo_def frame_blocks_memo_def frame_slot_def same slice_def Let_def)
    next
      case False
      then show ?thesis using pos j ev pk [OF j False]
        by (simp add: ft batch_blocks_def batch_memo_def frame_blocks_memo_def frame_slot_def same Let_def)
    qed
  qed
  then show ?thesis using e(2) fr by (simp add: slots_match_def same r(2))
qed

section \<open>A pass\<close>

text \<open>What a body has to do with a batch: the frames, one by one, at the transport's clock.\<close>

locale replay_body =
  fixes body :: "ReplayTransport \<Rightarrow> FrameBatch \<Rightarrow> Sequencer \<Rightarrow> step"
  assumes body_run: "list_all entry_ok (batch_entries t b) \<Longrightarrow> slots_match t b \<Longrightarrow> tmpl_ok sq \<Longrightarrow>
    same_out (body t b sq) (ingest_run (map (entry_packet (now_ns t)) (batch_entries t b)) sq)"

text \<open>The delivery of an event: the packet the arrival at its release time amounts to.\<close>

definition event_packet :: "bytes \<Rightarrow> ReplaySchedule \<Rightarrow> SessionId \<Rightarrow> SchedEvent \<Rightarrow> bytes \<times> FeedId \<times> u64" where
  "event_packet gt sched s ev = (wire gt sched s ev, se_feed ev, se_release_vt ev)"

definition schedule_runs :: "bytes \<Rightarrow> ReplaySchedule \<Rightarrow> bool" where
  "schedule_runs gt sched \<longleftrightarrow> list_all (\<lambda>ev. event_fits gt (se_kind ev) \<and> event_seq_ok ev) (rs_events sched) \<and>
     sorted_wrt (\<lambda>a b. se_release_vt a \<le> se_release_vt b) (rs_events sched)"

text \<open>The transport in the middle of a pass.\<close>

definition running :: "bytes \<Rightarrow> ReplaySchedule \<Rightarrow> SessionId \<Rightarrow> ReplayTransport \<Rightarrow> FrameBatch \<Rightarrow> bool" where
  "running gt sched s t b \<longleftrightarrow> directory_ok gt (\<lambda>_. s) t \<and> rt_schedule t = sched \<and> rt_clock_clamp t = None \<and>
     rt_coalesce t = 1 \<and> length (rt_batch_event t) = 256 \<and> batch_ok b \<and> length (rt_meta t) < 2 ^ 32 \<and>
     rt_event_idx t \<le> length (rt_meta t) \<and>
     (rt_event_idx t < length (rt_meta t) \<longrightarrow> rt_virtual_clock t \<le> rt_vts t ! rt_event_idx t)"

lemma running_poll:
  assumes r: "running gt sched s t b" and sr: "schedule_runs gt sched" and p: "poll t b = (t', b', n)"
    and i: "rt_event_idx t < length (rt_meta t)"
  shows "running gt sched s t' b' \<and> 0 < n \<and> rt_event_idx t < rt_event_idx t' \<and> rt_meta t' = rt_meta t \<and>
    slots_match t' b' \<and> list_all entry_ok (batch_entries t' b') \<and>
    map (entry_packet (now_ns t')) (batch_entries t' b')
      = map (event_packet gt sched s) (slice (rt_event_idx t) (rt_event_idx t') (rs_events sched))"
proof -
  let ?i = "rt_event_idx t" and ?j = "rt_event_idx t'" and ?evs = "rs_events sched"
  have r': "directory_ok gt (\<lambda>_. s) t" "rt_schedule t = sched" "rt_clock_clamp t = None" "rt_coalesce t = 1"
    "length (rt_batch_event t) = 256" "batch_ok b" "length (rt_meta t) < 2 ^ 32" "rt_virtual_clock t \<le> rt_vts t ! ?i"
    using r i by (simp_all add: running_def)
  have len: "length (rt_meta t) = length ?evs" and vts: "rt_vts t = map se_release_vt ?evs"
    using r'(1,2) by (simp_all add: directory_ok_def served_ok_def)
  have fit: "rendered gt (?evs ! k)" "event_seq_ok (?evs ! k)" if "k < length ?evs" for k
    using sr that by (simp_all add: schedule_runs_def list_all_length)
  have alive: "fm_len (rt_meta t ! k) \<noteq> 0" if "k < length ?evs" for k
    using directory_live [OF r'(1), of k] fit(1) that r'(2) by simp
  note spec = poll_spec [OF r'(1,3,6) i p]
  have t': "t' = t\<lparr>rt_virtual_clock := rt_virtual_clock t', rt_event_idx := rt_event_idx t', rt_batch_event := rt_batch_event t',
      rt_batch_event_len := rt_batch_event_len t'\<rparr>" using spec by blast
  have same: "rt_schedule t' = sched" "rt_clock_clamp t' = None" "rt_coalesce t' = 1" "rt_meta t' = rt_meta t" "rt_vts t' = rt_vts t"
    using arg_cong [OF t', of rt_schedule] arg_cong [OF t', of rt_clock_clamp] arg_cong [OF t', of rt_coalesce]
      arg_cong [OF t', of rt_meta] arg_cong [OF t', of rt_vts] r' by simp_all
  have d': "directory_ok gt (\<lambda>_. s) t'" using poll_directory(1) [of gt "\<lambda>_. s" None t b] r'(1) p by (simp add: poll_def)
  have j: "?i < ?j" "?j \<le> length ?evs" using spec len by simp_all
  have lv: "live t ?i ?j = [?i ..< ?j]"
    using alive j(2) by (auto simp: live_def filter_id_conv)
  have clock: "rt_virtual_clock t' = rt_vts t ! ?i" using spec r'(4,8) by (simp add: max_def)
  have vt_mono: "rt_vts t ! k \<le> rt_vts t ! l" if "k \<le> l" "l < length ?evs" for k l
    using sr sorted_wrt_nth_less [of "\<lambda>a b. se_release_vt a \<le> se_release_vt b" ?evs k l] that vts
    by (cases "k = l") (auto simp: schedule_runs_def)
  have late: "rt_vts t ! k = rt_vts t ! ?i" if "?i \<le> k" "k < ?j" for k
  proof -
    have "rt_vts t ! k \<le> rt_vts t ! ?i" using spec r'(4) that clock by auto
    moreover have "rt_vts t ! ?i \<le> rt_vts t ! k"
      using vt_mono [OF that(1)] that(2) j(2) by simp
    ultimately show ?thesis by simp
  qed
  have sm: "slots_match t' b' \<and> length (rt_batch_event t') = 256"
  proof (rule poll_slots [OF r'(1,3,6) i p r'(4,5,7)])
    fix k
    assume k: "k < length (rt_meta t)" "fm_len (rt_meta t ! k) \<noteq> 0" "fm_blk_count (rt_meta t ! k) \<noteq> 0"
    show "unat (fm_blk_base (rt_meta t ! k)) + unat (fm_blk_count (rt_meta t ! k)) \<le> length (rt_triples t)"
      using served_region [of gt sched "\<lambda>_. s" ?evs "rt_frames t" "rt_triples t" "rt_meta t" k] fit(1) [of k] k r'(1,2) len
      by (auto simp: directory_ok_def region_ok_def)
  qed
  have pe: "entry_ok (plain_entry t (rt_meta t ! k)) \<and>
      entry_packet (now_ns t') (plain_entry t (rt_meta t ! k)) = event_packet gt sched s (?evs ! k)"
    if "?i \<le> k" "k < ?j" for k
  proof -
    have k: "k < length ?evs" using that j(2) by simp
    have "now_ns t' = se_release_vt (?evs ! k)" using clock late [OF that] k by (simp add: now_ns_def vts)
    then show ?thesis
      using plain_entry_ok [OF r'(1), of k "now_ns t'"] fit [OF k] k r'(2) by (simp add: event_packet_def)
  qed
  have be: "batch_entries t' b' = map (\<lambda>k. plain_entry t (rt_meta t ! k)) [?i ..< ?j]" using spec lv by simp
  have "slice ?i ?j ?evs = map ((!) ?evs) [?i ..< ?j]"
    using j by (intro nth_equalityI) (simp_all add: nth_slice)
  then have "map (entry_packet (now_ns t')) (batch_entries t' b') = map (event_packet gt sched s) (slice ?i ?j ?evs)"
    unfolding be using pe by simp
  moreover have "list_all entry_ok (batch_entries t' b')" unfolding be using pe by (simp add: list_all_iff)
  moreover have "rt_virtual_clock t' \<le> rt_vts t' ! ?j" if "?j < length (rt_meta t')"
  proof -
    have "rt_vts t ! ?i \<le> rt_vts t ! ?j"
      using vt_mono [of ?i ?j] that j(1) same(4) len by simp
    then show ?thesis using clock same(5) by simp
  qed
  then have "running gt sched s t' b'"
    using d' same sm spec r'(7) j len by (simp add: running_def)
  moreover have "0 < n" using spec lv j by simp
  ultimately show ?thesis using sm j(1) same(4) by blast
qed

lemma poll_done:
  assumes "length (rt_meta t) \<le> rt_event_idx t"
  shows "poll t b = (t, FrameBatch_clear b, 0)"
  using assms by (simp add: poll_def poll_clamped_def poll_impl_def)

lemma ingest_run_append: "ingest_run (ps @ qs) sq = andThen (ingest_run ps sq) (ingest_run qs)"
  by (induction ps arbitrary: sq) (auto simp: andThen_def Let_def split: prod.split)

lemma ingest_run_tmpl_ok: "tmpl_ok sq \<Longrightarrow> tmpl_ok (fst (ingest_run ps sq))"
  by (induction ps arbitrary: sq) (auto simp: fst_andThen ingest_tmpl_ok)

context replay_body
begin

text \<open>A pass is the schedule, event by event.\<close>

lemma loop_run:
  assumes "running gt sched s t b" "schedule_runs gt sched" "tmpl_ok sq"
  shows "\<exists>t' sq' cs. poll_loop body t b sq calls = Some (t', sq', calls @ cs) \<and> rt_event_idx t' = length (rs_events sched) \<and>
    same_out (sq', cs) (ingest_run (map (event_packet gt sched s) (drop (rt_event_idx t) (rs_events sched))) sq)"
  using assms
proof (induction "length (rt_meta t) - rt_event_idx t" arbitrary: t b sq calls rule: less_induct)
  case less
  have len: "length (rt_meta t) = length (rs_events sched)" "rt_event_idx t \<le> length (rt_meta t)"
    using less.prems(1) by (auto simp: running_def directory_ok_def served_ok_def)
  show ?case
  proof (cases "rt_event_idx t < length (rt_meta t)")
    case False
    then show ?thesis using len by (subst poll_loop.simps) (simp add: poll_done same_out_def)
  next
    case True
    obtain t1 b1 n where p: "poll t b = (t1, b1, n)" by (metis prod_cases3)
    obtain sq1 cs1 where s1: "body t1 b1 sq = (sq1, cs1)" by fastforce
    let ?new = "map (event_packet gt sched s) (slice (rt_event_idx t) (rt_event_idx t1) (rs_events sched))"
    note rp = running_poll [OF less.prems(1,2) p True]
    have "same_out (body t1 b1 sq) (ingest_run (map (entry_packet (now_ns t1)) (batch_entries t1 b1)) sq)"
      using rp less.prems(3) by (intro body_run) simp_all
    then have so: "same_out (sq1, cs1) (ingest_run ?new sq)" using rp s1 by simp
    then have t1: "tmpl_ok sq1" using ingest_run_tmpl_ok [OF less.prems(3)] by (simp add: same_out_def)
    have smaller: "length (rt_meta t1) - rt_event_idx t1 < length (rt_meta t) - rt_event_idx t"
      using rp True by (metis diff_less_mono2)
    obtain t' sq' cs where ih: "poll_loop body t1 b1 sq1 (calls @ cs1) = Some (t', sq', (calls @ cs1) @ cs)"
      "rt_event_idx t' = length (rs_events sched)"
      "same_out (sq', cs) (ingest_run (map (event_packet gt sched s) (drop (rt_event_idx t1) (rs_events sched))) sq1)"
      using less.hyps [OF smaller _ less.prems(2) t1, of b1 "calls @ cs1"] rp by (auto simp only: append_assoc)
    have "drop (rt_event_idx t) (rs_events sched)
        = slice (rt_event_idx t) (rt_event_idx t1) (rs_events sched) @ drop (rt_event_idx t1) (rs_events sched)"
      using rp by (simp add: slice_def) (metis append_take_drop_id drop_drop le_add_diff_inverse2 less_imp_le)
    then have "same_out (sq', cs1 @ cs) (ingest_run (map (event_packet gt sched s) (drop (rt_event_idx t) (rs_events sched))) sq)"
      using so ih(3) by (simp add: same_out_def ingest_run_append fst_andThen snd_andThen)
    then show ?thesis using ih rp by (subst poll_loop.simps) (auto simp: p s1)
  qed
qed

end

lemma batch_body_run:
  assumes "list_all entry_ok (batch_entries t b)" "tmpl_ok sq"
  shows "same_out (batch_body wants_spans t b sq) (ingest_run (map (entry_packet (now_ns t)) (batch_entries t b)) sq)"
  using batch_classic [OF assms, of wants_spans "now_ns t"] by (simp add: batch_body_def batch_drives)

definition slot_entry :: "ReplayTransport \<Rightarrow> FrameView \<Rightarrow> FrameEntry" where
  "slot_entry t f =
     \<lparr>fe_ptr = (case fv_ptr f of None \<Rightarrow> 0 | Some p \<Rightarrow> rt_base t + of_nat p), fe_bytes = FrameView_bytes (rt_frames t) f,
      fe_feed = fv_feed f, fe_blocks = fst (frame_blocks_memo t f), fe_memo = snd (frame_blocks_memo t f),
      fe_first_seq = fv_first_seq f, fe_sess_lo = fv_sess_lo f, fe_sess_hi = fv_sess_hi f, fe_elig = fv_feed f AND 3\<rparr>"

lemma batch_entries_slots: "batch_entries t b = map (slot_entry t) (FrameBatch_frames b)"
  by (simp add: batch_entries_def slot_entry_def case_prod_beta)

lemma classic_frames_each:
  assumes "\<forall>k < length fs. (batch_blocks t (pos + k), batch_memo t (pos + k)) = frame_blocks_memo t (fs ! k)"
  shows "classic_frames wants_spans t now pos fs sq = ingest_each wants_spans now (map (slot_entry t) fs) sq"
  using assms
proof (induction fs arbitrary: pos sq)
  case Nil
  then show ?case by simp
next
  case (Cons f fs)
  have h: "frame_blocks_memo t f = (batch_blocks t pos, batch_memo t pos)"
    using Cons.prems by (metis add.right_neutral length_greater_0_conv list.discI nth_Cons_0)
  have "\<forall>k < length fs. (batch_blocks t (pos + 1 + k), batch_memo t (pos + 1 + k)) = frame_blocks_memo t (fs ! k)"
    using Cons.prems by (metis Suc_eq_plus1_left Suc_less_eq add.assoc length_Cons nth_Cons_Suc)
  then have "classic_frames wants_spans t now (pos + 1) fs = ingest_each wants_spans now (map (slot_entry t) fs)"
    using Cons.IH by blast
  then show ?case using h by (simp add: cold_apply_def slot_entry_def [of t f])
qed

lemma classic_body_run:
  assumes "list_all entry_ok (batch_entries t b)" "slots_match t b" "tmpl_ok sq"
  shows "same_out (classic_body wants_spans t b sq) (ingest_run (map (entry_packet (now_ns t)) (batch_entries t b)) sq)"
proof -
  have "classic_body wants_spans t b sq = ingest_each wants_spans (now_ns t) (batch_entries t b) sq"
    using classic_frames_each [of "FrameBatch_frames b" t 0] assms(2)
    by (simp add: classic_body_def slots_match_def batch_entries_slots)
  then show ?thesis using ingest_each_classic [of "batch_entries t b" sq] assms(1,3) by (simp add: list_all_iff)
qed

interpretation batches: replay_body "batch_body wants_spans" for wants_spans
  by unfold_locales (rule batch_body_run)

interpretation frames: replay_body "classic_body wants_spans" for wants_spans
  by unfold_locales (rule classic_body_run)

section \<open>Starting a pass\<close>

lemma fold_emit_slot_events: "length (snd (fold (\<lambda>(k, i). emit_slot t i k (rt_meta t ! i)) ks p)) = length (snd p)"
  by (induction ks arbitrary: p) (auto simp: emit_slot_def split: prod.split)

lemma poll_walk_inv:
  assumes "\<And>i k m a. P a \<Longrightarrow> P (emit i k m a)" "P a"
  shows "P (snd (snd (poll_walk emit t vclock limit_evt cap evt n a)))"
  using assms
proof (induction emit t vclock limit_evt cap evt n a rule: poll_walk.induct)
  case (1 emit t vclock limit_evt cap evt n a)
  then show ?case by (subst poll_walk.simps) (simp add: "1.IH" "1.prems")
qed

lemma poll_impl_inv:
  assumes "\<And>i k m a. P a \<Longrightarrow> P (emit i k m a)" "P a"
  shows "P (snd (snd (poll_impl emit cap max_vt t a)))"
proof -
  have "P c" if "poll_walk emit t vc lim cap evt n a = (b, k, c)" for vc lim evt n b k c
    using poll_walk_inv [of P emit a t vc lim cap evt n, OF assms] that by simp
  then show ?thesis using assms(2) by (auto simp: poll_impl_def Let_def split: prod.split)
qed

lemma reach_batch_event: "replay_reach gt sched t \<Longrightarrow> length (rt_batch_event t) = 256"
proof (induction rule: replay_reach.induct)
  case (reach_poll t max_vt batch)
  have "length (snd (snd (snd (poll_impl (emit_slot t) FrameBatch_capacity max_vt t (FrameBatch_clear batch, rt_batch_event t))))) = 256"
    using reach_poll(2) by (intro poll_impl_inv [where P = "\<lambda>a. length (snd a) = 256"]) (auto simp: emit_slot_def)
  moreover have "rt_batch_event (fst (poll_impl emit cap max_vt t a)) = rt_batch_event t"
    for emit :: "nat \<Rightarrow> nat \<Rightarrow> FrameMeta \<Rightarrow> FrameBatch \<times> u32 list \<Rightarrow> FrameBatch \<times> u32 list" and cap a
    by (subst poll_impl_static) simp
  ultimately show ?case using reach_poll(2)
    by (auto simp: poll_clamped_def Let_def split: prod.split) (metis fst_conv)
next
  case (reach_warm t w)
  have "rt_batch_event (fst (poll_impl emit cap mx t a)) = rt_batch_event t"
    for emit :: "nat \<Rightarrow> nat \<Rightarrow> FrameMeta \<Rightarrow> WarmEmitCtx \<Rightarrow> WarmEmitCtx" and cap mx a
    by (subst poll_impl_static) simp
  then show ?case using reach_warm(2) by (auto simp: poll_warm_def Let_def split: prod.split) (metis fst_conv)+
next
  case (reach_rxbuild t w)
  have "rt_batch_event (fst (poll_impl emit cap mx t a)) = rt_batch_event t"
    for emit :: "nat \<Rightarrow> nat \<Rightarrow> FrameMeta \<Rightarrow> WarmEmitCtx \<Rightarrow> WarmEmitCtx" and cap mx a
    by (subst poll_impl_static) simp
  then show ?case using reach_rxbuild(2) by (auto simp: poll_rxbuild_def Let_def split: prod.split) (metis fst_conv)+
qed (auto simp: ReplayTransport_new_def Let_def patch_sessions_def reset_def reset_cursors_def patch_range_def
    reset_prepatched_def set_poll_coalesce_def set_clock_clamp_def set_body_prefetch_def split: prod.split)

lemma reset_running:
  assumes "replay_reach gt sched t" "replay_bounds gt sched" "rt_coalesce t = 1" "length s = 10"
  shows "running gt sched s (reset s t) FrameBatch_new"
proof -
  obtain ss where r: "rt_schedule t = sched" "directory_ok gt ss t"
    using reach_directory [OF assms(1,2)] by blast
  have d: "directory_ok gt (\<lambda>_. s) (reset s t)" using r(2) assms(4) by (rule reset_directory)
  have len: "length (rt_meta t) = length (rs_events sched)" "rt_vts t = map se_release_vt (rs_events sched)"
    using r by (simp_all add: directory_ok_def served_ok_def)
  have "length (rs_events sched) < 2 ^ 32" using assms(2) by (simp add: replay_bounds_def ARENA_SLOT_SIZE_def)
  moreover have "length (rt_batch_event (reset s t)) = 256"
    using reach_batch_event [OF assms(1)] by (simp add: reset_def patch_sessions_def)
  ultimately show ?thesis
    using d r(1) assms(3) len
    by (auto simp: running_def batch_ok_def FrameBatch_new_def first_vt_def hd_conv_nth split: list.split)
qed

lemma replay_pass_run:
  assumes "replay_reach gt sched t" and "replay_bounds gt sched" and "rt_coalesce t = 1" and "length sess = 10"
    and "schedule_runs gt sched"
  shows "\<exists>tb tc sq bcalls ccalls.
    batch_pass wants_spans sess t = Some (tb, sq, bcalls) \<and> classic_pass wants_spans sess t = Some (tc, sq, ccalls) \<and>
    rt_event_idx tb = length (rs_events sched) \<and> rt_event_idx tc = length (rs_events sched) \<and>
    sq = fst (ingest_run (map (event_packet gt sched sess) (rs_events sched)) Sequencer_new_unboxed) \<and>
    expand_all bcalls = snd (ingest_run (map (event_packet gt sched sess) (rs_events sched)) Sequencer_new_unboxed) \<and>
    expand_all ccalls = expand_all bcalls"
proof -
  have r: "running gt sched sess (reset sess t) FrameBatch_new" using assms(1-4) by (rule reset_running)
  obtain tb sb cb where b: "poll_loop (batch_body wants_spans) (reset sess t) FrameBatch_new Sequencer_new_unboxed [] = Some (tb, sb, cb)"
    "rt_event_idx tb = length (rs_events sched)"
    "same_out (sb, cb) (ingest_run (map (event_packet gt sched sess) (rs_events sched)) Sequencer_new_unboxed)"
    using batches.loop_run [OF r assms(5) new_tmpl_ok, of wants_spans "[]"] by auto
  obtain tc sc cc where c: "poll_loop (classic_body wants_spans) (reset sess t) FrameBatch_new Sequencer_new_unboxed [] = Some (tc, sc, cc)"
    "rt_event_idx tc = length (rs_events sched)"
    "same_out (sc, cc) (ingest_run (map (event_packet gt sched sess) (rs_events sched)) Sequencer_new_unboxed)"
    using frames.loop_run [OF r assms(5) new_tmpl_ok, of wants_spans "[]"] by auto
  show ?thesis using b c by (simp add: batch_pass_def classic_pass_def same_out_def)
qed

section \<open>Properties\<close>

text \<open>C12: every replay pass ends.  From every transport a run can reach, under any clock clamp and
  any coalescing, from any cursor position, the loop that polls until nothing is released
  stops, whatever its body does with the batches.\<close>

theorem replay_pass_ends:
  assumes "replay_reach gt sched t" and "replay_bounds gt sched"
  shows "\<exists>r. poll_loop body t batch sq calls = Some r"
  using reach_directory [OF assms] poll_loop_ends by blast

lemma replay_pass_ends_witness:
  "\<exists>r. poll_loop (batch_body True) (set_clock_clamp (Some 15) sample_transport) FrameBatch_new Sequencer_new_unboxed [] = Some r"
  by (rule replay_pass_ends [OF reach_clamp [OF sample_transport_reach] sample_replay_bounds])

text \<open>C6: a replay pass delivers the schedule, completely and in order.  When every event
  fits its slot and releases are in time order, a pass by batches and a pass frame by frame
  both return with every event consumed, and leave exactly the state that feeding the
  frame of each event, at its own release time, to the reference step leaves; their sink
  calls are the same messages and events in the same order.\<close>

theorem replay_passes_schedule:
  assumes "replay_reach gt sched t" and "replay_bounds gt sched" and "rt_coalesce t = 1" and "length sess = 10"
    and "schedule_runs gt sched"
  shows "\<exists>tb tc sq bcalls ccalls.
    batch_pass wants_spans sess t = Some (tb, sq, bcalls) \<and> classic_pass wants_spans sess t = Some (tc, sq, ccalls) \<and>
    rt_event_idx tb = length (rs_events sched) \<and> rt_event_idx tc = length (rs_events sched) \<and>
    sq = fst (ingest_run (map (event_packet gt sched sess) (rs_events sched)) Sequencer_new_unboxed) \<and>
    expand_all bcalls = snd (ingest_run (map (event_packet gt sched sess) (rs_events sched)) Sequencer_new_unboxed) \<and>
    expand_all ccalls = expand_all bcalls"
  using assms by (rule replay_pass_run)

definition sample_run :: ReplaySchedule where
  "sample_run = sample_schedule\<lparr>rs_events := filter (\<lambda>ev. se_release_vt ev \<noteq> 20) (rs_events sample_schedule)\<rparr>"

lemma sample_run_ok: "schedule_runs sample_tape sample_run" "replay_bounds sample_tape sample_run"
  using sample_replay_bounds
  by (simp_all add: schedule_runs_def sample_run_def sample_schedule_def event_fits_def event_seq_ok_def event_msgs_def
      sample_tape_messages sample_msg_def ARENA_SLOT_SIZE_def packet_first_seq_def packet_count_def replay_bounds_def split_ok_def)

lemma replay_passes_schedule_witness:
  "\<exists>tb sq calls. batch_pass True sample_session (ReplayTransport_new 4096 sample_tape sample_run sample_session) = Some (tb, sq, calls) \<and>
    rt_event_idx tb = 3 \<and>
    sq = fst (ingest_run [(mold_frame sample_session 5 2 [sample_msg, sample_msg], 0, 10),
      (mold_frame sample_session 5 2 [sample_msg, sample_msg], 1, 10), (mold_frame sample_session 7 0 [], 0, 30)]
      Sequencer_new_unboxed)"
proof -
  have 1: "replay_reach sample_tape sample_run (ReplayTransport_new 4096 sample_tape sample_run sample_session)"
    using sample_sessions(1) by (rule reach_new)
  have 2: "rt_coalesce (ReplayTransport_new 4096 sample_tape sample_run sample_session) = 1"
    by (simp add: ReplayTransport_new_def Let_def patch_sessions_def)
  have 3: "map (event_packet sample_tape sample_run sample_session) (rs_events sample_run)
      = [(mold_frame sample_session 5 2 [sample_msg, sample_msg], 0, 10),
         (mold_frame sample_session 5 2 [sample_msg, sample_msg], 1, 10), (mold_frame sample_session 7 0 [], 0, 30)]"
    by (simp add: sample_run_def sample_schedule_def event_packet_def wire_def event_header_def event_msgs_def
        sample_tape_messages effective_session_def)
  show ?thesis
    using replay_passes_schedule [OF 1 sample_run_ok(2) 2 sample_sessions(1) sample_run_ok(1), of True] unfolding 3
    by (auto simp: sample_run_def sample_schedule_def)
qed

end
