(* ===== verification/Reference.thy ===== *)
theory Reference
  imports Arbitration Tape "HOL-Library.Sublist"
begin

text \<open>
  The reference arbitrator (\<open>crates/nf-testkit/src/reference.rs\<close>), the oracle of the
  differential tests: it parses packets by hand, keeps the first copy of every message of a
  session in a tree map, and at the end emits, per session, the run of messages that starts
  at the first number it saw, folding their bytes into a hash.  On well-formed traffic the
  sequencer's deliveries are, session by session, a prefix of what the reference emits, and
  all of it when no packet reaches beyond the window or comes after the end of its session.
\<close>

section \<open>The arbitrator\<close>

record RefSession =
  ref_session_id :: SessionId
  ref_anchor :: "u64 option"
  ref_messages :: "u64 \<rightharpoonup> bytes"
  ref_eos_seen :: bool

definition RefSession_new :: "SessionId \<Rightarrow> RefSession" where
  "RefSession_new s = \<lparr>ref_session_id = s, ref_anchor = None, ref_messages = Map.empty, ref_eos_seen = False\<rparr>"

record ReferenceArbitrator =
  ra_sessions :: "RefSession list"
  ra_current_session_idx :: "nat option"

definition ReferenceArbitrator_new :: ReferenceArbitrator where
  "ReferenceArbitrator_new = \<lparr>ra_sessions = [], ra_current_session_idx = None\<rparr>"

text \<open>The walk over the blocks of a data packet; \<open>n\<close> blocks are left.\<close>

fun ref_walk :: "bytes \<Rightarrow> nat \<Rightarrow> nat \<Rightarrow> u64 \<Rightarrow> RefSession \<Rightarrow> RefSession" where
  "ref_walk frame 0 pos cur_seq r = r"
| "ref_walk frame (Suc n) pos cur_seq r =
     (if length frame < pos + 2 then r
      else let len = unat (u16_from_be_bytes (slice pos (pos + 2) frame)); pos1 = pos + 2
           in if length frame < pos1 + len then r
              else let payload = slice pos1 (pos1 + len) frame;
                       r1 = (if ref_anchor r = None then r\<lparr>ref_anchor := Some cur_seq\<rparr> else r);
                       r2 = (if ref_messages r1 cur_seq = None
                             then r1\<lparr>ref_messages := (ref_messages r1)(cur_seq \<mapsto> payload)\<rparr> else r1)
                   in ref_walk frame n (pos1 + len) (saturating_add64 cur_seq 1) r2)"

text \<open>The session of a packet: the current one when its name matches, a new one otherwise.\<close>

definition select_session :: "SessionId \<Rightarrow> ReferenceArbitrator \<Rightarrow> nat \<times> ReferenceArbitrator" where
  "select_session session_id ra =
     (let fresh = (length (ra_sessions ra),
            \<lparr>ra_sessions = ra_sessions ra @ [RefSession_new session_id],
             ra_current_session_idx = Some (length (ra_sessions ra))\<rparr>)
      in case ra_current_session_idx ra of
           Some idx \<Rightarrow> if ref_session_id (ra_sessions ra ! idx) = session_id then (idx, ra) else fresh
         | None \<Rightarrow> fresh)"

definition ingest_packet :: "bytes \<Rightarrow> ReferenceArbitrator \<Rightarrow> ReferenceArbitrator" where
  "ingest_packet frame ra =
     (if length frame < 20 then ra
      else let session_id = slice 0 10 frame;
               sq = u64_from_be_bytes (slice 10 18 frame);
               cnt = u16_from_be_bytes (slice 18 20 frame);
               (s_idx, ra1) = select_session session_id ra;
               session = ra_sessions ra1 ! s_idx
           in if cnt = 0xFFFF then ra1\<lparr>ra_sessions := (ra_sessions ra1)[s_idx := session\<lparr>ref_eos_seen := True\<rparr>]\<rparr>
              else if cnt = 0 then ra1
              else ra1\<lparr>ra_sessions := (ra_sessions ra1)[s_idx := ref_walk frame (unat cnt) 20 sq session]\<rparr>)"

section \<open>Evaluation\<close>

text \<open>The emission loop of a session.  It ends at the first absent number.\<close>

partial_function (option) emit_run ::
    "(u64 \<rightharpoonup> bytes) \<Rightarrow> u64 \<Rightarrow> u64 \<Rightarrow> (u64 \<times> bytes) list \<Rightarrow> (u64 \<times> u64 \<times> (u64 \<times> bytes) list) option" where
  "emit_run msgs cur running_hash emitted =
     (case msgs cur of
        None \<Rightarrow> Some (cur, running_hash, emitted)
      | Some data \<Rightarrow>
          emit_run msgs (cur + 1)
            (foldl (\<lambda>h b. (h XOR ucast b) * 0x100000001b3)
              (foldl (\<lambda>h b. (h XOR ucast b) * 0x100000001b3) running_hash (u16_to_le_bytes (of_nat (length data)))) data)
            (emitted @ [(cur, data)]))"

definition anchor_of :: "RefSession \<Rightarrow> u64" where
  "anchor_of r = (case ref_anchor r of Some a \<Rightarrow> a | None \<Rightarrow> 1)"

fun evaluate_sessions ::
    "RefSession list \<Rightarrow> u64 \<times> u64 \<times> u64 \<times> (u64 \<times> bytes) list \<Rightarrow> (u64 \<times> u64 \<times> u64 \<times> (u64 \<times> bytes) list) option" where
  "evaluate_sessions [] acc = Some acc"
| "evaluate_sessions (r # rs) (final_anchor, final_wm, running_hash, all_emitted) =
     (case emit_run (ref_messages r) (anchor_of r) running_hash all_emitted of
        None \<Rightarrow> None
      | Some (cur, h, es) \<Rightarrow> evaluate_sessions rs (anchor_of r, cur, h, es))"

definition evaluate_all_sessions ::
    "ReferenceArbitrator \<Rightarrow> (u64 \<times> u64 \<times> u64 \<times> (u64 \<times> bytes) list) option" where
  "evaluate_all_sessions ra = evaluate_sessions (ra_sessions ra) (1, 1, 0xcbf29ce484222325, [])"

definition evaluate_latest_session ::
    "ReferenceArbitrator \<Rightarrow> (u64 \<times> u64 \<times> u64 \<times> (u64 \<times> bytes) list) option" where
  "evaluate_latest_session ra =
     (if ra_sessions ra = [] then Some (1, 1, 0xcbf29ce484222325, [])
      else let session = List.last (ra_sessions ra); anchor = anchor_of session
           in case emit_run (ref_messages session) anchor 0xcbf29ce484222325 [] of
                None \<Rightarrow> None
              | Some (watermark, h, emitted) \<Rightarrow> Some (anchor, watermark, h, emitted))"

text \<open>The loop ends unless every 64-bit number is present.\<close>

lemma emit_run_ends:
  assumes "msgs k = None"
  shows "\<exists>r. emit_run msgs cur h es = Some r"
proof (induction "unat (k - cur)" arbitrary: cur h es rule: less_induct)
  case less
  show ?case
  proof (cases "msgs cur")
    case None
    then show ?thesis by (subst emit_run.simps) simp
  next
    case (Some data)
    then have "k \<noteq> cur" using assms by auto
    then have "k - cur \<noteq> 0" by simp
    moreover have "k - (cur + 1) = k - cur - 1" by simp
    ultimately have "unat (k - (cur + 1)) < unat (k - cur)"
      using unat_minus_one [of "k - cur"] by (metis diff_less less_numeral_extra(1) unat_gt_0)
    then show ?thesis using less by (subst emit_run.simps) (simp add: Some)
  qed
qed

lemma hash_fold: "foldl (\<lambda>h b. (h XOR ucast b) * 0x100000001b3) h bs = fnv_bytes h bs"
  by (induction bs arbitrary: h) (simp_all add: fnv_bytes_def fnv_update_def)

text \<open>What a run emits: the numbers from \<open>a\<close> up to the first absent one.\<close>

lemma emit_run_deliver:
  assumes "a \<le> e" "e < 2 ^ 64" "\<And>n. a \<le> n \<Longrightarrow> n < e \<Longrightarrow> msgs (of_nat n) = Some (f n)" "msgs (of_nat e) = None"
  shows "emit_run msgs (of_nat a) h es
    = Some (of_nat e, fnv_tape h (map f [a ..< e]), es @ map (\<lambda>n. (of_nat n, f n)) [a ..< e])"
  using assms(1,3)
proof (induction "e - a" arbitrary: a h es)
  case 0
  then show ?case using assms(4) by (subst emit_run.simps) simp
next
  case (Suc d)
  then have ae: "a < e" by simp
  have s: "[a ..< e] = a # [Suc a ..< e]" using ae by (rule upt_conv_Cons)
  have "emit_run msgs (of_nat (Suc a)) (fnv_msg h (f a)) (es @ [(of_nat a, f a)])
      = Some (of_nat e, fnv_tape (fnv_msg h (f a)) (map f [Suc a ..< e]),
          (es @ [(of_nat a, f a)]) @ map (\<lambda>n. (of_nat n, f n)) [Suc a ..< e])"
    using Suc.hyps(2) ae Suc.prems(2) by (intro Suc.hyps(1)) simp_all
  then show ?case using Suc.prems(2) [of a] ae
    by (subst emit_run.simps) (simp add: s hash_fold fnv_msg_def add.commute)
qed

section \<open>Recording\<close>

text \<open>A data packet of the source adds its messages.\<close>

definition stored :: "RefSession \<Rightarrow> nat set" where
  "stored r = {n. n < SEQ_LIMIT \<and> ref_messages r (of_nat n) \<noteq> None}"

definition ref_ok :: "Source \<Rightarrow> RefSession \<Rightarrow> bool" where
  "ref_ok M r \<longleftrightarrow>
     (\<forall>q m. ref_messages r q = Some m \<longrightarrow> m = M (ref_session_id r) (unat q) \<and> unat q < SEQ_LIMIT) \<and>
     (ref_anchor r = None \<longrightarrow> ref_messages r = Map.empty)"

lemma seq_limit_u64: "n \<le> SEQ_LIMIT \<Longrightarrow> unat (of_nat n :: u64) = n"
  by (rule unat_of_nat_u64) (simp add: SEQ_LIMIT_def)

lemma stored_of:
  assumes "ref_ok M r" "ref_messages r (of_nat n) \<noteq> None" "n \<le> SEQ_LIMIT"
  shows "n \<in> stored r"
proof -
  obtain m where m: "ref_messages r (of_nat n) = Some m" using assms(2) by blast
  then have "unat (of_nat n :: u64) < SEQ_LIMIT" using assms(1) unfolding ref_ok_def by blast
  then show ?thesis using m seq_limit_u64 [OF assms(3)] by (simp add: stored_def)
qed

lemma stored_value:
  assumes "ref_ok M r" "n \<in> stored r"
  shows "ref_messages r (of_nat n) = Some (M (ref_session_id r) n)"
proof -
  obtain m where m: "ref_messages r (of_nat n) = Some m" "n < SEQ_LIMIT" using assms(2) by (auto simp: stored_def)
  then have "m = M (ref_session_id r) (unat (of_nat n :: u64))" using assms(1) unfolding ref_ok_def by blast
  then show ?thesis using m seq_limit_u64 [of n] by simp
qed

lemma ref_walk_data:
  assumes "drop pos frame = mold_body (map (M s) [q ..< q + c])" "pos \<le> length frame"
    and "\<forall>n. length (M s n) < 65536" "q + c \<le> SEQ_LIMIT" "ref_ok M r" "ref_session_id r = s"
  defines "r' \<equiv> ref_walk frame c pos (of_nat q) r"
  shows "ref_ok M r' \<and> ref_session_id r' = s \<and> stored r' = stored r \<union> {q ..< q + c} \<and>
    ref_anchor r' = (if ref_anchor r = None \<and> 0 < c then Some (of_nat q) else ref_anchor r)"
  using assms(1,2,4-6) unfolding r'_def
proof (induction c arbitrary: pos q r)
  case 0
  then show ?case by simp
next
  case (Suc c)
  let ?m = "M s q"
  have body: "drop pos frame = mold_block ?m @ mold_body (map (M s) [Suc q ..< Suc q + c])"
    using Suc.prems(1) by (simp add: upt_conv_Cons del: upt_Suc)
  have len: "pos + 2 + length ?m \<le> length frame"
    using arg_cong [OF body, of length] Suc.prems(2) by simp
  have "slice pos (pos + 2) frame = take 2 (drop pos frame)" by (simp add: slice_def)
  also have "\<dots> = u16_to_be_bytes (of_nat (length ?m))" by (simp add: body mold_block_def)
  finally have l: "unat (u16_from_be_bytes (slice pos (pos + 2) frame)) = length ?m"
    using assms(3) by (simp add: unat_of_nat)
  have "slice (pos + 2) (pos + 2 + length ?m) frame = take (length ?m) (drop 2 (drop pos frame))"
    by (simp add: slice_def add.commute)
  also have "\<dots> = ?m" by (simp add: body mold_block_def)
  finally have pay: "slice (pos + 2) (pos + 2 + length ?m) frame = ?m" .
  define r1 where "r1 = (if ref_anchor r = None then r\<lparr>ref_anchor := Some (of_nat q)\<rparr> else r)"
  define r2 where "r2 = (if ref_messages r1 (of_nat q) = None
      then r1\<lparr>ref_messages := (ref_messages r1)(of_nat q \<mapsto> ?m)\<rparr> else r1)"
  have q: "unat (of_nat q :: u64) = q" "q < SEQ_LIMIT" using Suc.prems(3) seq_limit_u64 by simp_all
  have next_seq: "saturating_add64 (of_nat q) 1 = of_nat (Suc q)"
    using q by (simp add: saturating_add64_def SEQ_LIMIT_def add.commute)
  have w: "ref_walk frame (Suc c) pos (of_nat q) r = ref_walk frame c (pos + 2 + length ?m) (of_nat (Suc q)) r2"
    using len l pay by (simp add: next_seq r2_def r1_def Let_def del: of_nat_Suc)
  have ok2: "ref_ok M r2" "ref_session_id r2 = s" "ref_anchor r2 = (if ref_anchor r = None then Some (of_nat q) else ref_anchor r)"
    using Suc.prems(4,5) q by (auto simp: ref_ok_def r2_def r1_def)
  have inj: "of_nat n = (of_nat q :: u64) \<longleftrightarrow> n = q" if "n < SEQ_LIMIT" for n
    using seq_limit_u64 [of n] q(1) that by (metis less_imp_le)
  have st: "stored r2 = insert q (stored r)"
    using q(2) inj by (auto simp: stored_def r2_def r1_def)
  have d: "drop (pos + 2 + length ?m) frame = mold_body (map (M s) [Suc q ..< Suc q + c])"
  proof -
    have "drop (pos + 2 + length ?m) frame = drop (2 + length ?m) (drop pos frame)"
      by (simp only: drop_drop add.assoc add.commute [of pos])
    also have "\<dots> = mold_body (map (M s) [Suc q ..< Suc q + c])" unfolding body by simp
    finally show ?thesis .
  qed
  have ih: "ref_ok M (ref_walk frame c (pos + 2 + length ?m) (of_nat (Suc q)) r2) \<and>
      ref_session_id (ref_walk frame c (pos + 2 + length ?m) (of_nat (Suc q)) r2) = s \<and>
      stored (ref_walk frame c (pos + 2 + length ?m) (of_nat (Suc q)) r2) = stored r2 \<union> {Suc q ..< Suc q + c} \<and>
      ref_anchor (ref_walk frame c (pos + 2 + length ?m) (of_nat (Suc q)) r2)
        = (if ref_anchor r2 = None \<and> 0 < c then Some (of_nat (Suc q)) else ref_anchor r2)"
    using Suc.prems(3) ok2(1,2) len d by (intro Suc.IH) simp_all
  have "{q ..< q + Suc c} = insert q {Suc q ..< Suc q + c}" by auto
  then have "stored (ref_walk frame c (pos + 2 + length ?m) (of_nat (Suc q)) r2) = stored r \<union> {q ..< q + Suc c}"
    using ih st by simp
  moreover have "ref_anchor (ref_walk frame c (pos + 2 + length ?m) (of_nat (Suc q)) r2)
      = (if ref_anchor r = None then Some (of_nat q) else ref_anchor r)"
    using ih ok2(3) by (simp split: if_splits)
  ultimately show ?case unfolding w using ih by simp
qed

section \<open>Eras\<close>

lemma eras_append: "eras (xs @ ys) = butlast (eras xs) @ (List.last (eras xs) @ hd (eras ys)) # tl (eras ys)"
proof (induction xs rule: eras.induct)
  case 1
  then show ?case using eras_nonempty [of ys] by simp
next
  case (2 q m os)
  then show ?case using eras_nonempty [of os] by (cases "eras os") auto
next
  case (3 p n os)
  then show ?case using eras_nonempty [of os] by simp
qed

lemma eras_deliver [simp]: "eras (deliver M s a b) = [numbered M s a b]"
proof -
  have "eras (map (\<lambda>n. Deliver (of_nat n) (M s n)) ns) = [map (\<lambda>n. (of_nat n, M s n)) ns]" for ns :: "nat list"
    by (induction ns) simp_all
  then show ?thesis by (simp add: deliver_def numbered_def)
qed

lemma numbered_append: "a \<le> b \<Longrightarrow> b \<le> c \<Longrightarrow> numbered M s a b @ numbered M s b c = numbered M s a c"
  using upt_add_eq_append [of a b "c - b"] by (simp add: numbered_def flip: map_append)

section \<open>Simulation\<close>

text \<open>A session the sequencer is done with: its deliveries are a run of what is stored, and
  with \<open>exact\<close> the whole run.\<close>

definition past_ok :: "bool \<Rightarrow> Source \<Rightarrow> (u64 \<times> bytes) list \<Rightarrow> RefSession \<Rightarrow> bool" where
  "past_ok exact M out r \<longleftrightarrow> ref_ok M r \<and>
     (case ref_anchor r of
        None \<Rightarrow> out = []
      | Some a \<Rightarrow> \<exists>w. unat a \<le> w \<and> w \<le> SEQ_LIMIT \<and> out = numbered M (ref_session_id r) (unat a) w \<and>
          {unat a ..< w} \<subseteq> stored r \<and> (exact \<longrightarrow> w \<notin> stored r))"

definition live_ok :: "bool \<Rightarrow> Source \<Rightarrow> Delivery \<Rightarrow> (u64 \<times> bytes) list \<Rightarrow> RefSession \<Rightarrow> bool" where
  "live_ok exact M st out r \<longleftrightarrow> ref_ok M r \<and> ref_session_id r = d_session st \<and>
     (case d_phase st of
        Unanchored \<Rightarrow> ref_anchor r = None \<and> out = []
      | Anchored \<Rightarrow> \<exists>a. ref_anchor r = Some a \<and> unat a \<le> d_w st \<and> out = numbered M (d_session st) (unat a) (d_w st) \<and>
          {unat a ..< d_w st} \<union> d_held st \<subseteq> stored r \<and> (exact \<longrightarrow> stored r \<inter> {d_w st ..} \<subseteq> d_held st)
      | Finished \<Rightarrow> past_ok exact M out r
      | Sealed_off \<Rightarrow> False)"

lemma live_past:
  assumes "live_ok exact M st out r" "spec_ok st"
  shows "past_ok exact M out r"
proof (cases "d_phase st")
  case Unanchored
  then show ?thesis using assms(1) by (simp add: live_ok_def past_ok_def)
next
  case Anchored
  then obtain a where a: "ref_ok M r" "ref_session_id r = d_session st" "ref_anchor r = Some a" "unat a \<le> d_w st"
    "out = numbered M (d_session st) (unat a) (d_w st)" "{unat a ..< d_w st} \<union> d_held st \<subseteq> stored r"
    "exact \<longrightarrow> stored r \<inter> {d_w st ..} \<subseteq> d_held st"
    using assms(1) by (auto simp: live_ok_def)
  have "d_w st \<notin> d_held st" "d_w st \<le> SEQ_LIMIT" using assms(2) by (auto simp: spec_ok_def)
  then show ?thesis using a by (auto simp: past_ok_def)
qed (use assms in \<open>simp_all add: live_ok_def\<close>)

text \<open>A data packet the abstract machine takes without losing a message.\<close>

definition keeps :: "Delivery \<Rightarrow> nat \<Rightarrow> nat \<Rightarrow> bool" where
  "keeps st q c \<longleftrightarrow> d_phase st \<noteq> Finished \<and> (d_phase st = Anchored \<longrightarrow> q + c \<le> d_w st + WINDOW_SLOTS)"

lemma live_data:
  assumes l: "live_ok exact M st out r" and ok: "spec_ok st" and ph: "d_phase st = Unanchored \<or> d_phase st = Anchored"
    and q: "q + c \<le> SEQ_LIMIT" "0 < c"
    and r': "ref_ok M r'" "ref_session_id r' = ref_session_id r" "stored r' = stored r \<union> {q ..< q + c}"
      "ref_anchor r' = (if ref_anchor r = None then Some (of_nat q) else ref_anchor r)"
    and k: "exact \<longrightarrow> keeps st q c"
    and d: "spec_data M q c st = (st', os)"
  shows "\<exists>new. eras os = [new] \<and> live_ok exact M st' (out @ new) r'"
proof -
  define s where "s = d_session st"
  define st1 where "st1 = (if d_phase st = Unanchored then st\<lparr>d_phase := Anchored, d_w := q\<rparr> else st)"
  have uq: "unat (of_nat q :: u64) = q" using q(1) seq_limit_u64 by simp
  have held: "d_held st1 \<subseteq> {d_w st1 <..< d_w st1 + 1024}" and w1: "d_w st1 \<le> SEQ_LIMIT"
    using ok q(1) by (auto simp: spec_ok_def st1_def)
  obtain a where a: "ref_anchor r' = Some a" "unat a \<le> d_w st1" "out = numbered M s (unat a) (d_w st1)"
    "{unat a ..< d_w st1} \<union> d_held st1 \<subseteq> stored r" "exact \<longrightarrow> stored r \<inter> {d_w st1 ..} \<subseteq> d_held st1"
  proof (cases "d_phase st = Unanchored")
    case True
    then have "ref_anchor r = None" "out = []" "d_held st = {}" "ref_messages r = Map.empty"
      using l ok by (auto simp: live_ok_def spec_ok_def ref_ok_def)
    then show ?thesis using True uq r'(4)
      by (intro that [of "of_nat q"]) (simp_all add: st1_def numbered_def stored_def)
  next
    case False
    then obtain b where b: "ref_anchor r = Some b" "unat b \<le> d_w st" "out = numbered M (d_session st) (unat b) (d_w st)"
      "{unat b ..< d_w st} \<union> d_held st \<subseteq> stored r" "exact \<longrightarrow> stored r \<inter> {d_w st ..} \<subseteq> d_held st"
      using ph l by (auto simp: live_ok_def)
    have "st1 = st" using False by (simp add: st1_def)
    with b show ?thesis using r'(4) by (intro that [of b]) (simp_all add: s_def)
  qed
  have st1: "d_session st1 = s" "d_phase st1 = Anchored" using ph by (auto simp: st1_def s_def)
  have rs: "ref_session_id r' = s" using l r'(2) by (simp add: live_ok_def s_def)
  consider (dup) "q + c \<le> d_w st1" | (cont) "\<not> q + c \<le> d_w st1" "q \<le> d_w st1" | (gap) "\<not> q \<le> d_w st1" by linarith
  then show ?thesis
  proof cases
    case dup
    then have "st' = st1" "os = []" using d by (simp_all add: spec_data_def Let_def flip: st1_def)
    then show ?thesis using a r' rs st1 dup by (auto simp: live_ok_def)
  next
    case cont
    define w' where "w' = advance 1024 (d_held st1) (q + c)"
    have st': "st' = st1\<lparr>d_w := w', d_held := {n \<in> d_held st1. w' \<le> n}\<rparr>" "os = deliver M s (d_w st1) w'"
      using d cont by (simp_all add: spec_data_def Let_def w'_def st1(1) flip: st1_def)
    have w': "q + c \<le> w'" "{q + c ..< w'} \<subseteq> d_held st1"
      using advance_window(1,2) [OF held, of "q + c"] cont(1) by (simp_all add: w'_def)
    have "{unat a ..< w'} \<subseteq> {unat a ..< d_w st1} \<union> {q ..< q + c} \<union> {q + c ..< w'}" using cont by auto
    also have "\<dots> \<subseteq> stored r'" using a(4) w'(2) r'(3) by blast
    finally have sub: "{unat a ..< w'} \<union> {n \<in> d_held st1. w' \<le> n} \<subseteq> stored r'" using a(4) r'(3) by blast
    have ex: "exact \<longrightarrow> stored r' \<inter> {w' ..} \<subseteq> {n \<in> d_held st1. w' \<le> n}"
      using a(5) r'(3) w'(1) cont(1) by auto
    have "numbered M s (unat a) (d_w st1) @ numbered M s (d_w st1) w' = numbered M s (unat a) w'"
      using a(2) w'(1) cont(1) by (intro numbered_append) simp_all
    then show ?thesis using a(1-3) r'(1) rs st1 sub ex w'(1) cont(1)
      by (intro exI [of _ "numbered M s (d_w st1) w'"]) (simp add: live_ok_def st')
  next
    case gap
    then have st': "st' = st1\<lparr>d_held := d_held st1 \<union> {q ..< min (q + c) (d_w st1 + 1024)}\<rparr>" "os = []"
      using d by (simp_all add: spec_data_def Let_def flip: st1_def)
    have "exact \<longrightarrow> q + c \<le> d_w st1 + 1024"
      using k ph gap by (auto simp: keeps_def st1_def)
    then have "exact \<longrightarrow> {q ..< min (q + c) (d_w st1 + 1024)} = {q ..< q + c}" by auto
    then show ?thesis using a r' rs st1 by (auto simp: live_ok_def st')
  qed
qed

text \<open>A whole run.\<close>

definition span_ok :: "bytes \<Rightarrow> bool" where
  "span_ok frame = (case parse_header frame of Inl _ \<Rightarrow> True | Inr h \<Rightarrow> kind h = KData \<longrightarrow> span h \<noteq> None)"

definition keeps_frame :: "bytes \<Rightarrow> Delivery \<Rightarrow> bool" where
  "keeps_frame frame st =
     (case parse_header frame of
        Inl _ \<Rightarrow> True
      | Inr h \<Rightarrow> kind h = KData \<longrightarrow>
          keeps (fst (spec_session (hdr_session h) st)) (unat (hdr_seq h)) (unat (hdr_count h)))"

fun none_lost :: "Source \<Rightarrow> bytes list \<Rightarrow> Delivery \<Rightarrow> bool" where
  "none_lost M [] st = True"
| "none_lost M (f # fs) st = (keeps_frame f st \<and> none_lost M fs (fst (spec_frame M f st)))"

definition run_ok :: "bool \<Rightarrow> Source \<Rightarrow> Delivery \<Rightarrow> Output list \<Rightarrow> ReferenceArbitrator \<Rightarrow> bool" where
  "run_ok exact M st os ra \<longleftrightarrow>
     (if ra_sessions ra = [] then ra_current_session_idx ra = None \<and> st = spec_init \<and> os = []
      else ra_current_session_idx ra = Some (length (ra_sessions ra) - 1) \<and> d_session st \<noteq> zero_session \<and>
        list_all2 (past_ok exact M) (butlast (eras os)) (butlast (ra_sessions ra)) \<and>
        live_ok exact M st (List.last (eras os)) (List.last (ra_sessions ra)))"

lemma live_ok_eos [simp]: "live_ok exact M st out (r\<lparr>ref_eos_seen := b\<rparr>) = live_ok exact M st out r"
proof -
  have "stored (r\<lparr>ref_eos_seen := b\<rparr>) = stored r" "ref_ok M (r\<lparr>ref_eos_seen := b\<rparr>) = ref_ok M r"
    by (simp_all add: stored_def ref_ok_def)
  then show ?thesis by (cases "d_phase st"; cases "ref_anchor r") (simp_all add: live_ok_def past_ok_def)
qed

lemma run_session:
  assumes "run_ok exact M st os ra" "spec_ok st" "s \<noteq> zero_session" "spec_session s st = (st1, o1)"
    "select_session s ra = (idx, ra1)"
  shows "run_ok exact M st1 (os @ o1) ra1 \<and> ra_sessions ra1 \<noteq> [] \<and> idx = length (ra_sessions ra1) - 1 \<and> d_session st1 = s"
proof (cases "ra_sessions ra = []")
  case True
  then have "st = spec_init" "os = []" "ra_current_session_idx ra = None" using assms(1) by (simp_all add: run_ok_def)
  then show ?thesis using assms(3-5) True
    by (auto simp: run_ok_def select_session_def spec_session_def spec_init_def RefSession_new_def live_ok_def ref_ok_def)
next
  case False
  let ?n = "length (ra_sessions ra)"
  note r = assms(1) [unfolded run_ok_def] False
  have cur: "ra_current_session_idx ra = Some (?n - 1)" "d_session st \<noteq> zero_session"
    and past: "list_all2 (past_ok exact M) (butlast (eras os)) (butlast (ra_sessions ra))"
    and live: "live_ok exact M st (List.last (eras os)) (List.last (ra_sessions ra))"
    using r by simp_all
  have id: "ref_session_id (ra_sessions ra ! (?n - 1)) = d_session st"
    using live False by (simp add: live_ok_def last_conv_nth)
  show ?thesis
  proof (cases "d_session st = s")
    case True
    then have "st1 = st" "o1 = []" "idx = ?n - 1" "ra1 = ra"
      using assms(3-5) cur id by (auto simp: spec_session_def select_session_def)
    then show ?thesis using assms(1) \<open>ra_sessions ra \<noteq> []\<close> \<open>d_session st = s\<close> by simp
  next
    case False
    then have e: "st1 = st\<lparr>d_session := s, d_phase := Unanchored, d_held := {}\<rparr>" "o1 = [Boundary (d_session st) s]"
      "idx = ?n" "ra1 = \<lparr>ra_sessions = ra_sessions ra @ [RefSession_new s], ra_current_session_idx = Some ?n\<rparr>"
      using assms(4,5) cur id by (auto simp: spec_session_def select_session_def)
    have er: "eras (os @ o1) = eras os @ [[]]"
      using eras_append [of os o1] eras_nonempty [of os] by (simp add: e(2))
    have "past_ok exact M (List.last (eras os)) (List.last (ra_sessions ra))" using live assms(2) by (rule live_past)
    then have "list_all2 (past_ok exact M) (butlast (eras os) @ [List.last (eras os)])
        (butlast (ra_sessions ra) @ [List.last (ra_sessions ra)])"
      using past by (intro list_all2_appendI) simp_all
    then have "list_all2 (past_ok exact M) (eras os) (ra_sessions ra)"
      using eras_nonempty r(2) by simp
    then show ?thesis using e er assms(3)
      by (simp add: run_ok_def live_ok_def RefSession_new_def ref_ok_def)
  qed
qed

lemma run_frame:
  assumes r: "run_ok exact M st os ra" and ok: "spec_ok st" and src: "source_ok M" and f: "frame_ok M frame" "span_ok frame"
    and k: "exact \<longrightarrow> keeps_frame frame st" and s: "spec_frame M frame st = (st', o')"
  shows "run_ok exact M st' (os @ o') (ingest_packet frame ra)"
proof (cases "parse_header frame")
  case (Inl e)
  then have "length frame < 20" by (simp add: parse_header_Inl)
  then show ?thesis using r s Inl by (simp add: ingest_packet_def spec_frame_def)
next
  case (Inr h)
  let ?s = "hdr_session h"
  note hd = frame_of_header [OF Inr]
  have fields: "slice 0 10 frame = ?s" "u64_from_be_bytes (slice 10 18 frame) = hdr_seq h"
    "u16_from_be_bytes (slice 18 20 frame) = hdr_count h"
    using Inr hd(1) by (auto simp: parse_header_def)
  have nz: "?s \<noteq> zero_session" using f(1) Inr by (simp add: frame_ok_def)
  obtain st1 o1 where s1: "spec_session ?s st = (st1, o1)" by fastforce
  obtain idx ra1 where sel: "select_session ?s ra = (idx, ra1)" by fastforce
  note rs = run_session [OF r ok nz s1 sel]
  have ok1: "spec_ok st1" using spec_session_ok [OF ok, of ?s] s1 by simp
  have r1: "ra_current_session_idx ra1 = Some (length (ra_sessions ra1) - 1)" "d_session st1 \<noteq> zero_session"
    "list_all2 (past_ok exact M) (butlast (eras (os @ o1))) (butlast (ra_sessions ra1))"
    "live_ok exact M st1 (List.last (eras (os @ o1))) (List.last (ra_sessions ra1))"
    "d_session st1 = ?s"
    using rs nz by (auto simp: run_ok_def)
  have r1_last: "ra_sessions ra1 ! idx = List.last (ra_sessions ra1)" using rs by (simp add: last_conv_nth)
  have live: "d_phase st1 \<noteq> Sealed_off" "d_phase st \<noteq> Sealed_off"
    using r1(4) r by (auto simp: live_ok_def run_ok_def spec_init_def split: if_splits)
  have upd: "run_ok exact M st2 ((os @ o1) @ o2) (ra1\<lparr>ra_sessions := (ra_sessions ra1)[idx := r2]\<rparr>)"
    if "eras o2 = [new]" "live_ok exact M st2 (List.last (eras (os @ o1)) @ new) r2" "d_session st2 = d_session st1" for st2 o2 new r2
  proof -
    have "eras ((os @ o1) @ o2) = butlast (eras (os @ o1)) @ [List.last (eras (os @ o1)) @ new]"
      using that(1) by (subst eras_append) simp
    then show ?thesis using rs r1 that
      by (simp add: run_ok_def butlast_list_update last_list_update)
  qed
  let ?r = "List.last (ra_sessions ra1)" and ?out = "List.last (eras (os @ o1))"
  have ing: "ingest_packet frame ra =
      (if hdr_count h = 65535 then ra1\<lparr>ra_sessions := (ra_sessions ra1)[idx := ?r\<lparr>ref_eos_seen := True\<rparr>]\<rparr>
       else if hdr_count h = 0 then ra1
       else ra1\<lparr>ra_sessions := (ra_sessions ra1)[idx := ref_walk frame (unat (hdr_count h)) 20 (hdr_seq h) ?r]\<rparr>)"
    using hd(1) fields sel r1_last by (simp add: ingest_packet_def Let_def)
  consider (hb) "hdr_count h = 0" | (eos) "hdr_count h = 65535" | (data) "hdr_count h \<noteq> 0" "hdr_count h \<noteq> 65535" by blast
  then show ?thesis
  proof cases
    case hb
    then show ?thesis using rs s Inr s1 live ing by (simp add: spec_frame_def spec_header_def)
  next
    case eos
    have e: "st' = spec_eos (unat (hdr_seq h)) st1" "o' = o1"
      using s Inr s1 live eos by (simp_all add: spec_frame_def spec_header_def)
    have "live_ok exact M st' ?out ?r"
      using r1(4) live_past [OF r1(4) ok1] live(1) unfolding e(1)
      by (cases "d_phase st1") (simp_all add: spec_eos_def live_ok_def)
    then have "live_ok exact M st' (?out @ []) (?r\<lparr>ref_eos_seen := True\<rparr>)" by simp
    moreover have "d_session st' = d_session st1" by (auto simp: e(1) spec_eos_def split: Phase.split)
    ultimately show ?thesis using upd [of "[]" "[]" st'] eos ing e by simp
  next
    case data
    have kd: "kind h = KData" using data by (simp add: kind_def)
    then have sp: "span h \<noteq> None" using f(2) Inr by (simp add: span_ok_def)
    note fo = frame_ok_data [OF f(1) Inr data sp]
    let ?q = "unat (hdr_seq h)" and ?c = "unat (hdr_count h)"
    define r2 where "r2 = ref_walk frame ?c 20 (hdr_seq h) ?r"
    have rok: "ref_ok M ?r" "ref_session_id ?r = ?s" using r1(4,5) by (simp_all add: live_ok_def)
    have "drop 20 frame = mold_body (map (M ?s) [?q ..< ?q + ?c])"
      using fo(3) drop_header_frame [OF hd(2)] by metis
    from ref_walk_data [OF this hd(1) source_okD(3) [OF src] fo(1) rok]
    have w: "ref_ok M r2" "ref_session_id r2 = ref_session_id ?r" "stored r2 = stored ?r \<union> {?q ..< ?q + ?c}"
      "ref_anchor r2 = (if ref_anchor ?r = None then Some (hdr_seq h) else ref_anchor ?r)"
      using rok(2) fo(2) by (simp_all add: r2_def)
    have ex: "exact \<longrightarrow> keeps st1 ?q ?c" using k Inr kd s1 by (simp add: keeps_frame_def)
    show ?thesis
    proof (cases "d_phase st1 = Finished")
      case True
      then have e: "st' = st1" "o' = o1" using s Inr s1 live data by (simp_all add: spec_frame_def spec_header_def)
      have ne: "\<not> exact" using ex True by (auto simp: keeps_def)
      have p: "past_ok exact M ?out ?r" using r1(4) True by (simp add: live_ok_def)
      have "past_ok exact M ?out r2"
      proof (cases "ref_anchor ?r")
        case None
        then have "?out = []" "ref_anchor r2 = Some (hdr_seq h)" using p w(4) by (simp_all add: past_ok_def)
        then show ?thesis using w(1) ne fo(1) by (auto simp: past_ok_def numbered_def)
      next
        case (Some a)
        then show ?thesis using p w ne by (auto simp: past_ok_def)
      qed
      then have "live_ok exact M st1 (?out @ []) r2" using True w(1,2) rok(2) r1(5) by (simp add: live_ok_def)
      then show ?thesis using upd [of "[]" "[]" st1] data ing e by (simp add: r2_def)
    next
      case False
      obtain st2 o2 where d: "spec_data M ?q ?c st1 = (st2, o2)" by fastforce
      have e: "st' = st2" "o' = o1 @ o2"
        using s Inr s1 live data sp False d by (auto simp: spec_frame_def spec_header_def)
      have w4: "ref_anchor r2 = (if ref_anchor ?r = None then Some (of_nat ?q) else ref_anchor ?r)" using w(4) by simp
      have ph: "d_phase st1 = Unanchored \<or> d_phase st1 = Anchored"
        using False live(1) by (cases "d_phase st1") auto
      obtain new where "eras o2 = [new]" "live_ok exact M st2 (?out @ new) r2"
        using live_data [OF r1(4) ok1 ph fo(1,2) w(1-3) w4 ex d] by blast
      moreover have "d_session st2 = d_session st1"
        using d by (auto simp: spec_data_def Let_def split: if_splits)
      ultimately show ?thesis using upd data ing e by (simp add: r2_def)
    qed
  qed
qed

lemma run_frames:
  assumes "run_ok exact M st os ra" "spec_ok st" "source_ok M" "\<forall>f \<in> set fs. frame_ok M f \<and> span_ok f"
    "exact \<longrightarrow> none_lost M fs st"
  shows "run_ok exact M (fst (spec_run M fs st)) (os @ snd (spec_run M fs st)) (fold ingest_packet fs ra) \<and>
    spec_ok (fst (spec_run M fs st))"
  using assms
proof (induction fs arbitrary: st os ra)
  case Nil
  then show ?case by simp
next
  case (Cons f fs)
  obtain st1 o1 where f: "spec_frame M f st = (st1, o1)" by fastforce
  have "run_ok exact M st1 (os @ o1) (ingest_packet f ra)"
    using Cons.prems f by (intro run_frame [OF Cons.prems(1-3)]) simp_all
  moreover have "spec_ok st1" using spec_frame_ok [OF Cons.prems(2), of M f] Cons.prems(4) f by simp
  ultimately have "run_ok exact M (fst (spec_run M fs st1)) ((os @ o1) @ snd (spec_run M fs st1)) (fold ingest_packet fs (ingest_packet f ra)) \<and>
      spec_ok (fst (spec_run M fs st1))"
    using Cons.prems(3-5) f by (intro Cons.IH) simp_all
  then show ?case by (cases "spec_run M fs st1") (simp add: f)
qed

section \<open>The oracle\<close>

lemma emit_past:
  assumes "past_ok exact M out r"
  shows "\<exists>cur em. (\<forall>h es. emit_run (ref_messages r) (anchor_of r) h es = Some (cur, fnv_tape h (map snd em), es @ em)) \<and>
    prefix out em \<and> (exact \<longrightarrow> em = out)"
proof (cases "ref_anchor r")
  case None
  then have "ref_messages r = Map.empty" "out = []" using assms by (simp_all add: past_ok_def ref_ok_def)
  then show ?thesis by (intro exI [of _ "anchor_of r"] exI [of _ "[]"]) (simp add: emit_run.simps)
next
  case (Some a)
  let ?s = "ref_session_id r"
  obtain w where w: "unat a \<le> w" "w \<le> SEQ_LIMIT" "out = numbered M ?s (unat a) w" "{unat a ..< w} \<subseteq> stored r"
    "exact \<longrightarrow> w \<notin> stored r"
    using assms Some by (auto simp: past_ok_def)
  have okr: "ref_ok M r" using assms by (simp add: past_ok_def)
  define e where "e = (LEAST n. unat a \<le> n \<and> n \<notin> stored r)"
  have top: "unat a \<le> SEQ_LIMIT \<and> SEQ_LIMIT \<notin> stored r" using w by (simp add: stored_def)
  have e: "unat a \<le> e" "e \<notin> stored r" "e \<le> SEQ_LIMIT"
    using LeastI [of "\<lambda>n. unat a \<le> n \<and> n \<notin> stored r", OF top] Least_le [of "\<lambda>n. unat a \<le> n \<and> n \<notin> stored r", OF top]
    by (simp_all add: e_def)
  have below: "n \<in> stored r" if "unat a \<le> n" "n < e" for n
    using not_less_Least [of n "\<lambda>n. unat a \<le> n \<and> n \<notin> stored r"] that by (auto simp: e_def)
  have we: "w \<le> e" using e(1,2) w(4) by (metis atLeastLessThan_iff not_le subsetD)
  have "ref_messages r (of_nat e) = None"
    using stored_of [OF okr _ e(3)] e(2) by blast
  moreover have "ref_messages r (of_nat n) = Some (M ?s n)" if "unat a \<le> n" "n < e" for n
    using stored_value [OF okr below [OF that]] .
  moreover have "e < 2 ^ 64" using e(3) by (simp add: SEQ_LIMIT_def)
  ultimately have "emit_run (ref_messages r) (of_nat (unat a)) h es
      = Some (of_nat e, fnv_tape h (map (M ?s) [unat a ..< e]), es @ numbered M ?s (unat a) e)" for h es
    unfolding numbered_def by (intro emit_run_deliver e(1))
  moreover have "anchor_of r = of_nat (unat a)" using Some by (simp add: anchor_of_def)
  moreover have "map snd (numbered M ?s (unat a) e) = map (M ?s) [unat a ..< e]" by (simp add: numbered_def)
  moreover have "prefix out (numbered M ?s (unat a) e)"
    using numbered_append [OF w(1) we, of M ?s] by (metis w(3) prefixI)
  moreover have "exact \<longrightarrow> numbered M ?s (unat a) e = out"
    using below [of w] we w(1,3,5) by (cases "w = e") auto
  ultimately show ?thesis by (intro exI [of _ "of_nat e"] exI [of _ "numbered M ?s (unat a) e"]) simp
qed

lemma evaluate_past:
  assumes "list_all2 (past_ok True M) outs rs"
  shows "\<exists>fa wm'. evaluate_sessions rs (fa0, wm, h, es) = Some (fa, wm', fnv_tape h (map snd (concat outs)), es @ concat outs) \<and>
    (rs \<noteq> [] \<longrightarrow> (\<exists>h' es' es''. emit_run (ref_messages (List.last rs)) (anchor_of (List.last rs)) h' es' = Some (wm', es'')))"
  using assms
proof (induction outs rs arbitrary: fa0 wm h es rule: list_all2_induct)
  case Nil
  then show ?case by simp
next
  case (Cons out outs r rs)
  obtain cur em where e: "\<And>h es. emit_run (ref_messages r) (anchor_of r) h es = Some (cur, fnv_tape h (map snd em), es @ em)" "em = out"
    using emit_past [OF Cons.hyps(1)] by auto
  obtain fa wm' where ih: "evaluate_sessions rs (anchor_of r, cur, fnv_tape h (map snd out), es @ out)
      = Some (fa, wm', fnv_tape (fnv_tape h (map snd out)) (map snd (concat outs)), (es @ out) @ concat outs)"
    "rs \<noteq> [] \<longrightarrow> (\<exists>h' es' es''. emit_run (ref_messages (List.last rs)) (anchor_of (List.last rs)) h' es' = Some (wm', es''))"
    using Cons.IH by blast
  show ?case
  proof (cases "rs = []")
    case True
    then have "outs = []" using Cons.hyps(2) by simp
    then show ?thesis using True e by simp
  next
    case False
    then show ?thesis using e ih by (intro exI [of _ fa] exI [of _ wm']) simp
  qed
qed

lemma run_start: "run_ok exact M spec_init [] ReferenceArbitrator_new"
  by (simp add: run_ok_def ReferenceArbitrator_new_def)

lemma run_past:
  assumes "run_ok exact M st os ra" "spec_ok st" "ra_sessions ra \<noteq> []"
  shows "list_all2 (past_ok exact M) (eras os) (ra_sessions ra)"
proof -
  have "past_ok exact M (List.last (eras os)) (List.last (ra_sessions ra))"
    using assms by (intro live_past [of exact M st]) (simp_all add: run_ok_def)
  then have "list_all2 (past_ok exact M) (butlast (eras os) @ [List.last (eras os)]) (butlast (ra_sessions ra) @ [List.last (ra_sessions ra)])"
    using assms by (intro list_all2_appendI) (simp_all add: run_ok_def)
  then show ?thesis using eras_nonempty assms(3) by simp
qed

lemma spec_init_ok: "spec_ok spec_init"
  by (simp add: spec_ok_def spec_init_def)

lemma reference_run:
  assumes "source_ok M" and "\<forall>p \<in> set ps. frame_ok M (fst p) \<and> span_ok (fst p)"
    and "none_lost M (map fst ps) spec_init"
  shows "\<exists>anchor wm.
    evaluate_all_sessions (fold ingest_packet (map fst ps) ReferenceArbitrator_new)
      = Some (anchor, wm,
          fnv_tape FNV_OFFSET (map snd (concat (eras (outputs (snd (ingest_run ps Sequencer_new_unboxed)))))),
          concat (eras (outputs (snd (ingest_run ps Sequencer_new_unboxed))))) \<and>
    (phase_of (sq_state (fst (ingest_run ps Sequencer_new_unboxed))) = Anchored \<longrightarrow>
      wm = sq_w (fst (ingest_run ps Sequencer_new_unboxed)))"
proof -
  let ?ra = "fold ingest_packet (map fst ps) ReferenceArbitrator_new"
  let ?os = "snd (spec_run M (map fst ps) spec_init)" and ?st = "fst (spec_run M (map fst ps) spec_init)"
  let ?sq = "fst (ingest_run ps Sequencer_new_unboxed)"
  have fs: "\<forall>f \<in> set (map fst ps). frame_ok M f \<and> span_ok f" using assms(2) by auto
  have sim: "simulates M ?st ?sq" and out: "outputs (snd (ingest_run ps Sequencer_new_unboxed)) = ?os"
    using ingest_run_simulates [OF new_simulates assms(1), of ps] fs by simp_all
  have r: "run_ok True M ?st ?os ?ra" "spec_ok ?st"
    using run_frames [OF run_start spec_init_ok assms(1) fs, of True] assms(3) by simp_all
  show ?thesis
  proof (cases "ra_sessions ?ra = []")
    case True
    then have "?os = []" "?st = spec_init" using r(1) by (simp_all add: run_ok_def)
    moreover have "phase_of (sq_state ?sq) = d_phase ?st" using sim by (simp add: simulates_def)
    ultimately show ?thesis unfolding out using True
      by (simp add: evaluate_all_sessions_def) (simp add: spec_init_def)
  next
    case False
    obtain fa wm where e: "evaluate_all_sessions ?ra = Some (fa, wm, fnv_tape FNV_OFFSET (map snd (concat (eras ?os))), concat (eras ?os))"
      "\<exists>h' es' es''. emit_run (ref_messages (List.last (ra_sessions ?ra))) (anchor_of (List.last (ra_sessions ?ra))) h' es' = Some (wm, es'')"
      using evaluate_past [OF run_past [OF r False], of 1 1 FNV_OFFSET "[]"] False
      unfolding evaluate_all_sessions_def by (metis append_Nil)
    have "wm = sq_w ?sq" if "phase_of (sq_state ?sq) = Anchored"
    proof -
      let ?r = "List.last (ra_sessions ?ra)"
      have q: "d_phase ?st = Anchored" "unat (sq_w ?sq) = d_w ?st" using sim that by (simp_all add: simulates_def)
      have l: "live_ok True M ?st (List.last (eras ?os)) ?r" using r(1) False by (simp add: run_ok_def)
      obtain a where a: "ref_anchor ?r = Some a" "unat a \<le> d_w ?st" "{unat a ..< d_w ?st} \<union> d_held ?st \<subseteq> stored ?r"
        "stored ?r \<inter> {d_w ?st ..} \<subseteq> d_held ?st" "ref_ok M ?r"
        using l q(1) by (auto simp: live_ok_def)
      have w: "d_w ?st \<notin> d_held ?st" "d_w ?st \<le> SEQ_LIMIT" using r(2) by (auto simp: spec_ok_def)
      have absent: "ref_messages ?r (of_nat (d_w ?st)) = None"
        using stored_of [OF a(5) _ w(2)] a(4) w(1) by blast
      have there: "ref_messages ?r (of_nat n) = Some (M (ref_session_id ?r) n)" if n: "unat a \<le> n" "n < d_w ?st" for n
        using a(3) n by (intro stored_value [OF a(5)]) auto
      have "d_w ?st < 2 ^ 64" using w(2) by (simp add: SEQ_LIMIT_def)
      from emit_run_deliver [where msgs = "ref_messages ?r" and f = "M (ref_session_id ?r)", OF a(2) this there absent]
      have "emit_run (ref_messages ?r) (anchor_of ?r) h' es' = Some (wm, es'') \<Longrightarrow> wm = of_nat (d_w ?st)" for h' es' es''
        using a(1) by (simp add: anchor_of_def)
      then show ?thesis using e(2) by (auto simp flip: q(2))
    qed
    then show ?thesis unfolding out using e(1) by blast
  qed
qed

section \<open>Properties\<close>

text \<open>The sequencer never delivers what the oracle would not.  Over any sequence of
  well-formed frames, in any order and with any loss, duplication or change of session, the
  sequencer and the reference see the same sessions, the reference's emission of every session
  terminates, and what the sequencer delivered in a session is a prefix of that emission,
  numbers and bytes.\<close>

theorem reference_covers_deliveries:
  assumes "source_ok M" and "\<forall>p \<in> set ps. frame_ok M (fst p) \<and> span_ok (fst p)"
  shows "(ra_sessions (fold ingest_packet (map fst ps) ReferenceArbitrator_new) = [] \<longrightarrow>
      outputs (snd (ingest_run ps Sequencer_new_unboxed)) = []) \<and>
    (ra_sessions (fold ingest_packet (map fst ps) ReferenceArbitrator_new) \<noteq> [] \<longrightarrow>
      list_all2 (\<lambda>out r. \<exists>cur h em. emit_run (ref_messages r) (anchor_of r) FNV_OFFSET [] = Some (cur, h, em) \<and> prefix out em)
        (eras (outputs (snd (ingest_run ps Sequencer_new_unboxed))))
        (ra_sessions (fold ingest_packet (map fst ps) ReferenceArbitrator_new)))"
proof -
  let ?ra = "fold ingest_packet (map fst ps) ReferenceArbitrator_new"
  let ?os = "snd (spec_run M (map fst ps) spec_init)" and ?st = "fst (spec_run M (map fst ps) spec_init)"
  have fs: "\<forall>f \<in> set (map fst ps). frame_ok M f \<and> span_ok f" using assms(2) by auto
  have out: "outputs (snd (ingest_run ps Sequencer_new_unboxed)) = ?os"
    using ingest_run_simulates [OF new_simulates assms(1), of ps] fs by simp
  have r: "run_ok False M ?st ?os ?ra" "spec_ok ?st"
    using run_frames [OF run_start spec_init_ok assms(1) fs, of False] by simp_all
  have p: "list_all2 (past_ok False M) (eras ?os) (ra_sessions ?ra)" if "ra_sessions ?ra \<noteq> []"
    using r that by (rule run_past)
  have "list_all2 (\<lambda>out r. \<exists>cur h em. emit_run (ref_messages r) (anchor_of r) FNV_OFFSET [] = Some (cur, h, em) \<and> prefix out em)
      (eras ?os) (ra_sessions ?ra)" if "ra_sessions ?ra \<noteq> []"
    by (rule list_all2_mono [OF p [OF that]]) (metis emit_past append_Nil)
  then show ?thesis using r(1) unfolding out by (simp add: run_ok_def split: if_splits)
qed

text \<open>Two copies of a packet, a later one that leaves a gap, and the packet that fills it.\<close>

definition sample_packets :: "(bytes \<times> FeedId \<times> u64) list" where
  "sample_packets =
     [(data_frame sample_source sample_session 5 2, 0, 1), (data_frame sample_source sample_session 5 2, 1, 2),
      (data_frame sample_source sample_session 9 1, 0, 3), (data_frame sample_source sample_session 6 3, 1, 4)]"

lemma sample_header: "parse_header (data_frame sample_source sample_session q c) = Inr \<lparr>hdr_session = sample_session, hdr_seq = q, hdr_count = c\<rparr>"
  using sample_facts(1) by (simp add: data_frame_def parse_header_frame)

lemma sample_packets_ok: "\<forall>p \<in> set sample_packets. frame_ok sample_source (fst p) \<and> span_ok (fst p)"
  by (simp add: sample_packets_def sample_frame_ok SEQ_LIMIT_def span_ok_def sample_header span_def checked_add64_def)

lemma select_session_some:
  "select_session s ra = (i, ra1) \<Longrightarrow> ra_sessions ra \<noteq> [] \<or> ra_current_session_idx ra = None \<Longrightarrow> ra_sessions ra1 \<noteq> []"
  by (auto simp: select_session_def Let_def split: option.splits if_splits)

lemma ingest_packet_some:
  assumes "ra_sessions ra \<noteq> []"
  shows "ra_sessions (ingest_packet f ra) \<noteq> []"
  using assms by (auto simp: ingest_packet_def Let_def split: prod.splits if_splits dest: select_session_some)

lemma sample_packets_seen: "ra_sessions (fold ingest_packet (map fst sample_packets) ReferenceArbitrator_new) \<noteq> []"
proof -
  let ?f = "data_frame sample_source sample_session 5 2"
  have "ra_sessions (ingest_packet ?f ReferenceArbitrator_new) \<noteq> []"
    using sample_header [of 5 2]
    by (auto simp: ingest_packet_def parse_header_def ReferenceArbitrator_new_def Let_def split: prod.splits if_splits
        dest: select_session_some)
  then show ?thesis by (simp add: sample_packets_def ingest_packet_some)
qed

lemma reference_covers_deliveries_witness:
  "list_all2 (\<lambda>out r. \<exists>cur h em. emit_run (ref_messages r) (anchor_of r) FNV_OFFSET [] = Some (cur, h, em) \<and> prefix out em)
     (eras (outputs (snd (ingest_run sample_packets Sequencer_new_unboxed))))
     (ra_sessions (fold ingest_packet (map fst sample_packets) ReferenceArbitrator_new))"
  using reference_covers_deliveries [OF sample_source_ok sample_packets_ok] sample_packets_seen by blast

text \<open>C5: without losses beyond the window the sequencer delivers all of it.  When every data
  packet ends at most a window's length above the watermark it meets, and none follows the
  end of its session, the reference's evaluation terminates with exactly the sequencer's
  deliveries, the golden fold of their bytes as its hash, and, while the last session is
  anchored, the sequencer's watermark.\<close>

theorem reference_agrees:
  assumes "source_ok M" and "\<forall>p \<in> set ps. frame_ok M (fst p) \<and> span_ok (fst p)"
    and "none_lost M (map fst ps) spec_init"
  shows "\<exists>anchor wm.
    evaluate_all_sessions (fold ingest_packet (map fst ps) ReferenceArbitrator_new)
      = Some (anchor, wm,
          fnv_tape FNV_OFFSET (map snd (concat (eras (outputs (snd (ingest_run ps Sequencer_new_unboxed)))))),
          concat (eras (outputs (snd (ingest_run ps Sequencer_new_unboxed))))) \<and>
    (phase_of (sq_state (fst (ingest_run ps Sequencer_new_unboxed))) = Anchored \<longrightarrow>
      wm = sq_w (fst (ingest_run ps Sequencer_new_unboxed)))"
  using assms by (rule reference_run)

lemma sample_packets_kept: "none_lost sample_source (map fst sample_packets) spec_init"
proof -
  have nz: "sample_session \<noteq> zero_session" by (rule sample_facts(2))
  show ?thesis
    using nz
    by (simp add: sample_packets_def keeps_frame_def keeps_def sample_header spec_frame_def spec_header_def spec_session_def
        spec_init_def spec_data_def kind_def span_def checked_add64_def Let_def)
qed

lemma reference_agrees_witness:
  "\<exists>anchor wm hash. evaluate_all_sessions (fold ingest_packet (map fst sample_packets) ReferenceArbitrator_new)
     = Some (anchor, wm, hash, concat (eras (outputs (snd (ingest_run sample_packets Sequencer_new_unboxed)))))"
  using reference_agrees [OF sample_source_ok sample_packets_ok sample_packets_kept] by blast

end
