(* ===== verification/Golden.thy ===== *)
theory Golden
  imports ReplayIngest Reference
begin

text \<open>
  The golden law end to end: a schedule of packets cut from a tape, rendered and replayed by
  the transport, arbitrated by the sequencer, and folded by the golden hash gives the golden
  hash of the tape (\<open>golden.rs\<close>), which no packet, blob, cursor, window or batch enters.
\<close>

section \<open>The tape as a source\<close>

text \<open>Message \<open>n\<close> of the only session is the tape's message \<open>n - 1\<close>; the numbers outside the
  tape are never asked for.\<close>

definition tape_source :: "bytes \<Rightarrow> Source" where
  "tape_source gt s n = (if 1 \<le> n \<and> n \<le> length (tape_messages gt) then tape_messages gt ! (n - 1) else sample_msg)"

lemma tape_source_ok: "\<forall>m \<in> set (tape_messages gt). validate m = Inr () \<Longrightarrow> source_ok (tape_source gt)"
  using sample_source_ok by (auto simp: source_ok_def tape_source_def sample_source_def)

lemma tape_source_messages: "map (tape_source gt s) [1 ..< Suc (length (tape_messages gt))] = tape_messages gt"
  by (rule nth_equalityI) (simp_all add: tape_source_def del: upt_Suc)

text \<open>A schedule whose packets carry the tape: one session, and sequence number \<open>m + 1\<close> for
  message \<open>m\<close>, as \<open>build_schedule\<close> numbers them.\<close>

definition carries :: "SchedKind \<Rightarrow> bool" where
  "carries k = (case k of PacketEv q m n \<Rightarrow> n \<noteq> 0 \<and> q = m + 1 | _ \<Rightarrow> True)"

definition event_range :: "SchedKind \<Rightarrow> nat set" where
  "event_range k = (case k of PacketEv q m n \<Rightarrow> {unat q ..< unat q + unat n} | _ \<Rightarrow> {})"

lemma carries_packet:
  assumes "carries (PacketEv q m n)" "event_fits gt (PacketEv q m n)" "length (tape_messages gt) < SEQ_LIMIT"
  shows "unat q = unat m + 1" "unat q + unat n \<le> Suc (length (tape_messages gt))" "unat q + unat n \<le> SEQ_LIMIT"
    "event_msgs gt (PacketEv q m n) = map (tape_source gt s) [unat q ..< unat q + unat n]"
proof -
  have f: "unat m + unat n \<le> length (tape_messages gt)" using assms(2) by (simp add: event_fits_def)
  show q: "unat q = unat m + 1"
    using assms(1,3) f by (simp add: carries_def unat_plus_u64 SEQ_LIMIT_def)
  show "unat q + unat n \<le> Suc (length (tape_messages gt))" "unat q + unat n \<le> SEQ_LIMIT" using q f assms(3) by simp_all
  show "event_msgs gt (PacketEv q m n) = map (tape_source gt s) [unat q ..< unat q + unat n]"
  proof (rule nth_equalityI)
    have l: "length (event_msgs gt (PacketEv q m n)) = unat n" using f by (auto simp: event_msgs_def min_def)
    then show "length (event_msgs gt (PacketEv q m n)) = length (map (tape_source gt s) [unat q ..< unat q + unat n])" by simp
    fix i
    assume "i < length (event_msgs gt (PacketEv q m n))"
    then have "i < unat n" using l by simp
    then show "event_msgs gt (PacketEv q m n) ! i = map (tape_source gt s) [unat q ..< unat q + unat n] ! i"
      using f q by (simp add: event_msgs_def tape_source_def del: upt_Suc)
  qed
qed

section \<open>Frames of the schedule\<close>

lemma wire_header:
  assumes "length s = 10" "rs_session_split sched = None"
  shows "parse_header (wire gt sched s ev)
    = Inr \<lparr>hdr_session = s, hdr_seq = fst (event_header (se_kind ev)), hdr_count = snd (event_header (se_kind ev))\<rparr>"
  using assms by (simp add: wire_def effective_session_def parse_header_frame)

lemma small_count: "event_fits gt (PacketEv q m n) \<Longrightarrow> unat n \<le> 740"
proof -
  assume e: "event_fits gt (PacketEv q m n)"
  let ?ms = "event_msgs gt (PacketEv q m n)"
  have "length ?ms = unat n" using e by (auto simp: event_msgs_def event_fits_def min_def)
  moreover have "20 + length (mold_body ?ms) \<le> 1500" using e by (auto simp: event_fits_def ARENA_SLOT_SIZE_def)
  moreover have "2 * length ms \<le> length (mold_body ms)" for ms by (induction ms) (simp_all add: mold_body_def)
  then have "2 * length ?ms \<le> length (mold_body ?ms)" by blast
  ultimately show "unat n \<le> 740" by linarith
qed

lemma small_packet: "event_fits gt (PacketEv q m n) \<Longrightarrow> n \<noteq> 65535"
  using small_count by fastforce

lemma wire_frame_ok:
  assumes "length s = 10" "s \<noteq> zero_session" "rs_session_split sched = None" "carries (se_kind ev)"
    "event_fits gt (se_kind ev)" "length (tape_messages gt) < SEQ_LIMIT"
  shows "frame_ok (tape_source gt) (wire gt sched s ev) \<and> span_ok (wire gt sched s ev)"
proof (cases "se_kind ev")
  case (PacketEv q m n)
  note c = carries_packet [OF assms(4,5,6) [unfolded PacketEv]]
  have n: "n \<noteq> 0" using assms(4) by (simp add: carries_def PacketEv)
  have w: "wire gt sched s ev = mold_frame s q n (map (tape_source gt s) [unat q ..< unat q + unat n])"
    using c(4) [of s] assms(3) by (simp add: wire_def effective_session_def event_header_def PacketEv)
  have "unat q + (unat n - 1) < 2 ^ 64" using c(3) by (simp add: SEQ_LIMIT_def)
  moreover have "unat (ucast n - 1 :: u64) = unat n - 1"
    using n by (subst unat_minus_one) (auto simp flip: unat_eq_zero)
  ultimately have "span \<lparr>hdr_session = s, hdr_seq = q, hdr_count = n\<rparr> \<noteq> None"
    using n small_packet [of gt q m n] assms(5) PacketEv
    by (simp add: span_def checked_add64_def)
  then show ?thesis using c(3) assms(1,2) unfolding frame_ok_def span_ok_def w
    by (simp add: parse_header_frame)
qed (use assms(1,2) wire_header [OF assms(1,3), of gt ev] in
  \<open>simp_all add: frame_ok_def span_ok_def event_header_def kind_def\<close>)

section \<open>The reference over a schedule\<close>

lemma ingest_packet_header:
  assumes "parse_header frame = Inr h"
  shows "ingest_packet frame ra =
    (let (s_idx, ra1) = select_session (hdr_session h) ra; session = ra_sessions ra1 ! s_idx
     in if hdr_count h = 65535 then ra1\<lparr>ra_sessions := (ra_sessions ra1)[s_idx := session\<lparr>ref_eos_seen := True\<rparr>]\<rparr>
        else if hdr_count h = 0 then ra1
        else ra1\<lparr>ra_sessions := (ra_sessions ra1)[s_idx := ref_walk frame (unat (hdr_count h)) 20 (hdr_seq h) session]\<rparr>)"
proof -
  have "slice 0 10 frame = hdr_session h" "u64_from_be_bytes (slice 10 18 frame) = hdr_seq h"
    "u16_from_be_bytes (slice 18 20 frame) = hdr_count h" "\<not> length frame < 20"
    using assms by (auto simp: parse_header_def split: if_splits)
  then show ?thesis by (simp add: ingest_packet_def Let_def)
qed

definition one_session :: "Source \<Rightarrow> SessionId \<Rightarrow> nat set \<Rightarrow> u64 option \<Rightarrow> ReferenceArbitrator \<Rightarrow> bool" where
  "one_session M s X a ra \<longleftrightarrow> (\<exists>r. ra = \<lparr>ra_sessions = [r], ra_current_session_idx = Some 0\<rparr> \<and>
     ref_ok M r \<and> ref_session_id r = s \<and> stored r = X \<and> ref_anchor r = a)"

lemma one_session_step:
  assumes "one_session (tape_source gt) s X a ra" "length s = 10" "rs_session_split sched = None" "carries (se_kind ev)"
    "event_fits gt (se_kind ev)" "length (tape_messages gt) < SEQ_LIMIT" "source_ok (tape_source gt)"
  shows "one_session (tape_source gt) s (X \<union> event_range (se_kind ev))
    (case se_kind ev of PacketEv q m n \<Rightarrow> if a = None then Some q else a | _ \<Rightarrow> a)
    (ingest_packet (wire gt sched s ev) ra)"
proof -
  obtain r where r: "ra = \<lparr>ra_sessions = [r], ra_current_session_idx = Some 0\<rparr>" "ref_ok (tape_source gt) r"
    "ref_session_id r = s" "stored r = X" "ref_anchor r = a"
    using assms(1) by (auto simp: one_session_def)
  have sel: "select_session s ra = (0, ra)" using r by (simp add: select_session_def)
  show ?thesis
  proof (cases "se_kind ev")
    case (PacketEv q m n)
    note c = carries_packet [OF assms(4,5,6) [unfolded PacketEv]]
    have n: "n \<noteq> 0" "n \<noteq> 65535" using assms(4,5) small_packet by (auto simp: carries_def PacketEv)
    have w: "wire gt sched s ev = mold_frame s q n (map (tape_source gt s) [unat q ..< unat q + unat n])"
      using c(4) [of s] assms(3) by (simp add: wire_def effective_session_def event_header_def PacketEv)
    define r' where "r' = ref_walk (wire gt sched s ev) (unat n) 20 q r"
    have b: "drop 20 (wire gt sched s ev) = mold_body (map (tape_source gt s) [unat q ..< unat q + unat n])"
      unfolding w using assms(2) by (rule drop_header_frame)
    have "20 \<le> length (wire gt sched s ev)" unfolding w using assms(2) by (simp add: length_frame)
    from ref_walk_data [OF b this source_okD(3) [OF assms(7)] c(3) r(2,3)] n(1)
    have "ref_ok (tape_source gt) r'" "ref_session_id r' = s" "stored r' = X \<union> {unat q ..< unat q + unat n}"
      "ref_anchor r' = (if a = None then Some q else a)"
      by (simp_all add: r'_def r(4,5) unat_gt_0)
    moreover have "ingest_packet (wire gt sched s ev) ra = \<lparr>ra_sessions = [r'], ra_current_session_idx = Some 0\<rparr>"
      using ingest_packet_header [OF wire_header [OF assms(2,3)], of gt ev ra] sel n
      by (simp add: PacketEv event_header_def r(1) r'_def)
    ultimately show ?thesis by (simp add: one_session_def PacketEv event_range_def)
  next
    case (HeartbeatEv q)
    then show ?thesis using ingest_packet_header [OF wire_header [OF assms(2,3)], of gt ev ra] sel assms(1)
      by (simp add: event_header_def event_range_def)
  next
    case (EndOfSessionEv q)
    have "ref_ok (tape_source gt) (r\<lparr>ref_eos_seen := True\<rparr>)" "stored (r\<lparr>ref_eos_seen := True\<rparr>) = X"
      using r by (simp_all add: ref_ok_def stored_def)
    then show ?thesis using ingest_packet_header [OF wire_header [OF assms(2,3)], of gt ev ra] sel r EndOfSessionEv
      by (simp add: event_header_def event_range_def one_session_def)
  qed
qed

lemma one_session_run:
  assumes "one_session (tape_source gt) s X (Some a) ra" "length s = 10" "rs_session_split sched = None"
    "\<forall>ev \<in> set evs. carries (se_kind ev) \<and> event_fits gt (se_kind ev)" "length (tape_messages gt) < SEQ_LIMIT"
    "source_ok (tape_source gt)"
  shows "one_session (tape_source gt) s (X \<union> (\<Union>ev \<in> set evs. event_range (se_kind ev))) (Some a)
    (fold ingest_packet (map (wire gt sched s) evs) ra)"
  using assms
proof (induction evs arbitrary: X ra)
  case Nil
  then show ?case by simp
next
  case (Cons ev evs)
  have "one_session (tape_source gt) s (X \<union> event_range (se_kind ev)) (Some a) (ingest_packet (wire gt sched s ev) ra)"
    using one_session_step [OF Cons.prems(1-3) _ _ Cons.prems(5,6), of ev] Cons.prems(4) by (auto split: SchedKind.splits)
  then have "one_session (tape_source gt) s (X \<union> event_range (se_kind ev) \<union> (\<Union>ev \<in> set evs. event_range (se_kind ev))) (Some a)
      (fold ingest_packet (map (wire gt sched s) evs) (ingest_packet (wire gt sched s ev) ra))"
    using Cons.prems by (intro Cons.IH) simp_all
  then show ?case by (simp add: Un_assoc)
qed

text \<open>The tape is covered, and the first event is the packet with its first message.\<close>

definition covers :: "bytes \<Rightarrow> SchedEvent list \<Rightarrow> bool" where
  "covers gt evs \<longleftrightarrow> {1 ..< Suc (length (tape_messages gt))} \<subseteq> (\<Union>ev \<in> set evs. event_range (se_kind ev)) \<and>
     (\<exists>n ev rest. evs = ev # rest \<and> se_kind ev = PacketEv 1 0 n)"

lemma ranges_inside:
  assumes "carries (se_kind ev)" "event_fits gt (se_kind ev)" "length (tape_messages gt) < SEQ_LIMIT"
  shows "event_range (se_kind ev) \<subseteq> {1 ..< Suc (length (tape_messages gt))}"
proof (cases "se_kind ev")
  case (PacketEv q m n)
  then show ?thesis using carries_packet(1,2) [of q m n gt] assms by (auto simp: event_range_def)
qed (simp_all add: event_range_def)

lemma cover_eq:
  "\<forall>x \<in> A. f x \<subseteq> T \<Longrightarrow> T \<subseteq> (\<Union>x \<in> A. f x) \<Longrightarrow> A = insert a B \<Longrightarrow> f a \<union> (\<Union>x \<in> B. f x) = T"
  by blast

lemma covered_reference:
  assumes "length s = 10" "rs_session_split sched = None"
    "\<forall>ev \<in> set evs. carries (se_kind ev) \<and> event_fits gt (se_kind ev)" "length (tape_messages gt) < SEQ_LIMIT"
    "source_ok (tape_source gt)" "covers gt evs"
  shows "one_session (tape_source gt) s {1 ..< Suc (length (tape_messages gt))} (Some 1)
    (fold ingest_packet (map (wire gt sched s) evs) ReferenceArbitrator_new)"
proof -
  obtain n ev rest where e: "evs = ev # rest" "se_kind ev = PacketEv 1 0 n" using assms(6) by (auto simp: covers_def)
  define ra0 where "ra0 = \<lparr>ra_sessions = [RefSession_new s], ra_current_session_idx = Some 0\<rparr>"
  have r0: "one_session (tape_source gt) s {} None ra0"
    by (simp add: one_session_def ra0_def RefSession_new_def ref_ok_def stored_def)
  have "select_session s ReferenceArbitrator_new = (0, ra0)" "select_session s ra0 = (0, ra0)"
    by (simp_all add: select_session_def ReferenceArbitrator_new_def ra0_def RefSession_new_def)
  then have step: "ingest_packet (wire gt sched s ev) ReferenceArbitrator_new = ingest_packet (wire gt sched s ev) ra0"
    using ingest_packet_header [OF wire_header [OF assms(1,2)], of gt ev] by simp
  have first: "one_session (tape_source gt) s (event_range (se_kind ev)) (Some 1) (ingest_packet (wire gt sched s ev) ra0)"
    using one_session_step [OF r0 assms(1,2) _ _ assms(4,5), of ev] assms(3) by (simp add: e)
  have "one_session (tape_source gt) s (event_range (se_kind ev) \<union> (\<Union>ev \<in> set rest. event_range (se_kind ev))) (Some 1)
      (fold ingest_packet (map (wire gt sched s) evs) ReferenceArbitrator_new)"
    using one_session_run [OF first assms(1,2) _ assms(4,5), of rest] assms(3) e(1) step by simp
  moreover have "event_range (se_kind ev) \<union> (\<Union>ev \<in> set rest. event_range (se_kind ev)) = {1 ..< Suc (length (tape_messages gt))}"
  proof -
    have "\<forall>ev \<in> set evs. event_range (se_kind ev) \<subseteq> {1 ..< Suc (length (tape_messages gt))}"
      using assms(3) ranges_inside [OF _ _ assms(4)] by blast
    moreover have "{1 ..< Suc (length (tape_messages gt))} \<subseteq> (\<Union>ev \<in> set evs. event_range (se_kind ev))"
      using assms(6) by (simp only: covers_def)
    moreover have "set evs = insert ev (set rest)" using e(1) by simp
    ultimately show ?thesis by (rule cover_eq)
  qed
  ultimately show ?thesis by simp
qed

lemma covered_emission:
  assumes "one_session (tape_source gt) s {1 ..< Suc (length (tape_messages gt))} (Some 1) ra"
    "length (tape_messages gt) < SEQ_LIMIT"
  shows "\<exists>wm es. evaluate_all_sessions ra = Some (1, wm, fnv_tape FNV_OFFSET (tape_messages gt), es) \<and> map snd es = tape_messages gt"
proof -
  let ?n = "Suc (length (tape_messages gt))"
  obtain r where r: "ra = \<lparr>ra_sessions = [r], ra_current_session_idx = Some 0\<rparr>" "ref_ok (tape_source gt) r"
    "ref_session_id r = s" "stored r = {1 ..< ?n}" "ref_anchor r = Some 1"
    using assms(1) by (auto simp: one_session_def)
  have there: "ref_messages r (of_nat k) = Some (tape_source gt s k)" if "1 \<le> k" "k < ?n" for k
    using stored_value [OF r(2), of k] that by (simp add: r(3,4))
  have absent: "ref_messages r (of_nat ?n) = None"
  proof (rule ccontr)
    assume "ref_messages r (of_nat ?n) \<noteq> None"
    then have "?n \<in> stored r" by (rule stored_of [OF r(2)]) (use assms(2) in simp)
    then show False by (simp add: r(4))
  qed
  have "?n < 2 ^ 64" using assms(2) by (simp add: SEQ_LIMIT_def)
  from emit_run_deliver [where msgs = "ref_messages r" and f = "tape_source gt s" and a = 1, OF _ this there absent]
  have "emit_run (ref_messages r) 1 h es = Some (of_nat ?n, fnv_tape h (tape_messages gt),
      es @ map (\<lambda>n. (of_nat n, tape_source gt s n)) [1 ..< ?n])" for h es
    by (simp only: tape_source_messages) simp
  then show ?thesis
    using tape_source_messages [of gt s]
    by (simp add: evaluate_all_sessions_def r(1) anchor_of_def r(5) comp_def del: upt_Suc)
qed

text \<open>The composition of the passes, the simulation of the oracle, and the coverage of the tape.\<close>

lemma golden_run:
  assumes "replay_reach gt sched t" and "replay_bounds gt sched" and "rt_coalesce t = 1"
    and "length sess = 10" and "sess \<noteq> zero_session"
    and "schedule_runs gt sched" and "rs_session_split sched = None"
    and "list_all (\<lambda>ev. carries (se_kind ev)) (rs_events sched)" and "covers gt (rs_events sched)"
    and "list_all (\<lambda>m. validate m = Inr ()) (tape_messages gt)" and "length (tape_messages gt) < SEQ_LIMIT"
    and "none_lost (tape_source gt) (map (wire gt sched sess) (rs_events sched)) spec_init"
  shows "\<exists>tb tc sq bcalls ccalls.
    batch_pass wants_spans sess t = Some (tb, sq, bcalls) \<and> classic_pass wants_spans sess t = Some (tc, sq, ccalls) \<and>
    map snd (concat (eras (outputs (expand_all bcalls)))) = tape_messages gt \<and>
    expand_all ccalls = expand_all bcalls \<and>
    golden gt = (fnv_tape FNV_OFFSET (map snd (concat (eras (outputs (expand_all bcalls))))),
      of_nat (length (concat (eras (outputs (expand_all bcalls))))))"
proof -
  let ?evs = "rs_events sched" and ?M = "tape_source gt"
  let ?ps = "map (event_packet gt sched sess) ?evs"
  have ev: "\<forall>ev \<in> set ?evs. carries (se_kind ev) \<and> event_fits gt (se_kind ev)"
    using assms(6,8) by (simp add: schedule_runs_def list_all_iff)
  have src: "source_ok ?M" using assms(10) by (intro tape_source_ok) (simp add: list_all_iff)
  have fs: "map fst ?ps = map (wire gt sched sess) ?evs" by (simp add: event_packet_def)
  have ok: "\<forall>p \<in> set ?ps. frame_ok ?M (fst p) \<and> span_ok (fst p)"
    using ev wire_frame_ok [OF assms(4,5,7) _ _ assms(11)] by (auto simp: event_packet_def)
  obtain tb tc sq bcalls ccalls where p:
    "batch_pass wants_spans sess t = Some (tb, sq, bcalls)" "classic_pass wants_spans sess t = Some (tc, sq, ccalls)"
    "expand_all bcalls = snd (ingest_run ?ps Sequencer_new_unboxed)" "expand_all ccalls = expand_all bcalls"
    using replay_pass_run [OF assms(1-4,6), of wants_spans] by blast
  let ?es = "concat (eras (outputs (expand_all bcalls)))"
  obtain a wm where agree: "evaluate_all_sessions (fold ingest_packet (map fst ?ps) ReferenceArbitrator_new)
      = Some (a, wm, fnv_tape FNV_OFFSET (map snd ?es), ?es)"
    using reference_run [OF src ok] assms(12) unfolding fs p(3) by blast
  have "one_session ?M sess {1 ..< Suc (length (tape_messages gt))} (Some 1)
      (fold ingest_packet (map fst ?ps) ReferenceArbitrator_new)"
    unfolding fs using covered_reference [OF assms(4,7) ev assms(11) src assms(9)] .
  from covered_emission [OF this assms(11)] have m: "map snd ?es = tape_messages gt" using agree by auto
  have "length ?es = length (tape_messages gt)" using arg_cong [OF m, of length] by simp
  then have "golden gt = (fnv_tape FNV_OFFSET (map snd ?es), of_nat (length ?es))"
    using golden_loop_tape [of 0 gt FNV_OFFSET 0] m by (simp add: golden_def)
  then show ?thesis using p m by blast
qed

section \<open>Properties\<close>

text \<open>C2: the golden law.  Take a schedule of a single session, sorted by release time, that cuts a
  tape of valid messages into non-empty packets which fit a slot, are numbered by their position on
  the tape and together cover it, the first event being a packet with the first message, in any
  order after that and with any duplication on the two feeds, such that every data packet ends at
  most a window's length above the watermark it meets and none follows the end of the session
  (\<open>none_lost\<close>: a packet that reaches further, or comes later, would be lost).  Replayed with one
  group of events per poll (the transport's default) within the bounds of the blob, the batched
  pass and the per-frame pass end, the sequencer delivers exactly the messages of the tape, in
  order and once each, and their hash and count are the golden values of the tape.\<close>

theorem replay_is_golden:
  assumes "replay_reach gt sched t" and "replay_bounds gt sched" and "rt_coalesce t = 1"
    and "length sess = 10" and "sess \<noteq> zero_session"
    and "schedule_runs gt sched" and "rs_session_split sched = None"
    and "list_all (\<lambda>ev. carries (se_kind ev)) (rs_events sched)" and "covers gt (rs_events sched)"
    and "list_all (\<lambda>m. validate m = Inr ()) (tape_messages gt)" and "length (tape_messages gt) < SEQ_LIMIT"
    and "none_lost (tape_source gt) (map (wire gt sched sess) (rs_events sched)) spec_init"
  shows "\<exists>tb tc sq bcalls ccalls.
    batch_pass wants_spans sess t = Some (tb, sq, bcalls) \<and> classic_pass wants_spans sess t = Some (tc, sq, ccalls) \<and>
    map snd (concat (eras (outputs (expand_all bcalls)))) = tape_messages gt \<and>
    expand_all ccalls = expand_all bcalls \<and>
    golden gt = (fnv_tape FNV_OFFSET (map snd (concat (eras (outputs (expand_all bcalls))))),
      of_nat (length (concat (eras (outputs (expand_all bcalls))))))"
  using assms by (rule golden_run)

text \<open>The tape of two messages, cut into a packet of the first on one feed, the pair of them on
  the other, and the end of the session.\<close>

definition sample_cut :: ReplaySchedule where
  "sample_cut =
     \<lparr>rs_events =
        [\<lparr>se_release_vt = 10, se_feed = 0, se_kind = PacketEv 1 0 1\<rparr>, \<lparr>se_release_vt = 10, se_feed = 1, se_kind = PacketEv 1 0 2\<rparr>,
         \<lparr>se_release_vt = 20, se_feed = 0, se_kind = SchedKind.EndOfSessionEv 3\<rparr>],
      rs_session_split = None\<rparr>"

lemma sample_cut_ok: "schedule_runs sample_tape sample_cut" "replay_bounds sample_tape sample_cut"
  using sample_replay_bounds
  by (simp_all add: schedule_runs_def sample_cut_def event_fits_def event_seq_ok_def event_msgs_def
      sample_tape_messages sample_msg_def ARENA_SLOT_SIZE_def packet_first_seq_def packet_count_def replay_bounds_def split_ok_def)

lemma sample_cut_covers: "covers sample_tape (rs_events sample_cut)"
  by (auto simp: covers_def sample_cut_def sample_tape_messages event_range_def)

lemma sample_cut_kept:
  "none_lost (tape_source sample_tape) (map (wire sample_tape sample_cut sample_session) (rs_events sample_cut)) spec_init"
  using sample_facts(2)
  by (simp add: sample_cut_def keeps_frame_def keeps_def wire_header [OF sample_facts(1)] event_header_def
      spec_frame_def spec_header_def spec_session_def spec_init_def spec_data_def kind_def span_def checked_add64_def Let_def)

lemma replay_is_golden_witness:
  "\<exists>tb sq bcalls. batch_pass True sample_session (ReplayTransport_new 4096 sample_tape sample_cut sample_session) = Some (tb, sq, bcalls) \<and>
    map snd (concat (eras (outputs (expand_all bcalls)))) = [sample_msg, sample_msg]"
proof -
  let ?t = "ReplayTransport_new 4096 sample_tape sample_cut sample_session"
  have t: "replay_reach sample_tape sample_cut ?t" using sample_facts(1) by (rule reach_new)
  have c: "rt_coalesce ?t = 1" by (simp add: ReplayTransport_new_def Let_def patch_sessions_def)
  have "rs_session_split sample_cut = None" "list_all (\<lambda>ev. carries (se_kind ev)) (rs_events sample_cut)"
    "list_all (\<lambda>m. validate m = Inr ()) (tape_messages sample_tape)" "length (tape_messages sample_tape) < SEQ_LIMIT"
    using source_okD(1) [OF sample_source_ok]
    by (simp_all add: sample_cut_def carries_def sample_tape_messages SEQ_LIMIT_def sample_source_def)
  from replay_is_golden [OF t sample_cut_ok(2) c sample_facts sample_cut_ok(1) this(1,2) sample_cut_covers this(3,4) sample_cut_kept, of True]
  show ?thesis unfolding sample_tape_messages by (elim exE conjE) (intro exI conjI)
qed

end
