(* ===== verification/Generated.thy ===== *)
theory Generated
  imports GeneratorLaw Golden
begin

text \<open>
  The builder, the transport, the sequencer and the golden hash together: a schedule that the
  builder makes without delays is replayed to the golden hash of its tape, whatever the two
  feeds lose.
\<close>

section \<open>Release in order\<close>

text \<open>Every packet starts inside what was released before it, up to message \<open>w\<close>, and no packet
  follows an end of session.\<close>

fun in_release_order :: "nat \<Rightarrow> SchedKind list \<Rightarrow> bool" where
  "in_release_order w [] = True"
| "in_release_order w (PacketEv q m n # ks) = (unat m \<le> w \<and> in_release_order (max w (unat m + unat n)) ks)"
| "in_release_order w (HeartbeatEv q # ks) = in_release_order w ks"
| "in_release_order w (SchedKind.EndOfSessionEv q # ks) = list_all (\<lambda>k. event_range k = {}) ks"

definition in_step :: "SessionId \<Rightarrow> nat \<Rightarrow> Delivery \<Rightarrow> bool" where
  "in_step s w st \<longleftrightarrow> (d_session st = s \<or> d_session st = zero_session) \<and> d_held st = {} \<and>
     (d_phase st = Unanchored \<and> w = 0 \<or> d_phase st = Anchored \<and> d_w st = Suc w)"

lemma spec_frame_kind:
  assumes "length s = 10" "rs_session_split sched = None"
  shows "spec_frame M (wire gt sched s ev) st
    = spec_header M \<lparr>hdr_session = s, hdr_seq = fst (event_header (se_kind ev)), hdr_count = snd (event_header (se_kind ev))\<rparr> st"
    "keeps_frame (wire gt sched s ev) st = (kind \<lparr>hdr_session = s, hdr_seq = fst (event_header (se_kind ev)),
        hdr_count = snd (event_header (se_kind ev))\<rparr> = KData \<longrightarrow>
      keeps (fst (spec_session s st)) (unat (fst (event_header (se_kind ev)))) (unat (snd (event_header (se_kind ev)))))"
  using wire_header [OF assms, of gt ev] by (simp_all add: spec_frame_def keeps_frame_def)

lemma no_packets_kept:
  assumes "length s = 10" "rs_session_split sched = None" "\<forall>ev \<in> set evs. carries (se_kind ev) \<and> event_range (se_kind ev) = {}"
  shows "none_lost M (map (wire gt sched s) evs) st"
  using assms(3)
proof (induction evs arbitrary: st)
  case Nil
  then show ?case by simp
next
  case (Cons ev evs)
  have "kind \<lparr>hdr_session = s, hdr_seq = fst (event_header (se_kind ev)), hdr_count = snd (event_header (se_kind ev))\<rparr> \<noteq> KData"
    using Cons.prems by (cases "se_kind ev") (auto simp: event_header_def kind_def event_range_def carries_def unat_gt_0)
  then show ?case using Cons by (simp add: spec_frame_kind(2) [OF assms(1,2)])
qed

lemma step_packet:
  assumes "in_step s w st" "length s = 10" "s \<noteq> zero_session" "rs_session_split sched = None" "se_kind ev = PacketEv q m n"
    "carries (se_kind ev)" "event_fits gt (se_kind ev)" "length (tape_messages gt) < SEQ_LIMIT" "unat m \<le> w"
  shows "keeps_frame (wire gt sched s ev) st"
    "in_step s (max w (unat m + unat n)) (fst (spec_frame M (wire gt sched s ev) st))"
proof -
  let ?h = "\<lparr>hdr_session = s, hdr_seq = q, hdr_count = n\<rparr>"
  have q: "unat q = unat m + 1" using carries_packet(1) [of q m n gt] assms(5-8) by simp
  have n: "n \<noteq> 0" "n \<noteq> 65535" "0 < unat n" "unat n \<le> 740"
    using assms(5-7) small_packet [of gt q m n] small_count [of gt q m n] by (auto simp: carries_def unat_gt_0)
  have hd: "parse_header (wire gt sched s ev) = Inr ?h"
    using wire_header [OF assms(2,4), of gt ev] by (simp add: assms(5) event_header_def)
  have sp: "span ?h \<noteq> None"
    using wire_frame_ok [OF assms(2,3,4,6,7,8)] n(1,2) by (simp add: span_ok_def hd kind_def)
  define st1 where "st1 = fst (spec_session s st)"
  have st1: "spec_session s st = (st1, [])" "d_session st1 = s" "d_phase st1 = d_phase st" "d_w st1 = d_w st" "d_held st1 = {}"
    using assms(1,3) by (auto simp: st1_def spec_session_def in_step_def)
  have ph: "d_phase st = Unanchored \<and> w = 0 \<or> d_phase st = Anchored \<and> d_w st = Suc w" using assms(1) by (simp add: in_step_def)
  show "keeps_frame (wire gt sched s ev) st"
    using ph assms(9) q n(4) by (auto simp: keeps_frame_def hd keeps_def st1)
  have "fst (spec_frame M (wire gt sched s ev) st) = fst (spec_data M (unat q) (unat n) st1)"
    using ph n(1,2) sp by (auto simp: spec_frame_def hd spec_header_def st1 split: prod.split)
  also have "in_step s (max w (unat m + unat n)) \<dots>"
    using ph assms(9) n(3) by (auto simp: spec_data_def in_step_def st1 q Let_def max_def)
  finally show "in_step s (max w (unat m + unat n)) (fst (spec_frame M (wire gt sched s ev) st))" .
qed

lemma in_order_kept:
  assumes "length s = 10" "s \<noteq> zero_session" "rs_session_split sched = None" "length (tape_messages gt) < SEQ_LIMIT"
    "\<forall>ev \<in> set evs. carries (se_kind ev) \<and> event_fits gt (se_kind ev)" "in_step s w st" "in_release_order w (map se_kind evs)"
  shows "none_lost M (map (wire gt sched s) evs) st"
  using assms(5-7)
proof (induction evs arbitrary: w st)
  case Nil
  then show ?case by simp
next
  case (Cons ev evs)
  show ?case
  proof (cases "se_kind ev")
    case (PacketEv q m n)
    have "carries (se_kind ev)" "event_fits gt (se_kind ev)" "unat m \<le> w" using Cons.prems(1,3) PacketEv by simp_all
    note p = step_packet [OF Cons.prems(2) assms(1-3) PacketEv this(1,2) assms(4) this(3)]
    show ?thesis using p(1) Cons.IH [OF _ p(2)] Cons.prems(1,3) PacketEv by simp
  next
    case (HeartbeatEv q)
    have "in_step s w (fst (spec_frame M (wire gt sched s ev) st))"
      using Cons.prems(2) assms(2)
      by (auto simp: spec_frame_kind(1) [OF assms(1,3)] HeartbeatEv event_header_def spec_header_def spec_session_def in_step_def)
    then show ?thesis using Cons.IH Cons.prems HeartbeatEv
      by (simp add: spec_frame_kind(2) [OF assms(1,3)] event_header_def kind_def)
  next
    case (EndOfSessionEv q)
    then show ?thesis using Cons.prems no_packets_kept [OF assms(1,3), of evs]
      by (simp add: spec_frame_kind(2) [OF assms(1,3)] event_header_def kind_def list_all_iff)
  qed
qed

section \<open>The order of a generated schedule\<close>

definition kind_end :: "SchedKind \<Rightarrow> nat" where
  "kind_end k = (case k of PacketEv q m n \<Rightarrow> unat m + unat n | _ \<Rightarrow> 0)"

text \<open>A list in which the message before each packet was released before it.\<close>

lemma in_order_rest:
  assumes "\<And>pre ev post q m n. evs = pre @ ev # post \<Longrightarrow> se_kind ev = PacketEv q m n \<Longrightarrow>
      m = 0 \<or> (\<exists>e \<in> set pre. unat m \<le> kind_end (se_kind e))"
    and "\<And>pre ev post q. evs = pre @ ev # post \<Longrightarrow> se_kind ev = SchedKind.EndOfSessionEv q \<Longrightarrow>
      \<forall>e \<in> set post. event_range (se_kind e) = {}"
    and "evs = released @ rest" "\<forall>e \<in> set released. kind_end (se_kind e) \<le> w"
  shows "in_release_order w (map se_kind rest)"
  using assms(3,4)
proof (induction rest arbitrary: released w)
  case Nil
  then show ?case by simp
next
  case (Cons ev rest)
  have next1: "in_release_order w' (map se_kind rest)" if "\<forall>e \<in> set (released @ [ev]). kind_end (se_kind e) \<le> w'" for w'
    using Cons.prems(1) that by (intro Cons.IH [of "released @ [ev]"]) simp_all
  show ?case
  proof (cases "se_kind ev")
    case (PacketEv q m n)
    have "m = 0 \<or> (\<exists>e \<in> set released. unat m \<le> kind_end (se_kind e))" by (rule assms(1) [OF Cons.prems(1) PacketEv])
    then have "unat m \<le> w" using Cons.prems(2) le_trans by fastforce
    moreover have "in_release_order (max w (unat m + unat n)) (map se_kind rest)"
      using Cons.prems(2) by (intro next1) (auto simp: kind_end_def PacketEv le_max_iff_disj)
    ultimately show ?thesis by (simp add: PacketEv)
  next
    case (HeartbeatEv q)
    then show ?thesis using Cons.prems(2) by (simp add: next1 kind_end_def)
  next
    case (EndOfSessionEv q)
    then show ?thesis using assms(2) [OF Cons.prems(1) EndOfSessionEv] by (simp add: list_all_iff)
  qed
qed

text \<open>What the builder gives where nothing is delayed.\<close>

lemma generated_order:
  assumes "build_schedule gt config = Some sched" "tape_messages gt \<noteq> []" "covered config" "no_delay config"
    "rc_session_change_at_msg config = None" "packets_fit config" "ns_per_msg config \<noteq> 0"
    "time_ok config (length (tape_messages gt))" "\<forall>m \<in> set (tape_messages gt). validate m = Inr ()"
  shows "schedule_runs gt sched" "list_all (\<lambda>ev. carries (se_kind ev)) (rs_events sched)" "covers gt (rs_events sched)"
    "in_release_order 0 (map se_kind (rs_events sched))" "length (tape_messages gt) < SEQ_LIMIT"
proof -
  let ?n = "length (tape_messages gt)" and ?ns = "ns_per_msg config" and ?int = "rc_heartbeat_interval_ns config"
  let ?evs = "rs_events sched"
  have ns: "1 \<le> unat ?ns" using assms(7) by (simp add: Suc_le_eq unat_gt_0)
  have "?n \<le> ?n * unat ?ns" using mult_le_mono2 [OF ns, of ?n] by (simp only: mult_1_right)
  moreover have "?n * unat ?ns + 2048 < 2 ^ 64" using assms(8) by (simp add: time_ok_def)
  ultimately show lim: "?n < SEQ_LIMIT" unfolding SEQ_LIMIT_def by linarith
  then have n64: "?n < 2 ^ 64" by (simp add: SEQ_LIMIT_def)
  have sz: "\<forall>cur r r' c. cur < length (infos_of gt) \<and> packet_size config (infos_of gt) cur r = Some (r', c) \<longrightarrow>
      block_bytes (infos_of gt) cur (unat (max 1 c)) \<le> 1480"
  proof (intro allI impI, elim conjE)
    fix cur r r' c
    assume cur: "cur < length (infos_of gt)" and c: "packet_size config (infos_of gt) cur r = Some (r', c)"
    show "block_bytes (infos_of gt) cur (unat (max 1 c)) \<le> 1480"
      using packet_size_fits [OF assms(6) short_tape [OF assms(9)] cur, of r] c by simp
  qed
  obtain ps evs tail final_vt where s: "tiles 0 ps ?n"
    "\<forall>p \<in> set ps. block_bytes (infos_of gt) (unat (rp_first_msg p)) (unat (rp_count p)) \<le> 1480"
    "set ?evs = set evs \<union> set tail"
    "\<forall>e \<in> set evs. se_release_vt e \<le> final_vt \<and> (\<exists>p \<in> set ps. carries_packet_at config p (rp_first_msg p * ?ns) e)"
    "\<forall>p \<in> set ps. \<exists>e \<in> set evs. carries_packet_at config p (rp_first_msg p * ?ns) e"
    "\<forall>e \<in> set tail. closing ?int final_vt e" "no_wrap ?int final_vt"
    using schedule_shape [OF assms(1,2) n64, where Q = "\<lambda>a c. block_bytes (infos_of gt) a (unat c) \<le> 1480", OF sz]
    by (elim exE conjE) (rule that, (assumption | simp add: assms(3,4,8))+)
  have sorted: "sorted_wrt (\<lambda>a b. se_release_vt a \<le> se_release_vt b) ?evs" by (rule build_schedule_sorted [OF assms(1)])
  have packet: "\<exists>p \<in> set ps. se_kind e = PacketEv (rp_first_msg p + 1) (rp_first_msg p) (rp_count p) \<and>
      unat (se_release_vt e) = unat (rp_first_msg p) * unat ?ns \<and> se_release_vt e \<le> final_vt" if ev: "e \<in> set evs" for e
  proof -
    obtain p where p: "p \<in> set ps" "carries_packet_at config p (rp_first_msg p * ?ns) e" "se_release_vt e \<le> final_vt"
      using s(4) ev by blast
    have "unat (rp_first_msg p) \<le> ?n" using tiles_inside [OF s(1) p(1)] by simp
    then show ?thesis using p base_time [OF assms(8)] assms(4,5)
      by (intro bexI [OF _ p(1)]) (simp add: carries_packet_at_def packet_kind_def packet_seq_def)
  qed
  have close: "0 < se_release_vt e \<and> event_range (se_kind e) = {} \<and> kind_end (se_kind e) = 0 \<and> carries (se_kind e) \<and>
      event_fits gt (se_kind e) \<and> event_seq_ok e \<and> (\<forall>q. se_kind e = SchedKind.EndOfSessionEv q \<longrightarrow> final_vt < se_release_vt e) \<and>
      (\<forall>q m n. se_kind e \<noteq> PacketEv q m n)" if "e \<in> set tail" for e
    using s(6,7) that
    by (cases "se_kind e") (auto simp: closing_def event_range_def kind_end_def carries_def event_fits_def event_seq_ok_def
        packet_first_seq_def packet_count_def)
  have good: "carries (se_kind e) \<and> event_fits gt (se_kind e) \<and> event_seq_ok e" if e: "e \<in> set ?evs" for e
  proof (cases "e \<in> set tail")
    case True
    then show ?thesis using close by blast
  next
    case False
    then obtain p where p: "p \<in> set ps" "se_kind e = PacketEv (rp_first_msg p + 1) (rp_first_msg p) (rp_count p)"
      using packet e s(3) by blast
    have i: "0 < unat (rp_count p)" "unat (rp_first_msg p) + unat (rp_count p) \<le> ?n" using tiles_inside [OF s(1) p(1)] by simp_all
    then have "unat (rp_first_msg p + 1) = unat (rp_first_msg p) + 1" using n64 by (subst unat_plus_u64) simp_all
    then show ?thesis using i lim packet_kind_fits [OF i(2), of config] s(2) p assms(5)
      by (simp add: carries_def event_seq_ok_def packet_first_seq_def packet_count_def packet_kind_def packet_seq_def SEQ_LIMIT_def unat_gt_0)
  qed
  show "schedule_runs gt sched" "list_all (\<lambda>ev. carries (se_kind ev)) ?evs"
    using good sorted by (simp_all add: schedule_runs_def list_all_iff)
  have event_of: "\<exists>e \<in> set evs. \<exists>p \<in> set ps. se_kind e = PacketEv (rp_first_msg p + 1) (rp_first_msg p) (rp_count p) \<and>
      unat (rp_first_msg p) \<le> i \<and> i < unat (rp_first_msg p) + unat (rp_count p) \<and>
      unat (se_release_vt e) = unat (rp_first_msg p) * unat ?ns" if i: "i < ?n" for i
  proof -
    obtain p where p: "p \<in> set ps" "unat (rp_first_msg p) \<le> i" "i < unat (rp_first_msg p) + unat (rp_count p)"
      using tiles_cover [OF s(1), of i] i by blast
    then obtain e where e: "e \<in> set evs" "carries_packet_at config p (rp_first_msg p * ?ns) e" using s(5) by blast
    have "unat (rp_first_msg p) \<le> ?n" using p(2) i by simp
    then show ?thesis using p e base_time [OF assms(8)] assms(4,5)
      by (intro bexI [OF _ e(1)] bexI [OF _ p(1)]) (simp add: carries_packet_at_def packet_kind_def packet_seq_def)
  qed
  show "in_release_order 0 (map se_kind ?evs)"
  proof (rule in_order_rest [where released = "[]"])
    fix pre ev post q m n
    assume e: "?evs = pre @ ev # post" "se_kind ev = PacketEv q m n"
    then have "ev \<in> set evs" using s(3) close by (metis Un_iff in_set_conv_decomp)
    then obtain p where p: "p \<in> set ps" "m = rp_first_msg p" "unat (se_release_vt ev) = unat m * unat ?ns"
      using packet e(2) by fastforce
    show "m = 0 \<or> (\<exists>e \<in> set pre. unat m \<le> kind_end (se_kind e))"
    proof (cases "m = 0")
      case False
      then have m: "0 < unat m" by (simp add: unat_gt_0)
      have "unat m + unat (rp_count p) \<le> ?n" "0 < unat (rp_count p)" using tiles_inside [OF s(1) p(1)] p(2) by simp_all
      then have m1: "unat m - 1 < ?n" using m by linarith
      obtain e' and p' :: RawPacket where e': "e' \<in> set evs" "se_kind e' = PacketEv (rp_first_msg p' + 1) (rp_first_msg p') (rp_count p')"
        "unat (rp_first_msg p') \<le> unat m - 1" "unat m - 1 < unat (rp_first_msg p') + unat (rp_count p')"
        "unat (se_release_vt e') = unat (rp_first_msg p') * unat ?ns"
        using event_of [OF m1] by blast
      have "unat (rp_first_msg p') < unat m" using e'(3) m by linarith
      then have "unat (se_release_vt e') < unat (se_release_vt ev)" unfolding e'(5) p(3) using ns by simp
      then have "\<not> se_release_vt ev \<le> se_release_vt e'" by (simp add: word_le_nat_alt)
      then have "e' \<in> set pre" using sorted s(3) e'(1) unfolding e(1) by (auto simp: sorted_wrt_append)
      then show ?thesis using e'(2,4) by (intro disjI2 bexI [of _ e']) (simp_all add: kind_end_def)
    qed simp
  next
    fix pre ev post q
    assume e: "?evs = pre @ ev # post" "se_kind ev = SchedKind.EndOfSessionEv q"
    then have "ev \<in> set tail" using s(3) packet by (metis SchedKind.distinct(3) Un_iff in_set_conv_decomp)
    then have v: "final_vt < se_release_vt ev" using close e(2) by blast
    show "\<forall>e \<in> set post. event_range (se_kind e) = {}"
    proof
      fix e'
      assume e': "e' \<in> set post"
      then have "se_release_vt ev \<le> se_release_vt e'" using sorted unfolding e(1) by (simp add: sorted_wrt_append)
      then have "e' \<notin> set evs" using v s(4) by (meson leD le_less_trans)
      moreover have "e' \<in> set ?evs" using e' e(1) by simp
      ultimately show "event_range (se_kind e') = {}" using s(3) close by blast
    qed
  qed simp_all
  show "covers gt ?evs"
  proof -
    let ?T = "{1 ..< Suc ?n}"
    have "?T \<subseteq> (\<Union>ev \<in> set ?evs. event_range (se_kind ev))"
    proof
      fix k
      assume k: "k \<in> ?T"
      then have k1: "k - 1 < ?n" by auto
      obtain e p where e: "e \<in> set evs" "p \<in> set ps" "se_kind e = PacketEv (rp_first_msg p + 1) (rp_first_msg p) (rp_count p)"
        "unat (rp_first_msg p) \<le> k - 1" "k - 1 < unat (rp_first_msg p) + unat (rp_count p)"
        using event_of [OF k1] by blast
      have "unat (rp_first_msg p + 1) = unat (rp_first_msg p) + 1"
        using tiles_inside [OF s(1) e(2)] n64 by (subst unat_plus_u64) simp_all
      then have "k \<in> event_range (se_kind e)" using e(3-5) k by (auto simp: event_range_def)
      then show "k \<in> (\<Union>ev \<in> set ?evs. event_range (se_kind ev))" using e(1) s(3) by blast
    qed
    moreover have "\<exists>n ev rest. ?evs = ev # rest \<and> se_kind ev = PacketEv 1 0 n"
    proof -
      obtain e0 and p0 :: RawPacket where e0: "e0 \<in> set evs" "unat (rp_first_msg p0) \<le> 0" "unat (se_release_vt e0) = unat (rp_first_msg p0) * unat ?ns"
        using event_of [of 0] assms(2) by auto
      then have v0: "se_release_vt e0 = 0" by (simp add: word_unat_eq_iff)
      obtain ev rest where r: "?evs = ev # rest" using e0(1) s(3) by (cases ?evs) auto
      have "e0 \<in> set (ev # rest)" using e0(1) s(3) r by auto
      then have "se_release_vt ev \<le> se_release_vt e0" using sorted unfolding r by auto
      then have ev0: "se_release_vt ev = 0" using v0 by simp
      then have "ev \<notin> set tail" using close by force
      moreover have "ev \<in> set ?evs" using r by simp
      ultimately have "ev \<in> set evs" using s(3) by blast
      then obtain p :: RawPacket where p: "se_kind ev = PacketEv (rp_first_msg p + 1) (rp_first_msg p) (rp_count p)"
        "unat (rp_first_msg p) * unat ?ns = 0" using packet [of ev] ev0 by auto
      then have "rp_first_msg p = 0" using ns by (simp add: word_unat_eq_iff)
      then show ?thesis using p(1) r by auto
    qed
    ultimately show ?thesis unfolding covers_def by blast
  qed
qed

section \<open>Properties\<close>

text \<open>C1: losses never show.  Take a non-empty tape of valid messages and any configuration of the
  builder that enables both feeds, guarantees coverage, delays nothing and changes no session,
  which bounds its packets to a slot (at most 22 messages each, or a datagram of at most 1500
  bytes), whose messages are a nonzero time apart and whose virtual times stay within 64 bits: whatever seeds, loss models, scripted drops and packet sizes within these bounds it has,
  its schedule, rendered within the bounds of the blob under a session that is not all zeros and
  replayed with one group of events per poll (the transport's default), in batches or frame by
  frame, makes the sequencer deliver exactly the messages of the tape in order, with the golden hash
  and count of the tape.\<close>

theorem generated_replay_is_golden:
  assumes "build_schedule gt config = Some sched" and "tape_messages gt \<noteq> []"
    and "\<forall>m \<in> set (tape_messages gt). validate m = Inr ()"
    and "rc_guarantee_coverage config" and "rc_feeds_enabled config = 3" and "no_delay config"
    and "rc_session_change_at_msg config = None" and "packets_fit config"
    and "ns_per_msg config \<noteq> 0" and "time_ok config (length (tape_messages gt))"
    and "replay_reach gt sched t" and "replay_bounds gt sched" and "rt_coalesce t = 1"
    and "length sess = 10" and "sess \<noteq> zero_session"
  shows "\<exists>tb tc sq bcalls ccalls.
    batch_pass wants_spans sess t = Some (tb, sq, bcalls) \<and> classic_pass wants_spans sess t = Some (tc, sq, ccalls) \<and>
    map snd (concat (eras (outputs (expand_all bcalls)))) = tape_messages gt \<and>
    expand_all ccalls = expand_all bcalls \<and>
    golden gt = (fnv_tape FNV_OFFSET (map snd (concat (eras (outputs (expand_all bcalls))))),
      of_nat (length (concat (eras (outputs (expand_all bcalls))))))"
proof (rule golden_run [OF assms(11-15)])
  have cov: "covered config" using assms(4,5) by (simp add: covered_def feed_enabled_def)
  note o = generated_order [OF assms(1,2) cov assms(6-10) assms(3)]
  show "schedule_runs gt sched" "list_all (\<lambda>ev. carries (se_kind ev)) (rs_events sched)" "covers gt (rs_events sched)"
    "length (tape_messages gt) < SEQ_LIMIT" by (rule o)+
  show split: "rs_session_split sched = None" by (rule build_schedule_split [OF assms(1,7)])
  show "list_all (\<lambda>m. validate m = Inr ()) (tape_messages gt)" using assms(3) by (simp add: list_all_iff)
  have "\<forall>ev \<in> set (rs_events sched). carries (se_kind ev) \<and> event_fits gt (se_kind ev)"
    using o(1,2) by (simp add: schedule_runs_def list_all_iff)
  then show "none_lost (tape_source gt) (map (wire gt sched sess) (rs_events sched)) spec_init"
    by (rule in_order_kept [OF assms(14,15) split o(5) _ _ o(4)]) (simp add: in_step_def spec_init_def)
qed

text \<open>A script drops every packet on both feeds; the guarantee gives it back to one of them.\<close>

definition lossy_config :: ReplayConfig where
  "lossy_config = ReplayConfig_default\<lparr>rc_scripted_drops := [\<lparr>dr_seq_from = 1, dr_seq_to_incl = 2, dr_feed_mask = 3\<rparr>]\<rparr>"

lemma lossy_packets: "packetize lossy_config (infos_of sample_tape) 0 r [] = Some (r, [\<lparr>rp_first_msg = 0, rp_count = 2\<rparr>])"
proof -
  have "length (infos_of sample_tape) = 2" by (simp add: infos_of_tape sample_tape_messages)
  then show ?thesis
    by (simp add: packetize.simps packet_size_def lossy_config_def ReplayConfig_default_def Let_def max_def min_def)
qed

lemma lossy_events: "\<exists>e. bd_events (build_packet lossy_config \<lparr>rp_first_msg = 0, rp_count = 2\<rparr>
     \<lparr>bd_prng = rs, bd_ge_state = ge, bd_cumulative_msgs = 0, bd_events = []\<rparr>) = [e] \<and> se_release_vt e = 0"
  by (cases "next_u64 (fst rs)")
    (simp add: build_packet_def feed_loss_def scripted_def cover_packet_def add_packet_def draw_delay_def feed_enabled_def
      set_feed_def of_feed_def lossy_config_def ReplayConfig_default_def packet_seq_def)

lemma lossy_count: "\<exists>sched. build_schedule sample_tape lossy_config = Some sched \<and> length (rs_events sched) = 13"
proof -
  have n: "length (infos_of sample_tape) = 2" by (simp add: infos_of_tape sample_tape_messages)
  obtain e where e: "bd_events (build_packet lossy_config \<lparr>rp_first_msg = 0, rp_count = 2\<rparr>
      \<lparr>bd_prng = (SplitMix64_new (rc_seed_a lossy_config), SplitMix64_new (rc_seed_b lossy_config)),
       bd_ge_state = (False, False), bd_cumulative_msgs = 0, bd_events = []\<rparr>) = [e]" "se_release_vt e = 0"
    using lossy_events by blast
  show ?thesis
    using e(2)
    by (simp add: build_schedule_def n lossy_packets e(1) Let_def finish_feed_def feed_enabled_def latest_vt_def
        rolling_heartbeats.simps terminal_events_def)
      (simp add: lossy_config_def ReplayConfig_default_def)
qed

lemma generated_replay_is_golden_witness:
  "\<exists>sched tb sq bcalls. build_schedule sample_tape lossy_config = Some sched \<and>
    batch_pass True sample_session (ReplayTransport_new 4096 sample_tape sched sample_session) = Some (tb, sq, bcalls) \<and>
    map snd (concat (eras (outputs (expand_all bcalls)))) = [sample_msg, sample_msg]"
proof -
  obtain sched where b: "build_schedule sample_tape lossy_config = Some sched" "length (rs_events sched) = 13"
    using lossy_count by blast
  let ?t = "ReplayTransport_new 4096 sample_tape sched sample_session"
  have t: "replay_reach sample_tape sched ?t" using sample_facts(1) by (rule reach_new)
  have c: "rt_coalesce ?t = 1" by (simp add: ReplayTransport_new_def Let_def patch_sessions_def)
  have v: "tape_messages sample_tape \<noteq> []" "\<forall>m \<in> set (tape_messages sample_tape). validate m = Inr ()"
    using source_okD(1) [OF sample_source_ok] by (simp_all add: sample_tape_messages sample_source_def)
  have l: "rc_guarantee_coverage lossy_config" "rc_feeds_enabled lossy_config = 3" "no_delay lossy_config"
    "rc_session_change_at_msg lossy_config = None" "packets_fit lossy_config" "ns_per_msg lossy_config \<noteq> 0"
    "time_ok lossy_config (length (tape_messages sample_tape))"
    by (simp_all add: lossy_config_def ReplayConfig_default_def no_delay_def packets_fit_def ns_per_msg_def time_ok_def
        sample_tape_messages)
  have r: "replay_bounds sample_tape sched"
    using b(2) sample_replay_bounds build_schedule_split [OF b(1) l(4)]
    by (simp add: replay_bounds_def ARENA_SLOT_SIZE_def split_ok_def)
  from generated_replay_is_golden [OF b(1) v l t r c sample_facts, of True] b(1)
  show ?thesis unfolding sample_tape_messages by (elim exE conjE) (intro exI conjI)
qed

end
