(* ===== verification/Blob.thy ===== *)
theory Blob
  imports Prelude
begin

text \<open>
  The memory of the rendered blob (\<open>MmapBlob\<close> in \<open>crates/nf-transport/src/render.rs\<close>): an
  anonymous mapping with a base aligned to the huge page size, or ordinary heap memory when
  the mapping fails.  Addresses only; the bytes are those of the copied vector.  \<open>mmap\<close>, the
  system call, is a parameter: the address it returns for a length, or \<open>None\<close> on failure.
\<close>

section \<open>Layout\<close>

record MmapBlob =
  mb_heap :: "u64 option"
  mb_map_base :: u64
  mb_map_len :: nat
  mb_data :: u64
  mb_len :: nat

definition HP :: nat where "HP = 2 * 2 ^ 20"

definition from_vec_slack :: "nat \<Rightarrow> nat" where
  "from_vec_slack len = (if len mod HP = 0 then 0 else HP)"

text \<open>The heap fallback places the copy at the address \<open>boxed\<close>, which the allocator chooses.\<close>

definition from_vec :: "(nat \<Rightarrow> u64 option) \<Rightarrow> u64 \<Rightarrow> nat \<Rightarrow> MmapBlob" where
  "from_vec mmap boxed len =
     (let map_len = len + from_vec_slack len
      in case mmap map_len of
           None \<Rightarrow> \<lparr>mb_heap = Some boxed, mb_map_base = boxed, mb_map_len = len, mb_data = boxed, mb_len = len\<rparr>
         | Some base \<Rightarrow>
             \<lparr>mb_heap = None, mb_map_base = base, mb_map_len = map_len,
              mb_data = base + (of_nat HP - (base AND of_nat (HP - 1))), mb_len = len\<rparr>)"

text \<open>The bytes the copy writes lie inside the mapping.\<close>

definition blob_in_mapping :: "MmapBlob \<Rightarrow> bool" where
  "blob_in_mapping b \<longleftrightarrow> unat (mb_map_base b) \<le> unat (mb_data b) \<and>
     unat (mb_data b) + mb_len b \<le> unat (mb_map_base b) + mb_map_len b"

section \<open>Properties\<close>

lemma unat_and_HP: "unat (base AND of_nat (HP - 1) :: u64) = unat base mod HP"
proof -
  have "(of_nat (HP - 1) :: u64) = mask 21" by (simp add: HP_def mask_eq_exp_minus_1)
  then have "unat (base AND of_nat (HP - 1)) = unat (take_bit 21 base)" by (simp add: take_bit_eq_mask)
  also have "\<dots> = take_bit 21 (unat base)" by (rule unsigned_take_bit_eq)
  finally show ?thesis by (simp add: take_bit_eq_mod HP_def)
qed

text \<open>C40: the mapping of the blob is too short for some sizes.  When the kernel grants the
  mapping, the data pointer is aligned to the huge page size, and the copy of the rendered
  frames stays inside the mapping exactly when the blob's size is not a multiple of 2 MiB:
  for a multiple there is no slack, but the pointer is moved up all the same, and the copy
  runs past the end.\<close>

theorem blob_mapping_bounds:
  assumes "mmap (len + from_vec_slack len) = Some base" and "unat base + len + 2 * HP < 2 ^ 64"
  shows "HP dvd unat (mb_data (from_vec mmap boxed len)) \<and>
    (blob_in_mapping (from_vec mmap boxed len) \<longleftrightarrow> len mod HP \<noteq> 0)"
proof -
  define up where "up = HP - unat base mod HP"
  have hp: "0 < HP" by (simp add: HP_def)
  have up: "0 < up" "up \<le> HP" using mod_less_divisor [OF hp, of "unat base"] by (simp_all add: up_def)
  have "unat (of_nat HP - (base AND of_nat (HP - 1)) :: u64) = up"
  proof -
    have "base AND of_nat (HP - 1) \<le> of_nat HP"
      using mod_less_divisor [OF hp, of "unat base"] unat_and_HP [of base]
      by (simp add: word_le_nat_alt unat_of_nat HP_def)
    then show ?thesis using unat_and_HP [of base] by (simp add: unat_sub up_def unat_of_nat HP_def)
  qed
  then have data: "unat (base + (of_nat HP - (base AND of_nat (HP - 1)))) = unat base + up"
    using up(2) assms(2) by (subst unat_plus_u64) simp_all
  have "unat base + up = HP * (unat base div HP) + HP"
    using mult_div_mod_eq [of HP "unat base"] mod_less_divisor [OF hp, of "unat base"] unfolding up_def by linarith
  then have "HP dvd unat base + up" by simp
  then show ?thesis
    using data up assms(1) by (simp add: from_vec_def Let_def blob_in_mapping_def from_vec_slack_def)
qed

lemma blob_mapping_bounds_witness:
  "\<not> blob_in_mapping (from_vec (\<lambda>_. Some 4096) 0 (2 * HP)) \<and> blob_in_mapping (from_vec (\<lambda>_. Some 4096) 0 5000)"
  using blob_mapping_bounds [of "\<lambda>_. Some 4096" "2 * HP" 4096 0] blob_mapping_bounds [of "\<lambda>_. Some 4096" 5000 4096 0]
  by (simp add: HP_def)

end
