(* ===== verification/HeaderVec.thy ===== *)
theory HeaderVec
  imports MoldUdp64
begin

text \<open>
  The vectorized header decode (\<open>crates/nf-transport/src/moldvec.rs\<close>): one 32-byte load, three byte
  shuffles and an or.  A 128-bit register is the list of its sixteen bytes, lowest first.
  Whether the processor has AVX2 is a parameter.
\<close>

section \<open>Registers\<close>

text \<open>\<open>_mm_shuffle_epi8\<close>: a mask byte with its high bit set gives zero, another selects by its
  low four bits.\<close>

definition mm_shuffle_epi8 :: "bytes \<Rightarrow> bytes \<Rightarrow> bytes" where
  "mm_shuffle_epi8 src sel = map (\<lambda>m. if m AND 128 \<noteq> 0 then 0 else src ! unat (m AND 15)) sel"

definition mm_or_si128 :: "bytes \<Rightarrow> bytes \<Rightarrow> bytes" where
  "mm_or_si128 a b = map2 (\<lambda>x y. x OR y) a b"

definition mm_cvtsi128_si64 :: "bytes \<Rightarrow> u64" where
  "mm_cvtsi128_si64 a = u64_from_le_bytes (take 8 a)"

section \<open>Decode\<close>

definition seq_mask_lo :: bytes where
  "seq_mask_lo = [- 1, - 1, 15, 14, 13, 12, 11, 10, - 1, - 1, - 1, - 1, - 1, - 1, - 1, - 1]"

definition seq_mask_hi :: bytes where
  "seq_mask_hi = [1, 0, - 1, - 1, - 1, - 1, - 1, - 1, - 1, - 1, - 1, - 1, - 1, - 1, - 1, - 1]"

definition count_mask :: bytes where
  "count_mask = [3, 2, - 1, - 1, - 1, - 1, - 1, - 1, - 1, - 1, - 1, - 1, - 1, - 1, - 1, - 1]"

definition parse_header_vec :: "bytes \<Rightarrow> Header" where
  "parse_header_vec buf =
     (let v = take 32 buf; lo = take 16 v; hi = drop 16 v;
          a = mm_shuffle_epi8 lo seq_mask_lo;
          b = mm_shuffle_epi8 hi seq_mask_hi;
          sq = mm_cvtsi128_si64 (mm_or_si128 a b);
          c = mm_shuffle_epi8 hi count_mask
      in \<lparr>hdr_session = slice 0 10 buf, hdr_seq = sq, hdr_count = ucast (mm_cvtsi128_si64 c)\<rparr>)"

definition parse_header_wide :: "bool \<Rightarrow> bytes \<Rightarrow> Header option" where
  "parse_header_wide avx2 buf = (if length buf < 32 \<or> \<not> avx2 then None else Some (parse_header_vec buf))"

definition decode_seq_count_wide :: "bool \<Rightarrow> bytes \<Rightarrow> (u64 \<times> u16) option" where
  "decode_seq_count_wide avx2 buf =
     (if length buf < 32 \<or> \<not> avx2 then None
      else let h = parse_header_vec buf in Some (hdr_seq h, hdr_count h))"

definition parse_header_scalar_ref :: "bytes \<Rightarrow> Header option" where
  "parse_header_scalar_ref buf =
     (if length buf < HEADER_LEN then None
      else case parse_header buf of Inr h \<Rightarrow> Some h | Inl _ \<Rightarrow> None)"

section \<open>Lanes\<close>

lemma slice_nths: "b \<le> length xs \<Longrightarrow> slice a b xs = map ((!) xs) [a ..< b]"
  by (rule nth_equalityI) (simp_all add: nth_slice)

lemma vec_seq:
  assumes "32 \<le> length buf"
  shows "mm_cvtsi128_si64 (mm_or_si128 (mm_shuffle_epi8 (take 16 (take 32 buf)) seq_mask_lo)
    (mm_shuffle_epi8 (drop 16 (take 32 buf)) seq_mask_hi)) = u64_from_be_bytes (slice 10 18 buf)"
  using assms
  by (simp add: mm_cvtsi128_si64_def mm_or_si128_def mm_shuffle_epi8_def seq_mask_lo_def seq_mask_hi_def
      u64_from_le_bytes_def u64_from_be_bytes_def slice_nths upt_rec)

lemma vec_count:
  assumes "32 \<le> length buf"
  shows "ucast (mm_cvtsi128_si64 (mm_shuffle_epi8 (drop 16 (take 32 buf)) count_mask)) = u16_from_be_bytes (slice 18 20 buf)"
proof -
  define n where "n = be_val [buf ! 18, buf ! 19]"
  have n: "n < 65536" using be_val_bound [of "[buf ! 18, buf ! 19]"] by (simp add: n_def)
  have v: "mm_cvtsi128_si64 (mm_shuffle_epi8 (drop 16 (take 32 buf)) count_mask) = of_nat n"
    using assms by (simp add: mm_cvtsi128_si64_def mm_shuffle_epi8_def count_mask_def u64_from_le_bytes_def n_def)
  have s: "u16_from_be_bytes (slice 18 20 buf) = of_nat n"
    using assms by (simp add: u16_from_be_bytes_def slice_nths upt_rec n_def)
  show ?thesis unfolding v s using n
    by (simp add: word_unat_eq_iff unsigned_ucast_eq unat_of_nat take_bit_eq_mod)
qed

section \<open>Properties\<close>

text \<open>C28: the vector decode is the scalar law.  On every byte string the wide decode answers
  exactly when 32 bytes are there and the processor has AVX2, and then with the header the
  scalar parser gives; the raw-fields form gives its sequence number and count.\<close>

theorem header_vec_is_scalar:
  "parse_header_wide avx2 buf = (if avx2 then if length buf < 32 then None else parse_header_scalar_ref buf else None) \<and>
   decode_seq_count_wide avx2 buf = map_option (\<lambda>h. (hdr_seq h, hdr_count h)) (parse_header_wide avx2 buf)"
  using vec_seq [of buf] vec_count [of buf]
  by (simp add: parse_header_wide_def decode_seq_count_wide_def parse_header_scalar_ref_def parse_header_vec_def
      parse_header_def Let_def)

end
