(* ===== verification/Recovery.thy ===== *)
theory Recovery
  imports Tape
begin

text \<open>
  Retransmission: the client (\<open>crates/nf-recovery/src/client.rs\<close>) and the test server that
  answers it from a tape (\<open>crates/nf-testkit/src/fakeserver.rs\<close>).  What the operating system
  returns from a socket call is an argument; a datagram is a byte list.  The server's thread
  is the function of one request it repeats; its atomic counters are fields of its state.
\<close>

section \<open>Client\<close>

datatype ClientState = Disconnected | Connecting | Connected

record RecoveryCounters =
  rk_requests_sent :: u64
  rk_packets_received :: u64
  rk_socket_errors :: u64

record RecoveryClient =
  rk_ip :: bytes
  rk_port :: u16
  rk_fd :: "int option"
  rk_state :: ClientState
  rk_counters :: RecoveryCounters

text \<open>\<open>s\<close> is the result of \<open>socket\<close>.\<close>

definition RecoveryClient_new :: "int \<Rightarrow> bytes \<Rightarrow> u16 \<Rightarrow> RecoveryClient" where
  "RecoveryClient_new s ip port =
     (let fd = (if 0 \<le> s then Some s else None)
      in \<lparr>rk_ip = ip, rk_port = port, rk_fd = fd,
          rk_state = (if fd \<noteq> None then Connected else Disconnected),
          rk_counters = \<lparr>rk_requests_sent = 0, rk_packets_received = 0, rk_socket_errors = 0\<rparr>\<rparr>)"

text \<open>\<open>res\<close> is the result of \<open>send\<close>; the datagram handed to it is returned.\<close>

definition send_request ::
    "int \<Rightarrow> SessionId \<Rightarrow> u64 \<Rightarrow> u16 \<Rightarrow> RecoveryClient \<Rightarrow> RecoveryClient \<times> bytes option" where
  "send_request res session from_seq count c =
     (case rk_fd c of
        None \<Rightarrow> (c, None)
      | Some fd \<Rightarrow>
          let k = rk_counters c;
              k1 = (if 0 < res then k\<lparr>rk_requests_sent := rk_requests_sent k + 1\<rparr>
                    else k\<lparr>rk_socket_errors := rk_socket_errors k + 1\<rparr>)
          in (c\<lparr>rk_counters := k1\<rparr>, Some (encode_request session from_seq count)))"

text \<open>\<open>n\<close> is the result of \<open>recv\<close>.\<close>

definition recv_packet :: "int \<Rightarrow> RecoveryClient \<Rightarrow> RecoveryClient \<times> nat option" where
  "recv_packet n c =
     (case rk_fd c of
        None \<Rightarrow> (c, None)
      | Some fd \<Rightarrow>
          if 0 < n
          then (c\<lparr>rk_counters := (rk_counters c)\<lparr>rk_packets_received := rk_packets_received (rk_counters c) + 1\<rparr>\<rparr>,
                Some (nat n))
          else (c, None))"

text \<open>The descriptor to close is returned.\<close>

definition disconnect :: "RecoveryClient \<Rightarrow> RecoveryClient \<times> int option" where
  "disconnect c = (c\<lparr>rk_fd := None, rk_state := Disconnected\<rparr>, rk_fd c)"

section \<open>Packing a response\<close>

datatype FaultMode =
    FaultOk
  | DelayMs u64
  | DropRequest nat
  | DropResponse nat
  | TruncateAfter u16
  | WrongSession
  | DuplicateFirst
  | Unbound

record SessionTruth =
  tr_session_id :: SessionId
  tr_first_seq :: u64
  tr_first_msg_index :: u64
  tr_total_msgs :: u64

text \<open>The scan to the first requested message.\<close>

function scan_target :: "bytes \<Rightarrow> u64 \<Rightarrow> u64 \<Rightarrow> nat \<Rightarrow> nat" where
  "scan_target gt target msg_index cur_offset =
     (if msg_index < target \<and> cur_offset + 2 \<le> length gt
      then scan_target gt target (msg_index + 1) (cur_offset + (2 + be_len gt cur_offset))
      else cur_offset)"
  by pat_completeness auto
termination scan_target
  by (relation "measure (\<lambda>(gt, target, msg_index, cur_offset). length gt - cur_offset)") auto

declare scan_target.simps [simp del]

text \<open>The blocks of one packet: the packet so far, its count, the offset.\<close>

function pack_blocks :: "bytes \<Rightarrow> u64 \<Rightarrow> u64 \<Rightarrow> bytes \<Rightarrow> u16 \<Rightarrow> nat \<Rightarrow> bytes \<times> u16 \<times> nat" where
  "pack_blocks gt cur_seq end_seq pkt pkt_count pkt_offset =
     (if cur_seq + ucast pkt_count < end_seq \<and> pkt_offset + 2 \<le> length gt
      then let len = be_len gt pkt_offset
           in if length gt < pkt_offset + 2 + len then (pkt, pkt_count, pkt_offset)
              else let block_total = 2 + len
                   in if 1400 < length pkt + block_total \<and> 0 < pkt_count then (pkt, pkt_count, pkt_offset)
                      else pack_blocks gt cur_seq end_seq (pkt @ slice pkt_offset (pkt_offset + block_total) gt)
                             (pkt_count + 1) (pkt_offset + block_total)
      else (pkt, pkt_count, pkt_offset))"
  by pat_completeness auto
termination pack_blocks
  by (relation "measure (\<lambda>(gt, cur_seq, end_seq, pkt, pkt_count, pkt_offset). length gt - pkt_offset)") auto

declare pack_blocks.simps [simp del]

lemma pack_blocks_moves:
  "pack_blocks gt cur_seq end_seq pkt c off = (pkt', c', off') \<Longrightarrow> off \<le> off' \<and> (c' \<noteq> c \<longrightarrow> off < off')"
proof (induction gt cur_seq end_seq pkt c off rule: pack_blocks.induct)
  case (1 gt cur_seq end_seq pkt c off)
  show ?case
  proof (cases "cur_seq + ucast c < end_seq \<and> off + 2 \<le> length gt \<and> \<not> length gt < off + 2 + be_len gt off \<and>
      \<not> (1400 < length pkt + (2 + be_len gt off) \<and> 0 < c)")
    case True
    then have "pack_blocks gt cur_seq end_seq (pkt @ slice off (off + (2 + be_len gt off)) gt) (c + 1) (off + (2 + be_len gt off))
        = (pkt', c', off')"
      using "1.prems" by (subst (asm) pack_blocks.simps) (auto simp: Let_def)
    from "1.IH" [OF _ refl _ refl _ this] True show ?thesis by simp
  next
    case False
    then show ?thesis using "1.prems" by (subst (asm) pack_blocks.simps) (auto simp: Let_def split: if_splits)
  qed
qed

text \<open>The packets of a response.  The count is written into the header once it is known.\<close>

function pack_packets :: "bytes \<Rightarrow> SessionId \<Rightarrow> u64 \<Rightarrow> u64 \<Rightarrow> nat \<Rightarrow> bytes list" where
  "pack_packets gt session cur_seq end_seq cur_offset =
     (if cur_seq < end_seq \<and> cur_offset < length gt
      then let pkt = session @ u64_to_be_bytes cur_seq @ u16_to_be_bytes 0;
               (pkt1, pkt_count, pkt_offset) = pack_blocks gt cur_seq end_seq pkt 0 cur_offset
           in if pkt_count = 0 then []
              else (take 18 pkt1 @ u16_to_be_bytes pkt_count @ drop 20 pkt1) #
                     pack_packets gt session (cur_seq + ucast pkt_count) end_seq pkt_offset
      else [])"
  by pat_completeness auto
termination pack_packets
  by (relation "measure (\<lambda>(gt, session, cur_seq, end_seq, cur_offset). length gt - cur_offset)")
    (auto dest: pack_blocks_moves [OF sym])

declare pack_packets.simps [simp del]

definition pack_response_packets :: "bytes \<Rightarrow> SessionId \<Rightarrow> SessionTruth \<Rightarrow> u64 \<Rightarrow> u16 \<Rightarrow> bytes list" where
  "pack_response_packets gt session truth from_seq count =
     (if count = 0 then []
      else let end_seq = from_seq + ucast count;
               target = tr_first_msg_index truth + saturating_sub64 from_seq (tr_first_seq truth)
           in pack_packets gt session from_seq end_seq (scan_target gt target 0 0))"

section \<open>Server\<close>

record Server =
  sv_req_counter :: nat
  sv_resp_pkt_counter :: nat
  sv_requests_seen :: u64
  sv_packets_served :: u64
  sv_faults_injected :: u64

definition Server_start :: Server where
  "Server_start = \<lparr>sv_req_counter = 0, sv_resp_pkt_counter = 0, sv_requests_seen = 0, sv_packets_served = 0,
     sv_faults_injected = 0\<rparr>"

definition inject :: "Server \<Rightarrow> Server" where
  "inject sv = sv\<lparr>sv_faults_injected := sv_faults_injected sv + 1\<rparr>"

definition served :: "Server \<Rightarrow> Server" where
  "served sv = sv\<lparr>sv_packets_served := sv_packets_served sv + 1\<rparr>"

fun send_packets :: "FaultMode \<Rightarrow> bool \<Rightarrow> bytes list \<Rightarrow> Server \<Rightarrow> Server \<times> bytes list" where
  "send_packets fault is_first [] sv = (sv, [])"
| "send_packets fault is_first (pkt # pkts) sv =
     (let sv1 = sv\<lparr>sv_resp_pkt_counter := sv_resp_pkt_counter sv + 1\<rparr>
      in if fault = DropResponse (sv_resp_pkt_counter sv1) then send_packets fault is_first pkts (inject sv1)
         else let (sv2, out) = (if fault = DuplicateFirst \<and> is_first then (served (inject sv1), [pkt]) else (sv1, []));
                  (sv3, rest) = send_packets fault False pkts (served sv2)
              in (sv3, out @ pkt # rest))"

definition WRONGSESS1 :: SessionId where
  "WRONGSESS1 = [87, 82, 79, 78, 71, 83, 69, 83, 83, 49]"

text \<open>One received datagram; the sleep of \<open>DelayMs\<close> has no effect on the values.\<close>

definition server_request :: "bytes \<Rightarrow> SessionTruth list \<Rightarrow> FaultMode \<Rightarrow> bytes \<Rightarrow> Server \<Rightarrow> Server \<times> bytes list" where
  "server_request gt sessions fault req sv =
     (if length req < REQUEST_LEN then (sv, [])
      else let sv1 = sv\<lparr>sv_req_counter := sv_req_counter sv + 1, sv_requests_seen := sv_requests_seen sv + 1\<rparr>;
               req_sess = slice 0 10 req;
               req_seq = u64_from_be_bytes (slice 10 18 req);
               req_count = u16_from_be_bytes (slice 18 20 req)
           in if fault = DropRequest (sv_req_counter sv1) then (inject sv1, [])
              else case find (\<lambda>s. tr_session_id s = req_sess) sessions of
                     None \<Rightarrow> (inject sv1, [])
                   | Some truth \<Rightarrow>
                       let (sv2, count_to_serve) =
                             (case fault of TruncateAfter k \<Rightarrow> (inject sv1, min req_count k) | _ \<Rightarrow> (sv1, req_count));
                           (sv3, effective_sess) =
                             (case fault of WrongSession \<Rightarrow> (inject sv2, WRONGSESS1) | _ \<Rightarrow> (sv2, tr_session_id truth))
                       in send_packets fault True
                            (pack_response_packets gt effective_sess truth req_seq count_to_serve) sv3)"

end
