(* ===== verification/RecoveryLaw.thy ===== *)
theory RecoveryLaw
  imports Recovery Arbitration
begin

text \<open>
  Retransmission works: the response to a request is the requested run of messages in
  well-formed packets, and feeding it to the sequencer that asked closes the gap.
\<close>

section \<open>The walks of the server\<close>

text \<open>One block of the tape.\<close>

lemma tape_block:
  assumes "p + 2 \<le> length gt" "p + 2 + be_len gt p \<le> length gt"
  shows "slice p (p + (2 + be_len gt p)) gt = mold_block (slice (p + 2) (p + 2 + be_len gt p) gt)"
    and "length (slice (p + 2) (p + 2 + be_len gt p) gt) = be_len gt p"
proof -
  show l: "length (slice (p + 2) (p + 2 + be_len gt p) gt) = be_len gt p" using assms by simp
  have b: "be_len (drop p gt) 0 = be_len gt p" using assms(1) by simp
  have "drop p gt = mold_block (slice 2 (2 + be_len gt p) (drop p gt)) @ drop (2 + be_len gt p) (drop p gt)"
    using mold_block_read [of "drop p gt"] assms b by simp
  moreover have "slice 2 (2 + be_len gt p) (drop p gt) = slice (p + 2) (p + 2 + be_len gt p) gt"
    by (simp add: slice_def add.commute)
  ultimately have "take (2 + be_len gt p) (drop p gt) = mold_block (slice (p + 2) (p + 2 + be_len gt p) gt)"
    using l by (metis append_eq_conv_conj length_mold_block)
  then show "slice p (p + (2 + be_len gt p)) gt = mold_block (slice (p + 2) (p + 2 + be_len gt p) gt)"
    by (simp add: slice_def)
qed

lemma mold_body_empty: "mold_body ms = [] \<longleftrightarrow> ms = []"
proof (cases ms)
  case (Cons m rest)
  then show ?thesis using length_mold_block [of m] by (auto simp del: length_mold_block)
qed simp

lemma tape_end: "length gt \<le> p \<Longrightarrow> tape_messages (drop p gt) = []"
  by (simp add: tape_messages.simps [of "[]"] block_complete_def)

lemma scan_target_tape:
  "tape_messages (drop (scan_target gt target i off) gt)
     = drop (unat target - unat i) (tape_messages (drop off gt))"
proof (induction gt target i off rule: scan_target.induct)
  case (1 gt target i off)
  let ?next = "off + (2 + be_len gt off)"
  show ?case
  proof (cases "i < target \<and> off + 2 \<le> length gt")
    case True
    then have i1: "unat target - unat i = Suc (unat target - unat (i + 1))"
    proof -
      have "unat (i + 1) = unat i + 1"
        using True by (intro trans [OF unat_plus_u64]) (use unat_u64_less [of target] in \<open>simp_all add: word_less_nat_alt\<close>)
      moreover have "unat i < unat target" using True by (simp add: word_less_nat_alt)
      ultimately show ?thesis by linarith
    qed
    have s: "scan_target gt target i off = scan_target gt target (i + 1) ?next"
      using True by (subst scan_target.simps) simp
    have ih: "tape_messages (drop (scan_target gt target (i + 1) ?next) gt)
        = drop (unat target - unat (i + 1)) (tape_messages (drop ?next gt))"
      by (rule "1.IH" [OF True])
    show ?thesis
    proof (cases "off + 2 + be_len gt off \<le> length gt")
      case whole: True
      then have "tape_messages (drop off gt) = slice (off + 2) (off + 2 + be_len gt off) gt # tape_messages (drop ?next gt)"
        using True tape_at(2) [of off gt] by (simp add: add.assoc)
      then show ?thesis unfolding s ih i1 by simp
    next
      case False
      then have "tape_messages (drop off gt) = []" "tape_messages (drop ?next gt) = []"
        using tape_at(3) [of off gt] tape_end [of gt ?next] True by simp_all
      then show ?thesis unfolding s ih by simp
    qed
  next
    case False
    then have "scan_target gt target i off = off" by (subst scan_target.simps) auto
    moreover have "unat target - unat i = 0 \<or> tape_messages (drop off gt) = []"
    proof (cases "i < target")
      case True
      then have "\<not> block_complete (drop off gt)" using False by (auto simp: block_complete_def)
      then show ?thesis by (simp add: tape_messages.simps [of "drop off gt"])
    qed (simp add: word_less_nat_alt)
    ultimately show ?thesis by auto
  qed
qed

lemma pack_blocks_tape:
  assumes "pack_blocks gt cur stop pkt c off = (pkt', c', off')" "off \<le> length gt"
    "unat cur + unat c \<le> unat stop" "unat stop - unat cur < 65536"
  shows "\<exists>j. pkt' = pkt @ mold_body (take j (tape_messages (drop off gt))) \<and> unat c' = unat c + j \<and>
    j \<le> length (tape_messages (drop off gt)) \<and> unat cur + unat c' \<le> unat stop \<and> off' \<le> length gt \<and>
    tape_messages (drop off' gt) = drop j (tape_messages (drop off gt)) \<and>
    (c = 0 \<and> unat cur < unat stop \<and> tape_messages (drop off gt) \<noteq> [] \<longrightarrow> 0 < j) \<and>
    (length pkt' \<le> 1400 \<or> c' \<le> 1 \<or> pkt' = pkt)"
  using assms
proof (induction gt cur stop pkt c off rule: pack_blocks.induct)
  case (1 gt cur stop pkt c off)
  let ?L = "be_len gt off" and ?ms = "tape_messages (drop off gt)"
  let ?m = "slice (off + 2) (off + 2 + ?L) gt"
  have cur: "cur + ucast c < stop \<longleftrightarrow> unat cur + unat c < unat stop"
  proof -
    have "unat cur + unat c < 2 ^ 64" using "1.prems"(3) unat_u64_less [of stop] by simp
    then have "unat (cur + ucast c) = unat cur + unat c" by (subst unat_plus_u64) simp_all
    then show ?thesis by (simp add: word_less_nat_alt)
  qed
  show ?case
  proof (cases "cur + ucast c < stop \<and> off + 2 \<le> length gt \<and> off + 2 + ?L \<le> length gt \<and> \<not> (1400 < length pkt + (2 + ?L) \<and> 0 < c)")
    case True
    then have w: "off + 2 \<le> length gt" "off + 2 + ?L \<le> length gt" by simp_all
    have step: "pack_blocks gt cur stop (pkt @ mold_block ?m) (c + 1) (off + (2 + ?L)) = (pkt', c', off')"
      using "1.prems"(1) True tape_block(1) [OF w] by (subst (asm) pack_blocks.simps) (auto simp: Let_def)
    have ms: "?ms = ?m # tape_messages (drop (off + (2 + ?L)) gt)"
      using tape_at(2) [of off gt] w by (simp add: add.assoc)
    have "unat cur + unat c < unat stop" using True cur by simp
    then have "unat c + 1 < 65536" using "1.prems"(4) by linarith
    then have c1: "unat (c + 1) = unat c + 1" by (simp add: unat_word_ariths(1))
    have "\<exists>j. pkt' = (pkt @ mold_block ?m) @ mold_body (take j (tape_messages (drop (off + (2 + ?L)) gt))) \<and>
        unat c' = unat (c + 1) + j \<and> j \<le> length (tape_messages (drop (off + (2 + ?L)) gt)) \<and> unat cur + unat c' \<le> unat stop \<and>
        off' \<le> length gt \<and> tape_messages (drop off' gt) = drop j (tape_messages (drop (off + (2 + ?L)) gt)) \<and>
        (c + 1 = 0 \<and> unat cur < unat stop \<and> tape_messages (drop (off + (2 + ?L)) gt) \<noteq> [] \<longrightarrow> 0 < j) \<and>
        (length pkt' \<le> 1400 \<or> c' \<le> 1 \<or> pkt' = pkt @ mold_block ?m)"
      unfolding tape_block(1) [OF w, symmetric]
      using True cur c1 w "1.prems"(4) step unfolding tape_block(1) [OF w, symmetric]
      by (intro "1.IH") simp_all
    then obtain j where j: "pkt' = (pkt @ mold_block ?m) @ mold_body (take j (tape_messages (drop (off + (2 + ?L)) gt)))"
      "unat c' = unat (c + 1) + j" "j \<le> length (tape_messages (drop (off + (2 + ?L)) gt))" "unat cur + unat c' \<le> unat stop"
      "off' \<le> length gt" "tape_messages (drop off' gt) = drop j (tape_messages (drop (off + (2 + ?L)) gt))"
      "length pkt' \<le> 1400 \<or> c' \<le> 1 \<or> pkt' = pkt @ mold_block ?m"
      by blast
    have "length pkt' \<le> 1400 \<or> c' \<le> 1 \<or> pkt' = pkt"
    proof (cases "pkt' = pkt @ mold_block ?m")
      case same: True
      then have "take j (tape_messages (drop (off + (2 + ?L)) gt)) = []" using j(1) mold_body_empty by simp
      then have "j = 0" using j(3) by auto
      show ?thesis
      proof (cases "c = 0")
        case c0: True
        then have "unat c' = 1" using j(2) \<open>j = 0\<close> by simp
        then have "c' \<le> 1" by (simp add: word_le_nat_alt)
        then show ?thesis by simp
      next
        case False
        then have "length pkt + (2 + ?L) \<le> 1400" using True by (simp add: word_gt_0)
        then show ?thesis using same tape_block(2) [OF w] by simp
      qed
    next
      case False
      then show ?thesis using j(7) by blast
    qed
    then show ?thesis using j c1 unfolding ms by (intro exI [of _ "Suc j"]) simp
  next
    case False
    then have r: "pkt' = pkt" "c' = c" "off' = off"
      using "1.prems"(1) by (subst (asm) pack_blocks.simps, auto simp: Let_def split: if_splits)+
    have "?ms = []" if "c = 0" "unat cur < unat stop"
      using False that cur "1.prems"(2) by (intro tape_at(3)) simp_all
    then show ?thesis using r "1.prems"(2,3) by (intro exI [of _ 0]) auto
  qed
qed

section \<open>The response\<close>

text \<open>The frames that carry chunks of messages numbered from \<open>q\<close>.\<close>

fun chunk_frames :: "SessionId \<Rightarrow> u64 \<Rightarrow> bytes list list \<Rightarrow> bytes list" where
  "chunk_frames s q [] = []"
| "chunk_frames s q (ch # chs) =
     mold_frame s q (of_nat (length ch)) ch # chunk_frames s (q + of_nat (length ch)) chs"

text \<open>A chunk fits a datagram of 1400 bytes, or is one message.\<close>

definition chunk_ok :: "bytes list \<Rightarrow> bool" where
  "chunk_ok ch \<longleftrightarrow> ch \<noteq> [] \<and> length ch < 65535 \<and> (20 + length (mold_body ch) \<le> 1400 \<or> length ch = 1)"

lemma mold_body_count: "2 * length ms \<le> length (mold_body ms)"
  by (induction ms) simp_all

lemma pack_packets_tape:
  assumes "length s = 10" "unat cur \<le> unat stop" "unat stop - unat cur < 65536"
  shows "\<exists>chs. pack_packets gt s cur stop off = chunk_frames s cur chs \<and> (\<forall>ch \<in> set chs. chunk_ok ch) \<and>
    concat chs = take (unat stop - unat cur) (tape_messages (drop off gt))"
  using assms
proof (induction gt s cur stop off rule: pack_packets.induct)
  case (1 gt s cur stop off)
  let ?ms = "tape_messages (drop off gt)"
  show ?case
  proof (cases "cur < stop \<and> off < length gt \<and> ?ms \<noteq> []")
    case True
    let ?pkt = "s @ u64_to_be_bytes cur @ u16_to_be_bytes 0"
    obtain pkt1 c off1 where b: "pack_blocks gt cur stop ?pkt 0 off = (pkt1, c, off1)" by (cases "pack_blocks gt cur stop ?pkt 0 off")
    have lt: "unat cur < unat stop" using True by (simp add: word_less_nat_alt)
    obtain j where j: "pkt1 = ?pkt @ mold_body (take j ?ms)" "unat c = j" "j \<le> length ?ms" "unat cur + unat c \<le> unat stop"
      "tape_messages (drop off1 gt) = drop j ?ms" "0 < j" "length pkt1 \<le> 1400 \<or> c \<le> 1 \<or> pkt1 = ?pkt"
      using pack_blocks_tape [OF b] True lt "1.prems"(3) by auto
    have c0: "c \<noteq> 0" using j(2,6) by auto
    have len: "length (take j ?ms) = j" using j(3) by simp
    have ok: "chunk_ok (take j ?ms)"
    proof (cases "c \<le> 1")
      case one: True
      then have "j = 1" using j(2,6) by (simp add: word_le_nat_alt)
      then show ?thesis using len by (auto simp: chunk_ok_def)
    next
      case False
      have "take j ?ms \<noteq> []" using len j(6) by (cases "take j ?ms") simp_all
      then have "mold_body (take j ?ms) \<noteq> []" by (simp only: mold_body_empty not_False_eq_True)
      then have small: "20 + length (mold_body (take j ?ms)) \<le> 1400" using j(1,7) False "1.prems"(1) by auto
      then show ?thesis using mold_body_count [of "take j ?ms"] len j(6) \<open>take j ?ms \<noteq> []\<close> by (simp add: chunk_ok_def)
    qed
    have frame: "take 18 pkt1 @ u16_to_be_bytes c @ drop 20 pkt1 = mold_frame s cur (of_nat (length (take j ?ms))) (take j ?ms)"
      using j(1,2) "1.prems"(1) len by (auto simp: mold_frame_def)
    have cur1: "unat (cur + ucast c) = unat cur + j"
      using j(2,4) unat_u64_less [of stop] by (subst unat_plus_u64) simp_all
    have p: "pack_packets gt s cur stop off = mold_frame s cur (of_nat (length (take j ?ms))) (take j ?ms)
        # pack_packets gt s (cur + ucast c) stop off1"
      using True b c0 frame by (subst pack_packets.simps) (simp add: Let_def)
    have "\<exists>chs. pack_packets gt s (cur + ucast c) stop off1 = chunk_frames s (cur + ucast c) chs \<and> (\<forall>ch \<in> set chs. chunk_ok ch) \<and>
        concat chs = take (unat stop - unat (cur + ucast c)) (tape_messages (drop off1 gt))"
      using True b c0 "1.prems" cur1 j(2,4) by (intro "1.IH" [of ?pkt _ pkt1 "(c, off1)" c off1]) simp_all
    then obtain chs where chs: "pack_packets gt s (cur + ucast c) stop off1 = chunk_frames s (cur + ucast c) chs"
      "\<forall>ch \<in> set chs. chunk_ok ch" "concat chs = take (unat stop - unat (cur + ucast c)) (tape_messages (drop off1 gt))"
      by blast
    have "ucast c = (of_nat (length (take j ?ms)) :: u64)" using j(2) len by (metis of_nat_unat)
    then have "pack_packets gt s cur stop off = chunk_frames s cur (take j ?ms # chs)" using p chs(1) by simp
    moreover have "concat (take j ?ms # chs) = take (unat stop - unat cur) ?ms"
    proof -
      have "unat stop - unat cur = j + (unat stop - unat (cur + ucast c))" using cur1 j(2,4) by linarith
      then show ?thesis using chs(3) j(5) by (simp add: take_add)
    qed
    ultimately show ?thesis using ok chs(2) by (intro exI [of _ "take j ?ms # chs"]) simp
  next
    case False
    have none: "pack_packets gt s cur stop off = [] \<and> take (unat stop - unat cur) ?ms = []"
    proof (cases "cur < stop \<and> off < length gt")
      case True
      then have ms: "?ms = []" using False by simp
      obtain pkt1 c off1 where b: "pack_blocks gt cur stop (s @ u64_to_be_bytes cur @ u16_to_be_bytes 0) 0 off = (pkt1, c, off1)"
        by (cases "pack_blocks gt cur stop (s @ u64_to_be_bytes cur @ u16_to_be_bytes 0) 0 off")
      have "unat c = 0" using pack_blocks_tape [OF b] True "1.prems"(2,3) ms by auto
      then have "c = 0" by (simp add: word_unat_eq_iff)
      then show ?thesis using ms b True by (subst pack_packets.simps) (simp add: Let_def)
    next
      case out: False
      then have "take (unat stop - unat cur) ?ms = []" using tape_end [of gt off] by (auto simp: not_less word_le_nat_alt)
      then show ?thesis using out by (subst pack_packets.simps) auto
    qed
    then show ?thesis by (intro exI [of _ "[]"]) simp
  qed
qed

lemma send_packets_ok: "send_packets FaultOk first pkts sv = (sv', out) \<Longrightarrow> out = pkts"
  by (induction FaultOk first pkts sv arbitrary: sv' out rule: send_packets.induct) (auto simp: Let_def split: prod.splits)

text \<open>The messages the tape holds from the position of number \<open>q\<close> of a session on: those of the
  session and, behind its end, whatever follows on the tape.\<close>

definition tape_run :: "bytes \<Rightarrow> SessionTruth \<Rightarrow> u64 \<Rightarrow> bytes list" where
  "tape_run gt truth q =
     drop (unat (tr_first_msg_index truth) + (unat q - unat (tr_first_seq truth))) (tape_messages gt)"

text \<open>The messages of the session: as many as it has in total, and no more.\<close>

definition session_messages :: "bytes \<Rightarrow> SessionTruth \<Rightarrow> bytes list" where
  "session_messages gt truth = take (unat (tr_total_msgs truth)) (drop (unat (tr_first_msg_index truth)) (tape_messages gt))"

lemma run_in_session:
  assumes "unat (tr_first_seq truth) \<le> unat q" "unat q + n \<le> unat (tr_first_seq truth) + unat (tr_total_msgs truth)"
  shows "take n (tape_run gt truth q) = take n (drop (unat q - unat (tr_first_seq truth)) (session_messages gt truth))"
proof -
  have "n \<le> unat (tr_total_msgs truth) - (unat q - unat (tr_first_seq truth))" using assms by linarith
  then show ?thesis by (simp add: tape_run_def session_messages_def drop_take min_def add.commute)
qed

lemma run_length:
  assumes "unat (tr_first_seq truth) \<le> unat q" "unat q + n \<le> unat (tr_first_seq truth) + unat (tr_total_msgs truth)"
    "unat (tr_first_msg_index truth) + unat (tr_total_msgs truth) \<le> length (tape_messages gt)"
  shows "length (take n (tape_run gt truth q)) = n"
  using assms by (simp add: tape_run_def)

definition request_ok :: "SessionTruth \<Rightarrow> u64 \<Rightarrow> u16 \<Rightarrow> bool" where
  "request_ok truth q c \<longleftrightarrow> tr_first_seq truth \<le> q \<and> unat q + unat c < 2 ^ 64 \<and>
     unat (tr_first_msg_index truth) + (unat q - unat (tr_first_seq truth)) < 2 ^ 64"

lemma response_chunks:
  assumes "length s = 10" "find (\<lambda>t. tr_session_id t = s) sessions = Some truth" "request_ok truth q c"
  shows "\<exists>chs. snd (server_request gt sessions FaultOk (encode_request s q c) sv) = chunk_frames s q chs \<and>
    (\<forall>ch \<in> set chs. chunk_ok ch) \<and> concat chs = take (unat c) (tape_run gt truth q)"
proof -
  have t: "tr_session_id truth = s" using assms(2) by (auto simp: find_Some_iff)
  have enc: "encode_request s q c = mold_frame s q c []" by (simp add: encode_request_def mold_frame_def)
  have "parse_header (encode_request s q c) = Inr \<lparr>hdr_session = s, hdr_seq = q, hdr_count = c\<rparr>"
    unfolding enc using assms(1) by (rule parse_header_frame)
  then have f: "slice 0 10 (encode_request s q c) = s" "u64_from_be_bytes (slice 10 18 (encode_request s q c)) = q"
    "u16_from_be_bytes (slice 18 20 (encode_request s q c)) = c" "\<not> length (encode_request s q c) < 20"
    by (auto simp: parse_header_def split: if_splits)
  have "snd (server_request gt sessions FaultOk (encode_request s q c) sv) = pack_response_packets gt s truth q c"
    using f assms(2) t by (auto simp: server_request_def Let_def split: prod.split intro: send_packets_ok [OF prod.collapse [symmetric]])
  moreover have "\<exists>chs. pack_response_packets gt s truth q c = chunk_frames s q chs \<and> (\<forall>ch \<in> set chs. chunk_ok ch) \<and>
      concat chs = take (unat c) (tape_run gt truth q)"
  proof (cases "c = 0")
    case True
    then show ?thesis by (intro exI [of _ "[]"]) (simp add: pack_response_packets_def)
  next
    case False
    let ?target = "tr_first_msg_index truth + saturating_sub64 q (tr_first_seq truth)"
    have "saturating_sub64 q (tr_first_seq truth) = q - tr_first_seq truth"
      "unat (q - tr_first_seq truth) = unat q - unat (tr_first_seq truth)"
      using assms(3) by (simp_all add: request_ok_def saturating_sub64_def unat_sub leD)
    then have target: "unat ?target = unat (tr_first_msg_index truth) + (unat q - unat (tr_first_seq truth))"
      using assms(3) by (subst unat_plus_u64) (simp_all add: request_ok_def)
    have stop: "unat (q + ucast c) = unat q + unat c"
      using assms(3) by (subst unat_plus_u64) (simp_all add: request_ok_def)
    show ?thesis
      using pack_packets_tape [OF assms(1), of q "q + ucast c" gt "scan_target gt ?target 0 0"] stop False unat_u16_less [of c]
      by (simp add: pack_response_packets_def Let_def scan_target_tape target tape_run_def)
  qed
  ultimately show ?thesis by simp
qed

section \<open>The response at the sequencer\<close>

lemma upt_split:
  assumes "xs @ ys = map f [a ..< a + n]"
  shows "xs = map f [a ..< a + length xs]" "ys = map f [a + length xs ..< a + n]" "length xs \<le> n"
proof -
  have l: "length xs + length ys = n" using arg_cong [OF assms, of length] by simp
  then have "[a ..< a + n] = [a ..< a + length xs] @ [a + length xs ..< a + n]"
    using upt_add_eq_append [of a "a + length xs" "length ys"] by (simp add: add.assoc)
  then have "xs @ ys = map f [a ..< a + length xs] @ map f [a + length xs ..< a + n]" using assms by simp
  then show "xs = map f [a ..< a + length xs]" "ys = map f [a + length xs ..< a + n]" by simp_all
  show "length xs \<le> n" using l by simp
qed

lemma chunk_step:
  assumes "d_phase st = Anchored" "d_session st = s" "s \<noteq> zero_session" "length s = 10" "unat q \<le> d_w st"
    "chunk_ok (map (M s) [unat q ..< unat q + c])" "unat q + c \<le> SEQ_LIMIT"
  shows "frame_ok M (mold_frame s q (of_nat c) (map (M s) [unat q ..< unat q + c]))"
    "\<exists>w'. unat q + c \<le> w' \<and> d_w st \<le> w' \<and>
      spec_frame M (mold_frame s q (of_nat c) (map (M s) [unat q ..< unat q + c])) st
        = (st\<lparr>d_w := w', d_held := {n \<in> d_held st. w' \<le> n}\<rparr>, deliver M s (d_w st) w') \<or>
      spec_frame M (mold_frame s q (of_nat c) (map (M s) [unat q ..< unat q + c])) st = (st, []) \<and> unat q + c \<le> d_w st"
proof -
  let ?h = "\<lparr>hdr_session = s, hdr_seq = q, hdr_count = of_nat c :: u16\<rparr>"
  have c: "0 < c" "c < 65535" using assms(6) by (auto simp: chunk_ok_def)
  then have u: "unat (of_nat c :: u16) = c" by (simp add: unat_of_nat)
  have n: "(of_nat c :: u16) \<noteq> 0" "(of_nat c :: u16) \<noteq> 65535" using u c by auto
  have hd: "parse_header (mold_frame s q (of_nat c) ms) = Inr ?h" for ms using assms(4) by (rule parse_header_frame)
  have "unat q + (c - 1) < 2 ^ 64" using assms(7) by (simp add: SEQ_LIMIT_def)
  moreover have "unat (ucast (of_nat c :: u16) - 1 :: u64) = c - 1"
    using u c n by (subst unat_minus_one) (auto simp flip: unat_eq_zero)
  ultimately have sp: "span ?h \<noteq> None" using n by (simp add: span_def checked_add64_def)
  show "frame_ok M (mold_frame s q (of_nat c) (map (M s) [unat q ..< unat q + c]))"
    using assms(3,7) u by (simp add: frame_ok_def hd)
  have f: "spec_frame M (mold_frame s q (of_nat c) ms) st = spec_data M (unat q) c st" for ms
    using assms(1-3) n sp u by (auto simp: spec_frame_def hd spec_header_def spec_session_def split: prod.split)
  show "\<exists>w'. unat q + c \<le> w' \<and> d_w st \<le> w' \<and>
      spec_frame M (mold_frame s q (of_nat c) (map (M s) [unat q ..< unat q + c])) st
        = (st\<lparr>d_w := w', d_held := {n \<in> d_held st. w' \<le> n}\<rparr>, deliver M s (d_w st) w') \<or>
      spec_frame M (mold_frame s q (of_nat c) (map (M s) [unat q ..< unat q + c])) st = (st, []) \<and> unat q + c \<le> d_w st"
    using assms(1,2,5) advance_run [of 1024 "d_held st" "unat q + c", OF refl]
    unfolding f by (auto simp: spec_data_def Let_def)
qed

lemma chunks_advance:
  assumes "d_phase st = Anchored" "d_session st = s" "s \<noteq> zero_session" "length s = 10" "unat q \<le> d_w st"
    "\<forall>ch \<in> set chs. chunk_ok ch" "concat chs = map (M s) [unat q ..< unat q + n]" "unat q + n \<le> SEQ_LIMIT"
  shows "(\<forall>f \<in> set (chunk_frames s q chs). frame_ok M f) \<and>
    (\<exists>st'. spec_run M (chunk_frames s q chs) st = (st', deliver M s (d_w st) (d_w st')) \<and> unat q + n \<le> d_w st' \<and> d_w st \<le> d_w st')"
  using assms
proof (induction chs arbitrary: q st n)
  case Nil
  then show ?case by auto
next
  case (Cons ch chs)
  let ?c = "length ch"
  have sp: "ch = map (M s) [unat q ..< unat q + ?c]" "concat chs = map (M s) [unat q + ?c ..< unat q + n]" "?c \<le> n"
    using upt_split [of ch "concat chs" "M s" "unat q" n] Cons.prems(7) by simp_all
  have lim: "unat q + ?c \<le> SEQ_LIMIT" using sp(3) Cons.prems(8) by linarith
  have ok: "chunk_ok (map (M s) [unat q ..< unat q + ?c])" using Cons.prems(6) sp(1) by simp
  note step = chunk_step [where M = M, OF Cons.prems(1-5) ok lim, folded sp(1)]
  have "?c < 65535" using ok sp(1) by (simp add: chunk_ok_def)
  then have q1: "unat (q + of_nat ?c) = unat q + ?c"
    using lim by (subst unat_plus_u64) (simp_all add: SEQ_LIMIT_def unat_of_nat)
  obtain st1 where st1: "spec_frame M (mold_frame s q (of_nat ?c) ch) st = (st1, deliver M s (d_w st) (d_w st1))"
    "d_w st \<le> d_w st1" "unat q + ?c \<le> d_w st1" "d_phase st1 = Anchored" "d_session st1 = s"
    using step(2) Cons.prems(1,2) by (auto simp del: upt_Suc)
  have "(\<forall>f \<in> set (chunk_frames s (q + of_nat ?c) chs). frame_ok M f) \<and>
    (\<exists>st'. spec_run M (chunk_frames s (q + of_nat ?c) chs) st1 = (st', deliver M s (d_w st1) (d_w st')) \<and>
      unat (q + of_nat ?c) + (n - ?c) \<le> d_w st' \<and> d_w st1 \<le> d_w st')"
    using st1(3-5) q1 Cons.prems(3,4,6,8) sp(2,3) by (intro Cons.IH) (simp_all add: SEQ_LIMIT_def)
  then obtain st2 where st2: "spec_run M (chunk_frames s (q + of_nat ?c) chs) st1 = (st2, deliver M s (d_w st1) (d_w st2))"
    "unat q + n \<le> d_w st2" "d_w st1 \<le> d_w st2" and okr: "\<forall>f \<in> set (chunk_frames s (q + of_nat ?c) chs). frame_ok M f"
    using q1 sp(3) by auto
  have "spec_run M (chunk_frames s q (ch # chs)) st = (st2, deliver M s (d_w st) (d_w st2))"
    using st1(1,2) st2(1,3) by (simp add: deliver_append)
  then show ?case using step(1) okr st2(2,3) st1(2) by auto
qed

lemma recovery_intent_keeps:
  "recovery_intent now_ns sq = (sq1, Some ri) \<Longrightarrow>
     core sq1 = core sq \<and> sq_state sq1 = sq_state sq \<and> ri_from ri = sq_w sq"
  by (auto simp: recovery_intent_def check_recovery_intent_def issue_intent_def Let_def split: option.splits if_splits)

section \<open>Properties\<close>

text \<open>C27: a request within a session is answered with what it asks for.  Take a request that starts
  at or after the first number of the session, with numbers and tape positions below 2 to the 64.
  The datagram that a connected client sends, handed to the server without faults, is answered by
  datagrams numbered on from the requested number, each a non-empty chunk of messages that fits
  1400 bytes unless it is a single message.  When the request also ends within the session, their
  messages are the requested run of the session's messages, as far as the tape goes, and all of it
  when the tape holds the whole session.  When it ends past the session, they are the messages the
  tape holds from there on: the server does not read the length of the session.\<close>

theorem response_serves_request:
  assumes "rk_fd client = Some fd" and "length s = 10"
    and "find (\<lambda>t. tr_session_id t = s) sessions = Some truth" and "request_ok truth q c"
  shows "\<exists>req chs. snd (send_request res s q c client) = Some req \<and>
    snd (server_request gt sessions FaultOk req sv) = chunk_frames s q chs \<and> (\<forall>ch \<in> set chs. chunk_ok ch) \<and>
    (unat q + unat c \<le> unat (tr_first_seq truth) + unat (tr_total_msgs truth) \<longrightarrow>
       concat chs = take (unat c) (drop (unat q - unat (tr_first_seq truth)) (session_messages gt truth)) \<and>
       (unat (tr_first_msg_index truth) + unat (tr_total_msgs truth) \<le> length (tape_messages gt) \<longrightarrow>
          length (concat chs) = unat c)) \<and>
    concat chs = take (unat c) (tape_run gt truth q)"
proof -
  obtain chs where chs: "snd (server_request gt sessions FaultOk (encode_request s q c) sv) = chunk_frames s q chs"
      "\<forall>ch \<in> set chs. chunk_ok ch" "concat chs = take (unat c) (tape_run gt truth q)"
    using response_chunks [OF assms(2-4), of gt sv] by blast
  have q: "unat (tr_first_seq truth) \<le> unat q" using assms(4) by (simp add: request_ok_def word_le_nat_alt)
  have "snd (send_request res s q c client) = Some (encode_request s q c)"
    using assms(1) by (simp add: send_request_def Let_def)
  then show ?thesis using chs run_in_session [OF q, of "unat c" gt] run_length [OF q, of "unat c" gt] by metis
qed

text \<open>C14: retransmission closes the gap.  Let an anchored sequencer, in any state that well-formed
  traffic leads to (any that simulates a state of the delivery machine), issue an intent, the client request its range, and the server answer from a tape that holds
  the range: once the sequencer has ingested the answer, on any feed and at any times, its
  watermark is at or past the end of the intent, and it delivered exactly the messages from the
  old watermark to the new one, in order.\<close>

theorem retransmission_closes_gap:
  assumes "source_ok M" and "simulates M st sq" and "phase_of (sq_state sq) = Anchored"
    and "recovery_intent now_ns sq = (sq1, Some ri)"
    and "ri_from ri < ri_to_excl ri" and "unat (ri_to_excl ri) - unat (ri_from ri) \<le> 65535" and "unat (ri_to_excl ri) \<le> SEQ_LIMIT"
    and "length (sq_session sq) = 10" and "sq_session sq \<noteq> zero_session" and "rk_fd client = Some fd"
    and "find (\<lambda>t. tr_session_id t = sq_session sq) sessions = Some truth"
    and "request_ok truth (ri_from ri) (ucast (ri_to_excl ri - ri_from ri))"
    and "take (unat (ri_to_excl ri) - unat (ri_from ri)) (tape_run gt truth (ri_from ri))
      = map (M (sq_session sq)) [unat (ri_from ri) ..< unat (ri_to_excl ri)]"
    and "snd (send_request res (sq_session sq) (ri_from ri) (ucast (ri_to_excl ri - ri_from ri)) client) = Some req"
    and "map fst rs = snd (server_request gt sessions FaultOk req sv)"
  shows "unat (ri_to_excl ri) \<le> unat (sq_w (fst (ingest_run rs sq1))) \<and>
    outputs (snd (ingest_run rs sq1))
      = deliver M (sq_session sq) (unat (sq_w sq)) (unat (sq_w (fst (ingest_run rs sq1))))"
proof -
  let ?s = "sq_session sq" and ?a = "unat (ri_from ri)" and ?b = "unat (ri_to_excl ri)"
  note sim = assms(2)
  note k = recovery_intent_keeps [OF assms(4)]
  have sim1: "simulates M st sq1" using simulates_core [OF sim] k by simp
  have st: "d_phase st = Anchored" "d_session st = ?s" "d_w st = ?a"
    using sim assms(3) k by (simp_all add: simulates_def)
  have ab: "?a < ?b" using assms(5) by (simp add: word_less_nat_alt)
  have "unat (ri_to_excl ri - ri_from ri) = ?b - ?a" using assms(5) by (intro unat_sub) simp
  then have c: "unat (ucast (ri_to_excl ri - ri_from ri) :: u16) = ?b - ?a"
    using assms(6) by (simp add: unsigned_ucast_eq take_bit_eq_mod)
  have req: "req = encode_request ?s (ri_from ri) (ucast (ri_to_excl ri - ri_from ri))"
    using assms(10,14) by (simp add: send_request_def Let_def)
  obtain chs where chs: "map fst rs = chunk_frames ?s (ri_from ri) chs" "\<forall>ch \<in> set chs. chunk_ok ch"
    "concat chs = map (M ?s) [?a ..< ?a + (?b - ?a)]"
    using response_chunks [OF assms(8,11,12), of gt sv] assms(13,15) ab unfolding req c by auto
  have w: "?a \<le> d_w st" using st(3) by simp
  have lim: "?a + (?b - ?a) \<le> SEQ_LIMIT" using assms(7) ab by simp
  obtain st2 where ok: "\<forall>f \<in> set (map fst rs). frame_ok M f" and st2:
    "spec_run M (map fst rs) st = (st2, deliver M ?s (d_w st) (d_w st2))" "?b \<le> d_w st2"
    using chunks_advance [where M = M, OF st(1,2) assms(9,8) w chs(2,3) lim] ab unfolding chs(1) by auto
  have "simulates M st2 (fst (ingest_run rs sq1))" "outputs (snd (ingest_run rs sq1)) = deliver M ?s (d_w st) (d_w st2)"
    using ingest_run_simulates [OF sim1 assms(1) ok] st2(1) by simp_all
  then show ?thesis using st2(2) st(3) k by (simp add: simulates_def)
qed

text \<open>The tape has two messages of the sample session, numbered 7 and 8; the sequencer expects 7
  and a heartbeat has told it of 9.\<close>

definition sample_truth :: SessionTruth where
  "sample_truth = \<lparr>tr_session_id = sample_session, tr_first_seq = 7, tr_first_msg_index = 0, tr_total_msgs = 2\<rparr>"

definition pair_tape :: bytes where "pair_tape = mold_body [sample_msg, sample_msg]"

definition gap_sequencer :: Sequencer where
  "gap_sequencer = Sequencer_new_unboxed\<lparr>sq_session := sample_session, sq_state := Contig, sq_w := 7, sq_hb_seq := 9\<rparr>"

lemma pair_tape_messages: "tape_messages pair_tape = [sample_msg, sample_msg]"
  using tape_messages_body [of "[sample_msg, sample_msg]" "[]"]
  by (simp add: pair_tape_def sample_msg_def tape_messages.simps [of "[]"] block_complete_def)

lemma sample_request: "request_ok sample_truth 7 2" "find (\<lambda>t. tr_session_id t = sample_session) [sample_truth] = Some sample_truth"
  by (simp_all add: request_ok_def sample_truth_def)

lemma response_serves_request_witness:
  "\<exists>req chs. snd (send_request 20 sample_session 7 2 (RecoveryClient_new 3 [127, 0, 0, 1] 9000)) = Some req \<and>
    snd (server_request pair_tape [sample_truth] FaultOk req Server_start) = chunk_frames sample_session 7 chs \<and>
    concat chs = [sample_msg, sample_msg] \<and> session_messages pair_tape sample_truth = [sample_msg, sample_msg]"
proof -
  have c: "rk_fd (RecoveryClient_new 3 [127, 0, 0, 1] 9000) = Some 3" by (simp add: RecoveryClient_new_def)
  show ?thesis
    using response_serves_request [OF c sample_facts(1) sample_request(2,1), of 20 pair_tape Server_start]
    by (auto simp: tape_run_def session_messages_def sample_truth_def pair_tape_messages)
qed

lemma gap_sequencer_intent:
  "\<exists>sq1. recovery_intent 1000000000000 gap_sequencer = (sq1, Some \<lparr>ri_from = 7, ri_to_excl = 9\<rparr>)"
  by (simp add: recovery_intent_def check_recovery_intent_def intent_target_def issue_intent_def gap_sequencer_def
      Sequencer_new_unboxed_def saturating_sub64_def Let_def)

lemma gap_sequencer_simulates:
  "simulates sample_source \<lparr>d_session = sample_session, d_phase = Anchored, d_w = 7, d_held = {}\<rparr> gap_sequencer"
  by (simp add: simulates_def gap_sequencer_def Sequencer_new_unboxed_def spec_ok_def SEQ_LIMIT_def window_at_none)

lemma retransmission_closes_gap_witness:
  "\<exists>sq1 req rs. recovery_intent 1000000000000 gap_sequencer = (sq1, Some \<lparr>ri_from = 7, ri_to_excl = 9\<rparr>) \<and>
    map fst rs = snd (server_request pair_tape [sample_truth] FaultOk req Server_start) \<and>
    9 \<le> unat (sq_w (fst (ingest_run rs sq1)))"
proof -
  let ?c = "RecoveryClient_new 3 [127, 0, 0, 1] 9000"
  obtain sq1 where i: "recovery_intent 1000000000000 gap_sequencer = (sq1, Some \<lparr>ri_from = 7, ri_to_excl = 9\<rparr>)"
    using gap_sequencer_intent by blast
  have g: "phase_of (sq_state gap_sequencer) = Anchored" "sq_session gap_sequencer = sample_session"
    by (simp_all add: gap_sequencer_def)
  have c: "rk_fd ?c = Some 3" by (simp add: RecoveryClient_new_def)
  let ?req = "encode_request sample_session 7 2"
  let ?rs = "map (\<lambda>f. (f, 2, 0)) (snd (server_request pair_tape [sample_truth] FaultOk ?req Server_start))"
  have rs: "map fst ?rs = snd (server_request pair_tape [sample_truth] FaultOk ?req Server_start)" by (simp add: comp_def)
  have "9 \<le> unat (sq_w (fst (ingest_run ?rs sq1)))"
    using retransmission_closes_gap [OF sample_source_ok gap_sequencer_simulates g(1) i _ _ _ _ _ c _ _ _ _ rs, of sample_truth 20]
      sample_facts sample_request
    by (simp add: g SEQ_LIMIT_def send_request_def RecoveryClient_new_def tape_run_def sample_truth_def
        pair_tape_messages sample_source_def upt_rec)
  then show ?thesis using i rs by blast
qed

end
