(* ===== verification/SpecSlice.thy ===== *)
theory SpecSlice
  imports MoldUdp64
begin

text \<open>
  The speculative ingest slicer, \<open>crates/nf-protocol/src/moldudp64.rs\<close> from
  \<open>SpecMsg\<close> to \<open>spec_slice_ingest\<close>, and the AVX-512 table builder that
  \<open>crates/nf-testkit/src/crcfold.rs\<close> installs into it.  The reference is
  \<open>stream_walk\<close>, the sequential walk of the length prefixes.  The window iterator
  yields exactly its descriptors on every input, with the scalar walk and with the
  register-table walk over any builder that keeps the table contract; the batched
  rotate-and-xor fold of \<open>spec_slice_ingest\<close> is the sequential fold over them.
\<close>

section \<open>Descriptors and the reference walk\<close>

record SpecMsg =
  sm_off :: u32
  sm_len :: u16

abbreviation (input) SPEC_SLICE_CAP :: nat where "SPEC_SLICE_CAP \<equiv> 16"

definition be16 :: "bytes \<Rightarrow> nat \<Rightarrow> u16" where
  "be16 buf p = u16_from_be_bytes [buf ! p, buf ! (p + 1)]"

text \<open>The chain \<open>p += 2 + L(p)\<close> over the whole stream, stopping at the first header
  or payload that does not fit.\<close>

function stream_walk :: "bytes \<Rightarrow> nat \<Rightarrow> SpecMsg list" where
  "stream_walk buf p =
     (if p + 2 \<le> length buf \<and> p + 2 + unat (be16 buf p) \<le> length buf
      then \<lparr>sm_off = of_nat (p + 2), sm_len = be16 buf p\<rparr>
           # stream_walk buf (p + 2 + unat (be16 buf p))
      else [])"
  by pat_completeness auto
termination by (relation "measure (\<lambda>(buf, p). length buf - p)") auto

declare stream_walk.simps [simp del]

section \<open>One window\<close>

text \<open>
  The two walks of a window.  The first argument is the room left in the descriptor
  batch; the result is the descriptors written to it and the final position.
\<close>

fun spec_slice_walk :: "u16 list \<Rightarrow> u16 list \<Rightarrow> nat \<Rightarrow> nat \<Rightarrow> nat \<Rightarrow> nat \<Rightarrow> SpecMsg list \<times> nat" where
  "spec_slice_walk e_tab o_tab n limit 0 p = ([], p)"
| "spec_slice_walk e_tab o_tab n limit (Suc room) p =
     (if p + 2 \<le> n then
        let l = (if p mod 2 = 0 then e_tab ! (p div 2) else o_tab ! (p div 2))
        in if limit < p + 2 + unat l then ([], p)
           else let (ms, q) = spec_slice_walk e_tab o_tab n limit room (p + 2 + unat l)
                in (\<lparr>sm_off = of_nat (p + 2), sm_len = l\<rparr> # ms, q)
      else ([], p))"

fun spec_slice_scalar :: "bytes \<Rightarrow> nat \<Rightarrow> nat \<Rightarrow> nat \<Rightarrow> SpecMsg list \<times> nat" where
  "spec_slice_scalar chunk limit 0 p = ([], p)"
| "spec_slice_scalar chunk limit (Suc room) p =
     (if p + 2 \<le> length chunk then
        let l = be16 chunk p
        in if limit < p + 2 + unat l then ([], p)
           else let (ms, q) = spec_slice_scalar chunk limit room (p + 2 + unat l)
                in (\<lparr>sm_off = of_nat (p + 2), sm_len = l\<rparr> # ms, q)
      else ([], p))"

text \<open>
  \<open>vec\<close> is the installed table builder when \<open>spec_vec_active\<close> holds, and \<open>None\<close>
  otherwise: the once-per-process environment switch and the installation cell together.
\<close>

type_synonym SpecTableBuilder = "bytes \<Rightarrow> u16 list \<times> u16 list"

definition spec_vec_active :: "bool \<Rightarrow> SpecTableBuilder option \<Rightarrow> SpecTableBuilder option" where
  "spec_vec_active hw installed = (if hw then installed else None)"

definition spec_slice_512 ::
    "SpecTableBuilder option \<Rightarrow> bytes \<Rightarrow> nat \<Rightarrow> nat \<Rightarrow> SpecMsg list \<times> nat" where
  "spec_slice_512 vec chunk start limit =
     (if length chunk < 2 then ([], start)
      else case vec of
        Some build \<Rightarrow>
          (let (e_tab, o_tab) = build chunk
           in spec_slice_walk e_tab o_tab (length chunk) limit SPEC_SLICE_CAP start)
      | None \<Rightarrow> spec_slice_scalar chunk limit SPEC_SLICE_CAP start)"

section \<open>The iterator\<close>

record SpecSliceIter =
  ssi_buf :: bytes
  ssi_pos :: nat
  ssi_batch :: "SpecMsg list"
  ssi_n :: nat
  ssi_i :: nat
  ssi_done :: bool

definition SpecSliceIter_new :: "bytes \<Rightarrow> SpecSliceIter" where
  "SpecSliceIter_new payload =
     \<lparr>ssi_buf = payload, ssi_pos = 0,
      ssi_batch = replicate SPEC_SLICE_CAP \<lparr>sm_off = 0, sm_len = 0\<rparr>,
      ssi_n = 0, ssi_i = 0, ssi_done = (payload = [])\<rparr>"

text \<open>One round of the \<open>refill\<close> loop past its two tests, and the loop.\<close>

definition absolutize :: "nat \<Rightarrow> SpecMsg list \<Rightarrow> SpecMsg list" where
  "absolutize base ms = map (\<lambda>m. m\<lparr>sm_off := sm_off m + of_nat base\<rparr>) ms"

definition refill_window ::
    "SpecTableBuilder option \<Rightarrow> SpecSliceIter \<Rightarrow> SpecSliceIter \<times> nat" where
  "refill_window vec it =
     (let base = ssi_pos it;
          rem = length (ssi_buf it) - base;
          chunk = slice base (base + min rem 64) (ssi_buf it);
          (ms, p_final) = spec_slice_512 vec chunk 0 rem
      in (it\<lparr>ssi_batch := absolutize base ms @ drop (length ms) (ssi_batch it),
             ssi_n := length ms, ssi_i := 0, ssi_pos := ssi_pos it + p_final\<rparr>, p_final))"

function refill :: "SpecTableBuilder option \<Rightarrow> SpecSliceIter \<Rightarrow> SpecSliceIter \<times> bool" where
  "refill vec it =
     (if ssi_i it < ssi_n it then (it, True)
      else if ssi_done it \<or> length (ssi_buf it) \<le> ssi_pos it then (it\<lparr>ssi_done := True\<rparr>, False)
      else if snd (refill_window vec it) = 0
           then ((fst (refill_window vec it))\<lparr>ssi_n := 0, ssi_done := True\<rparr>, False)
      else refill vec (fst (refill_window vec it)))"
  by pat_completeness auto
termination refill
  by (relation "measure (\<lambda>(vec, it). length (ssi_buf it) - ssi_pos it)")
    (auto simp: refill_window_def Let_def split: prod.splits)

declare refill.simps [simp del]

definition SpecSliceIter_next ::
    "SpecTableBuilder option \<Rightarrow> SpecSliceIter \<Rightarrow> SpecSliceIter \<times> SpecMsg option" where
  "SpecSliceIter_next vec it =
     (let (it', got) = (if ssi_n it \<le> ssi_i it then refill vec it else (it, True))
      in if got then (it'\<lparr>ssi_i := ssi_i it' + 1\<rparr>, Some (ssi_batch it' ! ssi_i it'))
         else (it', None))"

fun spec_collect :: "SpecTableBuilder option \<Rightarrow> nat \<Rightarrow> SpecSliceIter \<Rightarrow> SpecMsg list option" where
  "spec_collect vec 0 it = None"
| "spec_collect vec (Suc fuel) it =
     (case SpecSliceIter_next vec it of
        (it', None) \<Rightarrow> Some []
      | (it', Some m) \<Rightarrow> map_option ((#) m) (spec_collect vec fuel it'))"

section \<open>The length fold\<close>

fun ingest_boundary_batch :: "bytes \<Rightarrow> nat \<Rightarrow> nat \<Rightarrow> u16 list \<times> nat \<times> bool" where
  "ingest_boundary_batch payload 0 p =
     ([], p, p + 2 \<le> length payload \<and> length payload < p + 2 + unat (be16 payload p))"
| "ingest_boundary_batch payload (Suc room) p =
     (if p + 2 \<le> length payload then
        (if length payload < p + 2 + unat (be16 payload p) then ([], p, True)
         else let (lens, q, truncated) =
                ingest_boundary_batch payload room (p + 2 + unat (be16 payload p))
              in (be16 payload p # lens, q, truncated))
      else ([], p, False))"

definition rotate_left64 :: "u64 \<Rightarrow> nat \<Rightarrow> u64" where
  "rotate_left64 x n = word_rotl n x"

fun xor_lens :: "nat \<Rightarrow> nat \<Rightarrow> u16 list \<Rightarrow> u64 \<Rightarrow> u64" where
  "xor_lens k i [] acc = acc"
| "xor_lens k i (l # ls) acc =
     xor_lens k (Suc i) ls (acc XOR rotate_left64 (ucast l) (7 * (k - 1 - i) mod 64))"

definition affine_batch_fold :: "u64 \<Rightarrow> u16 list \<Rightarrow> u64" where
  "affine_batch_fold acc lens =
     xor_lens (length lens) 0 lens (rotate_left64 acc (7 * length lens mod 64))"

function spec_slice_ingest_loop :: "bytes \<Rightarrow> nat \<Rightarrow> u64 \<Rightarrow> u64 \<Rightarrow> u64 \<times> u64" where
  "spec_slice_ingest_loop payload pos acc count =
     (if pos + 2 \<le> length payload then
        (case ingest_boundary_batch payload 16 pos of (lens, q, truncated) \<Rightarrow>
           if truncated
           then (affine_batch_fold acc lens, count + of_nat (length lens))
           else spec_slice_ingest_loop payload q (affine_batch_fold acc lens)
                  (count + of_nat (length lens)))
      else (acc, count))"
  by pat_completeness auto

lemma ingest_boundary_batch_pos:
  "ingest_boundary_batch payload room p = (lens, q, t) \<Longrightarrow> p \<le> q \<and> p + 2 * length lens \<le> q"
proof (induction payload room p arbitrary: lens q t rule: ingest_boundary_batch.induct)
  case (1 payload p)
  then show ?case by simp
next
  case (2 payload room p)
  then show ?case by (fastforce simp: Let_def split: if_splits prod.splits)
qed

lemma ingest_boundary_batch_progress:
  "ingest_boundary_batch payload (Suc room) p = (lens, q, False) \<Longrightarrow> p + 2 \<le> length payload \<Longrightarrow> p < q"
  using ingest_boundary_batch_pos [of payload room "p + 2 + unat (be16 payload p)"]
  by (auto simp: Let_def split: if_splits prod.splits) force

termination spec_slice_ingest_loop
proof (relation "measure (\<lambda>(payload, pos, acc, count). length payload - pos)", goal_cases)
  case 1
  then show ?case by simp
next
  case (2 payload pos acc count lens rest q truncated)
  then have "ingest_boundary_batch payload (Suc 15) pos = (lens, q, False)" by simp
  from ingest_boundary_batch_progress [OF this] 2 show ?case by simp
qed

declare spec_slice_ingest_loop.simps [simp del]

text \<open>The result is the returned message count and the final \<open>*sink\<close>.\<close>

definition spec_slice_ingest :: "bytes \<Rightarrow> u64 \<Rightarrow> u64 \<times> u64" where
  "spec_slice_ingest payload sink =
     (if length payload < 2 then (0, sink)
      else case spec_slice_ingest_loop payload 0 sink 0 of (acc, count) \<Rightarrow> (count, acc))"

section \<open>The iterator follows the chain\<close>

lemma be16_slice: "a + p + 1 < b \<Longrightarrow> b \<le> length buf \<Longrightarrow> be16 (slice a b buf) p = be16 buf (a + p)"
  by (simp add: be16_def nth_slice)

lemma length_absolutize [simp]: "length (absolutize base ms) = length ms"
  by (simp add: absolutize_def)

lemma absolutize_simps [simp]:
  "absolutize base [] = []"
  "absolutize base (m # ms) = m\<lparr>sm_off := sm_off m + of_nat base\<rparr> # absolutize base ms"
  by (simp_all add: absolutize_def)

lemma spec_slice_scalar_pos:
  "spec_slice_scalar chunk limit room p = (ms, q) \<Longrightarrow>
     p + 2 * length ms \<le> q \<and> (ms = [] \<longrightarrow> q = p) \<and> length ms \<le> room"
proof (induction room arbitrary: p ms q)
  case 0
  then show ?case by simp
next
  case (Suc room)
  then show ?case by (fastforce simp: Let_def split: if_splits prod.splits)
qed

lemma spec_slice_scalar_chain:
  assumes "base + n \<le> length buf"
  shows "spec_slice_scalar (slice base (base + n) buf) (length buf - base) room p = (ms, q) \<Longrightarrow>
     stream_walk buf (base + p) = absolutize base ms @ stream_walk buf (base + q)"
proof (induction room arbitrary: p ms q)
  case 0
  then show ?case by simp
next
  case (Suc room)
  let ?c = "slice base (base + n) buf"
  have len: "length ?c = n" using assms by simp
  show ?case
  proof (cases "p + 2 \<le> n \<and> p + 2 + unat (be16 ?c p) \<le> length buf - base")
    case False
    then show ?thesis using Suc.prems len by (auto simp: Let_def split: if_splits)
  next
    case True
    then have b: "be16 ?c p = be16 buf (base + p)" using assms by (intro be16_slice) auto
    obtain ms' where ms: "ms = \<lparr>sm_off = of_nat (p + 2), sm_len = be16 ?c p\<rparr> # ms'"
      and r: "spec_slice_scalar ?c (length buf - base) room (p + 2 + unat (be16 ?c p)) = (ms', q)"
      using Suc.prems True len by (auto simp: Let_def split: prod.splits)
    have fit: "base + p + 2 + unat (be16 buf (base + p)) \<le> length buf"
      using True [unfolded b] assms by arith
    have "stream_walk buf (base + p) =
        \<lparr>sm_off = of_nat (base + p + 2), sm_len = be16 buf (base + p)\<rparr>
        # stream_walk buf (base + (p + 2 + unat (be16 ?c p)))"
      using fit b by (subst stream_walk.simps) (simp add: add.assoc)
    with Suc.IH [OF r] b ms show ?thesis by (simp add: ac_simps)
  qed
qed

lemma spec_slice_scalar_stuck:
  assumes "spec_slice_scalar chunk limit (Suc room) 0 = ([], q)" and "2 \<le> length chunk"
  shows "limit < 2 + unat (be16 chunk 0)"
  using assms by (auto simp: Let_def split: if_splits prod.splits)

lemma spec_slice_512_cases:
  "length chunk < 2 \<Longrightarrow> spec_slice_512 vec chunk start limit = ([], start)"
  "\<not> length chunk < 2 \<Longrightarrow>
     spec_slice_512 None chunk start limit = spec_slice_scalar chunk limit SPEC_SLICE_CAP start"
  by (simp_all add: spec_slice_512_def)

lemma refill_window_chain:
  assumes "refill_window None it = (it', q)" and "ssi_pos it < length (ssi_buf it)"
    and "length (ssi_batch it) = SPEC_SLICE_CAP"
  obtains ms where "it' = it\<lparr>ssi_batch := ms @ drop (length ms) (ssi_batch it),
      ssi_n := length ms, ssi_i := 0, ssi_pos := ssi_pos it + q\<rparr>"
    "stream_walk (ssi_buf it) (ssi_pos it) = ms @ stream_walk (ssi_buf it) (ssi_pos it + q)"
    "length ms \<le> SPEC_SLICE_CAP" "q = 0 \<Longrightarrow> stream_walk (ssi_buf it) (ssi_pos it) = []"
    "q \<noteq> 0 \<Longrightarrow> ms \<noteq> []" "2 * length ms \<le> q"
proof -
  let ?b = "ssi_buf it" and ?p = "ssi_pos it"
  let ?rem = "length ?b - ?p"
  let ?n = "min ?rem 64"
  let ?c = "slice ?p (?p + ?n) ?b"
  have fits: "?p + ?n \<le> length ?b" using assms(2) by simp
  then have lc: "length ?c = ?n" by simp
  obtain ms0 where s: "spec_slice_512 None ?c 0 ?rem = (ms0, q)"
    and it': "it' = it\<lparr>ssi_batch := absolutize ?p ms0 @ drop (length ms0) (ssi_batch it),
             ssi_n := length ms0, ssi_i := 0, ssi_pos := ?p + q\<rparr>"
    using assms(1) by (auto simp: refill_window_def Let_def split: prod.splits)
  show thesis
  proof (cases "?n < 2")
    case True
    then have "length ?c < 2" by (simp only: lc)
    then have "ms0 = []" "q = 0" using s by (simp_all only: spec_slice_512_cases prod.inject)
    moreover have "stream_walk ?b ?p = []" using True by (subst stream_walk.simps) auto
    ultimately show thesis using that [of "[]"] it' by simp
  next
    case False
    then have "\<not> length ?c < 2" by (simp only: lc not_False_eq_True)
    then have w: "spec_slice_scalar ?c ?rem 16 0 = (ms0, q)"
      using s by (metis spec_slice_512_cases(2))
    have chain: "stream_walk ?b ?p = absolutize ?p ms0 @ stream_walk ?b (?p + q)"
      using spec_slice_scalar_chain [OF fits w] by simp
    have q: "2 * length ms0 \<le> q" "ms0 = [] \<longrightarrow> q = 0" "length ms0 \<le> 16"
      using spec_slice_scalar_pos [OF w] by auto
    have stuck: "stream_walk ?b ?p = []" if "q = 0"
    proof -
      from that q(1) have "ms0 = []" by simp
      then have "?rem < 2 + unat (be16 ?c 0)"
        using spec_slice_scalar_stuck [of ?c ?rem 15 q] w False lc by simp
      moreover have "be16 ?c 0 = be16 ?b ?p" using be16_slice [of ?p 0 "?p + ?n" ?b] False fits by simp
      ultimately show ?thesis by (subst stream_walk.simps) auto
    qed
    show thesis
    proof (rule that [of "absolutize ?p ms0"])
      show "it' = it\<lparr>ssi_batch := absolutize ?p ms0 @ drop (length (absolutize ?p ms0)) (ssi_batch it),
        ssi_n := length (absolutize ?p ms0), ssi_i := 0, ssi_pos := ?p + q\<rparr>"
        by (simp add: it')
      show "stream_walk ?b ?p = absolutize ?p ms0 @ stream_walk ?b (?p + q)" by (rule chain)
      show "length (absolutize ?p ms0) \<le> 16" "2 * length (absolutize ?p ms0) \<le> q"
        using q by simp_all
      show "q = 0 \<Longrightarrow> stream_walk ?b ?p = []" by (rule stuck)
      show "q \<noteq> 0 \<Longrightarrow> absolutize ?p ms0 \<noteq> []" using q(2) by (cases ms0) simp_all
    qed
  qed
qed

text \<open>What an iterator still has to yield.\<close>

definition ssi_pending :: "SpecSliceIter \<Rightarrow> SpecMsg list" where
  "ssi_pending it = slice (ssi_i it) (ssi_n it) (ssi_batch it) @ stream_walk (ssi_buf it) (ssi_pos it)"

definition ssi_inv :: "SpecSliceIter \<Rightarrow> bool" where
  "ssi_inv it \<longleftrightarrow> length (ssi_batch it) = SPEC_SLICE_CAP \<and> ssi_n it \<le> SPEC_SLICE_CAP \<and>
     (ssi_done it \<longrightarrow> stream_walk (ssi_buf it) (ssi_pos it) = [])"

lemma stream_walk_past: "length buf \<le> p \<Longrightarrow> stream_walk buf p = []"
  by (subst stream_walk.simps) simp

lemma refill_pending:
  "refill None it = (it', got) \<Longrightarrow> ssi_inv it \<Longrightarrow>
     ssi_inv it' \<and> ssi_pending it' = ssi_pending it \<and> (got \<longleftrightarrow> ssi_i it' < ssi_n it') \<and>
     (\<not> got \<longrightarrow> ssi_pending it = [])"
proof (induction "None :: SpecTableBuilder option" it arbitrary: it' got rule: refill.induct)
  case (1 it)
  consider (avail) "ssi_i it < ssi_n it"
    | (stop) "\<not> ssi_i it < ssi_n it" "ssi_done it \<or> length (ssi_buf it) \<le> ssi_pos it"
    | (window) "\<not> ssi_i it < ssi_n it" "\<not> (ssi_done it \<or> length (ssi_buf it) \<le> ssi_pos it)"
    by blast
  then show ?case
  proof cases
    case avail
    then show ?thesis using "1.prems" by (subst (asm) refill.simps) auto
  next
    case stop
    then have "stream_walk (ssi_buf it) (ssi_pos it) = []"
      using "1.prems"(2) by (auto simp: ssi_inv_def stream_walk_past)
    with stop show ?thesis using "1.prems"
      by (subst (asm) refill.simps) (auto simp: ssi_inv_def ssi_pending_def slice_def)
  next
    case window
    obtain it2 q where rw: "refill_window None it = (it2, q)" by fastforce
    have "ssi_pos it < length (ssi_buf it)" "length (ssi_batch it) = SPEC_SLICE_CAP"
      using window "1.prems"(2) by (auto simp: ssi_inv_def)
    from refill_window_chain [OF rw this] obtain ms where
      it2: "it2 = it\<lparr>ssi_batch := ms @ drop (length ms) (ssi_batch it),
        ssi_n := length ms, ssi_i := 0, ssi_pos := ssi_pos it + q\<rparr>"
      and walk: "stream_walk (ssi_buf it) (ssi_pos it) = ms @ stream_walk (ssi_buf it) (ssi_pos it + q)"
      and len: "length ms \<le> SPEC_SLICE_CAP"
      and q0: "q = 0 \<Longrightarrow> stream_walk (ssi_buf it) (ssi_pos it) = []"
      by metis
    have old: "ssi_pending it = stream_walk (ssi_buf it) (ssi_pos it)"
      using window by (simp add: ssi_pending_def slice_def)
    have new: "ssi_pending it2 = stream_walk (ssi_buf it) (ssi_pos it)"
      by (simp add: it2 ssi_pending_def slice_def walk)
    have inv2: "ssi_inv it2" using "1.prems"(2) len window by (simp add: it2 ssi_inv_def)
    show ?thesis
    proof (cases "q = 0")
      case True
      then have "it' = it2\<lparr>ssi_n := 0, ssi_done := True\<rparr>" "\<not> got"
        using "1.prems"(1) window rw by (subst (asm) refill.simps, simp)+
      then show ?thesis using q0 [OF True] inv2 old True
        by (simp add: it2 ssi_inv_def ssi_pending_def slice_def)
    next
      case False
      then have "refill None it2 = (it', got)"
        using "1.prems"(1) window rw by (subst (asm) refill.simps) simp
      with "1.hyps" [of it' got] window False rw inv2 old new show ?thesis by simp
    qed
  qed
qed

lemma next_pending:
  assumes "ssi_inv it"
  shows "SpecSliceIter_next None it = (it', None) \<Longrightarrow> ssi_pending it = []"
    and "SpecSliceIter_next None it = (it', Some m) \<Longrightarrow>
      ssi_pending it = m # ssi_pending it' \<and> ssi_inv it'"
proof -
  obtain it2 got where r: "(if ssi_n it \<le> ssi_i it then refill None it else (it, True)) = (it2, got)"
    by fastforce
  have r': "ssi_inv it2 \<and> ssi_pending it2 = ssi_pending it \<and> (got \<longleftrightarrow> ssi_i it2 < ssi_n it2) \<and>
     (\<not> got \<longrightarrow> ssi_pending it = [])"
    using r assms refill_pending [of it it2 got] by (auto split: if_splits)
  show "ssi_pending it = []" if "SpecSliceIter_next None it = (it', None)"
    using that r r' by (simp add: SpecSliceIter_next_def split: if_splits)
  show "ssi_pending it = m # ssi_pending it' \<and> ssi_inv it'"
    if "SpecSliceIter_next None it = (it', Some m)"
  proof -
    have m: "got" "it' = it2\<lparr>ssi_i := ssi_i it2 + 1\<rparr>" "m = ssi_batch it2 ! ssi_i it2"
      using that r by (auto simp: SpecSliceIter_next_def split: if_splits)
    have "slice (ssi_i it2) (ssi_n it2) (ssi_batch it2)
        = m # slice (Suc (ssi_i it2)) (ssi_n it2) (ssi_batch it2)"
      using r' m by (intro nth_equalityI)
        (auto simp: ssi_inv_def nth_slice nth_Cons split: nat.splits)
    then show ?thesis using r' m by (auto simp: ssi_pending_def ssi_inv_def)
  qed
qed

lemma spec_collect_pending:
  "ssi_inv it \<Longrightarrow> length (ssi_pending it) < fuel \<Longrightarrow> spec_collect None fuel it = Some (ssi_pending it)"
proof (induction fuel arbitrary: it)
  case 0
  then show ?case by simp
next
  case (Suc fuel)
  obtain it' r where n: "SpecSliceIter_next None it = (it', r)" by fastforce
  show ?case
  proof (cases r)
    case None
    then show ?thesis using next_pending(1) [OF Suc.prems(1)] n by simp
  next
    case (Some m)
    then have "ssi_pending it = m # ssi_pending it'" "ssi_inv it'"
      using next_pending(2) [OF Suc.prems(1)] n by auto
    then show ?thesis using Suc n Some by simp
  qed
qed

lemma length_stream_walk: "p \<le> length buf \<Longrightarrow> 2 * length (stream_walk buf p) \<le> length buf - p"
proof (induction buf p rule: stream_walk.induct)
  case (1 buf p)
  then show ?case by (subst stream_walk.simps) auto
qed

lemma new_pending:
  "ssi_inv (SpecSliceIter_new buf)" "ssi_pending (SpecSliceIter_new buf) = stream_walk buf 0"
  by (auto simp: SpecSliceIter_new_def ssi_inv_def ssi_pending_def slice_def stream_walk_past)

lemma spec_collect_stream:
  "spec_collect None (Suc (length buf)) (SpecSliceIter_new buf) = Some (stream_walk buf 0)"
  using spec_collect_pending [OF new_pending(1), of buf "Suc (length buf)"] length_stream_walk [of 0 buf]
  by (simp add: new_pending)

section \<open>The vector path\<close>

text \<open>
  The contract of an injected builder: the big-endian lane tables agree with the window
  on every lane whose two bytes are real.  Under it the register-table walk is the
  scalar walk, so everything above holds of the vector path.
\<close>

locale spec_table_builder =
  fixes build :: SpecTableBuilder
  assumes e_tab: "length chunk \<le> 64 \<Longrightarrow> 2 * j + 1 < length chunk \<Longrightarrow>
      fst (build chunk) ! j = be16 chunk (2 * j)"
    and o_tab: "length chunk \<le> 64 \<Longrightarrow> 2 * j + 2 < length chunk \<Longrightarrow>
      snd (build chunk) ! j = be16 chunk (2 * j + 1)"
begin

lemma walk_scalar:
  assumes "length chunk \<le> 64"
  shows "spec_slice_walk (fst (build chunk)) (snd (build chunk)) (length chunk) limit room p
    = spec_slice_scalar chunk limit room p"
proof (induction room arbitrary: p)
  case 0
  then show ?case by simp
next
  case (Suc room)
  have "(if p mod 2 = 0 then fst (build chunk) ! (p div 2) else snd (build chunk) ! (p div 2))
      = be16 chunk p" if "p + 2 \<le> length chunk"
  proof (cases "p mod 2 = 0")
    case True
    then show ?thesis using e_tab [OF assms, of "p div 2"] that by auto
  next
    case False
    then have "2 * (p div 2) + 1 = p" by (metis add.commute mult_div_mod_eq not_mod_2_eq_0_eq_1)
    then show ?thesis using False o_tab [OF assms, of "p div 2"] that by simp
  qed
  then show ?case by (simp add: Suc.IH Let_def cong: if_cong)
qed

lemma slice_512_vec:
  "length chunk \<le> 64 \<Longrightarrow> spec_slice_512 (Some build) chunk start limit = spec_slice_512 None chunk start limit"
  by (simp add: spec_slice_512_def walk_scalar split: prod.split) (metis fst_conv snd_conv walk_scalar)

lemma refill_window_vec: "refill_window (Some build) it = refill_window None it"
proof -
  have "length (slice (ssi_pos it) (ssi_pos it + min (length (ssi_buf it) - ssi_pos it) 64) (ssi_buf it)) \<le> 64"
    by (simp add: slice_def)
  from slice_512_vec [OF this] show ?thesis by (simp only: refill_window_def Let_def)
qed

lemma refill_vec: "refill (Some build) it = refill None it"
proof (induction "None :: SpecTableBuilder option" it rule: refill.induct)
  case (1 it)
  then show ?case
    by (subst refill.simps, subst (2) refill.simps) (simp add: refill_window_vec)
qed

lemma collect_vec: "spec_collect (Some build) fuel it = spec_collect None fuel it"
proof -
  have "SpecSliceIter_next (Some build) = SpecSliceIter_next None"
    by (intro ext) (simp add: SpecSliceIter_next_def refill_vec)
  then show ?thesis by (induction fuel arbitrary: it) (simp_all split: prod.split option.split)
qed

lemma collect_stream:
  "spec_collect (Some build) (Suc (length buf)) (SpecSliceIter_new buf) = Some (stream_walk buf 0)"
  by (simp only: collect_vec spec_collect_stream)

end

text \<open>
  \<open>spec_slice_vec_tables_avx512\<close>: the zero-padded 66-byte window, its two 64-byte loads
  at offsets 0 and 1, the per-lane byte shuffle, and the little-endian store of the
  512-bit result into \<open>[u16; 32]\<close>.
\<close>

definition SPEC_BSWAP16 :: bytes where
  "SPEC_BSWAP16 = concat (replicate 4 [1, 0, 3, 2, 5, 4, 7, 6, 9, 8, 11, 10, 13, 12, 15, 14])"

definition mm512_shuffle_epi8 :: "bytes \<Rightarrow> bytes \<Rightarrow> bytes" where
  "mm512_shuffle_epi8 a idx =
     map (\<lambda>i. if bit (idx ! i) 7 then 0 else a ! (16 * (i div 16) + unat (idx ! i AND 15))) [0..<64]"

definition store_u16x32 :: "bytes \<Rightarrow> u16 list" where
  "store_u16x32 v = map (\<lambda>j. u16_from_be_bytes [v ! (2 * j + 1), v ! (2 * j)]) [0..<32]"

definition spec_slice_vec_tables_avx512 :: SpecTableBuilder where
  "spec_slice_vec_tables_avx512 chunk =
     (let win = chunk @ replicate (66 - length chunk) 0;
          v = slice 0 64 win;
          v1 = slice 1 65 win
      in (store_u16x32 (mm512_shuffle_epi8 v SPEC_BSWAP16),
          store_u16x32 (mm512_shuffle_epi8 v1 SPEC_BSWAP16)))"

lemma bswap16_swaps:
  "list_all (\<lambda>i. \<not> bit (SPEC_BSWAP16 ! i) 7 \<and>
     16 * (i div 16) + unat (SPEC_BSWAP16 ! i AND 15) = (if even i then i + 1 else i - 1)) [0..<64]"
  by code_simp

lemma shuffle_bswap16_nth:
  assumes "i < 64"
  shows "mm512_shuffle_epi8 a SPEC_BSWAP16 ! i = a ! (if even i then i + 1 else i - 1)"
proof -
  have "\<not> bit (SPEC_BSWAP16 ! i) 7 \<and>
     16 * (i div 16) + unat (SPEC_BSWAP16 ! i AND 15) = (if even i then i + 1 else i - 1)"
    using bswap16_swaps assms by (simp only: list_all_iff) auto
  then show ?thesis using assms by (simp only: mm512_shuffle_epi8_def) simp
qed

lemma store_bswap16_nth:
  "j < 32 \<Longrightarrow> store_u16x32 (mm512_shuffle_epi8 a SPEC_BSWAP16) ! j = be16 a (2 * j)"
  by (simp add: store_u16x32_def be16_def shuffle_bswap16_nth)

interpretation avx512: spec_table_builder spec_slice_vec_tables_avx512
proof
  fix chunk :: bytes and j
  assume l: "length chunk \<le> 64" and j: "2 * j + 1 < length chunk"
  then have "fst (spec_slice_vec_tables_avx512 chunk) ! j
      = be16 (slice 0 64 (chunk @ replicate (66 - length chunk) 0)) (2 * j)"
    by (simp add: spec_slice_vec_tables_avx512_def Let_def store_bswap16_nth)
  with l j show "fst (spec_slice_vec_tables_avx512 chunk) ! j = be16 chunk (2 * j)"
    by (simp add: be16_def nth_slice nth_append)
next
  fix chunk :: bytes and j
  assume l: "length chunk \<le> 64" and j: "2 * j + 2 < length chunk"
  then have "snd (spec_slice_vec_tables_avx512 chunk) ! j
      = be16 (slice 1 65 (chunk @ replicate (66 - length chunk) 0)) (2 * j)"
    by (simp add: spec_slice_vec_tables_avx512_def Let_def store_bswap16_nth)
  with l j show "snd (spec_slice_vec_tables_avx512 chunk) ! j = be16 chunk (2 * j + 1)"
    by (simp add: be16_def nth_slice nth_append)
qed

section \<open>The affine fold\<close>

lemma rotate_left64_rotate: "rotate_left64 (rotate_left64 x m) n = rotate_left64 x (m + n)"
proof -
  have "word_rotr m (word_rotr n (word_rotl (m + n) x)) = x"
    by (simp add: word_rotr_word_rotr_eq)
  then show ?thesis unfolding rotate_left64_def by (metis word_rot_rl)
qed

lemma rotate_left64_mod: "rotate_left64 x (n mod 64) = rotate_left64 x n"
  by (simp add: rotate_left64_def word_rotl_eq_word_rotr)

lemma rotate_left64_xor: "rotate_left64 (x XOR y) n = rotate_left64 x n XOR rotate_left64 y n"
  by (simp add: rotate_left64_def word_rot_logs)

lemma rotate_left64_0 [simp]: "rotate_left64 x 0 = x"
  by (rule bit_word_eqI) (simp add: rotate_left64_def bit_word_rotl_iff)

definition len_step :: "u64 \<Rightarrow> u16 \<Rightarrow> u64" where
  "len_step acc l = rotate_left64 acc 7 XOR ucast l"

lemma xor_lens_fold:
  "i + length ls = k \<Longrightarrow> xor_lens k i ls (rotate_left64 acc (7 * length ls)) = foldl len_step acc ls"
proof (induction ls arbitrary: i acc)
  case Nil
  then show ?case by simp
next
  case (Cons l ls)
  have "k - 1 - i = length ls" using Cons.prems by simp
  then have "rotate_left64 acc (7 * length (l # ls)) XOR rotate_left64 (ucast l) (7 * (k - 1 - i) mod 64)
      = rotate_left64 (len_step acc l) (7 * length ls)"
    by (simp add: rotate_left64_mod len_step_def rotate_left64_xor rotate_left64_rotate)
  then show ?case using Cons.IH [of "Suc i" "len_step acc l"] Cons.prems by simp
qed

lemma affine_batch_fold_eq: "affine_batch_fold acc lens = foldl len_step acc lens"
  using xor_lens_fold [of 0 lens "length lens" acc]
  by (simp add: affine_batch_fold_def rotate_left64_mod)

lemma ingest_boundary_batch_walk:
  "ingest_boundary_batch payload room p = (lens, q, t) \<Longrightarrow>
     map sm_len (stream_walk payload p) = lens @ map sm_len (stream_walk payload q) \<and>
     (t \<longrightarrow> stream_walk payload q = [])"
proof (induction payload room p arbitrary: lens q t rule: ingest_boundary_batch.induct)
  case (1 payload p)
  have "p + 2 \<le> length payload \<and> length payload < p + 2 + unat (be16 payload p)
      \<Longrightarrow> stream_walk payload p = []"
    by (subst stream_walk.simps) simp
  with 1 show ?case by auto
next
  case (2 payload room p)
  consider "\<not> p + 2 \<le> length payload"
    | "p + 2 \<le> length payload" "length payload < p + 2 + unat (be16 payload p)"
    | "p + 2 + unat (be16 payload p) \<le> length payload"
    by linarith
  then show ?case
  proof cases
    case 1
    then show ?thesis using "2.prems" by auto
  next
    case 2
    then have "stream_walk payload p = []" by (subst stream_walk.simps) simp
    with 2 show ?thesis using "2.prems" by auto
  next
    case 3
    then obtain lens' where l: "lens = be16 payload p # lens'"
      and r: "ingest_boundary_batch payload room (p + 2 + unat (be16 payload p)) = (lens', q, t)"
      using "2.prems" by (auto split: prod.splits)
    have "map sm_len (stream_walk payload (p + 2 + unat (be16 payload p)))
        = lens' @ map sm_len (stream_walk payload q) \<and> (t \<longrightarrow> stream_walk payload q = [])"
      by (rule "2.IH" [OF _ _ r]) (use 3 in auto)
    then show ?thesis using 3 l by (subst stream_walk.simps) auto
  qed
qed

lemma spec_slice_ingest_loop_fold:
  "spec_slice_ingest_loop payload p acc count =
     (foldl len_step acc (map sm_len (stream_walk payload p)),
      count + of_nat (length (stream_walk payload p)))"
proof (induction payload p acc count rule: spec_slice_ingest_loop.induct)
  case (1 payload p acc count)
  show ?case
  proof (cases "p + 2 \<le> length payload")
    case False
    then show ?thesis
      by (subst spec_slice_ingest_loop.simps, subst (1 2) stream_walk.simps) simp
  next
    case True
    obtain lens q t where b: "ingest_boundary_batch payload 16 p = (lens, q, t)" by (metis prod_cases3)
    have w: "map sm_len (stream_walk payload p) = lens @ map sm_len (stream_walk payload q)"
      "t \<longrightarrow> stream_walk payload q = []"
      using ingest_boundary_batch_walk [OF b] by auto
    from arg_cong [OF w(1), of length]
    have n: "length (stream_walk payload p) = length lens + length (stream_walk payload q)" by simp
    show ?thesis
    proof (cases t)
      case True
      then show ?thesis using \<open>p + 2 \<le> length payload\<close> b w n
        by (subst spec_slice_ingest_loop.simps) (simp add: affine_batch_fold_eq)
    next
      case False
      then show ?thesis using \<open>p + 2 \<le> length payload\<close> b w n
          "1.IH" [OF True b [symmetric] refl False]
        by (subst spec_slice_ingest_loop.simps) (simp add: affine_batch_fold_eq)
    qed
  qed
qed

section \<open>Properties\<close>

text \<open>C26: the speculative slicer yields, on every byte string and with either walk, exactly
  the messages of the sequential length-prefix walk, and ends within one call per message;
  the register-table walk over the AVX-512 tables is bit-identical to the scalar walk.\<close>

theorem spec_iter_stream:
  "spec_collect None (Suc (length payload)) (SpecSliceIter_new payload) = Some (stream_walk payload 0) \<and>
   spec_collect (Some spec_slice_vec_tables_avx512) (Suc (length payload)) (SpecSliceIter_new payload)
     = Some (stream_walk payload 0)"
  by (simp only: spec_collect_stream avx512.collect_stream)

text \<open>The batched affine fold returns the number of messages of the sequential walk and
  leaves in the sink the serial recursion \<open>acc = rotl(acc, 7) ^ len\<close> over their lengths.\<close>

theorem spec_slice_ingest_serial:
  "spec_slice_ingest payload sink =
     (of_nat (length (stream_walk payload 0)),
      foldl (\<lambda>acc m. rotate_left64 acc 7 XOR ucast (sm_len m)) sink (stream_walk payload 0))"
proof -
  have "stream_walk payload 0 = []" if "length payload < 2"
    using that by (subst stream_walk.simps) simp
  then show ?thesis
    by (auto simp: spec_slice_ingest_def spec_slice_ingest_loop_fold foldl_map len_step_def)
qed

lemma stream_walk_mold:
  assumes "length pre + length (mold_body ms) < 2 ^ 32" "\<forall>m \<in> set ms. length m < 65536"
  shows "map (\<lambda>d. slice (unat (sm_off d)) (unat (sm_off d) + unat (sm_len d)) (pre @ mold_body ms))
      (stream_walk (pre @ mold_body ms) (length pre)) = ms"
  using assms
proof (induction ms arbitrary: pre)
  case Nil
  then show ?case by (simp add: stream_walk_past)
next
  case (Cons m ms)
  let ?buf = "pre @ mold_block m @ mold_body ms"
  have l: "be16 ?buf (length pre) = u16_from_be_bytes
      [(mold_block m @ mold_body ms) ! 0, (mold_block m @ mold_body ms) ! 1]"
    by (simp add: be16_def nth_append)
  have len: "unat (be16 ?buf (length pre)) = length m"
    unfolding l using Cons.prems(2) by (intro mold_block_prefix) simp
  have w: "stream_walk ?buf (length pre) =
      \<lparr>sm_off = of_nat (length pre + 2), sm_len = be16 ?buf (length pre)\<rparr>
      # stream_walk ?buf (length pre + 2 + length m)"
    by (subst stream_walk.simps) (simp add: len)
  have off: "unat (of_nat (length pre + 2) :: u32) = length pre + 2"
    by (rule unat_of_nat_u32) (use Cons.prems(1) in simp)
  have "slice (length pre + 2) (length pre + 2 + length m)
      ((pre @ u16_to_be_bytes (of_nat (length m))) @ m @ mold_body ms) = m"
    by (rule slice_append_at) simp_all
  then have hd: "slice (length pre + 2) (length pre + 2 + length m) ?buf = m"
    by (simp add: mold_block_def)
  have "map (\<lambda>d. slice (unat (sm_off d)) (unat (sm_off d) + unat (sm_len d)) ((pre @ mold_block m) @ mold_body ms))
      (stream_walk ((pre @ mold_block m) @ mold_body ms) (length (pre @ mold_block m))) = ms"
    using Cons.prems by (intro Cons.IH) simp_all
  then show ?case using w off len hd by (simp add: ac_simps del: of_nat_add)
qed

text \<open>On the body of a packet, the descriptors the slicer yields cut out exactly the
  packet's messages, in order.\<close>

theorem spec_iter_messages:
  assumes "length (mold_body ms) < 2 ^ 32" "\<forall>m \<in> set ms. length m < 65536"
  shows "map_option (map (\<lambda>d. slice (unat (sm_off d)) (unat (sm_off d) + unat (sm_len d)) (mold_body ms)))
      (spec_collect None (Suc (length (mold_body ms))) (SpecSliceIter_new (mold_body ms))) = Some ms"
  unfolding spec_collect_stream using stream_walk_mold [of "[]" ms] assms by simp

lemma spec_iter_messages_witness:
  "map_option (map (\<lambda>d. slice (unat (sm_off d)) (unat (sm_off d) + unat (sm_len d)) (mold_body [[7, 9], [], [1]])))
      (spec_collect None (Suc (length (mold_body [[7, 9], [], [1]])))
        (SpecSliceIter_new (mold_body [[7, 9], [], [1]]))) = Some [[7, 9], [], [1]]"
  by (rule spec_iter_messages) simp_all

end
