(* ===== verification/SegmentFold.thy ===== *)
theory SegmentFold
  imports SpecSlice
begin

text \<open>
  The composable span fold (\<open>crates/nf-testkit/src/sink.rs\<close>): one step of the ordered hash, the
  composite record of a segment, and the tree that folds segments pairwise in place.  Locale
  \<open>segment_semigroup\<close> is what the in-place tree needs of composable records, an associative
  composition; \<open>segment_algebra\<close> adds a unit and an action on states.  The algebra is interpreted
  on the rotation records of the code; the tree is proved once for the contract.
\<close>

section \<open>The fold\<close>

definition FOLD_MIX_P :: u64 where "FOLD_MIX_P = 0x9e3779b97f4a7c15"

definition FOLD_ROT :: u32 where "FOLD_ROT = 13"

definition fold_term :: "u64 \<Rightarrow> u64" where
  "fold_term v = v * FOLD_MIX_P"

text \<open>The loop over the terms; \<open>k\<close> is their number and \<open>i\<close> the next index.\<close>

fun compose_terms :: "u32 \<Rightarrow> nat \<Rightarrow> u64 list \<Rightarrow> u64 \<Rightarrow> u64" where
  "compose_terms k i [] b = b"
| "compose_terms k i (u # us) b =
     compose_terms k (Suc i) us (b XOR rotate_left64 u (unat ((FOLD_ROT * (k - 1 - of_nat i)) mod 64)))"

definition fold_compose_b :: "u64 list \<Rightarrow> u64" where
  "fold_compose_b terms = compose_terms (of_nat (length terms)) 0 terms 0"

definition fold_compose_apply :: "u64 \<Rightarrow> u32 \<Rightarrow> u64 \<Rightarrow> u64" where
  "fold_compose_apply h k b = rotate_left64 h (unat ((FOLD_ROT * k) mod 64)) XOR b"

definition fold_step :: "u64 \<Rightarrow> u64 \<Rightarrow> u64" where
  "fold_step h v = rotate_left64 h (unat FOLD_ROT) XOR fold_term v"

definition seg_compose :: "u32 \<times> u64 \<Rightarrow> u32 \<times> u64 \<Rightarrow> u32 \<times> u64" where
  "seg_compose a b = (fst a + fst b, rotate_left64 (snd a) (unat ((FOLD_ROT * fst b) mod 64)) XOR snd b)"

section \<open>The tree\<close>

text \<open>One level: the stride is \<open>2 ^ j\<close>, which is never zero.\<close>

function sweep_level :: "nat \<Rightarrow> nat \<Rightarrow> u32 list \<Rightarrow> u64 list \<Rightarrow> u32 list \<times> u64 list" where
  "sweep_level j i k b =
     (if i + 2 ^ j < length k
      then let kb = k ! (i + 2 ^ j); ba = b ! i; bb = b ! (i + 2 ^ j)
           in sweep_level j (i + 2 ^ Suc j) (k[i := k ! i + kb])
                (b[i := rotate_left64 ba (unat ((FOLD_ROT * kb) mod 64)) XOR bb])
      else (k, b))"
  by pat_completeness auto
termination sweep_level
proof (relation "measure (\<lambda>(j, i, k, b). length k - i)")
  fix j i and k :: "u32 list" and b :: "u64 list" and kb :: u32 and ba bb :: u64
  assume "i + 2 ^ j < length k"
  moreover have "0 < (2::nat) ^ j" by simp
  ultimately have "length k - (i + 2 ^ Suc j) < length k - i" unfolding power_Suc by linarith
  then show "((j, i + 2 ^ Suc j, k[i := k ! i + kb],
      b[i := rotate_left64 ba (unat ((FOLD_ROT * kb) mod 64)) XOR bb]), (j, i, k, b))
      \<in> measure (\<lambda>(j, i, k, b). length k - i)" by simp
qed simp

declare sweep_level.simps [simp del]

lemma sweep_level_length [simp]:
  "length (fst (sweep_level j i k b)) = length k" "length (snd (sweep_level j i k b)) = length b"
  by (induction j i k b rule: sweep_level.induct) (subst sweep_level.simps, simp add: Let_def)+

function sweep_up :: "nat \<Rightarrow> u32 list \<Rightarrow> u64 list \<Rightarrow> u32 list \<times> u64 list" where
  "sweep_up j k b =
     (if 2 ^ j < length k then let (k1, b1) = sweep_level j 0 k b in sweep_up (Suc j) k1 b1 else (k, b))"
  by pat_completeness auto
termination sweep_up
proof (relation "measure (\<lambda>(j, k, b). length k - 2 ^ j)")
  fix j k b k1 b1 and x :: "u32 list \<times> u64 list"
  assume j: "2 ^ j < length k" and x: "x = sweep_level j 0 k b" and p: "(k1, b1) = x"
  have l: "length k1 = length k" using sweep_level_length(1) [of j 0 k b] p unfolding x by (metis fst_conv)
  have "0 < (2::nat) ^ j" by simp
  then have "length k - 2 ^ Suc j < length k - 2 ^ j" using j unfolding power_Suc by linarith
  then show "((Suc j, k1, b1), (j, k, b)) \<in> measure (\<lambda>(j, k, b). length k - 2 ^ j)" using l by simp
qed simp

declare sweep_up.simps [simp del]

definition tree_fold_segments :: "u32 list \<Rightarrow> u64 list \<Rightarrow> u32 \<times> u64" where
  "tree_fold_segments k b =
     (let n = length k
      in if n = 0 then (0, 0)
         else if n = 1 then (k ! 0, b ! 0)
         else let (k1, b1) = sweep_up 0 k b in (k1 ! 0, b1 ! 0))"

section \<open>In-place trees\<close>

text \<open>The sweep over one array of records: at stride \<open>2 ^ j\<close> every second aligned entry absorbs its
  neighbour.\<close>

function sweep_list :: "('r \<Rightarrow> 'r \<Rightarrow> 'r) \<Rightarrow> nat \<Rightarrow> nat \<Rightarrow> 'r list \<Rightarrow> 'r list" where
  "sweep_list f j i r =
     (if i + 2 ^ j < length r then sweep_list f j (i + 2 ^ Suc j) (r[i := f (r ! i) (r ! (i + 2 ^ j))]) else r)"
  by pat_completeness auto
termination sweep_list
proof (relation "measure (\<lambda>(f, j, i, r). length r - i)")
  fix j i and r :: "'r list" and f :: "'r \<Rightarrow> 'r \<Rightarrow> 'r"
  assume "i + 2 ^ j < length r"
  moreover have "0 < (2::nat) ^ j" by simp
  ultimately have "length r - (i + 2 ^ Suc j) < length r - i" unfolding power_Suc by linarith
  then show "((f, j, i + 2 ^ Suc j, r[i := f (r ! i) (r ! (i + 2 ^ j))]), (f, j, i, r)) \<in> measure (\<lambda>(f, j, i, r). length r - i)"
    by simp
qed simp

declare sweep_list.simps [simp del]

lemma sweep_list_length [simp]: "length (sweep_list f j i r) = length r"
  by (induction f j i r rule: sweep_list.induct) (subst sweep_list.simps, simp)

function sweep_tree :: "('r \<Rightarrow> 'r \<Rightarrow> 'r) \<Rightarrow> nat \<Rightarrow> 'r list \<Rightarrow> 'r list" where
  "sweep_tree f j r = (if 2 ^ j < length r then sweep_tree f (Suc j) (sweep_list f j 0 r) else r)"
  by pat_completeness auto
termination sweep_tree
proof (relation "measure (\<lambda>(f, j, r). length r - 2 ^ j)")
  fix j and r :: "'r list" and f :: "'r \<Rightarrow> 'r \<Rightarrow> 'r"
  assume j: "2 ^ j < length r"
  have "0 < (2::nat) ^ j" by simp
  then have "length r - 2 ^ Suc j < length r - 2 ^ j" using j unfolding power_Suc by linarith
  then show "((f, Suc j, sweep_list f j 0 r), (f, j, r)) \<in> measure (\<lambda>(f, j, r). length r - 2 ^ j)" by simp
qed simp

declare sweep_tree.simps [simp del]

lemma sweep_tree_length [simp]: "length (sweep_tree f j r) = length r"
  by (induction f j r rule: sweep_tree.induct) (subst sweep_tree.simps, simp)

lemma sweep_list_nth:
  assumes "2 * 2 ^ j dvd i" "m < length r"
  shows "sweep_list f j i r ! m
    = (if i \<le> m \<and> 2 * 2 ^ j dvd m \<and> m + 2 ^ j < length r then f (r ! m) (r ! (m + 2 ^ j)) else r ! m)"
  using assms
proof (induction f j i r rule: sweep_list.induct)
  case (1 f j i r)
  show ?case
  proof (cases "i + 2 ^ j < length r")
    case False
    then show ?thesis by (subst sweep_list.simps) auto
  next
    case True
    let ?r = "r[i := f (r ! i) (r ! (i + 2 ^ j))]"
    have d: "2 * 2 ^ j dvd i + 2 ^ Suc j" using 1(2) by simp
    have ih: "sweep_list f j (i + 2 ^ Suc j) ?r ! m
      = (if i + 2 ^ Suc j \<le> m \<and> 2 * 2 ^ j dvd m \<and> m + 2 ^ j < length r then f (?r ! m) (?r ! (m + 2 ^ j)) else ?r ! m)"
      using 1(1) [OF True d] 1(3) by simp
    have s: "sweep_list f j i r = sweep_list f j (i + 2 ^ Suc j) ?r" using True by (subst sweep_list.simps) simp
    have next_stride: "i + 2 ^ Suc j \<le> m" if "i < m" "2 * 2 ^ j dvd m"
    proof -
      have "2 * 2 ^ j dvd m - i" using that 1(2) by (simp add: dvd_diff_nat)
      then show ?thesis using that(1) dvd_imp_le [of "2 * 2 ^ j" "m - i"] by simp
    qed
    have pos: "0 < (2::nat) ^ j" by simp
    consider "m = i" | "i < m" "2 * 2 ^ j dvd m" | "m < i" | "i < m" "\<not> 2 * 2 ^ j dvd m" by linarith
    then show ?thesis
    proof cases
      case 2
      then show ?thesis unfolding s ih using next_stride [OF 2] by simp
    qed (unfold s ih, use True 1(2,3) in simp_all)
  qed
qed

section \<open>Composable records\<close>

locale segment_semigroup =
  fixes comp :: "'r \<Rightarrow> 'r \<Rightarrow> 'r"
  assumes assoc: "comp (comp a b) c = comp a (comp b c)"
begin

text \<open>The composite of a non-empty list.\<close>

fun joined :: "'r list \<Rightarrow> 'r" where
  "joined [] = undefined"
| "joined [x] = x"
| "joined (x # y # ys) = comp x (joined (y # ys))"

lemma joined_Cons: "xs \<noteq> [] \<Longrightarrow> joined (x # xs) = comp x (joined xs)"
  by (cases xs) simp_all

lemma joined_append: "xs \<noteq> [] \<Longrightarrow> ys \<noteq> [] \<Longrightarrow> joined (xs @ ys) = comp (joined xs) (joined ys)"
proof (induction xs)
  case (Cons x xs)
  then show ?case by (cases "xs = []") (simp_all add: joined_Cons assoc)
qed simp

lemma joined_foldl: "joined (x # xs) = foldl comp x xs"
proof (induction xs rule: rev_induct)
  case (snoc y ys)
  then show ?case using joined_append [of "x # ys" "[y]"] by simp
qed simp

text \<open>An array in which every index that is a multiple of the stride holds the composite of its stretch
  of leaves.\<close>

definition level_ok :: "'r list \<Rightarrow> nat \<Rightarrow> 'r list \<Rightarrow> bool" where
  "level_ok leaves s xs \<longleftrightarrow> length xs = length leaves \<and>
     (\<forall>i < length leaves. s dvd i \<longrightarrow> xs ! i = joined (take s (drop i leaves)))"

lemma level_start: "level_ok xs 1 xs"
  by (simp add: level_ok_def take_Suc hd_drop_conv_nth)

lemma level_end: "level_ok leaves s xs \<Longrightarrow> leaves \<noteq> [] \<Longrightarrow> length leaves \<le> s \<Longrightarrow> xs ! 0 = joined leaves"
  by (simp add: level_ok_def)

text \<open>One level doubles the stride.\<close>

lemma level_double:
  assumes "level_ok leaves s xs" "length ys = length xs" "0 < s"
    and "\<And>i. i < length xs \<Longrightarrow> 2 * s dvd i \<Longrightarrow> ys ! i = (if i + s < length xs then comp (xs ! i) (xs ! (i + s)) else xs ! i)"
  shows "level_ok leaves (2 * s) ys"
  unfolding level_ok_def
proof (intro conjI allI impI)
  show l: "length ys = length leaves" using assms(1,2) by (simp add: level_ok_def)
  fix i
  assume i: "i < length leaves" "2 * s dvd i"
  have s: "s dvd i" "s dvd i + s" using i(2) dvd_mult_right [of 2 s i] by simp_all
  have n: "length xs = length leaves" using assms(1) by (simp add: level_ok_def)
  have two: "take (2 * s) (drop i leaves) = take s (drop i leaves) @ take s (drop (i + s) leaves)"
    using take_add [of s s "drop i leaves"] by (simp add: mult_2 add.commute)
  show "ys ! i = joined (take (2 * s) (drop i leaves))"
  proof (cases "i + s < length leaves")
    case True
    then have "take s (drop i leaves) \<noteq> []" "take s (drop (i + s) leaves) \<noteq> []" using i(1) assms(3) by simp_all
    then show ?thesis using assms(1) assms(4) [of i] True i s n unfolding two by (simp add: joined_append level_ok_def)
  next
    case False
    then show ?thesis using assms(1) assms(4) [of i] i s n unfolding two by (simp add: level_ok_def)
  qed
qed

text \<open>The tree over any array leaves the composite of its leaves in front.\<close>

lemma sweep_tree_level: "level_ok leaves (2 ^ j) r \<Longrightarrow> leaves \<noteq> [] \<Longrightarrow> sweep_tree comp j r ! 0 = joined leaves"
proof (induction f \<equiv> "comp" j r rule: sweep_tree.induct)
  case (1 j r)
  have n: "length r = length leaves" using 1(2) by (simp add: level_ok_def)
  show ?case
  proof (cases "2 ^ j < length r")
    case False
    then show ?thesis using level_end [OF 1(2,3)] n by (subst sweep_tree.simps) simp
  next
    case True
    have "level_ok leaves (2 * 2 ^ j) (sweep_list comp j 0 r)"
      by (rule level_double [OF 1(2)]) (simp_all add: sweep_list_nth)
    then show ?thesis using 1(1) [OF True] 1(3) True by (subst sweep_tree.simps) simp
  qed
qed

lemma sweep_tree_joined: "r \<noteq> [] \<Longrightarrow> sweep_tree comp 0 r ! 0 = joined r"
  using sweep_tree_level [of r 0 r] level_start [of r] by simp

end

locale segment_algebra = segment_semigroup comp for comp :: "'r \<Rightarrow> 'r \<Rightarrow> 'r" +
  fixes unit :: 'r and act :: "'s \<Rightarrow> 'r \<Rightarrow> 's"
  assumes unit_left: "comp unit a = a"
    and unit_right: "comp a unit = a"
    and act_unit: "act h unit = h"
    and act_comp: "act h (comp a b) = act (act h a) b"
begin

definition total_of :: "'r list \<Rightarrow> 'r" where
  "total_of xs = foldr comp xs unit"

lemma total_of_simps [simp]: "total_of [] = unit" "total_of (x # xs) = comp x (total_of xs)"
  by (simp_all add: total_of_def)

lemma total_joined: "xs \<noteq> [] \<Longrightarrow> joined xs = total_of xs"
  by (induction xs rule: joined.induct) (simp_all add: unit_right)

lemma act_total: "act h (total_of xs) = foldl act h xs"
  by (induction xs arbitrary: h) (simp_all add: act_unit act_comp)

end

section \<open>The records of the code\<close>

lemma rot_mod: "unat ((x :: u32) mod 64) = unat x mod 64"
  by (simp add: unat_mod)

lemma rotate_word: "rotate_left64 h (unat ((FOLD_ROT * k) mod 64)) = rotate_left64 h (13 * unat k)"
proof -
  have "unat (FOLD_ROT * k) mod 64 = 13 * unat k mod 64"
    by (simp add: FOLD_ROT_def unat_word_ariths(2) mod_mod_cancel)
  then show ?thesis by (metis rot_mod rotate_left64_mod)
qed

lemma rotate_add: "rotate_left64 h (13 * unat (a + b :: u32)) = rotate_left64 (rotate_left64 h (13 * unat a)) (13 * unat b)"
proof -
  have "13 * unat (a + b) mod 64 = (13 * unat a + 13 * unat b) mod 64"
  proof -
    have "unat (a + b) mod 64 = (unat a + unat b) mod 64"
      by (simp add: unat_word_ariths(1) mod_mod_cancel)
    then show ?thesis by (metis distrib_left mod_mult_right_eq)
  qed
  then show ?thesis unfolding rotate_left64_rotate by (metis rotate_left64_mod)
qed

interpretation segments: segment_algebra seg_compose "(0, 0)" "\<lambda>h r. fold_compose_apply h (fst r) (snd r)"
proof unfold_locales
  show "seg_compose (seg_compose a b) c = seg_compose a (seg_compose b c)" for a b c
    by (simp add: seg_compose_def rotate_word rotate_add rotate_left64_xor ac_simps)
  show "seg_compose (0, 0) a = a" for a
    by (cases a) (simp add: seg_compose_def rotate_left64_def)
  show "seg_compose a (0, 0) = a" for a
    by (cases a) (simp add: seg_compose_def rotate_word)
  show "fold_compose_apply h (fst (0, 0)) (snd (0, 0)) = h" for h
    by (simp add: fold_compose_apply_def rotate_word)
  show "fold_compose_apply h (fst (seg_compose a b)) (snd (seg_compose a b))
      = fold_compose_apply (fold_compose_apply h (fst a) (snd a)) (fst b) (snd b)" for h a b
    by (simp add: fold_compose_apply_def seg_compose_def rotate_word rotate_add rotate_left64_xor ac_simps)
qed

section \<open>The tree computes the composite\<close>

text \<open>The two columns as a list of records.\<close>

abbreviation columns :: "u32 list \<times> u64 list \<Rightarrow> (u32 \<times> u64) list" where
  "columns kb \<equiv> zip (fst kb) (snd kb)"

lemma sweep_level_step: 
  assumes "i + 2 ^ j < length k" "length b = length k"
  shows "sweep_level j i k b = (let r = seg_compose (zip k b ! i) (zip k b ! (i + 2 ^ j))
    in sweep_level j (i + 2 ^ Suc j) (k[i := fst r]) (b[i := snd r]))"
  using assms by (subst sweep_level.simps) (simp add: Let_def seg_compose_def)

lemma sweep_level_stop: "\<not> i + 2 ^ j < length k \<Longrightarrow> sweep_level j i k b = (k, b)"
  by (subst sweep_level.simps) simp

lemma sweep_level_columns:
  "length b = length k \<Longrightarrow> columns (sweep_level j i k b) = sweep_list seg_compose j i (zip k b)"
proof (induction j i k b rule: sweep_level.induct)
  case (1 j i k b)
  show ?case
  proof (cases "i + 2 ^ j < length k")
    case False
    then show ?thesis unfolding sweep_level_stop [OF False] using 1(2) by (subst sweep_list.simps) simp
  next
    case True
    define r where "r = seg_compose (zip k b ! i) (zip k b ! (i + 2 ^ j))"
    have r: "r = (k ! i + k ! (i + 2 ^ j),
        rotate_left64 (b ! i) (unat ((FOLD_ROT * k ! (i + 2 ^ j)) mod 64)) XOR b ! (i + 2 ^ j))"
      using True 1(2) by (simp add: r_def seg_compose_def)
    have z: "zip (k[i := fst r]) (b[i := snd r]) = (zip k b)[i := r]"
      by (cases r) (simp add: update_zip)
    have s: "sweep_level j i k b = sweep_level j (i + 2 ^ Suc j) (k[i := fst r]) (b[i := snd r])"
      unfolding sweep_level_step [OF True 1(2)] Let_def r_def ..
    have "columns (sweep_level j i k b) = sweep_list seg_compose j (i + 2 ^ Suc j) ((zip k b)[i := r])"
      using 1(1) [OF True refl refl refl] 1(2) unfolding s z [symmetric] by (simp add: r)
    then show ?thesis using True 1(2) by (subst sweep_list.simps) (simp add: r_def)
  qed
qed

lemma sweep_up_columns: "length b = length k \<Longrightarrow> columns (sweep_up j k b) = sweep_tree seg_compose j (zip k b)"
proof (induction j k b rule: sweep_up.induct)
  case (1 j k b)
  show ?case
  proof (cases "2 ^ j < length k")
    case False
    then show ?thesis using 1(2) by (simp add: sweep_up.simps [of j k b] sweep_tree.simps [of _ j "zip k b"])
  next
    case True
    obtain k1 b1 where kb: "sweep_level j 0 k b = (k1, b1)" by fastforce
    have l: "length k1 = length k" "length b1 = length b"
      using sweep_level_length [of j 0 k b] by (simp_all add: kb)
    have "zip k1 b1 = sweep_list seg_compose j 0 (zip k b)" using sweep_level_columns [OF 1(2), of j 0] by (simp add: kb)
    then show ?thesis using 1(1) [OF True kb [symmetric] refl] 1(2) True l
      by (simp add: kb sweep_up.simps [of j k b] sweep_tree.simps [of _ j "zip k b"])
  qed
qed

lemma sweep_up_length [simp]: "length (fst (sweep_up j k b)) = length k \<and> length (snd (sweep_up j k b)) = length b"
proof (induction j k b rule: sweep_up.induct)
  case (1 j k b)
  show ?case
  proof (cases "2 ^ j < length k")
    case True
    obtain k1 b1 where kb: "sweep_level j 0 k b = (k1, b1)" by fastforce
    have l: "length k1 = length k" "length b1 = length b"
      using sweep_level_length [of j 0 k b] by (simp_all add: kb)
    show ?thesis using 1 [OF True kb [symmetric] refl] True l by (subst (1 2) sweep_up.simps) (simp add: kb)
  next
    case False
    then show ?thesis by (subst (1 2) sweep_up.simps) simp
  qed
qed

lemma tree_fold_total:
  assumes "length b = length k"
  shows "tree_fold_segments k b = segments.total_of (zip k b)"
proof -
  consider "k = []" | k0 b0 where "k = [k0]" "b = [b0]" | "2 \<le> length k"
    using assms by (cases k; cases "tl k"; cases b) (auto simp: length_Suc_conv)
  then show ?thesis
  proof cases
    case 3
    have "length (zip k b) \<noteq> 0" using 3 assms by (simp del: length_0_conv)
    then have "zip k b \<noteq> []" by (rule contrapos_nn) auto
    then have t: "columns (sweep_up 0 k b) ! 0 = segments.total_of (zip k b)"
      using segments.sweep_tree_joined segments.total_joined unfolding sweep_up_columns [OF assms] by metis
    obtain k1 b1 where kb: "sweep_up 0 k b = (k1, b1)" by fastforce
    have "length k1 = length k" "length b1 = length k" using sweep_up_length [of 0 k b] assms by (simp_all add: kb)
    moreover have "0 < length k" using 3 by linarith
    ultimately have "columns (sweep_up 0 k b) ! 0 = (k1 ! 0, b1 ! 0)" unfolding kb by (simp del: length_greater_0_conv)
    moreover have "length k \<noteq> 0" "length k \<noteq> 1" using 3 by linarith+
    ultimately show ?thesis using t by (simp add: tree_fold_segments_def Let_def kb)
  qed (simp_all add: tree_fold_segments_def segments.unit_right)
qed

section \<open>Segments of spans\<close>

lemma seg_compose_sel:
  "fst (seg_compose a b) = fst a + fst b"
  "snd (seg_compose a b) = rotate_left64 (snd a) (unat ((FOLD_ROT * fst b) mod 64)) XOR snd b"
  by (simp_all add: seg_compose_def)

lemma compose_terms_total:
  "compose_terms (of_nat (i + length us)) i us b = b XOR snd (segments.total_of (map (Pair 1) us))
   \<and> fst (segments.total_of (map (Pair 1) us)) = of_nat (length us)"
proof (induction us arbitrary: i b)
  case (Cons u us)
  have d: "of_nat (i + length (u # us)) - 1 - of_nat i = (of_nat (length us) :: u32)" by simp
  have e: "of_nat (i + length (u # us)) = (of_nat (Suc i + length us) :: u32)" by simp
  have t: "fst (segments.total_of (map (Pair 1) us)) = of_nat (length us)" using Cons by blast
  have "compose_terms (of_nat (i + length (u # us))) i (u # us) b
    = compose_terms (of_nat (Suc i + length us)) (Suc i) us
        (b XOR rotate_left64 u (unat ((FOLD_ROT * of_nat (length us)) mod 64)))"
    unfolding compose_terms.simps d by (simp only: e)
  also have "\<dots> = b XOR snd (segments.total_of (map (Pair 1) (u # us)))"
    using Cons [of "Suc i"] by (simp add: seg_compose_sel t xor.assoc del: of_nat_add of_nat_Suc)
  finally show ?case using t by (simp add: seg_compose_sel)
qed simp

lemma fold_compose_b_total: "(of_nat (length us), fold_compose_b us) = segments.total_of (map (Pair 1) us)"
  using compose_terms_total [of 0 us 0] by (simp add: fold_compose_b_def prod_eq_iff)

lemma fold_step_act: "fold_step h v = fold_compose_apply h 1 (fold_term v)"
  by (simp add: fold_step_def fold_compose_apply_def FOLD_ROT_def)

text \<open>One segment: its composite record, applied once, is the serial fold of its values.\<close>

lemma segment_serial: "fold_compose_apply h (of_nat (length vs)) (fold_compose_b (map fold_term vs)) = foldl fold_step h vs"
proof -
  have "fold_compose_apply h (of_nat (length vs)) (fold_compose_b (map fold_term vs))
    = foldl (\<lambda>h r. fold_compose_apply h (fst r) (snd r)) h (map (Pair 1) (map fold_term vs))"
    using segments.act_total [of h "map (Pair 1) (map fold_term vs)"] fold_compose_b_total [of "map fold_term vs"]
    by (metis fst_conv snd_conv length_map)
  also have "\<dots> = foldl fold_step h vs"
    by (induction vs arbitrary: h) (simp_all add: fold_step_act)
  finally show ?thesis .
qed

lemma segments_serial:
  "foldl (\<lambda>h r. fold_compose_apply h (fst r) (snd r)) h
     (zip (map (\<lambda>vs. of_nat (length vs)) segs) (map (\<lambda>vs. fold_compose_b (map fold_term vs)) segs))
   = foldl fold_step h (concat segs)"
  by (induction segs arbitrary: h) (simp_all add: segment_serial)

text \<open>(The segment tree is the serial fold.)  Cut a tape of span values into any segments, take
  each segment's composite record (count and constant), fold the records pairwise in place by the tree and apply the
  one resulting record to the running hash: this is the hash of the serial chain that steps through
  every value in tape order, for every cut, every number of records and every starting hash.\<close>

theorem segment_tree_is_serial:
  "(let (K, B) = tree_fold_segments (map (\<lambda>vs. of_nat (length vs)) segs) (map (\<lambda>vs. fold_compose_b (map fold_term vs)) segs)
    in fold_compose_apply h K B) = foldl fold_step h (concat segs)"
  using segments.act_total [of h "zip (map (\<lambda>vs. of_nat (length vs)) segs) (map (\<lambda>vs. fold_compose_b (map fold_term vs)) segs)"]
  by (simp add: tree_fold_total segments_serial split_def)

end
