(* ===== verification/OrderScan.thy ===== *)
theory OrderScan
  imports SegmentFold
begin

text \<open>
  The segmented order scan (\<open>crates/nf-testkit/src/orderscan.rs\<close>): the row operations and
  their composition, the inclusive scan over an array of rows, and its two structure-of-arrays
  twins, scalar and AVX-512.  Locale \<open>scan_algebra\<close> proves the doubling scan once for an
  associative operation on a carrier; it is interpreted on the segmented operator of the code.
\<close>

section \<open>Row operations\<close>

text \<open>The arrays \<open>m\<close> and \<open>b\<close> of length three are three fields each.\<close>

record RowOp =
  ro_f :: u64
  ro_m0 :: u64
  ro_m1 :: u64
  ro_m2 :: u64
  ro_b0 :: u64
  ro_b1 :: u64
  ro_b2 :: u64
  ro_dead :: u64

definition ROWOP_IDENTITY :: RowOp where
  "ROWOP_IDENTITY = \<lparr>ro_f = 0, ro_m0 = - 1, ro_m1 = - 1, ro_m2 = - 1, ro_b0 = 0, ro_b1 = 0, ro_b2 = 0, ro_dead = 0\<rparr>"

text \<open>The additive part of one coordinate: the earlier one under the later mask, plus the later one.\<close>

definition blend_b :: "u64 \<Rightarrow> u64 \<Rightarrow> u64 \<Rightarrow> u64" where
  "blend_b ym xb yb = (if ym \<noteq> 0 then xb else 0) + yb"

definition rowop_compose :: "RowOp \<Rightarrow> RowOp \<Rightarrow> RowOp" where
  "rowop_compose x y =
     \<lparr>ro_f = ro_f x OR ro_f y,
      ro_m0 = ro_m0 x AND ro_m0 y, ro_m1 = ro_m1 x AND ro_m1 y, ro_m2 = ro_m2 x AND ro_m2 y,
      ro_b0 = blend_b (ro_m0 y) (ro_b0 x) (ro_b0 y),
      ro_b1 = blend_b (ro_m1 y) (ro_b1 x) (ro_b1 y),
      ro_b2 = blend_b (ro_m2 y) (ro_b2 x) (ro_b2 y),
      ro_dead = ro_dead x OR ro_dead y\<rparr>"

definition rowop_seg :: "RowOp \<Rightarrow> RowOp \<Rightarrow> RowOp" where
  "rowop_seg x y = (if ro_f y \<noteq> 0 then y else rowop_compose x y)"

section \<open>The scan over an array of rows\<close>

text \<open>The inner loop counts \<open>i\<close> down to \<open>d\<close>; the outer loop doubles \<open>d = 2 ^ j\<close>.\<close>

function scan_inner :: "nat \<Rightarrow> nat \<Rightarrow> RowOp list \<Rightarrow> RowOp list" where
  "scan_inner d i e =
     (if d < i then scan_inner d (i - 1) (e[i - 1 := rowop_seg (e ! (i - 1 - d)) (e ! (i - 1))]) else e)"
  by pat_completeness auto
termination scan_inner by (relation "measure (\<lambda>(d, i, e). i)") auto

declare scan_inner.simps [simp del]

lemma scan_inner_length [simp]: "length (scan_inner d i e) = length e"
  by (induction d i e rule: scan_inner.induct) (subst scan_inner.simps, simp)

lemma stride_decreases: "2 ^ j < (n :: nat) \<Longrightarrow> n - 2 ^ Suc j < n - 2 ^ j"
proof -
  have "0 < (2 :: nat) ^ j" by simp
  then show "2 ^ j < n \<Longrightarrow> n - 2 ^ Suc j < n - 2 ^ j" unfolding power_Suc by linarith
qed

function scan_levels :: "nat \<Rightarrow> RowOp list \<Rightarrow> RowOp list" where
  "scan_levels j e = (if 2 ^ j < length e then scan_levels (Suc j) (scan_inner (2 ^ j) (length e) e) else e)"
  by pat_completeness auto
termination scan_levels
  by (relation "measure (\<lambda>(j, e). length e - 2 ^ j)") (use stride_decreases in simp_all)

declare scan_levels.simps [simp del]

definition order_scan :: "RowOp list \<Rightarrow> RowOp list" where
  "order_scan e = scan_levels 0 e"

section \<open>Structure of arrays\<close>

definition SCAN_B_MAX :: nat where "SCAN_B_MAX = 512"

record ScanSoa =
  soa_f :: "u64 list"
  soa_m0 :: "u64 list"
  soa_m1 :: "u64 list"
  soa_m2 :: "u64 list"
  soa_b0 :: "u64 list"
  soa_b1 :: "u64 list"
  soa_b2 :: "u64 list"
  soa_dead :: "u64 list"
  soa_len :: nat

definition with_capacity :: "nat \<Rightarrow> ScanSoa" where
  "with_capacity cap =
     (let c = min cap SCAN_B_MAX
      in \<lparr>soa_f = replicate c 0,
          soa_m0 = replicate c (- 1), soa_m1 = replicate c (- 1), soa_m2 = replicate c (- 1),
          soa_b0 = replicate c 0, soa_b1 = replicate c 0, soa_b2 = replicate c 0,
          soa_dead = replicate c 0, soa_len = 0\<rparr>)"

text \<open>One row written to the columns at index \<open>i\<close>.\<close>

definition set_row :: "nat \<Rightarrow> RowOp \<Rightarrow> ScanSoa \<Rightarrow> ScanSoa" where
  "set_row i r s = s\<lparr>
     soa_f := (soa_f s)[i := ro_f r],
     soa_m0 := (soa_m0 s)[i := ro_m0 r], soa_m1 := (soa_m1 s)[i := ro_m1 r], soa_m2 := (soa_m2 s)[i := ro_m2 r],
     soa_b0 := (soa_b0 s)[i := ro_b0 r], soa_b1 := (soa_b1 s)[i := ro_b1 r], soa_b2 := (soa_b2 s)[i := ro_b2 r],
     soa_dead := (soa_dead s)[i := ro_dead r]\<rparr>"

fun load_rows :: "nat \<Rightarrow> RowOp list \<Rightarrow> ScanSoa \<Rightarrow> ScanSoa" where
  "load_rows i [] s = s"
| "load_rows i (r # rs) s = load_rows (Suc i) rs (set_row i r s)"

text \<open>Loading more rows than the columns hold panics: \<open>None\<close>.\<close>

definition load_soa :: "RowOp list \<Rightarrow> ScanSoa \<Rightarrow> ScanSoa option" where
  "load_soa rows s =
     (let n = min (length rows) SCAN_B_MAX
      in if n \<le> length (soa_f s) then Some (load_rows 0 (take n rows) (s\<lparr>soa_len := n\<rparr>)) else None)"

definition soa_row_at :: "ScanSoa \<Rightarrow> nat \<Rightarrow> RowOp" where
  "soa_row_at s i =
     \<lparr>ro_f = soa_f s ! i, ro_m0 = soa_m0 s ! i, ro_m1 = soa_m1 s ! i, ro_m2 = soa_m2 s ! i,
      ro_b0 = soa_b0 s ! i, ro_b1 = soa_b1 s ! i, ro_b2 = soa_b2 s ! i, ro_dead = soa_dead s ! i\<rparr>"

definition store_soa :: "ScanSoa \<Rightarrow> RowOp list" where
  "store_soa s = map (soa_row_at s) [0..<soa_len s]"

definition push_row :: "RowOp \<Rightarrow> ScanSoa \<Rightarrow> ScanSoa" where
  "push_row r s = (if soa_len s < length (soa_f s) then (set_row (soa_len s) r s)\<lparr>soa_len := soa_len s + 1\<rparr> else s)"

text \<open>One step of the scalar scan, column by column.\<close>

definition col_m :: "u64 \<Rightarrow> nat \<Rightarrow> nat \<Rightarrow> u64 list \<Rightarrow> u64 list" where
  "col_m y_f lo hi m = m[hi := if y_f \<noteq> 0 then m ! hi else m ! lo AND m ! hi]"

definition col_b :: "u64 \<Rightarrow> nat \<Rightarrow> nat \<Rightarrow> u64 list \<Rightarrow> u64 list \<Rightarrow> u64 list" where
  "col_b y_f lo hi m b = b[hi := if y_f \<noteq> 0 then b ! hi else (if m ! hi \<noteq> 0 then b ! lo else 0) + b ! hi]"

definition col_flag :: "u64 \<Rightarrow> nat \<Rightarrow> nat \<Rightarrow> u64 list \<Rightarrow> u64 list" where
  "col_flag y_f lo hi c = (if y_f = 0 then c[hi := c ! lo OR c ! hi] else c)"

definition soa_step :: "nat \<Rightarrow> nat \<Rightarrow> ScanSoa \<Rightarrow> ScanSoa" where
  "soa_step d i s =
     (let lo = i - 1 - d; hi = i - 1; y_f = soa_f s ! hi
      in s\<lparr>soa_m0 := col_m y_f lo hi (soa_m0 s), soa_b0 := col_b y_f lo hi (soa_m0 s) (soa_b0 s),
           soa_m1 := col_m y_f lo hi (soa_m1 s), soa_b1 := col_b y_f lo hi (soa_m1 s) (soa_b1 s),
           soa_m2 := col_m y_f lo hi (soa_m2 s), soa_b2 := col_b y_f lo hi (soa_m2 s) (soa_b2 s),
           soa_f := col_flag y_f lo hi (soa_f s), soa_dead := col_flag y_f lo hi (soa_dead s)\<rparr>)"

function soa_inner :: "nat \<Rightarrow> nat \<Rightarrow> ScanSoa \<Rightarrow> ScanSoa" where
  "soa_inner d i s = (if d < i then soa_inner d (i - 1) (soa_step d i s) else s)"
  by pat_completeness auto
termination soa_inner by (relation "measure (\<lambda>(d, i, s). i)") auto

declare soa_inner.simps [simp del]

lemma soa_step_len [simp]: "soa_len (soa_step d i s) = soa_len s"
  by (simp add: soa_step_def Let_def)

lemma soa_inner_len [simp]: "soa_len (soa_inner d i s) = soa_len s"
  by (induction d i s rule: soa_inner.induct) (subst soa_inner.simps, simp)

function soa_levels :: "nat \<Rightarrow> ScanSoa \<Rightarrow> ScanSoa" where
  "soa_levels j s = (if 2 ^ j < soa_len s then soa_levels (Suc j) (soa_inner (2 ^ j) (soa_len s) s) else s)"
  by pat_completeness auto
termination soa_levels
  by (relation "measure (\<lambda>(j, s). soa_len s - 2 ^ j)") (use stride_decreases in simp_all)

declare soa_levels.simps [simp del]

definition order_scan_soa :: "ScanSoa \<Rightarrow> ScanSoa" where
  "order_scan_soa s = soa_levels 0 s"

section \<open>The AVX-512 scan\<close>

text \<open>Eight lanes of a column, loaded at any index and stored back.\<close>

definition loadu8 :: "u64 list \<Rightarrow> nat \<Rightarrow> u64 list" where
  "loadu8 c i = take 8 (drop i c)"

definition storeu8 :: "u64 list \<Rightarrow> nat \<Rightarrow> u64 list \<Rightarrow> u64 list" where
  "storeu8 c i v = take i c @ v @ drop (i + 8) c"

definition cmpneq8 :: "u64 list \<Rightarrow> u64 list \<Rightarrow> bool list" where
  "cmpneq8 x y = map2 (\<lambda>a b. a \<noteq> b) x y"

definition mask_mov8 :: "u64 list \<Rightarrow> bool list \<Rightarrow> u64 list \<Rightarrow> u64 list" where
  "mask_mov8 src k a = map (\<lambda>(s, (b, v)). if b then v else s) (zip src (zip k a))"

abbreviation zero8 :: "u64 list" where "zero8 \<equiv> replicate 8 0"

definition vec_m :: "bool list \<Rightarrow> nat \<Rightarrow> nat \<Rightarrow> u64 list \<Rightarrow> u64 list" where
  "vec_m k d i m = (let x = loadu8 m (i - d); y = loadu8 m i in storeu8 m i (mask_mov8 (map2 (AND) x y) k y))"

text \<open>The blend reads the mask column before its store: \<open>m\<close> here is the column before the level.\<close>

definition vec_b :: "bool list \<Rightarrow> nat \<Rightarrow> nat \<Rightarrow> u64 list \<Rightarrow> u64 list \<Rightarrow> u64 list" where
  "vec_b k d i m b =
     (let y = loadu8 m i; xb = loadu8 b (i - d); yb = loadu8 b i; bm = cmpneq8 y zero8
      in storeu8 b i (mask_mov8 (map2 (+) (mask_mov8 zero8 bm xb) yb) k yb))"

definition vec_flag :: "bool list \<Rightarrow> nat \<Rightarrow> nat \<Rightarrow> u64 list \<Rightarrow> u64 list" where
  "vec_flag k d i c = (let x = loadu8 c (i - d); y = loadu8 c i in storeu8 c i (mask_mov8 (map2 (OR) x y) k y))"

definition vec_group :: "nat \<Rightarrow> nat \<Rightarrow> ScanSoa \<Rightarrow> ScanSoa" where
  "vec_group d i s =
     (let k = cmpneq8 (loadu8 (soa_f s) i) zero8
      in s\<lparr>soa_m0 := vec_m k d i (soa_m0 s), soa_b0 := vec_b k d i (soa_m0 s) (soa_b0 s),
           soa_m1 := vec_m k d i (soa_m1 s), soa_b1 := vec_b k d i (soa_m1 s) (soa_b1 s),
           soa_m2 := vec_m k d i (soa_m2 s), soa_b2 := vec_b k d i (soa_m2 s) (soa_b2 s),
           soa_f := vec_flag k d i (soa_f s), soa_dead := vec_flag k d i (soa_dead s)\<rparr>)"

text \<open>The tail below eight rows is the scalar loop.\<close>

function vec_inner :: "nat \<Rightarrow> nat \<Rightarrow> ScanSoa \<Rightarrow> ScanSoa" where
  "vec_inner d tp s =
     (if d < tp then if 8 \<le> tp - d then vec_inner d (tp - 8) (vec_group d (tp - 8) s) else soa_inner d tp s
      else s)"
  by pat_completeness auto
termination vec_inner by (relation "measure (\<lambda>(d, tp, s). tp)") auto

declare vec_inner.simps [simp del]

lemma vec_group_len [simp]: "soa_len (vec_group d i s) = soa_len s"
  by (simp add: vec_group_def Let_def)

lemma vec_inner_len [simp]: "soa_len (vec_inner d tp s) = soa_len s"
  by (induction d tp s rule: vec_inner.induct) (subst vec_inner.simps, simp)

function vec_levels :: "nat \<Rightarrow> ScanSoa \<Rightarrow> ScanSoa" where
  "vec_levels j s = (if 2 ^ j < soa_len s then vec_levels (Suc j) (vec_inner (2 ^ j) (soa_len s) s) else s)"
  by pat_completeness auto
termination vec_levels
  by (relation "measure (\<lambda>(j, s). soa_len s - 2 ^ j)") (use stride_decreases in simp_all)

declare vec_levels.simps [simp del]

definition order_scan_soa_avx512 :: "ScanSoa \<Rightarrow> ScanSoa" where
  "order_scan_soa_avx512 s = vec_levels 0 s"

definition order_scan_dispatch :: "bool \<Rightarrow> ScanSoa \<Rightarrow> ScanSoa" where
  "order_scan_dispatch vec_mode s = (if vec_mode then order_scan_soa_avx512 s else order_scan_soa s)"

section \<open>One level, row by row\<close>

definition level_of :: "nat \<Rightarrow> nat \<Rightarrow> RowOp list \<Rightarrow> RowOp list" where
  "level_of d tp e = map (\<lambda>p. if d \<le> p \<and> p < tp then rowop_seg (e ! (p - d)) (e ! p) else e ! p) [0..<length e]"

lemma level_of_length [simp]: "length (level_of d tp e) = length e"
  by (simp add: level_of_def)

lemma level_of_nth: "p < length e \<Longrightarrow> level_of d tp e ! p
    = (if d \<le> p \<and> p < tp then rowop_seg (e ! (p - d)) (e ! p) else e ! p)"
  by (simp add: level_of_def)

lemma level_of_stop: "tp \<le> d \<Longrightarrow> level_of d tp e = e"
  by (rule nth_equalityI) (auto simp: level_of_nth)

text \<open>The rows from \<open>i\<close> up may be done first.\<close>

lemma level_of_split:
  assumes "0 < d" "i \<le> tp" "length e' = length e"
    and "\<And>p. p < length e \<Longrightarrow> e' ! p = (if d \<le> p \<and> i \<le> p \<and> p < tp then rowop_seg (e ! (p - d)) (e ! p) else e ! p)"
  shows "level_of d i e' = level_of d tp e"
proof (rule nth_equalityI)
  fix p
  assume "p < length (level_of d i e')"
  then have p: "p < length e" using assms(3) by simp
  have "p - d < length e" using p by simp
  then show "level_of d i e' ! p = level_of d tp e ! p"
    using assms(1,2,4) p by (auto simp: level_of_nth assms(3))
qed (simp add: assms(3))

lemma scan_inner_level:
  assumes "0 < d" "i \<le> length e"
  shows "scan_inner d i e = level_of d i e"
  using assms
proof (induction d i e rule: scan_inner.induct)
  case (1 d i e)
  show ?case
  proof (cases "d < i")
    case True
    then have "scan_inner d i e = level_of d (i - 1) (e[i - 1 := rowop_seg (e ! (i - 1 - d)) (e ! (i - 1))])"
      using 1 by (subst scan_inner.simps) simp
    also have "\<dots> = level_of d i e"
      using True 1(2,3) by (intro level_of_split) (auto simp: nth_list_update)
    finally show ?thesis .
  next
    case False
    then show ?thesis by (subst scan_inner.simps) (simp add: level_of_stop)
  qed
qed


section \<open>Columns as rows\<close>

text \<open>Every column reaches the live row count.\<close>

definition soa_ok :: "ScanSoa \<Rightarrow> bool" where
  "soa_ok s \<longleftrightarrow> soa_len s \<le> length (soa_f s) \<and> soa_len s \<le> length (soa_m0 s) \<and> soa_len s \<le> length (soa_m1 s) \<and>
     soa_len s \<le> length (soa_m2 s) \<and> soa_len s \<le> length (soa_b0 s) \<and> soa_len s \<le> length (soa_b1 s) \<and>
     soa_len s \<le> length (soa_b2 s) \<and> soa_len s \<le> length (soa_dead s)"

lemma store_length [simp]: "length (store_soa s) = soa_len s"
  by (simp add: store_soa_def)

lemma store_nth: "p < soa_len s \<Longrightarrow> store_soa s ! p = soa_row_at s p"
  by (simp add: store_soa_def)

lemma soa_step_row:
  assumes "soa_ok s" "d < i" "i \<le> soa_len s" "p < soa_len s"
  shows "soa_row_at (soa_step d i s) p
    = (if p = i - 1 then rowop_seg (soa_row_at s (i - 1 - d)) (soa_row_at s (i - 1)) else soa_row_at s p)"
  using assms
  by (simp add: soa_ok_def soa_step_def soa_row_at_def rowop_seg_def rowop_compose_def blend_b_def
      col_m_def col_b_def col_flag_def Let_def nth_list_update)

lemma soa_step_ok [simp]: "soa_ok (soa_step d i s) = soa_ok s"
  by (simp add: soa_ok_def soa_step_def col_m_def col_b_def col_flag_def Let_def)

lemma soa_inner_level:
  assumes "soa_ok s" "0 < d" "i \<le> soa_len s"
  shows "store_soa (soa_inner d i s) = level_of d i (store_soa s) \<and> soa_ok (soa_inner d i s)"
  using assms
proof (induction d i s rule: soa_inner.induct)
  case (1 d i s)
  show ?case
  proof (cases "d < i")
    case True
    have ih: "store_soa (soa_inner d (i - 1) (soa_step d i s)) = level_of d (i - 1) (store_soa (soa_step d i s)) \<and>
        soa_ok (soa_inner d (i - 1) (soa_step d i s))"
      using 1(1) [OF True] 1(2-4) by simp
    have "level_of d (i - 1) (store_soa (soa_step d i s)) = level_of d i (store_soa s)"
    proof (rule level_of_split)
      fix p
      assume "p < length (store_soa s)"
      then have p: "p < soa_len s" by simp
      then show "store_soa (soa_step d i s) ! p
        = (if d \<le> p \<and> i - 1 \<le> p \<and> p < i then rowop_seg (store_soa s ! (p - d)) (store_soa s ! p) else store_soa s ! p)"
        using soa_step_row [OF 1(2) True 1(4) p] True 1(4) by (auto simp: store_nth less_imp_diff_less)
    qed (use 1(3) in simp_all)
    then show ?thesis using ih True by (subst (1 2) soa_inner.simps) simp
  next
    case False
    then show ?thesis using 1(2) by (subst (1 2) soa_inner.simps) (simp add: level_of_stop)
  qed
qed

section \<open>Lanes\<close>

lemma loadu8_length: "i + 8 \<le> length c \<Longrightarrow> length (loadu8 c i) = 8"
  by (simp add: loadu8_def)

lemma loadu8_nth: "i + 8 \<le> length c \<Longrightarrow> q < 8 \<Longrightarrow> loadu8 c i ! q = c ! (i + q)"
  by (simp add: loadu8_def)

lemma storeu8_length: "i + 8 \<le> length c \<Longrightarrow> length v = 8 \<Longrightarrow> length (storeu8 c i v) = length c"
  by (simp add: storeu8_def)

lemma storeu8_nth:
  assumes "i + 8 \<le> length c" "length v = 8" "p < length c"
  shows "storeu8 c i v ! p = (if i \<le> p \<and> p < i + 8 then v ! (p - i) else c ! p)"
  using assms by (auto simp: storeu8_def nth_append)

lemma mask_mov8_length: "length src = 8 \<Longrightarrow> length k = 8 \<Longrightarrow> length a = 8 \<Longrightarrow> length (mask_mov8 src k a) = 8"
  by (simp add: mask_mov8_def)

lemma mask_mov8_nth:
  "length src = 8 \<Longrightarrow> length k = 8 \<Longrightarrow> length a = 8 \<Longrightarrow> q < 8 \<Longrightarrow> mask_mov8 src k a ! q = (if k ! q then a ! q else src ! q)"
  by (simp add: mask_mov8_def)

lemma cmpneq8_lane: "length x = 8 \<Longrightarrow> length y = 8 \<Longrightarrow> length (cmpneq8 x y) = 8"
  "length x = 8 \<Longrightarrow> length y = 8 \<Longrightarrow> q < 8 \<Longrightarrow> cmpneq8 x y ! q = (x ! q \<noteq> y ! q)"
  by (simp_all add: cmpneq8_def)

lemmas lane_lengths = loadu8_length storeu8_length mask_mov8_length cmpneq8_lane(1)
lemmas lane_nths = loadu8_nth storeu8_nth mask_mov8_nth cmpneq8_lane(2)

lemma vec_m_nth:
  assumes "i + 8 \<le> length m" "d \<le> i" "length k = 8" "p < length m"
  shows "length (vec_m k d i m) = length m"
    "vec_m k d i m ! p = (if i \<le> p \<and> p < i + 8 then (if k ! (p - i) then m ! p else m ! (p - d) AND m ! p) else m ! p)"
  using assms by (auto simp: vec_m_def Let_def lane_lengths lane_nths)

lemma vec_flag_nth:
  assumes "i + 8 \<le> length m" "d \<le> i" "length k = 8" "p < length m"
  shows "length (vec_flag k d i m) = length m"
    "vec_flag k d i m ! p = (if i \<le> p \<and> p < i + 8 then (if k ! (p - i) then m ! p else m ! (p - d) OR m ! p) else m ! p)"
  using assms by (auto simp: vec_flag_def Let_def lane_lengths lane_nths)

lemma vec_b_nth:
  assumes "i + 8 \<le> length m" "i + 8 \<le> length b" "d \<le> i" "length k = 8" "p < length b"
  shows "length (vec_b k d i m b) = length b"
    "vec_b k d i m b ! p = (if i \<le> p \<and> p < i + 8
       then (if k ! (p - i) then b ! p else (if m ! p \<noteq> 0 then b ! (p - d) else 0) + b ! p) else b ! p)"
  using assms by (auto simp: vec_b_def Let_def lane_lengths lane_nths)

lemma vec_group_row:
  assumes "soa_ok s" "d \<le> i" "i + 8 \<le> soa_len s" "p < soa_len s"
  shows "soa_row_at (vec_group d i s) p
    = (if i \<le> p \<and> p < i + 8 then rowop_seg (soa_row_at s (p - d)) (soa_row_at s p) else soa_row_at s p)"
proof -
  define k where "k = cmpneq8 (loadu8 (soa_f s) i) zero8"
  define inside where "inside \<longleftrightarrow> i \<le> p \<and> p < i + 8"
  have f: "i + 8 \<le> length (soa_f s)" using assms(1,3) by (simp add: soa_ok_def)
  have k: "length k = 8" using f by (simp add: k_def lane_lengths)
  have kf: "k ! (p - i) = (soa_f s ! p \<noteq> 0)" if "inside"
  proof -
    have "p - i < 8" "i + (p - i) = p" using that by (simp_all add: inside_def less_diff_conv2)
    then show ?thesis using f by (simp add: k_def lane_lengths lane_nths)
  qed
  have lens: "soa_len s \<le> length (soa_m0 s)" "soa_len s \<le> length (soa_m1 s)" "soa_len s \<le> length (soa_m2 s)"
    "soa_len s \<le> length (soa_b0 s)" "soa_len s \<le> length (soa_b1 s)" "soa_len s \<le> length (soa_b2 s)"
    "soa_len s \<le> length (soa_f s)" "soa_len s \<le> length (soa_dead s)"
    using assms(1) by (simp_all add: soa_ok_def)
  have m: "vec_m k d i c ! p = (if inside \<and> soa_f s ! p = 0 then c ! (p - d) AND c ! p else c ! p)"
    if "soa_len s \<le> length c" for c
    using vec_m_nth(2) [OF _ assms(2) k, of c p] that assms(3,4) kf by (auto simp: inside_def)
  have fl: "vec_flag k d i c ! p = (if inside \<and> soa_f s ! p = 0 then c ! (p - d) OR c ! p else c ! p)"
    if "soa_len s \<le> length c" for c
    using vec_flag_nth(2) [OF _ assms(2) k, of c p] that assms(3,4) kf by (auto simp: inside_def)
  have b: "vec_b k d i c b ! p
      = (if inside \<and> soa_f s ! p = 0 then blend_b (c ! p) (b ! (p - d)) (b ! p) else b ! p)"
    if "soa_len s \<le> length c" "soa_len s \<le> length b" for c b
    using vec_b_nth(2) [OF _ _ assms(2) k, of c b p] that assms(3,4) kf by (auto simp: inside_def blend_b_def)
  have "soa_row_at (vec_group d i s) p
      = (if inside \<and> soa_f s ! p = 0 then rowop_compose (soa_row_at s (p - d)) (soa_row_at s p) else soa_row_at s p)"
    unfolding vec_group_def Let_def k_def [symmetric]
    by (simp add: soa_row_at_def rowop_compose_def m b fl lens)
  then show ?thesis by (simp add: inside_def rowop_seg_def soa_row_at_def)
qed

lemma vec_m_length: "i + 8 \<le> length m \<Longrightarrow> d \<le> i \<Longrightarrow> length k = 8 \<Longrightarrow> length (vec_m k d i m) = length m"
  by (rule vec_m_nth(1) [where p = 0]) auto

lemma vec_flag_length: "i + 8 \<le> length m \<Longrightarrow> d \<le> i \<Longrightarrow> length k = 8 \<Longrightarrow> length (vec_flag k d i m) = length m"
  by (rule vec_flag_nth(1) [where p = 0]) auto

lemma vec_b_length: "i + 8 \<le> length m \<Longrightarrow> i + 8 \<le> length b \<Longrightarrow> d \<le> i \<Longrightarrow> length k = 8 \<Longrightarrow> length (vec_b k d i m b) = length b"
  by (rule vec_b_nth(1) [where p = 0]) auto

lemma vec_group_ok:
  assumes "soa_ok s" "d \<le> i" "i + 8 \<le> soa_len s"
  shows "soa_ok (vec_group d i s)"
proof -
  have "i + 8 \<le> length (soa_f s)" using assms by (simp add: soa_ok_def)
  then have "length (cmpneq8 (loadu8 (soa_f s) i) zero8) = 8" by (simp add: lane_lengths)
  then show ?thesis using assms
    by (simp add: soa_ok_def vec_group_def Let_def vec_m_length vec_b_length vec_flag_length)
qed

lemma vec_inner_level:
  assumes "soa_ok s" "0 < d" "tp \<le> soa_len s"
  shows "store_soa (vec_inner d tp s) = level_of d tp (store_soa s) \<and> soa_ok (vec_inner d tp s)"
  using assms
proof (induction d tp s rule: vec_inner.induct)
  case (1 d tp s)
  consider "d < tp" "8 \<le> tp - d" | "d < tp" "\<not> 8 \<le> tp - d" | "\<not> d < tp" by blast
  then show ?case
  proof cases
    case 1
    let ?i = "tp - 8"
    have i: "d \<le> ?i" "?i + 8 \<le> soa_len s" "?i + 8 = tp" using 1 \<open>tp \<le> soa_len s\<close> by linarith+
    have ok: "soa_ok (vec_group d ?i s)" using \<open>soa_ok s\<close> i(1,2) by (rule vec_group_ok)
    have ih: "store_soa (vec_inner d ?i (vec_group d ?i s)) = level_of d ?i (store_soa (vec_group d ?i s)) \<and>
        soa_ok (vec_inner d ?i (vec_group d ?i s))"
      using "1.IH" [OF 1 ok \<open>0 < d\<close>] i(2) by simp
    have "level_of d ?i (store_soa (vec_group d ?i s)) = level_of d tp (store_soa s)"
    proof (rule level_of_split)
      fix p
      assume "p < length (store_soa s)"
      then have p: "p < soa_len s" by simp
      show "store_soa (vec_group d ?i s) ! p
        = (if d \<le> p \<and> ?i \<le> p \<and> p < tp then rowop_seg (store_soa s ! (p - d)) (store_soa s ! p) else store_soa s ! p)"
        using vec_group_row [OF \<open>soa_ok s\<close> i(1,2) p] i p by (auto simp: store_nth less_imp_diff_less)
    qed (use \<open>0 < d\<close> in simp_all)
    moreover have "vec_inner d tp s = vec_inner d ?i (vec_group d ?i s)"
      using 1 by (subst vec_inner.simps) simp
    ultimately show ?thesis using ih by simp
  next
    case 2
    then have "vec_inner d tp s = soa_inner d tp s" by (subst vec_inner.simps) simp
    then show ?thesis using soa_inner_level [OF "1.prems"] by simp
  next
    case 3
    then have "vec_inner d tp s = s" by (subst vec_inner.simps) simp
    then show ?thesis using 3 \<open>soa_ok s\<close> by (simp add: level_of_stop)
  qed
qed

section \<open>The three scans agree\<close>

lemma two_pow_pos: "0 < (2 :: nat) ^ j"
  by simp

lemma soa_levels_scan:
  "soa_ok s \<Longrightarrow> store_soa (soa_levels j s) = scan_levels j (store_soa s)"
proof (induction j s rule: soa_levels.induct)
  case (1 j s)
  show ?case
  proof (cases "2 ^ j < soa_len s")
    case True
    note l = soa_inner_level [OF 1(2) two_pow_pos, of "soa_len s" j]
    have "scan_inner (2 ^ j) (soa_len s) (store_soa s) = level_of (2 ^ j) (soa_len s) (store_soa s)"
      by (rule scan_inner_level [OF two_pow_pos]) simp
    then have "store_soa (soa_levels (Suc j) (soa_inner (2 ^ j) (soa_len s) s))
        = scan_levels (Suc j) (scan_inner (2 ^ j) (soa_len s) (store_soa s))"
      using 1(1) [OF True] l by simp
    then show ?thesis using True by (subst soa_levels.simps, subst scan_levels.simps) simp
  next
    case False
    then show ?thesis by (subst soa_levels.simps, subst scan_levels.simps) simp
  qed
qed

lemma vec_levels_scan:
  "soa_ok s \<Longrightarrow> store_soa (vec_levels j s) = scan_levels j (store_soa s)"
proof (induction j s rule: vec_levels.induct)
  case (1 j s)
  show ?case
  proof (cases "2 ^ j < soa_len s")
    case True
    note l = vec_inner_level [OF 1(2) two_pow_pos, of "soa_len s" j]
    have "scan_inner (2 ^ j) (soa_len s) (store_soa s) = level_of (2 ^ j) (soa_len s) (store_soa s)"
      by (rule scan_inner_level [OF two_pow_pos]) simp
    then have "store_soa (vec_levels (Suc j) (vec_inner (2 ^ j) (soa_len s) s))
        = scan_levels (Suc j) (scan_inner (2 ^ j) (soa_len s) (store_soa s))"
      using 1(1) [OF True] l by simp
    then show ?thesis using True by (subst vec_levels.simps, subst scan_levels.simps) simp
  next
    case False
    then show ?thesis by (subst vec_levels.simps, subst scan_levels.simps) simp
  qed
qed

lemma dispatch_scan: "soa_ok s \<Longrightarrow> store_soa (order_scan_dispatch v s) = order_scan (store_soa s)"
  by (simp add: order_scan_dispatch_def order_scan_soa_avx512_def order_scan_soa_def order_scan_def
      soa_levels_scan vec_levels_scan)

section \<open>Loading and storing\<close>

lemma with_capacity_ok: "soa_ok (with_capacity cap)"
  by (simp add: soa_ok_def with_capacity_def Let_def)

text \<open>All columns have the same length.\<close>

definition soa_square :: "nat \<Rightarrow> ScanSoa \<Rightarrow> bool" where
  "soa_square c s \<longleftrightarrow> length (soa_f s) = c \<and> length (soa_m0 s) = c \<and> length (soa_m1 s) = c \<and> length (soa_m2 s) = c \<and>
     length (soa_b0 s) = c \<and> length (soa_b1 s) = c \<and> length (soa_b2 s) = c \<and> length (soa_dead s) = c"

lemma set_row_square [simp]: "soa_square c (set_row i r s) = soa_square c s"
  by (simp add: soa_square_def set_row_def)

lemma set_row_len [simp]: "soa_len (set_row i r s) = soa_len s"
  by (simp add: set_row_def)

lemma set_row_at:
  "soa_square c s \<Longrightarrow> i < c \<Longrightarrow> soa_row_at (set_row i r s) p = (if p = i then r else soa_row_at s p)"
  by (auto simp: soa_square_def set_row_def soa_row_at_def nth_list_update)

lemma load_rows_at:
  "soa_square c s \<Longrightarrow> i + length rs \<le> c \<Longrightarrow>
     soa_square c (load_rows i rs s) \<and> soa_len (load_rows i rs s) = soa_len s \<and>
     (\<forall>p. soa_row_at (load_rows i rs s) p = (if i \<le> p \<and> p < i + length rs then rs ! (p - i) else soa_row_at s p))"
proof (induction i rs s rule: load_rows.induct)
  case (1 i s)
  then show ?case by auto
next
  case (2 i r rs s)
  then have "i < c" by simp
  from 2 show ?case
    using set_row_at [OF 2(2) \<open>i < c\<close>] by (auto simp: nth_Cons' split: if_splits)
qed

lemma store_load:
  assumes "length rows \<le> cap" "cap \<le> SCAN_B_MAX"
  obtains s where "load_soa rows (with_capacity cap) = Some s" "soa_ok s" "store_soa s = rows"
proof -
  let ?s = "(with_capacity cap)\<lparr>soa_len := length rows\<rparr>"
  have sq: "soa_square cap ?s" using assms(2) by (simp add: soa_square_def with_capacity_def Let_def)
  have l: "load_soa rows (with_capacity cap) = Some (load_rows 0 rows ?s)"
    using assms by (simp add: load_soa_def with_capacity_def Let_def)
  note at = load_rows_at [OF sq, of 0 rows]
  have "soa_ok (load_rows 0 rows ?s)" using at assms(1) by (simp add: soa_ok_def soa_square_def)
  moreover have "store_soa (load_rows 0 rows ?s) = rows"
    using at assms(1) by (intro nth_equalityI) (simp_all add: store_nth)
  ultimately show thesis using l that by blast
qed

section \<open>The scan computes run composites\<close>

locale scan_algebra =
  fixes comp :: "'r \<Rightarrow> 'r \<Rightarrow> 'r" and ok :: "'r \<Rightarrow> bool"
  assumes closed: "ok a \<Longrightarrow> ok b \<Longrightarrow> ok (comp a b)"
    and assoc: "ok a \<Longrightarrow> ok b \<Longrightarrow> ok c \<Longrightarrow> comp (comp a b) c = comp a (comp b c)"
begin

text \<open>The composite of the elements from \<open>lo\<close> through \<open>i\<close>.\<close>

definition window :: "'r list \<Rightarrow> nat \<Rightarrow> nat \<Rightarrow> 'r" where
  "window e lo i = foldl comp (e ! lo) (map (nth e) [Suc lo..<Suc i])"

lemma window_single: "window e i i = e ! i"
  by (simp add: window_def)

lemma window_snoc: "lo \<le> i \<Longrightarrow> window e lo (Suc i) = comp (window e lo i) (e ! Suc i)"
  by (simp add: window_def)

lemma window_ok: "\<forall>x \<in> set e. ok x \<Longrightarrow> lo \<le> i \<Longrightarrow> i < length e \<Longrightarrow> ok (window e lo i)"
proof (induction i)
  case 0
  then show ?case by (simp add: window_single)
next
  case (Suc i)
  then show ?case by (cases "lo = Suc i") (auto simp: window_single window_snoc closed)
qed

lemma window_append:
  assumes "\<forall>x \<in> set e. ok x" "lo \<le> m" "m < i" "i < length e"
  shows "comp (window e lo m) (window e (Suc m) i) = window e lo i"
  using assms(3,4)
proof (induction i)
  case (Suc i)
  show ?case
  proof (cases "m = i")
    case True
    then show ?thesis using assms(2) by (simp add: window_single window_snoc)
  next
    case False
    then have i: "m < i" "i < length e" "Suc m \<le> i" "lo \<le> i" using Suc.prems assms(2) by simp_all
    have "ok (window e lo m)" "ok (window e (Suc m) i)" "ok (e ! Suc i)"
      using assms(1,2) i Suc.prems by (auto intro: window_ok)
    then show ?thesis using Suc.IH i by (simp add: window_snoc assoc [symmetric])
  qed
qed simp

text \<open>Before the level of stride \<open>d\<close>, every element is the composite of the last \<open>d\<close> leaves.\<close>

definition scanned :: "'r list \<Rightarrow> nat \<Rightarrow> 'r list \<Rightarrow> bool" where
  "scanned e d xs \<longleftrightarrow> length xs = length e \<and> (\<forall>i < length e. xs ! i = window e (Suc i - d) i)"

lemma scanned_start: "scanned e 1 e"
  by (simp add: scanned_def window_single)

lemma scanned_end: "scanned e d xs \<Longrightarrow> length e \<le> d \<Longrightarrow> i < length e \<Longrightarrow> xs ! i = window e 0 i"
  by (simp add: scanned_def)

lemma scanned_double:
  assumes "\<forall>x \<in> set e. ok x" "scanned e d xs" "0 < d" "length ys = length xs"
    and "\<And>i. i < length xs \<Longrightarrow> ys ! i = (if d \<le> i then comp (xs ! (i - d)) (xs ! i) else xs ! i)"
  shows "scanned e (2 * d) ys"
  unfolding scanned_def
proof (intro conjI allI impI)
  show "length ys = length e" using assms(2,4) by (simp add: scanned_def)
  fix i
  assume i: "i < length e"
  have n: "length xs = length e" using assms(2) by (simp add: scanned_def)
  have x: "xs ! q = window e (Suc q - d) q" if "q \<le> i" for q
    using assms(2) i that by (simp add: scanned_def)
  show "ys ! i = window e (Suc i - 2 * d) i"
  proof (cases "d \<le> i")
    case True
    have "Suc (i - d) - d = Suc i - 2 * d" "Suc (i - d) = Suc i - d" using True by simp_all
    then show ?thesis
      using window_append [OF assms(1), of "Suc i - 2 * d" "i - d" i] assms(3,5) True i n x [of i] x [of "i - d"]
      by simp
  next
    case False
    then have "Suc i - d = 0" "Suc i - 2 * d = 0" using assms(3) by simp_all
    then show ?thesis using assms(5) False i n x [of i] by simp
  qed
qed

end

text \<open>The masks the builders make: all ones or zero.\<close>

definition mask_ok :: "u64 \<Rightarrow> bool" where
  "mask_ok m \<longleftrightarrow> m = 0 \<or> m = - 1"

definition rowop_ok :: "RowOp \<Rightarrow> bool" where
  "rowop_ok r \<longleftrightarrow> mask_ok (ro_m0 r) \<and> mask_ok (ro_m1 r) \<and> mask_ok (ro_m2 r)"

lemma blend_blend: "mask_ok ym \<Longrightarrow> mask_ok zm \<Longrightarrow> blend_b zm (blend_b ym xb yb) zb = blend_b (ym AND zm) xb (blend_b zm yb zb)"
  by (auto simp: mask_ok_def blend_b_def)

lemma or_zero_iff: "(x :: u64) OR y = 0 \<longleftrightarrow> x = 0 \<and> y = 0"
  by (rule or_eq_0_iff)

lemma rowop_compose_assoc:
  "rowop_ok y \<Longrightarrow> rowop_ok z \<Longrightarrow> rowop_compose (rowop_compose x y) z = rowop_compose x (rowop_compose y z)"
  by (simp add: rowop_compose_def rowop_ok_def blend_blend ac_simps)

interpretation rows: scan_algebra rowop_seg rowop_ok
proof unfold_locales
  show "rowop_ok a \<Longrightarrow> rowop_ok b \<Longrightarrow> rowop_ok (rowop_seg a b)" for a b
    by (auto simp: rowop_seg_def rowop_compose_def rowop_ok_def mask_ok_def)
  show "rowop_ok a \<Longrightarrow> rowop_ok b \<Longrightarrow> rowop_ok c \<Longrightarrow> rowop_seg (rowop_seg a b) c = rowop_seg a (rowop_seg b c)" for a b c
    by (auto simp: rowop_seg_def rowop_compose_assoc) (auto simp: rowop_compose_def or_zero_iff)
qed

lemma scan_levels_window:
  assumes "\<forall>x \<in> set e. rowop_ok x" "rows.scanned e (2 ^ j) xs" "i < length e"
  shows "scan_levels j xs ! i = rows.window e 0 i"
  using assms(2)
proof (induction j xs rule: scan_levels.induct)
  case (1 j xs)
  have n: "length xs = length e" using 1(2) by (simp add: rows.scanned_def)
  show ?case
  proof (cases "2 ^ j < length xs")
    case True
    have lv: "scan_inner (2 ^ j) (length xs) xs = level_of (2 ^ j) (length xs) xs"
      by (rule scan_inner_level [OF two_pow_pos]) simp
    have "rows.scanned e (2 * 2 ^ j) (scan_inner (2 ^ j) (length xs) xs)"
      unfolding lv by (rule rows.scanned_double [OF assms(1) 1(2) two_pow_pos]) (simp_all add: level_of_nth)
    then have "scan_levels (Suc j) (scan_inner (2 ^ j) (length xs) xs) ! i = rows.window e 0 i"
      using 1(1) [OF True] by simp
    moreover have "scan_levels j xs = scan_levels (Suc j) (scan_inner (2 ^ j) (length xs) xs)"
      using True by (subst scan_levels.simps) simp
    ultimately show ?thesis by simp
  next
    case False
    then have "scan_levels j xs = xs" by (subst scan_levels.simps) simp
    then show ?thesis using rows.scanned_end [OF 1(2) _ assms(3)] False n by simp
  qed
qed

lemma scan_levels_length [simp]: "length (scan_levels j xs) = length xs"
  by (induction j xs rule: scan_levels.induct) (subst scan_levels.simps, simp)

lemma order_scan_length [simp]: "length (order_scan e) = length e"
  by (simp add: order_scan_def)

lemma order_scan_window:
  assumes "\<forall>x \<in> set e. rowop_ok x" "i < length e"
  shows "order_scan e ! i = rows.window e 0 i"
  unfolding order_scan_def using scan_levels_window [OF assms(1) _ assms(2), of 0 e] rows.scanned_start [of e] by simp

text \<open>The inclusive composite from the start of the run through \<open>i\<close>: the specification of the scan.\<close>

fun run_composites :: "RowOp \<Rightarrow> RowOp list \<Rightarrow> RowOp list" where
  "run_composites x [] = []"
| "run_composites x (y # ys) =
     (let c = (if ro_f y \<noteq> 0 then y else rowop_compose x y) in c # run_composites c ys)"

lemma run_composites_foldl: "i < length ys \<Longrightarrow> run_composites x ys ! i = foldl rowop_seg x (take (Suc i) ys)"
proof (induction x ys arbitrary: i rule: run_composites.induct)
  case (2 x y ys)
  then show ?case by (cases i) (simp_all add: Let_def rowop_seg_def)
qed simp

lemma run_composites_length [simp]: "length (run_composites x ys) = length ys"
  by (induction x ys rule: run_composites.induct) (simp_all add: Let_def)

lemma window_run:
  assumes "i < length e"
  shows "rows.window (r # e) 0 (Suc i) = run_composites r e ! i"
  using assms
proof (induction i)
  case 0
  have w: "rows.window (r # e) 0 (Suc 0) = rowop_seg r (e ! 0)"
    by (simp add: rows.window_snoc rows.window_single)
  show ?case unfolding w run_composites_foldl [OF 0] using 0 by (cases e) simp_all
next
  case (Suc i)
  then have "rows.window (r # e) 0 (Suc (Suc i)) = rowop_seg (run_composites r e ! i) (e ! Suc i)"
    by (simp add: rows.window_snoc)
  also have "\<dots> = run_composites r e ! Suc i"
    using Suc.prems by (simp add: run_composites_foldl take_Suc_conv_app_nth)
  finally show ?case .
qed

text \<open>(The in-place doubling scan is the run-by-run composition.)  On rows whose masks are all ones or zero, the
  scan leaves at every position the composite of the rows from the last run start through that
  position, in this order.\<close>

theorem order_scan_composes_runs:
  assumes "\<forall>x \<in> set (r # e). rowop_ok x"
  shows "order_scan (r # e) = r # run_composites r e"
proof (rule nth_equalityI)
  fix i
  assume "i < length (order_scan (r # e))"
  then have i: "i < length (r # e)" by simp
  show "order_scan (r # e) ! i = (r # run_composites r e) ! i"
    using i order_scan_window [OF assms i] window_run [of "i - 1" e r]
    by (cases i) (simp_all add: rows.window_single)
qed simp

lemma order_scan_composes_runs_witness:
  "order_scan [ROWOP_IDENTITY\<lparr>ro_b2 := 7\<rparr>, ROWOP_IDENTITY\<lparr>ro_b2 := - 2\<rparr>, ROWOP_IDENTITY\<lparr>ro_f := 1, ro_b2 := 4\<rparr>]
    = [ROWOP_IDENTITY\<lparr>ro_b2 := 7\<rparr>, ROWOP_IDENTITY\<lparr>ro_b2 := 5\<rparr>, ROWOP_IDENTITY\<lparr>ro_f := 1, ro_b2 := 4\<rparr>]"
  using order_scan_composes_runs [of "ROWOP_IDENTITY\<lparr>ro_b2 := 7\<rparr>"
      "[ROWOP_IDENTITY\<lparr>ro_b2 := - 2\<rparr>, ROWOP_IDENTITY\<lparr>ro_f := 1, ro_b2 := 4\<rparr>]"]
  by (simp add: rowop_ok_def mask_ok_def ROWOP_IDENTITY_def rowop_compose_def blend_b_def Let_def)

text \<open>C38: (The layouts agree.)  Up to 512 rows loaded into a column batch that holds them, scanned by the
  scalar column loop or by the AVX-512 groups of eight with its scalar tail, and stored back are
  the rows of the array scan, for every content of the rows.\<close>

theorem column_scan_is_row_scan:
  assumes "length rows \<le> cap" "cap \<le> SCAN_B_MAX"
  shows "map_option (\<lambda>s. store_soa (order_scan_dispatch vec_mode s)) (load_soa rows (with_capacity cap)) = Some (order_scan rows)"
proof -
  obtain s where "load_soa rows (with_capacity cap) = Some s" "soa_ok s" "store_soa s = rows"
    using store_load [OF assms] .
  then show ?thesis by (simp add: dispatch_scan)
qed

lemma column_scan_is_row_scan_witness:
  "map_option (\<lambda>s. store_soa (order_scan_dispatch True s))
     (load_soa [ROWOP_IDENTITY, ROWOP_IDENTITY\<lparr>ro_b2 := 3\<rparr>] (with_capacity 2))
   = Some (order_scan [ROWOP_IDENTITY, ROWOP_IDENTITY\<lparr>ro_b2 := 3\<rparr>])"
  by (rule column_scan_is_row_scan) (simp_all add: SCAN_B_MAX_def)

end
