(* ===== verification/PushResolve.thy ===== *)
theory PushResolve
  imports OrderScan
begin

text \<open>
  The emit stage of the order scan and the buckets of the push resolver
  (\<open>crates/nf-testkit/src/orderscan.rs\<close>, \<open>sigpush.rs\<close>): the row builders, the rows of one
  order's bucket, the output of a reference from its scanned prefix, and the register the batch
  carries out.  The specification is the sequential order register: absent, or side, identity
  and remaining quantity.
\<close>

section \<open>Building rows\<close>

definition ACT_A :: u8 where "ACT_A = 0"
definition ACT_E :: u8 where "ACT_E = 1"
definition ACT_C :: u8 where "ACT_C = 2"
definition ACT_X :: u8 where "ACT_X = 3"
definition ACT_D :: u8 where "ACT_D = 4"
definition ACT_U :: u8 where "ACT_U = 5"

lemmas act_defs = ACT_A_def ACT_E_def ACT_C_def ACT_X_def ACT_D_def ACT_U_def

definition identity_word :: "u32 \<Rightarrow> u32 \<Rightarrow> u64" where
  "identity_word px locate = push_bit 32 (ucast px) OR ucast locate"

definition rowop_of :: "u8 \<Rightarrow> u32 \<Rightarrow> u32 \<Rightarrow> u32 \<Rightarrow> u8 \<Rightarrow> RowOp" where
  "rowop_of act q px locate side =
     (let r = \<lparr>ro_f = 1, ro_m0 = 0, ro_m1 = 0, ro_m2 = 0, ro_b0 = 0, ro_b1 = 0, ro_b2 = 0, ro_dead = 0\<rparr>
      in if act = ACT_A then r\<lparr>ro_b0 := if side \<noteq> 0 then 1 else 0, ro_b1 := identity_word px locate, ro_b2 := ucast q\<rparr>
         else if act = ACT_D then r\<lparr>ro_dead := 1\<rparr>
         else r\<lparr>ro_m0 := - 1, ro_m1 := - 1, ro_m2 := - 1, ro_b2 := - ucast q\<rparr>)"

definition rowop_u_new :: "u32 \<Rightarrow> u32 \<Rightarrow> u32 \<Rightarrow> RowOp" where
  "rowop_u_new new_q new_px locate =
     \<lparr>ro_f = 1, ro_m0 = - 1, ro_m1 = 0, ro_m2 = 0,
      ro_b0 = 0, ro_b1 = identity_word new_px locate, ro_b2 = ucast new_q, ro_dead = 0\<rparr>"

section \<open>Emitting\<close>

text \<open>Signed deltas are 64-bit words read in two's complement.\<close>

record Resolved =
  rs_db :: u64
  rs_da :: u64
  rs_px :: u32
  rs_ok :: u8

type_synonym register = "u64 \<times> u64 \<times> u64"

text \<open>The closed form: the entry register through a prefix.\<close>

definition closed_form :: "RowOp \<Rightarrow> register \<Rightarrow> register" where
  "closed_form pre e =
     ((fst e AND ro_m0 pre) + ro_b0 pre, (fst (snd e) AND ro_m1 pre) + ro_b1 pre, (snd (snd e) AND ro_m2 pre) + ro_b2 pre)"

text \<open>A delta on the side of the order.\<close>

definition on_side :: "u64 \<Rightarrow> u64 \<Rightarrow> Resolved \<Rightarrow> Resolved" where
  "on_side s_b delta out = (if s_b \<noteq> 0 then out\<lparr>rs_db := delta\<rparr> else out\<lparr>rs_da := delta\<rparr>)"

definition emit :: "RowOp \<Rightarrow> register option \<Rightarrow> u8 \<Rightarrow> u32 \<Rightarrow> u32 \<Rightarrow> Resolved" where
  "emit pre o_entry act wire_q wire_px =
     (let out = \<lparr>rs_db = 0, rs_da = 0, rs_px = 0, rs_ok = 1\<rparr>
      in if act \<noteq> ACT_A \<and> o_entry = None \<and> (ro_m0 pre OR ro_m1 pre OR ro_m2 pre) \<noteq> 0 then out\<lparr>rs_ok := 0\<rparr>
         else if ro_dead pre \<noteq> 0 \<and> act \<noteq> ACT_A then out\<lparr>rs_ok := 0\<rparr>
         else if act = ACT_A then out
         else let e = (case o_entry of None \<Rightarrow> (0, 0, 0) | Some r \<Rightarrow> r);
                  (s_b, pi, rho) = closed_form pre e;
                  clamp = (act \<noteq> ACT_U \<and> sint rho < sint (ucast wire_q :: u64));
                  d = (if clamp then rho else ucast wire_q);
                  out = (if clamp then out\<lparr>rs_ok := 2\<rparr> else out)
              in if act = ACT_E then (on_side s_b (- d) out)\<lparr>rs_px := ucast (drop_bit 32 pi)\<rparr>
                 else if act = ACT_C then (on_side s_b (- d) out)\<lparr>rs_px := wire_px\<rparr>
                 else if act = ACT_X then on_side s_b (- d) out
                 else if act = ACT_D then on_side s_b (- rho) out
                 else if act = ACT_U then on_side s_b (ucast wire_q - rho) out
                 else out)"

section \<open>Buckets\<close>

text \<open>The rows of one order id: a reference message (act, quantity, price, locate, side), the old
  half of a replace with the new quantity and price, or the new half with the register of the old
  order at the replace, if it has one.\<close>

datatype bucket_row =
    Ref u8 u32 u32 u32 u8
  | UOld u32 u32
  | UNew u32 u32 u32 "register option"

fun row_of :: "bucket_row \<Rightarrow> RowOp" where
  "row_of (Ref act q px loc side) = rowop_of act q px loc (if act = ACT_A then (if side \<noteq> 0x53 then 1 else 0) else 0)"
| "row_of (UOld nq npx) = rowop_of ACT_D 0 0 0 0"
| "row_of (UNew nq npx loc inherited) = rowop_u_new nq npx loc"

text \<open>A rebirth keeps its run-start flag inside the bucket.\<close>

fun rebirth :: "bucket_row \<Rightarrow> bool" where
  "rebirth (Ref act q px loc side) = (act = ACT_A)"
| "rebirth (UOld nq npx) = False"
| "rebirth (UNew nq npx loc inherited) = True"

fun interior_rows :: "bucket_row list \<Rightarrow> RowOp list" where
  "interior_rows [] = []"
| "interior_rows (b # bs) = (if rebirth b then row_of b else (row_of b)\<lparr>ro_f := 0\<rparr>) # interior_rows bs"

fun bucket_rows :: "bucket_row list \<Rightarrow> RowOp list" where
  "bucket_rows [] = []"
| "bucket_rows (b # bs) = row_of b # interior_rows bs"

definition pre_of :: "RowOp list \<Rightarrow> u64 list \<Rightarrow> nat \<Rightarrow> RowOp" where
  "pre_of scanned orig_f ri = (if ri = 0 \<or> orig_f ! ri \<noteq> 0 then ROWOP_IDENTITY else scanned ! (ri - 1))"

text \<open>The entry register of the run that starts with a row, from the register carried into the batch.\<close>

fun ent_of :: "register option \<Rightarrow> bucket_row \<Rightarrow> register option" where
  "ent_of carry (UNew nq npx loc inherited) = inherited"
| "ent_of carry (UOld nq npx) = carry"
| "ent_of carry (Ref act q px loc side) =
     (case carry of Some r \<Rightarrow> Some r | None \<Rightarrow> if act = ACT_A then Some (0, 0, 0) else None)"

text \<open>The first row of the run a position belongs to.\<close>

fun run_head :: "bucket_row \<Rightarrow> bucket_row list \<Rightarrow> bucket_row" where
  "run_head h [] = h"
| "run_head h (b # bs) = run_head (if rebirth b then b else h) bs"

text \<open>The register carried out of a batch: dead or absent is \<open>None\<close>.\<close>

definition carry_of :: "register option \<Rightarrow> RowOp \<Rightarrow> register option" where
  "carry_of ent cmp =
     (case ent of None \<Rightarrow> None | Some e \<Rightarrow> if ro_dead cmp \<noteq> 0 then None else Some (closed_form cmp e))"

section \<open>The sequential register\<close>

fun register_step :: "bucket_row \<Rightarrow> register option \<Rightarrow> register option" where
  "register_step (Ref act q px loc side) reg =
     (if act = ACT_A then Some (if side \<noteq> 0x53 then 1 else 0, identity_word px loc, ucast q)
      else if act = ACT_D then None
      else map_option (\<lambda>(s_b, pi, rho). (s_b, pi, rho - min (ucast q) rho)) reg)"
| "register_step (UOld nq npx) reg = None"
| "register_step (UNew nq npx loc inherited) reg =
     map_option (\<lambda>(s_b, pi, rho). (s_b, identity_word npx loc, ucast nq)) inherited"

fun register_run :: "bucket_row list \<Rightarrow> register option \<Rightarrow> register option" where
  "register_run [] reg = reg"
| "register_run (b # bs) reg = register_run bs (register_step b reg)"

text \<open>What a row resolves to against the register: nothing for an absent order, at most what remains.\<close>

fun resolve :: "bucket_row \<Rightarrow> register option \<Rightarrow> Resolved" where
  "resolve (Ref act q px loc side) reg =
     (if act = ACT_A then \<lparr>rs_db = 0, rs_da = 0, rs_px = 0, rs_ok = 1\<rparr>
      else case reg of None \<Rightarrow> \<lparr>rs_db = 0, rs_da = 0, rs_px = 0, rs_ok = 0\<rparr>
        | Some (s_b, pi, rho) \<Rightarrow>
            let d = (if act = ACT_D then rho else min (ucast q) rho)
            in \<lparr>rs_db = (if s_b \<noteq> 0 then - d else 0), rs_da = (if s_b \<noteq> 0 then 0 else - d),
                rs_px = (if act = ACT_E then ucast (drop_bit 32 pi) else if act = ACT_C then px else 0),
                rs_ok = (if act \<noteq> ACT_D \<and> rho < ucast q then 2 else 1)\<rparr>)"
| "resolve (UOld nq npx) reg =
     (case reg of None \<Rightarrow> \<lparr>rs_db = 0, rs_da = 0, rs_px = 0, rs_ok = 0\<rparr>
      | Some (s_b, pi, rho) \<Rightarrow>
          \<lparr>rs_db = (if s_b \<noteq> 0 then ucast nq - rho else 0), rs_da = (if s_b \<noteq> 0 then 0 else ucast nq - rho),
           rs_px = 0, rs_ok = 1\<rparr>)"
| "resolve (UNew nq npx loc inherited) reg = \<lparr>rs_db = 0, rs_da = 0, rs_px = 0, rs_ok = 1\<rparr>"

text \<open>The emit call the resolver makes for a row; the new half of a replace emits nothing.\<close>

fun emit_row :: "RowOp \<Rightarrow> register option \<Rightarrow> bucket_row \<Rightarrow> Resolved" where
  "emit_row pre ent (Ref act q px loc side) = emit pre ent act q px"
| "emit_row pre ent (UOld nq npx) = emit pre ent ACT_U nq npx"
| "emit_row pre ent (UNew nq npx loc inherited) = \<lparr>rs_db = 0, rs_da = 0, rs_px = 0, rs_ok = 1\<rparr>"

section \<open>Re-anchoring\<close>

text \<open>The output of the row at index \<open>k\<close> of a bucket whose rows start at \<open>off\<close>.\<close>

definition bucket_emit :: "RowOp list \<Rightarrow> u64 list \<Rightarrow> nat \<Rightarrow> register option \<Rightarrow> bucket_row list \<Rightarrow> nat \<Rightarrow> Resolved" where
  "bucket_emit scanned orig_f off carry bs k =
     emit_row (pre_of scanned orig_f (off + k)) (ent_of carry (run_head (hd bs) (take k (tl bs)))) (bs ! k)"

fun clamp_arm :: "bucket_row \<Rightarrow> bool" where
  "clamp_arm (Ref act q px loc side) = (act = ACT_E \<or> act = ACT_C \<or> act = ACT_X)"
| "clamp_arm (UOld nq npx) = False"
| "clamp_arm (UNew nq npx loc inherited) = False"

definition state_at :: "RowOp list \<Rightarrow> u64 list \<Rightarrow> nat \<Rightarrow> register option \<Rightarrow> bucket_row list \<Rightarrow> nat \<Rightarrow> register" where
  "state_at scanned orig_f off carry bs k =
     closed_form (pre_of scanned orig_f (off + k))
       (case ent_of carry (run_head (hd bs) (take k (tl bs))) of None \<Rightarrow> (0, 0, 0) | Some e \<Rightarrow> e)"

definition anchor_row :: "u64 \<Rightarrow> register \<Rightarrow> RowOp" where
  "anchor_row f st = \<lparr>ro_f = f, ro_m0 = 0, ro_m1 = 0, ro_m2 = 0, ro_b0 = fst st, ro_b1 = fst (snd st), ro_b2 = 0, ro_dead = 0\<rparr>"

text \<open>One round over a bucket: the rows that clamp are rewritten.\<close>

definition reanchor_bucket :: "RowOp list \<Rightarrow> u64 list \<Rightarrow> nat \<Rightarrow> register option \<Rightarrow> bucket_row list \<Rightarrow> RowOp list \<Rightarrow> RowOp list" where
  "reanchor_bucket scanned orig_f off carry bs rows =
     map (\<lambda>k. if clamp_arm (bs ! k) \<and> rs_ok (bucket_emit scanned orig_f off carry bs k) = 2
              then anchor_row (ro_f (rows ! k)) (state_at scanned orig_f off carry bs k)
              else rows ! k) [0..<length bs]"

section \<open>Words\<close>

lemma signed64_self: "- 9223372036854775808 \<le> (k :: int) \<Longrightarrow> k < 9223372036854775808 \<Longrightarrow> signed_take_bit 63 k = k"
  by (rule signed_take_bit_int_eq_self) simp_all

lemma sint_small: "x < 2 ^ 32 \<Longrightarrow> sint (x :: u64) = uint x"
proof -
  assume "x < 2 ^ 32"
  then have "uint x < 2 ^ 32" by (simp add: word_less_alt)
  then show "sint x = uint x" using signed64_self [of "uint x"] uint_ge_0 [of x] by (simp add: sint_uint)
qed

lemma uint_quantity: "uint (ucast (q :: u32) :: u64) = uint q"
  using uint_bounded [of q] by (simp add: unsigned_ucast_eq take_bit_eq_mod)

lemma ucast_quantity: "(ucast (q :: u32) :: u64) < 2 ^ 32"
  using uint_bounded [of q] by (simp add: word_less_alt uint_quantity)

lemma sint_quantity: "sint (ucast (q :: u32) :: u64) = uint q"
  using sint_small [OF ucast_quantity] by (simp only: uint_quantity)

lemma clamp_clean: "rho < 2 ^ 32 \<Longrightarrow> sint rho < sint (ucast (q :: u32) :: u64) \<longleftrightarrow> rho < (ucast q :: u64)"
  unfolding sint_quantity by (simp add: sint_small word_less_alt uint_quantity)

lemma sint_diff_small:
  assumes "- 4611686018427387904 \<le> sint (r :: u64)" "sint r < 4611686018427387904"
  shows "sint (r - ucast (q :: u32)) = sint r - uint q"
proof -
  have q: "0 \<le> uint q" "uint q < 4294967296" using uint_bounded [of q] by simp_all
  have "sint (r - ucast q) = signed_take_bit 63 (sint r - uint q)"
    using sint_word_ariths(2) [of r "ucast q"] unfolding sint_quantity by simp
  also have "\<dots> = sint r - uint q" using assms q by (intro signed64_self) linarith+
  finally show ?thesis .
qed

section \<open>One step of a run\<close>

text \<open>A composite represents the register: the run's entry through it is the register, a
  composite of an absent order never resolves.\<close>

definition rep :: "register option \<Rightarrow> RowOp \<Rightarrow> register option \<Rightarrow> bool" where
  "rep ent cmp reg \<longleftrightarrow>
     (case reg of
        None \<Rightarrow> ro_dead cmp \<noteq> 0 \<or> ent = None \<and> (ro_m0 cmp OR ro_m1 cmp OR ro_m2 cmp) \<noteq> 0
      | Some r \<Rightarrow> ro_dead cmp = 0 \<and> snd (snd r) < 2 ^ 32 \<and> (\<exists>e. ent = Some e \<and> closed_form cmp e = r))"

text \<open>A row as the last round has it: as built where the order covers it, re-anchored where the
  order is used up.\<close>

fun quantity :: "bucket_row \<Rightarrow> u64" where
  "quantity (Ref act q px loc side) = ucast q"
| "quantity (UOld nq npx) = 0"
| "quantity (UNew nq npx loc inherited) = 0"

definition settled :: "bucket_row \<Rightarrow> register option \<Rightarrow> u64 \<Rightarrow> RowOp \<Rightarrow> bool" where
  "settled b reg f r \<longleftrightarrow>
     r = (row_of b)\<lparr>ro_f := f\<rparr> \<and> (\<forall>st. reg = Some st \<and> clamp_arm b \<longrightarrow> quantity b \<le> snd (snd st)) \<or>
     (\<exists>st. reg = Some st \<and> clamp_arm b \<and> snd (snd st) \<le> quantity b \<and> r = anchor_row f st)"

text \<open>The messages of the wire: the acts of the book, a delete without a quantity, and an inherited
  register within its bounds.\<close>

fun known_act :: "bucket_row \<Rightarrow> bool" where
  "known_act (Ref act q px loc side) = (act = ACT_A \<or> act = ACT_E \<or> act = ACT_C \<or> act = ACT_X \<or> act = ACT_D \<and> q = 0)"
| "known_act (UOld nq npx) = True"
| "known_act (UNew nq npx loc inherited) = True"

lemma closed_form_compose:
  assumes "rowop_ok y"
  shows "closed_form (rowop_compose x y) e = closed_form y (closed_form x e)"
  using assms by (auto simp: closed_form_def rowop_compose_def blend_b_def rowop_ok_def mask_ok_def and.assoc)

lemma compose_identity: "rowop_compose ROWOP_IDENTITY r = r"
  by (simp add: rowop_compose_def ROWOP_IDENTITY_def blend_b_def)

lemma ref_row_A: "rowop_of ACT_A q px loc side =
    \<lparr>ro_f = 1, ro_m0 = 0, ro_m1 = 0, ro_m2 = 0, ro_b0 = if side \<noteq> 0 then 1 else 0,
     ro_b1 = identity_word px loc, ro_b2 = ucast q, ro_dead = 0\<rparr>"
  by (simp add: rowop_of_def Let_def)

lemma ref_row_D: "rowop_of ACT_D q px loc side =
    \<lparr>ro_f = 1, ro_m0 = 0, ro_m1 = 0, ro_m2 = 0, ro_b0 = 0, ro_b1 = 0, ro_b2 = 0, ro_dead = 1\<rparr>"
  by (simp add: rowop_of_def Let_def act_defs)

lemma ref_row_take: "act \<noteq> ACT_A \<Longrightarrow> act \<noteq> ACT_D \<Longrightarrow> rowop_of act q px loc side =
    \<lparr>ro_f = 1, ro_m0 = - 1, ro_m1 = - 1, ro_m2 = - 1, ro_b0 = 0, ro_b1 = 0, ro_b2 = - ucast q, ro_dead = 0\<rparr>"
  by (simp add: rowop_of_def Let_def)

lemma row_of_ok: "rowop_ok ((row_of b)\<lparr>ro_f := f\<rparr>)"
proof (cases b)
  case (Ref act q px loc side)
  then show ?thesis
    by (cases "act = ACT_A"; cases "act = ACT_D") (simp_all add: ref_row_A ref_row_D ref_row_take rowop_ok_def mask_ok_def)
qed (simp_all add: ref_row_D rowop_u_new_def rowop_ok_def mask_ok_def)

lemma anchor_row_ok: "rowop_ok (anchor_row f st)"
  by (simp add: anchor_row_def rowop_ok_def mask_ok_def)

lemma settled_ok: "settled b reg f r \<Longrightarrow> rowop_ok r"
  by (auto simp: settled_def row_of_ok anchor_row_ok)

lemma rep_rebirth:
  assumes "rebirth b"
  shows "rep (ent_of carry b) ((row_of b)\<lparr>ro_f := f\<rparr>) (register_step b reg)"
proof (cases b)
  case (Ref act q px loc side)
  then have a: "act = ACT_A" using assms by simp
  show ?thesis unfolding Ref a using ucast_quantity [of q]
    by (cases carry) (auto simp: rep_def closed_form_def ref_row_A)
next
  case (UNew nq npx loc i)
  show ?thesis unfolding UNew using ucast_quantity [of nq]
    by (cases i) (auto simp: rep_def closed_form_def rowop_u_new_def)
qed (use assms in simp)

text \<open>A reference extends the run.\<close>

lemma anchor_form: "closed_form (anchor_row f st) e = (fst st, fst (snd st), 0)"
  by (simp add: closed_form_def anchor_row_def)

lemma take_form:
  assumes "act \<noteq> ACT_A" "act \<noteq> ACT_D"
  shows "closed_form ((rowop_of act q px loc side)\<lparr>ro_f := f\<rparr>) e = (fst e, fst (snd e), snd (snd e) - ucast q)"
  by (simp add: closed_form_def ref_row_take assms)

lemma compose_dead: "ro_dead (rowop_compose x y) = ro_dead x OR ro_dead y"
  by (simp add: rowop_compose_def)

lemma clamp_arm_acts: "clamp_arm (Ref act q px loc side) \<Longrightarrow> act \<noteq> ACT_A \<and> act \<noteq> ACT_D \<and> act \<noteq> ACT_U"
  by (auto simp: act_defs)

lemma rep_reference:
  assumes "rep ent cmp reg" "\<not> rebirth b" "known_act b" "settled b reg f r"
  shows "rep ent (rowop_compose cmp r) (register_step b reg)"
proof (cases "clamp_arm b")
  case True
  then obtain act q px loc side where b: "b = Ref act q px loc side" by (cases b) auto
  have act: "act \<noteq> ACT_A" "act \<noteq> ACT_D" using True clamp_arm_acts unfolding b by blast+
  show ?thesis
  proof (cases reg)
    case None
    then have r: "r = (rowop_of act q px loc 0)\<lparr>ro_f := f\<rparr>" using assms(4) act by (auto simp: settled_def b)
    show ?thesis using assms(1) act unfolding None r b
      by (auto simp: rep_def rowop_compose_def ref_row_take or_zero_iff)
  next
    case (Some st)
    obtain e where e: "ro_dead cmp = 0" "snd (snd st) < 2 ^ 32" "ent = Some e" "closed_form cmp e = st"
      using assms(1) by (auto simp: rep_def Some)
    have step: "register_step b reg = Some (fst st, fst (snd st), snd (snd st) - min (ucast q) (snd (snd st)))"
      using act by (cases st) (simp add: b Some)
    have f: "closed_form (rowop_compose cmp r) e = closed_form r st"
      using closed_form_compose [OF settled_ok [OF assms(4)]] e(4) by simp
    have "settled b (Some st) f r" using assms(4) Some by simp
    then consider
        (plain) "r = (rowop_of act q px loc 0)\<lparr>ro_f := f\<rparr>" "ucast q \<le> snd (snd st)"
      | (anchor) "r = anchor_row f st" "snd (snd st) \<le> ucast q"
      using True act unfolding settled_def b by (cases "act = ACT_A") (force simp del: clamp_arm.simps)+
    then show ?thesis
    proof cases
      case plain
      have "snd (snd st) - ucast q < 2 ^ 32"
        using word_sub_le [OF plain(2)] e(2) by (rule order.strict_trans1)
      then show ?thesis using e(1,3) f plain take_form [OF act] unfolding step
        by (simp add: rep_def compose_dead ref_row_take act min_absorb1)
    next
      case anchor
      then show ?thesis using e(1,3) f anchor_form unfolding step
        by (simp add: rep_def compose_dead anchor_row_def min_absorb2)
    qed
  qed
next
  case False
  then have r: "r = (row_of b)\<lparr>ro_f := f\<rparr>" using assms(4) by (auto simp: settled_def)
  have b: "row_of b = rowop_of ACT_D 0 0 0 0 \<or> (\<exists>q px loc. row_of b = rowop_of ACT_D q px loc 0)" "register_step b reg = None"
    using False assms(2,3) by (cases b; auto)+
  then show ?thesis unfolding r by (auto simp: rep_def compose_dead ref_row_D or_zero_iff)
qed

lemma emit_absent:
  assumes "rep ent cmp None" "act \<noteq> ACT_A"
  shows "emit cmp ent act q px = \<lparr>rs_db = 0, rs_da = 0, rs_px = 0, rs_ok = 0\<rparr>"
  using assms by (auto simp: emit_def rep_def Let_def)

lemma emit_reference:
  assumes "rep ent cmp reg" "\<not> rebirth b" "known_act b"
  shows "emit_row cmp ent b = resolve b reg"
proof (cases reg)
  case None
  then show ?thesis using assms emit_absent [of ent cmp] by (cases b) (auto simp: act_defs)
next
  case (Some st)
  obtain s_b pi rho where st: "st = (s_b, pi, rho)" by (cases st)
  obtain e where e: "ro_dead cmp = 0" "rho < 2 ^ 32" "ent = Some e" "closed_form cmp e = (s_b, pi, rho)"
    using assms(1) by (auto simp: rep_def Some st)
  note cl = clamp_clean [OF e(2)]
  have z: "\<not> rho < 0" by simp
  show ?thesis
  proof (cases b)
    case (Ref act q px loc side)
    then show ?thesis using assms(2,3) z unfolding Some st
      by (auto simp: emit_def e cl act_defs on_side_def Let_def min_def not_less)
  next
    case (UOld nq npx)
    then show ?thesis unfolding Some st by (simp add: emit_def e act_defs on_side_def Let_def)
  qed (use assms(2) in simp)
qed

section \<open>The first round\<close>

text \<open>After an uncovered reference the composite's quantity has gone below zero; it stays there until
  the run ends, while the register stays at zero.\<close>

definition wrap :: "nat \<Rightarrow> register option \<Rightarrow> RowOp \<Rightarrow> register option \<Rightarrow> bool" where
  "wrap n ent cmp reg \<longleftrightarrow> rep ent cmp reg \<or>
     (\<exists>s_b pi e rho. reg = Some (s_b, pi, 0) \<and> ro_dead cmp = 0 \<and> ent = Some e \<and> closed_form cmp e = (s_b, pi, rho) \<and>
        sint rho < 0 \<and> - (4294967296 * int n) \<le> sint rho)"

lemma wrap_rep: "rep ent cmp reg \<Longrightarrow> wrap n ent cmp reg"
  by (simp add: wrap_def)

text \<open>The row of a reference that takes its quantity, and the state it leaves.\<close>

lemma take_row:
  assumes "clamp_arm b" "r = (row_of b)\<lparr>ro_f := f\<rparr>"
  shows "ro_dead (rowop_compose cmp r) = ro_dead cmp"
    "closed_form (rowop_compose cmp r) e
      = (fst (closed_form cmp e), fst (snd (closed_form cmp e)), snd (snd (closed_form cmp e)) - quantity b)"
proof -
  obtain act q px loc side where b: "b = Ref act q px loc side" using assms(1) by (cases b) auto
  have act: "act \<noteq> ACT_A" "act \<noteq> ACT_D" using assms(1) clamp_arm_acts unfolding b by blast+
  have r: "r = (rowop_of act q px loc 0)\<lparr>ro_f := f\<rparr>" using assms(2) act by (simp add: b)
  show "ro_dead (rowop_compose cmp r) = ro_dead cmp" using act by (simp add: r compose_dead ref_row_take)
  have "rowop_ok r" using row_of_ok [where b = b and f = f] assms(2) by simp
  then show "closed_form (rowop_compose cmp r) e
      = (fst (closed_form cmp e), fst (snd (closed_form cmp e)), snd (snd (closed_form cmp e)) - quantity b)"
    using take_form [OF act] by (simp add: closed_form_compose r b)
qed

lemma clamp_step: "clamp_arm b \<Longrightarrow> register_step b (Some (s_b, pi, rho)) = Some (s_b, pi, rho - min (quantity b) rho)"
  by (cases b) (auto simp: act_defs)

lemma quantity_ucast: "\<exists>q :: u32. quantity b = ucast q"
proof (cases b)
  case (UOld nq npx)
  then show ?thesis by (intro exI [of _ 0]) simp
next
  case (UNew nq npx loc i)
  then show ?thesis by (intro exI [of _ 0]) simp
qed auto

lemma wrap_reference:
  assumes "wrap n ent cmp reg" "\<not> rebirth b" "known_act b" "r = (row_of b)\<lparr>ro_f := f\<rparr>" "n < 512"
  shows "wrap (Suc n) ent (rowop_compose cmp r) (register_step b reg)"
proof (cases "clamp_arm b \<and> reg \<noteq> None")
  case False
  then have s: "settled b reg f r" using assms(4) by (auto simp: settled_def)
  show ?thesis
  proof (cases "rep ent cmp reg")
    case True
    then show ?thesis using rep_reference [OF _ assms(2,3) s] by (simp add: wrap_def)
  next
    case False
    then obtain st where "reg = Some st" using assms(1) by (auto simp: wrap_def)
    then have "\<not> clamp_arm b" using \<open>\<not> (clamp_arm b \<and> reg \<noteq> None)\<close> by simp
    then have "register_step b reg = None" "ro_dead r \<noteq> 0"
      using assms(2,3,4) by (cases b; auto simp: ref_row_D)+
    then show ?thesis by (simp add: wrap_def rep_def compose_dead or_zero_iff)
  qed
next
  case True
  then obtain s_b pi rho where reg: "reg = Some (s_b, pi, rho)" by (cases reg) auto
  obtain q :: u32 where q: "quantity b = ucast q" using quantity_ucast by blast
  have step: "register_step b reg = Some (s_b, pi, rho - min (quantity b) rho)" using True clamp_step by (simp add: reg)
  note t = take_row [OF conjunct1 [OF True] assms(4), of cmp]
  have uq: "0 \<le> uint q" "uint q < 4294967296" using uint_bounded [of q] by simp_all
  consider (covers) "rep ent cmp reg" "quantity b \<le> rho" | (over) "rep ent cmp reg" "rho < quantity b"
    | (below) e x where "rho = 0" "ro_dead cmp = 0" "ent = Some e" "closed_form cmp e = (s_b, pi, x)"
        "sint x < 0" "- (4294967296 * int n) \<le> sint x"
    using assms(1) unfolding wrap_def reg by (cases "quantity b \<le> rho") (auto simp: not_le)
  then show ?thesis
  proof cases
    case covers
    then have "settled b reg f r" using assms(4) by (simp add: settled_def reg)
    then show ?thesis using rep_reference [OF covers(1) assms(2,3)] by (simp add: wrap_def)
  next
    case over
    then obtain e where e: "ro_dead cmp = 0" "rho < 2 ^ 32" "ent = Some e" "closed_form cmp e = (s_b, pi, rho)"
      by (auto simp: rep_def reg)
    have u: "uint rho < uint q" "0 \<le> uint rho" using over(2) by (simp_all add: q word_less_alt uint_quantity)
    define x where "x = rho - ucast q"
    have sx: "sint x = uint rho - uint q"
      using sint_diff_small [of rho q] sint_small [OF e(2)] u uq by (simp add: x_def)
    have "sint x < 0" "- 4294967296 \<le> sint x" unfolding sx using u uq by linarith+
    then have "sint x < 0" "- (4294967296 * int (Suc n)) \<le> sint x" by simp_all
    moreover have "closed_form (rowop_compose cmp r) e = (s_b, pi, x)"
      using t(2) [of e] e(4) by (simp add: q x_def)
    moreover have "register_step b reg = Some (s_b, pi, 0)" using step over(2) by (simp add: min_absorb2)
    ultimately show ?thesis using e(1,3) t(1) unfolding wrap_def by auto
  next
    case below
    have "sint (x - ucast q) = sint x - uint q"
      using below(5,6) assms(5) by (intro sint_diff_small) simp_all
    moreover have "sint x - uint q < 0" "- (4294967296 * int (Suc n)) \<le> sint x - uint q"
      using below(5,6) uq unfolding of_nat_Suc distrib_left by linarith+
    ultimately have "sint (x - ucast q) < 0" "- (4294967296 * int (Suc n)) \<le> sint (x - ucast q)" by simp_all
    moreover have "closed_form (rowop_compose cmp r) e = (s_b, pi, x - ucast q)"
      using t(2) [of e] below(4) by (simp add: q)
    ultimately show ?thesis using below(1-3) t(1) step unfolding wrap_def by auto
  qed
qed

text \<open>What the first round rewrites is settled for the second, and it rewrites every row that clamps.\<close>

definition settle_row :: "RowOp \<Rightarrow> register option \<Rightarrow> bucket_row \<Rightarrow> u64 \<Rightarrow> RowOp" where
  "settle_row pre ent b f =
     (if clamp_arm b \<and> rs_ok (emit_row pre ent b) = 2
      then anchor_row f (closed_form pre (case ent of None \<Rightarrow> (0, 0, 0) | Some e \<Rightarrow> e))
      else (row_of b)\<lparr>ro_f := f\<rparr>)"

lemma emit_ok_clamp:
  assumes "clamp_arm b" "ro_dead cmp = 0" "closed_form cmp e = (s_b, pi, rho)"
  shows "rs_ok (emit_row cmp (Some e) b) = (if sint rho < sint (quantity b) then 2 else 1)"
  using assms by (cases b) (auto simp: emit_def act_defs on_side_def Let_def)

lemma anchor_row_cong: "fst x = fst y \<Longrightarrow> fst (snd x) = fst (snd y) \<Longrightarrow> anchor_row f x = anchor_row f y"
  by (simp add: anchor_row_def)

lemma round_settles:
  assumes "wrap n ent cmp reg" "\<not> rebirth b" "known_act b"
  shows "settled b reg f (settle_row cmp ent b f)"
    "clamp_arm b \<Longrightarrow> rs_ok (resolve b reg) = 2 \<Longrightarrow> rs_ok (emit_row cmp ent b) = 2"
proof -
  obtain q :: u32 where q: "quantity b = ucast q" using quantity_ucast by blast
  have "settled b reg f (settle_row cmp ent b f) \<and> (clamp_arm b \<longrightarrow> rs_ok (resolve b reg) = 2 \<longrightarrow> rs_ok (emit_row cmp ent b) = 2)"
  proof (cases "rep ent cmp reg")
    case True
    have em: "emit_row cmp ent b = resolve b reg" using emit_reference [OF True assms(2,3)] .
    show ?thesis
    proof (cases "clamp_arm b \<and> reg \<noteq> None")
      case c: True
      then obtain s_b pi rho where reg: "reg = Some (s_b, pi, rho)" by (cases reg) auto
      obtain e where e: "ro_dead cmp = 0" "rho < 2 ^ 32" "ent = Some e" "closed_form cmp e = (s_b, pi, rho)"
        using True by (auto simp: rep_def reg)
      have "rs_ok (emit_row cmp ent b) = (if rho < ucast q then 2 else 1)"
        using emit_ok_clamp [OF conjunct1 [OF c] e(1,4)] clamp_clean [OF e(2)] e(3) q by simp
      then show ?thesis using c e em q by (auto simp: settled_def settle_row_def reg not_less)
    next
      case False
      then have "\<not> clamp_arm b \<or> reg = None" by blast
      moreover have "rs_ok (emit_row cmp ent b) \<noteq> 2" if "reg = None" "clamp_arm b"
        using that unfolding em by (cases b) (auto simp: act_defs)
      ultimately show ?thesis unfolding settled_def settle_row_def em [symmetric] by auto
    qed
  next
    case False
    then obtain s_b pi e x where w: "reg = Some (s_b, pi, 0)" "ro_dead cmp = 0" "ent = Some e"
        "closed_form cmp e = (s_b, pi, x)" "sint x < 0"
      using assms(1) by (auto simp: wrap_def)
    show ?thesis
    proof (cases "clamp_arm b")
      case True
      have "sint (quantity b) \<ge> 0" by (simp add: q sint_quantity)
      then have "rs_ok (emit_row cmp ent b) = 2" using emit_ok_clamp [OF True w(2,4)] w(3,5) by simp
      moreover have "anchor_row f (s_b, pi, x) = anchor_row f (s_b, pi, 0)" by (rule anchor_row_cong) simp_all
      ultimately show ?thesis using True w by (auto simp: settled_def settle_row_def)
    next
      case False
      then show ?thesis by (simp add: settled_def settle_row_def)
    qed
  qed
  then show "settled b reg f (settle_row cmp ent b f)"
    "clamp_arm b \<Longrightarrow> rs_ok (resolve b reg) = 2 \<Longrightarrow> rs_ok (emit_row cmp ent b) = 2" by blast+
qed

section \<open>Along a bucket\<close>

text \<open>Run entry, composite before and composite after the row at an index of a bucket.\<close>

definition entry_at :: "register option \<Rightarrow> bucket_row list \<Rightarrow> nat \<Rightarrow> register option" where
  "entry_at carry bs k = ent_of carry (run_head (hd bs) (take k (tl bs)))"

definition after_at :: "RowOp list \<Rightarrow> nat \<Rightarrow> RowOp" where
  "after_at rs k = foldl rowop_seg (hd rs) (take k (tl rs))"

definition before_at :: "bucket_row list \<Rightarrow> RowOp list \<Rightarrow> nat \<Rightarrow> RowOp" where
  "before_at bs rs k = (if k = 0 \<or> rebirth (bs ! k) then ROWOP_IDENTITY else after_at rs (k - 1))"

definition register_at :: "register option \<Rightarrow> bucket_row list \<Rightarrow> nat \<Rightarrow> register option" where
  "register_at carry bs k = register_run (take k bs) carry"

text \<open>The run-start flag of the row at an index.\<close>

definition flag_at :: "bucket_row list \<Rightarrow> nat \<Rightarrow> u64" where
  "flag_at bs k = (if k = 0 \<or> rebirth (bs ! k) then 1 else 0)"

lemma register_run_snoc: "register_run (bs @ [b]) reg = register_step b (register_run bs reg)"
  by (induction bs arbitrary: reg) simp_all

lemma register_at_Suc: "k < length bs \<Longrightarrow> register_at carry bs (Suc k) = register_step (bs ! k) (register_at carry bs k)"
  by (simp add: register_at_def take_Suc_conv_app_nth register_run_snoc)

lemma run_head_snoc: "run_head h (bs @ [b]) = (if rebirth b then b else run_head h bs)"
  by (induction bs arbitrary: h) simp_all

lemma entry_at_Suc:
  "Suc k < length bs \<Longrightarrow> entry_at carry bs (Suc k) = (if rebirth (bs ! Suc k) then ent_of carry (bs ! Suc k) else entry_at carry bs k)"
  by (cases bs) (simp_all add: entry_at_def take_Suc_conv_app_nth run_head_snoc)

lemma after_at_Suc: "Suc k < length rs \<Longrightarrow> after_at rs (Suc k) = rowop_seg (after_at rs k) (rs ! Suc k)"
  by (cases rs) (simp_all add: after_at_def take_Suc_conv_app_nth)

text \<open>A relation between composites and registers that every row preserves holds along the bucket.\<close>

locale tracking =
  fixes rel :: "nat \<Rightarrow> register option \<Rightarrow> RowOp \<Rightarrow> register option \<Rightarrow> bool"
    and good :: "bucket_row \<Rightarrow> register option \<Rightarrow> u64 \<Rightarrow> RowOp \<Rightarrow> bool"
  assumes start: "(\<forall>r. carry = Some r \<longrightarrow> snd (snd r) < 2 ^ 32) \<Longrightarrow> rel 0 carry ROWOP_IDENTITY carry"
    and reborn: "rebirth b \<Longrightarrow> good b reg f r \<Longrightarrow> rel n (ent_of carry b) r (register_step b reg)"
    and reference: "rel n ent cmp reg \<Longrightarrow> \<not> rebirth b \<Longrightarrow> known_act b \<Longrightarrow> good b reg f r \<Longrightarrow> n < 512 \<Longrightarrow>
      rel (Suc n) ent (rowop_compose cmp r) (register_step b reg)"
    and flagged: "good b reg f r \<Longrightarrow> ro_f r = f"
begin

definition bucket :: "register option \<Rightarrow> bucket_row list \<Rightarrow> RowOp list \<Rightarrow> bool" where
  "bucket carry bs rs \<longleftrightarrow> bs \<noteq> [] \<and> length rs = length bs \<and> length bs \<le> SCAN_B_MAX \<and>
     (\<forall>r. carry = Some r \<longrightarrow> snd (snd r) < 2 ^ 32) \<and> (\<forall>b \<in> set bs. known_act b) \<and>
     (\<forall>k < length bs. good (bs ! k) (register_at carry bs k) (flag_at bs k) (rs ! k))"

lemma first_entry: "\<not> rebirth b \<Longrightarrow> ent_of carry b = carry"
  by (cases b) (auto split: option.split)

lemma after_rel:
  assumes "bucket carry bs rs" "k < length bs"
  shows "rel (Suc k) (entry_at carry bs k) (after_at rs k) (register_at carry bs (Suc k))"
  using assms(2)
proof (induction k)
  case 0
  obtain b bt r rt where bs: "bs = b # bt" "rs = r # rt"
    using assms(1) by (cases bs; cases rs) (auto simp: bucket_def)
  have g: "good b carry 1 r" "known_act b" "rel 0 carry ROWOP_IDENTITY carry"
    using assms(1) start by (auto simp: bucket_def bs flag_at_def register_at_def)
  show ?case
  proof (cases "rebirth b")
    case True
    then show ?thesis using reborn [OF True g(1)] by (simp add: bs entry_at_def after_at_def register_at_def)
  next
    case False
    then show ?thesis using reference [OF g(3) False g(2,1)] first_entry [OF False]
      by (simp add: bs entry_at_def after_at_def register_at_def compose_identity)
  qed
next
  case (Suc k)
  have g: "good (bs ! Suc k) (register_at carry bs (Suc k)) (flag_at bs (Suc k)) (rs ! Suc k)"
    "known_act (bs ! Suc k)" "Suc k < length rs" "Suc k < 512"
    using assms(1) Suc.prems by (auto simp: bucket_def SCAN_B_MAX_def)
  note a = after_at_Suc [OF g(3)]
  note r = register_at_Suc [OF Suc.prems, of carry]
  show ?case
  proof (cases "rebirth (bs ! Suc k)")
    case True
    then have "ro_f (rs ! Suc k) \<noteq> 0" using flagged [OF g(1)] by (simp add: flag_at_def)
    then show ?thesis using reborn [OF True g(1)] True Suc.prems
      by (simp add: a r entry_at_Suc rowop_seg_def)
  next
    case False
    then have "ro_f (rs ! Suc k) = 0" using flagged [OF g(1)] by (simp add: flag_at_def)
    then show ?thesis using reference [OF Suc.IH False g(2,1,4)] False Suc.prems
      by (simp add: a r entry_at_Suc rowop_seg_def)
  qed
qed

lemma before_rel:
  assumes "bucket carry bs rs" "k < length bs" "\<not> rebirth (bs ! k)"
  shows "rel k (entry_at carry bs k) (before_at bs rs k) (register_at carry bs k)"
proof (cases k)
  case 0
  obtain b bt where bs: "bs = b # bt" using assms(1) by (cases bs) (auto simp: bucket_def)
  have "rel 0 carry ROWOP_IDENTITY carry" using assms(1) start by (auto simp: bucket_def)
  then show ?thesis using assms(3) first_entry [of b] by (simp add: bs 0 entry_at_def before_at_def register_at_def)
next
  case (Suc j)
  then show ?thesis using after_rel [OF assms(1), of j] assms(2,3) by (simp add: before_at_def entry_at_Suc)
qed

end

lemma rep_start: "(\<forall>r. carry = Some r \<longrightarrow> snd (snd r) < 2 ^ 32) \<Longrightarrow> rep carry ROWOP_IDENTITY carry"
  by (cases carry) (simp_all add: rep_def ROWOP_IDENTITY_def closed_form_def)

lemma settled_rebirth: "rebirth b \<Longrightarrow> settled b reg f r \<Longrightarrow> r = (row_of b)\<lparr>ro_f := f\<rparr>"
  by (cases b) (auto simp: settled_def act_defs)

interpretation final: tracking "\<lambda>n. rep" settled
proof unfold_locales
  show "rebirth b \<Longrightarrow> settled b reg f r \<Longrightarrow> rep (ent_of carry b) r (register_step b reg)" for b reg f r carry
    using rep_rebirth [of b carry f reg] settled_rebirth [of b reg f r] by simp
  show "settled b reg f r \<Longrightarrow> ro_f r = f" for b reg f r
    by (auto simp: settled_def anchor_row_def)
qed (use rep_start rep_reference in simp_all)

interpretation first: tracking wrap "\<lambda>b reg f r. r = (row_of b)\<lparr>ro_f := f\<rparr>"
proof unfold_locales
  show "wrap n ent cmp reg \<Longrightarrow> \<not> rebirth b \<Longrightarrow> known_act b \<Longrightarrow> r = (row_of b)\<lparr>ro_f := f\<rparr> \<Longrightarrow> n < 512 \<Longrightarrow>
      wrap (Suc n) ent (rowop_compose cmp r) (register_step b reg)" for n ent cmp reg b f r
    by (rule wrap_reference)
qed (use wrap_rep rep_start rep_rebirth in simp_all)

section \<open>The rows of a bucket in the batch\<close>

lemma ro_f_row_of: "ro_f (row_of b) = 1"
  by (cases b) (simp_all add: rowop_of_def rowop_u_new_def Let_def)

lemma interior_rows_nth:
  "length (interior_rows bs) = length bs"
  "k < length bs \<Longrightarrow> interior_rows bs ! k = (row_of (bs ! k))\<lparr>ro_f := if rebirth (bs ! k) then 1 else 0\<rparr>"
proof (induction bs arbitrary: k)
  case (Cons b bs)
  {
    case 2
    have "(row_of b)\<lparr>ro_f := 1\<rparr> = row_of b" using ro_f_row_of [of b] by simp
    then show ?case using 2 Cons(2) by (cases k) simp_all
  next
    case 1
    then show ?case using Cons(1) by simp
  }
qed simp_all

lemma bucket_rows_nth:
  "length (bucket_rows bs) = length bs"
  "k < length bs \<Longrightarrow> bucket_rows bs ! k = (row_of (bs ! k))\<lparr>ro_f := flag_at bs k\<rparr>"
proof -
  show "length (bucket_rows bs) = length bs" by (cases bs) (simp_all add: interior_rows_nth)
  show "bucket_rows bs ! k = (row_of (bs ! k))\<lparr>ro_f := flag_at bs k\<rparr>" if "k < length bs"
  proof (cases bs)
    case (Cons b bt)
    have "(row_of b)\<lparr>ro_f := 1\<rparr> = row_of b" using ro_f_row_of [of b] by simp
    then show ?thesis using that by (cases k) (simp_all add: Cons flag_at_def interior_rows_nth)
  qed (use that in simp)
qed

lemma foldl_restart: "ro_f r \<noteq> 0 \<Longrightarrow> foldl rowop_seg x (xs @ r # ys) = foldl rowop_seg r ys"
  by (induction xs arbitrary: x) (simp_all add: rowop_seg_def)

lemma scan_of_bucket:
  assumes "\<forall>x \<in> set (P @ rs @ Q). rowop_ok x" "k < length rs" "ro_f (hd rs) \<noteq> 0"
  shows "order_scan (P @ rs @ Q) ! (length P + k) = after_at rs k"
proof -
  obtain r rt where rs: "rs = r # rt" using assms(2) by (cases rs) auto
  have i: "length P + k < length (P @ rs @ Q)" using assms(2) by simp
  have w: "rows.window e 0 i = foldl rowop_seg (e ! 0) (take i (tl e))" if "i < length e" for e i
  proof -
    have "map (nth e) [Suc 0..<Suc i] = take i (tl e)"
      using that by (intro nth_equalityI) (auto simp: nth_tl simp del: upt_Suc)
    then show ?thesis by (simp add: rows.window_def)
  qed
  have "order_scan (P @ rs @ Q) ! (length P + k)
      = foldl rowop_seg ((P @ rs @ Q) ! 0) (take (length P + k) (tl (P @ rs @ Q)))"
    using order_scan_window [OF assms(1) i] w [OF i] by simp
  also have "\<dots> = foldl rowop_seg r (take k rt)"
  proof (cases P)
    case Nil
    then show ?thesis using assms(2) by (simp add: rs)
  next
    case (Cons p P')
    have "take (length P + k) (tl (P @ rs @ Q)) = P' @ r # take k rt"
      using assms(2) by (simp add: rs Cons)
    then show ?thesis using foldl_restart assms(3) by (simp add: rs)
  qed
  finally show ?thesis by (simp add: rs after_at_def)
qed

text \<open>Prefix and entry that the resolver reads are the ones of the bucket.\<close>

lemma pre_of_bucket:
  assumes "\<forall>x \<in> set (P @ rs @ Q). rowop_ok x" "length rs = length bs" "k < length rs"
    and "\<forall>k < length bs. ro_f (rs ! k) = flag_at bs k"
  shows "pre_of (order_scan (P @ rs @ Q)) (map ro_f (P @ rs @ Q)) (length P + k) = before_at bs rs k"
proof -
  have f: "map ro_f (P @ rs @ Q) ! (length P + k) = flag_at bs k"
    using assms(2-4) by (simp add: nth_append)
  have "0 < length bs" using assms(2,3) by linarith
  then have "ro_f (rs ! 0) = flag_at bs 0" using assms(4) by blast
  then have h: "ro_f (hd rs) \<noteq> 0" using assms(3) by (cases rs) (simp_all add: flag_at_def)
  show ?thesis
  proof (cases "k = 0 \<or> rebirth (bs ! k)")
    case True
    then have "flag_at bs k \<noteq> 0" by (auto simp: flag_at_def)
    then show ?thesis using True f by (simp add: pre_of_def before_at_def)
  next
    case False
    then have z: "flag_at bs k = 0" "\<not> (length P + k = 0)" and i: "length P + k - 1 = length P + (k - 1)" "k - 1 < length rs"
      using assms(3) by (auto simp: flag_at_def)
    have "order_scan (P @ rs @ Q) ! (length P + k - 1) = after_at rs (k - 1)"
      unfolding i(1) by (rule scan_of_bucket [OF assms(1) i(2) h])
    then show ?thesis unfolding pre_of_def before_at_def f using False z by simp
  qed
qed

section \<open>Properties\<close>

lemma settled_flag: "settled b reg f r \<Longrightarrow> ro_f r = f"
  by (auto simp: settled_def anchor_row_def)

lemma bucket_emit_at:
  assumes "\<forall>x \<in> set (P @ rs @ Q). rowop_ok x" "length rs = length bs" "k < length bs"
    and "\<forall>k < length bs. ro_f (rs ! k) = flag_at bs k"
  shows "bucket_emit (order_scan (P @ rs @ Q)) (map ro_f (P @ rs @ Q)) (length P) carry bs k
      = emit_row (before_at bs rs k) (entry_at carry bs k) (bs ! k)"
    "state_at (order_scan (P @ rs @ Q)) (map ro_f (P @ rs @ Q)) (length P) carry bs k
      = closed_form (before_at bs rs k) (case entry_at carry bs k of None \<Rightarrow> (0, 0, 0) | Some e \<Rightarrow> e)"
  using pre_of_bucket [OF assms(1,2) _ assms(4), of k] assms(2,3)
  by (simp_all add: bucket_emit_def state_at_def entry_at_def)

lemma rebirth_emit: "rebirth b \<Longrightarrow> \<not> clamp_arm b" "rebirth b \<Longrightarrow> emit_row cmp ent b = resolve b reg"
  by (cases b; auto simp: emit_def act_defs Let_def)+

lemma bucket_rows_ok: "\<forall>x \<in> set (bucket_rows bs). rowop_ok x"
  by (auto simp: in_set_conv_nth bucket_rows_nth row_of_ok)

lemma first_bucket:
  assumes "bs \<noteq> []" "length bs \<le> SCAN_B_MAX" "\<forall>b \<in> set bs. known_act b" "\<forall>r. carry = Some r \<longrightarrow> snd (snd r) < 2 ^ 32"
  shows "first.bucket carry bs (bucket_rows bs)"
  using assms by (simp add: first.bucket_def bucket_rows_nth)

text \<open>One round settles the bucket.\<close>

lemma reanchor_settled:
  assumes "first.bucket carry bs (bucket_rows bs)" "\<forall>x \<in> set (P @ Q). rowop_ok x"
  shows "final.bucket carry bs (reanchor_bucket (order_scan (P @ bucket_rows bs @ Q)) (map ro_f (P @ bucket_rows bs @ Q))
      (length P) carry bs (bucket_rows bs))"
    (is "final.bucket carry bs ?re")
proof -
  have ok: "\<forall>x \<in> set (P @ bucket_rows bs @ Q). rowop_ok x" using assms(2) bucket_rows_ok by auto
  have fl: "\<forall>k < length bs. ro_f (bucket_rows bs ! k) = flag_at bs k" by (simp add: bucket_rows_nth)
  note at = bucket_emit_at [OF ok bucket_rows_nth(1) _ fl]
  have re: "?re ! k = settle_row (before_at bs (bucket_rows bs) k) (entry_at carry bs k) (bs ! k) (flag_at bs k)"
    if "k < length bs" for k
    using that by (simp add: reanchor_bucket_def settle_row_def at bucket_rows_nth del: append_assoc map_append)
  have "settled (bs ! k) (register_at carry bs k) (flag_at bs k) (?re ! k)" if k: "k < length bs" for k
  proof (cases "rebirth (bs ! k)")
    case True
    then show ?thesis unfolding re [OF k] using rebirth_emit(1) [OF True] by (simp add: settle_row_def settled_def)
  next
    case False
    have "known_act (bs ! k)" using assms(1) k by (simp add: first.bucket_def)
    then show ?thesis
      unfolding re [OF k] using round_settles(1) [OF first.before_rel [OF assms(1) k False] False] by blast
  qed
  moreover have "length ?re = length bs" by (simp add: reanchor_bucket_def)
  ultimately show ?thesis using assms(1) by (simp add: final.bucket_def first.bucket_def)
qed

text \<open>C15: (The scan resolves as the sequential order register does.)  Take the rows of one order id in a
  batch of at most 512 rows, among the rows of any other orders, with the register the earlier
  batches left: births, executions, cancels, deletes and both halves of replaces, any of them
  asking for more than remains.  After one round of re-anchoring, the closed form at every row
  emits exactly what the sequential register resolves there, anomalies and clamps included; every
  row that clamps was rewritten in the first round, so the loop ends; and the register carried to
  the next batch is the sequential one.\<close>

theorem push_resolve_sequential:
  assumes "bs \<noteq> []" "length bs \<le> SCAN_B_MAX" "\<forall>b \<in> set bs. known_act b" "\<forall>r. carry = Some r \<longrightarrow> snd (snd r) < 2 ^ 32"
    and "\<forall>x \<in> set (P @ Q). rowop_ok x" "\<forall>x \<in> set (P' @ Q'). rowop_ok x" "length P' = length P"
    and "rows1 = P @ bucket_rows bs @ Q"
    and "rows2 = P' @ reanchor_bucket (order_scan rows1) (map ro_f rows1) (length P) carry bs (bucket_rows bs) @ Q'"
  shows "(\<forall>k < length bs. bucket_emit (order_scan rows2) (map ro_f rows2) (length P) carry bs k
            = resolve (bs ! k) (register_run (take k bs) carry)) \<and>
     (\<forall>k < length bs. clamp_arm (bs ! k) \<and> rs_ok (bucket_emit (order_scan rows2) (map ro_f rows2) (length P) carry bs k) = 2 \<longrightarrow>
            rs_ok (bucket_emit (order_scan rows1) (map ro_f rows1) (length P) carry bs k) = 2) \<and>
     carry_of (ent_of carry (run_head (hd bs) (tl bs))) (order_scan rows2 ! (length P + length bs - 1)) = register_run bs carry"
proof -
  define re where "re = reanchor_bucket (order_scan rows1) (map ro_f rows1) (length P) carry bs (bucket_rows bs)"
  have b1: "first.bucket carry bs (bucket_rows bs)" using first_bucket assms(1-4) .
  have b2: "final.bucket carry bs re" unfolding re_def assms(8) using reanchor_settled [OF b1 assms(5)] .
  have l: "length re = length bs" using b2 by (simp add: final.bucket_def)
  have fl: "\<forall>k < length bs. ro_f (re ! k) = flag_at bs k" using b2 settled_flag unfolding final.bucket_def by blast
  have ok: "\<forall>x \<in> set (P' @ re @ Q'). rowop_ok x"
  proof -
    have "rowop_ok (re ! k)" if "k < length re" for k
      using b2 that settled_ok unfolding final.bucket_def l by blast
    then have "\<forall>x \<in> set re. rowop_ok x" by (auto simp: in_set_conv_nth)
    then show ?thesis using assms(6) by auto
  qed
  have rows2: "rows2 = P' @ re @ Q'" using assms(9) by (simp add: re_def)
  have ok1: "\<forall>x \<in> set (P @ bucket_rows bs @ Q). rowop_ok x" using assms(5) bucket_rows_ok by auto
  have fl1: "\<forall>k < length bs. ro_f (bucket_rows bs ! k) = flag_at bs k" by (simp add: bucket_rows_nth)
  note at1 = bucket_emit_at(1) [OF ok1 bucket_rows_nth(1) _ fl1, of _ carry, folded assms(8)]
  note at2 = bucket_emit_at(1) [OF ok l _ fl, of _ carry, folded rows2, unfolded assms(7)]
  have known: "known_act (bs ! k)" if "k < length bs" for k using assms(3) that by simp
  have res: "bucket_emit (order_scan rows2) (map ro_f rows2) (length P) carry bs k = resolve (bs ! k) (register_at carry bs k)"
    if k: "k < length bs" for k
  proof (cases "rebirth (bs ! k)")
    case True
    then show ?thesis using at2 [OF k] rebirth_emit(2) [OF True] by simp
  next
    case False
    then show ?thesis using at2 [OF k] emit_reference [OF final.before_rel [OF b2 k False] False known [OF k]] by simp
  qed
  have conv: "rs_ok (bucket_emit (order_scan rows1) (map ro_f rows1) (length P) carry bs k) = 2"
    if k: "k < length bs" and c: "clamp_arm (bs ! k)" "rs_ok (resolve (bs ! k) (register_at carry bs k)) = 2" for k
  proof -
    have nr: "\<not> rebirth (bs ! k)" using rebirth_emit(1) c(1) by blast
    show ?thesis using round_settles(2) [OF first.before_rel [OF b1 k nr] nr known [OF k] c] at1 [OF k] by simp
  qed
  let ?n = "length bs - 1"
  have n: "?n < length bs" "Suc ?n = length bs" using assms(1) by (simp_all add: Suc_diff_Suc)
  have "order_scan rows2 ! (length P' + ?n) = after_at re ?n"
  proof -
    have "0 < length bs" using assms(1) by simp
    then have "ro_f (re ! 0) = flag_at bs 0" using fl by blast
    then have "ro_f (hd re) \<noteq> 0" using l n(1) by (cases re) (simp_all add: flag_at_def)
    then show ?thesis unfolding rows2 using scan_of_bucket [OF ok, of ?n] n(1) l by simp
  qed
  moreover have "length P' + ?n = length P + length bs - 1" using assms(7) n(2) by linarith
  moreover have "entry_at carry bs ?n = ent_of carry (run_head (hd bs) (tl bs))" by (simp add: entry_at_def)
  moreover have "rep (entry_at carry bs ?n) (after_at re ?n) (register_run bs carry)"
    using final.after_rel [OF b2 n(1)] unfolding n(2) by (simp add: register_at_def)
  moreover have "carry_of ent cmp = reg" if "rep ent cmp reg" for ent cmp reg
    using that by (cases reg) (auto simp: rep_def carry_of_def split: option.split)
  ultimately show ?thesis using res conv by (simp add: register_at_def)
qed

lemma push_resolve_sequential_witness:
  "bucket_emit
     (order_scan (reanchor_bucket
        (order_scan (bucket_rows [Ref ACT_A 5 100 7 0x42, Ref ACT_E 9 0 7 0]))
        (map ro_f (bucket_rows [Ref ACT_A 5 100 7 0x42, Ref ACT_E 9 0 7 0])) 0 None
        [Ref ACT_A 5 100 7 0x42, Ref ACT_E 9 0 7 0] (bucket_rows [Ref ACT_A 5 100 7 0x42, Ref ACT_E 9 0 7 0])))
     (map ro_f (reanchor_bucket
        (order_scan (bucket_rows [Ref ACT_A 5 100 7 0x42, Ref ACT_E 9 0 7 0]))
        (map ro_f (bucket_rows [Ref ACT_A 5 100 7 0x42, Ref ACT_E 9 0 7 0])) 0 None
        [Ref ACT_A 5 100 7 0x42, Ref ACT_E 9 0 7 0] (bucket_rows [Ref ACT_A 5 100 7 0x42, Ref ACT_E 9 0 7 0])))
     0 None [Ref ACT_A 5 100 7 0x42, Ref ACT_E 9 0 7 0] 1
   = \<lparr>rs_db = - 5, rs_da = 0, rs_px = 100, rs_ok = 2\<rparr>"
proof -
  let ?bs = "[Ref ACT_A 5 100 7 0x42, Ref ACT_E 9 0 7 0]"
  have len: "length ?bs \<le> SCAN_B_MAX" by (simp add: SCAN_B_MAX_def)
  have known: "\<forall>b \<in> set ?bs. known_act b" by simp
  have one: "1 < length ?bs" by simp
  have r: "resolve (?bs ! 1) (register_run (take 1 ?bs) None) = \<lparr>rs_db = - 5, rs_da = 0, rs_px = 100, rs_ok = 2\<rparr>"
    by (simp add: act_defs identity_word_def)
  show ?thesis
    using push_resolve_sequential [of ?bs None "[]" "[]" "[]" "[]", OF _ len known _ _ _ _ refl refl] one r
    by (simp del: resolve.simps register_run.simps take_Suc_Cons)
qed

end
