(* ===== verification/LobState.thy ===== *)
theory LobState
  imports OrderScan
begin

text \<open>
  Aggregate order book states (\<open>crates/nf-testkit/src/lobstate.rs\<close>): the translation deltas of
  events and their batched composition, the prefix scan over windows, affine maps, and the chunk
  signatures with their last-writer price, each with its scalar and its AVX-512 path.
\<close>

section \<open>Events and windows\<close>

datatype LobKind = Add | Exec | Cancel

record LobEvent =
  le_kind :: LobKind
  le_px :: u32
  le_qty :: u32

record LobState =
  ls_volume :: u64
  ls_pv :: u64
  ls_count :: u64

definition event_delta :: "LobEvent \<Rightarrow> u64 \<times> u64 \<times> u64" where
  "event_delta e =
     (let q = ucast (le_qty e); pqp = ucast (le_px e) * q
      in case le_kind e of Add \<Rightarrow> (q, pqp, 1) | Exec \<Rightarrow> (- q, - pqp, - 1) | Cancel \<Rightarrow> (- q, - pqp, - 1))"

definition add_delta :: "LobState \<Rightarrow> u64 \<times> u64 \<times> u64 \<Rightarrow> LobState" where
  "add_delta s d = s\<lparr>ls_volume := ls_volume s + fst d, ls_pv := ls_pv s + fst (snd d), ls_count := ls_count s + snd (snd d)\<rparr>"

definition apply_event :: "LobState \<Rightarrow> LobEvent \<Rightarrow> LobState" where
  "apply_event s e = add_delta s (event_delta e)"

definition vwap_ticks :: "LobState \<Rightarrow> u64 option" where
  "vwap_ticks s = (if ls_volume s = 0 then None else Some (ls_pv s div ls_volume s))"

text \<open>The scalar loop, also the tail of the vector path.\<close>

fun compose_loop :: "LobEvent list \<Rightarrow> u64 \<times> u64 \<times> u64 \<Rightarrow> u64 \<times> u64 \<times> u64" where
  "compose_loop [] acc = acc"
| "compose_loop (e # es) acc =
     (let d = event_delta e in compose_loop es (fst acc + fst d, fst (snd acc) + fst (snd d), snd (snd acc) + snd (snd d)))"

text \<open>Horizontal sum of eight lanes: four pairs, then left to right.\<close>

definition hsum512 :: "u64 list \<Rightarrow> u64" where
  "hsum512 buf = (let a = map (\<lambda>j. buf ! (2 * j) + buf ! (2 * j + 1)) [0..<4] in a ! 0 + a ! 1 + a ! 2 + a ! 3)"

definition add_epi64 :: "u64 list \<Rightarrow> u64 list \<Rightarrow> u64 list" where
  "add_epi64 x y = map2 (+) x y"

function compose_blocks :: "LobEvent list \<Rightarrow> nat \<Rightarrow> u64 list \<times> u64 list \<times> u64 list \<Rightarrow> (u64 list \<times> u64 list \<times> u64 list) \<times> nat" where
  "compose_blocks events i acc =
     (if i + 8 \<le> length events
      then let ds = map event_delta (take 8 (drop i events))
           in compose_blocks events (i + 8)
                (add_epi64 (fst acc) (map fst ds), add_epi64 (fst (snd acc)) (map (fst \<circ> snd) ds),
                 add_epi64 (snd (snd acc)) (map (snd \<circ> snd) ds))
      else (acc, i))"
  by pat_completeness auto
termination compose_blocks by (relation "measure (\<lambda>(events, i, acc). length events - i)") auto

declare compose_blocks.simps [simp del]

definition batch_compose_vec :: "LobEvent list \<Rightarrow> u64 \<times> u64 \<times> u64" where
  "batch_compose_vec events =
     (let (acc, i) = compose_blocks events 0 (zero8, zero8, zero8)
      in compose_loop (drop i events) (hsum512 (fst acc), hsum512 (fst (snd acc)), hsum512 (snd (snd acc))))"

definition batch_compose :: "bool \<Rightarrow> LobEvent list \<Rightarrow> u64 \<times> u64 \<times> u64" where
  "batch_compose avx512 events =
     (if 32 \<le> length events \<and> avx512 then batch_compose_vec events else compose_loop events (0, 0, 0))"

function window_loop :: "bool \<Rightarrow> nat \<Rightarrow> LobEvent list \<Rightarrow> nat \<Rightarrow> LobState \<Rightarrow> LobState list" where
  "window_loop avx512 block events i s =
     (if i < length events \<and> 0 < block
      then let e = min (i + block) (length events);
               s' = add_delta s (batch_compose avx512 (take (e - i) (drop i events)))
           in s' # window_loop avx512 block events e s'
      else [])"
  by pat_completeness auto
termination window_loop by (relation "measure (\<lambda>(avx512, block, events, i, s). length events - i)") auto

declare window_loop.simps [simp del]

text \<open>A zero block size panics: \<open>None\<close>.\<close>

definition window_states :: "bool \<Rightarrow> LobState \<Rightarrow> LobEvent list \<Rightarrow> nat \<Rightarrow> LobState list option" where
  "window_states avx512 state0 events block =
     (if 0 < block then Some (window_loop avx512 block events 0 state0) else None)"

fun max_px :: "u32 option \<Rightarrow> LobEvent list \<Rightarrow> u32 option" where
  "max_px m [] = m"
| "max_px m (e # es) =
     (if le_kind e = Add then max_px (Some (case m of None \<Rightarrow> le_px e | Some p \<Rightarrow> max p (le_px e))) es else max_px m es)"

definition best_px :: "LobEvent list \<Rightarrow> u32 option" where
  "best_px events = max_px None events"

section \<open>Affine maps\<close>

text \<open>Three rows of four coefficients and a column of four.\<close>

record Affine4 =
  af_m :: "u64 list list"
  af_b :: "u64 list"

definition Affine4_IDENTITY :: Affine4 where
  "Affine4_IDENTITY = \<lparr>af_m = [[1, 0, 0, 0], [0, 1, 0, 0], [0, 0, 1, 0]], af_b = [0, 0, 0, 1]\<rparr>"

definition translation :: "u64 list \<Rightarrow> Affine4" where
  "translation d = \<lparr>af_m = af_m Affine4_IDENTITY, af_b = d\<rparr>"

definition affine_compose :: "Affine4 \<Rightarrow> Affine4 \<Rightarrow> Affine4" where
  "affine_compose f g =
     \<lparr>af_m = map (\<lambda>r. map (\<lambda>c. foldl (\<lambda>acc k. acc + af_m f ! r ! k * (if k < 3 then af_m g ! k ! c else [0, 0, 0, 1] ! c)) 0 [0..<4]) [0..<4]) [0..<3],
      af_b = map (\<lambda>r. foldl (\<lambda>acc k. acc + af_m f ! r ! k * af_b g ! k) (af_b f ! r) [0..<3]) [0..<3] @ [1]\<rparr>"

definition affine_apply :: "Affine4 \<Rightarrow> u64 list \<Rightarrow> u64 list" where
  "affine_apply f x = map (\<lambda>r. foldl (\<lambda>acc c. acc + af_m f ! r ! c * x ! c) (af_b f ! r) [0..<4]) [0..<3] @ [1]"

section \<open>Chunk signatures\<close>

definition SIG_CHUNK :: nat where "SIG_CHUNK = 512"

record Sig =
  sig_db :: u64
  sig_da :: u64
  sig_px :: u64
  sig_seq :: u64

definition Sig_IDENTITY :: Sig where
  "Sig_IDENTITY = \<lparr>sig_db = 0, sig_da = 0, sig_px = 0, sig_seq = 0\<rparr>"

definition sig_combine :: "Sig \<Rightarrow> Sig \<Rightarrow> Sig" where
  "sig_combine x y =
     (let use_y = sig_seq x < sig_seq y
      in \<lparr>sig_db = sig_db x + sig_db y, sig_da = sig_da x + sig_da y,
          sig_px = if use_y then sig_px y else sig_px x, sig_seq = if use_y then sig_seq y else sig_seq x\<rparr>)"

record Lob3 =
  l3_b :: u64
  l3_a :: u64
  l3_p :: u64

definition apply_sig :: "Lob3 \<Rightarrow> Sig \<Rightarrow> Lob3" where
  "apply_sig s g =
     (let s = s\<lparr>l3_b := l3_b s + sig_db g, l3_a := l3_a s + sig_da g\<rparr>
      in if sig_seq g \<noteq> 0 then s\<lparr>l3_p := sig_px g\<rparr> else s)"

record SigTokens =
  tk_seq :: "u64 list"
  tk_px :: "u64 list"
  tk_db :: "u64 list"
  tk_da :: "u64 list"

definition SigTokens_default :: SigTokens where
  "SigTokens_default = \<lparr>tk_seq = replicate SIG_CHUNK 0, tk_px = replicate SIG_CHUNK 0,
     tk_db = replicate SIG_CHUNK 0, tk_da = replicate SIG_CHUNK 0\<rparr>"

text \<open>An index out of the arrays panics: \<open>None\<close>.\<close>

definition emit_token :: "nat \<Rightarrow> u64 \<Rightarrow> u64 \<Rightarrow> u64 \<Rightarrow> u64 \<Rightarrow> SigTokens \<Rightarrow> SigTokens option" where
  "emit_token i seq px db da t =
     (if i < SIG_CHUNK
      then Some (t\<lparr>tk_seq := (tk_seq t)[i := seq], tk_px := (tk_px t)[i := px], tk_db := (tk_db t)[i := db], tk_da := (tk_da t)[i := da]\<rparr>)
      else None)"

definition clear_tokens :: "SigTokens \<Rightarrow> SigTokens" where
  "clear_tokens t = SigTokens_default"

definition token_at :: "u64 list \<Rightarrow> u64 list \<Rightarrow> u64 list \<Rightarrow> u64 list \<Rightarrow> nat \<Rightarrow> Sig" where
  "token_at seq px db da i = \<lparr>sig_db = db ! i, sig_da = da ! i, sig_px = px ! i, sig_seq = seq ! i\<rparr>"

definition sig_fold_scalar :: "u64 list \<Rightarrow> u64 list \<Rightarrow> u64 list \<Rightarrow> u64 list \<Rightarrow> Sig" where
  "sig_fold_scalar seq px db da =
     foldl (\<lambda>acc i. sig_combine acc (token_at seq px db da i)) Sig_IDENTITY [0..<length seq]"

function vsum_loop :: "u64 list \<Rightarrow> nat \<Rightarrow> u64 list \<Rightarrow> u64 list \<times> nat" where
  "vsum_loop v i acc = (if i + 8 \<le> length v then vsum_loop v (i + 8) (add_epi64 acc (loadu8 v i)) else (acc, i))"
  by pat_completeness auto
termination vsum_loop by (relation "measure (\<lambda>(v, i, acc). length v - i)") auto

declare vsum_loop.simps [simp del]

definition vsum512_tree :: "u64 list \<Rightarrow> u64" where
  "vsum512_tree v = (let (acc, i) = vsum_loop v 0 zero8 in foldl (+) (hsum512 acc) (drop i v))"

text \<open>The lane-wise tagged maximum over the blocks from \<open>off\<close>: keys by unsigned maximum, payloads from
  the lanes whose later key is greater.\<close>

definition cmpgt8 :: "u64 list \<Rightarrow> u64 list \<Rightarrow> bool list" where
  "cmpgt8 x y = map2 (\<lambda>a b. b < a) x y"

definition max8 :: "u64 list \<Rightarrow> u64 list \<Rightarrow> u64 list" where
  "max8 x y = map2 max x y"

function lane_max :: "u64 list \<Rightarrow> u64 list \<Rightarrow> nat \<Rightarrow> nat \<Rightarrow> u64 list \<times> u64 list \<Rightarrow> u64 list \<times> u64 list" where
  "lane_max seq px nv off sp =
     (if off < nv
      then let s2 = loadu8 seq off; p2 = loadu8 px off; w = cmpgt8 s2 (fst sp)
           in lane_max seq px nv (off + 8) (max8 (fst sp) s2, mask_mov8 (snd sp) w p2)
      else sp)"
  by pat_completeness auto
termination lane_max by (relation "measure (\<lambda>(seq, px, nv, off, sp). nv - off)") auto

declare lane_max.simps [simp del]

definition sig_lanes :: "u64 list \<Rightarrow> u64 list \<Rightarrow> nat \<Rightarrow> u64 list \<times> u64 list" where
  "sig_lanes seq px nv = lane_max seq px nv 8 (loadu8 seq 0, loadu8 px 0)"

text \<open>The assertion of debug builds: the greatest key, if any, is in one lane.\<close>

definition key_guard :: "u64 list \<Rightarrow> bool" where
  "key_guard ks = (let maxk = foldl max 0 ks in 0 < maxk \<longrightarrow> length (filter (\<lambda>k. k = maxk) ks) = 1)"

definition sig_fold_avx512 :: "u64 list \<Rightarrow> u64 list \<Rightarrow> u64 list \<Rightarrow> u64 list \<Rightarrow> Sig" where
  "sig_fold_avx512 seq px db da =
     (let n = length seq; nv = n - n mod 8;
          acc = \<lparr>sig_db = vsum512_tree (take nv db), sig_da = vsum512_tree (take nv da), sig_px = 0, sig_seq = 0\<rparr>;
          acc = (if 8 \<le> nv
                 then let (ks, ps) = sig_lanes seq px nv
                      in foldl (\<lambda>acc i. sig_combine acc \<lparr>sig_db = 0, sig_da = 0, sig_px = ps ! i, sig_seq = ks ! i\<rparr>) acc [0..<8]
                 else acc)
      in foldl (\<lambda>acc i. sig_combine acc (token_at seq px db da i)) acc [nv..<n])"

definition sig_fold :: "bool \<Rightarrow> u64 list \<Rightarrow> u64 list \<Rightarrow> u64 list \<Rightarrow> u64 list \<Rightarrow> Sig" where
  "sig_fold avx512 seq px db da =
     (if 16 \<le> length seq \<and> avx512 then sig_fold_avx512 seq px db da else sig_fold_scalar seq px db da)"

function chunk_loop :: "bool \<Rightarrow> u64 list \<Rightarrow> u64 list \<Rightarrow> u64 list \<Rightarrow> u64 list \<Rightarrow> nat \<Rightarrow> nat \<Rightarrow> Sig list" where
  "chunk_loop avx512 seq px db da chunk i =
     (if i < length seq \<and> 0 < chunk
      then let e = min (i + chunk) (length seq); part = (\<lambda>xs. take (e - i) (drop i xs))
           in sig_fold avx512 (part seq) (part px) (part db) (part da) # chunk_loop avx512 seq px db da chunk e
      else [])"
  by pat_completeness auto
termination chunk_loop by (relation "measure (\<lambda>(avx512, seq, px, db, da, chunk, i). length seq - i)") auto

declare chunk_loop.simps [simp del]

definition sig_chunk_signatures :: "bool \<Rightarrow> u64 list \<Rightarrow> u64 list \<Rightarrow> u64 list \<Rightarrow> u64 list \<Rightarrow> nat \<Rightarrow> Sig list option" where
  "sig_chunk_signatures avx512 seq px db da chunk =
     (if 0 < chunk then Some (chunk_loop avx512 seq px db da chunk 0) else None)"

fun states_of :: "Lob3 \<Rightarrow> Sig list \<Rightarrow> Lob3 list" where
  "states_of s [] = []"
| "states_of s (g # gs) = (let s' = apply_sig s g in s' # states_of s' gs)"

definition sig_pass_states :: "bool \<Rightarrow> Lob3 \<Rightarrow> u64 list \<Rightarrow> u64 list \<Rightarrow> u64 list \<Rightarrow> u64 list \<Rightarrow> nat \<Rightarrow> Lob3 list option" where
  "sig_pass_states avx512 s0 seq px db da chunk =
     map_option (states_of s0) (sig_chunk_signatures avx512 seq px db da chunk)"

section \<open>Lanes and sums\<close>

lemma length8_cases:
  assumes "length (x :: 'a list) = 8"
  obtains a b c d e f g h where "x = [a, b, c, d, e, f, g, h]"
  using assms by (auto simp: numeral_eq_Suc length_Suc_conv)

lemma hsum512_sum: "length x = 8 \<Longrightarrow> hsum512 x = sum_list x"
  by (erule length8_cases) (simp add: hsum512_def Let_def upt_rec add.assoc)

lemma add_epi64_sum: "length x = length y \<Longrightarrow> sum_list (add_epi64 x y) = sum_list x + sum_list y"
  unfolding add_epi64_def by (induction x y rule: list_induct2) (simp_all add: algebra_simps)

lemma add_epi64_length [simp]: "length (add_epi64 x y) = min (length x) (length y)"
  by (simp add: add_epi64_def)

lemma foldl_sum: "foldl (+) (a :: u64) xs = a + sum_list xs"
  by (induction xs arbitrary: a) (simp_all add: add.assoc)

lemma block_sum: "i + 8 \<le> length v \<Longrightarrow> sum_list (take 8 (drop i v)) + sum_list (drop (i + 8) v) = sum_list (drop i (v :: u64 list))"
proof -
  have "drop i v = take 8 (drop i v) @ drop (i + 8) v" by (metis append_take_drop_id drop_drop add.commute)
  then show ?thesis by (metis sum_list_append)
qed

lemma zero8_sum: "sum_list (zero8 :: u64 list) = 0"
  by (simp add: sum_list_replicate)

lemma compose_loop_sum:
  "compose_loop es acc = (fst acc + sum_list (map (fst \<circ> event_delta) es),
     fst (snd acc) + sum_list (map (fst \<circ> snd \<circ> event_delta) es), snd (snd acc) + sum_list (map (snd \<circ> snd \<circ> event_delta) es))"
  by (induction es acc rule: compose_loop.induct) (simp_all add: Let_def add.assoc)

lemma compose_blocks_sum:
  assumes "length (fst acc) = 8" "length (fst (snd acc)) = 8" "length (snd (snd acc)) = 8"
    and "compose_blocks events i acc = (acc', i')"
  shows "length (fst acc') = 8 \<and> length (fst (snd acc')) = 8 \<and> length (snd (snd acc')) = 8 \<and>
    sum_list (fst acc') + sum_list (drop i' (map (fst \<circ> event_delta) events))
      = sum_list (fst acc) + sum_list (drop i (map (fst \<circ> event_delta) events)) \<and>
    sum_list (fst (snd acc')) + sum_list (drop i' (map (fst \<circ> snd \<circ> event_delta) events))
      = sum_list (fst (snd acc)) + sum_list (drop i (map (fst \<circ> snd \<circ> event_delta) events)) \<and>
    sum_list (snd (snd acc')) + sum_list (drop i' (map (snd \<circ> snd \<circ> event_delta) events))
      = sum_list (snd (snd acc)) + sum_list (drop i (map (snd \<circ> snd \<circ> event_delta) events))"
  using assms
proof (induction events i acc arbitrary: acc' i' rule: compose_blocks.induct)
  case (1 events i acc)
  show ?case
  proof (cases "i + 8 \<le> length events")
    case True
    let ?ds = "map event_delta (take 8 (drop i events))"
    let ?acc = "(add_epi64 (fst acc) (map fst ?ds), add_epi64 (fst (snd acc)) (map (fst \<circ> snd) ?ds),
        add_epi64 (snd (snd acc)) (map (snd \<circ> snd) ?ds))"
    have l: "length ?ds = 8" using True by simp
    have step: "compose_blocks events (i + 8) ?acc = (acc', i')"
      using 1(5) True by (subst (asm) compose_blocks.simps) (simp add: Let_def)
    have s: "sum_list (add_epi64 x (map g ?ds)) + sum_list (drop (i + 8) (map (g \<circ> event_delta) events))
        = sum_list x + sum_list (drop i (map (g \<circ> event_delta) events))" if "length x = 8"
      for x :: "u64 list" and g :: "u64 \<times> u64 \<times> u64 \<Rightarrow> u64"
    proof -
      have "map g ?ds = take 8 (drop i (map (g \<circ> event_delta) events))" by (simp add: drop_map take_map)
      then show ?thesis using block_sum [of i "map (g \<circ> event_delta) events"] True that l
        by (simp add: add_epi64_sum add.assoc)
    qed
    note r = s [OF 1(2), of fst] s [OF 1(3), of "fst \<circ> snd"] s [OF 1(4), of "snd \<circ> snd"]
    show ?thesis
      using 1(1) [OF True refl _ _ _ step] 1(2-4) l unfolding fst_conv snd_conv r by (simp add: comp_def)
  next
    case False
    then show ?thesis using 1(2-5) by (subst (asm) compose_blocks.simps) simp
  qed
qed

lemma batch_compose_scalar: "batch_compose avx512 events = compose_loop events (0, 0, 0)"
proof -
  obtain acc i where b: "compose_blocks events 0 (zero8, zero8, zero8) = (acc, i)" by fastforce
  note s = compose_blocks_sum [OF _ _ _ b]
  have "batch_compose_vec events = compose_loop events (0, 0, 0)"
    using s by (simp add: batch_compose_vec_def b compose_loop_sum hsum512_sum drop_map zero8_sum)
  then show ?thesis by (simp add: batch_compose_def)
qed

lemma add_delta_compose: "add_delta (add_delta s x) y = add_delta s (fst x + fst y, fst (snd x) + fst (snd y), snd (snd x) + snd (snd y))"
  by (simp add: add_delta_def add.assoc)

lemma compose_loop_apply: "add_delta s (compose_loop es acc) = foldl apply_event (add_delta s acc) es"
proof (induction es acc arbitrary: s rule: compose_loop.induct)
  case (2 e es acc)
  then show ?case by (simp add: Let_def apply_event_def add_delta_compose)
qed simp

lemma batch_compose_apply: "add_delta s (batch_compose avx512 es) = foldl apply_event s es"
  using compose_loop_apply [of s es "(0, 0, 0)"] by (simp add: batch_compose_scalar add_delta_def)

section \<open>Windows\<close>

text \<open>A loop over blocks that keeps the state after each block.\<close>

lemma windows_map:
  fixes W :: "nat \<Rightarrow> 's \<Rightarrow> 's list"
  assumes "0 < b"
    and "\<And>i s. W i s = (if i < length xs then foldl f s (take b (drop i xs)) # W (min (i + b) (length xs)) (foldl f s (take b (drop i xs))) else [])"
  shows "W i s = map (\<lambda>j. foldl f s (take (Suc j * b) (drop i xs))) [0..<(length xs - i + b - 1) div b]"
proof (induction "length xs - i" arbitrary: i s rule: less_induct)
  case less
  show ?case
  proof (cases "i < length xs")
    case False
    then have "(length xs - i + b - 1) div b = 0" using assms(1) by simp
    then show ?thesis using assms(2) [of i s] False by simp
  next
    case True
    let ?e = "min (i + b) (length xs)" and ?s = "foldl f s (take b (drop i xs))"
    have div_step: "(n + b) div b = Suc (n div b)" for n using div_add_self2 [of b n] assms(1) by simp
    have cnt: "(length xs - i + b - 1) div b = Suc ((length xs - ?e + b - 1) div b)"
    proof (cases "i + b \<le> length xs")
      case True
      then have "length xs - i + b - 1 = (length xs - ?e + b - 1) + b" using assms(1) by simp
      with div_step show ?thesis by (simp only:)
    next
      case False
      then have n: "length xs - i + b - 1 = (length xs - i - 1) + b" "length xs - i - 1 < b" "length xs - ?e = 0"
        using True by linarith+
      have "(length xs - i - 1) div b = 0" "(0 + b - 1) div b = 0" using n(2) assms(1) by simp_all
      then show ?thesis unfolding n(1,3) div_step by simp
    qed
    have ih: "W ?e ?s = map (\<lambda>j. foldl f ?s (take (Suc j * b) (drop ?e xs))) [0..<(length xs - ?e + b - 1) div b]"
      using True assms(1) by (intro less) linarith
    have d: "take b (drop i xs) @ take (Suc j * b) (drop ?e xs) = take (Suc (Suc j) * b) (drop i xs)" for j
      by (cases "i + b \<le> length xs") (simp_all add: take_add add.commute)
    have "foldl f ?s (take (Suc j * b) (drop ?e xs)) = foldl f s (take (Suc (Suc j) * b) (drop i xs))" for j
      unfolding d [symmetric] foldl_append ..
    then have "W i s = foldl f s (take (Suc 0 * b) (drop i xs)) #
        map (\<lambda>j. foldl f s (take (Suc (Suc j) * b) (drop i xs))) [0..<(length xs - ?e + b - 1) div b]"
      using assms(2) [of i s] True ih by simp
    also have "\<dots> = map (\<lambda>j. foldl f s (take (Suc j * b) (drop i xs))) [0..<(length xs - i + b - 1) div b]"
      unfolding cnt upt_conv_Cons [OF zero_less_Suc] map_Suc_upt [symmetric] list.map(2) map_map by (simp add: comp_def)
    finally show ?thesis .
  qed
qed

text \<open>(Windows are event by event.)  For every block size but zero, with or without AVX-512, the states at the
  window boundaries are the states of the sequential law after each block's last event, one per
  block, the last one after all events.\<close>

theorem window_states_sequential:
  "window_states avx512 s0 events (Suc b)
    = Some (map (\<lambda>j. foldl apply_event s0 (take (Suc j * Suc b) events)) [0..<(length events + b) div Suc b])"
proof -
  have "window_loop avx512 (Suc b) events i s
      = (if i < length events then foldl apply_event s (take (Suc b) (drop i events)) #
          window_loop avx512 (Suc b) events (min (i + Suc b) (length events)) (foldl apply_event s (take (Suc b) (drop i events))) else [])" for i s
  proof -
    have "take (min (i + Suc b) (length events) - i) (drop i events) = take (Suc b) (drop i events)"
      by (cases "i + Suc b \<le> length events") simp_all
    then show ?thesis
      by (subst window_loop.simps) (simp add: Let_def batch_compose_apply del: take_Suc)
  qed
  then have "window_loop avx512 (Suc b) events 0 s0
      = map (\<lambda>j. foldl apply_event s0 (take (Suc j * Suc b) (drop 0 events))) [0..<(length events - 0 + Suc b - 1) div Suc b]"
    by (rule windows_map [OF zero_less_Suc])
  then show ?thesis by (simp add: window_states_def)
qed

section \<open>The newest setter\<close>

text \<open>A signature holds the newest of a set of key and price pairs: no key above its own, price zero
  without a setter.\<close>

definition newest :: "(u64 \<times> u64) set \<Rightarrow> Sig \<Rightarrow> bool" where
  "newest A g \<longleftrightarrow> (\<forall>(k, p) \<in> A. k \<le> sig_seq g) \<and> (sig_seq g = 0 \<longrightarrow> sig_px g = 0) \<and>
     (sig_seq g \<noteq> 0 \<longrightarrow> (sig_seq g, sig_px g) \<in> A)"

lemma newest_combine:
  "newest A g \<Longrightarrow> newest (insert (sig_seq t, sig_px t) A) (sig_combine g t)"
  by (auto simp: newest_def sig_combine_def Let_def not_less)

lemma newest_foldl:
  "newest A g \<Longrightarrow> newest (A \<union> (\<lambda>i. (sig_seq (t i), sig_px (t i))) ` set is) (foldl (\<lambda>acc i. sig_combine acc (t i)) g is)"
proof (induction "is" arbitrary: A g)
  case (Cons i "is")
  have "insert (sig_seq (t i), sig_px (t i)) A \<union> (\<lambda>i. (sig_seq (t i), sig_px (t i))) ` set is
      = A \<union> (\<lambda>i. (sig_seq (t i), sig_px (t i))) ` set (i # is)" by auto
  then show ?case using Cons.IH [OF newest_combine [OF Cons.prems, of "t i"]] by simp
qed simp

lemma combine_sums:
  "sig_db (foldl (\<lambda>acc i. sig_combine acc (t i)) g is) = sig_db g + sum_list (map (\<lambda>i. sig_db (t i)) is)"
  "sig_da (foldl (\<lambda>acc i. sig_combine acc (t i)) g is) = sig_da g + sum_list (map (\<lambda>i. sig_da (t i)) is)"
  by (induction "is" arbitrary: g) (simp_all add: sig_combine_def Let_def add.assoc)

lemma newest_unique:
  assumes "newest A g" "newest A g'" "\<And>k p p'. (k, p) \<in> A \<Longrightarrow> (k, p') \<in> A \<Longrightarrow> k \<noteq> 0 \<Longrightarrow> p = p'"
  shows "sig_seq g = sig_seq g' \<and> sig_px g = sig_px g'"
proof -
  have "sig_seq g \<le> sig_seq g'" using assms(1,2) unfolding newest_def by (cases "sig_seq g = 0") auto
  moreover have "sig_seq g' \<le> sig_seq g" using assms(1,2) unfolding newest_def by (cases "sig_seq g' = 0") auto
  ultimately have "sig_seq g = sig_seq g'" by (rule order.antisym)
  then show ?thesis using assms unfolding newest_def by (cases "sig_seq g = 0") auto
qed

section \<open>The vector fold\<close>

text \<open>Keys are injective: a key other than zero is in one position.\<close>

definition keys_injective :: "u64 list \<Rightarrow> bool" where
  "keys_injective seq \<longleftrightarrow> (\<forall>i < length seq. \<forall>j < length seq. seq ! i = seq ! j \<and> seq ! i \<noteq> 0 \<longrightarrow> i = j)"

text \<open>After the blocks below \<open>off\<close>, each lane holds a pair of its own positions with the greatest key.\<close>

definition lanes_ok :: "u64 list \<Rightarrow> u64 list \<Rightarrow> nat \<Rightarrow> u64 list \<times> u64 list \<Rightarrow> bool" where
  "lanes_ok seq px off sp \<longleftrightarrow> length (fst sp) = 8 \<and> length (snd sp) = 8 \<and>
     (\<forall>j < 8. \<exists>m < off. m mod 8 = j \<and> fst sp ! j = seq ! m \<and> snd sp ! j = px ! m) \<and>
     (\<forall>m < off. seq ! m \<le> fst sp ! (m mod 8))"

lemma cmpgt8_lane: "length x = 8 \<Longrightarrow> length y = 8 \<Longrightarrow> length (cmpgt8 x y) = 8"
  "length x = 8 \<Longrightarrow> length y = 8 \<Longrightarrow> q < 8 \<Longrightarrow> cmpgt8 x y ! q = (y ! q < x ! q)"
  by (simp_all add: cmpgt8_def)

lemma max8_lane: "length x = 8 \<Longrightarrow> length y = 8 \<Longrightarrow> length (max8 x y) = 8"
  "length x = 8 \<Longrightarrow> length y = 8 \<Longrightarrow> q < 8 \<Longrightarrow> max8 x y ! q = max (x ! q) (y ! q)"
  by (simp_all add: max8_def)

lemma lanes_start:
  assumes "8 \<le> length seq" "8 \<le> length px"
  shows "lanes_ok seq px 8 (loadu8 seq 0, loadu8 px 0)"
  using assms loadu8_nth [of 0 seq] loadu8_nth [of 0 px]
  by (auto simp: lanes_ok_def loadu8_length intro!: exI)

lemma lanes_step:
  assumes "lanes_ok seq px off sp" "off mod 8 = 0" "off + 8 \<le> length seq" "off + 8 \<le> length px"
  shows "lanes_ok seq px (off + 8)
    (max8 (fst sp) (loadu8 seq off), mask_mov8 (snd sp) (cmpgt8 (loadu8 seq off) (fst sp)) (loadu8 px off))"
    (is "lanes_ok _ _ _ (?s, ?p)")
proof -
  have l: "length (fst sp) = 8" "length (snd sp) = 8" "length (loadu8 seq off) = 8" "length (loadu8 px off) = 8"
    using assms by (simp_all add: lanes_ok_def loadu8_length)
  have s: "?s ! j = max (fst sp ! j) (seq ! (off + j))" if "j < 8" for j
    using that l assms(3) by (simp add: max8_lane loadu8_nth)
  have p: "?p ! j = (if fst sp ! j < seq ! (off + j) then px ! (off + j) else snd sp ! j)" if "j < 8" for j
    using that l assms(3,4) by (simp add: mask_mov8_nth cmpgt8_lane loadu8_nth)
  have member: "\<exists>m < off + 8. m mod 8 = j \<and> ?s ! j = seq ! m \<and> ?p ! j = px ! m" if j: "j < 8" for j
  proof (cases "fst sp ! j < seq ! (off + j)")
    case True
    have "(off + j) mod 8 = j" using assms(2) j by (simp add: mod_add_eq [symmetric])
    then show ?thesis using True s [OF j] p [OF j] j by (intro exI [of _ "off + j"]) simp
  next
    case False
    obtain m where "m < off" "m mod 8 = j" "fst sp ! j = seq ! m" "snd sp ! j = px ! m"
      using assms(1) j unfolding lanes_ok_def by blast
    then show ?thesis using False s [OF j] p [OF j] by (intro exI [of _ m]) (simp add: max_def)
  qed
  have bound: "seq ! m \<le> ?s ! (m mod 8)" if m: "m < off + 8" for m
  proof (cases "m < off")
    case True
    then have "seq ! m \<le> fst sp ! (m mod 8)" using assms(1) unfolding lanes_ok_def by blast
    then show ?thesis using s [of "m mod 8"] by (simp add: le_max_iff_disj)
  next
    case False
    then obtain j where "m = off + j" "j < 8" using m by (metis add_less_cancel_left le_iff_add not_le)
    then show ?thesis using s [of j] assms(2) by (simp add: mod_add_eq [symmetric])
  qed
  have "length ?s = 8" "length ?p = 8" using l by (simp_all add: max8_lane mask_mov8_length cmpgt8_lane)
  then show ?thesis unfolding lanes_ok_def fst_conv snd_conv using member bound by blast
qed

lemma lane_max_ok:
  assumes "lanes_ok seq px off sp" "off mod 8 = 0" "nv mod 8 = 0" "off \<le> nv" "nv \<le> length seq" "nv \<le> length px"
  shows "lanes_ok seq px nv (lane_max seq px nv off sp)"
  using assms
proof (induction seq px nv off sp rule: lane_max.induct)
  case (1 seq px nv off sp)
  show ?case
  proof (cases "off < nv")
    case True
    have "nv - off \<ge> 8"
    proof -
      have "(nv - off) mod 8 = 0" using 1(3,4) by (simp add: mod_eq_0_iff_dvd dvd_diff_nat)
      then show ?thesis using True by (cases "nv - off < 8") auto
    qed
    then have n: "off + 8 \<le> nv" "off + 8 \<le> length seq" "off + 8 \<le> length px" using True 1(6,7) by linarith+
    have "(off + 8) mod 8 = 0" using 1(3) by simp
    then show ?thesis
      using 1(1) [OF True refl refl refl lanes_step [OF 1(2,3) n(2,3)] _ 1(4) n(1) 1(6,7)] True
      by (subst lane_max.simps) (simp add: Let_def)
  next
    case False
    then have "off = nv" using 1(5) by simp
    then show ?thesis using 1(2) by (subst lane_max.simps) simp
  qed
qed

lemma lanes_newest:
  assumes "lanes_ok seq px nv (ks, ps)" "newest ((\<lambda>i. (ks ! i, ps ! i)) ` set [0..<8]) g"
  shows "newest ((\<lambda>i. (seq ! i, px ! i)) ` set [0..<nv]) g"
proof -
  have "(ks ! j, ps ! j) \<in> (\<lambda>i. (seq ! i, px ! i)) ` set [0..<nv]" if "j < 8" for j
    using assms(1) that unfolding lanes_ok_def by force
  moreover have "seq ! m \<le> sig_seq g" if "m < nv" for m
  proof -
    have "seq ! m \<le> ks ! (m mod 8)" using assms(1) that by (auto simp: lanes_ok_def)
    also have "\<dots> \<le> sig_seq g" using assms(2) by (force simp: newest_def)
    finally show ?thesis .
  qed
  moreover have "sig_seq g \<noteq> 0 \<longrightarrow> (\<exists>j < 8. (sig_seq g, sig_px g) = (ks ! j, ps ! j))"
    using assms(2) unfolding newest_def by auto
  ultimately have "sig_seq g \<noteq> 0 \<longrightarrow> (sig_seq g, sig_px g) \<in> (\<lambda>i. (seq ! i, px ! i)) ` set [0..<nv]"
    "\<forall>(k, p) \<in> (\<lambda>i. (seq ! i, px ! i)) ` set [0..<nv]. k \<le> sig_seq g" by auto
  then show ?thesis using assms(2) unfolding newest_def by blast
qed

lemma vsum_loop_sum:
  assumes "length acc = 8" "vsum_loop v i acc = (acc', i')"
  shows "length acc' = 8 \<and> sum_list acc' + sum_list (drop i' v) = sum_list acc + sum_list (drop i v)"
  using assms
proof (induction v i acc arbitrary: acc' i' rule: vsum_loop.induct)
  case (1 v i acc)
  show ?case
  proof (cases "i + 8 \<le> length v")
    case True
    have l: "length (loadu8 v i) = 8" using True by (rule loadu8_length)
    have step: "vsum_loop v (i + 8) (add_epi64 acc (loadu8 v i)) = (acc', i')"
      using 1(3) True by (subst (asm) vsum_loop.simps) simp
    have "sum_list (add_epi64 acc (loadu8 v i)) + sum_list (drop (i + 8) v) = sum_list acc + sum_list (drop i v)"
      using block_sum [OF True] l 1(2) by (simp add: add_epi64_sum loadu8_def add.assoc)
    then show ?thesis using 1(1) [OF True _ step] l 1(2) by simp
  next
    case False
    then show ?thesis using 1(2,3) by (subst (asm) vsum_loop.simps) simp
  qed
qed

lemma vsum512_sum: "vsum512_tree v = sum_list v"
proof -
  obtain acc i where a: "vsum_loop v 0 zero8 = (acc, i)" by fastforce
  show ?thesis using vsum_loop_sum [OF _ a] by (simp add: vsum512_tree_def a hsum512_sum foldl_sum zero8_sum)
qed

lemma sum_split: "nv \<le> n \<Longrightarrow> length v = n \<Longrightarrow> sum_list (take nv v) + sum_list (map (\<lambda>i. v ! i) [nv..<n]) = sum_list (map (\<lambda>i. v ! i) [0..<n])"
  for v :: "u64 list"
proof -
  assume n: "nv \<le> n" "length v = n"
  have "map (\<lambda>i. v ! i) [0..<n] = v" using n(2) map_nth [of v] by simp
  moreover have "map (\<lambda>i. v ! i) [nv..<n] = drop nv v"
    using n by (intro nth_equalityI) simp_all
  ultimately show ?thesis by (metis append_take_drop_id sum_list_append)
qed

lemma tokens_image: "(\<lambda>i. (sig_seq (token_at seq px db da i), sig_px (token_at seq px db da i))) ` A = (\<lambda>i. (seq ! i, px ! i)) ` A"
  by (simp add: token_at_def)

lemma newest_scalar: "newest ((\<lambda>i. (seq ! i, px ! i)) ` set [0..<length seq]) (sig_fold_scalar seq px db da)"
  using newest_foldl [of "{}" Sig_IDENTITY "token_at seq px db da" "[0..<length seq]"]
  unfolding tokens_image by (simp add: sig_fold_scalar_def newest_def [of "{}"] Sig_IDENTITY_def)

lemma newest_vector:
  assumes "length px = length seq"
  shows "newest ((\<lambda>i. (seq ! i, px ! i)) ` set [0..<length seq]) (sig_fold_avx512 seq px db da)"
proof -
  let ?n = "length seq" and ?nv = "length seq - length seq mod 8"
  let ?acc = "\<lparr>sig_db = vsum512_tree (take ?nv db), sig_da = vsum512_tree (take ?nv da), sig_px = 0, sig_seq = 0\<rparr>"
  obtain ks ps where kp: "sig_lanes seq px ?nv = (ks, ps)" by fastforce
  let ?mid = "if 8 \<le> ?nv
      then foldl (\<lambda>acc i. sig_combine acc \<lparr>sig_db = 0, sig_da = 0, sig_px = ps ! i, sig_seq = ks ! i\<rparr>) ?acc [0..<8] else ?acc"
  have mid: "newest ((\<lambda>i. (seq ! i, px ! i)) ` set [0..<?nv]) ?mid"
  proof (cases "8 \<le> ?nv")
    case True
    have ok: "lanes_ok seq px ?nv (ks, ps)"
      using lane_max_ok [OF lanes_start, of seq px ?nv] True assms kp
      by (simp add: sig_lanes_def minus_mod_eq_mult_div)
    have "newest ((\<lambda>i. (ks ! i, ps ! i)) ` set [0..<8]) ?mid"
      using newest_foldl [of "{}" ?acc "\<lambda>i. \<lparr>sig_db = 0, sig_da = 0, sig_px = ps ! i, sig_seq = ks ! i\<rparr>" "[0..<8]"] True
      by (simp add: newest_def [of "{}"])
    then show ?thesis by (rule lanes_newest [OF ok])
  next
    case False
    then have "?nv = 0" by (metis minus_mod_eq_mult_div mult_is_0 not_less_eq_eq One_nat_def dvd_imp_le dvd_triv_left le0 neq0_conv)
    then show ?thesis by (simp add: newest_def)
  qed
  have f: "sig_fold_avx512 seq px db da = foldl (\<lambda>acc i. sig_combine acc (token_at seq px db da i)) ?mid [?nv..<?n]"
    unfolding sig_fold_avx512_def Let_def kp by simp
  have "newest ((\<lambda>i. (seq ! i, px ! i)) ` set [0..<?nv] \<union> (\<lambda>i. (seq ! i, px ! i)) ` set [?nv..<?n]) (sig_fold_avx512 seq px db da)"
    unfolding f using newest_foldl [OF mid, of "token_at seq px db da" "[?nv..<?n]"] unfolding tokens_image .
  moreover have "set [0..<?nv] \<union> set [?nv..<?n] = set [0..<?n]" by auto
  ultimately show ?thesis by (simp add: image_Un [symmetric])
qed

lemma fold_sums:
  assumes "length db = length seq" "length da = length seq"
  shows "sig_db (sig_fold_avx512 seq px db da) = sig_db (sig_fold_scalar seq px db da)"
    "sig_da (sig_fold_avx512 seq px db da) = sig_da (sig_fold_scalar seq px db da)"
proof -
  let ?nv = "length seq - length seq mod 8"
  obtain ks ps where kp: "sig_lanes seq px ?nv = (ks, ps)" by fastforce
  show "sig_db (sig_fold_avx512 seq px db da) = sig_db (sig_fold_scalar seq px db da)"
    using sum_split [of ?nv "length seq" db] assms(1)
    unfolding sig_fold_avx512_def sig_fold_scalar_def Let_def kp
    by (simp add: combine_sums vsum512_sum token_at_def Sig_IDENTITY_def)
  show "sig_da (sig_fold_avx512 seq px db da) = sig_da (sig_fold_scalar seq px db da)"
    using sum_split [of ?nv "length seq" da] assms(2)
    unfolding sig_fold_avx512_def sig_fold_scalar_def Let_def kp
    by (simp add: combine_sums vsum512_sum token_at_def Sig_IDENTITY_def)
qed

lemma sig_fold_agree:
  assumes "length px = length seq" "length db = length seq" "length da = length seq" "keys_injective seq"
  shows "sig_fold avx512 seq px db da = sig_fold_scalar seq px db da"
proof -
  have "sig_seq (sig_fold_avx512 seq px db da) = sig_seq (sig_fold_scalar seq px db da) \<and>
      sig_px (sig_fold_avx512 seq px db da) = sig_px (sig_fold_scalar seq px db da)"
    using assms(4) by (intro newest_unique [OF newest_vector [OF assms(1)] newest_scalar]) (auto simp: keys_injective_def)
  then have "sig_fold_avx512 seq px db da = sig_fold_scalar seq px db da"
    using fold_sums [OF assms(2,3)] by (simp add: Sig.equality)
  then show ?thesis by (simp add: sig_fold_def)
qed

section \<open>Passes\<close>

abbreviation tokens :: "u64 list \<Rightarrow> u64 list \<Rightarrow> u64 list \<Rightarrow> u64 list \<Rightarrow> Sig list" where
  "tokens seq px db da \<equiv> map (token_at seq px db da) [0..<length seq]"

text \<open>The setters' keys increase along a list of tokens.\<close>

definition increasing :: "Sig list \<Rightarrow> bool" where
  "increasing ts \<longleftrightarrow> sorted_wrt (<) (filter (\<lambda>k. k \<noteq> 0) (map sig_seq ts))"

lemma fold_tokens: "sig_fold_scalar seq px db da = foldl sig_combine Sig_IDENTITY (tokens seq px db da)"
  by (simp add: sig_fold_scalar_def foldl_map)

lemma combine_seq: "sig_seq (foldl sig_combine g ts) = sig_seq g \<or> (\<exists>t \<in> set ts. sig_seq (foldl sig_combine g ts) = sig_seq t)"
  by (induction ts arbitrary: g) (fastforce simp: sig_combine_def Let_def)+

text \<open>In tape order, the signature applied once is its tokens applied one by one.\<close>

lemma apply_fold:
  "increasing ts \<Longrightarrow> apply_sig s (foldl sig_combine Sig_IDENTITY ts) = foldl apply_sig s ts"
proof (induction ts rule: rev_induct)
  case Nil
  then show ?case by (simp add: apply_sig_def Sig_IDENTITY_def Let_def)
next
  case (snoc t ts)
  let ?g = "foldl sig_combine Sig_IDENTITY ts"
  have ih: "apply_sig s ?g = foldl apply_sig s ts"
    using snoc by (simp add: increasing_def sorted_wrt_append)
  have "sig_seq ?g < sig_seq t" if "sig_seq t \<noteq> 0"
  proof (cases "sig_seq ?g = 0")
    case True
    then show ?thesis using that by (simp add: word_gt_0)
  next
    case False
    then obtain u where "u \<in> set ts" "sig_seq ?g = sig_seq u"
      using combine_seq [of Sig_IDENTITY ts] by (auto simp: Sig_IDENTITY_def)
    then show ?thesis using snoc.prems that False by (auto simp: increasing_def sorted_wrt_append)
  qed
  then have "apply_sig s (sig_combine ?g t) = apply_sig (apply_sig s ?g) t"
    by (cases "sig_seq t = 0") (simp_all add: apply_sig_def sig_combine_def Let_def add.assoc)
  then show ?case using ih by simp
qed

lemma sorted_nth_filter:
  "sorted_wrt (<) (filter (\<lambda>k. k \<noteq> 0) (xs :: u64 list)) \<Longrightarrow> i < j \<Longrightarrow> j < length xs \<Longrightarrow> xs ! i \<noteq> 0 \<Longrightarrow> xs ! j \<noteq> 0 \<Longrightarrow> xs ! i < xs ! j"
proof (induction xs arbitrary: i j)
  case (Cons x xs)
  then show ?case by (cases i; cases j) (auto split: if_splits)
qed simp

lemma increasing_injective: "increasing (tokens seq px db da) \<Longrightarrow> keys_injective seq"
proof -
  assume "increasing (tokens seq px db da)"
  moreover have "map sig_seq (tokens seq px db da) = seq"
    by (rule nth_equalityI) (simp_all add: token_at_def)
  ultimately have s: "sorted_wrt (<) (filter (\<lambda>k. k \<noteq> 0) seq)" by (simp add: increasing_def)
  show "keys_injective seq"
    unfolding keys_injective_def
  proof (intro allI impI)
    fix i j
    assume "i < length seq" "j < length seq" "seq ! i = seq ! j \<and> seq ! i \<noteq> 0"
    then show "i = j" using sorted_nth_filter [OF s, of i j] sorted_nth_filter [OF s, of j i]
      by (metis less_irrefl linorder_neqE_nat)
  qed
qed

lemma tokens_slice:
  assumes "length px = length seq" "length db = length seq" "length da = length seq"
  shows "tokens (take k (drop i seq)) (take k (drop i px)) (take k (drop i db)) (take k (drop i da))
    = take k (drop i (tokens seq px db da))"
proof (cases "i \<le> length seq")
  case True
  have t: "tokens seq px db da ! j = token_at seq px db da j" if "j < length seq" for j using that by simp
  have i: "i + j < length seq" if "j < length seq - i" for j using that by linarith
  show ?thesis using assms True by (intro nth_equalityI) (simp_all add: t i, simp_all add: token_at_def)
qed (use assms in simp)

lemma increasing_slice: "increasing ts \<Longrightarrow> increasing (take k (drop i ts))"
proof -
  assume "increasing ts"
  moreover have "ts = take i ts @ take k (drop i ts) @ drop k (drop i ts)" by (metis append_take_drop_id)
  ultimately have "sorted_wrt (<) (filter (\<lambda>k. k \<noteq> 0) (map sig_seq (take i ts @ take k (drop i ts) @ drop k (drop i ts))))"
    unfolding increasing_def by (simp only:)
  then show ?thesis unfolding increasing_def map_append filter_append sorted_wrt_append by blast
qed

lemma states_sequential:
  assumes "length px = length seq" "length db = length seq" "length da = length seq" "increasing (tokens seq px db da)"
  shows "states_of s (chunk_loop avx512 seq px db da (Suc c) i)
    = map (\<lambda>j. foldl apply_sig s (take (Suc j * Suc c) (drop i (tokens seq px db da)))) [0..<(length seq - i + Suc c - 1) div Suc c]"
proof -
  let ?ts = "tokens seq px db da"
  have "states_of s (chunk_loop avx512 seq px db da (Suc c) i)
    = (if i < length ?ts then foldl apply_sig s (take (Suc c) (drop i ?ts)) #
        states_of (foldl apply_sig s (take (Suc c) (drop i ?ts))) (chunk_loop avx512 seq px db da (Suc c) (min (i + Suc c) (length ?ts)))
       else [])" for i s
  proof (cases "i < length seq")
    case True
    let ?k = "min (i + Suc c) (length seq) - i"
    let ?p = "\<lambda>xs. take ?k (drop i xs)"
    have t: "take ?k (drop i ?ts) = take (Suc c) (drop i ?ts)"
      by (cases "i + Suc c \<le> length seq") (simp_all del: take_Suc)
    have toks: "tokens (?p seq) (?p px) (?p db) (?p da) = take (Suc c) (drop i ?ts)"
      unfolding tokens_slice [OF assms(1-3)] t ..
    have inc: "increasing (tokens (?p seq) (?p px) (?p db) (?p da))"
      unfolding toks by (rule increasing_slice [OF assms(4)])
    have "sig_fold avx512 (?p seq) (?p px) (?p db) (?p da) = sig_fold_scalar (?p seq) (?p px) (?p db) (?p da)"
      using assms(1-3) increasing_injective [OF inc] by (intro sig_fold_agree) simp_all
    then have "apply_sig s (sig_fold avx512 (?p seq) (?p px) (?p db) (?p da)) = foldl apply_sig s (take (Suc c) (drop i ?ts))"
      using apply_fold [OF inc, of s] unfolding fold_tokens toks by simp
    then show ?thesis using True by (subst chunk_loop.simps) (simp add: Let_def del: take_Suc)
  next
    case False
    then show ?thesis by (subst chunk_loop.simps) simp
  qed
  note w = windows_map [where W = "\<lambda>i s. states_of s (chunk_loop avx512 seq px db da (Suc c) i)", OF zero_less_Suc this]
  show ?thesis using w [of s i] by simp
qed

text \<open>C39: (Signatures are token by token.)  On a tape whose price setters carry increasing positions, for
  every chunk size but zero, with or without AVX-512, the states after the chunks are the states
  of applying the tokens one by one: volumes, and the price of the last setter.\<close>

theorem sig_pass_states_sequential:
  assumes "length px = length seq" "length db = length seq" "length da = length seq"
    and "increasing (map (token_at seq px db da) [0..<length seq])"
  shows "sig_pass_states avx512 s0 seq px db da (Suc c)
    = Some (map (\<lambda>j. foldl apply_sig s0 (take (Suc j * Suc c) (map (token_at seq px db da) [0..<length seq])))
        [0..<(length seq + c) div Suc c])"
  using states_sequential [OF assms, of s0 avx512 c 0]
  by (simp add: sig_pass_states_def sig_chunk_signatures_def)

lemma sig_pass_states_sequential_witness:
  "sig_pass_states True \<lparr>l3_b = 0, l3_a = 0, l3_p = 0\<rparr> [1, 0, 3] [100, 7, 90] [5, 6, 0] [0, 0, 2] (Suc 1)
    = Some [\<lparr>l3_b = 11, l3_a = 0, l3_p = 100\<rparr>, \<lparr>l3_b = 11, l3_a = 2, l3_p = 90\<rparr>]"
proof -
  let ?seq = "[1, 0, 3] :: u64 list" and ?t = "token_at [1, 0, 3] [100, 7, 90] [5, 6, 0] [0, 0, 2]"
  have u: "[0..<length ?seq] = [0, 1, 2]" "[0..<(length ?seq + 1) div Suc 1] = [0, 1]"
    by (simp add: upt_rec) (simp add: upt_rec numeral_2_eq_2 [symmetric] del: One_nat_def)
  have t: "?t 0 = \<lparr>sig_db = 5, sig_da = 0, sig_px = 100, sig_seq = 1\<rparr>" "?t 1 = \<lparr>sig_db = 6, sig_da = 0, sig_px = 7, sig_seq = 0\<rparr>"
    "?t 2 = \<lparr>sig_db = 0, sig_da = 2, sig_px = 90, sig_seq = 3\<rparr>" by (simp_all add: token_at_def)
  have inc: "increasing (map ?t [0..<length ?seq])" unfolding u by (simp add: increasing_def t t [unfolded One_nat_def])
  have l: "length [100, 7, 90 :: u64] = length ?seq" "length [5, 6, 0 :: u64] = length ?seq" "length [0, 0, 2 :: u64] = length ?seq"
    by simp_all
  show ?thesis
    unfolding sig_pass_states_sequential [OF l inc] u
    by (simp add: t t [unfolded One_nat_def] apply_sig_def Let_def)
qed

section \<open>Affine maps compose\<close>

lemma affine_compose_apply:
  assumes "x ! 3 = 1"
  shows "affine_apply (affine_compose f g) x = affine_apply f (affine_apply g x)"
proof -
  have u: "[0..<3] = [0, 1, 2]" "[0..<4] = [0, 1, 2, 3]" by (simp_all add: upt_rec)
  show ?thesis unfolding affine_apply_def affine_compose_def u
    by (simp add: assms algebra_simps)
qed

lemma affine_identity_apply: "length x = 4 \<Longrightarrow> x ! 3 = 1 \<Longrightarrow> affine_apply Affine4_IDENTITY x = x"
proof -
  assume x: "length x = 4" "x ! 3 = 1"
  have u: "[0..<3] = [0, 1, 2]" "[0..<4] = [0, 1, 2, 3]" by (simp_all add: upt_rec)
  obtain a b c d where "x = [a, b, c, d]" using x(1) by (auto simp: numeral_eq_Suc length_Suc_conv)
  then show ?thesis using x(2) unfolding affine_apply_def Affine4_IDENTITY_def u by simp
qed

end
