(* ===== verification/XorAlgebra.thy ===== *)
theory XorAlgebra
  imports Prelude
begin

text \<open>
  Words under exclusive or.  Maps that respect it are determined by their values on single bits.
  A map that shifts single bits up and respects exclusive or generates a commutative ring: its
  elements are the words, its product is the sum of the shifts of one factor at the bits of the
  other.  The products modulo the two polynomials of the program are instances.
\<close>

text \<open>The exclusive or of the terms of the set bits below \<open>n\<close>.\<close>

primrec comb :: "nat \<Rightarrow> (nat \<Rightarrow> 'b::len word) \<Rightarrow> 'a::len word \<Rightarrow> 'b word" where
  "comb 0 t a = 0"
| "comb (Suc n) t a = comb n t a XOR (if bit a n then t n else 0)"

section \<open>Maps that respect exclusive or\<close>

definition additive :: "('a::len word \<Rightarrow> 'b::len word) \<Rightarrow> bool" where
  "additive f \<longleftrightarrow> (\<forall>a b. f (a XOR b) = f a XOR f b)"

lemma additive_zero: "additive f \<Longrightarrow> f 0 = 0"
proof -
  assume "additive f"
  then have "f (0 XOR 0) = f 0 XOR f 0" unfolding additive_def by blast
  then show "f 0 = 0" by simp
qed

named_theorems additive_intros \<open>maps that respect exclusive or\<close>

lemma additive_id [additive_intros]: "additive (\<lambda>a. a)"
  by (simp add: additive_def)

lemma additive_const0 [additive_intros]: "additive (\<lambda>a. 0)"
  by (simp add: additive_def)

lemma additive_xor [additive_intros]: "additive f \<Longrightarrow> additive g \<Longrightarrow> additive (\<lambda>a. f a XOR g a)"
  by (simp add: additive_def ac_simps)

lemma additive_compose: "additive f \<Longrightarrow> additive g \<Longrightarrow> additive (\<lambda>a. f (g a))"
  by (simp add: additive_def)

lemma additive_push [additive_intros]: "additive f \<Longrightarrow> additive (\<lambda>a. push_bit n (f a))"
  by (simp add: additive_def push_bit_xor)

lemma additive_drop [additive_intros]: "additive f \<Longrightarrow> additive (\<lambda>a. drop_bit n (f a))"
  by (simp add: additive_def drop_bit_xor)

lemma additive_ucast [additive_intros]: "additive f \<Longrightarrow> additive (\<lambda>a. ucast (f a))"
  by (simp add: additive_def unsigned_xor_eq)

lemma additive_if [additive_intros]: "additive f \<Longrightarrow> additive (\<lambda>a. if bit (f a) n then c else 0)"
  by (auto simp: additive_def bit_simps)

lemma additive_comb [additive_intros]: "additive f \<Longrightarrow> additive (\<lambda>a. comb n t (f a))"
proof (induction n)
  case (Suc n)
  then show ?case by (simp add: additive_intros)
qed (simp add: additive_intros)

lemma comb_terms: "comb n (\<lambda>i. t i XOR s i) a = comb n t a XOR comb n s a"
  by (induction n) (simp_all add: ac_simps)

lemma comb_map: "additive f \<Longrightarrow> f (comb n t a) = comb n (\<lambda>i. f (t i)) a"
proof (induction n)
  case (Suc n)
  have "f (comb n t a XOR (if bit a n then t n else 0)) = f (comb n t a) XOR f (if bit a n then t n else 0)"
    using Suc.prems unfolding additive_def by blast
  then show ?case using Suc by (simp add: additive_zero)
qed (simp add: additive_zero)

lemma comb_cong: "(\<And>i. i < n \<Longrightarrow> bit a i \<Longrightarrow> t i = s i) \<Longrightarrow> comb n t a = comb n s a"
  by (induction n) simp_all

lemma comb_low: "comb (Suc n) t a = (if bit a 0 then t 0 else 0) XOR comb n (\<lambda>i. t (Suc i)) (drop_bit 1 a)"
proof (induction n)
  case (Suc n)
  have "comb (Suc (Suc n)) t a = comb (Suc n) t a XOR (if bit a (Suc n) then t (Suc n) else 0)" by simp
  moreover have "comb (Suc n) (\<lambda>i. t (Suc i)) (drop_bit 1 a)
      = comb n (\<lambda>i. t (Suc i)) (drop_bit 1 a) XOR (if bit a (Suc n) then t (Suc n) else 0)"
    by (simp only: comb.simps(2) bit_drop_bit_eq comp_def plus_1_eq_Suc)
  ultimately show ?case unfolding Suc by (simp only: xor.assoc)
qed simp

text \<open>The words with one bit.\<close>

definition xbit :: "nat \<Rightarrow> 'a::len word" where
  "xbit i = push_bit i 1"

lemma bit_xbit [simp]: "bit (xbit i :: 'a::len word) n \<longleftrightarrow> n = i \<and> i < LENGTH('a)"
  by (auto simp: xbit_def bit_simps)

lemma xbit_ucast: "i < LENGTH('a) \<Longrightarrow> i < LENGTH('b) \<Longrightarrow> ucast (xbit i :: 'a::len word) = (xbit i :: 'b::len word)"
  by (rule bit_word_eqI) (auto simp: bit_simps)

lemma xbit_push: "push_bit n (xbit i :: 'a::len word) = xbit (n + i)"
  by (rule bit_word_eqI) (auto simp: bit_simps)

lemma xbit_zero: "LENGTH('a) \<le> i \<Longrightarrow> (xbit i :: 'a::len word) = 0"
  by (rule bit_word_eqI) simp

lemma comb_single: "i < LENGTH('a) \<Longrightarrow> comb n t (xbit i :: 'a::len word) = (if i < n then t i else 0)"
proof (induction n)
  case (Suc n)
  then show ?case by (cases "n = i") auto
qed simp

lemma bit_comb_xbit: "n \<le> LENGTH('a) \<Longrightarrow> bit (comb n xbit (a :: 'a::len word) :: 'a word) k \<longleftrightarrow> k < n \<and> bit a k"
proof (induction n)
  case (Suc n)
  then show ?case by (auto simp: bit_simps less_Suc_eq)
qed simp

text \<open>A word is the exclusive or of its bits; two such maps that agree on bits agree.\<close>

lemma comb_bits: "comb LENGTH('a) xbit a = (a :: 'a::len word)"
  by (rule bit_word_eqI) (simp add: bit_comb_xbit)

lemma additive_ext:
  assumes "additive f" "additive (g :: 'a::len word \<Rightarrow> 'b::len word)"
    and "\<And>i. i < LENGTH('a) \<Longrightarrow> f (xbit i) = g (xbit i)"
  shows "f a = g a"
proof -
  have "f (comb LENGTH('a) xbit a) = comb LENGTH('a) (\<lambda>i. f (xbit i)) a" by (rule comb_map [OF assms(1)])
  also have "\<dots> = comb LENGTH('a) (\<lambda>i. g (xbit i)) a" using assms(3) by (intro comb_cong)
  also have "\<dots> = g (comb LENGTH('a) xbit a)" by (rule comb_map [OF assms(2), symmetric])
  finally show ?thesis unfolding comb_bits .
qed

section \<open>On integers\<close>

lemma uint_odd: "uint (a :: 'a::len word) mod 2 = 1 \<longleftrightarrow> bit a 0"
  using bit_uint_iff [of a 0] unfolding bit_0 [of "uint a"] odd_iff_mod_2_eq_one by simp

lemma uint_drop: "uint (drop_bit n (a :: 'a::len word)) = uint a div 2 ^ n"
proof -
  have "drop_bit n (uint a) = uint (drop_bit n a)"
    by (rule bit_eqI) (auto simp: bit_uint_iff bit_drop_bit_eq dest: bit_imp_le_length)
  then show ?thesis by (simp add: drop_bit_eq_div)
qed

lemma uint_half: "uint (a :: 'a::len word) div 2 = uint (drop_bit 1 a)"
  using uint_drop [of 1 a] by simp

lemma uint_push: "uint (push_bit 1 (b :: 'a::len word)) = 2 * uint b mod 2 ^ LENGTH('a)"
  by (simp add: uint_word_ariths(3) mult.commute)

lemma uint_top: "bit (b :: 'a::len word) (LENGTH('a) - 1) \<longleftrightarrow> \<not> uint b < 2 ^ (LENGTH('a) - 1)"
proof -
  define m where "m = LENGTH('a) - 1"
  have l: "LENGTH('a) = Suc m" by (simp add: m_def)
  have b: "0 \<le> uint b" "uint b < 2 * 2 ^ m" using uint_bounded [of b] by (simp_all add: l)
  have "bit b m \<longleftrightarrow> odd (uint b div 2 ^ m)" using bit_uint_iff [of b m] by (simp add: l bit_iff_odd)
  also have "\<dots> \<longleftrightarrow> \<not> uint b < 2 ^ m"
  proof (cases "uint b < 2 ^ m")
    case False
    then have "uint b div 2 ^ m = 1" using b by (intro int_div_pos_eq [of _ _ 1 "uint b - 2 ^ m"]) auto
    then show ?thesis using False by simp
  qed (use b in simp)
  finally show ?thesis unfolding m_def .
qed

text \<open>The shift with reduction.\<close>

lemma uint_shift_reduce:
  fixes b q :: "'a::len word"
  shows "uint (push_bit 1 b XOR (if bit b (LENGTH('a) - 1) then q else 0))
    = (if uint b < 2 ^ (LENGTH('a) - 1) then 2 * uint b else (2 * uint b - 2 ^ LENGTH('a)) XOR uint q)"
proof -
  obtain m where l: "LENGTH('a) = Suc m" by (metis Suc_pred len_gt_0)
  have b: "0 \<le> uint b" "uint b < 2 * 2 ^ m" using uint_bounded [of b] by (simp_all add: l)
  have t: "bit b m \<longleftrightarrow> \<not> uint b < 2 ^ m" using uint_top [of b] by (simp add: l)
  show ?thesis
  proof (cases "uint b < 2 ^ (LENGTH('a) - 1)")
    case True
    then show ?thesis using b uint_push [of b] t by (simp add: l)
  next
    case False
    then have "2 * uint b mod 2 ^ LENGTH('a) = 2 * uint b - 2 ^ LENGTH('a)"
      using b by (intro int_mod_pos_eq [of _ _ 1]) (auto simp: l)
    then show ?thesis using False uint_push [of b] t by (simp add: l unsigned_xor_eq)
  qed
qed

section \<open>The ring of a shift\<close>

definition ring_mul :: "('a::len word \<Rightarrow> 'a word) \<Rightarrow> 'a word \<Rightarrow> 'a word \<Rightarrow> 'a word" where
  "ring_mul x a b = comb LENGTH('a) (\<lambda>i. (x ^^ i) b) a"

locale shift_ring =
  fixes x :: "'a::len word \<Rightarrow> 'a word"
  assumes additive_x: "additive x"
    and shift_xbit: "Suc i < LENGTH('a) \<Longrightarrow> x (xbit i) = xbit (Suc i)"
begin

lemma additive_step: "additive f \<Longrightarrow> additive (\<lambda>a. x (f a))"
  using additive_x by (rule additive_compose)

lemma additive_steps: "additive f \<Longrightarrow> additive (\<lambda>a. (x ^^ i) (f a))"
  by (induction i) (simp_all add: additive_step)

lemma steps_xor: "(x ^^ i) (a XOR b) = (x ^^ i) a XOR (x ^^ i) b"
  using additive_steps [OF additive_id, of i] unfolding additive_def by blast

lemma steps_xbit: "i + k < LENGTH('a) \<Longrightarrow> (x ^^ k) (xbit i) = xbit (i + k)"
  by (induction k) (simp_all add: shift_xbit)

lemma power_xbit: "k < LENGTH('a) \<Longrightarrow> (x ^^ k) 1 = xbit k"
  using steps_xbit [of 0 k] by (simp add: xbit_def)

lemma power_add: "(x ^^ i) ((x ^^ j) a) = (x ^^ (i + j)) a"
  by (simp add: funpow_add)

lemma additive_mul_left: "additive f \<Longrightarrow> additive (\<lambda>a. ring_mul x (f a) b)"
  unfolding ring_mul_def by (rule additive_comb)

lemma mul_xor_right: "ring_mul x a (b XOR c) = ring_mul x a b XOR ring_mul x a c"
  unfolding ring_mul_def comb_terms [symmetric] steps_xor ..

lemma mul_xor_left: "ring_mul x (a XOR b) c = ring_mul x a c XOR ring_mul x b c"
  using additive_mul_left [OF additive_id, of c] unfolding additive_def by blast

lemma additive_mul_right: "additive f \<Longrightarrow> additive (\<lambda>b. ring_mul x a (f b))"
  by (simp add: additive_def mul_xor_right)

lemma mul_zero: "ring_mul x 0 b = 0" "ring_mul x a 0 = 0"
  using additive_zero [OF additive_mul_left [OF additive_id]] additive_zero [OF additive_mul_right [OF additive_id]]
  by blast+

lemma mul_xbit: "i < LENGTH('a) \<Longrightarrow> ring_mul x (xbit i) b = (x ^^ i) b"
  by (simp add: ring_mul_def comb_single)

lemma mul_one: "ring_mul x 1 b = b"
  using mul_xbit [of 0 b] by (simp add: xbit_def)

lemma mul_commute: "ring_mul x a b = ring_mul x b a"
proof -
  have c: "ring_mul x (xbit i) b = ring_mul x b (xbit i)" if i: "i < LENGTH('a)" for i
  proof (rule additive_ext [of "ring_mul x (xbit i)" "\<lambda>b. ring_mul x b (xbit i)"])
    fix j assume j: "j < LENGTH('a)"
    have "(x ^^ i) (xbit j) = (x ^^ j) (xbit i)"
      using power_add [of i j 1] power_add [of j i 1] power_xbit [OF i] power_xbit [OF j] by (simp add: add.commute)
    then show "ring_mul x (xbit i) (xbit j) = ring_mul x (xbit j) (xbit i)" by (simp add: mul_xbit i j)
  qed (intro additive_mul_left additive_mul_right additive_id)+
  show ?thesis
    by (rule additive_ext [of "\<lambda>a. ring_mul x a b" "ring_mul x b"])
      (intro additive_mul_left additive_mul_right additive_id c | assumption)+
qed

lemma mul_one_right: "ring_mul x a 1 = a"
  by (simp add: mul_commute [of a] mul_one)

lemma mul_step: "ring_mul x a (x b) = x (ring_mul x a b)"
  unfolding ring_mul_def comb_map [OF additive_x] by (simp add: funpow_swap1)

lemma mul_steps: "ring_mul x ((x ^^ i) a) b = (x ^^ i) (ring_mul x a b)"
proof -
  have "ring_mul x b ((x ^^ i) a) = (x ^^ i) (ring_mul x b a)" by (induction i) (simp_all add: mul_step)
  then show ?thesis by (simp only: mul_commute [of b])
qed

lemma mul_assoc: "ring_mul x (ring_mul x a b) c = ring_mul x a (ring_mul x b c)"
proof (rule additive_ext [of "\<lambda>a. ring_mul x (ring_mul x a b) c" "\<lambda>a. ring_mul x a (ring_mul x b c)"])
  fix i assume "i < LENGTH('a)"
  then show "ring_mul x (ring_mul x (xbit i) b) c = ring_mul x (xbit i) (ring_mul x b c)"
    by (simp add: mul_xbit mul_steps)
qed (intro additive_mul_left additive_id)+

lemma mul_power: "ring_mul x ((x ^^ i) 1) b = (x ^^ i) b"
  unfolding mul_steps mul_one ..

end

end
