(* ===== verification/Crc32c.thy ===== *)
theory Crc32c
  imports XorAlgebra
begin

text \<open>
  The register of CRC32C: one bit, one byte, a run of bytes and the loops that cut a run into
  machine words (\<open>crates/nf-testkit/src/sink.rs\<close>, \<open>crates/nf-transport/src/rxdesc.rs\<close>).  The bit step
  divides by \<open>y\<close> modulo \<open>y^32 + VQ\<close>, so zero bytes multiply the register by a power, and
  the register of a run is that of its end plus a multiple of that of its beginning.
\<close>

section \<open>The register\<close>

definition CRC32C_POLY_REFLECTED :: u32 where "CRC32C_POLY_REFLECTED = 0x82F63B78"

definition crc_bit :: "u32 \<Rightarrow> u32" where
  "crc_bit c = (if c AND 1 \<noteq> 0 then drop_bit 1 c XOR CRC32C_POLY_REFLECTED else drop_bit 1 c)"

definition crc8 :: "u32 \<Rightarrow> u8 \<Rightarrow> u32" where
  "crc8 c b = (crc_bit ^^ 8) (c XOR ucast b)"

text \<open>The instructions on wider operands take the bytes of the operand, least significant first;
  the operand here is the little-endian word of the bytes the code loads, so the step is the
  bytes in order.\<close>

definition mm_crc32 :: "u32 \<Rightarrow> bytes \<Rightarrow> u32" where
  "mm_crc32 c w = foldl crc8 c w"

text \<open>The modulus \<open>VM\<close> and its low part.\<close>

definition VQ :: u64 where "VQ = 0x05EC76F1"

definition VM :: u64 where "VM = 0x105EC76F1"

section \<open>Runs of bytes cut into words\<close>

text \<open>The loops of the code: words of eight bytes, then at most one of four, of two and of one,
  up to a position \<open>e\<close>.  Two registers may be advanced together, so the register is left open.\<close>

function word_chunks :: "('c \<Rightarrow> bytes \<Rightarrow> 'c) \<Rightarrow> nat \<Rightarrow> bytes \<Rightarrow> nat \<Rightarrow> 'c \<Rightarrow> 'c \<times> nat" where
  "word_chunks step e bs i c =
     (if i + 8 \<le> e then word_chunks step e bs (i + 8) (step c (slice i (i + 8) bs)) else (c, i))"
  by pat_completeness auto
termination word_chunks by (relation "measure (\<lambda>(step, e, bs, i, c). e - i)") auto

declare word_chunks.simps [simp del]

definition words_upto :: "('c \<Rightarrow> bytes \<Rightarrow> 'c) \<Rightarrow> nat \<Rightarrow> bytes \<Rightarrow> nat \<Rightarrow> 'c \<Rightarrow> 'c" where
  "words_upto step e bs i c =
     (let (c, i) = word_chunks step e bs i c;
          (c, i) = (if i + 4 \<le> e then (step c (slice i (i + 4) bs), i + 4) else (c, i));
          (c, i) = (if i + 2 \<le> e then (step c (slice i (i + 2) bs), i + 2) else (c, i))
      in if i < e then step c [bs ! i] else c)"

lemma slice_split: "i \<le> j \<Longrightarrow> j \<le> e \<Longrightarrow> slice i j bs @ slice j e bs = slice i e bs"
proof -
  assume "i \<le> j" "j \<le> e"
  then have "e - i = (j - i) + (e - j)" "drop j bs = drop (j - i) (drop i bs)" by simp_all
  then show ?thesis unfolding slice_def by (simp only: take_add)
qed

locale run =
  fixes step :: "'c \<Rightarrow> bytes \<Rightarrow> 'c"
  assumes step_append: "step (step c xs) ys = step c (xs @ ys)"
    and step_nil: "step c [] = c"
begin

lemma step_slices: "i \<le> j \<Longrightarrow> j \<le> e \<Longrightarrow> step (step c (slice i j bs)) (slice j e bs) = step c (slice i e bs)"
  by (simp add: step_append slice_split)

lemma word_chunks_run:
  "i \<le> e \<Longrightarrow> word_chunks step e bs i c = (c', i') \<Longrightarrow>
    step c' (slice i' e bs) = step c (slice i e bs) \<and> i' \<le> e \<and> e < i' + 8"
proof (induction f \<equiv> step e bs i c rule: word_chunks.induct)
  case (1 e bs i c)
  show ?case
  proof (cases "i + 8 \<le> e")
    case True
    then show ?thesis using 1 step_slices [of i "i + 8" e c bs] by (subst (asm) (2) word_chunks.simps) simp
  next
    case False
    then show ?thesis using 1(2,3) by (subst (asm) word_chunks.simps) simp
  qed
qed

text \<open>However a run is cut, the register is that of the run.\<close>

lemma words_upto_run:
  assumes "i \<le> e" "e \<le> length bs"
  shows "words_upto step e bs i c = step c (slice i e bs)"
proof -
  obtain c1 i1 where 1: "word_chunks step e bs i c = (c1, i1)" by fastforce
  note r1 = word_chunks_run [OF assms(1) 1]
  define p where "p = (if i1 + 4 \<le> e then (step c1 (slice i1 (i1 + 4) bs), i1 + 4) else (c1, i1))"
  have r2: "step (fst p) (slice (snd p) e bs) = step c (slice i e bs)" "snd p \<le> e" "e < snd p + 4"
    using r1 step_slices [of i1 "i1 + 4" e c1 bs] by (auto simp: p_def)
  define q where "q = (if snd p + 2 \<le> e then (step (fst p) (slice (snd p) (snd p + 2) bs), snd p + 2) else p)"
  have r3: "step (fst q) (slice (snd q) e bs) = step c (slice i e bs)" "snd q \<le> e" "e < snd q + 2"
    using r2 step_slices [of "snd p" "snd p + 2" e "fst p" bs] by (auto simp: q_def)
  have "words_upto step e bs i c = (if snd q < e then step (fst q) [bs ! snd q] else fst q)"
    by (simp only: words_upto_def 1 Let_def prod.case case_prod_beta fst_conv snd_conv p_def [symmetric] q_def [symmetric] prod.collapse)
  also have "\<dots> = step (fst q) (slice (snd q) e bs)"
  proof (cases "snd q < e")
    case True
    then have "e = Suc (snd q)" using r3(3) by simp
    then have "slice (snd q) e bs = [bs ! snd q]"
      using assms(2) by (simp add: slice_def take_Suc_conv_app_nth)
    then show ?thesis using True by simp
  next
    case False
    then show ?thesis using r3(2) by (simp add: slice_def step_nil)
  qed
  finally show ?thesis unfolding r3(1) .
qed

end

interpretation crc_run: run mm_crc32
  by unfold_locales (simp_all add: mm_crc32_def)

section \<open>The bit step divides by y\<close>

definition ytime :: "u32 \<Rightarrow> u32" where
  "ytime c = push_bit 1 c XOR (if bit c 31 then ucast VQ else 0)"

lemma crc_bit_xor: "crc_bit c = drop_bit 1 c XOR (if bit c 0 then CRC32C_POLY_REFLECTED else 0)"
  by (simp add: crc_bit_def and_one_eq bit_0 odd_iff_mod_2_eq_one)

lemma additive_crc_bit [additive_intros]: "additive f \<Longrightarrow> additive (\<lambda>a. crc_bit (f a))"
  unfolding crc_bit_xor by (intro additive_intros)

lemma additive_crc_bits [additive_intros]: "additive f \<Longrightarrow> additive (\<lambda>a. (crc_bit ^^ n) (f a))"
  by (induction n) (simp_all add: additive_crc_bit)

lemma additive_ytime [additive_intros]: "additive f \<Longrightarrow> additive (\<lambda>a. ytime (f a))"
  unfolding ytime_def by (intro additive_intros)

interpretation yt: shift_ring ytime
proof
  show "additive ytime" by (rule additive_ytime [OF additive_id])
  show "ytime (xbit i) = xbit (Suc i)" if "Suc i < LENGTH(32)" for i
    using that by (simp add: ytime_def xbit_push)
qed

lemma basis: "list_all (\<lambda>i. crc_bit (ytime (xbit i)) = xbit i \<and> ytime (crc_bit (xbit i)) = (xbit i :: u32)) [0..<32]"
  by code_simp

lemma crc_bit_ytime [simp]: "crc_bit (ytime c) = c" and ytime_crc_bit [simp]: "ytime (crc_bit c) = c"
proof -
  have b: "crc_bit (ytime (xbit i)) = xbit i" "ytime (crc_bit (xbit i)) = xbit i" if "i < LENGTH(32)" for i
    using basis that by (simp_all add: list_all_iff)
  show "crc_bit (ytime c) = c" by (rule additive_ext [of "\<lambda>c. crc_bit (ytime c)" "\<lambda>c. c"]) (intro additive_intros b | assumption)+
  show "ytime (crc_bit c) = c" by (rule additive_ext [of "\<lambda>c. ytime (crc_bit c)" "\<lambda>c. c"]) (intro additive_intros b | assumption)+
qed

text \<open>The advance over \<open>n\<close> zero bytes is the product with its value at one.\<close>

definition zeros :: "nat \<Rightarrow> u32 \<Rightarrow> u32" where
  "zeros n c = (crc_bit ^^ (8 * n)) c"

lemma mul_crc_bit: "ring_mul ytime a (crc_bit b) = crc_bit (ring_mul ytime a b)"
  by (metis crc_bit_ytime ytime_crc_bit yt.mul_step)

lemma mul_crc_bits: "ring_mul ytime a ((crc_bit ^^ n) 1) = (crc_bit ^^ n) a"
  by (induction n) (simp_all add: mul_crc_bit yt.mul_one_right)

lemma zeros_mul: "zeros n c = ring_mul ytime c (zeros n 1)"
  by (simp add: zeros_def mul_crc_bits)

lemma zeros_add: "zeros m (zeros n c) = zeros (m + n) c"
  by (simp add: zeros_def funpow_add distrib_left)

lemma zeros_xor: "zeros n (a XOR b) = zeros n a XOR zeros n b"
  using additive_crc_bits [OF additive_id, of "8 * n"] unfolding additive_def zeros_def by blast

text \<open>A run of bytes from any register.\<close>

lemma crc_from: "foldl crc8 (c XOR d) bs = foldl crc8 c bs XOR zeros (length bs) d"
proof (induction bs arbitrary: c d)
  case Nil
  then show ?case by (simp add: zeros_def)
next
  case (Cons b bs)
  have "crc8 (c XOR d) b = crc8 c b XOR zeros 1 d"
    using zeros_xor [of 1 "c XOR ucast b" d] by (simp add: crc8_def zeros_def ac_simps)
  then show ?case using zeros_add [of "length bs" 1 d] by (simp add: Cons.IH)
qed

lemma crc_append: "mm_crc32 0 (xs @ ys) = mm_crc32 0 ys XOR zeros (length ys) (mm_crc32 0 xs)"
  using crc_from [of 0 "mm_crc32 0 xs" ys] by (simp add: mm_crc32_def)

end
