(* ===== verification/Conformance.thy ===== *)
theory Conformance
  imports Events Tape SegmentFold Crc32c
begin

text \<open>
  The verification sinks of the test kit (\<open>crates/nf-testkit/src/sink.rs\<close>): the hash sinks and
  the conformance sinks, whose assertions are the repository's own statement of what a consumer
  may rely on.  A failed assertion is \<open>None\<close>.  The two conformance sinks differ only in the hash
  they fold, which is a parameter here, and both hashes are defined.
\<close>

section \<open>Hashes\<close>

definition fast_hash_bytes :: "u64 \<Rightarrow> bytes \<Rightarrow> u64" where
  "fast_hash_bytes h bs =
     (let crc = words_upto mm_crc32 (length bs) bs 0 (ucast h XOR 0xffffffff) XOR 0xffffffff
      in rotate_left64 h 7 XOR (ucast crc * 0x9e3779b97f4a7c15))"

text \<open>However the bytes are cut for the instructions, the checksum is the one byte by byte.\<close>

lemma fast_hash_bytewise:
  "fast_hash_bytes h bs
    = rotate_left64 h 7 XOR (ucast (foldl crc8 (ucast h XOR 0xffffffff) bs XOR 0xffffffff) * 0x9e3779b97f4a7c15)"
  by (simp add: fast_hash_bytes_def crc_run.words_upto_run slice_0_take mm_crc32_def)

section \<open>Sinks\<close>

record HashSink =
  hs_hash :: u64
  hs_count :: u64

text \<open>\<open>FastHashSink\<close> has the same fields and the same seed.\<close>

definition HashSink_new :: HashSink where
  "HashSink_new = \<lparr>hs_hash = FNV_OFFSET, hs_count = 0\<rparr>"

definition fold_msg :: "(u64 \<Rightarrow> bytes \<Rightarrow> u64) \<Rightarrow> bytes \<Rightarrow> HashSink \<Rightarrow> HashSink" where
  "fold_msg hash_bytes msg s =
     s\<lparr>hs_hash := hash_bytes (hash_bytes (hs_hash s) (u16_to_le_bytes (of_nat (length msg)))) msg,
       hs_count := hs_count s + 1\<rparr>"

record ConformanceSink =
  cs_hash_sink :: HashSink
  cs_last_gen :: u64
  cs_gap_open_gen :: "u64 option"
  cs_gap_open_from :: "u64 option"
  cs_gap_opens :: u64
  cs_reanchors :: u64
  cs_session_boundaries :: u64
  cs_end_of_sessions :: u64
  cs_session_deads :: u64
  cs_last_seq :: u64

definition ConformanceSink_new :: ConformanceSink where
  "ConformanceSink_new =
     \<lparr>cs_hash_sink = HashSink_new, cs_last_gen = 0, cs_gap_open_gen = None, cs_gap_open_from = None, cs_gap_opens = 0,
      cs_reanchors = 0, cs_session_boundaries = 0, cs_end_of_sessions = 0, cs_session_deads = 0, cs_last_seq = 0\<rparr>"

definition on_msg :: "(u64 \<Rightarrow> bytes \<Rightarrow> u64) \<Rightarrow> u64 \<Rightarrow> u64 \<Rightarrow> bytes \<Rightarrow> ConformanceSink \<Rightarrow> ConformanceSink option" where
  "on_msg hash_bytes gen q msg k =
     (if \<not> cs_last_gen k \<le> gen then None
      else if cs_last_seq k \<noteq> 0 \<and> q \<noteq> cs_last_seq k + 1 then None
      else Some (k\<lparr>cs_last_seq := q, cs_hash_sink := fold_msg hash_bytes msg (cs_hash_sink k)\<rparr>))"

fun on_event :: "Event \<Rightarrow> ConformanceSink \<Rightarrow> ConformanceSink option" where
  "on_event (GapOpened w ahead gen) k =
     (if \<not> cs_last_gen k < gen then None
      else if cs_gap_open_gen k \<noteq> None then None
      else Some (k\<lparr>cs_last_gen := gen, cs_gap_open_gen := Some gen, cs_gap_open_from := Some w, cs_gap_opens := cs_gap_opens k + 1\<rparr>))"
| "on_event (ReAnchored gen w) k =
     (if cs_gap_open_gen k \<noteq> Some gen then None
      else if \<not> (case cs_gap_open_from k of None \<Rightarrow> True | Some f \<Rightarrow> f \<le> w) then None
      else Some (k\<lparr>cs_gap_open_gen := None, cs_gap_open_from := None, cs_reanchors := cs_reanchors k + 1\<rparr>))"
| "on_event (SessionBoundary p n gen) k =
     (if \<not> cs_last_gen k < gen then None
      else Some (k\<lparr>cs_last_gen := gen, cs_gap_open_gen := None, cs_gap_open_from := None,
        cs_session_boundaries := cs_session_boundaries k + 1, cs_last_seq := 0\<rparr>))"
| "on_event (EndOfSessionEv s w a) k =
     Some (k\<lparr>cs_gap_open_gen := None, cs_gap_open_from := None, cs_end_of_sessions := cs_end_of_sessions k + 1\<rparr>)"
| "on_event (SessionDead r w) k =
     Some (k\<lparr>cs_gap_open_gen := None, cs_gap_open_from := None, cs_session_deads := cs_session_deads k + 1\<rparr>)"

text \<open>The sinks take messages one by one: the span calls are the trait's defaults, two that do
  nothing and one that panics.\<close>

fun sink_call :: "(u64 \<Rightarrow> bytes \<Rightarrow> u64) \<Rightarrow> SinkCall \<Rightarrow> ConformanceSink \<Rightarrow> ConformanceSink option" where
  "sink_call hash_bytes (OnMsg g q m) k = on_msg hash_bytes g q m k"
| "sink_call hash_bytes (OnEvent e) k = on_event e k"
| "sink_call hash_bytes (OnSpan g r) k = Some k"
| "sink_call hash_bytes (OnSpanBatch g rs) k = Some k"
| "sink_call hash_bytes (OnSpanBatchPacked g a b c ws) k = None"

fun sink_calls :: "(u64 \<Rightarrow> bytes \<Rightarrow> u64) \<Rightarrow> SinkCall list \<Rightarrow> ConformanceSink \<Rightarrow> ConformanceSink option" where
  "sink_calls hash_bytes [] k = Some k"
| "sink_calls hash_bytes (c # cs) k = (case sink_call hash_bytes c k of None \<Rightarrow> None | Some k' \<Rightarrow> sink_calls hash_bytes cs k')"

section \<open>The open gap and its start\<close>

text \<open>The start of the open gap and whether the session has ended, followed through the calls; \<open>None\<close>
  when a gap is closed below its start, closed or opened out of turn, or a span call is made.\<close>

fun gap_call :: "u64 option \<times> bool \<Rightarrow> SinkCall \<Rightarrow> (u64 option \<times> bool) option" where
  "gap_call v (OnMsg g q m) = Some v"
| "gap_call v (OnEvent (GapOpened w x g)) = (if v = (None, False) then Some (Some w, False) else None)"
| "gap_call v (OnEvent (ReAnchored g w)) =
     (case v of (Some f, False) \<Rightarrow> if f \<le> w then Some (None, False) else None | _ \<Rightarrow> None)"
| "gap_call v (OnEvent (SessionBoundary p n g)) = Some (None, False)"
| "gap_call v (OnEvent (EndOfSessionEv s w a)) = Some (None, True)"
| "gap_call v c = None"

fun gap_calls :: "u64 option \<times> bool \<Rightarrow> SinkCall list \<Rightarrow> (u64 option \<times> bool) option" where
  "gap_calls v [] = Some v"
| "gap_calls v (c # cs) = (case gap_call v c of None \<Rightarrow> None | Some v' \<Rightarrow> gap_calls v' cs)"

text \<open>How it shows in the sequencer.\<close>

definition gap_view :: "Sequencer \<Rightarrow> u64 option \<times> bool \<Rightarrow> bool" where
  "gap_view sq v \<longleftrightarrow> snd v = (sq_state sq = Ended) \<and> (sq_state sq = Init \<longrightarrow> \<not> sq_gap_active sq) \<and>
     (case fst v of None \<Rightarrow> sq_state sq = Ended \<or> \<not> sq_gap_active sq
      | Some f \<Rightarrow> sq_state sq \<noteq> Ended \<and> sq_gap_active sq \<and> f \<le> sq_w sq)"

definition climbs :: "Sequencer \<Rightarrow> step \<Rightarrow> bool" where
  "climbs sq st \<longleftrightarrow> (\<forall>v. gap_view sq v \<longrightarrow> (\<exists>v'. gap_calls v (snd st) = Some v' \<and> gap_view (fst st) v'))"

lemma gap_calls_append:
  "gap_calls v (xs @ ys) = (case gap_calls v xs of None \<Rightarrow> None | Some v' \<Rightarrow> gap_calls v' ys)"
  by (induction v xs rule: gap_calls.induct) (auto split: option.split)

lemma climbs_andThen: "climbs sq st \<Longrightarrow> climbs (fst st) (f (fst st)) \<Longrightarrow> climbs sq (andThen st f)"
  unfolding climbs_def fst_andThen snd_andThen gap_calls_append by fastforce

lemma gap_calls_msgs: "\<forall>c \<in> set cs. \<exists>q m. c = OnMsg g q m \<Longrightarrow> gap_calls v cs = Some v"
  by (induction cs) auto

text \<open>Steps that emit messages and leave the control state alone.\<close>

lemma climbs_msgs:
  assumes "ctrl sq' = ctrl sq" "sq_w sq \<le> sq_w sq'" "\<forall>c \<in> set cs. \<exists>q m. c = OnMsg g q m"
  shows "climbs sq (sq', cs)"
  using assms(2) ctrl_eqD(3,4) [OF assms(1)] gap_calls_msgs [OF assms(3)]
  by (auto simp: climbs_def gap_view_def split: option.split)

lemma climbs_silent: "ctrl sq' = ctrl sq \<Longrightarrow> sq_w sq' = sq_w sq \<Longrightarrow> climbs sq (sq', [])"
  by (rule climbs_msgs) simp_all

lemma climbs_fields:
  "sq_state sq' = sq_state sq \<Longrightarrow> sq_gap_active sq' = sq_gap_active sq \<Longrightarrow> sq_w sq' = sq_w sq \<Longrightarrow> climbs sq (sq', [])"
  by (auto simp: climbs_def gap_view_def split: option.split)

lemma check_gap_close_climbs: "sq_state sq \<noteq> Ended \<Longrightarrow> climbs sq (check_gap_close g sq)"
  by (auto simp: climbs_def gap_view_def check_gap_close_def split: option.splits)

lemma gap_evidence_climbs: "sq_state sq \<noteq> Ended \<Longrightarrow> sq_state sq \<noteq> Init \<Longrightarrow> climbs sq (gap_evidence x sq)"
  by (auto simp: climbs_def gap_view_def gap_evidence_def Let_def split: option.splits)

lemma retire_pending_climbs: "climbs sq (retire_pending sq, [])"
  by (rule climbs_fields) (simp_all add: retire_pending_def split: option.split)

lemma anchor_climbs: "sq_state sq = Init \<Longrightarrow> climbs sq (anchor q t sq, [])"
  by (auto simp: climbs_def gap_view_def anchor_def split: option.splits)

lemma dispatch_session_climbs: "climbs sq (dispatch_session s sq)"
  by (auto simp: climbs_def gap_view_def dispatch_session_def session_dispatch_def refresh_session_tmpl_def Let_def
      split: option.splits)

lemma eos_packet_climbs: "climbs sq (eos_packet h sq)"
  by (auto simp: climbs_def gap_view_def eos_packet_def handle_eos_def end_session_def Let_def
      split: option.splits State.splits)

lemma handle_heartbeat_climbs: "climbs sq (handle_heartbeat q t sq)"
proof -
  let ?c = "count (\<lambda>c. c\<lparr>c_heartbeats := c_heartbeats c + 1\<rparr>) sq"
  let ?h = "?c\<lparr>sq_hb_seq := q, sq_hb_vt := t\<rparr>"
  have c: "climbs sq (?c, [])" "climbs sq (?h, [])" by (rule climbs_fields; simp)+
  have "climbs sq (andThen (?h, []) (gap_evidence q))" if "sq_state sq \<noteq> Ended" "sq_state sq \<noteq> Init"
    using c(2) by (rule climbs_andThen) (use that in \<open>simp add: gap_evidence_climbs\<close>)
  then show ?thesis using c by (simp add: handle_heartbeat_def Let_def)
qed

section \<open>The data path\<close>

lemma view_w: "sq_state (retire_pending sq) = sq_state sq" "sq_w (retire_pending sq) = sq_w sq"
  by (simp_all add: retire_pending_def split: option.split)

lemma check_gap_close_w: "sq_w (fst (check_gap_close g sq)) = sq_w sq"
  by (simp add: check_gap_close_def)

text \<open>Messages under one generation, then the gap check: the watermark of the check is the final one.\<close>

lemma drain_then_close_climbs:
  assumes "ctrl (fst st) = ctrl sq" "\<forall>c \<in> set (snd st). \<exists>q m. c = OnMsg g q m" "sq_state sq \<noteq> Ended"
    and "sq_w sq \<le> sq_w (fst (andThen st (check_gap_close g')))"
  shows "climbs sq (andThen st (check_gap_close g'))"
proof -
  have w: "sq_w sq \<le> sq_w (fst st)" using assms(4) by (simp add: fst_andThen check_gap_close_w)
  have "climbs sq (fst st, snd st)" by (rule climbs_msgs [OF assms(1) w assms(2)])
  then have "climbs sq st" by simp
  then show ?thesis
    using assms(3) ctrl_eqD(3) [OF assms(1)] by (intro climbs_andThen) (simp_all add: check_gap_close_climbs)
qed

lemma contig_tail_climbs:
  assumes "sq_state sq \<noteq> Ended" "sq_w sq \<le> sq_w (fst (contig_tail old l g t sq))"
  shows "climbs sq (contig_tail old l g t sq)"
proof -
  define sq3 where "sq3 = (let sq1 = sq\<lparr>sq_w := l + 1\<rparr> in
    (if sq_staged_count sq1 \<noteq> 0 \<and> sq_mutation sq1 \<noteq> DisableClearOnAdvance
     then clear_slots old (sq_w sq1) sq1 else sq1)\<lparr>sq_progress_vt := t\<rparr>)"
  have c3: "ctrl sq3 = ctrl sq" by (simp add: sq3_def Let_def clear_slots_ctrl)
  let ?st = "if sq_staged_count sq3 \<noteq> 0 then drain_counted g t sq3 else (sq3, [])"
  have st: "ctrl (fst ?st) = ctrl sq" "\<forall>c \<in> set (snd ?st). \<exists>q m. c = OnMsg g q m"
    using drain_counted_ctrl c3 by auto
  have "contig_tail old l g t sq = andThen ?st (\<lambda>s. if sq_gap_active s then check_gap_close g s else (s, []))"
    by (simp only: contig_tail_def Let_def sq3_def)
  also have "(\<lambda>s. if sq_gap_active s then check_gap_close g s else (s, [])) = check_gap_close g"
    by (intro ext) (simp add: check_gap_close_def)
  finally have e: "contig_tail old l g t sq = andThen ?st (check_gap_close g)" .
  show ?thesis using drain_then_close_climbs [OF st assms(1)] assms(2) unfolding e by blast
qed

lemma gap_tail_climbs:
  assumes "sq_state sq \<noteq> Ended" "sq_w sq \<le> sq_w (fst (gap_tail l t sq))"
  shows "climbs sq (gap_tail l t sq)"
proof -
  define sq2 where "sq2 = (let sq1 = (if sq_w sq + of_nat WINDOW_SLOTS \<le> l
      then sq\<lparr>sq_evidence_hwm := max (sq_evidence_hwm sq) (l + 1)\<rparr> else sq)
    in sq1\<lparr>sq_max_staged := max (sq_max_staged sq1) l\<rparr>)"
  let ?st = "drain_counted (sq_gen sq2) t sq2"
  have e: "gap_tail l t sq = andThen ?st (check_gap_close (sq_gen sq2))"
  proof -
    have "gap_tail l t sq = andThen ?st (\<lambda>s. check_gap_close (sq_gen s) s)"
      by (simp only: gap_tail_def Let_def sq2_def)
    also have "\<dots> = andThen ?st (check_gap_close (sq_gen sq2))"
      using ctrl_eqD(1) [OF conjunct1 [OF drain_counted_ctrl, of "sq_gen sq2" t sq2]] by (cases ?st) simp
    finally show ?thesis .
  qed
  have s2: "sq_state sq2 = sq_state sq" "sq_w sq2 = sq_w sq" by (simp_all add: sq2_def Let_def)
  have "climbs sq (sq2, [])" by (rule climbs_fields) (simp_all add: sq2_def Let_def)
  moreover have "climbs sq2 (andThen ?st (check_gap_close (sq_gen sq2)))"
    using drain_counted_ctrl assms s2 by (intro drain_then_close_climbs [where g = "sq_gen sq2"]) (simp_all add: e [symmetric])
  ultimately have "climbs sq (andThen (sq2, []) (\<lambda>s. andThen ?st (check_gap_close (sq_gen sq2))))"
    by - (rule climbs_andThen, simp_all)
  then show ?thesis by (simp add: e)
qed

lemma apply_contig_climbs:
  assumes "sq_state sq \<noteq> Ended" "sq_w sq \<le> sq_w (fst (apply_contig frame q l c t sq))"
  shows "climbs sq (apply_contig frame q l c t sq)"
proof -
  let ?skip = "min (unat (sq_w sq - q)) (unat c)"
  let ?sq1 = "if ?skip \<noteq> 0 then count_dup_msgs (of_nat ?skip) sq else sq"
  obtain n cs r where w: "ingest_walk frame q c ?skip (emit_callback (sq_gen sq)) (0, []) = ((n, cs), r)"
    by (metis prod.exhaust)
  have cs: "\<forall>x \<in> set cs. \<exists>q m. x = OnMsg (sq_gen sq) q m" using emit_walk_msgs [OF w] .
  let ?sq2 = "count_emitted n ?sq1"
  have sq2: "ctrl ?sq2 = ctrl sq" "sq_w ?sq2 = sq_w sq" by (simp_all add: count_emitted_def count_dup_msgs_def)
  have head: "climbs sq (?sq2, cs)" using climbs_msgs [OF sq2(1) _ cs] sq2(2) by simp
  show ?thesis
  proof (cases r)
    case (Inl e)
    then have "apply_contig frame q l c t sq = (violate (record_packet_error e) ?sq2, cs)"
      using w by (simp add: apply_contig_def Let_def)
    then show ?thesis using climbs_msgs [of "violate (record_packet_error e) ?sq2" sq, OF _ _ cs] sq2
      by (simp add: violate_def)
  next
    case (Inr u)
    let ?tail = "contig_tail (sq_w sq) l (sq_gen sq) t"
    have e: "apply_contig frame q l c t sq = andThen (?sq2, cs) (\<lambda>s. andThen (?tail s) (\<lambda>s. (retire_pending s, [])))"
      using w Inr by (simp only: apply_contig_def Let_def) simp
    have "sq_w ?sq2 \<le> sq_w (fst (?tail ?sq2))"
      using assms(2) sq2(2) unfolding e by (simp add: fst_andThen view_w)
    moreover have "sq_state ?sq2 \<noteq> Ended" using assms(1) ctrl_eqD(3) [OF sq2(1)] by simp
    ultimately have "climbs ?sq2 (?tail ?sq2)" by (intro contig_tail_climbs)
    then have "climbs ?sq2 (andThen (?tail ?sq2) (\<lambda>s. (retire_pending s, [])))"
      by (rule climbs_andThen) (rule retire_pending_climbs)
    then show ?thesis unfolding e using climbs_andThen [OF head] by (simp only: fst_conv)
  qed
qed

lemma gap_evidence_w: "sq_w (fst (gap_evidence x sq)) = sq_w sq" "sq_state sq \<noteq> Ended \<Longrightarrow> sq_state (fst (gap_evidence x sq)) \<noteq> Ended"
  by (simp_all add: gap_evidence_def Let_def)

lemma apply_gap_climbs:
  assumes "sq_state sq \<noteq> Ended" "sq_state sq \<noteq> Init" "sq_w sq \<le> sq_w (fst (apply_gap frame q l c t sq))"
  shows "climbs sq (apply_gap frame q l c t sq)"
  unfolding apply_gap_def
proof (rule climbs_andThen [OF gap_evidence_climbs [OF assms(1,2)]])
  let ?sq1 = "fst (gap_evidence q sq)"
  obtain sq2 r where w: "ingest_walk frame q c 0 (stage_callback (max_clamp ?sq1)) ?sq1 = (sq2, r)" by fastforce
  note sq2 = stage_walk_ctrl [OF w]
  show "climbs ?sq1 (case ingest_walk frame q c 0 (stage_callback (max_clamp ?sq1)) ?sq1 of
      (sq2, Inl e) \<Rightarrow> (violate (record_packet_error e) sq2, [])
    | (sq2, Inr _) \<Rightarrow> andThen (gap_tail l t sq2) (\<lambda>sq3. (retire_pending sq3, [])))"
  proof (cases r)
    case (Inl e)
    have "climbs ?sq1 (violate (record_packet_error e) sq2, [])"
      using sq2 by (intro climbs_silent) (simp_all add: violate_def)
    then show ?thesis using w Inl by simp
  next
    case (Inr u)
    have s: "sq_state sq2 \<noteq> Ended" using gap_evidence_w(2) [OF assms(1), of q] sq2 ctrl_eqD(3) [of sq2 ?sq1] by simp
    have "sq_w sq2 = sq_w sq" using sq2 gap_evidence_w(1) [of q sq] by simp
    moreover have "sq_w (fst (apply_gap frame q l c t sq)) = sq_w (fst (gap_tail l t sq2))"
      using w Inr by (simp add: apply_gap_def fst_andThen view_w)
    ultimately have "climbs sq2 (gap_tail l t sq2)" using assms(3) by (intro gap_tail_climbs [OF s]) simp
    then have "climbs sq2 (andThen (gap_tail l t sq2) (\<lambda>sq3. (retire_pending sq3, [])))"
      by (rule climbs_andThen) (rule retire_pending_climbs)
    moreover have "climbs ?sq1 (sq2, [])" using sq2 by (intro climbs_silent) simp_all
    ultimately have "climbs ?sq1 (andThen (sq2, []) (\<lambda>s. andThen (gap_tail l t s) (\<lambda>sq3. (retire_pending sq3, []))))"
      by - (rule climbs_andThen, simp_all)
    then show ?thesis using w Inr by simp
  qed
qed

text \<open>The watermark of an anchored session never falls.\<close>

lemma spec_data_w:
  assumes "d_phase st \<noteq> Unanchored"
  shows "d_w st \<le> d_w (fst (spec_data M q c st))"
  using assms advance_run [of WINDOW_SLOTS "d_held st" "q + c", OF refl] by (auto simp: spec_data_def Let_def)

lemma spec_data_anchor_w:
  assumes "d_phase st = Unanchored"
  shows "q \<le> d_w (fst (spec_data M q c st))"
  using assms advance_run [of WINDOW_SLOTS "d_held st" "q + c", OF refl] by (auto simp: spec_data_def Let_def)

lemma ingest_span_climbs:
  assumes sim: "simulates M st sq" and src: "source_ok M"
    and ph: "d_phase st = Unanchored \<or> d_phase st = Anchored"
    and s: "d_session st = hdr_session h" "length (hdr_session h) = 10" "hdr_session h \<noteq> zero_session"
    and h: "hdr_count h \<noteq> HEARTBEAT_COUNT" "hdr_count h \<noteq> EOS_COUNT" "span h \<noteq> None"
      "unat (hdr_seq h) + unat (hdr_count h) \<le> SEQ_LIMIT" "0 < unat (hdr_count h)"
    and f: "frame = data_frame M (hdr_session h) (hdr_seq h) (hdr_count h)"
    and e: "sq_state sq \<noteq> Ended"
  shows "climbs sq (ingest_span frame h fd now sq)"
proof -
  let ?q = "hdr_seq h" and ?c = "hdr_count h"
  obtain last_sq where sp: "span h = Some (?q, last_sq)"
    using h(3) span_data [OF h(1,2)] by (metis not_Some_eq prod.exhaust)
  define sq1 where "sq1 = (if sq_state sq = Init then anchor ?q now sq else sq)"
  have init: "sq_state sq = Init \<longleftrightarrow> d_phase st = Unanchored"
    using sim by (cases "sq_state sq") (auto simp: simulates_def)
  let ?apply = "if ?q \<le> sq_w sq1 then apply_contig frame ?q last_sq ?c now sq1 else apply_gap frame ?q last_sq ?c now sq1"
  have code: "ingest_span frame h fd now sq =
      (if sq_state sq \<noteq> Init \<and> last_sq < sq_w sq then (count_duplicate fd (ucast ?c) sq, []) else ?apply)"
    by (simp only: ingest_span_def sp option.case prod.case Let_def sq1_def [symmetric])
  have sim2: "simulates M (fst (spec_data M (unat ?q) (unat ?c) st)) (fst (ingest_span frame h fd now sq))"
    by (rule ingest_span_simulates(1) [OF sim src ph s h f])
  have "sq_w sq1 \<le> sq_w (fst (ingest_span frame h fd now sq))"
  proof (cases "sq_state sq = Init")
    case True
    then show ?thesis using sim2 spec_data_anchor_w [of st "unat ?q" M "unat ?c"] init
      by (simp add: sq1_def anchor_def simulates_def word_le_nat_alt)
  next
    case False
    then show ?thesis using sim sim2 spec_data_w [of st M "unat ?q" "unat ?c"] init
      by (simp add: sq1_def simulates_def word_le_nat_alt)
  qed
  moreover have s1: "sq_state sq1 \<noteq> Ended" "sq_state sq1 \<noteq> Init" using e by (simp_all add: sq1_def anchor_def)
  moreover have a: "climbs sq (sq1, [])" using anchor_climbs climbs_silent [of sq sq] by (simp add: sq1_def)
  show ?thesis
  proof (cases "sq_state sq \<noteq> Init \<and> last_sq < sq_w sq")
    case True
    have "climbs sq (count_duplicate fd (ucast ?c) sq, [])"
      by (rule climbs_silent) (simp_all add: count_duplicate_def count_dup_msgs_def)
    then show ?thesis using True code by simp
  next
    case False
    then have c: "ingest_span frame h fd now sq = ?apply" by (rule trans [OF code if_not_P])
    have "climbs sq1 ?apply"
      using calculation unfolding c by (auto intro: apply_contig_climbs apply_gap_climbs)
    then have "climbs sq (andThen (sq1, []) (\<lambda>s. ?apply))" using a by - (rule climbs_andThen, simp_all)
    then show ?thesis by (simp add: c)
  qed
qed

lemma ingest_climbs:
  assumes sim: "simulates M st sq" and src: "source_ok M" and ok: "frame_ok M frame"
  shows "climbs sq (ingest frame fd now sq)"
proof -
  let ?sq = "count_packet fd (length frame) sq"
  have sim0: "simulates M st ?sq" by (rule simulates_core [OF sim]) simp_all
  have head: "climbs sq (?sq, [])" "climbs sq (violate u ?sq, [])" "climbs sq (count v ?sq, [])" for u v
    by (intro climbs_silent; simp add: count_packet_def violate_def)+
  show ?thesis
  proof (cases "parse_header frame")
    case (Inl e)
    then show ?thesis using head by (simp add: ingest_def Let_def)
  next
    case (Inr h)
    note hd = frame_of_header [OF Inr]
    show ?thesis
    proof (cases "sq_state ?sq = Dead")
      case True
      then show ?thesis using head(3) Inr hd(1) by (simp add: ingest_def Let_def)
    next
      case alive: False
      let ?s = "hdr_session h"
      have nz: "?s \<noteq> zero_session" using ok Inr by (simp add: frame_ok_def)
      obtain sq1 cs1 where d1: "dispatch_session ?s ?sq = (sq1, cs1)" by fastforce
      obtain st1 o1 where s1: "spec_session ?s st = (st1, o1)" by fastforce
      have sim1: "simulates M st1 sq1" and ses: "d_session st1 = ?s"
        using dispatch_session_simulates [OF sim0 nz] session_dispatch_simulates(3) [OF sim0 nz] s1 d1 by simp_all
      have dc: "climbs ?sq (sq1, cs1)" using dispatch_session_climbs [of ?sq ?s] d1 by simp
      have "d_phase st \<noteq> Sealed_off" using alive sim0 by (cases "sq_state ?sq") (auto simp: simulates_def)
      then have ph1: "d_phase st1 \<noteq> Sealed_off" using s1 by (auto simp: spec_session_def split: if_splits)
      have k: "climbs sq1 (ingest_kind frame h fd now sq1)"
      proof -
        consider (hb) "hdr_count h = HEARTBEAT_COUNT" | (eos) "hdr_count h = EOS_COUNT"
          | (fin) "hdr_count h \<noteq> HEARTBEAT_COUNT" "hdr_count h \<noteq> EOS_COUNT" "sq_state sq1 = Ended"
          | (wrap) "hdr_count h \<noteq> HEARTBEAT_COUNT" "hdr_count h \<noteq> EOS_COUNT" "sq_state sq1 \<noteq> Ended" "span h = None"
          | (data) "hdr_count h \<noteq> HEARTBEAT_COUNT" "hdr_count h \<noteq> EOS_COUNT" "sq_state sq1 \<noteq> Ended" "span h \<noteq> None"
          by blast
        then show ?thesis
        proof cases
          case hb
          then show ?thesis using handle_heartbeat_climbs by (simp add: ingest_kind_def)
        next
          case eos
          then show ?thesis using eos_packet_climbs by (simp add: ingest_kind_def)
        next
          case fin
          then show ?thesis using climbs_silent [of "refuse_after_eos sq1" sq1]
            by (simp add: ingest_kind_def refuse_after_eos_def)
        next
          case wrap
          then show ?thesis using climbs_silent [of "violate (\<lambda>v. v\<lparr>vc_seq_overflow := vc_seq_overflow v + 1\<rparr>) sq1" sq1]
            by (simp add: ingest_kind_def ingest_span_def violate_def)
        next
          case data
          note fo = frame_ok_data [OF ok Inr data(1,2,4)]
          have "d_phase st1 = Unanchored \<or> d_phase st1 = Anchored"
            using data(3) ph1 sim1 by (cases "sq_state sq1") (auto simp: simulates_def)
          moreover have "frame = data_frame M ?s (hdr_seq h) (hdr_count h)" using fo(3) by (simp add: data_frame_def)
          ultimately have "climbs sq1 (ingest_span frame h fd now sq1)"
            using ingest_span_climbs [OF sim1 src _ ses hd(2) nz data(1,2,4) fo(1,2) _ data(3)] by blast
          then show ?thesis using data by (simp add: ingest_kind_def)
        qed
      qed
      have i: "ingest frame fd now sq = andThen (sq1, cs1) (ingest_kind frame h fd now)"
        using alive Inr hd(1) d1 by (simp add: ingest_def Let_def)
      have "climbs ?sq (andThen (sq1, cs1) (ingest_kind frame h fd now))"
        using dc by (rule climbs_andThen) (simp add: k)
      then have "climbs sq (andThen (?sq, []) (\<lambda>s. andThen (sq1, cs1) (ingest_kind frame h fd now)))"
        using head(1) by - (rule climbs_andThen, simp_all)
      then show ?thesis unfolding i by simp
    qed
  qed
qed

lemma ingest_run_climbs:
  assumes "simulates M st sq" "source_ok M" "\<forall>f \<in> set (map fst ps). frame_ok M f"
  shows "climbs sq (ingest_run ps sq)"
  using assms
proof (induction ps sq arbitrary: st rule: ingest_run.induct)
  case (1 sq)
  then show ?case using climbs_silent [of sq sq] by simp
next
  case (2 frame fd now_ns ps sq)
  have ok: "frame_ok M frame" using "2.prems"(3) by simp
  have "climbs (fst (ingest frame fd now_ns sq)) (ingest_run ps (fst (ingest frame fd now_ns sq)))"
    using "2.prems"(3) by (intro "2.IH" [OF ingest_simulates(1) [OF "2.prems"(1,2) ok] "2.prems"(2)]) simp
  then show ?case using climbs_andThen [OF ingest_climbs [OF "2.prems"(1,2) ok]] by simp
qed

section \<open>Generations\<close>

text \<open>The calls that raise the generation; a packet makes at most two.\<close>

fun is_bump :: "SinkCall \<Rightarrow> bool" where
  "is_bump (OnEvent (GapOpened w x g)) = True"
| "is_bump (OnEvent (SessionBoundary p n g)) = True"
| "is_bump c = False"

definition bumps :: "SinkCall list \<Rightarrow> nat" where
  "bumps cs = length (filter is_bump cs)"

lemma bumps_simps [simp]: "bumps [] = 0" "bumps (xs @ ys) = bumps xs + bumps ys"
  "bumps (snd (andThen st f)) = bumps (snd st) + bumps (snd (f (fst st)))"
  by (simp_all add: bumps_def snd_andThen)

lemma bumps_msgs: "\<forall>c \<in> set cs. \<exists>q m. c = OnMsg g q m \<Longrightarrow> bumps cs = 0"
  by (auto simp: bumps_def filter_empty_conv)

lemma bumps_gap: "bumps (snd (check_gap_close g sq)) = 0" "bumps (snd (gap_evidence x sq)) \<le> 1"
  by (simp_all add: bumps_def check_gap_close_def gap_evidence_def Let_def)

lemma bumps_drain: "bumps (snd (drain_counted g t sq)) = 0"
  using drain_counted_ctrl by (intro bumps_msgs) blast

lemma bumps_tails: "bumps (snd (contig_tail old l g t sq)) = 0" "bumps (snd (gap_tail l t sq)) = 0"
  by (simp_all add: contig_tail_def gap_tail_def Let_def bumps_drain bumps_gap)

lemma bumps_contig: "bumps (snd (apply_contig frame q l c t sq)) = 0"
proof -
  let ?skip = "min (unat (sq_w sq - q)) (unat c)"
  obtain n cs r where w: "ingest_walk frame q c ?skip (emit_callback (sq_gen sq)) (0, []) = ((n, cs), r)"
    by (metis prod.exhaust)
  have "bumps cs = 0" using emit_walk_msgs [OF w] by (rule bumps_msgs)
  then show ?thesis using w by (cases r) (simp_all add: apply_contig_def Let_def bumps_tails)
qed

lemma bumps_apply_gap: "bumps (snd (apply_gap frame q l c t sq)) \<le> 1"
proof -
  have "bumps (snd (case x of (sq2, Inl e) \<Rightarrow> (violate (record_packet_error e) sq2, [])
      | (sq2, Inr u) \<Rightarrow> andThen (gap_tail l t sq2) (\<lambda>sq3. (retire_pending sq3, [])))) = 0"
    for x :: "Sequencer \<times> (PacketError + unit)"
    by (simp add: bumps_tails split: prod.split sum.split)
  then show ?thesis using bumps_gap(2) [of q sq] by (simp add: apply_gap_def)
qed

lemma bumps_kind: "bumps (snd (ingest_kind frame h fd t sq)) \<le> 1"
proof -
  have "bumps (snd (ingest_span frame h fd t sq)) \<le> 1"
    using bumps_contig bumps_apply_gap by (auto simp: ingest_span_def Let_def split: option.split)
  moreover have "bumps (snd (handle_heartbeat q t sq)) \<le> 1" for q
    using bumps_gap(2) by (simp add: handle_heartbeat_def Let_def)
  moreover have "bumps (snd (eos_packet h sq)) \<le> 1"
    by (simp add: eos_packet_def handle_eos_def end_session_def Let_def bumps_def split: State.split)
  ultimately show ?thesis by (simp add: ingest_kind_def)
qed

lemma bumps_ingest: "bumps (snd (ingest frame fd t sq)) \<le> 2"
proof -
  have "bumps (snd (dispatch_session s sq)) \<le> 1" for s sq
    by (simp add: dispatch_session_def session_dispatch_def Let_def bumps_def split: prod.split)
  then have "bumps (snd (andThen (dispatch_session s sq) (ingest_kind frame h fd t))) \<le> 2" for s sq h
    using add_mono [OF _ bumps_kind, of "bumps (snd (dispatch_session s sq))" 1 frame h fd t "fst (dispatch_session s sq)"]
    by (simp add: numeral_2_eq_2)
  then show ?thesis by (simp add: ingest_def Let_def split: sum.split)
qed

lemma bumps_run: "bumps (snd (ingest_run ps sq)) \<le> 2 * length ps"
proof (induction ps arbitrary: sq)
  case (Cons p ps)
  then show ?case using add_mono [OF bumps_ingest Cons.IH] by (cases p) simp
qed simp

section \<open>Acceptance\<close>

definition delivered_bytes :: "Output list \<Rightarrow> bytes list" where
  "delivered_bytes os = concat (map (\<lambda>o'. case o' of Deliver q m \<Rightarrow> [m] | Boundary p n \<Rightarrow> []) os)"

lemma delivered_bytes_simps [simp]:
  "delivered_bytes [] = []" "delivered_bytes (Deliver q m # os) = m # delivered_bytes os"
  "delivered_bytes (Boundary p n # os) = delivered_bytes os"
  by (simp_all add: delivered_bytes_def)

text \<open>The sink's fields against the sequencer's generation, the open gap and the next number.\<close>

definition sink_view :: "ConformanceSink \<Rightarrow> u64 \<Rightarrow> u64 option \<times> bool \<Rightarrow> u64 option \<Rightarrow> bool" where
  "sink_view k g v e \<longleftrightarrow> cs_last_gen k = g \<and> cs_gap_open_from k = fst v \<and>
     cs_gap_open_gen k = (if fst v = None then None else Some g) \<and> (snd v \<longrightarrow> fst v = None) \<and>
     (cs_last_seq k = 0 \<or> e = Some (cs_last_seq k + 1))"

lemma sink_accepts:
  assumes "track_all (g, gap) cs = Some (g', gap')" "gap_calls v cs = Some v'" "in_order M s e (outputs cs)"
    and "sink_view k g v e" "unat g + bumps cs < 2 ^ 64"
  shows "\<exists>k' e'. sink_calls hash_bytes cs k = Some k' \<and> sink_view k' g' v' e' \<and>
    cs_hash_sink k' = foldl (\<lambda>h m. fold_msg hash_bytes m h) (cs_hash_sink k) (delivered_bytes (outputs cs))"
  using assms
proof (induction cs arbitrary: g gap v s e k)
  case Nil
  then show ?case by auto
next
  case (Cons c cs)
  obtain gv where t: "track (g, gap) c = Some gv" "track_all gv cs = Some (g', gap')"
    using Cons.prems(1) by (auto split: option.splits)
  obtain v1 where v1: "gap_call v c = Some v1" "gap_calls v1 cs = Some v'"
    using Cons.prems(2) by (auto split: option.splits)
  have step: ?case if "sink_call hash_bytes c k = Some k1" "gv = (g1, gap1)" "in_order M s1 e1 (outputs cs)" "sink_view k1 g1 v1 e1"
      "unat g1 + bumps cs \<le> unat g + bumps (c # cs)"
      "cs_hash_sink k1 = foldl (\<lambda>h m. fold_msg hash_bytes m h) (cs_hash_sink k) (delivered_bytes (output_of c))"
      "delivered_bytes (outputs (c # cs)) = delivered_bytes (output_of c) @ delivered_bytes (outputs cs)" for k1 g1 gap1 s1 e1
  proof -
    have "unat g1 + bumps cs < 2 ^ 64" using that(5) Cons.prems(5) by simp
    then show ?thesis
      using Cons.IH [OF _ v1(2) that(3,4), of gap1] t(2) that(1,2,6,7) by auto
  qed
  have up: "unat (g + 1) = unat g + 1" "g < g + 1" if "is_bump c"
    using Cons.prems(5) that by (simp_all add: bumps_def unat_plus_u64 word_less_nat_alt)
  have k: "cs_last_gen k = g" "cs_gap_open_from k = fst v" "cs_gap_open_gen k = (if fst v = None then None else Some g)"
    "snd v \<longrightarrow> fst v = None" "cs_last_seq k = 0 \<or> e = Some (cs_last_seq k + 1)"
    using Cons.prems(4) by (simp_all add: sink_view_def)
  show ?case
  proof (cases c)
    case (OnMsg g2 q m)
    then have g: "g2 = g" "gv = (g, gap)" "v1 = v" using t(1) v1(1) by (auto split: if_splits)
    have o: "(case e of None \<Rightarrow> True | Some w \<Rightarrow> q = w)" "in_order M s (Some (q + 1)) (outputs cs)"
      using Cons.prems(3) OnMsg by auto
    have q: "\<not> (cs_last_seq k \<noteq> 0 \<and> q \<noteq> cs_last_seq k + 1)" using k(5) o(1) by auto
    let ?k1 = "k\<lparr>cs_last_seq := q, cs_hash_sink := fold_msg hash_bytes m (cs_hash_sink k)\<rparr>"
    have "sink_call hash_bytes c k = Some ?k1" using q by (simp add: OnMsg g on_msg_def k(1))
    then show ?thesis
      using g(2) o(2) by (rule step) (use k g(3) in \<open>simp_all add: sink_view_def OnMsg bumps_def\<close>)
  next
    case (OnEvent ev)
    show ?thesis
    proof (cases ev)
      case (GapOpened w x g2)
      then have g: "g2 = g + 1" "gv = (g + 1, True)" "v = (None, False)" "v1 = (Some w, False)"
        using t(1) v1(1) OnEvent by (auto split: if_splits)
      let ?k1 = "k\<lparr>cs_last_gen := g + 1, cs_gap_open_gen := Some (g + 1), cs_gap_open_from := Some w, cs_gap_opens := cs_gap_opens k + 1\<rparr>"
      have b: "is_bump c" by (simp add: OnEvent GapOpened)
      show ?thesis
      proof (rule step)
        show "sink_call hash_bytes c k = Some ?k1" using up(2) [OF b] by (simp add: OnEvent GapOpened g k)
        show "gv = (g + 1, True)" by (rule g(2))
        show "in_order M s e (outputs cs)" using Cons.prems(3) by (simp add: OnEvent GapOpened)
        show "sink_view ?k1 (g + 1) v1 e" using k(5) by (simp add: sink_view_def g)
        show "unat (g + 1) + bumps cs \<le> unat g + bumps (c # cs)" unfolding up(1) [OF b] using b by (simp add: bumps_def)
      qed (simp_all add: OnEvent GapOpened)
    next
      case (ReAnchored g2 w)
      have g1: "g2 = g" "gv = (g, False)" using t(1) OnEvent ReAnchored by (auto split: if_splits)
      obtain f where g2: "v = (Some f, False)" "v1 = (None, False)" "f \<le> w"
        using v1(1) OnEvent ReAnchored by (cases v; cases "fst v"; cases "snd v") (auto split: if_splits)
      note g = g1 g2
      let ?k1 = "k\<lparr>cs_gap_open_gen := None, cs_gap_open_from := None, cs_reanchors := cs_reanchors k + 1\<rparr>"
      show ?thesis
      proof (rule step)
        show "sink_call hash_bytes c k = Some ?k1" by (simp add: OnEvent ReAnchored g k)
        show "gv = (g, False)" by (rule g(2))
        show "in_order M s e (outputs cs)" using Cons.prems(3) by (simp add: OnEvent ReAnchored)
        show "sink_view ?k1 g v1 e" using k(1,5) by (simp add: sink_view_def g)
        show "unat g + bumps cs \<le> unat g + bumps (c # cs)" by (simp add: bumps_def)
      qed (simp_all add: OnEvent ReAnchored)
    next
      case (SessionBoundary p n g2)
      then have g: "g2 = g + 1" "gv = (g + 1, False)" "v1 = (None, False)"
        using t(1) v1(1) OnEvent by (auto split: if_splits)
      let ?k1 = "k\<lparr>cs_last_gen := g + 1, cs_gap_open_gen := None, cs_gap_open_from := None,
          cs_session_boundaries := cs_session_boundaries k + 1, cs_last_seq := 0\<rparr>"
      have b: "is_bump c" by (simp add: OnEvent SessionBoundary)
      show ?thesis
      proof (rule step)
        show "sink_call hash_bytes c k = Some ?k1" using up(2) [OF b] by (simp add: OnEvent SessionBoundary g k)
        show "gv = (g + 1, False)" by (rule g(2))
        show "in_order M n None (outputs cs)" using Cons.prems(3) by (simp add: OnEvent SessionBoundary)
        show "sink_view ?k1 (g + 1) v1 None" by (simp add: sink_view_def g)
        show "unat (g + 1) + bumps cs \<le> unat g + bumps (c # cs)" unfolding up(1) [OF b] using b by (simp add: bumps_def)
      qed (simp_all add: OnEvent SessionBoundary)
    next
      case (EndOfSessionEv s2 w a)
      then have g: "gv = (g, gap)" "v1 = (None, True)" using t(1) v1(1) OnEvent by auto
      let ?k1 = "k\<lparr>cs_gap_open_gen := None, cs_gap_open_from := None, cs_end_of_sessions := cs_end_of_sessions k + 1\<rparr>"
      show ?thesis
      proof (rule step)
        show "sink_call hash_bytes c k = Some ?k1" by (simp add: OnEvent EndOfSessionEv)
        show "gv = (g, gap)" by (rule g(1))
        show "in_order M s e (outputs cs)" using Cons.prems(3) by (simp add: OnEvent EndOfSessionEv)
        show "sink_view ?k1 g v1 e" using k(1,5) by (simp add: sink_view_def g)
        show "unat g + bumps cs \<le> unat g + bumps (c # cs)" by (simp add: bumps_def)
      qed (simp_all add: OnEvent EndOfSessionEv)
    next
      case (SessionDead r w)
      then show ?thesis using v1(1) OnEvent by simp
    qed
  qed (use v1(1) in simp_all)
qed

text \<open>What the tallies count: the events among the calls.\<close>

fun events_of :: "SinkCall list \<Rightarrow> Event list" where
  "events_of [] = []"
| "events_of (OnEvent ev # cs) = ev # events_of cs"
| "events_of (c # cs) = events_of cs"

fun is_gap_opened :: "Event \<Rightarrow> bool" where
  "is_gap_opened (GapOpened w x g) = True"
| "is_gap_opened ev = False"

fun is_reanchored :: "Event \<Rightarrow> bool" where
  "is_reanchored (ReAnchored g w) = True"
| "is_reanchored ev = False"

fun is_boundary :: "Event \<Rightarrow> bool" where
  "is_boundary (SessionBoundary p n g) = True"
| "is_boundary ev = False"

fun is_end_of_session :: "Event \<Rightarrow> bool" where
  "is_end_of_session (EndOfSessionEv s w a) = True"
| "is_end_of_session ev = False"

fun is_session_dead :: "Event \<Rightarrow> bool" where
  "is_session_dead (SessionDead r w) = True"
| "is_session_dead ev = False"

definition tally :: "(Event \<Rightarrow> bool) \<Rightarrow> SinkCall list \<Rightarrow> u64" where
  "tally P cs = of_nat (length (filter P (events_of cs)))"

text \<open>The start of the gap left open by the events, and the number of the last delivery of the
  current session.\<close>

fun gap_after :: "u64 option \<Rightarrow> Event \<Rightarrow> u64 option" where
  "gap_after f (GapOpened w x g) = Some w"
| "gap_after f ev = None"

fun number_after :: "u64 \<Rightarrow> Output \<Rightarrow> u64" where
  "number_after n (Deliver q m) = q"
| "number_after n (Boundary p s) = 0"

lemma hash_sink_count: "hs_count (foldl (\<lambda>h m. fold_msg hash_bytes m h) h ms) = hs_count h + of_nat (length ms)"
  by (induction ms arbitrary: h) (simp_all add: fold_msg_def)

definition counted :: "SinkCall list \<Rightarrow> ConformanceSink \<Rightarrow> ConformanceSink \<Rightarrow> bool" where
  "counted cs k k' \<longleftrightarrow> cs_gap_opens k' = cs_gap_opens k + tally is_gap_opened cs \<and>
     cs_reanchors k' = cs_reanchors k + tally is_reanchored cs \<and>
     cs_session_boundaries k' = cs_session_boundaries k + tally is_boundary cs \<and>
     cs_end_of_sessions k' = cs_end_of_sessions k + tally is_end_of_session cs \<and>
     cs_session_deads k' = cs_session_deads k + tally is_session_dead cs \<and>
     cs_gap_open_from k' = foldl gap_after (cs_gap_open_from k) (events_of cs) \<and>
     cs_last_seq k' = foldl number_after (cs_last_seq k) (outputs cs)"

lemma on_event_counted: "on_event ev k = Some k1 \<Longrightarrow> counted [OnEvent ev] k k1"
  by (cases ev) (auto simp: counted_def tally_def split: if_splits)

lemma sink_call_counted: "sink_call hash_bytes c k = Some k1 \<Longrightarrow> counted [c] k k1"
  by (cases c) (auto simp: on_event_counted, auto simp: counted_def tally_def on_msg_def split: if_splits)

lemma counted_Cons: "counted [c] k k1 \<Longrightarrow> counted cs k1 k2 \<Longrightarrow> counted (c # cs) k k2"
  by (cases c) (simp_all add: counted_def tally_def)

lemma sink_calls_counted: "sink_calls hash_bytes cs k = Some k' \<Longrightarrow> counted cs k k'"
proof (induction cs arbitrary: k)
  case Nil
  then show ?case by (simp add: counted_def tally_def)
next
  case (Cons c cs)
  then show ?case by (auto split: option.splits intro: counted_Cons sink_call_counted)
qed

definition gap_open :: "Sequencer \<Rightarrow> bool" where
  "gap_open sq \<longleftrightarrow> sq_gap_active sq \<and> sq_state sq \<noteq> Ended"

lemma sink_final:
  assumes "source_ok M" "\<forall>p \<in> set ps. frame_ok M (fst p)" "length ps < 2 ^ 63"
    and "ingest_run ps Sequencer_new_unboxed = (sq, calls)"
  shows "\<exists>k. sink_calls hash_bytes calls ConformanceSink_new = Some k \<and>
    cs_hash_sink k = foldl (\<lambda>h m. fold_msg hash_bytes m h) HashSink_new (delivered_bytes (outputs calls)) \<and>
    cs_last_gen k = sq_gen sq \<and> cs_gap_open_gen k = (if gap_open sq then Some (sq_gen sq) else None) \<and>
    (\<forall>f. cs_gap_open_from k = Some f \<longrightarrow> f \<le> sq_w sq) \<and> counted calls ConformanceSink_new k"
proof -
  have ok: "\<forall>f \<in> set (map fst ps). frame_ok M f" using assms(2) by auto
  have z: "sq_gen Sequencer_new_unboxed = 0" "sq_gap_active Sequencer_new_unboxed = False" "gap_view Sequencer_new_unboxed (None, False)"
    by (simp_all add: Sequencer_new_unboxed_def gap_view_def)
  have t: "track_all (0, False) calls = Some (sq_gen sq, sq_gap_active sq)"
    using ingest_run_lawful [of Sequencer_new_unboxed ps] by (simp add: lawful_def tracks_def view_def z assms(4))
  obtain v' where v: "gap_calls (None, False) calls = Some v'" "gap_view sq v'"
    using ingest_run_climbs [OF new_simulates assms(1) ok] z(3) unfolding climbs_def assms(4) fst_conv snd_conv by blast
  obtain st os where r: "spec_run M (map fst ps) spec_init = (st, os)" by fastforce
  have out: "outputs calls = os" using ingest_run_simulates [OF new_simulates assms(1) ok] r assms(4) by simp
  obtain s where "ordered_step M (spec_init\<lparr>d_session := s\<rparr>) None st os" using spec_run_in_order [OF ok] r by auto
  then have o: "in_order M s None (outputs calls)" by (simp add: ordered_step_def spec_init_def out)
  have k: "sink_view ConformanceSink_new 0 (None, False) None" by (simp add: sink_view_def ConformanceSink_new_def)
  have l: "unat (0 :: u64) + bumps calls < 2 ^ 64"
    using assms(3) bumps_run [of ps Sequencer_new_unboxed] by (simp add: assms(4))
  have h: "cs_hash_sink ConformanceSink_new = HashSink_new" by (simp add: ConformanceSink_new_def)
  obtain k' e' where k': "sink_calls hash_bytes calls ConformanceSink_new = Some k'" "sink_view k' (sq_gen sq) v' e'"
      "cs_hash_sink k' = foldl (\<lambda>h m. fold_msg hash_bytes m h) HashSink_new (delivered_bytes (outputs calls))"
    using sink_accepts [OF t v(1) o k l, of hash_bytes] unfolding h by blast
  have "cs_gap_open_gen k' = (if gap_open sq then Some (sq_gen sq) else None)" "\<forall>f. cs_gap_open_from k' = Some f \<longrightarrow> f \<le> sq_w sq"
    using k'(2) v(2) by (auto simp: sink_view_def gap_view_def gap_open_def split: option.splits)
  then show ?thesis using k' sink_calls_counted [OF k'(1)] by (auto simp: sink_view_def)
qed

lemma sink_accepted:
  assumes "source_ok M" "\<forall>p \<in> set ps. frame_ok M (fst p)" "length ps < 2 ^ 63"
  shows "\<exists>k. sink_calls hash_bytes (snd (ingest_run ps Sequencer_new_unboxed)) ConformanceSink_new = Some k \<and>
    cs_last_gen k = sq_gen (fst (ingest_run ps Sequencer_new_unboxed)) \<and>
    cs_hash_sink k = foldl (\<lambda>h m. fold_msg hash_bytes m h) HashSink_new
      (delivered_bytes (outputs (snd (ingest_run ps Sequencer_new_unboxed))))"
  using sink_final [OF assms, of "fst (ingest_run ps Sequencer_new_unboxed)" "snd (ingest_run ps Sequencer_new_unboxed)" hash_bytes]
  by auto

text \<open>C8: (The conformance sink never panics, and what it ends with.)  Over any sequence of fewer
  than 2 to the 63 well-formed frames, in any order and with any loss, duplication and change of
  session, none of the assertions of the conformance sink fails: generations never fall and rise
  at every gap and session boundary, sequence numbers follow one another within a session, a gap
  is opened once, closed under its own generation and not below its start.  Every field of the
  sink then has its value: the hash sink has folded exactly the delivered messages and counted
  them, the generation is the sequencer's, the open gap is the sequencer's with the start its
  event gave, each of the five tallies is the number of events of its kind the sequencer emitted,
  and the sequence check stands at the last delivery of the current session.  It holds for any hash
  function, so for FNV and for CRC32C.\<close>

theorem conformance_sink_accepts:
  assumes "source_ok M" "\<forall>p \<in> set ps. frame_ok M (fst p)" "length ps < 2 ^ 63"
    and "ingest_run ps Sequencer_new_unboxed = (sq, calls)"
  shows "\<exists>k. sink_calls hash_bytes calls ConformanceSink_new = Some k \<and>
    cs_last_gen k = sq_gen sq \<and>
    cs_hash_sink k = foldl (\<lambda>h m. fold_msg hash_bytes m h) HashSink_new (delivered_bytes (outputs calls)) \<and>
    hs_count (cs_hash_sink k) = of_nat (length (delivered_bytes (outputs calls))) \<and>
    cs_gap_opens k = tally is_gap_opened calls \<and>
    cs_reanchors k = tally is_reanchored calls \<and>
    cs_session_boundaries k = tally is_boundary calls \<and>
    cs_end_of_sessions k = tally is_end_of_session calls \<and>
    cs_session_deads k = tally is_session_dead calls \<and>
    cs_gap_open_gen k = (if sq_gap_active sq \<and> sq_state sq \<noteq> Ended then Some (sq_gen sq) else None) \<and>
    cs_gap_open_from k = foldl gap_after None (events_of calls) \<and>
    (\<forall>f. cs_gap_open_from k = Some f \<longrightarrow> f \<le> sq_w sq) \<and>
    cs_last_seq k = foldl number_after 0 (outputs calls)"
proof -
  have z: "hs_count HashSink_new = 0" by (simp add: HashSink_new_def)
  obtain k where k: "sink_calls hash_bytes calls ConformanceSink_new = Some k" "cs_last_gen k = sq_gen sq"
      "cs_hash_sink k = foldl (\<lambda>h m. fold_msg hash_bytes m h) HashSink_new (delivered_bytes (outputs calls))"
      "cs_gap_open_gen k = (if gap_open sq then Some (sq_gen sq) else None)"
      "\<forall>f. cs_gap_open_from k = Some f \<longrightarrow> f \<le> sq_w sq" "counted calls ConformanceSink_new k"
    using sink_final [OF assms] by blast
  then show ?thesis
    by (intro exI [of _ k]) (simp add: counted_def ConformanceSink_new_def hash_sink_count z gap_open_def)
qed

text \<open>Two overlapping packets.\<close>

lemma conformance_sink_accepts_witness:
  "\<exists>k. sink_calls fast_hash_bytes
      (snd (ingest_run [(data_frame sample_source sample_session 5 2, 0, 1), (data_frame sample_source sample_session 6 2, 1, 2)]
        Sequencer_new_unboxed)) ConformanceSink_new = Some k \<and> cs_gap_opens k = tally is_gap_opened
      (snd (ingest_run [(data_frame sample_source sample_session 5 2, 0, 1), (data_frame sample_source sample_session 6 2, 1, 2)]
        Sequencer_new_unboxed))"
proof -
  let ?ps = "[(data_frame sample_source sample_session 5 2, 0, 1), (data_frame sample_source sample_session 6 2, 1, 2)]
      :: (bytes \<times> FeedId \<times> u64) list"
  have ok: "\<forall>p \<in> set ?ps. frame_ok sample_source (fst p)"
    by (auto intro!: sample_frame_ok simp: SEQ_LIMIT_def)
  have "length ?ps < 2 ^ 63" by simp
  from conformance_sink_accepts [OF sample_source_ok ok this prod.collapse [symmetric], of fast_hash_bytes] show ?thesis by blast
qed

end
