(* ===== verification/IntentLaw.thy ===== *)
theory IntentLaw
  imports Conformance
begin

text \<open>
  The recovery intents of a sequencer that well-formed packets and earlier requests for intents
  brought to its state (\<open>intent.rs\<close>, \<open>recovery_intent\<close> of \<open>lib.rs\<close>).  Two facts of such a state
  bound an intent: the highest staged number is above the watermark while anything is staged, and
  a pending intent ends above the watermark and at most 65535 after it.
\<close>

section \<open>The highest staged number\<close>

text \<open>What every step but staging does: with something staged after it, something was staged before
  and the highest staged number is the same.\<close>

definition keeps_max :: "Sequencer \<Rightarrow> Sequencer \<Rightarrow> bool" where
  "keeps_max sq sq' \<longleftrightarrow> (sq_staged_count sq' \<noteq> 0 \<longrightarrow> sq_staged_count sq \<noteq> 0 \<and> sq_max_staged sq' = sq_max_staged sq)"

lemma keeps_max_same:
  "sq_staged_count sq' = sq_staged_count sq \<Longrightarrow> sq_max_staged sq' = sq_max_staged sq \<Longrightarrow> keeps_max sq sq'"
  by (simp add: keeps_max_def)

lemma keeps_max_trans: "keeps_max sq sq1 \<Longrightarrow> keeps_max sq1 sq2 \<Longrightarrow> keeps_max sq sq2"
  by (auto simp: keeps_max_def)

lemma clear_run_max:
  "clear_run is sq = (sq', r) \<Longrightarrow> sq_staged_count sq \<noteq> 0 \<Longrightarrow>
     if r then sq_staged_count sq' = 0 else sq_staged_count sq' \<noteq> 0 \<and> sq_max_staged sq' = sq_max_staged sq"
proof (induction "is" sq rule: clear_run.induct)
  case (2 i "is" sq)
  let ?sq1 = "sq\<lparr>sq_lens := (sq_lens sq)(i := 0), sq_staged_count := sq_staged_count sq - 1\<rparr>"
  show ?case
  proof (cases "sq_lens sq i \<noteq> 0 \<and> sq_staged_count ?sq1 \<noteq> 0")
    case True
    then have "clear_run is ?sq1 = (sq', r)" using "2.prems"(1) by (simp add: Let_def)
    then show ?thesis using "2.IH"(1) [OF _ refl] True by simp
  next
    case False
    then show ?thesis using "2.IH"(2) "2.prems" by (auto simp: Let_def split: if_splits)
  qed
qed simp

lemma clear_slots_max: "keeps_max sq (clear_slots a b sq)"
proof (cases "sq_staged_count sq = 0")
  case True
  then show ?thesis by (simp add: clear_slots_def keeps_max_same)
next
  case False
  let ?lim = "min b (saturating_add64 a (of_nat WINDOW_SLOTS))"
  let ?n = "unat (?lim - a)" and ?start = "slot_of a"
  let ?k = "min (WINDOW_SLOTS - ?start) ?n"
  obtain sq1 r where c1: "clear_run [?start ..< ?start + ?k] sq = (sq1, r)" by fastforce
  obtain sq2 r2 where c2: "clear_run [0 ..< ?n - ?k] sq1 = (sq2, r2)" by fastforce
  note m1 = clear_run_max [OF c1 False]
  have "keeps_max sq (if r then sq1 else sq2)"
    using m1 clear_run_max [OF c2] False by (auto simp: keeps_max_def split: if_splits)
  then show ?thesis using False c1 c2
    by (cases r) (simp_all add: clear_slots_def Let_def keeps_max_same)
qed

lemma drain_loop_max: "sq_max_staged (fst (drain_loop n g sq)) = sq_max_staged sq"
  by (induction n g sq rule: drain_loop.induct) (auto simp: Let_def split: prod.splits)

lemma drain_counted_max: "keeps_max sq (fst (drain_counted g t sq))"
proof -
  have "keeps_max sq (fst (drain g sq))"
    using drain_loop_max [of "unat (sq_staged_count sq)" g sq]
    by (auto simp: drain_def keeps_max_def split: prod.splits if_splits)
  moreover have "keeps_max (fst (drain g sq)) (fst (drain_counted g t sq))"
    by (rule keeps_max_same) (simp_all add: drain_counted_def Let_def count_emitted_def split: prod.split)
  ultimately show ?thesis by (rule keeps_max_trans)
qed

lemma check_gap_close_max: "keeps_max sq (fst (check_gap_close g sq))"
  by (rule keeps_max_same) (simp_all add: check_gap_close_def)

lemma gap_evidence_same:
  "sq_staged_count (fst (gap_evidence x sq)) = sq_staged_count sq" "sq_max_staged (fst (gap_evidence x sq)) = sq_max_staged sq"
  "sq_pending_to (fst (gap_evidence x sq)) = sq_pending_to sq"
  by (simp_all add: gap_evidence_def Let_def)

lemma check_gap_close_pending: "sq_pending_to (fst (check_gap_close g sq)) = sq_pending_to sq"
  by (simp add: check_gap_close_def)

lemma drain_counted_pending: "sq_pending_to (fst (drain_counted g t sq)) = sq_pending_to sq"
  using ctrl_eqD(6) [OF conjunct1 [OF drain_counted_ctrl]] .

lemma stage_walk_max:
  assumes "ingest_walk frame q c skip (stage_callback cl) sq = (sq', r)"
  shows "sq_max_staged sq' = sq_max_staged sq" "sq_pending_to sq' = sq_pending_to sq"
proof -
  have "sq_max_staged (fst (ingest_walk frame q c skip (stage_callback cl) sq)) = sq_max_staged sq"
    by (rule ingest_walk_inv [where P = "\<lambda>s. sq_max_staged s = sq_max_staged sq"])
      (auto simp: stage_callback_def stage_or_drop_def stage_msg_def Let_def split: sum.split)
  then show "sq_max_staged sq' = sq_max_staged sq" by (simp add: assms)
  show "sq_pending_to sq' = sq_pending_to sq" using ctrl_eqD(6) [OF conjunct1 [OF stage_walk_ctrl [OF assms]]] .
qed

lemma contig_tail_max:
  "keeps_max sq (fst (contig_tail old l g t sq))" "sq_pending_to (fst (contig_tail old l g t sq)) = sq_pending_to sq"
proof -
  define sq3 where "sq3 = (let sq1 = sq\<lparr>sq_w := l + 1\<rparr> in
    (if sq_staged_count sq1 \<noteq> 0 \<and> sq_mutation sq1 \<noteq> DisableClearOnAdvance
     then clear_slots old (sq_w sq1) sq1 else sq1)\<lparr>sq_progress_vt := t\<rparr>)"
  define sq4 where "sq4 = fst (if sq_staged_count sq3 \<noteq> 0 then drain_counted g t sq3 else (sq3, []))"
  have k3: "keeps_max sq sq3"
    using clear_slots_max [of "sq\<lparr>sq_w := l + 1\<rparr>" old "l + 1"] by (auto simp: sq3_def Let_def keeps_max_def)
  have k4: "keeps_max sq3 sq4" using drain_counted_max by (simp add: sq4_def keeps_max_same)
  have p4: "sq_pending_to sq4 = sq_pending_to sq"
    using drain_counted_pending ctrl_eqD(6) [OF clear_slots_ctrl] by (simp add: sq4_def sq3_def Let_def)
  have r: "fst (contig_tail old l g t sq) = (if sq_gap_active sq4 then fst (check_gap_close g sq4) else sq4)"
    unfolding contig_tail_def Let_def fst_andThen sq4_def sq3_def by simp
  show "keeps_max sq (fst (contig_tail old l g t sq))"
    using keeps_max_trans [OF keeps_max_trans [OF k3 k4] check_gap_close_max] keeps_max_trans [OF k3 k4] by (simp add: r)
  show "sq_pending_to (fst (contig_tail old l g t sq)) = sq_pending_to sq" by (simp add: r p4 check_gap_close_pending)
qed

lemma gap_tail_max:
  "sq_staged_count (fst (gap_tail l t sq)) \<noteq> 0 \<longrightarrow> sq_max_staged (fst (gap_tail l t sq)) = max (sq_max_staged sq) l"
  "sq_pending_to (fst (gap_tail l t sq)) = sq_pending_to sq"
proof -
  define sq2 where "sq2 = (let sq1 = (if sq_w sq + of_nat WINDOW_SLOTS \<le> l
      then sq\<lparr>sq_evidence_hwm := max (sq_evidence_hwm sq) (l + 1)\<rparr> else sq)
    in sq1\<lparr>sq_max_staged := max (sq_max_staged sq1) l\<rparr>)"
  have s2: "sq_max_staged sq2 = max (sq_max_staged sq) l" "sq_pending_to sq2 = sq_pending_to sq" by (simp_all add: sq2_def Let_def)
  define sq3 where "sq3 = fst (drain_counted (sq_gen sq2) t sq2)"
  have r: "fst (gap_tail l t sq) = fst (check_gap_close (sq_gen sq3) sq3)"
    unfolding gap_tail_def Let_def fst_andThen sq3_def sq2_def by simp
  have "keeps_max sq2 (fst (gap_tail l t sq))"
    unfolding r using drain_counted_max [of sq2] check_gap_close_max unfolding sq3_def by (rule keeps_max_trans)
  then show "sq_staged_count (fst (gap_tail l t sq)) \<noteq> 0 \<longrightarrow> sq_max_staged (fst (gap_tail l t sq)) = max (sq_max_staged sq) l"
    by (simp add: keeps_max_def s2)
  show "sq_pending_to (fst (gap_tail l t sq)) = sq_pending_to sq"
    by (simp add: r check_gap_close_pending sq3_def drain_counted_pending s2)
qed

section \<open>Data packets\<close>

text \<open>A packet of valid messages is walked to its end.\<close>

lemma stage_walk_ok: "\<forall>b \<in> set bs. validate (mb_data b) = Inr () \<Longrightarrow> snd (walk_msgs (stage_callback cl) bs sq) = Inr ()"
  by (induction bs arbitrary: sq) (simp_all add: stage_callback_def)

lemma data_frame_stages:
  assumes "source_ok M" "length s = 10"
  shows "\<exists>sq'. ingest_walk (data_frame M s q c) q c 0 (stage_callback cl) sq = (sq', Inr ())"
proof -
  let ?ms = "map (M s) [unat q ..< unat q + unat c]"
  have "\<forall>b \<in> set (number_blocks q ?ms). validate (mb_data b) = Inr ()"
    using number_blocks_source [of "unat q" "M s" "unat c"] source_okD(1) [OF assms(1)] by simp
  then have "snd (walk_msgs (stage_callback cl) (number_blocks q ?ms) sq) = Inr ()" by (rule stage_walk_ok)
  then show ?thesis
    using source_okD(3) [OF assms(1)] assms(2) by (simp add: data_frame_def ingest_walk_frame prod_eq_iff)
qed

lemma data_frame_emits:
  assumes "source_ok M" "length s = 10"
  shows "\<exists>n cs. ingest_walk (data_frame M s q c) q c skip (emit_callback g) (0, []) = ((n, cs), Inr ())"
  using walk_emit_frame [OF source_okD(1,3) [OF assms(1)] assms(2)] by (simp add: data_frame_def)

lemma apply_contig_retires:
  assumes "source_ok M" "length s = 10"
  shows "\<exists>s1. fst (apply_contig (data_frame M s q c) q l c t sq) = retire_pending s1 \<and>
    sq_pending_to s1 = sq_pending_to sq \<and> keeps_max sq s1"
proof -
  let ?skip = "min (unat (sq_w sq - q)) (unat c)"
  obtain n cs where w: "ingest_walk (data_frame M s q c) q c ?skip (emit_callback (sq_gen sq)) (0, []) = ((n, cs), Inr ())"
    using data_frame_emits [OF assms] by blast
  define sq2 where "sq2 = count_emitted n (if ?skip \<noteq> 0 then count_dup_msgs (of_nat ?skip) sq else sq)"
  define s1 where "s1 = fst (contig_tail (sq_w sq) l (sq_gen sq) t sq2)"
  have sq2: "sq_staged_count sq2 = sq_staged_count sq" "sq_max_staged sq2 = sq_max_staged sq" "sq_pending_to sq2 = sq_pending_to sq"
    by (simp_all add: sq2_def count_emitted_def count_dup_msgs_def)
  have "fst (apply_contig (data_frame M s q c) q l c t sq) = retire_pending s1"
    using w by (simp add: apply_contig_def Let_def fst_andThen s1_def sq2_def)
  moreover have "keeps_max sq s1"
    unfolding s1_def using keeps_max_same [OF sq2(1,2)] contig_tail_max(1) by (rule keeps_max_trans)
  moreover have "sq_pending_to s1 = sq_pending_to sq" by (simp add: s1_def contig_tail_max(2) sq2(3))
  ultimately show ?thesis by blast
qed

lemma apply_gap_retires:
  assumes "source_ok M" "length s = 10"
  shows "\<exists>s1. fst (apply_gap (data_frame M s q c) q l c t sq) = retire_pending s1 \<and>
    sq_pending_to s1 = sq_pending_to sq \<and> (sq_staged_count s1 \<noteq> 0 \<longrightarrow> sq_max_staged s1 = max (sq_max_staged sq) l)"
proof -
  let ?sq1 = "fst (gap_evidence q sq)"
  obtain sq2 where w: "ingest_walk (data_frame M s q c) q c 0 (stage_callback (max_clamp ?sq1)) ?sq1 = (sq2, Inr ())"
    using data_frame_stages [OF assms] by blast
  note sq2 = stage_walk_max [OF w]
  define s1 where "s1 = fst (gap_tail l t sq2)"
  have "fst (apply_gap (data_frame M s q c) q l c t sq) = retire_pending s1"
    using w by (simp add: apply_gap_def fst_andThen s1_def)
  moreover have "sq_staged_count s1 \<noteq> 0 \<longrightarrow> sq_max_staged s1 = max (sq_max_staged sq) l" "sq_pending_to s1 = sq_pending_to sq"
    by (simp_all add: s1_def gap_tail_max sq2 gap_evidence_same)
  ultimately show ?thesis by blast
qed

lemma retire_pending_same:
  "sq_staged_count (retire_pending s) = sq_staged_count s" "sq_max_staged (retire_pending s) = sq_max_staged s"
  "sq_pending_to (retire_pending s) = Some p \<Longrightarrow> sq_pending_to s = Some p \<and> sq_w (retire_pending s) < p"
  by (auto simp: retire_pending_def not_le split: option.splits if_splits)

section \<open>The invariant\<close>

text \<open>Every held number is at most the highest staged one.\<close>

definition staged_below :: "Delivery \<Rightarrow> Sequencer \<Rightarrow> bool" where
  "staged_below st sq \<longleftrightarrow> (\<forall>n \<in> d_held st. n \<le> unat (sq_max_staged sq))"

text \<open>A pending intent ends above the watermark and at most 65535 after it; there is none before the
  first data packet of a session that is not the first.\<close>

definition pending_ok :: "Sequencer \<Rightarrow> bool" where
  "pending_ok sq \<longleftrightarrow>
     (\<forall>p. sq_pending_to sq = Some p \<longrightarrow> sq_w sq < p \<and> unat p \<le> unat (sq_w sq) + 65535) \<and>
     (sq_state sq = Init \<longrightarrow> sq_w sq = 0 \<or> sq_pending_to sq = None)"

lemma pending_ok_same:
  "pending_ok sq \<Longrightarrow> sq_pending_to sq' = sq_pending_to sq \<Longrightarrow> sq_w sq' = sq_w sq \<Longrightarrow>
     sq_state sq' = Init \<longrightarrow> sq_state sq = Init \<Longrightarrow> pending_ok sq'"
  by (auto simp: pending_ok_def)

lemma held_iff: "simulates M st sq \<Longrightarrow> d_held st = {} \<longleftrightarrow> sq_staged_count sq = 0"
  using window_at_empty_iff by (auto simp: simulates_def)

lemma staged_below_mono:
  assumes "staged_below st sq" "keeps_max sq sq'" "simulates M st' sq'" "d_held st' \<subseteq> d_held st"
  shows "staged_below st' sq'"
  using assms held_iff [OF assms(3)] by (cases "d_held st' = {}") (auto simp: staged_below_def keeps_max_def)

lemma dispatch_session_intents:
  assumes "simulates M st sq" "staged_below st sq" "pending_ok sq" "s \<noteq> zero_session"
  shows "staged_below (fst (spec_session s st)) (fst (dispatch_session s sq))" "pending_ok (fst (dispatch_session s sq))"
  using assms
  by (auto simp: simulates_def staged_below_def pending_ok_def spec_session_def dispatch_session_def session_dispatch_def
      refresh_session_tmpl_def Let_def split: prod.split)

lemma heartbeat_intents:
  assumes "staged_below st sq" "pending_ok sq"
  shows "staged_below st (fst (handle_heartbeat q t sq))" "pending_ok (fst (handle_heartbeat q t sq))"
  using assms by (auto simp: staged_below_def pending_ok_def handle_heartbeat_def gap_evidence_def Let_def)

lemma eos_intents:
  assumes "staged_below st sq" "pending_ok sq" "sq_mutation sq = NoMutation"
  shows "staged_below (spec_eos a st) (fst (eos_packet h sq))" "pending_ok (fst (eos_packet h sq))"
proof -
  have "d_held (spec_eos a st) = d_held st" by (simp add: spec_eos_def split: Phase.split)
  moreover have "sq_max_staged (fst (eos_packet h sq)) = sq_max_staged sq" "sq_pending_to (fst (eos_packet h sq)) = sq_pending_to sq"
    "sq_w (fst (eos_packet h sq)) = sq_w sq" "sq_state (fst (eos_packet h sq)) = Init \<longrightarrow> sq_state sq = Init"
    using assms(3) by (simp_all add: eos_packet_def handle_eos_def end_session_def Let_def split: State.split)
  ultimately show "staged_below (spec_eos a st) (fst (eos_packet h sq))" "pending_ok (fst (eos_packet h sq))"
    using assms by (simp_all add: staged_below_def pending_ok_same)
qed

lemma ingest_span_intents:
  assumes sim: "simulates M st sq" and src: "source_ok M"
    and ph: "d_phase st = Unanchored \<or> d_phase st = Anchored"
    and s: "d_session st = hdr_session h" "length (hdr_session h) = 10" "hdr_session h \<noteq> zero_session"
    and h: "hdr_count h \<noteq> HEARTBEAT_COUNT" "hdr_count h \<noteq> EOS_COUNT" "span h \<noteq> None"
      "unat (hdr_seq h) + unat (hdr_count h) \<le> SEQ_LIMIT" "0 < unat (hdr_count h)"
    and f: "frame = data_frame M (hdr_session h) (hdr_seq h) (hdr_count h)"
    and inv: "staged_below st sq" "pending_ok sq"
  shows "staged_below (fst (spec_data M (unat (hdr_seq h)) (unat (hdr_count h)) st)) (fst (ingest_span frame h fd now sq)) \<and>
    pending_ok (fst (ingest_span frame h fd now sq))"
proof -
  let ?q = "hdr_seq h" and ?c = "hdr_count h"
  let ?st' = "fst (spec_data M (unat ?q) (unat ?c) st)" and ?sq' = "fst (ingest_span frame h fd now sq)"
  obtain last_sq where sp: "span h = Some (?q, last_sq)" and last: "unat last_sq = unat ?q + unat ?c - 1"
    using h(3) span_data [OF h(1,2)] by (metis not_Some_eq prod.exhaust)
  define sq1 where "sq1 = (if sq_state sq = Init then anchor ?q now sq else sq)"
  have init: "sq_state sq = Init \<longleftrightarrow> d_phase st = Unanchored"
    using sim by (cases "sq_state sq") (auto simp: simulates_def)
  have sim': "simulates M ?st' ?sq'" by (rule ingest_span_simulates(1) [OF sim src ph s h f])
  have held: "d_held ?st' \<subseteq> d_held st \<union> {unat ?q ..< unat ?q + unat ?c}"
    by (auto simp: spec_data_def Let_def)
  have sq1: "sq_staged_count sq1 = sq_staged_count sq" "sq_max_staged sq1 = sq_max_staged sq" "sq_pending_to sq1 = sq_pending_to sq"
    by (simp_all add: sq1_def anchor_def)
  have "ingest_span frame h fd now sq = (if sq_state sq \<noteq> Init \<and> last_sq < sq_w sq then (count_duplicate fd (ucast ?c) sq, [])
      else if ?q \<le> sq_w sq1 then apply_contig frame ?q last_sq ?c now sq1 else apply_gap frame ?q last_sq ?c now sq1)"
    by (simp only: ingest_span_def sp option.case prod.case Let_def sq1_def [symmetric])
  then have code: "?sq' = (if sq_state sq \<noteq> Init \<and> last_sq < sq_w sq then count_duplicate fd (ucast ?c) sq
      else if ?q \<le> sq_w sq1 then fst (apply_contig frame ?q last_sq ?c now sq1)
      else fst (apply_gap frame ?q last_sq ?c now sq1))"
    by simp
  show ?thesis
  proof (cases "sq_state sq \<noteq> Init \<and> last_sq < sq_w sq")
    case True
    then have c: "?sq' = count_duplicate fd (ucast ?c) sq" by (simp add: code)
    have same: "sq_staged_count ?sq' = sq_staged_count sq" "sq_max_staged ?sq' = sq_max_staged sq" "sq_pending_to ?sq' = sq_pending_to sq"
      "sq_w ?sq' = sq_w sq" "sq_state ?sq' = sq_state sq"
      by (simp_all add: c count_duplicate_def count_dup_msgs_def)
    have "unat ?q + unat ?c \<le> d_w st"
      using True last h(5) sim by (auto simp: simulates_def word_less_nat_alt)
    then have "d_held ?st' = d_held st" using True init by (simp add: spec_data_def)
    then show ?thesis using inv same pending_ok_same [of sq ?sq'] by (simp add: staged_below_def)
  next
    case late: False
    have "\<exists>s1. ?sq' = retire_pending s1 \<and> sq_pending_to s1 = sq_pending_to sq \<and>
      (keeps_max sq s1 \<and> ?q \<le> sq_w sq1 \<or> (sq_staged_count s1 \<noteq> 0 \<longrightarrow> sq_max_staged s1 = max (sq_max_staged sq) last_sq))"
    proof (cases "?q \<le> sq_w sq1")
      case True
      have k: "keeps_max sq sq1" using sq1 by (intro keeps_max_same)
      have c: "?sq' = fst (apply_contig (data_frame M (hdr_session h) ?q ?c) ?q last_sq ?c now sq1)"
        by (rule trans [OF code]) (simp add: f True late)
      obtain s1 where "?sq' = retire_pending s1" "sq_pending_to s1 = sq_pending_to sq1" "keeps_max sq1 s1"
        using apply_contig_retires [OF src s(2), of ?q ?c last_sq now sq1] unfolding c by blast
      then show ?thesis using True keeps_max_trans [OF k] sq1(3) by auto
    next
      case False
      then have c: "?sq' = fst (apply_gap (data_frame M (hdr_session h) ?q ?c) ?q last_sq ?c now sq1)"
        by (intro trans [OF code]) (simp add: f late)
      obtain s1 where "?sq' = retire_pending s1" "sq_pending_to s1 = sq_pending_to sq1"
          "sq_staged_count s1 \<noteq> 0 \<longrightarrow> sq_max_staged s1 = max (sq_max_staged sq1) last_sq"
        using apply_gap_retires [OF src s(2), of ?q ?c last_sq now sq1] unfolding c by blast
      then show ?thesis using sq1 by auto
    qed
    then obtain s1 where s1: "?sq' = retire_pending s1" "sq_pending_to s1 = sq_pending_to sq"
      "keeps_max sq s1 \<and> ?q \<le> sq_w sq1 \<or> (sq_staged_count s1 \<noteq> 0 \<longrightarrow> sq_max_staged s1 = max (sq_max_staged sq) last_sq)"
      by blast
    have st': "sq_staged_count ?sq' = sq_staged_count s1" "sq_max_staged ?sq' = sq_max_staged s1"
      by (simp_all add: s1(1) retire_pending_same)
    have "staged_below ?st' ?sq'"
      using s1(3)
    proof
      assume k: "keeps_max sq s1 \<and> ?q \<le> sq_w sq1"
      have "unat (sq_w sq1) = (if d_phase st = Unanchored then unat ?q else d_w st)"
        using sim init by (auto simp: sq1_def anchor_def simulates_def)
      then have "d_held ?st' \<subseteq> d_held st"
        using k ph by (auto simp: spec_data_def Let_def word_le_nat_alt split: if_splits)
      moreover have "keeps_max sq ?sq'" using k st' by (simp add: keeps_max_def)
      ultimately show ?thesis using staged_below_mono [OF inv(1) _ sim'] by blast
    next
      assume m: "sq_staged_count s1 \<noteq> 0 \<longrightarrow> sq_max_staged s1 = max (sq_max_staged sq) last_sq"
      have "n \<le> unat (max (sq_max_staged sq) last_sq)" if "n \<in> d_held ?st'" for n
        using subsetD [OF held that] inv(1) last by (auto simp: staged_below_def max_def word_le_nat_alt)
      then show ?thesis
        using m st' held_iff [OF sim'] by (cases "d_held ?st' = {}") (auto simp: staged_below_def)
    qed
    moreover have "pending_ok ?sq'"
    proof -
      have ph': "d_phase ?st' = Anchored" using ph by (auto simp: spec_data_def Let_def)
      then have live: "sq_state ?sq' \<noteq> Init" using sim' by (auto simp: simulates_def)
      have "sq_w ?sq' < p \<and> unat p \<le> unat (sq_w ?sq') + 65535" if p: "sq_pending_to ?sq' = Some p" for p
      proof -
        have r: "sq_pending_to sq = Some p" "sq_w ?sq' < p"
          using retire_pending_same(3) [of s1 p] p s1(1,2) by simp_all
        have "unat (sq_w sq) \<le> unat (sq_w ?sq')"
        proof (cases "sq_state sq = Init")
          case True
          then show ?thesis using inv(2) r(1) by (simp add: pending_ok_def)
        next
          case False
          then show ?thesis using spec_data_w [of st M "unat ?q" "unat ?c"] init sim sim' by (simp add: simulates_def)
        qed
        then show ?thesis using inv(2) r by (auto simp: pending_ok_def)
      qed
      then show ?thesis using live by (simp add: pending_ok_def)
    qed
    ultimately show ?thesis by blast
  qed
qed

section \<open>Every packet and every request\<close>

lemma ingest_intents:
  assumes sim: "simulates M st sq" and src: "source_ok M" and ok: "frame_ok M frame"
    and inv: "staged_below st sq" "pending_ok sq"
  shows "staged_below (fst (spec_frame M frame st)) (fst (ingest frame fd now sq)) \<and> pending_ok (fst (ingest frame fd now sq))"
proof -
  let ?sq = "count_packet fd (length frame) sq"
  have sim0: "simulates M st ?sq" by (rule simulates_core [OF sim]) simp_all
  have same: "staged_below st s \<and> pending_ok s"
    if "sq_max_staged s = sq_max_staged sq" "sq_pending_to s = sq_pending_to sq" "sq_w s = sq_w sq" "sq_state s = sq_state sq" for s
    using inv that pending_ok_same [of sq s] by (simp add: staged_below_def)
  have head: "staged_below st ?sq \<and> pending_ok ?sq" "staged_below st (violate u ?sq) \<and> pending_ok (violate u ?sq)"
    "staged_below st (count v ?sq) \<and> pending_ok (count v ?sq)" for u v
    by (intro same; simp add: count_packet_def violate_def)+
  show ?thesis
  proof (cases "parse_header frame")
    case (Inl e)
    then show ?thesis using head by (simp add: ingest_def spec_frame_def Let_def)
  next
    case (Inr h)
    note hd = frame_of_header [OF Inr]
    have dead: "sq_state ?sq = Dead \<longleftrightarrow> d_phase st = Sealed_off"
      using sim0 by (cases "sq_state ?sq") (auto simp: simulates_def)
    show ?thesis
    proof (cases "d_phase st = Sealed_off")
      case True
      then show ?thesis using head(3) Inr dead hd(1) by (simp add: ingest_def spec_frame_def spec_header_def Let_def)
    next
      case alive: False
      let ?s = "hdr_session h"
      have nz: "?s \<noteq> zero_session" using ok Inr by (simp add: frame_ok_def)
      obtain st1 o1 where s1: "spec_session ?s st = (st1, o1)" by fastforce
      define sq1 where "sq1 = fst (dispatch_session ?s ?sq)"
      have sim1: "simulates M st1 sq1" and ses: "d_session st1 = ?s"
        using dispatch_session_simulates [OF sim0 nz] session_dispatch_simulates(3) [OF sim0 nz] s1 by (simp_all add: sq1_def)
      have inv1: "staged_below st1 sq1" "pending_ok sq1"
        using dispatch_session_intents [OF sim0 _ _ nz] head(1) s1 by (simp_all add: sq1_def)
      have i: "fst (ingest frame fd now sq) = fst (ingest_kind frame h fd now sq1)"
        using alive dead Inr hd(1) by (simp add: ingest_def Let_def fst_andThen sq1_def)
      have ph1: "d_phase st1 \<noteq> Sealed_off" using s1 alive by (auto simp: spec_session_def split: if_splits)
      have ended: "sq_state sq1 = Ended \<longleftrightarrow> d_phase st1 = Finished"
        using sim1 by (cases "sq_state sq1") (auto simp: simulates_def)
      have mut: "sq_mutation sq1 = NoMutation" using sim1 by (simp add: simulates_def)
      consider (hb) "hdr_count h = HEARTBEAT_COUNT" | (eos) "hdr_count h = EOS_COUNT"
        | (fin) "hdr_count h \<noteq> HEARTBEAT_COUNT" "hdr_count h \<noteq> EOS_COUNT" "d_phase st1 = Finished"
        | (wrap) "hdr_count h \<noteq> HEARTBEAT_COUNT" "hdr_count h \<noteq> EOS_COUNT" "d_phase st1 \<noteq> Finished" "span h = None"
        | (data) "hdr_count h \<noteq> HEARTBEAT_COUNT" "hdr_count h \<noteq> EOS_COUNT" "d_phase st1 \<noteq> Finished" "span h \<noteq> None"
        by blast
      then show ?thesis
      proof cases
        case hb
        then show ?thesis unfolding i using heartbeat_intents [OF inv1]
          by (simp add: spec_frame_def spec_header_def Inr s1 alive ingest_kind_def)
      next
        case eos
        then show ?thesis unfolding i using eos_intents [OF inv1 mut]
          by (simp add: spec_frame_def spec_header_def Inr s1 alive ingest_kind_def)
      next
        case fin
        have "staged_below st1 (refuse_after_eos sq1) \<and> pending_ok (refuse_after_eos sq1)"
          using inv1 pending_ok_same [of sq1 "refuse_after_eos sq1"] by (simp add: staged_below_def refuse_after_eos_def)
        then show ?thesis unfolding i using fin ended
          by (simp add: spec_frame_def spec_header_def Inr s1 alive ingest_kind_def)
      next
        case wrap
        let ?v = "violate (\<lambda>v. v\<lparr>vc_seq_overflow := vc_seq_overflow v + 1\<rparr>) sq1"
        have "staged_below st1 ?v \<and> pending_ok ?v"
          using inv1 pending_ok_same [of sq1 ?v] by (simp add: staged_below_def violate_def)
        then show ?thesis unfolding i using wrap ended
          by (simp add: spec_frame_def spec_header_def Inr s1 alive ingest_kind_def ingest_span_def)
      next
        case data
        note fo = frame_ok_data [OF ok Inr data(1,2,4)]
        have "d_phase st1 = Unanchored \<or> d_phase st1 = Anchored"
          using data(3) ph1 by (cases "d_phase st1") auto
        moreover have "frame = data_frame M ?s (hdr_seq h) (hdr_count h)" using fo(3) by (simp add: data_frame_def)
        ultimately have r: "staged_below (fst (spec_data M (unat (hdr_seq h)) (unat (hdr_count h)) st1)) (fst (ingest_span frame h fd now sq1)) \<and>
            pending_ok (fst (ingest_span frame h fd now sq1))"
          using ingest_span_intents [OF sim1 src _ ses hd(2) nz data(1,2,4) fo(1,2) _ inv1] by blast
        have "fst (spec_frame M frame st) = fst (spec_data M (unat (hdr_seq h)) (unat (hdr_count h)) st1)"
          using data by (auto simp: spec_frame_def spec_header_def Inr s1 alive split: prod.split)
        then show ?thesis unfolding i using r data ended by (simp add: ingest_kind_def)
      qed
    qed
  qed
qed

text \<open>A request for an intent may be made at any time but between a change of session and the first
  data packet after it (the watermark is then still the one of the old session), as long as the
  watermark leaves room for the longest request.\<close>

definition may_ask :: "Sequencer \<Rightarrow> bool" where
  "may_ask sq \<longleftrightarrow> (sq_state sq = Init \<longrightarrow> sq_w sq = 0) \<and> unat (sq_w sq) + 65535 < 2 ^ 64"

inductive asked :: "Source \<Rightarrow> Sequencer \<Rightarrow> bool" for M where
  asked_new: "asked M Sequencer_new_unboxed"
| asked_packet: "asked M sq \<Longrightarrow> frame_ok M frame \<Longrightarrow> asked M (fst (ingest frame fd now_ns sq))"
| asked_intent: "asked M sq \<Longrightarrow> may_ask sq \<Longrightarrow> asked M (fst (recovery_intent now_ns sq))"

lemma target_above:
  assumes "simulates M st sq" "staged_below st sq"
  shows "\<forall>t. intent_target now_ns sq = Some t \<longrightarrow> sq_w sq < t"
proof -
  have "sq_w sq < sq_max_staged sq" if "0 < sq_staged_count sq"
  proof -
    have "d_held st \<noteq> {}" using held_iff [OF assms(1)] that by auto
    then obtain n where n: "n \<in> d_held st" by blast
    then have "d_w st < n" using assms(1) by (auto simp: simulates_def dest: window_at_bounds)
    then show ?thesis using n assms(1,2) by (force simp: simulates_def staged_below_def word_less_nat_alt)
  qed
  then show ?thesis by (auto simp: intent_target_def split: if_splits)
qed

text \<open>One request, from any state with these facts.\<close>

lemma issued_intent:
  assumes "recovery_intent now_ns sq = (sq', r)" "unat (sq_w sq) + 65535 < 2 ^ 64"
    "\<forall>t. intent_target now_ns sq = Some t \<longrightarrow> sq_w sq < t"
    "\<forall>p. sq_pending_to sq = Some p \<longrightarrow> sq_w sq < p \<and> unat p \<le> unat (sq_w sq) + 65535"
  shows "(\<forall>p. sq_pending_to sq' = Some p \<longrightarrow> sq_w sq < p \<and> unat p \<le> unat (sq_w sq) + 65535) \<and>
    (\<forall>ri. r = Some ri \<longrightarrow> ri_from ri = sq_w sq \<and> sq_pending_to sq' = Some (ri_to_excl ri) \<and> sq_last_intent_vt sq' = now_ns \<and>
       (\<forall>p. sq_pending_to sq = Some p \<longrightarrow> p < ri_to_excl ri \<or>
          p = ri_to_excl ri \<and> RESUGGEST_WINDOW_NS \<le> saturating_sub64 now_ns (sq_last_intent_vt sq)))"
proof -
  have w: "unat (sq_w sq + 65535) = unat (sq_w sq) + 65535" using assms(2) by (simp add: unat_plus_u64)
  have "sq_w sq < min t (sq_w sq + 65535) \<and> unat (min t (sq_w sq + 65535)) \<le> unat (sq_w sq) + 65535"
    if "intent_target now_ns sq = Some t" for t
    using w assms(3) that by (simp add: min_def word_less_nat_alt word_le_nat_alt)
  then show ?thesis
    using assms(1,4)
    by (auto simp: recovery_intent_def check_recovery_intent_def issue_intent_def Let_def split: option.splits if_splits)
qed

lemma recovery_intent_same:
  "sq_w (fst (recovery_intent now_ns sq)) = sq_w sq" "sq_state (fst (recovery_intent now_ns sq)) = sq_state sq"
  "sq_max_staged (fst (recovery_intent now_ns sq)) = sq_max_staged sq" "core (fst (recovery_intent now_ns sq)) = core sq"
  by (auto simp: recovery_intent_def check_recovery_intent_def issue_intent_def Let_def split: option.splits)

lemma asked_ok:
  assumes "asked M sq" "source_ok M"
  shows "\<exists>st. simulates M st sq \<and> staged_below st sq \<and> pending_ok sq"
  using assms
proof (induction rule: asked.induct)
  case asked_new
  have "staged_below spec_init Sequencer_new_unboxed" "pending_ok Sequencer_new_unboxed"
    by (simp_all add: staged_below_def pending_ok_def spec_init_def Sequencer_new_unboxed_def)
  then show ?case using new_simulates by blast
next
  case (asked_packet sq frame fd now_ns)
  then obtain st where st: "simulates M st sq" "staged_below st sq" "pending_ok sq" by blast
  then show ?case
    using ingest_simulates(1) [OF st(1) assms(2) asked_packet.hyps(2)] ingest_intents [OF st(1) assms(2) asked_packet.hyps(2) st(2,3)]
    by blast
next
  case (asked_intent sq now_ns)
  then obtain st where st: "simulates M st sq" "staged_below st sq" "pending_ok sq" by blast
  let ?sq = "fst (recovery_intent now_ns sq)"
  have room: "unat (sq_w sq) + 65535 < 2 ^ 64" using asked_intent.hyps(2) by (simp only: may_ask_def)
  have "\<forall>p. sq_pending_to sq = Some p \<longrightarrow> sq_w sq < p \<and> unat p \<le> unat (sq_w sq) + 65535"
    using st(3) by (simp add: pending_ok_def)
  from issued_intent [of now_ns sq, OF prod.collapse [symmetric] room target_above [OF st(1,2)] this]
  have p: "\<forall>p. sq_pending_to ?sq = Some p \<longrightarrow> sq_w sq < p \<and> unat p \<le> unat (sq_w sq) + 65535" by blast
  have "pending_ok ?sq" using p asked_intent.hyps(2) by (simp add: pending_ok_def may_ask_def recovery_intent_same)
  moreover have "simulates M st ?sq" by (rule simulates_core [OF st(1)]) (simp_all add: recovery_intent_same)
  moreover have "staged_below st ?sq" using st(2) by (simp add: staged_below_def recovery_intent_same)
  ultimately show ?case by blast
qed

section \<open>Properties\<close>

text \<open>C22: an intent is a request that can be sent.  Bring a sequencer to its state by any sequence of
  well-formed packets, in any order and with any loss, duplication and change of session, and of
  earlier requests for intents, none of them made between a change of session and the first data
  packet after it, and let its watermark be at most 2 to the 64 less 65536: an intent it then
  issues starts at the watermark, ends above it and asks for at most 65535 messages; it becomes
  the pending intent at the time of the request, and it repeats the one pending before only after
  the resuggest interval, otherwise it reaches further.\<close>

theorem recovery_intent_range:
  assumes "source_ok M" and "asked M sq" and "unat (sq_w sq) + 65535 < 2 ^ 64"
    and "recovery_intent now_ns sq = (sq', Some ri)"
  shows "ri_from ri = sq_w sq \<and> sq_w sq < ri_to_excl ri \<and> unat (ri_to_excl ri) \<le> unat (sq_w sq) + 65535 \<and>
    sq_pending_to sq' = Some (ri_to_excl ri) \<and> sq_last_intent_vt sq' = now_ns \<and>
    (\<forall>p. sq_pending_to sq = Some p \<longrightarrow>
       p < ri_to_excl ri \<or>
       p = ri_to_excl ri \<and> RESUGGEST_WINDOW_NS \<le> saturating_sub64 now_ns (sq_last_intent_vt sq))"
proof -
  obtain st where st: "simulates M st sq" "staged_below st sq" "pending_ok sq" using asked_ok [OF assms(2,1)] by blast
  have p: "\<forall>p. sq_pending_to sq = Some p \<longrightarrow> sq_w sq < p \<and> unat p \<le> unat (sq_w sq) + 65535"
    using st(3) by (simp add: pending_ok_def)
  show ?thesis using issued_intent [OF assms(4,3) target_above [OF st(1,2)] p] by simp
qed

text \<open>A heartbeat announces that 9 is next; 300 microseconds later the sequencer asks for everything
  before it.\<close>

definition told_of_nine :: Sequencer where
  "told_of_nine = fst (ingest (mold_frame sample_session 9 0 []) 0 0 Sequencer_new_unboxed)"

lemma told_of_nine_state:
  "sq_w told_of_nine = 0" "sq_state told_of_nine = Init" "sq_hb_seq told_of_nine = 9" "sq_hb_vt told_of_nine = 0"
  "sq_staged_count told_of_nine = 0" "sq_max_staged told_of_nine = 0" "sq_pending_to told_of_nine = None"
  by (simp_all add: told_of_nine_def ingest_def Let_def parse_header_frame sample_facts length_frame fst_andThen dispatch_session_def
      session_dispatch_def refresh_session_tmpl_def ingest_kind_def handle_heartbeat_def Sequencer_new_unboxed_def count_packet_def)

lemma told_of_nine_asked: "asked sample_source told_of_nine"
proof -
  have "frame_ok sample_source (mold_frame sample_session 9 0 [])"
    using sample_facts by (simp add: frame_ok_def parse_header_frame kind_def)
  then show ?thesis unfolding told_of_nine_def by (intro asked_packet asked_new)
qed

lemma recovery_intent_range_witness:
  "\<exists>sq' ri. recovery_intent 300000 told_of_nine = (sq', Some ri) \<and>
     ri_from ri = 0 \<and> 0 < ri_to_excl ri \<and> unat (ri_to_excl ri) \<le> 65535 \<and> sq_pending_to sq' = Some (ri_to_excl ri)"
proof -
  obtain sq' ri where r: "recovery_intent 300000 told_of_nine = (sq', Some ri)"
    by (simp add: recovery_intent_def check_recovery_intent_def intent_target_def issue_intent_def told_of_nine_state
        saturating_sub64_def Let_def)
  from recovery_intent_range [OF sample_source_ok told_of_nine_asked _ r] r show ?thesis by (simp add: told_of_nine_state)
qed

end
