(* ===== verification/Gf64.thy ===== *)
theory Gf64
  imports XorAlgebra
begin

text \<open>
  Carry-less arithmetic modulo \<open>x^64 + x^4 + x^3 + x + 1\<close>
  (\<open>crates/nf-testkit/src/spanfold.rs\<close>, \<open>polyhash.rs\<close>): the schoolbook product, the product of
  the processor instruction, the folding reductions, and polynomial long division.  The
  specification is the ring multiplication \<open>gmul\<close>, built from multiplication by \<open>x\<close>; maps that
  respect exclusive or are determined by their values on single bits, which is how every
  algorithm is compared with it.
\<close>

type_synonym u128 = "128 word"

section \<open>Products\<close>

definition SPAN_QLOW :: u64 where "SPAN_QLOW = 0x1B"

definition low64 :: "u128 \<Rightarrow> u64" where "low64 p = ucast p"

definition high64 :: "u128 \<Rightarrow> u64" where "high64 p = ucast (drop_bit 64 p)"

text \<open>The schoolbook loop over the bits of \<open>b\<close>.\<close>

function clmul128_loop :: "u64 \<Rightarrow> nat \<Rightarrow> u64 \<Rightarrow> u64 \<times> u64 \<Rightarrow> u64 \<times> u64" where
  "clmul128_loop a i b acc =
     (if b \<noteq> 0
      then let acc = (if b AND 1 \<noteq> 0
                      then (fst acc XOR push_bit i a, if 0 < i then snd acc XOR drop_bit (64 - i) a else snd acc)
                      else acc)
           in clmul128_loop a (i + 1) (drop_bit 1 b) acc
      else acc)"
  by pat_completeness auto
termination clmul128_loop
proof (relation "measure (\<lambda>(a, i, b, acc). unat b)")
  fix a b :: u64 and i and acc acc' :: "u64 \<times> u64"
  assume "b \<noteq> 0"
  then have "unat b \<noteq> 0" by (simp add: unat_eq_0)
  moreover have "unat (drop_bit 1 b) = unat b div 2" by (simp add: drop_bit_eq_div unat_div_distrib)
  ultimately show "((a, i + 1, drop_bit 1 b, acc'), a, i, b, acc) \<in> measure (\<lambda>(a, i, b, acc). unat b)" by simp
qed simp

declare clmul128_loop.simps [simp del]

definition clmul128_ref :: "u64 \<Rightarrow> u64 \<Rightarrow> u64 \<times> u64" where
  "clmul128_ref a b = clmul128_loop a 0 b (0, 0)"

text \<open>The instruction \<open>PCLMULQDQ\<close> on two words.\<close>

definition clmul :: "u64 \<Rightarrow> u64 \<Rightarrow> u128" where
  "clmul a b = comb 64 (\<lambda>i. push_bit i (ucast a)) b"

section \<open>Reductions\<close>

definition mulmod_clmul :: "u64 \<Rightarrow> u64 \<Rightarrow> u64" where
  "mulmod_clmul a b =
     (let p = clmul a b; t = clmul (high64 p) SPAN_QLOW; u = clmul (high64 t) SPAN_QLOW
      in low64 p XOR low64 t XOR low64 u)"

definition mulmod_ref :: "u64 \<Rightarrow> u64 \<Rightarrow> u64" where
  "mulmod_ref a b =
     (let (lo, hi) = clmul128_ref a b; (tlo, thi) = clmul128_ref hi SPAN_QLOW; (u, _) = clmul128_ref thi SPAN_QLOW
      in lo XOR tlo XOR u)"

definition mulmod :: "bool \<Rightarrow> u64 \<Rightarrow> u64 \<Rightarrow> u64" where
  "mulmod pclmul a b = (if pclmul then mulmod_clmul a b else mulmod_ref a b)"

text \<open>Long division: \<open>Q\<close> shifted to a set bit of the high word is subtracted, from the top down.\<close>

definition xor_q_at :: "u64 \<times> u64 \<Rightarrow> nat \<Rightarrow> u64 \<times> u64" where
  "xor_q_at hl pos =
     foldl (\<lambda>(hi, lo) j.
       if drop_bit j SPAN_QLOW AND 1 \<noteq> 0
       then let b = pos + j in if b < 64 then (hi, lo XOR push_bit b 1) else (hi XOR push_bit (b - 64) 1, lo)
       else (hi, lo)) (fst hl XOR push_bit pos 1, snd hl) [0..<5]"

definition mulmod_divmod_ref :: "u64 \<Rightarrow> u64 \<Rightarrow> u64" where
  "mulmod_divmod_ref a b =
     (let (lo, hi) = clmul128_ref a b
      in snd (foldl (\<lambda>hl k. if drop_bit k (fst hl) AND 1 \<noteq> 0 then xor_q_at hl k else hl) (hi, lo) (rev [0..<64])))"

lemma additive_low [additive_intros]: "additive f \<Longrightarrow> additive (\<lambda>a. low64 (f a))"
  unfolding low64_def by (intro additive_intros)

lemma additive_high [additive_intros]: "additive f \<Longrightarrow> additive (\<lambda>a. high64 (f a))"
  unfolding high64_def by (intro additive_intros)

section \<open>Multiplication by x and the ring\<close>

definition xtime :: "u64 \<Rightarrow> u64" where
  "xtime a = push_bit 1 a XOR (if bit a 63 then SPAN_QLOW else 0)"

definition xpow :: "nat \<Rightarrow> u64" where
  "xpow k = (xtime ^^ k) 1"

abbreviation gmul :: "u64 \<Rightarrow> u64 \<Rightarrow> u64" where
  "gmul \<equiv> ring_mul xtime"

lemma additive_xtime [additive_intros]: "additive f \<Longrightarrow> additive (\<lambda>a. xtime (f a))"
  unfolding xtime_def by (intro additive_intros)

interpretation xt: shift_ring xtime
proof
  show "additive xtime" by (rule additive_xtime [OF additive_id])
  show "xtime (xbit i) = xbit (Suc i)" if "Suc i < LENGTH(64)" for i
    using that by (simp add: xtime_def xbit_push)
qed

lemmas additive_xtimes [additive_intros] = xt.additive_steps
lemmas additive_gmul_left [additive_intros] = xt.additive_mul_left
lemmas additive_gmul_right [additive_intros] = xt.additive_mul_right
lemmas xtime_xbit = xt.shift_xbit [simplified]
lemmas xtimes_xbit = xt.steps_xbit [simplified]
lemmas xpow_xbit = xt.power_xbit [folded xpow_def, simplified]
lemmas gmul_xor_right = xt.mul_xor_right
lemmas gmul_xor_left = xt.mul_xor_left
lemmas gmul_zero [simp] = xt.mul_zero
lemmas gmul_xbit = xt.mul_xbit [simplified]
lemmas gmul_one [simp] = xt.mul_one
lemmas gmul_commute = xt.mul_commute
lemmas gmul_one_right [simp] = xt.mul_one_right
lemmas gmul_xtime = xt.mul_step
lemmas gmul_xtimes = xt.mul_steps
lemmas gmul_assoc = xt.mul_assoc
lemmas gmul_xpow = xt.mul_power [folded xpow_def]

lemma xpow_64: "xpow 64 = SPAN_QLOW"
proof -
  have "xpow 64 = xtime (xpow 63)" by (simp add: xpow_def numeral_eq_Suc)
  also have "\<dots> = SPAN_QLOW" by (simp add: xpow_xbit xtime_def xbit_push xbit_zero)
  finally show ?thesis .
qed

lemma xpow_add: "(xtime ^^ i) (xpow j) = xpow (i + j)"
  by (simp add: xpow_def funpow_add)

lemma xtimes_xpow: "j < 64 \<Longrightarrow> (xtime ^^ i) (xbit j) = xpow (i + j)"
  by (simp add: xpow_add [symmetric] xpow_xbit)

lemma xpow_mult: "gmul (xpow i) (xpow j) = xpow (i + j)"
  by (simp add: gmul_xpow xpow_add)

lemma xpow_0 [simp]: "xpow 0 = 1"
  by (simp add: xpow_def)

lemma xpow_1: "xpow 1 = 2"
  by (simp add: xpow_xbit) (simp add: xbit_def)

section \<open>The algorithms compute the ring product\<close>

text \<open>The residue of a double word.\<close>

definition residue :: "u128 \<Rightarrow> u64" where
  "residue p = comb 128 xpow p"

lemma additive_residue [additive_intros]: "additive f \<Longrightarrow> additive (\<lambda>a. residue (f a))"
  unfolding residue_def by (intro additive_intros)

lemma residue_xbit: "i < 128 \<Longrightarrow> residue (xbit i) = xpow i"
  by (simp add: residue_def comb_single)

lemma additive_clmul_right [additive_intros]: "additive f \<Longrightarrow> additive (\<lambda>b. clmul a (f b))"
  unfolding clmul_def by (intro additive_intros)

lemma additive_clmul_left [additive_intros]: "additive f \<Longrightarrow> additive (\<lambda>a. clmul (f a) b)"
  unfolding additive_def clmul_def by (simp add: comb_terms [symmetric] unsigned_xor_eq push_bit_xor)

lemma clmul_xbit: "j < 64 \<Longrightarrow> clmul a (xbit j) = push_bit j (ucast a)"
  by (simp add: clmul_def comb_single)

lemma clmul_bits: "i < 64 \<Longrightarrow> j < 64 \<Longrightarrow> clmul (xbit i) (xbit j) = xbit (i + j)"
  by (simp add: clmul_xbit xbit_ucast xbit_push add.commute)

lemma residue_clmul: "residue (clmul a b) = gmul a b"
proof (rule additive_ext [of "\<lambda>a. residue (clmul a b)" "\<lambda>a. gmul a b"])
  fix i assume "i < LENGTH(64)"
  then have i: "i < 64" by simp
  show "residue (clmul (xbit i) b) = gmul (xbit i) b"
  proof (rule additive_ext [of "\<lambda>b. residue (clmul (xbit i) b)" "gmul (xbit i)"])
    fix j assume "j < LENGTH(64)"
    then have j: "j < 64" by simp
    show "residue (clmul (xbit i) (xbit j)) = gmul (xbit i) (xbit j)"
      using i j by (simp add: clmul_bits residue_xbit gmul_xbit xtimes_xpow)
  qed (intro additive_intros)+
qed (intro additive_intros)+

lemma low_xbit: "low64 (xbit k) = (if k < 64 then xbit k else 0)"
  by (rule bit_word_eqI) (auto simp: low64_def bit_simps)

lemma high_xbit: "k < 128 \<Longrightarrow> high64 (xbit k) = (if k < 64 then 0 else xbit (k - 64))"
  by (rule bit_word_eqI) (auto simp: high64_def bit_simps)

lemma residue_fold: "residue p = low64 p XOR gmul (high64 p) SPAN_QLOW"
proof (rule additive_ext [of residue "\<lambda>p. low64 p XOR gmul (high64 p) SPAN_QLOW"])
  fix k assume "k < LENGTH(128)"
  then have k: "k < 128" by simp
  show "residue (xbit k) = low64 (xbit k) XOR gmul (high64 (xbit k)) SPAN_QLOW"
  proof (cases "k < 64")
    case True
    then show ?thesis using k by (simp add: residue_xbit low_xbit high_xbit xpow_xbit)
  next
    case False
    then have "gmul (xbit (k - 64)) SPAN_QLOW = xpow k"
      using k xpow_add [of "k - 64" 64] by (simp add: gmul_xbit xpow_64)
    then show ?thesis using k False by (simp add: residue_xbit low_xbit high_xbit)
  qed
qed (intro additive_intros)+

lemma q_bits: "SPAN_QLOW = xbit 0 XOR xbit 1 XOR xbit 3 XOR xbit 4"
  by (simp add: SPAN_QLOW_def xbit_def)

lemma clmul_q: "clmul a SPAN_QLOW = ucast a XOR push_bit 1 (ucast a) XOR push_bit 3 (ucast a) XOR push_bit 4 (ucast a)"
proof -
  have "clmul a (x XOR y) = clmul a x XOR clmul a y" for x y
    using additive_clmul_right [OF additive_id, of a] unfolding additive_def by blast
  then show ?thesis unfolding q_bits by (simp only: clmul_xbit) simp
qed

lemma high_clmul_q: "bit (high64 (clmul a SPAN_QLOW)) k \<Longrightarrow> k < 4"
  unfolding clmul_q high64_def bit_ucast_iff bit_drop_bit_eq comp_def bit_xor_iff bit_push_bit_iff
  by (auto dest: bit_imp_le_length)

lemma high_small_clmul_q:
  assumes "\<And>k. bit a k \<Longrightarrow> k < 4"
  shows "high64 (clmul a SPAN_QLOW) = 0"
proof (rule bit_word_eqI)
  fix k
  show "bit (high64 (clmul a SPAN_QLOW)) k \<longleftrightarrow> bit 0 k"
    unfolding clmul_q high64_def bit_ucast_iff bit_drop_bit_eq comp_def bit_xor_iff bit_push_bit_iff
    by (auto dest: assms)
qed

text \<open>Two foldings of the high word give the residue.\<close>

lemma fold_twice:
  "residue p = low64 p XOR low64 (clmul (high64 p) SPAN_QLOW) XOR low64 (clmul (high64 (clmul (high64 p) SPAN_QLOW)) SPAN_QLOW)"
proof -
  let ?t = "clmul (high64 p) SPAN_QLOW"
  have "residue p = low64 p XOR residue ?t" by (simp add: residue_fold [of p] residue_clmul)
  also have "residue ?t = low64 ?t XOR residue (clmul (high64 ?t) SPAN_QLOW)"
    unfolding residue_clmul [of "high64 ?t"] by (rule residue_fold)
  also have "residue (clmul (high64 ?t) SPAN_QLOW) = low64 (clmul (high64 ?t) SPAN_QLOW)"
    using high_small_clmul_q [OF high_clmul_q [of "high64 p"]] by (simp add: residue_fold [of "clmul (high64 ?t) SPAN_QLOW"])
  finally show ?thesis by (simp add: ac_simps)
qed

lemma mulmod_clmul_ring: "mulmod_clmul a b = gmul a b"
  unfolding residue_clmul [symmetric] fold_twice [of "clmul a b"] by (simp add: mulmod_clmul_def Let_def ac_simps)

text \<open>The schoolbook product.\<close>

lemma clmul_step: "clmul a b = (if bit b 0 then ucast a else 0) XOR push_bit 1 (clmul a (drop_bit 1 b))"
proof (rule additive_ext [of "clmul a" "\<lambda>b. (if bit b 0 then ucast a else 0) XOR push_bit 1 (clmul a (drop_bit 1 b))"])
  fix j assume "j < LENGTH(64)"
  then have j: "j < 64" by simp
  show "clmul a (xbit j) = (if bit (xbit j :: u64) 0 then ucast a else 0) XOR push_bit 1 (clmul a (drop_bit 1 (xbit j)))"
  proof (cases j)
    case 0
    then have "drop_bit 1 (xbit j :: u64) = 0" by (simp add: xbit_def)
    then show ?thesis using 0 clmul_xbit [of 0 a] additive_zero [OF additive_clmul_right [OF additive_id, of a]] by simp
  next
    case (Suc k)
    have "drop_bit 1 (xbit j :: u64) = xbit k" unfolding Suc by (rule bit_word_eqI) (use j Suc in \<open>auto simp: bit_simps\<close>)
    then show ?thesis using Suc j by (simp add: clmul_xbit push_bit_push_bit del: push_bit_Suc)
  qed
qed (intro additive_intros)+

definition double :: "u64 \<times> u64 \<Rightarrow> u128" where
  "double lh = ucast (fst lh) XOR push_bit 64 (ucast (snd lh))"

lemma low_double [simp]: "low64 (double lh) = fst lh"
  by (rule bit_word_eqI) (auto simp: low64_def double_def bit_simps)

lemma high_double [simp]: "high64 (double lh) = snd lh"
  by (rule bit_word_eqI) (auto simp: high64_def double_def bit_simps dest: bit_imp_le_length)

lemma double_shift: "i < 64 \<Longrightarrow> double (push_bit i a, if 0 < i then drop_bit (64 - i) a else 0) = push_bit i (ucast a)"
  by (rule bit_word_eqI) (auto simp: double_def bit_simps dest: bit_imp_le_length)

lemma double_xor: "double (a XOR b, c XOR d) = double (a, c) XOR double (b, d)"
  by (simp add: double_def unsigned_xor_eq push_bit_xor ac_simps)

lemma clmul128_loop_double:
  assumes "\<forall>n. bit b n \<longrightarrow> i + n < 64"
  shows "double (clmul128_loop a i b acc) = double acc XOR push_bit i (clmul a b)"
  using assms
proof (induction a i b acc rule: clmul128_loop.induct)
  case (1 a i b acc)
  show ?case
  proof (cases "b = 0")
    case True
    then show ?thesis using additive_zero [OF additive_clmul_right [OF additive_id, of a]]
      by (subst clmul128_loop.simps) simp
  next
    case False
    then obtain n where "bit b n" by (metis bit_eqI bit_0_eq bot_apply bot_bool_def)
    then have i: "i < 64" using 1(2) by fastforce
    define acc' where "acc' = (if b AND 1 \<noteq> 0
        then (fst acc XOR push_bit i a, if 0 < i then snd acc XOR drop_bit (64 - i) a else snd acc) else acc)"
    have odd: "b AND 1 \<noteq> 0 \<longleftrightarrow> bit b 0" by (simp add: and_one_eq bit_0 odd_iff_mod_2_eq_one)
    have "double acc' = double acc XOR push_bit i (if bit b 0 then ucast a else 0)"
    proof (cases "bit b 0")
      case True
      have "acc' = (fst acc XOR push_bit i a, snd acc XOR (if 0 < i then drop_bit (64 - i) a else 0))"
        using True odd by (simp add: acc'_def)
      then show ?thesis using True double_shift [OF i, of a] by (simp add: double_xor)
    next
      case False
      then show ?thesis using odd by (simp add: acc'_def)
    qed
    moreover have "\<forall>n. bit (drop_bit 1 b) n \<longrightarrow> i + 1 + n < 64" using 1(2) by (auto simp: bit_drop_bit_eq)
    then have "double (clmul128_loop a (i + 1) (drop_bit 1 b) acc') = double acc' XOR push_bit (i + 1) (clmul a (drop_bit 1 b))"
      using 1(1) [OF False] unfolding acc'_def by blast
    ultimately have "double (clmul128_loop a (i + 1) (drop_bit 1 b) acc')
        = double acc XOR push_bit i ((if bit b 0 then ucast a else 0) XOR push_bit 1 (clmul a (drop_bit 1 b)))"
      by (simp only: push_bit_xor push_bit_push_bit xor.assoc)
    then show ?thesis using False unfolding clmul_step [of a b, symmetric]
      by (subst clmul128_loop.simps) (simp add: Let_def acc'_def)
  qed
qed

lemma clmul128_ref_words: "clmul128_ref a b = (low64 (clmul a b), high64 (clmul a b))"
proof -
  have "double (clmul128_ref a b) = clmul a b"
    unfolding clmul128_ref_def by (subst clmul128_loop_double) (auto simp: double_def dest: bit_imp_le_length)
  then show ?thesis by (metis low_double high_double prod.collapse)
qed

lemma mulmod_ref_ring: "mulmod_ref a b = gmul a b"
  unfolding mulmod_clmul_ring [symmetric] by (simp add: mulmod_ref_def mulmod_clmul_def clmul128_ref_words Let_def)

lemma mulmod_ring [simp]: "mulmod pclmul a b = gmul a b"
  by (simp add: mulmod_def mulmod_clmul_ring mulmod_ref_ring)

section \<open>Long division\<close>

text \<open>The modulus shifted to a position.\<close>

definition q_at :: "nat \<Rightarrow> u128" where
  "q_at pos = xbit (64 + pos) XOR xbit pos XOR xbit (pos + 1) XOR xbit (pos + 3) XOR xbit (pos + 4)"

lemma double_flip:
  assumes "b < 128"
  shows "b < 64 \<Longrightarrow> double (lo XOR push_bit b 1, hi) = double (lo, hi) XOR xbit b"
    and "\<not> b < 64 \<Longrightarrow> double (lo, hi XOR push_bit (b - 64) 1) = double (lo, hi) XOR xbit b"
  using assms unfolding xbit_def [symmetric] double_def fst_conv snd_conv
  by (auto intro!: bit_word_eqI simp: bit_ucast_iff bit_xor_iff bit_push_bit_iff)

lemma xor_q_at_double:
  assumes "pos < 64"
  shows "double (snd (xor_q_at hl pos), fst (xor_q_at hl pos)) = double (snd hl, fst hl) XOR q_at pos"
proof -
  define flip where "flip = (\<lambda>(hi :: u64, lo :: u64) j.
    let b = pos + j in if b < 64 then (hi, lo XOR push_bit b 1) else (hi XOR push_bit (b - 64) 1, lo))"
  have f: "double (snd (flip x j), fst (flip x j)) = double (snd x, fst x) XOR xbit (pos + j)" if "j < 5" for x j
    using assms that double_flip [of "pos + j" "snd x" "fst x"] by (auto simp: flip_def Let_def split_def)
  have u: "[0..<5] = [0, 1, 2, 3, 4 :: nat]" by (simp add: upt_rec)
  have "xor_q_at hl pos = flip (flip (flip (flip (fst hl XOR push_bit pos 1, snd hl) 0) 1) 3) 4"
    unfolding xor_q_at_def u flip_def SPAN_QLOW_def by (simp add: split_def)
  moreover have "double (snd hl, fst hl XOR push_bit pos 1) = double (snd hl, fst hl) XOR xbit (64 + pos)"
    using double_flip(2) [of "64 + pos" "snd hl" "fst hl"] assms by simp
  ultimately show ?thesis by (simp add: f q_at_def xor.assoc)
qed

lemma residue_q_at: "pos < 60 \<or> pos < 64 \<Longrightarrow> residue (q_at pos) = 0"
proof -
  assume "pos < 60 \<or> pos < 64"
  then have p: "pos < 64" by auto
  have r: "residue (a XOR b) = residue a XOR residue b" for a b
    using additive_residue [OF additive_id] unfolding additive_def by blast
  have t: "(xtime ^^ pos) (a XOR b) = (xtime ^^ pos) a XOR (xtime ^^ pos) b" for a b
    using additive_xtimes [OF additive_id, of pos] unfolding additive_def by blast
  have "xpow (pos + 64) = (xtime ^^ pos) SPAN_QLOW" using xpow_add [of pos 64] by (simp add: xpow_64)
  also have "\<dots> = xpow pos XOR xpow (pos + 1) XOR xpow (pos + 3) XOR xpow (pos + 4)"
    unfolding q_bits t by (simp add: xtimes_xpow)
  finally show ?thesis using p unfolding q_at_def r by (simp add: residue_xbit add.commute)
qed

lemma divmod_loop:
  assumes "n \<le> 64" "\<And>k. bit (fst hl) k \<Longrightarrow> k < n"
  shows "snd (foldl (\<lambda>hl k. if drop_bit k (fst hl) AND 1 \<noteq> 0 then xor_q_at hl k else hl) hl (rev [0..<n]))
    = residue (double (snd hl, fst hl))"
  using assms
proof (induction n arbitrary: hl)
  case 0
  then have "fst hl = 0" by (intro bit_word_eqI) auto
  then show ?case by (simp add: residue_fold [of "double _"])
next
  case (Suc n)
  let ?hl = "if drop_bit n (fst hl) AND 1 \<noteq> 0 then xor_q_at hl n else hl"
  have odd: "drop_bit n (fst hl) AND 1 \<noteq> 0 \<longleftrightarrow> bit (fst hl) n"
    by (simp add: and_one_eq bit_iff_odd_drop_bit odd_iff_mod_2_eq_one)
  have bits: "k < n" if "bit (fst ?hl) k" for k
  proof (cases "bit (fst hl) n")
    case True
    have "fst (xor_q_at hl n) = high64 (double (snd hl, fst hl) XOR q_at n)"
      using xor_q_at_double [of n hl] Suc.prems(1) by (metis high_double snd_conv Suc_le_lessD)
    also have "\<dots> = fst hl XOR high64 (q_at n)"
      using additive_high [OF additive_id] unfolding additive_def by simp
    finally have "bit (fst hl) k \<noteq> bit (high64 (q_at n)) k" using that True odd by (simp add: bit_xor_iff)
    moreover have "bit (high64 (q_at n)) k \<longleftrightarrow> k = n \<or> k < n \<and> bit (high64 (q_at n)) k"
      using Suc.prems(1) unfolding high64_def q_at_def bit_ucast_iff bit_drop_bit_eq comp_def bit_xor_iff bit_xbit by auto
    ultimately show ?thesis using Suc.prems(2) [of k] True by (cases "k = n") auto
  next
    case False
    then show ?thesis using that odd Suc.prems(2) [of k] by (cases "k = n") auto
  qed
  have "residue (double (snd ?hl, fst ?hl)) = residue (double (snd hl, fst hl))"
  proof (cases "bit (fst hl) n")
    case True
    have "residue (a XOR b) = residue a XOR residue b" for a b
      using additive_residue [OF additive_id] unfolding additive_def by blast
    then show ?thesis using True odd xor_q_at_double [of n hl] residue_q_at [of n] Suc.prems(1) by simp
  next
    case False
    then show ?thesis using odd by simp
  qed
  then show ?case using Suc.IH [of ?hl] bits Suc.prems(1) by simp
qed

text \<open>(One ring product.)  The instruction path, the schoolbook path and the long division compute the same
  product for all words, and with it the words are a commutative ring with exclusive or as its sum
  and \<open>1\<close> as its unit.\<close>

theorem mulmod_is_ring_product:
  "mulmod_clmul a b = mulmod_divmod_ref a b \<and> mulmod_ref a b = mulmod_divmod_ref a b \<and>
   mulmod g a b = mulmod g' b a \<and> mulmod g (mulmod g a b) c = mulmod g a (mulmod g b c) \<and>
   mulmod g (a XOR b) c = mulmod g a c XOR mulmod g b c \<and> mulmod g 1 a = a"
proof -
  have "mulmod_divmod_ref a b = residue (double (low64 (clmul a b), high64 (clmul a b)))"
    unfolding mulmod_divmod_ref_def clmul128_ref_words Let_def prod.case
    by (subst divmod_loop) (auto dest: bit_imp_le_length)
  moreover have "double (low64 p, high64 p) = p" for p
    by (rule bit_word_eqI) (auto simp: double_def low64_def high64_def bit_simps)
  ultimately have "mulmod_divmod_ref a b = gmul a b" by (simp add: residue_clmul)
  then show ?thesis unfolding mulmod_ring mulmod_clmul_ring mulmod_ref_ring
    by (intro conjI gmul_assoc gmul_xor_left gmul_one gmul_commute) simp_all
qed

end
