(* ===== verification/PolyHash.thy ===== *)
theory PolyHash
  imports Gf64
begin

text \<open>
  The polynomial hash of a span's lanes (\<open>crates/nf-testkit/src/polyhash.rs\<close>): the portable
  path, the \<open>PCLMULQDQ\<close> path and the 256-bit path, register by register, and the key schedule.
  The specification is a sum of ring products.
\<close>

section \<open>The portable path\<close>

definition SPANHASH_MOD_P_LOW :: u64 where "SPANHASH_MOD_P_LOW = 0x1B"

definition SPANHASH_KEYS :: "u64 list" where
  "SPANHASH_KEYS = [0x9E3779B97F4A7C15, 0xC9496682D48DB090, 0x0C29FAC027C1BE19, 0x27CAF68B98DA812D, 0xECC6D2FF80E61FD6]"

definition SPANHASH_KEYS_256 :: "u64 list" where
  "SPANHASH_KEYS_256 = [SPANHASH_KEYS ! 0, SPANHASH_KEYS ! 1, SPANHASH_KEYS ! 2, SPANHASH_KEYS ! 3]"

function clmul64_loop :: "u128 \<Rightarrow> u64 \<Rightarrow> u128 \<Rightarrow> u128" where
  "clmul64_loop a b r =
     (if b \<noteq> 0 then clmul64_loop (push_bit 1 a) (drop_bit 1 b) (if b AND 1 \<noteq> 0 then r XOR a else r) else r)"
  by pat_completeness auto
termination clmul64_loop
proof (relation "measure (\<lambda>(a, b, r). unat b)")
  fix a r :: u128 and b :: u64
  assume "b \<noteq> 0"
  then have "unat b \<noteq> 0" by (simp add: unat_eq_0)
  moreover have "unat (drop_bit 1 b) = unat b div 2" by (simp add: drop_bit_eq_div unat_div_distrib)
  ultimately show "((push_bit 1 a, drop_bit 1 b, if b AND 1 \<noteq> 0 then r XOR a else r), a, b, r) \<in> measure (\<lambda>(a, b, r). unat b)"
    by simp
qed simp

declare clmul64_loop.simps [simp del]

definition clmul64_portable :: "u64 \<Rightarrow> u64 \<Rightarrow> u128" where
  "clmul64_portable a b = clmul64_loop (ucast a) b 0"

text \<open>At most two rounds; a value of one word ends the loop.\<close>

primrec reduce_rounds :: "nat \<Rightarrow> u128 \<Rightarrow> u128" where
  "reduce_rounds 0 x = x"
| "reduce_rounds (Suc n) x =
     (if drop_bit 64 x = 0 then x
      else let hi = ucast (drop_bit 64 x) :: u64; lo = ucast x :: u64
           in reduce_rounds n (clmul64_portable hi SPANHASH_MOD_P_LOW XOR ucast lo))"

definition reduce_mod_p_portable :: "u128 \<Rightarrow> u64" where
  "reduce_mod_p_portable x = ucast (reduce_rounds 2 x)"

text \<open>An array of four words.\<close>

type_synonym words4 = "u64 \<times> u64 \<times> u64 \<times> u64"

definition spanhash64_portable :: "words4 \<Rightarrow> u32 \<Rightarrow> u64" where
  "spanhash64_portable words len =
     (let (w0, w1, w2, w3) = words; terms = [w0, w1, w2, w3, ucast len]
      in reduce_mod_p_portable (foldl (\<lambda>acc i. acc XOR clmul64_portable (terms ! i) (SPANHASH_KEYS ! i)) 0 [0..<5]))"

section \<open>Registers\<close>

text \<open>A 128-bit register is its low and its high word.\<close>

type_synonym m128 = "u64 \<times> u64"

definition words_of :: "u128 \<Rightarrow> m128" where
  "words_of p = (low64 p, high64 p)"

definition clmulepi64 :: "m128 \<Rightarrow> m128 \<Rightarrow> nat \<Rightarrow> m128" where
  "clmulepi64 a b imm = words_of (clmul (if bit imm 0 then snd a else fst a) (if bit imm 4 then snd b else fst b))"

definition xor128 :: "m128 \<Rightarrow> m128 \<Rightarrow> m128" where
  "xor128 a b = (fst a XOR fst b, snd a XOR snd b)"

definition unpackhi64 :: "m128 \<Rightarrow> m128 \<Rightarrow> m128" where
  "unpackhi64 a b = (snd a, snd b)"

definition move_epi64 :: "m128 \<Rightarrow> m128" where
  "move_epi64 a = (fst a, 0)"

text \<open>A 256-bit register is its low and its high half; the product instruction works on each.\<close>

type_synonym m256 = "m128 \<times> m128"

definition clmulepi64_256 :: "m256 \<Rightarrow> m256 \<Rightarrow> nat \<Rightarrow> m256" where
  "clmulepi64_256 a b imm = (clmulepi64 (fst a) (fst b) imm, clmulepi64 (snd a) (snd b) imm)"

definition xor256 :: "m256 \<Rightarrow> m256 \<Rightarrow> m256" where
  "xor256 a b = (xor128 (fst a) (fst b), xor128 (snd a) (snd b))"

text \<open>The reduction both vector paths end with; the second round is four shifts.\<close>

definition fold_register :: "m128 \<Rightarrow> u64" where
  "fold_register s =
     (let hi = unpackhi64 s s; plow = (SPANHASH_MOD_P_LOW, 0); t1 = clmulepi64 hi plow 0x00;
          x1 = xor128 t1 (move_epi64 s); hi2 = fst (unpackhi64 x1 x1) AND 0xF; lo = fst x1
      in lo XOR (push_bit 4 hi2 XOR push_bit 3 hi2 XOR push_bit 1 hi2 XOR hi2))"

definition spanhash64_pclmul :: "words4 \<Rightarrow> u32 \<Rightarrow> u64" where
  "spanhash64_pclmul words len =
     (let (w0, w1, w2, w3) = words;
          a = (w0, w1); b = (w2, w3);
          k01 = (SPANHASH_KEYS ! 0, SPANHASH_KEYS ! 1); k23 = (SPANHASH_KEYS ! 2, SPANHASH_KEYS ! 3);
          p01 = clmulepi64 a k01 0x00; p23 = clmulepi64 a k01 0x11;
          p45 = clmulepi64 b k23 0x00; p67 = clmulepi64 b k23 0x11;
          l = (ucast len, 0); k4 = (SPANHASH_KEYS ! 4, 0);
          pl = clmulepi64 l k4 0x00
      in fold_register (xor128 (xor128 p01 p23) (xor128 (xor128 p45 p67) pl)))"

definition spanhash64_vec256 :: "words4 \<Rightarrow> u32 \<Rightarrow> u64" where
  "spanhash64_vec256 words len =
     (let (w0, w1, w2, w3) = words;
          a = ((w0, w1), (w2, w3));
          k = ((SPANHASH_KEYS_256 ! 0, SPANHASH_KEYS_256 ! 1), (SPANHASH_KEYS_256 ! 2, SPANHASH_KEYS_256 ! 3));
          pl = clmulepi64_256 a k 0x00; ph = clmulepi64_256 a k 0x11;
          s = xor256 pl ph; lo = fst s; hi = snd s;
          plen = clmulepi64 (ucast len, 0) (SPANHASH_KEYS ! 4, 0) 0x00
      in fold_register (xor128 (xor128 lo hi) plen))"

datatype Mode = Portable | Pclmul | Vec256

text \<open>The variable \<open>HFT_SPANHASH_VEC\<close> and the two processor classes.\<close>

definition resolve_mode :: "string option \<Rightarrow> bool \<Rightarrow> bool \<Rightarrow> Mode" where
  "resolve_mode env vec_class pclmulqdq =
     (if env = Some ''0'' then Portable
      else if env = Some ''1'' \<and> vec_class then Vec256
      else if vec_class then Vec256 else if pclmulqdq then Pclmul else Portable)"

fun spanhash64 :: "Mode \<Rightarrow> words4 \<Rightarrow> u32 \<Rightarrow> u64" where
  "spanhash64 Portable words len = spanhash64_portable words len"
| "spanhash64 Pclmul words len = spanhash64_pclmul words len"
| "spanhash64 Vec256 words len = spanhash64_vec256 words len"

text \<open>Eight lanes in four words; \<open>len\<close> is cut to 32 bits.\<close>

definition spanhash64_lanes :: "Mode \<Rightarrow> u32 list \<Rightarrow> nat \<Rightarrow> u64" where
  "spanhash64_lanes mode lanes len =
     (let pair = (\<lambda>i. ucast (lanes ! i) OR push_bit 32 (ucast (lanes ! (i + 1))))
      in spanhash64 mode (pair 0, pair 2, pair 4, pair 6) (of_nat len))"

section \<open>The portable product and reduction\<close>

lemma clmul64_loop_product: "clmul64_loop (push_bit i (ucast a)) b r = r XOR push_bit i (clmul a b)"
proof (induction b arbitrary: i r rule: measure_induct_rule [of unat])
  case (less b)
  show ?case
  proof (cases "b = 0")
    case True
    then show ?thesis using additive_zero [OF additive_clmul_right [OF additive_id, of a]]
      by (subst clmul64_loop.simps) simp
  next
    case False
    have odd: "b AND 1 \<noteq> 0 \<longleftrightarrow> bit b 0" by (simp add: and_one_eq bit_0 odd_iff_mod_2_eq_one)
    have lt: "unat (drop_bit 1 b) < unat b"
    proof -
      have "unat b \<noteq> 0" using False by (simp add: unat_eq_0)
      then show ?thesis by (simp add: drop_bit_eq_div unat_div_distrib)
    qed
    have "clmul64_loop (push_bit (i + 1) (ucast a)) (drop_bit 1 b) r' = r' XOR push_bit (i + 1) (clmul a (drop_bit 1 b))" for r'
      by (rule less [OF lt])
    then have "clmul64_loop (push_bit i (ucast a)) b r
        = (if bit b 0 then r XOR push_bit i (ucast a) else r) XOR push_bit (i + 1) (clmul a (drop_bit 1 b))"
      using False odd by (subst clmul64_loop.simps) (simp only: push_bit_push_bit add.commute if_True not_False_eq_True)
    also have "\<dots> = r XOR push_bit i ((if bit b 0 then ucast a else 0) XOR push_bit 1 (clmul a (drop_bit 1 b)))"
      by (simp add: push_bit_xor push_bit_push_bit xor.assoc del: push_bit_Suc)
    finally show ?thesis unfolding clmul_step [of a b, symmetric] .
  qed
qed

lemma clmul64_portable_product: "clmul64_portable a b = clmul a b"
  using clmul64_loop_product [of 0 a b 0] by (simp add: clmul64_portable_def)

lemma q_low: "SPANHASH_MOD_P_LOW = SPAN_QLOW"
  by (simp add: SPANHASH_MOD_P_LOW_def SPAN_QLOW_def)

lemma low_xor: "low64 (a XOR b) = low64 a XOR low64 b" "high64 (a XOR b) = high64 a XOR high64 b"
  using additive_low [OF additive_id] additive_high [OF additive_id] unfolding additive_def by blast+

lemma low_ucast: "low64 (ucast (x :: u64)) = x" "high64 (ucast (x :: u64)) = 0"
  by (rule bit_word_eqI; auto simp: low64_def high64_def bit_simps dest: bit_imp_le_length)+

lemma no_high: "drop_bit 64 (x :: u128) = 0 \<longleftrightarrow> high64 x = 0"
proof
  assume "high64 x = 0"
  then have "\<not> bit (high64 x) n" for n by simp
  then have "\<not> bit (drop_bit 64 x) n" for n
    unfolding high64_def bit_ucast_iff by (cases "n < 64") (auto simp: bit_drop_bit_eq dest: bit_imp_le_length)
  then show "drop_bit 64 x = 0" by (intro bit_word_eqI) simp
qed (simp add: high64_def)

lemma reduce_portable_residue: "reduce_mod_p_portable x = residue x"
proof -
  let ?r = "\<lambda>x. clmul (high64 x) SPAN_QLOW XOR ucast (low64 x)"
  have step: "reduce_rounds (Suc n) x = (if high64 x = 0 then x else reduce_rounds n (?r x))" for n x
    by (simp add: no_high clmul64_portable_product q_low Let_def) (simp add: high64_def low64_def)
  have two: "reduce_rounds 2 x = (if high64 x = 0 then x else if high64 (?r x) = 0 then ?r x else ?r (?r x))"
    unfolding numeral_2_eq_2 step by simp
  have z: "clmul 0 SPAN_QLOW = 0" using additive_zero [OF additive_clmul_left [OF additive_id]] by blast
  have l: "low64 0 = 0" "high64 0 = 0" by (simp_all add: low64_def high64_def)
  show ?thesis
    unfolding reduce_mod_p_portable_def two low64_def [symmetric] fold_twice [of x]
    by (auto simp: low_xor low_ucast z l ac_simps)
qed

section \<open>The register paths\<close>

lemma words_xor: "xor128 (words_of a) (words_of b) = words_of (a XOR b)"
  by (simp add: xor128_def words_of_def low_xor)

lemma shifts_q: 
  assumes "\<And>k. bit (a :: u64) k \<Longrightarrow> k < 4"
  shows "push_bit 4 (a AND 0xF) XOR push_bit 3 (a AND 0xF) XOR push_bit 1 (a AND 0xF) XOR (a AND 0xF) = low64 (clmul a SPAN_QLOW)"
proof -
  have m: "(0xF :: u64) = mask 4" by (simp add: mask_eq_exp_minus_1)
  have a: "a AND 0xF = a"
    unfolding m by (rule bit_word_eqI) (auto simp: bit_and_iff bit_mask_iff dest: assms)
  have p: "low64 (push_bit n (ucast a)) = push_bit n a" for n
    by (rule bit_word_eqI) (auto simp: low64_def bit_ucast_iff bit_push_bit_iff)
  show ?thesis unfolding a clmul_q low_xor p low_ucast by (simp only: ac_simps)
qed

lemma imm_bits: "bit (0x11 :: nat) 0" "bit (0x11 :: nat) 4" "\<not> bit (0 :: nat) n" "bit (Suc 0) 0"
  by (simp_all add: bit_simps bit_0)

lemma fold_register_residue: "fold_register (words_of p) = residue p"
proof -
  let ?t = "clmul (high64 p) SPAN_QLOW"
  have "fold_register (words_of p) = (low64 ?t XOR low64 p) XOR low64 (clmul (high64 ?t) SPAN_QLOW)"
    unfolding fold_register_def Let_def unpackhi64_def clmulepi64_def xor128_def move_epi64_def words_of_def
      fst_conv snd_conv q_low xor.right_neutral
    by (simp only: imm_bits if_False if_cancel shifts_q [OF high_clmul_q])
  then show ?thesis unfolding fold_twice [of p] by (simp only: ac_simps)
qed

definition hash_sum :: "words4 \<Rightarrow> u32 \<Rightarrow> u128" where
  "hash_sum words len =
     (let (w0, w1, w2, w3) = words
      in clmul w0 (SPANHASH_KEYS ! 0) XOR clmul w1 (SPANHASH_KEYS ! 1) XOR clmul w2 (SPANHASH_KEYS ! 2) XOR
         clmul w3 (SPANHASH_KEYS ! 3) XOR clmul (ucast len) (SPANHASH_KEYS ! 4))"

lemma portable_residue: "spanhash64_portable words len = residue (hash_sum words len)"
proof -
  have "[0..<5] = [0, 1, 2, 3, 4 :: nat]" by (simp add: upt_rec)
  then show ?thesis
    by (simp add: spanhash64_portable_def hash_sum_def clmul64_portable_product reduce_portable_residue split_def Let_def xor.assoc)
qed

lemma pclmul_residue: "spanhash64_pclmul words len = residue (hash_sum words len)"
  by (simp add: spanhash64_pclmul_def hash_sum_def split_def Let_def clmulepi64_def imm_bits words_xor fold_register_residue ac_simps)

lemma vec256_residue: "spanhash64_vec256 words len = residue (hash_sum words len)"
  by (simp add: spanhash64_vec256_def hash_sum_def split_def Let_def clmulepi64_def clmulepi64_256_def xor256_def
      SPANHASH_KEYS_256_def imm_bits words_xor fold_register_residue ac_simps)

section \<open>The key schedule\<close>

text \<open>The hash as a sum of ring products.\<close>

lemma hash_sum_ring:
  "residue (hash_sum (w0, w1, w2, w3) len) = gmul w0 (SPANHASH_KEYS ! 0) XOR gmul w1 (SPANHASH_KEYS ! 1) XOR
     gmul w2 (SPANHASH_KEYS ! 2) XOR gmul w3 (SPANHASH_KEYS ! 3) XOR gmul (ucast len) (SPANHASH_KEYS ! 4)"
proof -
  have r: "residue (a XOR b) = residue a XOR residue b" for a b
    using additive_residue [OF additive_id] unfolding additive_def by blast
  show ?thesis by (simp add: hash_sum_def r residue_clmul)
qed

end
