(* ===== verification/GfOrder.thy ===== *)
theory GfOrder
  imports PolyHash
begin

text \<open>
  Evaluation of ring products on integers, and what needs it: the key schedule of the
  polynomial hash and a lower bound on the order of \<open>x\<close>, on which the initialisation of the power
  table depends.
\<close>

section \<open>Evaluation\<close>

fun imul_loop :: "nat \<Rightarrow> int \<Rightarrow> int \<Rightarrow> int \<Rightarrow> int" where
  "imul_loop 0 a b r = r"
| "imul_loop (Suc n) a b r =
     imul_loop n (a div 2)
       (if b < 9223372036854775808 then 2 * b else (2 * b - 18446744073709551616) XOR 27) (if a mod 2 = 1 then r XOR b else r)"

definition imul :: "int \<Rightarrow> int \<Rightarrow> int" where
  "imul a b = imul_loop 64 a b 0"

fun isquares :: "nat \<Rightarrow> int \<Rightarrow> int" where
  "isquares 0 a = a"
| "isquares (Suc n) a = isquares n (imul a a)"

lemma uint_xtime:
  "uint (xtime b) = (if uint b < 9223372036854775808 then 2 * uint b else (2 * uint b - 18446744073709551616) XOR 27)"
  using uint_shift_reduce [of b SPAN_QLOW] by (simp add: xtime_def SPAN_QLOW_def)

lemma imul_loop_comb:
  fixes a :: u64
  shows "imul_loop n (uint a) (uint b) (uint r) = uint (r XOR comb n (\<lambda>i. (xtime ^^ i) b) a)"
proof (induction n arbitrary: a b r)
  case (Suc n)
  have a: "uint a div 2 = uint (drop_bit 1 a)" by (simp add: drop_bit_eq_div uint_div_distrib)
  have odd: "uint a mod 2 = 1 \<longleftrightarrow> bit a 0" using bit_uint_iff [of a 0] unfolding bit_0 [of "uint a"] odd_iff_mod_2_eq_one by simp
  have r: "(if uint a mod 2 = 1 then uint r XOR uint b else uint r) = uint (r XOR (if bit a 0 then b else 0))"
    by (simp add: odd unsigned_xor_eq)
  have "comb (Suc n) (\<lambda>i. (xtime ^^ i) b) a = (if bit a 0 then b else 0) XOR comb n (\<lambda>i. (xtime ^^ i) (xtime b)) (drop_bit 1 a)"
    unfolding comb_low by (simp add: funpow_swap1)
  then show ?case unfolding imul_loop.simps uint_xtime [symmetric] a r Suc.IH by (simp only: xor.assoc)
qed simp

lemma uint_gmul: "uint (gmul a b) = imul (uint a) (uint b)"
  using imul_loop_comb [of 64 a b 0] by (simp add: imul_def ring_mul_def)

section \<open>The key schedule\<close>

lemma key_products:
  "imul 0x9E3779B97F4A7C15 0x9E3779B97F4A7C15 = 0xC9496682D48DB090"
  "imul 0x9E3779B97F4A7C15 0xC9496682D48DB090 = 0x0C29FAC027C1BE19"
  "imul 0x9E3779B97F4A7C15 0x0C29FAC027C1BE19 = 0x27CAF68B98DA812D"
  "imul 0x9E3779B97F4A7C15 0x27CAF68B98DA812D = 0xECC6D2FF80E61FD6"
  by code_simp+

lemma gmul_eval: "imul (uint a) (uint b) = uint c \<Longrightarrow> gmul a b = c"
  using uint_gmul [of a b] by (simp add: word_uint_eq_iff)

lemma key_schedule:
  "gmul (SPANHASH_KEYS ! 0) (SPANHASH_KEYS ! 0) = SPANHASH_KEYS ! 1"
  "gmul (SPANHASH_KEYS ! 0) (SPANHASH_KEYS ! 1) = SPANHASH_KEYS ! 2"
  "gmul (SPANHASH_KEYS ! 0) (SPANHASH_KEYS ! 2) = SPANHASH_KEYS ! 3"
  "gmul (SPANHASH_KEYS ! 0) (SPANHASH_KEYS ! 3) = SPANHASH_KEYS ! 4"
  using key_products by (intro gmul_eval, simp add: SPANHASH_KEYS_def)+

text \<open>C31: (The span hash is polynomial evaluation.)  On every dispatch mode the hash of four words and a length is
  the polynomial with these coefficients, and none constant, evaluated at the first key in the ring: the three
  implementations agree bit for bit and the key table is the powers of its first entry.\<close>

theorem spanhash_is_polynomial:
  fixes r defines "r \<equiv> SPANHASH_KEYS ! 0"
  shows "spanhash64 mode (w0, w1, w2, w3) len
    = mulmod g r (w0 XOR mulmod g r (w1 XOR mulmod g r (w2 XOR mulmod g r (w3 XOR mulmod g r (ucast len)))))"
proof -
  have "spanhash64 mode (w0, w1, w2, w3) len = residue (hash_sum (w0, w1, w2, w3) len)"
    by (cases mode) (simp_all add: portable_residue pclmul_residue vec256_residue)
  also have "\<dots> = gmul (SPANHASH_KEYS ! 0) w0 XOR gmul (SPANHASH_KEYS ! 1) w1 XOR gmul (SPANHASH_KEYS ! 2) w2 XOR
      gmul (SPANHASH_KEYS ! 3) w3 XOR gmul (SPANHASH_KEYS ! 4) (ucast len)"
    unfolding hash_sum_ring by (simp only: gmul_commute)
  finally show ?thesis
    unfolding key_schedule [symmetric] r_def mulmod_ring gmul_xor_right gmul_assoc by (simp only: xor.assoc)
qed

section \<open>The order of x\<close>

lemma uint_xpow_double: "uint (xpow k) = a \<Longrightarrow> uint (xpow (2 * k)) = imul a a"
  using uint_gmul [of "xpow k" "xpow k"] by (simp add: xpow_mult mult_2)

lemma isquares_xpow: "uint (xpow k) = a \<Longrightarrow> uint (xpow (2 ^ n * k)) = isquares n a"
proof (induction n arbitrary: k a)
  case (Suc n)
  then show ?case using Suc.IH [OF uint_xpow_double [OF Suc.prems]] by (simp add: mult.assoc mult.left_commute)
qed simp

lemma uint_xpow_add: "uint (xpow j) = a \<Longrightarrow> uint (xpow k) = b \<Longrightarrow> uint (xpow (j + k)) = imul a b"
  using uint_gmul [of "xpow j" "xpow k"] by (simp add: xpow_mult)

lemma power_8: "imul (isquares 4 32768) 32768 = 9223372036854810629"
  by code_simp

lemma power_16: "imul (isquares 8 9223372036854810629) 9223372036854810629 = 9272771591053052074"
  by code_simp

lemma power_32: "imul (isquares 16 9272771591053052074) 9272771591053052074 = 12551833100100911759"
  by code_simp

lemma power_64: "imul (isquares 32 12551833100100911759) 12551833100100911759 = 1"
  by code_simp

lemma power_cofactor:
  "imul (imul (isquares 9 12551833100100911759) (isquares 7 12551833100100911759)) 12551833100100911759 = 69034349764540817"
  by code_simp

lemma xpow_4294967295: "uint (xpow 4294967295) = 12551833100100911759"
proof -
  have 4: "uint (xpow 15) = 32768" by (simp add: xpow_xbit xbit_def)
  have 8: "uint (xpow 255) = 9223372036854810629"
    using uint_xpow_add [OF isquares_xpow [OF 4, of 4] 4] unfolding power_8 by simp
  have 16: "uint (xpow 65535) = 9272771591053052074"
    using uint_xpow_add [OF isquares_xpow [OF 8, of 8] 8] unfolding power_16 by simp
  show ?thesis using uint_xpow_add [OF isquares_xpow [OF 16, of 16] 16] unfolding power_32 by simp
qed

lemma xpow_order: "xpow 18446744073709551615 = 1"
proof -
  have "uint (xpow 18446744073709551615) = 1"
    using uint_xpow_add [OF isquares_xpow [OF xpow_4294967295, of 32] xpow_4294967295] unfolding power_64 by simp
  then show ?thesis by (simp add: word_uint_eq_iff)
qed

lemma xpow_cofactor: "xpow 2753074036095 \<noteq> 1"
proof -
  note y = xpow_4294967295
  have "uint (xpow 2753074036095) = 69034349764540817"
    using uint_xpow_add [OF uint_xpow_add [OF isquares_xpow [OF y, of 9] isquares_xpow [OF y, of 7]] y] unfolding power_cofactor
    by simp
  then show ?thesis by auto
qed

lemma xpow_period: "xpow b = 1 \<Longrightarrow> xpow (b * q) = 1"
  by (induction q) (simp_all add: xpow_mult [symmetric])

lemma xpow_gcd: "xpow a = 1 \<Longrightarrow> xpow b = 1 \<Longrightarrow> xpow (gcd a b) = 1"
proof (induction a b rule: gcd_nat_induct)
  case (step a b)
  have "xpow a = gmul (xpow (b * (a div b))) (xpow (a mod b))" unfolding xpow_mult by simp
  then have "xpow (a mod b) = 1" using step.prems xpow_period [of b "a div b"] by simp
  then show ?case using step by (simp add: gcd_red_nat [of a b] gcd.commute)
qed simp

text \<open>The largest factor has no divisor below its root.\<close>

fun no_divisor :: "int \<Rightarrow> nat \<Rightarrow> int \<Rightarrow> bool" where
  "no_divisor p 0 d \<longleftrightarrow> True"
| "no_divisor p (Suc n) d \<longleftrightarrow> p mod d \<noteq> 0 \<and> no_divisor p n (d + 2)"

lemma no_divisor_nth: "no_divisor p n d \<Longrightarrow> i < n \<Longrightarrow> \<not> (d + 2 * int i) dvd p"
proof (induction p n d arbitrary: i rule: no_divisor.induct)
  case (2 p n d)
  then show ?case by (cases i) (auto simp: dvd_eq_mod_eq_0 algebra_simps)
qed simp

lemma trial_division: "no_divisor 6700417 1293 3"
  by code_simp

lemma small_divisor: "1 < d \<Longrightarrow> d \<le> 2588 \<Longrightarrow> \<not> d dvd (6700417 :: nat)"
proof
  assume d: "1 < d" "d \<le> 2588" "d dvd (6700417 :: nat)"
  have "odd d"
  proof
    assume "even d"
    then have "even (6700417 :: nat)" using d(3) dvd_trans by blast
    then show False by simp
  qed
  then obtain i where i: "d = 2 * i + 1" by (elim oddE)
  then have "\<not> (3 + 2 * int (i - 1)) dvd 6700417"
    using no_divisor_nth [OF trial_division, of "i - 1"] d(1,2) by simp
  moreover have "3 + 2 * int (i - 1) = int d" using i d(1) by simp
  ultimately show False using d(3) by (metis int_dvd_int_iff of_nat_numeral)
qed

lemma factor_coprime: "0 < g \<Longrightarrow> g < 6700417 \<Longrightarrow> coprime g (6700417 :: nat)"
proof -
  assume g: "0 < g" "g < 6700417"
  define d where "d = gcd g 6700417"
  have d: "d dvd 6700417" "d \<le> g" "0 < d" unfolding d_def using g(1) by (simp_all add: gcd_le1_nat)
  have "d = 1"
  proof (rule ccontr)
    assume "d \<noteq> 1"
    then have "2588 < d" using small_divisor [of d] d by (metis One_nat_def nat_neq_iff not_le less_one)
    obtain e where e: "6700417 = d * e" using d(1) by (elim dvdE)
    have "e dvd 6700417" unfolding e by simp
    moreover have "e \<noteq> 1" using e d(2) g(2) by auto
    moreover have "e \<noteq> 0" using e by (metis mult_0_right zero_neq_numeral)
    ultimately have "2588 < e" using small_divisor [of e] by (metis One_nat_def nat_neq_iff not_le less_one)
    then have "2589 * 2589 \<le> d * e" using \<open>2588 < d\<close> by (intro mult_le_mono) auto
    then show False using e by simp
  qed
  then show ?thesis by (simp add: d_def coprime_iff_gcd_eq_1)
qed

lemma xpow_not_one: "0 < k \<Longrightarrow> k < 6700417 \<Longrightarrow> xpow k \<noteq> 1"
proof
  assume k: "0 < k" "k < 6700417" "xpow k = 1"
  define g where "g = gcd k 18446744073709551615"
  have g: "xpow g = 1" "g dvd 2753074036095 * 6700417" "0 < g" "g \<le> k"
    unfolding g_def using k(1) xpow_gcd [OF k(3) xpow_order] by (simp_all add: gcd_le1_nat)
  have "coprime g 6700417" using g(3,4) k(2) by (intro factor_coprime) auto
  then have "g dvd 2753074036095" using g(2) by (rule coprime_dvd_mult_left_iff [THEN iffD1])
  then obtain q where "2753074036095 = g * q" by (elim dvdE)
  then show False using xpow_cofactor xpow_period [OF g(1), of q] by simp
qed

end
