(* ===== verification/SpanFold.thy ===== *)
theory SpanFold
  imports SegmentFold GfOrder "HOL-Library.Monad_Syntax"
begin

text \<open>
  The closed-form fold of spans (\<open>crates/nf-testkit/src/spanfold.rs\<close>): the power tables, the chunk
  record and the accumulator with their compositions, the chunk fold with its scalar and its
  AVX-512 sum, the stream folds, the trees and the merges.  The specification is the composite of
  one-message records in tape order; locale \<open>segment_semigroup\<close> is interpreted on the accumulator.
\<close>

section \<open>Types and tables\<close>

text \<open>Wire sizes by type index; the tenth class is the messages without book content.\<close>

definition W_T :: "u64 list" where
  "W_T = [36, 40, 31, 36, 23, 19, 35, 43, 40, 0]"

definition ty36 :: "u8 \<Rightarrow> u8" where
  "ty36 t =
     (if t = 0x41 then 0 else if t = 0x46 then 1 else if t = 0x45 then 2 else if t = 0x43 then 3
      else if t = 0x58 then 4 else if t = 0x44 then 5 else if t = 0x55 then 6 else if t = 0x50 then 7
      else if t = 0x51 then 8 else 9)"

definition CHUNK :: nat where "CHUNK = 512"
definition MAXSPAN :: nat where "MAXSPAN = CHUNK * 43 + 1"
definition ORD_FLOOR :: nat where "ORD_FLOOR = 2 ^ 21"
definition T_LEN :: nat where "T_LEN = 2 ^ 16"

text \<open>Reading an array; out of range panics: \<open>None\<close>.\<close>

definition read :: "'a list \<Rightarrow> nat \<Rightarrow> 'a option" where
  "read xs i = (if i < length xs then Some (xs ! i) else None)"

fun foldM :: "('a \<Rightarrow> 's \<Rightarrow> 's option) \<Rightarrow> 'a list \<Rightarrow> 's \<Rightarrow> 's option" where
  "foldM f [] s = Some s"
| "foldM f (x # xs) s = Option.bind (f x s) (foldM f xs)"

text \<open>A table of powers: \<open>n\<close> entries from \<open>p\<close>, each the previous one times \<open>m\<close>.\<close>

fun power_table :: "bool \<Rightarrow> u64 \<Rightarrow> nat \<Rightarrow> u64 \<Rightarrow> u64 list" where
  "power_table g m 0 p = []"
| "power_table g m (Suc n) p = p # power_table g m n (mulmod g p m)"

text \<open>The order check of the initialisation: a power that is one panics.\<close>

fun order_check :: "bool \<Rightarrow> nat \<Rightarrow> u64 \<Rightarrow> unit option" where
  "order_check g 0 h = Some ()"
| "order_check g (Suc n) h = (let h = mulmod g h 2 in if h = 1 then None else order_check g n h)"

definition t_pow :: "bool \<Rightarrow> u64 list" where
  "t_pow g = power_table g 2 T_LEN 1"

definition t_pow_init :: "bool \<Rightarrow> u64 list option" where
  "t_pow_init g = do { let t = t_pow g; _ \<leftarrow> order_check g (ORD_FLOOR - 1) 1; Some t }"

definition shift_chunk :: "bool \<Rightarrow> u64 \<Rightarrow> u64 option" where
  "shift_chunk g d = read (t_pow g) (unat d)"

definition t_hi :: "bool \<Rightarrow> u64 list" where
  "t_hi g = power_table g (mulmod g (t_pow g ! (T_LEN - 1)) 2) (2 ^ 16) 1"

definition shift_pow :: "bool \<Rightarrow> u64 \<Rightarrow> u64 option" where
  "shift_pow g d =
     (let hi = drop_bit 16 d; lo = unat (d AND 0xFFFF)
      in if hi = 0 then read (t_pow g) lo
         else do { a \<leftarrow> read (t_hi g) (unat hi); b \<leftarrow> read (t_pow g) lo; Some (mulmod g a b) })"

section \<open>Records\<close>

text \<open>Volume deltas are 64-bit words in two's complement.\<close>

record R36 =
  r_v :: u64
  r_db :: u64
  r_da :: u64
  r_px :: u32
  r_tag :: u16
  r_w :: u16
  r_cnt :: u16
  r_flg :: u16

definition FLG_SETTER :: u16 where "FLG_SETTER = 1"

definition R36_IDENTITY :: R36 where
  "R36_IDENTITY = \<lparr>r_v = 0, r_db = 0, r_da = 0, r_px = 0, r_tag = 0, r_w = 0, r_cnt = 0, r_flg = 0\<rparr>"

text \<open>The linear part; the index is 16 bits wide, so the table covers it.\<close>

definition c_of :: "bool \<Rightarrow> R36 \<Rightarrow> u64" where
  "c_of g r = t_pow g ! unat (r_w r)"

record P64 =
  p_v :: u64
  p_c :: u64
  p_db :: u64
  p_da :: u64
  p_px :: u32
  p_tag :: u32
  p_deg :: u32
  p_cnt :: u32
  p_flg :: u16

definition P64_IDENTITY :: P64 where
  "P64_IDENTITY = \<lparr>p_v = 0, p_c = 1, p_db = 0, p_da = 0, p_px = 0, p_tag = 0, p_deg = 0, p_cnt = 0, p_flg = 0\<rparr>"

definition from_r36 :: "bool \<Rightarrow> R36 \<Rightarrow> P64" where
  "from_r36 g r = \<lparr>p_v = r_v r, p_c = c_of g r, p_db = r_db r, p_da = r_da r, p_px = r_px r, p_tag = ucast (r_tag r),
     p_deg = ucast (r_w r), p_cnt = ucast (r_cnt r), p_flg = r_flg r\<rparr>"

definition r36_compose :: "bool \<Rightarrow> R36 \<Rightarrow> R36 \<Rightarrow> R36" where
  "r36_compose g a b =
     (let v = mulmod g (r_v a) (c_of g b) XOR r_v b;
          (px, tag) = (if r_flg b AND FLG_SETTER \<noteq> 0 then (r_px b, r_w a + r_tag b) else (r_px a, r_tag a))
      in \<lparr>r_v = v, r_db = r_db a + r_db b, r_da = r_da a + r_da b, r_px = px, r_tag = tag, r_w = r_w a + r_w b,
          r_cnt = r_cnt a + r_cnt b, r_flg = r_flg a OR r_flg b\<rparr>)"

definition p64_compose :: "bool \<Rightarrow> P64 \<Rightarrow> P64 \<Rightarrow> P64" where
  "p64_compose g a b =
     (let c = mulmod g (p_c a) (p_c b); v = mulmod g (p_v a) (p_c b) XOR p_v b;
          (px, tag) = (if p_flg b AND FLG_SETTER \<noteq> 0 then (p_px b, p_deg a + p_tag b) else (p_px a, p_tag a))
      in \<lparr>p_v = v, p_c = c, p_db = p_db a + p_db b, p_da = p_da a + p_da b, p_px = px, p_tag = tag,
          p_deg = p_deg a + p_deg b, p_cnt = p_cnt a + p_cnt b, p_flg = p_flg a OR p_flg b\<rparr>)"

definition hash_apply :: "bool \<Rightarrow> u64 \<Rightarrow> R36 \<Rightarrow> u64" where
  "hash_apply g h r = mulmod g h (c_of g r) XOR r_v r"

definition hash_apply_p64 :: "bool \<Rightarrow> u64 \<Rightarrow> P64 \<Rightarrow> u64" where
  "hash_apply_p64 g h r = mulmod g h (p_c r) XOR p_v r"

definition hash_merge :: "bool \<Rightarrow> u64 \<Rightarrow> u64 \<Rightarrow> u64 \<Rightarrow> u64 option" where
  "hash_merge g h_early h_late w_late = do { s \<leftarrow> shift_pow g w_late; Some (mulmod g h_early s XOR h_late) }"

section \<open>Columns and the sequential fold\<close>

record SpanTokens =
  st_ty :: "u8 list"
  st_vd :: "u64 list"
  st_db :: "u64 list"
  st_da :: "u64 list"
  st_px :: "u32 list"
  st_setp :: "u8 list"

definition with_len :: "nat \<Rightarrow> SpanTokens" where
  "with_len n = \<lparr>st_ty = replicate n 0, st_vd = replicate n 0, st_db = replicate n 0, st_da = replicate n 0,
     st_px = replicate n 0, st_setp = replicate n 0\<rparr>"

record SeqFold =
  sf_h :: u64
  sf_db :: u64
  sf_da :: u64
  sf_px :: u32
  sf_tag :: u16
  sf_flg :: u16
  sf_w :: u64

definition seq_step :: "bool \<Rightarrow> SpanTokens \<Rightarrow> nat \<Rightarrow> SeqFold \<Rightarrow> SeqFold option" where
  "seq_step g t i s = do {
     ty \<leftarrow> read (st_ty t) i; wt \<leftarrow> read W_T (unat ty); sh \<leftarrow> shift_chunk g wt; vd \<leftarrow> read (st_vd t) i;
     db \<leftarrow> read (st_db t) i; da \<leftarrow> read (st_da t) i;
     let s = s\<lparr>sf_h := mulmod g (sf_h s) sh XOR vd, sf_db := sf_db s + db, sf_da := sf_da s + da, sf_w := sf_w s + wt\<rparr>;
     setp \<leftarrow> read (st_setp t) i;
     if setp \<noteq> 0
     then do { px \<leftarrow> read (st_px t) i; Some (s\<lparr>sf_px := px, sf_tag := ucast (sf_w s), sf_flg := sf_flg s OR FLG_SETTER\<rparr>) }
     else Some s }"

definition fold_chunk_sequential :: "bool \<Rightarrow> SpanTokens \<Rightarrow> u64 \<Rightarrow> (R36 \<times> u64) option" where
  "fold_chunk_sequential g t h_in = do {
     let n = length (st_vd t);
     s \<leftarrow> foldM (seq_step g t) [0..<n]
       \<lparr>sf_h = h_in, sf_db = 0, sf_da = 0, sf_px = 0, sf_tag = 0, sf_flg = 0, sf_w = 0\<rparr>;
     sh \<leftarrow> shift_chunk g (sf_w s);
     Some (\<lparr>r_v = sf_h s XOR mulmod g h_in sh, r_db = sf_db s, r_da = sf_da s, r_px = sf_px s, r_tag = sf_tag s,
            r_w = ucast (sf_w s), r_cnt = of_nat n, r_flg = sf_flg s\<rparr>, sf_h s) }"

text \<open>The running hashes, written to an array of the caller.\<close>

definition fold_chunk_tokens :: "bool \<Rightarrow> SpanTokens \<Rightarrow> u64 \<Rightarrow> u64 list \<Rightarrow> u64 list option" where
  "fold_chunk_tokens g t h_in tok =
     map_option snd (foldM (\<lambda>i (h, tok). do {
       ty \<leftarrow> read (st_ty t) i; wt \<leftarrow> read W_T (unat ty); sh \<leftarrow> shift_chunk g wt; vd \<leftarrow> read (st_vd t) i;
       let h = mulmod g h sh XOR vd;
       if i < length tok then Some (h, tok[i := h]) else None }) [0..<length (st_vd t)] (h_in, tok))"

section \<open>The closed form\<close>

text \<open>512-bit registers are lists of eight words.\<close>

definition permutexvar :: "nat list \<Rightarrow> u64 list \<Rightarrow> u64 list" where
  "permutexvar idx a = map (\<lambda>i. a ! (i mod 8)) idx"

definition clmulepi64_512 :: "u64 list \<Rightarrow> u64 list \<Rightarrow> nat \<Rightarrow> u64 list" where
  "clmulepi64_512 a b imm =
     concat (map (\<lambda>l. let p = clmul (a ! (2 * l + (if bit imm 0 then 1 else 0))) (b ! (2 * l + (if bit imm 4 then 1 else 0)))
       in [low64 p, high64 p]) [0..<4])"

definition xor512 :: "u64 list \<Rightarrow> u64 list \<Rightarrow> u64 list" where
  "xor512 a b = map2 (XOR) a b"

definition maskz_mov :: "nat \<Rightarrow> u64 list \<Rightarrow> u64 list" where
  "maskz_mov k a = map (\<lambda>i. if bit k i then a ! i else 0) [0..<8]"

text \<open>The three-step product of four operand pairs, all eight words.\<close>

definition placement :: "u64 list \<Rightarrow> u64 list" where
  "placement x = permutexvar [0, 8, 1, 9, 2, 10, 3, 11] (x @ replicate 4 0)"

definition mul4_words :: "u64 list \<Rightarrow> u64 list \<Rightarrow> u64 list" where
  "mul4_words a b =
     (let q = replicate 8 SPAN_QLOW; p = clmulepi64_512 (placement a) (placement b) 0x00;
          t = clmulepi64_512 p q 0x01; u = clmulepi64_512 t q 0x01
      in xor512 (xor512 p t) u)"

definition mulmod4x4 :: "u64 list \<Rightarrow> u64 list \<Rightarrow> u64 list" where
  "mulmod4x4 a b = (let buf = maskz_mov 0x55 (mul4_words a b) in [buf ! 0, buf ! 2, buf ! 4, buf ! 6])"

definition fold_v_step :: "bool \<Rightarrow> u64 list \<Rightarrow> u32 list \<Rightarrow> nat \<Rightarrow> u64 \<Rightarrow> u64 option" where
  "fold_v_step g vd d i v = do { x \<leftarrow> read vd i; e \<leftarrow> read d i; p \<leftarrow> read (t_pow g) (unat e); Some (v XOR mulmod g x p) }"

definition fold_v_scalar :: "bool \<Rightarrow> u64 list \<Rightarrow> u32 list \<Rightarrow> u64 option" where
  "fold_v_scalar g vd d = foldM (fold_v_step g vd d) [0..<length vd] 0"

definition mcol_step :: "bool \<Rightarrow> u32 list \<Rightarrow> nat \<Rightarrow> u64 list \<Rightarrow> u64 list option" where
  "mcol_step g d i mcol =
     (if i < CHUNK then do { e \<leftarrow> read d i; p \<leftarrow> read (t_pow g) (unat e); Some (mcol[i := p]) } else None)"

function acc_loop :: "u64 list \<Rightarrow> u64 list \<Rightarrow> nat \<Rightarrow> nat \<Rightarrow> u64 list \<Rightarrow> u64 list" where
  "acc_loop vd mcol nv i acc =
     (if i < nv
      then acc_loop vd mcol nv (i + 4) (xor512 acc (mul4_words (take 4 (drop i vd)) (take 4 (drop i mcol))))
      else acc)"
  by pat_completeness auto
termination acc_loop by (relation "measure (\<lambda>(vd, mcol, nv, i, acc). nv - i)") auto

declare acc_loop.simps [simp del]

definition fold_v_avx512 :: "bool \<Rightarrow> u64 list \<Rightarrow> u32 list \<Rightarrow> u64 option" where
  "fold_v_avx512 g vd d =
     (let n = length vd; nv = n - n mod 4
      in if nv = 0 then fold_v_scalar g vd d
         else do {
           mcol \<leftarrow> foldM (mcol_step g d) [0..<nv] (replicate CHUNK 0);
           let buf = maskz_mov 0x55 (acc_loop vd mcol nv 0 (replicate 8 0));
           foldM (fold_v_step g vd d) [nv..<n] (buf ! 0 XOR buf ! 2 XOR buf ! 4 XOR buf ! 6) })"

text \<open>The static pass: prefix degrees and the commutative coordinates.\<close>

record Static =
  sp_w :: u64
  sp_d :: "u32 list"
  sp_db :: u64
  sp_da :: u64
  sp_px :: u32
  sp_tag :: u16
  sp_flg :: u16

definition static_step ::
  "u8 list \<Rightarrow> u64 list \<Rightarrow> u64 list \<Rightarrow> u32 list \<Rightarrow> u8 list \<Rightarrow> nat \<Rightarrow> Static \<Rightarrow> Static option" where
  "static_step ty db da px setp i s = do {
     t \<leftarrow> read ty i; wt \<leftarrow> read W_T (unat t);
     let w = sp_w s + wt;
     x \<leftarrow> read db i; y \<leftarrow> read da i; e \<leftarrow> read setp i;
     if i < CHUNK
     then let s = s\<lparr>sp_w := w, sp_d := (sp_d s)[i := ucast w], sp_db := sp_db s + x, sp_da := sp_da s + y\<rparr>
          in if e \<noteq> 0
             then do { p \<leftarrow> read px i; Some (s\<lparr>sp_px := p, sp_tag := ucast w, sp_flg := sp_flg s OR FLG_SETTER\<rparr>) }
             else Some s
     else None }"

definition fold_cols ::
  "bool \<Rightarrow> bool \<Rightarrow> u8 list \<Rightarrow> u64 list \<Rightarrow> u64 list \<Rightarrow> u64 list \<Rightarrow> u32 list \<Rightarrow> u8 list \<Rightarrow> u64 \<Rightarrow> (R36 \<times> u64) option" where
  "fold_cols g avx512 ty vd db da px setp h_in =
     (let n = length ty
      in if n = 0 then Some (R36_IDENTITY, h_in)
         else do {
           s \<leftarrow> foldM (static_step ty db da px setp) [0..<n]
             \<lparr>sp_w = 0, sp_d = replicate CHUNK 0, sp_db = 0, sp_da = 0, sp_px = 0, sp_tag = 0, sp_flg = 0\<rparr>;
           let d = map (\<lambda>p. ucast (sp_w s) - p) (take n (sp_d s));
           v \<leftarrow> (if 8 \<le> n \<and> avx512 then fold_v_avx512 g vd d else fold_v_scalar g vd d);
           let rec = \<lparr>r_v = v, r_db = sp_db s, r_da = sp_da s, r_px = sp_px s, r_tag = sp_tag s,
             r_w = ucast (sp_w s), r_cnt = of_nat n, r_flg = sp_flg s\<rparr>;
           Some (rec, hash_apply g h_in rec) })"

definition fold_chunk :: "bool \<Rightarrow> bool \<Rightarrow> SpanTokens \<Rightarrow> u64 \<Rightarrow> (R36 \<times> u64) option" where
  "fold_chunk g avx512 t h_in = fold_cols g avx512 (st_ty t) (st_vd t) (st_db t) (st_da t) (st_px t) (st_setp t) h_in"

end
