(* ===== verification/SpanLaw.thy ===== *)
theory SpanLaw
  imports SpanFold
begin

text \<open>
  The chunk fold against its specification: the tables hold the powers of \<open>x\<close>, a message is a
  one-message record, a chunk is the composite of its messages in tape order, and the
  sequential, the scalar and the AVX-512 fold compute this composite.
\<close>

section \<open>Tables\<close>

lemma power_table_length [simp]: "length (power_table g m n p) = n"
  by (induction n arbitrary: p) simp_all

lemma power_table_nth: "i < n \<Longrightarrow> power_table g (xpow d) n (xpow k) ! i = xpow (k + d * i)"
proof (induction n arbitrary: i k)
  case (Suc n)
  then show ?case by (cases i) (simp_all add: xpow_mult algebra_simps)
qed simp

lemma t_pow_length [simp]: "length (t_pow g) = T_LEN"
  by (simp add: t_pow_def)

lemma t_pow_nth: "i < T_LEN \<Longrightarrow> t_pow g ! i = xpow i"
  using power_table_nth [of i T_LEN g 1 0] unfolding t_pow_def xpow_1 by simp

lemma T_LEN_value: "T_LEN = 65536"
  by (simp add: T_LEN_def)

lemma shift_chunk_power: "unat d < T_LEN \<Longrightarrow> shift_chunk g d = Some (xpow (unat d))"
  by (simp add: shift_chunk_def read_def t_pow_nth)

lemma t_hi_nth: "q < 2 ^ 16 \<Longrightarrow> t_hi g ! q = xpow (65536 * q)"
proof -
  have "mulmod g (t_pow g ! (T_LEN - 1)) 2 = xpow 65536"
    using xpow_mult [of 65535 1] unfolding xpow_1 by (simp add: t_pow_nth T_LEN_value)
  then show "q < 2 ^ 16 \<Longrightarrow> t_hi g ! q = xpow (65536 * q)"
    using power_table_nth [of q "2 ^ 16" g 65536 0] by (simp add: t_hi_def)
qed

lemma shift_pow_power:
  assumes "unat d < 2 ^ 32"
  shows "shift_pow g d = Some (xpow (unat d))"
proof -
  have hi: "unat (drop_bit 16 d) = unat d div 65536" by (simp add: drop_bit_eq_div unat_div_distrib)
  have "d AND 0xFFFF = take_bit 16 d" by (simp add: take_bit_eq_mask mask_eq_exp_minus_1)
  then have lo: "unat (d AND 0xFFFF) = unat d mod 65536" by (simp add: take_bit_eq_mod unat_mod_distrib)
  have q: "unat d div 65536 < 2 ^ 16" using assms by (simp add: less_mult_imp_div_less)
  have l: "length (t_hi g) = 2 ^ 16" by (simp add: t_hi_def)
  have r: "unat d mod 65536 < T_LEN" by (simp add: T_LEN_value)
  show ?thesis
  proof (cases "drop_bit 16 d = 0")
    case True
    then have "unat d div 65536 = 0" using hi by (metis unat_0)
    then have "unat d < 65536" by (simp add: div_eq_0_iff)
    then show ?thesis using True r by (simp add: shift_pow_def Let_def lo read_def t_pow_nth)
  next
    case False
    then show ?thesis using q r l
      by (simp add: shift_pow_def Let_def lo hi read_def t_pow_nth t_hi_nth xpow_mult)
  qed
qed

lemma order_check_passes:
  "(\<And>j. k < j \<Longrightarrow> j \<le> k + n \<Longrightarrow> xpow j \<noteq> 1) \<Longrightarrow> order_check g n (xpow k) = Some ()"
proof (induction n arbitrary: k)
  case (Suc n)
  have m: "mulmod g (xpow k) 2 = xpow (Suc k)" using xpow_mult [of k 1] unfolding xpow_1 by simp
  have "order_check g n (xpow (Suc k)) = Some ()" by (rule Suc.IH) (use Suc.prems in auto)
  then show ?case using Suc.prems [of "Suc k"] unfolding order_check.simps Let_def m by simp
qed simp

lemma xpow_iterate: "xpow k = (mulmod g 2 ^^ k) 1"
proof (induction k)
  case (Suc k)
  have "xpow (Suc k) = gmul 2 (xpow k)" using xpow_mult [of 1 k] unfolding xpow_1 by simp
  then show ?case using Suc by simp
qed simp

text \<open>(The power tables initialise.)  The initialisation of the power table never panics: no power of \<open>x\<close> below
  2 to the 21 is one.  The table then holds the powers of \<open>x\<close>, and the two-level shift is the power
  for every degree of 32 bits.\<close>

theorem power_table_initialises:
  "(\<exists>t. t_pow_init g = Some t \<and> length t = 65536 \<and> (\<forall>k < 65536. t ! k = (mulmod g 2 ^^ k) 1)) \<and>
   (\<forall>d. unat d < 2 ^ 32 \<longrightarrow> shift_pow g d = Some ((mulmod g 2 ^^ unat d) 1))"
proof -
  have "order_check g (ORD_FLOOR - 1) (xpow 0) = Some ()"
  proof (rule order_check_passes)
    fix j :: nat
    assume "0 < j" "j \<le> 0 + (ORD_FLOOR - 1)"
    then show "xpow j \<noteq> 1" by (intro xpow_not_one) (simp_all add: ORD_FLOOR_def)
  qed
  then have "t_pow_init g = Some (t_pow g)" by (simp add: t_pow_init_def Let_def)
  then show ?thesis by (simp add: xpow_iterate [of _ g, symmetric] shift_pow_power t_pow_nth T_LEN_value)
qed

theorem power_table_initialises_witness:
  "(\<exists>t. t_pow_init True = Some t \<and> t ! 3 = (mulmod True 2 ^^ 3) 1) \<and>
   shift_pow True 70000 = Some ((mulmod True 2 ^^ 70000) 1)"
proof -
  have "unat (70000 :: u64) < 2 ^ 32" "unat (70000 :: u64) = 70000" by simp_all
  then show ?thesis using power_table_initialises [of True] by (metis numeral_less_iff semiring_norm(76,77,78,80,81))
qed

section \<open>The accumulator monoid\<close>

lemma setter_bit [simp]: "x AND FLG_SETTER = 0 \<longleftrightarrow> \<not> bit x 0"
  by (simp add: FLG_SETTER_def and_one_eq bit_0 even_iff_mod_2_eq_zero)

lemma setter_bits [simp]: "bit FLG_SETTER 0" "bit (x OR y :: u16) 0 \<longleftrightarrow> bit x 0 \<or> bit y 0"
  by (simp_all add: FLG_SETTER_def bit_or_iff)

lemma p64_compose_gate: "p64_compose g = p64_compose True"
  by (intro ext) (simp add: p64_compose_def)

interpretation accumulator: segment_semigroup "p64_compose g" for g
proof unfold_locales
  fix a b c :: P64
  show "p64_compose g (p64_compose g a b) c = p64_compose g a (p64_compose g b c)"
    unfolding p64_compose_def Let_def mulmod_ring
    by (simp add: split_def gmul_xor_left gmul_assoc xor.assoc or.assoc add.assoc)
qed

text \<open>A record without a setter has no price.\<close>

definition price_ok :: "P64 \<Rightarrow> bool" where
  "price_ok r \<longleftrightarrow> (p_flg r AND FLG_SETTER = 0 \<longrightarrow> p_px r = 0 \<and> p_tag r = 0)"

lemma compose_identity_left: "price_ok r \<Longrightarrow> p64_compose g P64_IDENTITY r = r"
  by (auto simp: p64_compose_def P64_IDENTITY_def price_ok_def)

lemma compose_identity_right: "p64_compose g r P64_IDENTITY = r"
  by (simp add: p64_compose_def P64_IDENTITY_def)

definition composite :: "P64 list \<Rightarrow> P64" where
  "composite rs = foldl (p64_compose True) P64_IDENTITY rs"

lemma composite_simps [simp]: "composite [] = P64_IDENTITY" "composite (rs @ [r]) = p64_compose True (composite rs) r"
  by (simp_all add: composite_def)

lemma composite_append:
  assumes "\<forall>r \<in> set ss. price_ok r"
  shows "composite (rs @ ss) = p64_compose True (composite rs) (composite ss)"
  using assms
proof (induction ss rule: rev_induct)
  case Nil
  then show ?case by (simp add: compose_identity_right)
next
  case (snoc s ss)
  have "composite (rs @ ss @ [s]) = p64_compose True (composite (rs @ ss)) s" by (simp add: composite_def)
  then show ?case using snoc by (simp add: accumulator.assoc)
qed

lemma price_ok_compose: "price_ok a \<Longrightarrow> price_ok b \<Longrightarrow> price_ok (p64_compose g a b)"
  by (auto simp: price_ok_def p64_compose_def Let_def)

lemma price_ok_composite: "\<forall>r \<in> set rs. price_ok r \<Longrightarrow> price_ok (composite rs)"
proof (induction rs rule: rev_induct)
  case Nil
  then show ?case by (simp add: price_ok_def P64_IDENTITY_def)
qed (simp add: price_ok_compose)

lemma composite_joined: "\<forall>r \<in> set rs. price_ok r \<Longrightarrow> rs \<noteq> [] \<Longrightarrow> accumulator.joined True rs = composite rs"
  by (cases rs) (simp_all add: accumulator.joined_foldl composite_def compose_identity_left)

section \<open>Messages\<close>

text \<open>The width of a message and its one-message record.\<close>

definition width :: "SpanTokens \<Rightarrow> nat \<Rightarrow> nat" where
  "width t i = unat (W_T ! unat (st_ty t ! i))"

definition message_record :: "SpanTokens \<Rightarrow> nat \<Rightarrow> P64" where
  "message_record t i =
     (let s = (st_setp t ! i \<noteq> 0)
      in \<lparr>p_v = st_vd t ! i, p_c = xpow (width t i), p_db = st_db t ! i, p_da = st_da t ! i,
          p_px = (if s then st_px t ! i else 0), p_tag = (if s then of_nat (width t i) else 0),
          p_deg = of_nat (width t i), p_cnt = 1, p_flg = (if s then FLG_SETTER else 0)\<rparr>)"

abbreviation span_to :: "SpanTokens \<Rightarrow> nat \<Rightarrow> P64" where
  "span_to t k \<equiv> composite (map (message_record t) [0..<k])"

primrec span_width :: "SpanTokens \<Rightarrow> nat \<Rightarrow> nat" where
  "span_width t 0 = 0"
| "span_width t (Suc k) = span_width t k + width t k"

text \<open>Columns of equal length with valid type indices.\<close>

definition columns_ok :: "SpanTokens \<Rightarrow> bool" where
  "columns_ok t \<longleftrightarrow> (let n = length (st_vd t) in length (st_ty t) = n \<and> length (st_db t) = n \<and> length (st_da t) = n \<and>
     length (st_px t) = n \<and> length (st_setp t) = n \<and> (\<forall>i < n. unat (st_ty t ! i) < 10))"

lemma message_record_sel [simp]:
  "p_v (message_record t i) = st_vd t ! i" "p_c (message_record t i) = xpow (width t i)"
  "p_db (message_record t i) = st_db t ! i" "p_da (message_record t i) = st_da t ! i"
  "p_deg (message_record t i) = of_nat (width t i)" "p_cnt (message_record t i) = 1"
  by (simp_all add: message_record_def Let_def)

lemma price_ok_message: "price_ok (message_record t i)"
  by (simp add: price_ok_def message_record_def Let_def)

lemma compose_sel [simp]:
  "p_v (p64_compose g a b) = gmul (p_v a) (p_c b) XOR p_v b" "p_c (p64_compose g a b) = gmul (p_c a) (p_c b)"
  "p_db (p64_compose g a b) = p_db a + p_db b" "p_da (p64_compose g a b) = p_da a + p_da b"
  "p_deg (p64_compose g a b) = p_deg a + p_deg b" "p_cnt (p64_compose g a b) = p_cnt a + p_cnt b"
  "p_flg (p64_compose g a b) = p_flg a OR p_flg b"
  "p_px (p64_compose g a b) = (if p_flg b AND FLG_SETTER \<noteq> 0 then p_px b else p_px a)"
  "p_tag (p64_compose g a b) = (if p_flg b AND FLG_SETTER \<noteq> 0 then p_deg a + p_tag b else p_tag a)"
  by (simp_all add: p64_compose_def Let_def)

lemma span_scalars:
  "p_c (span_to t k) = xpow (span_width t k)" "p_deg (span_to t k) = of_nat (span_width t k)" "p_cnt (span_to t k) = of_nat k"
  by (induction k) (simp_all add: P64_IDENTITY_def xpow_mult)

lemma width_bound: "width t i \<le> 43" if "unat (st_ty t ! i) < 10"
proof -
  have "unat (st_ty t ! i) \<in> {0, 1, 2, 3, 4, 5, 6, 7, 8, 9}" using that by auto
  then show ?thesis by (auto simp: width_def W_T_def)
qed

lemma span_width_bound: "\<forall>i < k. unat (st_ty t ! i) < 10 \<Longrightarrow> span_width t k \<le> 43 * k"
proof (induction k)
  case (Suc k)
  then show ?case using width_bound [of t k] by force
qed simp

lemma span_width_mono: "j \<le> k \<Longrightarrow> span_width t j \<le> span_width t k"
  by (induction k) (auto simp: le_Suc_eq)

section \<open>Loops over columns\<close>

lemma foldM_snoc: "foldM f (xs @ [x]) s = Option.bind (foldM f xs s) (f x)"
proof (induction xs arbitrary: s)
  case (Cons y ys)
  then show ?case by (cases "f y s") simp_all
next
  case Nil
  then show ?case by (cases "f x s") simp_all
qed

lemma foldM_upt: "foldM f [0..<Suc k] s = Option.bind (foldM f [0..<k] s) (f k)"
  using foldM_snoc [of f "[0..<k]" k s] by simp

text \<open>A loop that follows a description of its states.\<close>

lemma foldM_states:
  assumes "\<And>k. k < n \<Longrightarrow> f k (st k) = Some (st (Suc k))" "s = st 0" "k \<le> n"
  shows "foldM f [0..<k] s = Some (st k)"
  using assms(3)
proof (induction k)
  case (Suc k)
  then show ?case using assms(1) [of k] unfolding foldM_upt by simp
qed (simp add: assms(2))

lemma foldM_states_from:
  assumes "\<And>k. m \<le> k \<Longrightarrow> k < n \<Longrightarrow> f k (st k) = Some (st (Suc k))" "m \<le> n"
  shows "foldM f [m..<n] (st m) = Some (st n)"
proof -
  have "foldM f [m..<m + j] (st m) = Some (st (m + j))" if "m + j \<le> n" for j
    using that
  proof (induction j)
    case (Suc j)
    have "foldM f [m..<m + Suc j] (st m) = Option.bind (foldM f [m..<m + j] (st m)) (f (m + j))"
      using foldM_snoc [of f "[m..<m + j]" "m + j"] by simp
    then show ?case using Suc assms(1) [of "m + j"] by simp
  qed simp
  from this [of "n - m"] show ?thesis using assms(2) by simp
qed

lemma read_nth [simp]: "i < length xs \<Longrightarrow> read xs i = Some (xs ! i)"
  by (simp add: read_def)

lemma columns_okD:
  assumes "columns_ok t" "i < length (st_vd t)"
  shows "read (st_ty t) i = Some (st_ty t ! i)" "read (st_vd t) i = Some (st_vd t ! i)" "read (st_db t) i = Some (st_db t ! i)"
    "read (st_da t) i = Some (st_da t ! i)" "read (st_px t) i = Some (st_px t ! i)" "read (st_setp t) i = Some (st_setp t ! i)"
    "read W_T (unat (st_ty t ! i)) = Some (of_nat (width t i))" "width t i \<le> 43"
proof -
  have "length W_T = 10" by (simp add: W_T_def)
  then show "read (st_ty t) i = Some (st_ty t ! i)" "read (st_vd t) i = Some (st_vd t ! i)" "read (st_db t) i = Some (st_db t ! i)"
    "read (st_da t) i = Some (st_da t ! i)" "read (st_px t) i = Some (st_px t ! i)" "read (st_setp t) i = Some (st_setp t ! i)"
    "read W_T (unat (st_ty t ! i)) = Some (of_nat (width t i))" "width t i \<le> 43"
    using assms width_bound [of t i] by (simp_all add: columns_ok_def Let_def width_def)
qed

lemma of_nat_width: "columns_ok t \<Longrightarrow> i < length (st_vd t) \<Longrightarrow> unat (of_nat (width t i) :: u64) = width t i"
  using columns_okD(8) [of t i] by (simp add: unat_of_nat)

section \<open>The sequential fold\<close>

definition seq_state :: "SpanTokens \<Rightarrow> u64 \<Rightarrow> nat \<Rightarrow> SeqFold" where
  "seq_state t h k = (let r = span_to t k in
     \<lparr>sf_h = gmul h (p_c r) XOR p_v r, sf_db = p_db r, sf_da = p_da r, sf_px = p_px r, sf_tag = ucast (p_tag r),
      sf_flg = p_flg r, sf_w = of_nat (span_width t k)\<rparr>)"

lemma ucast_of_nat_16 [simp]: "ucast (of_nat n :: u32) = (of_nat n :: u16)" "ucast (of_nat n :: u64) = (of_nat n :: u16)"
  by (simp_all add: word_unat_eq_iff unat_of_nat unsigned_ucast_eq take_bit_eq_mod mod_mod_cancel)

lemma span_Suc: "span_to t (Suc k) = p64_compose True (span_to t k) (message_record t k)"
  by simp

lemma compose_message:
  "p64_compose True r (message_record t k) =
     (let s = st_setp t ! k \<noteq> 0
      in \<lparr>p_v = gmul (p_v r) (xpow (width t k)) XOR st_vd t ! k, p_c = gmul (p_c r) (xpow (width t k)),
          p_db = p_db r + st_db t ! k, p_da = p_da r + st_da t ! k, p_px = (if s then st_px t ! k else p_px r),
          p_tag = (if s then p_deg r + of_nat (width t k) else p_tag r), p_deg = p_deg r + of_nat (width t k),
          p_cnt = p_cnt r + 1, p_flg = (if s then p_flg r OR FLG_SETTER else p_flg r)\<rparr>)"
  by (simp add: p64_compose_def message_record_def Let_def)

lemma seq_step_state:
  assumes "columns_ok t" "k < length (st_vd t)"
  shows "seq_step g t k (seq_state t h k) = Some (seq_state t h (Suc k))"
proof -
  have w: "unat (of_nat (width t k) :: u64) = width t k" using assms by (rule of_nat_width)
  have s: "shift_chunk g (of_nat (width t k)) = Some (xpow (width t k))"
    using shift_chunk_power [of "of_nat (width t k)" g] columns_okD(8) [OF assms] unfolding w by (simp add: T_LEN_value)
  have tag: "ucast (of_nat a + of_nat b :: u64) = (of_nat (a + b) :: u16)" "ucast (of_nat a + of_nat b :: u32) = (of_nat (a + b) :: u16)" for a b
    unfolding of_nat_add [symmetric] by (simp_all only: ucast_of_nat_16)
  show ?thesis
    unfolding seq_state_def span_Suc compose_message
    by (cases "st_setp t ! k = 0")
      (simp_all add: seq_step_def columns_okD [OF assms] Let_def s span_scalars gmul_xor_left gmul_assoc xpow_mult xor.assoc tag
        del: upt_Suc)
qed

text \<open>The chunk record of an accumulator.\<close>

definition r36_of :: "P64 \<Rightarrow> R36" where
  "r36_of r = \<lparr>r_v = p_v r, r_db = p_db r, r_da = p_da r, r_px = p_px r, r_tag = ucast (p_tag r), r_w = ucast (p_deg r),
     r_cnt = ucast (p_cnt r), r_flg = p_flg r\<rparr>"

lemma fold_sequential_composite:
  assumes "columns_ok t" "span_width t (length (st_vd t)) < 65536"
  shows "fold_chunk_sequential g t h = Some (let r = span_to t (length (st_vd t)) in (r36_of r, gmul h (p_c r) XOR p_v r))"
proof -
  let ?n = "length (st_vd t)"
  have l: "foldM (seq_step g t) [0..<?n] (seq_state t h 0) = Some (seq_state t h ?n)"
    using seq_step_state [OF assms(1)] by (intro foldM_states [where n = ?n]) simp_all
  have i: "seq_state t h 0 = \<lparr>sf_h = h, sf_db = 0, sf_da = 0, sf_px = 0, sf_tag = 0, sf_flg = 0, sf_w = 0\<rparr>"
    by (simp add: seq_state_def P64_IDENTITY_def)
  have w: "unat (of_nat (span_width t ?n) :: u64) = span_width t ?n" using assms(2) by (simp add: unat_of_nat)
  have s: "shift_chunk g (of_nat (span_width t ?n)) = Some (xpow (span_width t ?n))"
    using shift_chunk_power [of "of_nat (span_width t ?n)" g] assms(2) unfolding w by (simp add: T_LEN_value)
  have x: "(gmul h c XOR v) XOR gmul h c = v" for c v by (simp add: ac_simps)
  show ?thesis
    unfolding fold_chunk_sequential_def Let_def l [unfolded i]
    by (simp add: seq_state_def Let_def s span_scalars r36_of_def x)
qed

section \<open>The static pass\<close>

definition static_state :: "SpanTokens \<Rightarrow> nat \<Rightarrow> Static" where
  "static_state t k = (let r = span_to t k in
     \<lparr>sp_w = of_nat (span_width t k), sp_d = map (\<lambda>i. of_nat (span_width t (Suc i))) [0..<k] @ replicate (CHUNK - k) 0,
      sp_db = p_db r, sp_da = p_da r, sp_px = p_px r, sp_tag = ucast (p_tag r), sp_flg = p_flg r\<rparr>)"

lemma static_step_state:
  assumes "columns_ok t" "k < length (st_vd t)" "k < CHUNK"
  shows "static_step (st_ty t) (st_db t) (st_da t) (st_px t) (st_setp t) k (static_state t k) = Some (static_state t (Suc k))"
proof -
  have tag: "ucast (of_nat a + of_nat b :: u64) = (of_nat (a + b) :: u16)" "ucast (of_nat a + of_nat b :: u32) = (of_nat (a + b) :: u16)"
    "ucast (of_nat a + of_nat b :: u64) = (of_nat (a + b) :: u32)" for a b
    unfolding of_nat_add [symmetric]
    by (simp_all only: ucast_of_nat_16) (simp add: word_unat_eq_iff unat_of_nat unsigned_ucast_eq take_bit_eq_mod mod_mod_cancel del: of_nat_add)
  have d: "(map f [0..<k] @ replicate (CHUNK - k) 0)[k := f k] = map f [0..<Suc k] @ replicate (CHUNK - Suc k) 0" for f :: "nat \<Rightarrow> u32"
  proof -
    have "replicate (CHUNK - k) 0 = 0 # replicate (CHUNK - Suc k) (0 :: u32)"
      using assms(3) by (metis Suc_diff_Suc replicate_Suc)
    then show ?thesis by (simp add: list_update_append)
  qed
  show ?thesis
    unfolding static_state_def span_Suc compose_message
    by (cases "st_setp t ! k = 0")
      (simp_all add: static_step_def columns_okD [OF assms(1,2)] Let_def assms(3) tag d [symmetric] span_scalars del: upt_Suc)
qed

section \<open>The sum of shifted digests\<close>

primrec xsum :: "(nat \<Rightarrow> u64) \<Rightarrow> nat \<Rightarrow> u64" where
  "xsum f 0 = 0"
| "xsum f (Suc n) = xsum f n XOR f n"

lemma xsum_cong: "(\<And>i. i < n \<Longrightarrow> f i = g i) \<Longrightarrow> xsum f n = xsum g n"
  by (induction n) simp_all

lemma xsum_gmul: "gmul (xsum f n) c = xsum (\<lambda>i. gmul (f i) c) n"
  by (induction n) (simp_all add: gmul_xor_left)

text \<open>The suffix formula: the digest of message \<open>i\<close> is shifted by the width of what follows it.\<close>

lemma span_suffix_sum:
  "p_v (span_to t k) = xsum (\<lambda>i. gmul (st_vd t ! i) (xpow (span_width t k - span_width t (Suc i)))) k"
proof (induction k)
  case 0
  then show ?case by (simp add: P64_IDENTITY_def)
next
  case (Suc k)
  have "gmul (gmul (st_vd t ! i) (xpow (span_width t k - span_width t (Suc i)))) (xpow (width t k))
      = gmul (st_vd t ! i) (xpow (span_width t (Suc k) - span_width t (Suc i)))" if "i < k" for i
    using span_width_mono [of "Suc i" k t] that by (simp add: gmul_assoc xpow_mult)
  then have "gmul (p_v (span_to t k)) (xpow (width t k))
      = xsum (\<lambda>i. gmul (st_vd t ! i) (xpow (span_width t (Suc k) - span_width t (Suc i)))) k"
    unfolding Suc xsum_gmul by (rule xsum_cong)
  then show ?case unfolding span_Suc compose_message by (simp add: Let_def)
qed

lemma fold_v_sum:
  assumes "length vd \<le> length d" "\<And>i. i < length vd \<Longrightarrow> unat (d ! i) < T_LEN" "m \<le> length vd"
  shows "foldM (fold_v_step g vd d) [m..<length vd] (xsum (\<lambda>i. gmul (vd ! i) (xpow (unat (d ! i)))) m)
    = Some (xsum (\<lambda>i. gmul (vd ! i) (xpow (unat (d ! i)))) (length vd))"
proof (rule foldM_states_from [OF _ assms(3)])
  fix k
  assume k: "k < length vd"
  then show "fold_v_step g vd d k (xsum (\<lambda>i. gmul (vd ! i) (xpow (unat (d ! i)))) k)
      = Some (xsum (\<lambda>i. gmul (vd ! i) (xpow (unat (d ! i)))) (Suc k))"
    using assms(1) assms(2) [OF k] by (simp add: fold_v_step_def t_pow_nth)
qed

lemma fold_v_scalar_sum:
  assumes "length vd \<le> length d" "\<And>i. i < length vd \<Longrightarrow> unat (d ! i) < T_LEN"
  shows "fold_v_scalar g vd d = Some (xsum (\<lambda>i. gmul (vd ! i) (xpow (unat (d ! i)))) (length vd))"
  using fold_v_sum [OF assms, of 0 g] by (simp add: fold_v_scalar_def)

section \<open>Four products at a time\<close>

lemma length4_cases:
  assumes "length (x :: 'a list) = 4"
  obtains a b c d where "x = [a, b, c, d]"
  using assms by (auto simp: numeral_eq_Suc length_Suc_conv)

lemma upt_4: "[0..<4] = [0, 1, 2, 3 :: nat]"
  by (simp add: upt_rec)

lemma upt_8: "[0..<8] = [0, 1, 2, 3, 4, 5, 6, 7 :: nat]"
  by (simp add: upt_rec)

lemma clmulepi64_512_length [simp]: "length (clmulepi64_512 a b imm) = 8"
  by (simp add: clmulepi64_512_def upt_4 Let_def)

lemma mul4_words_length [simp]: "length (mul4_words a b) = 8"
  by (simp add: mul4_words_def Let_def xor512_def)

lemma mul4_words_nth:
  assumes "length a = 4" "length b = 4" "l < 4"
  shows "mul4_words a b ! (2 * l) = gmul (a ! l) (b ! l)"
proof -
  obtain a0 a1 a2 a3 where a: "a = [a0, a1, a2, a3]" using assms(1) by (rule length4_cases)
  obtain b0 b1 b2 b3 where b: "b = [b0, b1, b2, b3]" using assms(2) by (rule length4_cases)
  have imm: "\<not> bit (0 :: nat) n" "bit (1 :: nat) 0" "bit (Suc 0) 0" "\<not> bit (1 :: nat) 4" "\<not> bit (Suc 0) 4" for n
    by (simp_all add: bit_0 bit_simps)
  have pl: "placement [x0, x1, x2, x3] = [x0, x0, x1, x1, x2, x2, x3, x3]" for x0 x1 x2 x3
    by (simp add: placement_def permutexvar_def)
  have q: "replicate 8 x = [x, x, x, x, x, x, x, x]" for x :: u64 by (simp add: numeral_eq_Suc)
  have p: "clmulepi64_512 (placement a) (placement b) 0 =
    [low64 (clmul a0 b0), high64 (clmul a0 b0), low64 (clmul a1 b1), high64 (clmul a1 b1),
     low64 (clmul a2 b2), high64 (clmul a2 b2), low64 (clmul a3 b3), high64 (clmul a3 b3)]"
    by (simp add: clmulepi64_512_def a b pl upt_4 imm Let_def)
  have t: "clmulepi64_512 [x0, x1, x2, x3, x4, x5, x6, x7] (replicate 8 q) 1 =
    [low64 (clmul x1 q), high64 (clmul x1 q), low64 (clmul x3 q), high64 (clmul x3 q),
     low64 (clmul x5 q), high64 (clmul x5 q), low64 (clmul x7 q), high64 (clmul x7 q)]" for x0 x1 x2 x3 x4 x5 x6 x7 q
    unfolding q clmulepi64_512_def upt_4 by (simp add: imm Let_def)
  have "l \<in> {0, 1, 2, 3}" using assms(3) by auto
  then show ?thesis
    unfolding mulmod_clmul_ring [symmetric] mul4_words_def Let_def p t
    by (auto simp: xor512_def a b mulmod_clmul_def Let_def xor.assoc)
qed

text \<open>The four result words of a register.\<close>

definition evens :: "u64 list \<Rightarrow> u64" where
  "evens x = x ! 0 XOR x ! 2 XOR x ! 4 XOR x ! 6"

lemma evens_maskz: "evens (maskz_mov 0x55 x) = evens x"
  by (simp add: evens_def maskz_mov_def upt_8 bit_simps)

lemma evens_xor: "length x = 8 \<Longrightarrow> length y = 8 \<Longrightarrow> evens (xor512 x y) = evens x XOR evens y"
  by (simp add: evens_def xor512_def ac_simps)

lemma evens_mul4:
  assumes "length a = 4" "length b = 4"
  shows "evens (mul4_words a b) = xsum (\<lambda>l. gmul (a ! l) (b ! l)) 4"
  using mul4_words_nth [OF assms, of 0] mul4_words_nth [OF assms, of 1] mul4_words_nth [OF assms, of 2] mul4_words_nth [OF assms, of 3]
  by (simp add: evens_def numeral_eq_Suc xor.assoc)

lemma xsum_add: "xsum f (m + n) = xsum f m XOR xsum (\<lambda>i. f (m + i)) n"
  by (induction n) (simp_all add: xor.assoc)

lemma acc_loop_sum:
  assumes "length acc = 8" "4 dvd nv - i" "i \<le> nv" "nv \<le> length vd" "nv \<le> length mcol"
  shows "length (acc_loop vd mcol nv i acc) = 8 \<and>
    evens (acc_loop vd mcol nv i acc) = evens acc XOR xsum (\<lambda>l. gmul (vd ! (i + l)) (mcol ! (i + l))) (nv - i)"
  using assms
proof (induction vd mcol nv i acc rule: acc_loop.induct)
  case (1 vd mcol nv i acc)
  show ?case
  proof (cases "i < nv")
    case False
    then show ?thesis using 1(2) by (subst (1 2) acc_loop.simps) simp
  next
    case True
    then have i: "i + 4 \<le> nv" using dvd_imp_le [OF 1(3)] by simp
    let ?w = "mul4_words (take 4 (drop i vd)) (take 4 (drop i mcol))"
    have e: "evens (xor512 acc ?w) = evens acc XOR xsum (\<lambda>l. gmul (vd ! (i + l)) (mcol ! (i + l))) 4"
    proof -
      have "evens ?w = xsum (\<lambda>l. gmul (take 4 (drop i vd) ! l) (take 4 (drop i mcol) ! l)) 4"
        using i 1(5,6) by (intro evens_mul4) simp_all
      also have "\<dots> = xsum (\<lambda>l. gmul (vd ! (i + l)) (mcol ! (i + l))) 4"
        using i 1(5,6) by (intro xsum_cong) simp
      finally show ?thesis using 1(2) by (simp add: evens_xor)
    qed
    have "4 dvd nv - (i + 4)" using 1(3) i by (metis diff_diff_left dvd_diff_nat dvd_refl)
    then have ih: "length (acc_loop vd mcol nv (i + 4) (xor512 acc ?w)) = 8 \<and>
      evens (acc_loop vd mcol nv (i + 4) (xor512 acc ?w))
        = evens (xor512 acc ?w) XOR xsum (\<lambda>l. gmul (vd ! (i + 4 + l)) (mcol ! (i + 4 + l))) (nv - (i + 4))"
      using 1(1) [OF True] 1(2,5,6) i by (simp add: xor512_def)
    have "xsum (\<lambda>l. gmul (vd ! (i + l)) (mcol ! (i + l))) (nv - i)
      = xsum (\<lambda>l. gmul (vd ! (i + l)) (mcol ! (i + l))) 4 XOR
        xsum (\<lambda>l. gmul (vd ! (i + 4 + l)) (mcol ! (i + 4 + l))) (nv - (i + 4))"
      using xsum_add [of "\<lambda>l. gmul (vd ! (i + l)) (mcol ! (i + l))" 4 "nv - (i + 4)"] i by (simp add: add.assoc)
    then show ?thesis using ih e True by (simp add: acc_loop.simps [of vd mcol nv i acc] xor.assoc)
  qed
qed

lemma mcol_loop:
  assumes "nv \<le> CHUNK" "nv \<le> length d" "\<And>i. i < nv \<Longrightarrow> unat (d ! i) < T_LEN"
  shows "foldM (mcol_step g d) [0..<nv] (replicate CHUNK 0)
    = Some (map (\<lambda>i. xpow (unat (d ! i))) [0..<nv] @ replicate (CHUNK - nv) 0)"
proof -
  let ?st = "\<lambda>k. map (\<lambda>i. xpow (unat (d ! i))) [0..<k] @ replicate (CHUNK - k) 0"
  have "mcol_step g d k (?st k) = Some (?st (Suc k))" if k: "k < nv" for k
  proof -
    have "replicate (CHUNK - k) 0 = 0 # replicate (CHUNK - Suc k) (0 :: u64)"
      using k assms(1) by (metis Suc_diff_Suc replicate_Suc less_le_trans)
    then have "(?st k)[k := xpow (unat (d ! k))] = ?st (Suc k)" by (simp add: list_update_append)
    then show ?thesis using k assms by (simp add: mcol_step_def t_pow_nth del: upt_Suc)
  qed
  then show ?thesis by (intro foldM_states [where n = nv and st = ?st]) simp_all
qed

lemma fold_v_avx512_sum:
  assumes "length vd \<le> length d" "length vd \<le> CHUNK" "\<And>i. i < length vd \<Longrightarrow> unat (d ! i) < T_LEN"
  shows "fold_v_avx512 g vd d = Some (xsum (\<lambda>i. gmul (vd ! i) (xpow (unat (d ! i)))) (length vd))"
proof (cases "length vd - length vd mod 4 = 0")
  case True
  then show ?thesis using fold_v_scalar_sum [OF assms(1,3)] by (simp add: fold_v_avx512_def)
next
  case False
  let ?nv = "length vd - length vd mod 4" and ?f = "\<lambda>i. gmul (vd ! i) (xpow (unat (d ! i)))"
  have nv: "?nv \<le> length vd" "4 dvd ?nv - 0" by (simp_all add: dvd_minus_mod)
  define mcol where "mcol = map (\<lambda>i. xpow (unat (d ! i))) [0..<?nv] @ replicate (CHUNK - ?nv) 0"
  have m: "foldM (mcol_step g d) [0..<?nv] (replicate CHUNK 0) = Some mcol"
    unfolding mcol_def using nv assms by (intro mcol_loop) auto
  let ?acc = "acc_loop vd mcol ?nv 0 (replicate 8 0)"
  have "evens ?acc = evens (replicate 8 0) XOR xsum (\<lambda>l. gmul (vd ! (0 + l)) (mcol ! (0 + l))) (?nv - 0)"
    using acc_loop_sum [of "replicate 8 0" ?nv 0 vd mcol] nv by (simp add: mcol_def)
  also have "\<dots> = xsum ?f ?nv"
  proof -
    have "xsum (\<lambda>l. gmul (vd ! (0 + l)) (mcol ! (0 + l))) (?nv - 0) = xsum ?f ?nv"
      unfolding diff_zero by (rule xsum_cong) (simp add: mcol_def nth_append)
    then show ?thesis by (simp add: evens_def)
  qed
  finally have e: "evens (maskz_mov 0x55 ?acc) = xsum ?f ?nv" unfolding evens_maskz .
  show ?thesis
    using False fold_v_sum [OF assms(1,3) nv(1), of g] e
    by (simp add: fold_v_avx512_def Let_def m evens_def)
qed

section \<open>The chunk fold\<close>

lemma of_nat_diff_u32: "m \<le> n \<Longrightarrow> n < 4294967296 \<Longrightarrow> unat (of_nat n - of_nat m :: u32) = n - m"
proof -
  assume mn: "m \<le> n" "n < 4294967296"
  then have e: "of_nat n - of_nat m = (of_nat (n - m) :: u32)" by (simp add: of_nat_diff)
  show "unat (of_nat n - of_nat m :: u32) = n - m" unfolding e unat_of_nat using mn by simp
qed

lemma ucast_of_nat_32 [simp]: "ucast (of_nat n :: u64) = (of_nat n :: u32)"
  by (simp add: word_unat_eq_iff unat_of_nat unsigned_ucast_eq take_bit_eq_mod mod_mod_cancel)

lemma c_of_power: "unat (r_w r) < T_LEN \<Longrightarrow> c_of g r = xpow (unat (r_w r))"
  by (simp add: c_of_def t_pow_nth)

lemma fold_cols_composite:
  assumes "columns_ok t" "length (st_vd t) \<le> CHUNK"
  shows "fold_chunk g avx512 t h = Some (let r = span_to t (length (st_vd t)) in (r36_of r, gmul h (p_c r) XOR p_v r))"
proof (cases "st_ty t = []")
  case True
  then have "length (st_vd t) = 0" using assms(1) by (simp add: columns_ok_def Let_def)
  then show ?thesis using True
    by (simp add: fold_chunk_def fold_cols_def P64_IDENTITY_def R36_IDENTITY_def r36_of_def)
next
  case False
  let ?n = "length (st_vd t)" and ?r = "span_to t (length (st_vd t))"
  have n: "length (st_ty t) = ?n" "?n \<noteq> 0" using assms(1) False by (auto simp: columns_ok_def Let_def)
  have W: "span_width t ?n \<le> 43 * ?n" using assms(1) by (intro span_width_bound) (simp add: columns_ok_def Let_def)
  then have W16: "span_width t ?n < 65536" using assms(2) by (simp add: CHUNK_def)
  have l: "foldM (static_step (st_ty t) (st_db t) (st_da t) (st_px t) (st_setp t)) [0..<?n] (static_state t 0) = Some (static_state t ?n)"
    using static_step_state [OF assms(1)] assms(2) by (intro foldM_states [where n = ?n]) simp_all
  have i: "static_state t 0 = \<lparr>sp_w = 0, sp_d = replicate CHUNK 0, sp_db = 0, sp_da = 0, sp_px = 0, sp_tag = 0, sp_flg = 0\<rparr>"
    by (simp add: static_state_def P64_IDENTITY_def)
  let ?d = "map (\<lambda>p. ucast (sp_w (static_state t ?n)) - p) (take ?n (sp_d (static_state t ?n)))"
  have dl: "length ?d = ?n" using assms(2) by (simp add: static_state_def Let_def)
  have dn: "unat (?d ! k) = span_width t ?n - span_width t (Suc k)" if "k < ?n" for k
  proof -
    have e: "?d ! k = of_nat (span_width t ?n) - of_nat (span_width t (Suc k))"
      using that by (simp add: static_state_def Let_def nth_append del: upt_Suc span_width.simps of_nat_Suc)
    have "span_width t (Suc k) \<le> span_width t ?n" using that by (intro span_width_mono) simp
    then show ?thesis unfolding e using W16 by (intro of_nat_diff_u32) simp_all
  qed
  have dt: "unat (?d ! k) < T_LEN" if "k < ?n" for k using dn [OF that] W16 by (simp add: T_LEN_value)
  have v: "xsum (\<lambda>k. gmul (st_vd t ! k) (xpow (unat (?d ! k)))) ?n = p_v ?r"
    unfolding span_suffix_sum using dn by (intro xsum_cong) simp
  have fv: "(if 8 \<le> ?n \<and> avx512 then fold_v_avx512 g (st_vd t) ?d else fold_v_scalar g (st_vd t) ?d) = Some (p_v ?r)"
    using fold_v_avx512_sum [of "st_vd t" ?d g] fold_v_scalar_sum [of "st_vd t" ?d g] dl dt v assms(2) by simp
  have rw: "unat (of_nat (span_width t ?n) :: u16) = span_width t ?n" using W16 by (simp add: unat_of_nat)
  have c: "c_of g r = xpow (span_width t ?n)" if "r_w r = of_nat (span_width t ?n)" for r
    using c_of_power [of r g] that rw W16 by (simp add: T_LEN_value)
  have rec: "\<lparr>r_v = p_v ?r, r_db = sp_db (static_state t ?n), r_da = sp_da (static_state t ?n), r_px = sp_px (static_state t ?n),
      r_tag = sp_tag (static_state t ?n), r_w = ucast (sp_w (static_state t ?n)), r_cnt = of_nat ?n, r_flg = sp_flg (static_state t ?n)\<rparr>
    = r36_of ?r"
    by (simp add: static_state_def Let_def r36_of_def span_scalars)
  have ap: "hash_apply g h (r36_of ?r) = gmul h (p_c ?r) XOR p_v ?r"
    using c [of "r36_of ?r"] by (simp add: hash_apply_def r36_of_def span_scalars)
  show ?thesis
    unfolding fold_chunk_def fold_cols_def Let_def n(1) l [unfolded i]
    using n(2) by (simp only: if_False bind.bind_lunit fv rec ap)
qed

text \<open>(The closed form is the chain.)  On every chunk of at most 512 messages with valid columns, the closed-form fold, its sum
  scalar or four products at a time, gives the record and the hash of the sequential chain that shifts the
  hash and adds one digest per message.\<close>

theorem fold_chunk_is_chain:
  assumes "columns_ok t" "length (st_vd t) \<le> CHUNK"
  shows "fold_chunk g avx512 t h = fold_chunk_sequential g' t h \<and> fold_chunk g avx512 t h \<noteq> None"
proof -
  have "span_width t (length (st_vd t)) \<le> 43 * length (st_vd t)"
    using assms(1) by (intro span_width_bound) (simp add: columns_ok_def Let_def)
  then have "span_width t (length (st_vd t)) < 65536" using assms(2) by (simp add: CHUNK_def)
  then show ?thesis using fold_cols_composite [OF assms] fold_sequential_composite [OF assms(1)] by simp
qed

lemma all_less_three: "(\<forall>i < Suc (Suc (Suc 0)). P i) \<longleftrightarrow> P 0 \<and> P 1 \<and> P (2 :: nat)"
  by (auto simp: less_Suc_eq numeral_2_eq_2)

theorem fold_chunk_is_chain_witness:
  fixes t defines "t \<equiv> \<lparr>st_ty = [0, 4, 9], st_vd = [7, 8, 0], st_db = [1, 2, 0], st_da = [0, 0, 0], st_px = [5, 6, 0], st_setp = [1, 0, 0]\<rparr>"
  shows "fold_chunk True True t 3 = fold_chunk_sequential False t 3"
proof -
  have "columns_ok t" "length (st_vd t) \<le> CHUNK"
    by (simp_all add: columns_ok_def t_def CHUNK_def all_less_three)
  then show ?thesis by (rule fold_chunk_is_chain [THEN conjunct1])
qed

end
