(* ===== verification/SpanStream.thy ===== *)
theory SpanStream
  imports SpanLaw
begin

text \<open>
  Streams of any length (\<open>crates/nf-testkit/src/spanfold.rs\<close>): chunk records and their composition,
  the two-level stream fold and its sequential oracle, the trees with the AVX-512 schedule, the
  two-level tree and the epoch merge.  However a tape is cut and bracketed, the result is the
  composite of its messages.
\<close>

section \<open>Chunks\<close>

text \<open>\<open>xs[a..b]\<close>, which panics past the end.\<close>

definition cut :: "nat \<Rightarrow> nat \<Rightarrow> 'a list \<Rightarrow> 'a list option" where
  "cut a b xs = (if b \<le> length xs then Some (slice a b xs) else None)"

definition cut_tokens :: "nat \<Rightarrow> nat \<Rightarrow> SpanTokens \<Rightarrow> SpanTokens option" where
  "cut_tokens a b t = do {
     ty \<leftarrow> cut a b (st_ty t); vd \<leftarrow> cut a b (st_vd t); db \<leftarrow> cut a b (st_db t); da \<leftarrow> cut a b (st_da t);
     px \<leftarrow> cut a b (st_px t); setp \<leftarrow> cut a b (st_setp t);
     Some \<lparr>st_ty = ty, st_vd = vd, st_db = db, st_da = da, st_px = px, st_setp = setp\<rparr> }"

function records_loop :: "bool \<Rightarrow> bool \<Rightarrow> SpanTokens \<Rightarrow> nat \<Rightarrow> nat \<Rightarrow> R36 list \<Rightarrow> R36 list option" where
  "records_loop g avx512 t chunk i out =
     (if i < length (st_vd t) \<and> 0 < chunk
      then let e = min (i + chunk) (length (st_vd t))
           in case cut_tokens i e t of
                None \<Rightarrow> None
              | Some part \<Rightarrow> (case fold_chunk g avx512 part 0 of
                  None \<Rightarrow> None
                | Some (r, _) \<Rightarrow> records_loop g avx512 t chunk e (out @ [r]))
      else Some out)"
  by pat_completeness auto
termination records_loop by (relation "measure (\<lambda>(g, avx512, t, chunk, i, out). length (st_vd t) - i)") auto

declare records_loop.simps [simp del]

definition chunk_records :: "bool \<Rightarrow> bool \<Rightarrow> SpanTokens \<Rightarrow> nat \<Rightarrow> R36 list option" where
  "chunk_records g avx512 t chunk = (if 0 < chunk then records_loop g avx512 t chunk 0 [] else None)"

definition compose_records :: "bool \<Rightarrow> R36 list \<Rightarrow> P64" where
  "compose_records g recs = foldl (\<lambda>acc r. p64_compose g acc (from_r36 g r)) P64_IDENTITY recs"

section \<open>Streams\<close>

function stream_loop :: "bool \<Rightarrow> bool \<Rightarrow> SpanTokens \<Rightarrow> nat \<Rightarrow> P64 \<Rightarrow> P64 option" where
  "stream_loop g avx512 t i acc =
     (if i < length (st_ty t)
      then let e = min (i + CHUNK) (length (st_ty t))
           in case cut_tokens i e t of
                None \<Rightarrow> None
              | Some part \<Rightarrow> (case fold_chunk g avx512 part 0 of
                  None \<Rightarrow> None
                | Some (r, _) \<Rightarrow> stream_loop g avx512 t e (p64_compose g acc (from_r36 g r)))
      else Some acc)"
  by pat_completeness auto
termination stream_loop
  by (relation "measure (\<lambda>(g, avx512, t, i, acc). length (st_ty t) - i)") (auto simp: CHUNK_def)

declare stream_loop.simps [simp del]

definition fold_stream :: "bool \<Rightarrow> bool \<Rightarrow> SpanTokens \<Rightarrow> u64 \<Rightarrow> (P64 \<times> u64) option" where
  "fold_stream g avx512 t h_in =
     (if st_ty t = [] then Some (P64_IDENTITY, h_in)
      else do { acc \<leftarrow> stream_loop g avx512 t 0 P64_IDENTITY; Some (acc, hash_apply_p64 g h_in acc) })"

text \<open>The oracle over the whole tape: \<open>tag\<close> and degree have 32 bits here.\<close>

record StreamFold =
  ss_h :: u64
  ss_db :: u64
  ss_da :: u64
  ss_px :: u32
  ss_tag :: u32
  ss_flg :: u16
  ss_deg :: u32

definition stream_step :: "bool \<Rightarrow> SpanTokens \<Rightarrow> nat \<Rightarrow> StreamFold \<Rightarrow> StreamFold option" where
  "stream_step g t i s = do {
     ty \<leftarrow> read (st_ty t) i; wt \<leftarrow> read W_T (unat ty); sh \<leftarrow> shift_pow g wt; vd \<leftarrow> read (st_vd t) i;
     db \<leftarrow> read (st_db t) i; da \<leftarrow> read (st_da t) i;
     let s = s\<lparr>ss_h := mulmod g (ss_h s) sh XOR vd, ss_db := ss_db s + db, ss_da := ss_da s + da, ss_deg := ss_deg s + ucast wt\<rparr>;
     setp \<leftarrow> read (st_setp t) i;
     if setp \<noteq> 0
     then do { px \<leftarrow> read (st_px t) i; Some (s\<lparr>ss_px := px, ss_tag := ss_deg s, ss_flg := ss_flg s OR FLG_SETTER\<rparr>) }
     else Some s }"

definition fold_stream_sequential :: "bool \<Rightarrow> SpanTokens \<Rightarrow> u64 \<Rightarrow> (P64 \<times> u64) option" where
  "fold_stream_sequential g t h_in = do {
     let n = length (st_vd t);
     s \<leftarrow> foldM (stream_step g t) [0..<n]
       \<lparr>ss_h = h_in, ss_db = 0, ss_da = 0, ss_px = 0, ss_tag = 0, ss_flg = 0, ss_deg = 0\<rparr>;
     sh \<leftarrow> shift_pow g (ucast (ss_deg s));
     c \<leftarrow> shift_pow g (ucast (ss_deg s));
     Some (\<lparr>p_v = ss_h s XOR mulmod g h_in sh, p_c = c, p_db = ss_db s, p_da = ss_da s, p_px = ss_px s, p_tag = ss_tag s,
            p_deg = ss_deg s, p_cnt = of_nat n, p_flg = ss_flg s\<rparr>, ss_h s) }"

section \<open>Trees\<close>

text \<open>The array is composed in place by the up-sweep; the result is its first entry.\<close>

definition tree_fold_p64 :: "bool \<Rightarrow> P64 list \<Rightarrow> P64" where
  "tree_fold_p64 g r =
     (let n = length r
      in if n = 0 then P64_IDENTITY
         else if n = 1 then r ! 0
         else sweep_tree (p64_compose g) 0 r ! 0)"

text \<open>Four pairs of one level: two batched products, the other coordinates pair by pair.\<close>

definition batch_pair :: "u64 list \<Rightarrow> u64 list \<Rightarrow> nat \<Rightarrow> nat \<Rightarrow> P64 list \<Rightarrow> nat \<Rightarrow> P64 list" where
  "batch_pair vres cres stride i r m =
     (let ia = i + 2 * m * stride; ib = ia + stride; a = r ! ia; b = r ! ib;
          (px, tag) = (if p_flg b AND FLG_SETTER \<noteq> 0 then (p_px b, p_deg a + p_tag b) else (p_px a, p_tag a))
      in r[ia := a\<lparr>p_v := vres ! m XOR p_v b, p_c := cres ! m, p_db := p_db a + p_db b, p_da := p_da a + p_da b,
             p_px := px, p_tag := tag, p_deg := p_deg a + p_deg b, p_cnt := p_cnt a + p_cnt b, p_flg := p_flg a OR p_flg b\<rparr>])"

definition batch_of_4 :: "nat \<Rightarrow> nat \<Rightarrow> P64 list \<Rightarrow> P64 list" where
  "batch_of_4 stride i r =
     (let at = (\<lambda>m. r ! (i + 2 * m * stride)); bt = (\<lambda>m. r ! (i + 2 * m * stride + stride));
          va = map (\<lambda>m. p_v (at m)) [0..<4]; ca = map (\<lambda>m. p_c (at m)) [0..<4]; cb = map (\<lambda>m. p_c (bt m)) [0..<4];
          vres = mulmod4x4 va cb; cres = mulmod4x4 ca cb
      in foldl (batch_pair vres cres stride i) r [0..<4])"

function vector_level :: "bool \<Rightarrow> nat \<Rightarrow> nat \<Rightarrow> P64 list \<Rightarrow> P64 list" where
  "vector_level g j i r =
     (if i + 7 * 2 ^ j < length r then vector_level g j (i + 8 * 2 ^ j) (batch_of_4 (2 ^ j) i r)
      else sweep_list (p64_compose g) j i r)"
  by pat_completeness auto

lemma batch_pair_length [simp]: "length (batch_pair vres cres stride i r m) = length r"
  by (simp add: batch_pair_def Let_def split_def)

lemma batch_of_4_length [simp]: "length (batch_of_4 stride i r) = length r"
  by (simp add: batch_of_4_def upt_4 Let_def)

termination vector_level
proof (relation "measure (\<lambda>(g, j, i, r). length r - i)")
  fix g j i and r :: "P64 list"
  assume "i + 7 * 2 ^ j < length r"
  moreover have "0 < (2::nat) ^ j" by simp
  ultimately have "length r - (i + 8 * 2 ^ j) < length r - i" by linarith
  then show "((g, j, i + 8 * 2 ^ j, batch_of_4 (2 ^ j) i r), g, j, i, r) \<in> measure (\<lambda>(g, j, i, r). length r - i)" by simp
qed simp

declare vector_level.simps [simp del]

lemma vector_level_length [simp]: "length (vector_level g j i r) = length r"
  by (induction g j i r rule: vector_level.induct) (subst vector_level.simps, simp)

function vector_levels :: "bool \<Rightarrow> nat \<Rightarrow> P64 list \<Rightarrow> P64 list" where
  "vector_levels g j r = (if 2 ^ j < length r then vector_levels g (Suc j) (vector_level g j 0 r) else r)"
  by pat_completeness auto
termination vector_levels
proof (relation "measure (\<lambda>(g, j, r). length r - 2 ^ j)")
  fix g j and r :: "P64 list"
  assume j: "2 ^ j < length r"
  have "0 < (2::nat) ^ j" by simp
  then have "length r - 2 ^ Suc j < length r - 2 ^ j" using j unfolding power_Suc by linarith
  then show "((g, Suc j, vector_level g j 0 r), g, j, r) \<in> measure (\<lambda>(g, j, r). length r - 2 ^ j)" by simp
qed simp

declare vector_levels.simps [simp del]

definition tree_fold_p64_avx512 :: "bool \<Rightarrow> P64 list \<Rightarrow> P64" where
  "tree_fold_p64_avx512 g r = (if length r < 2 then tree_fold_p64 g r else vector_levels g 0 r ! 0)"

definition tree_fold_p64_dispatch :: "bool \<Rightarrow> bool \<Rightarrow> P64 list \<Rightarrow> P64" where
  "tree_fold_p64_dispatch g avx512 r =
     (if 8 \<le> length r \<and> avx512 then tree_fold_p64_avx512 g r else tree_fold_p64 g r)"

text \<open>The runs of the first level; \<open>subs\<close> collects the finished runs.\<close>

fun run_subs :: "bool \<Rightarrow> nat \<Rightarrow> R36 list \<Rightarrow> P64 list \<Rightarrow> P64 \<Rightarrow> nat \<Rightarrow> P64 list" where
  "run_subs g run [] subs acc run_len = (if 0 < run_len then subs @ [acc] else subs)"
| "run_subs g run (r # rs) subs acc run_len =
     (let acc = p64_compose g acc (from_r36 g r); run_len = run_len + 1
      in if run_len = run then run_subs g run rs (subs @ [acc]) P64_IDENTITY 0 else run_subs g run rs subs acc run_len)"

definition tree_fold_two_level :: "bool \<Rightarrow> bool \<Rightarrow> R36 list \<Rightarrow> nat \<Rightarrow> P64 option" where
  "tree_fold_two_level g avx512 r36s run =
     (if \<not> 1 \<le> run then None
      else if r36s = [] then Some P64_IDENTITY
      else Some (tree_fold_p64_dispatch g avx512 (run_subs g run r36s [] P64_IDENTITY 0)))"

definition epoch_merge_p64 :: "bool \<Rightarrow> P64 \<Rightarrow> P64 \<Rightarrow> P64 \<Rightarrow> P64" where
  "epoch_merge_p64 g s x_first x_second = p64_compose g (p64_compose g s x_first) x_second"

section \<open>The vector schedule\<close>

lemma mulmod4x4_products:
  "length a = 4 \<Longrightarrow> length b = 4 \<Longrightarrow> mulmod4x4 a b = map (\<lambda>l. gmul (a ! l) (b ! l)) [0..<4]"
  using mul4_words_nth [of a b 0] mul4_words_nth [of a b 1] mul4_words_nth [of a b 2] mul4_words_nth [of a b 3]
  by (simp add: mulmod4x4_def Let_def maskz_mov_def upt_8 upt_4 bit_simps)

lemma batch_pair_compose:
  assumes "vres ! m = gmul (p_v (r ! (i + 2 * m * s))) (p_c (r ! (i + 2 * m * s + s)))"
    and "cres ! m = gmul (p_c (r ! (i + 2 * m * s))) (p_c (r ! (i + 2 * m * s + s)))"
  shows "batch_pair vres cres s i r m
    = r[i + 2 * m * s := p64_compose g (r ! (i + 2 * m * s)) (r ! (i + 2 * m * s + s))]"
proof -
  have "a\<lparr>p_v := gmul (p_v a) (p_c b) XOR p_v b, p_c := gmul (p_c a) (p_c b), p_db := p_db a + p_db b, p_da := p_da a + p_da b,
      p_px := px, p_tag := tag, p_deg := p_deg a + p_deg b, p_cnt := p_cnt a + p_cnt b, p_flg := p_flg a OR p_flg b\<rparr> = p64_compose g a b"
    if "(px, tag) = (if p_flg b AND FLG_SETTER \<noteq> 0 then (p_px b, p_deg a + p_tag b) else (p_px a, p_tag a))" for a b :: P64 and px tag
    using that by (intro P64.equality) (simp_all split: if_splits)
  then show ?thesis by (simp add: batch_pair_def Let_def assms split_def)
qed

text \<open>A batch is four steps of the scalar sweep.\<close>

lemma batch_of_4_steps:
  assumes "i + 7 * 2 ^ j < length r"
  shows "sweep_list (p64_compose g) j i r = sweep_list (p64_compose g) j (i + 8 * 2 ^ j) (batch_of_4 (2 ^ j) i r)"
proof -
  define s :: nat where "s = 2 ^ j"
  let ?f = "p64_compose g"
  have s: "0 < s" "i + 7 * s < length r" using assms by (simp_all add: s_def)
  have step: "sweep_list ?f j k x = sweep_list ?f j (k + 2 * s) (x[k := ?f (x ! k) (x ! (k + s))])" if "k + s < length x" for k x
    using that by (simp add: sweep_list.simps [of _ j k x] s_def)
  define va where "va = map (\<lambda>m. p_v (r ! (i + 2 * m * s))) [0..<4]"
  define ca where "ca = map (\<lambda>m. p_c (r ! (i + 2 * m * s))) [0..<4]"
  define cb where "cb = map (\<lambda>m. p_c (r ! (i + 2 * m * s + s))) [0..<4]"
  define v where "v = mulmod4x4 va cb"
  define c where "c = mulmod4x4 ca cb"
  define r1 where "r1 = r[i := ?f (r ! i) (r ! (i + s))]"
  define r2 where "r2 = r1[i + 2 * s := ?f (r1 ! (i + 2 * s)) (r1 ! (i + 2 * s + s))]"
  define r3 where "r3 = r2[i + 4 * s := ?f (r2 ! (i + 4 * s)) (r2 ! (i + 4 * s + s))]"
  define r4 where "r4 = r3[i + 6 * s := ?f (r3 ! (i + 6 * s)) (r3 ! (i + 6 * s + s))]"
  have l: "length r1 = length r" "length r2 = length r" "length r3 = length r" by (simp_all add: r1_def r2_def r3_def)
  have k1: "r1 ! k = r ! k" if "i + s < k" for k using that by (simp add: r1_def)
  have k2: "r2 ! k = r ! k" if "i + 3 * s < k" for k using that s k1 [of k] by (simp add: r2_def)
  have k3: "r3 ! k = r ! k" if "i + 5 * s < k" for k using that s k2 [of k] by (simp add: r3_def)
  have pv: "v ! m = gmul (p_v (r ! (i + 2 * m * s))) (p_c (r ! (i + 2 * m * s + s)))"
    "c ! m = gmul (p_c (r ! (i + 2 * m * s))) (p_c (r ! (i + 2 * m * s + s)))" if "m < 4" for m
    using that by (simp_all add: mulmod4x4_products v_def c_def va_def ca_def cb_def)
  have b0: "batch_pair v c s i r 0 = r1"
    using batch_pair_compose [of v 0 r i s c g] pv [of 0] by (simp add: r1_def)
  have b1: "batch_pair v c s i r1 1 = r2"
    using batch_pair_compose [of v 1 r1 i s c g] pv [of 1] k1 [of "i + 2 * s"] k1 [of "i + 2 * s + s"] s by (simp add: r2_def)
  have b2: "batch_pair v c s i r2 2 = r3"
    using batch_pair_compose [of v 2 r2 i s c g] pv [of 2] k2 [of "i + 4 * s"] k2 [of "i + 4 * s + s"] s by (simp add: r3_def)
  have b3: "batch_pair v c s i r3 3 = r4"
    using batch_pair_compose [of v 3 r3 i s c g] pv [of 3] k3 [of "i + 6 * s"] k3 [of "i + 6 * s + s"] s by (simp add: r4_def)
  have "batch_of_4 s i r = r4"
    unfolding batch_of_4_def Let_def va_def [symmetric] ca_def [symmetric] cb_def [symmetric] v_def [symmetric] c_def [symmetric]
    using b0 b1 b2 b3 by (simp add: upt_4)
  moreover have "sweep_list ?f j i r = sweep_list ?f j (i + 8 * s) r4"
  proof -
    have "sweep_list ?f j i r = sweep_list ?f j (i + 2 * s) r1" using step [of i r] s by (simp add: r1_def)
    also have "\<dots> = sweep_list ?f j (i + 2 * s + 2 * s) r2" unfolding r2_def using s l by (intro step) simp
    also have "i + 2 * s + 2 * s = i + 4 * s" by simp
    also have "sweep_list ?f j (i + 4 * s) r2 = sweep_list ?f j (i + 4 * s + 2 * s) r3" unfolding r3_def using s l by (intro step) simp
    also have "i + 4 * s + 2 * s = i + 6 * s" by simp
    also have "sweep_list ?f j (i + 6 * s) r3 = sweep_list ?f j (i + 6 * s + 2 * s) r4" unfolding r4_def using s l by (intro step) simp
    also have "i + 6 * s + 2 * s = i + 8 * s" by simp
    finally show ?thesis .
  qed
  ultimately show ?thesis unfolding s_def by simp
qed

lemma vector_level_sweep: "vector_level g j i r = sweep_list (p64_compose g) j i r"
proof (induction g j i r rule: vector_level.induct)
  case (1 g j i r)
  then show ?case using batch_of_4_steps [of i j r g] by (cases "i + 7 * 2 ^ j < length r") (simp_all add: vector_level.simps [of g j i r])
qed

lemma vector_levels_sweep: "vector_levels g j r = sweep_tree (p64_compose g) j r"
proof (induction g j r rule: vector_levels.induct)
  case (1 g j r)
  then show ?case
    by (cases "2 ^ j < length r") (simp_all add: vector_levels.simps [of g j r] sweep_tree.simps [of _ j r] vector_level_sweep)
qed

lemma tree_fold_joined: "r \<noteq> [] \<Longrightarrow> tree_fold_p64_dispatch g avx512 r = accumulator.joined True r"
proof -
  assume r: "r \<noteq> []"
  have t: "tree_fold_p64 g r = accumulator.joined True r"
    using r accumulator.sweep_tree_joined [of r True] p64_compose_gate [of g]
    by (cases r; cases "tl r") (simp_all add: tree_fold_p64_def Let_def)
  then show ?thesis
    using r accumulator.sweep_tree_joined [of r True] p64_compose_gate [of g]
    by (simp add: tree_fold_p64_dispatch_def tree_fold_p64_avx512_def vector_levels_sweep)
qed

text \<open>(The tree is the chain.)  On any non-empty array of accumulator records the in-place tree, scalar or with the four-product
  schedule, returns the record of composing the array from left to right.\<close>

theorem tree_fold_is_chain:
  "tree_fold_p64_dispatch g avx512 (a # rs) = foldl (p64_compose g') a rs"
  unfolding tree_fold_joined [OF list.distinct(2) [of a rs]] accumulator.joined_foldl p64_compose_gate [of g'] ..

section \<open>Cutting a tape\<close>

lemma cut_tokens_columns:
  assumes "columns_ok t" "a \<le> b" "b \<le> length (st_vd t)"
  obtains p where "cut_tokens a b t = Some p" "columns_ok p" "length (st_vd p) = b - a"
    "\<And>i. i < b - a \<Longrightarrow> message_record p i = message_record t (a + i)" "\<And>i. i < b - a \<Longrightarrow> width p i = width t (a + i)"
proof -
  let ?p = "\<lparr>st_ty = slice a b (st_ty t), st_vd = slice a b (st_vd t), st_db = slice a b (st_db t), st_da = slice a b (st_da t),
    st_px = slice a b (st_px t), st_setp = slice a b (st_setp t)\<rparr>"
  have l: "length (st_ty t) = length (st_vd t)" "length (st_db t) = length (st_vd t)" "length (st_da t) = length (st_vd t)"
    "length (st_px t) = length (st_vd t)" "length (st_setp t) = length (st_vd t)"
    "\<And>i. i < length (st_vd t) \<Longrightarrow> unat (st_ty t ! i) < 10"
    using assms(1) by (simp_all add: columns_ok_def Let_def)
  have "cut_tokens a b t = Some ?p" using l assms(3) by (simp add: cut_tokens_def cut_def)
  moreover have "columns_ok ?p" using l assms(2,3) by (simp add: columns_ok_def Let_def nth_slice)
  moreover have "length (st_vd ?p) = b - a" using assms(3) by simp
  moreover have "width ?p i = width t (a + i)" if "i < b - a" for i
    using l that assms(3) by (simp add: width_def nth_slice)
  moreover from this have "message_record ?p i = message_record t (a + i)" if "i < b - a" for i
    using l that assms(3) by (simp add: message_record_def Let_def nth_slice)
  ultimately show ?thesis using that by blast
qed

lemma upt_shift: "map f [a..<b] = map (\<lambda>i. f (a + i)) [0..<b - a]"
  by (rule nth_equalityI) simp_all

lemma cut_span:
  assumes "\<And>i. i < b - a \<Longrightarrow> message_record p i = message_record t (a + i)"
  shows "span_to p (b - a) = composite (map (message_record t) [a..<b])"
  unfolding upt_shift [of _ a b] using assms by (intro arg_cong [of _ _ composite]) simp

lemma span_tag: "span_width t k < 65536 \<Longrightarrow> unat (p_tag (span_to t k)) \<le> span_width t k"
proof (induction k)
  case 0
  then show ?case by (simp add: P64_IDENTITY_def)
next
  case (Suc k)
  have "unat (of_nat (span_width t (Suc k)) :: u32) = span_width t (Suc k)" using Suc.prems by (simp add: unat_of_nat del: span_width.simps)
  then show ?case using Suc unfolding span_Suc compose_message by (simp add: Let_def span_scalars)
qed

lemma chunk_span_width: "columns_ok t \<Longrightarrow> k \<le> length (st_vd t) \<Longrightarrow> k \<le> CHUNK \<Longrightarrow> span_width t k < 65536"
  using span_width_bound [of k t] by (simp add: columns_ok_def Let_def CHUNK_def)

lemma ucast_back: "unat (x :: u32) < 65536 \<Longrightarrow> ucast (ucast x :: u16) = x"
  by (simp add: word_unat_eq_iff unsigned_ucast_eq take_bit_eq_mod unat_mod_distrib)

lemma lift_span:
  assumes "columns_ok t" "length (st_vd t) \<le> CHUNK"
  shows "from_r36 g (r36_of (span_to t (length (st_vd t)))) = span_to t (length (st_vd t))"
proof -
  let ?n = "length (st_vd t)"
  have w: "span_width t ?n < 65536" using chunk_span_width [OF assms(1) order_refl assms(2)] .
  have n: "?n < 65536" using assms(2) by (simp add: CHUNK_def)
  have u: "unat (of_nat m :: u32) = m" "unat (of_nat m :: u16) = m" if "m < 65536" for m using that by (simp_all add: unat_of_nat)
  have d: "ucast (ucast (p_tag (span_to t ?n)) :: u16) = p_tag (span_to t ?n)"
    by (rule ucast_back) (use span_tag [OF w] w in linarith)
  have e: "ucast (of_nat m :: u16) = (of_nat m :: u32)" if "m < 65536" for m
    using ucast_back [of "of_nat m"] u(1) [OF that] that by simp
  have c: "c_of g (r36_of (span_to t ?n)) = xpow (span_width t ?n)"
    using c_of_power [of "r36_of (span_to t ?n)" g] u(2) [OF w] w by (simp add: r36_of_def span_scalars T_LEN_value)
  show ?thesis
    unfolding from_r36_def c
    by (intro P64.equality) (simp_all add: r36_of_def d e [OF w] e [OF n] span_scalars)
qed

lemma span_chunk_step:
  assumes "columns_ok t" "a \<le> b" "b \<le> length (st_vd t)" "b - a \<le> CHUNK"
  obtains p r h where "cut_tokens a b t = Some p" "fold_chunk g avx512 p 0 = Some (r, h)"
    "from_r36 g r = composite (map (message_record t) [a..<b])"
proof -
  obtain p where p: "cut_tokens a b t = Some p" "columns_ok p" "length (st_vd p) = b - a"
    "\<And>i. i < b - a \<Longrightarrow> message_record p i = message_record t (a + i)"
    using cut_tokens_columns [OF assms(1-3)] by metis
  have "length (st_vd p) \<le> CHUNK" using p(3) assms(4) by simp
  note f = fold_cols_composite [OF p(2) this, of g avx512 0] and l = lift_span [OF p(2) this, of g]
  show ?thesis
    by (rule that [OF p(1)]) (use f l cut_span [OF p(4)] p(3) in \<open>simp_all add: Let_def\<close>)
qed

lemma price_ok_messages: "price_ok (composite (map (message_record t) is))"
  by (rule price_ok_composite) (auto simp: price_ok_message)

lemma composite_split:
  "i \<le> e \<Longrightarrow> e \<le> n \<Longrightarrow> composite (map (message_record t) [i..<n])
    = p64_compose True (composite (map (message_record t) [i..<e])) (composite (map (message_record t) [e..<n]))"
proof -
  assume "i \<le> e" "e \<le> n"
  then have "[i..<n] = [i..<e] @ [e..<n]" by (metis le_add_diff_inverse upt_add_eq_append)
  then show ?thesis by (simp add: composite_append price_ok_message)
qed

lemma records_loop_composite:
  assumes "columns_ok t" "0 < chunk" "chunk \<le> CHUNK" "i \<le> length (st_vd t)"
  shows "\<exists>recs. records_loop g avx512 t chunk i out = Some (out @ recs) \<and> (\<forall>r \<in> set recs. price_ok (from_r36 g r)) \<and>
    (\<forall>acc. foldl (\<lambda>acc r. p64_compose True acc (from_r36 g r)) acc recs
      = p64_compose True acc (composite (map (message_record t) [i..<length (st_vd t)])))"
  using assms
proof (induction g avx512 t chunk i out rule: records_loop.induct)
  case (1 g avx512 t chunk i out)
  let ?n = "length (st_vd t)"
  show ?case
  proof (cases "i < ?n")
    case False
    then have "records_loop g avx512 t chunk i out = Some (out @ [])" by (subst records_loop.simps) simp
    then show ?thesis using False by (intro exI [of _ "[]"]) (simp add: compose_identity_right not_less)
  next
    case True
    let ?e = "min (i + chunk) ?n"
    have e: "i \<le> ?e" "?e \<le> ?n" "?e - i \<le> CHUNK" using 1(4,5) by auto
    obtain p r h where p: "cut_tokens i ?e t = Some p" "fold_chunk g avx512 p 0 = Some (r, h)"
      "from_r36 g r = composite (map (message_record t) [i..<?e])"
      using span_chunk_step [OF 1(2) e, of g avx512] by metis
    have c: "i < ?n \<and> 0 < chunk" using True 1(3) by simp
    obtain recs where recs: "records_loop g avx512 t chunk ?e (out @ [r]) = Some ((out @ [r]) @ recs)"
      "\<forall>r \<in> set recs. price_ok (from_r36 g r)"
      "\<forall>acc. foldl (\<lambda>acc r. p64_compose True acc (from_r36 g r)) acc recs
        = p64_compose True acc (composite (map (message_record t) [?e..<?n]))"
      using 1(1) [OF c refl p(1,2) refl 1(2-4)] e(2) by metis
    have "records_loop g avx512 t chunk i out = Some (out @ r # recs)"
      using c p(1,2) recs(1) by (subst records_loop.simps) (simp add: Let_def)
    moreover have "price_ok (from_r36 g r)" unfolding p(3) by (rule price_ok_messages)
    moreover have "foldl (\<lambda>acc r. p64_compose True acc (from_r36 g r)) acc (r # recs)
        = p64_compose True acc (composite (map (message_record t) [i..<?n]))" for acc
      unfolding composite_split [OF e(1,2)] using recs(3) p(3) by (simp add: accumulator.assoc)
    ultimately show ?thesis using recs(2) by (intro exI [of _ "r # recs"]) simp
  qed
qed

lemma stream_loop_composite:
  assumes "columns_ok t" "i \<le> length (st_vd t)"
  shows "stream_loop g avx512 t i acc = Some (p64_compose True acc (composite (map (message_record t) [i..<length (st_vd t)])))"
  using assms
proof (induction g avx512 t i acc rule: stream_loop.induct)
  case (1 g avx512 t i acc)
  let ?n = "length (st_vd t)"
  have n: "length (st_ty t) = ?n" using 1(2) by (simp add: columns_ok_def Let_def)
  show ?case
  proof (cases "i < ?n")
    case False
    then show ?thesis using n by (subst stream_loop.simps) (simp add: compose_identity_right)
  next
    case True
    let ?e = "min (i + CHUNK) ?n"
    have e: "i \<le> ?e" "?e \<le> ?n" "?e - i \<le> CHUNK" using 1(3) by auto
    obtain p r h where p: "cut_tokens i ?e t = Some p" "fold_chunk g avx512 p 0 = Some (r, h)"
      "from_r36 g r = composite (map (message_record t) [i..<?e])"
      using span_chunk_step [OF 1(2) e, of g avx512] by metis
    have "stream_loop g avx512 t ?e (p64_compose g acc (from_r36 g r))
        = Some (p64_compose True (p64_compose g acc (from_r36 g r)) (composite (map (message_record t) [?e..<?n])))"
      using 1(1) [unfolded n, OF True refl p(1,2) refl 1(2)] e(2) by simp
    then show ?thesis
      using True p(1,2) n p64_compose_gate [of g] unfolding composite_split [OF e(1,2)]
      by (subst stream_loop.simps) (simp add: Let_def p(3) accumulator.assoc)
  qed
qed

lemma fold_stream_composite:
  assumes "columns_ok t"
  shows "fold_stream g avx512 t h = Some (let r = span_to t (length (st_vd t)) in (r, gmul h (p_c r) XOR p_v r))"
proof -
  have n: "st_ty t = [] \<longleftrightarrow> length (st_vd t) = 0" using assms by (auto simp: columns_ok_def Let_def)
  have "p64_compose True P64_IDENTITY (span_to t k) = span_to t k" for k
    by (rule compose_identity_left [OF price_ok_messages])
  then show ?thesis using stream_loop_composite [OF assms, of 0 g avx512 P64_IDENTITY] n
    by (cases "st_ty t = []") (simp_all add: fold_stream_def hash_apply_p64_def P64_IDENTITY_def Let_def)
qed

section \<open>The oracle of a stream\<close>

definition stream_state :: "SpanTokens \<Rightarrow> u64 \<Rightarrow> nat \<Rightarrow> StreamFold" where
  "stream_state t h k = (let r = span_to t k in
     \<lparr>ss_h = gmul h (p_c r) XOR p_v r, ss_db = p_db r, ss_da = p_da r, ss_px = p_px r, ss_tag = p_tag r,
      ss_flg = p_flg r, ss_deg = p_deg r\<rparr>)"

lemma stream_step_state:
  assumes "columns_ok t" "k < length (st_vd t)"
  shows "stream_step g t k (stream_state t h k) = Some (stream_state t h (Suc k))"
proof -
  have w: "unat (of_nat (width t k) :: u64) = width t k" using assms by (rule of_nat_width)
  have s: "shift_pow g (of_nat (width t k)) = Some (xpow (width t k))"
    using shift_pow_power [of "of_nat (width t k)" g] columns_okD(8) [OF assms] unfolding w by simp
  show ?thesis
    unfolding stream_state_def span_Suc compose_message
    by (cases "st_setp t ! k = 0")
      (simp_all add: stream_step_def columns_okD [OF assms] Let_def s span_scalars gmul_xor_left gmul_assoc xpow_mult xor.assoc
        del: upt_Suc)
qed

lemma unat_widen: "unat (ucast (x :: u32) :: u64) = unat x"
  using unat_u32_less [of x] by (simp add: unsigned_ucast_eq take_bit_nat_eq_self)

lemma stream_sequential_composite:
  assumes "columns_ok t" "span_width t (length (st_vd t)) < 2 ^ 32"
  shows "fold_stream_sequential g t h = Some (let r = span_to t (length (st_vd t)) in (r, gmul h (p_c r) XOR p_v r))"
proof -
  let ?n = "length (st_vd t)" and ?r = "span_to t (length (st_vd t))"
  have l: "foldM (stream_step g t) [0..<?n] (stream_state t h 0) = Some (stream_state t h ?n)"
    using stream_step_state [OF assms(1)] by (intro foldM_states [where n = ?n]) simp_all
  have i: "stream_state t h 0 = \<lparr>ss_h = h, ss_db = 0, ss_da = 0, ss_px = 0, ss_tag = 0, ss_flg = 0, ss_deg = 0\<rparr>"
    by (simp add: stream_state_def P64_IDENTITY_def)
  have w: "unat (ucast (of_nat (span_width t ?n) :: u32) :: u64) = span_width t ?n"
    using assms(2) by (simp add: unat_widen unat_of_nat)
  have s: "shift_pow g (ucast (of_nat (span_width t ?n) :: u32)) = Some (xpow (span_width t ?n))"
    using shift_pow_power [of "ucast (of_nat (span_width t ?n) :: u32)" g] assms(2) unfolding w by simp
  have x: "(gmul h c XOR v) XOR gmul h c = v" for c v by (simp add: ac_simps)
  have "\<lparr>p_v = p_v ?r, p_c = xpow (span_width t ?n), p_db = p_db ?r, p_da = p_da ?r, p_px = p_px ?r, p_tag = p_tag ?r,
      p_deg = p_deg ?r, p_cnt = of_nat ?n, p_flg = p_flg ?r\<rparr> = ?r"
    by (intro P64.equality) (simp_all add: span_scalars)
  then show ?thesis
    unfolding fold_stream_sequential_def Let_def l [unfolded i]
    by (simp add: stream_state_def Let_def s x span_scalars)
qed

section \<open>Two levels\<close>

lemma run_subs_composite:
  assumes "\<forall>r \<in> set rs. price_ok (from_r36 g r)" "price_ok acc" "\<forall>s \<in> set subs. price_ok s" "len = 0 \<longrightarrow> acc = P64_IDENTITY"
  shows "composite (run_subs g run rs subs acc len)
      = foldl (\<lambda>acc r. p64_compose True acc (from_r36 g r)) (p64_compose True (composite subs) acc) rs \<and>
    (\<forall>s \<in> set (run_subs g run rs subs acc len). price_ok s)"
  using assms
proof (induction g run rs subs acc len rule: run_subs.induct)
  case (1 g run subs acc len)
  then show ?case by (simp add: compose_identity_right)
next
  case (2 g run r rs subs acc len)
  let ?acc = "p64_compose g acc (from_r36 g r)"
  have ok: "price_ok ?acc" using 2(3,4) by (simp add: price_ok_compose)
  have z: "price_ok P64_IDENTITY" by (simp add: price_ok_def P64_IDENTITY_def)
  show ?case
  proof (cases "len + 1 = run")
    case True
    then show ?thesis
      using 2(1) [OF refl refl True] 2(3,5) ok z p64_compose_gate [of g]
      by (simp add: Let_def compose_identity_right accumulator.assoc)
  next
    case False
    then show ?thesis
      using 2(2) [OF refl refl False] 2(3,5) ok p64_compose_gate [of g]
      by (simp add: Let_def accumulator.assoc)
  qed
qed

lemma run_subs_nonempty: "rs \<noteq> [] \<or> subs \<noteq> [] \<or> 0 < len \<Longrightarrow> run_subs g run rs subs acc len \<noteq> []"
  by (induction g run rs subs acc len rule: run_subs.induct) (auto simp: Let_def)

lemma composite_lifted:
  "\<forall>r \<in> set recs. price_ok (from_r36 g r) \<Longrightarrow> composite (map (from_r36 g) recs) = compose_records g recs"
  unfolding composite_def compose_records_def foldl_map p64_compose_gate [of g] ..

lemma tree_fold_records:
  assumes "\<forall>r \<in> set recs. price_ok (from_r36 g r)"
  shows "tree_fold_p64_dispatch g avx512 (map (from_r36 g) recs) = compose_records g recs"
proof (cases "recs = []")
  case True
  then show ?thesis by (simp add: tree_fold_p64_dispatch_def tree_fold_p64_def compose_records_def)
next
  case False
  then show ?thesis
    using tree_fold_joined [of "map (from_r36 g) recs" g avx512] composite_joined [of "map (from_r36 g) recs"] composite_lifted [OF assms] assms
    by simp
qed

lemma tree_fold_two_level_records:
  assumes "\<forall>r \<in> set recs. price_ok (from_r36 g r)" "1 \<le> run"
  shows "tree_fold_two_level g avx512 recs run = Some (compose_records g recs)"
proof (cases "recs = []")
  case True
  then show ?thesis using assms(2) by (simp add: tree_fold_two_level_def compose_records_def)
next
  case False
  have z: "price_ok P64_IDENTITY" by (simp add: price_ok_def P64_IDENTITY_def)
  let ?subs = "run_subs g run recs [] P64_IDENTITY 0"
  have s: "composite ?subs = compose_records g recs" "\<forall>s \<in> set ?subs. price_ok s"
    using run_subs_composite [OF assms(1) z, of "[]" 0 run]
    by (simp_all add: compose_records_def compose_identity_right p64_compose_gate [of g])
  have "?subs \<noteq> []" using False by (intro run_subs_nonempty) simp
  then show ?thesis using False assms(2) tree_fold_joined composite_joined [OF s(2)] s(1)
    by (simp add: tree_fold_two_level_def)
qed

text \<open>C30: (Any partition, any bracketing.)  On a tape with valid columns and less than 2 to the 32 bytes, the stream fold is the
  sequential chain over the whole tape; and for every chunk size up to 512 and every run length the chunk
  records composed left to right, by the tree, or in two levels, give the same record and with it the same hash.\<close>

theorem stream_partition_invariant:
  assumes "columns_ok t" "span_width t (length (st_vd t)) < 2 ^ 32" "0 < chunk" "chunk \<le> CHUNK" "1 \<le> run"
  shows "fold_stream g avx512 t h = fold_stream_sequential g' t h \<and>
    (\<exists>recs r. chunk_records g avx512 t chunk = Some recs \<and> fold_stream g avx512 t h = Some (r, hash_apply_p64 g h r) \<and>
      compose_records g recs = r \<and> tree_fold_p64_dispatch g avx512 (map (from_r36 g) recs) = r \<and>
      tree_fold_two_level g avx512 recs run = Some r)"
proof -
  obtain recs where recs: "chunk_records g avx512 t chunk = Some recs" "\<forall>r \<in> set recs. price_ok (from_r36 g r)"
    "\<forall>acc. foldl (\<lambda>acc r. p64_compose True acc (from_r36 g r)) acc recs
      = p64_compose True acc (span_to t (length (st_vd t)))"
    using records_loop_composite [OF assms(1,3,4), of 0 g avx512 "[]"] assms(3) by (auto simp: chunk_records_def)
  have "compose_records g recs = span_to t (length (st_vd t))"
    using recs(3) compose_identity_left [OF price_ok_messages] unfolding compose_records_def p64_compose_gate [of g] by simp
  then show ?thesis
    using recs(1) tree_fold_records [OF recs(2)] tree_fold_two_level_records [OF recs(2) assms(5)]
      fold_stream_composite [OF assms(1)] stream_sequential_composite [OF assms(1,2)]
    by (simp add: Let_def hash_apply_p64_def)
qed

theorem stream_partition_invariant_witness:
  fixes t defines "t \<equiv> \<lparr>st_ty = [0, 4, 9], st_vd = [7, 8, 0], st_db = [1, 2, 0], st_da = [0, 0, 0], st_px = [5, 6, 0], st_setp = [1, 0, 0]\<rparr>"
  shows "fold_stream True True t 3 = fold_stream_sequential False t 3 \<and>
    (\<exists>recs r. chunk_records True True t 2 = Some recs \<and> fold_stream True True t 3 = Some (r, hash_apply_p64 True 3 r) \<and>
      tree_fold_two_level True True recs 2 = Some r)"
proof -
  have "columns_ok t" "span_width t (length (st_vd t)) < 2 ^ 32" "2 \<le> CHUNK"
    by (simp_all add: columns_ok_def t_def CHUNK_def all_less_three width_def W_T_def)
  then show ?thesis using stream_partition_invariant [of t 2 2 True True 3 False] by force
qed

text \<open>(The merge of two workers.)  Cut a tape anywhere: the hash of the first part shifted by the byte span of the later
  part, plus the hash the later part has from zero, is the hash of the whole tape, and the two accumulators
  compose to its accumulator.\<close>

theorem split_hash_merges:
  assumes "columns_ok t" "span_width t (length (st_vd t)) < 2 ^ 32" "k \<le> length (st_vd t)"
  shows "\<exists>early late pe he pl hl.
    cut_tokens 0 k t = Some early \<and> cut_tokens k (length (st_vd t)) t = Some late \<and>
    fold_stream g avx512 early h = Some (pe, he) \<and> fold_stream g avx512 late 0 = Some (pl, hl) \<and>
    hash_merge g he hl (ucast (p_deg pl)) = map_option snd (fold_stream g avx512 t h) \<and>
    Some (p64_compose g pe pl) = map_option fst (fold_stream g avx512 t h)"
proof -
  let ?n = "length (st_vd t)"
  obtain early where early: "cut_tokens 0 k t = Some early" "columns_ok early" "length (st_vd early) = k - 0"
    "\<And>i. i < k - 0 \<Longrightarrow> message_record early i = message_record t (0 + i)"
    using cut_tokens_columns [OF assms(1) _ assms(3), of 0] by (metis le0)
  obtain late where late: "cut_tokens k ?n t = Some late" "columns_ok late" "length (st_vd late) = ?n - k"
    "\<And>i. i < ?n - k \<Longrightarrow> message_record late i = message_record t (k + i)" "\<And>i. i < ?n - k \<Longrightarrow> width late i = width t (k + i)"
    using cut_tokens_columns [OF assms(1,3) order_refl] by metis
  have e: "span_to early k = span_to t k" using cut_span [OF early(4)] by simp
  have l: "span_to late (?n - k) = composite (map (message_record t) [k..<?n])" using cut_span [OF late(4)] by simp
  have wl: "span_width late m = span_width t (k + m) - span_width t k" if "m \<le> ?n - k" for m
    using that
  proof (induction m)
    case (Suc m)
    then show ?case using late(5) [of m] span_width_mono [of k "k + m" t] by simp
  qed simp
  have w: "span_width late (?n - k) < 2 ^ 32" using wl [of "?n - k"] assms(2,3) by simp
  have all: "span_to t ?n = p64_compose True (span_to t k) (span_to late (?n - k))"
    unfolding l using composite_split [of 0 k ?n t] assms(3) by simp
  have u: "unat (ucast (of_nat (span_width late (?n - k)) :: u32) :: u64) = span_width late (?n - k)"
    using w by (simp add: unat_widen unat_of_nat)
  have "hash_merge g x y (ucast (p_deg (span_to late (?n - k)))) = Some (gmul x (p_c (span_to late (?n - k))) XOR y)" for x y
    using shift_pow_power [of "ucast (of_nat (span_width late (?n - k)) :: u32)" g] w unfolding u
    by (simp add: hash_merge_def span_scalars)
  note m = this
  let ?pe = "span_to t k" and ?pl = "span_to late (?n - k)"
  have fe: "fold_stream g avx512 early h = Some (?pe, gmul h (p_c ?pe) XOR p_v ?pe)"
    using fold_stream_composite [OF early(2)] early(3) e by (simp add: Let_def)
  have fl: "fold_stream g avx512 late 0 = Some (?pl, p_v ?pl)"
    using fold_stream_composite [OF late(2)] late(3) by (simp add: Let_def)
  have "hash_merge g (gmul h (p_c ?pe) XOR p_v ?pe) (p_v ?pl) (ucast (p_deg ?pl)) = map_option snd (fold_stream g avx512 t h)"
    unfolding m fold_stream_composite [OF assms(1)] Let_def all by (simp add: gmul_xor_left gmul_assoc xor.assoc)
  moreover have "Some (p64_compose g ?pe ?pl) = map_option fst (fold_stream g avx512 t h)"
    unfolding fold_stream_composite [OF assms(1)] Let_def all p64_compose_gate [of g] by simp
  ultimately show ?thesis using early(1) late(1) fe fl by blast
qed

theorem split_hash_merges_witness:
  fixes t defines "t \<equiv> \<lparr>st_ty = [0, 4, 9], st_vd = [7, 8, 0], st_db = [1, 2, 0], st_da = [0, 0, 0], st_px = [5, 6, 0], st_setp = [1, 0, 0]\<rparr>"
  shows "\<exists>early late pe he pl hl. cut_tokens 0 1 t = Some early \<and> cut_tokens 1 3 t = Some late \<and>
    fold_stream True False early 5 = Some (pe, he) \<and> fold_stream True False late 0 = Some (pl, hl) \<and>
    hash_merge True he hl (ucast (p_deg pl)) = map_option snd (fold_stream True False t 5)"
proof -
  have "columns_ok t" "span_width t (length (st_vd t)) < 2 ^ 32" "1 \<le> length (st_vd t)" "length (st_vd t) = 3"
    by (simp_all add: columns_ok_def t_def all_less_three width_def W_T_def)
  then show ?thesis using split_hash_merges [of t 1 True False 5] by metis
qed

end
