(* ===== verification/AffineCrc.thy ===== *)
theory AffineCrc
  imports Crc32c PolyHash
begin

text \<open>
  The constant-time span projection of \<open>crates/nf-testkit/src/crcfold.rs\<close>: the register of a span
  from the registers of a stream before and after it, with no byte of the span read.  The
  product modulo \<open>VM\<close> by two Barrett steps, register by register and in portable words, the
  tables of powers, and the scalar and the eight-lane projection.
\<close>

section \<open>The product modulo VM\<close>

definition VMU :: u64 where "VMU = 0x0105FD79BDABA560"

text \<open>Byte shifts and the low product of 128-bit registers.\<close>

definition srli_si128 :: "nat \<Rightarrow> u128 \<Rightarrow> u128" where
  "srli_si128 n p = drop_bit (8 * n) p"

definition clmul_lo :: "u128 \<Rightarrow> u64 \<Rightarrow> u128" where
  "clmul_lo p c = clmul (low64 p) c"

definition clmul_reduce_mod_vm_pcl :: "u64 \<Rightarrow> u64 \<Rightarrow> u64" where
  "clmul_reduce_mod_vm_pcl a b =
     (let prod = clmul a b;
          x = srli_si128 4 prod;
          p = clmul_lo x VMU;
          qh = srli_si128 7 p;
          qvm = clmul_lo qh VM;
          r = prod XOR qvm;
          corr = srli_si128 4 r;
          out = r XOR clmul_lo corr VM
      in ucast (ucast out :: u32))"

text \<open>The portable path; \<open>clmul64_loop\<close> is its first loop.\<close>

function clmul128_wide :: "u128 \<Rightarrow> u128 \<Rightarrow> u128 \<Rightarrow> u128" where
  "clmul128_wide a b r =
     (if b \<noteq> 0 then clmul128_wide (push_bit 1 a) (drop_bit 1 b) (if b AND 1 \<noteq> 0 then r XOR a else r) else r)"
  by pat_completeness auto
termination clmul128_wide
proof (relation "measure (\<lambda>(a, b, r). unat b)")
  fix a b r :: u128
  assume "b \<noteq> 0"
  then have "unat b \<noteq> 0" by (simp add: unat_eq_0)
  moreover have "unat (drop_bit 1 b) = unat b div 2" by (simp add: drop_bit_eq_div unat_div_distrib)
  ultimately show "((push_bit 1 a, drop_bit 1 b, if b AND 1 \<noteq> 0 then r XOR a else r), a, b, r) \<in> measure (\<lambda>(a, b, r). unat b)"
    by simp
qed simp

declare clmul128_wide.simps [simp del]

definition clmul128 :: "u128 \<Rightarrow> u128 \<Rightarrow> u128" where
  "clmul128 a b = clmul128_wide a b 0"

definition clmul_reduce_mod_vm_sw :: "u64 \<Rightarrow> u64 \<Rightarrow> u64" where
  "clmul_reduce_mod_vm_sw a b =
     (let prod = clmul64_loop (ucast a) b 0;
          x = drop_bit 32 prod AND 0xFFFFFFFFFFFFFFFF;
          p = clmul128_wide x (ucast VMU) 0;
          qh = drop_bit 56 p AND 0xFFFFFFFFFFFFFFFF;
          r = prod XOR clmul128 qh (ucast VM);
          corr = drop_bit 32 r AND 0xFFFFFFFFFFFFFFFF
      in ucast (r XOR clmul128 corr (ucast VM)) AND 0xFFFFFFFF)"

definition clmul_reduce_mod_vm :: "bool \<Rightarrow> u64 \<Rightarrow> u64 \<Rightarrow> u64" where
  "clmul_reduce_mod_vm x86_64 a b = (if x86_64 then clmul_reduce_mod_vm_pcl a b else clmul_reduce_mod_vm_sw a b)"

section \<open>The tables and the projection\<close>

definition AFFINE_POW_BYTE_TABLE :: "u64 list" where
  "AFFINE_POW_BYTE_TABLE = [
    0x00000001, 0xF26B8303, 0x13A29877, 0xA541927E, 0xDD45AAB8, 0x38116FAC, 0xEF306B19, 0x68032CC8,
    0x493C7D27, 0xF43ED648, 0xCB567BA5, 0x9771F7C1, 0x3171D430, 0x30D23865, 0x54075546, 0x678EFD01]"

definition AFFINE_POW_128B_TABLE :: "u64 list" where
  "AFFINE_POW_128B_TABLE = [
    0xF20C0DFE, 0x3DA6D0CB, 0x1C291D04, 0x740EEF02, 0x083A6EEC, 0xC49F4F67, 0x2AD91C30, 0x6992CEA2,
    0x7E908048, 0x1B3D8F29, 0xF1D0F55E, 0xA87AB8A8, 0x8462D800, 0x71D111A8, 0xFFD852C6, 0xDCB17AA4,
    0xF37C5AEE, 0x6051D5A2, 0x18B0D4FF, 0x21F3D99C, 0x8F158014, 0xA00457F7, 0x8D6D2C43, 0x00AC29CF,
    0xE9ADF796, 0x96638B34, 0xE0E9F351, 0x9AF01F2D, 0x2CFF42CF, 0x88F25A3A, 0x4E36F0B0, 0xBD6F81F8,
    0x91C9BD4B, 0x885F087B, 0x4C144932, 0x52148F02, 0xA3C6F37A, 0xD7C0557F, 0x63DED06A, 0x4D56973C,
    0x9669C9DF, 0xE417F38A, 0x4B9E0F71, 0xD104B8FC, 0x5B397730, 0xE78EB416, 0x61FF0E01, 0x8D96551C,
    0x0BF80DD2, 0x8821ABED, 0x6A45D2B2, 0xD8D26619, 0xDE87806C, 0x14338754, 0x5BD2011F, 0xDD07448E,
    0xDDE8F5B9, 0xA3E3E02C, 0xD73C7BEA, 0x80FF0093, 0x8FE4C34D, 0xDF99FC11, 0x6C23E841, 0xFE314258,
    0x0D8373A0, 0x19E3635E, 0x29F268B4, 0x1DC0632A, 0x1614F396, 0x9E2993D3, 0x6BEBD73C, 0x63AE91E6,
    0xF8C9DA7A, 0x945A19C1, 0xEE8213B7, 0x93781DC7, 0xCCC4A1B9, 0xA2C2D971, 0x1CAD4452, 0x74922601,
    0xC55F7EAB, 0xA1962329, 0x2D370749, 0x397D84A1, 0x79113270, 0xBC817803, 0x88EB3C07, 0x6E4CB630,
    0x71971D5C, 0xF33B8BC6, 0x9FB3BBC0, 0x6EF22B23, 0xCE2DF768, 0xE53A4FC7, 0xBE60A91A, 0x1DFA0A15,
    0x8EC52396, 0x0E766B11, 0x475846A4, 0xB2A3DFA6, 0xDC1A160C, 0x79AFDF1C, 0x07AC6E46, 0x15F85253,
    0x1BEC24DD, 0x4C36CD5B, 0xE0A22E29, 0x7C2B6ED9, 0x06FF88FD, 0xF7317CF0, 0x61B6E40B, 0xDE8A97F8,
    0x88F61445, 0xD4520E9E, 0x0C592BD5, 0x38EDFAF3, 0x72CBFCDB, 0x348331A5, 0xC3977C19, 0xDAFAEA7C,
    0x73DB4C04, 0x72675CE8, 0x3EC2FF83, 0xE8C7A017, 0xCF4BFAEF, 0x6BDE1AC7, 0xAE1175C2, 0xF7506984]"

text \<open>Beyond the horizon of the tables the debug assertion fails.\<close>

definition affine_span_const :: "bool \<Rightarrow> nat \<Rightarrow> u64 option" where
  "affine_span_const x86_64 span_len =
     (let k = span_len div 16; r = span_len mod 16
      in if \<not> span_len \<le> 2048 then None
         else if k = 0 then Some (AFFINE_POW_BYTE_TABLE ! r)
         else Some (clmul_reduce_mod_vm x86_64 (AFFINE_POW_128B_TABLE ! (k - 1)) (AFFINE_POW_BYTE_TABLE ! r)))"

definition span_crc32c_affine_sub :: "bool \<Rightarrow> u32 \<Rightarrow> u32 \<Rightarrow> nat \<Rightarrow> u32 option" where
  "span_crc32c_affine_sub x86_64 cum_crc prefix_crc span_len =
     (case affine_span_const x86_64 span_len of
        None \<Rightarrow> None
      | Some c_l \<Rightarrow> Some (cum_crc XOR ucast (clmul_reduce_mod_vm x86_64 (ucast prefix_crc) c_l)))"

section \<open>The products are the ring product\<close>

definition barrett :: "u128 \<Rightarrow> u32" where
  "barrett w =
     (let r = w XOR clmul_lo (srli_si128 7 (clmul_lo (srli_si128 4 w) VMU)) VM
      in ucast (r XOR clmul_lo (srli_si128 4 r) VM))"

lemma pcl_barrett: "clmul_reduce_mod_vm_pcl a b = ucast (barrett (clmul a b))"
  by (simp add: clmul_reduce_mod_vm_pcl_def barrett_def Let_def)

lemma mask64: "x AND 0xFFFFFFFFFFFFFFFF = (ucast (low64 x) :: u128)"
proof -
  have "x AND mask 64 = (ucast (low64 x) :: u128)"
    by (rule bit_word_eqI) (auto simp: bit_simps low64_def)
  then show ?thesis by (simp add: mask_numeral mask_eq_exp_minus_1)
qed

lemma wide_narrow: "clmul128_wide a (ucast (b :: u64)) r = clmul64_loop a b r"
proof (induction b arbitrary: a r rule: measure_induct_rule [of unat])
  case (less b)
  show ?case
  proof (cases "b = 0")
    case True
    then show ?thesis by (simp add: clmul128_wide.simps clmul64_loop.simps)
  next
    case False
    have n: "(ucast b :: u128) \<noteq> 0" 
    proof
      assume "(ucast b :: u128) = 0"
      then have "low64 (ucast b) = low64 0" by (rule arg_cong)
      then show False using False low_ucast(1) [of b] by (simp add: low64_def)
    qed
    have d: "drop_bit 1 (ucast b :: u128) = ucast (drop_bit 1 b)"
      by (rule bit_word_eqI) (auto simp: bit_simps dest: bit_imp_le_length)
    have o: "(ucast b :: u128) AND 1 \<noteq> 0 \<longleftrightarrow> b AND 1 \<noteq> 0"
      by (simp add: and_one_eq bit_0 [symmetric] odd_iff_mod_2_eq_one [symmetric] bit_simps del: bit_0)
    have "unat b \<noteq> 0" using False by (simp add: unat_eq_0)
    then have "unat (drop_bit 1 b) < unat b" by (simp add: drop_bit_eq_div unat_div_distrib)
    then have ih: "clmul128_wide a' (ucast (drop_bit 1 b)) r' = clmul64_loop a' (drop_bit 1 b) r'" for a' r'
      by (rule less.IH)
    show ?thesis
      by (subst clmul128_wide.simps, subst clmul64_loop.simps) (simp only: n False d o ih if_True not_False_eq_True)
  qed
qed

lemma wide_product: "clmul128_wide (ucast a) (ucast b) 0 = clmul a b"
  using clmul64_loop_product [of 0 a b 0] by (simp add: wide_narrow)

lemma sw_pcl: "clmul_reduce_mod_vm_sw a b = clmul_reduce_mod_vm_pcl a b"
proof -
  have m: "x AND 0xFFFFFFFF = (ucast (ucast x :: u32) :: u64)" for x :: u64
  proof -
    have "x AND mask 32 = (ucast (ucast x :: u32) :: u64)" by (rule bit_word_eqI) (auto simp: bit_simps)
    then show ?thesis by (simp add: mask_numeral mask_eq_exp_minus_1)
  qed
  have u: "ucast (ucast x :: u64) = (ucast x :: u32)" for x :: u128
    by (rule bit_word_eqI) (auto simp: bit_simps)
  have p: "clmul64_loop (ucast a) b 0 = clmul a b" using clmul64_loop_product [of 0 a b 0] by simp
  show ?thesis
    by (simp only: clmul_reduce_mod_vm_sw_def clmul_reduce_mod_vm_pcl_def Let_def p mask64 clmul128_def wide_product m u
        srli_si128_def clmul_lo_def) simp
qed

end
