(* ===== verification/AffineLaw.thy ===== *)
theory AffineLaw
  imports AffineCrc
begin

text \<open>
  Correctness of the constant-time span projection.  The Barrett steps are compared with the
  ring product on single bits, the tables with iterated zero bytes; both comparisons are
  evaluated on integers.
\<close>

section \<open>Evaluation\<close>

fun iclmul :: "nat \<Rightarrow> int \<Rightarrow> int \<Rightarrow> int \<Rightarrow> int" where
  "iclmul 0 a b r = r"
| "iclmul (Suc n) a b r = (if a = 0 then r else iclmul n (a div 2) (2 * b) (if a mod 2 = 1 then r XOR b else r))"

definition ibar :: "int \<Rightarrow> int" where
  "ibar p =
     (let low = (\<lambda>z. z mod 18446744073709551616);
          x = low (p div 4294967296);
          q = low (iclmul 64 0x0105FD79BDABA560 x 0 div 72057594037927936);
          r = p XOR iclmul 64 0x105EC76F1 q 0;
          c = low (r div 4294967296)
      in (r XOR iclmul 64 0x105EC76F1 c 0) mod 4294967296)"

fun bar_ok :: "nat \<Rightarrow> int \<Rightarrow> int \<Rightarrow> bool" where
  "bar_ok 0 p e \<longleftrightarrow> True"
| "bar_ok (Suc n) p e \<longleftrightarrow>
     ibar p = e \<and> bar_ok n (2 * p) (if e < 2147483648 then 2 * e else (2 * e - 4294967296) XOR 0x05EC76F1)"

fun icrc :: "nat \<Rightarrow> int \<Rightarrow> int" where
  "icrc 0 c = c"
| "icrc (Suc n) c = icrc n (if c mod 2 = 1 then (c div 2) XOR 0x82F63B78 else c div 2)"

fun icrc_steps :: "nat \<Rightarrow> int list \<Rightarrow> bool" where
  "icrc_steps n (c # d # cs) \<longleftrightarrow> icrc n c = d \<and> icrc_steps n (d # cs)"
| "icrc_steps n cs \<longleftrightarrow> True"

lemma barrett_basis_eval: "bar_ok 63 1 1"
  by code_simp

lemma byte_table_eval: "icrc_steps 8 (map uint AFFINE_POW_BYTE_TABLE)"
  by code_simp

lemma block_table_eval: "icrc 128 1 = uint (AFFINE_POW_128B_TABLE ! 0) \<and> icrc_steps 128 (map uint AFFINE_POW_128B_TABLE)"
  by code_simp

section \<open>Words and integers\<close>

lemma uint_crc_bits: "uint ((crc_bit ^^ n) c) = icrc n (uint c)"
proof (induction n arbitrary: c)
  case (Suc n)
  have "uint (crc_bit c) = (if uint c mod 2 = 1 then (uint c div 2) XOR 0x82F63B78 else uint c div 2)"
    by (simp add: crc_bit_xor uint_odd uint_half unsigned_xor_eq CRC32C_POLY_REFLECTED_def)
  then show ?case using Suc.IH [of "crc_bit c"] by (simp add: funpow_swap1)
qed simp

lemma uint_ytime: "uint (ytime c) = (if uint c < 2147483648 then 2 * uint c else (2 * uint c - 4294967296) XOR 0x05EC76F1)"
  using uint_shift_reduce [of c "ucast VQ"] by (simp add: ytime_def VQ_def)

lemma iclmul_comb:
  fixes b :: u128
  assumes "uint b * 2 ^ n \<le> 2 ^ 128"
  shows "iclmul n (uint (a :: u64)) (uint b) (uint r) = uint (r XOR comb n (\<lambda>i. push_bit i b) a)"
  using assms
proof (induction n arbitrary: a b r)
  case (Suc n)
  show ?case
  proof (cases "a = 0")
    case True
    have "comb m t (0 :: u64) = (0 :: u128)" for m t by (induction m) simp_all
    then show ?thesis using True by simp
  next
    case False
    have shift: "uint (push_bit 1 b) = 2 * uint b" if "0 < n"
    proof -
      have "uint b * 2 * 2 \<le> uint b * 2 * 2 ^ n" using that by (intro mult_left_mono) (cases n, simp_all)
      also have "\<dots> \<le> 2 ^ 128" using Suc.prems by (simp add: mult.assoc)
      finally have "uint b * 4 \<le> 2 ^ 128" by simp
      moreover have "0 \<le> uint b" "0 < (2 :: int) ^ 128" by simp_all
      ultimately have "0 \<le> 2 * uint b" "2 * uint b < 2 ^ 128" by linarith+
      then show ?thesis unfolding uint_push by simp
    qed
    have low: "comb (Suc n) (\<lambda>i. push_bit i b) a = (if bit a 0 then b else 0) XOR comb n (\<lambda>i. push_bit i (push_bit 1 b)) (drop_bit 1 a)"
      unfolding comb_low by simp
    have r: "(if uint a mod 2 = 1 then uint r XOR uint b else uint r) = uint (r XOR (if bit a 0 then b else 0))"
      by (simp add: uint_odd unsigned_xor_eq)
    have "iclmul n (uint (drop_bit 1 a)) (2 * uint b) (uint s) = uint (s XOR comb n (\<lambda>i. push_bit i (push_bit 1 b)) (drop_bit 1 a))" for s
    proof (cases "n = 0")
      case False
      then show ?thesis
        using Suc.IH [of "push_bit 1 b" "drop_bit 1 a" s] Suc.prems shift by (simp add: mult.assoc mult.left_commute)
    qed simp
    moreover have "uint a \<noteq> 0" using False by (simp add: word_uint_eq_iff)
    ultimately show ?thesis unfolding low iclmul.simps uint_half r by (simp only: if_False xor.assoc)
  qed
qed simp

lemma uint_clmul: "uint (clmul a b) = iclmul 64 (uint b) (uint a) 0"
proof -
  have u: "uint (ucast a :: u128) = uint a" by (simp add: unsigned_ucast_eq take_bit_int_eq_self uint_bounded [THEN less_le_trans])
  have "uint (ucast a :: u128) * 2 ^ 64 \<le> 2 ^ 128" unfolding u using uint_bounded [of a] by simp
  from iclmul_comb [OF this, of b 0] show ?thesis unfolding u by (simp add: clmul_def)
qed

lemma uint_barrett: "uint (barrett w) = ibar (uint w)"
proof -
  have low: "uint (low64 p) = uint p mod 18446744073709551616" for p
    by (simp add: low64_def unsigned_ucast_eq take_bit_eq_mod)
  have low32: "uint (ucast p :: u32) = uint p mod 4294967296" for p :: u128
    by (simp add: unsigned_ucast_eq take_bit_eq_mod)
  have sh: "uint (srli_si128 n p) = uint p div 2 ^ (8 * n)" for n p
    by (simp add: srli_si128_def uint_drop)
  show ?thesis
    unfolding barrett_def ibar_def Let_def low32
    by (simp add: clmul_lo_def uint_clmul low sh unsigned_xor_eq VMU_def VM_def)
qed

section \<open>The reduction is the residue\<close>

lemma additive_barrett: "additive barrett"
  unfolding barrett_def Let_def srli_si128_def clmul_lo_def
  by (intro additive_intros)

lemma bar_ok_nth: "bar_ok n p e \<Longrightarrow> e = uint c \<Longrightarrow> k < n \<Longrightarrow> ibar (p * 2 ^ k) = uint ((ytime ^^ k) c)"
proof (induction n p e arbitrary: c k rule: bar_ok.induct)
  case (2 n p e)
  show ?case
  proof (cases k)
    case (Suc j)
    have "ibar (2 * p * 2 ^ j) = uint ((ytime ^^ j) (ytime c))"
      using 2(1) [of "ytime c" j] 2(2,3,4) Suc by (simp add: uint_ytime)
    then show ?thesis using Suc by (simp add: mult.left_commute mult.assoc funpow_swap1)
  qed (use 2 in simp)
qed simp

lemma barrett_xbit: "k < 63 \<Longrightarrow> barrett (xbit k) = (ytime ^^ k) 1"
proof -
  assume k: "k < 63"
  have "bit (xbit k :: u128) k" using k by simp
  moreover have "\<not> bit (0 :: u128) k" by simp
  ultimately have "xbit k \<noteq> (0 :: u128)" by metis
  then have x: "uint (xbit k :: u128) = 2 ^ k" using uint_2p [where 'a = 128, of k] by (simp add: xbit_def word_gt_0)
  have "ibar (1 * 2 ^ k) = uint ((ytime ^^ k) 1)" by (rule bar_ok_nth [OF barrett_basis_eval _ k]) simp
  then have "uint (barrett (xbit k)) = uint ((ytime ^^ k) 1)" by (simp add: uint_barrett x)
  then show ?thesis by (simp only: word_uint_eq_iff)
qed

theorem clmul_reduce_ring: "clmul_reduce_mod_vm x86_64 (ucast a) (ucast b) = ucast (ring_mul ytime a b)"
proof -
  have i: "(ucast (xbit i :: u32) :: u64) = xbit i" if "i < LENGTH(32)" for i
    using that by (intro xbit_ucast) simp_all
  have "barrett (clmul (ucast a) (ucast b)) = ring_mul ytime a b"
  proof (rule additive_ext [of "\<lambda>a. barrett (clmul (ucast a) (ucast b))" "\<lambda>a. ring_mul ytime a b"])
    show "additive (\<lambda>a :: u32. barrett (clmul (ucast a) (ucast b)))"
      by (intro additive_compose [OF additive_barrett] additive_intros)
    show "additive (\<lambda>a. ring_mul ytime a b)" by (intro yt.additive_mul_left additive_intros)
    fix i assume n: "i < LENGTH(32)"
    show "barrett (clmul (ucast (xbit i :: u32)) (ucast b)) = ring_mul ytime (xbit i) b"
    proof (rule additive_ext [of "\<lambda>b. barrett (clmul (ucast (xbit i :: u32)) (ucast b))" "ring_mul ytime (xbit i)"])
      show "additive (\<lambda>b :: u32. barrett (clmul (ucast (xbit i :: u32)) (ucast b)))"
        by (intro additive_compose [OF additive_barrett] additive_intros)
      show "additive (ring_mul ytime (xbit i))" by (intro yt.additive_mul_right additive_intros)
      fix j assume m: "j < LENGTH(32)"
      have "barrett (clmul (ucast (xbit i :: u32)) (ucast (xbit j :: u32))) = (ytime ^^ (i + j)) 1"
        using n m by (simp add: i clmul_bits barrett_xbit)
      also have "\<dots> = ring_mul ytime (xbit i) (xbit j)"
        using n m yt.power_add [of i j 1] by (simp add: yt.mul_xbit yt.power_xbit)
      finally show "barrett (clmul (ucast (xbit i :: u32)) (ucast (xbit j :: u32))) = ring_mul ytime (xbit i) (xbit j)" .
    qed
  qed
  then show ?thesis by (simp add: clmul_reduce_mod_vm_def sw_pcl pcl_barrett)
qed

lemma narrow_wide: "ucast (ucast (c :: u32) :: u64) = c"
  by (rule bit_word_eqI) (auto simp: bit_simps)

section \<open>The tables are powers\<close>

lemma icrc_add: "icrc m (icrc n c) = icrc (n + m) c"
  by (induction n c rule: icrc.induct) simp_all

lemma icrc_steps_nth: "icrc_steps n cs \<Longrightarrow> i < length cs \<Longrightarrow> cs ! i = icrc (n * i) (cs ! 0)"
proof (induction n cs arbitrary: i rule: icrc_steps.induct)
  case (1 n c d cs)
  show ?case
  proof (cases i)
    case (Suc j)
    then have "(d # cs) ! j = icrc (n * j) d" using 1 by simp
    then show ?thesis using Suc 1(2) icrc_add [of "n * j" n c] by simp
  qed simp
qed simp_all

lemma uint_zeros: "uint (ucast (zeros n 1) :: u64) = icrc (8 * n) 1"
proof -
  have "uint (ucast (zeros n 1) :: u64) = uint (zeros n 1)"
    using uint_bounded [of "zeros n 1"] by (simp add: unsigned_ucast_eq take_bit_int_eq_self)
  also have "\<dots> = icrc (8 * n) 1" by (simp add: zeros_def uint_crc_bits)
  finally show ?thesis .
qed

lemma table_lengths: "length AFFINE_POW_BYTE_TABLE = 16" "length AFFINE_POW_128B_TABLE = 128"
  by (simp_all add: AFFINE_POW_BYTE_TABLE_def AFFINE_POW_128B_TABLE_def)

lemma byte_table: "r < 16 \<Longrightarrow> AFFINE_POW_BYTE_TABLE ! r = ucast (zeros r 1)"
proof -
  assume r: "r < 16"
  have "uint (AFFINE_POW_BYTE_TABLE ! 0) = 1" by (simp add: AFFINE_POW_BYTE_TABLE_def)
  then have "uint (AFFINE_POW_BYTE_TABLE ! r) = icrc (8 * r) 1"
    using icrc_steps_nth [OF byte_table_eval, of r] r by (simp add: table_lengths)
  then show ?thesis by (simp add: word_uint_eq_iff uint_zeros)
qed

lemma block_table: "0 < k \<Longrightarrow> k \<le> 128 \<Longrightarrow> AFFINE_POW_128B_TABLE ! (k - 1) = ucast (zeros (16 * k) 1)"
proof -
  assume k: "0 < k" "k \<le> 128"
  obtain z: "icrc 128 1 = uint (AFFINE_POW_128B_TABLE ! 0)" and s: "icrc_steps 128 (map uint AFFINE_POW_128B_TABLE)"
    using block_table_eval by blast
  have "uint (AFFINE_POW_128B_TABLE ! (k - 1)) = icrc (128 * (k - 1)) (icrc 128 1)"
    using icrc_steps_nth [OF s, of "k - 1"] k by (simp add: table_lengths z)
  also have "\<dots> = icrc (8 * (16 * k)) 1" using k unfolding icrc_add by (cases k) simp_all
  finally show ?thesis by (simp add: word_uint_eq_iff uint_zeros)
qed

lemma affine_span_const_zeros: "span_len \<le> 2048 \<Longrightarrow> affine_span_const x86_64 span_len = Some (ucast (zeros span_len 1))"
proof -
  assume l: "span_len \<le> 2048"
  let ?k = "span_len div 16" and ?r = "span_len mod 16"
  have "ring_mul ytime (zeros (16 * ?k) 1) (zeros ?r 1) = zeros ?r (zeros (16 * ?k) 1)" by (rule zeros_mul [symmetric])
  also have "\<dots> = zeros span_len 1" by (simp add: zeros_add)
  finally have m: "ring_mul ytime (zeros (16 * ?k) 1) (zeros ?r 1) = zeros span_len 1" .
  show ?thesis
  proof (cases "?k = 0")
    case True
    then have "?r = span_len" by simp
    then show ?thesis using l True byte_table [of ?r] by (simp add: affine_span_const_def)
  next
    case False
    have "?k \<le> 128" using l by simp
    then show ?thesis
      using l False byte_table [of ?r] block_table [of ?k] by (simp add: affine_span_const_def clmul_reduce_ring m)
  qed
qed

lemma affine_projection:
  assumes "length b \<le> 2048"
  shows "span_crc32c_affine_sub x86_64 (mm_crc32 0 (a @ b)) (mm_crc32 0 a) (length b) = Some (mm_crc32 0 b)"
  using assms zeros_mul [of "length b" "mm_crc32 0 a"]
  by (simp add: span_crc32c_affine_sub_def affine_span_const_zeros clmul_reduce_ring crc_append narrow_wide xor.assoc)

text \<open>C37: (The span projection.)  For a span of at most 2048 bytes anywhere in a stream, the register of the
  span alone is computed from the registers of the stream before and after it: two carry-less products modulo
  \<open>VM\<close>, on either processor path, no byte of the span read.\<close>

theorem affine_projection_is_span_crc:
  assumes "length b \<le> 2048"
  shows "span_crc32c_affine_sub x86_64 (mm_crc32 0 (a @ b)) (mm_crc32 0 a) (length b) = Some (mm_crc32 0 b)"
  by (rule affine_projection [OF assms])

lemma affine_projection_is_span_crc_witness:
  "span_crc32c_affine_sub True (mm_crc32 0 ([1, 2] @ [3, 4, 5])) (mm_crc32 0 [1, 2]) (length [3 :: u8, 4, 5])
    = Some (mm_crc32 0 [3, 4, 5])"
  by (rule affine_projection_is_span_crc) simp

end
