(* ===== verification/SpanLanes.thy ===== *)
theory SpanLanes
  imports AffineLaw
begin

text \<open>
  The eight interleaved registers of a span and their combination
  (\<open>crates/nf-testkit/src/sink.rs\<close>, \<open>crates/nf-transport/src/rxdesc.rs\<close>), and the projection of
  all eight from the registers of a stream before and after a span
  (\<open>crates/nf-testkit/src/crcfold.rs\<close>), scalar and on 512-bit registers.
\<close>

section \<open>The eight registers\<close>

definition lane_block :: "bytes \<Rightarrow> nat \<Rightarrow> u32 list \<Rightarrow> u32 list" where
  "lane_block bs i lanes = map (\<lambda>k. mm_crc32 (lanes ! k) (slice (i + 8 * k) (i + 8 * k + 8) bs)) [0..<8]"

function lane_blocks :: "bytes \<Rightarrow> nat \<Rightarrow> u32 list \<Rightarrow> u32 list \<times> nat" where
  "lane_blocks bs i lanes =
     (if i + 64 \<le> length bs then lane_blocks bs (i + 64) (lane_block bs i lanes) else (lanes, i))"
  by pat_completeness auto
termination lane_blocks by (relation "measure (\<lambda>(bs, i, lanes). length bs - i)") auto

declare lane_blocks.simps [simp del]

definition span_lanes :: "bytes \<Rightarrow> u32 list" where
  "span_lanes bs =
     (let (lanes, i) = lane_blocks bs 0 (replicate 8 0)
      in lanes[0 := words_upto mm_crc32 (length bs) bs i (lanes ! 0)])"

definition span_lane_combine :: "Mode \<Rightarrow> u32 list \<Rightarrow> nat \<Rightarrow> u64" where
  "span_lane_combine mode lanes len = spanhash64_lanes mode lanes len"

definition span_crc32c_8lane :: "Mode \<Rightarrow> bytes \<Rightarrow> u64" where
  "span_crc32c_8lane mode body = span_lane_combine mode (span_lanes body) (length body)"

definition span_crc32c_8lane_from_tags :: "Mode \<Rightarrow> u32 list \<Rightarrow> nat \<Rightarrow> u64" where
  "span_crc32c_8lane_from_tags mode lanes len = span_lane_combine mode lanes len"

section \<open>The eight-lane projection\<close>

definition fnv_lanes_64 :: "Mode \<Rightarrow> u32 list \<Rightarrow> nat \<Rightarrow> u64" where
  "fnv_lanes_64 mode lanes len = span_lane_combine mode lanes len"

text \<open>A 512-bit register is four 128-bit fields; as quadwords it is the words of its fields.\<close>

definition fields :: "u64 list \<Rightarrow> u128 list" where
  "fields q = map (\<lambda>i. double (q ! (2 * i), q ! (2 * i + 1))) [0..<4]"

definition set1_epi64 :: "u64 \<Rightarrow> u128 list" where
  "set1_epi64 v = replicate 4 (double (v, v))"

definition maskz_permutexvar :: "nat \<Rightarrow> nat list \<Rightarrow> u64 list \<Rightarrow> u128 list" where
  "maskz_permutexvar m idx q = fields (map (\<lambda>j. if bit m j then q ! (idx ! j) else 0) [0..<8])"

definition clmul_lo512 :: "u128 list \<Rightarrow> u128 list \<Rightarrow> u128 list" where
  "clmul_lo512 v w = map2 (\<lambda>x y. clmul (low64 x) (low64 y)) v w"

definition alignr_epi8 :: "u128 list \<Rightarrow> nat \<Rightarrow> u128 list" where
  "alignr_epi8 v n = map (\<lambda>x. drop_bit (8 * n) x OR push_bit (128 - 8 * n) x) v"

definition xor_si512 :: "u128 list \<Rightarrow> u128 list \<Rightarrow> u128 list" where
  "xor_si512 v w = map2 (XOR) v w"

text \<open>The two Barrett steps on the four fields of one register.\<close>

definition barrett512 :: "u128 list \<Rightarrow> u128 list" where
  "barrett512 p =
     (let bvmu = set1_epi64 VMU; bvm = set1_epi64 VM;
          x = alignr_epi8 p 4;
          pq = clmul_lo512 x bvmu;
          qh = alignr_epi8 pq 7;
          r = xor_si512 p (clmul_lo512 qh bvm)
      in xor_si512 r (clmul_lo512 (alignr_epi8 r 4) bvm))"

definition span_crc32c_8lane_affine_sub_vec :: "Mode \<Rightarrow> u32 list \<Rightarrow> u32 list \<Rightarrow> u64 \<Rightarrow> nat \<Rightarrow> u64" where
  "span_crc32c_8lane_affine_sub_vec mode cum_lanes prefix_lanes c_adv span_len =
     (let bc = set1_epi64 c_adv;
          cvt = map ucast prefix_lanes;
          fa = maskz_permutexvar 0x55 [0, 0, 1, 0, 2, 0, 3, 0] cvt;
          fb = maskz_permutexvar 0x55 [4, 0, 5, 0, 6, 0, 7, 0] cvt;
          oa = barrett512 (clmul_lo512 fa bc);
          ob = barrett512 (clmul_lo512 fb bc);
          lanes = map (\<lambda>k. ucast (oa ! k) XOR cum_lanes ! k) [0..<4]
                @ map (\<lambda>k. ucast (ob ! k) XOR cum_lanes ! (4 + k)) [0..<4]
      in span_lane_combine mode lanes span_len)"

definition lane_advance :: "bool \<Rightarrow> nat \<Rightarrow> u64" where
  "lane_advance x86_64 span_len =
     (let l8 = span_len div 8; k = l8 div 16; r = l8 mod 16
      in if k = 0 then AFFINE_POW_BYTE_TABLE ! r
         else clmul_reduce_mod_vm x86_64 (AFFINE_POW_128B_TABLE ! (k - 1)) (AFFINE_POW_BYTE_TABLE ! r))"

text \<open>The variable \<open>HFT_CRC_AFFINE_VEC\<close> and the processor class decide on the vector path.\<close>

definition affine_vec_enabled :: "string option \<Rightarrow> bool \<Rightarrow> bool" where
  "affine_vec_enabled env fold512 = (if env = Some ''1'' then True else if env = Some ''0'' then False else fold512)"

definition span_crc32c_8lane_affine_sub :: "bool \<Rightarrow> bool \<Rightarrow> Mode \<Rightarrow> u32 list \<Rightarrow> u32 list \<Rightarrow> nat \<Rightarrow> u64 option" where
  "span_crc32c_8lane_affine_sub x86_64 vec mode cum_lanes prefix_lanes span_len =
     (if \<not> (span_len mod 64 = 0 \<and> span_len div 8 \<le> 2048) then None
      else let c_adv = lane_advance x86_64 span_len
        in if vec then Some (span_crc32c_8lane_affine_sub_vec mode cum_lanes prefix_lanes c_adv span_len)
           else Some (fnv_lanes_64 mode
             (map (\<lambda>j. cum_lanes ! j XOR ucast (clmul_reduce_mod_vm x86_64 (ucast (prefix_lanes ! j)) c_adv)) [0..<8]) span_len))"

section \<open>Registers of whole blocks\<close>

text \<open>The bytes that reach register \<open>k\<close> from \<open>n\<close> blocks.\<close>

definition lane_bytes :: "nat \<Rightarrow> nat \<Rightarrow> bytes \<Rightarrow> bytes" where
  "lane_bytes n k bs = concat (map (\<lambda>j. slice (64 * j + 8 * k) (64 * j + 8 * k + 8) bs) [0..<n])"

lemma length_lane_block [simp]: "length (lane_block bs i lanes) = 8"
  by (simp add: lane_block_def)

lemma lane_blocks_lanes:
  assumes "i = 64 * m" "i \<le> length bs" "length lanes = 8" "\<And>k. k < 8 \<Longrightarrow> lanes ! k = mm_crc32 0 (lane_bytes m k bs)"
  shows "snd (lane_blocks bs i lanes) = 64 * (length bs div 64) \<and> length (fst (lane_blocks bs i lanes)) = 8 \<and>
    (\<forall>k<8. fst (lane_blocks bs i lanes) ! k = mm_crc32 0 (lane_bytes (length bs div 64) k bs))"
  using assms
proof (induction bs i lanes arbitrary: m rule: lane_blocks.induct)
  case (1 bs i lanes)
  show ?case
  proof (cases "i + 64 \<le> length bs")
    case True
    have "lane_block bs i lanes ! k = mm_crc32 0 (lane_bytes (Suc m) k bs)" if "k < 8" for k
      using 1(5) [OF that] that 1(2) by (simp add: lane_block_def lane_bytes_def crc_run.step_append)
    then show ?thesis
      using 1(1) [OF True, of "Suc m"] True 1(2) by (subst (1 2 3) lane_blocks.simps) simp
  next
    case False
    then have "length bs div 64 = m" using 1(2,3) by (intro div_nat_eqI) simp_all
    then show ?thesis using False 1 by (subst (1 2 3) lane_blocks.simps) simp
  qed
qed

lemma span_lanes_bytes:
  "length (span_lanes bs) = 8"
  "k < 8 \<Longrightarrow> span_lanes bs ! k =
    mm_crc32 0 (lane_bytes (length bs div 64) k bs @ (if k = 0 then drop (64 * (length bs div 64)) bs else []))"
proof -
  obtain lanes i where l: "lane_blocks bs 0 (replicate 8 0) = (lanes, i)" by fastforce
  have *: "i = 64 * (length bs div 64)" "length lanes = 8" "\<forall>k<8. lanes ! k = mm_crc32 0 (lane_bytes (length bs div 64) k bs)"
    using lane_blocks_lanes [of 0 0 bs "replicate 8 0"] by (simp_all add: l lane_bytes_def mm_crc32_def)
  have i: "i \<le> length bs" using *(1) by simp
  have d: "slice i (length bs) bs = drop i bs" by (simp add: slice_def)
  show "length (span_lanes bs) = 8" by (simp add: span_lanes_def l *(2))
  show "span_lanes bs ! k =
    mm_crc32 0 (lane_bytes (length bs div 64) k bs @ (if k = 0 then drop (64 * (length bs div 64)) bs else []))" if "k < 8"
    using that *(2,3) i
    by (cases "k = 0") (simp_all add: span_lanes_def l crc_run.words_upto_run d *(1) [symmetric] crc_run.step_append)
qed

lemma lane_bytes_append:
  assumes "length a = 64 * m"
  shows "lane_bytes (m + n) k (a @ b) = lane_bytes m k (a @ b) @ lane_bytes n k b"
proof -
  have "[0..<m + n] = [0..<m] @ map (\<lambda>j. m + j) [0..<n]" 
    using upt_add_eq_append [of 0 m n] map_add_upt [of m n] by (simp add: add.commute)
  then show ?thesis using assms by (simp add: lane_bytes_def comp_def algebra_simps)
qed

lemma lane_bytes_take: "k < 8 \<Longrightarrow> 64 * m \<le> length a \<Longrightarrow> lane_bytes m k (a @ b) = lane_bytes m k a"
  unfolding lane_bytes_def
  by (intro arg_cong [of _ _ concat] map_cong refl) (simp add: slice_def)

lemma length_lane_bytes: "k < 8 \<Longrightarrow> 64 * n \<le> length bs \<Longrightarrow> length (lane_bytes n k bs) = 8 * n"
  by (induction n) (simp_all add: lane_bytes_def)

section \<open>Both paths project every register\<close>

lemma low_alignr: "n \<le> 8 \<Longrightarrow> i < length v \<Longrightarrow> low64 (alignr_epi8 v n ! i) = low64 (srli_si128 n (v ! i))"
proof -
  assume n: "n \<le> 8" "i < length v"
  have "low64 (drop_bit (8 * n) x OR push_bit (128 - 8 * n) x) = low64 (drop_bit (8 * n) x)" for x :: u128
    using n(1) by (intro bit_word_eqI) (auto simp: low64_def bit_simps)
  then show ?thesis using n(2) by (simp add: alignr_epi8_def srli_si128_def)
qed

lemma field_lengths [simp]:
  "length (alignr_epi8 v n) = length v" "length (set1_epi64 c) = 4" "length (fields q) = 4"
  "length (clmul_lo512 v w) = min (length v) (length w)" "length (xor_si512 v w) = min (length v) (length w)"
  by (simp_all add: alignr_epi8_def set1_epi64_def fields_def clmul_lo512_def xor_si512_def)

lemma nth_fields_ops:
  "i < 4 \<Longrightarrow> low64 (set1_epi64 c ! i) = c"
  "i < length v \<Longrightarrow> i < length w \<Longrightarrow> clmul_lo512 v w ! i = clmul (low64 (v ! i)) (low64 (w ! i))"
  "i < length v \<Longrightarrow> i < length w \<Longrightarrow> xor_si512 v w ! i = v ! i XOR w ! i"
  by (simp_all add: set1_epi64_def clmul_lo512_def xor_si512_def)

lemma barrett512_nth: "i < 4 \<Longrightarrow> length p = 4 \<Longrightarrow> ucast (barrett512 p ! i) = barrett (p ! i)"
  by (simp add: barrett512_def barrett_def Let_def nth_fields_ops low_alignr clmul_lo_def)

lemma permute_low:
  assumes "i < 4"
  shows "low64 (maskz_permutexvar 0x55 [0, 0, 1, 0, 2, 0, 3, 0] q ! i) = q ! i"
    "low64 (maskz_permutexvar 0x55 [4, 0, 5, 0, 6, 0, 7, 0] q ! i) = q ! (4 + i)"
proof -
  have "list_all (\<lambda>i. bit (0x55 :: nat) (2 * i) \<and> [0, 0, 1, 0, 2, 0, 3, 0 :: nat] ! (2 * i) = i \<and>
      [4, 0, 5, 0, 6, 0, 7, 0 :: nat] ! (2 * i) = 4 + i) [0..<4]"
    by code_simp
  then have m: "bit (0x55 :: nat) (2 * i)" "[0, 0, 1, 0, 2, 0, 3, 0 :: nat] ! (2 * i) = i" "[4, 0, 5, 0, 6, 0, 7, 0 :: nat] ! (2 * i) = 4 + i"
    using assms by (simp_all add: list_all_iff)
  have "low64 (maskz_permutexvar 0x55 idx q ! i) = (if bit (0x55 :: nat) (2 * i) then q ! (idx ! (2 * i)) else 0)" for idx
    using assms by (simp add: maskz_permutexvar_def fields_def)
  then show "low64 (maskz_permutexvar 0x55 [0, 0, 1, 0, 2, 0, 3, 0] q ! i) = q ! i"
    "low64 (maskz_permutexvar 0x55 [4, 0, 5, 0, 6, 0, 7, 0] q ! i) = q ! (4 + i)"
    using m by simp_all
qed

lemma length_permute [simp]: "length (maskz_permutexvar m idx q) = 4"
  by (simp add: maskz_permutexvar_def)

lemma vec_lanes:
  assumes "length prefix_lanes = 8"
  shows "span_crc32c_8lane_affine_sub_vec mode cum_lanes prefix_lanes (ucast (c :: u32)) len
    = span_lane_combine mode (map (\<lambda>j. cum_lanes ! j XOR ring_mul ytime (prefix_lanes ! j) c) [0..<8]) len"
proof -
  have r: "barrett (clmul (ucast a) (ucast c)) = ring_mul ytime a c" for a :: u32
  proof -
    have "(ucast (barrett (clmul (ucast a) (ucast c))) :: u64) = ucast (ring_mul ytime a c)"
      using clmul_reduce_ring [of True a c] by (simp add: clmul_reduce_mod_vm_def pcl_barrett)
    then have "(ucast (ucast (barrett (clmul (ucast a) (ucast c))) :: u64) :: u32) = ucast (ucast (ring_mul ytime a c) :: u64)"
      by (rule arg_cong)
    then show ?thesis unfolding narrow_wide .
  qed
  have u: "ucast (barrett512 (clmul_lo512 (maskz_permutexvar 0x55 idx (map ucast prefix_lanes)) (set1_epi64 (ucast c))) ! i)
      = ring_mul ytime (prefix_lanes ! j) c"
    if "i < 4" "low64 (maskz_permutexvar 0x55 idx (map ucast prefix_lanes) ! i) = ucast (prefix_lanes ! j)" for idx i j
    using that by (simp add: barrett512_nth nth_fields_ops r)
  have a: "ucast (barrett512 (clmul_lo512 (maskz_permutexvar 0x55 [0, 0, 1, 0, 2, 0, 3, 0] (map ucast prefix_lanes)) (set1_epi64 (ucast c))) ! i)
      = ring_mul ytime (prefix_lanes ! i) c" if "i < 4" for i
    by (rule u [OF that], unfold permute_low(1) [OF that]) (use that assms in simp)
  have b: "ucast (barrett512 (clmul_lo512 (maskz_permutexvar 0x55 [4, 0, 5, 0, 6, 0, 7, 0] (map ucast prefix_lanes)) (set1_epi64 (ucast c))) ! i)
      = ring_mul ytime (prefix_lanes ! (4 + i)) c" if "i < 4" for i
    by (rule u [OF that], unfold permute_low(2) [OF that]) (use that assms in simp)
  have s: "[0..<8] = [0..<4] @ map (\<lambda>j. 4 + j) [0..<4 :: nat]" by (simp add: upt_rec)
  show ?thesis
    unfolding span_crc32c_8lane_affine_sub_vec_def Let_def s map_append map_map comp_def
    by (intro arg_cong2 [of _ _ _ _ "\<lambda>l n. span_lane_combine mode l n"] arg_cong2 [of _ _ _ _ append] map_cong refl)
      (simp_all add: a [unfolded One_nat_def] b xor.commute)
qed

text \<open>C36: (The eight-lane projection.)  For a span of whole 64-byte blocks after whole blocks of a stream, the
  hash of the span is computed from the eight registers before and after it, on the scalar and on the 512-bit
  path alike, without reading the span.\<close>

theorem lane_projection_is_span_hash:
  assumes "length a mod 64 = 0" "length b mod 64 = 0" "length b \<le> 16384"
  shows "span_crc32c_8lane_affine_sub x86_64 vec mode (span_lanes (a @ b)) (span_lanes a) (length b)
    = Some (span_crc32c_8lane mode b)"
proof -
  obtain m n where mn: "length a = 64 * m" "length b = 64 * n" using assms(1,2) by (metis mod_0_imp_dvd dvdE)
  have l8: "length b div 8 \<le> 2048" using assms(3) by simp
  then have adv: "lane_advance x86_64 (length b) = ucast (zeros (8 * n) 1)"
    using affine_span_const_zeros [OF l8, of x86_64] mn(2) by (simp add: affine_span_const_def lane_advance_def Let_def split: if_splits)
  have lane: "span_lanes (a @ b) ! k XOR ring_mul ytime (span_lanes a ! k) (zeros (8 * n) 1) = span_lanes b ! k" if k: "k < 8" for k
  proof -
    have d: "(64 * m + 64 * n) div 64 = m + n" by simp
    have "span_lanes (a @ b) ! k = mm_crc32 0 (lane_bytes m k a @ lane_bytes n k b)"
      using k by (simp add: span_lanes_bytes mn d lane_bytes_append lane_bytes_take)
    moreover have "span_lanes a ! k = mm_crc32 0 (lane_bytes m k a)" "span_lanes b ! k = mm_crc32 0 (lane_bytes n k b)"
      using k by (simp_all add: span_lanes_bytes mn)
    moreover have "length (lane_bytes n k b) = 8 * n" using k mn(2) by (simp add: length_lane_bytes)
    ultimately show ?thesis by (simp add: crc_append zeros_mul [symmetric] xor.assoc)
  qed
  have lanes: "map (\<lambda>j. span_lanes (a @ b) ! j XOR ring_mul ytime (span_lanes a ! j) (zeros (8 * n) 1)) [0..<8] = span_lanes b"
    by (rule nth_equalityI) (simp_all add: span_lanes_bytes(1) lane)
  have "length b mod 64 = 0 \<and> length b div 8 \<le> 2048" using assms(2) l8 by simp
  then show ?thesis
    by (simp add: span_crc32c_8lane_affine_sub_def Let_def adv vec_lanes span_lanes_bytes(1) clmul_reduce_ring narrow_wide lanes
        fnv_lanes_64_def span_crc32c_8lane_def)
qed

lemma lane_projection_is_span_hash_witness:
  "span_crc32c_8lane_affine_sub True True Vec256 (span_lanes (replicate 64 7 @ replicate 128 9)) (span_lanes (replicate 64 7)) 128
    = Some (span_crc32c_8lane Vec256 (replicate 128 9))"
  using lane_projection_is_span_hash [of "replicate 64 7" "replicate 128 9" True True Vec256] by simp

end
