(* ===== verification/SpanSink.thy ===== *)
theory SpanSink
  imports Conformance SpanLanes ReplayIngest
begin

text \<open>
  The span conformance sink of the test kit (\<open>crates/nf-testkit/src/sink.rs\<close>), which takes runs of
  messages as spans and hashes every byte of a span with eight registers.  Its assertions look at a
  span only; against the per-message sink of theory \<open>Conformance\<close> it accepts the same deliveries.
\<close>

section \<open>The sink\<close>

record SpanConformanceSink =
  sp_hash :: u64
  sp_count :: u64
  sp_last_gen :: u64
  sp_gap_open_gen :: "u64 option"
  sp_gap_open_from :: "u64 option"
  sp_gap_opens :: u64
  sp_reanchors :: u64
  sp_session_boundaries :: u64
  sp_end_of_sessions :: u64
  sp_session_deads :: u64
  sp_last_seq :: u64
  sp_msg_hash :: u64

definition SPAN_SEED :: u64 where "SPAN_SEED = 0xcbf29ce484222325"

definition SpanConformanceSink_new :: SpanConformanceSink where
  "SpanConformanceSink_new =
     \<lparr>sp_hash = SPAN_SEED, sp_count = 0, sp_last_gen = 0, sp_gap_open_gen = None, sp_gap_open_from = None,
      sp_gap_opens = 0, sp_reanchors = 0, sp_session_boundaries = 0, sp_end_of_sessions = 0,
      sp_session_deads = 0, sp_last_seq = 0, sp_msg_hash = SPAN_SEED\<rparr>"

definition span_on_msg :: "u64 \<Rightarrow> u64 \<Rightarrow> bytes \<Rightarrow> SpanConformanceSink \<Rightarrow> SpanConformanceSink option" where
  "span_on_msg gen q msg k =
     (if \<not> sp_last_gen k \<le> gen then None
      else if sp_last_seq k \<noteq> 0 \<and> q \<noteq> sp_last_seq k + 1 then None
      else Some (k\<lparr>sp_last_seq := q,
             sp_msg_hash := fast_hash_bytes (fast_hash_bytes (sp_msg_hash k) (u16_to_le_bytes (of_nat (length msg)))) msg,
             sp_count := sp_count k + 1\<rparr>))"

fun span_on_event :: "Event \<Rightarrow> SpanConformanceSink \<Rightarrow> SpanConformanceSink option" where
  "span_on_event (GapOpened w ahead gen) k =
     (if \<not> sp_last_gen k < gen then None
      else if sp_gap_open_gen k \<noteq> None then None
      else Some (k\<lparr>sp_last_gen := gen, sp_gap_open_gen := Some gen, sp_gap_open_from := Some w,
             sp_gap_opens := sp_gap_opens k + 1\<rparr>))"
| "span_on_event (ReAnchored gen w) k =
     (if sp_gap_open_gen k \<noteq> Some gen then None
      else if \<not> (case sp_gap_open_from k of None \<Rightarrow> True | Some f \<Rightarrow> f \<le> w) then None
      else Some (k\<lparr>sp_gap_open_gen := None, sp_gap_open_from := None, sp_reanchors := sp_reanchors k + 1\<rparr>))"
| "span_on_event (SessionBoundary p n gen) k =
     (if \<not> sp_last_gen k < gen then None
      else Some (k\<lparr>sp_last_gen := gen, sp_gap_open_gen := None, sp_gap_open_from := None,
             sp_session_boundaries := sp_session_boundaries k + 1, sp_last_seq := 0\<rparr>))"
| "span_on_event (Event.EndOfSessionEv s w a) k =
     Some (k\<lparr>sp_gap_open_gen := None, sp_gap_open_from := None, sp_end_of_sessions := sp_end_of_sessions k + 1\<rparr>)"
| "span_on_event (SessionDead r w) k =
     Some (k\<lparr>sp_gap_open_gen := None, sp_gap_open_from := None, sp_session_deads := sp_session_deads k + 1\<rparr>)"

definition span_on_span :: "Mode \<Rightarrow> u64 \<Rightarrow> u64 \<Rightarrow> u16 \<Rightarrow> bytes \<Rightarrow> SpanConformanceSink \<Rightarrow> SpanConformanceSink option" where
  "span_on_span mode gen first_seq cnt body k =
     (if \<not> sp_last_gen k \<le> gen then None
      else if sp_last_seq k \<noteq> 0 \<and> first_seq \<noteq> sp_last_seq k + 1 then None
      else Some (k\<lparr>sp_last_seq := first_seq + ucast cnt - 1,
             sp_hash := rotate_left64 (sp_hash k) 13 XOR span_crc32c_8lane mode body * FOLD_MIX_P,
             sp_count := sp_count k + ucast cnt\<rparr>))"

text \<open>\<open>on_span_batch\<close> is the trait's default, which replays the records through \<open>on_span\<close>; the packed
  batch is the default that panics.\<close>

fun span_on_span_batch :: "Mode \<Rightarrow> u64 \<Rightarrow> SpanRec list \<Rightarrow> SpanConformanceSink \<Rightarrow> SpanConformanceSink option" where
  "span_on_span_batch mode gen [] k = Some k"
| "span_on_span_batch mode gen (r # rs) k =
     (case span_on_span mode gen (sr_first_seq r) (sr_count r) (sr_body r) k of
        None \<Rightarrow> None | Some k' \<Rightarrow> span_on_span_batch mode gen rs k')"

fun span_sink_call :: "Mode \<Rightarrow> SinkCall \<Rightarrow> SpanConformanceSink \<Rightarrow> SpanConformanceSink option" where
  "span_sink_call mode (OnMsg g q m) k = span_on_msg g q m k"
| "span_sink_call mode (OnEvent e) k = span_on_event e k"
| "span_sink_call mode (OnSpan g r) k = span_on_span mode g (sr_first_seq r) (sr_count r) (sr_body r) k"
| "span_sink_call mode (OnSpanBatch g rs) k = span_on_span_batch mode g rs k"
| "span_sink_call mode (OnSpanBatchPacked g a b c ws) k = None"

fun span_sink_calls :: "Mode \<Rightarrow> SinkCall list \<Rightarrow> SpanConformanceSink \<Rightarrow> SpanConformanceSink option" where
  "span_sink_calls mode [] k = Some k"
| "span_sink_calls mode (c # cs) k =
     (case span_sink_call mode c k of None \<Rightarrow> None | Some k' \<Rightarrow> span_sink_calls mode cs k')"

section \<open>Batches of spans\<close>

text \<open>A batch of spans is its spans one after the other, for this sink and for the drivers.\<close>

fun unbatch :: "SinkCall \<Rightarrow> SinkCall list" where
  "unbatch (OnSpanBatch g rs) = map (OnSpan g) rs"
| "unbatch c = [c]"

lemma span_sink_calls_append:
  "span_sink_calls mode (xs @ ys) k =
    (case span_sink_calls mode xs k of None \<Rightarrow> None | Some k' \<Rightarrow> span_sink_calls mode ys k')"
  by (induction mode xs k rule: span_sink_calls.induct) (auto split: option.split)

lemma span_batch_flat: "span_on_span_batch mode g rs k = span_sink_calls mode (map (OnSpan g) rs) k"
  by (induction mode g rs k rule: span_on_span_batch.induct) (auto split: option.split)

lemma span_call_flat: "span_sink_calls mode (unbatch c) k = span_sink_call mode c k"
  by (cases c) (simp_all add: span_batch_flat split: option.split)

lemma span_calls_flat: "span_sink_calls mode (concat (map unbatch cs)) k = span_sink_calls mode cs k"
  by (induction mode cs k rule: span_sink_calls.induct)
    (simp_all add: span_sink_calls_append span_call_flat split: option.split)

lemma expand_flat: "expand_all (concat (map unbatch cs)) = expand_all cs"
proof -
  have "expand_all (unbatch c) = expand c" for c by (cases c) (simp_all add: expand_all_def comp_def)
  then show ?thesis by (induction cs) simp_all
qed

interpretation span_runs: span_emitter rec_emitter "\<lambda>em es. em = map entry_span es" unbatch "\<lambda>_. True" "\<lambda>_ _. True"
  by unfold_locales (auto simp: rec_emitter_def entry_span_def comp_def concat_map_singleton)

section \<open>The contract of a span\<close>

definition span_contract :: "SpanRec \<Rightarrow> bool" where
  "span_contract r \<longleftrightarrow> sr_blocks r \<noteq> [] \<and> length (sr_blocks r) = unat (sr_count r) \<and>
     (\<forall>i < length (sr_blocks r). fst (sr_blocks r ! i) = sr_first_seq r + of_nat i)"

fun call_ok :: "SinkCall \<Rightarrow> bool" where
  "call_ok (OnSpan g r) = span_contract r"
| "call_ok c = plain c"

lemma plain_call_ok: "plain c \<Longrightarrow> call_ok c"
  by (cases c) simp_all

lemma calls_ok_andThen:
  "\<forall>c \<in> set (snd a). call_ok c \<Longrightarrow> (\<And>s. \<forall>c \<in> set (snd (f s)). call_ok c) \<Longrightarrow> \<forall>c \<in> set (snd (andThen a f)). call_ok c"
  by (auto simp: snd_andThen)

lemma indexed_contig_ok:
  assumes "length ms < 65535"
  shows "\<forall>c \<in> set (snd (indexed_contig ws frame q l (frame_triples q 20 ms) memo t sq)). call_ok c"
proof -
  let ?ts = "frame_triples q 20 ms"
  define k where "k = min (unat (sq_w sq - q)) (length ms)"
  have len: "length ?ts = length ms" by simp
  show ?thesis
  proof (cases "all_valid memo (length ms) \<and> ws \<and> k < length ms")
    case False
    have "indexed_contig ws frame q l ?ts memo t sq = indexed_contig False frame q l ?ts memo t sq"
      unfolding indexed_contig_def Let_def len k_def [symmetric] by (simp only: False if_False simp_thms)
    then show ?thesis using indexed_contig_plain plain_call_ok by metis
  next
    case True
    have "unat (of_nat (length ms - k) :: u16) = length ms - k" using assms by (simp add: unat_of_nat)
    then have "span_contract \<lparr>sr_first_seq = q + of_nat k, sr_count = of_nat (length ms - k), sr_body = b, sr_blocks = drop k ?ts\<rparr>" for b
      using True by (simp add: span_contract_def frame_triples_nth add.assoc)
    then show ?thesis
      unfolding indexed_contig_def Let_def len k_def [symmetric] if_P [OF True]
      using contig_tail_plain plain_call_ok by (auto simp: snd_andThen)
  qed
qed

lemma cold_apply_ok:
  assumes "entry_ok e"
  shows "\<forall>c \<in> set (snd (cold_apply ws t e sq)). call_ok c"
proof (cases "fe_blocks e = []")
  case True
  then show ?thesis using ingest_plain plain_call_ok by (fastforce simp: cold_apply_def ingest_auto_def)
next
  case False
  then obtain s c ms where d: "packet_ok s (fe_first_seq e) c ms" "fe_blocks e = frame_triples (fe_first_seq e) 20 ms"
    using entry_data [OF assms] by metis
  note ok = packet_okD [OF d(1)]
  let ?ts = "frame_triples (fe_first_seq e) 20 ms"
  have h: "fst (hd ?ts) = fe_first_seq e" using ok(8) by (simp add: frame_triples_hd)
  have span: "\<forall>c \<in> set (snd (indexed_span ws frame h fd t ?ts memo sq)). call_ok c" for frame h fd memo sq
    unfolding indexed_span_def Let_def h
    using indexed_contig_ok [OF ok(10)] indexed_gap_plain plain_call_ok by (auto split: if_splits)
  have kind: "\<forall>c \<in> set (snd (indexed_kind ws frame fd t ?ts memo sq)). call_ok c" for frame fd memo sq
    unfolding indexed_kind_def Let_def using span control_plain plain_call_ok by (auto split: if_splits)
  have "\<forall>c \<in> set (snd (ingest_indexed ws frame fd t ?ts memo sq)). call_ok c" for frame fd memo sq
    unfolding ingest_indexed_def Let_def using kind control_plain(3) plain_call_ok
    by (auto simp del: andThen_simps intro!: calls_ok_andThen split: if_splits) (auto simp: snd_andThen)
  then show ?thesis using False by (simp add: cold_apply_def ingest_auto_def d(2))
qed

lemma ingest_each_ok: "\<forall>e \<in> set es. entry_ok e \<Longrightarrow> \<forall>c \<in> set (snd (ingest_each ws t es sq)). call_ok c"
  by (induction es arbitrary: sq) (use cold_apply_ok in \<open>auto simp: snd_andThen\<close>)

section \<open>The span sink follows the message sink\<close>

definition alike :: "ConformanceSink \<Rightarrow> SpanConformanceSink \<Rightarrow> bool" where
  "alike k s \<longleftrightarrow> sp_count s = hs_count (cs_hash_sink k) \<and> sp_last_gen s = cs_last_gen k \<and>
     sp_gap_open_gen s = cs_gap_open_gen k \<and> sp_gap_open_from s = cs_gap_open_from k \<and>
     sp_gap_opens s = cs_gap_opens k \<and> sp_reanchors s = cs_reanchors k \<and>
     sp_session_boundaries s = cs_session_boundaries k \<and> sp_end_of_sessions s = cs_end_of_sessions k \<and>
     sp_session_deads s = cs_session_deads k \<and> sp_last_seq s = cs_last_seq k"

lemma alike_event: "alike k s \<Longrightarrow> on_event ev k = Some k' \<Longrightarrow> \<exists>s'. span_on_event ev s = Some s' \<and> alike k' s'"
  by (cases ev) (auto simp: alike_def split: if_splits option.splits)

lemma alike_msg: "alike k s \<Longrightarrow> on_msg h g q m k = Some k' \<Longrightarrow> \<exists>s'. span_on_msg g q m s = Some s' \<and> alike k' s'"
  by (auto simp: alike_def on_msg_def span_on_msg_def fold_msg_def split: if_splits)

text \<open>A run of consecutive messages passes message by message exactly when its first number passes.\<close>

lemma msgs_run:
  assumes "sink_calls h (map (\<lambda>b. OnMsg g (f b) (d b)) bs) k = Some k'" "bs \<noteq> []"
    and "\<forall>i < length bs. f (bs ! i) = q + of_nat i"
  shows "cs_last_gen k \<le> g \<and> (cs_last_seq k = 0 \<or> q = cs_last_seq k + 1) \<and>
    (\<exists>hs. k' = k\<lparr>cs_last_seq := q + of_nat (length bs) - 1, cs_hash_sink := hs\<rparr> \<and>
      hs_count hs = hs_count (cs_hash_sink k) + of_nat (length bs))"
  using assms
proof (induction bs arbitrary: k q)
  case Nil
  then show ?case by simp
next
  case (Cons b bs)
  let ?k1 = "k\<lparr>cs_last_seq := q, cs_hash_sink := fold_msg h (d b) (cs_hash_sink k)\<rparr>"
  have q: "f b = q" using Cons.prems(3) by auto
  have 1: "cs_last_gen k \<le> g" "cs_last_seq k = 0 \<or> q = cs_last_seq k + 1"
    "sink_calls h (map (\<lambda>b. OnMsg g (f b) (d b)) bs) ?k1 = Some k'"
    using Cons.prems(1) by (auto simp: on_msg_def q split: if_splits)
  show ?case
  proof (cases "bs = []")
    case True
    then have "k' = ?k1" using 1(3) by simp
    then show ?thesis using 1(1,2) True by (intro conjI exI [of _ "fold_msg h (d b) (cs_hash_sink k)"]) (simp_all add: fold_msg_def)
  next
    case False
    have "\<forall>i < length bs. f (bs ! i) = (q + 1) + of_nat i" using Cons.prems(3) by (fastforce simp: nth_Cons')
    from Cons.IH [OF 1(3) False this] obtain hs where
      "k' = ?k1\<lparr>cs_last_seq := q + 1 + of_nat (length bs) - 1, cs_hash_sink := hs\<rparr>"
      "hs_count hs = hs_count (cs_hash_sink ?k1) + of_nat (length bs)" by blast
    then show ?thesis using 1(1,2) by (intro conjI exI [of _ hs]) (simp_all add: fold_msg_def algebra_simps)
  qed
qed

lemma alike_span:
  assumes "alike k s" "span_contract r" "sink_calls h (expand_span g r) k = Some k'"
  shows "\<exists>s'. span_on_span mode g (sr_first_seq r) (sr_count r) (sr_body r) s = Some s' \<and> alike k' s'"
proof -
  define d where "d b = (case b of (q :: u64, start, end) \<Rightarrow> slice (unat start - unat (fst (snd (hd (sr_blocks r)))))
      (unat end - unat (fst (snd (hd (sr_blocks r))))) (sr_body r))" for b :: BlockTriple
  have e: "expand_span g r = map (\<lambda>b. OnMsg g (fst b) (d b)) (sr_blocks r)"
    by (simp add: expand_span_def d_def split_beta)
  have c: "(of_nat (length (sr_blocks r)) :: u64) = ucast (sr_count r)" using assms(2) by (simp add: span_contract_def)
  have "cs_last_gen k \<le> g \<and> (cs_last_seq k = 0 \<or> sr_first_seq r = cs_last_seq k + 1) \<and>
    (\<exists>hs. k' = k\<lparr>cs_last_seq := sr_first_seq r + ucast (sr_count r) - 1, cs_hash_sink := hs\<rparr> \<and>
      hs_count hs = hs_count (cs_hash_sink k) + ucast (sr_count r))"
    using msgs_run [OF assms(3) [unfolded e]] assms(2) unfolding span_contract_def c by blast
  then show ?thesis using assms(1) by (auto simp: alike_def span_on_span_def)
qed

lemma alike_calls:
  assumes "alike k s" "\<forall>c \<in> set cs. call_ok c" "sink_calls h (expand_all cs) k = Some k'"
  shows "\<exists>s'. span_sink_calls mode cs s = Some s' \<and> alike k' s'"
  using assms
proof (induction cs arbitrary: k s)
  case Nil
  then show ?case by simp
next
  case (Cons c cs)
  have app: "sink_calls h (xs @ ys) k = (case sink_calls h xs k of None \<Rightarrow> None | Some k' \<Rightarrow> sink_calls h ys k')" for xs ys
    by (induction h xs k rule: sink_calls.induct) (auto split: option.split)
  obtain k1 where k1: "sink_calls h (expand c) k = Some k1" "sink_calls h (expand_all cs) k1 = Some k'"
    using Cons.prems(3) by (auto simp: app split: option.splits)
  have "\<exists>s1. span_sink_call mode c s = Some s1 \<and> alike k1 s1"
  proof (cases c)
    case (OnMsg g q m)
    then show ?thesis using alike_msg [OF Cons.prems(1)] k1(1) by (auto split: option.splits)
  next
    case (OnEvent ev)
    then show ?thesis using alike_event [OF Cons.prems(1)] k1(1) by (auto split: option.splits)
  next
    case (OnSpan g r)
    then show ?thesis using alike_span [OF Cons.prems(1)] k1(1) Cons.prems(2) by simp
  qed (use Cons.prems(2) in simp_all)
  then obtain s1 where s1: "span_sink_call mode c s = Some s1" "alike k1 s1" by blast
  show ?case using Cons.IH [OF s1(2) _ k1(2)] Cons.prems(2) s1(1) by simp
qed

section \<open>Acceptance\<close>

text \<open>A sequence of slices, each with the time it is applied at, through \<open>ingest_batch\<close>.\<close>

fun batch_run :: "bool \<Rightarrow> (FrameEntry list \<times> u64) list \<Rightarrow> Sequencer \<Rightarrow> step" where
  "batch_run ws [] sq = (sq, [])"
| "batch_run ws ((es, t) # bs) sq = andThen (ingest_batch ws es t sq) (batch_run ws bs)"

definition batch_packets :: "(FrameEntry list \<times> u64) list \<Rightarrow> (bytes \<times> FeedId \<times> u64) list" where
  "batch_packets bs = concat (map (\<lambda>(es, t). map (entry_packet t) es) bs)"

lemma batch_run_calls:
  assumes "\<forall>b \<in> set bs. list_all entry_ok (fst b)" "tmpl_ok sq"
  shows "same_out (batch_run ws bs sq) (ingest_run (batch_packets bs) sq) \<and>
    (\<forall>c \<in> set (concat (map unbatch (snd (batch_run ws bs sq)))). call_ok c)"
  using assms
proof (induction ws bs sq rule: batch_run.induct)
  case (1 ws sq)
  then show ?case by (simp add: batch_packets_def same_out_def)
next
  case (2 ws es t bs sq)
  have es: "list_all entry_ok es" "\<forall>e \<in> set es. entry_ok e" using "2.prems"(1) by (auto simp: list_all_iff)
  note b = batch_classic [OF es(1) "2.prems"(2), of ws t, folded batch_drives(1)]
  have f: "concat (map unbatch (snd (ingest_batch ws es t sq))) = concat (map unbatch (snd (ingest_each ws t es sq)))"
    using span_runs.drive_each [of "plain_scanner rec_emitter ws" ws es "Suc (length es)" t sq] es(2)
    by (simp add: plain_scanner_def batch_drives)
  have "call_ok c \<Longrightarrow> \<forall>x \<in> set (unbatch c). call_ok x" for c by (cases c) simp_all
  then have ok: "\<forall>c \<in> set (concat (map unbatch (snd (ingest_batch ws es t sq)))). call_ok c"
    unfolding f using ingest_each_ok [OF es(2), of ws t sq] by fastforce
  have run: "ingest_run (batch_packets ((es, t) # bs)) sq
      = andThen (ingest_run (map (entry_packet t) es) sq) (ingest_run (batch_packets bs))"
    by (simp add: batch_packets_def ingest_run_append)
  have tm: "tmpl_ok s \<Longrightarrow> tmpl_ok (fst (ingest_run ps s))" for ps s
    by (induction ps s rule: ingest_run.induct) (simp_all add: fst_andThen ingest_tmpl_ok)
  have fst_eq: "fst (ingest_batch ws es t sq) = fst (ingest_run (map (entry_packet t) es) sq)"
    using b by (simp add: same_out_def)
  have ih: "same_out (batch_run ws bs (fst (ingest_batch ws es t sq)))
      (ingest_run (batch_packets bs) (fst (ingest_batch ws es t sq))) \<and>
    (\<forall>c \<in> set (concat (map unbatch (snd (batch_run ws bs (fst (ingest_batch ws es t sq)))))). call_ok c)"
    unfolding fst_eq by (rule "2.IH") (use "2.prems" tm in simp_all)
  show ?case
    using b ih ok unfolding run same_out_def by (simp add: fst_andThen snd_andThen fst_eq ball_Un)
qed

text \<open>C9: (The span sink accepts the batched stream.)  Whatever slices of well-formed packets the
  batched driver is given, with loss, duplication, reordering and changes of session, none of the
  assertions of the span sink fails on the spans, messages and events it makes, with any hash path.
  The sink ends with the sequencer's generation and with exactly the fields the per-message sink has
  after the same packets one by one, its count the number of messages delivered.\<close>

theorem span_sink_accepts:
  assumes "source_ok M" "\<forall>b \<in> set bs. list_all entry_ok (fst b)"
    and "\<forall>b \<in> set bs. \<forall>e \<in> set (fst b). frame_ok M (fe_bytes e)" "length (batch_packets bs) < 2 ^ 63"
  shows "\<exists>k s. sink_calls fast_hash_bytes (snd (ingest_run (batch_packets bs) Sequencer_new_unboxed)) ConformanceSink_new = Some k \<and>
    span_sink_calls mode (snd (batch_run True bs Sequencer_new_unboxed)) SpanConformanceSink_new = Some s \<and>
    alike k s \<and> sp_last_gen s = sq_gen (fst (batch_run True bs Sequencer_new_unboxed)) \<and>
    sp_count s = of_nat (length (delivered_bytes (outputs (expand_all (snd (batch_run True bs Sequencer_new_unboxed))))))"
proof -
  let ?ps = "batch_packets bs"
  let ?b = "batch_run True bs Sequencer_new_unboxed" and ?r = "ingest_run ?ps Sequencer_new_unboxed"
  have "\<forall>p \<in> set ?ps. frame_ok M (fst p)" using assms(3) by (auto simp: batch_packets_def entry_packet_def)
  from sink_accepted [OF assms(1) this assms(4), of fast_hash_bytes] obtain k where
    k: "sink_calls fast_hash_bytes (snd ?r) ConformanceSink_new = Some k" "cs_last_gen k = sq_gen (fst ?r)"
      "cs_hash_sink k = foldl (\<lambda>h m. fold_msg fast_hash_bytes m h) HashSink_new (delivered_bytes (outputs (snd ?r)))"
    by blast
  have b: "fst ?b = fst ?r" "expand_all (snd ?b) = snd ?r" "\<forall>c \<in> set (concat (map unbatch (snd ?b))). call_ok c"
    using batch_run_calls [OF assms(2) new_tmpl_ok, of True] by (simp_all add: same_out_def)
  have new: "alike ConformanceSink_new SpanConformanceSink_new"
    by (simp add: alike_def ConformanceSink_new_def SpanConformanceSink_new_def HashSink_new_def)
  have e: "sink_calls fast_hash_bytes (expand_all (concat (map unbatch (snd ?b)))) ConformanceSink_new = Some k"
    using k(1) b(2) by (simp only: expand_flat)
  from alike_calls [OF new b(3) e, of mode] obtain s where
    s: "span_sink_calls mode (snd ?b) SpanConformanceSink_new = Some s" "alike k s"
    unfolding span_calls_flat by blast
  have n: "hs_count (foldl (\<lambda>h m. fold_msg f m h) h ms) = hs_count h + of_nat (length ms)" for f h ms
    by (induction ms arbitrary: h) (simp_all add: fold_msg_def)
  have "sp_count s = of_nat (length (delivered_bytes (outputs (snd ?r))))" "sp_last_gen s = sq_gen (fst ?r)"
    using s(2) k(2,3) by (simp_all add: alike_def n HashSink_new_def)
  then show ?thesis using k(1) s b by auto
qed

lemma span_sink_accepts_witness:
  "\<exists>s. span_sink_calls Portable (snd (batch_run True [([sample_entry 0, sample_entry 1], 9)] Sequencer_new_unboxed))
    SpanConformanceSink_new = Some s"
proof -
  let ?bs = "[([sample_entry 0, sample_entry 1], 9 :: u64)]"
  have f: "fe_bytes (sample_entry fd) = data_frame sample_source sample_session 5 2" for fd
    by (simp add: sample_entry_def data_frame_def Let_def sample_source_def)
  have "\<forall>b \<in> set ?bs. \<forall>e \<in> set (fst b). frame_ok sample_source (fe_bytes e)"
    using sample_frame_ok by (auto simp: f SEQ_LIMIT_def)
  moreover have "\<forall>b \<in> set ?bs. list_all entry_ok (fst b)" by (simp add: sample_entry_ok)
  moreover have "length (batch_packets ?bs) < 2 ^ 63" by (simp add: batch_packets_def)
  ultimately show ?thesis using span_sink_accepts [OF sample_source_ok, of ?bs Portable] by blast
qed

end
