(* ===== verification/Rxdesc.thy ===== *)
theory Rxdesc
  imports SpanLanes Tape
begin

text \<open>
  The shared descriptor arrays of the pipelined transport (\<open>crates/nf-transport/src/rxdesc.rs\<close>): the
  checksum tag of a frame body, the packed words, and the operations of \<open>RxdescState\<close> in the order of
  the code.  An atomic cell is a field, an operation is one access of its owner; that the owners take
  turns is the protocol of the callers.  A failed assertion, a panic and an index out of bounds are
  \<open>None\<close>.  The processor class, the environment and the addresses of rows are arguments.
\<close>

section \<open>The tag of a frame body\<close>

definition RX_NARR :: nat where "RX_NARR = 8"
definition REC_RING :: nat where "REC_RING = 128"
definition RX_CHUNK_BITS :: nat where "RX_CHUNK_BITS = 15"
definition RX_CHUNK_CAP :: u64 where "RX_CHUNK_CAP = push_bit RX_CHUNK_BITS 1"
definition RX_CHUNK_MASK :: u64 where "RX_CHUNK_MASK = RX_CHUNK_CAP - 1"
definition RX_AFFINE_FLAG :: u64 where "RX_AFFINE_FLAG = push_bit 48 1"

record AffineLedgerEntry =
  le_body_ptr :: u64
  le_body_len :: u32
  le_prefix_crc :: u32
  le_cum_crc :: u32
  le_raw_crc :: u32
  le_pad :: u32
  le_lanes :: "u32 list"

record AffineTagCore =
  tc_prefix_crc :: u32
  tc_cum_crc :: u32
  tc_raw_crc :: u32
  tc_lanes :: "u32 list"

record AffineTagView =
  tv_prefix_crc :: u32
  tv_cum_crc :: u32
  tv_raw_crc :: u32
  tv_value :: u64

definition affine_tag_pack :: "AffineTagCore \<Rightarrow> u64 \<Rightarrow> u64 list" where
  "affine_tag_pack t value = [ucast (tc_prefix_crc t) OR push_bit 32 (ucast (tc_cum_crc t)), ucast (tc_raw_crc t), value]"

definition affine_tag_unpack :: "u64 list \<Rightarrow> AffineTagView" where
  "affine_tag_unpack w =
     \<lparr>tv_prefix_crc = ucast (w ! 0), tv_cum_crc = ucast (drop_bit 32 (w ! 0)), tv_raw_crc = ucast (w ! 1), tv_value = w ! 2\<rparr>"

text \<open>The second chain runs on the end of the body with two registers, the lanes with a
  copy of the loops of the eight-lane hash.\<close>

definition crc_pair :: "u32 \<times> u32 \<Rightarrow> bytes \<Rightarrow> u32 \<times> u32" where
  "crc_pair c w = (mm_crc32 (fst c) w, mm_crc32 (snd c) w)"

definition frame_tag_lanes :: "bytes \<Rightarrow> u32 list" where
  "frame_tag_lanes body =
     (let (lanes, j) = lane_blocks body 0 (replicate 8 0)
      in lanes[0 := words_upto mm_crc32 (length body) body j (lanes ! 0)])"

definition affine_frame_tag :: "bytes \<Rightarrow> AffineTagCore" where
  "affine_frame_tag body =
     (let len = length body;
          h = len div 2;
          prefix_crc = words_upto mm_crc32 h body 0 0;
          (raw, raw2) = words_upto crc_pair len body h (prefix_crc, 0);
          lanes = frame_tag_lanes body
      in \<lparr>tc_prefix_crc = prefix_crc, tc_cum_crc = raw, tc_raw_crc = raw2, tc_lanes = lanes\<rparr>)"

text \<open>The portable steps on machine words.\<close>

definition crc32c_u8 :: "u32 \<Rightarrow> u8 \<Rightarrow> u32" where
  "crc32c_u8 c w = (crc_bit ^^ 8) (c XOR ucast w)"

definition crc32c_u16 :: "u32 \<Rightarrow> u16 \<Rightarrow> u32" where
  "crc32c_u16 c w = (let b = rev (u16_to_be_bytes w) in crc32c_u8 (crc32c_u8 c (b ! 0)) (b ! 1))"

definition crc32c_u32 :: "u32 \<Rightarrow> u32 \<Rightarrow> u32" where
  "crc32c_u32 c w =
     (let b = rev (u32_to_be_bytes w)
      in crc32c_u16 (crc32c_u16 c (u16_from_be_bytes [b ! 1, b ! 0])) (u16_from_be_bytes [b ! 3, b ! 2]))"

definition crc32c_u64 :: "u32 \<Rightarrow> u64 \<Rightarrow> u32" where
  "crc32c_u64 c w =
     (let b = rev (u64_to_be_bytes w)
      in crc32c_u32 (crc32c_u32 c (u32_from_be_bytes [b ! 3, b ! 2, b ! 1, b ! 0]))
           (u32_from_be_bytes [b ! 7, b ! 6, b ! 5, b ! 4]))"

definition rxdesc_affine_enabled :: "bool \<Rightarrow> string option \<Rightarrow> bool" where
  "rxdesc_affine_enabled x86_64 env = (x86_64 \<and> env \<noteq> Some ''0'')"

section \<open>Packed words\<close>

definition rx_pack_u64 :: "u64 \<Rightarrow> u64 \<Rightarrow> u64 option" where
  "rx_pack_u64 gen value =
     (if gen < push_bit 16 1 \<and> value < push_bit 48 1 then Some (push_bit 48 gen OR value) else None)"

definition rx_unpack_u64 :: "u64 \<Rightarrow> u64 \<times> u64" where
  "rx_unpack_u64 w = (drop_bit 48 w, w AND 0xFFFFFFFFFFFF)"

definition RX_REC_PASS_BIT :: u64 where "RX_REC_PASS_BIT = push_bit 47 1"
definition RX_REC_BASE_MASK :: u64 where "RX_REC_BASE_MASK = push_bit 44 1 - 1"
definition RX_REC_SLOT_MASK :: u64 where "RX_REC_SLOT_MASK = push_bit 44 7"

definition rx_pack_record :: "u64 \<Rightarrow> u64 \<Rightarrow> bool \<Rightarrow> u8 \<Rightarrow> u64 option" where
  "rx_pack_record gen base_span pass_start arr_slot =
     (if \<not> (gen < push_bit 16 1 \<and> base_span < push_bit 44 1) then None
      else if \<not> unat arr_slot < RX_NARR then None
      else Some (push_bit 48 gen
        OR (if pass_start then RX_REC_PASS_BIT OR (base_span AND RX_REC_BASE_MASK) else base_span AND RX_REC_BASE_MASK)
        OR push_bit 44 (ucast arr_slot)))"

definition rx_unpack_record :: "u64 \<Rightarrow> u64 \<times> u64 \<times> bool \<times> u8" where
  "rx_unpack_record w =
     (drop_bit 48 w, w AND RX_REC_BASE_MASK, w AND RX_REC_PASS_BIT \<noteq> 0, ucast (drop_bit 44 (w AND RX_REC_SLOT_MASK)))"

definition rxdesc_pack_span :: "u32 \<Rightarrow> u16 \<Rightarrow> u64" where
  "rxdesc_pack_span offset len = ucast offset OR push_bit 32 (ucast len)"

definition rxdesc_unpack_span :: "u64 \<Rightarrow> u32 \<times> u16" where
  "rxdesc_unpack_span w = (ucast (w AND 0xFFFFFFFF), ucast (drop_bit 32 w AND 0xFFFF))"

definition RX_PACKED_LOW48 :: u64 where "RX_PACKED_LOW48 = 0x0000FFFFFFFFFFFF"

definition transform_packed_expect :: "u64 list \<Rightarrow> u64 \<Rightarrow> u64 \<Rightarrow> u64 list" where
  "transform_packed_expect words delta flag = map (\<lambda>w. (w AND RX_PACKED_LOW48) + delta OR flag) words"

section \<open>The state\<close>

record RxdescState =
  rx_arrays :: "u64 list list"
  rx_cap :: nat
  rx_records :: "u64 list"
  rx_ready :: u64
  rx_last_slot :: u8
  rx_last_window_count :: u64
  rx_blob_base :: u64
  rx_gen :: u64
  rx_chunk_state :: "u64 list"
  rx_fixes :: u64
  rx_tagvals :: "u64 list list"
  rx_tagraws :: "u64 list list"
  rx_ledger :: "AffineLedgerEntry list"
  rx_ledger_len :: u64

definition RxdescState_new :: "bool \<Rightarrow> nat \<Rightarrow> RxdescState" where
  "RxdescState_new armed cap =
     (let tag_cap = (if armed then cap else 0);
          raw_cap = (if armed then cap * 2 else 0)
      in \<lparr>rx_arrays = replicate RX_NARR (replicate cap 0), rx_cap = cap, rx_records = replicate REC_RING 0, rx_ready = 0,
          rx_last_slot = 255, rx_last_window_count = 0, rx_blob_base = 0, rx_gen = 0,
          rx_chunk_state = replicate (unat RX_CHUNK_CAP) 0, rx_fixes = 0,
          rx_tagvals = replicate RX_NARR (replicate tag_cap 0), rx_tagraws = replicate RX_NARR (replicate raw_cap 0),
          rx_ledger = [], rx_ledger_len = 0\<rparr>)"

section \<open>Streaming copies\<close>

text \<open>\<open>base\<close> is the address of the source; both rows have its phase within a line of 64 bytes.\<close>

function copy_words :: "'a list \<Rightarrow> nat \<Rightarrow> nat \<Rightarrow> 'a list \<Rightarrow> 'a list" where
  "copy_words src i e dst = (if i < e then copy_words src (i + 1) e (dst[i := src ! i]) else dst)"
  by pat_completeness auto
termination copy_words by (relation "measure (\<lambda>(src, i, e, dst). e - i)") auto

declare copy_words.simps [simp del]

definition stream512 :: "nat \<Rightarrow> 'a list \<Rightarrow> 'a list \<Rightarrow> 'a list" where
  "stream512 j v dst = take j dst @ v @ drop (j + 8) dst"

definition nt_copy_u64 :: "bool \<Rightarrow> nat \<Rightarrow> 'a list \<Rightarrow> 'a list \<Rightarrow> nat \<Rightarrow> 'a list" where
  "nt_copy_u64 avx512f base src dst n =
     (if \<not> avx512f then take n src @ drop n dst
      else let head = min ((64 - base mod 64) mod 64 div 8) n;
               body_words = (n - head) div 8 * 8;
               dst = copy_words src 0 head dst;
               lines = body_words div 8;
               dst = foldl (\<lambda>dst l. stream512 (head + l * 8) (slice (head + l * 8) (head + l * 8 + 8) src) dst) dst [0..<lines]
           in copy_words src (head + body_words) n dst)"

definition copy_row :: "bool \<Rightarrow> bool \<Rightarrow> (nat \<Rightarrow> nat) \<Rightarrow> nat \<Rightarrow> nat \<Rightarrow> nat \<Rightarrow> 'a list list \<Rightarrow> 'a list list" where
  "copy_row nt_copy avx512f addr from to n rows =
     rows[to := (if nt_copy \<and> addr from mod 64 = addr to mod 64
       then nt_copy_u64 avx512f (addr from) (rows ! from) (rows ! to) n
       else take n (rows ! from) @ drop n (rows ! to))]"

section \<open>Slots, records and cursors\<close>

definition next_gen :: "RxdescState \<Rightarrow> RxdescState \<times> u64" where
  "next_gen rx = (rx\<lparr>rx_gen := rx_gen rx + 1\<rparr>, rx_gen rx + 1)"

definition next_slot :: "RxdescState \<Rightarrow> u8" where
  "next_slot rx = (if rx_last_slot rx = 255 then 0 else (rx_last_slot rx + 1) mod of_nat REC_RING)"

definition publish_record :: "u8 \<Rightarrow> u64 \<Rightarrow> u64 \<Rightarrow> bool \<Rightarrow> u8 \<Rightarrow> RxdescState \<Rightarrow> RxdescState option" where
  "publish_record slot gen base_span pass_start arr_slot rx =
     (if \<not> unat slot < length (rx_records rx) then None
      else case rx_pack_record gen base_span pass_start arr_slot of
        None \<Rightarrow> None
      | Some w \<Rightarrow> Some (rx\<lparr>rx_records := (rx_records rx)[unat slot := w], rx_last_slot := slot\<rparr>))"

definition set_last_window_count :: "u64 \<Rightarrow> RxdescState \<Rightarrow> RxdescState" where
  "set_last_window_count n rx = rx\<lparr>rx_last_window_count := min n (of_nat (rx_cap rx))\<rparr>"

definition last_window_count :: "RxdescState \<Rightarrow> nat" where
  "last_window_count rx = unat (min (rx_last_window_count rx) (of_nat (rx_cap rx)))"

definition copy_arr :: "bool \<Rightarrow> bool \<Rightarrow> (nat \<Rightarrow> nat) \<Rightarrow> u8 \<Rightarrow> u8 \<Rightarrow> nat \<Rightarrow> RxdescState \<Rightarrow> RxdescState option" where
  "copy_arr nt_copy avx512f addr from to n rx =
     (let n = min n (rx_cap rx) in
      if n = 0 \<or> from = to then Some rx
      else if \<not> (unat from < length (rx_arrays rx) \<and> unat to < length (rx_arrays rx)) then None
      else Some (rx\<lparr>rx_arrays := copy_row nt_copy avx512f addr (unat from) (unat to) n (rx_arrays rx)\<rparr>))"

definition read_record :: "u8 \<Rightarrow> RxdescState \<Rightarrow> (u64 \<times> u64 \<times> bool \<times> u8) option" where
  "read_record slot rx =
     (if unat slot < length (rx_records rx) then Some (rx_unpack_record (rx_records rx ! unat slot)) else None)"

definition publish_ready :: "u64 \<Rightarrow> u64 \<Rightarrow> RxdescState \<Rightarrow> RxdescState option" where
  "publish_ready gen spans rx =
     (case rx_pack_u64 gen spans of None \<Rightarrow> None | Some w \<Rightarrow> Some (rx\<lparr>rx_ready := w\<rparr>))"

definition load_ready :: "RxdescState \<Rightarrow> u64 \<times> u64" where
  "load_ready rx = rx_unpack_u64 (rx_ready rx)"

definition capture_blob_base :: "u64 \<Rightarrow> RxdescState \<Rightarrow> RxdescState \<times> u64" where
  "capture_blob_base body_ptr rx =
     (if rx_blob_base rx = 0 then (rx\<lparr>rx_blob_base := body_ptr\<rparr>, body_ptr) else (rx, rx_blob_base rx))"

section \<open>Array words\<close>

definition set_arr :: "u8 \<Rightarrow> nat \<Rightarrow> u64 \<Rightarrow> RxdescState \<Rightarrow> RxdescState option" where
  "set_arr slot idx w rx =
     (if rx_cap rx \<le> idx then None
      else if \<not> unat slot < length (rx_arrays rx) then None
      else Some (rx\<lparr>rx_arrays := (rx_arrays rx)[unat slot := (rx_arrays rx ! unat slot)[idx := w]]\<rparr>))"

definition get_arr :: "u8 \<Rightarrow> nat \<Rightarrow> RxdescState \<Rightarrow> u64 option" where
  "get_arr slot idx rx =
     (if unat slot < length (rx_arrays rx) \<and> idx < length (rx_arrays rx ! unat slot)
      then Some (rx_arrays rx ! unat slot ! idx) else None)"

text \<open>A mask with bit \<open>i\<close> set where \<open>p i\<close> holds, as the scalar loops build it and as the compare
  instructions return it.\<close>

fun mask_loop :: "(nat \<Rightarrow> bool) \<Rightarrow> nat list \<Rightarrow> 'a :: len word \<Rightarrow> 'a word" where
  "mask_loop p [] bad = bad"
| "mask_loop p (i # is) bad = mask_loop p is (bad OR (if p i then push_bit i 1 else 0))"

definition cmpeq_mask :: "u64 list \<Rightarrow> u64 list \<Rightarrow> u8" where
  "cmpeq_mask a b = mask_loop (\<lambda>i. a ! i = b ! i) [0..<8] 0"

definition check_arr8 :: "bool \<Rightarrow> u8 \<Rightarrow> nat \<Rightarrow> u64 list \<Rightarrow> RxdescState \<Rightarrow> u8 option" where
  "check_arr8 avx512f slot idx expect rx =
     (if \<not> idx + 8 \<le> rx_cap rx then None
      else if \<not> unat slot < length (rx_arrays rx) then None
      else let words = slice idx (idx + 8) (rx_arrays rx ! unat slot)
        in if avx512f then Some (NOT (cmpeq_mask words expect))
           else Some (mask_loop (\<lambda>i. words ! i \<noteq> expect ! i) [0..<8] 0))"

text \<open>The transform on eight quadwords of a register.\<close>

definition transform512 :: "u64 list \<Rightarrow> u64 \<Rightarrow> u64 \<Rightarrow> u64 list" where
  "transform512 w d f = map (\<lambda>i. ((w ! i AND 0x0000FFFFFFFFFFFF) + d) OR f) [0..<8]"

definition check_arr8_packed :: "bool \<Rightarrow> u8 \<Rightarrow> nat \<Rightarrow> u64 list \<Rightarrow> u64 \<Rightarrow> u64 \<Rightarrow> RxdescState \<Rightarrow> u8 option" where
  "check_arr8_packed avx512f slot idx words delta flag rx =
     (if \<not> delta \<le> 0xFFFFFFFF then None
      else if avx512f then
        if \<not> idx + 8 \<le> rx_cap rx then None
        else if \<not> unat slot < length (rx_arrays rx) then None
        else Some (NOT (cmpeq_mask (slice idx (idx + 8) (rx_arrays rx ! unat slot)) (transform512 words delta flag)))
      else check_arr8 avx512f slot idx (transform_packed_expect words delta flag) rx)"

fun check16_loop :: "(nat \<Rightarrow> u64 option) \<Rightarrow> u64 \<Rightarrow> u64 \<Rightarrow> nat \<Rightarrow> u64 list \<Rightarrow> u16 \<Rightarrow> u16 option" where
  "check16_loop get delta flag g [] bad = Some bad"
| "check16_loop get delta flag g (w # ws) bad =
     (let expect = (w AND RX_PACKED_LOW48) + delta OR flag
      in case get g of None \<Rightarrow> None
         | Some a \<Rightarrow> check16_loop get delta flag (g + 1) ws (if a \<noteq> expect then bad OR push_bit g 1 else bad))"

definition check16_packed_scalar :: "u8 \<Rightarrow> nat \<Rightarrow> u64 list \<Rightarrow> u64 \<Rightarrow> u64 \<Rightarrow> RxdescState \<Rightarrow> u16 option" where
  "check16_packed_scalar slot idx words delta flag rx =
     (if \<not> idx + 16 \<le> rx_cap rx then None
      else check16_loop (\<lambda>g. get_arr slot (idx + g) rx) delta flag 0 words 0)"

definition check_arr16_packed :: "bool \<Rightarrow> u8 \<Rightarrow> nat \<Rightarrow> u64 list \<Rightarrow> u64 \<Rightarrow> u64 \<Rightarrow> RxdescState \<Rightarrow> u16 option" where
  "check_arr16_packed avx512f slot idx words delta flag rx =
     (if \<not> delta \<le> 0xFFFFFFFF then None
      else if avx512f then
        if \<not> idx + 16 \<le> rx_cap rx then None
        else if \<not> unat slot < length (rx_arrays rx) then None
        else let row = rx_arrays rx ! unat slot;
                 eq_lo = cmpeq_mask (slice idx (idx + 8) row) (transform512 words delta flag);
                 eq_hi = cmpeq_mask (slice (idx + 8) (idx + 16) row) (transform512 (drop 8 words) delta flag)
          in Some ((NOT (ucast eq_lo) AND 0xFF) OR push_bit 8 (NOT (ucast eq_hi) AND 0xFF))
      else check16_packed_scalar slot idx words delta flag rx)"

section \<open>Inline claims\<close>

definition mark_inline :: "u64 \<Rightarrow> RxdescState \<Rightarrow> RxdescState" where
  "mark_inline chunk_id rx =
     rx\<lparr>rx_chunk_state := (rx_chunk_state rx)[unat (chunk_id AND RX_CHUNK_MASK) := chunk_id + 1]\<rparr>"

definition is_inline :: "u64 \<Rightarrow> RxdescState \<Rightarrow> bool" where
  "is_inline chunk_id rx \<longleftrightarrow> rx_chunk_state rx ! unat (chunk_id AND RX_CHUNK_MASK) = chunk_id + 1"

definition clear_chunk_states :: "RxdescState \<Rightarrow> RxdescState" where
  "clear_chunk_states rx = rx\<lparr>rx_chunk_state := replicate (unat RX_CHUNK_CAP) 0\<rparr>"

section \<open>Tags\<close>

definition set_affine_tag :: "u8 \<Rightarrow> nat \<Rightarrow> u64 list \<Rightarrow> RxdescState \<Rightarrow> RxdescState option" where
  "set_affine_tag slot idx w rx =
     (if rx_cap rx \<le> idx then None
      else if rx_tagvals rx = [] then Some rx
      else if \<not> unat slot < length (rx_tagvals rx) then None
      else if rx_tagvals rx ! unat slot = [] then Some rx
      else if \<not> (idx < length (rx_tagvals rx ! unat slot) \<and> idx * 2 + 1 < length (rx_tagraws rx ! unat slot)) then None
      else Some (rx\<lparr>rx_tagvals := (rx_tagvals rx)[unat slot := (rx_tagvals rx ! unat slot)[idx := w ! 2]],
        rx_tagraws := (rx_tagraws rx)[unat slot := (rx_tagraws rx ! unat slot)[idx * 2 := w ! 0, idx * 2 + 1 := w ! 1]]\<rparr>))"

definition get_affine_tag :: "u8 \<Rightarrow> nat \<Rightarrow> RxdescState \<Rightarrow> u64 list option" where
  "get_affine_tag slot idx rx =
     (if rx_tagvals rx = [] then Some [0, 0, 0]
      else if \<not> unat slot < length (rx_tagvals rx) then None
      else if rx_tagvals rx ! unat slot = [] then Some [0, 0, 0]
      else if \<not> (idx < length (rx_tagvals rx ! unat slot) \<and> idx * 2 + 1 < length (rx_tagraws rx ! unat slot)) then None
      else Some [rx_tagraws rx ! unat slot ! (idx * 2), rx_tagraws rx ! unat slot ! (idx * 2 + 1), rx_tagvals rx ! unat slot ! idx])"

definition get_affine_value :: "u8 \<Rightarrow> nat \<Rightarrow> RxdescState \<Rightarrow> u64 option" where
  "get_affine_value slot idx rx =
     (if unat slot < length (rx_tagvals rx) \<and> idx < length (rx_tagvals rx ! unat slot)
      then Some (rx_tagvals rx ! unat slot ! idx) else None)"

text \<open>Eight words as one register; the caller proves that the row is armed, and the load beyond a
  row is \<open>None\<close>.\<close>

definition get_values8 :: "u8 \<Rightarrow> nat \<Rightarrow> RxdescState \<Rightarrow> u64 list option" where
  "get_values8 slot idx rx =
     (if \<not> idx + 8 \<le> rx_cap rx then None
      else if \<not> unat slot < length (rx_tagvals rx) then None
      else if \<not> idx + 8 \<le> length (rx_tagvals rx ! unat slot) then None
      else Some (slice idx (idx + 8) (rx_tagvals rx ! unat slot)))"

definition get_arr8 :: "u8 \<Rightarrow> nat \<Rightarrow> RxdescState \<Rightarrow> u64 list option" where
  "get_arr8 slot idx rx =
     (if \<not> idx + 8 \<le> rx_cap rx then None
      else if \<not> unat slot < length (rx_arrays rx) then None
      else Some (slice idx (idx + 8) (rx_arrays rx ! unat slot)))"

definition copy_tags ::
    "bool \<Rightarrow> bool \<Rightarrow> (nat \<Rightarrow> nat) \<Rightarrow> (nat \<Rightarrow> nat) \<Rightarrow> u8 \<Rightarrow> u8 \<Rightarrow> nat \<Rightarrow> RxdescState \<Rightarrow> RxdescState option" where
  "copy_tags nt_copy avx512f vaddr raddr from to n rx =
     (let n = min n (rx_cap rx) in
      if n = 0 \<or> from = to then Some rx
      else if rx_tagvals rx = [] \<or> rx_tagvals rx ! 0 = [] then Some rx
      else if \<not> (unat from < length (rx_tagvals rx) \<and> unat to < length (rx_tagvals rx)) then None
      else Some (rx\<lparr>rx_tagvals := copy_row nt_copy avx512f vaddr (unat from) (unat to) n (rx_tagvals rx),
             rx_tagraws := copy_row nt_copy avx512f raddr (unat from) (unat to) (n * 2) (rx_tagraws rx)\<rparr>))"

section \<open>The ledger\<close>

definition zero_ledger_entry :: AffineLedgerEntry where
  "zero_ledger_entry = \<lparr>le_body_ptr = 0, le_body_len = 0, le_prefix_crc = 0, le_cum_crc = 0, le_raw_crc = 0, le_pad = 0,
     le_lanes = replicate 8 0\<rparr>"

definition attach_ledger :: "bool \<Rightarrow> nat \<Rightarrow> RxdescState \<Rightarrow> RxdescState" where
  "attach_ledger armed frame_count rx =
     (if \<not> armed then rx else rx\<lparr>rx_ledger := replicate frame_count zero_ledger_entry\<rparr>)"

definition ledger_set :: "nat \<Rightarrow> AffineLedgerEntry \<Rightarrow> RxdescState \<Rightarrow> RxdescState option" where
  "ledger_set i e rx = (if i < length (rx_ledger rx) then Some (rx\<lparr>rx_ledger := (rx_ledger rx)[i := e]\<rparr>) else None)"

definition ledger_publish :: "nat \<Rightarrow> RxdescState \<Rightarrow> RxdescState" where
  "ledger_publish len rx = rx\<lparr>rx_ledger_len := of_nat len\<rparr>"

definition ledger_rows :: "RxdescState \<Rightarrow> AffineLedgerEntry list option" where
  "ledger_rows rx =
     (let n = unat (rx_ledger_len rx)
      in if n = 0 then Some [] else if n \<le> length (rx_ledger rx) then Some (take n (rx_ledger rx)) else None)"

text \<open>The forward scan; \<open>None\<close> outside where an index leaves the table.\<close>

function ledger_scan :: "AffineLedgerEntry list \<Rightarrow> nat \<Rightarrow> u64 \<Rightarrow> nat \<Rightarrow> nat option" where
  "ledger_scan entries n body_ptr i =
     (if i < n then
        if \<not> i < length entries then None
        else if le_body_ptr (entries ! i) < body_ptr then ledger_scan entries n body_ptr (i + 1) else Some i
      else Some i)"
  by pat_completeness auto
termination ledger_scan by (relation "measure (\<lambda>(entries, n, body_ptr, i). n - i)") auto

declare ledger_scan.simps [simp del]

definition ledger_lookup :: "nat \<Rightarrow> u64 \<Rightarrow> u32 \<Rightarrow> RxdescState \<Rightarrow> (AffineLedgerEntry \<times> nat) option option" where
  "ledger_lookup cursor body_ptr body_len rx =
     (let n = unat (rx_ledger_len rx) in
      if n = 0 then Some None
      else case ledger_scan (rx_ledger rx) n body_ptr (min cursor (length (rx_ledger rx))) of
        None \<Rightarrow> None
      | Some i \<Rightarrow>
          if i < n \<and> le_body_ptr (rx_ledger rx ! i) = body_ptr \<and> le_body_len (rx_ledger rx ! i) = body_len
          then Some (Some (rx_ledger rx ! i, i)) else Some None)"

end
