(* ===== verification/RxdescLaw.thy ===== *)
theory RxdescLaw
  imports Rxdesc Batch
begin

text \<open>
  What the descriptor arrays promise: a streaming copy is a copy, the vector checks find exactly the
  words that differ from the descriptors of their spans, packed words unpack, the record ring
  keeps the last 128 windows, a tag satisfies the affine law and carries the value of its body, and
  the ledger serves frames in their order.
\<close>

section \<open>Copies\<close>

lemma copy_words_slices:
  "i \<le> e \<Longrightarrow> e \<le> length src \<Longrightarrow> e \<le> length dst \<Longrightarrow> copy_words src i e dst = take i dst @ slice i e src @ drop e dst"
proof (induction src i e dst rule: copy_words.induct)
  case (1 src i e dst)
  show ?case
  proof (cases "i < e")
    case True
    have s: "slice i e src = src ! i # slice (Suc i) e src"
      using True 1(3) by (simp add: slice_def Cons_nth_drop_Suc [symmetric] Suc_diff_Suc [symmetric])
    have "copy_words src i e dst = copy_words src (i + 1) e (dst[i := src ! i])"
      using True by (subst copy_words.simps) simp
    also have "\<dots> = take (i + 1) (dst[i := src ! i]) @ slice (i + 1) e src @ drop e (dst[i := src ! i])"
      using True 1(3,4) by (intro 1(1)) simp_all
    also have "\<dots> = take i dst @ slice i e src @ drop e dst"
      using True 1(4) by (simp add: s take_Suc_conv_app_nth)
    finally show ?thesis .
  next
    case False
    then have "i = e" using 1(2) by simp
    then show ?thesis by (subst copy_words.simps) (simp add: slice_def)
  qed
qed

lemma stream512_append: "length a = j \<Longrightarrow> stream512 j v (a @ b) = a @ v @ drop 8 b"
  by (simp add: stream512_def)

lemma stream_lines:
  assumes "h + 8 * m \<le> length src" "h + 8 * m \<le> length dst"
  shows "foldl (\<lambda>dst l. stream512 (h + l * 8) (slice (h + l * 8) (h + l * 8 + 8) src) dst) dst [0..<m]
    = take h dst @ slice h (h + 8 * m) src @ drop (h + 8 * m) dst"
  using assms
proof (induction m)
  case 0
  then show ?case by (simp add: slice_def)
next
  case (Suc m)
  have s: "slice h (h + 8 * Suc m) src = slice h (h + 8 * m) src @ slice (h + m * 8) (h + m * 8 + 8) src"
    using slice_split [of h "h + 8 * m" "h + 8 * Suc m" src] by (simp add: algebra_simps)
  have l: "length (take h dst @ slice h (h + 8 * m) src) = h + m * 8" using Suc.prems by simp
  have d: "drop 8 (drop (h + 8 * m) dst) = drop (h + m * 8 + 8) dst" by (simp add: algebra_simps)
  have "foldl (\<lambda>dst l. stream512 (h + l * 8) (slice (h + l * 8) (h + l * 8 + 8) src) dst) dst [0..<Suc m]
    = stream512 (h + m * 8) (slice (h + m * 8) (h + m * 8 + 8) src)
        ((take h dst @ slice h (h + 8 * m) src) @ drop (h + 8 * m) dst)"
    using Suc by simp
  also have "\<dots> = (take h dst @ slice h (h + 8 * m) src) @ slice (h + m * 8) (h + m * 8 + 8) src @ drop (h + m * 8 + 8) dst"
    unfolding stream512_append [OF l] d ..
  finally have f: "foldl (\<lambda>dst l. stream512 (h + l * 8) (slice (h + l * 8) (h + l * 8 + 8) src) dst) dst [0..<Suc m]
    = (take h dst @ slice h (h + 8 * m) src) @ slice (h + m * 8) (h + m * 8 + 8) src @ drop (h + m * 8 + 8) dst" .
  have e: "h + 8 * Suc m = h + m * 8 + 8" by simp
  show ?case unfolding f s unfolding e append_assoc ..
qed

text \<open>A streaming copy is a copy, whatever the phase.\<close>

theorem nt_copy_is_copy:
  assumes "n \<le> length src" "n \<le> length dst"
  shows "nt_copy_u64 avx512f base src dst n = take n src @ drop n dst"
proof (cases avx512f)
  case True
  define h where "h = min ((64 - base mod 64) mod 64 div 8) n"
  define m where "m = (n - h) div 8"
  have b: "h \<le> n" "h + 8 * m \<le> n" unfolding m_def h_def by (simp, linarith)
  have "(n - h) div 8 * 8 div 8 = m" by (simp add: m_def)
  then have "nt_copy_u64 avx512f base src dst n = copy_words src (h + 8 * m) n
      (foldl (\<lambda>dst l. stream512 (h + l * 8) (slice (h + l * 8) (h + l * 8 + 8) src) dst) (copy_words src 0 h dst) [0..<m])"
    using True by (simp add: nt_copy_u64_def Let_def h_def [symmetric] m_def mult.commute)
  also have "copy_words src 0 h dst = take h src @ drop h dst"
    using b assms by (subst copy_words_slices) (simp_all add: slice_0_take)
  also have "foldl (\<lambda>dst l. stream512 (h + l * 8) (slice (h + l * 8) (h + l * 8 + 8) src) dst) (take h src @ drop h dst) [0..<m]
      = take (h + 8 * m) src @ drop (h + 8 * m) dst"
    using b assms by (subst stream_lines) (simp_all add: slice_def take_add add.commute [of "8 * m" h])
  also have "copy_words src (h + 8 * m) n (take (h + 8 * m) src @ drop (h + 8 * m) dst) = take n src @ drop n dst"
    using b assms by (subst copy_words_slices) (simp_all add: slice_def take_add [symmetric])
  finally show ?thesis .
qed (simp add: nt_copy_u64_def)

lemma copy_row_eq:
  assumes "n \<le> length (rows ! from)" "n \<le> length (rows ! to)"
  shows "copy_row nt avx addr from to n rows = rows[to := take n (rows ! from) @ drop n (rows ! to)]"
  using assms by (simp add: copy_row_def nt_copy_is_copy)

section \<open>The shape of the state\<close>

definition rx_wf :: "RxdescState \<Rightarrow> bool" where
  "rx_wf rx \<longleftrightarrow> length (rx_arrays rx) = RX_NARR \<and> (\<forall>r \<in> set (rx_arrays rx). length r = rx_cap rx) \<and>
     length (rx_records rx) = REC_RING \<and> length (rx_chunk_state rx) = unat RX_CHUNK_CAP \<and>
     length (rx_tagvals rx) = RX_NARR \<and> length (rx_tagraws rx) = RX_NARR \<and>
     ((\<forall>r \<in> set (rx_tagvals rx). r = []) \<or>
      (\<forall>r \<in> set (rx_tagvals rx). length r = rx_cap rx) \<and> (\<forall>r \<in> set (rx_tagraws rx). length r = 2 * rx_cap rx))"

lemma set_update_all: "\<forall>r \<in> set xs. P r \<Longrightarrow> P x \<Longrightarrow> \<forall>r \<in> set (xs[i := x]). P r"
  using set_update_subset_insert [of xs i x] by blast

lemma new_wf: "rx_wf (RxdescState_new armed cap)"
  by (simp add: rx_wf_def RxdescState_new_def Let_def)

lemma row_length: "rx_wf rx \<Longrightarrow> i < RX_NARR \<Longrightarrow> length (rx_arrays rx ! i) = rx_cap rx"
  by (simp add: rx_wf_def)

lemma tag_rows:
  assumes "rx_wf rx" "i < RX_NARR" "rx_tagvals rx ! i \<noteq> []"
  shows "length (rx_tagvals rx ! i) = rx_cap rx" "length (rx_tagraws rx ! i) = 2 * rx_cap rx"
    "\<forall>r \<in> set (rx_tagvals rx). length r = rx_cap rx" "\<forall>r \<in> set (rx_tagraws rx). length r = 2 * rx_cap rx"
proof -
  have "rx_tagvals rx ! i \<in> set (rx_tagvals rx)" using assms(1,2) by (simp add: rx_wf_def)
  then show a: "\<forall>r \<in> set (rx_tagvals rx). length r = rx_cap rx" "\<forall>r \<in> set (rx_tagraws rx). length r = 2 * rx_cap rx"
    using assms(1,3) unfolding rx_wf_def by blast+
  then show "length (rx_tagvals rx ! i) = rx_cap rx" "length (rx_tagraws rx ! i) = 2 * rx_cap rx"
    using assms(1,2) by (simp_all add: rx_wf_def)
qed

lemma array_ops_wf:
  "rx_wf rx \<Longrightarrow> set_arr slot idx w rx = Some rx' \<Longrightarrow> rx_wf rx'"
  "rx_wf rx \<Longrightarrow> publish_record r g b p a rx = Some rx' \<Longrightarrow> rx_wf rx'"
  "rx_wf rx \<Longrightarrow> publish_ready g n rx = Some rx' \<Longrightarrow> rx_wf rx'"
proof -
  show "rx_wf rx'" if "rx_wf rx" "set_arr slot idx w rx = Some rx'"
  proof -
    have "\<forall>r \<in> set ((rx_arrays rx)[unat slot := (rx_arrays rx ! unat slot)[idx := w]]). length r = rx_cap rx"
      using that by (intro set_update_all) (auto simp: rx_wf_def set_arr_def split: if_splits)
    then show ?thesis using that by (auto simp: rx_wf_def set_arr_def split: if_splits)
  qed
qed (auto simp: rx_wf_def publish_record_def publish_ready_def split: if_splits option.splits)

lemma wf_arrays:
  "rx_wf rx \<Longrightarrow> length a = RX_NARR \<Longrightarrow> \<forall>r \<in> set a. length r = rx_cap rx \<Longrightarrow> rx_wf (rx\<lparr>rx_arrays := a\<rparr>)"
  by (simp add: rx_wf_def)

lemma copy_arr_eq:
  assumes "rx_wf rx" "unat from < RX_NARR" "unat to < RX_NARR"
  shows "copy_arr nt avx addr from to n rx
    = Some (if from = to then rx else rx\<lparr>rx_arrays := (rx_arrays rx)[unat to :=
        take n (rx_arrays rx ! unat from) @ drop n (rx_arrays rx ! unat to)]\<rparr>)"
proof -
  have r: "length (rx_arrays rx ! unat from) = rx_cap rx" "length (rx_arrays rx ! unat to) = rx_cap rx"
    "length (rx_arrays rx) = RX_NARR"
    using assms row_length by (simp_all add: rx_wf_def)
  have m: "take (min n (rx_cap rx)) (rx_arrays rx ! unat from) = take n (rx_arrays rx ! unat from)"
    "drop (min n (rx_cap rx)) (rx_arrays rx ! unat to) = drop n (rx_arrays rx ! unat to)"
    using r by (simp_all add: min_def)
  have 0: "rx\<lparr>rx_arrays := (rx_arrays rx)[unat to := rx_arrays rx ! unat to]\<rparr> = rx" by simp
  have "take n (rx_arrays rx ! unat from) @ drop n (rx_arrays rx ! unat to) = rx_arrays rx ! unat to"
    if "min n (rx_cap rx) = 0"
  proof (cases "n = 0")
    case False
    then have "rx_arrays rx ! unat from = []" "rx_arrays rx ! unat to = []" using that r by (simp_all add: min_def split: if_splits)
    then show ?thesis by simp
  qed simp
  then show ?thesis using assms r 0 m by (auto simp: copy_arr_def copy_row_eq Let_def)
qed

lemma row_ops_wf:
  "rx_wf rx \<Longrightarrow> unat from < RX_NARR \<Longrightarrow> unat to < RX_NARR \<Longrightarrow> copy_arr nt avx addr from to n rx = Some rx' \<Longrightarrow> rx_wf rx'"
  "rx_wf rx \<Longrightarrow> rx_wf (mark_inline c rx)" "rx_wf rx \<Longrightarrow> rx_wf (clear_chunk_states rx)"
proof -
  show "rx_wf rx'" if a: "rx_wf rx" "unat from < RX_NARR" "unat to < RX_NARR" "copy_arr nt avx addr from to n rx = Some rx'"
  proof -
    have "length (take n (rx_arrays rx ! unat from) @ drop n (rx_arrays rx ! unat to)) = rx_cap rx"
      using row_length [OF a(1,2)] row_length [OF a(1,3)] by (simp add: min_def)
    moreover have "\<forall>r \<in> set (rx_arrays rx). length r = rx_cap rx" using a(1) by (simp add: rx_wf_def)
    ultimately have all: "\<forall>r \<in> set ((rx_arrays rx)[unat to := take n (rx_arrays rx ! unat from) @ drop n (rx_arrays rx ! unat to)]). length r = rx_cap rx"
      by (intro set_update_all)
    have len: "length ((rx_arrays rx)[unat to := take n (rx_arrays rx ! unat from) @ drop n (rx_arrays rx ! unat to)]) = RX_NARR"
      using a(1) by (simp add: rx_wf_def)
    have "rx' = (if from = to then rx else rx\<lparr>rx_arrays := (rx_arrays rx)[unat to :=
        take n (rx_arrays rx ! unat from) @ drop n (rx_arrays rx ! unat to)]\<rparr>)"
      using a(4) unfolding copy_arr_eq [OF a(1-3)] by (rule option.inject [THEN iffD1, symmetric])
    then show ?thesis using wf_arrays [OF a(1) len all] a(1) by (metis (no_types))
  qed
qed (simp_all add: rx_wf_def mark_inline_def clear_chunk_states_def)

text \<open>A mark answers for its own chunk only.\<close>

lemma mark_inline_exact:
  assumes "rx_wf rx"
  shows "is_inline c' (mark_inline c rx) \<longleftrightarrow>
    (if c' AND RX_CHUNK_MASK = c AND RX_CHUNK_MASK then c' = c else is_inline c' rx)"
proof -
  have "unat (c AND RX_CHUNK_MASK) \<le> unat RX_CHUNK_MASK" by (simp add: word_and_le1 word_le_nat_alt [symmetric])
  then have "unat (c AND RX_CHUNK_MASK) < length (rx_chunk_state rx)"
    using assms by (simp add: rx_wf_def RX_CHUNK_MASK_def RX_CHUNK_CAP_def RX_CHUNK_BITS_def)
  moreover have "unat (c AND RX_CHUNK_MASK) \<noteq> unat (c' AND RX_CHUNK_MASK)" if "c' AND RX_CHUNK_MASK \<noteq> c AND RX_CHUNK_MASK"
    using that by (simp add: word_unat_eq_iff)
  ultimately show ?thesis
    by (cases "c' AND RX_CHUNK_MASK = c AND RX_CHUNK_MASK") (auto simp: is_inline_def mark_inline_def)
qed

lemma cleared_inline: "c \<noteq> 0xFFFFFFFFFFFFFFFF \<Longrightarrow> \<not> is_inline c (clear_chunk_states rx)"
proof -
  assume "c \<noteq> 0xFFFFFFFFFFFFFFFF"
  then have "c + 1 \<noteq> 0" by (auto simp: add_eq_0_iff2)
  moreover have "unat (c AND RX_CHUNK_MASK) < unat RX_CHUNK_CAP"
  proof -
    have "unat (c AND RX_CHUNK_MASK) \<le> unat RX_CHUNK_MASK" by (simp add: word_and_le1 word_le_nat_alt [symmetric])
    then show ?thesis by (simp add: RX_CHUNK_MASK_def RX_CHUNK_CAP_def RX_CHUNK_BITS_def)
  qed
  ultimately show ?thesis by (simp add: is_inline_def clear_chunk_states_def)
qed

section \<open>Masks\<close>

lemma bit_mask_loop: "bit (mask_loop p is (bad :: 'a :: len word)) j \<longleftrightarrow> bit bad j \<or> (j \<in> set is \<and> p j \<and> j < LENGTH('a))"
proof (induction "is" arbitrary: bad)
  case (Cons i "is")
  have "bit (push_bit i (1 :: 'a word)) j \<longleftrightarrow> j = i \<and> j < LENGTH('a)"
    by (auto simp: bit_simps)
  then show ?case unfolding mask_loop.simps Cons.IH by (auto simp: bit_or_iff)
qed simp

lemma cmpeq_bit: "j < 8 \<Longrightarrow> bit (NOT (cmpeq_mask a b)) j \<longleftrightarrow> a ! j \<noteq> b ! j"
  by (simp add: cmpeq_mask_def bit_not_iff bit_mask_loop)

lemma mask8_eqI: "(\<And>j. j < 8 \<Longrightarrow> bit x j = bit y j) \<Longrightarrow> x = (y :: u8)"
  by (rule bit_word_eqI) simp

text \<open>The vector compare is the scalar loop.\<close>

lemma cmpeq_loop: "NOT (cmpeq_mask a b) = mask_loop (\<lambda>i. a ! i \<noteq> b ! i) [0..<8] 0"
  by (rule mask8_eqI) (simp add: cmpeq_bit bit_mask_loop)

lemma check_arr8_gate: "check_arr8 avx slot idx expect rx = check_arr8 False slot idx expect rx"
  by (simp add: check_arr8_def Let_def cmpeq_loop)

lemma check_arr8_packed_gate:
  assumes "length words = 8"
  shows "check_arr8_packed avx slot idx words delta flag rx = check_arr8_packed False slot idx words delta flag rx"
proof -
  have "transform512 words delta flag = transform_packed_expect words delta flag"
    using assms by (intro nth_equalityI) (simp_all add: transform512_def transform_packed_expect_def RX_PACKED_LOW48_def)
  then show ?thesis by (simp add: check_arr8_packed_def check_arr8_def Let_def cmpeq_loop)
qed

text \<open>A packed word of the steady ladder, moved to the blob's base, is the descriptor of its span.\<close>

definition packed_word :: "u64 \<Rightarrow> u16 \<Rightarrow> u16 \<Rightarrow> u64" where
  "packed_word off len cnt = off OR push_bit 32 (ucast len) OR push_bit 48 (ucast cnt)"

lemma packed_push_word:
  "length body < 65536 \<Longrightarrow> pe_words (packed_push first cnt ptr body blocks em)
    = pe_words em @ [packed_word (ptr - pe_base (packed_push first cnt ptr body blocks em)) (of_nat (length body)) cnt]"
proof -
  assume "length body < 65536"
  then have "(of_nat (length body) :: u64) = ucast (of_nat (length body) :: u16)"
    by (simp add: word_unat_eq_iff unat_of_nat unsigned_of_nat take_bit_eq_mod)
  then show ?thesis by (simp add: packed_push_def packed_word_def Let_def)
qed

lemma low_bits: "unat (x :: u64) < 2 ^ n \<Longrightarrow> bit x i \<Longrightarrow> i < n"
proof -
  assume "unat x < 2 ^ n" "bit x i"
  then have "bit (take_bit n (unat x)) i" by (simp add: take_bit_nat_eq_self bit_unsigned_iff)
  then show "i < n" by (simp add: bit_take_bit_iff)
qed

lemma or_disjoint: "(\<And>i. bit x i \<Longrightarrow> \<not> bit y i) \<Longrightarrow> x OR y = x + (y :: u64)"
  by (rule disjunctive_add [symmetric]) blast

lemma descriptor_word:
  assumes "unat off + unat delta < 2 ^ 32"
  shows "(packed_word off len cnt AND RX_PACKED_LOW48) + delta = rxdesc_pack_span (ucast (off + delta)) len"
proof -
  have s: "unat (off + delta) < 2 ^ 32" using assms by (simp add: unat_plus_u64)
  note lo = low_bits [of off 32] and ls = low_bits [OF s]
  have o: "unat off < 2 ^ 32" using assms by simp
  have m: "RX_PACKED_LOW48 = Bit_Operations.mask 48" by (simp add: RX_PACKED_LOW48_def mask_numeral mask_eq_exp_minus_1)
  have 1: "packed_word off len cnt AND RX_PACKED_LOW48 = off OR push_bit 32 (ucast len)"
    by (rule bit_word_eqI) (auto simp: packed_word_def m bit_simps dest: lo [OF o] bit_imp_le_length)
  have u: "(ucast (ucast (off + delta) :: u32) :: u64) = off + delta"
    by (rule bit_word_eqI) (auto simp: bit_simps dest: ls)
  have "off OR push_bit 32 (ucast len) = off + push_bit 32 (ucast len)"
    "(off + delta) OR push_bit 32 (ucast len) = (off + delta) + push_bit 32 (ucast len)"
    by (rule or_disjoint; auto simp: bit_simps dest: lo [OF o] ls)+
  then show ?thesis unfolding 1 rxdesc_pack_span_def u by (simp add: ac_simps)
qed

lemma check_arr8_packed_bits:
  assumes "rx_wf rx" "unat slot < RX_NARR" "idx + 8 \<le> rx_cap rx" "delta \<le> 0xFFFFFFFF" "length words = 8"
  shows "\<exists>m. check_arr8_packed avx slot idx words delta flag rx = Some m \<and>
    (\<forall>i < 8. bit m i \<longleftrightarrow> get_arr slot (idx + i) rx \<noteq> Some ((words ! i AND RX_PACKED_LOW48) + delta OR flag))"
proof -
  have row: "length (rx_arrays rx ! unat slot) = rx_cap rx" "unat slot < length (rx_arrays rx)"
    using row_length [OF assms(1,2)] assms(1,2) by (simp_all add: rx_wf_def)
  have g: "get_arr slot (idx + i) rx = Some (slice idx (idx + 8) (rx_arrays rx ! unat slot) ! i)" if "i < 8" for i
    using that row assms(3) by (simp add: get_arr_def nth_slice)
  show ?thesis
    using assms(3-5) row
    by (subst check_arr8_packed_gate) (simp_all add: check_arr8_packed_def check_arr8_def Let_def bit_mask_loop g transform_packed_expect_def)
qed

lemma check16_loop_bits:
  assumes "\<forall>j < length ws. get (g + j) = Some (a (g + j))"
  shows "\<exists>m. check16_loop get delta flag g ws bad = Some m \<and>
    (\<forall>i < 16. bit m i \<longleftrightarrow> bit bad i \<or> (g \<le> i \<and> i < g + length ws \<and> a i \<noteq> (ws ! (i - g) AND RX_PACKED_LOW48) + delta OR flag))"
  using assms
proof (induction ws arbitrary: g bad)
  case Nil
  then show ?case by auto
next
  case (Cons w ws)
  have g: "get g = Some (a g)" using Cons.prems by force
  let ?e = "(w AND RX_PACKED_LOW48) + delta OR flag"
  let ?bad = "if a g \<noteq> ?e then bad OR push_bit g 1 else bad"
  have b: "bit ?bad i \<longleftrightarrow> bit bad i \<or> (i = g \<and> a g \<noteq> ?e)" if "i < 16" for i
  proof -
    have "bit (push_bit g (1 :: u16)) i \<longleftrightarrow> i = g" using that by (auto simp: bit_simps)
    then show ?thesis by (auto simp: bit_or_iff)
  qed
  have "\<forall>j < length ws. get (Suc g + j) = Some (a (Suc g + j))" using Cons.prems by fastforce
  from Cons.IH [OF this, of ?bad] obtain m where m: "check16_loop get delta flag (Suc g) ws ?bad = Some m"
    "\<forall>i < 16. bit m i \<longleftrightarrow> bit ?bad i \<or> (Suc g \<le> i \<and> i < Suc g + length ws \<and> a i \<noteq> (ws ! (i - Suc g) AND RX_PACKED_LOW48) + delta OR flag)"
    by blast
  have "bit m i \<longleftrightarrow> bit bad i \<or> (g \<le> i \<and> i < g + length (w # ws) \<and> a i \<noteq> ((w # ws) ! (i - g) AND RX_PACKED_LOW48) + delta OR flag)"
    if i: "i < 16" for i
  proof (cases "i = g")
    case True
    then show ?thesis using m(2) i b [OF i] by auto
  next
    case False
    then have "(w # ws) ! (i - g) = ws ! (i - Suc g)" if "g \<le> i" using that by (simp add: nth_Cons' Suc_diff_Suc)
    moreover have "bit ?bad i \<longleftrightarrow> bit bad i" using b [OF i] False by blast
    moreover have "bit m i \<longleftrightarrow> bit ?bad i \<or> (Suc g \<le> i \<and> i < Suc g + length ws \<and> a i \<noteq> (ws ! (i - Suc g) AND RX_PACKED_LOW48) + delta OR flag)"
      using m(2) i by blast
    ultimately show ?thesis using False by (cases "g \<le> i") auto
  qed
  then show ?case using m(1) by (intro exI [of _ m]) (simp add: g Let_def)
qed

lemma check_arr16_packed_bits:
  assumes "rx_wf rx" "unat slot < RX_NARR" "idx + 16 \<le> rx_cap rx" "delta \<le> 0xFFFFFFFF" "length words = 16"
  shows "\<exists>m. check_arr16_packed avx slot idx words delta flag rx = Some m \<and>
    (\<forall>i < 16. bit m i \<longleftrightarrow> get_arr slot (idx + i) rx \<noteq> Some ((words ! i AND RX_PACKED_LOW48) + delta OR flag))"
proof -
  let ?row = "rx_arrays rx ! unat slot"
  have row: "length ?row = rx_cap rx" "unat slot < length (rx_arrays rx)"
    using row_length [OF assms(1,2)] assms(1,2) by (simp_all add: rx_wf_def)
  have g: "get_arr slot (idx + i) rx = Some (?row ! (idx + i))" if "i < 16" for i
    using that row assms(3) by (simp add: get_arr_def)
  show ?thesis
  proof (cases avx)
    case True
    let ?lo = "cmpeq_mask (slice idx (idx + 8) ?row) (transform512 words delta flag)"
    let ?hi = "cmpeq_mask (slice (idx + 8) (idx + 16) ?row) (transform512 (drop 8 words) delta flag)"
    let ?m = "(NOT (ucast ?lo) AND 0xFF) OR push_bit 8 (NOT (ucast ?hi) AND 0xFF) :: u16"
    have t: "transform512 ws delta flag ! i = (ws ! i AND RX_PACKED_LOW48) + delta OR flag" if "i < 8" for ws i
      using that by (simp add: transform512_def RX_PACKED_LOW48_def)
    have ff: "(0xFF :: u16) = Bit_Operations.mask 8" by (simp add: mask_numeral mask_eq_exp_minus_1)
    have half: "bit (NOT (ucast x) AND 0xFF :: u16) i \<longleftrightarrow> i < 8 \<and> bit (NOT x) i" for x :: u8 and i
      unfolding ff by (auto simp: bit_simps)
    have bits: "bit ?m i \<longleftrightarrow> (if i < 8 then bit (NOT ?lo) i else bit (NOT ?hi) (i - 8))" if "i < 16" for i
      using that unfolding bit_or_iff bit_push_bit_iff half by auto
    have "bit ?m i \<longleftrightarrow> ?row ! (idx + i) \<noteq> (words ! i AND RX_PACKED_LOW48) + delta OR flag" if i: "i < 16" for i
    proof (cases "i < 8")
      case True
      then show ?thesis using bits [OF i] assms(3) row by (simp add: cmpeq_bit t nth_slice)
    next
      case False
      then have j: "i - 8 < 8" "idx + 8 + (i - 8) = idx + i" using i by simp_all
      then show ?thesis
        using bits [OF i] False assms(3,5) row by (simp add: cmpeq_bit t nth_slice)
    qed
    then show ?thesis using True assms(3,4) row by (intro exI [of _ ?m]) (simp add: check_arr16_packed_def Let_def g)
  next
    case False
    have "\<forall>j < length words. get_arr slot (idx + (0 + j)) rx = Some (?row ! (idx + (0 + j)))" using g assms(5) by simp
    from check16_loop_bits [of words "\<lambda>g. get_arr slot (idx + g) rx" 0 "\<lambda>g. ?row ! (idx + g)", OF this, of delta flag 0]
    show ?thesis using False assms(3-5) by (auto simp: check_arr16_packed_def check16_packed_scalar_def g)
  qed
qed

section \<open>Packed words unpack\<close>

lemma unat_ucast_byte: "unat (ucast (a :: u8) :: u64) = unat a"
  by (simp add: unsigned_ucast_eq take_bit_nat_eq_self_iff unat_u8_less [THEN less_trans])

lemma pack_u64_roundtrip: "rx_pack_u64 gen v = Some w \<Longrightarrow> rx_unpack_u64 w = (gen, v)"
proof -
  assume "rx_pack_u64 gen v = Some w"
  then have a: "unat gen < 2 ^ 16" "unat v < 2 ^ 48" "w = push_bit 48 gen OR v"
    by (auto simp: rx_pack_u64_def word_less_nat_alt split: if_splits)
  note lo = low_bits [OF a(1)] low_bits [OF a(2)]
  have m: "(0xFFFFFFFFFFFF :: u64) = Bit_Operations.mask 48" by (simp add: mask_numeral mask_eq_exp_minus_1)
  have "drop_bit 48 w = gen" "w AND 0xFFFFFFFFFFFF = v"
    unfolding a(3) m by (rule bit_word_eqI; auto simp: bit_simps dest: lo)+
  then show ?thesis by (simp add: rx_unpack_u64_def)
qed

lemma pack_record_some: "unat gen < 2 ^ 16 \<Longrightarrow> unat base < 2 ^ 44 \<Longrightarrow> unat a < RX_NARR \<Longrightarrow> \<exists>w. rx_pack_record gen base p a = Some w"
  by (simp add: rx_pack_record_def word_less_nat_alt)

lemma pack_record_roundtrip: "rx_pack_record gen base p a = Some w \<Longrightarrow> rx_unpack_record w = (gen, base, p, a)"
proof -
  assume "rx_pack_record gen base p a = Some w"
  then have h: "unat gen < 2 ^ 16" "unat base < 2 ^ 44" "unat (ucast a :: u64) < 2 ^ 3"
    and w: "w = push_bit 48 gen OR (if p then RX_REC_PASS_BIT OR (base AND RX_REC_BASE_MASK) else base AND RX_REC_BASE_MASK)
      OR push_bit 44 (ucast a)"
    by (auto simp: rx_pack_record_def word_less_nat_alt RX_NARR_def unat_ucast_byte split: if_splits)
  note lo = low_bits [OF h(1)] low_bits [OF h(2)] low_bits [OF h(3)]
  have m: "RX_REC_BASE_MASK = Bit_Operations.mask 44" "RX_REC_SLOT_MASK = push_bit 44 (Bit_Operations.mask 3)"
    by (simp_all add: RX_REC_BASE_MASK_def RX_REC_SLOT_MASK_def mask_numeral mask_eq_exp_minus_1)
  have b: "bit base i \<Longrightarrow> i < 44" "bit gen i \<Longrightarrow> i < 16" for i by (fact lo)+
  have al: "bit a i \<Longrightarrow> i < 3" for i using lo(3) [of i] by (auto simp: bit_simps dest: bit_imp_le_length)
  have c: "bit RX_REC_PASS_BIT i \<longleftrightarrow> i = 47" for i
    unfolding RX_REC_PASS_BIT_def bit_push_bit_iff bit_1_iff by auto
  have wb: "bit w i \<longleftrightarrow> (48 \<le> i \<and> i < 64 \<and> bit gen (i - 48)) \<or> (p \<and> i = 47) \<or> bit base i \<or> (44 \<le> i \<and> i < 64 \<and> bit a (i - 44))" for i
    unfolding w m by (auto simp: bit_or_iff bit_and_iff bit_push_bit_iff bit_mask_iff bit_unsigned_iff c dest: bit_imp_le_length b)
  have 1: "drop_bit 48 w = gen"
    by (rule bit_word_eqI) (auto simp: bit_drop_bit_eq wb dest: b al)
  have 2: "w AND RX_REC_BASE_MASK = base"
    unfolding m by (rule bit_word_eqI) (auto simp: bit_and_iff bit_mask_iff wb dest: b)
  have 3: "w AND RX_REC_PASS_BIT \<noteq> 0 \<longleftrightarrow> p"
  proof -
    have e: "w AND RX_REC_PASS_BIT = (if p then RX_REC_PASS_BIT else 0)"
      by (rule bit_word_eqI) (auto simp: bit_and_iff c wb dest: b al)
    show ?thesis unfolding e by (simp add: RX_REC_PASS_BIT_def)
  qed
  have 4: "ucast (drop_bit 44 (w AND RX_REC_SLOT_MASK)) = a"
    unfolding m by (rule bit_word_eqI) (auto simp: bit_unsigned_iff bit_drop_bit_eq bit_and_iff bit_push_bit_iff bit_mask_iff wb dest: b al)
  show ?thesis unfolding rx_unpack_record_def 1 2 4 using 3 by simp
qed

lemma span_word_roundtrip: "rxdesc_unpack_span (rxdesc_pack_span off len) = (off, len)"
proof -
  have m: "(0xFFFFFFFF :: u64) = Bit_Operations.mask 32" "(0xFFFF :: u64) = Bit_Operations.mask 16"
    by (simp_all add: mask_numeral mask_eq_exp_minus_1)
  have "ucast ((ucast off OR push_bit 32 (ucast len) :: u64) AND Bit_Operations.mask 32) = off"
    "ucast (drop_bit 32 (ucast off OR push_bit 32 (ucast len) :: u64) AND Bit_Operations.mask 16) = len"
    by (rule bit_word_eqI; auto simp: bit_simps dest: bit_imp_le_length)+
  then show ?thesis by (simp add: rxdesc_unpack_span_def rxdesc_pack_span_def m)
qed

section \<open>The record ring\<close>

fun publish_windows :: "(u64 \<times> u64 \<times> bool \<times> u8) list \<Rightarrow> RxdescState \<Rightarrow> RxdescState option" where
  "publish_windows [] rx = Some rx"
| "publish_windows ((gen, base, pass, aslot) # ws) rx =
     (case publish_record (next_slot rx) gen base pass aslot rx of None \<Rightarrow> None | Some rx' \<Rightarrow> publish_windows ws rx')"

definition window_ok :: "u64 \<times> u64 \<times> bool \<times> u8 \<Rightarrow> bool" where
  "window_ok w = (case w of (gen, base, pass, aslot) \<Rightarrow> unat gen < 2 ^ 16 \<and> unat base < 2 ^ 44 \<and> unat aslot < RX_NARR)"

text \<open>The ring after the windows \<open>ws\<close>.\<close>

definition ring_holds :: "(u64 \<times> u64 \<times> bool \<times> u8) list \<Rightarrow> RxdescState \<Rightarrow> bool" where
  "ring_holds ws rx \<longleftrightarrow> rx_wf rx \<and> rx_last_slot rx = (if ws = [] then 255 else of_nat ((length ws - 1) mod 128)) \<and>
     (\<forall>j < length ws. length ws \<le> j + 128 \<longrightarrow> rx_unpack_record (rx_records rx ! (j mod 128)) = ws ! j)"

lemma unat_slot: "i < 128 \<Longrightarrow> unat (of_nat i :: u8) = i"
  by simp

lemma next_slot_ring: "ring_holds ws rx \<Longrightarrow> next_slot rx = of_nat (length ws mod 128)"
proof (cases "ws = []")
  case False
  assume h: "ring_holds ws rx"
  define k where "k = (length ws - 1) mod 128"
  have k: "k < 128" "length ws mod 128 = (k + 1) mod 128" using False
    by (simp_all add: k_def mod_Suc_eq)
  have u: "unat (of_nat k + 1 :: u8) = k + 1" using k(1) by (simp add: unat_word_ariths)
  have "unat ((of_nat k + 1) mod of_nat REC_RING :: u8) = (k + 1) mod 128"
    unfolding unat_mod_distrib u by (simp add: REC_RING_def)
  then have e: "(of_nat k + 1) mod of_nat REC_RING = (of_nat ((k + 1) mod 128) :: u8)"
    by (metis unat_slot mod_less_divisor word_unat_eq_iff zero_less_numeral)
  have "(of_nat k :: u8) \<noteq> 255" using k(1) by (auto simp: word_unat_eq_iff)
  then show ?thesis using h False e k(2) by (simp add: ring_holds_def next_slot_def k_def)
qed (simp add: ring_holds_def next_slot_def)

lemma ring_publish:
  assumes "ring_holds ws rx" "window_ok w"
  shows "\<exists>rx'. publish_windows [w] rx = Some rx' \<and> ring_holds (ws @ [w]) rx'"
proof -
  obtain gen base pass aslot where w: "w = (gen, base, pass, aslot)" by (cases w)
  obtain pk where pk: "rx_pack_record gen base pass aslot = Some pk"
    using pack_record_some assms(2) unfolding window_ok_def w by fastforce
  define k where "k = length ws mod 128"
  have k: "k < 128" by (simp add: k_def)
  have n: "next_slot rx = of_nat k" unfolding k_def by (rule next_slot_ring [OF assms(1)])
  have l: "length (rx_records rx) = 128" using assms(1) by (simp add: ring_holds_def rx_wf_def REC_RING_def)
  let ?rx = "rx\<lparr>rx_records := (rx_records rx)[k := pk], rx_last_slot := of_nat k\<rparr>"
  have p: "publish_record (next_slot rx) gen base pass aslot rx = Some ?rx"
    unfolding n publish_record_def pk unat_slot [OF k] using k l by simp
  have "rx_unpack_record ((rx_records rx)[k := pk] ! (j mod 128)) = (ws @ [w]) ! j"
    if j: "j < length (ws @ [w])" "length (ws @ [w]) \<le> j + 128" for j
  proof (cases "j = length ws")
    case True
    then show ?thesis using pack_record_roundtrip [OF pk] k l by (simp add: k_def w)
  next
    case False
    then have lt: "j < length ws" "length ws < j + 128" using j by simp_all
    have "j mod 128 \<noteq> k"
    proof
      assume "j mod 128 = k"
      then have "(length ws - j) mod 128 = 0" using lt(1) unfolding k_def by (metis less_imp_le_nat mod_eq_dvd_iff_nat mod_0_imp_dvd dvd_imp_mod_0)
      then show False using lt by simp
    qed
    then show ?thesis using assms(1) lt by (simp add: ring_holds_def nth_append)
  qed
  moreover have "rx_wf ?rx" using array_ops_wf(2) [OF _ p] assms(1) by (simp add: ring_holds_def)
  ultimately have "ring_holds (ws @ [w]) ?rx" by (simp add: ring_holds_def k_def)
  then show ?thesis using p by (simp add: w)
qed

lemma publish_windows_snoc:
  "publish_windows (ws @ [w]) rx = (case publish_windows ws rx of None \<Rightarrow> None | Some rx' \<Rightarrow> publish_windows [w] rx')"
  by (induction ws rx rule: publish_windows.induct) (auto split: option.split)

text \<open>C32: (The record ring keeps the last 128 windows.)  Whatever sequence of windows is published into the
  slots the state derives, no assertion fails, and each of the last 128 windows reads back, with its
  generation, base, pass mark and array slot, from its number modulo 128.\<close>

theorem record_ring_keeps_last:
  assumes "\<forall>w \<in> set ws. window_ok w"
  shows "\<exists>rx. publish_windows ws (RxdescState_new armed cap) = Some rx \<and>
    (\<forall>j < length ws. length ws \<le> j + 128 \<longrightarrow> read_record (of_nat (j mod 128)) rx = Some (ws ! j))"
proof -
  have "\<exists>rx. publish_windows ws (RxdescState_new armed cap) = Some rx \<and> ring_holds ws rx"
    using assms
  proof (induction ws rule: rev_induct)
    case Nil
    then show ?case by (simp add: ring_holds_def new_wf) (simp add: RxdescState_new_def Let_def)
  next
    case (snoc w ws)
    then obtain rx where "publish_windows ws (RxdescState_new armed cap) = Some rx" "ring_holds ws rx" by auto
    then show ?case using ring_publish [of ws rx w] snoc.prems by (simp add: publish_windows_snoc)
  qed
  then obtain rx where rx: "publish_windows ws (RxdescState_new armed cap) = Some rx" "ring_holds ws rx" by blast
  have "read_record (of_nat (j mod 128)) rx = Some (ws ! j)" if "j < length ws" "length ws \<le> j + 128" for j
  proof -
    have "unat (of_nat (j mod 128) :: u8) = j mod 128" by (rule unat_slot) simp
    then show ?thesis
      using rx(2) that unfolding read_record_def by (simp add: ring_holds_def rx_wf_def REC_RING_def)
  qed
  then show ?thesis using rx(1) by blast
qed

lemma record_ring_keeps_last_witness:
  "\<exists>rx. publish_windows (replicate 200 (1, 5, True, 2)) (RxdescState_new True 64) = Some rx"
proof -
  have "\<forall>w \<in> set (replicate 200 (1 :: u64, 5 :: u64, True, 2 :: u8)). window_ok w" by (simp add: window_ok_def RX_NARR_def)
  from record_ring_keeps_last [OF this, of True 64] show ?thesis by blast
qed

section \<open>Packed checks\<close>

definition span_words :: "(u64 \<times> u16 \<times> u16) list \<Rightarrow> u64 list" where
  "span_words spans = map (\<lambda>(off, len, cnt). packed_word off len cnt) spans"

definition descriptor :: "u64 \<Rightarrow> u64 \<Rightarrow> u64 \<times> u16 \<times> u16 \<Rightarrow> u64" where
  "descriptor delta flag s = (case s of (off, len, cnt) \<Rightarrow> rxdesc_pack_span (ucast (off + delta)) len OR flag)"

text \<open>C33: (The packed checks find exactly the wrong descriptors.)  Given sixteen packed words of the
  steady ladder and the distance from the batch base to the blob base, such that every offset stays
  below 2 to the 32, bit \<open>i\<close> of the mask is set exactly when array word \<open>i\<close> is not the descriptor of
  span \<open>i\<close> with the flags, on the two-register, the one-register and the scalar path.\<close>

theorem packed_check_finds_descriptors:
  assumes "rx_wf rx" "unat slot < RX_NARR" "idx + 16 \<le> rx_cap rx" "unat delta < 2 ^ 32"
    and "length spans = 16" "\<forall>(off, len, cnt) \<in> set spans. unat off + unat delta < 2 ^ 32"
  shows "(\<exists>m. check_arr16_packed avx512f slot idx (span_words spans) delta flag rx = Some m \<and>
      (\<forall>i < 16. bit m i \<longleftrightarrow> get_arr slot (idx + i) rx \<noteq> Some (descriptor delta flag (spans ! i)))) \<and>
    (\<exists>m. check_arr8_packed avx512f slot idx (take 8 (span_words spans)) delta flag rx = Some m \<and>
      (\<forall>i < 8. bit m i \<longleftrightarrow> get_arr slot (idx + i) rx \<noteq> Some (descriptor delta flag (spans ! i))))"
proof -
  let ?words = "span_words spans"
  have d: "delta \<le> 0xFFFFFFFF" using assms(4) by (simp add: word_le_nat_alt)
  have e: "(?words ! i AND RX_PACKED_LOW48) + delta OR flag = descriptor delta flag (spans ! i)" if "i < 16" for i
  proof -
    obtain off len cnt where s: "spans ! i = (off, len, cnt)" by (metis prod_cases3)
    then have "(off, len, cnt) \<in> set spans" using that assms(5) nth_mem by metis
    then have "unat off + unat delta < 2 ^ 32" using assms(6) by auto
    then show ?thesis using s that assms(5) descriptor_word by (simp add: span_words_def descriptor_def)
  qed
  have l: "length ?words = 16" "length (take 8 ?words) = 8" using assms(5) by (simp_all add: span_words_def)
  have i8: "idx + 8 \<le> rx_cap rx" using assms(3) by simp
  have "\<exists>m. check_arr8_packed avx512f slot idx (take 8 ?words) delta flag rx = Some m \<and>
      (\<forall>i < 8. bit m i \<longleftrightarrow> get_arr slot (idx + i) rx \<noteq> Some (descriptor delta flag (spans ! i)))"
    using check_arr8_packed_bits [OF assms(1,2) i8 d l(2), of avx512f flag] by (simp add: e)
  moreover have "\<exists>m. check_arr16_packed avx512f slot idx ?words delta flag rx = Some m \<and>
      (\<forall>i < 16. bit m i \<longleftrightarrow> get_arr slot (idx + i) rx \<noteq> Some (descriptor delta flag (spans ! i)))"
    using check_arr16_packed_bits [OF assms(1,2,3) d l(1), of avx512f flag] by (simp add: e)
  ultimately show ?thesis by blast
qed

lemma packed_check_finds_descriptors_witness:
  "\<exists>m. check_arr16_packed True 3 4 (span_words (replicate 16 (40, 30, 2))) 100
    RX_AFFINE_FLAG (RxdescState_new True 64) = Some m"
proof -
  have "\<forall>(off, len, cnt) \<in> set (replicate 16 (40 :: u64, 30 :: u16, 2 :: u16)). unat off + unat (100 :: u64) < 2 ^ 32" by simp
  moreover have "unat (3 :: u8) < RX_NARR" "4 + 16 \<le> rx_cap (RxdescState_new True 64)" "unat (100 :: u64) < 2 ^ 32"
    by (simp_all add: RX_NARR_def RxdescState_new_def Let_def)
  ultimately show ?thesis
    using packed_check_finds_descriptors [OF new_wf, of 3 4 True 64 100 "replicate 16 (40, 30, 2)" True RX_AFFINE_FLAG] by auto
qed

section \<open>Tags\<close>

lemma rev_two: "length bs = 2 \<Longrightarrow> bs = [bs ! 0, bs ! 1]"
  by (cases bs; cases "tl bs") auto

text \<open>The portable steps on words are the steps on their bytes.\<close>

lemma crc32c_words:
  "crc32c_u8 c w1 = mm_crc32 c [w1]"
  "crc32c_u16 c w2 = mm_crc32 c (rev (u16_to_be_bytes w2))"
  "crc32c_u32 c w4 = mm_crc32 c (rev (u32_to_be_bytes w4))"
  "crc32c_u64 c w8 = mm_crc32 c (rev (u64_to_be_bytes w8))"
proof -
  have nths: "xs = map (nth xs) [0..<length xs]" for xs :: bytes by (simp add: map_nth)
  show 1: "crc32c_u8 c w1 = mm_crc32 c [w1]" for c w1 by (simp add: crc32c_u8_def mm_crc32_def crc8_def)
  show 2: "crc32c_u16 c w2 = mm_crc32 c (rev (u16_to_be_bytes w2))" for c w2
  proof -
    have l: "length (rev (u16_to_be_bytes w2)) = 2" by simp
    have "rev (u16_to_be_bytes w2) = [rev (u16_to_be_bytes w2) ! 0, rev (u16_to_be_bytes w2) ! 1]" by (rule rev_two [OF l])
    then show ?thesis unfolding crc32c_u16_def Let_def 1 by (metis crc_run.step_append append_Cons append_Nil)
  qed
  show 4: "crc32c_u32 c w4 = mm_crc32 c (rev (u32_to_be_bytes w4))" for c w4
  proof -
    let ?b = "rev (u32_to_be_bytes w4)"
    have b: "?b = [?b ! 0, ?b ! 1] @ [?b ! 2, ?b ! 3]" by (subst nths) (simp add: upt_rec eval_nat_numeral)
    have "crc32c_u32 c w4 = mm_crc32 (mm_crc32 c [?b ! 0, ?b ! 1]) [?b ! 2, ?b ! 3]"
      by (simp add: crc32c_u32_def Let_def 2 u16_to_from_be)
    then show ?thesis by (metis b crc_run.step_append)
  qed
  show "crc32c_u64 c w8 = mm_crc32 c (rev (u64_to_be_bytes w8))"
  proof -
    let ?b = "rev (u64_to_be_bytes w8)"
    have b: "?b = [?b ! 0, ?b ! 1, ?b ! 2, ?b ! 3] @ [?b ! 4, ?b ! 5, ?b ! 6, ?b ! 7]" by (subst nths) (simp add: upt_rec eval_nat_numeral)
    have "crc32c_u64 c w8 = mm_crc32 (mm_crc32 c [?b ! 0, ?b ! 1, ?b ! 2, ?b ! 3]) [?b ! 4, ?b ! 5, ?b ! 6, ?b ! 7]"
      by (simp add: crc32c_u64_def Let_def 4 u32_to_from_be)
    then show ?thesis by (metis b crc_run.step_append)
  qed
qed

interpretation pair_run: run crc_pair
  by unfold_locales (simp_all add: crc_pair_def mm_crc32_def)

text \<open>The copied loops compute what the hash kernel's do.\<close>

lemma frame_tag_lanes_copy: "frame_tag_lanes body = span_lanes body"
  by (simp add: frame_tag_lanes_def span_lanes_def)

lemma frame_tag_fields:
  fixes body :: bytes
  defines "h \<equiv> length body div 2"
  shows "affine_frame_tag body = \<lparr>tc_prefix_crc = mm_crc32 0 (take h body), tc_cum_crc = mm_crc32 0 body,
    tc_raw_crc = mm_crc32 0 (drop h body), tc_lanes = span_lanes body\<rparr>"
proof -
  have h: "h \<le> length body" by (simp add: h_def)
  have 1: "words_upto mm_crc32 h body 0 0 = mm_crc32 0 (take h body)"
    by (simp add: crc_run.words_upto_run h slice_0_take)
  have 2: "words_upto crc_pair (length body) body h c = (mm_crc32 (fst c) (drop h body), mm_crc32 (snd c) (drop h body))" for c
    by (simp add: pair_run.words_upto_run h crc_pair_def slice_def)
  have "mm_crc32 (mm_crc32 0 (take h body)) (drop h body) = mm_crc32 0 body"
    using crc_run.step_append [of 0 "take h body" "drop h body"] by simp
  then show ?thesis by (simp add: affine_frame_tag_def frame_tag_lanes_copy Let_def h_def [symmetric] 1 2)
qed

lemma tag_pack_roundtrip:
  "affine_tag_unpack (affine_tag_pack t v)
    = \<lparr>tv_prefix_crc = tc_prefix_crc t, tv_cum_crc = tc_cum_crc t, tv_raw_crc = tc_raw_crc t, tv_value = v\<rparr>"
proof -
  have "(ucast (ucast a OR push_bit 32 (ucast b) :: u64) :: u32) = a"
    "(ucast (drop_bit 32 (ucast a OR push_bit 32 (ucast b) :: u64)) :: u32) = b" for a b :: u32
    by (rule bit_word_eqI; auto simp: bit_simps dest: bit_imp_le_length)+
  then show ?thesis by (simp add: affine_tag_unpack_def affine_tag_pack_def narrow_wide)
qed

text \<open>C34: (Every tag checks, and carries the hash of its body.)  For every body of at most 4095 bytes the tag the
  producer packs unpacks to three registers that satisfy the affine law, so that the worker's check
  of an intact tag never fails, and to the eight-lane hash of the body: the value a worker
  without tags computes from the payload.\<close>

theorem frame_tag_checks:
  assumes "length body \<le> 4095"
  shows "let t = affine_frame_tag body;
      v = affine_tag_unpack (affine_tag_pack t (span_crc32c_8lane_from_tags mode (tc_lanes t) (length body)))
    in span_crc32c_affine_sub x86_64 (tv_cum_crc v) (tv_prefix_crc v) (length body - length body div 2) = Some (tv_raw_crc v) \<and>
      tv_value v = span_crc32c_8lane mode body"
proof -
  let ?h = "length body div 2"
  have l: "length (drop ?h body) \<le> 2048" using assms(1) by simp
  have "span_crc32c_affine_sub x86_64 (mm_crc32 0 body) (mm_crc32 0 (take ?h body)) (length body - ?h)
      = Some (mm_crc32 0 (drop ?h body))"
    using affine_projection [OF l, of x86_64 "take ?h body"] by simp
  then show ?thesis
    by (simp add: Let_def frame_tag_fields tag_pack_roundtrip span_crc32c_8lane_from_tags_def span_crc32c_8lane_def)
qed

lemma frame_tag_checks_witness:
  "span_crc32c_affine_sub True (tc_cum_crc (affine_frame_tag (replicate 4 7))) (tc_prefix_crc (affine_frame_tag (replicate 4 7))) 2
    = Some (tc_raw_crc (affine_frame_tag (replicate 4 7)))"
  using frame_tag_checks [of "replicate 4 7" Portable True] by (simp add: tag_pack_roundtrip Let_def)

section \<open>The ledger\<close>

lemma ledger_scan_first:
  assumes "n \<le> length es" "i \<le> j" "j < n" "\<forall>k < j. le_body_ptr (es ! k) \<le> le_body_ptr (es ! j)"
  shows "\<exists>k. ledger_scan es n (le_body_ptr (es ! j)) i = Some k \<and> i \<le> k \<and> k \<le> j \<and> le_body_ptr (es ! k) = le_body_ptr (es ! j)"
  using assms(2)
proof (induction "j - i" arbitrary: i)
  case 0
  then show ?case using assms by (subst ledger_scan.simps) simp
next
  case (Suc d)
  then have lt: "i < j" by simp
  show ?case
  proof (cases "le_body_ptr (es ! i) < le_body_ptr (es ! j)")
    case True
    have "\<exists>k. ledger_scan es n (le_body_ptr (es ! j)) (i + 1) = Some k \<and> i + 1 \<le> k \<and> k \<le> j \<and> le_body_ptr (es ! k) = le_body_ptr (es ! j)"
      using Suc lt by (intro Suc.hyps(1)) simp_all
    then show ?thesis using True lt assms(1,3) by (subst ledger_scan.simps) auto
  next
    case False
    have "le_body_ptr (es ! i) = le_body_ptr (es ! j)" using False assms(4) lt by force
    then show ?thesis using lt assms(1,3) by (subst ledger_scan.simps) auto
  qed
qed

text \<open>The lookups of a sink: each starts from the cursor the last match returned.\<close>

fun ledger_lookups :: "(u64 \<times> u32) list \<Rightarrow> nat \<Rightarrow> RxdescState \<Rightarrow> AffineLedgerEntry option list option" where
  "ledger_lookups [] cursor rx = Some []"
| "ledger_lookups ((ptr, len) # qs) cursor rx =
     (case ledger_lookup cursor ptr len rx of
        None \<Rightarrow> None
      | Some None \<Rightarrow> map_option (\<lambda>rs. None # rs) (ledger_lookups qs cursor rx)
      | Some (Some (e, i)) \<Rightarrow> map_option (\<lambda>rs. Some e # rs) (ledger_lookups qs i rx))"

definition ledger_ok :: "RxdescState \<Rightarrow> nat \<Rightarrow> bool" where
  "ledger_ok rx n \<longleftrightarrow> n = unat (rx_ledger_len rx) \<and> n \<le> length (rx_ledger rx) \<and>
     (\<forall>j < n. \<forall>k < j. le_body_ptr (rx_ledger rx ! k) \<le> le_body_ptr (rx_ledger rx ! j) \<and>
        (le_body_ptr (rx_ledger rx ! k) = le_body_ptr (rx_ledger rx ! j) \<longrightarrow> rx_ledger rx ! k = rx_ledger rx ! j))"

lemma ledger_lookup_row:
  assumes "ledger_ok rx n" "cursor \<le> j" "j < n"
  shows "\<exists>k. ledger_lookup cursor (le_body_ptr (rx_ledger rx ! j)) (le_body_len (rx_ledger rx ! j)) rx
      = Some (Some (rx_ledger rx ! j, k)) \<and> k \<le> j"
proof -
  let ?es = "rx_ledger rx"
  have n: "n = unat (rx_ledger_len rx)" "n \<le> length ?es" using assms(1) by (simp_all add: ledger_ok_def)
  obtain k where k: "ledger_scan ?es n (le_body_ptr (?es ! j)) cursor = Some k" "k \<le> j" "le_body_ptr (?es ! k) = le_body_ptr (?es ! j)"
    using ledger_scan_first [OF n(2) assms(2,3)] assms(1,3) unfolding ledger_ok_def by blast
  have "?es ! k = ?es ! j" using assms(1,3) k(2,3) unfolding ledger_ok_def by (metis le_neq_implies_less)
  moreover have "min cursor (length ?es) = cursor" using assms(2,3) n(2) by simp
  ultimately show ?thesis using k assms(3) n by (simp add: ledger_lookup_def Let_def)
qed

text \<open>C35: (The ledger serves the frames in their order.)  If the rows ascend by body address, and rows of
  one address are equal, then for any frames named in non-descending order, with skips and
  repetitions, every lookup from the cursor of the one before finds the frame's row.\<close>

theorem ledger_serves_frames:
  assumes "ledger_ok rx n" "sorted_wrt (\<le>) js" "\<forall>j \<in> set js. cursor \<le> j \<and> j < n"
  shows "ledger_lookups (map (\<lambda>j. (le_body_ptr (rx_ledger rx ! j), le_body_len (rx_ledger rx ! j))) js) cursor rx
    = Some (map (\<lambda>j. Some (rx_ledger rx ! j)) js)"
  using assms(2,3)
proof (induction js arbitrary: cursor)
  case (Cons j js)
  obtain k where "ledger_lookup cursor (le_body_ptr (rx_ledger rx ! j)) (le_body_len (rx_ledger rx ! j)) rx
      = Some (Some (rx_ledger rx ! j, k))" "k \<le> j"
    using ledger_lookup_row [OF assms(1), of cursor j] Cons.prems(2) by auto
  moreover have "\<forall>i \<in> set js. k \<le> i \<and> i < n" using Cons.prems \<open>k \<le> j\<close> by fastforce
  ultimately show ?case using Cons by simp
qed simp

definition sample_row :: "u64 \<Rightarrow> AffineLedgerEntry" where
  "sample_row p = zero_ledger_entry\<lparr>le_body_ptr := p, le_body_len := 9\<rparr>"

lemma ledger_serves_frames_witness:
  "ledger_lookups [(7, 9), (7, 9)] 0
      ((RxdescState_new True 8)\<lparr>rx_ledger := [sample_row 5, sample_row 7, sample_row 7], rx_ledger_len := 3\<rparr>)
    = Some [Some (sample_row 7), Some (sample_row 7)]"
proof -
  let ?rx = "(RxdescState_new True 8)\<lparr>rx_ledger := [sample_row 5, sample_row 7, sample_row 7], rx_ledger_len := 3\<rparr>"
  have "j < 3 \<Longrightarrow> k < j \<Longrightarrow> (j = 1 \<and> k = 0) \<or> (j = 2 \<and> k = 0) \<or> (j = 2 \<and> k = 1)" for j k :: nat by linarith
  then have "\<forall>j < 3. \<forall>k < j. le_body_ptr (rx_ledger ?rx ! k) \<le> le_body_ptr (rx_ledger ?rx ! j) \<and>
      (le_body_ptr (rx_ledger ?rx ! k) = le_body_ptr (rx_ledger ?rx ! j) \<longrightarrow> rx_ledger ?rx ! k = rx_ledger ?rx ! j)"
    by (fastforce simp: sample_row_def)
  then have "ledger_ok ?rx 3" by (simp add: ledger_ok_def)
  from ledger_serves_frames [OF this, of "[1, 2]" 0] show ?thesis by (simp add: sample_row_def)
qed

end
