(* ===== verification/Spec2Isabelle.thy ===== *)
theory Spec2Isabelle
  imports GroupLaw Malformed Generated Blob HeaderVec RecoveryLaw PushResolve LobState IntentLaw SpanStream SpanSink RxdescLaw
begin

text \<open>
  A verification development for the NASDAQ feed handler of this repository: MoldUDP64
  framing, ITCH 5.0 messages, and the sequencer that arbitrates the two redundant feeds
  into one gap-free stream.

  \<^bold>\<open>The program.\<close>  A transport hands frames (byte slices with a feed number and a time) to
  \<open>Sequencer::ingest\<close> (\<open>crates/nf-arbitrator/src/lib.rs\<close>).  The sequencer decodes the MoldUDP64
  header (\<open>crates/nf-protocol/src/moldudp64.rs\<close>), follows session changes, heartbeats and end of
  session (\<open>session.rs\<close>), drops what is below its watermark, emits what is contiguous, stages
  what lies ahead in a 1024-slot window (\<open>window.rs\<close>), opens and closes gaps (\<open>gap.rs\<close>) and
  suggests retransmission requests (\<open>intent.rs\<close>).  Each emitted message passed the ITCH check
  (\<open>itch5.rs\<close>) in the same walk (\<open>packet.rs\<close>).  Two optimised routes do the same work: the
  indexed route takes precomputed block triples and a validation memo, and the batched route
  scans whole polls of frames, eight or sixteen at a time when a vector kernel
  (\<open>crates/nf-testkit/src/soa.rs\<close>) accepts them, with its spans in a record buffer or in packed
  words.

  Around the sequencer stand the replay transport (\<open>crates/nf-transport/src/render.rs\<close>), which
  renders a schedule of packets over a tape of messages into a blob once, indexes it, patches
  session names into it and serves it poll by poll in virtual time; the oracle
  (\<open>crates/nf-testkit/src/reference.rs\<close>), an arbitrator with an unbounded map; the golden hash of a
  tape (\<open>golden.rs\<close>); and the passes that poll the transport into the sequencer
  (\<open>batch_parity.rs\<close>).  The recovery client (\<open>crates/nf-recovery/src/client.rs\<close>) sends the
  retransmission requests; the test server (\<open>fakeserver.rs\<close>) answers them.

  Downstream of the sequencer, in the test kit: the checking sinks and the composable span fold
  (\<open>sink.rs\<close>), the segmented scan over row operations that resolves order references in
  parallel (\<open>orderscan.rs\<close>), the resolver that builds its rows and reads its outputs
  (\<open>sigpush.rs\<close>), the order book aggregates with their token signatures (\<open>lobstate.rs\<close>), the
  polynomial hash of a span's lanes (\<open>polyhash.rs\<close>), and the closed-form fold of spans over the same
  ring with its chunk records, trees and merges (\<open>spanfold.rs\<close>).

  \<^bold>\<open>Conventions.\<close>  Machine integers are words; release builds of the workspace switch overflow
  checks off, so sums wrap.  A slice length is a natural number.  A function with
  \<open>&mut self\<close> takes and returns the record \<open>Sequencer\<close>; calls on the sink are values of
  \<open>SinkCall\<close> returned in order (type \<open>step\<close>, composed by \<open>andThen\<close>).  Errors are values of a
  sum type; a panic of an iterator is \<open>None\<close>.  The time is an argument, as in the code.  The
  sink's answers \<open>wants_spans\<close> and \<open>wants_packed_spans\<close> and the installed vector kernels
  are arguments.  The test mutation modes of the sequencer are part of the state.

  \<^bold>\<open>Theories, in the order of the code.\<close>
  \<^item> \<open>Prelude\<close>: word types, slices, byte order, checked arithmetic.
  \<^item> \<open>MoldUdp64\<close>, \<open>Itch5\<close>, \<open>Packet\<close>: the protocol crate.  \<open>mold_frame\<close> is the wire form the
    parser is characterised by.
  \<^item> \<open>SpecSlice\<close>: the speculative block slicer; locale \<open>spec_table_builder\<close> is the contract of an
    installed table builder, interpreted on the AVX-512 builder of the test kit.
  \<^item> \<open>Counters\<close>, \<open>SeqState\<close>, \<open>Window\<close>, \<open>Control\<close>, \<open>Sequencer\<close>: the arbitrator, one definition
    per handler and per stage of the ingest ladder.
  \<^item> \<open>Soa\<close>, \<open>Batch\<close>: the ladder kernels and the batched apply path.
  \<^item> \<open>WindowLaw\<close>: what the window operations do to the set of staged messages.
  \<^item> \<open>Delivery\<close>: the abstract delivery machine: a watermark, a set of held sequence numbers,
    and a source of messages; a run is a sequence of session eras, each of consecutive messages
    delivered once.
  \<^item> \<open>Arbitration\<close>: the sequencer simulates that machine, frame by frame and over runs.
  \<^item> \<open>Events\<close>: generations, gap events and control state on arbitrary input.
  \<^item> \<open>Malformed\<close>: the partial delivery of malformed packets.
  \<^item> \<open>Indexed\<close>: the indexed route is \<open>ingest\<close>; spans stand for their messages.
  \<^item> \<open>BatchLaw\<close>: a scan is its frames one by one, for every emitter that meets locale
    \<open>span_emitter\<close>; interpreted on the record and the packed emitter.
  \<^item> \<open>GroupLaw\<close>: a verified group is eight or sixteen scalar steps for every kernel that meets
    locale \<open>soa_ladder\<close> (theory \<open>Soa\<close>; interpreted on the scalar and the AVX-512 kernel), and
    the properties of the batch drivers.
  \<^item> \<open>Tape\<close>: the walkers of a tape of length-prefixed messages: golden hash, its cross check, the
    stream audit of the engine, the seek cursor of the renderer.
  \<^item> \<open>Schedule\<close>, \<open>Replay\<close>, \<open>Poll\<close>, \<open>Blob\<close>: the replay transport: schedule events and the rendering of
    one frame, the construction sweep with shared regions and session patching, the three
    poll modes, the memory of the blob.
  \<^item> \<open>ReplayLaw\<close>, \<open>ReplayPatch\<close>, \<open>PollLaw\<close>: the directory invariant of the blob over construction,
    patching, prepatching and reset; agreement of the poll modes, batch contents included.
  \<^item> \<open>ReplayIngest\<close>: the passes.  Locale \<open>replay_body\<close> is the contract of a pass body, interpreted
    on the batched and on the per-frame body; a pass ends, and delivers its schedule.
  \<^item> \<open>Reference\<close>: the oracle, and its simulation with the delivery machine.
  \<^item> \<open>Generator\<close>, \<open>GeneratorLaw\<close>: the schedule builder (\<open>crates/nf-testkit/src/sched.rs\<close>); its packets
    tile the tape, its events are sorted and cover it, it returns.
  \<^item> \<open>Golden\<close>: the composition: a tape cut into packets, rendered, replayed, arbitrated and
    hashed gives the golden hash of the tape.
  \<^item> \<open>Generated\<close>: the same from the configuration of the builder on: without delays, losses never
    show.
  \<^item> \<open>HeaderVec\<close>: the AVX2 header decode of the transport (\<open>crates/nf-transport/src/moldvec.rs\<close>).
  \<^item> \<open>Recovery\<close>, \<open>RecoveryLaw\<close>: client and test server; a response serves its request, and, fed back,
    closes the gap the sequencer asked it for.
  \<^item> \<open>XorAlgebra\<close>: additive functions on words are determined by single bits; locale \<open>shift_ring\<close> is the
    product of words modulo a polynomial, interpreted on both rings of the program.
  \<^item> \<open>Crc32c\<close>: the register of CRC32C over bytes and over the words loops cut them into (locale
    \<open>run\<close>), and its ring: zero bytes multiply by a power.
  \<^item> \<open>Conformance\<close>: the byte hashes and the checking sinks, which accept what the sequencer emits; every
    field they end with.
  \<^item> \<open>IntentLaw\<close>: the invariant of packets and requests that bounds a recovery intent.
  \<^item> \<open>SpanSink\<close>: the span sink accepts the batched stream; \<open>span_emitter\<close> is interpreted once more, on
    the spans one by one.
  \<^item> \<open>SegmentFold\<close>: the span fold and in-place trees; locales \<open>segment_semigroup\<close> and
    \<open>segment_algebra\<close> are the contract of composable records.
  \<^item> \<open>Gf64\<close>, \<open>PolyHash\<close>, \<open>GfOrder\<close>: the ring of 64-bit words modulo \<open>x^64 + x^4 + x^3 + x + 1\<close>: every product
    and reduction of the code computes \<open>gmul\<close>; the polynomial hash and its key schedule; no power of
    \<open>x\<close> below the check of the code is one, by evaluation in the kernel.
  \<^item> \<open>AffineCrc\<close>, \<open>AffineLaw\<close>, \<open>SpanLanes\<close>: the projection of a span's registers from those of a stream
    before and after it (\<open>crcfold.rs\<close>), its Barrett products and power tables evaluated in the kernel,
    and the eight-lane hash.
  \<^item> \<open>Rxdesc\<close>, \<open>RxdescLaw\<close>: the descriptor arrays between transport, sink and workers
    (\<open>crates/nf-transport/src/rxdesc.rs\<close>): tags, packed words, record ring, checks, ledger.
  \<^item> \<open>SpanFold\<close>, \<open>SpanLaw\<close>, \<open>SpanStream\<close>: the span fold.  A tape is the composite of one-message records;
    chunks, streams, trees and merges compute it for every partition.  Locale \<open>segment_semigroup\<close> is
    interpreted on the accumulator.
  \<^item> \<open>OrderScan\<close>: the segmented scan on rows and on columns, scalar and AVX-512; locale
    \<open>scan_algebra\<close> is the contract of its composition.
  \<^item> \<open>PushResolve\<close>: the rows of an order's bucket, the emit stage and the re-anchoring round, against a
    sequential order register; locale \<open>tracking\<close> is what a scanned row says of the register.
  \<^item> \<open>LobState\<close>: batches, windows and signatures against the event by event laws.

  \<^bold>\<open>Bounds and fuel.\<close>  The delivery theorems speak about frames whose sequence numbers stay
  below \<open>SEQ_LIMIT\<close> (2 to the 64 minus 2048), where no sum of the window arithmetic wraps, and about
  sources whose messages pass the ITCH check, so that lengths fit a window slot.  The event
  grammar and control theorems hold for all inputs.  The bounds of a recovery intent hold after
  well-formed packets and timely requests only: a malformed packet on the gap path can leave the
  highest staged number behind, and a request between a change of session and the first data
  packet uses the old watermark; both are recorded as findings.  A message is delivered at most
  once per session era, not over a run in which a session comes back.  The golden laws and the
  agreement with the oracle need every packet within the window of the watermark it meets and none
  after the end of its session; what reaches further is dropped by the sequencer and kept by the
  oracle.  \<open>drain_loop\<close> takes the number of
  staged messages as fuel, which bounds the slots it can empty; \<open>drive\<close> takes one more than the
  number of entries, of which every iteration but the last consumes one; both lemmas show
  the result, not only its safety.  The polling loop of a pass, the emission loop of the oracle, the
  byte-counting loop and the heartbeat loop of the builder are \<open>partial_function\<close>s, and that they
  return is a property.  The other loops recurse on lists or on a decreasing
  position.

  \<^bold>\<open>Not modelled.\<close>  Threads, shared memory and memory ordering of the pipelined
  transport and the verification fabric; sockets, clocks, allocation and benchmark drivers;
  random tapes.  Prefetch instructions and raw pointers of the transport: the blob is a byte
  list, an address is a base plus an offset.  Of the resolver, its decode walk, the order in
  which a batch visits its buckets and the registers replaces inherit from each other (a
  replace row carries the inherited register).  The checksum kernels that fold by carry-less
  multiplication (\<open>crcfold.rs\<close>).
\<close>

end
